(* ===== verification/Prelude.thy ===== *)
theory Prelude
  imports Main "HOL-Library.AList" "HOL-Library.Sublist" "HOL-Library.Char_ord"
    "HOL-Library.List_Lexorder" "HOL-Library.Word" "HOL-Library.Multiset"
begin

text \<open>
  Shared vocabulary of the development: the fact collections, Go's maps, strings and times,
  and the generic lemmas that the component theories use.

  \<^item> A Go string is a sequence of bytes: \<^typ>\<open>string\<close>, a list of 8-bit characters. Go compares
    strings byte by byte, which is the lexicographic order of \<open>List_Lexorder\<close> over \<open>Char_ord\<close>.
  \<^item> A Go map is an association list with distinct keys, read through \<^const>\<open>map_of\<close>.
    Where a map's iteration order could matter the code sorts, and so does the model.
  \<^item> An instant is a number of nanoseconds; \<open>Time.Sub\<close> saturates at the bounds of
    \<open>time.Duration\<close>, a signed 64-bit number of nanoseconds.
\<close>

named_theorems gomap_simps \<open>rewriting facts on Go maps\<close>
named_theorems kr_defs \<open>definitions unfolded by the component proofs\<close>

section \<open>Go maps\<close>

type_synonym ('k, 'v) gomap = "('k \<times> 'v) list"

definition gm_wf :: "('k, 'v) gomap \<Rightarrow> bool" where
  "gm_wf m = distinct (map fst m)"

definition gm_get :: "('k, 'v) gomap \<Rightarrow> 'k \<Rightarrow> 'v option" where
  "gm_get m k = map_of m k"

definition gm_set :: "'k \<Rightarrow> 'v \<Rightarrow> ('k, 'v) gomap \<Rightarrow> ('k, 'v) gomap" where
  "gm_set k v m = AList.update k v m"

definition gm_del :: "'k \<Rightarrow> ('k, 'v) gomap \<Rightarrow> ('k, 'v) gomap" where
  "gm_del k m = filter (\<lambda>(k', _). k' \<noteq> k) m"

definition gm_filter :: "('k \<Rightarrow> 'v \<Rightarrow> bool) \<Rightarrow> ('k, 'v) gomap \<Rightarrow> ('k, 'v) gomap" where
  "gm_filter P m = filter (\<lambda>(k, v). P k v) m"

definition gm_keys :: "('k, 'v) gomap \<Rightarrow> 'k list" where
  "gm_keys m = map fst m"

section \<open>Strings\<close>

definition has_prefix :: "string \<Rightarrow> string \<Rightarrow> bool" where
  "has_prefix s p = (take (length p) s = p)"

fun split_on :: "char \<Rightarrow> string \<Rightarrow> string list" where
  "split_on c [] = [[]]"
| "split_on c (x # xs) =
     (if x = c then [] # split_on c xs
      else (case split_on c xs of [] \<Rightarrow> [[x]] | y # ys \<Rightarrow> (x # y) # ys))"

fun join_with :: "string \<Rightarrow> string list \<Rightarrow> string" where
  "join_with sep [] = []"
| "join_with sep [x] = x"
| "join_with sep (x # y # ys) = x @ sep @ join_with sep (y # ys)"

fun cut_before :: "(char \<Rightarrow> bool) \<Rightarrow> string \<Rightarrow> string \<times> string" where
  "cut_before p [] = ([], [])"
| "cut_before p (x # xs) =
     (if p x then ([], x # xs) else (let (a, b) = cut_before p xs in (x # a, b)))"

section \<open>Instants and durations\<close>

type_synonym go_time = int
type_synonym go_duration = int

definition max_duration :: go_duration where
  "max_duration = 2 ^ 63 - 1"

definition min_duration :: go_duration where
  "min_duration = - (2 ^ 63)"

definition time_sub :: "go_time \<Rightarrow> go_time \<Rightarrow> go_duration" where
  "time_sub a b =
     (if a - b > max_duration then max_duration
      else if a - b < min_duration then min_duration else a - b)"

text \<open>Signed 64-bit arithmetic wraps around.\<close>

definition wrap64 :: "int \<Rightarrow> int" where
  "wrap64 x = (x + 2 ^ 63) mod 2 ^ 64 - 2 ^ 63"

section \<open>Sorted key lists\<close>

text \<open>\<open>slices.Sorted(maps.Keys(m))\<close> and the collect-then-sort idiom: sorted, no duplicates.\<close>

definition sorted_set :: "'a::linorder list \<Rightarrow> 'a list" where
  "sorted_set xs = sort (remdups xs)"

section \<open>Lemmas on Go maps\<close>

lemma gm_get_Nil [simp]: "gm_get [] k = None"
  by (simp add: gm_get_def)

lemma gm_get_Cons: "gm_get ((k, v) # m) k' = (if k = k' then Some v else gm_get m k')"
  by (simp add: gm_get_def)

lemma gm_get_map: "gm_get (map (\<lambda>i. (i, f i)) is) k = (if k \<in> set is then Some (f k) else None)"
  by (induction "is") (auto simp: gm_get_Cons)

lemma gm_get_set [simp, gomap_simps]:
  "gm_get (gm_set k v m) k' = (if k' = k then Some v else gm_get m k')"
  by (simp add: gm_get_def gm_set_def update_conv)

lemma gm_get_del [simp, gomap_simps]:
  "gm_get (gm_del k m) k' = (if k' = k then None else gm_get m k')"
  by (induction m) (auto simp: gm_get_def gm_del_def)

lemma gm_wf_Nil [simp]: "gm_wf []"
  by (simp add: gm_wf_def)

lemma gm_wf_set [simp]: "gm_wf m \<Longrightarrow> gm_wf (gm_set k v m)"
  by (simp add: gm_wf_def gm_set_def distinct_update)

lemma gm_wf_filter [simp]: "gm_wf m \<Longrightarrow> gm_wf (gm_filter P m)"
  unfolding gm_wf_def gm_filter_def by (rule distinct_map_filter)

lemma gm_wf_del [simp]: "gm_wf m \<Longrightarrow> gm_wf (gm_del k m)"
  unfolding gm_wf_def gm_del_def by (rule distinct_map_filter)

lemma gm_get_filter:
  "gm_wf m \<Longrightarrow> gm_get (gm_filter P m) k =
     (case gm_get m k of None \<Rightarrow> None | Some v \<Rightarrow> if P k v then Some v else None)"
proof (induction m)
  case Nil
  then show ?case by (simp add: gm_filter_def)
next
  case (Cons kv m)
  obtain a b where kv: "kv = (a, b)" by (cases kv)
  from Cons.prems have wf: "gm_wf m" and "a \<notin> fst ` set m"
    by (auto simp: gm_wf_def kv)
  then have "gm_get m a = None"
    by (simp add: gm_get_def map_of_eq_None_iff)
  with Cons.IH [OF wf] show ?case
    by (auto simp: gm_filter_def gm_get_def kv split: option.splits)
qed

lemma gm_get_in_set: "gm_get m k = Some v \<Longrightarrow> (k, v) \<in> set m"
  by (simp add: gm_get_def map_of_SomeD)

lemma gm_get_iff_set: "gm_wf m \<Longrightarrow> gm_get m k = Some v \<longleftrightarrow> (k, v) \<in> set m"
  by (simp add: gm_get_def gm_wf_def)

lemma set_gm_keys: "set (gm_keys m) = {k. gm_get m k \<noteq> None}"
  by (auto simp: gm_keys_def gm_get_def map_of_eq_None_iff image_iff)

lemma gm_get_rev: "gm_wf m \<Longrightarrow> gm_get (rev m) k = gm_get m k"
proof (cases "gm_get m k")
  case None
  then show ?thesis by (metis gm_get_def map_of_eq_None_iff set_rev)
next
  case (Some v)
  assume "gm_wf m"
  then show ?thesis using Some by (simp add: gm_get_def gm_wf_def rev_map [symmetric])
qed

lemma gm_get_map_values: "gm_get (map (\<lambda>(k, v). (k, f v)) m) k = map_option f (gm_get m k)"
  by (simp add: gm_get_def map_of_map)

lemma keys_gm_set_present:
  "gm_get m k \<noteq> None \<Longrightarrow> gm_keys (gm_set k v m) = gm_keys m"
  unfolding gm_get_def gm_set_def gm_keys_def
  by (induction m) (auto split: if_splits)

lemma set_gm_set_present:
  "gm_wf m \<Longrightarrow> gm_get m k \<noteq> None \<Longrightarrow>
   gm_set k v m = map (\<lambda>(k', v'). (k', if k' = k then v else v')) m"
proof (induction m)
  case Nil
  then show ?case by simp
next
  case (Cons kv m)
  obtain a b where kv: "kv = (a, b)" by (cases kv)
  show ?case
  proof (cases "a = k")
    case True
    with Cons.prems have "k \<notin> fst ` set m" by (auto simp: kv gm_wf_def)
    then have "map (\<lambda>(k', v'). (k', if k' = k then v else v')) m = map id m"
      by (intro map_cong) (auto simp: image_iff)
    with True show ?thesis by (simp add: kv gm_set_def)
  next
    case False
    with Cons show ?thesis by (auto simp: kv gm_set_def gm_get_def gm_wf_def)
  qed
qed

lemma gm_set_as_map:
  assumes "gm_wf m" and "gm_get m k = Some c"
  shows "gm_set k (h c) m = map (\<lambda>(k', c'). (k', if k' = k then h c' else c')) m"
proof -
  have "c' = c" if "(k, c') \<in> set m" for c'
    using that assms by (simp add: gm_get_iff_set [symmetric])
  then show ?thesis
    using assms by (auto simp: set_gm_set_present intro!: map_cong)
qed

lemma gm_set_same_iff:
  assumes "gm_wf m" and "gm_get m k = Some c"
  shows "gm_set k r m = m \<longleftrightarrow> r = c"
proof
  assume "gm_set k r m = m"
  then show "r = c" using assms(2) by (metis gm_get_set option.inject)
next
  assume "r = c"
  with gm_set_as_map [OF assms, of "\<lambda>x. x"] show "gm_set k r m = m"
    by (auto intro: map_idI)
qed

lemma gm_map_absent:
  "gm_get m k = None \<Longrightarrow> map (\<lambda>(k', c). (k', if k' = k then h c else c)) m = m"
  by (intro map_idI) (auto simp: gm_get_def map_of_eq_None_iff image_iff)

section \<open>Lemmas on strings\<close>

lemma has_prefix_iff: "has_prefix s p \<longleftrightarrow> (\<exists>r. s = p @ r)"
  unfolding has_prefix_def by (metis append_eq_conv_conj append_take_drop_id)

lemma has_prefix_append [simp]: "has_prefix (p @ r) p"
  by (simp add: has_prefix_def)

lemma has_prefix_Nil [simp]: "has_prefix s []"
  by (simp add: has_prefix_def)

lemma split_on_not_Nil [simp]: "split_on c s \<noteq> []"
  by (induction s) (auto split: list.splits)

lemma split_on_free [simp]: "c \<notin> set s \<Longrightarrow> split_on c s = [s]"
  by (induction s) auto

lemma split_on_append:
  "c \<notin> set a \<Longrightarrow> split_on c (a @ c # b) = a # split_on c b"
  by (induction a) (auto split: list.splits)

lemma split_join:
  "xs \<noteq> [] \<Longrightarrow> (\<forall>x \<in> set xs. c \<notin> set x) \<Longrightarrow> split_on c (join_with [c] xs) = xs"
  by (induction "[c]" xs rule: join_with.induct) (auto simp: split_on_append)

lemma split_on_parts_free: "x \<in> set (split_on c s) \<Longrightarrow> c \<notin> set x"
  by (induction s arbitrary: x) (auto split: list.splits if_splits)

lemma append_sep_inj:
  assumes "a @ c # r = b @ c # s" and "c \<notin> set a" and "c \<notin> set b"
  shows "a = b \<and> r = s"
  using assms
proof (induction a arbitrary: b)
  case Nil
  then show ?case by (cases b) auto
next
  case (Cons x a)
  then show ?case by (cases b) auto
qed

lemma cut_before_append:
  "cut_before p s = (a, b) \<Longrightarrow> s = a @ b"
  by (induction p s arbitrary: a b rule: cut_before.induct) (auto split: prod.splits if_splits)

lemma cut_before_free:
  "cut_before p s = (a, b) \<Longrightarrow> \<forall>x \<in> set a. \<not> p x"
  by (induction p s arbitrary: a b rule: cut_before.induct) (auto split: prod.splits if_splits)

lemma cut_before_stop:
  "\<forall>x \<in> set a. \<not> p x \<Longrightarrow> (b = [] \<or> p (hd b)) \<Longrightarrow> cut_before p (a @ b) = (a, b)"
proof (induction a)
  case Nil
  then show ?case by (cases b) auto
next
  case (Cons x a)
  then show ?case by simp
qed

section \<open>Lemmas on sorted key lists\<close>

lemma sorted_sorted_set [simp]: "sorted (sorted_set xs)"
  by (simp add: sorted_set_def)

lemma distinct_sorted_set [simp]: "distinct (sorted_set xs)"
  by (simp add: sorted_set_def)

lemma set_sorted_set [simp]: "set (sorted_set xs) = set xs"
  by (simp add: sorted_set_def)

lemma sorted_set_cong: "set xs = set ys \<Longrightarrow> sorted_set xs = sorted_set ys"
  by (metis distinct_sorted_set set_sorted_set sorted_distinct_set_unique sorted_sorted_set)

lemma sorted_set_id: "sorted xs \<Longrightarrow> distinct xs \<Longrightarrow> sorted_set xs = xs"
  by (simp add: sorted_set_def distinct_remdups_id sorted_sort_id)

section \<open>Lemmas on instants\<close>

lemma time_sub_self [simp]: "time_sub t t = 0"
  by (simp add: time_sub_def max_duration_def min_duration_def)

lemma time_sub_mono: "a \<le> b \<Longrightarrow> time_sub a c \<le> time_sub b c"
  by (auto simp: time_sub_def max_duration_def min_duration_def)

lemma wrap64_id: "min_duration \<le> x \<Longrightarrow> x \<le> max_duration \<Longrightarrow> wrap64 x = x"
  by (simp add: wrap64_def min_duration_def max_duration_def)

lemma time_sub_bounds: "min_duration \<le> time_sub a b" "time_sub a b \<le> max_duration"
  by (auto simp: time_sub_def max_duration_def min_duration_def)

lemma time_sub_less_exact:
  "time_sub a b < w \<Longrightarrow> w \<le> max_duration \<Longrightarrow> b \<le> a \<Longrightarrow> time_sub a b = a - b"
  by (auto simp: time_sub_def min_duration_def split: if_splits)

lemma time_sub_exact:
  "min_duration \<le> a - b \<Longrightarrow> a - b \<le> max_duration \<Longrightarrow> time_sub a b = a - b"
  by (simp add: time_sub_def)

end
