(* ===== verification/Identity.thy ===== *)
theory Identity
  imports Prelude
begin

text \<open>
  Identities (\<open>internal/sink/id.go\<close>, \<open>internal/pipeline/identity.go\<close>,
  \<open>internal/pipeline/special_kinds.go\<close>): the typed sink identity and its order, the
  version-agnostic object key of the work queue, the cache key built from it, the watch scope and
  the cache-key prefix by which a whole scope is evicted, and the predicate that singles out
  Kubernetes Events.
\<close>

section \<open>Sink identity\<close>

datatype sink_id = SinkID (id_kind: string) (id_name: string)

definition DefaultSinkKind :: string where
  "DefaultSinkKind = ''ClickHouseSink''"

definition ID_String :: "sink_id \<Rightarrow> string" where
  "ID_String i = id_kind i @ ''/'' @ id_name i"

definition cmp_compare :: "'a::linorder \<Rightarrow> 'a \<Rightarrow> int" where
  "cmp_compare a b = (if a < b then - 1 else if b < a then 1 else 0)"

fun cmp_or :: "int list \<Rightarrow> int" where
  "cmp_or [] = 0"
| "cmp_or (x # xs) = (if x \<noteq> 0 then x else cmp_or xs)"

definition ID_Compare :: "sink_id \<Rightarrow> sink_id \<Rightarrow> int" where
  "ID_Compare a b = cmp_or [cmp_compare (id_kind a) (id_kind b), cmp_compare (id_name a) (id_name b)]"

text \<open>The order sinks are listed in; \<open>slices.SortFunc\<close> is called with \<open>ID.Compare\<close>.\<close>

instantiation sink_id :: linorder
begin

definition less_eq_sink_id :: "sink_id \<Rightarrow> sink_id \<Rightarrow> bool" where
  "less_eq_sink_id a b = (ID_Compare a b \<le> 0)"

definition less_sink_id :: "sink_id \<Rightarrow> sink_id \<Rightarrow> bool" where
  "less_sink_id a b = (ID_Compare a b < 0)"

instance
proof
  fix x y z :: sink_id
  show "(x < y) = (x \<le> y \<and> \<not> y \<le> x)" and "x \<le> x"
    by (auto simp: less_sink_id_def less_eq_sink_id_def ID_Compare_def cmp_compare_def)
  show "x \<le> y \<Longrightarrow> y \<le> z \<Longrightarrow> x \<le> z"
    by (auto simp: less_eq_sink_id_def ID_Compare_def cmp_compare_def split: if_splits)
  show "x \<le> y \<Longrightarrow> y \<le> x \<Longrightarrow> x = y"
    by (cases x; cases y) (auto simp: less_eq_sink_id_def ID_Compare_def cmp_compare_def split: if_splits)
  show "x \<le> y \<or> y \<le> x"
    by (auto simp: less_eq_sink_id_def ID_Compare_def cmp_compare_def)
qed

end

section \<open>Keys and scopes\<close>

record Key =
  key_sink :: sink_id
  key_group :: string
  key_kind :: string
  key_namespace :: string
  key_name :: string

record ScopeKey =
  scope_group :: string
  scope_kind :: string
  scope_namespace :: string

definition cacheKey :: "Key \<Rightarrow> string" where
  "cacheKey k = key_group k @ ''|'' @ key_kind k @ ''|'' @ key_namespace k @ ''/'' @ key_name k"

definition Scope :: "Key \<Rightarrow> ScopeKey" where
  "Scope k = \<lparr>scope_group = key_group k, scope_kind = key_kind k, scope_namespace = key_namespace k\<rparr>"

definition Key_String :: "Key \<Rightarrow> string" where
  "Key_String k = ID_String (key_sink k) @ ''/'' @ cacheKey k"

definition scopeKeyPrefix :: "ScopeKey \<Rightarrow> string" where
  "scopeKeyPrefix s =
     (let p = scope_group s @ ''|'' @ scope_kind s @ ''|'' in
      if scope_namespace s = [] then p else p @ scope_namespace s @ ''/'')"

section \<open>Kubernetes Events\<close>

definition eventKind :: string where "eventKind = ''Event''"
definition coreGroup :: string where "coreGroup = ''''"
definition eventsGroup :: string where "eventsGroup = ''events.k8s.io''"

definition ephemeralKind :: "string \<Rightarrow> string \<Rightarrow> bool" where
  "ephemeralKind grp knd =
     (if knd \<noteq> eventKind then False else grp = coreGroup \<or> grp = eventsGroup)"

definition Key_ephemeral :: "Key \<Rightarrow> bool" where
  "Key_ephemeral k = ephemeralKind (key_group k) (key_kind k)"

definition Scope_ephemeral :: "ScopeKey \<Rightarrow> bool" where
  "Scope_ephemeral s = ephemeralKind (scope_group s) (scope_kind s)"

section \<open>What the keys rely on\<close>

text \<open>
  API groups and kinds contain no vertical bar and namespaces no slash (the API server's naming
  rules); names are arbitrary.
\<close>

definition key_valid :: "Key \<Rightarrow> bool" where
  "key_valid k = (CHR ''|'' \<notin> set (key_group k) \<and> CHR ''|'' \<notin> set (key_kind k)
     \<and> CHR ''/'' \<notin> set (key_namespace k))"

definition scope_valid :: "ScopeKey \<Rightarrow> bool" where
  "scope_valid s = (CHR ''|'' \<notin> set (scope_group s) \<and> CHR ''|'' \<notin> set (scope_kind s)
     \<and> CHR ''/'' \<notin> set (scope_namespace s))"

text \<open>A scope covers the objects of its kind, in its namespace or, when that is empty, in all.\<close>

definition covers :: "ScopeKey \<Rightarrow> Key \<Rightarrow> bool" where
  "covers s k = (scope_group s = key_group k \<and> scope_kind s = key_kind k
     \<and> (scope_namespace s = [] \<or> scope_namespace s = key_namespace k))"

section \<open>Lemmas\<close>

lemma Scope_valid: "key_valid k \<Longrightarrow> scope_valid (Scope k)"
  by (simp add: key_valid_def scope_valid_def Scope_def)

lemma cacheKey_inj:
  assumes "cacheKey k = cacheKey k'" and "key_valid k" and "key_valid k'"
  shows "key_group k = key_group k' \<and> key_kind k = key_kind k'
    \<and> key_namespace k = key_namespace k' \<and> key_name k = key_name k'"
proof -
  have g: "key_group k = key_group k'
      \<and> key_kind k @ CHR ''|'' # key_namespace k @ CHR ''/'' # key_name k
        = key_kind k' @ CHR ''|'' # key_namespace k' @ CHR ''/'' # key_name k'"
    using assms by (intro append_sep_inj [where c = "CHR ''|''"]) (simp_all add: cacheKey_def key_valid_def)
  then have n: "key_kind k = key_kind k'
      \<and> key_namespace k @ CHR ''/'' # key_name k = key_namespace k' @ CHR ''/'' # key_name k'"
    using assms(2,3) by (intro append_sep_inj [where c = "CHR ''|''"]) (simp_all add: key_valid_def)
  then have "key_namespace k = key_namespace k' \<and> key_name k = key_name k'"
    using assms(2,3) by (intro append_sep_inj [where c = "CHR ''/''"]) (simp_all add: key_valid_def)
  with g n show ?thesis by simp
qed

lemma scope_prefix_covers:
  assumes "covers s k" shows "has_prefix (cacheKey k) (scopeKeyPrefix s)"
  using assms by (auto simp: covers_def has_prefix_iff cacheKey_def scopeKeyPrefix_def Let_def)

lemma covers_scope_prefix:
  assumes "has_prefix (cacheKey k) (scopeKeyPrefix s)" and "key_valid k" and "scope_valid s"
  shows "covers s k"
proof -
  define t where "t = (if scope_namespace s = [] then [] else scope_namespace s @ ''/'')"
  from assms(1) obtain r where "cacheKey k = scopeKeyPrefix s @ r" by (auto simp: has_prefix_iff)
  then have eq: "key_group k @ CHR ''|'' # key_kind k @ CHR ''|'' # key_namespace k @ CHR ''/'' # key_name k
      = scope_group s @ CHR ''|'' # scope_kind s @ CHR ''|'' # t @ r"
    by (simp add: cacheKey_def scopeKeyPrefix_def t_def Let_def)
  have g: "key_group k = scope_group s
      \<and> key_kind k @ CHR ''|'' # key_namespace k @ CHR ''/'' # key_name k = scope_kind s @ CHR ''|'' # t @ r"
    by (rule append_sep_inj [OF eq]) (use assms(2,3) in \<open>simp_all add: key_valid_def scope_valid_def\<close>)
  then have n: "key_kind k = scope_kind s \<and> key_namespace k @ CHR ''/'' # key_name k = t @ r"
    using assms(2,3) by (intro append_sep_inj [where c = "CHR ''|''"]) (simp_all add: key_valid_def scope_valid_def)
  have "scope_namespace s = [] \<or> scope_namespace s = key_namespace k"
  proof (cases "scope_namespace s = []")
    case False
    with n have "key_namespace k @ CHR ''/'' # key_name k = scope_namespace s @ CHR ''/'' # r"
      by (simp add: t_def)
    then have "key_namespace k = scope_namespace s \<and> key_name k = r"
      by (rule append_sep_inj) (use assms(2,3) in \<open>simp_all add: key_valid_def scope_valid_def\<close>)
    then show ?thesis by simp
  qed simp
  with g n show ?thesis by (simp add: covers_def)
qed

section \<open>Properties\<close>

text \<open>
  The cache key identifies the object: two valid keys of one sink share a cache entry exactly
  when they name the same object, whatever the API version (which no key carries).
\<close>

theorem cacheKey_identifies:
  assumes "key_valid k" and "key_valid k'" and "key_sink k = key_sink k'"
  shows "cacheKey k = cacheKey k' \<longleftrightarrow> k = k'"
  using cacheKey_inj [OF _ assms(1,2)] assms(3) by auto

theorem cacheKey_identifies_witness:
  "cacheKey \<lparr>key_sink = SinkID ''S3Sink'' ''a'', key_group = ''batch'', key_kind = ''Job'',
       key_namespace = ''ns'', key_name = ''x''\<rparr>
   \<noteq> cacheKey \<lparr>key_sink = SinkID ''S3Sink'' ''a'', key_group = ''example.com'', key_kind = ''Job'',
       key_namespace = ''ns'', key_name = ''x''\<rparr>"
  by (subst cacheKey_identifies) (simp_all add: key_valid_def)

text \<open>
  Prefix eviction is exact: a cache key starts with a scope's prefix exactly when the scope
  covers the object, so stopping one namespace never touches another whose name it prefixes.
\<close>

theorem scopeKeyPrefix_exact:
  assumes "key_valid k" and "scope_valid s"
  shows "has_prefix (cacheKey k) (scopeKeyPrefix s) \<longleftrightarrow> covers s k"
  using covers_scope_prefix [OF _ assms] scope_prefix_covers by blast

theorem scopeKeyPrefix_exact_witness:
  "\<not> has_prefix (cacheKey \<lparr>key_sink = SinkID ''S3Sink'' ''a'', key_group = '''', key_kind = ''Pod'',
       key_namespace = ''foobar'', key_name = ''x''\<rparr>)
     (scopeKeyPrefix \<lparr>scope_group = '''', scope_kind = ''Pod'', scope_namespace = ''foo''\<rparr>)"
  by (subst scopeKeyPrefix_exact) (simp_all add: key_valid_def scope_valid_def covers_def)

end
