(* ===== verification/HashCache.thy ===== *)
theory HashCache
  imports Identity
begin

text \<open>
  The per-sink dedup cache (\<open>internal/pipeline/hashcache.go\<close>): entries, the version-gated
  operations on them, the delete claim, scope eviction by key prefix and the compressed diff
  baseline. Every operation runs under the cache's mutex, so it is one atomic step of the model.

  The interface the pipeline uses is the locale \<open>versioned_store\<close>; the cache is its
  interpretation \<open>hc\<close>. The zstd codec is a parameter (\<open>zstd_env\<close>): \<open>None\<close> is a codec whose
  construction failed.
\<close>

section \<open>Entries and baselines\<close>

type_synonym entryEncoding = "8 word"

definition encodingRaw :: entryEncoding where "encodingRaw = 0"
definition encodingZstd :: entryEncoding where "encodingZstd = 1"

record CacheEntry =
  ce_Hash :: string
  ce_JSON :: "string option"
  ce_Encoding :: entryEncoding
  ce_UID :: string
  ce_APIVersion :: string
  ce_ModifiedSinceCheckpoint :: int
  ce_Version :: "64 word"
  ce_PendingDelete :: bool

definition CacheEntry_zero :: CacheEntry where
  "CacheEntry_zero = \<lparr>ce_Hash = [], ce_JSON = None, ce_Encoding = encodingRaw, ce_UID = [],
     ce_APIVersion = [], ce_ModifiedSinceCheckpoint = 0, ce_Version = 0, ce_PendingDelete = False\<rparr>"

record zstd_env =
  zstdEncoder :: "(string \<Rightarrow> string) option"
  zstdDecoder :: "(string \<Rightarrow> string option) option"

definition zstdMagic :: string where
  "zstdMagic = [CHR 0x28, CHR 0xB5, CHR 0x2F, CHR 0xFD]"

datatype baselineError =
    MissingMagic nat
  | DecoderUnavailable
  | DecodeFailed
  | UnknownEncoding entryEncoding

definition compressBaseline :: "zstd_env \<Rightarrow> string option \<Rightarrow> string option \<times> entryEncoding \<times> bool" where
  "compressBaseline z raw =
     (case (raw, zstdEncoder z) of
        (Some bs, Some encodeAll) \<Rightarrow>
          if bs = [] then (raw, encodingRaw, False) else (Some (encodeAll bs), encodingZstd, True)
      | _ \<Rightarrow> (raw, encodingRaw, False))"

definition decodeBaseline :: "zstd_env \<Rightarrow> CacheEntry \<Rightarrow> baselineError + string option" where
  "decodeBaseline z e =
     (case ce_JSON e of
        None \<Rightarrow> Inr None
      | Some bs \<Rightarrow>
          if ce_Encoding e = encodingRaw then Inr (Some bs)
          else if ce_Encoding e = encodingZstd then
            (if \<not> has_prefix bs zstdMagic then Inl (MissingMagic (length bs))
             else case zstdDecoder z of
                    None \<Rightarrow> Inl DecoderUnavailable
                  | Some decodeAll \<Rightarrow>
                      (case decodeAll bs of None \<Rightarrow> Inl DecodeFailed | Some r \<Rightarrow> Inr (Some r)))
          else Inl (UnknownEncoding (ce_Encoding e)))"

section \<open>The cache\<close>

type_synonym hashCache = "(string, CacheEntry) gomap"

definition Len :: "hashCache \<Rightarrow> nat" where
  "Len c = length c"

definition Load :: "string \<Rightarrow> hashCache \<Rightarrow> CacheEntry option" where
  "Load key c = gm_get c key"

definition Reserve :: "string \<Rightarrow> CacheEntry \<Rightarrow> hashCache \<Rightarrow> 64 word \<times> hashCache" where
  "Reserve key entry c =
     (let cur = (case gm_get c key of None \<Rightarrow> CacheEntry_zero | Some e \<Rightarrow> e);
          entry' = entry\<lparr>ce_Version := ce_Version cur + 1\<rparr>
      in (ce_Version entry', gm_set key entry' c))"

definition CommitIfCurrent :: "string \<Rightarrow> 64 word \<Rightarrow> CacheEntry \<Rightarrow> hashCache \<Rightarrow> bool \<times> hashCache" where
  "CommitIfCurrent key expectedVersion entry c =
     (let store = (True, gm_set key (entry\<lparr>ce_Version := expectedVersion\<rparr>) c) in
      case gm_get c key of
        Some cur \<Rightarrow> if ce_Version cur \<noteq> expectedVersion then (False, c) else store
      | None \<Rightarrow> if expectedVersion \<noteq> 0 then (False, c) else store)"

definition DeleteIfCurrent :: "string \<Rightarrow> 64 word \<Rightarrow> hashCache \<Rightarrow> bool \<times> hashCache" where
  "DeleteIfCurrent key expectedVersion c =
     (case gm_get c key of
        None \<Rightarrow> (False, c)
      | Some cur \<Rightarrow> if ce_Version cur \<noteq> expectedVersion then (False, c) else (True, gm_del key c))"

datatype deleteClaimOutcome =
  deleteClaimed | deleteClaimAbsent | deleteClaimInFlight | deleteClaimUIDMismatch

fun deleteClaimOutcome_String :: "deleteClaimOutcome \<Rightarrow> string" where
  "deleteClaimOutcome_String deleteClaimed = ''claimed''"
| "deleteClaimOutcome_String deleteClaimAbsent = ''absent''"
| "deleteClaimOutcome_String deleteClaimInFlight = ''in-flight''"
| "deleteClaimOutcome_String deleteClaimUIDMismatch = ''uid-mismatch''"

definition ReserveDelete ::
    "string \<Rightarrow> string \<Rightarrow> hashCache \<Rightarrow> (CacheEntry \<times> 64 word \<times> deleteClaimOutcome) \<times> hashCache" where
  "ReserveDelete key expectedUID c =
     (case gm_get c key of
        None \<Rightarrow> ((CacheEntry_zero, 0, deleteClaimAbsent), c)
      | Some cur \<Rightarrow>
          if ce_PendingDelete cur then ((CacheEntry_zero, 0, deleteClaimInFlight), c)
          else if expectedUID \<noteq> [] \<and> ce_UID cur \<noteq> expectedUID
          then ((CacheEntry_zero, 0, deleteClaimUIDMismatch), c)
          else (let cur' = cur\<lparr>ce_Version := ce_Version cur + 1, ce_PendingDelete := True\<rparr>
                in ((cur, ce_Version cur', deleteClaimed), gm_set key cur' c)))"

definition UnclaimDelete :: "string \<Rightarrow> 64 word \<Rightarrow> hashCache \<Rightarrow> hashCache" where
  "UnclaimDelete key expectedVersion c =
     (case gm_get c key of
        None \<Rightarrow> c
      | Some cur \<Rightarrow> if ce_Version cur \<noteq> expectedVersion then c
                    else gm_set key (cur\<lparr>ce_PendingDelete := False\<rparr>) c)"

definition StoreIfAbsent :: "string \<Rightarrow> CacheEntry \<Rightarrow> hashCache \<Rightarrow> hashCache" where
  "StoreIfAbsent key entry c =
     (case gm_get c key of Some _ \<Rightarrow> c | None \<Rightarrow> gm_set key (entry\<lparr>ce_Version := 1\<rparr>) c)"

definition DeletePrefix :: "string \<Rightarrow> hashCache \<Rightarrow> nat \<times> hashCache" where
  "DeletePrefix pre c =
     (length (filter (\<lambda>(key, _). has_prefix key pre) c),
      gm_filter (\<lambda>key _. \<not> has_prefix key pre) c)"

section \<open>Sequences of cache operations\<close>

text \<open>
  The cache's mutex makes every execution a sequence of these operations, in the order in which
  the lock was taken, whichever goroutine issued them.
\<close>

datatype cache_op =
    OpReserve string CacheEntry
  | OpCommit string "64 word" CacheEntry
  | OpDelete string "64 word"
  | OpClaim string string
  | OpUnclaim string "64 word"
  | OpStore string CacheEntry
  | OpEvict string

fun cache_step :: "cache_op \<Rightarrow> hashCache \<Rightarrow> hashCache" where
  "cache_step (OpReserve k e) c = snd (Reserve k e c)"
| "cache_step (OpCommit k v e) c = snd (CommitIfCurrent k v e c)"
| "cache_step (OpDelete k v) c = snd (DeleteIfCurrent k v c)"
| "cache_step (OpClaim k uid) c = snd (ReserveDelete k uid c)"
| "cache_step (OpUnclaim k v) c = UnclaimDelete k v c"
| "cache_step (OpStore k e) c = StoreIfAbsent k e c"
| "cache_step (OpEvict p) c = snd (DeletePrefix p c)"

definition cache_run :: "cache_op list \<Rightarrow> hashCache \<Rightarrow> hashCache" where
  "cache_run ops c = fold cache_step ops c"

text \<open>The operations that may remove a key's entry.\<close>

fun removes :: "string \<Rightarrow> cache_op \<Rightarrow> bool" where
  "removes k (OpDelete k' _) = (k' = k)"
| "removes k (OpEvict p) = has_prefix k p"
| "removes k _ = False"

definition claimable :: "string \<Rightarrow> CacheEntry option \<Rightarrow> bool" where
  "claimable uid cur =
     (case cur of None \<Rightarrow> False
      | Some e \<Rightarrow> \<not> ce_PendingDelete e \<and> (uid = [] \<or> ce_UID e = uid))"

text \<open>The operations that issue a new version for a key.\<close>

fun issues_version :: "string \<Rightarrow> cache_op \<Rightarrow> CacheEntry option \<Rightarrow> bool" where
  "issues_version k (OpReserve k' _) cur = (k' = k)"
| "issues_version k (OpClaim k' uid) cur = (k' = k \<and> claimable uid cur)"
| "issues_version k _ cur = False"

fun issued :: "string \<Rightarrow> cache_op list \<Rightarrow> hashCache \<Rightarrow> nat" where
  "issued k [] c = 0"
| "issued k (op # ops) c =
     (if issues_version k op (Load k c) then 1 else 0) + issued k ops (cache_step op c)"

text \<open>The operations that cannot settle, supersede or evict the claim on a key at a version.\<close>

fun leaves_claim :: "string \<Rightarrow> 64 word \<Rightarrow> cache_op \<Rightarrow> bool" where
  "leaves_claim k v (OpReserve k' _) = (k' \<noteq> k)"
| "leaves_claim k v (OpCommit k' v' _) = (k' \<noteq> k \<or> v' \<noteq> v)"
| "leaves_claim k v (OpDelete k' v') = (k' \<noteq> k \<or> v' \<noteq> v)"
| "leaves_claim k v (OpUnclaim k' v') = (k' \<noteq> k \<or> v' \<noteq> v)"
| "leaves_claim k v (OpEvict p) = (\<not> has_prefix k p)"
| "leaves_claim k v _ = True"

section \<open>The interface\<close>

definition next_version :: "CacheEntry option \<Rightarrow> 64 word" where
  "next_version cur = (case cur of None \<Rightarrow> 1 | Some e \<Rightarrow> ce_Version e + 1)"

text \<open>
  What the pipeline relies on: how each operation changes what a lookup of any key returns.
\<close>

locale versioned_store =
  fixes inv :: "'c \<Rightarrow> bool"
    and load :: "string \<Rightarrow> 'c \<Rightarrow> CacheEntry option"
    and step :: "cache_op \<Rightarrow> 'c \<Rightarrow> 'c"
  assumes inv_step: "inv c \<Longrightarrow> inv (step op c)"
    and load_reserve: "load k (step (OpReserve k' e) c) =
      (if k = k' then Some (e\<lparr>ce_Version := next_version (load k c)\<rparr>) else load k c)"
    and load_commit: "load k (step (OpCommit k' v e) c) =
      (if k = k' \<and> (case load k c of None \<Rightarrow> v = 0 | Some cur \<Rightarrow> ce_Version cur = v)
       then Some (e\<lparr>ce_Version := v\<rparr>) else load k c)"
    and load_delete: "load k (step (OpDelete k' v) c) =
      (if k = k' \<and> (\<exists>cur. load k c = Some cur \<and> ce_Version cur = v) then None else load k c)"
    and load_claim: "load k (step (OpClaim k' uid) c) =
      (if k = k' \<and> claimable uid (load k c)
       then map_option (\<lambda>e. e\<lparr>ce_Version := ce_Version e + 1, ce_PendingDelete := True\<rparr>) (load k c)
       else load k c)"
    and load_unclaim: "load k (step (OpUnclaim k' v) c) =
      (if k = k' then map_option (\<lambda>e. e\<lparr>ce_PendingDelete := ce_PendingDelete e \<and> ce_Version e \<noteq> v\<rparr>) (load k c)
       else load k c)"
    and load_store: "load k (step (OpStore k' e) c) =
      (if k = k' \<and> load k c = None then Some (e\<lparr>ce_Version := 1\<rparr>) else load k c)"
    and load_evict: "inv c \<Longrightarrow> load k (step (OpEvict p) c) =
      (if has_prefix k p then None else load k c)"
begin

lemmas load_laws = load_reserve load_commit load_delete load_claim load_unclaim load_store load_evict

lemma step_version:
  assumes "inv c" and "load k c = Some e" and "\<not> removes k op"
  shows "\<exists>e'. load k (step op c) = Some e'
    \<and> ce_Version e' = ce_Version e + (if issues_version k op (load k c) then 1 else 0)"
  using assms by (cases op) (auto simp: load_laws next_version_def claimable_def)

lemma step_claim_kept:
  assumes "inv c" and "load k c = Some e" and "ce_PendingDelete e" and "leaves_claim k (ce_Version e) op"
  shows "load k (step op c) = Some e"
  using assms by (cases op) (auto simp: load_laws claimable_def)

lemma claim_kept:
  assumes "inv c" and "load k c = Some e" and "ce_PendingDelete e"
    and "list_all (leaves_claim k (ce_Version e)) ops"
  shows "load k (fold step ops c) = Some e"
  using assms
proof (induction ops arbitrary: c)
  case (Cons op ops)
  then have "load k (step op c) = Some e" by (intro step_claim_kept) auto
  with Cons show ?case by (simp add: inv_step)
qed simp

end

section \<open>The cache provides the interface\<close>

lemma gm_get_DeletePrefix:
  "gm_wf c \<Longrightarrow> gm_get (snd (DeletePrefix p c)) k = (if has_prefix k p then None else gm_get c k)"
  by (auto simp: DeletePrefix_def gm_get_filter split: option.splits)

lemmas cache_op_defs =
  Load_def Reserve_def CommitIfCurrent_def DeleteIfCurrent_def ReserveDelete_def UnclaimDelete_def
  StoreIfAbsent_def Let_def

lemma cache_step_wf: "gm_wf c \<Longrightarrow> gm_wf (cache_step op c)"
  by (cases op) (auto simp: cache_op_defs DeletePrefix_def split: option.splits)

interpretation hc: versioned_store gm_wf Load cache_step
proof
  fix c :: hashCache and k k' p uid :: string and v :: "64 word" and e :: CacheEntry and op
  show "gm_wf c \<Longrightarrow> gm_wf (cache_step op c)"
    by (rule cache_step_wf)
  show "Load k (cache_step (OpReserve k' e) c)
      = (if k = k' then Some (e\<lparr>ce_Version := next_version (Load k c)\<rparr>) else Load k c)"
    by (auto simp: cache_op_defs next_version_def CacheEntry_zero_def split: option.splits)
  show "Load k (cache_step (OpCommit k' v e) c)
      = (if k = k' \<and> (case Load k c of None \<Rightarrow> v = 0 | Some cur \<Rightarrow> ce_Version cur = v)
         then Some (e\<lparr>ce_Version := v\<rparr>) else Load k c)"
    by (auto simp: cache_op_defs split: option.splits)
  show "Load k (cache_step (OpDelete k' v) c)
      = (if k = k' \<and> (\<exists>cur. Load k c = Some cur \<and> ce_Version cur = v) then None else Load k c)"
    by (auto simp: cache_op_defs split: option.splits)
  show "Load k (cache_step (OpClaim k' uid) c)
      = (if k = k' \<and> claimable uid (Load k c)
         then map_option (\<lambda>e. e\<lparr>ce_Version := ce_Version e + 1, ce_PendingDelete := True\<rparr>) (Load k c)
         else Load k c)"
    by (auto simp: cache_op_defs claimable_def split: option.splits)
  show "Load k (cache_step (OpUnclaim k' v) c)
      = (if k = k' then map_option (\<lambda>e. e\<lparr>ce_PendingDelete := ce_PendingDelete e \<and> ce_Version e \<noteq> v\<rparr>) (Load k c)
         else Load k c)"
    by (auto simp: cache_op_defs split: option.splits)
  show "Load k (cache_step (OpStore k' e) c)
      = (if k = k' \<and> Load k c = None then Some (e\<lparr>ce_Version := 1\<rparr>) else Load k c)"
    by (auto simp: cache_op_defs split: option.splits)
  show "gm_wf c \<Longrightarrow> Load k (cache_step (OpEvict p) c) = (if has_prefix k p then None else Load k c)"
    by (simp add: Load_def gm_get_DeletePrefix)
qed

section \<open>Lemmas on sequences of operations\<close>

lemma cache_run_wf: "gm_wf c \<Longrightarrow> gm_wf (cache_run ops c)"
  unfolding cache_run_def by (induction ops arbitrary: c) (auto simp: cache_step_wf)

lemma run_version:
  assumes "gm_wf c" and "Load k c = Some e" and "list_all (\<lambda>op. \<not> removes k op) ops"
  shows "\<exists>e'. Load k (cache_run ops c) = Some e' \<and> ce_Version e' = ce_Version e + of_nat (issued k ops c)"
  using assms
proof (induction ops arbitrary: c e)
  case Nil
  then show ?case by (simp add: cache_run_def)
next
  case (Cons op ops)
  obtain e1 where e1: "Load k (cache_step op c) = Some e1"
      "ce_Version e1 = ce_Version e + (if issues_version k op (Load k c) then 1 else 0)"
    using hc.step_version [of c k e op] Cons.prems by auto
  have "\<exists>e'. Load k (cache_run ops (cache_step op c)) = Some e'
      \<and> ce_Version e' = ce_Version e1 + of_nat (issued k ops (cache_step op c))"
    using Cons.prems e1(1) by (intro Cons.IH) (auto simp: cache_step_wf)
  then show ?case by (auto simp: cache_run_def e1(2) ac_simps)
qed

lemma of_nat_word64_nonzero: "0 < n \<Longrightarrow> n < 2 ^ 64 \<Longrightarrow> (of_nat n :: 64 word) \<noteq> 0"
  by (simp add: word_of_nat_eq_0_iff nat_dvd_not_less)

lemma Load_Reserve: "Reserve k e c = (u, c1) \<Longrightarrow> Load k c1 = Some (e\<lparr>ce_Version := u\<rparr>)"
  by (auto simp: cache_op_defs)

lemma Reserve_wf: "gm_wf c \<Longrightarrow> Reserve k e c = (u, c1) \<Longrightarrow> gm_wf c1"
  by (auto simp: cache_op_defs)

lemma other_version_noop:
  assumes "Load k c = Some cur" and "ce_Version cur \<noteq> u"
  shows "CommitIfCurrent k u e c = (False, c)" and "DeleteIfCurrent k u c = (False, c)"
    and "UnclaimDelete k u c = c"
  using assms by (simp_all add: cache_op_defs)

lemma ReserveDelete_claimed:
  assumes "ReserveDelete k uid c = ((e, v, deleteClaimed), c1)"
  shows "Load k c = Some e" and "\<not> ce_PendingDelete e" and "uid = [] \<or> ce_UID e = uid"
    and "v = ce_Version e + 1" and "c1 = gm_set k (e\<lparr>ce_Version := v, ce_PendingDelete := True\<rparr>) c"
  using assms by (auto simp: cache_op_defs split: option.splits if_splits)

section \<open>Properties\<close>

text \<open>
  A write whose version has been superseded settles as a no-op. Once a key has been reserved
  (version \<open>u\<close>) and then reserved or claimed again, by any interleaving of cache operations in
  which its entry is not removed, neither the commit, nor the revert, nor the release of the older
  write changes the cache. (The counter has 64 bits: fewer than 2^64 versions are issued in between.)
\<close>

theorem superseded_settlement_noop:
  assumes "gm_wf c" and "Reserve k e c = (u, c1)"
    and "list_all (\<lambda>op. \<not> removes k op) ops"
    and "0 < issued k ops c1" and "issued k ops c1 < 2 ^ 64"
  shows "CommitIfCurrent k u e' (cache_run ops c1) = (False, cache_run ops c1)
    \<and> DeleteIfCurrent k u (cache_run ops c1) = (False, cache_run ops c1)
    \<and> UnclaimDelete k u (cache_run ops c1) = cache_run ops c1"
proof -
  obtain cur where cur: "Load k (cache_run ops c1) = Some cur" "ce_Version cur = u + of_nat (issued k ops c1)"
    using run_version [OF Reserve_wf [OF assms(1,2)] Load_Reserve [OF assms(2)] assms(3)] by auto
  have "ce_Version cur \<noteq> u"
    using of_nat_word64_nonzero [OF assms(4,5)] by (simp add: cur(2))
  from other_version_noop [OF cur(1) this] show ?thesis by simp
qed

theorem superseded_settlement_noop_witness:
  "let e = CacheEntry_zero; c1 = snd (Reserve ''a'' e []);
       c2 = cache_run [OpReserve ''b'' e, OpClaim ''a'' [], OpReserve ''a'' (e\<lparr>ce_Hash := ''h''\<rparr>)] c1
   in fst (Reserve ''a'' e []) = 1 \<and> CommitIfCurrent ''a'' 1 e c2 = (False, c2)"
proof -
  let ?c1 = "[(''a'', CacheEntry_zero\<lparr>ce_Version := 1\<rparr>)]"
  have r: "Reserve ''a'' CacheEntry_zero [] = (1, ?c1)"
    by (simp add: cache_op_defs gm_set_def CacheEntry_zero_def)
  have n: "issued ''a'' [OpReserve ''b'' CacheEntry_zero, OpClaim ''a'' [],
      OpReserve ''a'' (CacheEntry_zero\<lparr>ce_Hash := ''h''\<rparr>)] ?c1 = 2"
    by (simp add: cache_op_defs gm_get_def gm_set_def claimable_def CacheEntry_zero_def)
  show ?thesis
    using superseded_settlement_noop [OF _ r, where e' = CacheEntry_zero and
        ops = "[OpReserve ''b'' CacheEntry_zero, OpClaim ''a'' [], OpReserve ''a'' (CacheEntry_zero\<lparr>ce_Hash := ''h''\<rparr>)]"]
    unfolding n by (simp add: r)
qed

text \<open>
  Removal of an entry restarts its version numbering, so the guarantee above does not extend
  over it: the sequence reserve (write A), delete claim (write B), B confirmed, recreation reserved
  (write C) lets A's late commit replace C's entry, with A's content and A's UID.
\<close>

theorem stale_commit_clobbers_after_removal:
  "\<exists>k a b ops. fst (Reserve k a []) = 1
     \<and> ops = [OpReserve k a, OpClaim k [], OpDelete k 2, OpReserve k b]
     \<and> Load k (cache_run ops []) = Some (b\<lparr>ce_Version := 1\<rparr>)
     \<and> ce_UID a \<noteq> ce_UID b
     \<and> CommitIfCurrent k 1 a (cache_run ops []) = (True, [(k, a\<lparr>ce_Version := 1\<rparr>)])"
proof -
  let ?a = "CacheEntry_zero\<lparr>ce_UID := ''old''\<rparr>" and ?b = "CacheEntry_zero\<lparr>ce_UID := ''new''\<rparr>"
  have "cache_run [OpReserve ''k'' ?a, OpClaim ''k'' [], OpDelete ''k'' 2, OpReserve ''k'' ?b] []
      = [(''k'', ?b\<lparr>ce_Version := 1\<rparr>)]"
    by (simp add: cache_run_def cache_op_defs gm_set_def gm_get_def gm_del_def CacheEntry_zero_def)
  then show ?thesis
    by (intro exI [of _ "''k''"] exI [of _ ?a] exI [of _ ?b])
      (simp add: cache_op_defs gm_set_def gm_get_def CacheEntry_zero_def)
qed

text \<open>
  A claimed deletion has one owner. After a successful claim of a key, and until that very
  claim is settled, superseded by a reservation of the key, or evicted with its scope, every other
  claim of the key is refused as in flight, whatever else happens to the cache meanwhile.
\<close>

theorem delete_claim_exclusive:
  assumes "gm_wf c" and "ReserveDelete k uid c = ((e, v, deleteClaimed), c1)"
    and "list_all (leaves_claim k v) ops"
  shows "ReserveDelete k uid' (cache_run ops c1) = ((CacheEntry_zero, 0, deleteClaimInFlight), cache_run ops c1)"
proof -
  define e' where "e' = e\<lparr>ce_Version := v, ce_PendingDelete := True\<rparr>"
  have "Load k c1 = Some e'" and "gm_wf c1"
    using ReserveDelete_claimed(5) [OF assms(2)] assms(1) by (simp_all add: Load_def e'_def)
  then have "Load k (fold cache_step ops c1) = Some e'"
    using assms(3) by (intro hc.claim_kept) (simp_all add: e'_def)
  then show ?thesis
    by (simp add: ReserveDelete_def Load_def cache_run_def e'_def)
qed

theorem delete_claim_exclusive_witness:
  "let e = CacheEntry_zero\<lparr>ce_UID := ''u'', ce_Version := 7\<rparr>; c1 = snd (ReserveDelete ''a'' ''u'' [(''a'', e)]);
       c2 = cache_run [OpCommit ''a'' 7 e, OpClaim ''a'' ''u'', OpStore ''a'' e] c1
   in snd (snd (fst (ReserveDelete ''a'' ''u'' [(''a'', e)]))) = deleteClaimed
      \<and> ReserveDelete ''a'' [] c2 = ((CacheEntry_zero, 0, deleteClaimInFlight), c2)"
proof -
  let ?e = "CacheEntry_zero\<lparr>ce_UID := ''u'', ce_Version := 7\<rparr>"
  have r: "ReserveDelete ''a'' ''u'' [(''a'', ?e)]
      = ((?e, 8, deleteClaimed), [(''a'', ?e\<lparr>ce_Version := 8, ce_PendingDelete := True\<rparr>)])"
    by (simp add: cache_op_defs gm_set_def gm_get_def CacheEntry_zero_def)
  show ?thesis
    using delete_claim_exclusive [OF _ r, where uid' = "[]" and
        ops = "[OpCommit ''a'' 7 ?e, OpClaim ''a'' ''u'', OpStore ''a'' ?e]"]
    by (simp add: r gm_wf_def)
qed

text \<open>
  Evicting a scope removes the entries of exactly the objects the scope covers and reports how
  many there were.
\<close>

theorem DeletePrefix_scope_exact:
  assumes "gm_wf c" and "key_valid k" and "scope_valid s"
  shows "Load (cacheKey k) (snd (DeletePrefix (scopeKeyPrefix s) c))
      = (if covers s k then None else Load (cacheKey k) c)
    \<and> fst (DeletePrefix (scopeKeyPrefix s) c) + Len (snd (DeletePrefix (scopeKeyPrefix s) c)) = Len c"
proof -
  have "has_prefix (cacheKey k) (scopeKeyPrefix s) \<longleftrightarrow> covers s k"
    using covers_scope_prefix [OF _ assms(2,3)] scope_prefix_covers by blast
  then have "Load (cacheKey k) (snd (DeletePrefix (scopeKeyPrefix s) c))
      = (if covers s k then None else Load (cacheKey k) c)"
    using assms(1) by (simp add: Load_def gm_get_DeletePrefix)
  moreover have "fst (DeletePrefix (scopeKeyPrefix s) c) + Len (snd (DeletePrefix (scopeKeyPrefix s) c)) = Len c"
    using sum_length_filter_compl [of "\<lambda>(key, _). has_prefix key (scopeKeyPrefix s)" c]
    by (simp add: DeletePrefix_def gm_filter_def Len_def case_prod_beta')
  ultimately show ?thesis by blast
qed

theorem DeletePrefix_scope_exact_witness:
  "let pod = \<lambda>ns. \<lparr>key_sink = SinkID ''S3Sink'' ''a'', key_group = [], key_kind = ''Pod'',
         key_namespace = ns, key_name = ''x''\<rparr>;
       c = [(cacheKey (pod ''foo''), CacheEntry_zero), (cacheKey (pod ''foobar''), CacheEntry_zero)];
       c' = snd (DeletePrefix (scopeKeyPrefix \<lparr>scope_group = [], scope_kind = ''Pod'', scope_namespace = ''foo''\<rparr>) c)
   in Load (cacheKey (pod ''foo'')) c' = None \<and> Load (cacheKey (pod ''foobar'')) c' = Some CacheEntry_zero"
proof -
  let ?pod = "\<lambda>ns. \<lparr>key_sink = SinkID ''S3Sink'' ''a'', key_group = [], key_kind = ''Pod'',
         key_namespace = ns, key_name = ''x''\<rparr>"
  let ?c = "[(cacheKey (?pod ''foo''), CacheEntry_zero), (cacheKey (?pod ''foobar''), CacheEntry_zero)]"
  have wf: "gm_wf ?c" by (simp add: gm_wf_def cacheKey_def)
  show ?thesis
    using DeletePrefix_scope_exact [OF wf, where k = "?pod ''foo''"
          and s = "\<lparr>scope_group = [], scope_kind = ''Pod'', scope_namespace = ''foo''\<rparr>"]
      DeletePrefix_scope_exact [OF wf, where k = "?pod ''foobar''"
          and s = "\<lparr>scope_group = [], scope_kind = ''Pod'', scope_namespace = ''foo''\<rparr>"]
    by (simp add: key_valid_def scope_valid_def covers_def Load_def gm_get_def cacheKey_def)
qed

end
