(* ===== verification/Json.thy ===== *)
theory Json
  imports Prelude
begin

text \<open>
  JSON values as the operator holds them (\<open>map[string]any\<close>, \<open>[]any\<close> and scalars), and
  \<open>encoding/json\<close>'s \<open>Marshal\<close> as far as the pipeline uses it.

  An object is a Go map with string keys; \<open>json_wf\<close> says that its keys are listed once and in
  byte order at every level, so that two well-formed values are equal exactly when Go's
  \<open>reflect.DeepEqual\<close> says so. A float carries the text \<open>Marshal\<close> prints for it, or nothing for
  NaN and the infinities, which \<open>Marshal\<close> refuses.
\<close>

datatype json =
    JNull
  | JBool bool
  | JInt int
  | JFloat "string option"
  | JStr string
  | JArr "json list"
  | JObj "(string \<times> json) list"

fun json_wf :: "json \<Rightarrow> bool" where
  "json_wf (JArr xs) = list_all json_wf xs"
| "json_wf (JObj kvs) =
     (sorted_wrt (<) (map fst kvs) \<and> list_all (\<lambda>kv. json_wf (snd kv)) kvs)"
| "json_wf _ = True"

section \<open>Rendering\<close>

fun digits_nat :: "nat \<Rightarrow> string" where
  "digits_nat n =
     (if n < 10 then [char_of (48 + n)] else digits_nat (n div 10) @ [char_of (48 + n mod 10)])"

definition render_int :: "int \<Rightarrow> string" where
  "render_int i = (if i < 0 then ''-'' @ digits_nat (nat (- i)) else digits_nat (nat i))"

definition hex_digit :: "nat \<Rightarrow> char" where
  "hex_digit n = (if n < 10 then char_of (48 + n) else char_of (87 + n))"

definition u_escape :: "char \<Rightarrow> string" where
  "u_escape c =
     [CHR 0x5C] @ ''u00'' @ [hex_digit (of_char c div 16), hex_digit (of_char c mod 16)]"

definition escape_char :: "char \<Rightarrow> string" where
  "escape_char c =
     (if c = CHR 0x22 then [CHR 0x5C, CHR 0x22]
      else if c = CHR 0x5C then [CHR 0x5C, CHR 0x5C]
      else if c = CHR 0x08 then [CHR 0x5C] @ ''b''
      else if c = CHR 0x0C then [CHR 0x5C] @ ''f''
      else if c = CHR 0x0A then [CHR 0x5C] @ ''n''
      else if c = CHR 0x0D then [CHR 0x5C] @ ''r''
      else if c = CHR 0x09 then [CHR 0x5C] @ ''t''
      else if (of_char c :: nat) < 32 \<or> c = CHR ''<'' \<or> c = CHR ''>'' \<or> c = CHR ''&''
      then u_escape c else [c])"

text \<open>Every string escapes the two line separators; the other characters depend on the encoder's settings.\<close>

fun escape_with :: "(char \<Rightarrow> string) \<Rightarrow> string \<Rightarrow> string" where
  "escape_with esc [] = []"
| "escape_with esc (c # cs) =
     (if c = CHR 0xE2 \<and> take 2 cs = [CHR 0x80, CHR 0xA8] then [CHR 0x5C] @ ''u2028'' @ escape_with esc (drop 2 cs)
      else if c = CHR 0xE2 \<and> take 2 cs = [CHR 0x80, CHR 0xA9] then [CHR 0x5C] @ ''u2029'' @ escape_with esc (drop 2 cs)
      else esc c @ escape_with esc cs)"

abbreviation escape_string :: "string \<Rightarrow> string" where
  "escape_string \<equiv> escape_with escape_char"

definition render_string :: "string \<Rightarrow> string" where
  "render_string s = [CHR 0x22] @ escape_string s @ [CHR 0x22]"

fun all_some :: "'a option list \<Rightarrow> 'a list option" where
  "all_some [] = Some []"
| "all_some (x # xs) =
     (case x of None \<Rightarrow> None
      | Some v \<Rightarrow> (case all_some xs of None \<Rightarrow> None | Some vs \<Rightarrow> Some (v # vs)))"

text \<open>\<open>json.Marshal\<close>: \<open>None\<close> is the \<open>UnsupportedValueError\<close>. Object members come out in key order.\<close>

fun json_marshal :: "json \<Rightarrow> string option" where
  "json_marshal JNull = Some ''null''"
| "json_marshal (JBool b) = Some (if b then ''true'' else ''false'')"
| "json_marshal (JInt i) = Some (render_int i)"
| "json_marshal (JFloat t) = t"
| "json_marshal (JStr s) = Some (render_string s)"
| "json_marshal (JArr xs) =
     (case all_some (map json_marshal xs) of None \<Rightarrow> None
      | Some ts \<Rightarrow> Some (''['' @ join_with '','' ts @ '']''))"
| "json_marshal (JObj kvs) =
     (case all_some (map (\<lambda>(k, t). map_option (\<lambda>u. render_string k @ '':'' @ u) t)
              (sort_key fst (map (\<lambda>(k, v). (k, json_marshal v)) kvs))) of
        None \<Rightarrow> None
      | Some ts \<Rightarrow> Some (''{'' @ join_with '','' ts @ ''}''))"

section \<open>Numeric escapes and UTF-8\<close>

definition hex_value :: "char \<Rightarrow> nat option" where
  "hex_value c =
     (let n = of_char c :: nat in
      if 48 \<le> n \<and> n \<le> 57 then Some (n - 48)
      else if 97 \<le> n \<and> n \<le> 102 then Some (n - 87)
      else if 65 \<le> n \<and> n \<le> 70 then Some (n - 55) else None)"

fun digits_value :: "(char \<Rightarrow> nat option) \<Rightarrow> nat \<Rightarrow> nat \<Rightarrow> string \<Rightarrow> nat option" where
  "digits_value dv b acc [] = Some acc"
| "digits_value dv b acc (c # cs) =
     (case dv c of None \<Rightarrow> None | Some d \<Rightarrow> digits_value dv b (acc * b + d) cs)"

definition valid_rune :: "nat \<Rightarrow> bool" where
  "valid_rune r = (r < 0xD800 \<or> (0xDFFF < r \<and> r \<le> 0x10FFFF))"

definition utf8_encode :: "nat \<Rightarrow> string" where
  "utf8_encode r =
     (if r < 0x80 then [char_of r]
      else if r < 0x800 then [char_of (0xC0 + r div 64), char_of (0x80 + r mod 64)]
      else if r < 0x10000
      then [char_of (0xE0 + r div 4096), char_of (0x80 + r div 64 mod 64), char_of (0x80 + r mod 64)]
      else [char_of (0xF0 + r div 262144), char_of (0x80 + r div 4096 mod 64),
            char_of (0x80 + r div 64 mod 64), char_of (0x80 + r mod 64)])"

definition numeric_escape :: "(char \<Rightarrow> nat option) \<Rightarrow> nat \<Rightarrow> nat \<Rightarrow> string \<Rightarrow> nat option" where
  "numeric_escape dv b n s = (if length s < n then None else digits_value dv b 0 (take n s))"

section \<open>Access paths\<close>

text \<open>The steps from a value to a part of it: a member of an object or an element of an array.\<close>

datatype jstep = Member string | Element nat

fun json_at :: "json \<Rightarrow> jstep list \<Rightarrow> json option" where
  "json_at v [] = Some v"
| "json_at (JObj kvs) (Member k # ps) =
     (case gm_get kvs k of None \<Rightarrow> None | Some w \<Rightarrow> json_at w ps)"
| "json_at (JArr xs) (Element i # ps) = (if i < length xs then json_at (xs ! i) ps else None)"
| "json_at _ _ = None"

section \<open>Lemmas\<close>

lemma all_some_exists: "\<forall>x\<in>set xs. \<exists>y. f x = Some y \<Longrightarrow> \<exists>ys. all_some (map f xs) = Some ys"
  by (induction xs) auto

lemma of_char_hex_digit: "n < 16 \<Longrightarrow> (of_char (hex_digit n) :: nat) = (if n < 10 then 48 + n else 87 + n)"
  by (simp add: hex_digit_def)

lemma hex_value_hex_digit: "n < 16 \<Longrightarrow> hex_value (hex_digit n) = Some n"
  by (auto simp: hex_value_def of_char_hex_digit Let_def)

lemma of_char_less_256: "(of_char c :: nat) < 256"
  by simp

declare digits_nat.simps [simp del]

lemma json_wf_obj_distinct: "json_wf (JObj kvs) \<Longrightarrow> gm_wf kvs"
  by (simp add: gm_wf_def strict_sorted_iff)

lemma json_wf_member: "json_wf (JObj kvs) \<Longrightarrow> gm_get kvs k = Some v \<Longrightarrow> json_wf v"
  using gm_get_in_set [of kvs k v] by (simp add: list_all_iff) (metis snd_conv)

lemma json_wf_set_member:
  assumes "json_wf (JObj kvs)" and "gm_get kvs k \<noteq> None" and "json_wf v"
  shows "json_wf (JObj (gm_set k v kvs))"
proof -
  have eq: "gm_set k v kvs = map (\<lambda>(k', v'). (k', if k' = k then v else v')) kvs"
    using json_wf_obj_distinct [OF assms(1)] assms(2) by (rule set_gm_set_present)
  have "map fst (gm_set k v kvs) = map fst kvs"
    unfolding eq by (simp add: case_prod_beta comp_def)
  moreover have "list_all (\<lambda>kv. json_wf (snd kv)) (gm_set k v kvs)"
    using assms unfolding eq by (auto simp: list_all_iff)
  ultimately show ?thesis
    using assms(1) by simp
qed

lemma json_wf_filter: "json_wf (JObj kvs) \<Longrightarrow> json_wf (JObj (gm_filter P kvs))"
proof -
  assume wf: "json_wf (JObj kvs)"
  have "sorted_wrt (<) (map fst (gm_filter P kvs))"
    using wf unfolding gm_filter_def
    by (induction kvs) (auto simp: image_iff)
  with wf show ?thesis by (auto simp: gm_filter_def list_all_iff)
qed

lemma json_at_wf: "json_wf v \<Longrightarrow> json_at v ps = Some w \<Longrightarrow> json_wf w"
proof (induction v ps rule: json_at.induct)
  case (2 kvs k ps)
  then show ?case by (auto split: option.splits dest: json_wf_member simp del: json_wf.simps)
next
  case (3 xs i ps)
  then show ?case by (auto split: if_splits simp: list_all_length)
qed auto

text \<open>Two well-formed objects with the same lookups are the same association list.\<close>

lemma json_obj_eqI:
  assumes "json_wf (JObj a)" and "json_wf (JObj b)" and "\<And>k. gm_get a k = gm_get b k"
  shows "a = b"
proof -
  have "map_of a = map_of b" using assms(3) by (simp add: gm_get_def fun_eq_iff)
  moreover have "distinct (map fst a)" "distinct (map fst b)" "sorted (map fst a)" "sorted (map fst b)"
    using assms(1,2) by (auto simp: strict_sorted_iff)
  ultimately show ?thesis
    by (metis map_of_inject_set map_sorted_distinct_set_unique distinct_map inj_on_Un sup.idem)
qed

end
