(* ===== verification/Coalesce.thy ===== *)
theory Coalesce
  imports Identity Sha256
begin

text \<open>
  Event count-bump coalescing (\<open>internal/pipeline/coalesce.go\<close>): the digest of an Event without
  its bump fields, and the per-sink coalescer that remembers, for each Event identity, the digest
  and the instant of the last recorded row. Every operation runs under the coalescer's mutex.
  A writer's optional \<open>CoalesceWindow\<close> method is \<open>None\<close> for a writer that does not implement it.
\<close>

section \<open>Definitions\<close>

definition coalesceWindowFor :: "go_duration option \<Rightarrow> go_duration" where
  "coalesceWindowFor policy = (case policy of None \<Rightarrow> 0 | Some w \<Rightarrow> w)"

definition eventBumpFields :: "string list" where
  "eventBumpFields = [''count'', ''lastTimestamp'', ''eventTime'', ''series'', ''deprecatedCount'',
     ''deprecatedLastTimestamp'']"

definition eventCoalesceHash :: "(string \<times> json) list \<Rightarrow> string option" where
  "eventCoalesceHash normalized =
     (let projection = gm_filter (\<lambda>field _. field \<notin> set eventBumpFields) normalized in
      case json_marshal (JObj projection) of
        None \<Rightarrow> None
      | Some encoded \<Rightarrow> Some (sha256_hex encoded))"

definition coalesceSweepFloor :: nat where
  "coalesceSweepFloor = 128"

record coalesceEntry =
  co_hash :: string
  co_at :: go_time

record coalescer =
  co_entries :: "(string, coalesceEntry) gomap"
  co_sweepAt :: nat

definition coalescer_zero :: coalescer where
  "coalescer_zero = \<lparr>co_entries = [], co_sweepAt = 0\<rparr>"

definition decide :: "string \<Rightarrow> string \<Rightarrow> go_duration \<Rightarrow> go_time \<Rightarrow> coalescer \<Rightarrow> go_duration \<times> bool" where
  "decide key h window now c =
     (if window \<le> 0 then (0, False)
      else case gm_get (co_entries c) key of
             None \<Rightarrow> (0, False)
           | Some l \<Rightarrow>
               if co_hash l \<noteq> h then (0, False)
               else let elapsed = time_sub now (co_at l) in
                    if elapsed \<ge> window then (0, False) else (wrap64 (window - elapsed), True))"

definition sweepLocked :: "go_time \<Rightarrow> go_duration \<Rightarrow> coalescer \<Rightarrow> coalescer" where
  "sweepLocked now window c =
     (if length (co_entries c) < co_sweepAt c then c
      else let es = gm_filter (\<lambda>_ e. \<not> time_sub now (co_at e) \<ge> window) (co_entries c)
           in \<lparr>co_entries = es, co_sweepAt = max (2 * length es) coalesceSweepFloor\<rparr>)"

definition remember :: "string \<Rightarrow> string \<Rightarrow> go_time \<Rightarrow> go_duration \<Rightarrow> coalescer \<Rightarrow> coalescer" where
  "remember key h stampedAt window c =
     (if window \<le> 0 then c
      else sweepLocked stampedAt window
             (c\<lparr>co_entries := gm_set key \<lparr>co_hash = h, co_at = stampedAt\<rparr> (co_entries c)\<rparr>))"

definition forget :: "string \<Rightarrow> coalescer \<Rightarrow> coalescer" where
  "forget key c = c\<lparr>co_entries := gm_del key (co_entries c)\<rparr>"

definition deletePrefix :: "string \<Rightarrow> coalescer \<Rightarrow> nat \<times> coalescer" where
  "deletePrefix pre c =
     (let removed = length (filter (\<lambda>(key, _). has_prefix key pre) (co_entries c));
          es = gm_filter (\<lambda>key _. \<not> has_prefix key pre) (co_entries c);
          c' = c\<lparr>co_entries := es\<rparr>
      in (removed, if removed > 0 then c'\<lparr>co_sweepAt := max (2 * length es) coalesceSweepFloor\<rparr> else c'))"

definition co_len :: "coalescer \<Rightarrow> nat" where
  "co_len c = length (co_entries c)"

section \<open>Lemmas\<close>

definition co_wf :: "coalescer \<Rightarrow> bool" where
  "co_wf c = gm_wf (co_entries c)"

lemma co_wf_ops [simp]:
  "co_wf coalescer_zero"
  "co_wf c \<Longrightarrow> co_wf (sweepLocked now w c)"
  "co_wf c \<Longrightarrow> co_wf (remember k h t w c)"
  "co_wf c \<Longrightarrow> co_wf (forget k c)"
  "co_wf c \<Longrightarrow> co_wf (snd (deletePrefix p c))"
  by (simp_all add: co_wf_def coalescer_zero_def sweepLocked_def remember_def forget_def deletePrefix_def Let_def)

lemma decide_skip_iff:
  "snd (decide k h w now c) \<longleftrightarrow>
     w > 0 \<and> (\<exists>l. gm_get (co_entries c) k = Some l \<and> co_hash l = h \<and> time_sub now (co_at l) < w)"
  by (auto simp: decide_def Let_def split: option.splits)

lemma sweep_get:
  assumes "co_wf c"
  shows "gm_get (co_entries (sweepLocked now w c)) k = gm_get (co_entries c) k
    \<or> gm_get (co_entries (sweepLocked now w c)) k = None
      \<and> (\<exists>l. gm_get (co_entries c) k = Some l \<and> time_sub now (co_at l) \<ge> w)"
  using assms
  by (auto simp: sweepLocked_def Let_def co_wf_def gm_get_filter split: option.splits)

lemma decide_cong: "gm_get (co_entries c) k = gm_get (co_entries c') k \<Longrightarrow> decide k h w now c = decide k h w now c'"
  by (simp add: decide_def)

lemma decide_expired:
  assumes "gm_get (co_entries c) k = Some l" and "time_sub now (co_at l) \<ge> w" and "w' \<le> w" and "now \<le> now'"
  shows "decide k h w' now' c = (0, False)"
proof -
  have "time_sub now' (co_at l) \<ge> w'" using assms(2-4) time_sub_mono [of now now' "co_at l"] by simp
  then show ?thesis using assms(1) by (simp add: decide_def Let_def)
qed

lemma decide_absent: "gm_get (co_entries c) k = None \<Longrightarrow> decide k h w now c = (0, False)"
  by (simp add: decide_def)

lemma sweep_decide:
  assumes "co_wf c" and "w' \<le> w" and "now \<le> now'"
  shows "decide k h w' now' (sweepLocked now w c) = decide k h w' now' c"
  using sweep_get [OF assms(1), of now w k]
proof
  assume "gm_get (co_entries (sweepLocked now w c)) k = gm_get (co_entries c) k"
  then show ?thesis by (rule decide_cong)
next
  assume s: "gm_get (co_entries (sweepLocked now w c)) k = None
    \<and> (\<exists>l. gm_get (co_entries c) k = Some l \<and> time_sub now (co_at l) \<ge> w)"
  then have "decide k h w' now' (sweepLocked now w c) = (0, False)" by (simp add: decide_absent)
  moreover from s have "decide k h w' now' c = (0, False)" using decide_expired assms(2,3) by blast
  ultimately show ?thesis by simp
qed

lemma sweep_bound: "co_len (sweepLocked now w c) < co_sweepAt (sweepLocked now w c)"
  by (auto simp: sweepLocked_def co_len_def Let_def coalesceSweepFloor_def)

section \<open>Properties\<close>

text \<open>
  An Event's coalescing digest ignores the bump fields: two states of an Event whose other
  top-level fields agree have the same digest, whatever the bump fields hold or lack.
\<close>

theorem eventCoalesceHash_ignores_bumps:
  assumes "json_wf (JObj m)" and "json_wf (JObj m')"
    and "\<forall>field. field \<notin> set eventBumpFields \<longrightarrow> gm_get m field = gm_get m' field"
  shows "eventCoalesceHash m = eventCoalesceHash m'"
proof -
  let ?p = "gm_filter (\<lambda>field _. field \<notin> set eventBumpFields)"
  have "?p m = ?p m'"
  proof (rule json_obj_eqI)
    show "json_wf (JObj (?p m))" "json_wf (JObj (?p m'))"
      using assms(1,2) by (simp_all only: json_wf_filter)
    show "gm_get (?p m) k = gm_get (?p m') k" for k
      using assms(3) json_wf_obj_distinct [OF assms(1)] json_wf_obj_distinct [OF assms(2)]
      by (cases "k \<in> set eventBumpFields") (auto simp: gm_get_filter split: option.splits)
  qed
  then show ?thesis by (simp add: eventCoalesceHash_def)
qed

theorem eventCoalesceHash_ignores_bumps_witness:
  "eventCoalesceHash [(''count'', JInt 1), (''message'', JStr ''Back-off'')]
   = eventCoalesceHash [(''count'', JInt 7), (''message'', JStr ''Back-off''), (''series'', JNull)]"
proof (rule eventCoalesceHash_ignores_bumps)
  show "\<forall>field. field \<notin> set eventBumpFields \<longrightarrow>
      gm_get [(''count'', JInt 1), (''message'', JStr ''Back-off'')] field
      = gm_get [(''count'', JInt 7), (''message'', JStr ''Back-off''), (''series'', JNull)] field"
    by (simp add: eventBumpFields_def gm_get_def)
qed (simp_all add: less_char_def)

text \<open>
  A bump is suppressed exactly when coalescing is on and a row with the same digest was
  recorded less than one window ago; the key is then re-delivered after a positive delay no longer
  than the window, at exactly the instant the window that started with that row ends.
\<close>

theorem decide_skip_exact:
  assumes "w \<le> max_duration"
    and "\<forall>l. gm_get (co_entries c) k = Some l \<longrightarrow> co_at l \<le> now"
  shows "case decide k h w now c of (flushAfter, skip) \<Rightarrow>
      (skip \<longleftrightarrow> w > 0 \<and> (\<exists>l. gm_get (co_entries c) k = Some l \<and> co_hash l = h \<and> now - co_at l < w))
      \<and> (skip \<longrightarrow> 0 < flushAfter \<and> flushAfter \<le> w
           \<and> (\<exists>l. gm_get (co_entries c) k = Some l \<and> now + flushAfter = co_at l + w))
      \<and> (\<not> skip \<longrightarrow> flushAfter = 0)"
proof (cases "w > 0 \<and> gm_get (co_entries c) k \<noteq> None")
  case False
  then show ?thesis by (auto simp: decide_def)
next
  case True
  then obtain l where l: "gm_get (co_entries c) k = Some l" and w: "w > 0" by auto
  have le: "co_at l \<le> now" using assms(2) l by blast
  have iff: "time_sub now (co_at l) < w \<longleftrightarrow> now - co_at l < w"
    using assms(1) le w by (auto simp: time_sub_def min_duration_def)
  have ex: "wrap64 (w - time_sub now (co_at l)) = w - (now - co_at l)" if "now - co_at l < w"
  proof -
    have "time_sub now (co_at l) = now - co_at l"
      using that iff assms(1) le by (intro time_sub_less_exact) auto
    moreover have "wrap64 (w - (now - co_at l)) = w - (now - co_at l)"
      using that le assms(1) by (intro wrap64_id) (auto simp: min_duration_def max_duration_def)
    ultimately show ?thesis by simp
  qed
  show ?thesis
    using w l le iff ex by (cases "co_hash l = h"; cases "now - co_at l < w") (simp_all add: decide_def Let_def)
qed

theorem decide_skip_exact_witness:
  "decide ''k'' ''h'' 60 1030 \<lparr>co_entries = [(''k'', \<lparr>co_hash = ''h'', co_at = 1000\<rparr>)], co_sweepAt = 128\<rparr> = (30, True)"
  using decide_skip_exact [of 60 "\<lparr>co_entries = [(''k'', \<lparr>co_hash = ''h'', co_at = 1000\<rparr>)], co_sweepAt = 128\<rparr>" "''k''" 1030 "''h''"]
  by (simp add: max_duration_def gm_get_def case_prod_beta prod_eq_iff)

text \<open>
  The sweep is invisible and bounds memory: it changes no later decision taken under the same
  or a shorter window, for any key, and after every remembered row the coalescer holds fewer
  entries than its sweep threshold.
\<close>

theorem remember_sweep_invisible:
  assumes "co_wf c" and "0 < w" and "w' \<le> w" and "stampedAt \<le> now'"
  shows "decide k' h' w' now' (remember k h stampedAt w c)
      = (if k' = k then decide k' h' w' now' (c\<lparr>co_entries := gm_set k \<lparr>co_hash = h, co_at = stampedAt\<rparr> (co_entries c)\<rparr>)
         else decide k' h' w' now' c)
    \<and> co_len (remember k h stampedAt w c) < co_sweepAt (remember k h stampedAt w c)"
proof -
  let ?c = "c\<lparr>co_entries := gm_set k \<lparr>co_hash = h, co_at = stampedAt\<rparr> (co_entries c)\<rparr>"
  have "co_wf ?c" using assms(1) by (simp add: co_wf_def)
  then have "decide k' h' w' now' (remember k h stampedAt w c) = decide k' h' w' now' ?c"
    using assms(2-4) by (simp add: remember_def sweep_decide)
  moreover have "k' \<noteq> k \<Longrightarrow> decide k' h' w' now' ?c = decide k' h' w' now' c"
    by (rule decide_cong) simp
  ultimately show ?thesis using assms(2) sweep_bound by (simp add: remember_def)
qed

theorem remember_sweep_invisible_witness:
  "decide ''k'' ''h'' 60 130 (remember ''j'' ''g'' 100 60 \<lparr>co_entries = [(''k'', \<lparr>co_hash = ''h'', co_at = 90\<rparr>)], co_sweepAt = 0\<rparr>)
   = (20, True)"
proof -
  let ?c = "\<lparr>co_entries = [(''k'', \<lparr>co_hash = ''h'', co_at = 90\<rparr>)], co_sweepAt = 0\<rparr>"
  have "decide ''k'' ''h'' 60 130 ?c = (20, True)"
    by (simp add: decide_def gm_get_def time_sub_def max_duration_def min_duration_def wrap64_def)
  then show ?thesis
    using remember_sweep_invisible [of ?c 60 60 100 130 "''k''" "''h''" "''j''" "''g''"]
    by (simp add: co_wf_def gm_wf_def)
qed

end
