(* ===== verification/Redact.thy ===== *)
theory Redact
  imports Json
begin

text \<open>
  Redaction (\<open>internal/pipeline/redact.go\<close>): the path grammar and its parser, the compiled policy,
  the merge of policies and the copy-on-write walk that replaces every addressed value by the
  sentinel.

  The parser follows the source's loop: one field name, an optional subscript, then a dot or the
  end. \<open>strconv.Quote\<close> and \<open>strconv.Unquote\<close> are modelled for the strings the grammar meets:
  every escape of Go's double-quoted literals, bytes from 0x80 on passed through (valid UTF-8).
  A run-time type assertion that would panic is \<open>None\<close>.
\<close>

section \<open>Quoting\<close>

definition is_ascii :: "char \<Rightarrow> bool" where
  "is_ascii c = ((of_char c :: nat) < 128)"

definition quote_escape :: "char \<Rightarrow> char option" where
  "quote_escape c =
     (if c = CHR 0x22 \<or> c = CHR 0x5C then Some c
      else if c = CHR 0x07 then Some (CHR ''a'') else if c = CHR 0x08 then Some (CHR ''b'')
      else if c = CHR 0x0C then Some (CHR ''f'') else if c = CHR 0x0A then Some (CHR ''n'')
      else if c = CHR 0x0D then Some (CHR ''r'') else if c = CHR 0x09 then Some (CHR ''t'')
      else if c = CHR 0x0B then Some (CHR ''v'') else None)"

definition quote_char :: "char \<Rightarrow> string" where
  "quote_char c =
     (case quote_escape c of
        Some e \<Rightarrow> [CHR 0x5C, e]
      | None \<Rightarrow>
          (if (of_char c :: nat) < 32 \<or> c = CHR 0x7F
           then [CHR 0x5C, CHR ''x'', hex_digit (of_char c div 16), hex_digit (of_char c mod 16)]
           else [c]))"

definition go_quote :: "string \<Rightarrow> string" where
  "go_quote s = [CHR 0x22] @ concat (map quote_char s) @ [CHR 0x22]"

definition oct_value :: "char \<Rightarrow> nat option" where
  "oct_value c = (let n = of_char c :: nat in if 48 \<le> n \<and> n \<le> 55 then Some (n - 48) else None)"

text \<open>One escape after the backslash: the bytes it stands for and how many characters it takes.\<close>

definition simple_escape :: "char \<Rightarrow> char option" where
  "simple_escape c =
     (if c = CHR ''a'' then Some (CHR 0x07) else if c = CHR ''b'' then Some (CHR 0x08)
      else if c = CHR ''f'' then Some (CHR 0x0C) else if c = CHR ''n'' then Some (CHR 0x0A)
      else if c = CHR ''r'' then Some (CHR 0x0D) else if c = CHR ''t'' then Some (CHR 0x09)
      else if c = CHR ''v'' then Some (CHR 0x0B)
      else if c = CHR 0x5C \<or> c = CHR 0x22 then Some c else None)"

definition rune_escape :: "nat \<Rightarrow> string \<Rightarrow> (string \<times> nat) option" where
  "rune_escape n cs =
     (case numeric_escape hex_value 16 n cs of
        Some r \<Rightarrow> (if valid_rune r then Some (utf8_encode r, n + 1) else None)
      | None \<Rightarrow> None)"

definition unescape :: "string \<Rightarrow> (string \<times> nat) option" where
  "unescape s =
     (case s of [] \<Rightarrow> None
      | c # cs \<Rightarrow>
         (case simple_escape c of
            Some d \<Rightarrow> Some ([d], 1)
          | None \<Rightarrow>
             (if c = CHR ''x'' then
                (case numeric_escape hex_value 16 2 cs of
                   Some v \<Rightarrow> Some ([char_of v], 3) | None \<Rightarrow> None)
              else if c = CHR ''u'' then rune_escape 4 cs
              else if c = CHR ''U'' then rune_escape 8 cs
              else
                (case numeric_escape oct_value 8 3 s of
                   Some v \<Rightarrow> (if v \<le> 255 then Some ([char_of v], 3) else None)
                 | None \<Rightarrow> None))))"

text \<open>The body of a double-quoted literal after the opening quote; the closing quote ends it.\<close>

function unquote_body :: "string \<Rightarrow> string option" where
  "unquote_body s =
     (case s of [] \<Rightarrow> None
      | c # cs \<Rightarrow>
         (if c = CHR 0x22 then (if cs = [] then Some [] else None)
          else if c = CHR 0x0A then None
          else if c = CHR 0x5C then
            (case unescape cs of None \<Rightarrow> None
             | Some (bs, n) \<Rightarrow> map_option (\<lambda>r. bs @ r) (unquote_body (drop n cs)))
          else map_option (\<lambda>r. c # r) (unquote_body cs)))"
  by pat_completeness auto
termination
  by (relation "measure length") auto

definition go_unquote :: "string \<Rightarrow> string option" where
  "go_unquote s =
     (case s of c # cs \<Rightarrow> (if c = CHR 0x22 then unquote_body cs else None) | [] \<Rightarrow> None)"

section \<open>Paths and their parser\<close>

definition RedactionSentinel :: string where
  "RedactionSentinel = ''[REDACTED]''"

definition LastAppliedConfigAnnotation :: string where
  "LastAppliedConfigAnnotation = ''kubectl.kubernetes.io/last-applied-configuration''"

definition AnnotationRedactionPath :: "string \<Rightarrow> string" where
  "AnnotationRedactionPath key = ''metadata.annotations['' @ go_quote key @ '']''"

record redactionSegment =
  seg_name :: string
  seg_wildcard :: bool

record redactionPath =
  path_raw :: string
  path_segments :: "redactionSegment list"

datatype redactionError =
    ErrEmptyRedactionPath
  | ErrInvalidFieldName string string
  | ErrUnterminatedSubscript string
  | ErrNotQuotedKey string string
  | ErrEmptyQuotedKey string
  | ErrBadSubscript string string
  | ErrTrailingDot string
  | ErrExpectedDot string string

definition name_start :: "char \<Rightarrow> bool" where
  "name_start c =
     (let n = of_char c :: nat in (65 \<le> n \<and> n \<le> 90) \<or> (97 \<le> n \<and> n \<le> 122) \<or> n = 95)"

definition name_char :: "char \<Rightarrow> bool" where
  "name_char c = (let n = of_char c :: nat in name_start c \<or> (48 \<le> n \<and> n \<le> 57) \<or> n = 45)"

definition redactionSegmentPattern :: "string \<Rightarrow> bool" where
  "redactionSegmentPattern s =
     (case s of [] \<Rightarrow> False | c # cs \<Rightarrow> name_start c \<and> list_all name_char cs)"

definition parseSegmentName :: "string \<Rightarrow> string \<Rightarrow> redactionError + (string \<times> string)" where
  "parseSegmentName raw rest =
     (let (name, remainder) = cut_before (\<lambda>c. c = CHR ''.'' \<or> c = CHR ''['') rest in
      if redactionSegmentPattern name then Inr (name, remainder)
      else Inl (ErrInvalidFieldName raw name))"

text \<open>One turn of the source's loop, up to the switch on what follows the segment.\<close>

definition parseSubscript ::
  "string \<Rightarrow> redactionSegment \<Rightarrow> string \<Rightarrow> redactionError + (redactionSegment list \<times> string)" where
  "parseSubscript raw segment rest =
     (let (body, tail) = cut_before (\<lambda>c. c = CHR '']'') rest in
      if tail = [] then Inl (ErrUnterminatedSubscript raw)
      else
        (let subscript = drop 1 body; after = tl tail in
         if subscript = ''*'' then Inr ([segment\<lparr>seg_wildcard := True\<rparr>], after)
         else if has_prefix subscript [CHR 0x22] then
           (case go_unquote subscript of
              None \<Rightarrow> Inl (ErrNotQuotedKey raw subscript)
            | Some key \<Rightarrow>
                (if key = [] then Inl (ErrEmptyQuotedKey raw)
                 else Inr ([segment, \<lparr>seg_name = key, seg_wildcard = False\<rparr>], after)))
         else Inl (ErrBadSubscript raw subscript)))"

definition parseSegment ::
  "string \<Rightarrow> string \<Rightarrow> redactionError + (redactionSegment list \<times> string)" where
  "parseSegment raw rest =
     (case parseSegmentName raw rest of
        Inl e \<Rightarrow> Inl e
      | Inr (name, remainder) \<Rightarrow>
          (let segment = \<lparr>seg_name = name, seg_wildcard = False\<rparr> in
           if has_prefix remainder ''['' then parseSubscript raw segment remainder
           else Inr ([segment], remainder)))"

lemma parseSubscript_length:
  "parseSubscript raw seg rest = Inr (segs, r) \<Longrightarrow> length r < length rest"
  by (auto simp: parseSubscript_def Let_def neq_Nil_conv split: prod.splits if_splits option.splits
      dest!: cut_before_append)

lemma parseSegmentName_length:
  "parseSegmentName raw rest = Inr (n, r) \<Longrightarrow> length r < length rest"
  by (auto simp: parseSegmentName_def redactionSegmentPattern_def split: prod.splits if_splits
      list.splits dest!: cut_before_append)

lemma parseSegment_length:
  "parseSegment raw rest = Inr (segs, r) \<Longrightarrow> length r < length rest"
  by (fastforce simp: parseSegment_def Let_def split: sum.splits if_splits prod.splits
      dest: parseSubscript_length parseSegmentName_length)

function parseLoop ::
  "string \<Rightarrow> string \<Rightarrow> redactionSegment list \<Rightarrow> redactionError + redactionSegment list" where
  "parseLoop raw rest segments =
     (case parseSegment raw rest of
        Inl e \<Rightarrow> Inl e
      | Inr (segs, after) \<Rightarrow>
          (case after of
             [] \<Rightarrow> Inr (segments @ segs)
           | c # rest' \<Rightarrow>
               (if c = CHR ''.'' then
                  (if rest' = [] then Inl (ErrTrailingDot raw)
                   else parseLoop raw rest' (segments @ segs))
                else Inl (ErrExpectedDot raw after))))"
  by pat_completeness auto
termination
  by (relation "measure (\<lambda>(raw, rest, segs). length rest)")
    (auto dest!: parseSegment_length)

definition parseRedactionPath :: "string \<Rightarrow> redactionError + redactionPath" where
  "parseRedactionPath raw =
     (if raw = [] then Inl ErrEmptyRedactionPath
      else (case parseLoop raw raw [] of
              Inl e \<Rightarrow> Inl e
            | Inr segs \<Rightarrow> Inr \<lparr>path_raw = raw, path_segments = segs\<rparr>))"

section \<open>Policies\<close>

record RedactionPolicy =
  policy_paths :: "redactionPath list"

definition builtinPaths :: "string list" where
  "builtinPaths = [AnnotationRedactionPath LastAppliedConfigAnnotation]"

fun compileLoop ::
  "string list \<Rightarrow> redactionPath list \<Rightarrow> string list \<Rightarrow> redactionError + redactionPath list" where
  "compileLoop seen compiled [] = Inr compiled"
| "compileLoop seen compiled (raw # raws) =
     (if raw \<in> set seen then compileLoop seen compiled raws
      else (case parseRedactionPath raw of
              Inl e \<Rightarrow> Inl e
            | Inr path \<Rightarrow> compileLoop (raw # seen) (compiled @ [path]) raws))"

definition CompileRedaction :: "string list \<Rightarrow> redactionError + RedactionPolicy" where
  "CompileRedaction paths =
     (case compileLoop [] [] (paths @ builtinPaths) of
        Inl e \<Rightarrow> Inl e
      | Inr compiled \<Rightarrow> Inr \<lparr>policy_paths = sort_key path_raw compiled\<rparr>)"

fun mergeLoop :: "string list \<Rightarrow> redactionPath list \<Rightarrow> redactionPath list \<Rightarrow> redactionPath list" where
  "mergeLoop seen merged [] = merged"
| "mergeLoop seen merged (p # ps) =
     (if path_raw p \<in> set seen then mergeLoop seen merged ps
      else mergeLoop (path_raw p # seen) (merged @ [p]) ps)"

definition MergeRedaction :: "RedactionPolicy option list \<Rightarrow> RedactionPolicy option" where
  "MergeRedaction policies =
     (let merged = mergeLoop [] []
            (concat (map (\<lambda>p. case p of None \<Rightarrow> [] | Some q \<Rightarrow> policy_paths q) policies)) in
      if merged = [] then None else Some \<lparr>policy_paths = sort_key path_raw merged\<rparr>)"

text \<open>The package-level policy; \<open>mustCompileRedaction\<close> panics at start-up if it does not compile.\<close>

definition builtinRedaction :: "RedactionPolicy" where
  "builtinRedaction =
     (case CompileRedaction builtinPaths of Inr p \<Rightarrow> p | Inl _ \<Rightarrow> \<lparr>policy_paths = []\<rparr>)"

definition Paths :: "RedactionPolicy option \<Rightarrow> string list" where
  "Paths p = map path_raw (policy_paths (case p of None \<Rightarrow> builtinRedaction | Some q \<Rightarrow> q))"

section \<open>The walk\<close>

fun redactItems :: "(json \<Rightarrow> json \<times> bool) \<Rightarrow> json list \<Rightarrow> json list \<times> bool" where
  "redactItems f [] = ([], False)"
| "redactItems f (item # items) =
     (let (replacement, itemChanged) = f item; (out, changed) = redactItems f items in
      ((if itemChanged then replacement else item) # out, itemChanged \<or> changed))"

definition redactElements :: "(json \<Rightarrow> json \<times> bool) \<Rightarrow> json \<Rightarrow> json \<times> bool" where
  "redactElements f value =
     (case value of
        JArr items \<Rightarrow>
          (let (out, changed) = redactItems f items in
           if changed then (JArr out, True) else (value, False))
      | _ \<Rightarrow> (value, False))"

text \<open>
  \<open>redactElements\<close> takes the walk of the remaining segments as its argument, so that
  \<open>redactValue\<close> recurses on the segment list alone.
\<close>

fun redactValue :: "redactionSegment list \<Rightarrow> json \<Rightarrow> json \<times> bool" where
  "redactValue [] value =
     (if value = JStr RedactionSentinel then (value, False) else (JStr RedactionSentinel, True))"
| "redactValue (segment # segments) value =
     (case value of
        JObj object \<Rightarrow>
          (case gm_get object (seg_name segment) of
             None \<Rightarrow> (value, False)
           | Some child \<Rightarrow>
               (let (replacement, changed) =
                      (if seg_wildcard segment then redactElements (redactValue segments) child
                       else redactValue segments child) in
                if changed then (JObj (gm_set (seg_name segment) replacement object), True)
                else (value, False)))
      | _ \<Rightarrow> (value, False))"

fun applyPaths :: "redactionPath list \<Rightarrow> json \<Rightarrow> json" where
  "applyPaths [] current = current"
| "applyPaths (path # paths) current =
     (let (next, changed) = redactValue (path_segments path) current in
      applyPaths paths (if changed then next else current))"

text \<open>\<open>Apply\<close> on the object's top-level map: \<open>None\<close> is the panic of the type assertion on \<open>next\<close>.\<close>

definition Apply ::
  "RedactionPolicy option \<Rightarrow> (string, json) gomap \<Rightarrow> (string, json) gomap option" where
  "Apply p object =
     (case applyPaths (policy_paths (case p of None \<Rightarrow> builtinRedaction | Some q \<Rightarrow> q)) (JObj object) of
        JObj out \<Rightarrow> Some out
      | _ \<Rightarrow> None)"


section \<open>Reference semantics\<close>

text \<open>
  What a path means, without the change flag and the copy-on-write: every value it addresses
  becomes the sentinel. \<open>addresses\<close> lists the access paths that a compiled path denotes.
\<close>

definition elems_ref :: "(json \<Rightarrow> json) \<Rightarrow> json \<Rightarrow> json" where
  "elems_ref f v = (case v of JArr xs \<Rightarrow> JArr (map f xs) | _ \<Rightarrow> v)"

fun redact_ref :: "redactionSegment list \<Rightarrow> json \<Rightarrow> json" where
  "redact_ref [] v = JStr RedactionSentinel"
| "redact_ref (s # ss) v =
     (case v of
        JObj kvs \<Rightarrow>
          JObj (map (\<lambda>(k, c). (k, if k = seg_name s
                  then (if seg_wildcard s then elems_ref (redact_ref ss) c else redact_ref ss c)
                  else c)) kvs)
      | _ \<Rightarrow> v)"

fun addresses :: "redactionSegment list \<Rightarrow> jstep list \<Rightarrow> bool" where
  "addresses [] p = (p = [])"
| "addresses (s # ss) p =
     (case p of
        Member k # q \<Rightarrow>
          k = seg_name s \<and>
          (if seg_wildcard s then (case q of Element i # r \<Rightarrow> addresses ss r | _ \<Rightarrow> False)
           else addresses ss q)
      | _ \<Rightarrow> False)"

text \<open>Overwriting the value at an access path that exists.\<close>

fun json_put :: "json \<Rightarrow> jstep list \<Rightarrow> json \<Rightarrow> json" where
  "json_put v [] x = x"
| "json_put (JObj kvs) (Member k # p) x =
     JObj (map (\<lambda>(k', c). (k', if k' = k then json_put c p x else c)) kvs)"
| "json_put (JArr xs) (Element i # p) x =
     (if i < length xs then JArr (xs[i := json_put (xs ! i) p x]) else JArr xs)"
| "json_put v _ x = v"

declare unquote_body.simps [simp del] parseLoop.simps [simp del]

section \<open>The walk implements the reference semantics\<close>

lemma redactItems_eq:
  "(\<And>x. x \<in> set items \<Longrightarrow> f x = (g x, g x \<noteq> x)) \<Longrightarrow>
   redactItems f items = (map g items, map g items \<noteq> items)"
  by (induction items) (auto simp: Let_def)

lemma redactElements_eq:
  "json_wf v \<Longrightarrow> (\<And>x. json_wf x \<Longrightarrow> f x = (g x, g x \<noteq> x)) \<Longrightarrow>
   redactElements f v = (elems_ref g v, elems_ref g v \<noteq> v)"
  using redactItems_eq [of _ f g]
  by (cases v) (auto simp: redactElements_def elems_ref_def list_all_iff)

lemma redact_ref_wf: "json_wf v \<Longrightarrow> json_wf (redact_ref ss v)"
proof (induction ss arbitrary: v)
  case Nil
  then show ?case by simp
next
  case (Cons s ss)
  have e: "json_wf (elems_ref (redact_ref ss) c)" if "json_wf c" for c
    using that Cons.IH by (cases c) (auto simp: elems_ref_def list_all_iff)
  show ?case
  proof (cases v)
    case (JObj kvs)
    let ?g = "\<lambda>(k, c). (k, if k = seg_name s
      then (if seg_wildcard s then elems_ref (redact_ref ss) c else redact_ref ss c) else c)"
    have "map fst (map ?g kvs) = map fst kvs" by (simp add: case_prod_beta comp_def)
    moreover have "list_all (\<lambda>kv. json_wf (snd kv)) (map ?g kvs)"
      using Cons.prems e Cons.IH by (fastforce simp: JObj list_all_iff)
    ultimately show ?thesis using Cons.prems by (simp add: JObj del: map_map)
  qed (use Cons.prems in auto)
qed

lemma redactValue_ref:
  "json_wf v \<Longrightarrow> redactValue ss v = (redact_ref ss v, redact_ref ss v \<noteq> v)"
proof (induction ss arbitrary: v)
  case Nil
  then show ?case by auto
next
  case (Cons s ss)
  show ?case
  proof (cases v)
    case (JObj kvs)
    let ?h = "\<lambda>c. if seg_wildcard s then elems_ref (redact_ref ss) c else redact_ref ss c"
    have wf: "gm_wf kvs" using Cons.prems json_wf_obj_distinct by (simp add: JObj)
    show ?thesis
    proof (cases "gm_get kvs (seg_name s)")
      case None
      then show ?thesis by (simp add: JObj gm_map_absent)
    next
      case (Some child)
      have "json_wf child" using Cons.prems Some json_wf_member by (simp only: JObj)
      then have "(if seg_wildcard s then redactElements (redactValue ss) child
          else redactValue ss child) = (?h child, ?h child \<noteq> child)"
        using redactElements_eq [of child "redactValue ss" "redact_ref ss"] Cons.IH by simp
      then have "redactValue (s # ss) v = (if ?h child \<noteq> child
          then (JObj (gm_set (seg_name s) (?h child) kvs), True) else (v, False))"
        using Some by (simp add: JObj)
      moreover have "redact_ref (s # ss) v = JObj (gm_set (seg_name s) (?h child) kvs)"
        unfolding gm_set_as_map [OF wf Some, of ?h] by (simp add: JObj)
      ultimately show ?thesis using gm_set_same_iff [OF wf Some, of "?h child"]
        by (cases "?h child = child")
          (simp_all add: JObj del: redactValue.simps redact_ref.simps)
    qed
  qed (use Cons.prems in auto)
qed


section \<open>Laws of the reference semantics\<close>

lemma redact_ref_sentinel [simp]: "redact_ref ss (JStr RedactionSentinel) = JStr RedactionSentinel"
  by (cases ss) auto

lemma elems_ref_simps [simp]:
  "elems_ref f (JArr xs) = JArr (map f xs)"
  "elems_ref f (JObj kvs) = JObj kvs"
  "elems_ref f (JStr s) = JStr s"
  "elems_ref f JNull = JNull"
  "elems_ref f (JBool b) = JBool b"
  "elems_ref f (JInt i) = JInt i"
  "elems_ref f (JFloat t) = JFloat t"
  by (simp_all add: elems_ref_def)

lemma redact_ref_idem: "redact_ref ss (redact_ref ss v) = redact_ref ss v"
proof (induction ss arbitrary: v)
  case (Cons s ss)
  have "elems_ref (redact_ref ss) (elems_ref (redact_ref ss) c) = elems_ref (redact_ref ss) c" for c
    by (cases c) (simp_all add: Cons.IH)
  with Cons.IH show ?case by (cases v) auto
qed simp

text \<open>Two paths commute: the sentinel absorbs, and different members do not meet.\<close>

lemma elems_ref_comm:
  "(\<And>x. f (g x) = g (f x)) \<Longrightarrow> elems_ref f (elems_ref g v) = elems_ref g (elems_ref f v)"
  by (cases v) auto

lemma elems_redact_comm:
  "elems_ref f (redact_ref ss v) = redact_ref ss (elems_ref f v)"
  by (cases ss; cases v) auto

lemma redact_ref_comm: "redact_ref ss (redact_ref ts v) = redact_ref ts (redact_ref ss v)"
proof (induction ss arbitrary: ts v)
  case Nil
  then show ?case by simp
next
  case (Cons s ss)
  show ?case
  proof (cases ts)
    case Nil
    then show ?thesis by simp
  next
    case ts: (Cons t ts')
    have "elems_ref (redact_ref ss) (elems_ref (redact_ref ts') c)
        = elems_ref (redact_ref ts') (elems_ref (redact_ref ss) c)" for c
      by (rule elems_ref_comm) (rule Cons.IH)
    with Cons.IH [of ts'] elems_redact_comm show ?thesis
      by (cases v) (auto simp: ts)
  qed
qed

lemma json_at_map_members:
  "json_at (JObj (map (\<lambda>(k, c). (k, h k c)) kvs)) (Member k # p) =
   (case gm_get kvs k of None \<Rightarrow> None | Some c \<Rightarrow> json_at (h k c) p)"
proof -
  have "gm_get (map (\<lambda>(k, c). (k, h k c)) kvs) k = map_option (h k) (gm_get kvs k)"
    by (induction kvs) (auto simp: gm_get_def)
  then show ?thesis by (simp split: option.splits)
qed

lemma json_at_redact_member:
  "json_at (redact_ref (s # ss) (JObj kvs)) (Member k # p) =
   (case gm_get kvs k of None \<Rightarrow> None
    | Some c \<Rightarrow> json_at (if k = seg_name s then (if seg_wildcard s
        then elems_ref (redact_ref ss) c else redact_ref ss c) else c) p)"
  using json_at_map_members [of "\<lambda>k c. if k = seg_name s then (if seg_wildcard s
      then elems_ref (redact_ref ss) c else redact_ref ss c) else c" kvs k p] by simp

text \<open>An addressed value that exists is the sentinel afterwards.\<close>

lemma redact_ref_hits:
  "addresses ss p \<Longrightarrow> json_at v p \<noteq> None \<Longrightarrow>
   json_at (redact_ref ss v) p = Some (JStr RedactionSentinel)"
proof (induction ss arbitrary: p v)
  case Nil
  then show ?case by simp
next
  case (Cons s ss)
  from Cons.prems(1) obtain q where p: "p = Member (seg_name s) # q"
    and q: "if seg_wildcard s then (case q of Element i # r \<Rightarrow> addresses ss r | _ \<Rightarrow> False)
            else addresses ss q"
    by (auto split: list.splits jstep.splits if_splits)
  from Cons.prems(2) obtain kvs c where v: "v = JObj kvs" and c: "gm_get kvs (seg_name s) = Some c"
    and at: "json_at c q \<noteq> None"
    by (cases v) (auto simp: p split: option.splits)
  have eq: "json_at (redact_ref (s # ss) v) p
      = json_at (if seg_wildcard s then elems_ref (redact_ref ss) c else redact_ref ss c) q"
    using json_at_redact_member [of s ss kvs "seg_name s" q] c
    by (simp add: p v)
  show ?case
  proof (cases "seg_wildcard s")
    case True
    with q obtain i r where "q = Element i # r" and "addresses ss r"
      by (auto split: list.splits jstep.splits)
    with at True eq Cons.IH show ?thesis
      by (cases c) (auto split: if_splits)
  next
    case False
    with q eq at Cons.IH show ?thesis by simp
  qed
qed

text \<open>What a path does not reach, it does not change.\<close>

lemma addresses_exists: "\<exists>q. addresses ss q"
proof (induction ss)
  case (Cons s ss)
  then obtain q where "addresses ss q" by blast
  then have "addresses (s # ss) (Member (seg_name s) # (if seg_wildcard s then Element 0 # q else q))"
    by simp
  then show ?case by blast
qed simp

definition apart :: "redactionSegment list \<Rightarrow> jstep list \<Rightarrow> bool" where
  "apart ss p = (\<forall>q. addresses ss q \<longrightarrow> \<not> prefix q p \<and> \<not> prefix p q)"

lemma apart_Nil [simp]: "\<not> apart ss []"
  using addresses_exists [of ss] by (auto simp: apart_def)

lemma apart_member:
  "apart (s # ss) (Member (seg_name s) # p) \<Longrightarrow> \<not> seg_wildcard s \<Longrightarrow> apart ss p"
  unfolding apart_def
  by (intro allI impI) (drule_tac x = "Member (seg_name s) # q" in spec, simp)

lemma apart_element:
  "apart (s # ss) (Member (seg_name s) # Element i # p) \<Longrightarrow> seg_wildcard s \<Longrightarrow> apart ss p"
  unfolding apart_def
  by (intro allI impI) (drule_tac x = "Member (seg_name s) # Element i # q" in spec, simp)

lemma apart_wildcard:
  "\<not> apart (s # ss) [Member (seg_name s)]"
proof -
  obtain q where "addresses (s # ss) q" using addresses_exists by blast
  moreover from this have "prefix [Member (seg_name s)] q"
    by (auto split: list.splits jstep.splits)
  ultimately show ?thesis unfolding apart_def by blast
qed

lemma redact_ref_frame_off:
  assumes "apart (s # ss) p" and "\<not> (\<exists>kvs r. v = JObj kvs \<and> p = Member (seg_name s) # r)"
  shows "json_at (redact_ref (s # ss) v) p = json_at v p"
proof (cases v)
  case (JObj kvs)
  obtain a q where p: "p = a # q" using assms(1) by (cases p) auto
  show ?thesis
  proof (cases a)
    case (Member k)
    with assms(2) have "k \<noteq> seg_name s" by (simp add: p JObj)
    with json_at_redact_member [of s ss kvs k q]
    show ?thesis by (simp add: p JObj Member split: option.splits)
  qed (simp add: p JObj)
qed simp_all

lemma redact_ref_frame:
  "apart ss p \<Longrightarrow> json_at (redact_ref ss v) p = json_at v p"
proof (induction ss arbitrary: p v)
  case Nil
  then show ?case by (simp add: apart_def)
next
  case (Cons s ss)
  show ?case
  proof (cases "\<exists>kvs r. v = JObj kvs \<and> p = Member (seg_name s) # r")
    case False
    then show ?thesis using Cons.prems by (rule redact_ref_frame_off [rotated])
  next
    case True
    then obtain kvs r where v: "v = JObj kvs" and p: "p = Member (seg_name s) # r" by blast
    have eq: "json_at (if seg_wildcard s then elems_ref (redact_ref ss) c else redact_ref ss c) r
        = json_at c r" for c
    proof (cases "seg_wildcard s")
      case False
      with Cons show ?thesis by (simp add: p apart_member)
    next
      case w: True
      have "r \<noteq> []" using Cons.prems apart_wildcard by (auto simp: p)
      then show ?thesis
        using Cons.prems Cons.IH w apart_element
        by (cases r; cases "hd r"; cases c) (auto simp: p)
    qed
    then show ?thesis
      using json_at_redact_member [of s ss kvs "seg_name s" r]
      by (simp add: v p split: option.splits)
  qed
qed

lemma redact_ref_put: "addresses ss p \<Longrightarrow> redact_ref ss (json_put v p x) = redact_ref ss v"
proof (induction ss arbitrary: p v)
  case Nil
  then show ?case by simp
next
  case (Cons s ss)
  from Cons.prems obtain q where p: "p = Member (seg_name s) # q"
    and q: "if seg_wildcard s then (case q of Element i # r \<Rightarrow> addresses ss r | _ \<Rightarrow> False)
            else addresses ss q"
    by (auto split: list.splits jstep.splits if_splits)
  have eq: "(if seg_wildcard s then elems_ref (redact_ref ss) (json_put c q x)
        else redact_ref ss (json_put c q x))
      = (if seg_wildcard s then elems_ref (redact_ref ss) c else redact_ref ss c)" for c
  proof (cases "seg_wildcard s")
    case True
    with q obtain i r where r: "q = Element i # r" "addresses ss r"
      by (auto split: list.splits jstep.splits)
    then show ?thesis
      using True Cons.IH [OF r(2)] by (cases c) (auto simp: map_update list_update_same_conv)
  qed (use q Cons.IH in simp)
  show ?case
    by (cases v) (use eq in \<open>auto simp: p\<close>)
qed

section \<open>Policies as sets of paths\<close>

abbreviation redact_all :: "redactionPath list \<Rightarrow> json \<Rightarrow> json" where
  "redact_all ps \<equiv> fold (\<lambda>p. redact_ref (path_segments p)) ps"

lemma redact_all_wf: "json_wf v \<Longrightarrow> json_wf (redact_all ps v)"
  by (induction ps arbitrary: v) (simp_all add: redact_ref_wf)

lemma applyPaths_redact_all: "json_wf v \<Longrightarrow> applyPaths ps v = redact_all ps v"
  by (induction ps arbitrary: v) (auto simp: redactValue_ref redact_ref_wf Let_def)

lemma redact_all_comm: "redact_ref ss (redact_all ps v) = redact_all ps (redact_ref ss v)"
  by (induction ps arbitrary: v) (simp_all add: redact_ref_comm)

lemma redact_all_absorb:
  "p \<in> set ps \<Longrightarrow> redact_all ps (redact_ref (path_segments p) v) = redact_all ps v"
proof (induction ps arbitrary: v)
  case (Cons q ps)
  then show ?case
    by (cases "p = q") (auto simp: redact_ref_idem redact_ref_comm [of "path_segments q"])
qed simp

lemma redact_all_subset:
  "set qs \<subseteq> set ps \<Longrightarrow> redact_all ps (redact_all qs v) = redact_all ps v"
  by (induction qs arbitrary: v) (auto simp: redact_all_absorb)

lemma redact_all_swap: "redact_all ps (redact_all qs v) = redact_all qs (redact_all ps v)"
  by (induction ps arbitrary: v) (auto simp: redact_all_comm [symmetric])

lemma redact_all_cong: "set ps = set qs \<Longrightarrow> redact_all ps v = redact_all qs v"
  using redact_all_subset [of qs ps v] redact_all_subset [of ps qs v] redact_all_swap [of ps qs v]
  by simp

lemma redact_all_append: "redact_all (ps @ qs) v = redact_all qs (redact_all ps v)"
  by simp

lemma redact_all_put:
  assumes "p \<in> set ps" and "addresses (path_segments p) a"
  shows "redact_all ps (json_put v a x) = redact_all ps v"
  using assms redact_all_absorb [of p ps] redact_ref_put by metis

lemma redact_all_obj:
  "\<forall>p \<in> set ps. path_segments p \<noteq> [] \<Longrightarrow> \<exists>out. redact_all ps (JObj kvs) = JObj out"
proof (induction ps arbitrary: kvs)
  case (Cons p ps)
  then obtain s ss where "path_segments p = s # ss" by (auto simp: neq_Nil_conv)
  with Cons show ?case by simp
qed simp

definition policy_ok :: "RedactionPolicy \<Rightarrow> bool" where
  "policy_ok p = (\<forall>path \<in> set (policy_paths p). path_segments path \<noteq> [])"

lemma Apply_Some:
  assumes "policy_ok p" and "json_wf (JObj object)"
  obtains out where "Apply (Some p) object = Some out"
    and "JObj out = redact_all (policy_paths p) (JObj object)" and "json_wf (JObj out)"
  using redact_all_obj [of "policy_paths p" object] assms redact_all_wf [OF assms(2), of "policy_paths p"]
  by (auto simp: Apply_def applyPaths_redact_all policy_ok_def simp del: json_wf.simps)

section \<open>Quoting and parsing annotation paths\<close>

lemma hex_digit_not_bracket: "n < 16 \<Longrightarrow> hex_digit n \<noteq> CHR '']''"
  using of_char_hex_digit [of n] by (auto split: if_splits)

lemma cons_append_fun: "((@) [c]) = ((#) c)"
  by (simp add: fun_eq_iff)

lemma quote_escape_inverse: "quote_escape c = Some e \<Longrightarrow> simple_escape e = Some c"
  by (auto simp: quote_escape_def simple_escape_def split: if_split_asm)

lemma quote_escape_None: "quote_escape c = None \<Longrightarrow> c \<noteq> CHR 0x22 \<and> c \<noteq> CHR 0x0A \<and> c \<noteq> CHR 0x5C"
  by (simp add: quote_escape_def split: if_splits)

lemma quote_char_cases:
  obtains (esc) e where "quote_char c = [CHR 0x5C, e]" "simple_escape e = Some c"
  | (hex) "quote_char c = [CHR 0x5C, CHR ''x'', hex_digit (of_char c div 16), hex_digit (of_char c mod 16)]"
  | (plain) "quote_char c = [c]" "c \<noteq> CHR 0x22" "c \<noteq> CHR 0x0A" "c \<noteq> CHR 0x5C"
proof (cases "quote_escape c")
  case None
  then show ?thesis 
    using that(2,3) quote_escape_None [OF None]
    by (cases "(of_char c :: nat) < 32 \<or> c = CHR 0x7F") (auto simp: quote_char_def)
next
  case (Some e)
  then show ?thesis using that(1) quote_escape_inverse by (simp add: quote_char_def)
qed

lemma unquote_plain:
  "c \<noteq> CHR 0x22 \<Longrightarrow> c \<noteq> CHR 0x0A \<Longrightarrow> c \<noteq> CHR 0x5C \<Longrightarrow>
   unquote_body (c # rest) = map_option (\<lambda>r. c # r) (unquote_body rest)"
  by (subst unquote_body.simps) simp

lemma unquote_simple:
  "simple_escape e = Some c \<Longrightarrow>
   unquote_body (CHR 0x5C # e # rest) = map_option (\<lambda>r. c # r) (unquote_body rest)"
  by (subst unquote_body.simps) (simp add: unescape_def cons_append_fun)

lemma unquote_hex:
  assumes "h = hex_digit (of_char c div 16)" and "l = hex_digit (of_char c mod 16)"
  shows "unquote_body (CHR 0x5C # CHR ''x'' # h # l # rest) = map_option (\<lambda>r. c # r) (unquote_body rest)"
proof -
  have "(of_char c :: nat) div 16 < 16" using of_char_less_256 [of c] by (simp add: less_mult_imp_div_less)
  then have h: "hex_value h = Some (of_char c div 16)" and l: "hex_value l = Some (of_char c mod 16)"
    by (simp_all add: assms hex_value_hex_digit)
  have "numeric_escape hex_value 16 2 (h # l # rest) = Some (of_char c)"
    by (simp add: numeric_escape_def h l numeral_2_eq_2 mult.commute)
  then show ?thesis
    by (subst unquote_body.simps) (simp add: unescape_def simple_escape_def cons_append_fun)
qed

lemma unquote_quote_char:
  "unquote_body (quote_char c @ rest) = map_option (\<lambda>r. c # r) (unquote_body rest)"
  by (cases c rule: quote_char_cases) (simp_all add: unquote_plain unquote_hex unquote_simple)

lemma unquote_quote [simp]: "go_unquote (go_quote s) = Some s"
proof -
  have "unquote_body (concat (map quote_char s) @ [CHR 0x22]) = Some s"
  proof (induction s)
    case Nil
    then show ?case by (subst unquote_body.simps) simp
  qed (simp add: unquote_quote_char)
  then show ?thesis by (simp add: go_unquote_def go_quote_def)
qed

lemma quote_char_no_bracket: "CHR '']'' \<noteq> c \<Longrightarrow> CHR '']'' \<notin> set (quote_char c)"
proof (cases c rule: quote_char_cases)
  case (esc e)
  then have "e \<noteq> CHR '']''" by (auto simp: simple_escape_def)
  with esc show ?thesis by simp
next
  case hex
  have "(of_char c :: nat) div 16 < 16" using of_char_less_256 [of c] by (simp add: less_mult_imp_div_less)
  with hex show ?thesis by (simp add: hex_digit_not_bracket [symmetric])
qed simp

lemma quote_no_bracket: "CHR '']'' \<notin> set s \<Longrightarrow> CHR '']'' \<notin> set (go_quote s)"
proof -
  assume "CHR '']'' \<notin> set s"
  then have "CHR '']'' \<notin> set (concat (map quote_char s))"
    by (induction s) (simp_all add: quote_char_no_bracket)
  then show ?thesis by (simp add: go_quote_def)
qed

lemma parse_name_metadata:
  "parseSegment raw (''metadata.'' @ r) = Inr ([\<lparr>seg_name = ''metadata'', seg_wildcard = False\<rparr>], CHR ''.'' # r)"
  by (simp add: parseSegment_def parseSegmentName_def redactionSegmentPattern_def name_start_def
      name_char_def has_prefix_def)

lemma parse_quoted_annotation:
  assumes "key \<noteq> []" and "CHR '']'' \<notin> set key"
  shows "parseSegment raw (''annotations['' @ go_quote key @ '']'')
    = Inr ([\<lparr>seg_name = ''annotations'', seg_wildcard = False\<rparr>, \<lparr>seg_name = key, seg_wildcard = False\<rparr>], [])"
proof -
  have cut: "cut_before (\<lambda>c. c = CHR '']'') (''['' @ go_quote key @ '']'') = (''['' @ go_quote key, '']'')"
    using quote_no_bracket [OF assms(2)] cut_before_stop [of "''['' @ go_quote key" "\<lambda>c. c = CHR '']''" "'']''"]
    by auto
  have "has_prefix (go_quote key) [CHR 0x22]" and "go_quote key \<noteq> ''*''"
    by (simp_all add: go_quote_def has_prefix_def)
  with cut assms(1) have "parseSubscript raw seg (''['' @ go_quote key @ '']'')
      = Inr ([seg, \<lparr>seg_name = key, seg_wildcard = False\<rparr>], [])" for seg
    by (simp add: parseSubscript_def)
  then show ?thesis
    by (simp add: parseSegment_def parseSegmentName_def redactionSegmentPattern_def name_start_def
        name_char_def has_prefix_def)
qed

lemma parse_annotation:
  assumes "key \<noteq> []" and "CHR '']'' \<notin> set key"
  shows "parseRedactionPath (AnnotationRedactionPath key) = Inr
    \<lparr>path_raw = AnnotationRedactionPath key,
     path_segments = [\<lparr>seg_name = ''metadata'', seg_wildcard = False\<rparr>,
       \<lparr>seg_name = ''annotations'', seg_wildcard = False\<rparr>, \<lparr>seg_name = key, seg_wildcard = False\<rparr>]\<rparr>"
proof -
  have "AnnotationRedactionPath key = ''metadata.'' @ ''annotations['' @ go_quote key @ '']''"
    by (simp add: AnnotationRedactionPath_def)
  then show ?thesis
    using parse_name_metadata [of "AnnotationRedactionPath key" "''annotations['' @ go_quote key @ '']''"]
      parse_quoted_annotation [OF assms, of "AnnotationRedactionPath key"]
    by (simp add: parseRedactionPath_def parseLoop.simps)
qed
section \<open>Compiling and merging policies\<close>

lemma parseSegment_nonempty: "parseSegment raw rest = Inr (segs, r) \<Longrightarrow> segs \<noteq> []"
  by (auto simp: parseSegment_def parseSubscript_def Let_def split: sum.splits if_splits prod.splits
      option.splits)

lemma parseLoop_nonempty: "parseLoop raw rest acc = Inr segs \<Longrightarrow> segs \<noteq> []"
  by (induction raw rest acc rule: parseLoop.induct)
    (subst (asm) (2) parseLoop.simps,
      auto split: sum.splits list.splits if_splits prod.splits dest: parseSegment_nonempty)

lemma parse_ok:
  "parseRedactionPath raw = Inr p \<Longrightarrow> path_raw p = raw \<and> path_segments p \<noteq> []"
  by (auto simp: parseRedactionPath_def split: if_splits sum.splits dest: parseLoop_nonempty)

definition parses :: "string \<Rightarrow> bool" where
  "parses raw = (\<exists>p. parseRedactionPath raw = Inr p)"

lemma builtin_parses: "raw \<in> set builtinPaths \<Longrightarrow> parses raw"
  using parse_annotation [of LastAppliedConfigAnnotation]
  by (simp add: builtinPaths_def parses_def LastAppliedConfigAnnotation_def)

lemma compileLoop_total:
  "\<forall>raw \<in> set raws. parses raw \<Longrightarrow> \<exists>out. compileLoop seen acc raws = Inr out"
  by (induction seen acc raws rule: compileLoop.induct) (auto simp: parses_def split: sum.splits)

lemma compileLoop_spec:
  "compileLoop seen acc raws = Inr out \<Longrightarrow>
     set out = set acc \<union> {p. \<exists>raw \<in> set raws - set seen. parseRedactionPath raw = Inr p}
     \<and> (\<forall>raw \<in> set raws - set seen. parses raw)"
proof (induction seen acc raws rule: compileLoop.induct)
  case (2 seen acc raw raws)
  show ?case
  proof (cases "raw \<in> set seen")
    case True
    with 2 show ?thesis by auto
  next
    case False
    with "2.prems" obtain p where p: "parseRedactionPath raw = Inr p"
      and rest: "compileLoop (raw # seen) (acc @ [p]) raws = Inr out"
      by (auto split: sum.splits)
    from "2.IH"(2) [OF False p rest] p False show ?thesis
      by (auto simp: parses_def)
  qed
qed simp

lemma compileLoop_distinct:
  "compileLoop seen acc raws = Inr out \<Longrightarrow> distinct (map path_raw acc) \<Longrightarrow>
   path_raw ` set acc \<subseteq> set seen \<Longrightarrow> distinct (map path_raw out)"
proof (induction seen acc raws rule: compileLoop.induct)
  case (2 seen acc raw raws)
  show ?case
  proof (cases "raw \<in> set seen")
    case True
    with 2 show ?thesis by simp
  next
    case False
    with "2.prems" obtain p where p: "parseRedactionPath raw = Inr p"
      and rest: "compileLoop (raw # seen) (acc @ [p]) raws = Inr out"
      by (auto split: sum.splits)
    show ?thesis
      by (rule "2.IH"(2) [OF False p rest]) (use 2 False parse_ok [OF p] in auto)
  qed
qed simp

lemma CompileRedaction_spec:
  assumes "CompileRedaction paths = Inr pol"
  shows "set (policy_paths pol) = {p. \<exists>raw \<in> set (paths @ builtinPaths). parseRedactionPath raw = Inr p}"
    and "sorted (map path_raw (policy_paths pol))" and "distinct (map path_raw (policy_paths pol))"
    and "\<forall>raw \<in> set paths. parses raw"
proof -
  from assms obtain out where out: "compileLoop [] [] (paths @ builtinPaths) = Inr out"
    and pol: "pol = \<lparr>policy_paths = sort_key path_raw out\<rparr>"
    by (auto simp: CompileRedaction_def split: sum.splits)
  show "set (policy_paths pol) = {p. \<exists>raw \<in> set (paths @ builtinPaths). parseRedactionPath raw = Inr p}"
    using compileLoop_spec [OF out] by (simp add: pol)
  show "sorted (map path_raw (policy_paths pol))" by (simp add: pol)
  show "distinct (map path_raw (policy_paths pol))"
    using compileLoop_distinct [OF out] by (simp add: pol distinct_map)
  show "\<forall>raw \<in> set paths. parses raw" using compileLoop_spec [OF out] by auto
qed

lemma CompileRedaction_iff:
  "(\<exists>pol. CompileRedaction paths = Inr pol) \<longleftrightarrow> (\<forall>raw \<in> set paths. parses raw)"
proof
  assume "\<forall>raw \<in> set paths. parses raw"
  then have "\<forall>raw \<in> set (paths @ builtinPaths). parses raw" using builtin_parses by auto
  from compileLoop_total [OF this, of "[]" "[]"] show "\<exists>pol. CompileRedaction paths = Inr pol"
    by (auto simp: CompileRedaction_def)
qed (use CompileRedaction_spec(4) in blast)

lemma sorted_paths_unique:
  assumes "set ps = set qs" and "sorted (map path_raw ps)" "distinct (map path_raw ps)"
    and "sorted (map path_raw qs)" "distinct (map path_raw qs)"
  shows "ps = qs"
  using assms by (metis map_sorted_distinct_set_unique distinct_map Un_absorb)

lemma policy_ok_compiled: "CompileRedaction paths = Inr pol \<Longrightarrow> policy_ok pol"
  using CompileRedaction_spec(1) parse_ok by (fastforce simp: policy_ok_def)

lemma compiled_builtin: "CompileRedaction builtinPaths = Inr builtinRedaction"
  using CompileRedaction_iff [of builtinPaths] builtin_parses
  by (auto simp: builtinRedaction_def)

lemma mergeLoop_spec:
  assumes "path_raw ` set merged = set seen"
  shows "path_raw ` set (mergeLoop seen merged ps) = set seen \<union> path_raw ` set ps
     \<and> set (mergeLoop seen merged ps) \<subseteq> set merged \<union> set ps
     \<and> set merged \<subseteq> set (mergeLoop seen merged ps)
     \<and> (distinct (map path_raw merged) \<longrightarrow> distinct (map path_raw (mergeLoop seen merged ps)))"
  using assms by (induction seen merged ps rule: mergeLoop.induct) auto

lemma compiled_parsed:
  "CompileRedaction a = Inr pol \<Longrightarrow> p \<in> set (policy_paths pol) \<Longrightarrow> parseRedactionPath (path_raw p) = Inr p"
  using CompileRedaction_spec(1) parse_ok by fastforce

lemma MergeRedaction_compiled:
  assumes a: "CompileRedaction a = Inr p" and b: "CompileRedaction b = Inr q"
    and ab: "CompileRedaction (a @ b) = Inr m"
  shows "MergeRedaction [Some p, Some q] = Some m"
proof -
  let ?ps = "policy_paths p @ policy_paths q"
  let ?l = "mergeLoop [] [] ?ps"
  have spec: "path_raw ` set ?l = path_raw ` set ?ps" "set ?l \<subseteq> set ?ps" "distinct (map path_raw ?l)"
    using mergeLoop_spec [of "[]" "[]" ?ps] by simp_all
  have inj: "x = y" if "x \<in> set ?ps" "y \<in> set ?ps" "path_raw x = path_raw y" for x y
    using that compiled_parsed [OF a] compiled_parsed [OF b] by (metis Inr_inject Un_iff set_append)
  have set: "set ?l = set ?ps"
  proof
    show "set ?ps \<subseteq> set ?l"
    proof
      fix x assume x: "x \<in> set ?ps"
      then obtain y where "y \<in> set ?l" "path_raw y = path_raw x" using spec(1) by (metis imageE imageI)
      with inj x spec(2) show "x \<in> set ?l" by blast
    qed
  qed (rule spec(2))
  have "set ?ps = set (policy_paths m)"
    unfolding CompileRedaction_spec(1) [OF ab] using CompileRedaction_spec(1) [OF a] CompileRedaction_spec(1) [OF b]
    by auto
  then have "sort_key path_raw ?l = policy_paths m"
    using set spec(3) CompileRedaction_spec(2,3) [OF ab]
    by (intro sorted_paths_unique) (auto simp: distinct_map)
  moreover have "?l \<noteq> []"
    using set CompileRedaction_spec(1) [OF a] builtin_parses by (auto simp: builtinPaths_def parses_def)
  ultimately show ?thesis by (simp add: MergeRedaction_def)
qed

lemma redact_ref_keeps_sentinel:
  "json_at v q = Some (JStr RedactionSentinel) \<Longrightarrow>
   \<exists>q'. prefix q' q \<and> json_at (redact_ref ss v) q' = Some (JStr RedactionSentinel)"
proof (induction ss arbitrary: v q)
  case Nil
  show ?case by (rule exI [of _ "[]"]) simp
next
  case (Cons s ss)
  show ?case
  proof (cases "\<exists>kvs r. v = JObj kvs \<and> q = Member (seg_name s) # r")
    case False
    have "json_at (redact_ref (s # ss) v) q = json_at v q"
    proof (cases v)
      case (JObj kvs)
      with Cons.prems False obtain k r where "q = Member k # r" and "k \<noteq> seg_name s"
        by (cases q; cases "hd q") auto
      with json_at_redact_member [of s ss kvs k r]
      show ?thesis by (simp add: JObj split: option.splits)
    qed simp_all
    with Cons.prems show ?thesis by auto
  next
    case True
    then obtain kvs r where v: "v = JObj kvs" and q: "q = Member (seg_name s) # r" by blast
    with Cons.prems obtain c where c: "gm_get kvs (seg_name s) = Some c"
      and at: "json_at c r = Some (JStr RedactionSentinel)" by (auto split: option.splits)
    have "\<exists>r'. prefix r' r \<and> json_at (if seg_wildcard s then elems_ref (redact_ref ss) c
        else redact_ref ss c) r' = Some (JStr RedactionSentinel)"
    proof (cases "seg_wildcard s \<and> (\<exists>xs i t. c = JArr xs \<and> r = Element i # t)")
      case True
      then obtain xs i t where ct: "c = JArr xs" "r = Element i # t" by blast
      with at have i: "i < length xs" "json_at (xs ! i) t = Some (JStr RedactionSentinel)"
        by (auto split: if_splits)
      from Cons.IH [OF i(2)] obtain t' where "prefix t' t"
        "json_at (redact_ref ss (xs ! i)) t' = Some (JStr RedactionSentinel)" by blast
      with True ct i show ?thesis by (intro exI [of _ "Element i # t'"]) simp
    next
      case False
      show ?thesis
      proof (cases "seg_wildcard s")
        case True
        with False at have "elems_ref (redact_ref ss) c = c"
          by (cases c; cases r; cases "hd r") auto
        with True at show ?thesis by auto
      qed (use Cons.IH [OF at] in simp)
    qed
    then obtain r' where r': "prefix r' r" "json_at (if seg_wildcard s then elems_ref (redact_ref ss) c
        else redact_ref ss c) r' = Some (JStr RedactionSentinel)" by blast
    have "json_at (redact_ref (s # ss) v) (Member (seg_name s) # r') = Some (JStr RedactionSentinel)"
      using json_at_redact_member [of s ss kvs "seg_name s" r'] c r'(2)
      by (simp add: v)
    with r'(1) show ?thesis by (intro exI [of _ "Member (seg_name s) # r'"]) (simp add: q)
  qed
qed

lemma redact_all_keeps_sentinel:
  "json_at v q = Some (JStr RedactionSentinel) \<Longrightarrow>
   \<exists>q'. prefix q' q \<and> json_at (redact_all ps v) q' = Some (JStr RedactionSentinel)"
proof (induction ps arbitrary: v q)
  case (Cons p ps)
  from redact_ref_keeps_sentinel [OF Cons.prems] obtain q1 where "prefix q1 q"
    "json_at (redact_ref (path_segments p) v) q1 = Some (JStr RedactionSentinel)" by blast
  with Cons.IH prefix_order.trans show ?case by (metis fold_simps(2))
qed auto

lemma redact_all_scrubs:
  assumes "p \<in> set ps" and "addresses (path_segments p) a" and "json_at v a \<noteq> None"
  shows "\<exists>q. prefix q a \<and> json_at (redact_all ps v) q = Some (JStr RedactionSentinel)"
  using redact_all_keeps_sentinel [OF redact_ref_hits [OF assms(2,3)], of ps]
  by (simp add: redact_all_absorb [OF assms(1)])

lemma redact_all_frame:
  "\<forall>p \<in> set ps. apart (path_segments p) a \<Longrightarrow> json_at (redact_all ps v) a = json_at v a"
  by (induction ps arbitrary: v) (simp_all add: redact_ref_frame)

lemma Apply_compiled:
  assumes "CompileRedaction paths = Inr pol" and "json_wf (JObj object)"
  obtains out where "Apply (Some pol) object = Some out"
    and "JObj out = redact_all (policy_paths pol) (JObj object)" and "json_wf (JObj out)"
  using Apply_Some [OF policy_ok_compiled [OF assms(1)] assms(2)] .

lemma compiled_path_mem:
  "CompileRedaction paths = Inr pol \<Longrightarrow> raw \<in> set (paths @ builtinPaths) \<Longrightarrow>
   parseRedactionPath raw = Inr p \<Longrightarrow> p \<in> set (policy_paths pol)"
  using CompileRedaction_spec(1) by blast

section \<open>Properties\<close>

text \<open>
  A sample object for the witnesses: a Secret-like payload next to a field no path names.
\<close>

definition sample_object :: "string \<Rightarrow> (string, json) gomap" where
  "sample_object secret =
     [(''data'', JObj [(''password'', JStr secret), (''user'', JStr ''admin'')]),
      (''kind'', JStr ''ConfigMap'')]"

lemma sample_parses: "parses ''data.password''"
  unfolding parses_def
  by (simp add: parseRedactionPath_def parseLoop.simps parseSegment_def parseSegmentName_def
      redactionSegmentPattern_def name_start_def name_char_def has_prefix_def)

lemma sample_path: "parseRedactionPath ''data.password'' = Inr \<lparr>path_raw = ''data.password'',
    path_segments = [\<lparr>seg_name = ''data'', seg_wildcard = False\<rparr>, \<lparr>seg_name = ''password'', seg_wildcard = False\<rparr>]\<rparr>"
  by (simp add: parseRedactionPath_def parseLoop.simps parseSegment_def parseSegmentName_def
      redactionSegmentPattern_def name_start_def name_char_def has_prefix_def)

lemma sample_wf: "json_wf (JObj (sample_object s))"
  by (simp add: sample_object_def)

lemma apart_head: "seg_name s \<noteq> k \<Longrightarrow> apart (s # ss) (Member k # p)"
  by (auto simp: apart_def prefix_def Cons_eq_append_conv split: list.splits jstep.splits)

lemma sample_compiles: "\<exists>pol. CompileRedaction [''data.password''] = Inr pol"
  using CompileRedaction_iff [of "[''data.password'']"] sample_parses by simp

lemma Apply_put:
  assumes "CompileRedaction paths = Inr pol"
    and "raw \<in> set (paths @ builtinPaths)" and "parseRedactionPath raw = Inr path"
    and "addresses (path_segments path) a"
    and "json_wf (JObj object)" and "json_wf (JObj object')"
    and "JObj object' = json_put (JObj object) a x"
  shows "Apply (Some pol) object' = Apply (Some pol) object"
proof -
  have "redact_all (policy_paths pol) (JObj object') = redact_all (policy_paths pol) (JObj object)"
    unfolding assms(7) using compiled_path_mem [OF assms(1-3)] assms(4) by (rule redact_all_put)
  then show ?thesis
    using Apply_compiled [OF assms(1,5)] Apply_compiled [OF assms(1,6)] by (metis json.inject(6))
qed

text \<open>
  C21: the copy-on-write walk is exact. On a well-formed value \<open>redactValue\<close> returns the value
  with every addressed position replaced by the sentinel, and its change flag says precisely
  whether that differs from the input, so a subtree is shared only when nothing in it changed.
\<close>

theorem redactValue_exact:
  assumes "json_wf v"
  shows "redactValue segments v = (redact_ref segments v, redact_ref segments v \<noteq> v)"
  using assms by (rule redactValue_ref)

theorem redactValue_exact_witness:
  "redactValue [\<lparr>seg_name = ''a'', seg_wildcard = True\<rparr>, \<lparr>seg_name = ''b'', seg_wildcard = False\<rparr>]
     (JObj [(''a'', JArr [JObj [(''b'', JInt 1)], JNull])])
   = (JObj [(''a'', JArr [JObj [(''b'', JStr RedactionSentinel)], JNull])], True)"
  by (subst redactValue_exact) simp_all

text \<open>
  Nothing a policy names survives. After \<open>Apply\<close> with a compiled policy, every existing
  position addressed by one of the policy's paths, the built-in one included, lies at or below a
  position that holds the sentinel.
\<close>

theorem Apply_scrubs_addressed:
  assumes "CompileRedaction paths = Inr pol" and "json_wf (JObj object)"
    and "raw \<in> set (paths @ builtinPaths)" and "parseRedactionPath raw = Inr path"
    and "addresses (path_segments path) a" and "json_at (JObj object) a \<noteq> None"
  shows "\<exists>out q. Apply (Some pol) object = Some out \<and> prefix q a
           \<and> json_at (JObj out) q = Some (JStr RedactionSentinel)"
proof -
  obtain out where "Apply (Some pol) object = Some out"
    and out: "JObj out = redact_all (policy_paths pol) (JObj object)"
    by (rule Apply_compiled [OF assms(1,2)])
  with redact_all_scrubs [OF compiled_path_mem [OF assms(1,3,4)] assms(5,6)] show ?thesis
    by (metis out)
qed

theorem Apply_scrubs_addressed_witness:
  "\<exists>pol out q. CompileRedaction [''data.password''] = Inr pol
     \<and> Apply (Some pol) (sample_object ''hunter2'') = Some out
     \<and> prefix q [Member ''data'', Member ''password'']
     \<and> json_at (JObj out) q = Some (JStr RedactionSentinel)"
proof -
  obtain pol where pol: "CompileRedaction [''data.password''] = Inr pol" using sample_compiles by blast
  show ?thesis
    using Apply_scrubs_addressed [OF pol sample_wf [of "''hunter2''"] _ sample_path,
        of "[Member ''data'', Member ''password'']"] pol
    by (simp add: sample_object_def gm_get_def)
qed

text \<open>
  A redacted value does not influence what is stored. Two objects that differ only in the
  value at an addressed position redact to the same result (so they hash alike and no diff can
  carry the difference).
\<close>

theorem Apply_noninterference:
  assumes "CompileRedaction paths = Inr pol"
    and "raw \<in> set (paths @ builtinPaths)" and "parseRedactionPath raw = Inr path"
    and "addresses (path_segments path) a"
    and "json_wf (JObj object)" and "json_wf (JObj object')"
    and "JObj object' = json_put (JObj object) a x"
  shows "Apply (Some pol) object' = Apply (Some pol) object"
  using assms by (rule Apply_put)

theorem Apply_noninterference_witness:
  "\<exists>pol. CompileRedaction [''data.password''] = Inr pol
     \<and> Apply (Some pol) (sample_object ''hunter3'') = Apply (Some pol) (sample_object ''hunter2'')"
proof -
  obtain pol where pol: "CompileRedaction [''data.password''] = Inr pol" using sample_compiles by blast
  have "JObj (sample_object ''hunter3'')
      = json_put (JObj (sample_object ''hunter2'')) [Member ''data'', Member ''password''] (JStr ''hunter3'')"
    by (simp add: sample_object_def)
  from Apply_noninterference [OF pol _ sample_path _ sample_wf sample_wf this]
  have "Apply (Some pol) (sample_object ''hunter3'') = Apply (Some pol) (sample_object ''hunter2'')"
    by simp
  with pol show ?thesis by blast
qed

text \<open>
  Redaction is idempotent: a compiled policy applied to its own result changes nothing,
  and \<open>Apply\<close> always returns (the type assertion on the root cannot panic).
\<close>

theorem Apply_idempotent:
  assumes "CompileRedaction paths = Inr pol" and "json_wf (JObj object)"
  shows "\<exists>out. Apply (Some pol) object = Some out \<and> Apply (Some pol) out = Some out"
proof -
  obtain out where a: "Apply (Some pol) object = Some out"
    and out: "JObj out = redact_all (policy_paths pol) (JObj object)" and wf: "json_wf (JObj out)"
    by (rule Apply_compiled [OF assms])
  obtain out' where a': "Apply (Some pol) out = Some out'"
    and out': "JObj out' = redact_all (policy_paths pol) (JObj out)"
    by (rule Apply_compiled [OF assms(1) wf])
  have "JObj out' = JObj out"
    unfolding out' out by (simp add: redact_all_subset)
  with a a' show ?thesis by simp
qed

theorem Apply_idempotent_witness:
  "\<exists>pol out. CompileRedaction [''data.password''] = Inr pol
     \<and> Apply (Some pol) (sample_object ''hunter2'') = Some out \<and> Apply (Some pol) out = Some out"
  using sample_compiles Apply_idempotent [OF _ sample_wf] by metis

text \<open>
  A policy only touches what it names: a position that neither lies below an addressed
  position nor above one reads the same before and after.
\<close>

theorem Apply_frame:
  assumes "CompileRedaction paths = Inr pol" and "json_wf (JObj object)"
    and "\<forall>path \<in> set (policy_paths pol). apart (path_segments path) a"
    and "Apply (Some pol) object = Some out"
  shows "json_at (JObj out) a = json_at (JObj object) a"
proof -
  obtain out' where "Apply (Some pol) object = Some out'"
    and "JObj out' = redact_all (policy_paths pol) (JObj object)"
    by (rule Apply_compiled [OF assms(1,2)])
  with assms(3,4) show ?thesis by (simp add: redact_all_frame)
qed

theorem Apply_frame_witness:
  "\<exists>pol out. CompileRedaction [''data.password''] = Inr pol
     \<and> Apply (Some pol) (sample_object ''hunter2'') = Some out
     \<and> json_at (JObj out) [Member ''kind''] = Some (JStr ''ConfigMap'')"
proof -
  obtain pol where pol: "CompileRedaction [''data.password''] = Inr pol" using sample_compiles by blast
  obtain out where out: "Apply (Some pol) (sample_object ''hunter2'') = Some out"
    by (rule Apply_compiled [OF pol sample_wf])
  have "\<forall>path \<in> set (policy_paths pol). apart (path_segments path) [Member ''kind'']"
  proof
    fix path assume "path \<in> set (policy_paths pol)"
    then have "parseRedactionPath ''data.password'' = Inr path
        \<or> parseRedactionPath (AnnotationRedactionPath LastAppliedConfigAnnotation) = Inr path"
      unfolding CompileRedaction_spec(1) [OF pol] builtinPaths_def by (simp only: set_simps set_append) blast
    moreover have "LastAppliedConfigAnnotation \<noteq> []" "CHR '']'' \<notin> set LastAppliedConfigAnnotation"
      by (simp_all add: LastAppliedConfigAnnotation_def)
    ultimately have "path_segments path \<noteq> [] \<and> seg_name (hd (path_segments path)) \<noteq> ''kind''"
      using sample_path parse_annotation by auto
    then show "apart (path_segments path) [Member ''kind'']"
      by (cases "path_segments path") (simp_all add: apart_head)
  qed
  from Apply_frame [OF pol sample_wf this out] pol out show ?thesis
    by (auto simp: sample_object_def gm_get_def)
qed

text \<open>
  A policy is a function of its set of paths: the order in which rules were merged and
  repeated paths do not change the compiled policy.
\<close>

theorem CompileRedaction_canonical:
  assumes "CompileRedaction paths = Inr pol" and "set paths' = set paths"
  shows "CompileRedaction paths' = Inr pol"
proof -
  obtain pol' where pol': "CompileRedaction paths' = Inr pol'"
    using CompileRedaction_iff CompileRedaction_spec(4) [OF assms(1)] assms(2) by blast
  have "policy_paths pol' = policy_paths pol"
    using CompileRedaction_spec(1-3) [OF assms(1)] CompileRedaction_spec(1-3) [OF pol'] assms(2)
    by (intro sorted_paths_unique) auto
  with pol' show ?thesis by simp
qed

theorem CompileRedaction_canonical_witness:
  "\<exists>pol. CompileRedaction [''data.password''] = Inr pol
     \<and> CompileRedaction [''data.password'', ''data.password''] = Inr pol"
  using sample_compiles CompileRedaction_canonical [of "[''data.password'']" _ "[''data.password'', ''data.password'']"]
  by auto

text \<open>
  Compilation fails closed: it succeeds exactly when every path parses, so no unparseable
  path is ever skipped.
\<close>

theorem CompileRedaction_fails_closed:
  "(\<exists>pol. CompileRedaction paths = Inr pol)
     \<longleftrightarrow> list_all (\<lambda>raw. case parseRedactionPath raw of Inl _ \<Rightarrow> False | Inr _ \<Rightarrow> True) paths"
proof -
  have "parses raw \<longleftrightarrow> (case parseRedactionPath raw of Inl _ \<Rightarrow> False | Inr _ \<Rightarrow> True)" for raw
    by (cases "parseRedactionPath raw") (simp_all add: parses_def)
  then show ?thesis by (simp add: CompileRedaction_iff list_all_iff)
qed

text \<open>
  Merging is union: the merge of two compiled policies is the policy compiled from both path
  lists, and applying it is applying one policy after the other.
\<close>

theorem MergeRedaction_union:
  assumes "CompileRedaction a = Inr p" and "CompileRedaction b = Inr q" and "json_wf (JObj object)"
  shows "\<exists>m. MergeRedaction [Some p, Some q] = Some m \<and> CompileRedaction (a @ b) = Inr m
           \<and> Apply (Some m) object = Option.bind (Apply (Some p) object) (Apply (Some q))"
proof -
  obtain m where m: "CompileRedaction (a @ b) = Inr m"
    using CompileRedaction_iff [of "a @ b"] CompileRedaction_spec(4) assms(1,2) by auto
  obtain out where o1: "Apply (Some p) object = Some out"
    and j1: "JObj out = redact_all (policy_paths p) (JObj object)" and wf: "json_wf (JObj out)"
    by (rule Apply_compiled [OF assms(1,3)])
  obtain out' where o2: "Apply (Some q) out = Some out'"
    and j2: "JObj out' = redact_all (policy_paths q) (JObj out)"
    by (rule Apply_compiled [OF assms(2) wf])
  obtain out'' where o3: "Apply (Some m) object = Some out''"
    and j3: "JObj out'' = redact_all (policy_paths m) (JObj object)"
    by (rule Apply_compiled [OF m assms(3)])
  have "set (policy_paths m) = set (policy_paths p @ policy_paths q)"
    using CompileRedaction_spec(1) [OF m] CompileRedaction_spec(1) [OF assms(1)]
      CompileRedaction_spec(1) [OF assms(2)] by auto
  then have "JObj out'' = JObj out'"
    unfolding j1 j2 j3 using redact_all_append by (metis redact_all_cong)
  with o1 o2 o3 MergeRedaction_compiled [OF assms(1,2) m] m show ?thesis by simp
qed

theorem MergeRedaction_union_witness:
  "\<exists>p m. CompileRedaction [''data.password''] = Inr p \<and> MergeRedaction [Some p, Some p] = Some m
     \<and> Apply (Some m) (sample_object ''x'') = Option.bind (Apply (Some p) (sample_object ''x'')) (Apply (Some p))"
  using sample_compiles MergeRedaction_union [OF _ _ sample_wf] by metis

text \<open>
  The annotation shorthand round-trips: the canonical path of an annotation key parses to the
  three steps metadata, annotations, key, for every non-empty ASCII key without a closing bracket
  (dots, slashes and quotes included).
\<close>

theorem annotation_path_roundtrip:
  assumes "key \<noteq> []" and "list_all is_ascii key" and "CHR '']'' \<notin> set key"
  shows "parseRedactionPath (AnnotationRedactionPath key) = Inr
    \<lparr>path_raw = AnnotationRedactionPath key,
     path_segments = [\<lparr>seg_name = ''metadata'', seg_wildcard = False\<rparr>,
       \<lparr>seg_name = ''annotations'', seg_wildcard = False\<rparr>, \<lparr>seg_name = key, seg_wildcard = False\<rparr>]\<rparr>"
  using assms(1,3) by (rule parse_annotation)

theorem annotation_path_roundtrip_witness:
  "parseRedactionPath (AnnotationRedactionPath ''example.com/a'') = Inr
    \<lparr>path_raw = AnnotationRedactionPath ''example.com/a'',
     path_segments = [\<lparr>seg_name = ''metadata'', seg_wildcard = False\<rparr>,
       \<lparr>seg_name = ''annotations'', seg_wildcard = False\<rparr>, \<lparr>seg_name = ''example.com/a'', seg_wildcard = False\<rparr>]\<rparr>"
  by (rule annotation_path_roundtrip) (simp_all add: is_ascii_def)

end
