(* ===== verification/Normalize.thy ===== *)
theory Normalize
  imports Redact Sha256
begin

text \<open>
  From a live object to the bytes that are hashed, diffed and stored
  (\<open>internal/pipeline/actors.go\<close>, the first half of \<open>internal/pipeline/process.go\<close> and
  \<open>TransformObject\<close> of \<open>internal/watch/pool.go\<close>).

  The accessors of \<open>unstructured.Unstructured\<close>, the JSON comparison of \<open>jsondiff\<close> and the
  marshalling of its patches are parameters: \<open>k8s_env\<close> and \<open>diff_env\<close>. What the Kubernetes
  library documents of the accessors is \<open>accessors_ok\<close>.
\<close>

type_synonym object = "(string, json) gomap"

section \<open>Parameters\<close>

text \<open>
  \<open>NestedFieldNoCopy\<close> returns nothing for its error and \<open>Some None\<close> for \<open>found = false\<close>.
  \<open>GetAnnotations\<close> and \<open>GetLabels\<close> return nothing for a nil map.
\<close>

record k8s_env =
  GetUID :: "object \<Rightarrow> string"
  GetResourceVersion :: "object \<Rightarrow> string"
  GVKVersion :: "object \<Rightarrow> string"
  GetLabels :: "object \<Rightarrow> (string, string) gomap option"
  GetAnnotations :: "object \<Rightarrow> (string, string) gomap option"
  SetAnnotations :: "(string, string) gomap \<Rightarrow> object \<Rightarrow> object"
  NestedFieldNoCopy :: "object \<Rightarrow> string list \<Rightarrow> json option option"
  RemoveNestedField :: "string list \<Rightarrow> object \<Rightarrow> object"

record patch_op =
  op_Type :: string
  op_Path :: string
  op_From :: string
  op_Value :: json

record diff_env =
  CompareJSON :: "string \<Rightarrow> string \<Rightarrow> patch_op list option"
  MarshalPatch :: "patch_op list \<Rightarrow> string option"

section \<open>Actors\<close>

definition ActorsAnnotation :: string where
  "ActorsAnnotation = ''internal.kuberecord.io/actors''"

definition EncodeActors :: "string list \<Rightarrow> string" where
  "EncodeActors actors = join_with '','' actors"

definition decodeActors :: "string \<Rightarrow> string list" where
  "decodeActors value = filter (\<lambda>part. part \<noteq> []) (split_on (CHR '','') value)"

definition managerOf :: "object \<Rightarrow> string" where
  "managerOf m =
     (case gm_get m ''manager'' of
        Some (JStr s) \<Rightarrow> if s = [] then ''unknown'' else s
      | _ \<Rightarrow> ''unknown'')"

definition ExtractActors :: "k8s_env \<Rightarrow> object \<Rightarrow> string list" where
  "ExtractActors env obj =
     (case NestedFieldNoCopy env obj [''metadata'', ''managedFields''] of
        Some (Some (JArr managedFields)) \<Rightarrow>
          sorted_set (concat (map (\<lambda>entry. case entry of JObj m \<Rightarrow> [managerOf m] | _ \<Rightarrow> []) managedFields))
      | _ \<Rightarrow> [])"

text \<open>The informer transform of \<open>internal/watch/pool.go\<close>, on an unstructured object.\<close>

definition TransformObject :: "k8s_env \<Rightarrow> object \<Rightarrow> object" where
  "TransformObject env u =
     (case NestedFieldNoCopy env u [''metadata'', ''managedFields''] of
        Some (Some _) \<Rightarrow>
          (let actors = ExtractActors env u;
               u' = (if actors \<noteq> []
                     then let annotations = (case GetAnnotations env u of None \<Rightarrow> [] | Some a \<Rightarrow> a)
                          in SetAnnotations env (gm_set ActorsAnnotation (EncodeActors actors) annotations) u
                     else u)
           in RemoveNestedField env [''metadata'', ''managedFields''] u')
      | _ \<Rightarrow> u)"

section \<open>Stripping\<close>

definition stripField :: "bool \<Rightarrow> string \<times> json \<Rightarrow> (string \<times> json) list" where
  "stripField stripActorsAnnotation fv =
     (case fv of (field, value) \<Rightarrow>
        if field \<in> {''managedFields'', ''resourceVersion'', ''generation''} then []
        else if field = ''annotations'' then
          (if \<not> stripActorsAnnotation then [(field, value)]
           else case value of
                  JObj existing \<Rightarrow>
                    if length existing = 1 then []
                    else [(field, JObj (gm_filter (\<lambda>name _. name \<noteq> ActorsAnnotation) existing))]
                | _ \<Rightarrow> [(field, value)])
        else [(field, value)])"

definition stripVolatileFields :: "object \<Rightarrow> bool \<Rightarrow> object" where
  "stripVolatileFields object stripActorsAnnotation =
     (case gm_get object ''metadata'' of
        Some (JObj metadata) \<Rightarrow>
          (let strippedMeta = concat (map (stripField stripActorsAnnotation) metadata)
           in gm_set ''metadata'' (JObj strippedMeta) object)
      | _ \<Rightarrow> object)"

section \<open>Normalization\<close>

record normalizedObject =
  no_JSON :: string
  no_Hash :: string
  no_UID :: string
  no_ResourceVersion :: string
  no_APIVersion :: string
  no_Labels :: "(string, string) gomap"
  no_Actors :: "string list"
  no_normalized :: object

text \<open>\<open>RedactionPanic\<close> is the panic of \<open>RedactionPolicy.Apply\<close>, which no compiled policy reaches.\<close>

datatype normalizeError = MarshalObjectError | RedactionPanic

definition normalizeObject ::
    "k8s_env \<Rightarrow> object \<Rightarrow> RedactionPolicy option \<Rightarrow> normalizeError + normalizedObject" where
  "normalizeObject env obj policy =
     (let labels = (case GetLabels env obj of None \<Rightarrow> [] | Some l \<Rightarrow> l);
          annotations = (case GetAnnotations env obj of None \<Rightarrow> [] | Some a \<Rightarrow> a);
          hasActorsAnnotation = (gm_get annotations ActorsAnnotation \<noteq> None);
          actors = (case gm_get annotations ActorsAnnotation of
                      Some value \<Rightarrow> decodeActors value
                    | None \<Rightarrow> ExtractActors env obj)
      in case Apply policy (stripVolatileFields obj hasActorsAnnotation) of
           None \<Rightarrow> Inl RedactionPanic
         | Some normalized \<Rightarrow>
             (case json_marshal (JObj normalized) of
                None \<Rightarrow> Inl MarshalObjectError
              | Some objJSON \<Rightarrow>
                  Inr \<lparr>no_JSON = objJSON, no_Hash = sha256_hex objJSON, no_UID = GetUID env obj,
                       no_ResourceVersion = GetResourceVersion env obj, no_APIVersion = GVKVersion env obj,
                       no_Labels = labels, no_Actors = actors, no_normalized = normalized\<rparr>))"

definition ObjectHash :: "k8s_env \<Rightarrow> object \<Rightarrow> RedactionPolicy option \<Rightarrow> normalizeError + string" where
  "ObjectHash env obj policy =
     (case normalizeObject env obj policy of Inl e \<Rightarrow> Inl e | Inr norm \<Rightarrow> Inr (no_Hash norm))"

definition NormalizedJSON :: "k8s_env \<Rightarrow> object \<Rightarrow> RedactionPolicy option \<Rightarrow> normalizeError + string" where
  "NormalizedJSON env obj policy =
     (case normalizeObject env obj policy of Inl e \<Rightarrow> Inl e | Inr norm \<Rightarrow> Inr (no_JSON norm))"

section \<open>Diffs and checkpoints\<close>

definition hasEmptyInteriorToken :: "string \<Rightarrow> bool" where
  "hasEmptyInteriorToken pointer =
     (let tokens = split_on (CHR ''/'') pointer in
      if length tokens < 3 then False else [] \<in> set (butlast (tl tokens)))"

datatype diffError =
    CompareError
  | errEmptyInteriorToken string string
  | MarshalPatchError

fun refusePatch :: "patch_op list \<Rightarrow> diffError option" where
  "refusePatch [] = None"
| "refusePatch (op # ops) =
     (if hasEmptyInteriorToken (op_Path op) \<or> hasEmptyInteriorToken (op_From op)
      then Some (errEmptyInteriorToken (op_Type op) (op_Path op)) else refusePatch ops)"

definition ComputeDiff :: "diff_env \<Rightarrow> string \<Rightarrow> string \<Rightarrow> diffError + string" where
  "ComputeDiff d before after =
     (case CompareJSON d before after of
        None \<Rightarrow> Inl CompareError
      | Some patch \<Rightarrow>
          (case refusePatch patch of
             Some e \<Rightarrow> Inl e
           | None \<Rightarrow> (case MarshalPatch d patch of None \<Rightarrow> Inl MarshalPatchError | Some bs \<Rightarrow> Inr bs)))"

text \<open>A writer's optional \<open>CheckpointEvery\<close> method is nothing for a writer without one.\<close>

definition checkpointEveryFor :: "int option \<Rightarrow> int" where
  "checkpointEveryFor policy = (case policy of None \<Rightarrow> 0 | Some n \<Rightarrow> n)"

definition checkpointReasonCount :: string where "checkpointReasonCount = ''count''"
definition checkpointReasonSize :: string where "checkpointReasonSize = ''size''"

definition checkpointDue :: "int \<Rightarrow> int \<Rightarrow> string \<Rightarrow> string \<Rightarrow> string \<times> bool" where
  "checkpointDue every modifiedRun diffBytes fullJSON =
     (if every \<le> 0 then ([], False)
      else if modifiedRun \<ge> every then (checkpointReasonCount, True)
      else if length diffBytes > length fullJSON then (checkpointReasonSize, True)
      else ([], False))"

section \<open>Documented behaviour of the accessors\<close>

definition json_string :: "json \<Rightarrow> string option" where
  "json_string v = (case v of JStr s \<Rightarrow> Some s | _ \<Rightarrow> None)"

definition metadata_of :: "object \<Rightarrow> object option" where
  "metadata_of obj = (case gm_get obj ''metadata'' of Some (JObj m) \<Rightarrow> Some m | _ \<Rightarrow> None)"

text \<open>
  \<open>GetAnnotations\<close> returns the map at \<open>metadata.annotations\<close> when it is a map of strings, and nil
  otherwise; \<open>SetAnnotations\<close> stores one there; the nested-field functions read and delete a path.
\<close>

definition string_map :: "json \<Rightarrow> (string, string) gomap option" where
  "string_map v = (case v of JObj a \<Rightarrow> all_some (map (\<lambda>(k, x). map_option (Pair k) (json_string x)) a) | _ \<Rightarrow> None)"

definition with_member :: "string \<Rightarrow> json \<Rightarrow> object \<Rightarrow> object" where
  "with_member k v kvs = takeWhile (\<lambda>(k', _). k' < k) kvs @ (k, v) # dropWhile (\<lambda>(k', _). k' \<le> k) kvs"

definition accessors_ok :: "k8s_env \<Rightarrow> bool" where
  "accessors_ok env \<longleftrightarrow>
     (\<forall>obj m. metadata_of obj = Some m \<longrightarrow>
        GetAnnotations env obj = (case gm_get m ''annotations'' of None \<Rightarrow> None | Some v \<Rightarrow> string_map v)
      \<and> NestedFieldNoCopy env obj [''metadata'', ''managedFields''] = Some (gm_get m ''managedFields'')
      \<and> RemoveNestedField env [''metadata'', ''managedFields''] obj
          = gm_set ''metadata'' (JObj (gm_del ''managedFields'' m)) obj
      \<and> (\<forall>a. SetAnnotations env a obj
          = gm_set ''metadata'' (JObj (with_member ''annotations''
              (JObj (sort_key fst (map (\<lambda>(k, x). (k, JStr x)) a))) m)) obj))"

section \<open>Lemmas on sorted objects\<close>

lemma gm_get_Cons_pair: "gm_get (kv # m) k' = (if fst kv = k' then Some (snd kv) else gm_get m k')"
  by (cases kv) (simp add: gm_get_Cons)

lemma gm_get_None_iff: "gm_get m k = None \<longleftrightarrow> k \<notin> fst ` set m"
  by (simp add: gm_get_def map_of_eq_None_iff)

lemma gm_get_with_member:
  "sorted_wrt (<) (map fst m) \<Longrightarrow> gm_get (with_member k v m) k' = (if k' = k then Some v else gm_get m k')"
proof (induction m)
  case Nil
  then show ?case by (simp add: with_member_def gm_get_Cons_pair)
next
  case (Cons kv m)
  obtain a b where kv: "kv = (a, b)" by (cases kv)
  have eq: "a < k \<Longrightarrow> with_member k v (kv # m) = kv # with_member k v m"
    and ge: "k < a \<Longrightarrow> with_member k v (kv # m) = (k, v) # kv # m"
    by (auto simp: with_member_def kv)
  have mid: "a = k \<Longrightarrow> with_member k v (kv # m) = (k, v) # m"
  proof -
    assume "a = k"
    with Cons.prems have "dropWhile (\<lambda>(k', _). k' \<le> k) m = m"
      by (cases m) (auto simp: kv)
    with \<open>a = k\<close> show ?thesis by (simp add: with_member_def kv)
  qed
  consider "a < k" | "a = k" | "k < a" by fastforce
  then show ?case
  proof cases
    case 1
    with Cons eq show ?thesis by (auto simp: gm_get_Cons_pair kv)
  next
    case 2
    with mid show ?thesis by (auto simp: gm_get_Cons_pair kv)
  next
    case 3
    with ge show ?thesis by (auto simp: gm_get_Cons_pair kv)
  qed
qed

lemma keys_with_member:
  "sorted_wrt (<) (map fst m) \<Longrightarrow> sorted_wrt (<) (map fst (with_member k v m))"
proof (induction m)
  case Nil
  then show ?case by (simp add: with_member_def)
next
  case (Cons kv m)
  obtain a b where kv: "kv = (a, b)" by (cases kv)
  have sub: "fst ` set (with_member k v m) \<subseteq> insert k (fst ` set m)"
    by (auto simp: with_member_def dest: set_takeWhileD set_dropWhileD intro: rev_image_eqI)
  consider "a < k" | "a = k" | "k < a" by fastforce
  then show ?case
  proof cases
    case 1
    then have "with_member k v (kv # m) = kv # with_member k v m" by (simp add: with_member_def kv)
    with Cons 1 sub show ?thesis by (fastforce simp: kv)
  next
    case 2
    with Cons.prems have "dropWhile (\<lambda>(k', _). k' \<le> k) m = m" by (cases m) (auto simp: kv)
    with 2 Cons.prems show ?thesis by (simp add: with_member_def kv)
  next
    case 3
    with Cons.prems show ?thesis by (fastforce simp: with_member_def kv)
  qed
qed

lemma with_member_vals: "(k', x) \<in> set (with_member k v m) \<Longrightarrow> (k', x) = (k, v) \<or> (k', x) \<in> set m"
  by (auto simp: with_member_def dest: set_takeWhileD set_dropWhileD)

lemma json_wf_with_member: "json_wf (JObj m) \<Longrightarrow> json_wf v \<Longrightarrow> json_wf (JObj (with_member k v m))"
  using with_member_vals [of _ _ k v m] by (fastforce simp: keys_with_member list_all_iff)

lemma json_wf_del: "json_wf (JObj m) \<Longrightarrow> json_wf (JObj (gm_del k m))"
  using json_wf_filter [of m "\<lambda>k' _. k' \<noteq> k"] by (simp only: gm_filter_def gm_del_def)

section \<open>Lemmas on stripping\<close>

definition strip_value :: "bool \<Rightarrow> string \<Rightarrow> json \<Rightarrow> json option" where
  "strip_value b f v = (case stripField b (f, v) of [] \<Rightarrow> None | kv # _ \<Rightarrow> Some (snd kv))"

lemma stripField_value:
  "stripField b (f, v) = (case strip_value b f v of None \<Rightarrow> [] | Some w \<Rightarrow> [(f, w)])"
  by (auto simp: strip_value_def stripField_def split: json.splits)

lemma gm_get_strip:
  "gm_wf m \<Longrightarrow> gm_get (concat (map (stripField b) m)) f = Option.bind (gm_get m f) (strip_value b f)"
proof (induction m)
  case (Cons kv m)
  obtain a v where kv: "kv = (a, v)" by (cases kv)
  from Cons.prems have wf: "gm_wf m" and "a \<notin> fst ` set m" by (auto simp: gm_wf_def kv)
  then have "gm_get m a = None" by (simp add: gm_get_None_iff)
  with Cons.IH [OF wf] show ?case
    by (cases "strip_value b a v"; cases "f = a")
      (auto simp: kv stripField_value gm_get_Cons_pair)
qed simp

lemma keys_strip: "sorted_wrt (<) (map fst m) \<Longrightarrow> sorted_wrt (<) (map fst (concat (map (stripField b) m)))"
proof (induction m)
  case (Cons kv m)
  obtain a v where kv: "kv = (a, v)" by (cases kv)
  have "fst ` set (concat (map (stripField b) m)) \<subseteq> fst ` set m"
    by (auto simp: stripField_value image_iff split: option.splits) (metis fst_conv)
  with Cons show ?case by (fastforce simp: kv stripField_value split: option.splits)
qed simp

lemma strip_value_wf: "json_wf v \<Longrightarrow> strip_value b f v = Some w \<Longrightarrow> json_wf w"
  by (auto simp: strip_value_def stripField_def simp del: json_wf.simps
      intro: json_wf_filter split: json.splits if_splits)

lemma json_wf_strip: "json_wf (JObj m) \<Longrightarrow> json_wf (JObj (concat (map (stripField b) m)))"
proof -
  assume wf: "json_wf (JObj m)"
  have "json_wf w" if "(f, w) \<in> set (concat (map (stripField b) m))" for f w
    using that wf by (auto simp: stripField_value list_all_iff split: option.splits intro: strip_value_wf)
  then have "list_all (\<lambda>kv. json_wf (snd kv)) (concat (map (stripField b) m))"
    unfolding list_all_iff by (metis prod.collapse)
  with wf show ?thesis by (simp add: keys_strip)
qed

lemma stripVolatileFields_eq:
  "metadata_of obj = Some m \<Longrightarrow>
   stripVolatileFields obj b = gm_set ''metadata'' (JObj (concat (map (stripField b) m))) obj"
  by (auto simp: stripVolatileFields_def metadata_of_def split: option.splits json.splits)

lemma stripVolatileFields_none: "metadata_of obj = None \<Longrightarrow> stripVolatileFields obj b = obj"
  by (auto simp: stripVolatileFields_def metadata_of_def split: option.splits json.splits)

lemma metadata_get: "metadata_of obj = Some m \<Longrightarrow> gm_get obj ''metadata'' = Some (JObj m)"
  by (auto simp: metadata_of_def split: option.splits json.splits)

lemma metadata_wf: "json_wf (JObj obj) \<Longrightarrow> metadata_of obj = Some m \<Longrightarrow> json_wf (JObj m)"
  using json_wf_member metadata_get by blast

lemma stripVolatileFields_wf: "json_wf (JObj obj) \<Longrightarrow> json_wf (JObj (stripVolatileFields obj b))"
proof (cases "metadata_of obj")
  case (Some m)
  assume wf: "json_wf (JObj obj)"
  have "json_wf (JObj (concat (map (stripField b) m)))" using metadata_wf [OF wf Some] by (rule json_wf_strip)
  then show ?thesis
    unfolding stripVolatileFields_eq [OF Some] using metadata_get [OF Some]
    by (intro json_wf_set_member [OF wf]) simp_all
qed (simp add: stripVolatileFields_none)

text \<open>Two objects with equal other members and equally stripped metadata strip to one object.\<close>

lemma strip_cong:
  assumes "json_wf (JObj obj)" and "json_wf (JObj obj')"
    and "metadata_of obj = Some m" and "metadata_of obj' = Some m'"
    and "\<And>k. k \<noteq> ''metadata'' \<Longrightarrow> gm_get obj k = gm_get obj' k"
    and "\<And>f. Option.bind (gm_get m f) (strip_value b f) = Option.bind (gm_get m' f) (strip_value b' f)"
  shows "stripVolatileFields obj b = stripVolatileFields obj' b'"
proof (rule json_obj_eqI)
  show "json_wf (JObj (stripVolatileFields obj b))" "json_wf (JObj (stripVolatileFields obj' b'))"
    using assms(1,2) by (simp_all only: stripVolatileFields_wf)
  have wf: "json_wf (JObj m)" "json_wf (JObj m')"
    using assms(1-4) metadata_wf by blast+
  have "concat (map (stripField b) m) = concat (map (stripField b') m')"
    using assms(6) json_wf_obj_distinct [OF wf(1)] json_wf_obj_distinct [OF wf(2)]
    by (intro json_obj_eqI [OF json_wf_strip [OF wf(1)] json_wf_strip [OF wf(2)]]) (simp add: gm_get_strip)
  then show "gm_get (stripVolatileFields obj b) k = gm_get (stripVolatileFields obj' b') k" for k
    using assms(3-5) by (simp add: stripVolatileFields_eq)
qed

section \<open>Lemmas on the actors annotation\<close>

lemma all_some_eq: "all_some xs = Some ys \<longleftrightarrow> xs = map Some ys"
proof (induction xs arbitrary: ys)
  case (Cons x xs)
  show ?case
  proof (cases "\<exists>v vs. x = Some v \<and> all_some xs = Some vs")
    case True
    then obtain v vs where e: "x = Some v" "all_some xs = Some vs" by blast
    with Cons [of vs] show ?thesis by (auto simp: inj_map_eq_map)
  next
    case False
    with Cons show ?thesis by (cases x; cases ys) (auto split: option.splits)
  qed
qed auto

lemma string_map_iff: "string_map v = Some ann \<longleftrightarrow> v = JObj (map (\<lambda>(k, x). (k, JStr x)) ann)"
proof -
  have *: "map (\<lambda>(k, x). map_option (Pair k) (json_string x)) a = map Some ann
      \<longleftrightarrow> a = map (\<lambda>(k, x). (k, JStr x)) ann" for a
  proof (induction a arbitrary: ann)
    case (Cons kx a)
    obtain k x where kx: "kx = (k, x)" by (cases kx)
    have "map_option (Pair k) (json_string x) = Some kv \<longleftrightarrow> (k, x) = (fst kv, JStr (snd kv))" for kv
      by (cases x; cases kv) (auto simp: json_string_def)
    with Cons show ?case by (cases ann) (auto simp: kx)
  qed auto
  show ?thesis by (cases v) (auto simp: string_map_def all_some_eq *)
qed

lemma gm_get_sort_key: "gm_wf m \<Longrightarrow> gm_get (sort_key fst m) k = gm_get (m :: (string \<times> 'a) list) k"
proof -
  assume wf: "gm_wf m"
  have "mset (map fst (sort_key fst m)) = mset (map fst m)" by simp
  then have wf': "gm_wf (sort_key fst m)"
    using wf unfolding gm_wf_def by (metis mset_eq_imp_distinct_iff)
  show ?thesis
  proof (cases "gm_get m k")
    case None
    moreover from None have "gm_get (sort_key fst m) k = None" by (simp add: gm_get_None_iff)
    ultimately show ?thesis by simp
  next
    case (Some v)
    moreover from this have "gm_get (sort_key fst m) k = Some v"
      using wf wf' by (simp add: gm_get_iff_set)
    ultimately show ?thesis by simp
  qed
qed

lemma json_wf_string_map:
  assumes "gm_wf (ann :: (string, string) gomap)"
  shows "json_wf (JObj (sort_key fst (map (\<lambda>(k, x). (k, JStr x)) ann)))"
proof -
  let ?s = "sort_key fst (map (\<lambda>(k, x). (k, JStr x)) ann)"
  have "map fst (map (\<lambda>(k, x). (k, JStr x)) ann) = map fst ann" by (induction ann) auto
  then have "mset (map fst ?s) = mset (map fst ann)" by (metis mset_map mset_sort)
  then have "distinct (map fst ?s)" using assms unfolding gm_wf_def by (metis mset_eq_imp_distinct_iff)
  then have "sorted_wrt (<) (map fst ?s)" by (simp add: strict_sorted_iff)
  then show ?thesis by (auto simp: list_all_iff)
qed

lemma length_gm_set: "gm_get m k = None \<Longrightarrow> length (gm_set k v m) = Suc (length m)"
  unfolding gm_get_def gm_set_def by (induction m) (auto split: if_splits)

lemma managerOf_nonempty: "managerOf m \<noteq> []"
  by (simp add: managerOf_def split: option.split json.split)

lemma ExtractActors_nonempty: "x \<in> set (ExtractActors env obj) \<Longrightarrow> x \<noteq> []"
  using managerOf_nonempty by (auto simp: ExtractActors_def split: option.splits json.splits)

lemma decode_encode_actors:
  assumes "\<forall>x \<in> set xs. x \<noteq> [] \<and> CHR '','' \<notin> set x"
  shows "decodeActors (EncodeActors xs) = xs"
proof (cases "xs = []")
  case False
  then have "split_on (CHR '','') (join_with '','' xs) = xs" using assms by (intro split_join) auto
  with assms show ?thesis by (simp add: decodeActors_def EncodeActors_def)
qed (simp add: decodeActors_def EncodeActors_def)

section \<open>Lemmas on normalization\<close>

lemmas accessor_laws = accessors_ok_def [THEN iffD1, rule_format]

lemma GetAnnotations_law:
  "accessors_ok env \<Longrightarrow> metadata_of obj = Some m \<Longrightarrow>
   GetAnnotations env obj = (case gm_get m ''annotations'' of None \<Rightarrow> None | Some v \<Rightarrow> string_map v)"
  using accessors_ok_def by blast

lemma managedFields_law:
  "accessors_ok env \<Longrightarrow> metadata_of obj = Some m \<Longrightarrow>
   NestedFieldNoCopy env obj [''metadata'', ''managedFields''] = Some (gm_get m ''managedFields'')"
  using accessors_ok_def by blast

lemma RemoveNestedField_law:
  "accessors_ok env \<Longrightarrow> metadata_of obj = Some m \<Longrightarrow>
   RemoveNestedField env [''metadata'', ''managedFields''] obj = gm_set ''metadata'' (JObj (gm_del ''managedFields'' m)) obj"
  using accessors_ok_def by blast

lemma SetAnnotations_law:
  "accessors_ok env \<Longrightarrow> metadata_of obj = Some m \<Longrightarrow>
   SetAnnotations env a obj = gm_set ''metadata'' (JObj (with_member ''annotations''
     (JObj (sort_key fst (map (\<lambda>(k, x). (k, JStr x)) a))) m)) obj"
  using accessors_ok_def by blast

lemma metadata_of_set: "metadata_of (gm_set ''metadata'' (JObj m) obj) = Some m"
  by (simp add: metadata_of_def)

definition carries_actors :: "k8s_env \<Rightarrow> object \<Rightarrow> bool" where
  "carries_actors env obj = (gm_get (case GetAnnotations env obj of None \<Rightarrow> [] | Some a \<Rightarrow> a) ActorsAnnotation \<noteq> None)"

text \<open>What is stored depends on the object only through its stripped form.\<close>

lemma NormalizedJSON_strip:
  "NormalizedJSON env obj policy =
     (case Apply policy (stripVolatileFields obj (carries_actors env obj)) of
        None \<Rightarrow> Inl RedactionPanic
      | Some n \<Rightarrow> (case json_marshal (JObj n) of None \<Rightarrow> Inl MarshalObjectError | Some bs \<Rightarrow> Inr bs))"
  by (auto simp: NormalizedJSON_def normalizeObject_def carries_actors_def Let_def split: option.splits)

lemma ObjectHash_NormalizedJSON:
  "ObjectHash env obj policy = (case NormalizedJSON env obj policy of Inl e \<Rightarrow> Inl e | Inr bs \<Rightarrow> Inr (sha256_hex bs))"
  by (auto simp: ObjectHash_def NormalizedJSON_def normalizeObject_def Let_def split: option.splits sum.splits)

section \<open>Properties\<close>

text \<open>
  The stored bytes and the hash ignore what changes on every write: two objects that differ
  only in \<open>managedFields\<close>, \<open>resourceVersion\<close> and \<open>generation\<close> normalize to the same JSON and hash.
\<close>

theorem normalize_ignores_volatile:
  assumes "accessors_ok env" and "json_wf (JObj obj)" and "json_wf (JObj obj')"
    and "metadata_of obj = Some m" and "metadata_of obj' = Some m'"
    and "\<forall>k. k \<noteq> ''metadata'' \<longrightarrow> gm_get obj k = gm_get obj' k"
    and "\<forall>f. f \<notin> {''managedFields'', ''resourceVersion'', ''generation''} \<longrightarrow> gm_get m f = gm_get m' f"
  shows "NormalizedJSON env obj policy = NormalizedJSON env obj' policy
    \<and> ObjectHash env obj policy = ObjectHash env obj' policy"
proof -
  have "GetAnnotations env obj = GetAnnotations env obj'"
    using assms(7) by (simp add: GetAnnotations_law [OF assms(1,4)] GetAnnotations_law [OF assms(1,5)])
  then have b: "carries_actors env obj = carries_actors env obj'" by (simp add: carries_actors_def)
  have "stripVolatileFields obj (carries_actors env obj) = stripVolatileFields obj' (carries_actors env obj')"
  proof (rule strip_cong [OF assms(2-5)])
    show "k \<noteq> ''metadata'' \<Longrightarrow> gm_get obj k = gm_get obj' k" for k using assms(6) by blast
    show "Option.bind (gm_get m f) (strip_value (carries_actors env obj) f)
        = Option.bind (gm_get m' f) (strip_value (carries_actors env obj') f)" for f
      using assms(7) b
      by (cases "f \<in> {''managedFields'', ''resourceVersion'', ''generation''}")
        (auto simp: strip_value_def stripField_def split: bind_splits)
  qed
  then show ?thesis by (simp add: ObjectHash_NormalizedJSON NormalizedJSON_strip)
qed

text \<open>An instance of the accessors, for the witnesses.\<close>

definition sample_accessors :: k8s_env where
  "sample_accessors =
     (let meta = (\<lambda>obj. case metadata_of obj of None \<Rightarrow> [] | Some m \<Rightarrow> m);
          str = (\<lambda>obj f. case gm_get (meta obj) f of Some (JStr s) \<Rightarrow> s | _ \<Rightarrow> [])
      in \<lparr>GetUID = (\<lambda>obj. str obj ''uid''),
          GetResourceVersion = (\<lambda>obj. str obj ''resourceVersion''),
          GVKVersion = (\<lambda>obj. ''v1''),
          GetLabels = (\<lambda>obj. case gm_get (meta obj) ''labels'' of None \<Rightarrow> None | Some v \<Rightarrow> string_map v),
          GetAnnotations = (\<lambda>obj. case gm_get (meta obj) ''annotations'' of None \<Rightarrow> None | Some v \<Rightarrow> string_map v),
          SetAnnotations = (\<lambda>a obj. gm_set ''metadata'' (JObj (with_member ''annotations''
             (JObj (sort_key fst (map (\<lambda>(k, x). (k, JStr x)) a))) (meta obj))) obj),
          NestedFieldNoCopy = (\<lambda>obj p. Some (gm_get (meta obj) (last p))),
          RemoveNestedField = (\<lambda>p obj. gm_set ''metadata'' (JObj (gm_del (last p) (meta obj))) obj)\<rparr>)"

lemma sample_accessors_ok: "accessors_ok sample_accessors"
  by (auto simp: accessors_ok_def sample_accessors_def Let_def)

theorem normalize_ignores_volatile_witness:
  "let o1 = [(''metadata'', JObj [(''generation'', JInt 1), (''name'', JStr ''x''), (''resourceVersion'', JStr ''7'')])];
       o2 = [(''metadata'', JObj [(''managedFields'', JArr []), (''name'', JStr ''x''), (''resourceVersion'', JStr ''9'')])]
   in NormalizedJSON sample_accessors o1 None = NormalizedJSON sample_accessors o2 None"
  unfolding Let_def
  by (rule conjunct1 [OF normalize_ignores_volatile [OF sample_accessors_ok]])
    (auto simp: metadata_of_def gm_get_Cons_pair less_char_def)

section \<open>Lemmas on the informer transform\<close>

lemma gm_wf_map_values [simp]: "gm_wf (map (\<lambda>(k, x). (k, h x)) m) = gm_wf m"
  by (simp add: gm_wf_def case_prod_beta comp_def)

lemma sorted_annotations:
  assumes "string_map (JObj a) = Some ann" and "json_wf (JObj a)" and "gm_get ann ActorsAnnotation = None"
  shows "gm_filter (\<lambda>name _. name \<noteq> ActorsAnnotation)
      (sort_key fst (map (\<lambda>(k, x). (k, JStr x)) (gm_set ActorsAnnotation e ann))) = a"
proof -
  let ?A = "sort_key fst (map (\<lambda>(k, x). (k, JStr x)) (gm_set ActorsAnnotation e ann))"
  have a: "a = map (\<lambda>(k, x). (k, JStr x)) ann" using assms(1) by (simp add: string_map_iff)
  have wf: "gm_wf ann" using json_wf_obj_distinct [OF assms(2)] by (simp add: a)
  then have wfJ: "gm_wf (map (\<lambda>(k, x). (k, JStr x)) (gm_set ActorsAnnotation e ann))" by simp
  have wfA: "json_wf (JObj ?A)" using wf by (intro json_wf_string_map) simp
  show ?thesis
  proof (rule json_obj_eqI)
    show "json_wf (JObj (gm_filter (\<lambda>name _. name \<noteq> ActorsAnnotation) ?A))"
      using wfA by (rule json_wf_filter)
    show "json_wf (JObj a)" by fact
    show "gm_get (gm_filter (\<lambda>name _. name \<noteq> ActorsAnnotation) ?A) k = gm_get a k" for k
      using assms(3) json_wf_obj_distinct [OF wfA]
      by (cases "k = ActorsAnnotation")
        (auto simp: gm_get_filter gm_get_sort_key [OF wfJ] gm_get_map_values a split: option.splits)
  qed
qed

lemma insort_key_map_values:
  "insort_key fst (k, h x) (map (\<lambda>(k, x). (k, h x)) m) = map (\<lambda>(k, x). (k, h x)) (insort_key fst (k, x) m)"
  by (induction m) auto

lemma sort_key_map_values:
  "sort_key fst (map (\<lambda>(k, x). (k, h x)) m) = map (\<lambda>(k, x). (k, h x)) (sort_key fst (m :: (string \<times> 'a) list))"
  by (induction m) (auto simp: insort_key_map_values)

definition annotations_plain :: "object \<Rightarrow> bool" where
  "annotations_plain m \<longleftrightarrow> (case gm_get m ''annotations'' of
       None \<Rightarrow> True
     | Some v \<Rightarrow> (\<exists>ann. string_map v = Some ann \<and> ann \<noteq> [] \<and> gm_get ann ActorsAnnotation = None))"

text \<open>The metadata the transform leaves, and what stripping makes of it.\<close>

definition transformed_meta :: "string list \<Rightarrow> object \<Rightarrow> object" where
  "transformed_meta actors m =
     (let ann = (case gm_get m ''annotations'' of Some v \<Rightarrow> (case string_map v of Some a \<Rightarrow> a | None \<Rightarrow> []) | None \<Rightarrow> [])
      in gm_del ''managedFields'' (with_member ''annotations'' (JObj (sort_key fst
           (map (\<lambda>(k, x). (k, JStr x)) (gm_set ActorsAnnotation (EncodeActors actors) ann)))) m))"

lemma transformed_strip:
  assumes "json_wf (JObj m)" and "annotations_plain m"
  shows "Option.bind (gm_get (transformed_meta actors m) f) (strip_value True f)
    = Option.bind (gm_get m f) (strip_value False f)"
proof (cases "f = ''annotations''")
  case False
  have "sorted_wrt (<) (map fst m)" using assms(1) by simp
  with False show ?thesis
    by (cases "gm_get m f")
      (auto simp: transformed_meta_def Let_def gm_get_with_member strip_value_def stripField_def)
next
  case True
  have s: "sorted_wrt (<) (map fst m)" using assms(1) by simp
  show ?thesis
  proof (cases "gm_get m ''annotations''")
    case None
    with True s show ?thesis
      by (simp add: transformed_meta_def Let_def gm_get_with_member strip_value_def stripField_def gm_set_def)
  next
    case (Some v)
    with assms(2) obtain ann where ann: "string_map v = Some ann" "ann \<noteq> []" "gm_get ann ActorsAnnotation = None"
      by (auto simp: annotations_plain_def)
    then obtain a where v: "v = JObj a" by (simp add: string_map_iff)
    have wfa: "json_wf (JObj a)" using json_wf_member [OF assms(1) Some] by (simp add: v)
    have "length (sort_key fst (map (\<lambda>(k, x). (k, JStr x)) (gm_set ActorsAnnotation (EncodeActors actors) ann))) \<noteq> 1"
      using ann(2,3) by (simp add: length_gm_set)
    moreover note sorted_annotations [OF ann(1) [unfolded v] wfa ann(3), of "EncodeActors actors"]
    ultimately show ?thesis
      using True s Some ann(1) v
      by (simp add: transformed_meta_def Let_def gm_get_with_member strip_value_def stripField_def)
  qed
qed

lemma transformed_actors:
  assumes "json_wf (JObj m)" and "annotations_plain m"
  shows "\<exists>ann. gm_get (transformed_meta actors m) ''annotations'' = Some (JObj (map (\<lambda>(k, x). (k, JStr x)) ann))
    \<and> gm_get ann ActorsAnnotation = Some (EncodeActors actors)"
proof -
  define old where "old = (case gm_get m ''annotations'' of
      Some v \<Rightarrow> (case string_map v of Some a \<Rightarrow> a | None \<Rightarrow> []) | None \<Rightarrow> [])"
  define ann where "ann = gm_set ActorsAnnotation (EncodeActors actors) old"
  have "gm_wf old"
  proof (cases "gm_get m ''annotations''")
    case (Some v)
    with assms(2) obtain a where a: "string_map v = Some a" by (auto simp: annotations_plain_def)
    then show ?thesis
      using json_wf_obj_distinct [OF json_wf_member [OF assms(1) Some, unfolded a [unfolded string_map_iff]]]
      by (simp add: old_def Some)
  qed (simp add: old_def)
  then have wf: "gm_wf ann" by (simp add: ann_def)
  have sort: "sort_key fst (map (\<lambda>(k, x). (k, JStr x)) ann) = map (\<lambda>(k, x). (k, JStr x)) (sort_key fst ann)"
    for ann :: "(string, string) gomap"
    by (rule sort_key_map_values)
  have "gm_get (transformed_meta actors m) ''annotations''
      = Some (JObj (map (\<lambda>(k, x). (k, JStr x)) (sort_key fst ann)))"
    using assms(1) by (simp add: transformed_meta_def Let_def gm_get_with_member ann_def old_def sort)
  moreover have "gm_get (sort_key fst ann) ActorsAnnotation = Some (EncodeActors actors)"
    using gm_get_sort_key [OF wf] by (simp add: ann_def)
  ultimately show ?thesis by blast
qed

lemma gm_set_twice [simp]: "gm_set k v (gm_set k v' m) = gm_set k v m"
  by (simp add: gm_set_def)

lemma transformed_meta_wf:
  assumes "json_wf (JObj m)" and "annotations_plain m"
  shows "json_wf (JObj (transformed_meta actors m))"
proof -
  obtain ann where "gm_get (transformed_meta actors m) ''annotations'' = Some (JObj (map (\<lambda>(k, x). (k, JStr x)) ann))"
    using transformed_actors [OF assms] by blast
  have wf_old: "gm_wf (case gm_get m ''annotations'' of
      Some v \<Rightarrow> (case string_map v of Some a \<Rightarrow> a | None \<Rightarrow> []) | None \<Rightarrow> [])"
  proof (cases "gm_get m ''annotations''")
    case (Some v)
    with assms(2) obtain a where a: "string_map v = Some a" by (auto simp: annotations_plain_def)
    then show ?thesis
      using json_wf_obj_distinct [OF json_wf_member [OF assms(1) Some, unfolded a [unfolded string_map_iff]]]
      by (simp add: Some)
  qed simp
  show ?thesis
    unfolding transformed_meta_def Let_def
    using wf_old by (intro json_wf_del json_wf_with_member [OF assms(1)] json_wf_string_map) simp
qed

lemma TransformObject_cases:
  assumes "accessors_ok env" and "metadata_of obj = Some m"
  shows "gm_get m ''managedFields'' = None \<Longrightarrow> TransformObject env obj = obj"
    and "gm_get m ''managedFields'' \<noteq> None \<Longrightarrow> ExtractActors env obj = [] \<Longrightarrow>
      TransformObject env obj = gm_set ''metadata'' (JObj (gm_del ''managedFields'' m)) obj"
    and "gm_get m ''managedFields'' \<noteq> None \<Longrightarrow> ExtractActors env obj \<noteq> [] \<Longrightarrow>
      TransformObject env obj = gm_set ''metadata'' (JObj (transformed_meta (ExtractActors env obj) m)) obj"
proof -
  note laws = managedFields_law [OF assms] RemoveNestedField_law [OF assms] SetAnnotations_law [OF assms]
    GetAnnotations_law [OF assms]
  show "gm_get m ''managedFields'' = None \<Longrightarrow> TransformObject env obj = obj"
    by (simp add: TransformObject_def laws)
  show "gm_get m ''managedFields'' \<noteq> None \<Longrightarrow> ExtractActors env obj = [] \<Longrightarrow>
      TransformObject env obj = gm_set ''metadata'' (JObj (gm_del ''managedFields'' m)) obj"
    by (auto simp: TransformObject_def laws)
  assume "gm_get m ''managedFields'' \<noteq> None" and "ExtractActors env obj \<noteq> []"
  then show "TransformObject env obj = gm_set ''metadata'' (JObj (transformed_meta (ExtractActors env obj) m)) obj"
    by (auto simp: TransformObject_def laws transformed_meta_def Let_def
        RemoveNestedField_law [OF assms(1) metadata_of_set] split: option.splits)
qed

definition actors_of :: "k8s_env \<Rightarrow> object \<Rightarrow> string list" where
  "actors_of env obj =
     (case gm_get (case GetAnnotations env obj of None \<Rightarrow> [] | Some a \<Rightarrow> a) ActorsAnnotation of
        Some value \<Rightarrow> decodeActors value | None \<Rightarrow> ExtractActors env obj)"

definition recorded_part :: "normalizedObject \<Rightarrow> string \<times> string \<times> string list" where
  "recorded_part n = (no_JSON n, no_Hash n, no_Actors n)"

lemma recorded_normalize:
  "map_sum id recorded_part (normalizeObject env obj policy) =
     (case Apply policy (stripVolatileFields obj (carries_actors env obj)) of
        None \<Rightarrow> Inl RedactionPanic
      | Some n \<Rightarrow> (case json_marshal (JObj n) of None \<Rightarrow> Inl MarshalObjectError
                   | Some bs \<Rightarrow> Inr (bs, sha256_hex bs, actors_of env obj)))"
  by (auto simp: normalizeObject_def recorded_part_def carries_actors_def actors_of_def Let_def split: option.splits)

lemma transform_strips_alike:
  assumes "accessors_ok env" and "json_wf (JObj obj)" and "metadata_of obj = Some m" and "annotations_plain m"
    and "\<forall>x \<in> set (ExtractActors env obj). CHR '','' \<notin> set x"
  shows "stripVolatileFields (TransformObject env obj) (carries_actors env (TransformObject env obj))
      = stripVolatileFields obj (carries_actors env obj)
    \<and> actors_of env (TransformObject env obj) = actors_of env obj"
proof (cases "gm_get m ''managedFields'' = None")
  case True
  then show ?thesis by (simp add: TransformObject_cases(1) [OF assms(1,3)])
next
  case False
  have wfm: "json_wf (JObj m)" using assms(2,3) by (rule metadata_wf)
  have present: "gm_get obj ''metadata'' \<noteq> None" using metadata_get [OF assms(3)] by simp
  have none: "gm_get (case GetAnnotations env obj of None \<Rightarrow> [] | Some a \<Rightarrow> a) ActorsAnnotation = None"
    using assms(4) by (auto simp: GetAnnotations_law [OF assms(1,3)] annotations_plain_def split: option.splits)
  show ?thesis
  proof (cases "ExtractActors env obj = []")
    case True
    let ?m' = "gm_del ''managedFields'' m"
    let ?o = "gm_set ''metadata'' (JObj ?m') obj"
    have t: "TransformObject env obj = ?o" using False True by (rule TransformObject_cases(2) [OF assms(1,3)])
    have g: "GetAnnotations env ?o = GetAnnotations env obj"
      by (simp add: GetAnnotations_law [OF assms(1)] metadata_of_set assms(3))
    have "stripVolatileFields ?o False = stripVolatileFields obj False"
      by (rule strip_cong [OF json_wf_set_member [OF assms(2) present json_wf_del [OF wfm]] assms(2) metadata_of_set assms(3)])
        (auto simp: strip_value_def stripField_def split: bind_splits)
    moreover have "ExtractActors env ?o = []"
      by (simp add: ExtractActors_def managedFields_law [OF assms(1) metadata_of_set])
    ultimately show ?thesis
      using none True by (simp add: t g carries_actors_def actors_of_def)
  next
    case nonempty: False
    define actors where "actors = ExtractActors env obj"
    let ?m' = "transformed_meta actors m"
    let ?o = "gm_set ''metadata'' (JObj ?m') obj"
    have t: "TransformObject env obj = ?o"
      unfolding actors_def using False nonempty by (rule TransformObject_cases(3) [OF assms(1,3)])
    obtain ann where ann: "gm_get ?m' ''annotations'' = Some (JObj (map (\<lambda>(k, x). (k, JStr x)) ann))"
        "gm_get ann ActorsAnnotation = Some (EncodeActors actors)"
      using transformed_actors [OF wfm assms(4)] by blast
    have g: "GetAnnotations env ?o = Some ann"
      using ann(1) string_map_iff by (simp add: GetAnnotations_law [OF assms(1) metadata_of_set])
    have "stripVolatileFields ?o True = stripVolatileFields obj False"
      by (rule strip_cong [OF json_wf_set_member [OF assms(2) present transformed_meta_wf [OF wfm assms(4)]]
            assms(2) metadata_of_set assms(3)])
        (auto simp: transformed_strip [OF wfm assms(4)])
    moreover have "decodeActors (EncodeActors actors) = actors"
      using assms(5) ExtractActors_nonempty by (intro decode_encode_actors) (auto simp: actors_def)
    ultimately show ?thesis
      using none by (simp add: t g ann(2) carries_actors_def actors_of_def) (simp add: actors_def)
  qed
qed

text \<open>
  The informer transform is invisible in the archive: an object that went through
  \<open>TransformObject\<close> normalizes to the same JSON, the same hash and the same actors as the object
  it was made from. (Its annotations, if any, are strings, at least one, and not the operator's
  own; no field manager's name contains the separator.)
\<close>

theorem transform_invisible:
  assumes "accessors_ok env" and "json_wf (JObj obj)" and "metadata_of obj = Some m" and "annotations_plain m"
    and "\<forall>x \<in> set (ExtractActors env obj). CHR '','' \<notin> set x"
  shows "map_sum id recorded_part (normalizeObject env (TransformObject env obj) policy)
    = map_sum id recorded_part (normalizeObject env obj policy)"
  using transform_strips_alike [OF assms] by (simp add: recorded_normalize cong: option.case_cong)

theorem transform_invisible_witness:
  "let obj = [(''metadata'', JObj [(''annotations'', JObj [(''team'', JStr ''a'')]),
         (''managedFields'', JArr [JObj [(''manager'', JStr ''kubectl'')], JObj [(''manager'', JStr ''argocd'')]])])]
   in TransformObject sample_accessors obj \<noteq> obj
      \<and> map_sum id recorded_part (normalizeObject sample_accessors (TransformObject sample_accessors obj) None)
        = map_sum id recorded_part (normalizeObject sample_accessors obj None)"
proof -
  let ?m = "[(''annotations'', JObj [(''team'', JStr ''a'')]),
         (''managedFields'', JArr [JObj [(''manager'', JStr ''kubectl'')], JObj [(''manager'', JStr ''argocd'')]])]"
  let ?o = "[(''metadata'', JObj ?m)]"
  have e: "ExtractActors sample_accessors ?o = [''argocd'', ''kubectl'']"
    by (simp add: ExtractActors_def sample_accessors_def metadata_of_def managerOf_def gm_get_def sorted_set_def less_char_def)
  have m: "metadata_of ?o = Some ?m" by (simp add: metadata_of_def gm_get_def)
  have "string_map (JObj [(''team'', JStr ''a'')]) = Some [(''team'', ''a'')]" by (simp add: string_map_iff)
  then have plain: "annotations_plain ?m"
    by (simp add: annotations_plain_def gm_get_def ActorsAnnotation_def)
  have "gm_get (gm_del ''managedFields'' n) ''managedFields'' = None" for n :: object by simp
  then have "gm_get (transformed_meta a ?m) ''managedFields'' = None" for a
    by (simp add: transformed_meta_def Let_def)
  moreover have "gm_get ?m ''managedFields'' \<noteq> None" by (simp add: gm_get_def)
  ultimately have "TransformObject sample_accessors ?o \<noteq> ?o"
    using TransformObject_cases(3) [OF sample_accessors_ok m]
    by (metis e list.distinct(1) m metadata_of_set option.inject)
  moreover have "json_wf (JObj ?o)" by (simp add: less_char_def)
  ultimately show ?thesis
    unfolding Let_def using transform_invisible [OF sample_accessors_ok _ m plain] by (simp add: e)
qed

section \<open>Lemmas on redacted positions\<close>

abbreviation put_member :: "string \<Rightarrow> (json \<Rightarrow> json) \<Rightarrow> object \<Rightarrow> object" where
  "put_member k h \<equiv> map (\<lambda>(k', c). (k', if k' = k then h c else c))"

lemma gm_get_put_member: "gm_get (put_member k h m) k' = map_option (if k' = k then h else id) (gm_get m k')"
  by (induction m) (auto simp: gm_get_def)

lemma strip_put_other:
  assumes "k \<noteq> ''metadata''"
  shows "JObj (stripVolatileFields (put_member k (\<lambda>c. json_put c p x) obj) b)
    = json_put (JObj (stripVolatileFields obj b)) (Member k # p) x"
proof -
  have set: "gm_set ''metadata'' v (put_member k h m) = put_member k h (gm_set ''metadata'' v m)"
    for v h and m :: object
    using assms by (induction m) (auto simp: gm_set_def)
  show ?thesis
    using assms by (auto simp: stripVolatileFields_def gm_get_put_member Let_def set split: option.splits json.splits)
qed

abbreviation put_annotation :: "string \<Rightarrow> json \<Rightarrow> string \<times> json \<Rightarrow> string \<times> json" where
  "put_annotation name x \<equiv> \<lambda>(k', c). (k', if k' = ''annotations'' then json_put c [Member name] x else c)"

lemma stripField_put:
  assumes "name \<noteq> ActorsAnnotation"
  shows "stripField b (put_annotation name x kv) = map (put_annotation name x) (stripField b kv)"
proof -
  obtain f v where kv: "kv = (f, v)" by (cases kv)
  have filt: "gm_filter (\<lambda>n _. n \<noteq> ActorsAnnotation) (put_member name h e)
      = put_member name h (gm_filter (\<lambda>n _. n \<noteq> ActorsAnnotation) e)" for h e
    using assms(1) by (induction e) (auto simp: gm_filter_def)
  show ?thesis
  proof (cases v)
    case (JObj e)
    then show ?thesis by (simp add: kv stripField_def filt)
  qed (simp_all add: kv stripField_def)
qed

lemma put_member_set:
  assumes "gm_wf m"
  shows "put_member k h (gm_set k c m) = gm_set k (h c) (put_member k h m)"
proof -
  have eq: "put_member k h (gm_set k c n) = gm_set k (h c) (put_member k h n)" if "k \<in> fst ` set n \<longrightarrow> gm_wf n" for n
    using that
  proof (induction n)
    case (Cons kv n)
    obtain a v where kv: "kv = (a, v)" by (cases kv)
    show ?case
    proof (cases "a = k")
      case True
      with Cons.prems have "k \<notin> fst ` set n" by (auto simp: kv gm_wf_def)
      then have "put_member k h n = n" by (intro map_idI) (auto simp: image_iff)
      with True show ?thesis by (simp add: kv gm_set_def)
    next
      case False
      with Cons show ?thesis by (auto simp: kv gm_set_def gm_wf_def)
    qed
  qed (simp add: gm_set_def)
  show ?thesis by (rule eq) (use assms in simp)
qed

lemma strip_put_annotation:
  assumes "name \<noteq> ActorsAnnotation" and "gm_wf obj"
  shows "JObj (stripVolatileFields (put_member ''metadata'' (\<lambda>c. json_put c [Member ''annotations'', Member name] x) obj) b)
    = json_put (JObj (stripVolatileFields obj b)) [Member ''metadata'', Member ''annotations'', Member name] x"
proof (cases "metadata_of obj")
  case None
  then have "json_put c [Member ''annotations'', Member name] x = c" if "gm_get obj ''metadata'' = Some c" for c
    using that by (cases c) (auto simp: metadata_of_def)
  then have "put_member ''metadata'' (\<lambda>c. json_put c [Member ''annotations'', Member name] x) obj = obj"
    using assms(2) by (intro map_idI) (auto simp: gm_get_iff_set [symmetric])
  with None show ?thesis by (simp add: stripVolatileFields_none)
next
  case (Some m)
  let ?put = "put_annotation name x"
  let ?S = "concat (map (stripField b) m)"
  have m': "metadata_of (put_member ''metadata'' (\<lambda>c. json_put c [Member ''annotations'', Member name] x) obj) = Some (map ?put m)"
    using metadata_get [OF Some] by (simp add: metadata_of_def gm_get_put_member)
  have "concat (map (stripField b) (map ?put m)) = map ?put ?S"
    by (induction m) (simp_all add: stripField_put [OF assms(1)])
  then have F: "json_put (JObj ?S) [Member ''annotations'', Member name] x = JObj (concat (map (stripField b) (map ?put m)))"
    by simp
  show ?thesis
    unfolding stripVolatileFields_eq [OF m'] stripVolatileFields_eq [OF Some] json_put.simps F [symmetric]
    by (simp only: put_member_set [OF assms(2)] json_put.simps)
qed

lemma all_some_None: "all_some xs = None \<longleftrightarrow> None \<in> set xs"
  by (induction xs) (auto split: option.splits)

lemma string_map_put:
  assumes "gm_wf e" and "\<And>w. gm_get e name = Some w \<Longrightarrow> \<exists>t. w = JStr t"
  shows "string_map (JObj (put_member name (\<lambda>_. JStr s) e))
    = map_option (map (\<lambda>(k, c). (k, if k = name then s else c))) (string_map (JObj e))"
proof (cases "string_map (JObj e)")
  case (Some ann)
  then have "e = map (\<lambda>(k, x). (k, JStr x)) ann" by (simp add: string_map_iff)
  then have "string_map (JObj (put_member name (\<lambda>_. JStr s) e)) = Some (map (\<lambda>(k, c). (k, if k = name then s else c)) ann)"
    unfolding string_map_iff by (auto simp: case_prod_beta)
  with Some show ?thesis by simp
next
  case None
  then obtain k w where kw: "(k, w) \<in> set e" "json_string w = None"
    by (auto simp: string_map_def all_some_None image_iff)
  moreover have "k \<noteq> name"
    using assms kw by (metis gm_get_iff_set json_string_def json.simps(53) option.distinct(1))
  ultimately have "string_map (JObj (put_member name (\<lambda>_. JStr s) e)) = None"
    by (force simp: string_map_def all_some_None image_iff)
  with None show ?thesis by simp
qed

section \<open>Redaction comes before the hash\<close>

text \<open>
  A position whose value may be scrubbed without the strip noticing: below any top-level member
  but \<open>metadata\<close>, or an annotation other than the operator's, from string to string.
\<close>

fun scrubbable :: "object \<Rightarrow> jstep list \<Rightarrow> json \<Rightarrow> bool" where
  "scrubbable obj (Member k # p) x =
     (k \<noteq> ''metadata''
      \<or> (\<exists>name s. p = [Member ''annotations'', Member name] \<and> name \<noteq> ActorsAnnotation \<and> x = JStr s
           \<and> (\<forall>w. json_at (JObj obj) (Member k # p) = Some w \<longrightarrow> (\<exists>t. w = JStr t))))"
| "scrubbable obj _ x = False"

lemma carries_actors_put_annotation:
  assumes "accessors_ok env" and "json_wf (JObj obj)" and "metadata_of obj = Some m"
    and "name \<noteq> ActorsAnnotation"
    and "\<forall>w. json_at (JObj obj) [Member ''metadata'', Member ''annotations'', Member name] = Some w \<longrightarrow> (\<exists>t. w = JStr t)"
  shows "carries_actors env (put_member ''metadata'' (\<lambda>c. json_put c [Member ''annotations'', Member name] (JStr s)) obj)
    = carries_actors env obj"
proof -
  let ?o = "put_member ''metadata'' (\<lambda>c. json_put c [Member ''annotations'', Member name] (JStr s)) obj"
  let ?m = "put_member ''annotations'' (\<lambda>c. json_put c [Member name] (JStr s)) m"
  have m': "metadata_of ?o = Some ?m"
    using metadata_get [OF assms(3)] by (simp add: metadata_of_def gm_get_put_member)
  have lookup: "gm_get (map (\<lambda>(k, c). (k, if k = name then s else c)) ann) ActorsAnnotation = gm_get ann ActorsAnnotation" for ann
    using assms(4) by (induction ann) (auto simp: gm_get_def)
  show ?thesis
  proof (cases "gm_get m ''annotations''")
    case None
    then show ?thesis
      by (simp add: carries_actors_def GetAnnotations_law [OF assms(1)] m' assms(3) gm_get_put_member)
  next
    case (Some v)
    show ?thesis
    proof (cases v)
      case (JObj e)
      have "json_wf (JObj e)"
        using json_wf_member [OF metadata_wf [OF assms(2,3)] Some] by (simp only: JObj)
      then have wfe: "gm_wf e" by (rule json_wf_obj_distinct)
      have "\<exists>t. w = JStr t" if "gm_get e name = Some w" for w
        using assms(5) that metadata_get [OF assms(3)] Some by (simp add: JObj)
      with wfe have "string_map (JObj (put_member name (\<lambda>_. JStr s) e))
          = map_option (map (\<lambda>(k, c). (k, if k = name then s else c))) (string_map (JObj e))"
        by (rule string_map_put)
      then show ?thesis
        by (auto simp: carries_actors_def GetAnnotations_law [OF assms(1)] m' assms(3) gm_get_put_member Some JObj
            lookup cong: if_cong split: option.splits)
    qed (simp_all add: carries_actors_def GetAnnotations_law [OF assms(1)] m' assms(3) gm_get_put_member Some)
  qed
qed



section \<open>Patches the read plane can apply\<close>

text \<open>JSON pointers (RFC 6901): reference tokens, each escaped and preceded by a slash.\<close>

fun escape_token :: "string \<Rightarrow> string" where
  "escape_token [] = []"
| "escape_token (c # cs) =
     (if c = CHR ''~'' then ''~0'' else if c = CHR ''/'' then ''~1'' else [c]) @ escape_token cs"

definition json_pointer :: "string list \<Rightarrow> string" where
  "json_pointer tokens = concat (map (\<lambda>t. ''/'' @ escape_token t) tokens)"

lemma escape_token_free: "CHR ''/'' \<notin> set (escape_token t)"
  by (induction t) auto

lemma escape_token_empty [simp]: "escape_token t = [] \<longleftrightarrow> t = []"
  by (cases t) auto

lemma escape_token_image: "[] \<in> escape_token ` S \<longleftrightarrow> [] \<in> S"
  by (metis escape_token_empty imageE image_eqI)

lemma split_pointer:
  "split_on (CHR ''/'') (json_pointer tokens) = [] # map escape_token tokens"
proof (induction tokens)
  case (Cons t ts)
  show ?case
  proof (cases ts)
    case Nil
    then show ?thesis by (simp add: json_pointer_def escape_token_free)
  next
    case (Cons u us)
    have "split_on (CHR ''/'') (escape_token t @ json_pointer ts) = escape_token t # tl (split_on (CHR ''/'') (json_pointer ts))"
      using Cons split_on_append [OF escape_token_free, of t] by (simp add: json_pointer_def)
    with Cons.IH show ?thesis by (simp add: json_pointer_def)
  qed
qed (simp add: json_pointer_def)

lemma hasEmptyInteriorToken_pointer:
  "hasEmptyInteriorToken (json_pointer tokens) \<longleftrightarrow> [] \<in> set (butlast tokens)"
proof (cases "length tokens < 2")
  case True
  then show ?thesis by (cases tokens) (auto simp: hasEmptyInteriorToken_def split_pointer)
next
  case False
  have "butlast (map escape_token tokens) = map escape_token (butlast tokens)" by (rule map_butlast [symmetric])
  with False show ?thesis
    by (simp add: hasEmptyInteriorToken_def split_pointer escape_token_image)
qed

lemma refusePatch_None:
  "refusePatch ops = None \<longleftrightarrow>
     list_all (\<lambda>op. \<not> hasEmptyInteriorToken (op_Path op) \<and> \<not> hasEmptyInteriorToken (op_From op)) ops"
  by (induction ops) auto

text \<open>
  A diff is recorded exactly when the comparison and the marshalling succeed and no operation
  walks through an empty key; then the bytes are the marshalled patch. The guard reads pointers
  correctly: for a pointer spelled from its tokens by RFC 6901, it fires exactly when one of the
  tokens before the last is the empty string.
\<close>

theorem ComputeDiff_exact:
  "(ComputeDiff d before after = Inr bs \<longleftrightarrow>
      (\<exists>patch. CompareJSON d before after = Some patch \<and> MarshalPatch d patch = Some bs
         \<and> list_all (\<lambda>op. \<not> hasEmptyInteriorToken (op_Path op) \<and> \<not> hasEmptyInteriorToken (op_From op)) patch))
   \<and> (hasEmptyInteriorToken (json_pointer tokens) \<longleftrightarrow> [] \<in> set (butlast tokens))"
  by (auto simp: ComputeDiff_def refusePatch_None [symmetric] hasEmptyInteriorToken_pointer split: option.splits)

end
