(* ===== verification/Pipeline.thy ===== *)
theory Pipeline
  imports HashCache Coalesce Normalize
begin

text \<open>
  The data plane (\<open>internal/pipeline/pipeline.go\<close> and \<open>internal/pipeline/process.go\<close>): the
  per-sink state and its registry, the close-out retry queue, \<open>Process\<close> with its upsert, delete,
  expiry and close-out paths, and the commit callbacks of the jobs it hands to a sink's writer.

  State is passed explicitly. A \<open>*sinkState\<close> is an address into \<open>p_heap\<close>: callbacks capture the
  address, so a callback of a write issued before \<open>RemoveSink\<close> settles on the orphaned state and
  not on the one the registry creates afterwards. A commit callback is the data it closes over
  (\<open>commit\<close>), run by \<open>runCommit\<close>. What the workers would do to the queue and to the metrics is
  recorded in \<open>p_requests\<close> and \<open>p_metrics\<close>. Readings of the clock are numbered; \<open>p_clock\<close> gives
  their values. The watch cache, the sink router, the redaction registry and the writers are
  interfaces of other packages: parameters, in \<open>pipeline_env\<close>.
\<close>

section \<open>Records\<close>

record sink_record =
  rec_Timestamp :: go_time
  rec_ClusterID :: string
  rec_EventType :: string
  rec_APIGroup :: string
  rec_APIVersion :: string
  rec_Kind :: string
  rec_Namespace :: string
  rec_Name :: string
  rec_UID :: string
  rec_ResourceVersion :: string
  rec_Labels :: "(string, string) gomap"
  rec_Actors :: "string list"
  rec_Data :: string
  rec_Diff :: string
  rec_SHA256 :: string

section \<open>Per-sink state\<close>

type_synonym closeOutRetryQueue = "(string, sink_record list) gomap"

definition closeOut_Add :: "string \<Rightarrow> sink_record \<Rightarrow> closeOutRetryQueue \<Rightarrow> closeOutRetryQueue" where
  "closeOut_Add key r q =
     gm_set key ((case gm_get q key of None \<Rightarrow> [] | Some rs \<Rightarrow> rs) @ [r]) q"

definition closeOut_TakeAll :: "string \<Rightarrow> closeOutRetryQueue \<Rightarrow> sink_record list \<times> closeOutRetryQueue" where
  "closeOut_TakeAll key q = ((case gm_get q key of None \<Rightarrow> [] | Some rs \<Rightarrow> rs), gm_del key q)"

record sinkState =
  st_cache :: hashCache
  st_closeOuts :: closeOutRetryQueue
  st_coalesce :: coalescer
  st_warm :: "ScopeKey list"

definition sinkState_new :: sinkState where
  "sinkState_new = \<lparr>st_cache = [], st_closeOuts = [], st_coalesce = coalescer_zero, st_warm = []\<rparr>"

definition scopeWarm :: "sinkState \<Rightarrow> Key \<Rightarrow> bool" where
  "scopeWarm st key =
     (let scope = Scope key in
      if scope \<in> set (st_warm st) then True else scope\<lparr>scope_namespace := []\<rparr> \<in> set (st_warm st))"

section \<open>Jobs, requests and metrics\<close>

type_synonym addr = nat

datatype commit =
    CommitUpsert addr Key string "64 word" CacheEntry "CacheEntry option" string go_time go_duration
  | CommitDelete addr Key string "64 word"
  | CommitCloseOut addr Key string sink_record

record job =
  job_Record :: sink_record
  job_Commit :: commit

datatype queue_request =
    AddRateLimited Key
  | AddAfter Key go_duration
  | Forget Key

datatype metric =
    Dropped string
  | DedupSkip
  | EventCoalesceSkip
  | DiffRefusal string
  | HashcacheEntries string nat
  | SafeMode string ScopeKey nat
  | DeleteSafeMode string ScopeKey
  | DeleteSinkSeries string

definition DropReasonScopeStopped :: string where "DropReasonScopeStopped = ''scope_stopped''"
definition DropReasonEphemeralDelete :: string where "DropReasonEphemeralDelete = ''ephemeral_delete''"
definition DiffRefusalReasonEmptyInteriorToken :: string where
  "DiffRefusalReasonEmptyInteriorToken = ''empty_interior_token''"

record logThrottle =
  lt_interval :: go_duration
  lt_last :: "(string, go_time) gomap"

definition allow :: "string \<Rightarrow> go_time \<Rightarrow> logThrottle \<Rightarrow> bool \<times> logThrottle" where
  "allow key now t =
     (case gm_get (lt_last t) key of
        Some l \<Rightarrow> if time_sub now l < lt_interval t then (False, t)
                  else (True, t\<lparr>lt_last := gm_set key now (lt_last t)\<rparr>)
      | None \<Rightarrow> (True, t\<lparr>lt_last := gm_set key now (lt_last t)\<rparr>))"

definition unavailableSinkLogInterval :: go_duration where
  "unavailableSinkLogInterval = 30 * 10 ^ 9"

section \<open>The pipeline\<close>

record pipeline =
  p_heap :: "sinkState list"
  p_states :: "(sink_id, addr) gomap"
  p_jobs :: "job list"
  p_enqueues :: nat
  p_requests :: "queue_request list"
  p_metrics :: "metric list"
  p_clock :: "nat \<Rightarrow> go_time"
  p_ticks :: nat
  p_unavailableSinkLog :: logThrottle

text \<open>\<open>Enqueue\<close>'s answer to the n-th attempt: nothing, or an error.\<close>

record writer =
  w_Enqueue :: "nat \<Rightarrow> sink_record \<Rightarrow> string option"
  w_CheckpointEvery :: "int option"
  w_CoalesceWindow :: "go_duration option"

record pipeline_env =
  env_clusterID :: string
  env_k8s :: k8s_env
  env_zstd :: zstd_env
  env_diff :: diff_env
  env_lister :: "Key \<Rightarrow> string + (object option \<times> bool)"
  env_router :: "sink_id \<Rightarrow> writer option"
  env_redactions :: "(Key \<Rightarrow> RedactionPolicy option option) option"

datatype processError =
    ListerError string
  | errSinkUnavailable
  | errRedactionUnavailable
  | NormalizeFailed normalizeError
  | EnqueueFailed string

definition newPipeline :: "(nat \<Rightarrow> go_time) \<Rightarrow> pipeline" where
  "newPipeline clock =
     \<lparr>p_heap = [], p_states = [], p_jobs = [], p_enqueues = 0, p_requests = [], p_metrics = [],
      p_clock = clock, p_ticks = 0,
      p_unavailableSinkLog = \<lparr>lt_interval = unavailableSinkLogInterval, lt_last = []\<rparr>\<rparr>"

definition p_now :: "pipeline \<Rightarrow> go_time \<times> pipeline" where
  "p_now s = (p_clock s (p_ticks s), s\<lparr>p_ticks := Suc (p_ticks s)\<rparr>)"

definition emit :: "metric \<Rightarrow> pipeline \<Rightarrow> pipeline" where
  "emit m s = s\<lparr>p_metrics := p_metrics s @ [m]\<rparr>"

definition request :: "queue_request \<Rightarrow> pipeline \<Rightarrow> pipeline" where
  "request r s = s\<lparr>p_requests := p_requests s @ [r]\<rparr>"

definition st_of :: "addr \<Rightarrow> pipeline \<Rightarrow> sinkState" where
  "st_of a s = p_heap s ! a"

definition upd_st :: "addr \<Rightarrow> (sinkState \<Rightarrow> sinkState) \<Rightarrow> pipeline \<Rightarrow> pipeline" where
  "upd_st a f s = s\<lparr>p_heap := (p_heap s)[a := f (p_heap s ! a)]\<rparr>"

definition upd_cache :: "addr \<Rightarrow> (hashCache \<Rightarrow> 'r \<times> hashCache) \<Rightarrow> pipeline \<Rightarrow> 'r \<times> pipeline" where
  "upd_cache a f s =
     (let (r, c) = f (st_cache (st_of a s)) in (r, upd_st a (\<lambda>st. st\<lparr>st_cache := c\<rparr>) s))"

text \<open>\<open>Writer.Enqueue\<close>: the job is accepted, or the writer reports an error.\<close>

definition enqueue :: "writer \<Rightarrow> job \<Rightarrow> pipeline \<Rightarrow> string option \<times> pipeline" where
  "enqueue w j s =
     (let s' = s\<lparr>p_enqueues := Suc (p_enqueues s)\<rparr> in
      case w_Enqueue w (p_enqueues s) (job_Record j) of
        Some err \<Rightarrow> (Some err, s')
      | None \<Rightarrow> (None, s'\<lparr>p_jobs := p_jobs s' @ [j]\<rparr>))"

section \<open>The registry of sink states\<close>

definition registry_get :: "sink_id \<Rightarrow> pipeline \<Rightarrow> addr \<times> pipeline" where
  "registry_get i s =
     (case gm_get (p_states s) i of
        Some a \<Rightarrow> (a, s)
      | None \<Rightarrow> (let a = length (p_heap s) in
                 (a, s\<lparr>p_heap := p_heap s @ [sinkState_new], p_states := gm_set i a (p_states s)\<rparr>)))"

definition registry_lookup :: "sink_id \<Rightarrow> pipeline \<Rightarrow> addr option" where
  "registry_lookup i s = gm_get (p_states s) i"

definition RemoveSink :: "sink_id \<Rightarrow> pipeline \<Rightarrow> pipeline" where
  "RemoveSink i s = emit (DeleteSinkSeries (ID_String i)) (s\<lparr>p_states := gm_del i (p_states s)\<rparr>)"

definition recordCacheEntries :: "sink_id \<Rightarrow> addr \<Rightarrow> pipeline \<Rightarrow> pipeline" where
  "recordCacheEntries i a s = emit (HashcacheEntries (ID_String i) (Len (st_cache (st_of a s)))) s"

definition EvictScope :: "sink_id \<Rightarrow> ScopeKey \<Rightarrow> pipeline \<Rightarrow> pipeline" where
  "EvictScope i scope s =
     (case registry_lookup i s of
        None \<Rightarrow> s
      | Some a \<Rightarrow>
          (let s = upd_st a (\<lambda>st. st\<lparr>st_warm := removeAll scope (st_warm st)\<rparr>) s;
               s = emit (DeleteSafeMode (ID_String i) scope) s;
               pre = scopeKeyPrefix scope;
               (_, s) = upd_cache a (DeletePrefix pre) s;
               s = upd_st a (\<lambda>st. st\<lparr>st_coalesce := snd (deletePrefix pre (st_coalesce st))\<rparr>) s
           in recordCacheEntries i a s))"

definition MarkScopeWarm :: "sink_id \<Rightarrow> ScopeKey \<Rightarrow> pipeline \<Rightarrow> pipeline" where
  "MarkScopeWarm i scope s =
     (let (a, s) = registry_get i s;
          s = upd_st a (\<lambda>st. st\<lparr>st_warm := List.insert scope (st_warm st)\<rparr>) s
      in emit (SafeMode (ID_String i) scope 0) s)"

definition recordScopeUnwarmed :: "Key \<Rightarrow> pipeline \<Rightarrow> pipeline" where
  "recordScopeUnwarmed key s = emit (SafeMode (ID_String (key_sink key)) (Scope key) 1) s"

definition redactionFor :: "pipeline_env \<Rightarrow> Key \<Rightarrow> RedactionPolicy option option" where
  "redactionFor env key = (case env_redactions env of None \<Rightarrow> Some None | Some f \<Rightarrow> f key)"

section \<open>Commit callbacks\<close>

definition revertVersion ::
    "addr \<Rightarrow> string \<Rightarrow> 64 word \<Rightarrow> CacheEntry option \<Rightarrow> pipeline \<Rightarrow> pipeline" where
  "revertVersion a objectKey version revertEntry s =
     (case revertEntry of
        Some e \<Rightarrow> snd (upd_cache a (CommitIfCurrent objectKey version e) s)
      | None \<Rightarrow> snd (upd_cache a (DeleteIfCurrent objectKey version) s))"

fun runCommit :: "commit \<Rightarrow> bool \<Rightarrow> pipeline \<Rightarrow> pipeline" where
  "runCommit (CommitUpsert a key objectKey version confirmed revertEntry h stampedAt window) ok s =
     (if ok
      then upd_st a (\<lambda>st. st\<lparr>st_coalesce := remember objectKey h stampedAt window (st_coalesce st)\<rparr>)
             (snd (upd_cache a (CommitIfCurrent objectKey version confirmed) s))
      else request (AddRateLimited key) (revertVersion a objectKey version revertEntry s))"
| "runCommit (CommitDelete a key objectKey version) ok s =
     (if ok
      then recordCacheEntries (key_sink key) a (snd (upd_cache a (DeleteIfCurrent objectKey version) s))
      else request (AddRateLimited key)
             (snd (upd_cache a (\<lambda>c. ((), UnclaimDelete objectKey version c)) s)))"
| "runCommit (CommitCloseOut a key objectKey r) ok s =
     (if ok then s
      else request (AddRateLimited key)
             (upd_st a (\<lambda>st. st\<lparr>st_closeOuts := closeOut_Add objectKey r (st_closeOuts st)\<rparr>) s))"

section \<open>Deletions and close-outs\<close>

definition deletedRecord :: "pipeline_env \<Rightarrow> Key \<Rightarrow> CacheEntry \<Rightarrow> go_time \<Rightarrow> sink_record" where
  "deletedRecord env key entry ts =
     \<lparr>rec_Timestamp = ts, rec_ClusterID = env_clusterID env, rec_EventType = ''Deleted'',
      rec_APIGroup = key_group key, rec_APIVersion = ce_APIVersion entry, rec_Kind = key_kind key,
      rec_Namespace = key_namespace key, rec_Name = key_name key, rec_UID = ce_UID entry,
      rec_ResourceVersion = [], rec_Labels = [], rec_Actors = [], rec_Data = [], rec_Diff = [],
      rec_SHA256 = []\<rparr>"

definition enqueueCloseOut ::
    "Key \<Rightarrow> addr \<Rightarrow> writer \<Rightarrow> string \<Rightarrow> sink_record \<Rightarrow> pipeline \<Rightarrow> pipeline" where
  "enqueueCloseOut key a w objectKey r s =
     (let (err, s) = enqueue w \<lparr>job_Record = r, job_Commit = CommitCloseOut a key objectKey r\<rparr> s in
      case err of
        None \<Rightarrow> s
      | Some _ \<Rightarrow> request (AddRateLimited key)
                   (upd_st a (\<lambda>st. st\<lparr>st_closeOuts := closeOut_Add objectKey r (st_closeOuts st)\<rparr>) s))"

definition retryPendingCloseOuts :: "Key \<Rightarrow> addr \<Rightarrow> writer \<Rightarrow> string \<Rightarrow> pipeline \<Rightarrow> pipeline" where
  "retryPendingCloseOuts key a w objectKey s =
     (let (rs, q) = closeOut_TakeAll objectKey (st_closeOuts (st_of a s));
          s = upd_st a (\<lambda>st. st\<lparr>st_closeOuts := q\<rparr>) s
      in fold (enqueueCloseOut key a w objectKey) rs s)"

definition emitDelete ::
    "pipeline_env \<Rightarrow> Key \<Rightarrow> addr \<Rightarrow> writer \<Rightarrow> string \<Rightarrow> pipeline
     \<Rightarrow> (deleteClaimOutcome \<times> string option) \<times> pipeline" where
  "emitDelete env key a w expectedUID s =
     (let objectKey = cacheKey key;
          ((entry, version, outcome), s) = upd_cache a (ReserveDelete objectKey expectedUID) s
      in if outcome \<noteq> deleteClaimed then ((outcome, None), s)
         else (let (now, s) = p_now s;
                   (err, s) = enqueue w \<lparr>job_Record = deletedRecord env key entry now,
                                job_Commit = CommitDelete a key objectKey version\<rparr> s
               in case err of
                    Some e \<Rightarrow> ((deleteClaimed, Some e),
                               snd (upd_cache a (\<lambda>c. ((), UnclaimDelete objectKey version c)) s))
                  | None \<Rightarrow> ((deleteClaimed, None), s)))"

definition forgetEphemeral :: "Key \<Rightarrow> addr \<Rightarrow> pipeline \<Rightarrow> pipeline" where
  "forgetEphemeral key a s =
     (let objectKey = cacheKey key;
          s = upd_st a (\<lambda>st. st\<lparr>st_coalesce := forget objectKey (st_coalesce st)\<rparr>) s;
          ((_, version, outcome), s) = upd_cache a (ReserveDelete objectKey []) s
      in if outcome \<noteq> deleteClaimed then s
         else (let (removed, s) = upd_cache a (DeleteIfCurrent objectKey version) s in
               if removed then recordCacheEntries (key_sink key) a s else s))"

section \<open>Upserts\<close>

text \<open>What the dedup block leaves in the local variables of \<open>processUpsert\<close>.\<close>

record upsert_plan =
  up_eventType :: string
  up_diffString :: string
  up_carriesFullState :: bool
  up_modifiedRun :: int
  up_revertEntry :: "CacheEntry option"
  up_cacheMiss :: bool

definition plan_added :: upsert_plan where
  "plan_added = \<lparr>up_eventType = ''Added'', up_diffString = [], up_carriesFullState = True,
     up_modifiedRun = 0, up_revertEntry = None, up_cacheMiss = False\<rparr>"

text \<open>The window and the digest of an Event; a projection that fails turns coalescing off.\<close>

definition coalesceFor :: "bool \<Rightarrow> writer \<Rightarrow> normalizedObject \<Rightarrow> go_duration \<times> string" where
  "coalesceFor ephemeral w norm =
     (if \<not> ephemeral then (0, [])
      else let window = coalesceWindowFor (w_CoalesceWindow w) in
           if window > 0
           then (case eventCoalesceHash (no_normalized norm) of
                   None \<Rightarrow> (0, [])
                 | Some h \<Rightarrow> (window, h))
           else (window, []))"

text \<open>The same object with new content: full state, a diff, or a checkpoint.\<close>

definition planModified ::
    "pipeline_env \<Rightarrow> bool \<Rightarrow> writer \<Rightarrow> CacheEntry \<Rightarrow> normalizedObject \<Rightarrow> upsert_plan \<times> metric list" where
  "planModified env ephemeral w cachedEntry norm =
     (let full = plan_added\<lparr>up_eventType := ''Modified'', up_revertEntry := Some cachedEntry\<rparr> in
      if ephemeral then (full, [])
      else case (ce_JSON cachedEntry, decodeBaseline (env_zstd env) cachedEntry) of
             (None, _) \<Rightarrow> (full, [])
           | (_, Inl _) \<Rightarrow> (full, [])
           | (_, Inr baseline) \<Rightarrow>
               (case ComputeDiff (env_diff env) (case baseline of None \<Rightarrow> [] | Some b \<Rightarrow> b) (no_JSON norm) of
                  Inl (errEmptyInteriorToken _ _) \<Rightarrow> (full, [DiffRefusal DiffRefusalReasonEmptyInteriorToken])
                | Inl _ \<Rightarrow> (full, [])
                | Inr patchBytes \<Rightarrow>
                    if snd (checkpointDue (checkpointEveryFor (w_CheckpointEvery w))
                             (ce_ModifiedSinceCheckpoint cachedEntry + 1) patchBytes (no_JSON norm))
                    then (full\<lparr>up_eventType := ''Checkpoint'', up_diffString := patchBytes\<rparr>, [])
                    else (full\<lparr>up_diffString := patchBytes, up_carriesFullState := False,
                               up_modifiedRun := ce_ModifiedSinceCheckpoint cachedEntry + 1\<rparr>, [])))"

text \<open>Deduplication and reincarnation: nothing when the work item is settled without a write.\<close>

definition dedupBlock ::
    "pipeline_env \<Rightarrow> Key \<Rightarrow> addr \<Rightarrow> writer \<Rightarrow> string \<Rightarrow> normalizedObject \<Rightarrow> go_duration \<Rightarrow> string
     \<Rightarrow> pipeline \<Rightarrow> upsert_plan option \<times> pipeline" where
  "dedupBlock env key a w objectKey norm window h s =
     (let ephemeral = Key_ephemeral key in
      case Load objectKey (st_cache (st_of a s)) of
        None \<Rightarrow> (Some (plan_added\<lparr>up_cacheMiss := True\<rparr>), s)
      | Some cachedEntry \<Rightarrow>
          if ce_UID cachedEntry \<noteq> [] \<and> ce_UID cachedEntry \<noteq> no_UID norm then
            (if ephemeral then (Some plan_added, s)
             else let ((claimedEntry, _, outcome), s) =
                        upd_cache a (ReserveDelete objectKey (ce_UID cachedEntry)) s
                  in if outcome = deleteClaimed
                     then let (now, s) = p_now s in
                          (Some plan_added,
                           enqueueCloseOut key a w objectKey (deletedRecord env key claimedEntry now) s)
                     else (Some plan_added, s))
          else if ce_Hash cachedEntry = no_Hash norm then (None, emit DedupSkip s)
          else let (now, s) = p_now s;
                   (flushAfter, skip) = decide objectKey h window now (st_coalesce (st_of a s))
               in if skip then (None, request (AddAfter key flushAfter) (emit EventCoalesceSkip s))
                  else let (plan, ms) = planModified env ephemeral w cachedEntry norm
                       in (Some plan, fold emit ms s))"

definition tagSnapshot :: "Key \<Rightarrow> addr \<Rightarrow> upsert_plan \<Rightarrow> pipeline \<Rightarrow> upsert_plan \<times> pipeline" where
  "tagSnapshot key a plan s =
     (if up_cacheMiss plan \<and> \<not> Key_ephemeral key \<and> \<not> scopeWarm (st_of a s) key
      then (plan\<lparr>up_eventType := ''Snapshot''\<rparr>, recordScopeUnwarmed key s)
      else (plan, s))"

definition confirmedEntry :: "pipeline_env \<Rightarrow> bool \<Rightarrow> normalizedObject \<Rightarrow> int \<Rightarrow> CacheEntry" where
  "confirmedEntry env ephemeral norm modifiedRun =
     (let (baselineData, baselineEnc) =
            (if ephemeral then (None, encodingRaw)
             else let (d, e, _) = compressBaseline (env_zstd env) (Some (no_JSON norm)) in (d, e))
      in \<lparr>ce_Hash = no_Hash norm, ce_JSON = baselineData, ce_Encoding = baselineEnc, ce_UID = no_UID norm,
          ce_APIVersion = no_APIVersion norm, ce_ModifiedSinceCheckpoint = modifiedRun, ce_Version = 0,
          ce_PendingDelete = False\<rparr>)"

definition upsertRecord :: "pipeline_env \<Rightarrow> Key \<Rightarrow> normalizedObject \<Rightarrow> upsert_plan \<Rightarrow> go_time \<Rightarrow> sink_record" where
  "upsertRecord env key norm plan stampedAt =
     \<lparr>rec_Timestamp = stampedAt, rec_ClusterID = env_clusterID env, rec_EventType = up_eventType plan,
      rec_APIGroup = key_group key, rec_APIVersion = no_APIVersion norm, rec_Kind = key_kind key,
      rec_Namespace = key_namespace key, rec_Name = key_name key, rec_UID = no_UID norm,
      rec_ResourceVersion = no_ResourceVersion norm, rec_Labels = no_Labels norm, rec_Actors = no_Actors norm,
      rec_Data = (if up_carriesFullState plan then no_JSON norm else []),
      rec_Diff = up_diffString plan, rec_SHA256 = no_Hash norm\<rparr>"

definition exportBlock ::
    "pipeline_env \<Rightarrow> Key \<Rightarrow> addr \<Rightarrow> writer \<Rightarrow> string \<Rightarrow> normalizedObject \<Rightarrow> go_duration \<Rightarrow> string
     \<Rightarrow> upsert_plan \<Rightarrow> pipeline \<Rightarrow> processError option \<times> pipeline" where
  "exportBlock env key a w objectKey norm window h plan s =
     (let confirmed = confirmedEntry env (Key_ephemeral key) norm (up_modifiedRun plan);
          (version, s) = upd_cache a (Reserve objectKey confirmed) s;
          s = recordCacheEntries (key_sink key) a s;
          (stampedAt, s) = p_now s;
          (err, s) = enqueue w \<lparr>job_Record = upsertRecord env key norm plan stampedAt,
             job_Commit = CommitUpsert a key objectKey version confirmed (up_revertEntry plan) h stampedAt window\<rparr> s
      in case err of
           Some e \<Rightarrow> (Some (EnqueueFailed e), revertVersion a objectKey version (up_revertEntry plan) s)
         | None \<Rightarrow> (None, s))"

definition processUpsert ::
    "pipeline_env \<Rightarrow> Key \<Rightarrow> addr \<Rightarrow> writer \<Rightarrow> object \<Rightarrow> string \<Rightarrow> pipeline \<Rightarrow> processError option \<times> pipeline" where
  "processUpsert env key a w obj objectKey s =
     (case redactionFor env key of
        None \<Rightarrow> (Some errRedactionUnavailable, s)
      | Some policy \<Rightarrow>
          (case normalizeObject (env_k8s env) obj policy of
             Inl e \<Rightarrow> (Some (NormalizeFailed e), s)
           | Inr norm \<Rightarrow>
               (let (window, h) = coalesceFor (Key_ephemeral key) w norm;
                    (decision, s) = dedupBlock env key a w objectKey norm window h s
                in case decision of
                     None \<Rightarrow> (None, s)
                   | Some plan \<Rightarrow>
                       (let (plan, s) = tagSnapshot key a plan s
                        in exportBlock env key a w objectKey norm window h plan s))))"

section \<open>Process\<close>

definition Process :: "pipeline_env \<Rightarrow> Key \<Rightarrow> pipeline \<Rightarrow> processError option \<times> pipeline" where
  "Process env key s =
     (case env_lister env key of
        Inl e \<Rightarrow> (Some (ListerError e), s)
      | Inr (obj, scopeActive) \<Rightarrow>
          if \<not> scopeActive then (None, emit (Dropped DropReasonScopeStopped) s)
          else if obj = None \<and> Key_ephemeral key then
            (let s = emit (Dropped DropReasonEphemeralDelete) s;
                 (a, s) = registry_get (key_sink key) s
             in (None, forgetEphemeral key a s))
          else case env_router env (key_sink key) of
                 None \<Rightarrow>
                   (let (now, s) = p_now s;
                        (_, t) = allow (ID_String (key_sink key)) now (p_unavailableSinkLog s)
                    in (Some errSinkUnavailable, s\<lparr>p_unavailableSinkLog := t\<rparr>))
               | Some w \<Rightarrow>
                   (let (a, s) = registry_get (key_sink key) s;
                        objectKey = cacheKey key;
                        s = retryPendingCloseOuts key a w objectKey s
                    in case obj of
                         None \<Rightarrow>
                           (let ((_, err), s) = emitDelete env key a w [] s
                            in (map_option EnqueueFailed err, s))
                       | Some ob \<Rightarrow> processUpsert env key a w ob objectKey s))"

text \<open>A worker's treatment of one item, between \<open>Get\<close> and \<open>Done\<close>: retried on the rate limiter or settled.\<close>

definition processNext :: "pipeline_env \<Rightarrow> Key \<Rightarrow> pipeline \<Rightarrow> pipeline" where
  "processNext env key s =
     (case Process env key s of
        (Some _, s) \<Rightarrow> request (AddRateLimited key) s
      | (None, s) \<Rightarrow> request (Forget key) s)"

section \<open>Rows\<close>

definition row_identity :: "Key \<Rightarrow> sink_record \<Rightarrow> bool" where
  "row_identity k r \<longleftrightarrow> rec_APIGroup r = key_group k \<and> rec_Kind r = key_kind k
     \<and> rec_Namespace r = key_namespace k \<and> rec_Name r = key_name k"

definition payload_free :: "sink_record \<Rightarrow> bool" where
  "payload_free r \<longleftrightarrow> rec_Data r = [] \<and> rec_Diff r = [] \<and> rec_SHA256 r = [] \<and> rec_Labels r = []
     \<and> rec_Actors r = [] \<and> rec_ResourceVersion r = []"

definition row_ok :: "sink_record \<Rightarrow> bool" where
  "row_ok r \<longleftrightarrow>
     (rec_EventType r = ''Deleted'' \<and> payload_free r \<and> \<not> ephemeralKind (rec_APIGroup r) (rec_Kind r)
      \<or> rec_EventType r = ''Added'' \<and> rec_Diff r = [] \<and> rec_SHA256 r = sha256_hex (rec_Data r)
      \<or> rec_EventType r = ''Snapshot'' \<and> rec_Diff r = [] \<and> rec_SHA256 r = sha256_hex (rec_Data r)
          \<and> \<not> ephemeralKind (rec_APIGroup r) (rec_Kind r)
      \<or> rec_EventType r = ''Modified'' \<and> rec_Diff r = [] \<and> rec_SHA256 r = sha256_hex (rec_Data r)
      \<or> rec_EventType r = ''Modified'' \<and> rec_Data r = [] \<and> \<not> ephemeralKind (rec_APIGroup r) (rec_Kind r)
      \<or> rec_EventType r = ''Checkpoint'' \<and> rec_SHA256 r = sha256_hex (rec_Data r)
          \<and> \<not> ephemeralKind (rec_APIGroup r) (rec_Kind r))"

definition closeout_ok :: "string \<Rightarrow> sink_record \<Rightarrow> bool" where
  "closeout_ok objectKey r \<longleftrightarrow>
     (\<exists>k. key_valid k \<and> \<not> Key_ephemeral k \<and> cacheKey k = objectKey \<and> row_identity k r
        \<and> rec_EventType r = ''Deleted'' \<and> payload_free r)"

section \<open>The invariant\<close>

definition st_ok :: "sinkState \<Rightarrow> bool" where
  "st_ok st \<longleftrightarrow> gm_wf (st_cache st) \<and> co_wf (st_coalesce st)
     \<and> (\<forall>k rs r. gm_get (st_closeOuts st) k = Some rs \<longrightarrow> r \<in> set rs \<longrightarrow> closeout_ok k r)"

fun commit_addr :: "commit \<Rightarrow> addr" where
  "commit_addr (CommitUpsert a _ _ _ _ _ _ _ _) = a"
| "commit_addr (CommitDelete a _ _ _) = a"
| "commit_addr (CommitCloseOut a _ _ _) = a"

fun commit_ok :: "commit \<Rightarrow> sink_record \<Rightarrow> bool" where
  "commit_ok (CommitCloseOut a key objectKey r) r' \<longleftrightarrow> r = r' \<and> closeout_ok objectKey r"
| "commit_ok (CommitDelete a key objectKey v) r' \<longleftrightarrow> objectKey = cacheKey key \<and> row_identity key r'"
| "commit_ok (CommitUpsert a key objectKey v e re h t w) r' \<longleftrightarrow> objectKey = cacheKey key \<and> row_identity key r'"

definition job_ok :: "job \<Rightarrow> bool" where
  "job_ok j \<longleftrightarrow> row_ok (job_Record j) \<and> commit_ok (job_Commit j) (job_Record j)"

definition pipeline_ok :: "pipeline \<Rightarrow> bool" where
  "pipeline_ok s \<longleftrightarrow> (\<forall>st \<in> set (p_heap s). st_ok st)
     \<and> (\<forall>j \<in> set (p_jobs s). job_ok j \<and> commit_addr (job_Commit j) < length (p_heap s))
     \<and> gm_wf (p_states s) \<and> (\<forall>i a. gm_get (p_states s) i = Some a \<longrightarrow> a < length (p_heap s))
     \<and> (\<forall>i j a. gm_get (p_states s) i = Some a \<longrightarrow> gm_get (p_states s) j = Some a \<longrightarrow> i = j)"

section \<open>Lemmas on the state-passing helpers\<close>

lemma helper_fields [simp]:
  "p_heap (emit m s) = p_heap s" "p_jobs (emit m s) = p_jobs s" "p_states (emit m s) = p_states s"
  "p_heap (request q s) = p_heap s" "p_jobs (request q s) = p_jobs s" "p_states (request q s) = p_states s"
  "p_requests (emit m s) = p_requests s" "p_metrics (emit m s) = p_metrics s @ [m]"
  "p_requests (request q s) = p_requests s @ [q]" "p_metrics (request q s) = p_metrics s"
  "p_jobs (upd_st a f s) = p_jobs s" "p_states (upd_st a f s) = p_states s"
  "p_requests (upd_st a f s) = p_requests s" "p_metrics (upd_st a f s) = p_metrics s"
  "length (p_heap (upd_st a f s)) = length (p_heap s)"
  by (simp_all add: emit_def request_def upd_st_def)

lemma p_now_fields [simp]:
  "p_now s = (t, s') \<Longrightarrow> p_heap s' = p_heap s" "p_now s = (t, s') \<Longrightarrow> p_jobs s' = p_jobs s"
  "p_now s = (t, s') \<Longrightarrow> p_states s' = p_states s" "p_now s = (t, s') \<Longrightarrow> p_requests s' = p_requests s"
  "p_now s = (t, s') \<Longrightarrow> p_metrics s' = p_metrics s"
  by (auto simp: p_now_def)

lemma st_of_upd_st [simp]:
  "st_of a (upd_st b f s) = (if a = b \<and> a < length (p_heap s) then f (st_of a s) else st_of a s)"
  by (cases "b < length (p_heap s)") (auto simp: st_of_def upd_st_def nth_list_update list_update_beyond)

lemma upd_cache_eq:
  "upd_cache a f s = (fst (f (st_cache (st_of a s))),
     upd_st a (\<lambda>st. st\<lparr>st_cache := snd (f (st_cache (st_of a s)))\<rparr>) s)"
  by (simp add: upd_cache_def case_prod_beta)

lemma st_of_simps [simp]:
  "st_of a (emit m s) = st_of a s" "st_of a (request q s) = st_of a s"
  by (simp_all add: st_of_def)

section \<open>Every helper keeps the invariant\<close>

lemma ok_emit [simp]: "pipeline_ok (emit m s) = pipeline_ok s"
  by (simp add: pipeline_ok_def)

lemma ok_request [simp]: "pipeline_ok (request q s) = pipeline_ok s"
  by (simp add: pipeline_ok_def)

lemma ok_now: "pipeline_ok s \<Longrightarrow> p_now s = (t, s') \<Longrightarrow> pipeline_ok s'"
  by (simp add: pipeline_ok_def)

lemma ok_st_of: "pipeline_ok s \<Longrightarrow> a < length (p_heap s) \<Longrightarrow> st_ok (st_of a s)"
  by (simp add: pipeline_ok_def st_of_def)

lemma ok_upd_st:
  assumes "pipeline_ok s" and "a < length (p_heap s) \<Longrightarrow> st_ok (f (st_of a s))"
  shows "pipeline_ok (upd_st a f s)"
proof -
  have "\<forall>st \<in> set ((p_heap s)[a := f (p_heap s ! a)]). st_ok st"
  proof (cases "a < length (p_heap s)")
    case True
    with assms show ?thesis by (auto simp: pipeline_ok_def st_of_def dest: set_update_subset_insert [THEN subsetD])
  next
    case False
    with assms show ?thesis by (simp add: pipeline_ok_def list_update_beyond)
  qed
  with assms(1) show ?thesis by (simp add: pipeline_ok_def upd_st_def)
qed

lemma ok_upd_cache:
  assumes "pipeline_ok s" and "\<And>c. gm_wf c \<Longrightarrow> gm_wf (snd (f c))" and "upd_cache a f s = (r, s')"
  shows "pipeline_ok s'"
proof -
  have "pipeline_ok (upd_st a (\<lambda>st. st\<lparr>st_cache := snd (f (st_cache (st_of a s)))\<rparr>) s)"
    using ok_st_of [OF assms(1)] assms(2) by (intro ok_upd_st [OF assms(1)]) (simp add: st_ok_def)
  with assms(3) show ?thesis by (simp add: upd_cache_eq)
qed

lemma ok_upd_cache_snd:
  "pipeline_ok s \<Longrightarrow> (\<And>c. gm_wf c \<Longrightarrow> gm_wf (snd (f c))) \<Longrightarrow> pipeline_ok (snd (upd_cache a f s))"
  by (metis ok_upd_cache prod.collapse)

lemma cache_ops_wf:
  "gm_wf c \<Longrightarrow> gm_wf (snd (Reserve k e c))" "gm_wf c \<Longrightarrow> gm_wf (snd (CommitIfCurrent k v e c))"
  "gm_wf c \<Longrightarrow> gm_wf (snd (DeleteIfCurrent k v c))" "gm_wf c \<Longrightarrow> gm_wf (snd (ReserveDelete k uid c))"
  "gm_wf c \<Longrightarrow> gm_wf (UnclaimDelete k v c)" "gm_wf c \<Longrightarrow> gm_wf (snd (DeletePrefix p c))"
  "gm_wf c \<Longrightarrow> gm_wf (StoreIfAbsent k e c)"
  using cache_step_wf [of c "OpReserve k e"] cache_step_wf [of c "OpCommit k v e"]
    cache_step_wf [of c "OpDelete k v"] cache_step_wf [of c "OpClaim k uid"]
    cache_step_wf [of c "OpUnclaim k v"] cache_step_wf [of c "OpEvict p"] cache_step_wf [of c "OpStore k e"]
  by simp_all

lemma ok_enqueue:
  assumes "pipeline_ok s" and "job_ok j" and "commit_addr (job_Commit j) < length (p_heap s)"
    and "enqueue w j s = (err, s')"
  shows "pipeline_ok s'"
  using assms by (auto simp: enqueue_def Let_def pipeline_ok_def split: option.splits)

lemma enqueue_heap: "enqueue w j s = (err, s') \<Longrightarrow> p_heap s' = p_heap s \<and> p_states s' = p_states s"
  by (auto simp: enqueue_def Let_def split: option.splits)

lemma registry_get_addr: "pipeline_ok s \<Longrightarrow> registry_get i s = (a, s') \<Longrightarrow> a < length (p_heap s')"
  by (auto simp: registry_get_def Let_def pipeline_ok_def split: option.splits)

lemma st_ok_new [simp]: "st_ok sinkState_new"
  by (simp add: st_ok_def sinkState_new_def)

lemma ok_registry_get: "pipeline_ok s \<Longrightarrow> registry_get i s = (a, s') \<Longrightarrow> pipeline_ok s'"
  by (auto simp: registry_get_def Let_def pipeline_ok_def split: option.splits if_splits; fastforce)

lemma ok_revertVersion: "pipeline_ok s \<Longrightarrow> pipeline_ok (revertVersion a k v re s)"
  by (auto simp: revertVersion_def ok_upd_cache_snd cache_ops_wf split: option.splits)

lemma revertVersion_len [simp]: "length (p_heap (revertVersion a k v re s)) = length (p_heap s)"
  by (simp add: revertVersion_def upd_cache_eq split: option.splits)

lemma closeOut_Add_ok:
  assumes "st_ok st" and "closeout_ok k r"
  shows "st_ok (st\<lparr>st_closeOuts := closeOut_Add k r (st_closeOuts st)\<rparr>)"
  using assms by (cases "gm_get (st_closeOuts st) k") (auto simp: st_ok_def closeOut_Add_def)

section \<open>Every operation keeps the invariant\<close>

lemma ok_addCloseOut:
  assumes "pipeline_ok s" and "closeout_ok k r"
  shows "pipeline_ok (upd_st a (\<lambda>st. st\<lparr>st_closeOuts := closeOut_Add k r (st_closeOuts st)\<rparr>) s)"
  using assms by (intro ok_upd_st closeOut_Add_ok ok_st_of)

lemma closeout_row_ok: "closeout_ok k r \<Longrightarrow> row_ok r"
  by (auto simp: closeout_ok_def row_ok_def row_identity_def Key_ephemeral_def)

lemma ok_enqueueCloseOut:
  assumes "pipeline_ok s" and "a < length (p_heap s)" and "closeout_ok objectKey r"
  shows "pipeline_ok (enqueueCloseOut key a w objectKey r s)
    \<and> length (p_heap (enqueueCloseOut key a w objectKey r s)) = length (p_heap s)"
proof -
  obtain err s1 where e: "enqueue w \<lparr>job_Record = r, job_Commit = CommitCloseOut a key objectKey r\<rparr> s = (err, s1)"
    by (metis prod.exhaust)
  then have "pipeline_ok s1" and "p_heap s1 = p_heap s"
    using assms closeout_row_ok enqueue_heap by (auto intro!: ok_enqueue [OF _ _ _ e] simp: job_ok_def)
  then show ?thesis using assms(3) by (simp add: enqueueCloseOut_def e ok_addCloseOut split: option.split)
qed

lemma ok_fold_enqueueCloseOut:
  assumes "pipeline_ok s" and "a < length (p_heap s)" and "\<forall>r \<in> set rs. closeout_ok objectKey r"
  shows "pipeline_ok (fold (enqueueCloseOut key a w objectKey) rs s)
    \<and> length (p_heap (fold (enqueueCloseOut key a w objectKey) rs s)) = length (p_heap s)"
  using assms
proof (induction rs arbitrary: s)
  case (Cons r rs)
  then show ?case using ok_enqueueCloseOut [of s a objectKey r key w] by simp
qed simp

lemma ok_retryPendingCloseOuts:
  assumes "pipeline_ok s" and "a < length (p_heap s)"
  shows "pipeline_ok (retryPendingCloseOuts key a w objectKey s)
    \<and> length (p_heap (retryPendingCloseOuts key a w objectKey s)) = length (p_heap s)"
proof -
  have st: "st_ok (st_of a s)" using assms by (rule ok_st_of)
  then have "\<forall>r \<in> set (fst (closeOut_TakeAll objectKey (st_closeOuts (st_of a s)))). closeout_ok objectKey r"
    by (cases "gm_get (st_closeOuts (st_of a s)) objectKey") (auto simp: closeOut_TakeAll_def st_ok_def)
  moreover have "pipeline_ok (upd_st a (\<lambda>st. st\<lparr>st_closeOuts := snd (closeOut_TakeAll objectKey (st_closeOuts (st_of a s)))\<rparr>) s)"
    using st by (intro ok_upd_st [OF assms(1)]) (auto simp: st_ok_def closeOut_TakeAll_def split: if_splits)
  ultimately show ?thesis
    using assms(2) ok_fold_enqueueCloseOut [of "upd_st a (\<lambda>st. st\<lparr>st_closeOuts := snd (closeOut_TakeAll objectKey (st_closeOuts (st_of a s)))\<rparr>) s"]
    by (simp add: retryPendingCloseOuts_def case_prod_beta Let_def)
qed

lemma deletedRecord_props:
  "rec_EventType (deletedRecord env key e t) = ''Deleted''" "payload_free (deletedRecord env key e t)"
  "row_identity key (deletedRecord env key e t)"
  by (simp_all add: deletedRecord_def payload_free_def row_identity_def)

lemma deletedRecord_closeout:
  "key_valid key \<Longrightarrow> \<not> Key_ephemeral key \<Longrightarrow> closeout_ok (cacheKey key) (deletedRecord env key e t)"
  unfolding closeout_ok_def using deletedRecord_props by blast

lemma ok_emitDelete:
  assumes "pipeline_ok s" and "a < length (p_heap s)" and "key_valid key" and "\<not> Key_ephemeral key"
  shows "pipeline_ok (snd (emitDelete env key a w uid s))
    \<and> length (p_heap (snd (emitDelete env key a w uid s))) = length (p_heap s)"
proof -
  obtain entry version outcome s1 where u: "upd_cache a (ReserveDelete (cacheKey key) uid) s = ((entry, version, outcome), s1)"
    by (metis prod.exhaust)
  have s1: "pipeline_ok s1" "length (p_heap s1) = length (p_heap s)"
    using ok_upd_cache [OF assms(1) cache_ops_wf(4) u] u by (auto simp: upd_cache_eq)
  obtain now s2 where n: "p_now s1 = (now, s2)" by (metis prod.exhaust)
  let ?j = "\<lparr>job_Record = deletedRecord env key entry now, job_Commit = CommitDelete a key (cacheKey key) version\<rparr>"
  obtain err s3 where e: "enqueue w ?j s2 = (err, s3)" by (metis prod.exhaust)
  have "job_ok ?j"
    using closeout_row_ok [OF deletedRecord_closeout [OF assms(3,4)]] deletedRecord_props(3) by (simp add: job_ok_def)
  then have "pipeline_ok s3" and "p_heap s3 = p_heap s1"
    using ok_enqueue [OF ok_now [OF s1(1) n] _ _ e] enqueue_heap [OF e] n s1 assms(2) by simp_all
  then show ?thesis
    using s1 by (auto simp: emitDelete_def u n e Let_def ok_upd_cache_snd cache_ops_wf split: option.splits)
      (simp add: upd_cache_eq)
qed

lemma ok_forgetEphemeral:
  assumes "pipeline_ok s" and "a < length (p_heap s)"
  shows "pipeline_ok (forgetEphemeral key a s)"
proof -
  let ?s0 = "upd_st a (\<lambda>st. st\<lparr>st_coalesce := forget (cacheKey key) (st_coalesce st)\<rparr>) s"
  have "pipeline_ok ?s0"
    using ok_st_of [OF assms] by (intro ok_upd_st [OF assms(1)]) (simp add: st_ok_def)
  then have "pipeline_ok (snd (upd_cache a (ReserveDelete (cacheKey key) []) ?s0))"
    by (simp add: ok_upd_cache_snd cache_ops_wf)
  then have "pipeline_ok (snd (upd_cache a (DeleteIfCurrent (cacheKey key) v)
      (snd (upd_cache a (ReserveDelete (cacheKey key) []) ?s0))))" for v
    by (simp add: ok_upd_cache_snd cache_ops_wf)
  with \<open>pipeline_ok (snd (upd_cache a (ReserveDelete (cacheKey key) []) ?s0))\<close> show ?thesis
    by (simp add: forgetEphemeral_def Let_def case_prod_beta recordCacheEntries_def)
qed

lemma ok_runCommit:
  assumes "pipeline_ok s" and "commit_ok c r"
  shows "pipeline_ok (runCommit c ok s)"
proof (cases c)
  case (CommitUpsert a key objectKey v e re h t w)
  have "pipeline_ok (snd (upd_cache a (CommitIfCurrent objectKey v e) s))"
    using assms(1) by (intro ok_upd_cache_snd cache_ops_wf)
  then have "pipeline_ok (upd_st a (\<lambda>st. st\<lparr>st_coalesce := remember objectKey h t w (st_coalesce st)\<rparr>)
      (snd (upd_cache a (CommitIfCurrent objectKey v e) s)))"
    using ok_st_of by (intro ok_upd_st) (simp_all add: st_ok_def)
  with assms(1) show ?thesis by (simp add: CommitUpsert ok_revertVersion)
next
  case (CommitDelete a key objectKey v)
  with assms(1) show ?thesis by (simp add: recordCacheEntries_def ok_upd_cache_snd cache_ops_wf)
next
  case (CommitCloseOut a key objectKey r')
  with assms show ?thesis by (auto simp: ok_addCloseOut)
qed

section \<open>The upsert path keeps the invariant\<close>

definition plan_ok :: "bool \<Rightarrow> upsert_plan \<Rightarrow> bool" where
  "plan_ok ephemeral p \<longleftrightarrow>
     up_eventType p \<in> {''Added'', ''Modified''} \<and> up_diffString p = [] \<and> up_carriesFullState p
     \<or> up_eventType p = ''Snapshot'' \<and> up_diffString p = [] \<and> up_carriesFullState p \<and> \<not> ephemeral
     \<or> up_eventType p = ''Modified'' \<and> \<not> up_carriesFullState p \<and> \<not> ephemeral
     \<or> up_eventType p = ''Checkpoint'' \<and> up_carriesFullState p \<and> \<not> ephemeral"

lemma plan_added_ok [simp]: "plan_ok e plan_added" "plan_ok e (plan_added\<lparr>up_cacheMiss := b\<rparr>)"
  by (simp_all add: plan_ok_def plan_added_def)

lemma planModified_ok: "plan_ok ephemeral (fst (planModified env ephemeral w e norm))"
  by (auto simp: planModified_def plan_ok_def plan_added_def Let_def
      split: option.splits sum.splits diffError.splits prod.splits)

lemma upsertRecord_ok:
  assumes "plan_ok (Key_ephemeral key) plan" and "no_Hash norm = sha256_hex (no_JSON norm)"
  shows "row_ok (upsertRecord env key norm plan t)"
  using assms by (auto simp: plan_ok_def row_ok_def upsertRecord_def Key_ephemeral_def)

lemma normalizeObject_hash: "normalizeObject env obj policy = Inr n \<Longrightarrow> no_Hash n = sha256_hex (no_JSON n)"
  by (auto simp: normalizeObject_def Let_def split: option.splits)

lemma fold_emit [simp]: "pipeline_ok (fold emit ms s) = pipeline_ok s" "p_heap (fold emit ms s) = p_heap s"
  "p_jobs (fold emit ms s) = p_jobs s" "p_requests (fold emit ms s) = p_requests s"
  "p_states (fold emit ms s) = p_states s" "st_of a (fold emit ms s) = st_of a s"
  by (induction ms arbitrary: s) (simp_all add: st_of_def)

lemma ok_dedupBlock:
  assumes "pipeline_ok s" and "a < length (p_heap s)" and "key_valid key"
    and "dedupBlock env key a w (cacheKey key) norm window h s = (d, s')"
  shows "pipeline_ok s'" and "length (p_heap s') = length (p_heap s)"
    and "d = Some plan \<Longrightarrow> plan_ok (Key_ephemeral key) plan"
proof -
  note D = assms(4) [unfolded dedupBlock_def Let_def]
  have "pipeline_ok s' \<and> length (p_heap s') = length (p_heap s)
      \<and> (\<forall>plan. d = Some plan \<longrightarrow> plan_ok (Key_ephemeral key) plan)"
  proof (cases "Load (cacheKey key) (st_cache (st_of a s))")
    case None
    with D assms(1) show ?thesis by auto
  next
    case (Some e)
    show ?thesis
    proof (cases "ce_UID e \<noteq> [] \<and> ce_UID e \<noteq> no_UID norm")
      case reinc: True
      show ?thesis
      proof (cases "Key_ephemeral key")
        case True
        with D Some reinc assms(1) show ?thesis by auto
      next
        case False
        obtain ce v outcome s1 where u: "upd_cache a (ReserveDelete (cacheKey key) (ce_UID e)) s = ((ce, v, outcome), s1)"
          by (metis prod.exhaust)
        have s1: "pipeline_ok s1" "length (p_heap s1) = length (p_heap s)"
          using ok_upd_cache [OF assms(1) cache_ops_wf(4) u] u by (auto simp: upd_cache_eq)
        obtain now s2 where n: "p_now s1 = (now, s2)" by (metis prod.exhaust)
        have "pipeline_ok (enqueueCloseOut key a w (cacheKey key) (deletedRecord env key ce now) s2)
            \<and> length (p_heap (enqueueCloseOut key a w (cacheKey key) (deletedRecord env key ce now) s2)) = length (p_heap s2)"
          using ok_now [OF s1(1) n] s1(2) n assms(2) deletedRecord_closeout [OF assms(3) False]
          by (intro ok_enqueueCloseOut) simp_all
        with D Some reinc False s1 n show ?thesis by (auto simp: u split: if_splits)
      qed
    next
      case same: False
      obtain now s1 where n: "p_now s = (now, s1)" by (metis prod.exhaust)
      have "pipeline_ok s1" "length (p_heap s1) = length (p_heap s)"
        using ok_now [OF assms(1) n] n by simp_all
      with D Some same n show ?thesis
        using assms(1) planModified_ok [of "Key_ephemeral key" env w e norm]
        by (auto split: if_splits prod.splits)
    qed
  qed
  then show "pipeline_ok s'" and "length (p_heap s') = length (p_heap s)"
    and "d = Some plan \<Longrightarrow> plan_ok (Key_ephemeral key) plan"
    by blast+
qed

lemma ok_tagSnapshot:
  assumes "tagSnapshot key a plan s = (plan', s')"
  shows "pipeline_ok s \<Longrightarrow> pipeline_ok s'" and "p_heap s' = p_heap s" and "p_jobs s' = p_jobs s"
    and "plan_ok (Key_ephemeral key) plan \<Longrightarrow> up_cacheMiss plan \<longrightarrow> up_eventType plan = ''Added'' \<Longrightarrow>
      plan_ok (Key_ephemeral key) plan'"
  using assms by (auto simp: tagSnapshot_def recordScopeUnwarmed_def plan_ok_def split: if_splits)

lemma dedupBlock_miss:
  assumes "dedupBlock env key a w k norm window h s = (Some plan, s')"
  shows "up_cacheMiss plan \<longrightarrow> up_eventType plan = ''Added''"
  using assms
  by (auto simp: dedupBlock_def planModified_def plan_added_def Let_def case_prod_beta
      split: option.splits if_splits sum.splits diffError.splits)

lemma ok_exportBlock:
  assumes "pipeline_ok s" and "a < length (p_heap s)" and "plan_ok (Key_ephemeral key) plan"
    and "no_Hash norm = sha256_hex (no_JSON norm)"
  shows "pipeline_ok (snd (exportBlock env key a w (cacheKey key) norm window h plan s))"
proof -
  define e where "e = confirmedEntry env (Key_ephemeral key) norm (up_modifiedRun plan)"
  obtain v s1 where u: "upd_cache a (Reserve (cacheKey key) e) s = (v, s1)" by (metis prod.exhaust)
  have s1: "pipeline_ok s1" "length (p_heap s1) = length (p_heap s)"
    using ok_upd_cache [OF assms(1) cache_ops_wf(1) u] u by (auto simp: upd_cache_eq)
  let ?s1 = "recordCacheEntries (key_sink key) a s1"
  have r: "pipeline_ok ?s1" "p_heap ?s1 = p_heap s1" using s1 by (simp_all add: recordCacheEntries_def)
  obtain t s2 where n: "p_now ?s1 = (t, s2)" by (metis prod.exhaust)
  let ?j = "\<lparr>job_Record = upsertRecord env key norm plan t,
     job_Commit = CommitUpsert a key (cacheKey key) v e (up_revertEntry plan) h t window\<rparr>"
  obtain err s3 where q: "enqueue w ?j s2 = (err, s3)" by (metis prod.exhaust)
  have "row_identity key (upsertRecord env key norm plan t)" by (simp add: row_identity_def upsertRecord_def)
  then have "job_ok ?j" using upsertRecord_ok [OF assms(3,4)] by (simp add: job_ok_def)
  then have "pipeline_ok s3"
    using ok_enqueue [OF ok_now [OF r(1) n] _ _ q] n r(2) s1(2) assms(2) by simp
  then show ?thesis
    by (simp add: exportBlock_def e_def [symmetric] u n q Let_def ok_revertVersion split: option.splits)
qed

lemma ok_processUpsert:
  assumes "pipeline_ok s" and "a < length (p_heap s)" and "key_valid key"
  shows "pipeline_ok (snd (processUpsert env key a w obj (cacheKey key) s))"
proof (cases "redactionFor env key")
  case (Some policy)
  show ?thesis
  proof (cases "normalizeObject (env_k8s env) obj policy")
    case (Inr norm)
    obtain window h where c: "coalesceFor (Key_ephemeral key) w norm = (window, h)" by (metis prod.exhaust)
    obtain d s1 where b: "dedupBlock env key a w (cacheKey key) norm window h s = (d, s1)" by (metis prod.exhaust)
    note D = ok_dedupBlock [OF assms b]
    show ?thesis
    proof (cases d)
      case None
      with Some Inr c b D(1) show ?thesis by (simp add: processUpsert_def)
    next
      case plan: (Some plan)
      obtain plan' s2 where t: "tagSnapshot key a plan s1 = (plan', s2)" by (metis prod.exhaust)
      have "plan_ok (Key_ephemeral key) plan'"
        using ok_tagSnapshot(4) [OF t D(3) [OF plan]] dedupBlock_miss b plan by blast
      then have "pipeline_ok (snd (exportBlock env key a w (cacheKey key) norm window h plan' s2))"
        using D ok_tagSnapshot [OF t] assms(2) normalizeObject_hash [OF Inr] by (intro ok_exportBlock) simp_all
      with Some Inr c b plan t show ?thesis by (simp add: processUpsert_def)
    qed
  qed (simp add: processUpsert_def Some assms(1))
qed (simp add: processUpsert_def assms(1))

text \<open>\<open>Process\<close> branch by branch.\<close>

lemma Process_lister: "env_lister env key = Inl e \<Longrightarrow> Process env key s = (Some (ListerError e), s)"
  by (simp add: Process_def)

lemma Process_inactive:
  "env_lister env key = Inr (obj, False) \<Longrightarrow> Process env key s = (None, emit (Dropped DropReasonScopeStopped) s)"
  by (simp add: Process_def)

lemma Process_expired:
  "env_lister env key = Inr (None, True) \<Longrightarrow> Key_ephemeral key \<Longrightarrow>
   registry_get (key_sink key) (emit (Dropped DropReasonEphemeralDelete) s) = (a, s1) \<Longrightarrow>
   Process env key s = (None, forgetEphemeral key a s1)"
  by (simp add: Process_def)

lemma Process_unavailable:
  "env_lister env key = Inr (obj, True) \<Longrightarrow> obj \<noteq> None \<or> \<not> Key_ephemeral key \<Longrightarrow>
   env_router env (key_sink key) = None \<Longrightarrow>
   \<exists>t. Process env key s = (Some errSinkUnavailable, s\<lparr>p_ticks := Suc (p_ticks s), p_unavailableSinkLog := t\<rparr>)"
  by (rule exI [of _ "snd (allow (ID_String (key_sink key)) (p_clock s (p_ticks s)) (p_unavailableSinkLog s))"])
    (cases obj; simp add: Process_def p_now_def case_prod_beta)

lemma Process_delete:
  "env_lister env key = Inr (None, True) \<Longrightarrow> \<not> Key_ephemeral key \<Longrightarrow>
   env_router env (key_sink key) = Some w \<Longrightarrow> registry_get (key_sink key) s = (a, s1) \<Longrightarrow>
   emitDelete env key a w [] (retryPendingCloseOuts key a w (cacheKey key) s1) = ((outcome, err), s2) \<Longrightarrow>
   Process env key s = (map_option EnqueueFailed err, s2)"
  by (simp add: Process_def)

lemma Process_upsert:
  "env_lister env key = Inr (Some ob, True) \<Longrightarrow> env_router env (key_sink key) = Some w \<Longrightarrow>
   registry_get (key_sink key) s = (a, s1) \<Longrightarrow>
   Process env key s = processUpsert env key a w ob (cacheKey key) (retryPendingCloseOuts key a w (cacheKey key) s1)"
  by (simp add: Process_def Let_def)

lemma Process_branches:
  obtains (lister) e where "env_lister env key = Inl e"
  | (inactive) obj where "env_lister env key = Inr (obj, False)"
  | (expired) "env_lister env key = Inr (None, True)" "Key_ephemeral key"
  | (unavailable) obj where "env_lister env key = Inr (obj, True)" "obj \<noteq> None \<or> \<not> Key_ephemeral key"
      "env_router env (key_sink key) = None"
  | (delete) w where "env_lister env key = Inr (None, True)" "\<not> Key_ephemeral key"
      "env_router env (key_sink key) = Some w"
  | (upsert) ob w where "env_lister env key = Inr (Some ob, True)" "env_router env (key_sink key) = Some w"
proof (cases "env_lister env key")
  case (Inr r)
  obtain obj active where r: "r = (obj, active)" by (cases r)
  show thesis
  proof (cases active)
    case True
    show thesis
    proof (cases "env_router env (key_sink key)")
      case None
      with Inr r True expired unavailable show thesis by (cases obj; cases "Key_ephemeral key") auto
    next
      case (Some w)
      with Inr r True expired delete upsert show thesis by (cases obj; cases "Key_ephemeral key") auto
    qed
  qed (use Inr r inactive in simp)
qed (use lister in simp)

lemma ok_Process:
  assumes "pipeline_ok s" and "key_valid key"
  shows "pipeline_ok (snd (Process env key s))"
proof -
  obtain a s1 where g: "registry_get (key_sink key) s = (a, s1)" by (metis prod.exhaust)
  have s1: "pipeline_ok s1" "a < length (p_heap s1)"
    using ok_registry_get [OF assms(1) g] registry_get_addr [OF assms(1) g] by simp_all
  have closed: "pipeline_ok (retryPendingCloseOuts key a w (cacheKey key) s1)"
      "a < length (p_heap (retryPendingCloseOuts key a w (cacheKey key) s1))" for w
    using ok_retryPendingCloseOuts [OF s1] s1(2) by simp_all
  show ?thesis
  proof (cases rule: Process_branches [of env key])
    case (lister e)
    with assms(1) show ?thesis by (simp add: Process_lister)
  next
    case (inactive obj)
    with assms(1) show ?thesis by (simp add: Process_inactive)
  next
    case expired
    obtain a0 s0 where g0: "registry_get (key_sink key) (emit (Dropped DropReasonEphemeralDelete) s) = (a0, s0)"
      by (metis prod.exhaust)
    have "pipeline_ok (forgetEphemeral key a0 s0)"
      using ok_registry_get [OF _ g0] registry_get_addr [OF _ g0] assms(1) by (simp add: ok_forgetEphemeral)
    with Process_expired [OF expired g0] show ?thesis by simp
  next
    case (unavailable obj)
    then obtain t where "Process env key s = (Some errSinkUnavailable, s\<lparr>p_ticks := Suc (p_ticks s), p_unavailableSinkLog := t\<rparr>)"
      using Process_unavailable by blast
    with assms(1) show ?thesis by (simp add: pipeline_ok_def)
  next
    case (delete w)
    obtain outcome err s2 where d: "emitDelete env key a w [] (retryPendingCloseOuts key a w (cacheKey key) s1) = ((outcome, err), s2)"
      by (metis prod.exhaust)
    then have "pipeline_ok s2" using ok_emitDelete [OF closed assms(2) delete(2)] by (metis snd_conv)
    with Process_delete [OF delete g d] show ?thesis by simp
  next
    case (upsert ob w)
    with ok_processUpsert [OF closed assms(2)] Process_upsert [OF upsert g] show ?thesis by simp
  qed
qed

section \<open>Reachable states\<close>

text \<open>
  Workers process items, sink workers settle jobs in any order, and the sink manager and the watch
  manager call the life-cycle hooks. The last three steps are what the warm-up coordinator does
  through the pipeline: seed a baseline, delete what is gone and close out a superseded object.
\<close>

inductive reachable :: "pipeline \<Rightarrow> bool" where
  init: "reachable (newPipeline clock)"
| process: "reachable s \<Longrightarrow> key_valid key \<Longrightarrow> reachable (processNext env key s)"
| settle: "reachable s \<Longrightarrow> p_jobs s = before @ j # after \<Longrightarrow>
    reachable (runCommit (job_Commit j) ok (s\<lparr>p_jobs := before @ after\<rparr>))"
| removeSink: "reachable s \<Longrightarrow> reachable (RemoveSink i s)"
| evictScope: "reachable s \<Longrightarrow> reachable (EvictScope i scope s)"
| markScopeWarm: "reachable s \<Longrightarrow> reachable (MarkScopeWarm i scope s)"
| seed: "reachable s \<Longrightarrow> registry_get i s = (a, s1) \<Longrightarrow>
    reachable (snd (upd_cache a (\<lambda>c. ((), StoreIfAbsent k e c)) s1))"
| gcDelete: "reachable s \<Longrightarrow> registry_get (key_sink key) s = (a, s1) \<Longrightarrow> key_valid key \<Longrightarrow>
    \<not> Key_ephemeral key \<Longrightarrow> reachable (snd (emitDelete env key a w uid s1))"
| closeOut: "reachable s \<Longrightarrow> registry_get (key_sink key) s = (a, s1) \<Longrightarrow> closeout_ok (cacheKey key) r \<Longrightarrow>
    reachable (enqueueCloseOut key a w (cacheKey key) r s1)"

lemma ok_RemoveSink: "pipeline_ok s \<Longrightarrow> pipeline_ok (RemoveSink i s)"
  by (auto simp: RemoveSink_def pipeline_ok_def split: if_splits)

lemma ok_EvictScope:
  assumes "pipeline_ok s" shows "pipeline_ok (EvictScope i scope s)"
proof (cases "registry_lookup i s")
  case (Some a)
  then have a: "a < length (p_heap s)" using assms by (simp add: registry_lookup_def pipeline_ok_def)
  let ?s1 = "upd_st a (\<lambda>st. st\<lparr>st_warm := removeAll scope (st_warm st)\<rparr>) s"
  let ?s2 = "snd (upd_cache a (DeletePrefix (scopeKeyPrefix scope)) (emit (DeleteSafeMode (ID_String i) scope) ?s1))"
  have "pipeline_ok ?s1" using ok_st_of [OF assms a] by (intro ok_upd_st [OF assms]) (simp add: st_ok_def)
  then have s2: "pipeline_ok ?s2" by (simp add: ok_upd_cache_snd cache_ops_wf)
  then have "pipeline_ok (upd_st a (\<lambda>st. st\<lparr>st_coalesce := snd (deletePrefix (scopeKeyPrefix scope) (st_coalesce st))\<rparr>) ?s2)"
    using ok_st_of [OF s2] by (intro ok_upd_st [OF s2]) (simp add: st_ok_def)
  then show ?thesis by (simp add: EvictScope_def Some Let_def case_prod_beta recordCacheEntries_def)
qed (simp add: EvictScope_def assms)

lemma ok_MarkScopeWarm:
  assumes "pipeline_ok s" shows "pipeline_ok (MarkScopeWarm i scope s)"
proof -
  obtain a s1 where g: "registry_get i s = (a, s1)" by (metis prod.exhaust)
  have s1: "pipeline_ok s1" "a < length (p_heap s1)"
    using ok_registry_get [OF assms g] registry_get_addr [OF assms g] by simp_all
  have "pipeline_ok (upd_st a (\<lambda>st. st\<lparr>st_warm := List.insert scope (st_warm st)\<rparr>) s1)"
    using ok_st_of [OF s1] by (intro ok_upd_st [OF s1(1)]) (simp add: st_ok_def)
  then show ?thesis by (simp add: MarkScopeWarm_def g)
qed

lemma reachable_ok: "reachable s \<Longrightarrow> pipeline_ok s"
proof (induction rule: reachable.induct)
  case (init clock)
  then show ?case by (simp add: newPipeline_def pipeline_ok_def)
next
  case (process s key env)
  then show ?case using ok_Process [of s key env]
    by (cases "Process env key s") (auto simp: processNext_def split: option.split)
next
  case (settle s before j after ok)
  then have "pipeline_ok (s\<lparr>p_jobs := before @ after\<rparr>)" and "commit_ok (job_Commit j) (job_Record j)"
    by (auto simp: pipeline_ok_def job_ok_def)
  then show ?case by (rule ok_runCommit)
next
  case (seed s i a s1 k e)
  then show ?case by (simp add: ok_upd_cache_snd cache_ops_wf ok_registry_get)
next
  case (gcDelete s key a s1 env w uid)
  then show ?case using ok_emitDelete [OF ok_registry_get registry_get_addr] by blast
next
  case (closeOut s key a s1 r w)
  then show ?case using ok_enqueueCloseOut [OF ok_registry_get registry_get_addr] by blast
qed (simp_all add: ok_RemoveSink ok_EvictScope ok_MarkScopeWarm)

section \<open>Which sink's state an operation touches\<close>

lemma registry_get_others:
  assumes "registry_get i s = (a, s1)" and "b < length (p_heap s)"
  shows "st_of b s1 = st_of b s"
  using assms by (auto simp: registry_get_def Let_def st_of_def nth_append split: option.splits)

lemma registry_get_heap: "registry_get i s = (a, s1) \<Longrightarrow> length (p_heap s) \<le> length (p_heap s1)"
  by (auto simp: registry_get_def Let_def split: option.splits)

lemma registry_get_fields:
  assumes "registry_get i s = (a, s1)"
  shows "p_jobs s1 = p_jobs s" and "p_requests s1 = p_requests s" and "gm_get (p_states s1) i = Some a"
    and "j \<noteq> i \<Longrightarrow> gm_get (p_states s1) j = gm_get (p_states s) j"
  using assms by (auto simp: registry_get_def Let_def split: option.splits)

lemma registry_get_fresh:
  assumes "pipeline_ok s" and "registry_get i s = (a, s1)" and "gm_get (p_states s) j = Some b" and "j \<noteq> i"
  shows "b \<noteq> a" and "b < length (p_heap s)"
proof -
  have "pipeline_ok s1" using ok_registry_get assms(1,2) by blast
  moreover have "gm_get (p_states s1) j = Some b" "gm_get (p_states s1) i = Some a"
    using registry_get_fields [OF assms(2)] assms(3,4) by auto
  ultimately show "b \<noteq> a" using assms(4) unfolding pipeline_ok_def by blast
  show "b < length (p_heap s)" using assms(1,3) by (simp add: pipeline_ok_def)
qed

lemma st_of_upd_cache_other: "b \<noteq> a \<Longrightarrow> upd_cache a f s = (r, s') \<Longrightarrow> st_of b s' = st_of b s"
  by (auto simp: upd_cache_eq)

lemma st_of_now: "p_now s = (t, s') \<Longrightarrow> st_of b s' = st_of b s"
  by (simp add: st_of_def)

lemma st_of_enqueue: "enqueue w j s = (err, s') \<Longrightarrow> st_of b s' = st_of b s"
  using enqueue_heap by (simp add: st_of_def)

lemma st_of_enqueueCloseOut: "b \<noteq> a \<Longrightarrow> st_of b (enqueueCloseOut key a w k r s) = st_of b s"
  by (auto simp: enqueueCloseOut_def Let_def case_prod_beta split: option.split)
    (metis prod.collapse st_of_enqueue)+

lemma st_of_fold_enqueueCloseOut: "b \<noteq> a \<Longrightarrow> st_of b (fold (enqueueCloseOut key a w k) rs s) = st_of b s"
  by (induction rs arbitrary: s) (auto simp: st_of_enqueueCloseOut)

lemma st_of_retryPendingCloseOuts: "b \<noteq> a \<Longrightarrow> st_of b (retryPendingCloseOuts key a w k s) = st_of b s"
  by (simp add: retryPendingCloseOuts_def Let_def case_prod_beta st_of_fold_enqueueCloseOut)

lemma st_of_revertVersion: "b \<noteq> a \<Longrightarrow> st_of b (revertVersion a k v re s) = st_of b s"
  by (simp add: revertVersion_def upd_cache_eq split: option.split)

lemma st_of_runCommit: "b \<noteq> commit_addr c \<Longrightarrow> st_of b (runCommit c ok s) = st_of b s"
  by (cases c) (simp_all add: upd_cache_eq recordCacheEntries_def st_of_revertVersion)

lemma emitDelete_unfold:
  assumes "upd_cache a (ReserveDelete (cacheKey key) uid) s = ((entry, version, outcome), s1)"
    and "p_now s1 = (now, s2)"
    and "enqueue w \<lparr>job_Record = deletedRecord env key entry now, job_Commit = CommitDelete a key (cacheKey key) version\<rparr> s2 = (err, s3)"
  shows "emitDelete env key a w uid s =
    (if outcome \<noteq> deleteClaimed then ((outcome, None), s1)
     else case err of Some e \<Rightarrow> ((deleteClaimed, Some e), snd (upd_cache a (\<lambda>c. ((), UnclaimDelete (cacheKey key) version c)) s3))
          | None \<Rightarrow> ((deleteClaimed, None), s3))"
  using assms by (simp add: emitDelete_def Let_def)

lemma st_of_emitDelete:
  assumes "b \<noteq> a" shows "st_of b (snd (emitDelete env key a w uid s)) = st_of b s"
proof -
  obtain entry version outcome s1 where u: "upd_cache a (ReserveDelete (cacheKey key) uid) s = ((entry, version, outcome), s1)"
    by (metis prod.exhaust)
  obtain now s2 where n: "p_now s1 = (now, s2)" by (metis prod.exhaust)
  obtain err s3 where q: "enqueue w \<lparr>job_Record = deletedRecord env key entry now,
      job_Commit = CommitDelete a key (cacheKey key) version\<rparr> s2 = (err, s3)" by (metis prod.exhaust)
  have "st_of b s1 = st_of b s" "st_of b s3 = st_of b s"
    using st_of_upd_cache_other [OF assms u] st_of_now [OF n] st_of_enqueue [OF q] by simp_all
  then show ?thesis using assms by (simp add: emitDelete_unfold [OF u n q] upd_cache_eq split: option.split)
qed

lemma st_of_forgetEphemeral: "b \<noteq> a \<Longrightarrow> st_of b (forgetEphemeral key a s) = st_of b s"
  by (simp add: forgetEphemeral_def Let_def upd_cache_eq case_prod_beta recordCacheEntries_def)

text \<open>The outcomes of the dedup block.\<close>

lemma dedupBlock_branches:
  assumes "dedupBlock env key a w k norm window h s = (d, s')"
  obtains (miss) "Load k (st_cache (st_of a s)) = None" "d = Some (plan_added\<lparr>up_cacheMiss := True\<rparr>)" "s' = s"
  | (expired) e where "Load k (st_cache (st_of a s)) = Some e" "ce_UID e \<noteq> []" "ce_UID e \<noteq> no_UID norm"
      "Key_ephemeral key" "d = Some plan_added" "s' = s"
  | (reborn) e ce v s1 now s2 where "Load k (st_cache (st_of a s)) = Some e" "ce_UID e \<noteq> []" "ce_UID e \<noteq> no_UID norm"
      "\<not> Key_ephemeral key" "upd_cache a (ReserveDelete k (ce_UID e)) s = ((ce, v, deleteClaimed), s1)"
      "p_now s1 = (now, s2)" "d = Some plan_added"
      "s' = enqueueCloseOut key a w k (deletedRecord env key ce now) s2"
  | (reborn_refused) e ce v outcome where "Load k (st_cache (st_of a s)) = Some e" "ce_UID e \<noteq> []" "ce_UID e \<noteq> no_UID norm"
      "\<not> Key_ephemeral key" "upd_cache a (ReserveDelete k (ce_UID e)) s = ((ce, v, outcome), s')"
      "outcome \<noteq> deleteClaimed" "d = Some plan_added"
  | (duplicate) e where "Load k (st_cache (st_of a s)) = Some e" "ce_UID e = [] \<or> ce_UID e = no_UID norm"
      "ce_Hash e = no_Hash norm" "d = None" "s' = emit DedupSkip s"
  | (coalesced) e now s1 flush where "Load k (st_cache (st_of a s)) = Some e" "ce_UID e = [] \<or> ce_UID e = no_UID norm"
      "ce_Hash e \<noteq> no_Hash norm" "p_now s = (now, s1)" "decide k h window now (st_coalesce (st_of a s)) = (flush, True)"
      "d = None" "s' = request (AddAfter key flush) (emit EventCoalesceSkip s1)"
  | (modified) e now s1 flush plan ms where "Load k (st_cache (st_of a s)) = Some e" "ce_UID e = [] \<or> ce_UID e = no_UID norm"
      "ce_Hash e \<noteq> no_Hash norm" "p_now s = (now, s1)" "decide k h window now (st_coalesce (st_of a s)) = (flush, False)"
      "planModified env (Key_ephemeral key) w e norm = (plan, ms)" "d = Some plan" "s' = fold emit ms s1"
proof (cases "Load k (st_cache (st_of a s))")
  case None
  with assms have "d = Some (plan_added\<lparr>up_cacheMiss := True\<rparr>)" "s' = s" by (simp_all add: dedupBlock_def)
  with None miss show thesis by blast
next
  case (Some e)
  show thesis
  proof (cases "ce_UID e \<noteq> [] \<and> ce_UID e \<noteq> no_UID norm")
    case uid: True
    obtain ce v outcome s1 where u: "upd_cache a (ReserveDelete k (ce_UID e)) s = ((ce, v, outcome), s1)"
      by (metis prod.exhaust)
    obtain now s2 where n: "p_now s1 = (now, s2)" by (metis prod.exhaust)
    show thesis
    proof (cases "Key_ephemeral key")
      case True
      with assms Some uid have "d = Some plan_added" "s' = s" by (simp_all add: dedupBlock_def)
      with True Some uid expired show thesis by blast
    next
      case False
      show thesis
      proof (cases "outcome = deleteClaimed")
        case True
        with assms Some uid False u n have "d = Some plan_added"
            "s' = enqueueCloseOut key a w k (deletedRecord env key ce now) s2"
          by (simp_all add: dedupBlock_def)
        with True Some uid False u n reborn show thesis by blast
      next
        case refused: False
        with assms Some uid False u have "d = Some plan_added" "s' = s1" by (simp_all add: dedupBlock_def)
        with refused Some uid False u reborn_refused show thesis by blast
      qed
    qed
  next
    case uid: False
    show thesis
    proof (cases "ce_Hash e = no_Hash norm")
      case True
      with assms Some uid have "d = None" "s' = emit DedupSkip s" by (auto simp: dedupBlock_def)
      with True Some uid duplicate show thesis by blast
    next
      case hash: False
      obtain now s1 where n: "p_now s = (now, s1)" by (metis prod.exhaust)
      obtain flush skip where f: "decide k h window now (st_coalesce (st_of a s)) = (flush, skip)" by (metis prod.exhaust)
      obtain plan ms where p: "planModified env (Key_ephemeral key) w e norm = (plan, ms)" by (metis prod.exhaust)
      have f': "decide k h window now (st_coalesce (st_of a s1)) = (flush, skip)" using f st_of_now [OF n] by simp
      have D: "(d, s') = (if skip then (None, request (AddAfter key flush) (emit EventCoalesceSkip s1)) else (Some plan, fold emit ms s1))"
        using assms Some uid hash n f' p by (auto simp: dedupBlock_def)
      show thesis
      proof (cases skip)
        case True
        with D have "d = None" "s' = request (AddAfter key flush) (emit EventCoalesceSkip s1)" by simp_all
        then show thesis using True Some uid hash n f by (intro coalesced) auto
      next
        case False
        with D have "d = Some plan" "s' = fold emit ms s1" by simp_all
        then show thesis using False Some uid hash n f p by (intro modified) auto
      qed
    qed
  qed
qed

lemma st_of_dedupBlock:
  assumes "b \<noteq> a" and "dedupBlock env key a w k norm window h s = (d, s')"
  shows "st_of b s' = st_of b s"
  using assms(2)
proof (cases rule: dedupBlock_branches)
  case (reborn e ce v s1 now s2)
  then show ?thesis
    using st_of_upd_cache_other [OF assms(1) reborn(5)] st_of_now [OF reborn(6)] by (simp add: st_of_enqueueCloseOut assms(1))
next
  case (reborn_refused e ce v outcome)
  then show ?thesis using st_of_upd_cache_other [OF assms(1) reborn_refused(5)] by simp
next
  case (coalesced e now s1 flush)
  then show ?thesis using st_of_now [OF coalesced(4)] by simp
next
  case (modified e now s1 flush plan ms)
  then show ?thesis using st_of_now [OF modified(4)] by simp
qed simp_all

lemma exportBlock_unfold:
  assumes "upd_cache a (Reserve k (confirmedEntry env (Key_ephemeral key) norm (up_modifiedRun plan))) s = (v, s1)"
    and "p_now (recordCacheEntries (key_sink key) a s1) = (t, s2)"
    and "enqueue w \<lparr>job_Record = upsertRecord env key norm plan t, job_Commit = CommitUpsert a key k v
          (confirmedEntry env (Key_ephemeral key) norm (up_modifiedRun plan)) (up_revertEntry plan) h t window\<rparr> s2 = (err, s3)"
  shows "exportBlock env key a w k norm window h plan s =
    (case err of Some e \<Rightarrow> (Some (EnqueueFailed e), revertVersion a k v (up_revertEntry plan) s3) | None \<Rightarrow> (None, s3))"
  using assms by (simp add: exportBlock_def Let_def)

lemma st_of_exportBlock:
  assumes "b \<noteq> a" shows "st_of b (snd (exportBlock env key a w k norm window h plan s)) = st_of b s"
proof -
  define e where "e = confirmedEntry env (Key_ephemeral key) norm (up_modifiedRun plan)"
  obtain v s1 where u: "upd_cache a (Reserve k e) s = (v, s1)" by (metis prod.exhaust)
  obtain t s2 where n: "p_now (recordCacheEntries (key_sink key) a s1) = (t, s2)" by (metis prod.exhaust)
  obtain err s3 where q: "enqueue w \<lparr>job_Record = upsertRecord env key norm plan t,
     job_Commit = CommitUpsert a key k v e (up_revertEntry plan) h t window\<rparr> s2 = (err, s3)" by (metis prod.exhaust)
  have "st_of b s3 = st_of b s"
    using st_of_upd_cache_other [OF assms u] st_of_now [OF n] st_of_enqueue [OF q] by (simp add: recordCacheEntries_def)
  then show ?thesis
    using exportBlock_unfold [OF u [unfolded e_def] n q [unfolded e_def]]
    by (simp add: st_of_revertVersion assms split: option.split)
qed

lemma st_of_processUpsert:
  assumes "b \<noteq> a" shows "st_of b (snd (processUpsert env key a w ob k s)) = st_of b s"
proof -
  have tag: "st_of b (snd (tagSnapshot key a plan s)) = st_of b s" for plan s
    by (simp add: tagSnapshot_def recordScopeUnwarmed_def)
  have ded: "st_of b (snd (dedupBlock env key a w k norm window h s)) = st_of b s" for norm window h
    using st_of_dedupBlock [OF assms] by (metis prod.collapse)
  show ?thesis
    by (simp add: processUpsert_def Let_def case_prod_beta st_of_exportBlock [OF assms] tag ded
        split: option.split sum.split)
qed

lemma Process_other_sink:
  assumes "pipeline_ok s" and "i \<noteq> key_sink key" and "gm_get (p_states s) i = Some b"
  shows "st_of b (snd (Process env key s)) = st_of b s"
proof -
  obtain a s1 where g: "registry_get (key_sink key) s = (a, s1)" by (metis prod.exhaust)
  note fresh = registry_get_fresh [OF assms(1) g assms(3,2)]
  note s1 = registry_get_others [OF g fresh(2)]
  show ?thesis
  proof (cases rule: Process_branches [of env key])
    case (lister e)
    then show ?thesis by (simp add: Process_lister)
  next
    case (inactive obj)
    then show ?thesis by (simp add: Process_inactive)
  next
    case expired
    let ?s = "emit (Dropped DropReasonEphemeralDelete) s"
    obtain a0 s0 where g0: "registry_get (key_sink key) ?s = (a0, s0)" by (metis prod.exhaust)
    have ok: "pipeline_ok ?s" using assms(1) by simp
    have "b \<noteq> a0" and "b < length (p_heap ?s)" using registry_get_fresh [OF ok g0, of i b] assms(2,3) by simp_all
    with registry_get_others [OF g0, of b] Process_expired [OF expired g0] show ?thesis
      by (simp add: st_of_forgetEphemeral)
  next
    case (unavailable obj)
    then obtain t where "Process env key s = (Some errSinkUnavailable, s\<lparr>p_ticks := Suc (p_ticks s), p_unavailableSinkLog := t\<rparr>)"
      using Process_unavailable by blast
    then show ?thesis by (simp add: st_of_def)
  next
    case (delete w)
    obtain outcome err s2 where d: "emitDelete env key a w [] (retryPendingCloseOuts key a w (cacheKey key) s1) = ((outcome, err), s2)"
      by (metis prod.exhaust)
    have "st_of b s2 = st_of b s1"
      using st_of_emitDelete [OF fresh(1)] st_of_retryPendingCloseOuts [OF fresh(1)] d by (metis snd_conv)
    with Process_delete [OF delete g d] s1 show ?thesis by simp
  next
    case (upsert ob w)
    with st_of_processUpsert [OF fresh(1)] st_of_retryPendingCloseOuts [OF fresh(1)] Process_upsert [OF upsert g] s1
    show ?thesis by simp
  qed
qed

section \<open>What one work item leaves behind\<close>

lemma gm_del_absent: "gm_get m k = None \<Longrightarrow> gm_del k m = m"
  unfolding gm_get_def gm_del_def map_of_eq_None_iff by (intro filter_True) (auto simp: image_iff)

lemma upd_st_same: "f (st_of a s) = st_of a s \<Longrightarrow> upd_st a f s = s"
  by (simp add: upd_st_def st_of_def)

lemma retryPendingCloseOuts_none:
  "gm_get (st_closeOuts (st_of a s)) k = None \<Longrightarrow> retryPendingCloseOuts key a w k s = s"
  by (simp add: retryPendingCloseOuts_def closeOut_TakeAll_def Let_def gm_del_absent upd_st_same)

lemma registry_get_present: "gm_get (p_states s) i = Some a \<Longrightarrow> registry_get i s = (a, s)"
  by (simp add: registry_get_def)

lemma enqueue_accepted:
  "w_Enqueue w (p_enqueues s) (job_Record j) = None \<Longrightarrow>
   enqueue w j s = (None, s\<lparr>p_enqueues := Suc (p_enqueues s), p_jobs := p_jobs s @ [j]\<rparr>)"
  by (simp add: enqueue_def)

lemma ReserveDelete_succeeds:
  assumes "Load k c = Some e" and "\<not> ce_PendingDelete e" and "uid = [] \<or> ce_UID e = uid"
  shows "ReserveDelete k uid c = ((e, ce_Version e + 1, deleteClaimed),
    gm_set k (e\<lparr>ce_Version := ce_Version e + 1, ce_PendingDelete := True\<rparr>) c)"
proof -
  have "\<not> (uid \<noteq> [] \<and> ce_UID e \<noteq> uid)" using assms(3) by blast
  with assms(1,2) show ?thesis unfolding ReserveDelete_def Load_def Let_def by (simp only: option.case if_False) simp
qed

lemma clock_fields [simp]:
  "p_clock (upd_st a f s) = p_clock s" "p_ticks (upd_st a f s) = p_ticks s"
  "p_clock (emit m s) = p_clock s" "p_ticks (emit m s) = p_ticks s"
  by (simp_all add: upd_st_def emit_def)

lemma emitDelete_pending:
  assumes "Load (cacheKey key) (st_cache (st_of a s)) = Some e" and "ce_PendingDelete e"
  shows "emitDelete env key a w uid s = ((deleteClaimInFlight, None), s)"
proof -
  have r: "ReserveDelete (cacheKey key) uid (st_cache (st_of a s))
      = ((CacheEntry_zero, 0, deleteClaimInFlight), st_cache (st_of a s))"
    using assms by (simp add: ReserveDelete_def Load_def)
  then have "upd_cache a (ReserveDelete (cacheKey key) uid) s = ((CacheEntry_zero, 0, deleteClaimInFlight), s)"
    by (simp add: upd_cache_eq upd_st_same)
  then show ?thesis by (simp add: emitDelete_def)
qed

lemma emitDelete_claimed:
  assumes "a < length (p_heap s)"
    and "Load (cacheKey key) (st_cache (st_of a s)) = Some e" and "\<not> ce_PendingDelete e"
    and "uid = [] \<or> ce_UID e = uid"
    and "\<forall>n r. w_Enqueue w n r = None"
  shows "\<exists>s1. emitDelete env key a w uid s = ((deleteClaimed, None), s1)
    \<and> p_jobs s1 = p_jobs s @ [\<lparr>job_Record = deletedRecord env key e (p_clock s (p_ticks s)),
         job_Commit = CommitDelete a key (cacheKey key) (ce_Version e + 1)\<rparr>]
    \<and> p_states s1 = p_states s
    \<and> st_of a s1 = (st_of a s)\<lparr>st_cache := gm_set (cacheKey key)
         (e\<lparr>ce_Version := ce_Version e + 1, ce_PendingDelete := True\<rparr>) (st_cache (st_of a s))\<rparr>"
proof -
  let ?c = "gm_set (cacheKey key) (e\<lparr>ce_Version := ce_Version e + 1, ce_PendingDelete := True\<rparr>) (st_cache (st_of a s))"
  let ?s1 = "upd_st a (\<lambda>st. st\<lparr>st_cache := ?c\<rparr>) s"
  have "ReserveDelete (cacheKey key) uid (st_cache (st_of a s)) = ((e, ce_Version e + 1, deleteClaimed), ?c)"
    using assms(2-4) by (intro ReserveDelete_succeeds)
  then have u: "upd_cache a (ReserveDelete (cacheKey key) uid) s = ((e, ce_Version e + 1, deleteClaimed), ?s1)"
    by (simp add: upd_cache_eq)
  have n: "p_now ?s1 = (p_clock s (p_ticks s), ?s1\<lparr>p_ticks := Suc (p_ticks s)\<rparr>)"
    by (simp only: p_now_def clock_fields)
  let ?j = "\<lparr>job_Record = deletedRecord env key e (p_clock s (p_ticks s)),
         job_Commit = CommitDelete a key (cacheKey key) (ce_Version e + 1)\<rparr>"
  let ?s2 = "?s1\<lparr>p_ticks := Suc (p_ticks s)\<rparr>"
  have "enqueue w ?j ?s2 = (None, ?s2\<lparr>p_enqueues := Suc (p_enqueues ?s2), p_jobs := p_jobs ?s2 @ [?j]\<rparr>)"
    using assms(5) by (intro enqueue_accepted) simp
  moreover have "st_of a (?s2\<lparr>p_enqueues := m, p_jobs := js\<rparr>) = st_of a ?s1" for m js by (simp add: st_of_def)
  ultimately show ?thesis
    using emitDelete_unfold [OF u n] assms(1) by simp
qed

section \<open>Properties\<close>

text \<open>
  C1: the shape of every row. In every state the pipeline can reach, whatever the interleaving of
  work items, settlements in any order, evictions, sink removals and warm-up, each row handed to a
  writer has the shape its event type promises: a Deleted row carries no payload; Added and
  Snapshot rows carry the full state and no diff; a Modified row carries either the full state or
  only a diff; a Checkpoint carries the full state; the hash of a data-bearing row is the SHA-256
  of its data column; and a Kubernetes Event is only ever Added or Modified in full: never Deleted,
  Snapshot, Checkpoint or a diff.
\<close>

theorem reachable_rows_ok:
  assumes "reachable s" and "j \<in> set (p_jobs s)"
  shows "row_ok (job_Record j)"
  using reachable_ok [OF assms(1)] assms(2) by (simp add: pipeline_ok_def job_ok_def)

definition sample_key :: Key where
  "sample_key = \<lparr>key_sink = SinkID ''S3Sink'' ''a'', key_group = [], key_kind = ''Pod'', key_namespace = ''ns'', key_name = ''x''\<rparr>"

definition sample_writer :: writer where
  "sample_writer = \<lparr>w_Enqueue = (\<lambda>n r. None), w_CheckpointEvery = Some 3, w_CoalesceWindow = None\<rparr>"

definition sample_env :: "object option \<Rightarrow> pipeline_env" where
  "sample_env ob = \<lparr>env_clusterID = ''c'', env_k8s = sample_accessors,
     env_zstd = \<lparr>zstdEncoder = None, zstdDecoder = None\<rparr>,
     env_diff = \<lparr>CompareJSON = (\<lambda>x y. Some []), MarshalPatch = (\<lambda>p. Some ''[]'')\<rparr>,
     env_lister = (\<lambda>k. Inr (ob, True)), env_router = (\<lambda>i. Some sample_writer), env_redactions = None\<rparr>"

definition sample_entry :: CacheEntry where
  "sample_entry = CacheEntry_zero\<lparr>ce_Hash := ''h'', ce_UID := ''u'', ce_APIVersion := ''v1''\<rparr>"

definition sample_state :: pipeline where
  "sample_state = snd (upd_cache 0 (\<lambda>c. ((), StoreIfAbsent (cacheKey sample_key) sample_entry c))
     (snd (registry_get (SinkID ''S3Sink'' ''a'') (newPipeline (\<lambda>n. int n)))))"

lemma sample_state_eq:
  "p_heap sample_state = [sinkState_new\<lparr>st_cache := [(cacheKey sample_key, sample_entry\<lparr>ce_Version := 1\<rparr>)]\<rparr>]"
  "p_states sample_state = [(SinkID ''S3Sink'' ''a'', 0)]" "p_jobs sample_state = []"
  by (simp_all add: sample_state_def registry_get_def newPipeline_def upd_cache_eq st_of_def upd_st_def
      StoreIfAbsent_def sinkState_new_def gm_set_def)

lemma sample_state_reachable: "reachable sample_state"
proof -
  have "registry_get (SinkID ''S3Sink'' ''a'') (newPipeline (\<lambda>n. int n))
      = (0, snd (registry_get (SinkID ''S3Sink'' ''a'') (newPipeline (\<lambda>n. int n))))"
    by (simp add: registry_get_def newPipeline_def)
  from reachable.seed [OF reachable.init this] show ?thesis unfolding sample_state_def by simp
qed

lemma sample_key_valid: "key_valid sample_key" "\<not> Key_ephemeral sample_key"
  by (simp_all add: sample_key_def key_valid_def Key_ephemeral_def ephemeralKind_def eventKind_def)

lemma sample_delete:
  "\<exists>s1. Process (sample_env None) sample_key sample_state = (None, s1)
     \<and> p_jobs s1 = [\<lparr>job_Record = deletedRecord (sample_env None) sample_key (sample_entry\<lparr>ce_Version := 1\<rparr>)
           (p_clock sample_state (p_ticks sample_state)),
         job_Commit = CommitDelete 0 sample_key (cacheKey sample_key) 2\<rparr>]"
proof -
  have g: "registry_get (key_sink sample_key) sample_state = (0, sample_state)"
    by (intro registry_get_present) (simp add: sample_state_eq sample_key_def gm_get_def)
  have st: "st_of 0 sample_state = sinkState_new\<lparr>st_cache := [(cacheKey sample_key, sample_entry\<lparr>ce_Version := 1\<rparr>)]\<rparr>"
    by (simp add: st_of_def sample_state_eq)
  have r: "retryPendingCloseOuts sample_key 0 sample_writer (cacheKey sample_key) sample_state = sample_state"
    by (intro retryPendingCloseOuts_none) (simp add: st sinkState_new_def)
  have l: "Load (cacheKey sample_key) (st_cache (st_of 0 sample_state)) = Some (sample_entry\<lparr>ce_Version := 1\<rparr>)"
    by (simp add: st Load_def gm_get_def)
  obtain s1 where s1: "emitDelete (sample_env None) sample_key 0 sample_writer [] sample_state = ((deleteClaimed, None), s1)"
      "p_jobs s1 = p_jobs sample_state @ [\<lparr>job_Record = deletedRecord (sample_env None) sample_key (sample_entry\<lparr>ce_Version := 1\<rparr>)
           (p_clock sample_state (p_ticks sample_state)),
         job_Commit = CommitDelete 0 sample_key (cacheKey sample_key) (ce_Version (sample_entry\<lparr>ce_Version := 1\<rparr>) + 1)\<rparr>]"
    using emitDelete_claimed [OF _ l, of "[]" sample_writer "sample_env None"]
    by (auto simp: sample_state_eq sample_entry_def CacheEntry_zero_def sample_writer_def)
  have e: "env_lister (sample_env None) sample_key = Inr (None, True)"
      "env_router (sample_env None) (key_sink sample_key) = Some sample_writer"
    by (simp_all add: sample_env_def)
  show ?thesis
    using Process_delete [OF e(1) sample_key_valid(2) e(2) g, unfolded r, OF s1(1)] s1(2)
    by (simp add: sample_state_eq)
qed

theorem reachable_rows_ok_witness:
  "\<exists>s j. reachable s \<and> j \<in> set (p_jobs s) \<and> row_ok (job_Record j) \<and> rec_EventType (job_Record j) = ''Deleted''"
proof -
  obtain s1 where s1: "Process (sample_env None) sample_key sample_state = (None, s1)"
      "p_jobs s1 = [\<lparr>job_Record = deletedRecord (sample_env None) sample_key (sample_entry\<lparr>ce_Version := 1\<rparr>)
           (p_clock sample_state (p_ticks sample_state)),
         job_Commit = CommitDelete 0 sample_key (cacheKey sample_key) 2\<rparr>]"
    using sample_delete by blast
  have r: "reachable (processNext (sample_env None) sample_key sample_state)"
    using sample_state_reachable sample_key_valid(1) by (rule reachable.process)
  have j: "hd (p_jobs s1) \<in> set (p_jobs (processNext (sample_env None) sample_key sample_state))"
    by (simp add: processNext_def s1)
  have "rec_EventType (job_Record (hd (p_jobs s1))) = ''Deleted''" by (simp add: s1 deletedRecord_def)
  with r j reachable_rows_ok [OF r j] show ?thesis by blast
qed

text \<open>
  C4: a deletion is recorded once. An object that left the watch cache inside an active scope,
  known to the sink and not yet claimed, gets exactly one Deleted row, with the UID and API version
  last recorded; and processing the key again before that write settles enqueues nothing.
\<close>

theorem delete_recorded_once:
  assumes "reachable s" and "env_lister env key = Inr (None, True)" and "\<not> Key_ephemeral key"
    and "env_router env (key_sink key) = Some w" and "\<forall>n r. w_Enqueue w n r = None"
    and "gm_get (p_states s) (key_sink key) = Some a"
    and "gm_get (st_closeOuts (st_of a s)) (cacheKey key) = None"
    and "Load (cacheKey key) (st_cache (st_of a s)) = Some e" and "\<not> ce_PendingDelete e"
  shows "\<exists>s1. Process env key s = (None, s1)
    \<and> p_jobs s1 = p_jobs s @ [\<lparr>job_Record = deletedRecord env key e (p_clock s (p_ticks s)),
         job_Commit = CommitDelete a key (cacheKey key) (ce_Version e + 1)\<rparr>]
    \<and> Process env key s1 = (None, s1)"
proof -
  have a: "a < length (p_heap s)" using reachable_ok [OF assms(1)] assms(6) by (simp add: pipeline_ok_def)
  note g = registry_get_present [OF assms(6)] and r = retryPendingCloseOuts_none [OF assms(7)]
  obtain s1 where s1: "emitDelete env key a w [] s = ((deleteClaimed, None), s1)"
      "p_jobs s1 = p_jobs s @ [\<lparr>job_Record = deletedRecord env key e (p_clock s (p_ticks s)),
         job_Commit = CommitDelete a key (cacheKey key) (ce_Version e + 1)\<rparr>]"
      "p_states s1 = p_states s"
      "st_of a s1 = (st_of a s)\<lparr>st_cache := gm_set (cacheKey key)
         (e\<lparr>ce_Version := ce_Version e + 1, ce_PendingDelete := True\<rparr>) (st_cache (st_of a s))\<rparr>"
    using emitDelete_claimed [OF a assms(8,9) _ assms(5), of "[]" env] by auto
  have first: "Process env key s = (None, s1)"
    using Process_delete [OF assms(2-4) g, unfolded r, OF s1(1)] by simp
  have g1: "registry_get (key_sink key) s1 = (a, s1)" using assms(6) s1(3) by (intro registry_get_present) simp
  have r1: "retryPendingCloseOuts key a w (cacheKey key) s1 = s1"
    using assms(7) by (intro retryPendingCloseOuts_none) (simp add: s1(4))
  have "emitDelete env key a w [] s1 = ((deleteClaimInFlight, None), s1)"
    by (rule emitDelete_pending [where e = "e\<lparr>ce_Version := ce_Version e + 1, ce_PendingDelete := True\<rparr>"])
      (simp_all add: s1(4) Load_def)
  then have "Process env key s1 = (None, s1)"
    using Process_delete [OF assms(2-4) g1, unfolded r1] by simp
  with first s1(2) show ?thesis by blast
qed

theorem delete_recorded_once_witness:
  "\<exists>s1. Process (sample_env None) sample_key sample_state = (None, s1) \<and> length (p_jobs s1) = 1
     \<and> Process (sample_env None) sample_key s1 = (None, s1)"
proof -
  have "\<exists>s1. Process (sample_env None) sample_key sample_state = (None, s1)
    \<and> p_jobs s1 = p_jobs sample_state @ [\<lparr>job_Record = deletedRecord (sample_env None) sample_key (sample_entry\<lparr>ce_Version := 1\<rparr>)
           (p_clock sample_state (p_ticks sample_state)),
         job_Commit = CommitDelete 0 sample_key (cacheKey sample_key) (ce_Version (sample_entry\<lparr>ce_Version := 1\<rparr>) + 1)\<rparr>]
    \<and> Process (sample_env None) sample_key s1 = (None, s1)"
    by (rule delete_recorded_once [OF sample_state_reachable _ sample_key_valid(2), where w = sample_writer])
      (simp_all add: sample_env_def sample_writer_def sample_state_eq sample_key_def st_of_def sinkState_new_def
        Load_def gm_get_def sample_entry_def CacheEntry_zero_def)
  then show ?thesis by (auto simp: sample_state_eq)
qed

text \<open>
  Sinks are independent: a work item of one sink leaves the cache, the close-outs, the
  coalescer and the warm set of every other sink as they were.
\<close>

theorem sinks_independent:
  assumes "reachable s" and "i \<noteq> key_sink key" and "gm_get (p_states s) i = Some b"
  shows "st_of b (snd (Process env key s)) = st_of b s"
  using reachable_ok [OF assms(1)] assms(2,3) by (rule Process_other_sink)

theorem sinks_independent_witness:
  "Load (cacheKey sample_key) (st_cache (st_of 0
      (snd (Process (sample_env None) (sample_key\<lparr>key_sink := SinkID ''ClickHouseSink'' ''a''\<rparr>) sample_state))))
   = Some (sample_entry\<lparr>ce_Version := 1\<rparr>)"
proof -
  have "st_of 0 (snd (Process (sample_env None) (sample_key\<lparr>key_sink := SinkID ''ClickHouseSink'' ''a''\<rparr>) sample_state))
      = st_of 0 sample_state"
    by (rule sinks_independent [OF sample_state_reachable, where i = "SinkID ''S3Sink'' ''a''"])
      (simp_all add: sample_state_eq gm_get_def)
  then show ?thesis by (simp add: st_of_def sample_state_eq Load_def gm_get_def)
qed

text \<open>
  A write issued before its sink was removed cannot reach the state of a sink recreated under
  the same identity: however it settles, the new state stays as it was created, empty.
\<close>

theorem removed_sink_orphaned:
  assumes "reachable s" and "j \<in> set (p_jobs s)" and "registry_get i (RemoveSink i s) = (b, s2)"
  shows "st_of b s2 = sinkState_new \<and> st_of b (runCommit (job_Commit j) ok s2) = sinkState_new"
proof -
  have a: "commit_addr (job_Commit j) < length (p_heap s)"
    using reachable_ok [OF assms(1)] assms(2) by (simp add: pipeline_ok_def)
  have "b = length (p_heap s)" and new: "st_of b s2 = sinkState_new"
    using assms(3) by (auto simp: registry_get_def RemoveSink_def Let_def st_of_def)
  then have "b \<noteq> commit_addr (job_Commit j)" using a by simp
  with new show ?thesis by (simp add: st_of_runCommit)
qed

theorem removed_sink_orphaned_witness:
  "\<exists>s j b s2. reachable s \<and> j \<in> set (p_jobs s) \<and> registry_get (SinkID ''S3Sink'' ''a'') (RemoveSink (SinkID ''S3Sink'' ''a'') s) = (b, s2)
     \<and> st_of b (runCommit (job_Commit j) True s2) = sinkState_new"
proof -
  let ?i = "SinkID ''S3Sink'' ''a''"
  obtain s1 where s1: "Process (sample_env None) sample_key sample_state = (None, s1)" "p_jobs s1 \<noteq> []"
    using sample_delete by force
  let ?s = "processNext (sample_env None) sample_key sample_state"
  have r: "reachable ?s" using sample_state_reachable sample_key_valid(1) by (rule reachable.process)
  have j: "hd (p_jobs s1) \<in> set (p_jobs ?s)" using s1(2) by (simp add: processNext_def s1(1))
  obtain b s2 where g: "registry_get ?i (RemoveSink ?i ?s) = (b, s2)" by (metis prod.exhaust)
  from removed_sink_orphaned [OF r j g] r j g show ?thesis by blast
qed

section \<open>Upserts that settle without a write\<close>

lemma coalesceFor_plain [simp]: "coalesceFor False w norm = (0, [])"
  by (simp add: coalesceFor_def)

lemma processUpsert_duplicate:
  assumes "redactionFor env key = Some policy" and "normalizeObject (env_k8s env) ob policy = Inr norm"
    and "\<not> Key_ephemeral key" and "Load k (st_cache (st_of a s)) = Some e"
    and "ce_UID e = [] \<or> ce_UID e = no_UID norm" and "ce_Hash e = no_Hash norm"
  shows "processUpsert env key a w ob k s = (None, emit DedupSkip s)"
proof -
  have "dedupBlock env key a w k norm 0 [] s = (None, emit DedupSkip s)"
    using assms(4-6) by (auto simp: dedupBlock_def)
  with assms(1-3) show ?thesis by (simp add: processUpsert_def)
qed

lemma confirmedEntry_fields [simp]:
  "ce_Hash (confirmedEntry env e norm n) = no_Hash norm" "ce_UID (confirmedEntry env e norm n) = no_UID norm"
  "ce_ModifiedSinceCheckpoint (confirmedEntry env e norm n) = n" "\<not> ce_PendingDelete (confirmedEntry env e norm n)"
  by (simp_all add: confirmedEntry_def case_prod_beta)

lemma exportBlock_settled:
  assumes "a < length (p_heap s)" and "exportBlock env key a w k norm window h plan s = (None, s')"
  shows "\<exists>v. Load k (st_cache (st_of a s'))
    = Some ((confirmedEntry env (Key_ephemeral key) norm (up_modifiedRun plan))\<lparr>ce_Version := v\<rparr>)"
    and "p_states s' = p_states s" and "st_closeOuts (st_of a s') = st_closeOuts (st_of a s)"
proof -
  define e where "e = confirmedEntry env (Key_ephemeral key) norm (up_modifiedRun plan)"
  obtain v s1 where u: "upd_cache a (Reserve k e) s = (v, s1)" by (metis prod.exhaust)
  obtain t s2 where n: "p_now (recordCacheEntries (key_sink key) a s1) = (t, s2)" by (metis prod.exhaust)
  obtain err s3 where q: "enqueue w \<lparr>job_Record = upsertRecord env key norm plan t,
     job_Commit = CommitUpsert a key k v e (up_revertEntry plan) h t window\<rparr> s2 = (err, s3)" by (metis prod.exhaust)
  have s': "s' = s3"
    using assms(2) exportBlock_unfold [OF u [unfolded e_def] n q [unfolded e_def]] by (simp split: option.splits)
  have "st_of a s3 = st_of a s1"
    using st_of_now [OF n] st_of_enqueue [OF q] by (simp add: recordCacheEntries_def)
  moreover have "st_of a s1 = (st_of a s)\<lparr>st_cache := snd (Reserve k e (st_cache (st_of a s)))\<rparr>"
    using u assms(1) by (auto simp: upd_cache_eq)
  moreover have "p_states s3 = p_states s"
    using enqueue_heap [OF q] n u by (auto simp: recordCacheEntries_def upd_cache_eq)
  ultimately show "\<exists>v. Load k (st_cache (st_of a s')) = Some (e\<lparr>ce_Version := v\<rparr>)"
      and "p_states s' = p_states s" and "st_closeOuts (st_of a s') = st_closeOuts (st_of a s)"
    by (auto simp: s' Reserve_def Load_def Let_def)
qed

lemma enqueueCloseOut_states: "p_states (enqueueCloseOut key a w k r s) = p_states s"
proof -
  obtain err s1 where q: "enqueue w \<lparr>job_Record = r, job_Commit = CommitCloseOut a key k r\<rparr> s = (err, s1)" by (metis prod.exhaust)
  then show ?thesis using enqueue_heap [OF q] by (simp add: enqueueCloseOut_def split: option.split)
qed

lemma retry_states: "p_states (retryPendingCloseOuts key a w k s) = p_states s"
proof -
  have "p_states (fold (enqueueCloseOut key a w k) rs s) = p_states s" for rs s
    by (induction rs arbitrary: s) (simp_all add: enqueueCloseOut_states)
  then show ?thesis by (simp add: retryPendingCloseOuts_def Let_def case_prod_beta)
qed

lemma dedupBlock_states:
  assumes "dedupBlock env key a w k norm window h s = (d, s')"
  shows "p_states s' = p_states s"
  using assms
proof (cases rule: dedupBlock_branches)
  case (reborn e ce v s1 now s2)
  then show ?thesis using p_now_fields(3) [OF reborn(6)] by (auto simp: enqueueCloseOut_states upd_cache_eq)
next
  case (reborn_refused e ce v outcome)
  then show ?thesis by (auto simp: upd_cache_eq)
qed simp_all

text \<open>After a work item of an ordinary object settles, the cache holds that object's hash and UID.\<close>

lemma processUpsert_settled:
  assumes "pipeline_ok s" and "a < length (p_heap s)" and "key_valid key" and "\<not> Key_ephemeral key"
    and "processUpsert env key a w ob (cacheKey key) s = (None, s')"
  shows "\<exists>policy norm e. redactionFor env key = Some policy \<and> normalizeObject (env_k8s env) ob policy = Inr norm
    \<and> Load (cacheKey key) (st_cache (st_of a s')) = Some e
    \<and> (ce_UID e = [] \<or> ce_UID e = no_UID norm) \<and> ce_Hash e = no_Hash norm \<and> p_states s' = p_states s"
proof -
  obtain policy norm where p: "redactionFor env key = Some policy" "normalizeObject (env_k8s env) ob policy = Inr norm"
    using assms(5) by (auto simp: processUpsert_def split: option.splits sum.splits)
  obtain d s1 where b: "dedupBlock env key a w (cacheKey key) norm 0 [] s = (d, s1)" by (metis prod.exhaust)
  show ?thesis
  proof (cases d)
    case None
    then have s': "s' = s1" using assms(4,5) p b by (simp add: processUpsert_def)
    from b obtain e where "Load (cacheKey key) (st_cache (st_of a s)) = Some e" "ce_UID e = [] \<or> ce_UID e = no_UID norm"
        "ce_Hash e = no_Hash norm" "s1 = emit DedupSkip s"
      by (cases rule: dedupBlock_branches) (use None in \<open>auto simp: decide_def\<close>)
    then show ?thesis using p s' by auto
  next
    case (Some plan)
    obtain plan' s2 where t: "tagSnapshot key a plan s1 = (plan', s2)" by (metis prod.exhaust)
    have x: "exportBlock env key a w (cacheKey key) norm 0 [] plan' s2 = (None, s')"
      using assms(4,5) p b Some t by (simp add: processUpsert_def)
    have len: "a < length (p_heap s2)"
      using ok_dedupBlock(2) [OF assms(1-3) b] ok_tagSnapshot(2) [OF t] assms(2) by simp
    have "p_states s2 = p_states s1" using t by (auto simp: tagSnapshot_def recordScopeUnwarmed_def split: if_splits)
    then have "p_states s' = p_states s" using dedupBlock_states [OF b] exportBlock_settled(2) [OF len x] by simp
    moreover obtain v where "Load (cacheKey key) (st_cache (st_of a s'))
        = Some ((confirmedEntry env (Key_ephemeral key) norm (up_modifiedRun plan'))\<lparr>ce_Version := v\<rparr>)"
      using exportBlock_settled(1) [OF len x] by blast
    ultimately show ?thesis using p by simp
  qed
qed


lemma exportBlock_answer:
  assumes "\<forall>n r. w_Enqueue w n r = err"
  shows "\<exists>s'. exportBlock env key a w k norm window h plan s = (map_option EnqueueFailed err, s')"
proof -
  define e where "e = confirmedEntry env (Key_ephemeral key) norm (up_modifiedRun plan)"
  obtain v s1 where u: "upd_cache a (Reserve k e) s = (v, s1)" by (metis prod.exhaust)
  obtain t s2 where n: "p_now (recordCacheEntries (key_sink key) a s1) = (t, s2)" by (metis prod.exhaust)
  let ?j = "\<lparr>job_Record = upsertRecord env key norm plan t,
     job_Commit = CommitUpsert a key k v e (up_revertEntry plan) h t window\<rparr>"
  have "fst (enqueue w ?j s2) = err" using assms by (cases err) (simp_all add: enqueue_def)
  then obtain s3 where q: "enqueue w ?j s2 = (err, s3)" by (metis prod.collapse)
  show ?thesis
    using exportBlock_unfold [OF u [unfolded e_def] n q [unfolded e_def]] by (simp split: option.split)
qed

lemma Apply_nil_empty: "Apply None [] = Some []"
proof -
  have ok: "path_segments p \<noteq> []" if "p \<in> set (policy_paths builtinRedaction)" for p
    using that policy_ok_compiled [OF compiled_builtin] by (simp add: policy_ok_def)
  have "applyPaths ps (JObj []) = JObj []" if "\<forall>p \<in> set ps. path_segments p \<noteq> []" for ps
    using that
  proof (induction ps)
    case (Cons p ps)
    then obtain seg segs where "path_segments p = seg # segs" by (cases "path_segments p") auto
    with Cons show ?case by simp
  qed simp
  with ok show ?thesis by (simp add: Apply_def)
qed

definition sample_norm :: normalizedObject where
  "sample_norm = \<lparr>no_JSON = ''{}'', no_Hash = sha256_hex ''{}'', no_UID = [], no_ResourceVersion = [],
     no_APIVersion = ''v1'', no_Labels = [], no_Actors = [], no_normalized = []\<rparr>"

lemma sample_normalize: "normalizeObject sample_accessors [] None = Inr sample_norm"
  by (simp add: normalizeObject_def sample_accessors_def metadata_of_def stripVolatileFields_def Apply_nil_empty
      ExtractActors_def sample_norm_def Let_def)

lemma sample_snapshot:
  "\<exists>s0 s1. registry_get (key_sink sample_key) (newPipeline c) = (0, s0) \<and> 0 < length (p_heap s0)
     \<and> Process (sample_env (Some [])) sample_key (newPipeline c) = (None, s1)
     \<and> gm_get (p_states s1) (key_sink sample_key) = Some 0
     \<and> gm_get (st_closeOuts (st_of 0 s1)) (cacheKey sample_key) = None"
proof -
  let ?env = "sample_env (Some [])"
  define s0 where "s0 = snd (registry_get (key_sink sample_key) (newPipeline c))"
  have g: "registry_get (key_sink sample_key) (newPipeline c) = (0, s0)"
    by (simp add: s0_def registry_get_def newPipeline_def)
  have h: "p_heap s0 = [sinkState_new]" by (simp add: s0_def registry_get_def newPipeline_def)
  then have st: "st_of 0 s0 = sinkState_new" by (simp add: st_of_def)
  have r: "retryPendingCloseOuts sample_key 0 sample_writer (cacheKey sample_key) s0 = s0"
    by (intro retryPendingCloseOuts_none) (simp add: st sinkState_new_def)
  have d: "dedupBlock ?env sample_key 0 sample_writer (cacheKey sample_key) sample_norm 0 [] s0
      = (Some (plan_added\<lparr>up_cacheMiss := True\<rparr>), s0)"
    by (simp add: dedupBlock_def st sinkState_new_def Load_def)
  obtain plan s2 where t: "tagSnapshot sample_key 0 (plan_added\<lparr>up_cacheMiss := True\<rparr>) s0 = (plan, s2)" by (metis prod.exhaust)
  have "\<forall>n r. w_Enqueue sample_writer n r = None" by (simp add: sample_writer_def)
  then obtain s1 where x: "exportBlock ?env sample_key 0 sample_writer (cacheKey sample_key) sample_norm 0 [] plan s2 = (None, s1)"
    using exportBlock_answer [of sample_writer None] by fastforce
  have p: "processUpsert ?env sample_key 0 sample_writer [] (cacheKey sample_key) s0 = (None, s1)"
    using sample_normalize d t x sample_key_valid(2)
    by (simp add: processUpsert_def sample_env_def redactionFor_def)
  have "Process ?env sample_key (newPipeline c) = (None, s1)"
    using Process_upsert [of ?env sample_key "[]" sample_writer, OF _ _ g] r p by (simp add: sample_env_def)
  moreover have h2: "p_heap s2 = p_heap s0" using ok_tagSnapshot(2) [OF t] .
  have st2: "st_of 0 s2 = sinkState_new" using h2 st by (simp add: st_of_def)
  have len: "0 < length (p_heap s2)" using h h2 by simp
  have "p_states s2 = p_states s0" using t by (auto simp: tagSnapshot_def recordScopeUnwarmed_def split: if_splits)
  with exportBlock_settled(2,3) [OF len x] registry_get_fields(3) [OF g] st2
  have "gm_get (p_states s1) (key_sink sample_key) = Some 0" "gm_get (st_closeOuts (st_of 0 s1)) (cacheKey sample_key) = None"
    by (simp_all add: sinkState_new_def)
  ultimately show ?thesis using g h by auto
qed


section \<open>Failed writes\<close>

text \<open>What the cache holds of an object, apart from the version number.\<close>

definition content :: "CacheEntry option \<Rightarrow> CacheEntry option" where
  "content e = map_option (\<lambda>x. x\<lparr>ce_Version := 0\<rparr>) e"

lemma Reserve_then_revert:
  assumes "a < length (p_heap s)" and "upd_cache a (Reserve k e) s = (v, s1)" and "st_of a s2 = st_of a s1"
    and "length (p_heap s2) = length (p_heap s)"
  shows "Load k (st_cache (st_of a (revertVersion a k v re s2))) = map_option (\<lambda>x. x\<lparr>ce_Version := v\<rparr>) re"
proof -
  have v: "v = fst (Reserve k e (st_cache (st_of a s)))"
    and s1: "st_of a s1 = (st_of a s)\<lparr>st_cache := snd (Reserve k e (st_cache (st_of a s)))\<rparr>"
    using assms(1,2) by (auto simp: upd_cache_eq)
  have l: "gm_get (st_cache (st_of a s2)) k = Some (e\<lparr>ce_Version := v\<rparr>)"
    by (simp add: assms(3) s1 v Reserve_def Let_def)
  show ?thesis
  proof (cases re)
    case None
    with l assms(1,4) show ?thesis by (simp add: revertVersion_def upd_cache_eq DeleteIfCurrent_def Load_def)
  next
    case (Some e')
    with l assms(1,4) show ?thesis by (simp add: revertVersion_def upd_cache_eq CommitIfCurrent_def Load_def Let_def)
  qed
qed

lemma planModified_revert: "planModified env eph w e norm = (plan, ms) \<Longrightarrow> up_revertEntry plan = Some e"
  by (auto simp: planModified_def plan_added_def Let_def split: option.splits sum.splits diffError.splits if_splits)



section \<open>Runs of diffs\<close>

text \<open>Whether each of a sequence of changed states of one object is written in full.\<close>

fun write_flags :: "pipeline_env \<Rightarrow> writer \<Rightarrow> CacheEntry \<Rightarrow> normalizedObject list \<Rightarrow> bool list" where
  "write_flags env w e [] = []"
| "write_flags env w e (norm # norms) =
     (let plan = fst (planModified env False w e norm)
      in up_carriesFullState plan # write_flags env w (confirmedEntry env False norm (up_modifiedRun plan)) norms)"

lemma planModified_run:
  assumes "planModified env False w e norm = (plan, ms)" and "\<not> up_carriesFullState plan"
    and "0 < checkpointEveryFor (w_CheckpointEvery w)"
  shows "up_modifiedRun plan = ce_ModifiedSinceCheckpoint e + 1"
    and "ce_ModifiedSinceCheckpoint e + 1 < checkpointEveryFor (w_CheckpointEvery w)"
  using assms
  by (auto simp: planModified_def plan_added_def checkpointDue_def Let_def
      split: option.splits sum.splits diffError.splits if_splits)

lemma write_flags_full:
  assumes "0 < n" and "checkpointEveryFor (w_CheckpointEvery w) = n" and "0 \<le> ce_ModifiedSinceCheckpoint e"
    and "nat (max 1 (n - ce_ModifiedSinceCheckpoint e)) \<le> length norms"
  shows "True \<in> set (take (nat (max 1 (n - ce_ModifiedSinceCheckpoint e))) (write_flags env w e norms))"
  using assms(3,4)
proof (induction norms arbitrary: e)
  case (Cons norm norms)
  obtain plan ms where p: "planModified env False w e norm = (plan, ms)" by (metis prod.exhaust)
  let ?m = "nat (max 1 (n - ce_ModifiedSinceCheckpoint e))"
  obtain m where m: "?m = Suc m" by (cases ?m) auto
  show ?case
  proof (cases "up_carriesFullState plan")
    case True
    then show ?thesis by (simp add: m p)
  next
    case False
    note run = planModified_run [OF p False]
    let ?e = "confirmedEntry env False norm (up_modifiedRun plan)"
    have n: "ce_ModifiedSinceCheckpoint e + 1 < n" using run(2) assms(1,2) by simp
    have eq: "ce_ModifiedSinceCheckpoint ?e = ce_ModifiedSinceCheckpoint e + 1" using run(1) assms(1,2) by simp
    have "m = nat (max 1 (n - ce_ModifiedSinceCheckpoint ?e))" using n m unfolding eq by linarith
    moreover have "True \<in> set (take (nat (max 1 (n - ce_ModifiedSinceCheckpoint ?e))) (write_flags env w ?e norms))"
      using Cons.prems n unfolding eq by (intro Cons.IH [of ?e, unfolded eq]) auto
    ultimately show ?thesis by (simp add: m p)
  qed
qed simp

text \<open>
  C5: the cost of reconstructing a state is bounded: with a checkpoint cadence of n, among any n
  consecutive writes of changed states of one object at least one carries the full state, whatever
  the diffs are and however the baseline fares.
\<close>

theorem checkpoint_bounds_replay:
  assumes "0 < n" and "w_CheckpointEvery w = Some n" and "0 \<le> ce_ModifiedSinceCheckpoint e"
    and "nat n \<le> length norms"
  shows "True \<in> set (take (nat n) (write_flags env w e norms))"
proof -
  let ?m = "nat (max 1 (n - ce_ModifiedSinceCheckpoint e))"
  have le: "?m \<le> nat n" using assms(1,3) by simp
  have "True \<in> set (take ?m (write_flags env w e norms))"
    using assms le by (intro write_flags_full) (auto simp: checkpointEveryFor_def)
  moreover have "set (take ?m xs) \<subseteq> set (take (nat n) xs)" for xs :: "bool list"
    using le by (rule set_take_subset_set_take)
  ultimately show ?thesis by (rule rev_subsetD)
qed

theorem checkpoint_bounds_replay_witness:
  "True \<in> set (take 3 (write_flags (sample_env None) sample_writer (sample_entry\<lparr>ce_JSON := Some ''{}''\<rparr>)
      [sample_norm, sample_norm, sample_norm]))"
  using checkpoint_bounds_replay [of 3 sample_writer "sample_entry\<lparr>ce_JSON := Some ''{}''\<rparr>"
      "[sample_norm, sample_norm, sample_norm]" "sample_env None"]
  by (simp add: sample_writer_def sample_entry_def CacheEntry_zero_def)

section \<open>Expired Events\<close>

lemma forgetEphemeral_forgets:
  assumes "a < length (p_heap s)"
    and "\<forall>e. Load (cacheKey key) (st_cache (st_of a s)) = Some e \<longrightarrow> \<not> ce_PendingDelete e"
  shows "Load (cacheKey key) (st_cache (st_of a (forgetEphemeral key a s))) = None
    \<and> gm_get (co_entries (st_coalesce (st_of a (forgetEphemeral key a s)))) (cacheKey key) = None
    \<and> p_jobs (forgetEphemeral key a s) = p_jobs s"
proof -
  let ?k = "cacheKey key"
  let ?s0 = "upd_st a (\<lambda>st. st\<lparr>st_coalesce := forget ?k (st_coalesce st)\<rparr>) s"
  have s0: "st_cache (st_of a ?s0) = st_cache (st_of a s)" "a < length (p_heap ?s0)"
      "gm_get (co_entries (st_coalesce (st_of a ?s0))) ?k = None"
    using assms(1) by (simp_all add: forget_def)
  show ?thesis
  proof (cases "Load ?k (st_cache (st_of a s))")
    case None
    then have "ReserveDelete ?k [] (st_cache (st_of a ?s0)) = ((CacheEntry_zero, 0, deleteClaimAbsent), st_cache (st_of a ?s0))"
      by (simp add: ReserveDelete_def Load_def s0(1))
    then have u: "upd_cache a (ReserveDelete ?k []) ?s0 = ((CacheEntry_zero, 0, deleteClaimAbsent), ?s0)"
      by (simp add: upd_cache_eq upd_st_same)
    have "forgetEphemeral key a s = ?s0" by (simp add: forgetEphemeral_def u)
    with None s0 show ?thesis by simp
  next
    case (Some e)
    define c where "c = gm_set ?k (e\<lparr>ce_Version := ce_Version e + 1, ce_PendingDelete := True\<rparr>) (st_cache (st_of a s))"
    define s1 where "s1 = upd_st a (\<lambda>st. st\<lparr>st_cache := c\<rparr>) ?s0"
    define s2 where "s2 = upd_st a (\<lambda>st. st\<lparr>st_cache := gm_del ?k c\<rparr>) s1"
    have "ReserveDelete ?k [] (st_cache (st_of a ?s0)) = ((e, ce_Version e + 1, deleteClaimed), c)"
      unfolding s0(1) c_def using Some assms(2) by (intro ReserveDelete_succeeds) simp_all
    then have u: "upd_cache a (ReserveDelete ?k []) ?s0 = ((e, ce_Version e + 1, deleteClaimed), s1)"
      by (simp add: upd_cache_eq s1_def)
    have "st_cache (st_of a s1) = c" using s0(2) by (simp add: s1_def)
    moreover have "DeleteIfCurrent ?k (ce_Version e + 1) c = (True, gm_del ?k c)"
      by (simp add: DeleteIfCurrent_def c_def)
    ultimately have d: "upd_cache a (DeleteIfCurrent ?k (ce_Version e + 1)) s1 = (True, s2)"
      by (simp add: upd_cache_eq s2_def)
    have "forgetEphemeral key a s = recordCacheEntries (key_sink key) a s2"
      by (simp add: forgetEphemeral_def u d)
    moreover have "st_of a s2 = (st_of a ?s0)\<lparr>st_cache := gm_del ?k c\<rparr>" "p_jobs s2 = p_jobs s"
      using s0(2) by (simp_all add: s2_def s1_def)
    ultimately show ?thesis using s0(3) by (simp add: recordCacheEntries_def Load_def)
  qed
qed

text \<open>
  An expired Event is forgotten, not deleted: its absence from the watch cache enqueues no
  row, removes its dedup entry and its coalescing entry, and a write of it that is still in flight
  can no longer bring the entry back, because its version-gated commit finds nothing to match.
\<close>

theorem expired_event_forgotten:
  assumes "reachable s" and "env_lister env key = Inr (None, True)" and "Key_ephemeral key"
    and "gm_get (p_states s) (key_sink key) = Some a"
    and "\<forall>e. Load (cacheKey key) (st_cache (st_of a s)) = Some e \<longrightarrow> \<not> ce_PendingDelete e"
    and "v \<noteq> 0"
  shows "\<exists>s1. Process env key s = (None, s1) \<and> p_jobs s1 = p_jobs s
    \<and> Load (cacheKey key) (st_cache (st_of a s1)) = None
    \<and> gm_get (co_entries (st_coalesce (st_of a s1))) (cacheKey key) = None
    \<and> CommitIfCurrent (cacheKey key) v e (st_cache (st_of a s1)) = (False, st_cache (st_of a s1))"
proof -
  let ?s = "emit (Dropped DropReasonEphemeralDelete) s"
  have a: "a < length (p_heap ?s)" using reachable_ok [OF assms(1)] assms(4) by (simp add: pipeline_ok_def)
  have "registry_get (key_sink key) ?s = (a, ?s)" using assms(4) by (intro registry_get_present) simp
  note P = Process_expired [OF assms(2,3) this]
  have F: "Load (cacheKey key) (st_cache (st_of a (forgetEphemeral key a ?s))) = None
    \<and> gm_get (co_entries (st_coalesce (st_of a (forgetEphemeral key a ?s)))) (cacheKey key) = None
    \<and> p_jobs (forgetEphemeral key a ?s) = p_jobs ?s"
    using assms(5) by (intro forgetEphemeral_forgets [OF a]) simp
  then have "CommitIfCurrent (cacheKey key) v e (st_cache (st_of a (forgetEphemeral key a ?s)))
      = (False, st_cache (st_of a (forgetEphemeral key a ?s)))"
    using assms(6) by (simp add: CommitIfCurrent_def Load_def)
  with P F show ?thesis by simp
qed

theorem expired_event_forgotten_witness:
  "\<exists>s s1. reachable s \<and> Process (sample_env None) (sample_key\<lparr>key_kind := ''Event''\<rparr>) s = (None, s1) \<and> p_jobs s1 = []"
proof -
  let ?k = "sample_key\<lparr>key_kind := ''Event''\<rparr>"
  have "Key_ephemeral ?k"
    by (simp add: sample_key_def Key_ephemeral_def ephemeralKind_def eventKind_def coreGroup_def)
  moreover have "Load (cacheKey ?k) (st_cache (st_of 0 sample_state)) = None"
    by (simp add: st_of_def sample_state_eq Load_def gm_get_def cacheKey_def sample_key_def)
  ultimately have "\<exists>s1. Process (sample_env None) ?k sample_state = (None, s1) \<and> p_jobs s1 = p_jobs sample_state
    \<and> Load (cacheKey ?k) (st_cache (st_of 0 s1)) = None
    \<and> gm_get (co_entries (st_coalesce (st_of 0 s1))) (cacheKey ?k) = None
    \<and> CommitIfCurrent (cacheKey ?k) 1 sample_entry (st_cache (st_of 0 s1)) = (False, st_cache (st_of 0 s1))"
    by (intro expired_event_forgotten [OF sample_state_reachable])
      (simp_all add: sample_env_def sample_state_eq gm_get_def sample_key_def)
  then show ?thesis using sample_state_reachable by (auto simp: sample_state_eq)
qed

section \<open>A diff against a state that was never recorded\<close>

lemma planModified_diff:
  assumes "ce_JSON e \<noteq> None" and "decodeBaseline (env_zstd env) e = Inr (Some b)"
    and "ComputeDiff (env_diff env) b (no_JSON norm) = Inr patch"
    and "\<not> snd (checkpointDue (checkpointEveryFor (w_CheckpointEvery w)) (ce_ModifiedSinceCheckpoint e + 1) patch (no_JSON norm))"
  shows "planModified env False w e norm = (plan_added\<lparr>up_eventType := ''Modified'', up_diffString := patch,
    up_carriesFullState := False, up_modifiedRun := ce_ModifiedSinceCheckpoint e + 1, up_revertEntry := Some e\<rparr>, [])"
  using assms by (auto simp: planModified_def Let_def)

text \<open>
  A Modified row may hold a diff against a state the sink never received. While a write of an
  object (version \<open>v\<close>, entry \<open>e\<close>) is in flight, a change of the object is diffed against that
  unconfirmed entry. If the earlier write then fails, its revert is superseded and changes nothing,
  and when the diff is confirmed the cache counts it as one more diff of a run whose base is not in
  the sink: the retried key finds its hash unchanged and is deduplicated.
\<close>

theorem diff_against_unrecorded_state:
  assumes "a < length (p_heap s)" and "\<not> Key_ephemeral key"
    and "redactionFor env key = Some policy" and "normalizeObject (env_k8s env) ob policy = Inr norm"
    and "Load (cacheKey key) (st_cache (st_of a s)) = Some e"
    and "ce_UID e = [] \<or> ce_UID e = no_UID norm" and "ce_Hash e \<noteq> no_Hash norm"
    and "ce_JSON e \<noteq> None" and "decodeBaseline (env_zstd env) e = Inr (Some b)"
    and "ComputeDiff (env_diff env) b (no_JSON norm) = Inr patch"
    and "\<not> snd (checkpointDue (checkpointEveryFor (w_CheckpointEvery w)) (ce_ModifiedSinceCheckpoint e + 1) patch (no_JSON norm))"
    and "\<forall>n r. w_Enqueue w n r = None"
  shows "\<exists>s1 j. processUpsert env key a w ob (cacheKey key) s = (None, s1) \<and> p_jobs s1 = p_jobs s @ [j]
    \<and> rec_EventType (job_Record j) = ''Modified'' \<and> rec_Data (job_Record j) = [] \<and> rec_Diff (job_Record j) = patch
    \<and> (let s2 = runCommit (CommitUpsert a key (cacheKey key) (ce_Version e) e re h t window) False s1;
           s3 = runCommit (job_Commit j) True s2
       in st_cache (st_of a s2) = st_cache (st_of a s1)
          \<and> (\<exists>e'. Load (cacheKey key) (st_cache (st_of a s3)) = Some e' \<and> ce_Hash e' = no_Hash norm
               \<and> ce_ModifiedSinceCheckpoint e' = ce_ModifiedSinceCheckpoint e + 1))"
proof -
  let ?k = "cacheKey key"
  let ?plan = "plan_added\<lparr>up_eventType := ''Modified'', up_diffString := patch,
    up_carriesFullState := False, up_modifiedRun := ce_ModifiedSinceCheckpoint e + 1, up_revertEntry := Some e\<rparr>"
  obtain now s0 where n0: "p_now s = (now, s0)" by (metis prod.exhaust)
  have uid: "\<not> (ce_UID e \<noteq> [] \<and> ce_UID e \<noteq> no_UID norm)" using assms(6) by blast
  have d: "dedupBlock env key a w ?k norm 0 [] s = (Some ?plan, s0)"
    unfolding dedupBlock_def using planModified_diff [OF assms(8-11)] assms(2,5,7) uid n0
    by (auto simp: decide_def)
  have tag: "tagSnapshot key a ?plan s0 = (?plan, s0)" by (simp add: tagSnapshot_def plan_added_def)
  define e2 where "e2 = confirmedEntry env False norm (ce_ModifiedSinceCheckpoint e + 1)"
  define c2 where "c2 = gm_set ?k (e2\<lparr>ce_Version := ce_Version e + 1\<rparr>) (st_cache (st_of a s))"
  define s1 where "s1 = upd_st a (\<lambda>st. st\<lparr>st_cache := c2\<rparr>) s0"
  have len: "a < length (p_heap s0)" using assms(1) n0 by simp
  have "Reserve ?k e2 (st_cache (st_of a s0)) = (ce_Version e + 1, c2)"
    using assms(5) st_of_now [OF n0] by (simp add: Reserve_def Load_def c2_def)
  then have u: "upd_cache a (Reserve ?k e2) s0 = (ce_Version e + 1, s1)"
    by (simp add: upd_cache_eq s1_def)
  obtain ts s2 where n: "p_now (recordCacheEntries (key_sink key) a s1) = (ts, s2)" by (metis prod.exhaust)
  define j where "j = \<lparr>job_Record = upsertRecord env key norm ?plan ts,
     job_Commit = CommitUpsert a key ?k (ce_Version e + 1) e2 (Some e) [] ts 0\<rparr>"
  define s3 where "s3 = s2\<lparr>p_enqueues := Suc (p_enqueues s2), p_jobs := p_jobs s2 @ [j]\<rparr>"
  have q: "enqueue w j s2 = (None, s3)" unfolding s3_def using assms(12) by (intro enqueue_accepted) simp
  have x: "exportBlock env key a w ?k norm 0 [] ?plan s0 = (None, s3)"
    using exportBlock_unfold [of a ?k env key norm ?plan s0 "ce_Version e + 1" s1 ts s2 w "[]" 0 None s3] u n q assms(2)
    by (simp add: e2_def j_def)
  have p: "processUpsert env key a w ob ?k s = (None, s3)"
    using assms(2-4) d tag x by (simp add: processUpsert_def)
  have jobs: "p_jobs s3 = p_jobs s @ [j]"
    using n n0 by (simp add: s3_def s1_def recordCacheEntries_def)
  have st3: "st_cache (st_of a s3) = c2" "a < length (p_heap s3)"
    using st_of_now [OF n] st_of_enqueue [OF q] len n by (simp_all add: s1_def s3_def recordCacheEntries_def)
  have stale: "CommitIfCurrent ?k (ce_Version e) e' c2 = (False, c2)" "DeleteIfCurrent ?k (ce_Version e) c2 = (False, c2)" for e'
    by (simp_all add: CommitIfCurrent_def DeleteIfCurrent_def c2_def Let_def)
  define s4 where "s4 = runCommit (CommitUpsert a key ?k (ce_Version e) e re h t window) False s3"
  have s4: "st_cache (st_of a s4) = c2" "a < length (p_heap s4)"
    using st3 stale by (auto simp: s4_def revertVersion_def upd_cache_eq split: option.split)
  have "CommitIfCurrent ?k (ce_Version e + 1) e2 c2 = (True, gm_set ?k (e2\<lparr>ce_Version := ce_Version e + 1\<rparr>) c2)"
    by (simp add: CommitIfCurrent_def c2_def Let_def)
  then have "Load ?k (st_cache (st_of a (runCommit (job_Commit j) True s4))) = Some (e2\<lparr>ce_Version := ce_Version e + 1\<rparr>)"
    using s4 by (simp add: j_def upd_cache_eq Load_def)
  then have fin: "\<exists>e'. Load ?k (st_cache (st_of a (runCommit (job_Commit j) True s4))) = Some e' \<and> ce_Hash e' = no_Hash norm
      \<and> ce_ModifiedSinceCheckpoint e' = ce_ModifiedSinceCheckpoint e + 1"
    by (simp add: e2_def)
  have row: "rec_EventType (job_Record j) = ''Modified''" "rec_Data (job_Record j) = []" "rec_Diff (job_Record j) = patch"
    by (simp_all add: j_def upsertRecord_def)
  show ?thesis
    using p jobs row fin s4(1) st3(1) unfolding Let_def s4_def by metis
qed

definition sample_pending :: pipeline where
  "sample_pending = (newPipeline (\<lambda>n. 0))\<lparr>p_heap := [sinkState_new\<lparr>st_cache :=
     [(cacheKey sample_key, sample_entry\<lparr>ce_UID := [], ce_JSON := Some ''{}'', ce_Version := 4\<rparr>)]\<rparr>]\<rparr>"

theorem diff_against_unrecorded_state_witness:
  "\<exists>s1 j. processUpsert (sample_env None) sample_key 0 sample_writer [] (cacheKey sample_key) sample_pending = (None, s1)
    \<and> p_jobs s1 = [j] \<and> rec_EventType (job_Record j) = ''Modified'' \<and> rec_Data (job_Record j) = []"
proof -
  let ?e = "sample_entry\<lparr>ce_UID := [], ce_JSON := Some ''{}'', ce_Version := 4\<rparr>"
  have st: "st_of 0 sample_pending = sinkState_new\<lparr>st_cache := [(cacheKey sample_key, ?e)]\<rparr>"
      "0 < length (p_heap sample_pending)" "p_jobs sample_pending = []"
    by (simp_all add: sample_pending_def st_of_def newPipeline_def)
  have env: "redactionFor (sample_env None) sample_key = Some None"
      "normalizeObject (env_k8s (sample_env None)) [] None = Inr sample_norm"
    using sample_normalize by (simp_all add: sample_env_def redactionFor_def)
  have load: "Load (cacheKey sample_key) (st_cache (st_of 0 sample_pending)) = Some ?e"
    by (simp add: st Load_def gm_get_def)
  have hash: "ce_Hash ?e \<noteq> no_Hash sample_norm"
    by (simp add: sample_entry_def CacheEntry_zero_def sample_norm_def sha256_hex_neq_short)
  have dec: "decodeBaseline (env_zstd (sample_env None)) ?e = Inr (Some ''{}'')"
    by (simp add: decodeBaseline_def sample_entry_def CacheEntry_zero_def)
  have diff: "ComputeDiff (env_diff (sample_env None)) ''{}'' (no_JSON sample_norm) = Inr ''[]''"
    by (simp add: ComputeDiff_def sample_env_def)
  have due: "\<not> snd (checkpointDue (checkpointEveryFor (w_CheckpointEvery sample_writer)) (ce_ModifiedSinceCheckpoint ?e + 1) ''[]'' (no_JSON sample_norm))"
    by (simp add: checkpointDue_def checkpointEveryFor_def sample_writer_def sample_entry_def CacheEntry_zero_def sample_norm_def)
  have acc: "\<forall>n r. w_Enqueue sample_writer n r = None" by (simp add: sample_writer_def)
  show ?thesis
    using diff_against_unrecorded_state [OF st(2) sample_key_valid(2) env load _ hash _ dec diff due acc, of None "[]" 0 0] st(3)
    by (auto simp: Let_def)
qed

end
