(* ===== verification/Warm.thy ===== *)
theory Warm
  imports Pipeline
begin

text \<open>
  The warm-up and zombie-collection coordinator (\<open>internal/pipeline/warm.go\<close>): seeding a scope's
  dedup cache from the sink's history, the garbage collection of objects that died unobserved, the
  recovery of close-outs that were never recorded, the reconciliation of scope epochs at boot, and
  the registry of warm-up runs.

  The sink's history, the informers' sync state and the cancellation of a run are the environment's.
  Each of the retry loops (\<open>backoff.Retry\<close>) is a recursion over the answers its attempts get, in
  order; when the answers run out the run's context has been cancelled.
\<close>

section \<open>History\<close>

record KnownState =
  ks_Namespace :: string
  ks_Name :: string
  ks_UID :: string
  ks_SHA256 :: string
  ks_APIVersion :: string
  ks_TS :: go_time

type_synonym identity = "string \<times> string"

definition identityOf :: "KnownState \<Rightarrow> identity" where
  "identityOf k = (ks_Namespace k, ks_Name k)"

definition groupAdd :: "KnownState \<Rightarrow> (identity, KnownState list) gomap \<Rightarrow> (identity, KnownState list) gomap" where
  "groupAdd state groups =
     (case gm_get groups (identityOf state) of
        Some g \<Rightarrow> gm_set (identityOf state) (g @ [state]) groups
      | None \<Rightarrow> groups @ [(identityOf state, [state])])"

definition groupByIdentity :: "KnownState list \<Rightarrow> KnownState list list" where
  "groupByIdentity states = map snd (fold groupAdd states [])"

definition newer :: "KnownState \<Rightarrow> KnownState \<Rightarrow> bool" where
  "newer state current \<longleftrightarrow>
     ks_TS state > ks_TS current \<or> (ks_TS state = ks_TS current \<and> ks_UID state > ks_UID current)"

definition splitIncarnations :: "KnownState list \<Rightarrow> KnownState \<times> KnownState list" where
  "splitIncarnations grp =
     (let current = fold (\<lambda>state current. if newer state current then state else current) (tl grp) (hd grp)
      in (current, filter (\<lambda>state. ks_UID state \<noteq> ks_UID current) grp))"

record gcTarget =
  gt_namespace :: string
  gt_name :: string
  gt_uid :: string

record reincarnation =
  rn_namespace :: string
  rn_name :: string
  rn_uid :: string
  rn_apiVersion :: string
  rn_ts :: go_time

record scopeRef =
  sr_sink :: sink_id
  sr_scope :: ScopeKey

definition scopeRef_key :: "scopeRef \<Rightarrow> string \<Rightarrow> string \<Rightarrow> Key" where
  "scopeRef_key ref namespace name =
     \<lparr>key_sink = sr_sink ref, key_group = scope_group (sr_scope ref), key_kind = scope_kind (sr_scope ref),
      key_namespace = namespace, key_name = name\<rparr>"

record ScopeFilter =
  sf_ClusterID :: string
  sf_APIGroup :: string
  sf_Kind :: string
  sf_Namespace :: string

definition scopeRef_filter :: "scopeRef \<Rightarrow> string \<Rightarrow> ScopeFilter" where
  "scopeRef_filter ref clusterID =
     \<lparr>sf_ClusterID = clusterID, sf_APIGroup = scope_group (sr_scope ref), sf_Kind = scope_kind (sr_scope ref),
      sf_Namespace = scope_namespace (sr_scope ref)\<rparr>"

definition closeOutRecord :: "string \<Rightarrow> Key \<Rightarrow> reincarnation \<Rightarrow> sink_record" where
  "closeOutRecord clusterID key r =
     \<lparr>rec_Timestamp = rn_ts r, rec_ClusterID = clusterID, rec_EventType = ''Deleted'',
      rec_APIGroup = key_group key, rec_APIVersion = rn_apiVersion r, rec_Kind = key_kind key,
      rec_Namespace = key_namespace key, rec_Name = key_name key, rec_UID = rn_uid r,
      rec_ResourceVersion = [], rec_Labels = [], rec_Actors = [], rec_Data = [], rec_Diff = [],
      rec_SHA256 = []\<rparr>"

definition reincarnationOf :: "KnownState \<Rightarrow> reincarnation" where
  "reincarnationOf k = \<lparr>rn_namespace = ks_Namespace k, rn_name = ks_Name k, rn_uid = ks_UID k,
     rn_apiVersion = ks_APIVersion k, rn_ts = ks_TS k\<rparr>"

definition indexIncarnations ::
    "KnownState list \<Rightarrow> (gcTarget, KnownState) gomap \<times> (identity, string) gomap" where
  "indexIncarnations states =
     fold (\<lambda>grp (rows, current).
            let newest = fst (splitIncarnations grp) in
            (fold (\<lambda>state. gm_set \<lparr>gt_namespace = ks_Namespace state, gt_name = ks_Name state, gt_uid = ks_UID state\<rparr> state)
               grp rows,
             gm_set (identityOf newest) (ks_UID newest) current))
       (groupByIdentity states) ([], [])"

section \<open>Seeding\<close>

text \<open>What one attempt finds: the reader's answer, or why there is no reader.\<close>

datatype 'a readerAnswer =
    NoStateReader
  | SinkNotLive
  | ReadFailed
  | ReadOk 'a

datatype warmError =
    errNoStateReader
  | errCancelled

definition seedGroup ::
    "scopeRef \<Rightarrow> addr \<Rightarrow> KnownState list \<Rightarrow> gcTarget list \<times> reincarnation list \<times> pipeline
     \<Rightarrow> gcTarget list \<times> reincarnation list \<times> pipeline" where
  "seedGroup ref a grp acc =
     (case acc of (seeded, priors, s) \<Rightarrow>
        let (current, unclosed) = splitIncarnations grp;
            key = scopeRef_key ref (ks_Namespace current) (ks_Name current);
            entry = CacheEntry_zero\<lparr>ce_Hash := ks_SHA256 current, ce_UID := ks_UID current\<rparr>;
            s = snd (upd_cache a (\<lambda>c. ((), StoreIfAbsent (cacheKey key) entry c)) s)
        in (seeded @ [\<lparr>gt_namespace = ks_Namespace current, gt_name = ks_Name current, gt_uid = ks_UID current\<rparr>],
            priors @ map reincarnationOf unclosed, s))"

definition seedStates ::
    "scopeRef \<Rightarrow> KnownState list \<Rightarrow> pipeline \<Rightarrow> gcTarget list \<times> reincarnation list \<times> pipeline" where
  "seedStates ref states s =
     (let (a, s) = registry_get (sr_sink ref) s;
          (seeded, priors, s) = fold (seedGroup ref a) (groupByIdentity states) ([], [], s)
      in (seeded, priors, recordCacheEntries (sr_sink ref) a s))"

fun seedScope ::
    "scopeRef \<Rightarrow> KnownState list readerAnswer list \<Rightarrow> pipeline
     \<Rightarrow> (warmError + gcTarget list \<times> reincarnation list) \<times> pipeline" where
  "seedScope ref [] s = (Inl errCancelled, s)"
| "seedScope ref (NoStateReader # _) s = (Inl errNoStateReader, s)"
| "seedScope ref (ReadOk states # _) s =
     (let (seeded, priors, s) = seedStates ref states s in (Inr (seeded, priors), s))"
| "seedScope ref (_ # answers) s = seedScope ref answers s"

fun awaitScopeSync :: "(bool \<times> bool) list \<Rightarrow> bool" where
  "awaitScopeSync [] = False"
| "awaitScopeSync ((synced, desired) # polls) =
     (if synced then True else if \<not> desired then False else awaitScopeSync polls)"

fun scopeWasActive :: "bool readerAnswer list \<Rightarrow> warmError + bool" where
  "scopeWasActive [] = Inl errCancelled"
| "scopeWasActive (NoStateReader # _) = Inl errNoStateReader"
| "scopeWasActive (ReadOk active # _) = Inr active"
| "scopeWasActive (_ # answers) = scopeWasActive answers"

section \<open>Close-outs of superseded incarnations\<close>

text \<open>An attempt meets an environment, and the instants (numbered) at which the context is found cancelled.\<close>

type_synonym attempt = "pipeline_env \<times> (nat \<Rightarrow> bool)"

fun closeOutLoop ::
    "pipeline_env \<Rightarrow> (nat \<Rightarrow> bool) \<Rightarrow> scopeRef \<Rightarrow> addr \<Rightarrow> writer \<Rightarrow> nat \<Rightarrow> reincarnation list \<Rightarrow> pipeline
     \<Rightarrow> nat option \<times> pipeline" where
  "closeOutLoop env cancelled ref a w n [] s = (Some n, s)"
| "closeOutLoop env cancelled ref a w n (prior # priors) s =
     (if cancelled n then (None, s)
      else let key = scopeRef_key ref (rn_namespace prior) (rn_name prior);
               s = enqueueCloseOut key a w (cacheKey key) (closeOutRecord (env_clusterID env) key prior) s
           in closeOutLoop env cancelled ref a w (Suc n) priors s)"

fun emitCloseOuts :: "attempt list \<Rightarrow> scopeRef \<Rightarrow> reincarnation list \<Rightarrow> pipeline \<Rightarrow> nat \<times> pipeline" where
  "emitCloseOuts attempts ref [] s = (0, s)"
| "emitCloseOuts [] ref priors s = (0, s)"
| "emitCloseOuts ((env, cancelled) # attempts) ref priors s =
     (case env_router env (sr_sink ref) of
        None \<Rightarrow> emitCloseOuts attempts ref priors s
      | Some w \<Rightarrow>
          (let (a, s) = registry_get (sr_sink ref) s in
           case closeOutLoop env cancelled ref a w 0 priors s of
             (Some n, s) \<Rightarrow> (n, s)
           | (None, s) \<Rightarrow> (0, s)))"

section \<open>Zombie collection\<close>

record gcResult =
  gr_zombies :: nat
  gr_reincarnated :: "gcTarget list"

datatype gcError =
    GcSinkUnavailable
  | GcCancelled
  | GcLister string
  | GcScopeStopped
  | GcEnqueue string

fun gcLoop ::
    "pipeline_env \<Rightarrow> (nat \<Rightarrow> bool) \<Rightarrow> scopeRef \<Rightarrow> addr \<Rightarrow> writer \<Rightarrow> nat \<Rightarrow> gcTarget list \<Rightarrow> gcResult \<Rightarrow> pipeline
     \<Rightarrow> (gcResult \<times> gcError option) \<times> pipeline" where
  "gcLoop env cancelled ref a w n [] result s = ((result, None), s)"
| "gcLoop env cancelled ref a w n (target # targets) result s =
     (if cancelled n then ((result, Some GcCancelled), s)
      else let key = scopeRef_key ref (gt_namespace target) (gt_name target) in
           case env_lister env key of
             Inl e \<Rightarrow> ((result, Some (GcLister e)), s)
           | Inr (obj, scopeActive) \<Rightarrow>
               if \<not> scopeActive then ((result, Some GcScopeStopped), s)
               else if (case obj of Some ob \<Rightarrow> GetUID (env_k8s env) ob = gt_uid target | None \<Rightarrow> False)
               then gcLoop env cancelled ref a w (Suc n) targets result s
               else (case emitDelete env key a w (gt_uid target) s of
                       ((outcome, Some e), s) \<Rightarrow> ((result, Some (GcEnqueue e)), s)
                     | ((outcome, None), s) \<Rightarrow>
                         (let result =
                            (if outcome \<noteq> deleteClaimed
                             then (if outcome = deleteClaimUIDMismatch
                                     \<and> (case obj of Some ob \<Rightarrow> GetUID (env_k8s env) ob \<noteq> gt_uid target | None \<Rightarrow> False)
                                   then result\<lparr>gr_reincarnated := gr_reincarnated result @ [target]\<rparr> else result)
                             else result\<lparr>gr_zombies := Suc (gr_zombies result)\<rparr>)
                          in gcLoop env cancelled ref a w (Suc n) targets result s)))"

definition gcPass ::
    "pipeline_env \<Rightarrow> (nat \<Rightarrow> bool) \<Rightarrow> scopeRef \<Rightarrow> gcTarget list \<Rightarrow> pipeline \<Rightarrow> (gcResult \<times> gcError option) \<times> pipeline" where
  "gcPass env cancelled ref seeded s =
     (case env_router env (sr_sink ref) of
        None \<Rightarrow> ((\<lparr>gr_zombies = 0, gr_reincarnated = []\<rparr>, Some GcSinkUnavailable), s)
      | Some w \<Rightarrow>
          (let (a, s) = registry_get (sr_sink ref) s
           in gcLoop env cancelled ref a w 0 seeded \<lparr>gr_zombies = 0, gr_reincarnated = []\<rparr> s))"

text \<open>A stopped scope is permanent and a cancelled context ends the loop; other failures are retried.\<close>

fun collectZombies :: "attempt list \<Rightarrow> gcResult \<Rightarrow> scopeRef \<Rightarrow> gcTarget list \<Rightarrow> pipeline \<Rightarrow> gcResult \<times> pipeline" where
  "collectZombies [] result ref seeded s = (result, s)"
| "collectZombies ((env, cancelled) # attempts) result ref seeded s =
     (case gcPass env cancelled ref seeded s of
        ((r, None), s) \<Rightarrow> (r, s)
      | ((r, Some GcScopeStopped), s) \<Rightarrow> (r, s)
      | ((r, Some GcCancelled), s) \<Rightarrow> (r, s)
      | ((r, Some _), s) \<Rightarrow> collectZombies attempts r ref seeded s)"

section \<open>Refused reincarnations\<close>

text \<open>
  One look at the history: the targets still pending, and the incarnations whose successor's first
  row is there. The code ranges over a map; the model takes the targets in list order.
\<close>

definition evidence :: "KnownState list \<Rightarrow> gcTarget list \<Rightarrow> gcTarget list \<times> reincarnation list" where
  "evidence states pending =
     (let (rows, current) = indexIncarnations states;
          live = filter (\<lambda>t. gm_get rows t \<noteq> None) pending;
          isCurrent = (\<lambda>t. gm_get current (gt_namespace t, gt_name t) = Some (gt_uid t))
      in (filter isCurrent live,
          map (\<lambda>t. reincarnationOf (the (gm_get rows t))) (filter (\<lambda>t. \<not> isCurrent t) live)))"

fun recoverLoop ::
    "(KnownState list readerAnswer \<times> attempt list) list \<Rightarrow> scopeRef \<Rightarrow> gcTarget list \<Rightarrow> nat \<Rightarrow> pipeline \<Rightarrow> nat \<times> pipeline" where
  "recoverLoop [] ref pending recovered s = (recovered, s)"
| "recoverLoop ((NoStateReader, _) # _) ref pending recovered s = (recovered, s)"
| "recoverLoop ((ReadOk states, writers) # attempts) ref pending recovered s =
     (let (pending, found) = evidence states pending;
          (n, s) = emitCloseOuts writers ref found s
      in if pending \<noteq> [] then recoverLoop attempts ref pending (recovered + n) s else (recovered + n, s))"
| "recoverLoop (_ # attempts) ref pending recovered s = recoverLoop attempts ref pending recovered s"

definition recoverRefusedReincarnations ::
    "(KnownState list readerAnswer \<times> attempt list) list \<Rightarrow> scopeRef \<Rightarrow> gcTarget list \<Rightarrow> pipeline \<Rightarrow> nat \<times> pipeline" where
  "recoverRefusedReincarnations attempts ref refused s =
     (if refused = [] then (0, s) else recoverLoop attempts ref (remdups refused) 0 s)"

section \<open>One warm-up run\<close>

record warm_env =
  we_history :: "KnownState list readerAnswer list"
  we_polls :: "(bool \<times> bool) list"
  we_active :: "bool readerAnswer list"
  we_closeOuts :: "attempt list"
  we_gc :: "attempt list"
  we_recover :: "(KnownState list readerAnswer \<times> attempt list) list"

definition reconcileHistory ::
    "warm_env \<Rightarrow> scopeRef \<Rightarrow> gcTarget list \<Rightarrow> reincarnation list \<Rightarrow> pipeline \<Rightarrow> pipeline" where
  "reconcileHistory we ref seeded priors s =
     (let (_, s) = emitCloseOuts (we_closeOuts we) ref priors s in
      if seeded \<noteq> []
      then let (pass, s) = collectZombies (we_gc we) \<lparr>gr_zombies = 0, gr_reincarnated = []\<rparr> ref seeded s;
               (_, s) = recoverRefusedReincarnations (we_recover we) ref (gr_reincarnated pass) s
           in s
      else s)"

definition warm :: "warm_env \<Rightarrow> scopeRef \<Rightarrow> pipeline \<Rightarrow> pipeline" where
  "warm we ref s =
     (case seedScope ref (we_history we) s of
        (Inl _, s) \<Rightarrow> s
      | (Inr (seeded, priors), s) \<Rightarrow>
          (let s = MarkScopeWarm (sr_sink ref) (sr_scope ref) s in
           if Scope_ephemeral (sr_scope ref) then s
           else if seeded = [] \<and> priors = [] then s
           else if seeded \<noteq> [] \<and> \<not> awaitScopeSync (we_polls we) then s
           else case scopeWasActive (we_active we) of
                  Inl _ \<Rightarrow> s
                | Inr False \<Rightarrow> s
                | Inr True \<Rightarrow> reconcileHistory we ref seeded priors s))"

section \<open>The registry of runs\<close>

record WarmTarget =
  wt_Sink :: sink_id
  wt_Scope :: ScopeKey
  wt_EpochStart :: go_time

text \<open>
  A run's cancel function is the run's number; \<open>wc_spawned\<close> lists the goroutines started, and
  \<open>wc_cancelled\<close> the numbers whose context has been cancelled.
\<close>

record warmRun =
  wr_epoch :: go_time
  wr_cancel :: nat

record WarmCoordinator =
  wc_started :: bool
  wc_pending :: "WarmTarget list"
  wc_runs :: "(scopeRef, warmRun) gomap"
  wc_bootDone :: "sink_id list"
  wc_writerOnly :: "sink_id list"
  wc_stopped :: bool
  wc_spawned :: "(scopeRef \<times> go_time) list"
  wc_cancelled :: "nat list"

definition NewWarmCoordinator :: WarmCoordinator where
  "NewWarmCoordinator = \<lparr>wc_started = False, wc_pending = [], wc_runs = [], wc_bootDone = [], wc_writerOnly = [],
     wc_stopped = False, wc_spawned = [], wc_cancelled = []\<rparr>"

definition cancelRun :: "warmRun \<Rightarrow> WarmCoordinator \<Rightarrow> WarmCoordinator" where
  "cancelRun run c = c\<lparr>wc_cancelled := wr_cancel run # wc_cancelled c\<rparr>"

definition targetRef :: "WarmTarget \<Rightarrow> scopeRef" where
  "targetRef target = \<lparr>sr_sink = wt_Sink target, sr_scope = wt_Scope target\<rparr>"

definition spawn :: "WarmTarget \<Rightarrow> WarmCoordinator \<Rightarrow> WarmCoordinator" where
  "spawn target c =
     c\<lparr>wc_runs := gm_set (targetRef target)
           \<lparr>wr_epoch = wt_EpochStart target, wr_cancel = length (wc_spawned c)\<rparr> (wc_runs c),
       wc_spawned := wc_spawned c @ [(targetRef target, wt_EpochStart target)]\<rparr>"

definition startLocked :: "WarmTarget \<Rightarrow> WarmCoordinator \<Rightarrow> WarmCoordinator" where
  "startLocked target c =
     (case gm_get (wc_runs c) (targetRef target) of
        Some run \<Rightarrow>
          if \<not> wt_EpochStart target > wr_epoch run then c
          else spawn target (cancelRun run c)
      | None \<Rightarrow> spawn target c)"

definition WarmScope :: "WarmTarget \<Rightarrow> WarmCoordinator \<Rightarrow> WarmCoordinator" where
  "WarmScope target c =
     (if wc_stopped c then c
      else if \<not> wc_started c then c\<lparr>wc_pending := wc_pending c @ [target]\<rparr>
      else startLocked target c)"

definition StopScope :: "sink_id \<Rightarrow> ScopeKey \<Rightarrow> WarmCoordinator \<Rightarrow> WarmCoordinator" where
  "StopScope i scope c =
     (let ref = \<lparr>sr_sink = i, sr_scope = scope\<rparr>;
          c = (case gm_get (wc_runs c) ref of
                 Some run \<Rightarrow> (cancelRun run c)\<lparr>wc_runs := gm_del ref (wc_runs c)\<rparr>
               | None \<Rightarrow> c)
      in c\<lparr>wc_pending := filter (\<lambda>t. \<not> (wt_Sink t = i \<and> wt_Scope t = scope)) (wc_pending c)\<rparr>)"

definition cancelWhere :: "(scopeRef \<Rightarrow> bool) \<Rightarrow> WarmCoordinator \<Rightarrow> WarmCoordinator" where
  "cancelWhere P c =
     c\<lparr>wc_cancelled := map (\<lambda>(_, run). wr_cancel run) (filter (\<lambda>(ref, _). P ref) (wc_runs c)) @ wc_cancelled c,
       wc_runs := gm_filter (\<lambda>ref _. \<not> P ref) (wc_runs c)\<rparr>"

definition ForgetSink :: "sink_id \<Rightarrow> WarmCoordinator \<Rightarrow> WarmCoordinator" where
  "ForgetSink i c =
     (let c = c\<lparr>wc_bootDone := removeAll i (wc_bootDone c), wc_writerOnly := removeAll i (wc_writerOnly c)\<rparr>;
          c = cancelWhere (\<lambda>ref. sr_sink ref = i) c
      in c\<lparr>wc_pending := filter (\<lambda>t. wt_Sink t \<noteq> i) (wc_pending c)\<rparr>)"

text \<open>\<open>Start\<close>, before and after the epoch-reconciliation loop.\<close>

definition beginStart :: "WarmCoordinator \<Rightarrow> WarmCoordinator" where
  "beginStart c = fold startLocked (wc_pending c) (c\<lparr>wc_started := True, wc_pending := []\<rparr>)"

definition finishStart :: "WarmCoordinator \<Rightarrow> WarmCoordinator" where
  "finishStart c = cancelWhere (\<lambda>_. True) (c\<lparr>wc_stopped := True\<rparr>)"

definition announceWriterOnly :: "sink_id \<Rightarrow> WarmCoordinator \<Rightarrow> WarmCoordinator" where
  "announceWriterOnly i c = (if i \<in> set (wc_writerOnly c) then c else c\<lparr>wc_writerOnly := i # wc_writerOnly c\<rparr>)"

text \<open>What a run's seeding does to the coordinator: a sink that cannot read its history is announced.\<close>

fun seedAnnounce :: "scopeRef \<Rightarrow> KnownState list readerAnswer list \<Rightarrow> WarmCoordinator \<Rightarrow> WarmCoordinator" where
  "seedAnnounce ref [] c = c"
| "seedAnnounce ref (NoStateReader # _) c = announceWriterOnly (sr_sink ref) c"
| "seedAnnounce ref (ReadOk _ # _) c = c"
| "seedAnnounce ref (_ # answers) c = seedAnnounce ref answers c"

definition bootReconciled :: "sink_id \<Rightarrow> WarmCoordinator \<Rightarrow> bool" where
  "bootReconciled i c = (i \<in> set (wc_bootDone c))"

definition markBootReconciled :: "sink_id \<Rightarrow> WarmCoordinator \<Rightarrow> WarmCoordinator" where
  "markBootReconciled i c = c\<lparr>wc_bootDone := List.insert i (wc_bootDone c)\<rparr>"

section \<open>Scope epochs at boot\<close>

definition ScopeActionStopped :: string where "ScopeActionStopped = ''Stopped''"

record ScopeEvent =
  se_Action :: string
  se_Scope :: ScopeFilter
  se_APIVersion :: string
  se_RuleRef :: string
  se_TS :: go_time

definition filterScope :: "ScopeFilter \<Rightarrow> ScopeKey" where
  "filterScope f = \<lparr>scope_group = sf_APIGroup f, scope_kind = sf_Kind f, scope_namespace = sf_Namespace f\<rparr>"

record epoch_env =
  ee_active :: "sink_id \<Rightarrow> ScopeFilter list readerAnswer"
  ee_events :: "sink_id \<Rightarrow> (ScopeEvent \<Rightarrow> string option) option"
  ee_desired :: "sink_id \<Rightarrow> ScopeKey \<Rightarrow> bool"
  ee_now :: "ScopeFilter \<Rightarrow> go_time"

text \<open>The events accepted so far are returned also when a later one is refused.\<close>

fun closeLoop ::
    "epoch_env \<Rightarrow> sink_id \<Rightarrow> (ScopeEvent \<Rightarrow> string option) \<Rightarrow> ScopeFilter list \<Rightarrow> ScopeEvent list \<times> string option" where
  "closeLoop ee i enq [] = ([], None)"
| "closeLoop ee i enq (f # fs) =
     (if ee_desired ee i (filterScope f) then closeLoop ee i enq fs
      else let event = \<lparr>se_Action = ScopeActionStopped, se_Scope = f, se_APIVersion = [], se_RuleRef = [], se_TS = ee_now ee f\<rparr> in
           case enq event of
             Some e \<Rightarrow> ([], Some e)
           | None \<Rightarrow> (let (events, err) = closeLoop ee i enq fs in (event # events, err)))"

definition closeOrphanedScopes ::
    "epoch_env \<Rightarrow> sink_id \<Rightarrow> WarmCoordinator \<Rightarrow> (ScopeEvent list \<times> string option) \<times> WarmCoordinator" where
  "closeOrphanedScopes ee i c =
     (case ee_active ee i of
        NoStateReader \<Rightarrow> (([], None), announceWriterOnly i c)
      | SinkNotLive \<Rightarrow> (([], Some ''sink has no live instance yet''), c)
      | answer \<Rightarrow>
          (case ee_events ee i of
             None \<Rightarrow> (([], Some ''sink has no live scope-log writer''), c)
           | Some enq \<Rightarrow>
               (case answer of
                  ReadOk scopes \<Rightarrow> (closeLoop ee i enq scopes, c)
                | _ \<Rightarrow> (([], Some ''read failed''), c))))"

definition reconcileSink ::
    "epoch_env \<Rightarrow> sink_id \<Rightarrow> ScopeEvent list \<times> WarmCoordinator \<Rightarrow> ScopeEvent list \<times> WarmCoordinator" where
  "reconcileSink ee i acc =
     (case acc of (events, c) \<Rightarrow>
        if bootReconciled i c then (events, c)
        else case closeOrphanedScopes ee i c of
               ((es, None), c) \<Rightarrow> (events @ es, markBootReconciled i c)
             | ((es, Some _), c) \<Rightarrow> (events @ es, c))"

definition reconcileScopeEpochs ::
    "epoch_env \<Rightarrow> sink_id list \<Rightarrow> WarmCoordinator \<Rightarrow> ScopeEvent list \<times> WarmCoordinator" where
  "reconcileScopeEpochs ee ids c = fold (reconcileSink ee) ids ([], c)"

section \<open>Lemmas on history\<close>

lemma newer_not_refl [simp]: "\<not> newer x x"
  by (simp add: newer_def)

lemma newer_keep: "\<not> newer x z \<Longrightarrow> \<not> newer z y \<Longrightarrow> \<not> newer x y"
  unfolding newer_def by force

lemma newer_asym: "newer x y \<Longrightarrow> \<not> newer y x"
  unfolding newer_def by force

definition newest :: "KnownState list \<Rightarrow> KnownState \<Rightarrow> KnownState" where
  "newest xs c = fold (\<lambda>state current. if newer state current then state else current) xs c"

lemma newest_Cons: "newest (y # ys) c = newest ys (if newer y c then y else c)"
  by (simp add: newest_def)

lemma newest_spec: "newest xs c \<in> insert c (set xs) \<and> (\<forall>x \<in> insert c (set xs). \<not> newer x (newest xs c))"
proof (induction xs arbitrary: c)
  case Nil
  then show ?case by (simp add: newest_def)
next
  case (Cons y ys)
  show ?case
  proof (cases "newer y c")
    case True
    then show ?thesis using Cons.IH [of y] newer_keep [OF newer_asym [OF True]] by (auto simp: newest_Cons)
  next
    case False
    then show ?thesis using Cons.IH [of c] newer_keep [OF False] by (auto simp: newest_Cons)
  qed
qed

lemma splitIncarnations_eq:
  "splitIncarnations grp = (newest (tl grp) (hd grp),
     filter (\<lambda>state. ks_UID state \<noteq> ks_UID (newest (tl grp) (hd grp))) grp)"
  by (simp add: splitIncarnations_def newest_def Let_def)

lemma splitIncarnations_current:
  assumes "grp \<noteq> []" and "splitIncarnations grp = (current, unclosed)"
  shows "current \<in> set grp" and "x \<in> set grp \<Longrightarrow> \<not> newer x current"
    and "unclosed = filter (\<lambda>x. ks_UID x \<noteq> ks_UID current) grp"
  using newest_spec [of "tl grp" "hd grp"] assms by (cases grp; auto simp: splitIncarnations_eq)+

lemma gm_set_map:
  assumes "distinct is" and "k \<in> set is"
  shows "gm_set k v (map (\<lambda>i. (i, f i)) is) = map (\<lambda>i. (i, if i = k then v else f i)) is"
proof -
  have "gm_wf (map (\<lambda>i. (i, f i)) is)" using assms(1) by (simp add: gm_wf_def comp_def)
  then show ?thesis using assms(2) by (simp add: set_gm_set_present gm_get_map)
qed

abbreviation sameIdentity :: "KnownState list \<Rightarrow> identity \<Rightarrow> KnownState list" where
  "sameIdentity states i \<equiv> filter (\<lambda>x. identityOf x = i) states"

lemma fold_groupAdd:
  "\<exists>is. distinct is \<and> set is = identityOf ` set states
     \<and> fold groupAdd states [] = map (\<lambda>i. (i, sameIdentity states i)) is"
proof (induction states rule: rev_induct)
  case Nil
  then show ?case by simp
next
  case (snoc x states)
  then obtain "is" where d: "distinct is" and s: "set is = identityOf ` set states"
    and f: "fold groupAdd states [] = map (\<lambda>i. (i, sameIdentity states i)) is" by blast
  show ?case
  proof (cases "identityOf x \<in> set is")
    case True
    have "fold groupAdd (states @ [x]) [] = map (\<lambda>i. (i, sameIdentity (states @ [x]) i)) is"
      using True d by (simp add: f groupAdd_def gm_get_map gm_set_map)
    with True d s show ?thesis by (intro exI [of _ "is"]) auto
  next
    case False
    have "sameIdentity states (identityOf x) = []" using False s by (auto simp: filter_empty_conv) (metis image_eqI)
    moreover have "sameIdentity (states @ [x]) i = sameIdentity states i" if "i \<in> set is" for i
      using that False by auto
    ultimately have "fold groupAdd (states @ [x]) [] = map (\<lambda>i. (i, sameIdentity (states @ [x]) i)) (is @ [identityOf x])"
      using False by (simp add: f groupAdd_def gm_get_map)
    with False d s show ?thesis by (intro exI [of _ "is @ [identityOf x]"]) auto
  qed
qed

lemma groupByIdentity_spec:
  "\<exists>is. distinct is \<and> set is = identityOf ` set states \<and> groupByIdentity states = map (sameIdentity states) is"
  using fold_groupAdd [of states] by (auto simp: groupByIdentity_def comp_def)

lemma groupByIdentity_group:
  assumes "g \<in> set (groupByIdentity states)"
  shows "g \<noteq> []" and "set g \<subseteq> set states"
    and "x \<in> set g \<Longrightarrow> y \<in> set states \<Longrightarrow> identityOf y = identityOf x \<Longrightarrow> y \<in> set g"
    and "x \<in> set g \<Longrightarrow> y \<in> set g \<Longrightarrow> identityOf y = identityOf x"
proof -
  obtain "is" where "set is = identityOf ` set states" and "groupByIdentity states = map (sameIdentity states) is"
    using groupByIdentity_spec [of states] by blast
  with assms have "g \<in> sameIdentity states ` (identityOf ` set states)" by (metis list.set_map)
  then obtain i where i: "i \<in> identityOf ` set states" and g: "g = sameIdentity states i" by blast
  show "g \<noteq> []" "set g \<subseteq> set states" using i by (auto simp: g filter_empty_conv)
  show "x \<in> set g \<Longrightarrow> y \<in> set states \<Longrightarrow> identityOf y = identityOf x \<Longrightarrow> y \<in> set g"
    "x \<in> set g \<Longrightarrow> y \<in> set g \<Longrightarrow> identityOf y = identityOf x" by (auto simp: g)
qed


section \<open>Lemmas on seeding\<close>

definition gcTargetOf :: "KnownState \<Rightarrow> gcTarget" where
  "gcTargetOf k = \<lparr>gt_namespace = ks_Namespace k, gt_name = ks_Name k, gt_uid = ks_UID k\<rparr>"

definition currentOf :: "KnownState list \<Rightarrow> KnownState" where
  "currentOf grp = fst (splitIncarnations grp)"

abbreviation seedKey :: "scopeRef \<Rightarrow> KnownState \<Rightarrow> string" where
  "seedKey ref k \<equiv> cacheKey (scopeRef_key ref (ks_Namespace k) (ks_Name k))"

definition seedEntry :: "KnownState \<Rightarrow> CacheEntry" where
  "seedEntry k = CacheEntry_zero\<lparr>ce_Hash := ks_SHA256 k, ce_UID := ks_UID k\<rparr>"

definition seedCache :: "scopeRef \<Rightarrow> KnownState list list \<Rightarrow> hashCache \<Rightarrow> hashCache" where
  "seedCache ref groups = fold (\<lambda>grp. StoreIfAbsent (seedKey ref (currentOf grp)) (seedEntry (currentOf grp))) groups"

lemma seedGroup_eq:
  "seedGroup ref a grp (seeded, priors, s) =
     (seeded @ [gcTargetOf (currentOf grp)], priors @ map reincarnationOf (snd (splitIncarnations grp)),
      upd_st a (\<lambda>st. st\<lparr>st_cache := StoreIfAbsent (seedKey ref (currentOf grp)) (seedEntry (currentOf grp)) (st_cache (st_of a s))\<rparr>) s)"
  by (simp add: seedGroup_def currentOf_def gcTargetOf_def seedEntry_def Let_def case_prod_beta upd_cache_eq)

lemma fold_seedGroup:
  assumes "a < length (p_heap s)"
  shows "fold (seedGroup ref a) groups (seeded, priors, s) =
     (seeded @ map (gcTargetOf \<circ> currentOf) groups,
      priors @ concat (map (\<lambda>grp. map reincarnationOf (snd (splitIncarnations grp))) groups),
      upd_st a (\<lambda>st. st\<lparr>st_cache := seedCache ref groups (st_cache (st_of a s))\<rparr>) s)"
  using assms
proof (induction groups arbitrary: seeded priors s)
  case Nil
  then show ?case by (simp add: seedCache_def upd_st_same)
next
  case (Cons grp groups)
  let ?c = "StoreIfAbsent (seedKey ref (currentOf grp)) (seedEntry (currentOf grp)) (st_cache (st_of a s))"
  have "upd_st a (\<lambda>st. st\<lparr>st_cache := c'\<rparr>) (upd_st a (\<lambda>st. st\<lparr>st_cache := c\<rparr>) s) = upd_st a (\<lambda>st. st\<lparr>st_cache := c'\<rparr>) s"
    for c c' using Cons.prems by (simp add: upd_st_def)
  moreover have "st_cache (st_of a (upd_st a (\<lambda>st. st\<lparr>st_cache := ?c\<rparr>) s)) = ?c" using Cons.prems by simp
  ultimately show ?case
    using Cons.prems by (simp add: seedGroup_eq Cons.IH seedCache_def)
qed

lemma seedStates_eq:
  assumes "registry_get (sr_sink ref) s = (a, s1)" and "a < length (p_heap s1)"
  shows "seedStates ref states s =
    (map (gcTargetOf \<circ> currentOf) (groupByIdentity states),
     concat (map (\<lambda>grp. map reincarnationOf (snd (splitIncarnations grp))) (groupByIdentity states)),
     recordCacheEntries (sr_sink ref) a
       (upd_st a (\<lambda>st. st\<lparr>st_cache := seedCache ref (groupByIdentity states) (st_cache (st_of a s1))\<rparr>) s1))"
  by (simp add: seedStates_def assms(1) fold_seedGroup [OF assms(2)])

lemma seedCache_Load_present: "Load k c = Some e \<Longrightarrow> Load k (seedCache ref groups c) = Some e"
proof (induction groups arbitrary: c)
  case (Cons grp groups)
  have "Load k (StoreIfAbsent k' e' c) = Some e" for k' e'
    using Cons.prems by (auto simp: Load_def StoreIfAbsent_def split: option.split)
  then show ?case using Cons.IH by (simp add: seedCache_def)
qed (simp add: seedCache_def)

lemma seedCache_Load_absent:
  "Load k c = None \<Longrightarrow> Load k (seedCache ref groups c) =
     (case find (\<lambda>grp. seedKey ref (currentOf grp) = k) groups of
        None \<Rightarrow> None | Some grp \<Rightarrow> Some (seedEntry (currentOf grp)\<lparr>ce_Version := 1\<rparr>))"
proof (induction groups arbitrary: c)
  case Nil
  then show ?case by (simp add: seedCache_def)
next
  case (Cons grp groups)
  let ?c = "StoreIfAbsent (seedKey ref (currentOf grp)) (seedEntry (currentOf grp)) c"
  have step: "seedCache ref (grp # groups) c = seedCache ref groups ?c" by (simp add: seedCache_def)
  show ?case
  proof (cases "seedKey ref (currentOf grp) = k")
    case True
    then have "Load k ?c = Some (seedEntry (currentOf grp)\<lparr>ce_Version := 1\<rparr>)"
      using Cons.prems by (simp add: Load_def StoreIfAbsent_def)
    with True show ?thesis by (simp add: step seedCache_Load_present)
  next
    case False
    then have "Load k ?c = None"
      using Cons.prems by (auto simp: Load_def StoreIfAbsent_def split: option.split)
    with False show ?thesis by (simp add: step Cons.IH)
  qed
qed

lemma seedCache_wf: "gm_wf c \<Longrightarrow> gm_wf (seedCache ref groups c)"
  unfolding seedCache_def
  by (induction groups arbitrary: c) (auto simp: StoreIfAbsent_def split: option.split)

lemma currentOf_group:
  assumes "grp \<in> set (groupByIdentity states)"
  shows "currentOf grp \<in> set states" and "currentOf grp \<in> set grp"
    and "k \<in> set states \<Longrightarrow> identityOf k = identityOf (currentOf grp) \<Longrightarrow> \<not> newer k (currentOf grp)"
    and "k \<in> set grp \<Longrightarrow> identityOf k = identityOf (currentOf grp)"
proof -
  obtain current unclosed where sp: "splitIncarnations grp = (current, unclosed)" by (metis prod.exhaust)
  note cur = splitIncarnations_current [OF groupByIdentity_group(1) [OF assms] sp]
  have c: "currentOf grp = current" by (simp add: currentOf_def sp)
  show "currentOf grp \<in> set states" "currentOf grp \<in> set grp"
    using cur(1) groupByIdentity_group(2) [OF assms] c by auto
  show "k \<in> set states \<Longrightarrow> identityOf k = identityOf (currentOf grp) \<Longrightarrow> \<not> newer k (currentOf grp)"
    using groupByIdentity_group(3) [OF assms cur(1)] cur(2) c by simp
  show "k \<in> set grp \<Longrightarrow> identityOf k = identityOf (currentOf grp)"
    using groupByIdentity_group(4) [OF assms cur(1)] c by simp
qed


lemma distinct_currents: "distinct (map (identityOf \<circ> currentOf) (groupByIdentity states))"
proof -
  obtain "is" where d: "distinct is" and s: "set is = identityOf ` set states"
    and g: "groupByIdentity states = map (sameIdentity states) is" using groupByIdentity_spec by blast
  have "identityOf (currentOf (sameIdentity states i)) = i" if "i \<in> set is" for i
  proof -
    have "sameIdentity states i \<in> set (groupByIdentity states)" using that g by simp
    then have "currentOf (sameIdentity states i) \<in> set (sameIdentity states i)" by (rule currentOf_group(2))
    then show ?thesis by simp
  qed
  then have "map (identityOf \<circ> currentOf) (groupByIdentity states) = is" by (simp add: g map_idI)
  with d show ?thesis by simp
qed

lemma group_of_state:
  assumes "k \<in> set states"
  shows "\<exists>grp \<in> set (groupByIdentity states). k \<in> set grp"
proof -
  obtain "is" where s: "set is = identityOf ` set states"
    and g: "groupByIdentity states = map (sameIdentity states) is" using groupByIdentity_spec by blast
  have "sameIdentity states (identityOf k) \<in> set (groupByIdentity states)" using g s assms by simp
  then show ?thesis by (rule bexI [rotated]) (simp add: assms)
qed

lemma currents_unique:
  assumes "g \<in> set (groupByIdentity states)" and "h \<in> set (groupByIdentity states)"
    and "identityOf (currentOf g) = identityOf (currentOf h)"
  shows "g = h"
  using distinct_currents [of states] assms by (auto simp: distinct_map inj_on_def)

lemma gcTargetOf_eq: "gcTargetOf k = gcTargetOf h \<longleftrightarrow> identityOf k = identityOf h \<and> ks_UID k = ks_UID h"
  by (auto simp: gcTargetOf_def identityOf_def)

lemma unclosed_iff:
  assumes "grp \<in> set (groupByIdentity states)" and "k \<in> set grp"
  shows "ks_UID k \<noteq> ks_UID (currentOf grp) \<longleftrightarrow> gcTargetOf k \<notin> (gcTargetOf \<circ> currentOf) ` set (groupByIdentity states)"
proof -
  have "h = grp" if "h \<in> set (groupByIdentity states)" and "gcTargetOf k = gcTargetOf (currentOf h)" for h
    using that currentOf_group(4) [OF assms] currents_unique [OF that(1) assms(1)] by (simp add: gcTargetOf_eq)
  moreover have "gcTargetOf k = gcTargetOf (currentOf grp) \<longleftrightarrow> ks_UID k = ks_UID (currentOf grp)"
    using currentOf_group(4) [OF assms] by (simp add: gcTargetOf_eq)
  ultimately have "(\<exists>h \<in> set (groupByIdentity states). gcTargetOf k = gcTargetOf (currentOf h))
      \<longleftrightarrow> ks_UID k = ks_UID (currentOf grp)"
    using assms(1) by blast
  then show ?thesis by (simp add: image_iff)
qed

section \<open>Properties of seeding\<close>

text \<open>
  Warm-up reads a scope's history into one collection target for each identity, the newest row
  of that identity by timestamp and then UID, and queues a close-out for exactly the incarnations
  that are not that newest one.
\<close>

theorem seed_splits_history:
  assumes "reachable s" and "seedStates ref states s = (seeded, priors, s')"
  shows "distinct (map (\<lambda>t. (gt_namespace t, gt_name t)) seeded)
    \<and> (\<forall>k \<in> set states. \<exists>t \<in> set seeded. gt_namespace t = ks_Namespace k \<and> gt_name t = ks_Name k)
    \<and> (\<forall>t \<in> set seeded. \<exists>k \<in> set states. t = gcTargetOf k
         \<and> (\<forall>k' \<in> set states. identityOf k' = identityOf k \<longrightarrow> \<not> newer k' k))
    \<and> set priors = reincarnationOf ` {k \<in> set states. gcTargetOf k \<notin> set seeded}"
proof -
  obtain a s1 where g: "registry_get (sr_sink ref) s = (a, s1)" by (metis prod.exhaust)
  have "a < length (p_heap s1)" using registry_get_addr [OF reachable_ok [OF assms(1)] g] .
  note eq = seedStates_eq [OF g this, of states]
  let ?gs = "groupByIdentity states"
  have seeded: "seeded = map (gcTargetOf \<circ> currentOf) ?gs"
    and priors: "priors = concat (map (\<lambda>grp. map reincarnationOf (snd (splitIncarnations grp))) ?gs)"
    using assms(2) eq by auto
  have "map (\<lambda>t. (gt_namespace t, gt_name t)) seeded = map (identityOf \<circ> currentOf) ?gs"
    by (simp add: seeded gcTargetOf_def identityOf_def)
  then have 1: "distinct (map (\<lambda>t. (gt_namespace t, gt_name t)) seeded)" using distinct_currents by simp
  have 2: "\<exists>t \<in> set seeded. gt_namespace t = ks_Namespace k \<and> gt_name t = ks_Name k" if k: "k \<in> set states" for k
  proof -
    obtain grp where grp: "grp \<in> set ?gs" "k \<in> set grp" using group_of_state [OF k] by blast
    show ?thesis using currentOf_group(4) [OF grp] grp(1)
      by (intro bexI [of _ "gcTargetOf (currentOf grp)"]) (auto simp: seeded gcTargetOf_def identityOf_def)
  qed
  have 3: "\<exists>k \<in> set states. t = gcTargetOf k \<and> (\<forall>k' \<in> set states. identityOf k' = identityOf k \<longrightarrow> \<not> newer k' k)"
    if t: "t \<in> set seeded" for t
  proof -
    obtain grp where grp: "grp \<in> set ?gs" and t: "t = gcTargetOf (currentOf grp)" using t by (auto simp: seeded)
    show ?thesis using currentOf_group(1,3) [OF grp] t by blast
  qed
  have un: "set (snd (splitIncarnations grp)) = {k \<in> set grp. gcTargetOf k \<notin> set seeded}" if "grp \<in> set ?gs" for grp
    proof -
    have "set (snd (splitIncarnations grp)) = {k \<in> set grp. ks_UID k \<noteq> ks_UID (currentOf grp)}"
      by (simp add: splitIncarnations_eq currentOf_def)
    also have "\<dots> = {k \<in> set grp. gcTargetOf k \<notin> set seeded}"
      using unclosed_iff [OF that] by (simp only: seeded list.set_map) blast
    finally show ?thesis .
  qed
  have "set priors = (\<Union>grp \<in> set ?gs. reincarnationOf ` {k \<in> set grp. gcTargetOf k \<notin> set seeded})"
    unfolding priors set_concat list.set_map image_image using un by (intro SUP_cong) simp_all
  also have "\<dots> = reincarnationOf ` {k \<in> set states. gcTargetOf k \<notin> set seeded}"
  proof -
    have "(\<Union>grp \<in> set ?gs. set grp) = set states"
      using group_of_state [of _ states] groupByIdentity_group(2) [of _ states] by (intro set_eqI iffI) auto
    then show ?thesis by blast
  qed
  finally have 4: "set priors = \<dots>" .
  show ?thesis using 1 2 3 4 by blast
qed


definition sample_ref :: scopeRef where
  "sample_ref = \<lparr>sr_sink = key_sink sample_key, sr_scope = Scope sample_key\<rparr>"

definition sample_history :: "KnownState list" where
  "sample_history =
     [\<lparr>ks_Namespace = ''prod'', ks_Name = ''cfg'', ks_UID = ''u1'', ks_SHA256 = ''h1'', ks_APIVersion = ''v1'', ks_TS = 5\<rparr>,
      \<lparr>ks_Namespace = ''prod'', ks_Name = ''cfg'', ks_UID = ''u2'', ks_SHA256 = ''h2'', ks_APIVersion = ''v1'', ks_TS = 9\<rparr>]"

lemma sample_history_seeded:
  "map (gcTargetOf \<circ> currentOf) (groupByIdentity sample_history) =
     [\<lparr>gt_namespace = ''prod'', gt_name = ''cfg'', gt_uid = ''u2''\<rparr>]"
  by (simp add: sample_history_def groupByIdentity_def groupAdd_def identityOf_def gm_get_def gm_set_def
      currentOf_def splitIncarnations_def newer_def gcTargetOf_def)

theorem seed_splits_history_witness:
  "\<exists>seeded priors s'. seedStates sample_ref sample_history (newPipeline (\<lambda>n. int n)) = (seeded, priors, s')
     \<and> seeded = [\<lparr>gt_namespace = ''prod'', gt_name = ''cfg'', gt_uid = ''u2''\<rparr>]
     \<and> set priors = {reincarnationOf (sample_history ! 0)}"
proof -
  let ?s = "newPipeline (\<lambda>n. int n)"
  obtain seeded priors s' where sd: "seedStates sample_ref sample_history ?s = (seeded, priors, s')"
    by (metis prod.exhaust)
  have "registry_get (sr_sink sample_ref) ?s = (0, snd (registry_get (sr_sink sample_ref) ?s))"
    and "0 < length (p_heap (snd (registry_get (sr_sink sample_ref) ?s)))"
    by (simp_all add: registry_get_def newPipeline_def)
  from seedStates_eq [OF this, of sample_history] sd sample_history_seeded
  have s: "seeded = [\<lparr>gt_namespace = ''prod'', gt_name = ''cfg'', gt_uid = ''u2''\<rparr>]" by simp
  have "set priors = reincarnationOf ` {k \<in> set sample_history. gcTargetOf k \<notin> set seeded}"
    using seed_splits_history [OF reachable.init sd] by blast
  also have "{k \<in> set sample_history. gcTargetOf k \<notin> set seeded} = {sample_history ! 0}"
    by (auto simp: s sample_history_def gcTargetOf_def)
  finally show ?thesis using sd s by auto
qed

text \<open>The namespaces of a history read from the cluster hold no slash.\<close>

definition states_valid :: "KnownState list \<Rightarrow> bool" where
  "states_valid states = list_all (\<lambda>k. CHR ''/'' \<notin> set (ks_Namespace k)) states"

lemma scopeRef_key_valid:
  "scope_valid (sr_scope ref) \<Longrightarrow> CHR ''/'' \<notin> set ns \<Longrightarrow> key_valid (scopeRef_key ref ns n)"
  by (simp add: scope_valid_def key_valid_def scopeRef_key_def)

lemma scopeRef_key_ephemeral [simp]: "Key_ephemeral (scopeRef_key ref ns n) = Scope_ephemeral (sr_scope ref)"
  by (simp add: Key_ephemeral_def Scope_ephemeral_def scopeRef_key_def)

lemma scopeRef_key_sink [simp]: "key_sink (scopeRef_key ref ns n) = sr_sink ref"
  by (simp add: scopeRef_key_def)

lemma seedKey_inj:
  assumes "scope_valid (sr_scope ref)" and "states_valid states" and "k \<in> set states" and "h \<in> set states"
    and "seedKey ref k = seedKey ref h"
  shows "identityOf k = identityOf h"
proof -
  have v: "key_valid (scopeRef_key ref (ks_Namespace x) (ks_Name x))" if "x \<in> set states" for x
    using assms(1,2) that by (intro scopeRef_key_valid) (auto simp: states_valid_def list_all_iff)
  show ?thesis using cacheKey_inj [OF assms(5) v v] assms(3,4) by (simp add: scopeRef_key_def identityOf_def)
qed

text \<open>
  Seeding a scope's cache from history writes nothing to the sink and never overwrites what live
  traffic has already put there; an identity that had no entry gets the hash and the UID of its
  newest row, without a baseline, at version 1, and no other key appears.
\<close>

theorem seed_keeps_live_entries:
  assumes "reachable s" and "registry_get (sr_sink ref) s = (a, s1)"
    and "scope_valid (sr_scope ref)" and "states_valid states"
    and "seedStates ref states s = (seeded, priors, s')"
  shows "p_jobs s' = p_jobs s
    \<and> (\<forall>k e. Load k (st_cache (st_of a s1)) = Some e \<longrightarrow> Load k (st_cache (st_of a s')) = Some e)
    \<and> (\<forall>x \<in> set states. gcTargetOf x \<in> set seeded \<longrightarrow> Load (seedKey ref x) (st_cache (st_of a s1)) = None \<longrightarrow>
         (\<exists>y \<in> set states. gcTargetOf y = gcTargetOf x \<and> \<not> newer x y
            \<and> Load (seedKey ref x) (st_cache (st_of a s')) = Some (CacheEntry_zero
                 \<lparr>ce_Hash := ks_SHA256 y, ce_UID := ks_UID y, ce_Version := 1\<rparr>)))
    \<and> (\<forall>k. k \<notin> seedKey ref ` set states \<longrightarrow> Load k (st_cache (st_of a s')) = Load k (st_cache (st_of a s1)))"
proof -
  have len: "a < length (p_heap s1)" using registry_get_addr [OF reachable_ok [OF assms(1)] assms(2)] .
  let ?gs = "groupByIdentity states" and ?c = "st_cache (st_of a s1)"
  have jobs: "p_jobs s' = p_jobs s" and cache: "st_cache (st_of a s') = seedCache ref ?gs ?c"
    and seeded: "seeded = map (gcTargetOf \<circ> currentOf) ?gs"
    using seedStates_eq [OF assms(2) len, of states] assms(5) len registry_get_fields(1) [OF assms(2)]
    by (auto simp: recordCacheEntries_def)
  have new: "\<exists>y \<in> set states. gcTargetOf y = gcTargetOf x \<and> \<not> newer x y
      \<and> Load (seedKey ref x) (seedCache ref ?gs ?c) = Some (CacheEntry_zero
           \<lparr>ce_Hash := ks_SHA256 y, ce_UID := ks_UID y, ce_Version := 1\<rparr>)"
    if x: "x \<in> set states" "gcTargetOf x \<in> set seeded" and none: "Load (seedKey ref x) ?c = None" for x
  proof -
    obtain g where g: "g \<in> set ?gs" "gcTargetOf x = gcTargetOf (currentOf g)" using x(2) by (auto simp: seeded)
    then have "seedKey ref (currentOf g) = seedKey ref x" by (simp add: gcTargetOf_def)
    then have "find (\<lambda>grp. seedKey ref (currentOf grp) = seedKey ref x) ?gs \<noteq> None"
      using g(1) by (auto simp: find_None_iff)
    then obtain h where f: "find (\<lambda>grp. seedKey ref (currentOf grp) = seedKey ref x) ?gs = Some h" by blast
    then have h: "h \<in> set ?gs" "seedKey ref (currentOf h) = seedKey ref x"
      by (auto simp: find_Some_iff dest: nth_mem)
    have "identityOf (currentOf h) = identityOf x"
      using seedKey_inj [OF assms(3,4) currentOf_group(1) [OF h(1)] x(1) h(2)] .
    then have "h = g" using currents_unique [OF h(1) g(1)] g(2) by (simp add: gcTargetOf_eq)
    then show ?thesis
      using g x(1) currentOf_group(1,3) [OF g(1)] seedCache_Load_absent [OF none, of ref ?gs] f
      by (intro bexI [of _ "currentOf g"]) (auto simp: gcTargetOf_eq seedEntry_def)
  qed
  have other: "Load k (seedCache ref ?gs ?c) = Load k ?c" if k: "k \<notin> seedKey ref ` set states" for k
  proof (cases "Load k ?c")
    case None
    have "find (\<lambda>grp. seedKey ref (currentOf grp) = k) ?gs = None"
      using k currentOf_group(1) by (auto simp: find_None_iff)
    with None show ?thesis by (simp add: seedCache_Load_absent)
  qed (simp add: seedCache_Load_present)
  show ?thesis using jobs new other by (simp add: cache seedCache_Load_present)
qed


lemma sample_scope_valid: "scope_valid (sr_scope sample_ref)" "\<not> Scope_ephemeral (sr_scope sample_ref)"
  by (simp_all add: sample_ref_def sample_key_def Scope_def scope_valid_def Scope_ephemeral_def ephemeralKind_def eventKind_def)

lemma sample_history_valid: "states_valid sample_history"
  by (simp add: states_valid_def sample_history_def)

theorem seed_keeps_live_entries_witness:
  "\<exists>a s1 seeded priors s'. registry_get (sr_sink sample_ref) (newPipeline (\<lambda>n. int n)) = (a, s1)
     \<and> seedStates sample_ref sample_history (newPipeline (\<lambda>n. int n)) = (seeded, priors, s')
     \<and> Load (seedKey sample_ref (sample_history ! 1)) (st_cache (st_of a s')) = Some (CacheEntry_zero
          \<lparr>ce_Hash := ''h2'', ce_UID := ''u2'', ce_Version := 1\<rparr>)"
proof -
  let ?s = "newPipeline (\<lambda>n. int n)" and ?x = "sample_history ! 1"
  obtain a s1 where g: "registry_get (sr_sink sample_ref) ?s = (a, s1)" by (metis prod.exhaust)
  obtain seeded priors s' where sd: "seedStates sample_ref sample_history ?s = (seeded, priors, s')"
    by (metis prod.exhaust)
  have len: "a < length (p_heap s1)" using registry_get_addr [OF reachable_ok [OF reachable.init] g] .
  have "seeded = [\<lparr>gt_namespace = ''prod'', gt_name = ''cfg'', gt_uid = ''u2''\<rparr>]"
    using seedStates_eq [OF g len, of sample_history] sd sample_history_seeded by simp
  then have x: "?x \<in> set sample_history" "gcTargetOf ?x \<in> set seeded"
    by (simp_all add: sample_history_def gcTargetOf_def)
  have none: "Load (seedKey sample_ref ?x) (st_cache (st_of a s1)) = None"
    using g by (auto simp: registry_get_def newPipeline_def st_of_def sinkState_new_def Load_def)
  obtain y where "y \<in> set sample_history" "gcTargetOf y = gcTargetOf ?x"
    "Load (seedKey sample_ref ?x) (st_cache (st_of a s')) = Some (CacheEntry_zero
       \<lparr>ce_Hash := ks_SHA256 y, ce_UID := ks_UID y, ce_Version := 1\<rparr>)"
    using seed_keeps_live_entries [OF reachable.init g sample_scope_valid(1) sample_history_valid sd] x none by blast
  moreover from this have "y = ?x" by (auto simp: sample_history_def gcTargetOf_def)
  ultimately show ?thesis using g sd by (auto simp: sample_history_def)
qed


section \<open>Lemmas on zombie collection\<close>

lemma ReserveDelete_takes:
  assumes "ReserveDelete k uid c = ((e, v, deleteClaimed), c')"
  shows "Load k c = Some e" and "uid = [] \<or> ce_UID e = uid"
  using assms by (auto simp: ReserveDelete_def Load_def Let_def split: option.splits if_splits)

lemma enqueue_jobs:
  "enqueue w j s = (err, s') \<Longrightarrow> p_jobs s' = p_jobs s @ (if err = None then [j] else [])"
  by (auto simp: enqueue_def Let_def split: option.splits)

text \<open>A deletion is queued exactly when the claim succeeds and the writer accepts the row.\<close>

lemma emitDelete_jobs:
  assumes "emitDelete env key a w uid s = ((outcome, err), s')"
  shows "if outcome = deleteClaimed \<and> err = None
    then \<exists>e now v. (uid = [] \<or> ce_UID e = uid) \<and>
      p_jobs s' = p_jobs s @ [\<lparr>job_Record = deletedRecord env key e now, job_Commit = CommitDelete a key (cacheKey key) v\<rparr>]
    else p_jobs s' = p_jobs s"
proof -
  obtain entry version oc s1 where u: "upd_cache a (ReserveDelete (cacheKey key) uid) s = ((entry, version, oc), s1)"
    by (metis prod.exhaust)
  obtain now s2 where n: "p_now s1 = (now, s2)" by (metis prod.exhaust)
  let ?j = "\<lparr>job_Record = deletedRecord env key entry now, job_Commit = CommitDelete a key (cacheKey key) version\<rparr>"
  obtain er s3 where q: "enqueue w ?j s2 = (er, s3)" by (metis prod.exhaust)
  have j: "p_jobs s1 = p_jobs s" "p_jobs s3 = p_jobs s @ (if er = None then [?j] else [])"
    using u p_now_fields(2) [OF n] enqueue_jobs [OF q] by (auto simp: upd_cache_eq)
  show ?thesis
  proof (cases "oc = deleteClaimed")
    case True
    then have "uid = [] \<or> ce_UID entry = uid"
      using u ReserveDelete_takes(2) [of "cacheKey key" uid "st_cache (st_of a s)"]
      by (auto simp: upd_cache_eq) (metis prod.collapse fst_conv)+
    then show ?thesis using assms True j
      by (auto simp: emitDelete_unfold [OF u n q] upd_cache_eq split: option.splits)
  next
    case False
    then show ?thesis using assms j by (auto simp: emitDelete_unfold [OF u n q])
  qed
qed

definition zombieRow :: "pipeline_env \<Rightarrow> scopeRef \<Rightarrow> gcTarget \<Rightarrow> sink_record \<Rightarrow> bool" where
  "zombieRow env ref t r \<longleftrightarrow>
     (let key = scopeRef_key ref (gt_namespace t) (gt_name t) in
      rec_EventType r = ''Deleted'' \<and> row_identity key r \<and> (gt_uid t = [] \<or> rec_UID r = gt_uid t)
      \<and> (case env_lister env key of
           Inl _ \<Rightarrow> False
         | Inr (obj, scopeActive) \<Rightarrow> scopeActive \<and> (case obj of None \<Rightarrow> True | Some ob \<Rightarrow> GetUID (env_k8s env) ob \<noteq> gt_uid t)))"

text \<open>What one target does to a pass: it ends it, or the pass goes on from the state it leaves.\<close>

lemma gcLoop_step:
  assumes "gcLoop env cancelled ref a w n (t # ts) result s = ((r, err), s')"
  defines "key \<equiv> scopeRef_key ref (gt_namespace t) (gt_name t)"
  obtains "err \<noteq> None" and "r = result" and "s' = s"
  | obj where "env_lister env key = Inr (Some obj, True)" and "GetUID (env_k8s env) obj = gt_uid t"
      and "gcLoop env cancelled ref a w (Suc n) ts result s = ((r, err), s')"
  | obj outcome e s1 where "env_lister env key = Inr (obj, True)"
      and "\<And>ob. obj = Some ob \<Longrightarrow> GetUID (env_k8s env) ob \<noteq> gt_uid t"
      and "emitDelete env key a w (gt_uid t) s = ((outcome, Some e), s1)"
      and "err \<noteq> None" and "r = result" and "s' = s1"
  | obj outcome s1 result' where "env_lister env key = Inr (obj, True)"
      and "\<And>ob. obj = Some ob \<Longrightarrow> GetUID (env_k8s env) ob \<noteq> gt_uid t"
      and "emitDelete env key a w (gt_uid t) s = ((outcome, None), s1)"
      and "gr_zombies result' = gr_zombies result + (if outcome = deleteClaimed then 1 else 0)"
      and "set (gr_reincarnated result') \<subseteq> insert t (set (gr_reincarnated result))"
      and "gcLoop env cancelled ref a w (Suc n) ts result' s1 = ((r, err), s')"
proof (cases "cancelled n")
  case True
  with assms(1) show thesis by (intro that(1)) auto
next
  case False
  show thesis
  proof (cases "env_lister env key")
    case (Inl e)
    with assms(1) False show thesis by (intro that(1)) (auto simp: key_def)
  next
    case (Inr p)
    obtain obj active where p: "p = (obj, active)" by (cases p)
    show thesis
    proof (cases "active")
      case False
      with assms(1) \<open>\<not> cancelled n\<close> Inr p show thesis by (intro that(1)) (auto simp: key_def)
    next
      case active: True
      show thesis
      proof (cases "case obj of Some ob \<Rightarrow> GetUID (env_k8s env) ob = gt_uid t | None \<Rightarrow> False")
        case True
        then obtain ob where "obj = Some ob" "GetUID (env_k8s env) ob = gt_uid t" by (cases obj) auto
        with assms(1) \<open>\<not> cancelled n\<close> Inr p active show thesis
          by (intro that(2) [of ob]) (auto simp: key_def)
      next
        case no: False
        then have no': "\<And>ob. obj = Some ob \<Longrightarrow> GetUID (env_k8s env) ob \<noteq> gt_uid t" by simp
        have l: "env_lister env key = Inr (obj, True)" using Inr p active by simp
        obtain outcome er s1 where d: "emitDelete env key a w (gt_uid t) s = ((outcome, er), s1)" by (metis prod.exhaust)
        show thesis
        proof (cases er)
          case (Some e)
          with assms(1) \<open>\<not> cancelled n\<close> l no d show thesis
            by (intro that(3) [OF l no']) (auto simp: key_def)
        next
          case None
          let ?res = "if outcome \<noteq> deleteClaimed
             then (if outcome = deleteClaimUIDMismatch
                     \<and> (case obj of Some ob \<Rightarrow> GetUID (env_k8s env) ob \<noteq> gt_uid t | None \<Rightarrow> False)
                   then result\<lparr>gr_reincarnated := gr_reincarnated result @ [t]\<rparr> else result)
             else result\<lparr>gr_zombies := Suc (gr_zombies result)\<rparr>"
          have "gcLoop env cancelled ref a w (Suc n) ts ?res s1 = ((r, err), s')"
            using assms(1) \<open>\<not> cancelled n\<close> l no d None by (simp add: key_def Let_def)
          then show thesis by (intro that(4) [OF l no' d [unfolded None], of ?res]) auto
        qed
      qed
    qed
  qed
qed


lemma gcLoop_rows:
  assumes "gcLoop env cancelled ref a w n ts result s = ((r, err), s')"
  shows "\<exists>js. p_jobs s' = p_jobs s @ js \<and> gr_zombies r = gr_zombies result + length js
    \<and> (\<forall>j \<in> set js. \<exists>t \<in> set ts. zombieRow env ref t (job_Record j))"
  using assms
proof (induction ts arbitrary: n result s)
  case Nil
  then show ?case by simp
next
  case (Cons t ts)
  show ?case
  proof (rule gcLoop_step [OF Cons.prems], goal_cases)
    case 1
    then show ?thesis by simp
  next
    case (2 obj)
    then show ?thesis using Cons.IH by (meson list.set_intros(2))
  next
    case (3 obj outcome e s1)
    then show ?thesis using emitDelete_jobs [OF 3(3)] by simp
  next
    case (4 obj outcome s1 result')
    obtain js where js: "p_jobs s' = p_jobs s1 @ js" "gr_zombies r = gr_zombies result' + length js"
      "\<forall>j \<in> set js. \<exists>t \<in> set ts. zombieRow env ref t (job_Record j)"
      using Cons.IH [OF 4(6)] by blast
    show ?thesis
    proof (cases "outcome = deleteClaimed")
      case True
      let ?key = "scopeRef_key ref (gt_namespace t) (gt_name t)"
      obtain e now v where e: "gt_uid t = [] \<or> ce_UID e = gt_uid t"
        and j: "p_jobs s1 = p_jobs s @ [\<lparr>job_Record = deletedRecord env ?key e now,
            job_Commit = CommitDelete a ?key (cacheKey ?key) v\<rparr>]"
        using emitDelete_jobs [OF 4(3)] True by auto
      have "zombieRow env ref t (deletedRecord env ?key e now)"
        using 4(1,2) e deletedRecord_props by (auto simp: zombieRow_def deletedRecord_def split: option.split)
      with js j True 4(4) show ?thesis
        by (intro exI [of _ "\<lparr>job_Record = deletedRecord env ?key e now, job_Commit = CommitDelete a ?key (cacheKey ?key) v\<rparr> # js"])
          auto
    next
      case False
      then show ?thesis using js emitDelete_jobs [OF 4(3)] 4(4) by (intro exI [of _ js]) auto
    qed
  qed
qed

text \<open>The cache no longer shows the object as alive with that UID.\<close>

definition laidToRest :: "addr \<Rightarrow> string \<Rightarrow> string \<Rightarrow> pipeline \<Rightarrow> bool" where
  "laidToRest a k uid s \<longleftrightarrow>
     (case Load k (st_cache (st_of a s)) of None \<Rightarrow> True | Some e \<Rightarrow> ce_PendingDelete e \<or> ce_UID e \<noteq> uid)"

lemma ReserveDelete_rests:
  assumes "ReserveDelete k uid c = (r, c')"
  shows "case Load k c' of None \<Rightarrow> True | Some e \<Rightarrow> ce_PendingDelete e \<or> ce_UID e \<noteq> uid"
    and "case Load k2 c of None \<Rightarrow> True | Some e \<Rightarrow> ce_PendingDelete e \<or> ce_UID e \<noteq> uid2 \<Longrightarrow>
         case Load k2 c' of None \<Rightarrow> True | Some e \<Rightarrow> ce_PendingDelete e \<or> ce_UID e \<noteq> uid2"
proof -
  have "c' = c \<and> (gm_get c k = None \<or> (\<exists>e. gm_get c k = Some e \<and> (ce_PendingDelete e \<or> ce_UID e \<noteq> uid)))
      \<or> (\<exists>e. c' = gm_set k e c \<and> ce_PendingDelete e)"
    using assms by (cases "gm_get c k") (auto simp: ReserveDelete_def Let_def split: if_splits)
  then show "case Load k c' of None \<Rightarrow> True | Some e \<Rightarrow> ce_PendingDelete e \<or> ce_UID e \<noteq> uid"
    and "case Load k2 c of None \<Rightarrow> True | Some e \<Rightarrow> ce_PendingDelete e \<or> ce_UID e \<noteq> uid2 \<Longrightarrow>
         case Load k2 c' of None \<Rightarrow> True | Some e \<Rightarrow> ce_PendingDelete e \<or> ce_UID e \<noteq> uid2"
    by (auto simp: Load_def)
qed

lemma emitDelete_rests:
  assumes "emitDelete env key a w uid s = ((outcome, None), s')" and "a < length (p_heap s)"
  shows "laidToRest a (cacheKey key) uid s'" and "laidToRest a k2 uid2 s \<Longrightarrow> laidToRest a k2 uid2 s'"
    and "length (p_heap s') = length (p_heap s)"
proof -
  let ?c = "snd (ReserveDelete (cacheKey key) uid (st_cache (st_of a s)))"
  obtain entry version oc s1 where u: "upd_cache a (ReserveDelete (cacheKey key) uid) s = ((entry, version, oc), s1)"
    by (metis prod.exhaust)
  obtain now s2 where n: "p_now s1 = (now, s2)" by (metis prod.exhaust)
  obtain er s3 where q: "enqueue w \<lparr>job_Record = deletedRecord env key entry now,
      job_Commit = CommitDelete a key (cacheKey key) version\<rparr> s2 = (er, s3)" by (metis prod.exhaust)
  have "st_of a s3 = st_of a s1" "p_heap s3 = p_heap s1"
    using st_of_now [OF n] st_of_enqueue [OF q] enqueue_heap [OF q] n by simp_all
  moreover have "st_cache (st_of a s1) = ?c" "length (p_heap s1) = length (p_heap s)"
    using u assms(2) by (auto simp: upd_cache_eq)
  moreover have "s' = s1 \<or> s' = s3"
    using assms(1) by (auto simp: emitDelete_unfold [OF u n q] split: if_splits option.splits)
  ultimately have c: "st_cache (st_of a s') = ?c" and "length (p_heap s') = length (p_heap s)" by auto
  then show "length (p_heap s') = length (p_heap s)" by simp
  note rests = ReserveDelete_rests [of "cacheKey key" uid "st_cache (st_of a s)" _ ?c, OF prod.collapse [symmetric]]
  show "laidToRest a (cacheKey key) uid s'" "laidToRest a k2 uid2 s \<Longrightarrow> laidToRest a k2 uid2 s'"
    using rests by (simp_all only: laidToRest_def c)
qed

abbreviation targetKey :: "scopeRef \<Rightarrow> gcTarget \<Rightarrow> Key" where
  "targetKey ref t \<equiv> scopeRef_key ref (gt_namespace t) (gt_name t)"

definition shownAlive :: "pipeline_env \<Rightarrow> scopeRef \<Rightarrow> gcTarget \<Rightarrow> bool" where
  "shownAlive env ref t \<longleftrightarrow>
     (\<exists>ob. env_lister env (targetKey ref t) = Inr (Some ob, True) \<and> GetUID (env_k8s env) ob = gt_uid t)"

lemma gcLoop_complete:
  assumes "gcLoop env cancelled ref a w n ts result s = ((r, None), s')" and "a < length (p_heap s)"
  shows "(\<forall>t \<in> set ts. shownAlive env ref t \<or> laidToRest a (cacheKey (targetKey ref t)) (gt_uid t) s')
    \<and> (\<forall>k uid. laidToRest a k uid s \<longrightarrow> laidToRest a k uid s')"
  using assms
proof (induction ts arbitrary: n result s)
  case Nil
  then show ?case by simp
next
  case (Cons t ts)
  show ?case
  proof (rule gcLoop_step [OF Cons.prems(1)], goal_cases)
    case (2 obj)
    then have "shownAlive env ref t" by (auto simp: shownAlive_def)
    with Cons.IH [OF 2(3) Cons.prems(2)] show ?thesis by simp
  next
    case (4 obj outcome s1 result')
    note e = emitDelete_rests [OF 4(3) Cons.prems(2)]
    then have "a < length (p_heap s1)" using Cons.prems(2) by simp
    from Cons.IH [OF 4(6) this] e show ?thesis by simp
  qed simp_all
qed

text \<open>
  Zombie collection is safe and complete. A pass writes only Deleted rows, one for each zombie it
  counts, each for an object of the scope that history knows and whose incarnation the informer
  does not show, under that incarnation's UID. A pass that reports no error leaves every target
  either alive in the informer or no longer claimable under its UID in the cache.
\<close>

theorem gcPass_collects_zombies:
  assumes "reachable s" and "gcPass env cancelled ref seeded s = ((r, err), s')"
    and "registry_get (sr_sink ref) s = (a, s1)"
  shows "(\<exists>js. p_jobs s' = p_jobs s @ js \<and> gr_zombies r = length js
         \<and> (\<forall>j \<in> set js. \<exists>t \<in> set seeded. zombieRow env ref t (job_Record j)))
    \<and> (err = None \<longrightarrow>
         (\<forall>t \<in> set seeded. shownAlive env ref t \<or> laidToRest a (cacheKey (targetKey ref t)) (gt_uid t) s'))"
proof (cases "env_router env (sr_sink ref)")
  case None
  then show ?thesis using assms(2) by (auto simp: gcPass_def)
next
  case (Some w)
  have loop: "gcLoop env cancelled ref a w 0 seeded \<lparr>gr_zombies = 0, gr_reincarnated = []\<rparr> s1 = ((r, err), s')"
    using assms(2,3) Some by (simp add: gcPass_def)
  have "a < length (p_heap s1)" using registry_get_addr [OF reachable_ok [OF assms(1)] assms(3)] .
  then show ?thesis
    using gcLoop_rows [OF loop] gcLoop_complete [of env cancelled ref a w 0 seeded _ s1 r s'] loop
      registry_get_fields(1) [OF assms(3)] by auto
qed

theorem gcPass_collects_zombies_witness:
  "\<exists>r s' js. gcPass (sample_env None) (\<lambda>n. False) sample_ref [\<lparr>gt_namespace = ''ns'', gt_name = ''x'', gt_uid = ''u''\<rparr>]
       sample_state = ((r, None), s')
     \<and> p_jobs s' = js \<and> gr_zombies r = length js \<and> laidToRest 0 (cacheKey sample_key) ''u'' s'"
proof -
  let ?t = "\<lparr>gt_namespace = ''ns'', gt_name = ''x'', gt_uid = ''u''\<rparr>" and ?env = "sample_env None"
  have key: "targetKey sample_ref ?t = sample_key"
    by (simp add: sample_ref_def sample_key_def scopeRef_key_def Scope_def)
  have g: "registry_get (sr_sink sample_ref) sample_state = (0, sample_state)"
    by (intro registry_get_present) (simp add: sample_state_eq sample_key_def sample_ref_def gm_get_def)
  obtain outcome er s1 where d: "emitDelete ?env sample_key 0 sample_writer ''u'' sample_state = ((outcome, er), s1)"
    by (metis prod.exhaust)
  have l: "Load (cacheKey sample_key) (st_cache (st_of 0 sample_state)) = Some (sample_entry\<lparr>ce_Version := 1\<rparr>)"
    by (simp add: st_of_def sample_state_eq Load_def gm_get_def)
  have er: "er = None"
    using emitDelete_claimed [OF _ l, of "''u''" sample_writer ?env] d
    by (auto simp: sample_state_eq sample_entry_def CacheEntry_zero_def sample_writer_def)
  obtain r s' where p: "gcPass ?env (\<lambda>n. False) sample_ref [?t] sample_state = ((r, None), s')"
    using d key g by (simp add: gcPass_def sample_env_def er Let_def)
  have "\<not> shownAlive ?env sample_ref ?t" by (simp add: shownAlive_def sample_env_def)
  with gcPass_collects_zombies [OF sample_state_reachable p g] p key show ?thesis
    by (auto simp: sample_state_eq)
qed

section \<open>What a run may write\<close>

text \<open>A state that extends another one, by Deleted rows of the scope only.\<close>

definition scopeDeleted :: "scopeRef \<Rightarrow> sink_record \<Rightarrow> bool" where
  "scopeDeleted ref r \<longleftrightarrow> rec_EventType r = ''Deleted'' \<and> payload_free r
     \<and> rec_APIGroup r = scope_group (sr_scope ref) \<and> rec_Kind r = scope_kind (sr_scope ref)"

definition grows :: "scopeRef \<Rightarrow> pipeline \<Rightarrow> pipeline \<Rightarrow> bool" where
  "grows ref s s' \<longleftrightarrow> (pipeline_ok s \<longrightarrow> pipeline_ok s') \<and> length (p_heap s) \<le> length (p_heap s')
     \<and> (\<exists>js. p_jobs s' = p_jobs s @ js \<and> (\<forall>j \<in> set js. scopeDeleted ref (job_Record j)))"

lemma grows_refl [simp]: "grows ref s s"
  by (simp add: grows_def)

lemma grows_trans [trans]:
  assumes "grows ref s s1" and "grows ref s1 s2"
  shows "grows ref s s2"
proof -
  obtain js where js: "p_jobs s1 = p_jobs s @ js" "\<forall>j \<in> set js. scopeDeleted ref (job_Record j)"
    using assms(1) by (auto simp: grows_def)
  obtain ks where ks: "p_jobs s2 = p_jobs s1 @ ks" "\<forall>j \<in> set ks. scopeDeleted ref (job_Record j)"
    using assms(2) by (auto simp: grows_def)
  from js ks have "p_jobs s2 = p_jobs s @ (js @ ks)" "\<forall>j \<in> set (js @ ks). scopeDeleted ref (job_Record j)" by auto
  with assms show ?thesis unfolding grows_def by (meson order_trans)
qed

lemma grows_registry_get: "registry_get i s = (a, s1) \<Longrightarrow> grows ref s s1"
  by (simp add: grows_def registry_get_heap registry_get_fields(1) ok_registry_get)

definition prior_valid :: "reincarnation \<Rightarrow> bool" where
  "prior_valid r \<longleftrightarrow> CHR ''/'' \<notin> set (rn_namespace r)"

definition target_valid :: "gcTarget \<Rightarrow> bool" where
  "target_valid t \<longleftrightarrow> CHR ''/'' \<notin> set (gt_namespace t)"

definition ref_valid :: "scopeRef \<Rightarrow> bool" where
  "ref_valid ref \<longleftrightarrow> scope_valid (sr_scope ref) \<and> \<not> Scope_ephemeral (sr_scope ref)"

lemma closeOutRecord_ok:
  assumes "ref_valid ref" and "prior_valid prior"
  defines "key \<equiv> scopeRef_key ref (rn_namespace prior) (rn_name prior)"
  shows "closeout_ok (cacheKey key) (closeOutRecord c key prior)" and "scopeDeleted ref (closeOutRecord c key prior)"
proof -
  have "key_valid key" "\<not> Key_ephemeral key"
    using assms by (simp_all add: ref_valid_def prior_valid_def scopeRef_key_valid)
  moreover have "row_identity key (closeOutRecord c key prior)" "payload_free (closeOutRecord c key prior)"
    "rec_EventType (closeOutRecord c key prior) = ''Deleted''"
    by (simp_all add: closeOutRecord_def row_identity_def payload_free_def)
  ultimately show "closeout_ok (cacheKey key) (closeOutRecord c key prior)" by (auto simp: closeout_ok_def)
  show "scopeDeleted ref (closeOutRecord c key prior)"
    by (simp add: scopeDeleted_def closeOutRecord_def payload_free_def key_def scopeRef_key_def)
qed

lemma grows_enqueueCloseOut:
  assumes "pipeline_ok s" and "a < length (p_heap s)" and "closeout_ok k r" and "scopeDeleted ref r"
  shows "grows ref s (enqueueCloseOut key a w k r s)"
proof -
  obtain err s1 where e: "enqueue w \<lparr>job_Record = r, job_Commit = CommitCloseOut a key k r\<rparr> s = (err, s1)"
    by (metis prod.exhaust)
  have "p_jobs (enqueueCloseOut key a w k r s) = p_jobs s1"
    by (simp add: enqueueCloseOut_def e split: option.split)
  with enqueue_jobs [OF e] ok_enqueueCloseOut [OF assms(1-3), of key w] assms(4)
  show ?thesis by (auto simp: grows_def)
qed

lemma grows_closeOutLoop:
  assumes "closeOutLoop env cancelled ref a w n priors s = (m, s')" and "pipeline_ok s" and "a < length (p_heap s)"
    and "ref_valid ref" and "list_all prior_valid priors"
  shows "grows ref s s'"
  using assms
proof (induction priors arbitrary: n s)
  case (Cons prior priors)
  let ?key = "scopeRef_key ref (rn_namespace prior) (rn_name prior)"
  let ?s = "enqueueCloseOut ?key a w (cacheKey ?key) (closeOutRecord (env_clusterID env) ?key prior) s"
  show ?case
  proof (cases "cancelled n")
    case False
    have "prior_valid prior" using Cons.prems(5) by simp
    note r = closeOutRecord_ok [OF Cons.prems(4) this, of "env_clusterID env"]
    have g: "grows ref s ?s" using Cons.prems(2,3) r by (rule grows_enqueueCloseOut)
    have "grows ref ?s s'"
      using Cons.prems False ok_enqueueCloseOut [OF Cons.prems(2,3) r(1)] by (intro Cons.IH) (auto simp: Let_def)
    with g show ?thesis by (rule grows_trans)
  qed (use Cons.prems in auto)
qed simp

lemma grows_emitCloseOuts:
  assumes "emitCloseOuts attempts ref priors s = (n, s')" and "pipeline_ok s"
    and "ref_valid ref" and "list_all prior_valid priors"
  shows "grows ref s s'"
  using assms
proof (induction attempts ref priors s rule: emitCloseOuts.induct)
  case (3 env cancelled attempts ref p ps s)
  show ?case
  proof (cases "env_router env (sr_sink ref)")
    case None
    then show ?thesis using 3 by simp
  next
    case (Some w)
    obtain a s1 where g: "registry_get (sr_sink ref) s = (a, s1)" by (metis prod.exhaust)
    obtain m s2 where l: "closeOutLoop env cancelled ref a w 0 (p # ps) s1 = (m, s2)" by (metis prod.exhaust)
    have "s' = s2" using 3(2) Some g l by (auto simp: Let_def split: option.splits)
    moreover have "grows ref s1 s2"
      using l ok_registry_get [OF 3(3) g] registry_get_addr [OF 3(3) g] 3(4,5) by (rule grows_closeOutLoop)
    ultimately show ?thesis using grows_trans [OF grows_registry_get [OF g]] by blast
  qed
qed auto


lemma grows_emitDelete:
  assumes "emitDelete env (targetKey ref t) a w uid s = ((outcome, err), s')" and "pipeline_ok s"
    and "a < length (p_heap s)" and "ref_valid ref" and "target_valid t"
  shows "grows ref s s'" and "pipeline_ok s'" and "length (p_heap s') = length (p_heap s)"
proof -
  have k: "key_valid (targetKey ref t)" "\<not> Key_ephemeral (targetKey ref t)"
    using assms(4,5) by (simp_all add: ref_valid_def target_valid_def scopeRef_key_valid)
  show ok: "pipeline_ok s'" "length (p_heap s') = length (p_heap s)"
    using ok_emitDelete [OF assms(2,3) k, of env w uid] assms(1) by simp_all
  have "scopeDeleted ref (deletedRecord env (targetKey ref t) e now)" for e now
    by (simp add: scopeDeleted_def deletedRecord_def payload_free_def scopeRef_key_def)
  then show "grows ref s s'" using ok emitDelete_jobs [OF assms(1)] by (auto simp: grows_def split: if_splits)
qed

lemma grows_gcLoop:
  assumes "gcLoop env cancelled ref a w n ts result s = ((r, err), s')" and "pipeline_ok s"
    and "a < length (p_heap s)" and "ref_valid ref" and "list_all target_valid ts"
    and "list_all target_valid (gr_reincarnated result)"
  shows "grows ref s s' \<and> list_all target_valid (gr_reincarnated r)"
  using assms
proof (induction ts arbitrary: n result s)
  case (Cons t ts)
  have t: "target_valid t" using Cons.prems(5) by simp
  show ?case
  proof (rule gcLoop_step [OF Cons.prems(1)], goal_cases)
    case 1
    then show ?thesis using Cons.prems by simp
  next
    case (2 obj)
    then show ?thesis using Cons by simp
  next
    case (3 obj outcome e s1)
    then show ?thesis using grows_emitDelete [OF 3(3) Cons.prems(2-4) t] Cons.prems by simp
  next
    case (4 obj outcome s1 result')
    note e = grows_emitDelete [OF 4(3) Cons.prems(2-4) t]
    have "list_all target_valid (gr_reincarnated result')"
      using 4(5) Cons.prems(6) t unfolding list_all_iff by blast
    then have "grows ref s1 s' \<and> list_all target_valid (gr_reincarnated r)"
      using Cons.prems e by (intro Cons.IH [OF 4(6)]) simp_all
    then show ?thesis using grows_trans [OF e(1)] by blast
  qed
qed simp

lemma grows_gcPass:
  assumes "gcPass env cancelled ref seeded s = ((r, err), s')" and "pipeline_ok s"
    and "ref_valid ref" and "list_all target_valid seeded"
  shows "grows ref s s' \<and> list_all target_valid (gr_reincarnated r)"
proof (cases "env_router env (sr_sink ref)")
  case None
  then show ?thesis using assms by (auto simp: gcPass_def)
next
  case (Some w)
  obtain a s1 where g: "registry_get (sr_sink ref) s = (a, s1)" by (metis prod.exhaust)
  have "gcLoop env cancelled ref a w 0 seeded \<lparr>gr_zombies = 0, gr_reincarnated = []\<rparr> s1 = ((r, err), s')"
    using assms(1) Some g by (simp add: gcPass_def)
  from grows_gcLoop [OF this ok_registry_get [OF assms(2) g] registry_get_addr [OF assms(2) g] assms(3,4)]
  show ?thesis using grows_trans [OF grows_registry_get [OF g]] by simp
qed

lemma grows_collectZombies:
  assumes "collectZombies attempts result ref seeded s = (r, s')" and "pipeline_ok s"
    and "ref_valid ref" and "list_all target_valid seeded" and "list_all target_valid (gr_reincarnated result)"
  shows "grows ref s s' \<and> list_all target_valid (gr_reincarnated r)"
  using assms
proof (induction attempts arbitrary: result s)
  case Nil
  then show ?case by simp
next
  case (Cons attempt attempts)
  obtain env cancelled where at: "attempt = (env, cancelled)" by (cases attempt)
  obtain r1 err s1 where p: "gcPass env cancelled ref seeded s = ((r1, err), s1)" by (metis prod.exhaust)
  have g: "grows ref s s1" "list_all target_valid (gr_reincarnated r1)"
    using grows_gcPass [OF p Cons.prems(2-4)] by simp_all
  then have ok: "pipeline_ok s1" using Cons.prems(2) by (simp add: grows_def)
  have "(r1, s1) = (r, s') \<or> collectZombies attempts r1 ref seeded s1 = (r, s')"
    using Cons.prems(1) by (auto simp: at p split: option.splits gcError.splits)
  then show ?case
    using g grows_trans [OF g(1)] Cons.IH [OF _ ok Cons.prems(3,4) g(2)] by auto
qed

lemma gm_get_fold_set:
  "gm_get (fold (\<lambda>x. gm_set (f x) x) xs m) k = Some y \<Longrightarrow> gm_get m k = Some y \<or> (y \<in> set xs \<and> f y = k)"
proof (induction xs arbitrary: m)
  case (Cons x xs)
  from Cons.IH [of "gm_set (f x) x m"] Cons.prems show ?case by (auto split: if_splits)
qed simp

lemma indexIncarnations_rows:
  assumes "gm_get (fst (indexIncarnations states)) t = Some y"
  shows "y \<in> set states \<and> gcTargetOf y = t"
proof -
  let ?step = "\<lambda>grp (rows, current).
            let newest = fst (splitIncarnations grp) in
            (fold (\<lambda>state. gm_set \<lparr>gt_namespace = ks_Namespace state, gt_name = ks_Name state, gt_uid = ks_UID state\<rparr> state)
               grp rows,
             gm_set (identityOf newest) (ks_UID newest) current)"
  have "gm_get (fst acc) t = Some y \<or> (\<exists>g \<in> set gs. y \<in> set g \<and> gcTargetOf y = t)"
    if "gm_get (fst (fold ?step gs acc)) t = Some y" for gs acc
    using that
  proof (induction gs arbitrary: acc)
    case (Cons g gs)
    have "fst (?step g acc) = fold (\<lambda>x. gm_set (gcTargetOf x) x) g (fst acc)"
      by (simp add: case_prod_beta Let_def gcTargetOf_def)
    with Cons.IH [of "?step g acc"] Cons.prems gm_get_fold_set [of gcTargetOf g "fst acc" t y] show ?case by auto
  qed simp
  from this [OF assms [unfolded indexIncarnations_def]] groupByIdentity_group(2) show ?thesis by auto
qed

lemma evidence_valid:
  assumes "evidence states pending = (pending', found)" and "states_valid states"
  shows "list_all prior_valid found"
proof -
  obtain rows current where ix: "indexIncarnations states = (rows, current)" by (metis prod.exhaust)
  have "prior_valid (reincarnationOf y)" if y: "gm_get rows t = Some y" for t y
    using indexIncarnations_rows [of states t y] y ix assms(2)
    by (simp add: states_valid_def list_all_iff prior_valid_def reincarnationOf_def)
  then show ?thesis using assms(1) by (auto simp: evidence_def ix Let_def list_all_iff)
qed


definition answers_valid :: "KnownState list readerAnswer list \<Rightarrow> bool" where
  "answers_valid answers = list_all (\<lambda>answer. case answer of ReadOk states \<Rightarrow> states_valid states | _ \<Rightarrow> True) answers"

lemma grows_recoverLoop:
  assumes "recoverLoop attempts ref pending recovered s = (n, s')" and "pipeline_ok s"
    and "ref_valid ref" and "answers_valid (map fst attempts)"
  shows "grows ref s s'"
  using assms
proof (induction attempts ref pending recovered s rule: recoverLoop.induct)
  case (3 states writers attempts ref pending recovered s)
  obtain pending' found where ev: "evidence states pending = (pending', found)" by (metis prod.exhaust)
  obtain m s1 where c: "emitCloseOuts writers ref found s = (m, s1)" by (metis prod.exhaust)
  have "list_all prior_valid found" using evidence_valid [OF ev] 3(5) by (simp add: answers_valid_def)
  then have g: "grows ref s s1" using grows_emitCloseOuts [OF c 3(3,4)] by simp
  then have ok: "pipeline_ok s1" using 3(3) by (simp add: grows_def)
  show ?case
  proof (cases "pending' = []")
    case True
    then show ?thesis using 3(2) g by (simp add: ev c Let_def)
  next
    case False
    then have "grows ref s1 s'"
      using 3(1) [OF ev [symmetric] refl c [symmetric] refl False _ ok 3(4)] 3(2,5)
      by (simp add: ev c Let_def answers_valid_def)
    then show ?thesis by (rule grows_trans [OF g])
  qed
qed (auto simp: answers_valid_def)

lemma grows_reconcileHistory:
  assumes "pipeline_ok s" and "ref_valid ref" and "list_all target_valid seeded" and "list_all prior_valid priors"
    and "answers_valid (map fst (we_recover we))"
  shows "grows ref s (reconcileHistory we ref seeded priors s)"
proof -
  obtain n s1 where c: "emitCloseOuts (we_closeOuts we) ref priors s = (n, s1)" by (metis prod.exhaust)
  have g1: "grows ref s s1" using c assms(1,2,4) by (rule grows_emitCloseOuts)
  then have ok1: "pipeline_ok s1" using assms(1) by (simp add: grows_def)
  obtain pass s2 where z: "collectZombies (we_gc we) \<lparr>gr_zombies = 0, gr_reincarnated = []\<rparr> ref seeded s1 = (pass, s2)"
    by (metis prod.exhaust)
  have g2: "grows ref s1 s2" using grows_collectZombies [OF z ok1 assms(2,3)] by simp
  then have ok2: "pipeline_ok s2" using ok1 by (simp add: grows_def)
  obtain m s3 where r: "recoverRefusedReincarnations (we_recover we) ref (gr_reincarnated pass) s2 = (m, s3)"
    by (metis prod.exhaust)
  have g3: "grows ref s2 s3"
    using r grows_recoverLoop [OF _ ok2 assms(2,5)] by (auto simp: recoverRefusedReincarnations_def split: if_splits)
  show ?thesis
    using g1 grows_trans [OF grows_trans [OF g1 g2] g3] by (simp add: reconcileHistory_def c z r)
qed

lemma seedStates_effect:
  assumes "pipeline_ok s" and "seedStates ref states s = (seeded, priors, s')"
  shows "pipeline_ok s'" and "p_jobs s' = p_jobs s"
    and "states_valid states \<Longrightarrow> list_all target_valid seeded \<and> list_all prior_valid priors"
proof -
  obtain a s1 where g: "registry_get (sr_sink ref) s = (a, s1)" by (metis prod.exhaust)
  have s1: "pipeline_ok s1" "a < length (p_heap s1)"
    using ok_registry_get [OF assms(1) g] registry_get_addr [OF assms(1) g] by simp_all
  note eq = seedStates_eq [OF g s1(2), of states]
  let ?f = "\<lambda>st. st\<lparr>st_cache := seedCache ref (groupByIdentity states) (st_cache (st_of a s1))\<rparr>"
  have "pipeline_ok (upd_st a ?f s1)"
    using ok_st_of [OF s1] by (intro ok_upd_st [OF s1(1)]) (simp add: st_ok_def seedCache_wf)
  then show "pipeline_ok s'" "p_jobs s' = p_jobs s"
    using assms(2) eq registry_get_fields(1) [OF g] by (auto simp: recordCacheEntries_def)
  assume v: "states_valid states"
  have "target_valid (gcTargetOf (currentOf grp))" "list_all prior_valid (map reincarnationOf (snd (splitIncarnations grp)))"
    if "grp \<in> set (groupByIdentity states)" for grp
    using v currentOf_group(1) [OF that] groupByIdentity_group(2) [OF that]
    by (auto simp: states_valid_def target_valid_def gcTargetOf_def prior_valid_def reincarnationOf_def
        list_all_iff splitIncarnations_eq)
  then show "list_all target_valid seeded \<and> list_all prior_valid priors"
    using assms(2) eq by (auto simp: list_all_iff)
qed

lemma seedScope_effect:
  assumes "pipeline_ok s" and "seedScope ref answers s = (res, s')" and "answers_valid answers"
  shows "pipeline_ok s' \<and> p_jobs s' = p_jobs s
    \<and> (\<forall>seeded priors. res = Inr (seeded, priors) \<longrightarrow> list_all target_valid seeded \<and> list_all prior_valid priors)"
  using assms
proof (induction ref answers s rule: seedScope.induct)
  case (3 ref states answers s)
  obtain seeded priors s1 where sd: "seedStates ref states s = (seeded, priors, s1)" by (metis prod.exhaust)
  show ?case using seedStates_effect [OF 3(1) sd] 3(2,3) by (auto simp: sd answers_valid_def)
qed (auto simp: answers_valid_def)


definition sample_warm_env :: warm_env where
  "sample_warm_env = \<lparr>we_history = [ReadFailed, ReadOk sample_history], we_polls = [(False, True), (True, True)],
     we_active = [ReadOk True], we_closeOuts = [(sample_env None, \<lambda>n. False)], we_gc = [], we_recover = []\<rparr>"

lemma sample_priors:
  "concat (map (\<lambda>grp. map reincarnationOf (snd (splitIncarnations grp))) (groupByIdentity sample_history))
     = [reincarnationOf (sample_history ! 0)]"
  by (simp add: sample_history_def groupByIdentity_def groupAdd_def identityOf_def gm_get_def gm_set_def
      splitIncarnations_def newer_def)

lemma enqueueCloseOut_accepted:
  assumes "\<forall>n r. w_Enqueue w n r = None"
  shows "p_jobs (enqueueCloseOut key a w k r s) = p_jobs s @ [\<lparr>job_Record = r, job_Commit = CommitCloseOut a key k r\<rparr>]"
  using assms by (simp add: enqueueCloseOut_def enqueue_accepted)


section \<open>The registry of runs\<close>

text \<open>
  Every operation of the coordinator, in any order. A run is live when its context has not been
  cancelled; the registry holds exactly the live runs, at most one for a scope.
\<close>

inductive coordinated :: "WarmCoordinator \<Rightarrow> bool" where
  new: "coordinated NewWarmCoordinator"
| warmScope: "coordinated c \<Longrightarrow> coordinated (WarmScope target c)"
| stopScope: "coordinated c \<Longrightarrow> coordinated (StopScope i scope c)"
| forgetSink: "coordinated c \<Longrightarrow> coordinated (ForgetSink i c)"
| beginStart: "coordinated c \<Longrightarrow> \<not> wc_started c \<Longrightarrow> coordinated (beginStart c)"
| finishStart: "coordinated c \<Longrightarrow> coordinated (finishStart c)"
| announce: "coordinated c \<Longrightarrow> coordinated (seedAnnounce ref answers c)"
| reconcile: "coordinated c \<Longrightarrow> coordinated (snd (reconcileScopeEpochs ee ids c))"

definition live_run :: "WarmCoordinator \<Rightarrow> nat \<Rightarrow> bool" where
  "live_run c n \<longleftrightarrow> n < length (wc_spawned c) \<and> n \<notin> set (wc_cancelled c)"

definition runs_ok :: "WarmCoordinator \<Rightarrow> bool" where
  "runs_ok c \<longleftrightarrow> gm_wf (wc_runs c)
     \<and> (\<forall>ref run. gm_get (wc_runs c) ref = Some run \<longrightarrow>
          live_run c (wr_cancel run) \<and> wc_spawned c ! wr_cancel run = (ref, wr_epoch run))
     \<and> (\<forall>n. live_run c n \<longrightarrow> (\<exists>run. gm_get (wc_runs c) (fst (wc_spawned c ! n)) = Some run \<and> wr_cancel run = n))
     \<and> (\<forall>n \<in> set (wc_cancelled c). n < length (wc_spawned c))"

lemma spawn_fields [simp]:
  "wc_runs (spawn t c) = gm_set (targetRef t) \<lparr>wr_epoch = wt_EpochStart t, wr_cancel = length (wc_spawned c)\<rparr> (wc_runs c)"
  "wc_spawned (spawn t c) = wc_spawned c @ [(targetRef t, wt_EpochStart t)]"
  "wc_cancelled (spawn t c) = wc_cancelled c" "wc_started (spawn t c) = wc_started c" "wc_stopped (spawn t c) = wc_stopped c"
  by (simp_all add: spawn_def)

lemma runs_ok_spawn:
  assumes "runs_ok c" and "gm_get (wc_runs c) (targetRef t) = None"
  shows "runs_ok (spawn t c)"
proof -
  let ?n = "length (wc_spawned c)"
  have live: "live_run (spawn t c) n \<longleftrightarrow> live_run c n \<or> n = ?n" for n
    using assms(1) by (auto simp: live_run_def runs_ok_def)
  have old: "n < ?n" if "live_run c n" for n using that by (simp add: live_run_def)
  show ?thesis unfolding runs_ok_def
  proof (intro conjI allI impI ballI, goal_cases)
    case 1
    then show ?case using assms(1) by (simp add: runs_ok_def)
  next
    case (2 ref run)
    then show ?case using assms(1) live by (auto simp: runs_ok_def split: if_splits)
  next
    case (3 ref run)
    show ?case
    proof (cases "ref = targetRef t")
      case True
      with 3 show ?thesis by auto
    next
      case False
      with 3 have "gm_get (wc_runs c) ref = Some run" by simp
      with assms(1) have "live_run c (wr_cancel run)" "wc_spawned c ! wr_cancel run = (ref, wr_epoch run)"
        by (simp_all add: runs_ok_def)
      with old show ?thesis by (simp add: nth_append)
    qed
  next
    case (4 n)
    show ?case
    proof (cases "n = ?n")
      case False
      then have n: "live_run c n" using 4 live by simp
      then obtain run where run: "gm_get (wc_runs c) (fst (wc_spawned c ! n)) = Some run" "wr_cancel run = n"
        using assms(1) unfolding runs_ok_def by blast
      then have "fst (wc_spawned c ! n) \<noteq> targetRef t" using assms(2) by auto
      with run old [OF n] show ?thesis by (simp add: nth_append)
    qed simp
  next
    case (5 n)
    then show ?case using assms(1) by (auto simp: runs_ok_def less_Suc_eq)
  qed
qed

text \<open>Cancelling some runs and dropping exactly those from the registry.\<close>

lemma runs_ok_cancel:
  assumes "runs_ok c" and "gm_wf (wc_runs c')"
    and get': "\<And>ref. gm_get (wc_runs c') ref = (if P ref then None else gm_get (wc_runs c) ref)"
    and "set (wc_cancelled c') = {wr_cancel run | ref run. gm_get (wc_runs c) ref = Some run \<and> P ref} \<union> set (wc_cancelled c)"
    and "wc_spawned c' = wc_spawned c"
  shows "runs_ok c'"
proof -
  have get: "gm_get (wc_runs c') ref = Some run \<longleftrightarrow> gm_get (wc_runs c) ref = Some run \<and> \<not> P ref" for ref run
    by (simp add: get')
  have sp: "live_run c (wr_cancel run)" "wc_spawned c ! wr_cancel run = (ref, wr_epoch run)"
    if "gm_get (wc_runs c) ref = Some run" for ref run
    using that assms(1) by (simp_all add: runs_ok_def)
  have live: "live_run c' n \<longleftrightarrow> live_run c n \<and> \<not> P (fst (wc_spawned c ! n))" for n
  proof
    assume l: "live_run c' n"
    then have lc: "live_run c n" using assms(4,5) by (simp add: live_run_def)
    then obtain run where run: "gm_get (wc_runs c) (fst (wc_spawned c ! n)) = Some run" "wr_cancel run = n"
      using assms(1) unfolding runs_ok_def by blast
    then have "\<not> P (fst (wc_spawned c ! n))" using l assms(4) unfolding live_run_def by blast
    with lc show "live_run c n \<and> \<not> P (fst (wc_spawned c ! n))" by simp
  next
    assume l: "live_run c n \<and> \<not> P (fst (wc_spawned c ! n))"
    have "n \<noteq> wr_cancel run" if "gm_get (wc_runs c) ref = Some run" "P ref" for ref run
      using sp(2) [OF that(1)] that(2) l by auto
    then have "n \<notin> set (wc_cancelled c')" using l assms(4) by (auto simp: live_run_def)
    with l show "live_run c' n" by (simp add: live_run_def assms(5))
  qed
  show ?thesis unfolding runs_ok_def
  proof (intro conjI allI impI ballI, goal_cases)
    case 1
    show ?case by (rule assms(2))
  next
    case (2 ref run)
    then show ?case using sp [of ref run] by (simp add: get live)
  next
    case (3 ref run)
    then show ?case using sp [of ref run] by (simp add: get assms(5))
  next
    case (4 n)
    then have n: "live_run c n" "\<not> P (fst (wc_spawned c ! n))" by (simp_all add: live)
    then obtain run where "gm_get (wc_runs c) (fst (wc_spawned c ! n)) = Some run" "wr_cancel run = n"
      using assms(1) unfolding runs_ok_def by blast
    with n(2) show ?case by (simp add: get assms(5))
  next
    case (5 n)
    then show ?case using assms(1,4,5) sp by (auto simp: runs_ok_def live_run_def)
  qed
qed


lemma runs_ok_same:
  assumes "runs_ok c" and "wc_runs c' = wc_runs c" and "wc_spawned c' = wc_spawned c" and "wc_cancelled c' = wc_cancelled c"
  shows "runs_ok c'"
  using assms by (simp add: runs_ok_def live_run_def)

lemma runs_ok_startLocked:
  assumes "runs_ok c" shows "runs_ok (startLocked t c)"
proof (cases "gm_get (wc_runs c) (targetRef t)")
  case None
  then show ?thesis using assms by (simp add: startLocked_def runs_ok_spawn)
next
  case (Some run)
  let ?c = "(cancelRun run c)\<lparr>wc_runs := gm_del (targetRef t) (wc_runs c)\<rparr>"
  have "runs_ok ?c"
    using assms Some by (intro runs_ok_cancel [OF assms, of _ "\<lambda>ref. ref = targetRef t"]) (auto simp: runs_ok_def cancelRun_def)
  then have ok: "runs_ok (spawn t ?c)" by (intro runs_ok_spawn) auto
  have "runs_ok (spawn t (cancelRun run c))"
    using assms by (intro runs_ok_cancel [OF ok, of _ "\<lambda>_. False"]) (auto simp: runs_ok_def cancelRun_def)
  then show ?thesis using assms by (simp add: startLocked_def Some)
qed

lemma runs_ok_fold_startLocked: "runs_ok c \<Longrightarrow> runs_ok (fold startLocked ts c)"
  by (induction ts arbitrary: c) (simp_all add: runs_ok_startLocked)

lemma runs_ok_WarmScope: "runs_ok c \<Longrightarrow> runs_ok (WarmScope t c)"
  by (auto simp: WarmScope_def runs_ok_startLocked intro: runs_ok_same)

lemma runs_ok_StopScope:
  assumes "runs_ok c" shows "runs_ok (StopScope i scope c)"
proof (cases "gm_get (wc_runs c) \<lparr>sr_sink = i, sr_scope = scope\<rparr>")
  case None
  then show ?thesis using assms by (auto simp: StopScope_def intro: runs_ok_same)
next
  case (Some run)
  then show ?thesis using assms
    by (intro runs_ok_cancel [OF assms, of _ "\<lambda>ref. ref = \<lparr>sr_sink = i, sr_scope = scope\<rparr>"])
      (auto simp: StopScope_def runs_ok_def cancelRun_def)
qed

lemma runs_ok_cancelWhere:
  assumes "runs_ok c" shows "runs_ok (cancelWhere P c)"
proof (rule runs_ok_cancel [OF assms, of _ P])
  have wf: "gm_wf (wc_runs c)" using assms by (simp add: runs_ok_def)
  show "gm_wf (wc_runs (cancelWhere P c))" using wf by (simp add: cancelWhere_def)
  show "gm_get (wc_runs (cancelWhere P c)) ref = (if P ref then None else gm_get (wc_runs c) ref)" for ref
    using wf by (simp add: cancelWhere_def gm_get_filter split: option.split)
  show "set (wc_cancelled (cancelWhere P c)) =
      {wr_cancel run | ref run. gm_get (wc_runs c) ref = Some run \<and> P ref} \<union> set (wc_cancelled c)"
    using wf by (force simp: cancelWhere_def gm_get_iff_set)
qed (simp add: cancelWhere_def)

lemma runs_ok_announce: "runs_ok c \<Longrightarrow> runs_ok (announceWriterOnly i c)"
  by (auto simp: announceWriterOnly_def intro: runs_ok_same)

lemma runs_ok_seedAnnounce: "runs_ok c \<Longrightarrow> runs_ok (seedAnnounce ref answers c)"
  by (induction ref answers c rule: seedAnnounce.induct) (simp_all add: runs_ok_announce)

lemma closeOrphanedScopes_coordinator:
  "snd (closeOrphanedScopes ee i c) = (if ee_active ee i = NoStateReader then announceWriterOnly i c else c)"
  by (auto simp: closeOrphanedScopes_def split: readerAnswer.splits option.splits)

lemma runs_ok_reconcileSink:
  assumes "runs_ok (snd acc)" shows "runs_ok (snd (reconcileSink ee i acc))"
proof -
  obtain es c where acc: "acc = (es, c)" by (cases acc)
  obtain es' err c' where cl: "closeOrphanedScopes ee i c = ((es', err), c')" by (metis prod.exhaust)
  have "c' = (if ee_active ee i = NoStateReader then announceWriterOnly i c else c)"
    using closeOrphanedScopes_coordinator [of ee i c] cl by simp
  then have "runs_ok c'" using assms acc by (simp add: runs_ok_announce)
  then show ?thesis using assms acc
    by (auto simp: reconcileSink_def cl markBootReconciled_def split: option.split intro: runs_ok_same)
qed

lemma runs_ok_reconcile: "runs_ok c \<Longrightarrow> runs_ok (snd (reconcileScopeEpochs ee ids c))"
proof -
  have "runs_ok (snd acc) \<Longrightarrow> runs_ok (snd (fold (reconcileSink ee) ids acc))" for acc
    by (induction ids arbitrary: acc) (simp_all add: runs_ok_reconcileSink)
  then show "runs_ok c \<Longrightarrow> runs_ok (snd (reconcileScopeEpochs ee ids c))" by (simp add: reconcileScopeEpochs_def)
qed

lemma coordinated_runs_ok: "coordinated c \<Longrightarrow> runs_ok c"
proof (induction rule: coordinated.induct)
  case new
  then show ?case by (simp add: NewWarmCoordinator_def runs_ok_def live_run_def)
next
  case (forgetSink c i)
  let ?c = "c\<lparr>wc_bootDone := removeAll i (wc_bootDone c), wc_writerOnly := removeAll i (wc_writerOnly c)\<rparr>"
  have "runs_ok (cancelWhere (\<lambda>ref. sr_sink ref = i) ?c)"
    using forgetSink by (intro runs_ok_cancelWhere) (auto intro: runs_ok_same)
  then show ?case unfolding ForgetSink_def Let_def by (rule runs_ok_same) simp_all
next
  case (beginStart c)
  then show ?case unfolding beginStart_def by (intro runs_ok_fold_startLocked) (auto intro: runs_ok_same)
next
  case (finishStart c)
  then show ?case unfolding finishStart_def by (intro runs_ok_cancelWhere) (auto intro: runs_ok_same)
qed (simp_all add: runs_ok_WarmScope runs_ok_StopScope runs_ok_seedAnnounce runs_ok_reconcile)

text \<open>
  Whatever the order of its operations, the coordinator never has two live warm-up runs for one
  scope, a live run is always the registered one and belongs to the epoch it was started for, and
  after a scope is stopped no run for it is live.
\<close>

theorem one_live_run_per_scope:
  assumes "coordinated c" and "live_run c n"
  shows "(\<exists>ref run. wc_spawned c ! n = (ref, wr_epoch run) \<and> gm_get (wc_runs c) ref = Some run
       \<and> (\<forall>m. live_run c m \<longrightarrow> fst (wc_spawned c ! m) = ref \<longrightarrow> m = n)
       \<and> \<not> live_run (StopScope (sr_sink ref) (sr_scope ref) c) n)"
proof -
  have ok: "runs_ok c" using assms(1) by (rule coordinated_runs_ok)
  obtain run where run: "gm_get (wc_runs c) (fst (wc_spawned c ! n)) = Some run" "wr_cancel run = n"
    using ok assms(2) unfolding runs_ok_def by blast
  then have sp: "wc_spawned c ! n = (fst (wc_spawned c ! n), wr_epoch run)" using ok unfolding runs_ok_def by blast
  have "m = n" if m: "live_run c m" "fst (wc_spawned c ! m) = fst (wc_spawned c ! n)" for m
  proof -
    obtain r where "gm_get (wc_runs c) (fst (wc_spawned c ! m)) = Some r" "wr_cancel r = m"
      using ok m(1) unfolding runs_ok_def by blast
    with run m(2) show ?thesis by simp
  qed
  moreover have "\<not> live_run (StopScope (sr_sink (fst (wc_spawned c ! n))) (sr_scope (fst (wc_spawned c ! n))) c) n"
  proof -
    have eta: "\<lparr>sr_sink = sr_sink r, sr_scope = sr_scope r\<rparr> = r" for r :: scopeRef by simp
    show ?thesis using run by (simp add: StopScope_def Let_def live_run_def cancelRun_def eta)
  qed
  ultimately show ?thesis using run(1) sp by blast
qed

theorem one_live_run_per_scope_witness:
  "\<exists>c. coordinated c \<and> live_run c 1 \<and> \<not> live_run c 0
     \<and> (\<forall>m. live_run c m \<longrightarrow> fst (wc_spawned c ! m) = sample_ref \<longrightarrow> m = 1)"
proof -
  let ?t = "\<lambda>e. \<lparr>wt_Sink = sr_sink sample_ref, wt_Scope = sr_scope sample_ref, wt_EpochStart = e\<rparr>"
  let ?c = "WarmScope (?t 7) (WarmScope (?t 6) (WarmScope (?t 7) (beginStart (WarmScope (?t 5) NewWarmCoordinator))))"
  have c: "coordinated ?c"
    by (intro coordinated.intros) (simp add: WarmScope_def NewWarmCoordinator_def)
  have ref: "targetRef (?t e) = sample_ref" for e by (simp add: targetRef_def)
  have l: "live_run ?c 1" "\<not> live_run ?c 0" "fst (wc_spawned ?c ! 1) = sample_ref"
    by (simp_all add: live_run_def WarmScope_def NewWarmCoordinator_def beginStart_def startLocked_def spawn_def
        cancelRun_def ref gm_get_def gm_set_def)
  from one_live_run_per_scope [OF c l(1)] l(3)
  have "\<forall>m. live_run ?c m \<longrightarrow> fst (wc_spawned ?c ! m) = sample_ref \<longrightarrow> m = 1" by (metis fst_conv)
  with c l(1,2) show ?thesis by blast
qed


section \<open>Epochs left open by a crash\<close>

definition stoppedEvent :: "epoch_env \<Rightarrow> ScopeFilter \<Rightarrow> ScopeEvent" where
  "stoppedEvent ee f = \<lparr>se_Action = ScopeActionStopped, se_Scope = f, se_APIVersion = [], se_RuleRef = [], se_TS = ee_now ee f\<rparr>"

lemma closeLoop_spec:
  "closeLoop ee i enq fs = (es, err) \<Longrightarrow>
   (\<exists>rest. map (stoppedEvent ee) (filter (\<lambda>f. \<not> ee_desired ee i (filterScope f)) fs) = es @ rest
      \<and> (err = None \<longleftrightarrow> rest = []))"
proof (induction fs arbitrary: es err)
  case (Cons f fs)
  obtain es1 err1 where r: "closeLoop ee i enq fs = (es1, err1)" by (metis prod.exhaust)
  have step: "closeLoop ee i enq (f # fs) =
      (if ee_desired ee i (filterScope f) then (es1, err1)
       else case enq (stoppedEvent ee f) of Some e \<Rightarrow> ([], Some e) | None \<Rightarrow> (stoppedEvent ee f # es1, err1))"
    by (simp add: r Let_def stoppedEvent_def split: option.split)
  show ?case
    using Cons.IH [OF r] Cons.prems unfolding step by (cases "enq (stoppedEvent ee f)") (auto split: if_splits, metis+)
qed simp

text \<open>
  At boot the coordinator closes exactly the epochs that the sink still shows open and that
  nothing watches any more: a pass over a sink marks it reconciled only after every such scope got
  its Stopped event, never stops a scope that is desired, and does nothing once it is reconciled.
\<close>

theorem boot_closes_orphaned_scopes:
  assumes "ee_active ee i = ReadOk open_scopes"
    and "reconcileSink ee i (events, c) = (events', c')"
  shows "\<exists>es. events' = events @ es
    \<and> (\<forall>e \<in> set es. se_Action e = ScopeActionStopped \<and> se_Scope e \<in> set open_scopes
         \<and> \<not> ee_desired ee i (filterScope (se_Scope e)))
    \<and> (bootReconciled i c \<longrightarrow> es = [] \<and> c' = c)
    \<and> (\<not> bootReconciled i c \<longrightarrow> bootReconciled i c' \<longrightarrow>
         map se_Scope es = filter (\<lambda>f. \<not> ee_desired ee i (filterScope f)) open_scopes)"
proof (cases "bootReconciled i c")
  case True
  then show ?thesis using assms(2) by (simp add: reconcileSink_def)
next
  case False
  show ?thesis
  proof (cases "ee_events ee i")
    case None
    then show ?thesis using assms False by (auto simp: reconcileSink_def closeOrphanedScopes_def)
  next
    case (Some enq)
    obtain es err where cl: "closeLoop ee i enq open_scopes = (es, err)" by (metis prod.exhaust)
    obtain rest where rest: "map (stoppedEvent ee) (filter (\<lambda>f. \<not> ee_desired ee i (filterScope f)) open_scopes) = es @ rest"
      "err = None \<longleftrightarrow> rest = []"
      using closeLoop_spec [OF cl] by blast
    have r: "events' = events @ es" "c' = (if err = None then markBootReconciled i c else c)"
      using assms False Some by (auto simp: reconcileSink_def closeOrphanedScopes_def cl split: option.splits)
    have "set es \<subseteq> stoppedEvent ee ` set (filter (\<lambda>f. \<not> ee_desired ee i (filterScope f)) open_scopes)"
      using rest(1) by (metis Un_upper1 list.set_map set_append)
    moreover have "map se_Scope es = filter (\<lambda>f. \<not> ee_desired ee i (filterScope f)) open_scopes" if "err = None"
    proof -
      have "map se_Scope es = map (se_Scope \<circ> stoppedEvent ee) (filter (\<lambda>f. \<not> ee_desired ee i (filterScope f)) open_scopes)"
        using rest that by (metis append_Nil2 list.map_comp)
      then show ?thesis by (simp add: stoppedEvent_def comp_def)
    qed
    ultimately show ?thesis using False r by (auto simp: stoppedEvent_def split: if_splits)
  qed
qed

definition sample_filter :: "string \<Rightarrow> ScopeFilter" where
  "sample_filter ns = \<lparr>sf_ClusterID = ''c'', sf_APIGroup = [], sf_Kind = ''Pod'', sf_Namespace = ns\<rparr>"

definition sample_epochs :: epoch_env where
  "sample_epochs = \<lparr>ee_active = (\<lambda>i. ReadOk [sample_filter ''a'', sample_filter ''b'']), ee_events = (\<lambda>i. Some (\<lambda>e. None)),
     ee_desired = (\<lambda>i s. scope_namespace s = ''a''), ee_now = (\<lambda>f. 3)\<rparr>"

theorem boot_closes_orphaned_scopes_witness:
  "\<exists>es c'. reconcileSink sample_epochs (sr_sink sample_ref) ([], NewWarmCoordinator) = (es, c')
     \<and> bootReconciled (sr_sink sample_ref) c' \<and> map se_Scope es = [sample_filter ''b'']"
proof -
  let ?i = "sr_sink sample_ref"
  have a: "ee_active sample_epochs ?i = ReadOk [sample_filter ''a'', sample_filter ''b'']" by (simp add: sample_epochs_def)
  obtain es c' where r: "reconcileSink sample_epochs ?i ([], NewWarmCoordinator) = (es, c')" by (metis prod.exhaust)
  have n: "\<not> bootReconciled ?i NewWarmCoordinator" by (simp add: bootReconciled_def NewWarmCoordinator_def)
  have b: "bootReconciled ?i c'"
    using r n by (auto simp: reconcileSink_def closeOrphanedScopes_def sample_epochs_def filterScope_def sample_filter_def
        markBootReconciled_def bootReconciled_def)
  have "filter (\<lambda>f. \<not> ee_desired sample_epochs ?i (filterScope f)) [sample_filter ''a'', sample_filter ''b''] = [sample_filter ''b'']"
    by (simp add: sample_epochs_def filterScope_def sample_filter_def)
  with boot_closes_orphaned_scopes [OF a r] n b r show ?thesis by auto
qed

end
