(* ===== verification/Plan.thy ===== *)
theory Plan
  imports Identity
begin

text \<open>
  The desired-state registry (\<open>internal/plan/registry.go\<close>): the seam between the control plane,
  which writes each rule's watch targets under the rule's key, and the data plane, which reads the
  merged targets. The registry keeps two indexes, the rules' target sets and a reference-counted
  merged view; the theorems show that the merged view is always the one the rules determine.

  A Go set of targets is a list without duplicates. Where the code ranges over a map the model takes
  the list's order; the invariant holds for every order. \<open>labels.Parse\<close> followed by \<open>String\<close> is a
  library's and a parameter, in \<open>labels_env\<close>. The notification channel has capacity one: it is the
  flag \<open>reg_changes\<close>, set when a wake-up is pending.
\<close>

section \<open>Targets\<close>

record GroupVersionKind =
  gvk_Group :: string
  gvk_Version :: string
  gvk_Kind :: string

record WatchTarget =
  wtg_Sink :: sink_id
  wtg_GVK :: GroupVersionKind
  wtg_Namespace :: string
  wtg_Selector :: string
  wtg_Redaction :: string
  wtg_EventFilter :: string

record TargetKey =
  tk_Sink :: sink_id
  tk_GVK :: GroupVersionKind
  tk_Namespace :: string

definition WatchTarget_Key :: "WatchTarget \<Rightarrow> TargetKey" where
  "WatchTarget_Key t = \<lparr>tk_Sink = wtg_Sink t, tk_GVK = wtg_GVK t, tk_Namespace = wtg_Namespace t\<rparr>"

record TargetState =
  ts_Key :: TargetKey
  ts_RuleKeys :: "string list"
  ts_Selectors :: "string list"
  ts_Redactions :: "string list"
  ts_EventFilters :: "string list"

section \<open>Selectors\<close>

type_synonym labels_env = "string \<Rightarrow> string option"

definition canonicalizeSelectorString :: "labels_env \<Rightarrow> string \<Rightarrow> string option" where
  "canonicalizeSelectorString parse s = (if s = [] then Some [] else parse s)"

text \<open>A selector object is a parameter too; an omitted one selects everything.\<close>

definition CanonicalSelector :: "('s \<Rightarrow> string option) \<Rightarrow> 's option \<Rightarrow> string option" where
  "CanonicalSelector asSelector ls = (case ls of None \<Rightarrow> Some [] | Some l \<Rightarrow> asSelector l)"

section \<open>Reference counts\<close>

type_synonym refcounts = "(string, int) gomap"

definition refcount :: "refcounts \<Rightarrow> string \<Rightarrow> int" where
  "refcount m k = (case gm_get m k of None \<Rightarrow> 0 | Some n \<Rightarrow> n)"

definition incRef :: "string \<Rightarrow> refcounts \<Rightarrow> refcounts" where
  "incRef k m = gm_set k (refcount m k + 1) m"

definition decRef :: "string \<Rightarrow> refcounts \<Rightarrow> refcounts" where
  "decRef k m = (if refcount m k - 1 \<le> 0 then gm_del k m else gm_set k (refcount m k - 1) m)"

record targetEntry =
  te_rules :: refcounts
  te_selectors :: refcounts
  te_redactions :: refcounts
  te_eventFilters :: refcounts

definition targetEntry_new :: targetEntry where
  "targetEntry_new = \<lparr>te_rules = [], te_selectors = [], te_redactions = [], te_eventFilters = []\<rparr>"

section \<open>The registry\<close>

record Registry =
  reg_rules :: "(string, WatchTarget list) gomap"
  reg_targets :: "(TargetKey, targetEntry) gomap"
  reg_changes :: bool

definition Registry_New :: Registry where
  "Registry_New = \<lparr>reg_rules = [], reg_targets = [], reg_changes = False\<rparr>"

definition addRef :: "string \<Rightarrow> WatchTarget \<Rightarrow> targetEntry \<Rightarrow> targetEntry" where
  "addRef ruleKey t entry =
     (let entry = entry\<lparr>te_rules := incRef ruleKey (te_rules entry),
            te_selectors := incRef (wtg_Selector t) (te_selectors entry),
            te_eventFilters := incRef (wtg_EventFilter t) (te_eventFilters entry)\<rparr>
      in if wtg_Redaction t \<noteq> [] then entry\<lparr>te_redactions := incRef (wtg_Redaction t) (te_redactions entry)\<rparr> else entry)"

definition addRefLocked ::
    "string \<Rightarrow> WatchTarget \<Rightarrow> (TargetKey, targetEntry) gomap \<Rightarrow> (TargetKey, targetEntry) gomap" where
  "addRefLocked ruleKey t targets =
     (let key = WatchTarget_Key t;
          entry = (case gm_get targets key of Some e \<Rightarrow> e | None \<Rightarrow> targetEntry_new)
      in gm_set key (addRef ruleKey t entry) targets)"

definition dropRef :: "string \<Rightarrow> WatchTarget \<Rightarrow> targetEntry \<Rightarrow> targetEntry" where
  "dropRef ruleKey t entry =
     (let entry = entry\<lparr>te_rules := decRef ruleKey (te_rules entry),
            te_selectors := decRef (wtg_Selector t) (te_selectors entry),
            te_eventFilters := decRef (wtg_EventFilter t) (te_eventFilters entry)\<rparr>
      in if wtg_Redaction t \<noteq> [] then entry\<lparr>te_redactions := decRef (wtg_Redaction t) (te_redactions entry)\<rparr> else entry)"

definition dropRefLocked ::
    "string \<Rightarrow> WatchTarget \<Rightarrow> (TargetKey, targetEntry) gomap \<Rightarrow> (TargetKey, targetEntry) gomap" where
  "dropRefLocked ruleKey t targets =
     (let key = WatchTarget_Key t in
      case gm_get targets key of
        None \<Rightarrow> targets
      | Some entry \<Rightarrow>
          (let entry = dropRef ruleKey t entry in
           if te_rules entry = [] then gm_del key targets else gm_set key entry targets))"

definition notifyLocked :: "Registry \<Rightarrow> Registry" where
  "notifyLocked r = r\<lparr>reg_changes := True\<rparr>"

text \<open>The reader takes the pending wake-up.\<close>

definition takeChange :: "Registry \<Rightarrow> Registry" where
  "takeChange r = r\<lparr>reg_changes := False\<rparr>"

fun desiredSet :: "labels_env \<Rightarrow> WatchTarget list \<Rightarrow> WatchTarget list option" where
  "desiredSet parse [] = Some []"
| "desiredSet parse (t # targets) =
     (case canonicalizeSelectorString parse (wtg_Selector t) of
        None \<Rightarrow> None
      | Some sel \<Rightarrow>
          (case desiredSet parse targets of
             None \<Rightarrow> None
           | Some ts \<Rightarrow> Some (List.insert (t\<lparr>wtg_Selector := sel\<rparr>) ts)))"

definition currentSet :: "string \<Rightarrow> Registry \<Rightarrow> WatchTarget list" where
  "currentSet ruleKey r = (case gm_get (reg_rules r) ruleKey of None \<Rightarrow> [] | Some ts \<Rightarrow> ts)"

text \<open>Nothing is the error of a selector that does not parse: the registry is left alone.\<close>

definition Upsert :: "labels_env \<Rightarrow> string \<Rightarrow> WatchTarget list \<Rightarrow> Registry \<Rightarrow> bool \<times> Registry" where
  "Upsert parse ruleKey targets r =
     (case desiredSet parse targets of
        None \<Rightarrow> (False, r)
      | Some desired \<Rightarrow>
          (let current = currentSet ruleKey r;
               added = filter (\<lambda>t. t \<notin> set current) desired;
               dropped = filter (\<lambda>t. t \<notin> set desired) current;
               r = r\<lparr>reg_targets := fold (dropRefLocked ruleKey) dropped (fold (addRefLocked ruleKey) added (reg_targets r)),
                     reg_rules := (if desired = [] then gm_del ruleKey (reg_rules r)
                                   else gm_set ruleKey desired (reg_rules r))\<rparr>
           in (True, if added \<noteq> [] \<or> dropped \<noteq> [] then notifyLocked r else r)))"

definition Remove :: "string \<Rightarrow> Registry \<Rightarrow> Registry" where
  "Remove ruleKey r =
     (case gm_get (reg_rules r) ruleKey of
        None \<Rightarrow> r
      | Some current \<Rightarrow>
          notifyLocked (r\<lparr>reg_targets := fold (dropRefLocked ruleKey) current (reg_targets r),
                          reg_rules := gm_del ruleKey (reg_rules r)\<rparr>))"

definition stateOf :: "TargetKey \<Rightarrow> targetEntry \<Rightarrow> TargetState" where
  "stateOf key entry =
     \<lparr>ts_Key = key, ts_RuleKeys = sorted_set (gm_keys (te_rules entry)),
      ts_Selectors = sorted_set (gm_keys (te_selectors entry)),
      ts_Redactions = sorted_set (gm_keys (te_redactions entry)),
      ts_EventFilters = sorted_set (gm_keys (te_eventFilters entry))\<rparr>"

definition Snapshot :: "Registry \<Rightarrow> (TargetKey, TargetState) gomap" where
  "Snapshot r = map (\<lambda>(key, entry). (key, stateOf key entry)) (reg_targets r)"

definition RulesForSink :: "sink_id \<Rightarrow> Registry \<Rightarrow> string list" where
  "RulesForSink i r =
     sorted_set (concat (map (\<lambda>(key, entry). gm_keys (te_rules entry))
       (filter (\<lambda>(key, entry). tk_Sink key = i) (reg_targets r))))"

definition TargetCountForRule :: "string \<Rightarrow> Registry \<Rightarrow> nat" where
  "TargetCountForRule ruleKey r = length (remdups (map WatchTarget_Key (currentSet ruleKey r)))"

section \<open>Reference counting as an interface\<close>

text \<open>
  What the registry relies on: a counter stands for a multiset, its keys are the multiset's elements,
  and withdrawing one reference undoes adding one.
\<close>

locale refcounter =
  fixes inc :: "'k \<Rightarrow> 'm \<Rightarrow> 'm" and dec :: "'k \<Rightarrow> 'm \<Rightarrow> 'm" and keys :: "'m \<Rightarrow> 'k list"
    and counts :: "'m \<Rightarrow> 'k multiset \<Rightarrow> bool"
  assumes counts_inc: "counts m M \<Longrightarrow> counts (inc k m) (add_mset k M)"
    and counts_dec: "counts m (add_mset k M) \<Longrightarrow> counts (dec k m) M"
    and counts_keys: "counts m M \<Longrightarrow> set (keys m) = set_mset M"
begin

lemma counts_fold_inc: "counts m M \<Longrightarrow> counts (fold inc ks m) (M + mset ks)"
proof (induction ks arbitrary: m M)
  case (Cons k ks)
  from Cons.IH [OF counts_inc [OF Cons.prems, of k]] show ?case by simp
qed simp

lemma counts_fold_dec: "counts m (M + mset ks) \<Longrightarrow> counts (fold dec ks m) M"
proof (induction ks arbitrary: m)
  case (Cons k ks)
  then have "counts (dec k m) (M + mset ks)" by (intro counts_dec) simp
  then show ?case by (simp add: Cons.IH)
qed simp

lemma balanced: "counts m M \<Longrightarrow> set (keys (fold dec ks (fold inc ks m))) = set_mset M"
  by (rule counts_keys [OF counts_fold_dec [OF counts_fold_inc]])

end

definition counts_mset :: "refcounts \<Rightarrow> string multiset \<Rightarrow> bool" where
  "counts_mset m M \<longleftrightarrow> gm_wf m \<and> (\<forall>k. gm_get m k = (if k \<in># M then Some (int (count M k)) else None))"

lemma refcount_counts: "counts_mset m M \<Longrightarrow> refcount m k = int (count M k)"
  by (simp add: counts_mset_def refcount_def not_in_iff)

interpretation rc: refcounter incRef decRef gm_keys counts_mset
proof
  fix m M k
  show "counts_mset m M \<Longrightarrow> counts_mset (incRef k m) (add_mset k M)"
    using refcount_counts [of m M k] by (auto simp: counts_mset_def incRef_def)
  assume c: "counts_mset m (add_mset k M)"
  show "counts_mset (decRef k m) M"
  proof (cases "k \<in># M")
    case True
    then have "0 < count M k" by simp
    with c show ?thesis using refcount_counts [OF c, of k] by (auto simp: counts_mset_def decRef_def)
  next
    case False
    with c show ?thesis using refcount_counts [OF c, of k] by (auto simp: counts_mset_def decRef_def not_in_iff)
  qed
next
  show "counts_mset m M \<Longrightarrow> set (gm_keys m) = set_mset M" for m M
    by (auto simp: set_gm_keys counts_mset_def split: if_splits)
qed

lemma counts_mset_empty [simp]: "counts_mset [] {#}"
  by (simp add: counts_mset_def)


section \<open>The merged view mirrors the contributions\<close>

type_synonym contribution = "string \<times> WatchTarget"

definition contributions :: "(string, WatchTarget list) gomap \<Rightarrow> contribution multiset" where
  "contributions rules = mset (concat (map (\<lambda>(ruleKey, ts). map (Pair ruleKey) ts) rules))"

definition at_key :: "TargetKey \<Rightarrow> contribution multiset \<Rightarrow> contribution multiset" where
  "at_key key C = filter_mset (\<lambda>(_, t). WatchTarget_Key t = key) C"

definition entry_mirrors :: "targetEntry \<Rightarrow> contribution multiset \<Rightarrow> bool" where
  "entry_mirrors e C \<longleftrightarrow> counts_mset (te_rules e) (image_mset fst C)
     \<and> counts_mset (te_selectors e) (image_mset (wtg_Selector \<circ> snd) C)
     \<and> counts_mset (te_redactions e) (filter_mset (\<lambda>p. p \<noteq> []) (image_mset (wtg_Redaction \<circ> snd) C))
     \<and> counts_mset (te_eventFilters e) (image_mset (wtg_EventFilter \<circ> snd) C)"

definition key_mirrors :: "targetEntry option \<Rightarrow> contribution multiset \<Rightarrow> bool" where
  "key_mirrors x C = (case x of None \<Rightarrow> C = {#} | Some e \<Rightarrow> C \<noteq> {#} \<and> entry_mirrors e C)"

definition mirrors :: "(TargetKey, targetEntry) gomap \<Rightarrow> contribution multiset \<Rightarrow> bool" where
  "mirrors targets C \<longleftrightarrow> gm_wf targets \<and> (\<forall>key. key_mirrors (gm_get targets key) (at_key key C))"

lemma at_key_add [simp]:
  "at_key key (add_mset (rk, t) C) = (if WatchTarget_Key t = key then add_mset (rk, t) (at_key key C) else at_key key C)"
  by (simp add: at_key_def)

lemma entry_mirrors_new: "entry_mirrors targetEntry_new {#}"
  by (simp add: entry_mirrors_def targetEntry_new_def)

lemma entry_mirrors_add: "entry_mirrors e C \<Longrightarrow> entry_mirrors (addRef rk t e) (add_mset (rk, t) C)"
  by (simp add: entry_mirrors_def addRef_def Let_def rc.counts_inc)

lemma entry_mirrors_drop: "entry_mirrors e (add_mset (rk, t) C) \<Longrightarrow> entry_mirrors (dropRef rk t e) C"
  by (auto simp: entry_mirrors_def dropRef_def Let_def split: if_splits intro: rc.counts_dec)

lemma mirrors_addRef:
  assumes "mirrors targets C" shows "mirrors (addRefLocked rk t targets) (add_mset (rk, t) C)"
proof -
  let ?key = "WatchTarget_Key t"
  define e where "e = (case gm_get targets ?key of Some e \<Rightarrow> e | None \<Rightarrow> targetEntry_new)"
  have "key_mirrors (gm_get targets ?key) (at_key ?key C)" using assms by (simp add: mirrors_def)
  then have e: "entry_mirrors e (at_key ?key C)"
    using entry_mirrors_new by (cases "gm_get targets ?key") (simp_all add: key_mirrors_def e_def)
  have "addRefLocked rk t targets = gm_set ?key (addRef rk t e) targets"
    by (simp add: addRefLocked_def Let_def e_def)
  with assms entry_mirrors_add [OF e] show ?thesis by (simp add: mirrors_def key_mirrors_def)
qed

lemma te_rules_empty_iff: "entry_mirrors e C \<Longrightarrow> te_rules e = [] \<longleftrightarrow> C = {#}"
  using rc.counts_keys [of "te_rules e" "image_mset fst C"] by (auto simp: entry_mirrors_def gm_keys_def)

lemma mirrors_dropRef:
  assumes "mirrors targets (add_mset (rk, t) C)" shows "mirrors (dropRefLocked rk t targets) C"
proof -
  let ?key = "WatchTarget_Key t"
  have all: "key_mirrors (gm_get targets key) (at_key key (add_mset (rk, t) C))" for key
    using assms by (simp add: mirrors_def)
  then obtain e where g: "gm_get targets ?key = Some e" and e: "entry_mirrors e (add_mset (rk, t) (at_key ?key C))"
    using all [of ?key] by (cases "gm_get targets ?key") (simp_all add: key_mirrors_def)
  note d = entry_mirrors_drop [OF e] te_rules_empty_iff [OF entry_mirrors_drop [OF e]]
  have other: "key_mirrors (gm_get targets key) (at_key key C)" if "key \<noteq> ?key" for key
    using all [of key] that by simp
  have "gm_wf targets" using assms by (simp add: mirrors_def)
  with d other show ?thesis
    by (simp add: dropRefLocked_def g Let_def mirrors_def key_mirrors_def)
qed

lemma mirrors_fold_add:
  "mirrors targets C \<Longrightarrow> mirrors (fold (addRefLocked rk) ts targets) (C + mset (map (Pair rk) ts))"
proof (induction ts arbitrary: targets C)
  case (Cons t ts)
  from Cons.IH [OF mirrors_addRef [OF Cons.prems, of rk t]] show ?case by simp
qed simp

lemma mirrors_fold_drop:
  "mirrors targets (C + mset (map (Pair rk) ts)) \<Longrightarrow> mirrors (fold (dropRefLocked rk) ts targets) C"
proof (induction ts arbitrary: targets)
  case (Cons t ts)
  then have "mirrors (dropRefLocked rk t targets) (C + mset (map (Pair rk) ts))" by (intro mirrors_dropRef) simp
  then show ?case by (simp add: Cons.IH)
qed simp

lemma contributions_Cons: "contributions ((rk, ts) # rules) = mset (map (Pair rk) ts) + contributions rules"
  by (simp add: contributions_def)

lemma contributions_split:
  "gm_wf rules \<Longrightarrow> contributions rules =
     contributions (gm_del rk rules) + mset (map (Pair rk) (case gm_get rules rk of None \<Rightarrow> [] | Some ts \<Rightarrow> ts))"
proof (induction rules)
  case Nil
  then show ?case by (simp add: contributions_def gm_del_def)
next
  case (Cons x rules)
  obtain rk' ts where x: "x = (rk', ts)" by (cases x)
  have wf: "gm_wf rules" "rk' \<notin> fst ` set rules" using Cons.prems by (auto simp: x gm_wf_def)
  show ?case
  proof (cases "rk' = rk")
    case True
    then have "gm_get rules rk = None" using wf(2) by (simp add: gm_get_def map_of_eq_None_iff)
    then have "contributions rules = contributions (gm_del rk rules)" using Cons.IH [OF wf(1)] by simp
    with True show ?thesis by (simp add: x contributions_Cons gm_get_Cons gm_del_def)
  next
    case False
    with Cons.IH [OF wf(1)] show ?thesis by (simp add: x contributions_Cons gm_get_Cons gm_del_def)
  qed
qed

section \<open>Every registry mirrors its rules\<close>

inductive registered :: "labels_env \<Rightarrow> Registry \<Rightarrow> bool" for parse where
  new: "registered parse Registry_New"
| upsert: "registered parse r \<Longrightarrow> registered parse (snd (Upsert parse ruleKey targets r))"
| remove: "registered parse r \<Longrightarrow> registered parse (Remove ruleKey r)"
| take: "registered parse r \<Longrightarrow> registered parse (takeChange r)"

definition registry_ok :: "Registry \<Rightarrow> bool" where
  "registry_ok r \<longleftrightarrow> gm_wf (reg_rules r) \<and> mirrors (reg_targets r) (contributions (reg_rules r))
     \<and> (\<forall>rk ts. gm_get (reg_rules r) rk = Some ts \<longrightarrow> distinct ts \<and> ts \<noteq> [])"

lemma desiredSet_distinct: "desiredSet parse ts = Some ds \<Longrightarrow> distinct ds"
  by (induction parse ts arbitrary: ds rule: desiredSet.induct) (auto split: option.splits)

lemma contributions_current:
  "gm_wf (reg_rules r) \<Longrightarrow> contributions (reg_rules r) =
     contributions (gm_del rk (reg_rules r)) + mset (map (Pair rk) (currentSet rk r))"
  using contributions_split [of "reg_rules r" rk] by (simp add: currentSet_def)

lemma contributions_set:
  assumes "gm_wf rules"
  shows "contributions (gm_set rk ds rules) = contributions (gm_del rk rules) + mset (map (Pair rk) ds)"
proof -
  have "gm_del rk (gm_set rk ds rules) = gm_del rk rules"
    unfolding gm_del_def gm_set_def by (induction rules) auto
  then show ?thesis using contributions_split [of "gm_set rk ds rules" rk] assms by simp
qed

lemma distinct_diff_mset:
  assumes "distinct xs" and "distinct ys"
  shows "mset xs + mset (filter (\<lambda>y. y \<notin> set xs) ys) = mset ys + mset (filter (\<lambda>x. x \<notin> set ys) xs)"
proof (rule multiset_eqI)
  fix a
  show "count (mset xs + mset (filter (\<lambda>y. y \<notin> set xs) ys)) a = count (mset ys + mset (filter (\<lambda>x. x \<notin> set ys) xs)) a"
    using assms by (auto simp: distinct_count_atmost_1 count_mset_0_iff filter_id_conv)
qed


lemma registry_ok_same: "reg_rules r' = reg_rules r \<Longrightarrow> reg_targets r' = reg_targets r \<Longrightarrow> registry_ok r' = registry_ok r"
  by (simp add: registry_ok_def)

lemma Upsert_rules:
  assumes "desiredSet parse targets = Some ds"
  shows "reg_rules (snd (Upsert parse rk targets r)) =
    (if ds = [] then gm_del rk (reg_rules r) else gm_set rk ds (reg_rules r))"
  by (simp add: Upsert_def assms Let_def notifyLocked_def)

lemma Upsert_targets:
  assumes "desiredSet parse targets = Some ds"
  shows "reg_targets (snd (Upsert parse rk targets r)) =
    fold (dropRefLocked rk) (filter (\<lambda>t. t \<notin> set ds) (currentSet rk r))
      (fold (addRefLocked rk) (filter (\<lambda>t. t \<notin> set (currentSet rk r)) ds) (reg_targets r))"
  by (simp add: Upsert_def assms Let_def notifyLocked_def)

lemma registry_ok_Upsert:
  assumes "registry_ok r" shows "registry_ok (snd (Upsert parse rk targets r))"
proof (cases "desiredSet parse targets")
  case None
  then show ?thesis using assms by (simp add: Upsert_def)
next
  case (Some ds)
  let ?cur = "currentSet rk r" and ?rest = "contributions (gm_del rk (reg_rules r))"
  let ?added = "filter (\<lambda>t. t \<notin> set ?cur) ds" and ?dropped = "filter (\<lambda>t. t \<notin> set ds) ?cur"
  have wf: "gm_wf (reg_rules r)" and m: "mirrors (reg_targets r) (contributions (reg_rules r))"
    and cur: "distinct ?cur"
    using assms by (auto simp: registry_ok_def currentSet_def split: option.split)
  have ds: "distinct ds" using Some by (rule desiredSet_distinct)
  have rules: "contributions (reg_rules (snd (Upsert parse rk targets r))) = ?rest + mset (map (Pair rk) ds)"
    using wf by (simp add: Upsert_rules [OF Some] contributions_set)
  have "mset (map (Pair rk) ?cur) + mset (map (Pair rk) ?added) = mset (map (Pair rk) ds) + mset (map (Pair rk) ?dropped)"
    using distinct_diff_mset [OF cur ds] by (metis image_mset_union mset_map)
  then have "contributions (reg_rules r) + mset (map (Pair rk) ?added)
      = ?rest + mset (map (Pair rk) ds) + mset (map (Pair rk) ?dropped)"
    using contributions_current [OF wf, of rk] by (metis add.assoc)
  then have "mirrors (reg_targets (snd (Upsert parse rk targets r))) (contributions (reg_rules (snd (Upsert parse rk targets r))))"
    using mirrors_fold_add [OF m, of rk ?added] by (simp only: rules Upsert_targets [OF Some] mirrors_fold_drop)
  then show ?thesis
    using assms wf ds by (auto simp: registry_ok_def Upsert_rules [OF Some] split: if_splits)
qed

lemma registry_ok_Remove:
  assumes "registry_ok r" shows "registry_ok (Remove rk r)"
proof (cases "gm_get (reg_rules r) rk")
  case None
  then show ?thesis using assms by (simp add: Remove_def)
next
  case (Some ts)
  have wf: "gm_wf (reg_rules r)" and m: "mirrors (reg_targets r) (contributions (reg_rules r))"
    using assms by (auto simp: registry_ok_def)
  have "mirrors (fold (dropRefLocked rk) ts (reg_targets r)) (contributions (gm_del rk (reg_rules r)))"
    using m contributions_split [OF wf, of rk] by (intro mirrors_fold_drop) (simp add: Some)
  then show ?thesis using assms by (auto simp: registry_ok_def Remove_def Some notifyLocked_def split: if_splits)
qed

lemma registered_ok: "registered parse r \<Longrightarrow> registry_ok r"
proof (induction rule: registered.induct)
  case new
  then show ?case by (simp add: registry_ok_def Registry_New_def mirrors_def key_mirrors_def contributions_def at_key_def)
next
  case (take r)
  then show ?case by (simp add: takeChange_def registry_ok_def)
qed (simp_all add: registry_ok_Upsert registry_ok_Remove)

section \<open>Properties\<close>

text \<open>What the rules alone determine: the contributions to a key, and their merged state.\<close>

definition wanted_at :: "(string, WatchTarget list) gomap \<Rightarrow> TargetKey \<Rightarrow> contribution list" where
  "wanted_at rules key = filter (\<lambda>(_, t). WatchTarget_Key t = key)
     (concat (map (\<lambda>(ruleKey, ts). map (Pair ruleKey) ts) rules))"

definition merged :: "(string, WatchTarget list) gomap \<Rightarrow> TargetKey \<Rightarrow> TargetState option" where
  "merged rules key =
     (let cs = wanted_at rules key in
      if cs = [] then None
      else Some \<lparr>ts_Key = key, ts_RuleKeys = sorted_set (map fst cs),
             ts_Selectors = sorted_set (map (wtg_Selector \<circ> snd) cs),
             ts_Redactions = sorted_set (filter (\<lambda>p. p \<noteq> []) (map (wtg_Redaction \<circ> snd) cs)),
             ts_EventFilters = sorted_set (map (wtg_EventFilter \<circ> snd) cs)\<rparr>)"

lemma wanted_at_mset: "mset (wanted_at rules key) = at_key key (contributions rules)"
  by (simp add: wanted_at_def at_key_def contributions_def mset_filter)

lemma stateOf_merged:
  assumes "entry_mirrors e (mset cs)"
  shows "stateOf key e = \<lparr>ts_Key = key, ts_RuleKeys = sorted_set (map fst cs),
      ts_Selectors = sorted_set (map (wtg_Selector \<circ> snd) cs),
      ts_Redactions = sorted_set (filter (\<lambda>p. p \<noteq> []) (map (wtg_Redaction \<circ> snd) cs)),
      ts_EventFilters = sorted_set (map (wtg_EventFilter \<circ> snd) cs)\<rparr>"
proof -
  have "set (gm_keys (te_rules e)) = set (map fst cs)"
    "set (gm_keys (te_selectors e)) = set (map (wtg_Selector \<circ> snd) cs)"
    "set (gm_keys (te_redactions e)) = set (filter (\<lambda>p. p \<noteq> []) (map (wtg_Redaction \<circ> snd) cs))"
    "set (gm_keys (te_eventFilters e)) = set (map (wtg_EventFilter \<circ> snd) cs)"
    using assms [unfolded entry_mirrors_def, THEN conjunct1, THEN rc.counts_keys]
      assms [unfolded entry_mirrors_def, THEN conjunct2, THEN conjunct1, THEN rc.counts_keys]
      assms [unfolded entry_mirrors_def, THEN conjunct2, THEN conjunct2, THEN conjunct1, THEN rc.counts_keys]
      assms [unfolded entry_mirrors_def, THEN conjunct2, THEN conjunct2, THEN conjunct2, THEN rc.counts_keys]
    by simp_all
  note eqs = this [THEN sorted_set_cong]
  show ?thesis by (simp only: stateOf_def eqs)
qed

lemma Snapshot_get: "gm_get (Snapshot r) key = map_option (stateOf key) (gm_get (reg_targets r) key)"
proof -
  have "gm_get (map (\<lambda>(key, entry). (key, stateOf key entry)) m) key = map_option (stateOf key) (gm_get m key)" for m
    by (induction m) (auto simp: gm_get_Cons)
  then show ?thesis by (simp add: Snapshot_def)
qed

lemma registry_entry:
  assumes "registry_ok r"
  shows "key_mirrors (gm_get (reg_targets r) key) (mset (wanted_at (reg_rules r) key))"
  using assms by (simp add: registry_ok_def mirrors_def wanted_at_mset)

lemma Snapshot_merged:
  assumes "registry_ok r" shows "gm_get (Snapshot r) key = merged (reg_rules r) key"
proof (cases "gm_get (reg_targets r) key")
  case None
  then show ?thesis using registry_entry [OF assms, of key] by (simp add: Snapshot_get merged_def key_mirrors_def)
next
  case (Some e)
  then have "wanted_at (reg_rules r) key \<noteq> []" "entry_mirrors e (mset (wanted_at (reg_rules r) key))"
    using registry_entry [OF assms, of key] by (simp_all add: key_mirrors_def)
  then show ?thesis by (simp add: Snapshot_get Some merged_def Let_def stateOf_merged)
qed

text \<open>A contribution shows in the snapshot: its target is there, with its redaction set.\<close>

lemma Snapshot_contribution:
  assumes "registry_ok r" and "gm_get (reg_rules r) rk = Some ts" and "t \<in> set ts"
  shows "\<exists>state. gm_get (Snapshot r) (WatchTarget_Key t) = Some state
    \<and> (wtg_Redaction t \<noteq> [] \<longrightarrow> wtg_Redaction t \<in> set (ts_Redactions state))"
proof -
  have "(rk, t) \<in> set (wanted_at (reg_rules r) (WatchTarget_Key t))"
    using assms gm_get_in_set [OF assms(2)] by (auto simp: wanted_at_def)
  then show ?thesis unfolding Snapshot_merged [OF assms(1)] merged_def Let_def by (force intro: rev_image_eqI)
qed

lemma Snapshot_keys:
  assumes "registry_ok r" shows "gm_wf (Snapshot r)" and "\<forall>(key, state) \<in> set (Snapshot r). ts_Key state = key"
  using assms
  by (auto simp: registry_ok_def mirrors_def gm_wf_def Snapshot_def comp_def case_prod_beta stateOf_def)

lemma rules_at_sink:
  assumes "registry_ok r"
  shows "rk \<in> set (RulesForSink i r) \<longleftrightarrow> (\<exists>ts t. gm_get (reg_rules r) rk = Some ts \<and> t \<in> set ts \<and> wtg_Sink t = i)"
proof -
  have wf: "gm_wf (reg_targets r)" "gm_wf (reg_rules r)" using assms by (auto simp: registry_ok_def mirrors_def)
  have at: "rk \<in> set (gm_keys (te_rules e)) \<longleftrightarrow> rk \<in> fst ` set (wanted_at (reg_rules r) key)"
    if "gm_get (reg_targets r) key = Some e" for key e
  proof -
    have "counts_mset (te_rules e) (image_mset fst (mset (wanted_at (reg_rules r) key)))"
      using registry_entry [OF assms, of key] that by (simp add: key_mirrors_def entry_mirrors_def)
    from rc.counts_keys [OF this] show ?thesis by simp
  qed
  have some: "gm_get (reg_targets r) key \<noteq> None" if "wanted_at (reg_rules r) key \<noteq> []" for key
    using registry_entry [OF assms, of key] that by (cases "gm_get (reg_targets r) key") (simp_all add: key_mirrors_def)
  have mem: "(rk, t) \<in> set (wanted_at (reg_rules r) key) \<longleftrightarrow>
      (\<exists>ts. gm_get (reg_rules r) rk = Some ts \<and> t \<in> set ts) \<and> WatchTarget_Key t = key" for t key
    using wf(2) by (auto simp: wanted_at_def gm_get_iff_set)
  have "rk \<in> set (RulesForSink i r) \<longleftrightarrow>
      (\<exists>key e. gm_get (reg_targets r) key = Some e \<and> tk_Sink key = i \<and> rk \<in> set (gm_keys (te_rules e)))"
    using wf(1) by (auto simp: RulesForSink_def gm_get_iff_set)
  also have "\<dots> \<longleftrightarrow> (\<exists>key t. tk_Sink key = i \<and> (rk, t) \<in> set (wanted_at (reg_rules r) key))"
  proof (intro iffI; elim exE conjE)
    fix key e assume "gm_get (reg_targets r) key = Some e" "tk_Sink key = i" "rk \<in> set (gm_keys (te_rules e))"
    moreover from this have "rk \<in> fst ` set (wanted_at (reg_rules r) key)" by (simp add: at)
    ultimately show "\<exists>key t. tk_Sink key = i \<and> (rk, t) \<in> set (wanted_at (reg_rules r) key)" by force
  next
    fix key t assume i: "tk_Sink key = i" and w: "(rk, t) \<in> set (wanted_at (reg_rules r) key)"
    then have "wanted_at (reg_rules r) key \<noteq> []" by auto
    then obtain e where e: "gm_get (reg_targets r) key = Some e" using some by blast
    have "rk \<in> fst ` set (wanted_at (reg_rules r) key)" using w by (metis fst_conv imageI)
    then show "\<exists>key e. gm_get (reg_targets r) key = Some e \<and> tk_Sink key = i \<and> rk \<in> set (gm_keys (te_rules e))"
      using e i at by blast
  qed
  also have "\<dots> \<longleftrightarrow> (\<exists>ts t. gm_get (reg_rules r) rk = Some ts \<and> t \<in> set ts \<and> wtg_Sink t = i)"
  proof -
    have "tk_Sink (WatchTarget_Key t) = wtg_Sink t" for t by (simp add: WatchTarget_Key_def)
    then show ?thesis unfolding mem by metis
  qed
  finally show ?thesis .
qed

text \<open>
  C22: the registry refines its specification. Whatever rules were upserted and removed and in
  whatever order, the reference-counted view the data plane reads is exactly the merge of the target
  sets the rules hold now: a target exists as long as some rule wants it, and lists the rules, the
  selectors, the non-empty redaction sets and the Event filters of exactly those contributions,
  sorted. The rules reported for a sink are exactly those with a target that streams to it.
\<close>

theorem registry_snapshot_is_merge:
  assumes "registered parse r"
  shows "gm_get (Snapshot r) key = merged (reg_rules r) key
    \<and> sorted (RulesForSink i r) \<and> distinct (RulesForSink i r)
    \<and> set (RulesForSink i r) = {rk. \<exists>ts t. gm_get (reg_rules r) rk = Some ts \<and> t \<in> set ts \<and> wtg_Sink t = i}"
proof -
  have ok: "registry_ok r" using assms by (rule registered_ok)
  have "gm_get (Snapshot r) key = merged (reg_rules r) key" by (rule Snapshot_merged [OF ok])
  moreover have "set (RulesForSink i r) = {rk. \<exists>ts t. gm_get (reg_rules r) rk = Some ts \<and> t \<in> set ts \<and> wtg_Sink t = i}"
    using rules_at_sink [OF ok] by blast
  ultimately show ?thesis by (simp add: RulesForSink_def)
qed

definition sample_target :: "string \<Rightarrow> string \<Rightarrow> WatchTarget" where
  "sample_target sel red = \<lparr>wtg_Sink = SinkID ''S3Sink'' ''a'', wtg_GVK = \<lparr>gvk_Group = [], gvk_Version = ''v1'', gvk_Kind = ''Pod''\<rparr>,
     wtg_Namespace = ''ns'', wtg_Selector = sel, wtg_Redaction = red, wtg_EventFilter = []\<rparr>"

definition sample_registry :: Registry where
  "sample_registry = Remove ''r1'' (snd (Upsert Some ''r2'' [sample_target ''b'' []]
     (snd (Upsert Some ''r1'' [sample_target ''a'' ''p'', sample_target ''b'' []] Registry_New))))"

lemma sample_registered: "registered Some sample_registry"
  unfolding sample_registry_def by (intro registered.intros)

lemma sample_rules: "reg_rules sample_registry = [(''r2'', [sample_target ''b'' []])]"
  by (simp add: sample_registry_def Remove_def Upsert_def Registry_New_def canonicalizeSelectorString_def
      currentSet_def notifyLocked_def Let_def gm_get_def gm_set_def gm_del_def sample_target_def)

theorem registry_snapshot_is_merge_witness:
  "gm_get (Snapshot sample_registry) (WatchTarget_Key (sample_target ''b'' []))
     = Some \<lparr>ts_Key = WatchTarget_Key (sample_target ''b'' []), ts_RuleKeys = [''r2''], ts_Selectors = [''b''],
         ts_Redactions = [], ts_EventFilters = [[]]\<rparr>"
proof -
  have "gm_get (Snapshot sample_registry) (WatchTarget_Key (sample_target ''b'' []))
      = merged (reg_rules sample_registry) (WatchTarget_Key (sample_target ''b'' []))"
    using registry_snapshot_is_merge [OF sample_registered] by blast
  then show ?thesis
    by (simp add: sample_rules merged_def wanted_at_def sample_target_def WatchTarget_Key_def sorted_set_def)
qed

definition canonicalTarget :: "labels_env \<Rightarrow> WatchTarget \<Rightarrow> WatchTarget" where
  "canonicalTarget parse t = t\<lparr>wtg_Selector := the (canonicalizeSelectorString parse (wtg_Selector t))\<rparr>"

lemma desiredSet_set: "desiredSet parse ts = Some ds \<Longrightarrow> set ds = canonicalTarget parse ` set ts"
  by (induction parse ts arbitrary: ds rule: desiredSet.induct) (auto simp: canonicalTarget_def split: option.splits)

lemma desiredSet_None_iff:
  "desiredSet parse ts = None \<longleftrightarrow> (\<exists>t \<in> set ts. canonicalizeSelectorString parse (wtg_Selector t) = None)"
  by (induction parse ts rule: desiredSet.induct) (auto split: option.splits)

text \<open>
  An upsert is all or nothing and edge-triggered. It fails exactly when some selector does not
  parse, and then changes nothing at all; otherwise the rule holds exactly its canonicalized targets,
  every other rule is untouched, and a wake-up is posted exactly when the rule's target set differs
  from the one it held before.
\<close>

theorem Upsert_all_or_nothing:
  assumes "registered parse r" and "Upsert parse ruleKey targets r = (ok, r')"
  shows "(ok \<longleftrightarrow> (\<forall>t \<in> set targets. canonicalizeSelectorString parse (wtg_Selector t) \<noteq> None))
    \<and> (\<not> ok \<longrightarrow> r' = r)
    \<and> (ok \<longrightarrow> set (currentSet ruleKey r') = canonicalTarget parse ` set targets
         \<and> (\<forall>rk. rk \<noteq> ruleKey \<longrightarrow> gm_get (reg_rules r') rk = gm_get (reg_rules r) rk)
         \<and> (reg_changes r' \<longleftrightarrow> reg_changes r \<or> set (currentSet ruleKey r') \<noteq> set (currentSet ruleKey r)))"
proof (cases "desiredSet parse targets")
  case None
  then show ?thesis using assms(2) desiredSet_None_iff [of parse targets] by (auto simp: Upsert_def)
next
  case (Some ds)
  have ok: "ok" "r' = snd (Upsert parse ruleKey targets r)" using assms(2) Some by (auto simp: Upsert_def Let_def)
  have rules: "reg_rules r' = (if ds = [] then gm_del ruleKey (reg_rules r) else gm_set ruleKey ds (reg_rules r))"
    unfolding ok(2) by (rule Upsert_rules [OF Some])
  then have cur: "currentSet ruleKey r' = ds" by (simp add: currentSet_def)
  have "set (currentSet ruleKey r') = canonicalTarget parse ` set targets"
    unfolding cur by (rule desiredSet_set [OF Some])
  moreover have "\<forall>t \<in> set targets. canonicalizeSelectorString parse (wtg_Selector t) \<noteq> None"
    using Some desiredSet_None_iff [of parse targets] by (metis option.distinct(1))
  moreover have "reg_changes r' \<longleftrightarrow> reg_changes r \<or> set ds \<noteq> set (currentSet ruleKey r)"
    unfolding ok(2) by (auto simp: Upsert_def Some Let_def notifyLocked_def filter_empty_conv)
  ultimately show ?thesis using ok(1) rules cur by simp
qed

theorem Upsert_all_or_nothing_witness:
  "fst (Upsert (\<lambda>s. None) ''r2'' [sample_target [] [], sample_target ''b'' []] Registry_New) = False
   \<and> snd (Upsert (\<lambda>s. None) ''r2'' [sample_target [] [], sample_target ''b'' []] Registry_New) = Registry_New
   \<and> reg_changes (snd (Upsert Some ''r1'' [sample_target ''b'' []] Registry_New))"
proof -
  let ?ts = "[sample_target [] [], sample_target ''b'' []]"
  have "\<not> (\<forall>t \<in> set ?ts. canonicalizeSelectorString (\<lambda>s. None) (wtg_Selector t) \<noteq> None)"
    by (simp add: canonicalizeSelectorString_def sample_target_def)
  with Upsert_all_or_nothing [OF registered.new [of "\<lambda>s. None"] prod.collapse [symmetric], of "''r2''" ?ts]
  have 1: "\<not> fst (Upsert (\<lambda>s. None) ''r2'' ?ts Registry_New)" "snd (Upsert (\<lambda>s. None) ''r2'' ?ts Registry_New) = Registry_New"
    by blast+
  have "reg_changes (snd (Upsert Some ''r1'' [sample_target ''b'' []] Registry_New))"
    by (simp add: Upsert_def canonicalizeSelectorString_def currentSet_def Registry_New_def Let_def notifyLocked_def sample_target_def)
  with 1 show ?thesis by blast
qed

end
