(* ===== verification/JsonParse.thy ===== *)
theory JsonParse
  imports Json
begin

text \<open>
  \<open>encoding/json\<close>'s decoder as far as the operator and the client use it: a text into a JSON value.
  An object's members become a Go map: the last of several members with one key wins, and the map is
  held in key order as everywhere in the development. An integer literal is the integer it denotes;
  another number keeps its literal. Bytes outside ASCII are taken as they are, that is, texts are
  valid UTF-8. The parser runs on fuel; the length of the text is enough.
\<close>

definition is_space :: "char \<Rightarrow> bool" where
  "is_space c = (c = CHR 0x20 \<or> c = CHR 0x09 \<or> c = CHR 0x0A \<or> c = CHR 0x0D)"

definition skip_ws :: "string \<Rightarrow> string" where
  "skip_ws s = dropWhile is_space s"

section \<open>Strings\<close>

definition json_simple_escape :: "char \<Rightarrow> char option" where
  "json_simple_escape c =
     (if c = CHR 0x22 \<or> c = CHR 0x5C \<or> c = CHR ''/'' then Some c
      else if c = CHR ''b'' then Some (CHR 0x08) else if c = CHR ''f'' then Some (CHR 0x0C)
      else if c = CHR ''n'' then Some (CHR 0x0A) else if c = CHR ''r'' then Some (CHR 0x0D)
      else if c = CHR ''t'' then Some (CHR 0x09) else None)"

text \<open>A surrogate pair is one code point; a lone surrogate is the replacement character.\<close>

definition surrogate_pair :: "nat \<Rightarrow> string \<Rightarrow> nat option" where
  "surrogate_pair r rest =
     (if 0xD800 \<le> r \<and> r < 0xDC00 \<and> take 2 rest = [CHR 0x5C, CHR ''u''] then
        (case numeric_escape hex_value 16 4 (drop 2 rest) of
           Some l \<Rightarrow> if 0xDC00 \<le> l \<and> l < 0xE000 then Some (0x10000 + (r - 0xD800) * 0x400 + (l - 0xDC00)) else None
         | None \<Rightarrow> None)
      else None)"

definition json_unescape :: "string \<Rightarrow> (string \<times> nat) option" where
  "json_unescape s =
     (case s of [] \<Rightarrow> None
      | c # cs \<Rightarrow>
         (case json_simple_escape c of
            Some d \<Rightarrow> Some ([d], 1)
          | None \<Rightarrow>
             (if c = CHR ''u'' then
                (case numeric_escape hex_value 16 4 cs of
                   None \<Rightarrow> None
                 | Some r \<Rightarrow>
                     (if valid_rune r then Some (utf8_encode r, 5)
                      else case surrogate_pair r (drop 4 cs) of
                             Some p \<Rightarrow> Some (utf8_encode p, 11)
                           | None \<Rightarrow> Some (utf8_encode 0xFFFD, 5)))
              else None)))"

lemma json_unescape_pos: "json_unescape s = Some (bs, n) \<Longrightarrow> 0 < n"
  by (auto simp: json_unescape_def split: list.splits option.splits if_splits)

function parse_str :: "string \<Rightarrow> (string \<times> string) option" where
  "parse_str s =
     (case s of [] \<Rightarrow> None
      | c # cs \<Rightarrow>
         (if c = CHR 0x22 then Some ([], cs)
          else if c = CHR 0x5C then
            (case json_unescape cs of
               None \<Rightarrow> None
             | Some (bs, n) \<Rightarrow> map_option (\<lambda>(r, rest). (bs @ r, rest)) (parse_str (drop n cs)))
          else if (of_char c :: nat) < 32 then None
          else map_option (\<lambda>(r, rest). (c # r, rest)) (parse_str cs)))"
  by pat_completeness auto
termination
  by (relation "measure length") auto

section \<open>Numbers\<close>

definition is_digit :: "char \<Rightarrow> bool" where
  "is_digit c = (48 \<le> (of_char c :: nat) \<and> (of_char c :: nat) \<le> 57)"

definition digit_val :: "char \<Rightarrow> nat" where
  "digit_val c = of_char c - 48"

definition nat_of_digits :: "string \<Rightarrow> nat" where
  "nat_of_digits s = foldl (\<lambda>n c. n * 10 + digit_val c) 0 s"

definition scan_int :: "string \<Rightarrow> (string \<times> string) option" where
  "scan_int s =
     (let ds = takeWhile is_digit s in
      if ds = [] \<or> (hd ds = CHR ''0'' \<and> length ds > 1) then None else Some (ds, dropWhile is_digit s))"

definition scan_frac :: "string \<Rightarrow> (string \<times> string) option" where
  "scan_frac s =
     (case s of c # cs \<Rightarrow>
        (if c = CHR ''.'' then
           (let ds = takeWhile is_digit cs in if ds = [] then None else Some (c # ds, dropWhile is_digit cs))
         else Some ([], s))
      | [] \<Rightarrow> Some ([], []))"

definition scan_exp :: "string \<Rightarrow> (string \<times> string) option" where
  "scan_exp s =
     (case s of c # cs \<Rightarrow>
        (if c = CHR ''e'' \<or> c = CHR ''E'' then
           (let (sg, cs) = (case cs of d # ds \<Rightarrow> if d = CHR ''+'' \<or> d = CHR ''-'' then ([d], ds) else ([], cs) | [] \<Rightarrow> ([], []));
                ds = takeWhile is_digit cs
            in if ds = [] then None else Some (c # sg @ ds, dropWhile is_digit cs))
         else Some ([], s))
      | [] \<Rightarrow> Some ([], []))"

definition parse_num :: "string \<Rightarrow> (json \<times> string) option" where
  "parse_num s =
     (let (sg, s) = (case s of c # cs \<Rightarrow> if c = CHR ''-'' then ([c], cs) else ([], s) | [] \<Rightarrow> ([], [])) in
      case scan_int s of
        None \<Rightarrow> None
      | Some (ds, s) \<Rightarrow>
          (case scan_frac s of
             None \<Rightarrow> None
           | Some (fr, s) \<Rightarrow>
               (case scan_exp s of
                  None \<Rightarrow> None
                | Some (ex, s) \<Rightarrow>
                    Some (if fr = [] \<and> ex = []
                          then JInt (if sg = [] then int (nat_of_digits ds) else - int (nat_of_digits ds))
                          else JFloat (Some (sg @ ds @ fr @ ex)), s))))"

section \<open>Values\<close>

definition obj_of :: "(string \<times> json) list \<Rightarrow> (string \<times> json) list" where
  "obj_of kvs = map (\<lambda>k. (k, the (map_of (rev kvs) k))) (sorted_set (map fst kvs))"

definition parse_literal :: "string \<Rightarrow> (json \<times> string) option" where
  "parse_literal s =
     (if take 4 s = ''null'' then Some (JNull, drop 4 s)
      else if take 4 s = ''true'' then Some (JBool True, drop 4 s)
      else if take 5 s = ''false'' then Some (JBool False, drop 5 s)
      else parse_num s)"

fun parse_value :: "nat \<Rightarrow> string \<Rightarrow> (json \<times> string) option"
and parse_elems :: "nat \<Rightarrow> string \<Rightarrow> (json list \<times> string) option"
and parse_members :: "nat \<Rightarrow> string \<Rightarrow> ((string \<times> json) list \<times> string) option" where
  "parse_value 0 s = None"
| "parse_value (Suc n) s =
     (case skip_ws s of
        [] \<Rightarrow> None
      | c # cs \<Rightarrow>
          (if c = CHR 0x22 then map_option (\<lambda>(t, rest). (JStr t, rest)) (parse_str cs)
           else if c = CHR ''['' then
             (case skip_ws cs of
                [] \<Rightarrow> None
              | d # ds \<Rightarrow> if d = CHR '']'' then Some (JArr [], ds)
                         else map_option (\<lambda>(vs, rest). (JArr vs, rest)) (parse_elems n (d # ds)))
           else if c = CHR ''{'' then
             (case skip_ws cs of
                [] \<Rightarrow> None
              | d # ds \<Rightarrow> if d = CHR ''}'' then Some (JObj [], ds)
                         else map_option (\<lambda>(kvs, rest). (JObj (obj_of kvs), rest)) (parse_members n (d # ds)))
           else parse_literal (c # cs)))"
| "parse_elems 0 s = None"
| "parse_elems (Suc n) s =
     (case parse_value n s of
        None \<Rightarrow> None
      | Some (v, rest) \<Rightarrow>
          (case skip_ws rest of
             [] \<Rightarrow> None
           | c # cs \<Rightarrow>
               (if c = CHR '']'' then Some ([v], cs)
                else if c = CHR '','' then map_option (\<lambda>(vs, r). (v # vs, r)) (parse_elems n cs)
                else None)))"
| "parse_members 0 s = None"
| "parse_members (Suc n) s =
     (case skip_ws s of
        [] \<Rightarrow> None
      | q # s1 \<Rightarrow>
          (if q \<noteq> CHR 0x22 then None
           else case parse_str s1 of
                  None \<Rightarrow> None
                | Some (k, s2) \<Rightarrow>
                    (case skip_ws s2 of
                       [] \<Rightarrow> None
                     | col # s3 \<Rightarrow>
                         (if col \<noteq> CHR '':'' then None
                          else case parse_value n s3 of
                                 None \<Rightarrow> None
                               | Some (v, rest) \<Rightarrow>
                                   (case skip_ws rest of
                                      [] \<Rightarrow> None
                                    | c # cs \<Rightarrow>
                                        (if c = CHR ''}'' then Some ([(k, v)], cs)
                                         else if c = CHR '','' then map_option (\<lambda>(kvs, r). ((k, v) # kvs, r)) (parse_members n cs)
                                         else None))))))"

definition json_unmarshal :: "string \<Rightarrow> json option" where
  "json_unmarshal s =
     (case parse_value (length s) s of
        Some (v, rest) \<Rightarrow> if skip_ws rest = [] then Some v else None
      | None \<Rightarrow> None)"

declare parse_str.simps [simp del] parse_value.simps [simp del] parse_elems.simps [simp del]
  parse_members.simps [simp del]


section \<open>Lemmas on strings\<close>

abbreviation consume :: "string \<Rightarrow> (string \<times> string) option \<Rightarrow> (string \<times> string) option" where
  "consume bs \<equiv> map_option (\<lambda>(r, rest). (bs @ r, rest))"

lemma parse_str_quote: "parse_str (CHR 0x22 # cs) = Some ([], cs)"
  by (subst parse_str.simps) simp

lemma parse_str_plain:
  assumes "c \<noteq> CHR 0x22" and "c \<noteq> CHR 0x5C" and "\<not> (of_char c :: nat) < 32"
  shows "parse_str (c # cs) = consume [c] (parse_str cs)"
  using assms by (subst parse_str.simps) simp

lemma parse_str_escape:
  assumes "json_unescape cs = Some (bs, n)"
  shows "parse_str (CHR 0x5C # cs) = consume bs (parse_str (drop n cs))"
  using assms by (subst parse_str.simps) simp

lemma parse_str_simple:
  assumes "json_simple_escape e = Some c"
  shows "parse_str (CHR 0x5C # e # cs) = consume [c] (parse_str cs)"
  using parse_str_escape [of "e # cs" "[c]" 1] assms by (simp add: json_unescape_def)

lemma parse_str_u_escape:
  assumes "(of_char c :: nat) < 128"
  shows "parse_str (u_escape c @ cs) = consume [c] (parse_str cs)"
proof -
  let ?h = "hex_digit (of_char c div 16)" and ?l = "hex_digit (of_char c mod 16)"
  have "(of_char c :: nat) div 16 < 16" using assms by (simp add: less_mult_imp_div_less)
  then have h: "hex_value ?h = Some (of_char c div 16)" and l: "hex_value ?l = Some (of_char c mod 16)"
    by (simp_all add: hex_value_hex_digit)
  have z: "hex_value (CHR ''0'') = Some 0" by (simp add: hex_value_def)
  have "numeric_escape hex_value 16 4 (CHR ''0'' # CHR ''0'' # ?h # ?l # cs) = Some (of_char c)"
    by (simp add: numeric_escape_def h l z)
  moreover have "valid_rune (of_char c)" "utf8_encode (of_char c) = [c]"
    using assms by (simp_all add: valid_rune_def utf8_encode_def)
  moreover have "json_simple_escape (CHR ''u'') = None" by (simp add: json_simple_escape_def)
  ultimately have "json_unescape (CHR ''u'' # CHR ''0'' # CHR ''0'' # ?h # ?l # cs) = Some ([c], 5)"
    by (simp add: json_unescape_def)
  from parse_str_escape [OF this] show ?thesis by (simp add: u_escape_def)
qed

lemma parse_str_simples:
  "parse_str (CHR 0x5C # CHR 0x22 # cs) = consume [CHR 0x22] (parse_str cs)"
  "parse_str (CHR 0x5C # CHR 0x5C # cs) = consume [CHR 0x5C] (parse_str cs)"
  "parse_str (CHR 0x5C # CHR ''b'' # cs) = consume [CHR 0x08] (parse_str cs)"
  "parse_str (CHR 0x5C # CHR ''f'' # cs) = consume [CHR 0x0C] (parse_str cs)"
  "parse_str (CHR 0x5C # CHR ''n'' # cs) = consume [CHR 0x0A] (parse_str cs)"
  "parse_str (CHR 0x5C # CHR ''r'' # cs) = consume [CHR 0x0D] (parse_str cs)"
  "parse_str (CHR 0x5C # CHR ''t'' # cs) = consume [CHR 0x09] (parse_str cs)"
  by (rule parse_str_simple, simp add: json_simple_escape_def)+

lemma parse_str_escape_char: "parse_str (escape_char c @ cs) = consume [c] (parse_str cs)"
proof (cases "c = CHR 0x22 \<or> c = CHR 0x5C \<or> c = CHR 0x08 \<or> c = CHR 0x0C \<or> c = CHR 0x0A \<or> c = CHR 0x0D \<or> c = CHR 0x09")
  case True
  then show ?thesis by (elim disjE) (simp_all add: escape_char_def parse_str_simples)
next
  case simple: False
  show ?thesis
  proof (cases "(of_char c :: nat) < 32 \<or> c = CHR ''<'' \<or> c = CHR ''>'' \<or> c = CHR ''&''")
    case True
    then have "(of_char c :: nat) < 128" by auto
    moreover have "escape_char c = u_escape c" using simple True by (auto simp: escape_char_def)
    ultimately show ?thesis by (simp add: parse_str_u_escape)
  next
    case False
    with simple have "escape_char c = [c]" by (simp add: escape_char_def)
    with False simple show ?thesis by (simp add: parse_str_plain)
  qed
qed

lemma utf8_line_separators:
  "utf8_encode 0x2028 = [CHR 0xE2, CHR 0x80, CHR 0xA8]" "utf8_encode 0x2029 = [CHR 0xE2, CHR 0x80, CHR 0xA9]"
  by (simp_all add: utf8_encode_def char_of_eq_iff take_bit_eq_mod)

lemma parse_str_line_separators:
  "parse_str ([CHR 0x5C] @ ''u2028'' @ cs) = consume [CHR 0xE2, CHR 0x80, CHR 0xA8] (parse_str cs)"
  "parse_str ([CHR 0x5C] @ ''u2029'' @ cs) = consume [CHR 0xE2, CHR 0x80, CHR 0xA9] (parse_str cs)"
proof -
  have u: "json_simple_escape (CHR ''u'') = None" by (simp add: json_simple_escape_def)
  have n: "numeric_escape hex_value 16 4 (''2028'' @ cs) = Some 0x2028" "numeric_escape hex_value 16 4 (''2029'' @ cs) = Some 0x2029"
    by (simp_all add: numeric_escape_def hex_value_def)
  have "json_unescape (''u2028'' @ cs) = Some ([CHR 0xE2, CHR 0x80, CHR 0xA8], 5)"
    "json_unescape (''u2029'' @ cs) = Some ([CHR 0xE2, CHR 0x80, CHR 0xA9], 5)"
    using n u utf8_line_separators by (simp_all add: json_unescape_def valid_rune_def)
  from this [THEN parse_str_escape] show
    "parse_str ([CHR 0x5C] @ ''u2028'' @ cs) = consume [CHR 0xE2, CHR 0x80, CHR 0xA8] (parse_str cs)"
    "parse_str ([CHR 0x5C] @ ''u2029'' @ cs) = consume [CHR 0xE2, CHR 0x80, CHR 0xA9] (parse_str cs)"
    by simp_all
qed

lemma parse_str_escape_with:
  assumes esc: "\<And>c cs. parse_str (esc c @ cs) = consume [c] (parse_str cs)"
  shows "parse_str (escape_with esc s @ CHR 0x22 # rest) = Some (s, rest)"
using assms
proof (induction esc s rule: escape_with.induct)
  case 1
  then show ?case by (simp add: parse_str_quote)
next
  case (2 esc c cs)
  note esc = "2.prems"
  consider "c = CHR 0xE2" "take 2 cs = [CHR 0x80, CHR 0xA8]" | "c = CHR 0xE2" "take 2 cs = [CHR 0x80, CHR 0xA9]"
    | "\<not> (c = CHR 0xE2 \<and> take 2 cs = [CHR 0x80, CHR 0xA8])" "\<not> (c = CHR 0xE2 \<and> take 2 cs = [CHR 0x80, CHR 0xA9])"
    by blast
  then show ?case
  proof cases
    case 1
    then have "cs = [CHR 0x80, CHR 0xA8] @ drop 2 cs" by (metis append_take_drop_id)
    with 1 "2.IH"(1) [OF conjI [OF 1] esc] show ?thesis by (simp add: parse_str_line_separators [simplified])
  next
    case 2
    then have "\<not> (c = CHR 0xE2 \<and> take 2 cs = [CHR 0x80, CHR 0xA8])" by simp
    note ih = "2.IH"(2) [OF this conjI [OF 2] esc]
    have "cs = [CHR 0x80, CHR 0xA9] @ drop 2 cs" using 2 by (metis append_take_drop_id)
    with 2 ih show ?thesis by (simp add: parse_str_line_separators [simplified])
  next
    case 3
    then have "escape_with esc (c # cs) = esc c @ escape_with esc cs"
      unfolding escape_with.simps by (simp only: if_False)
    with "2.IH"(3) [OF 3 esc] show ?thesis by (simp add: esc)
  qed
qed

lemmas parse_str_escape_string = parse_str_escape_with [OF parse_str_escape_char]

lemma parse_render_string: "parse_str (tl (render_string s) @ rest) = Some (s, rest)"
  by (simp add: render_string_def parse_str_escape_string)


section \<open>Lemmas on numbers\<close>

lemma digits_nat_small: "n < 10 \<Longrightarrow> digits_nat n = [char_of (48 + n)]"
  by (subst digits_nat.simps) simp

lemma digits_nat_big: "\<not> n < 10 \<Longrightarrow> digits_nat n = digits_nat (n div 10) @ [char_of (48 + n mod 10)]"
  by (subst digits_nat.simps) simp

lemma digits_nat_digits: "list_all is_digit (digits_nat n) \<and> digits_nat n \<noteq> []"
proof (induction n rule: digits_nat.induct)
  case (1 n)
  then show ?case by (cases "n < 10") (simp_all add: digits_nat_small digits_nat_big is_digit_def)
qed

lemma digits_nat_head: "hd (digits_nat n) = CHR ''0'' \<longleftrightarrow> n = 0"
proof (induction n rule: digits_nat.induct)
  case (1 n)
  show ?case
  proof (cases "n < 10")
    case True
    then show ?thesis by (simp add: digits_nat_small char_of_eq_iff take_bit_eq_mod)
  next
    case False
    then have "hd (digits_nat n) = hd (digits_nat (n div 10))"
      using digits_nat_digits [of "n div 10"] by (simp add: digits_nat_big)
    with 1 False show ?thesis by auto
  qed
qed

lemma digits_nat_zero: "digits_nat 0 = ''0''"
  by (simp add: digits_nat_small char_of_eq_iff take_bit_eq_mod)

lemma nat_of_digits_nat: "nat_of_digits (digits_nat n) = n"
proof (induction n rule: digits_nat.induct)
  case (1 n)
  have "nat_of_digits (xs @ [c]) = nat_of_digits xs * 10 + digit_val c" for xs c by (simp add: nat_of_digits_def)
  with 1 show ?case
    by (cases "n < 10") (simp_all add: digits_nat_small digits_nat_big digit_val_def, simp add: nat_of_digits_def digit_val_def)
qed

definition num_end :: "string \<Rightarrow> bool" where
  "num_end rest = (case rest of [] \<Rightarrow> True
     | c # _ \<Rightarrow> \<not> is_digit c \<and> c \<noteq> CHR ''.'' \<and> c \<noteq> CHR ''e'' \<and> c \<noteq> CHR ''E'')"

lemma scan_int_digits_nat:
  assumes "num_end rest"
  shows "scan_int (digits_nat n @ rest) = Some (digits_nat n, rest)"
proof -
  have all: "\<forall>c \<in> set (digits_nat n). is_digit c" and ne: "digits_nat n \<noteq> []"
    using digits_nat_digits [of n] by (simp_all add: list_all_iff)
  have tw: "takeWhile is_digit rest = []" "dropWhile is_digit rest = rest"
    using assms by (cases rest; simp add: num_end_def)+
  have "takeWhile is_digit (digits_nat n @ rest) = digits_nat n" "dropWhile is_digit (digits_nat n @ rest) = rest"
    using all tw by (simp_all add: takeWhile_append2 dropWhile_append2)
  moreover have "\<not> (hd (digits_nat n) = CHR ''0'' \<and> 1 < length (digits_nat n))"
    using digits_nat_head [of n] digits_nat_zero by auto
  ultimately show ?thesis using ne by (simp add: scan_int_def Let_def)
qed

lemma digit_not_sign: "is_digit c \<Longrightarrow> c \<noteq> CHR ''-''"
  by (auto simp: is_digit_def)

lemma parse_num_render:
  assumes "num_end rest"
  shows "parse_num (render_int i @ rest) = Some (JInt i, rest)"
proof -
  have tail: "scan_frac rest = Some ([], rest)" "scan_exp rest = Some ([], rest)"
    using assms by (cases rest; simp add: num_end_def scan_frac_def scan_exp_def)+
  have int: "scan_int (digits_nat n @ rest) = Some (digits_nat n, rest)" for n
    using assms by (rule scan_int_digits_nat)
  show ?thesis
  proof (cases "i < 0")
    case True
    then show ?thesis using int tail by (simp add: render_int_def parse_num_def nat_of_digits_nat)
  next
    case False
    obtain c cs where c: "digits_nat (nat i) = c # cs" using digits_nat_digits [of "nat i"] by (cases "digits_nat (nat i)") auto
    then have "c \<noteq> CHR ''-''" using digits_nat_digits [of "nat i"] digit_not_sign by simp
    with False int [of "nat i"] tail c nat_of_digits_nat [of "nat i"] show ?thesis
      by (simp add: render_int_def parse_num_def)
  qed
qed


section \<open>Decoding what was encoded\<close>

fun json_plain :: "json \<Rightarrow> bool" where
  "json_plain (JFloat _) = False"
| "json_plain (JArr xs) = list_all json_plain xs"
| "json_plain (JObj kvs) = list_all (\<lambda>kv. json_plain (snd kv)) kvs"
| "json_plain _ = True"

lemma obj_of_sorted:
  assumes "sorted_wrt (<) (map fst kvs)" shows "obj_of kvs = kvs"
proof -
  have d: "distinct (map fst kvs)" "sorted (map fst kvs)" using assms by (simp_all add: strict_sorted_iff)
  have "map_of (rev kvs) k = Some v" if "(k, v) \<in> set kvs" for k v
    using that d(1) by (simp add: rev_map [symmetric])
  then show ?thesis using d by (auto simp: obj_of_def sorted_set_id intro!: map_idI)
qed

lemma all_some_list_all2: "all_some (map f xs) = Some ts \<Longrightarrow> list_all2 (\<lambda>x t. f x = Some t) xs ts"
  by (induction xs arbitrary: ts) (auto split: option.splits)

definition value_start :: "string \<Rightarrow> bool" where
  "value_start t \<longleftrightarrow> t \<noteq> [] \<and> \<not> is_space (hd t) \<and> hd t \<noteq> CHR '']''"

lemma value_start_Cons: "value_start (c # cs) \<longleftrightarrow> \<not> is_space c \<and> c \<noteq> CHR '']''"
  by (simp add: value_start_def)

lemma render_string_start [simp]: "value_start (render_string k)"
  by (simp add: value_start_def render_string_def is_space_def)

lemma digit_not_special: "is_digit c \<Longrightarrow> \<not> is_space c \<and> c \<noteq> CHR '']'' \<and> c \<noteq> CHR ''['' \<and> c \<noteq> CHR ''{'' \<and> c \<noteq> CHR 0x22
    \<and> c \<noteq> CHR ''n'' \<and> c \<noteq> CHR ''t'' \<and> c \<noteq> CHR ''f''"
  by (auto simp: is_digit_def is_space_def)

lemma render_int_head:
  "\<exists>c cs. render_int i = c # cs \<and> (c = CHR ''-'' \<or> is_digit c)"
  using digits_nat_digits [of "nat i"] by (cases "digits_nat (nat i)") (auto simp: render_int_def)

lemma marshal_start: "json_marshal v = Some t \<Longrightarrow> json_plain v \<Longrightarrow> value_start t"
proof (cases v)
  case (JInt i)
  assume "json_marshal v = Some t"
  then show ?thesis using render_int_head [of i] digit_not_special by (auto simp: JInt value_start_def is_space_def)
qed (auto simp: value_start_def is_space_def render_string_def split: option.splits if_splits)

lemma skip_ws_start: "value_start t \<Longrightarrow> skip_ws (t @ rest) = t @ rest"
  by (cases t) (simp_all add: skip_ws_def value_start_def)

lemma skip_ws_nonspace: "\<not> is_space c \<Longrightarrow> skip_ws (c # cs) = c # cs"
  by (simp add: skip_ws_def)

lemma nonspace [simp]: "\<not> is_space (CHR '','')" "\<not> is_space (CHR '']'')" "\<not> is_space (CHR ''}'')" "\<not> is_space (CHR '':'')"
  "\<not> is_space (CHR ''['')" "\<not> is_space (CHR ''{'')" "\<not> is_space (CHR 0x22)"
  by (simp_all add: is_space_def)

lemma join_with_start: "ts \<noteq> [] \<Longrightarrow> value_start (hd ts) \<Longrightarrow> value_start (join_with sep ts)"
  by (cases ts rule: list.exhaust; cases "tl ts") (auto simp: value_start_def)

text \<open>A text that is read as a value wherever it stands, and one that is read as a member of an object.\<close>

definition reads :: "string \<Rightarrow> json \<Rightarrow> bool" where
  "reads t v \<longleftrightarrow> (\<forall>rest n. num_end rest \<longrightarrow> length t \<le> n \<longrightarrow> parse_value n (t @ rest) = Some (v, rest))"

definition reads_member :: "string \<Rightarrow> string \<times> json \<Rightarrow> bool" where
  "reads_member m kv \<longleftrightarrow> (\<exists>q t. m = CHR 0x22 # q @ CHR '':'' # t \<and> reads t (snd kv) \<and> (\<forall>rest. parse_str (q @ rest) = Some (fst kv, rest)))"

lemma num_end_delim [simp]: "num_end (CHR '','' # s)" "num_end (CHR '']'' # s)" "num_end (CHR ''}'' # s)" "num_end []"
  by (simp_all add: num_end_def is_digit_def)

lemma parse_elems_reads:
  assumes "list_all2 reads ts xs" and "xs \<noteq> []" and "length (join_with '','' ts) < n"
  shows "parse_elems n (join_with '','' ts @ CHR '']'' # rest) = Some (xs, rest)"
  using assms
proof (induction ts xs arbitrary: n rule: list_all2_induct)
  case (Cons t us v vs)
  obtain m where n: "n = Suc m" using Cons.prems(2) by (cases n) auto
  show ?case
  proof (cases vs)
    case Nil
    then have "us = []" using Cons.hyps(2) by simp
    then show ?thesis
      using Cons.hyps(1) Cons.prems(2) Nil by (simp add: n parse_elems.simps reads_def skip_ws_nonspace)
  next
    case (Cons w ws)
    then obtain u us' where us': "us = u # us'" using Cons.hyps(2) by (auto simp: list_all2_Cons2)
    have len: "length t \<le> m" "length (join_with '','' us) < m"
      using Cons.prems(2) by (simp_all add: n us')
    have "parse_value m (t @ CHR '','' # join_with '','' us @ CHR '']'' # rest)
        = Some (v, CHR '','' # join_with '','' us @ CHR '']'' # rest)"
      using Cons.hyps(1) len(1) by (simp add: reads_def)
    moreover have "parse_elems m (join_with '','' us @ CHR '']'' # rest) = Some (vs, rest)"
      using Cons.IH [OF _ len(2)] Cons by simp
    ultimately show ?thesis by (simp add: n us' parse_elems.simps skip_ws_nonspace)
  qed
qed simp

lemma parse_member_head:
  assumes "reads_member m (k, v)" and "length m \<le> Suc n" and "num_end rest"
  shows "parse_members (Suc n) (m @ rest) =
    (case skip_ws rest of
       [] \<Rightarrow> None
     | c # cs \<Rightarrow> (if c = CHR ''}'' then Some ([(k, v)], cs)
                  else if c = CHR '','' then map_option (\<lambda>(kvs, r). ((k, v) # kvs, r)) (parse_members n cs)
                  else None))"
proof -
  obtain q t where m: "m = CHR 0x22 # q @ CHR '':'' # t" "reads t v" "parse_str (q @ CHR '':'' # t @ rest) = Some (k, CHR '':'' # t @ rest)"
    using assms(1) by (auto simp: reads_member_def)
  moreover have "parse_value n (t @ rest) = Some (v, rest)" using assms(2,3) m(1,2) by (simp add: reads_def)
  ultimately show ?thesis by (simp add: parse_members.simps skip_ws_nonspace)
qed

lemma parse_members_reads:
  assumes "list_all2 reads_member ms kvs" and "kvs \<noteq> []" and "length (join_with '','' ms) < n"
  shows "parse_members n (join_with '','' ms @ CHR ''}'' # rest) = Some (kvs, rest)"
  using assms
proof (induction ms kvs arbitrary: n rule: list_all2_induct)
  case (Cons m ms kv kvs)
  obtain k v where kv: "kv = (k, v)" by (cases kv)
  obtain n' where n: "n = Suc n'" using Cons.prems(2) by (cases n) auto
  note head = parse_member_head [OF Cons.hyps(1) [unfolded kv], of n']
  show ?case
  proof (cases kvs)
    case Nil
    then have "ms = []" using Cons.hyps(2) by simp
    then show ?thesis
      using head [of "CHR ''}'' # rest"] Cons.prems(2) Nil by (simp add: n kv skip_ws_nonspace)
  next
    case (Cons w ws)
    then obtain u us' where us': "ms = u # us'" using Cons.hyps(2) by (auto simp: list_all2_Cons2)
    have len: "length m \<le> Suc n'" "length (join_with '','' ms) < n'"
      using Cons.prems(2) by (simp_all add: n us')
    have "parse_members n' (join_with '','' ms @ CHR ''}'' # rest) = Some (kvs, rest)"
      using Cons.IH [OF _ len(2)] Cons by simp
    then show ?thesis
      using head [of "CHR '','' # join_with '','' ms @ CHR ''}'' # rest"] len(1)
      by (simp add: n us' kv skip_ws_nonspace)
  qed
qed simp

lemma reads_array:
  assumes "list_all2 reads ts xs" and "list_all value_start ts"
  shows "reads (''['' @ join_with '','' ts @ '']'') (JArr xs)"
  unfolding reads_def
proof (intro allI impI)
  fix rest n assume len: "length (''['' @ join_with '','' ts @ '']'') \<le> n"
  then obtain m where n: "n = Suc m" by (cases n) auto
  show "parse_value n ((''['' @ join_with '','' ts @ '']'') @ rest) = Some (JArr xs, rest)"
  proof (cases ts)
    case Nil
    then show ?thesis using assms(1) by (simp add: n parse_value.simps skip_ws_nonspace)
  next
    case (Cons u us)
    then have "value_start (join_with '','' ts)" using assms(2) by (intro join_with_start) simp_all
    then obtain d ds where d: "join_with '','' ts = d # ds" "\<not> is_space d" "d \<noteq> CHR '']''"
      by (cases "join_with '','' ts") (auto simp: value_start_def)
    have "parse_elems m (join_with '','' ts @ CHR '']'' # rest) = Some (xs, rest)"
      using len assms(1) Cons by (intro parse_elems_reads) (auto simp: n)
    with d show ?thesis by (simp add: n parse_value.simps skip_ws_nonspace)
  qed
qed

lemma reads_object:
  assumes "list_all2 reads_member ms kvs"
  shows "reads (''{'' @ join_with '','' ms @ ''}'') (JObj (obj_of kvs))"
  unfolding reads_def
proof (intro allI impI)
  fix rest n assume len: "length (''{'' @ join_with '','' ms @ ''}'') \<le> n"
  then obtain m where n: "n = Suc m" by (cases n) auto
  show "parse_value n ((''{'' @ join_with '','' ms @ ''}'') @ rest) = Some (JObj (obj_of kvs), rest)"
  proof (cases ms)
    case Nil
    then show ?thesis using assms by (simp add: n parse_value.simps skip_ws_nonspace obj_of_def sorted_set_def)
  next
    case (Cons u us)
    then obtain ds where d: "join_with '','' ms = CHR 0x22 # ds"
      using assms by (cases us) (auto simp: reads_member_def list_all2_Cons1)
    have "parse_members m (join_with '','' ms @ CHR ''}'' # rest) = Some (kvs, rest)"
      using len assms Cons by (intro parse_members_reads) (auto simp: n)
    with d show ?thesis by (simp add: n parse_value.simps skip_ws_nonspace)
  qed
qed

lemma unmarshal_reads: "reads t v \<Longrightarrow> json_unmarshal t = Some v"
  by (auto simp: reads_def json_unmarshal_def skip_ws_def dest!: spec [of _ "[]"])

lemma gm_get_obj_of:
  assumes "gm_wf kvs" shows "gm_get (obj_of kvs) k = gm_get kvs k"
proof -
  have g: "gm_get (obj_of kvs) k = (if k \<in> fst ` set kvs then Some (the (gm_get (rev kvs) k)) else None)"
    by (simp add: obj_of_def gm_get_map gm_get_def [of "rev kvs"])
  have "k \<in> fst ` set kvs \<longleftrightarrow> gm_get kvs k \<noteq> None" by (simp add: gm_get_def map_of_eq_None_iff)
  with g gm_get_rev [OF assms, of k] show ?thesis by auto
qed

definition parses_back :: "json \<Rightarrow> bool" where
  "parses_back v \<longleftrightarrow> (\<forall>t. json_marshal v = Some t \<longrightarrow> reads t v)"

definition member_text :: "string \<times> string \<Rightarrow> string" where
  "member_text kt = render_string (fst kt) @ CHR '':'' # snd kt"

lemma reads_member_text: "reads t v \<Longrightarrow> reads_member (member_text (k, t)) (k, v)"
  unfolding reads_member_def member_text_def
  by (intro exI [of _ "escape_string k @ [CHR 0x22]"] exI [of _ t]) (simp add: render_string_def parse_str_escape_string)

lemma marshal_obj:
  assumes "sorted_wrt (<) (map fst kvs)" and "json_marshal (JObj kvs) = Some t"
  shows "\<exists>ts. list_all2 (\<lambda>kv t. fst t = fst kv \<and> json_marshal (snd kv) = Some (snd t)) kvs ts
    \<and> t = ''{'' @ join_with '','' (map member_text ts) @ ''}''"
proof -
  have "sort_key fst (map (\<lambda>(k, v). (k, json_marshal v)) kvs) = map (\<lambda>(k, v). (k, json_marshal v)) kvs"
  proof (rule sort_key_id_if_sorted)
    show "sorted (map fst (map (\<lambda>(k, v). (k, json_marshal v)) kvs))"
      using assms(1) by (simp add: strict_sorted_iff comp_def case_prod_beta)
  qed
  then obtain us where us: "all_some (map (\<lambda>kv. map_option (\<lambda>u. render_string (fst kv) @ '':'' @ u) (json_marshal (snd kv))) kvs) = Some us"
    and t: "t = ''{'' @ join_with '','' us @ ''}''"
    using assms(2) by (auto simp: comp_def case_prod_beta split: option.splits)
  have "\<exists>ts. list_all2 (\<lambda>kv t. fst t = fst kv \<and> json_marshal (snd kv) = Some (snd t)) kvs ts \<and> us = map member_text ts"
    using all_some_list_all2 [OF us]
  proof (induction kvs us rule: list_all2_induct)
    case (Cons kv kvs u us)
    then obtain ts where ts: "list_all2 (\<lambda>kv t. fst t = fst kv \<and> json_marshal (snd kv) = Some (snd t)) kvs ts"
      "us = map member_text ts" by blast
    obtain w where w: "json_marshal (snd kv) = Some w" "u = member_text (fst kv, w)"
      using Cons.hyps(1) by (cases kv) (auto simp: member_text_def)
    show ?case by (rule exI [of _ "(fst kv, w) # ts"]) (simp add: ts w)
  qed simp
  with t show ?thesis by blast
qed

lemma parse_literal_int: "num_end rest \<Longrightarrow> parse_literal (render_int i @ rest) = Some (JInt i, rest)"
  using render_int_head [of i] parse_num_render [of rest i] digit_not_special
  by (auto simp: parse_literal_def)

lemma parses_backI:
  assumes "\<And>t rest m. json_marshal v = Some t \<Longrightarrow> num_end rest \<Longrightarrow> length t \<le> Suc m \<Longrightarrow>
      parse_value (Suc m) (t @ rest) = Some (v, rest)"
    and "json_marshal v \<noteq> Some []"
  shows "parses_back v"
  unfolding parses_back_def reads_def
proof (intro allI impI)
  fix t rest n assume t: "json_marshal v = Some t" "num_end rest" "length t \<le> n"
  then obtain m where "n = Suc m" using assms(2) by (cases n) auto
  with t assms(1) show "parse_value n (t @ rest) = Some (v, rest)" by simp
qed

lemma parses_back_int: "parses_back (JInt i)"
proof (rule parses_backI)
  obtain c cs where c: "render_int i = c # cs" "c = CHR ''-'' \<or> is_digit c" using render_int_head by blast
  then have nc: "\<not> is_space c \<and> c \<noteq> CHR 0x22 \<and> c \<noteq> CHR ''['' \<and> c \<noteq> CHR ''{''"
    using digit_not_special by (auto simp: is_space_def)
  show "json_marshal (JInt i) \<noteq> Some []" using c by simp
  fix t rest m assume "json_marshal (JInt i) = Some t" "num_end rest"
  then show "parse_value (Suc m) (t @ rest) = Some (JInt i, rest)"
    using parse_literal_int [of rest i] c(1) nc by (auto simp: parse_value.simps skip_ws_nonspace)
qed

lemma parses_back_literals: "parses_back JNull" "parses_back (JBool b)"
  by (rule parses_backI; auto simp: parse_value.simps skip_ws_def is_space_def parse_literal_def split: if_splits)+

lemma parses_back_str: "parses_back (JStr s)"
proof (rule parses_backI)
  fix t rest m assume "json_marshal (JStr s) = Some t"
  then have "t @ rest = CHR 0x22 # escape_string s @ CHR 0x22 # rest" by (auto simp: render_string_def)
  then show "parse_value (Suc m) (t @ rest) = Some (JStr s, rest)"
    by (simp add: parse_value.simps skip_ws_nonspace parse_str_escape_string)
qed (simp add: render_string_def)

lemma parses_back_arr:
  assumes "\<And>v. v \<in> set xs \<Longrightarrow> parses_back v" and "list_all json_plain xs"
  shows "parses_back (JArr xs)"
  unfolding parses_back_def
proof (intro allI impI)
  fix t assume "json_marshal (JArr xs) = Some t"
  then obtain ts where ts: "all_some (map json_marshal xs) = Some ts" "t = ''['' @ join_with '','' ts @ '']''"
    by (auto split: option.splits)
  have "list_all2 reads ts xs \<and> list_all value_start ts"
    using all_some_list_all2 [OF ts(1)] assms
    by (induction xs ts rule: list_all2_induct) (auto simp: parses_back_def marshal_start)
  with ts(2) show "reads t (JArr xs)" using reads_array by blast
qed

lemma parses_back_obj:
  assumes "\<And>kv. kv \<in> set kvs \<Longrightarrow> parses_back (snd kv)" and "sorted_wrt (<) (map fst kvs)"
  shows "parses_back (JObj kvs)"
  unfolding parses_back_def
proof (intro allI impI)
  fix t assume t: "json_marshal (JObj kvs) = Some t"
  obtain ts where l: "list_all2 (\<lambda>kv t. fst t = fst kv \<and> json_marshal (snd kv) = Some (snd t)) kvs ts"
    and ts: "t = ''{'' @ join_with '','' (map member_text ts) @ ''}''"
    using marshal_obj [OF assms(2) t] by blast
  have "list_all2 reads_member (map member_text ts) kvs"
    using l assms(1)
  proof (induction kvs ts rule: list_all2_induct)
    case (Cons kv kvs u us)
    then have "parses_back (snd kv)" by simp
    with Cons show ?case using reads_member_text [of "snd u" "snd kv" "fst kv"] by (cases kv; cases u) (simp add: parses_back_def)
  qed simp
  from reads_object [OF this] show "reads t (JObj kvs)" by (simp add: ts obj_of_sorted [OF assms(2)])
qed

lemma parses_back_all: "json_wf v \<Longrightarrow> json_plain v \<Longrightarrow> parses_back v"
proof (induction v)
  case (JArr xs)
  then show ?case by (intro parses_back_arr) (auto simp: list_all_iff)
next
  case (JObj kvs)
  have "parses_back (snd kv)" if "kv \<in> set kvs" for kv
    using JObj.IH [OF that, of "snd kv"] JObj.prems that by (simp add: list_all_iff snds.simps)
  then show ?case using JObj.prems by (intro parses_back_obj) simp_all
qed (simp_all add: parses_back_int parses_back_literals parses_back_str)

lemma unmarshal_marshal:
  assumes "json_wf v" and "json_plain v" and "json_marshal v = Some t"
  shows "json_unmarshal t = Some v"
  using parses_back_all [OF assms(1,2)] assms(3) by (auto simp: parses_back_def intro: unmarshal_reads)

section \<open>Decoded values are well-formed\<close>

lemma obj_of_wf: "list_all (\<lambda>kv. json_wf (snd kv)) kvs \<Longrightarrow> json_wf (JObj (obj_of kvs))"
proof -
  assume wf: "list_all (\<lambda>kv. json_wf (snd kv)) kvs"
  have "json_wf (the (map_of (rev kvs) k))" if k: "k \<in> fst ` set kvs" for k
  proof -
    obtain v where "map_of (rev kvs) k = Some v" using k by (metis map_of_eq_None_iff not_None_eq set_rev)
    moreover from this have "(k, v) \<in> set kvs" by (auto dest: map_of_SomeD)
    ultimately show ?thesis using wf by (auto simp: list_all_iff)
  qed
  moreover have "sorted_wrt (<) (sorted_set (map fst kvs))" by (simp add: sorted_set_def strict_sorted_iff)
  ultimately show ?thesis by (simp add: obj_of_def comp_def list_all_iff)
qed

lemma parse_num_wf: "parse_num s = Some (v, r) \<Longrightarrow> json_wf v"
  by (auto simp: parse_num_def Let_def split: option.splits prod.splits list.splits if_splits)

lemma parse_wf:
  "parse_value n s = Some (v, r) \<Longrightarrow> json_wf v"
  "parse_elems n s = Some (vs, r) \<Longrightarrow> list_all json_wf vs"
  "parse_members n s = Some (kvs, r) \<Longrightarrow> list_all (\<lambda>kv. json_wf (snd kv)) kvs"
proof (induction n s and n s and n s arbitrary: v r and vs r and kvs r rule: parse_value_parse_elems_parse_members.induct)
  case (2 n s)
  have "json_wf (JObj [])" by simp
  with 2(3) show ?case
    by (auto simp: parse_value.simps parse_literal_def obj_of_wf parse_num_wf simp del: json_wf.simps(2)
        split: list.splits if_splits dest: 2(1,2))
next
  case (4 n s)
  then show ?case by (fastforce simp: parse_elems.simps split: list.splits if_splits option.splits)
next
  case (6 n s)
  then show ?case by (fastforce simp: parse_members.simps split: list.splits if_splits option.splits)
qed (simp_all add: parse_value.simps parse_elems.simps parse_members.simps)

lemma json_unmarshal_wf: "json_unmarshal s = Some v \<Longrightarrow> json_wf v"
  by (auto simp: json_unmarshal_def split: option.splits prod.splits if_splits dest: parse_wf(1))

end
