(* ===== verification/EventFilter.thy ===== *)
theory EventFilter
  imports JsonParse
begin

text \<open>
  Event filters (\<open>internal/watch/eventfilter.go\<close>): how a rule's filter is canonicalized into the
  string the registry carries, compiled, evaluated against an Event, and what of it is pushed to the
  API server as a field selector.

  An Event is its unstructured content. \<open>encoding/json\<close> on the filter's struct is spelled out: members
  in declaration order, empty lists omitted, and a decoder that reads the members by their exact
  names. Rendering a list of field-selector terms as a string is the \<open>fields\<close> library's, a parameter.
\<close>

type_synonym event_object = "(string, json) gomap"

record EventFilterSpec =
  efs_Types :: "string list"
  efs_Reasons :: "string list"
  efs_ExcludeReasons :: "string list"
  efs_SourceComponents :: "string list"
  efs_SubjectKinds :: "string list"
  efs_SubjectNames :: "string list"

section \<open>Canonical form\<close>

definition canonicalEventFilterList :: "string list \<Rightarrow> string list" where
  "canonicalEventFilterList values = sorted_set (filter (\<lambda>v. v \<noteq> []) values)"

definition constrainsNothing :: "EventFilterSpec \<Rightarrow> bool" where
  "constrainsNothing s \<longleftrightarrow> efs_Types s = [] \<and> efs_Reasons s = [] \<and> efs_ExcludeReasons s = []
     \<and> efs_SourceComponents s = [] \<and> efs_SubjectKinds s = [] \<and> efs_SubjectNames s = []"

definition canonicalSpec :: "EventFilterSpec \<Rightarrow> EventFilterSpec" where
  "canonicalSpec s =
     \<lparr>efs_Types = canonicalEventFilterList (efs_Types s), efs_Reasons = canonicalEventFilterList (efs_Reasons s),
      efs_ExcludeReasons = canonicalEventFilterList (efs_ExcludeReasons s),
      efs_SourceComponents = canonicalEventFilterList (efs_SourceComponents s),
      efs_SubjectKinds = canonicalEventFilterList (efs_SubjectKinds s),
      efs_SubjectNames = canonicalEventFilterList (efs_SubjectNames s)\<rparr>"

text \<open>The members a marshalled filter has: the axes in declaration order, an empty one omitted.\<close>

definition specAxes :: "EventFilterSpec \<Rightarrow> (string \<times> string list) list" where
  "specAxes s =
     [(''types'', efs_Types s), (''reasons'', efs_Reasons s), (''excludeReasons'', efs_ExcludeReasons s),
      (''sourceComponents'', efs_SourceComponents s), (''subjectKinds'', efs_SubjectKinds s),
      (''subjectNames'', efs_SubjectNames s)]"

definition marshalledAxes :: "EventFilterSpec \<Rightarrow> (string \<times> string list) list" where
  "marshalledAxes s = gm_filter (\<lambda>k vs. vs \<noteq> []) (specAxes s)"

definition encodeList :: "string list \<Rightarrow> string" where
  "encodeList vs = ''['' @ join_with '','' (map render_string vs) @ '']''"

definition encodeSpec :: "EventFilterSpec \<Rightarrow> string" where
  "encodeSpec s =
     ''{'' @ join_with '','' (map (\<lambda>(k, vs). render_string k @ '':'' @ encodeList vs) (marshalledAxes s)) @ ''}''"

definition CanonicalEventFilter :: "EventFilterSpec \<Rightarrow> string" where
  "CanonicalEventFilter spec =
     (let canonical = canonicalSpec spec in if constrainsNothing canonical then [] else encodeSpec canonical)"

section \<open>Compilation\<close>

fun decodeStrings :: "json list \<Rightarrow> string list option" where
  "decodeStrings [] = Some []"
| "decodeStrings (JStr s # vs) = map_option (\<lambda>ss. s # ss) (decodeStrings vs)"
| "decodeStrings (JNull # vs) = map_option (\<lambda>ss. [] # ss) (decodeStrings vs)"
| "decodeStrings (_ # vs) = None"

definition decodeAxis :: "(string \<times> json) list \<Rightarrow> string \<Rightarrow> string list option" where
  "decodeAxis kvs k =
     (case gm_get kvs k of
        None \<Rightarrow> Some []
      | Some JNull \<Rightarrow> Some []
      | Some (JArr vs) \<Rightarrow> decodeStrings vs
      | Some _ \<Rightarrow> None)"

definition decodeSpec :: "string \<Rightarrow> EventFilterSpec option" where
  "decodeSpec raw =
     (case json_unmarshal raw of
        Some (JObj kvs) \<Rightarrow>
          (case (decodeAxis kvs ''types'', decodeAxis kvs ''reasons'', decodeAxis kvs ''excludeReasons'',
                 decodeAxis kvs ''sourceComponents'', decodeAxis kvs ''subjectKinds'', decodeAxis kvs ''subjectNames'') of
             (Some a, Some b, Some c, Some d, Some e, Some f) \<Rightarrow>
               Some \<lparr>efs_Types = a, efs_Reasons = b, efs_ExcludeReasons = c, efs_SourceComponents = d,
                     efs_SubjectKinds = e, efs_SubjectNames = f\<rparr>
           | _ \<Rightarrow> None)
      | Some JNull \<Rightarrow> Some \<lparr>efs_Types = [], efs_Reasons = [], efs_ExcludeReasons = [], efs_SourceComponents = [],
                           efs_SubjectKinds = [], efs_SubjectNames = []\<rparr>
      | _ \<Rightarrow> None)"

text \<open>A compiled axis is the set of its values.\<close>

record compiledEventFilter =
  cef_types :: "string list"
  cef_reasons :: "string list"
  cef_excludeReasons :: "string list"
  cef_sourceComponents :: "string list"
  cef_subjectKinds :: "string list"
  cef_subjectNames :: "string list"

definition newEventFieldSet :: "string list \<Rightarrow> string list" where
  "newEventFieldSet values = remdups values"

definition compileFilter :: "EventFilterSpec \<Rightarrow> compiledEventFilter" where
  "compileFilter spec =
     \<lparr>cef_types = newEventFieldSet (efs_Types spec), cef_reasons = newEventFieldSet (efs_Reasons spec),
      cef_excludeReasons = newEventFieldSet (efs_ExcludeReasons spec),
      cef_sourceComponents = newEventFieldSet (efs_SourceComponents spec),
      cef_subjectKinds = newEventFieldSet (efs_SubjectKinds spec),
      cef_subjectNames = newEventFieldSet (efs_SubjectNames spec)\<rparr>"

section \<open>Push-down\<close>

record GroupResource =
  gr_Group :: string
  gr_Resource :: string

record eventFieldLabels =
  efl_eventType :: string
  efl_reason :: string
  efl_subjectKind :: string
  efl_subjectName :: string

definition eventSelectableFields :: "GroupResource \<Rightarrow> eventFieldLabels option" where
  "eventSelectableFields gr =
     (if gr = \<lparr>gr_Group = [], gr_Resource = ''events''\<rparr>
      then Some \<lparr>efl_eventType = ''type'', efl_reason = ''reason'', efl_subjectKind = ''involvedObject.kind'',
                 efl_subjectName = ''involvedObject.name''\<rparr>
      else if gr = \<lparr>gr_Group = ''events.k8s.io'', gr_Resource = ''events''\<rparr>
      then Some \<lparr>efl_eventType = ''type'', efl_reason = ''reason'', efl_subjectKind = ''regarding.kind'',
                 efl_subjectName = ''regarding.name''\<rparr>
      else None)"

datatype fieldTerm = FieldEqual string string | FieldNotEqual string string

definition soleTerm :: "string \<Rightarrow> string list \<Rightarrow> fieldTerm list" where
  "soleTerm label values = (case values of [v] \<Rightarrow> [FieldEqual label v] | _ \<Rightarrow> [])"

definition selectorTerms :: "eventFieldLabels \<Rightarrow> EventFilterSpec \<Rightarrow> fieldTerm list" where
  "selectorTerms labels spec =
     soleTerm (efl_eventType labels) (efs_Types spec)
     @ (if length (efs_Reasons spec) = 1 \<and> efs_ExcludeReasons spec = []
        then [FieldEqual (efl_reason labels) (hd (efs_Reasons spec))]
        else if efs_Reasons spec = [] \<and> efs_ExcludeReasons spec \<noteq> []
        then map (FieldNotEqual (efl_reason labels)) (efs_ExcludeReasons spec) else [])
     @ soleTerm (efl_subjectKind labels) (efs_SubjectKinds spec)
     @ soleTerm (efl_subjectName labels) (efs_SubjectNames spec)"

definition deriveEventFieldSelector ::
    "(fieldTerm list \<Rightarrow> string) \<Rightarrow> GroupResource \<Rightarrow> EventFilterSpec \<Rightarrow> string" where
  "deriveEventFieldSelector render gr spec =
     (case eventSelectableFields gr of
        None \<Rightarrow> []
      | Some labels \<Rightarrow> (let terms = selectorTerms labels spec in if terms = [] then [] else render terms))"

record eventMatcher =
  em_matchAll :: bool
  em_filters :: "compiledEventFilter list"
  em_fieldSelector :: string

fun compileLoop_ef :: "string list \<Rightarrow> bool \<Rightarrow> EventFilterSpec list \<Rightarrow> (bool \<times> EventFilterSpec list) option" where
  "compileLoop_ef [] matchAll specs = Some (matchAll, specs)"
| "compileLoop_ef (raw # canonical) matchAll specs =
     (if raw = [] then compileLoop_ef canonical True specs
      else case decodeSpec raw of
             None \<Rightarrow> None
           | Some spec \<Rightarrow> compileLoop_ef canonical matchAll (specs @ [spec]))"

definition compileEventFilters ::
    "(fieldTerm list \<Rightarrow> string) \<Rightarrow> GroupResource \<Rightarrow> string list \<Rightarrow> eventMatcher option" where
  "compileEventFilters render gr canonical =
     (case compileLoop_ef canonical False [] of
        None \<Rightarrow> None
      | Some (matchAll, specs) \<Rightarrow>
          (let matchAll = (matchAll \<or> specs = []) in
           Some \<lparr>em_matchAll = matchAll, em_filters = map compileFilter specs,
                 em_fieldSelector = (if \<not> matchAll \<and> length specs = 1
                   then deriveEventFieldSelector render gr (last specs) else [])\<rparr>))"

section \<open>Evaluation\<close>

definition plainString :: "event_object \<Rightarrow> string \<Rightarrow> string" where
  "plainString obj field = (case gm_get obj field of Some (JStr s) \<Rightarrow> s | _ \<Rightarrow> [])"

definition nestedString :: "event_object \<Rightarrow> string \<Rightarrow> string \<Rightarrow> string" where
  "nestedString obj outer field = (case gm_get obj outer of Some (JObj inner) \<Rightarrow> plainString inner field | _ \<Rightarrow> [])"

definition inEventFilterSet :: "string list \<Rightarrow> string \<Rightarrow> bool" where
  "inEventFilterSet S value = (if value = [] then False else value \<in> set S)"

definition subjectField :: "event_object \<Rightarrow> string \<Rightarrow> string" where
  "subjectField obj field =
     (let value = nestedString obj ''involvedObject'' field in
      if value \<noteq> [] then value else nestedString obj ''regarding'' field)"

definition componentMatches :: "string list \<Rightarrow> event_object \<Rightarrow> bool" where
  "componentMatches S obj =
     (inEventFilterSet S (nestedString obj ''source'' ''component'')
      \<or> inEventFilterSet S (plainString obj ''reportingComponent'')
      \<or> inEventFilterSet S (plainString obj ''reportingController'')
      \<or> inEventFilterSet S (nestedString obj ''deprecatedSource'' ''component''))"

definition filterMatches :: "compiledEventFilter \<Rightarrow> event_object \<Rightarrow> bool" where
  "filterMatches f obj =
     (if cef_types f \<noteq> [] \<and> \<not> inEventFilterSet (cef_types f) (plainString obj ''type'') then False
      else if cef_reasons f \<noteq> [] \<and> \<not> inEventFilterSet (cef_reasons f) (plainString obj ''reason'') then False
      else if cef_excludeReasons f \<noteq> [] \<and> inEventFilterSet (cef_excludeReasons f) (plainString obj ''reason'') then False
      else if cef_sourceComponents f \<noteq> [] \<and> \<not> componentMatches (cef_sourceComponents f) obj then False
      else if cef_subjectKinds f \<noteq> [] \<and> \<not> inEventFilterSet (cef_subjectKinds f) (subjectField obj ''kind'') then False
      else if cef_subjectNames f \<noteq> [] \<and> \<not> inEventFilterSet (cef_subjectNames f) (subjectField obj ''name'') then False
      else True)"

definition matchesAll :: "eventMatcher option \<Rightarrow> bool" where
  "matchesAll m = (case m of None \<Rightarrow> True | Some m \<Rightarrow> em_matchAll m)"

definition matcherMatches :: "eventMatcher option \<Rightarrow> event_object \<Rightarrow> bool" where
  "matcherMatches m obj =
     (if matchesAll m then True
      else case m of None \<Rightarrow> True | Some m \<Rightarrow> list_ex (\<lambda>f. filterMatches f obj) (em_filters m))"


section \<open>Decoding what was encoded\<close>

lemma all_some_strings: "all_some (map (json_marshal \<circ> JStr) vs) = Some (map render_string vs)"
  by (induction vs) simp_all

lemma marshal_strings: "json_marshal (JArr (map JStr vs)) = Some (encodeList vs)"
  using all_some_strings [of vs] by (simp add: encodeList_def comp_def)

lemma decodeStrings_JStr [simp]: "decodeStrings (map JStr vs) = Some vs"
  by (induction vs) simp_all

lemma specAxes_wf [simp]: "gm_wf (specAxes s)"
  by (simp add: gm_wf_def specAxes_def)

definition specMembers :: "EventFilterSpec \<Rightarrow> (string \<times> json) list" where
  "specMembers s = map (\<lambda>(k, vs). (k, JArr (map JStr vs))) (marshalledAxes s)"

lemma specMembers_wf: "gm_wf (specMembers s)"
  using gm_wf_filter [OF specAxes_wf, of "\<lambda>k vs. vs \<noteq> []" s]
  by (simp add: specMembers_def marshalledAxes_def gm_wf_def comp_def case_prod_beta)

lemma decodeAxis_member:
  assumes "gm_get (specAxes s) k = Some vs"
  shows "decodeAxis (obj_of (specMembers s)) k = Some vs"
  using assms
  by (simp add: decodeAxis_def gm_get_obj_of specMembers_wf) (simp add: specMembers_def gm_get_map_values
    marshalledAxes_def gm_get_filter)

lemma unmarshal_encodeSpec: "json_unmarshal (encodeSpec s) = Some (JObj (obj_of (specMembers s)))"
proof -
  have "parses_back (JArr (map JStr vs))" for vs
    using parses_back_str by (intro parses_back_arr) (auto simp: list_all_iff)
  then have "reads (encodeList vs) (JArr (map JStr vs))" for vs
    using marshal_strings [of vs] unfolding parses_back_def by blast
  then have "list_all2 reads_member (map member_text (map (\<lambda>(k, vs). (k, encodeList vs)) (marshalledAxes s))) (specMembers s)"
    by (auto simp: specMembers_def list_all2_map1 list_all2_map2 list.rel_refl intro!: list.rel_refl_strong reads_member_text)
  from unmarshal_reads [OF reads_object [OF this]] show ?thesis
    by (simp add: encodeSpec_def member_text_def comp_def case_prod_unfold)
qed

lemma decode_encodeSpec:
  assumes "\<not> constrainsNothing s" shows "decodeSpec (encodeSpec s) = Some s"
proof -
  have "marshalledAxes s \<noteq> []"
    using assms by (auto simp: marshalledAxes_def gm_filter_def specAxes_def constrainsNothing_def)
  then show ?thesis
    by (simp add: decodeSpec_def unmarshal_encodeSpec decodeAxis_member specAxes_def gm_get_Cons)
qed

section \<open>The canonical strings mean what the rules say\<close>

lemma canonicalEventFilterList_set [simp]: "set (canonicalEventFilterList vs) = {v \<in> set vs. v \<noteq> []}"
  by (simp add: canonicalEventFilterList_def)

lemma newEventFieldSet_simps [simp]: "set (newEventFieldSet vs) = set vs" "newEventFieldSet vs = [] \<longleftrightarrow> vs = []"
  by (simp_all add: newEventFieldSet_def)

text \<open>The reference semantics of one axis and of one filter, on the values as the author wrote them.\<close>

definition axisKeeps :: "string list \<Rightarrow> string set \<Rightarrow> bool" where
  "axisKeeps vs read \<longleftrightarrow> (let named = {v \<in> set vs. v \<noteq> []} in named = {} \<or> named \<inter> read \<noteq> {})"

definition specKeeps :: "EventFilterSpec \<Rightarrow> event_object \<Rightarrow> bool" where
  "specKeeps s obj \<longleftrightarrow>
     axisKeeps (efs_Types s) {plainString obj ''type''}
     \<and> axisKeeps (efs_Reasons s) {plainString obj ''reason''}
     \<and> \<not> (plainString obj ''reason'' \<noteq> [] \<and> plainString obj ''reason'' \<in> set (efs_ExcludeReasons s))
     \<and> axisKeeps (efs_SourceComponents s)
         {nestedString obj ''source'' ''component'', plainString obj ''reportingComponent'',
          plainString obj ''reportingController'', nestedString obj ''deprecatedSource'' ''component''}
     \<and> axisKeeps (efs_SubjectKinds s) {subjectField obj ''kind''}
     \<and> axisKeeps (efs_SubjectNames s) {subjectField obj ''name''}"

lemma canonicalEventFilterList_Nil: "canonicalEventFilterList vs = [] \<longleftrightarrow> {v \<in> set vs. v \<noteq> []} = {}"
  using canonicalEventFilterList_set [of vs] by (metis set_empty)

lemma inEventFilterSet_canonical [simp]:
  "inEventFilterSet (newEventFieldSet (canonicalEventFilterList vs)) v \<longleftrightarrow> v \<noteq> [] \<and> v \<in> set vs"
  by (auto simp: inEventFilterSet_def)

lemma axisKeeps_canonical:
  "axisKeeps vs read \<longleftrightarrow> newEventFieldSet (canonicalEventFilterList vs) = []
     \<or> (\<exists>v\<in>read. inEventFilterSet (newEventFieldSet (canonicalEventFilterList vs)) v)"
  by (auto simp: axisKeeps_def Let_def canonicalEventFilterList_Nil)

lemma axis_excludes:
  "newEventFieldSet (canonicalEventFilterList vs) \<noteq> [] \<and>
     inEventFilterSet (newEventFieldSet (canonicalEventFilterList vs)) v \<longleftrightarrow> v \<noteq> [] \<and> v \<in> set vs"
  by (auto simp: canonicalEventFilterList_Nil)

lemma filterMatches_canonical: "filterMatches (compileFilter (canonicalSpec s)) obj \<longleftrightarrow> specKeeps s obj"
  unfolding filterMatches_def specKeeps_def compileFilter_def canonicalSpec_def componentMatches_def axisKeeps_canonical
  using axis_excludes [of "efs_ExcludeReasons s" "plainString obj ''reason''"]
  by (simp del: newEventFieldSet_simps inEventFilterSet_canonical)

lemma constrainsNothing_keeps_all:
  assumes "constrainsNothing (canonicalSpec s)" shows "specKeeps s obj"
  using assms filterMatches_canonical [of s obj]
  by (simp add: constrainsNothing_def filterMatches_def compileFilter_def newEventFieldSet_def)

lemma CanonicalEventFilter_cases:
  "CanonicalEventFilter s = [] \<longleftrightarrow> constrainsNothing (canonicalSpec s)"
  "\<not> constrainsNothing (canonicalSpec s) \<Longrightarrow> decodeSpec (CanonicalEventFilter s) = Some (canonicalSpec s)"
  by (simp add: CanonicalEventFilter_def Let_def encodeSpec_def) (simp add: CanonicalEventFilter_def Let_def decode_encodeSpec)

lemma compileLoop_ef_canonical:
  "compileLoop_ef (map CanonicalEventFilter specs) matchAll acc =
     Some (matchAll \<or> list_ex (\<lambda>s. constrainsNothing (canonicalSpec s)) specs,
           acc @ map canonicalSpec (filter (\<lambda>s. \<not> constrainsNothing (canonicalSpec s)) specs))"
  by (induction specs arbitrary: matchAll acc) (auto simp: CanonicalEventFilter_cases)

text \<open>
  A rule's event filter survives the trip through the registry. Canonicalizing every rule's
  filter to its string, decoding and compiling the strings gives a matcher (it never fails), and that
  matcher keeps an Event exactly when some rule's filter, read as its author wrote it (OR within a
  list, AND across lists, empty entries and empty lists constraining nothing, exclusions dropped),
  keeps it; with no rule at all it keeps every Event.
\<close>

theorem compiled_filters_keep_union:
  "\<exists>m. compileEventFilters render gr (map CanonicalEventFilter specs) = Some m \<and>
     (\<forall>obj. matcherMatches (Some m) obj \<longleftrightarrow> specs = [] \<or> list_ex (\<lambda>s. specKeeps s obj) specs)"
proof -
  define anything where "anything = list_ex (\<lambda>s. constrainsNothing (canonicalSpec s)) specs"
  define kept where "kept = filter (\<lambda>s. \<not> constrainsNothing (canonicalSpec s)) specs"
  have "matcherMatches (Some m) obj \<longleftrightarrow> specs = [] \<or> list_ex (\<lambda>s. specKeeps s obj) specs"
    if "em_matchAll m = (anything \<or> kept = [])" "em_filters m = map compileFilter (map canonicalSpec kept)" for m obj
  proof (cases anything)
    case True
    then show ?thesis using that constrainsNothing_keeps_all
      by (auto simp: matcherMatches_def matchesAll_def anything_def list_ex_iff)
  next
    case False
    then have "kept = specs" by (auto simp: anything_def kept_def list_ex_iff intro!: filter_True)
    then show ?thesis using that False
      by (simp add: matcherMatches_def matchesAll_def list_ex_iff filterMatches_canonical)
  qed
  then show ?thesis
    unfolding compileEventFilters_def compileLoop_ef_canonical Let_def
    by (simp add: anything_def kept_def)
qed

text \<open>
  Two filters are rendered as the same string, and so counted as one by the registry, exactly when
  their lists hold the same non-empty values axis by axis.
\<close>

lemma canonicalEventFilterList_eq_iff:
  "canonicalEventFilterList vs = canonicalEventFilterList ws \<longleftrightarrow> {v \<in> set vs. v \<noteq> []} = {v \<in> set ws. v \<noteq> []}"
proof
  assume "{v \<in> set vs. v \<noteq> []} = {v \<in> set ws. v \<noteq> []}"
  then show "canonicalEventFilterList vs = canonicalEventFilterList ws"
    unfolding canonicalEventFilterList_def by (intro sorted_set_cong) simp
qed (metis canonicalEventFilterList_set)

lemma CanonicalEventFilter_eq_iff:
  "CanonicalEventFilter s = CanonicalEventFilter t \<longleftrightarrow> canonicalSpec s = canonicalSpec t"
proof
  assume e: "CanonicalEventFilter s = CanonicalEventFilter t"
  show "canonicalSpec s = canonicalSpec t"
  proof (cases "constrainsNothing (canonicalSpec s)")
    case True
    then have "constrainsNothing (canonicalSpec t)" using e CanonicalEventFilter_cases(1) by metis
    then show ?thesis using True by (simp add: constrainsNothing_def)
  next
    case False
    then show ?thesis using e CanonicalEventFilter_cases by (metis option.inject)
  qed
qed (simp add: CanonicalEventFilter_def)

section \<open>Push-down changes no outcome\<close>

text \<open>
  The API server reads a selector's labels with \<open>fieldOf\<close> and answers a rendered selector with
  \<open>selects\<close>: both are code outside the repository.
\<close>

fun termHolds :: "(event_object \<Rightarrow> string \<Rightarrow> string) \<Rightarrow> event_object \<Rightarrow> fieldTerm \<Rightarrow> bool" where
  "termHolds fieldOf obj (FieldEqual label v) = (fieldOf obj label = v)"
| "termHolds fieldOf obj (FieldNotEqual label v) = (fieldOf obj label \<noteq> v)"

definition labelsRead :: "(event_object \<Rightarrow> string \<Rightarrow> string) \<Rightarrow> GroupResource \<Rightarrow> event_object \<Rightarrow> bool" where
  "labelsRead fieldOf gr obj =
     (case eventSelectableFields gr of
        None \<Rightarrow> True
      | Some labels \<Rightarrow> fieldOf obj (efl_eventType labels) = plainString obj ''type''
          \<and> fieldOf obj (efl_reason labels) = plainString obj ''reason''
          \<and> fieldOf obj (efl_subjectKind labels) = subjectField obj ''kind''
          \<and> fieldOf obj (efl_subjectName labels) = subjectField obj ''name'')"

lemma inEventFilterSet_sole: "inEventFilterSet (newEventFieldSet [v]) w \<longleftrightarrow> w \<noteq> [] \<and> w = v"
  by (auto simp: inEventFilterSet_def)

lemma soleTerm_holds:
  assumes "newEventFieldSet vs \<noteq> [] \<longrightarrow> inEventFilterSet (newEventFieldSet vs) (fieldOf obj label)"
  shows "list_all (termHolds fieldOf obj) (soleTerm label vs)"
  using assms by (auto simp: soleTerm_def inEventFilterSet_sole split: list.splits)

text \<open>Every term pushed to the server is implied by the filter it was derived from.\<close>

lemma selectorTerms_implied:
  assumes "filterMatches (compileFilter spec) obj" and "eventSelectableFields gr = Some labels"
    and "labelsRead fieldOf gr obj" and "[] \<notin> set (efs_ExcludeReasons spec)"
  shows "list_all (termHolds fieldOf obj) (selectorTerms labels spec)"
proof -
  have m: "newEventFieldSet (efs_Types spec) \<noteq> [] \<longrightarrow> inEventFilterSet (newEventFieldSet (efs_Types spec)) (plainString obj ''type'')"
    "newEventFieldSet (efs_Reasons spec) \<noteq> [] \<longrightarrow> inEventFilterSet (newEventFieldSet (efs_Reasons spec)) (plainString obj ''reason'')"
    "newEventFieldSet (efs_ExcludeReasons spec) \<noteq> [] \<longrightarrow> \<not> inEventFilterSet (newEventFieldSet (efs_ExcludeReasons spec)) (plainString obj ''reason'')"
    "newEventFieldSet (efs_SubjectKinds spec) \<noteq> [] \<longrightarrow> inEventFilterSet (newEventFieldSet (efs_SubjectKinds spec)) (subjectField obj ''kind'')"
    "newEventFieldSet (efs_SubjectNames spec) \<noteq> [] \<longrightarrow> inEventFilterSet (newEventFieldSet (efs_SubjectNames spec)) (subjectField obj ''name'')"
    using assms(1) by (simp_all add: filterMatches_def compileFilter_def split: if_splits) blast+
  have r: "fieldOf obj (efl_eventType labels) = plainString obj ''type''"
    "fieldOf obj (efl_reason labels) = plainString obj ''reason''"
    "fieldOf obj (efl_subjectKind labels) = subjectField obj ''kind''"
    "fieldOf obj (efl_subjectName labels) = subjectField obj ''name''"
    using assms(2,3) by (simp_all add: labelsRead_def)
  have "fieldOf obj (efl_reason labels) = hd (efs_Reasons spec)" if "length (efs_Reasons spec) = 1"
    using that m(2) r(2) by (auto simp: length_Suc_conv inEventFilterSet_sole)
  moreover have "list_all (termHolds fieldOf obj) (map (FieldNotEqual (efl_reason labels)) (efs_ExcludeReasons spec))"
    using m(3) r(2) assms(4) by (auto simp: list_all_iff inEventFilterSet_def split: if_splits)
  ultimately show ?thesis
    using m r by (simp add: selectorTerms_def soleTerm_holds)
qed

lemma fieldSelector_cases:
  assumes "compileEventFilters render gr (map CanonicalEventFilter specs) = Some m" and "em_fieldSelector m \<noteq> []"
  obtains s labels where "eventSelectableFields gr = Some labels" and "\<not> em_matchAll m"
    and "em_filters m = [compileFilter (canonicalSpec s)]"
    and "selectorTerms labels (canonicalSpec s) \<noteq> []"
    and "em_fieldSelector m = render (selectorTerms labels (canonicalSpec s))"
proof -
  define kept where "kept = map canonicalSpec (filter (\<lambda>s. \<not> constrainsNothing (canonicalSpec s)) specs)"
  have m: "em_filters m = map compileFilter kept"
    "em_fieldSelector m = (if \<not> em_matchAll m \<and> length kept = 1 then deriveEventFieldSelector render gr (last kept) else [])"
    using assms(1) unfolding compileEventFilters_def compileLoop_ef_canonical Let_def by (auto simp: kept_def)
  then have n: "\<not> em_matchAll m" "length kept = 1" and d: "deriveEventFieldSelector render gr (last kept) \<noteq> []"
    using assms(2) by (auto split: if_splits)
  then obtain s where s: "kept = [canonicalSpec s]" by (auto simp: kept_def length_Suc_conv)
  from d obtain labels where l: "eventSelectableFields gr = Some labels" "selectorTerms labels (canonicalSpec s) \<noteq> []"
    by (auto simp: s deriveEventFieldSelector_def Let_def split: option.splits if_splits)
  then show ?thesis using that [of labels s] m n s by (simp add: deriveEventFieldSelector_def Let_def)
qed

lemma accepted_is_selected:
  assumes "compileEventFilters render gr (map CanonicalEventFilter specs) = Some m"
    and "\<forall>obj. selects [] obj"
    and "\<forall>terms obj. terms \<noteq> [] \<longrightarrow> selects (render terms) obj = list_all (termHolds fieldOf obj) terms"
    and "labelsRead fieldOf gr obj" and "matcherMatches (Some m) obj"
  shows "selects (em_fieldSelector m) obj"
proof (cases "em_fieldSelector m = []")
  case False
  then obtain s labels where l: "eventSelectableFields gr = Some labels" and n: "\<not> em_matchAll m"
    and f: "em_filters m = [compileFilter (canonicalSpec s)]" and t: "selectorTerms labels (canonicalSpec s) \<noteq> []"
    and r: "em_fieldSelector m = render (selectorTerms labels (canonicalSpec s))"
    using fieldSelector_cases [OF assms(1)] by metis
  have "filterMatches (compileFilter (canonicalSpec s)) obj"
    using assms(5) n f by (simp add: matcherMatches_def matchesAll_def)
  then have "list_all (termHolds fieldOf obj) (selectorTerms labels (canonicalSpec s))"
    by (rule selectorTerms_implied [OF _ l assms(4)]) (simp add: canonicalSpec_def)
  then show ?thesis using assms(3) t r by simp
qed (simp add: assms(2))

text \<open>
  Pushing a field selector to the API server changes no outcome. Let \<open>selects\<close> be the server's
  answer to a selector: everything passes the empty one, and a rendered list of terms passes the
  objects on which every term holds of the labelled field. Then of any objects whose labels read as
  the handler reads them, the ones the compiled matcher keeps are the same whether or not the server
  filtered them first.
\<close>

theorem pushdown_invisible:
  assumes "compileEventFilters render gr (map CanonicalEventFilter specs) = Some m"
    and "\<forall>obj. selects [] obj"
    and "\<forall>terms obj. terms \<noteq> [] \<longrightarrow> selects (render terms) obj = list_all (termHolds fieldOf obj) terms"
    and "\<forall>obj\<in>set objs. labelsRead fieldOf gr obj"
  shows "filter (matcherMatches (Some m)) (filter (selects (em_fieldSelector m)) objs) = filter (matcherMatches (Some m)) objs"
  using accepted_is_selected [OF assms(1-3)] assms(4) by (simp add: filter_filter) (metis (no_types, lifting) filter_cong)

definition termJson :: "fieldTerm \<Rightarrow> json" where
  "termJson t = (case t of FieldEqual l v \<Rightarrow> JArr [JStr l, JStr ''='', JStr v] | FieldNotEqual l v \<Rightarrow> JArr [JStr l, JStr ''!='', JStr v])"

fun jsonTerm :: "json \<Rightarrow> fieldTerm" where
  "jsonTerm (JArr [JStr l, JStr opr, JStr v]) = (if opr = ''='' then FieldEqual l v else FieldNotEqual l v)"
| "jsonTerm _ = FieldEqual [] []"

text \<open>A server to instantiate the hypotheses with: terms written as JSON text, labels read from the content.\<close>

definition renderJson :: "fieldTerm list \<Rightarrow> string" where
  "renderJson ts = the (json_marshal (JArr (map termJson ts)))"

definition coreLabel :: "event_object \<Rightarrow> string \<Rightarrow> string" where
  "coreLabel obj label =
     (if label = ''involvedObject.kind'' then subjectField obj ''kind''
      else if label = ''involvedObject.name'' then subjectField obj ''name'' else plainString obj label)"

definition selectsJson :: "string \<Rightarrow> event_object \<Rightarrow> bool" where
  "selectsJson sel obj =
     (if sel = [] then True
      else case json_unmarshal sel of
             Some (JArr ts) \<Rightarrow> list_all (termHolds coreLabel obj) (map jsonTerm ts)
           | _ \<Rightarrow> False)"

lemma jsonTerm_termJson [simp]: "jsonTerm (termJson t) = t"
  by (cases t) (simp_all add: termJson_def)

lemma termJson_plain: "json_wf (termJson t)" "json_plain (termJson t)" "\<exists>s. json_marshal (termJson t) = Some s"
  by (cases t; simp add: termJson_def)+

lemma renderJson_laws: "renderJson ts \<noteq> []" "json_unmarshal (renderJson ts) = Some (JArr (map termJson ts))"
proof -
  obtain s where s: "json_marshal (JArr (map termJson ts)) = Some s"
    using all_some_exists [of "map termJson ts" json_marshal] termJson_plain(3) by (auto simp: comp_def)
  then show "renderJson ts \<noteq> []" by (auto simp: renderJson_def split: option.splits)
  show "json_unmarshal (renderJson ts) = Some (JArr (map termJson ts))"
    unfolding renderJson_def s option.sel
    by (rule unmarshal_marshal [OF _ _ s]) (simp_all add: termJson_plain list_all_iff)
qed

lemma selectsJson_law: "selectsJson (renderJson ts) obj = list_all (termHolds coreLabel obj) ts"
  using renderJson_laws [of ts] by (simp add: selectsJson_def comp_def)

definition warnSpec :: EventFilterSpec where
  "warnSpec = \<lparr>efs_Types = [''Warning''], efs_Reasons = [], efs_ExcludeReasons = [''Pulled''], efs_SourceComponents = [],
     efs_SubjectKinds = [], efs_SubjectNames = [''web'']\<rparr>"

definition webEvent :: event_object where
  "webEvent = [(''involvedObject'', JObj [(''kind'', JStr ''Pod''), (''name'', JStr ''web'')]), (''reason'', JStr ''BackOff''),
     (''type'', JStr ''Warning'')]"

lemma webEvent_labels: "\<forall>obj\<in>set [webEvent, []]. labelsRead coreLabel \<lparr>gr_Group = [], gr_Resource = ''events''\<rparr> obj"
  by (simp add: labelsRead_def eventSelectableFields_def coreLabel_def)

theorem pushdown_invisible_witness:
  "\<exists>m. compileEventFilters renderJson \<lparr>gr_Group = [], gr_Resource = ''events''\<rparr> (map CanonicalEventFilter [warnSpec]) = Some m \<and>
     filter (matcherMatches (Some m)) (filter (selectsJson (em_fieldSelector m)) [webEvent, []])
       = filter (matcherMatches (Some m)) [webEvent, []]"
proof -
  obtain m where m: "compileEventFilters renderJson \<lparr>gr_Group = [], gr_Resource = ''events''\<rparr> (map CanonicalEventFilter [warnSpec]) = Some m"
    unfolding compileEventFilters_def compileLoop_ef_canonical Let_def by simp
  have "\<forall>obj. selectsJson [] obj" by (simp add: selectsJson_def)
  then show ?thesis
    using m pushdown_invisible [OF m _ _ webEvent_labels, of selectsJson] selectsJson_law by blast
qed

end
