(* ===== verification/Interest.thy ===== *)
theory Interest
  imports Warm Plan EventFilter "HOL-Library.Product_Lexorder"
begin

text \<open>
  Interests (\<open>internal/watch/interest.go\<close>): what one sink wants of one informer's stream, and the
  table that the informers' notification path and the pipeline's lookups read.

  A parsed label selector is represented by its canonical text (see \<open>Plan\<close>); parsing it and
  evaluating it on an object's labels are the \<open>labels\<close> library's, parameters, as is the text of a
  GroupVersionResource. Go maps are iterated in list order; the code sorts where the order can be
  observed, and where the sort key does not separate two interests the model keeps their order.
\<close>

section \<open>Keys\<close>

record GroupVersionResource =
  gvr_Group :: string
  gvr_Version :: string
  gvr_Resource :: string

definition gvr_GroupResource :: "GroupVersionResource \<Rightarrow> GroupResource" where
  "gvr_GroupResource gvr = \<lparr>gr_Group = gvr_Group gvr, gr_Resource = gvr_Resource gvr\<rparr>"

record informerScope =
  is_GVR :: GroupVersionResource
  is_Namespace :: string

definition informerScope_String :: "(GroupVersionResource \<Rightarrow> string) \<Rightarrow> informerScope \<Rightarrow> string" where
  "informerScope_String gvrString s =
     (if is_Namespace s = [] then gvrString (is_GVR s) @ '' (cluster-wide)''
      else gvrString (is_GVR s) @ '' in namespace '' @ is_Namespace s)"

record informerKey =
  ik_scope :: informerScope
  ik_FieldSelector :: string

definition informerKey_String :: "(GroupVersionResource \<Rightarrow> string) \<Rightarrow> informerKey \<Rightarrow> string" where
  "informerKey_String gvrString k =
     (if ik_FieldSelector k = [] then informerScope_String gvrString (ik_scope k)
      else informerScope_String gvrString (ik_scope k) @ '' (field selector '' @ ik_FieldSelector k @ '')'')"

record interestID =
  ii_informer :: informerScope
  ii_sink :: sink_id

record identityKey =
  idk_Group :: string
  idk_Kind :: string
  idk_Namespace :: string
  idk_Sink :: sink_id

section \<open>One interest\<close>

type_synonym labelSet = "(string, string) gomap"

record labels_lib =
  ll_Parse :: labels_env
  ll_Matches :: "string \<Rightarrow> labelSet \<Rightarrow> bool"

record watch_lib =
  wl_labels :: labels_lib
  wl_renderFields :: "fieldTerm list \<Rightarrow> string"
  wl_gvrString :: "GroupVersionResource \<Rightarrow> string"
  wl_GetNamespace :: "object \<Rightarrow> string"
  wl_GetName :: "object \<Rightarrow> string"
  wl_GetLabels :: "object \<Rightarrow> labelSet option"
  wl_SplitMetaNamespaceKey :: "string \<Rightarrow> (string \<times> string) option"

record scopeInterest =
  si_informer :: informerKey
  si_gvk :: GroupVersionKind
  si_sink :: sink_id
  si_scope :: ScopeKey
  si_ruleKeys :: "string list"
  si_selectors :: "string list"
  si_matchAll :: bool
  si_events :: "eventMatcher option"
  si_fieldSelector :: string
  si_redaction :: "RedactionPolicy option"

datatype interestError =
    ParseLabelSelector string
  | CompileRedactionPolicy redactionError
  | CompileEventFilter

fun parseSelectors :: "labels_env \<Rightarrow> string list \<Rightarrow> bool \<Rightarrow> string list \<Rightarrow> string + (bool \<times> string list)" where
  "parseSelectors parse [] matchAll sels = Inr (matchAll, sels)"
| "parseSelectors parse (raw # raws) matchAll sels =
     (if raw = [] then parseSelectors parse raws True sels
      else case parse raw of
             None \<Rightarrow> Inl raw
           | Some sel \<Rightarrow> parseSelectors parse raws matchAll (sels @ [sel]))"

text \<open>The outer loop over the sets and the inner loop over their lines share \<open>seen\<close> and \<open>paths\<close>.\<close>

definition redactionPaths :: "string list \<Rightarrow> string list" where
  "redactionPaths redactions =
     sort (rev (fold (\<lambda>path paths. if path = [] then paths else if path \<in> set paths then paths else path # paths)
       (concat (map (split_on (CHR 0x0A)) redactions)) []))"

definition newScopeInterest :: "watch_lib \<Rightarrow> TargetState \<Rightarrow> informerScope \<Rightarrow> interestError + scopeInterest" where
  "newScopeInterest lib state scope =
     (let key = ts_Key state in
      case parseSelectors (ll_Parse (wl_labels lib)) (ts_Selectors state) False [] of
        Inl raw \<Rightarrow> Inl (ParseLabelSelector raw)
      | Inr (matchAll, sels) \<Rightarrow>
          (let matchAll = (matchAll \<or> sels = []);
               paths = redactionPaths (ts_Redactions state)
           in case (if paths \<noteq> [] then map_sum id Some (CompileRedaction paths) else Inr None) of
                Inl e \<Rightarrow> Inl (CompileRedactionPolicy e)
              | Inr policy \<Rightarrow>
                  (case compileEventFilters (wl_renderFields lib) (gvr_GroupResource (is_GVR scope)) (ts_EventFilters state) of
                     None \<Rightarrow> Inl CompileEventFilter
                   | Some events \<Rightarrow>
                       Inr \<lparr>si_informer = \<lparr>ik_scope = scope, ik_FieldSelector = []\<rparr>, si_gvk = tk_GVK key,
                            si_sink = tk_Sink key,
                            si_scope = \<lparr>scope_group = gvk_Group (tk_GVK key), scope_kind = gvk_Kind (tk_GVK key),
                                        scope_namespace = tk_Namespace key\<rparr>,
                            si_ruleKeys = ts_RuleKeys state, si_selectors = sels, si_matchAll = matchAll,
                            si_events = Some events, si_fieldSelector = em_fieldSelector events,
                            si_redaction = policy\<rparr>)))"

definition interest_id :: "scopeInterest \<Rightarrow> interestID" where
  "interest_id i = \<lparr>ii_informer = ik_scope (si_informer i), ii_sink = si_sink i\<rparr>"

record ScopeTransition =
  tr_Sink :: sink_id
  tr_Scope :: ScopeKey
  tr_Target :: string
  tr_APIVersion :: string
  tr_RuleKeys :: "string list"
  tr_At :: go_time

definition transition :: "watch_lib \<Rightarrow> go_time \<Rightarrow> scopeInterest \<Rightarrow> ScopeTransition" where
  "transition lib at i =
     \<lparr>tr_Sink = si_sink i, tr_Scope = si_scope i,
      tr_Target = informerScope_String (wl_gvrString lib) (ik_scope (si_informer i)),
      tr_APIVersion = gvk_Version (si_gvk i), tr_RuleKeys = si_ruleKeys i, tr_At = at\<rparr>"

definition interest_identity :: "scopeInterest \<Rightarrow> identityKey" where
  "interest_identity i =
     \<lparr>idk_Group = gvk_Group (si_gvk i), idk_Kind = gvk_Kind (si_gvk i),
      idk_Namespace = is_Namespace (ik_scope (si_informer i)), idk_Sink = si_sink i\<rparr>"

definition keyFor :: "scopeInterest \<Rightarrow> string \<Rightarrow> string \<Rightarrow> Key" where
  "keyFor i namespace name =
     \<lparr>key_sink = si_sink i, key_group = gvk_Group (si_gvk i), key_kind = gvk_Kind (si_gvk i),
      key_namespace = namespace, key_name = name\<rparr>"

definition interest_matches :: "labels_lib \<Rightarrow> scopeInterest \<Rightarrow> labelSet \<Rightarrow> bool" where
  "interest_matches ll i objLabels =
     (if si_matchAll i then True else list_ex (\<lambda>sel. ll_Matches ll sel objLabels) (si_selectors i))"

text \<open>A nil map of labels is \<^const>\<open>None\<close>; reading it is reading an empty one.\<close>

definition matchesEither :: "labels_lib \<Rightarrow> scopeInterest \<Rightarrow> labelSet option \<Rightarrow> labelSet option \<Rightarrow> bool" where
  "matchesEither ll i current previous =
     (if interest_matches ll i (case current of None \<Rightarrow> [] | Some l \<Rightarrow> l) then True
      else case previous of None \<Rightarrow> False | Some l \<Rightarrow> interest_matches ll i l)"

definition matchesEvent :: "scopeInterest \<Rightarrow> event_object \<Rightarrow> bool" where
  "matchesEvent i obj = matcherMatches (si_events i) obj"

definition recordsEveryEvent :: "scopeInterest \<Rightarrow> bool" where
  "recordsEveryEvent i = matchesAll (si_events i)"

section \<open>The table\<close>

record interestTable =
  it_current :: "(interestID, scopeInterest) gomap"
  it_byInformer :: "(informerKey, scopeInterest list) gomap"
  it_byIdentity :: "(identityKey, scopeInterest list) gomap"

definition newInterestTable :: interestTable where
  "newInterestTable = \<lparr>it_current = [], it_byInformer = [], it_byIdentity = []\<rparr>"

definition slice_of :: "('k, 'v list) gomap \<Rightarrow> 'k \<Rightarrow> 'v list" where
  "slice_of m k = (case gm_get m k of None \<Rightarrow> [] | Some l \<Rightarrow> l)"

definition append_at :: "'k \<Rightarrow> 'v \<Rightarrow> ('k, 'v list) gomap \<Rightarrow> ('k, 'v list) gomap" where
  "append_at k v m = gm_set k (slice_of m k @ [v]) m"

definition sortInterests :: "scopeInterest list \<Rightarrow> scopeInterest list" where
  "sortInterests = sort_key (\<lambda>i. (si_sink i, scope_group (si_scope i), scope_kind (si_scope i), scope_namespace (si_scope i)))"

definition replace :: "(interestID, scopeInterest) gomap \<Rightarrow> interestTable \<Rightarrow> scopeInterest list \<times> interestTable" where
  "replace desired t =
     (let removed = map snd (filter (\<lambda>(id, _). gm_get desired id = None) (it_current t));
          byInformer = fold (\<lambda>(_, i). append_at (si_informer i) i) desired [];
          byIdentity = fold (\<lambda>(_, i). append_at (interest_identity i) i) desired []
      in (sortInterests removed,
          \<lparr>it_current = desired, it_byInformer = map (\<lambda>(k, is). (k, sort_key si_sink is)) byInformer,
           it_byIdentity = byIdentity\<rparr>))"

definition interestsFor :: "informerKey \<Rightarrow> interestTable \<Rightarrow> scopeInterest list" where
  "interestsFor key t = slice_of (it_byInformer t) key"

definition lookupIdentity :: "Key \<Rightarrow> interestTable \<Rightarrow> scopeInterest list" where
  "lookupIdentity ref t =
     (let exact = \<lparr>idk_Group = key_group ref, idk_Kind = key_kind ref, idk_Namespace = key_namespace ref,
                   idk_Sink = key_sink ref\<rparr>;
          clusterWide = exact\<lparr>idk_Namespace := []\<rparr>;
          interests = slice_of (it_byIdentity t) exact
      in if exact = clusterWide then interests
         else (let clusterWideInterests = slice_of (it_byIdentity t) clusterWide in
               if interests = [] then clusterWideInterests
               else if clusterWideInterests = [] then interests
               else interests @ clusterWideInterests))"

definition interestsForScope :: "sink_id \<Rightarrow> ScopeKey \<Rightarrow> interestTable \<Rightarrow> scopeInterest list" where
  "interestsForScope i scope t =
     slice_of (it_byIdentity t)
       \<lparr>idk_Group = scope_group scope, idk_Kind = scope_kind scope, idk_Namespace = scope_namespace scope, idk_Sink = i\<rparr>"

definition table_size :: "interestTable \<Rightarrow> nat" where
  "table_size t = length (it_current t)"

section \<open>The indexes read the installed interests\<close>

lemma slice_of_append_at: "slice_of (append_at k v m) k' = slice_of m k' @ (if k' = k then [v] else [])"
  by (simp add: append_at_def slice_of_def split: option.splits)

lemma slice_of_fold:
  "slice_of (fold (\<lambda>(_, i). append_at (f i) i) kvs m) k = slice_of m k @ filter (\<lambda>i. f i = k) (map snd kvs)"
  by (induction kvs arbitrary: m) (auto simp: slice_of_append_at)

lemma slice_of_Nil [simp]: "slice_of [] k = []"
  by (simp add: slice_of_def)

lemma slice_of_map_values: "g [] = [] \<Longrightarrow> slice_of (map (\<lambda>(k, is). (k, g is)) m) k = g (slice_of m k)"
  by (simp add: slice_of_def gm_get_map_values split: option.splits)

text \<open>What \<^const>\<open>replace\<close> installs: the indexes are determined by the interests.\<close>

definition indexed :: "interestTable \<Rightarrow> bool" where
  "indexed t \<longleftrightarrow>
     (\<forall>key. interestsFor key t = sort_key si_sink (filter (\<lambda>i. si_informer i = key) (map snd (it_current t))))
     \<and> (\<forall>k. slice_of (it_byIdentity t) k = filter (\<lambda>i. interest_identity i = k) (map snd (it_current t)))"

lemma indexed_new: "indexed newInterestTable"
  by (simp add: indexed_def newInterestTable_def interestsFor_def)

lemma indexed_replace: "indexed (snd (replace desired t))"
  by (simp add: indexed_def replace_def Let_def interestsFor_def slice_of_map_values slice_of_fold)

lemma replace_current [simp]: "it_current (snd (replace desired t)) = desired"
  by (simp add: replace_def Let_def)

lemma set_replace_removed:
  "set (fst (replace desired t)) = snd ` {(id, i). (id, i) \<in> set (it_current t) \<and> gm_get desired id = None}"
  by (auto simp: replace_def Let_def sortInterests_def image_iff)

text \<open>An interest answers for an object when kind, group and sink agree and it watches the object's namespace or every one.\<close>

definition answers_for :: "scopeInterest \<Rightarrow> Key \<Rightarrow> bool" where
  "answers_for i ref \<longleftrightarrow> gvk_Group (si_gvk i) = key_group ref \<and> gvk_Kind (si_gvk i) = key_kind ref \<and> si_sink i = key_sink ref
     \<and> is_Namespace (ik_scope (si_informer i)) \<in> {key_namespace ref, []}"

lemma lookupIdentity_set:
  assumes "indexed t"
  shows "set (lookupIdentity ref t) = {i \<in> set (map snd (it_current t)). answers_for i ref}"
  using assms
  by (auto simp: lookupIdentity_def Let_def indexed_def answers_for_def interest_identity_def filter_empty_conv)

lemma interestsForScope_set:
  assumes "indexed t"
  shows "set (interestsForScope i scope t) = {x \<in> set (map snd (it_current t)). si_sink x = i \<and> interest_identity x =
    \<lparr>idk_Group = scope_group scope, idk_Kind = scope_kind scope, idk_Namespace = scope_namespace scope, idk_Sink = i\<rparr>}"
  using assms by (auto simp: interestsForScope_def indexed_def interest_identity_def)

section \<open>What a built interest carries\<close>

lemma redactionPaths_fold:
  "set (fold (\<lambda>path paths. if path = [] then paths else if path \<in> set paths then paths else path # paths) xs acc)
     = set acc \<union> {p \<in> set xs. p \<noteq> []}"
  by (induction xs arbitrary: acc) auto

lemma redactionPaths_set:
  "set (redactionPaths redactions) = {p. p \<noteq> [] \<and> (\<exists>r\<in>set redactions. p \<in> set (split_on (CHR 0x0A) r))}"
  by (auto simp: redactionPaths_def redactionPaths_fold)

lemma newScopeInterest_ok:
  assumes "newScopeInterest lib state scope = Inr i"
  shows "si_informer i = \<lparr>ik_scope = scope, ik_FieldSelector = []\<rparr>" and "si_gvk i = tk_GVK (ts_Key state)"
    and "si_sink i = tk_Sink (ts_Key state)"
    and "si_scope i = \<lparr>scope_group = gvk_Group (tk_GVK (ts_Key state)), scope_kind = gvk_Kind (tk_GVK (ts_Key state)),
           scope_namespace = tk_Namespace (ts_Key state)\<rparr>"
    and "si_ruleKeys i = ts_RuleKeys state"
    and "\<exists>m. compileEventFilters (wl_renderFields lib) (gvr_GroupResource (is_GVR scope)) (ts_EventFilters state) = Some m
           \<and> si_events i = Some m \<and> si_fieldSelector i = em_fieldSelector m"
    and "if redactionPaths (ts_Redactions state) = [] then si_redaction i = None
         else \<exists>pol. CompileRedaction (redactionPaths (ts_Redactions state)) = Inr pol \<and> si_redaction i = Some pol"
  using assms
  by (auto simp: newScopeInterest_def Let_def map_sum_def id_def split: sum.splits option.splits if_splits prod.splits)

text \<open>Every path a contributing rule configured is a path of the interest's policy.\<close>

lemma interest_redacts:
  assumes "newScopeInterest lib state scope = Inr i" and "r \<in> set (ts_Redactions state)"
    and "p \<in> set (split_on (CHR 0x0A) r)" and "p \<noteq> []"
  shows "\<exists>pol q. si_redaction i = Some pol \<and> parseRedactionPath p = Inr q \<and> q \<in> set (policy_paths pol)"
proof -
  have "p \<in> set (redactionPaths (ts_Redactions state))" using assms(2-4) by (auto simp: redactionPaths_set)
  moreover from this obtain pol where pol: "CompileRedaction (redactionPaths (ts_Redactions state)) = Inr pol" "si_redaction i = Some pol"
    using newScopeInterest_ok(7) [OF assms(1)] by (auto split: if_splits)
  moreover from calculation obtain q where "parseRedactionPath p = Inr q"
    using CompileRedaction_spec(4) [OF pol(1)] by (auto simp: parses_def)
  ultimately show ?thesis using CompileRedaction_spec(1) [OF pol(1)] by auto
qed

end
