(* ===== verification/ScopeRecorder.thy ===== *)
theory ScopeRecorder
  imports Interest
begin

text \<open>
  The scope-epoch recorder (\<open>internal/watch/scope_recorder.go\<close>): interest-level edges in, one
  Started row per scope when its first interest arrives and one Stopped row when its last one leaves,
  handed to the sinks in order by a flush loop on its own goroutine.

  The two entry points are the functions \<open>ScopeStarted\<close> and \<open>ScopeStopped\<close>; what they ask of the
  warmer is returned. The flush loop releases the lock between reading the head, handing it over and
  popping it, so the interleavings are those of the step relation \<open>recorder_step\<close>.
\<close>

section \<open>State\<close>

definition ScopeActionStarted :: string where "ScopeActionStarted = ''Started''"

record scopeKey =
  sk_sink :: sink_id
  sk_scope :: ScopeKey

record pendingScopeEvent =
  pse_sink :: sink_id
  pse_event :: ScopeEvent

datatype warmerCall = CallWarmScope WarmTarget | CallStopScope sink_id ScopeKey

record ScopeRecorderOptions =
  sro_ClusterID :: string
  sro_Events :: bool
  sro_Warmer :: bool
  sro_FlushInterval :: go_duration
  sro_QueueLimit :: int

record ScopeEpochRecorder =
  ser_clusterID :: string
  ser_warmer :: bool
  ser_flushInterval :: go_duration
  ser_queueLimit :: nat
  ser_active :: "(scopeKey, string list) gomap"
  ser_pending :: "pendingScopeEvent list"
  ser_dropped :: nat
  ser_wake :: bool

definition defaultScopeFlushInterval :: go_duration where "defaultScopeFlushInterval = 2000000000"
definition defaultScopeQueueLimit :: nat where "defaultScopeQueueLimit = 4096"

definition NewScopeEpochRecorder :: "ScopeRecorderOptions \<Rightarrow> ScopeEpochRecorder option" where
  "NewScopeEpochRecorder opts =
     (if \<not> sro_Events opts then None
      else Some \<lparr>ser_clusterID = sro_ClusterID opts, ser_warmer = sro_Warmer opts,
             ser_flushInterval = (if sro_FlushInterval opts \<le> 0 then defaultScopeFlushInterval else sro_FlushInterval opts),
             ser_queueLimit = (if sro_QueueLimit opts \<le> 0 then defaultScopeQueueLimit else nat (sro_QueueLimit opts)),
             ser_active = [], ser_pending = [], ser_dropped = 0, ser_wake = False\<rparr>)"

section \<open>Operations\<close>

definition triggeringRule :: "string list \<Rightarrow> string" where
  "triggeringRule ruleKeys = (case ruleKeys of [] \<Rightarrow> [] | r # _ \<Rightarrow> r)"

definition eventFor :: "ScopeEpochRecorder \<Rightarrow> ScopeTransition \<Rightarrow> string \<Rightarrow> ScopeEvent" where
  "eventFor r tr action =
     \<lparr>se_Action = action,
      se_Scope = \<lparr>sf_ClusterID = ser_clusterID r, sf_APIGroup = scope_group (tr_Scope tr),
                  sf_Kind = scope_kind (tr_Scope tr), sf_Namespace = scope_namespace (tr_Scope tr)\<rparr>,
      se_APIVersion = tr_APIVersion tr, se_RuleRef = triggeringRule (tr_RuleKeys tr), se_TS = tr_At tr\<rparr>"

definition enqueueLocked :: "sink_id \<Rightarrow> ScopeEvent \<Rightarrow> ScopeEpochRecorder \<Rightarrow> ScopeEpochRecorder" where
  "enqueueLocked i event r =
     (let pending = ser_pending r @ [\<lparr>pse_sink = i, pse_event = event\<rparr>];
          overflow = length pending - ser_queueLimit r
      in if overflow > 0 then r\<lparr>ser_pending := drop overflow pending, ser_dropped := ser_dropped r + overflow\<rparr>
         else r\<lparr>ser_pending := pending\<rparr>)"

definition rec_signal :: "ScopeEpochRecorder \<Rightarrow> ScopeEpochRecorder" where
  "rec_signal r = r\<lparr>ser_wake := True\<rparr>"

definition transition_key :: "ScopeTransition \<Rightarrow> scopeKey" where
  "transition_key tr = \<lparr>sk_sink = tr_Sink tr, sk_scope = tr_Scope tr\<rparr>"

definition ScopeStarted ::
    "ScopeTransition \<Rightarrow> ScopeEpochRecorder \<Rightarrow> (bool \<times> warmerCall list) \<times> ScopeEpochRecorder" where
  "ScopeStarted tr r =
     (let key = transition_key tr;
          targets = slice_of (ser_active r) key;
          held = tr_Target tr \<in> set targets;
          targets = (if held then targets else targets @ [tr_Target tr]);
          r = r\<lparr>ser_active := gm_set key targets (ser_active r)\<rparr>;
          first = (\<not> held \<and> length targets = 1)
      in if \<not> first then ((False, []), r)
         else (let r = rec_signal (enqueueLocked (tr_Sink tr) (eventFor r tr ScopeActionStarted) r)
               in ((True, if ser_warmer r
                          then [CallWarmScope \<lparr>wt_Sink = tr_Sink tr, wt_Scope = tr_Scope tr, wt_EpochStart = tr_At tr\<rparr>]
                          else []), r)))"

definition ScopeStopped ::
    "ScopeTransition \<Rightarrow> ScopeEpochRecorder \<Rightarrow> (bool \<times> warmerCall list) \<times> ScopeEpochRecorder" where
  "ScopeStopped tr r =
     (let key = transition_key tr;
          targets = slice_of (ser_active r) key
      in if tr_Target tr \<notin> set targets then ((False, []), r)
         else (let targets = removeAll (tr_Target tr) targets in
               if targets \<noteq> [] then ((False, []), r\<lparr>ser_active := gm_set key targets (ser_active r)\<rparr>)
               else (let r = r\<lparr>ser_active := gm_del key (ser_active r)\<rparr>;
                         r = rec_signal (enqueueLocked (tr_Sink tr) (eventFor r tr ScopeActionStopped) r)
                     in ((True, if ser_warmer r then [CallStopScope (tr_Sink tr) (tr_Scope tr)] else []), r))))"

text \<open>The flush loop, one lock-protected piece at a time, and the loop with nothing interleaved.\<close>

definition reportDrops :: "ScopeEpochRecorder \<Rightarrow> nat \<times> ScopeEpochRecorder" where
  "reportDrops r = (ser_dropped r, r\<lparr>ser_dropped := 0\<rparr>)"

definition flushHead :: "ScopeEpochRecorder \<Rightarrow> pendingScopeEvent option" where
  "flushHead r = (case ser_pending r of [] \<Rightarrow> None | next # _ \<Rightarrow> Some next)"

definition flushPop :: "pendingScopeEvent \<Rightarrow> ScopeEpochRecorder \<Rightarrow> ScopeEpochRecorder" where
  "flushPop nxt r =
     (case ser_pending r of
        [] \<Rightarrow> r
      | p # ps \<Rightarrow> if p = nxt then r\<lparr>ser_pending := ps\<rparr> else r)"

datatype handOff = NoScopeWriter | HandOffFailed | HandOffAccepted

fun flushLoop :: "handOff list \<Rightarrow> ScopeEpochRecorder \<Rightarrow> pendingScopeEvent list \<times> ScopeEpochRecorder" where
  "flushLoop [] r = ([], r)"
| "flushLoop (answer # answers) r =
     (case flushHead r of
        None \<Rightarrow> ([], r)
      | Some nxt \<Rightarrow>
          (case answer of
             NoScopeWriter \<Rightarrow> ([], r)
           | HandOffFailed \<Rightarrow> ([], r)
           | HandOffAccepted \<Rightarrow>
               (let (handed, r) = flushLoop answers (flushPop nxt r) in (nxt # handed, r))))"

definition flush :: "handOff list \<Rightarrow> ScopeEpochRecorder \<Rightarrow> pendingScopeEvent list \<times> ScopeEpochRecorder" where
  "flush answers r = flushLoop answers (snd (reportDrops r))"

section \<open>Interleavings\<close>

text \<open>
  Beside the recorder: the head the flush loop has handed over and not yet popped, the events the
  sinks accepted, and the events the transitions produced.
\<close>

record recorder_world =
  rw_rec :: ScopeEpochRecorder
  rw_inflight :: "pendingScopeEvent option"
  rw_handed :: "pendingScopeEvent list"
  rw_history :: "pendingScopeEvent list"

definition produced :: "ScopeEpochRecorder \<Rightarrow> ScopeTransition \<Rightarrow> string \<Rightarrow> bool \<Rightarrow> pendingScopeEvent list" where
  "produced r tr action edge = (if edge then [\<lparr>pse_sink = tr_Sink tr, pse_event = eventFor r tr action\<rparr>] else [])"

inductive recorder_step :: "recorder_world \<Rightarrow> recorder_world \<Rightarrow> bool" where
  started: "ScopeStarted tr (rw_rec w) = ((edge, calls), r) \<Longrightarrow>
    recorder_step w (w\<lparr>rw_rec := r, rw_history := rw_history w @ produced (rw_rec w) tr ScopeActionStarted edge\<rparr>)"
| stopped: "ScopeStopped tr (rw_rec w) = ((edge, calls), r) \<Longrightarrow>
    recorder_step w (w\<lparr>rw_rec := r, rw_history := rw_history w @ produced (rw_rec w) tr ScopeActionStopped edge\<rparr>)"
| drops: "recorder_step w (w\<lparr>rw_rec := snd (reportDrops (rw_rec w))\<rparr>)"
| handed: "rw_inflight w = None \<Longrightarrow> flushHead (rw_rec w) = Some nxt \<Longrightarrow>
    recorder_step w (w\<lparr>rw_inflight := Some nxt, rw_handed := rw_handed w @ [nxt]\<rparr>)"
| popped: "rw_inflight w = Some nxt \<Longrightarrow>
    recorder_step w (w\<lparr>rw_rec := flushPop nxt (rw_rec w), rw_inflight := None\<rparr>)"

inductive recorder_reachable :: "recorder_world \<Rightarrow> bool" where
  boot: "NewScopeEpochRecorder opts = Some r \<Longrightarrow>
    recorder_reachable \<lparr>rw_rec = r, rw_inflight = None, rw_handed = [], rw_history = []\<rparr>"
| step: "recorder_reachable w \<Longrightarrow> recorder_step w w' \<Longrightarrow> recorder_reachable w'"

text \<open>The epochs a list of actions spells: closed at first, a Started opens, a Stopped closes, anything else is a fault.\<close>

fun epoch_run :: "bool \<Rightarrow> string list \<Rightarrow> bool option" where
  "epoch_run open [] = Some open"
| "epoch_run open (a # as) =
     (if \<not> open \<and> a = ScopeActionStarted then epoch_run True as
      else if open \<and> a = ScopeActionStopped then epoch_run False as
      else None)"

definition event_key :: "pendingScopeEvent \<Rightarrow> scopeKey" where
  "event_key p = \<lparr>sk_sink = pse_sink p, sk_scope = filterScope (se_Scope (pse_event p))\<rparr>"

definition actions_of :: "scopeKey \<Rightarrow> pendingScopeEvent list \<Rightarrow> string list" where
  "actions_of k ps = map (\<lambda>p. se_Action (pse_event p)) (filter (\<lambda>p. event_key p = k) ps)"

section \<open>Each scope's events alternate\<close>

lemma enqueueLocked_frame [simp]:
  "ser_active (enqueueLocked i e r) = ser_active r" "ser_queueLimit (enqueueLocked i e r) = ser_queueLimit r"
  "ser_clusterID (enqueueLocked i e r) = ser_clusterID r" "ser_warmer (enqueueLocked i e r) = ser_warmer r"
  by (simp_all add: enqueueLocked_def Let_def)

lemma enqueueLocked_pending:
  "ser_pending (enqueueLocked i e r) =
     drop (Suc (length (ser_pending r)) - ser_queueLimit r) (ser_pending r @ [\<lparr>pse_sink = i, pse_event = e\<rparr>])"
  by (simp add: enqueueLocked_def Let_def)

lemma rec_signal_frame [simp]:
  "ser_active (rec_signal r) = ser_active r" "ser_queueLimit (rec_signal r) = ser_queueLimit r"
  "ser_clusterID (rec_signal r) = ser_clusterID r" "ser_pending (rec_signal r) = ser_pending r"
  "ser_warmer (rec_signal r) = ser_warmer r"
  by (simp_all add: rec_signal_def)

lemma eventFor_active [simp]: "eventFor (r\<lparr>ser_active := a\<rparr>) = eventFor r"
  by (rule ext)+ (simp add: eventFor_def)

lemma event_key_produced: "event_key \<lparr>pse_sink = tr_Sink tr, pse_event = eventFor r tr action\<rparr> = transition_key tr"
  by (simp add: event_key_def transition_key_def eventFor_def filterScope_def)

lemma actions_of_produced:
  "actions_of k (produced r tr action edge) = (if edge \<and> k = transition_key tr then [action] else [])"
  by (auto simp: actions_of_def produced_def event_key_produced) (simp add: eventFor_def)

lemma actions_of_append: "actions_of k (xs @ ys) = actions_of k xs @ actions_of k ys"
  by (simp add: actions_of_def)

lemma epoch_run_append: "epoch_run b (xs @ ys) = Option.bind (epoch_run b xs) (\<lambda>b'. epoch_run b' ys)"
  by (induction xs arbitrary: b) auto

definition targets_held :: "ScopeEpochRecorder \<Rightarrow> bool" where
  "targets_held r \<longleftrightarrow> (\<forall>k ts. gm_get (ser_active r) k = Some ts \<longrightarrow> ts \<noteq> [])"

lemma targets_held_slice: "targets_held r \<Longrightarrow> slice_of (ser_active r) k = [] \<longleftrightarrow> gm_get (ser_active r) k = None"
  by (auto simp: targets_held_def slice_of_def split: option.splits)

text \<open>The two operations by their edge.\<close>

lemma ScopeStarted_cases:
  assumes "ScopeStarted tr r = ((edge, calls), r')" and "targets_held r"
  shows "edge \<longleftrightarrow> gm_get (ser_active r) (transition_key tr) = None"
    and "ser_active r' = gm_set (transition_key tr)
          (let ts = slice_of (ser_active r) (transition_key tr) in if tr_Target tr \<in> set ts then ts else ts @ [tr_Target tr])
          (ser_active r)"
    and "ser_pending r' = (if edge then drop (Suc (length (ser_pending r)) - ser_queueLimit r)
          (ser_pending r @ produced r tr ScopeActionStarted True) else ser_pending r)"
    and "ser_queueLimit r' = ser_queueLimit r" and "ser_clusterID r' = ser_clusterID r"
  using assms targets_held_slice [OF assms(2), of "transition_key tr"]
  by (auto simp: ScopeStarted_def Let_def enqueueLocked_pending produced_def split: if_splits)

lemma ScopeStopped_cases:
  assumes "ScopeStopped tr r = ((edge, calls), r')" and "targets_held r"
  defines "ts \<equiv> slice_of (ser_active r) (transition_key tr)"
  shows "edge \<longleftrightarrow> tr_Target tr \<in> set ts \<and> removeAll (tr_Target tr) ts = []"
    and "ser_active r' = (if edge then gm_del (transition_key tr) (ser_active r)
          else if tr_Target tr \<in> set ts then gm_set (transition_key tr) (removeAll (tr_Target tr) ts) (ser_active r)
          else ser_active r)"
    and "ser_pending r' = (if edge then drop (Suc (length (ser_pending r)) - ser_queueLimit r)
          (ser_pending r @ produced r tr ScopeActionStopped True) else ser_pending r)"
    and "ser_queueLimit r' = ser_queueLimit r" and "ser_clusterID r' = ser_clusterID r"
  using assms by (auto simp: ScopeStopped_def Let_def enqueueLocked_pending produced_def split: if_splits)

definition epochs_ok :: "recorder_world \<Rightarrow> bool" where
  "epochs_ok w \<longleftrightarrow> targets_held (rw_rec w) \<and>
     (\<forall>k. epoch_run False (actions_of k (rw_history w)) = Some (gm_get (ser_active (rw_rec w)) k \<noteq> None))"

lemma epochs_ok_started:
  assumes "epochs_ok w" and "ScopeStarted tr (rw_rec w) = ((edge, calls), r)"
  shows "epochs_ok (w\<lparr>rw_rec := r, rw_history := rw_history w @ produced (rw_rec w) tr ScopeActionStarted edge\<rparr>)"
proof -
  have h: "targets_held (rw_rec w)" using assms(1) by (simp add: epochs_ok_def)
  note c = ScopeStarted_cases [OF assms(2) h]
  have "targets_held r" using h by (auto simp: targets_held_def c(2) Let_def)
  then show ?thesis
    using assms(1) by (auto simp: epochs_ok_def actions_of_append actions_of_produced epoch_run_append c(1,2))
qed

lemma epochs_ok_stopped:
  assumes "epochs_ok w" and "ScopeStopped tr (rw_rec w) = ((edge, calls), r)"
  shows "epochs_ok (w\<lparr>rw_rec := r, rw_history := rw_history w @ produced (rw_rec w) tr ScopeActionStopped edge\<rparr>)"
proof -
  have h: "targets_held (rw_rec w)" using assms(1) by (simp add: epochs_ok_def)
  note c = ScopeStopped_cases [OF assms(2) h]
  have held: "gm_get (ser_active (rw_rec w)) (transition_key tr) \<noteq> None"
    if "tr_Target tr \<in> set (slice_of (ser_active (rw_rec w)) (transition_key tr))"
    using that by (cases "gm_get (ser_active (rw_rec w)) (transition_key tr)") (simp_all add: slice_of_def)
  have "targets_held r" using h c(1) by (auto simp: targets_held_def c(2) split: if_splits)
  then show ?thesis
    using assms(1) held c(1)
    by (auto simp: epochs_ok_def actions_of_append actions_of_produced epoch_run_append c(2))
qed

section \<open>Events are handed over in order, at most once\<close>

definition delivery_ok :: "recorder_world \<Rightarrow> bool" where
  "delivery_ok w \<longleftrightarrow> (\<exists>zs. rw_history w = zs @ ser_pending (rw_rec w) \<and>
     (case rw_inflight w of
        None \<Rightarrow> subseq (rw_handed w) zs
      | Some nxt \<Rightarrow> (\<exists>hs. rw_handed w = hs @ [nxt] \<and>
          (subseq (rw_handed w) zs \<or> subseq hs zs \<and> (\<exists>ps. ser_pending (rw_rec w) = nxt # ps)))))"

lemma delivery_ok_enqueue:
  assumes "delivery_ok w" and "ser_pending r = drop n (ser_pending (rw_rec w) @ [p])"
  shows "delivery_ok (w\<lparr>rw_rec := r, rw_history := rw_history w @ [p]\<rparr>)"
proof -
  obtain zs where zs: "rw_history w = zs @ ser_pending (rw_rec w)"
    and d: "case rw_inflight w of
        None \<Rightarrow> subseq (rw_handed w) zs
      | Some nxt \<Rightarrow> (\<exists>hs. rw_handed w = hs @ [nxt] \<and>
          (subseq (rw_handed w) zs \<or> subseq hs zs \<and> (\<exists>ps. ser_pending (rw_rec w) = nxt # ps)))"
    using assms(1) unfolding delivery_ok_def by blast
  let ?q = "ser_pending (rw_rec w) @ [p]"
  have h: "rw_history w @ [p] = (zs @ take n ?q) @ ser_pending r"
    using zs append_take_drop_id [of n ?q] unfolding assms(2) by (metis append_assoc)
  have grow: "subseq xs zs \<Longrightarrow> subseq xs (zs @ take n ?q)" for xs by (rule subseq_rev_drop_many)
  show ?thesis
  proof (cases "rw_inflight w")
    case None
    then show ?thesis using h d grow unfolding delivery_ok_def by auto
  next
    case (Some nxt)
    then obtain hs where hs: "rw_handed w = hs @ [nxt]"
      and c: "subseq (hs @ [nxt]) zs \<or> subseq hs zs \<and> (\<exists>ps. ser_pending (rw_rec w) = nxt # ps)"
      using d by auto
    have "subseq (hs @ [nxt]) (zs @ take n ?q) \<or> subseq hs (zs @ take n ?q) \<and> (\<exists>ps. ser_pending r = nxt # ps)"
    proof (cases "subseq (hs @ [nxt]) zs \<or> n = 0")
      case True
      then show ?thesis using c grow assms(2) by auto
    next
      case False
      then obtain ps where "subseq hs zs" "take n ?q = nxt # ps" using c by (cases n) auto
      then show ?thesis by (simp add: list_emb_append_mono)
    qed
    then show ?thesis using h hs Some unfolding delivery_ok_def by auto
  qed
qed

lemma delivery_ok_pop:
  assumes "delivery_ok w" and "rw_inflight w = Some nxt"
  shows "delivery_ok (w\<lparr>rw_rec := flushPop nxt (rw_rec w), rw_inflight := None\<rparr>)"
proof -
  obtain zs hs where zs: "rw_history w = zs @ ser_pending (rw_rec w)" and hs: "rw_handed w = hs @ [nxt]"
    and c: "subseq (hs @ [nxt]) zs \<or> subseq hs zs \<and> (\<exists>ps. ser_pending (rw_rec w) = nxt # ps)"
    using assms unfolding delivery_ok_def by auto
  show ?thesis
  proof (cases "\<exists>ps. ser_pending (rw_rec w) = nxt # ps")
    case True
    then obtain ps where ps: "ser_pending (rw_rec w) = nxt # ps" by blast
    have "subseq (hs @ [nxt]) (zs @ [nxt])"
      using c by (metis list_emb_append_mono subseq_order.order_refl subseq_rev_drop_many)
    then show ?thesis using zs hs ps unfolding delivery_ok_def by (auto simp: flushPop_def intro!: exI [of _ "zs @ [nxt]"])
  next
    case False
    then have "flushPop nxt (rw_rec w) = rw_rec w" by (auto simp: flushPop_def split: list.splits)
    then show ?thesis using zs hs c False unfolding delivery_ok_def by auto
  qed
qed

section \<open>Nothing is lost below the queue's limit\<close>

definition complete_ok :: "recorder_world \<Rightarrow> bool" where
  "complete_ok w \<longleftrightarrow> length (rw_history w) \<le> ser_queueLimit (rw_rec w) \<longrightarrow>
     (case rw_inflight w of
        None \<Rightarrow> rw_history w = rw_handed w @ ser_pending (rw_rec w)
      | Some nxt \<Rightarrow> (\<exists>hs ps. rw_handed w = hs @ [nxt] \<and> ser_pending (rw_rec w) = nxt # ps \<and> rw_history w = hs @ nxt # ps))"

lemma complete_ok_enqueue:
  assumes "complete_ok w" and "ser_queueLimit r = ser_queueLimit (rw_rec w)" and "delivery_ok w"
    and "ser_pending r = drop (Suc (length (ser_pending (rw_rec w))) - ser_queueLimit (rw_rec w)) (ser_pending (rw_rec w) @ [p])"
  shows "complete_ok (w\<lparr>rw_rec := r, rw_history := rw_history w @ [p]\<rparr>)"
proof -
  obtain zs where "rw_history w = zs @ ser_pending (rw_rec w)" using assms(3) unfolding delivery_ok_def by blast
  then have "ser_pending r = ser_pending (rw_rec w) @ [p]" if "length (rw_history w) < ser_queueLimit (rw_rec w)"
    using that assms(4) by simp
  then show ?thesis using assms(1,2) by (auto simp: complete_ok_def split: option.splits)
qed

definition recorder_ok :: "recorder_world \<Rightarrow> bool" where
  "recorder_ok w \<longleftrightarrow> epochs_ok w \<and> delivery_ok w \<and> complete_ok w"

lemma recorder_ok_boot:
  assumes "NewScopeEpochRecorder opts = Some r"
  shows "recorder_ok \<lparr>rw_rec = r, rw_inflight = None, rw_handed = [], rw_history = []\<rparr>"
  using assms
  by (auto simp: recorder_ok_def epochs_ok_def delivery_ok_def complete_ok_def targets_held_def actions_of_def
    NewScopeEpochRecorder_def split: if_splits)

lemma recorder_ok_edge:
  assumes "recorder_ok w" and "epochs_ok (w\<lparr>rw_rec := r, rw_history := rw_history w @ produced (rw_rec w) tr action edge\<rparr>)"
    and "ser_queueLimit r = ser_queueLimit (rw_rec w)"
    and "ser_pending r = (if edge then drop (Suc (length (ser_pending (rw_rec w))) - ser_queueLimit (rw_rec w))
          (ser_pending (rw_rec w) @ produced (rw_rec w) tr action True) else ser_pending (rw_rec w))"
  shows "recorder_ok (w\<lparr>rw_rec := r, rw_history := rw_history w @ produced (rw_rec w) tr action edge\<rparr>)"
proof (cases edge)
  case True
  let ?p = "\<lparr>pse_sink = tr_Sink tr, pse_event = eventFor (rw_rec w) tr action\<rparr>"
  have p: "ser_pending r = drop (Suc (length (ser_pending (rw_rec w))) - ser_queueLimit (rw_rec w)) (ser_pending (rw_rec w) @ [?p])"
    using assms(4) True by (simp add: produced_def)
  from assms(1) have w: "delivery_ok w" "complete_ok w" by (simp_all add: recorder_ok_def)
  show ?thesis
    using assms(2) True delivery_ok_enqueue [OF w(1) p] complete_ok_enqueue [OF w(2) assms(3) w(1) p]
    by (simp add: recorder_ok_def produced_def)
next
  case False
  then have d: "delivery_ok (w\<lparr>rw_rec := r\<rparr>)" "complete_ok (w\<lparr>rw_rec := r\<rparr>)"
    using assms by (cases "rw_inflight w"; simp add: recorder_ok_def delivery_ok_def complete_ok_def)+
  then show ?thesis using assms(2) False by (simp add: recorder_ok_def produced_def)
qed

lemma recorder_ok_step: "recorder_step w w' \<Longrightarrow> recorder_ok w \<Longrightarrow> recorder_ok w'"
proof (induction rule: recorder_step.induct)
  case (started tr w edge calls r)
  then have h: "targets_held (rw_rec w)" and e: "epochs_ok w" by (simp_all add: recorder_ok_def epochs_ok_def)
  note c = ScopeStarted_cases [OF started(1) h]
  show ?case by (rule recorder_ok_edge [OF started(2) epochs_ok_started [OF e started(1)] c(4) c(3)])
next
  case (stopped tr w edge calls r)
  then have h: "targets_held (rw_rec w)" and e: "epochs_ok w" by (simp_all add: recorder_ok_def epochs_ok_def)
  note c = ScopeStopped_cases [OF stopped(1) h]
  show ?case by (rule recorder_ok_edge [OF stopped(2) epochs_ok_stopped [OF e stopped(1)] c(4) c(3)])
next
  case (drops w)
  then show ?case
    by (cases "rw_inflight w")
      (simp_all add: recorder_ok_def epochs_ok_def delivery_ok_def complete_ok_def targets_held_def reportDrops_def)
next
  case (handed w nxt)
  then show ?case
    by (auto simp: recorder_ok_def epochs_ok_def delivery_ok_def complete_ok_def flushHead_def split: list.splits)
next
  case (popped w nxt)
  then have "complete_ok (w\<lparr>rw_rec := flushPop nxt (rw_rec w), rw_inflight := None\<rparr>)"
    by (auto simp: recorder_ok_def complete_ok_def flushPop_def split: list.splits)
  moreover have "epochs_ok (w\<lparr>rw_rec := flushPop nxt (rw_rec w), rw_inflight := None\<rparr>)"
    using popped by (auto simp: recorder_ok_def epochs_ok_def targets_held_def flushPop_def split: list.splits)
  ultimately show ?case using delivery_ok_pop popped by (simp add: recorder_ok_def)
qed

lemma recorder_reachable_ok: "recorder_reachable w \<Longrightarrow> recorder_ok w"
  by (induction rule: recorder_reachable.induct) (auto intro: recorder_ok_boot recorder_ok_step)

lemma subseq_delivered: "delivery_ok w \<Longrightarrow> subseq (rw_handed w) (rw_history w)"
  unfolding delivery_ok_def
  by (auto split: option.splits intro: subseq_rev_drop_many) (metis append_Cons append_Nil list_emb_append_mono
    subseq_order.order_refl subseq_rev_drop_many append.assoc)+

text \<open>
  C18: The scope log never inverts an epoch. Whatever the interleaving of interest edges with the
  flush loop, and however many events the bounded queue drops: per sink and scope the events produced
  alternate Started and Stopped, beginning with Started, and end open exactly while an interest holds
  the scope; and the sinks are handed a subsequence of what was produced, in order and none twice.
\<close>

theorem scope_log_never_inverts:
  assumes "recorder_reachable w"
  shows "epoch_run False (actions_of k (rw_history w)) = Some (gm_get (ser_active (rw_rec w)) k \<noteq> None)
    \<and> subseq (rw_handed w) (rw_history w)"
  using recorder_reachable_ok [OF assms] by (simp add: recorder_ok_def epochs_ok_def subseq_delivered)

lemma flushLoop_accepts:
  "length (ser_pending r) \<le> n \<Longrightarrow>
     fst (flushLoop (replicate n HandOffAccepted) r) = ser_pending r \<and> ser_pending (snd (flushLoop (replicate n HandOffAccepted) r)) = []"
proof (induction n arbitrary: r)
  case (Suc n)
  show ?case
  proof (cases "ser_pending r")
    case (Cons p ps)
    then have "ser_pending (flushPop p r) = ps" by (simp add: flushPop_def)
    then show ?thesis using Suc Cons by (simp add: flushHead_def case_prod_beta)
  qed (simp add: flushHead_def)
qed simp

text \<open>
  C39: Below the queue's limit no transition is lost. While no more events were produced than the
  queue holds, a flush whose hand-offs are all accepted leaves the queue empty, and the sinks have then
  been handed every event produced, in order and exactly once.
\<close>

theorem flush_delivers_everything:
  assumes "recorder_reachable w" and "rw_inflight w = None" and "length (rw_history w) \<le> ser_queueLimit (rw_rec w)"
    and "length (ser_pending (rw_rec w)) \<le> n"
  shows "rw_handed w @ fst (flush (replicate n HandOffAccepted) (rw_rec w)) = rw_history w
    \<and> ser_pending (snd (flush (replicate n HandOffAccepted) (rw_rec w))) = []"
  using recorder_reachable_ok [OF assms(1)] assms(2-4) flushLoop_accepts [of "snd (reportDrops (rw_rec w))" n]
  by (simp add: recorder_ok_def complete_ok_def flush_def reportDrops_def)

definition sample_options :: ScopeRecorderOptions where
  "sample_options = \<lparr>sro_ClusterID = ''c'', sro_Events = True, sro_Warmer = True, sro_FlushInterval = 0, sro_QueueLimit = 8\<rparr>"

definition pod_transition :: "string \<Rightarrow> go_time \<Rightarrow> ScopeTransition" where
  "pod_transition target at =
     \<lparr>tr_Sink = SinkID ''S3Sink'' ''a'', tr_Scope = \<lparr>scope_group = [], scope_kind = ''Pod'', scope_namespace = ''web''\<rparr>,
      tr_Target = target, tr_APIVersion = ''v1'', tr_RuleKeys = [''r''], tr_At = at\<rparr>"

definition sample_recorder :: ScopeEpochRecorder where
  "sample_recorder =
     snd (ScopeStopped (pod_transition ''t1'' 30) (snd (ScopeStarted (pod_transition ''t1'' 10)
       (the (NewScopeEpochRecorder sample_options)))))"

definition pod_event :: "string \<Rightarrow> go_time \<Rightarrow> pendingScopeEvent" where
  "pod_event action at =
     \<lparr>pse_sink = SinkID ''S3Sink'' ''a'',
      pse_event = \<lparr>se_Action = action,
        se_Scope = \<lparr>sf_ClusterID = ''c'', sf_APIGroup = [], sf_Kind = ''Pod'', sf_Namespace = ''web''\<rparr>,
        se_APIVersion = ''v1'', se_RuleRef = ''r'', se_TS = at\<rparr>\<rparr>"

lemmas sample_recorder_defs = NewScopeEpochRecorder_def sample_options_def ScopeStarted_def ScopeStopped_def
  pod_transition_def pod_event_def Let_def slice_of_def gm_get_def gm_set_def gm_del_def transition_key_def rec_signal_def
  enqueueLocked_def eventFor_def triggeringRule_def produced_def

lemma sample_reachable:
  "recorder_reachable \<lparr>rw_rec = sample_recorder, rw_inflight = None, rw_handed = [],
     rw_history = [pod_event ScopeActionStarted 10, pod_event ScopeActionStopped 30]\<rparr>"
proof -
  define r0 where "r0 = the (NewScopeEpochRecorder sample_options)"
  define r1 where "r1 = snd (ScopeStarted (pod_transition ''t1'' 10) r0)"
  have s1: "ScopeStarted (pod_transition ''t1'' 10) r0 = ((True, snd (fst (ScopeStarted (pod_transition ''t1'' 10) r0))), r1)"
    by (simp add: r0_def r1_def sample_recorder_defs)
  have s2: "ScopeStopped (pod_transition ''t1'' 30) r1 = ((True, snd (fst (ScopeStopped (pod_transition ''t1'' 30) r1))), sample_recorder)"
    by (simp add: r0_def r1_def sample_recorder_def sample_recorder_defs)
  have p: "produced r0 (pod_transition ''t1'' 10) ScopeActionStarted True = [pod_event ScopeActionStarted 10]"
    "produced r1 (pod_transition ''t1'' 30) ScopeActionStopped True = [pod_event ScopeActionStopped 30]"
    by (simp_all add: r0_def r1_def sample_recorder_defs)
  let ?w0 = "\<lparr>rw_rec = r0, rw_inflight = None, rw_handed = [], rw_history = []\<rparr>"
  have "recorder_reachable ?w0"
    by (rule recorder_reachable.boot [of sample_options]) (simp add: r0_def NewScopeEpochRecorder_def sample_options_def)
  then have "recorder_reachable (?w0\<lparr>rw_rec := r1, rw_history := rw_history ?w0 @ produced (rw_rec ?w0) (pod_transition ''t1'' 10) ScopeActionStarted True\<rparr>)"
    by (rule recorder_reachable.step) (rule recorder_step.started, unfold recorder_world.select_convs, rule s1)
  then have w1: "recorder_reachable \<lparr>rw_rec = r1, rw_inflight = None, rw_handed = [], rw_history = [pod_event ScopeActionStarted 10]\<rparr>"
    (is "recorder_reachable ?w1") by (simp add: p)
  then have "recorder_reachable (?w1\<lparr>rw_rec := sample_recorder, rw_history := rw_history ?w1 @ produced (rw_rec ?w1) (pod_transition ''t1'' 30) ScopeActionStopped True\<rparr>)"
    by (rule recorder_reachable.step) (rule recorder_step.stopped, unfold recorder_world.select_convs, rule s2)
  then show ?thesis by (simp add: p)
qed

lemma sample_recorder_state:
  "ser_active sample_recorder = []" "length (ser_pending sample_recorder) = 2" "ser_queueLimit sample_recorder = 8"
  unfolding sample_recorder_def by (simp_all add: sample_recorder_defs)

theorem scope_log_never_inverts_witness:
  "epoch_run False (actions_of \<lparr>sk_sink = SinkID ''S3Sink'' ''a'', sk_scope = tr_Scope (pod_transition [] 0)\<rparr>
      [pod_event ScopeActionStarted 10, pod_event ScopeActionStopped 30]) = Some False
   \<and> subseq [] [pod_event ScopeActionStarted 10, pod_event ScopeActionStopped 30]"
  using scope_log_never_inverts [OF sample_reachable, of "\<lparr>sk_sink = SinkID ''S3Sink'' ''a'', sk_scope = tr_Scope (pod_transition [] 0)\<rparr>"]
  by (simp add: sample_recorder_state)

theorem flush_delivers_everything_witness:
  "fst (flush [HandOffAccepted, HandOffAccepted] sample_recorder)
     = [pod_event ScopeActionStarted 10, pod_event ScopeActionStopped 30]
   \<and> ser_pending (snd (flush [HandOffAccepted, HandOffAccepted] sample_recorder)) = []"
  using flush_delivers_everything [OF sample_reachable, of 2]
  by (simp add: sample_recorder_state numeral_2_eq_2 del: flushLoop.simps)

end
