(* ===== verification/WatchManager.thy ===== *)
theory WatchManager
  imports ScopeRecorder
begin

text \<open>
  The watch manager and its informer pool (\<open>internal/watch/manager.go\<close>, \<open>pool.go\<close>): one
  level-triggering pass from the registry's snapshot to installed interests and running informers,
  the fan-out of an informer's event to work keys, and what the pipeline asks back (\<open>Get\<close>,
  \<open>RedactionFor\<close>, \<open>ScopeDesired\<close>, \<open>ScopeSynced\<close>).

  An informer is client-go's: the pool keeps which ones run; whether starting one fails, what its
  cache answers and whether it has synced are parameters. The resolver's answer to each target of a
  pass is a function of the target (the code asks once per target and pass; the resolver itself is in
  \<open>Resolver\<close>). The recorder and the eviction hook the pass calls are arguments of the pass.
\<close>

section \<open>The pool\<close>

record informerEntry =
  ie_key :: informerKey
  ie_gvk :: GroupVersionKind

type_synonym pool = "(informerKey, informerEntry) gomap"

definition pool_size :: "pool \<Rightarrow> nat" where
  "pool_size p = length p"

definition entryFor :: "informerKey \<Rightarrow> pool \<Rightarrow> informerEntry option" where
  "entryFor key p = gm_get p key"

text \<open>\<open>compareInformerKeys\<close> as a sort key.\<close>

definition informerKey_rank :: "watch_lib \<Rightarrow> informerKey \<Rightarrow> string \<times> string \<times> string" where
  "informerKey_rank lib k = (wl_gvrString lib (is_GVR (ik_scope k)), is_Namespace (ik_scope k), ik_FieldSelector k)"

definition pool_keys :: "watch_lib \<Rightarrow> pool \<Rightarrow> informerKey list" where
  "pool_keys lib p = sort_key (informerKey_rank lib) (gm_keys p)"

definition pool_stop :: "informerKey \<Rightarrow> pool \<Rightarrow> pool" where
  "pool_stop key p = gm_del key p"

definition pool_start :: "(informerKey \<Rightarrow> bool) \<Rightarrow> informerKey \<Rightarrow> GroupVersionKind \<Rightarrow> pool \<Rightarrow> bool \<times> pool" where
  "pool_start fails key gvk p =
     (if fails key then (False, p)
      else if gm_get p key \<noteq> None then (False, p)
      else (True, gm_set key \<lparr>ie_key = key, ie_gvk = gvk\<rparr> p))"

definition retain ::
    "watch_lib \<Rightarrow> (informerKey \<Rightarrow> bool) \<Rightarrow> (informerKey, GroupVersionKind) gomap \<Rightarrow> pool \<Rightarrow> pool" where
  "retain lib fails wanted p =
     (let p = fold (\<lambda>key p. if gm_get wanted key = None then pool_stop key p else p) (pool_keys lib p) p
      in fold (\<lambda>key p. if entryFor key p \<noteq> None then p
                       else case gm_get wanted key of None \<Rightarrow> p | Some gvk \<Rightarrow> snd (pool_start fails key gvk p))
           (sort_key (informerKey_rank lib) (gm_keys wanted)) p)"

definition stopAll :: "pool \<Rightarrow> pool" where
  "stopAll p = []"

definition listWatchFor :: "informerKey \<Rightarrow> string \<Rightarrow> string" where
  "listWatchFor key given = (if ik_FieldSelector key \<noteq> [] then ik_FieldSelector key else given)"

section \<open>Fan-out\<close>

datatype informerObj =
    Unstructured object
  | DeletedFinalStateUnknown string "informerObj option"
  | OtherObj

record eventTarget =
  et_namespace :: string
  et_name :: string
  et_obj :: "object option"

definition targetOfObject :: "watch_lib \<Rightarrow> informerObj \<Rightarrow> eventTarget option" where
  "targetOfObject lib obj =
     (case obj of
        Unstructured u \<Rightarrow> Some \<lparr>et_namespace = wl_GetNamespace lib u, et_name = wl_GetName lib u, et_obj = Some u\<rparr>
      | _ \<Rightarrow> None)"

definition eventTargetOf :: "watch_lib \<Rightarrow> informerObj \<Rightarrow> eventTarget option" where
  "eventTargetOf lib obj =
     (case obj of
        DeletedFinalStateUnknown key None \<Rightarrow>
          map_option (\<lambda>(namespace, name). \<lparr>et_namespace = namespace, et_name = name, et_obj = None\<rparr>)
            (wl_SplitMetaNamespaceKey lib key)
      | DeletedFinalStateUnknown key (Some inner) \<Rightarrow> targetOfObject lib inner
      | _ \<Rightarrow> targetOfObject lib obj)"

definition labelsKnown :: "eventTarget \<Rightarrow> bool" where
  "labelsKnown t = (et_obj t \<noteq> None)"

definition labelsOf :: "watch_lib \<Rightarrow> eventTarget \<Rightarrow> labelSet option" where
  "labelsOf lib t = (case et_obj t of None \<Rightarrow> None | Some u \<Rightarrow> wl_GetLabels lib u)"

definition previousLabelsOf :: "watch_lib \<Rightarrow> informerObj option \<Rightarrow> labelSet option" where
  "previousLabelsOf lib previous =
     (case previous of
        None \<Rightarrow> None
      | Some obj \<Rightarrow> (case eventTargetOf lib obj of None \<Rightarrow> None | Some prev \<Rightarrow> labelsOf lib prev))"

definition fanOut ::
    "watch_lib \<Rightarrow> interestTable \<Rightarrow> informerEntry \<Rightarrow> informerObj \<Rightarrow> informerObj option \<Rightarrow> Key list" where
  "fanOut lib t entry obj previous =
     (case eventTargetOf lib obj of
        None \<Rightarrow> []
      | Some target \<Rightarrow>
          map (\<lambda>i. keyFor i (et_namespace target) (et_name target))
            (filter (\<lambda>i.
                if \<not> si_matchAll i \<and> labelsKnown target
                  \<and> \<not> matchesEither (wl_labels lib) i (labelsOf lib target) (previousLabelsOf lib previous)
                then False
                else if \<not> recordsEveryEvent i
                  \<and> (case et_obj target of None \<Rightarrow> False | Some u \<Rightarrow> \<not> matchesEvent i u)
                then False else True)
              (interestsFor (ie_key entry) t)))"

section \<open>Translation\<close>

type_synonym resolver_answers = "TargetKey \<Rightarrow> (GroupVersionResource \<times> bool) option"

definition agreedFieldSelector :: "scopeInterest list \<Rightarrow> string" where
  "agreedFieldSelector interests =
     (case interests of
        [] \<Rightarrow> []
      | i # is \<Rightarrow> (let selector = si_fieldSelector i in
           if selector = [] then []
           else if list_ex (\<lambda>j. si_fieldSelector j \<noteq> selector) is then [] else selector))"

definition translateTarget :: "watch_lib \<Rightarrow> resolver_answers \<Rightarrow> TargetKey \<times> TargetState \<Rightarrow> (informerScope \<times> scopeInterest) option" where
  "translateTarget lib resolve kst =
     (case kst of (key, state) \<Rightarrow>
      case resolve key of
        None \<Rightarrow> None
      | Some (gvr, namespaced) \<Rightarrow>
          if tk_Namespace key \<noteq> [] \<and> \<not> namespaced then None
          else let scope = \<lparr>is_GVR = gvr, is_Namespace = tk_Namespace key\<rparr> in
               (case newScopeInterest lib state scope of
                  Inl _ \<Rightarrow> None
                | Inr i \<Rightarrow> Some (scope, i)))"

definition stampInformer :: "informerKey \<Rightarrow> scopeInterest \<Rightarrow> scopeInterest" where
  "stampInformer informer i = i\<lparr>si_informer := informer\<rparr>"

definition translate ::
    "watch_lib \<Rightarrow> resolver_answers \<Rightarrow> (TargetKey, TargetState) gomap
     \<Rightarrow> (interestID, scopeInterest) gomap \<times> (informerKey, GroupVersionKind) gomap" where
  "translate lib resolve snapshot =
     (let built = List.map_filter (translateTarget lib resolve) snapshot;
          byScope = fold (\<lambda>(scope, i). append_at scope i) built [];
          informerOf = (\<lambda>(scope, interests). \<lparr>ik_scope = scope, ik_FieldSelector = agreedFieldSelector interests\<rparr>);
          desired = fold (\<lambda>group d. fold (\<lambda>i. gm_set (interest_id (stampInformer (informerOf group) i))
                                                    (stampInformer (informerOf group) i)) (snd group) d) byScope [];
          wanted = fold (\<lambda>group. gm_set (informerOf group) (si_gvk (last (snd group)))) byScope []
      in (desired, wanted))"

section \<open>A pass\<close>

record WatchManager =
  wm_table :: interestTable
  wm_pool :: pool
  wm_startedTargets :: "interestID list"
  wm_settleDone :: bool
  wm_poolDiffs :: nat

definition newWatchManager :: WatchManager where
  "newWatchManager = \<lparr>wm_table = newInterestTable, wm_pool = [], wm_startedTargets = [], wm_settleDone = False, wm_poolDiffs = 0\<rparr>"

definition markSettled :: "WatchManager \<Rightarrow> WatchManager" where
  "markSettled m = (if wm_settleDone m then m else m\<lparr>wm_settleDone := True\<rparr>)"

definition newlyServing :: "WatchManager \<Rightarrow> (interestID, scopeInterest) gomap \<Rightarrow> scopeInterest list" where
  "newlyServing m desired =
     sortInterests (map snd (filter (\<lambda>(id, i). id \<notin> set (wm_startedTargets m) \<and> entryFor (si_informer i) (wm_pool m) \<noteq> None) desired))"

text \<open>The recorder and the pipeline are state \<open>'r\<close> and \<open>'p\<close> that the pass hands on.\<close>

definition stopInterest ::
    "watch_lib \<Rightarrow> (ScopeTransition \<Rightarrow> 'r \<Rightarrow> 'r) \<Rightarrow> (sink_id \<Rightarrow> ScopeKey \<Rightarrow> 'p \<Rightarrow> 'p) \<Rightarrow> go_time \<Rightarrow> scopeInterest
     \<Rightarrow> WatchManager \<times> 'r \<times> 'p \<Rightarrow> WatchManager \<times> 'r \<times> 'p" where
  "stopInterest lib recStopped evict at i st =
     (case st of (m, r, p) \<Rightarrow>
        (m\<lparr>wm_startedTargets := removeAll (interest_id i) (wm_startedTargets m)\<rparr>,
         recStopped (transition lib at i) r, evict (si_sink i) (si_scope i) p))"

definition startInterest ::
    "watch_lib \<Rightarrow> (ScopeTransition \<Rightarrow> 'r \<Rightarrow> 'r) \<Rightarrow> go_time \<Rightarrow> scopeInterest \<Rightarrow> WatchManager \<times> 'r \<times> 'p \<Rightarrow> WatchManager \<times> 'r \<times> 'p" where
  "startInterest lib recStarted at i st =
     (case st of (m, r, p) \<Rightarrow>
        (m\<lparr>wm_startedTargets := List.insert (interest_id i) (wm_startedTargets m)\<rparr>, recStarted (transition lib at i) r, p))"

definition reconcilePool ::
    "watch_lib \<Rightarrow> (ScopeTransition \<Rightarrow> 'r \<Rightarrow> 'r) \<Rightarrow> (ScopeTransition \<Rightarrow> 'r \<Rightarrow> 'r) \<Rightarrow> (sink_id \<Rightarrow> ScopeKey \<Rightarrow> 'p \<Rightarrow> 'p)
     \<Rightarrow> resolver_answers \<Rightarrow> (informerKey \<Rightarrow> bool) \<Rightarrow> go_time \<Rightarrow> (TargetKey, TargetState) gomap
     \<Rightarrow> WatchManager \<times> 'r \<times> 'p \<Rightarrow> WatchManager \<times> 'r \<times> 'p" where
  "reconcilePool lib recStarted recStopped evict resolve fails at snapshot st =
     (case st of (m, r, p) \<Rightarrow>
      let (desired, wanted) = translate lib resolve snapshot;
          (removed, table) = replace desired (wm_table m);
          (m, r, p) = fold (stopInterest lib recStopped evict at) removed (m\<lparr>wm_table := table\<rparr>, r, p);
          m = m\<lparr>wm_pool := retain lib fails wanted (wm_pool m)\<rparr>;
          (m, r, p) = fold (startInterest lib recStarted at) (newlyServing m desired) (m, r, p)
      in (m\<lparr>wm_poolDiffs := wm_poolDiffs m + 1\<rparr>, r, p))"

section \<open>What the pipeline asks\<close>

datatype cacheAnswer = CacheError string | CacheAbsent | CacheHolds informerObj

datatype getError = LookUpFailed string | NotUnstructured | InformerNotRunning

definition watchCacheKey :: "Key \<Rightarrow> string" where
  "watchCacheKey ref = (if key_namespace ref \<noteq> [] then key_namespace ref @ ''/'' @ key_name ref else key_name ref)"

fun getLoop ::
    "(informerKey \<Rightarrow> string \<Rightarrow> cacheAnswer) \<Rightarrow> pool \<Rightarrow> string \<Rightarrow> bool \<Rightarrow> scopeInterest list \<Rightarrow> getError + object option" where
  "getLoop cached p key missing [] = (if missing then Inl InformerNotRunning else Inr None)"
| "getLoop cached p key missing (i # is) =
     (if entryFor (si_informer i) p = None then getLoop cached p key True is
      else case cached (si_informer i) key of
             CacheError e \<Rightarrow> Inl (LookUpFailed e)
           | CacheAbsent \<Rightarrow> getLoop cached p key missing is
           | CacheHolds (Unstructured u) \<Rightarrow> Inr (Some u)
           | CacheHolds _ \<Rightarrow> Inl NotUnstructured)"

definition Get ::
    "(informerKey \<Rightarrow> string \<Rightarrow> cacheAnswer) \<Rightarrow> WatchManager \<Rightarrow> Key \<Rightarrow> getError + (object option \<times> bool)" where
  "Get cached m ref =
     (let interests = lookupIdentity ref (wm_table m) in
      if interests = [] then Inr (None, False)
      else case getLoop cached (wm_pool m) (watchCacheKey ref) False interests of
             Inl e \<Rightarrow> Inl e
           | Inr obj \<Rightarrow> Inr (obj, True))"

definition RedactionFor :: "Key \<Rightarrow> WatchManager \<Rightarrow> RedactionPolicy option option" where
  "RedactionFor ref m =
     (case lookupIdentity ref (wm_table m) of
        [] \<Rightarrow> None
      | [i] \<Rightarrow> Some (si_redaction i)
      | interests \<Rightarrow> Some (MergeRedaction (map si_redaction interests)))"

definition ScopeDesired :: "sink_id \<Rightarrow> ScopeKey \<Rightarrow> WatchManager \<Rightarrow> bool" where
  "ScopeDesired i scope m = (interestsForScope i scope (wm_table m) \<noteq> [])"

definition ScopeSynced :: "(informerKey \<Rightarrow> bool) \<Rightarrow> sink_id \<Rightarrow> ScopeKey \<Rightarrow> WatchManager \<Rightarrow> bool" where
  "ScopeSynced synced i scope m =
     (let interests = interestsForScope i scope (wm_table m) in
      if interests = [] then False
      else list_all (\<lambda>x. entryFor (si_informer x) (wm_pool m) \<noteq> None \<and> synced (si_informer x)) interests)"

section \<open>What a translation serves\<close>

lemma fold_gm_set_get:
  "gm_get (fold (\<lambda>x. gm_set (f x) x) xs m) k = Some y \<Longrightarrow> (y \<in> set xs \<and> f y = k) \<or> gm_get m k = Some y"
proof (induction xs arbitrary: m)
  case (Cons x xs)
  from Cons.IH [of "gm_set (f x) x m"] Cons.prems show ?case by (auto split: if_splits)
qed simp

lemma fold_gm_set_in:
  assumes "inj_on f (set xs)" and "x \<in> set xs"
  shows "gm_get (fold (\<lambda>x. gm_set (f x) x) xs m) (f x) = Some x"
  using assms
proof (induction xs arbitrary: m rule: rev_induct)
  case (snoc y xs)
  then show ?case
  proof (cases "f x = f y")
    case True
    then have "x = y" using inj_onD [OF snoc.prems(1)] snoc.prems(2) by simp
    then show ?thesis by simp
  next
    case False
    then have "x \<in> set xs" using snoc.prems(2) by auto
    moreover have "inj_on f (set xs)" using snoc.prems(1) by (rule inj_on_subset) auto
    ultimately show ?thesis using snoc.IH False by simp
  qed
qed simp

lemma fold_gm_set_wf: "gm_wf m \<Longrightarrow> gm_wf (fold (\<lambda>x. gm_set (f x) (g x)) xs m)"
  by (induction xs arbitrary: m) simp_all

lemma fold_append_at_wf: "gm_wf m \<Longrightarrow> gm_wf (fold (\<lambda>(k, v). append_at k v) kvs m)"
  by (induction kvs arbitrary: m) (auto simp: append_at_def)

lemma slice_of_fold_pairs:
  "slice_of (fold (\<lambda>(k, v). append_at k v) kvs m) k = slice_of m k @ map snd (filter (\<lambda>kv. fst kv = k) kvs)"
  by (induction kvs arbitrary: m) (auto simp: slice_of_append_at)

lemma in_gomap_slice: "gm_wf m \<Longrightarrow> (k, g) \<in> set m \<Longrightarrow> slice_of m k = g"
  using gm_get_iff_set [of m k g] by (simp add: slice_of_def)

definition builtInterests :: "watch_lib \<Rightarrow> resolver_answers \<Rightarrow> (TargetKey, TargetState) gomap \<Rightarrow> (informerScope \<times> scopeInterest) list" where
  "builtInterests lib resolve snapshot = List.map_filter (translateTarget lib resolve) snapshot"

definition interestsOn :: "informerScope \<Rightarrow> (informerScope \<times> scopeInterest) list \<Rightarrow> scopeInterest list" where
  "interestsOn scope built = map snd (filter (\<lambda>kv. fst kv = scope) built)"

definition informerServing :: "(informerScope \<times> scopeInterest) list \<Rightarrow> informerScope \<Rightarrow> informerKey" where
  "informerServing built scope = \<lparr>ik_scope = scope, ik_FieldSelector = agreedFieldSelector (interestsOn scope built)\<rparr>"

text \<open>The interests a pass installs: each built one, stamped with the informer of its scope.\<close>

definition stamped :: "(informerScope \<times> scopeInterest) list \<Rightarrow> scopeInterest set" where
  "stamped built = (\<lambda>(scope, i). stampInformer (informerServing built scope) i) ` set built"

lemma translate_flat:
  obtains flat where "set flat = stamped (builtInterests lib resolve snapshot)"
    and "fst (translate lib resolve snapshot) = fold (\<lambda>i. gm_set (interest_id i) i) flat []"
proof -
  define built where "built = builtInterests lib resolve snapshot"
  define byScope where "byScope = fold (\<lambda>(scope, i). append_at scope i) built []"
  define flat where "flat = concat (map (\<lambda>grp. map (stampInformer (informerServing built (fst grp))) (snd grp)) byScope)"
  have wf: "gm_wf byScope" by (simp add: byScope_def fold_append_at_wf)
  have sl: "slice_of byScope k = interestsOn k built" for k
    by (simp add: byScope_def slice_of_fold_pairs interestsOn_def)
  have grp: "snd g = interestsOn (fst g) built" if "g \<in> set byScope" for g
    using in_gomap_slice [OF wf, of "fst g" "snd g"] that by (simp add: sl)
  have key: "\<exists>g. (k, g) \<in> set byScope" if "(k, i) \<in> set built" for k i
  proof -
    have "slice_of byScope k \<noteq> []" using that by (force simp: sl interestsOn_def filter_empty_conv)
    then show ?thesis by (auto simp: slice_of_def split: option.splits dest: gm_get_in_set)
  qed
  have "set flat = stamped built"
  proof (intro set_eqI iffI)
    fix x assume "x \<in> set flat"
    then obtain g i where "g \<in> set byScope" "i \<in> set (snd g)" "x = stampInformer (informerServing built (fst g)) i"
      by (auto simp: flat_def)
    then show "x \<in> stamped built" using grp [of g] by (auto simp: stamped_def interestsOn_def)
  next
    fix x assume "x \<in> stamped built"
    then obtain k i where ki: "(k, i) \<in> set built" and x: "x = stampInformer (informerServing built k) i" by (auto simp: stamped_def)
    obtain g where g: "(k, g) \<in> set byScope" using key [OF ki] by blast
    then have "i \<in> set g" using ki grp [OF g] by (auto simp: interestsOn_def intro: rev_image_eqI)
    then show "x \<in> set flat" using g x by (force simp: flat_def)
  qed
  moreover have "fst (translate lib resolve snapshot) = fold (\<lambda>i. gm_set (interest_id i) i) flat []"
  proof -
    have "fold (\<lambda>group d. fold (\<lambda>i. gm_set (interest_id (stampInformer (case group of (scope, interests) \<Rightarrow>
              \<lparr>ik_scope = scope, ik_FieldSelector = agreedFieldSelector interests\<rparr>) i))
            (stampInformer (case group of (scope, interests) \<Rightarrow> \<lparr>ik_scope = scope, ik_FieldSelector = agreedFieldSelector interests\<rparr>) i))
            (snd group) d) gs d
        = fold (\<lambda>i. gm_set (interest_id i) i) (concat (map (\<lambda>grp. map (stampInformer (informerServing built (fst grp))) (snd grp)) gs)) d"
      if "set gs \<subseteq> set byScope" for gs d
      using that by (induction gs arbitrary: d) (auto simp: fold_map comp_def case_prod_beta informerServing_def grp)
    then show ?thesis
      by (simp add: translate_def Let_def flat_def byScope_def built_def builtInterests_def)
  qed
  ultimately show ?thesis using that built_def by simp
qed

text \<open>The REST mapper documents one kind per resource: the resource an answer names determines the kind that was asked for.\<close>

definition kinds_known :: "(GroupVersionResource \<Rightarrow> GroupVersionKind) \<Rightarrow> resolver_answers \<Rightarrow> bool" where
  "kinds_known kindOf resolve \<longleftrightarrow> (\<forall>key gvr namespaced. resolve key = Some (gvr, namespaced) \<longrightarrow> kindOf gvr = tk_GVK key)"

definition snapshot_ok :: "(TargetKey, TargetState) gomap \<Rightarrow> bool" where
  "snapshot_ok snapshot \<longleftrightarrow> gm_wf snapshot \<and> (\<forall>(key, state) \<in> set snapshot. ts_Key state = key)"

definition interest_wf :: "(GroupVersionResource \<Rightarrow> GroupVersionKind) \<Rightarrow> scopeInterest \<Rightarrow> bool" where
  "interest_wf kindOf i \<longleftrightarrow> si_gvk i = kindOf (is_GVR (ik_scope (si_informer i)))
     \<and> si_scope i = \<lparr>scope_group = gvk_Group (si_gvk i), scope_kind = gvk_Kind (si_gvk i),
                    scope_namespace = is_Namespace (ik_scope (si_informer i))\<rparr>"

lemma builtInterests_in:
  "(scope, i) \<in> set (builtInterests lib resolve snapshot) \<longleftrightarrow>
     (\<exists>key state. (key, state) \<in> set snapshot \<and> translateTarget lib resolve (key, state) = Some (scope, i))"
  by (auto simp: builtInterests_def map_filter_def image_iff) (metis option.sel option.simps(3))+

lemma translateTarget_ok:
  assumes "translateTarget lib resolve (key, state) = Some (scope, i)"
  obtains gvr namespaced where "resolve key = Some (gvr, namespaced)" and "scope = \<lparr>is_GVR = gvr, is_Namespace = tk_Namespace key\<rparr>"
    and "newScopeInterest lib state scope = Inr i" and "tk_Namespace key = [] \<or> namespaced"
  using assms by (auto simp: translateTarget_def Let_def split: option.splits if_splits sum.splits)

lemma built_wf:
  assumes "snapshot_ok snapshot" and "kinds_known kindOf resolve"
    and "(scope, i) \<in> set (builtInterests lib resolve snapshot)"
  shows "interest_wf kindOf (stampInformer (informerServing built scope) i)"
    and "\<exists>state. ((\<lparr>tk_Sink = si_sink i, tk_GVK = kindOf (is_GVR scope), tk_Namespace = is_Namespace scope\<rparr>, state) \<in> set snapshot)
           \<and> newScopeInterest lib state scope = Inr i"
proof -
  obtain key state where ks: "(key, state) \<in> set snapshot" and t: "translateTarget lib resolve (key, state) = Some (scope, i)"
    using assms(3) builtInterests_in by blast
  obtain gvr namespaced where r: "resolve key = Some (gvr, namespaced)" "scope = \<lparr>is_GVR = gvr, is_Namespace = tk_Namespace key\<rparr>"
    and n: "newScopeInterest lib state scope = Inr i" by (rule translateTarget_ok [OF t])
  have k: "ts_Key state = key" "kindOf gvr = tk_GVK key"
    using assms(1,2) ks r(1) by (auto simp: snapshot_ok_def kinds_known_def)
  note ok = newScopeInterest_ok [OF n]
  show "interest_wf kindOf (stampInformer (informerServing built scope) i)"
    by (simp add: interest_wf_def stampInformer_def informerServing_def ok(2,4) k r(2))
  have "key = \<lparr>tk_Sink = si_sink i, tk_GVK = kindOf (is_GVR scope), tk_Namespace = is_Namespace scope\<rparr>"
    by (simp add: ok(3) k r(2))
  then show "\<exists>state. ((\<lparr>tk_Sink = si_sink i, tk_GVK = kindOf (is_GVR scope), tk_Namespace = is_Namespace scope\<rparr>, state) \<in> set snapshot)
           \<and> newScopeInterest lib state scope = Inr i"
    using ks n by auto
qed

lemma stamped_inj:
  assumes "snapshot_ok snapshot" and "kinds_known kindOf resolve"
  shows "inj_on interest_id (stamped (builtInterests lib resolve snapshot))"
proof (rule inj_onI)
  let ?built = "builtInterests lib resolve snapshot"
  fix x y assume "x \<in> stamped ?built" "y \<in> stamped ?built" and e: "interest_id x = interest_id y"
  then obtain s i s' j where x: "(s, i) \<in> set ?built" "x = stampInformer (informerServing ?built s) i"
    and y: "(s', j) \<in> set ?built" "y = stampInformer (informerServing ?built s') j" by (auto simp: stamped_def)
  from e have "s' = s" "si_sink j = si_sink i" by (simp_all add: x(2) y(2) interest_id_def stampInformer_def informerServing_def)
  moreover obtain st where st: "(\<lparr>tk_Sink = si_sink i, tk_GVK = kindOf (is_GVR s), tk_Namespace = is_Namespace s\<rparr>, st) \<in> set snapshot"
    "newScopeInterest lib st s = Inr i" using built_wf(2) [OF assms x(1)] by blast
  moreover obtain st' where st': "(\<lparr>tk_Sink = si_sink j, tk_GVK = kindOf (is_GVR s'), tk_Namespace = is_Namespace s'\<rparr>, st') \<in> set snapshot"
    "newScopeInterest lib st' s' = Inr j" using built_wf(2) [OF assms y(1)] by blast
  moreover have "gm_wf snapshot" using assms(1) by (simp add: snapshot_ok_def)
  ultimately have "st = st'" using gm_get_iff_set [of snapshot] by (metis option.inject)
  with st(2) st'(2) \<open>s' = s\<close> show "x = y" by (simp add: x(2) y(2))
qed

text \<open>A translation installs exactly the stamped interests, under their own identities.\<close>

lemma translate_installs:
  assumes "snapshot_ok snapshot" and "kinds_known kindOf resolve"
  shows "gm_get (fst (translate lib resolve snapshot)) k = Some i \<longleftrightarrow>
    i \<in> stamped (builtInterests lib resolve snapshot) \<and> interest_id i = k"
    and "gm_wf (fst (translate lib resolve snapshot))"
proof -
  obtain flat where flat: "set flat = stamped (builtInterests lib resolve snapshot)"
    "fst (translate lib resolve snapshot) = fold (\<lambda>i. gm_set (interest_id i) i) flat []" by (rule translate_flat)
  then show "gm_get (fst (translate lib resolve snapshot)) k = Some i \<longleftrightarrow>
    i \<in> stamped (builtInterests lib resolve snapshot) \<and> interest_id i = k"
    using fold_gm_set_get [of interest_id flat "[]" k i] fold_gm_set_in [of interest_id flat i "[]"] stamped_inj [OF assms, of lib]
    by auto
  show "gm_wf (fst (translate lib resolve snapshot))" by (simp add: flat(2) fold_gm_set_wf)
qed

section \<open>The recorder as the manager uses it\<close>

text \<open>
  What a pass relies on: the recorder keeps, per scope, the targets reported started and not since
  reported stopped.
\<close>

locale scope_recorder =
  fixes recStarted :: "ScopeTransition \<Rightarrow> 'r \<Rightarrow> 'r" and recStopped :: "ScopeTransition \<Rightarrow> 'r \<Rightarrow> 'r"
    and holds :: "'r \<Rightarrow> scopeKey \<Rightarrow> string set" and rec_inv :: "'r \<Rightarrow> bool"
  assumes inv_started: "rec_inv r \<Longrightarrow> rec_inv (recStarted tr r)"
    and inv_stopped: "rec_inv r \<Longrightarrow> rec_inv (recStopped tr r)"
    and holds_started: "rec_inv r \<Longrightarrow> holds (recStarted tr r) k =
          (if k = transition_key tr then insert (tr_Target tr) (holds r k) else holds r k)"
    and holds_stopped: "rec_inv r \<Longrightarrow> holds (recStopped tr r) k =
          (if k = transition_key tr then holds r k - {tr_Target tr} else holds r k)"

text \<open>What a table installed by a pass looks like, and what the next pass removes of it.\<close>

definition table_ok :: "(GroupVersionResource \<Rightarrow> GroupVersionKind) \<Rightarrow> interestTable \<Rightarrow> bool" where
  "table_ok kindOf t \<longleftrightarrow> indexed t \<and> gm_wf (it_current t)
     \<and> (\<forall>k i. gm_get (it_current t) k = Some i \<longrightarrow> interest_id i = k \<and> interest_wf kindOf i)"

lemma table_ok_new: "table_ok kindOf newInterestTable"
  using indexed_new by (simp add: table_ok_def newInterestTable_def)

lemma table_ok_replace:
  assumes "snapshot_ok snapshot" and "kinds_known kindOf resolve"
  shows "table_ok kindOf (snd (replace (fst (translate lib resolve snapshot)) t))"
  using translate_installs [OF assms] built_wf(1) [OF assms]
  by (auto simp: table_ok_def indexed_replace stamped_def)

lemma table_ok_in:
  assumes "table_ok kindOf t" and "(k, i) \<in> set (it_current t)"
  shows "interest_id i = k" and "interest_wf kindOf i" and "gm_get (it_current t) k = Some i"
proof -
  have "gm_wf (it_current t)" using assms(1) by (simp add: table_ok_def)
  from gm_get_iff_set [OF this] show "gm_get (it_current t) k = Some i" using assms(2) by blast
  then show "interest_id i = k" "interest_wf kindOf i" using assms(1) by (simp_all add: table_ok_def)
qed

lemma removed_interests:
  assumes "table_ok kindOf t" and "set started \<subseteq> set (gm_keys (it_current t))"
  shows "\<forall>i\<in>set (fst (replace desired t)). interest_wf kindOf i"
    and "set started - interest_id ` set (fst (replace desired t)) \<subseteq> set (gm_keys desired)"
proof -
  note t = table_ok_in [OF assms(1)]
  show "\<forall>i\<in>set (fst (replace desired t)). interest_wf kindOf i" using t(2) by (auto simp: set_replace_removed)
  show "set started - interest_id ` set (fst (replace desired t)) \<subseteq> set (gm_keys desired)"
  proof
    fix k assume k: "k \<in> set started - interest_id ` set (fst (replace desired t))"
    then obtain i where i: "(k, i) \<in> set (it_current t)" using assms(2) by (auto simp: gm_keys_def)
    then have "gm_get desired k \<noteq> None" using k t(1) [OF i] by (force simp: set_replace_removed image_iff)
    then show "k \<in> set (gm_keys desired)" by (simp add: set_gm_keys)
  qed
qed

text \<open>The scope and the target string an identity stands for.\<close>

definition id_key :: "(GroupVersionResource \<Rightarrow> GroupVersionKind) \<Rightarrow> interestID \<Rightarrow> scopeKey" where
  "id_key kindOf idn = \<lparr>sk_sink = ii_sink idn, sk_scope = \<lparr>scope_group = gvk_Group (kindOf (is_GVR (ii_informer idn))),
     scope_kind = gvk_Kind (kindOf (is_GVR (ii_informer idn))), scope_namespace = is_Namespace (ii_informer idn)\<rparr>\<rparr>"

definition id_target :: "watch_lib \<Rightarrow> interestID \<Rightarrow> string" where
  "id_target lib idn = informerScope_String (wl_gvrString lib) (ii_informer idn)"

lemma transition_of_id:
  assumes "interest_wf kindOf i"
  shows "transition_key (transition lib at i) = id_key kindOf (interest_id i)"
    and "tr_Target (transition lib at i) = id_target lib (interest_id i)"
  using assms by (simp_all add: interest_wf_def transition_key_def transition_def id_key_def id_target_def interest_id_def)

lemma id_target_inj:
  assumes "inj (wl_gvrString lib)" and "id_key kindOf a = id_key kindOf b" and "id_target lib a = id_target lib b"
  shows "a = b"
proof -
  have n: "is_Namespace (ii_informer a) = is_Namespace (ii_informer b)" "ii_sink a = ii_sink b"
    using assms(2) by (simp_all add: id_key_def)
  have "wl_gvrString lib (is_GVR (ii_informer a)) = wl_gvrString lib (is_GVR (ii_informer b))"
    using assms(3) n(1) by (auto simp: id_target_def informerScope_String_def split: if_splits)
  then have "is_GVR (ii_informer a) = is_GVR (ii_informer b)" using assms(1) by (simp add: inj_eq)
  with n show ?thesis by (cases a; cases b; cases "ii_informer a"; cases "ii_informer b") simp
qed

lemma stopInterest_apply:
  "stopInterest lib recStopped evict at i (m, r, p) =
     (m\<lparr>wm_startedTargets := removeAll (interest_id i) (wm_startedTargets m)\<rparr>,
      recStopped (transition lib at i) r, evict (si_sink i) (si_scope i) p)"
  by (simp add: stopInterest_def)

lemma startInterest_apply:
  "startInterest lib recStarted at i (m, r, p) =
     (m\<lparr>wm_startedTargets := List.insert (interest_id i) (wm_startedTargets m)\<rparr>, recStarted (transition lib at i) r, p)"
  by (simp add: startInterest_def)

lemma reconcilePool_unfold:
  "reconcilePool lib recStarted recStopped evict resolve fails at snapshot (m, r, p) =
     (case fold (stopInterest lib recStopped evict at) (fst (replace (fst (translate lib resolve snapshot)) (wm_table m)))
             (m\<lparr>wm_table := snd (replace (fst (translate lib resolve snapshot)) (wm_table m))\<rparr>, r, p) of
        (m, r, p) \<Rightarrow>
          (let m = m\<lparr>wm_pool := retain lib fails (snd (translate lib resolve snapshot)) (wm_pool m)\<rparr> in
           case fold (startInterest lib recStarted at) (newlyServing m (fst (translate lib resolve snapshot))) (m, r, p) of
             (m, r, p) \<Rightarrow> (m\<lparr>wm_poolDiffs := wm_poolDiffs m + 1\<rparr>, r, p)))"
  by (simp add: reconcilePool_def Let_def case_prod_beta)

context scope_recorder
begin

definition linked :: "watch_lib \<Rightarrow> (GroupVersionResource \<Rightarrow> GroupVersionKind) \<Rightarrow> interestID list \<Rightarrow> 'r \<Rightarrow> bool" where
  "linked lib kindOf started r \<longleftrightarrow> rec_inv r \<and> (\<forall>k. holds r k = id_target lib ` {id \<in> set started. id_key kindOf id = k})"

lemma linked_start:
  assumes "linked lib kindOf started r" and "interest_wf kindOf i"
  shows "linked lib kindOf (List.insert (interest_id i) started) (recStarted (transition lib at i) r)"
  using assms transition_of_id [OF assms(2)] by (auto simp: linked_def inv_started holds_started)

lemma linked_stop:
  assumes "linked lib kindOf started r" and "interest_wf kindOf i" and "inj (wl_gvrString lib)"
  shows "linked lib kindOf (removeAll (interest_id i) started) (recStopped (transition lib at i) r)"
proof -
  let ?d = "interest_id i"
  have r: "rec_inv r" and h: "holds r k = id_target lib ` {x \<in> set started. id_key kindOf x = k}" for k
    using assms(1) by (simp_all add: linked_def)
  have "id_target lib ` {x \<in> set started. id_key kindOf x = id_key kindOf ?d} - {id_target lib ?d}
      = id_target lib ` ({x \<in> set started. id_key kindOf x = id_key kindOf ?d} - {?d})"
  proof -
    have "inj_on (id_target lib) {x. id_key kindOf x = id_key kindOf ?d}"
      by (rule inj_onI) (rule id_target_inj [OF assms(3), of kindOf], simp_all)
    from inj_on_image_set_diff [OF this, of "{x \<in> set started. id_key kindOf x = id_key kindOf ?d}" "{?d}"]
    show ?thesis by auto
  qed
  then have k: "holds r (id_key kindOf ?d) - {id_target lib ?d} = id_target lib ` {x \<in> set (removeAll ?d started). id_key kindOf x = id_key kindOf ?d}"
    unfolding h by (rule trans) (rule image_cong, auto)
  have n: "holds r k = id_target lib ` {x \<in> set (removeAll ?d started). id_key kindOf x = k}" if "k \<noteq> id_key kindOf ?d" for k
    unfolding h using that by (intro image_cong) auto
  have "holds (recStopped (transition lib at i) r) k = id_target lib ` {x \<in> set (removeAll ?d started). id_key kindOf x = k}" for k
    using k n [of k] by (cases "k = id_key kindOf ?d") (simp_all only: holds_stopped [OF r] transition_of_id [OF assms(2)] if_True if_False simp_thms)
  then show ?thesis unfolding linked_def using inv_stopped [OF r] by blast
qed

lemma linked_stops:
  assumes "linked lib kindOf (wm_startedTargets m) r" and "inj (wl_gvrString lib)" and "\<forall>i\<in>set is. interest_wf kindOf i"
  shows "\<exists>ss r' p'. fold (stopInterest lib recStopped evict at) is (m, r, p) = (m\<lparr>wm_startedTargets := ss\<rparr>, r', p')
    \<and> linked lib kindOf ss r' \<and> set ss = set (wm_startedTargets m) - interest_id ` set is"
  using assms
proof (induction "is" arbitrary: m r p)
  case Nil
  then show ?case by (intro exI [of _ "wm_startedTargets m"]) simp
next
  case (Cons i "is")
  let ?m = "m\<lparr>wm_startedTargets := removeAll (interest_id i) (wm_startedTargets m)\<rparr>"
  let ?r = "recStopped (transition lib at i) r"
  have l: "linked lib kindOf (wm_startedTargets ?m) ?r" using Cons.prems by (simp add: linked_stop)
  have wf: "\<forall>i\<in>set is. interest_wf kindOf i" using Cons.prems(3) by simp
  obtain ss r' p' where "fold (stopInterest lib recStopped evict at) is (?m, ?r, evict (si_sink i) (si_scope i) p)
      = (?m\<lparr>wm_startedTargets := ss\<rparr>, r', p')" "linked lib kindOf ss r'"
    "set ss = set (wm_startedTargets ?m) - interest_id ` set is"
    using Cons.IH [OF l Cons.prems(2) wf] by blast
  then show ?case by (intro exI [of _ ss] exI [of _ r'] exI [of _ p']) (auto simp: stopInterest_apply)
qed

lemma linked_starts:
  assumes "linked lib kindOf (wm_startedTargets m) r" and "\<forall>i\<in>set is. interest_wf kindOf i"
  shows "\<exists>ss r'. fold (startInterest lib recStarted at) is (m, r, p) = (m\<lparr>wm_startedTargets := ss\<rparr>, r', p)
    \<and> linked lib kindOf ss r' \<and> set ss = set (wm_startedTargets m) \<union> interest_id ` set is"
  using assms
proof (induction "is" arbitrary: m r)
  case Nil
  then show ?case by (intro exI [of _ "wm_startedTargets m"]) simp
next
  case (Cons i "is")
  let ?m = "m\<lparr>wm_startedTargets := List.insert (interest_id i) (wm_startedTargets m)\<rparr>"
  let ?r = "recStarted (transition lib at i) r"
  have l: "linked lib kindOf (wm_startedTargets ?m) ?r" using Cons.prems by (simp add: linked_start)
  have wf: "\<forall>i\<in>set is. interest_wf kindOf i" using Cons.prems(2) by simp
  obtain ss r' where "fold (startInterest lib recStarted at) is (?m, ?r, p) = (?m\<lparr>wm_startedTargets := ss\<rparr>, r', p)"
    "linked lib kindOf ss r'" "set ss = set (wm_startedTargets ?m) \<union> interest_id ` set is"
    using Cons.IH [OF l wf] by blast
  then show ?case by (intro exI [of _ ss] exI [of _ r']) (simp add: startInterest_apply)
qed

text \<open>The manager's own invariant, and that a pass keeps it together with the recorder's.\<close>

definition manager_ok :: "watch_lib \<Rightarrow> (GroupVersionResource \<Rightarrow> GroupVersionKind) \<Rightarrow> WatchManager \<Rightarrow> 'r \<Rightarrow> bool" where
  "manager_ok lib kindOf m r \<longleftrightarrow> table_ok kindOf (wm_table m)
     \<and> set (wm_startedTargets m) \<subseteq> set (gm_keys (it_current (wm_table m)))
     \<and> linked lib kindOf (wm_startedTargets m) r"

lemma pass_keeps_manager_ok:
  assumes ok: "manager_ok lib kindOf m r" and inj: "inj (wl_gvrString lib)"
    and snap: "snapshot_ok snapshot" "kinds_known kindOf resolve"
    and pass: "reconcilePool lib recStarted recStopped evict resolve fails at snapshot (m, r, p) = (m', r', p')"
  shows "manager_ok lib kindOf m' r'"
proof -
  define desired where "desired = fst (translate lib resolve snapshot)"
  define wanted where "wanted = snd (translate lib resolve snapshot)"
  define removed where "removed = fst (replace desired (wm_table m))"
  define table where "table = snd (replace desired (wm_table m))"
  let ?m0 = "m\<lparr>wm_table := table\<rparr>"
  have tok: "table_ok kindOf table" unfolding table_def desired_def by (rule table_ok_replace [OF snap])
  have wfr: "\<forall>i\<in>set removed. interest_wf kindOf i"
    and keep: "set (wm_startedTargets m) - interest_id ` set removed \<subseteq> set (gm_keys desired)"
    using removed_interests [of kindOf "wm_table m" "wm_startedTargets m" desired] ok
    by (simp_all add: manager_ok_def removed_def)
  have l0: "linked lib kindOf (wm_startedTargets ?m0) r" using ok by (simp add: manager_ok_def)
  obtain ss r1 p1 where st: "fold (stopInterest lib recStopped evict at) removed (?m0, r, p) = (?m0\<lparr>wm_startedTargets := ss\<rparr>, r1, p1)"
    and l1: "linked lib kindOf ss r1" and ss: "set ss = set (wm_startedTargets m) - interest_id ` set removed"
    using linked_stops [OF l0 inj wfr, of evict at p] by auto
  let ?m1 = "?m0\<lparr>wm_startedTargets := ss, wm_pool := retain lib fails wanted (wm_pool m)\<rparr>"
  have new: "set (newlyServing ?m1 desired) \<subseteq> snd ` set desired"
    by (auto simp: newlyServing_def sortInterests_def image_iff)
  have tk: "\<forall>i \<in> snd ` set desired. interest_wf kindOf i \<and> interest_id i \<in> set (gm_keys desired)"
    using table_ok_in [OF tok] by (force simp: table_def gm_keys_def)
  obtain ss' r2 where st2: "fold (startInterest lib recStarted at) (newlyServing ?m1 desired) (?m1, r1, p1) = (?m1\<lparr>wm_startedTargets := ss'\<rparr>, r2, p1)"
    and l2: "linked lib kindOf ss' r2" and ss': "set ss' = set ss \<union> interest_id ` set (newlyServing ?m1 desired)"
    using linked_starts [of lib kindOf ?m1 r1 "newlyServing ?m1 desired" at p1] l1 new tk by auto
  have "m' = ?m1\<lparr>wm_startedTargets := ss', wm_poolDiffs := wm_poolDiffs m + 1\<rparr>" "r' = r2"
    using pass [unfolded reconcilePool_unfold, folded desired_def wanted_def, folded removed_def table_def, unfolded st]
    by (simp_all add: st2)
  moreover have "set ss' \<subseteq> set (gm_keys desired)" using ss' ss keep new tk by auto
  ultimately show ?thesis using tok l2 by (simp add: manager_ok_def table_def)
qed

end

abbreviation epochStarted :: "ScopeTransition \<Rightarrow> ScopeEpochRecorder \<Rightarrow> ScopeEpochRecorder" where
  "epochStarted tr r \<equiv> snd (ScopeStarted tr r)"

abbreviation epochStopped :: "ScopeTransition \<Rightarrow> ScopeEpochRecorder \<Rightarrow> ScopeEpochRecorder" where
  "epochStopped tr r \<equiv> snd (ScopeStopped tr r)"

abbreviation heldTargets :: "ScopeEpochRecorder \<Rightarrow> scopeKey \<Rightarrow> string set" where
  "heldTargets r k \<equiv> set (slice_of (ser_active r) k)"

lemma slice_of_gm_set: "slice_of (gm_set k v m) k' = (if k' = k then v else slice_of m k')"
  by (simp add: slice_of_def)

lemma slice_of_gm_del: "slice_of (gm_del k m) k' = (if k' = k then [] else slice_of m k')"
  by (simp add: slice_of_def)

lemma epochStarted_held:
  assumes "targets_held r"
  shows "targets_held (epochStarted tr r)"
    and "heldTargets (epochStarted tr r) k =
      (if k = transition_key tr then insert (tr_Target tr) (heldTargets r k) else heldTargets r k)"
proof -
  obtain edge calls where e: "ScopeStarted tr r = ((edge, calls), epochStarted tr r)"
    by (cases "ScopeStarted tr r"; cases "fst (ScopeStarted tr r)") simp
  note c = ScopeStarted_cases(2) [OF e assms]
  show "targets_held (epochStarted tr r)" using assms by (auto simp: targets_held_def c Let_def)
  show "heldTargets (epochStarted tr r) k =
      (if k = transition_key tr then insert (tr_Target tr) (heldTargets r k) else heldTargets r k)"
    by (auto simp: c Let_def slice_of_gm_set)
qed

lemma epochStopped_held:
  assumes "targets_held r"
  shows "targets_held (epochStopped tr r)"
    and "heldTargets (epochStopped tr r) k =
      (if k = transition_key tr then heldTargets r k - {tr_Target tr} else heldTargets r k)"
proof -
  obtain edge calls where e: "ScopeStopped tr r = ((edge, calls), epochStopped tr r)"
    by (cases "ScopeStopped tr r"; cases "fst (ScopeStopped tr r)") simp
  note c = ScopeStopped_cases(1,2) [OF e assms]
  show "targets_held (epochStopped tr r)"
    using assms c(1) unfolding targets_held_def c(2) by (auto split: if_splits)
  show "heldTargets (epochStopped tr r) k =
      (if k = transition_key tr then heldTargets r k - {tr_Target tr} else heldTargets r k)"
  proof (cases "k = transition_key tr")
    case True
    have "set (removeAll (tr_Target tr) (slice_of (ser_active r) k)) = heldTargets r k - {tr_Target tr}" by simp
    then show ?thesis using True c(1) unfolding c(2)
      by (cases edge; cases "tr_Target tr \<in> heldTargets r k") (simp_all only: slice_of_gm_set slice_of_gm_del simp_thms if_True if_False list.set Diff_insert0 Diff_empty)
  next
    case False
    then show ?thesis unfolding c(2) by (simp add: slice_of_gm_set slice_of_gm_del)
  qed
qed

interpretation er: scope_recorder epochStarted epochStopped heldTargets targets_held
  by unfold_locales (simp_all only: epochStarted_held epochStopped_held)

section \<open>Passes over time\<close>

text \<open>
  The states the watch loop goes through: passes over any snapshots, with any informers failing to
  start, and flushes and pipeline work in between.
\<close>

inductive watch_reachable ::
    "watch_lib \<Rightarrow> (GroupVersionResource \<Rightarrow> GroupVersionKind) \<Rightarrow> (sink_id \<Rightarrow> ScopeKey \<Rightarrow> 'p \<Rightarrow> 'p)
     \<Rightarrow> WatchManager \<times> ScopeEpochRecorder \<times> 'p \<Rightarrow> bool" for lib kindOf evict where
  watch_boot: "NewScopeEpochRecorder opts = Some r \<Longrightarrow> watch_reachable lib kindOf evict (newWatchManager, r, p)"
| watch_pass: "watch_reachable lib kindOf evict st \<Longrightarrow> snapshot_ok snapshot \<Longrightarrow> kinds_known kindOf resolve \<Longrightarrow>
    watch_reachable lib kindOf evict (reconcilePool lib epochStarted epochStopped evict resolve fails at snapshot st)"
| watch_flush: "watch_reachable lib kindOf evict (m, r, p) \<Longrightarrow> watch_reachable lib kindOf evict (m, snd (flush answers r), p)"
| watch_other: "watch_reachable lib kindOf evict (m, r, p) \<Longrightarrow> watch_reachable lib kindOf evict (markSettled m, r, p')"

lemma flushLoop_active: "ser_active (snd (flushLoop answers r)) = ser_active r"
  by (induction answers r rule: flushLoop.induct)
    (auto simp: flushPop_def case_prod_beta split: option.splits handOff.splits list.splits)

lemma flush_active [simp]: "ser_active (snd (flush answers r)) = ser_active r"
  by (simp add: flush_def flushLoop_active reportDrops_def)

lemma manager_ok_cong:
  assumes "er.manager_ok lib kindOf m r" and "wm_table m' = wm_table m" and "wm_startedTargets m' = wm_startedTargets m"
    and "ser_active r' = ser_active r"
  shows "er.manager_ok lib kindOf m' r'"
proof -
  have "targets_held r' = targets_held r" using assms(4) by (simp add: targets_held_def)
  then show ?thesis using assms by (simp add: er.manager_ok_def er.linked_def)
qed

lemma watch_reachable_ok:
  assumes "watch_reachable lib kindOf evict st" and "inj (wl_gvrString lib)"
  shows "er.manager_ok lib kindOf (fst st) (fst (snd st))"
  using assms
proof (induction rule: watch_reachable.induct)
  case (watch_boot opts r p)
  then have a: "ser_active r = []" by (auto simp: NewScopeEpochRecorder_def split: if_splits)
  then have "targets_held r" by (simp add: targets_held_def)
  with a show ?case by (simp add: er.manager_ok_def er.linked_def newWatchManager_def table_ok_new)
next
  case (watch_pass st snapshot resolve fails at)
  obtain m r p where st: "st = (m, r, p)" by (metis prod.exhaust)
  obtain m' r' p' where p: "reconcilePool lib epochStarted epochStopped evict resolve fails at snapshot (m, r, p) = (m', r', p')"
    by (metis prod.exhaust)
  have "er.manager_ok lib kindOf m r" using watch_pass st by simp
  from er.pass_keeps_manager_ok [OF this assms(2) watch_pass(2,3) p] show ?case by (simp add: st p)
next
  case (watch_flush m r p answers)
  then show ?case by (simp add: manager_ok_cong)
next
  case (watch_other m r p p')
  then show ?case using manager_ok_cong by (simp add: markSettled_def)
qed

lemma id_key_identity:
  assumes "interest_wf kindOf i"
  shows "id_key kindOf (interest_id i) = \<lparr>sk_sink = sid, sk_scope = scope\<rparr> \<longleftrightarrow> si_sink i = sid \<and> interest_identity i =
    \<lparr>idk_Group = scope_group scope, idk_Kind = scope_kind scope, idk_Namespace = scope_namespace scope, idk_Sink = sid\<rparr>"
proof -
  have g: "kindOf (is_GVR (ik_scope (si_informer i))) = si_gvk i" using assms by (simp add: interest_wf_def)
  show ?thesis by (cases scope) (simp add: id_key_def interest_identity_def interest_id_def g conj_ac)
qed

text \<open>
  C17: The scope log's epochs follow the watches. After any passes, an epoch is open for a sink and a
  scope exactly while the interest table holds an interest for that sink and scope that has been
  reported as served: two rules on a scope, two versions of a resource, a changed selector or a
  pushed-down filter neither open it twice nor close it early, and an informer that never started
  leaves it closed. (The REST mapper names one kind per resource; distinct resources have distinct
  texts.)
\<close>

theorem epochs_follow_interests:
  assumes "watch_reachable lib kindOf evict (m, r, p)" and "inj (wl_gvrString lib)"
  shows "gm_get (ser_active r) \<lparr>sk_sink = sid, sk_scope = scope\<rparr> \<noteq> None \<longleftrightarrow>
    list_ex (\<lambda>i. interest_id i \<in> set (wm_startedTargets m)) (interestsForScope sid scope (wm_table m))"
proof -
  have ok: "er.manager_ok lib kindOf m r" using watch_reachable_ok [OF assms] by simp
  let ?k = "\<lparr>sk_sink = sid, sk_scope = scope\<rparr>"
  have t: "table_ok kindOf (wm_table m)" and sub: "set (wm_startedTargets m) \<subseteq> set (gm_keys (it_current (wm_table m)))"
    and h: "heldTargets r ?k = id_target lib ` {x \<in> set (wm_startedTargets m). id_key kindOf x = ?k}" and th: "targets_held r"
    using ok by (simp_all add: er.manager_ok_def er.linked_def)
  have ind: "indexed (wm_table m)" using t by (simp add: table_ok_def)
  have key: "id_key kindOf (interest_id i) = ?k \<longleftrightarrow> i \<in> set (interestsForScope sid scope (wm_table m))"
    if "(d, i) \<in> set (it_current (wm_table m))" for d i
  proof -
    have i: "i \<in> set (map snd (it_current (wm_table m)))" using that by force
    have "id_key kindOf (interest_id i) = ?k \<longleftrightarrow> si_sink i = sid \<and> interest_identity i =
        \<lparr>idk_Group = scope_group scope, idk_Kind = scope_kind scope, idk_Namespace = scope_namespace scope, idk_Sink = sid\<rparr>"
      using id_key_identity [OF table_ok_in(2) [OF t that]] .
    then show ?thesis unfolding interestsForScope_set [OF ind] mem_Collect_eq using i by blast
  qed
  have "gm_get (ser_active r) ?k \<noteq> None \<longleftrightarrow> {x \<in> set (wm_startedTargets m). id_key kindOf x = ?k} \<noteq> {}"
  proof -
    have "gm_get (ser_active r) ?k \<noteq> None \<longleftrightarrow> heldTargets r ?k \<noteq> {}"
      unfolding set_empty targets_held_slice [OF th, of ?k] ..
    then show ?thesis unfolding h image_is_empty .
  qed
  also have "\<dots> \<longleftrightarrow> (\<exists>i\<in>set (interestsForScope sid scope (wm_table m)). interest_id i \<in> set (wm_startedTargets m))"
  proof
    assume "{x \<in> set (wm_startedTargets m). id_key kindOf x = ?k} \<noteq> {}"
    then obtain x i where x: "x \<in> set (wm_startedTargets m)" "id_key kindOf x = ?k" "(x, i) \<in> set (it_current (wm_table m))"
      using sub by (force simp: gm_keys_def)
    then show "\<exists>i\<in>set (interestsForScope sid scope (wm_table m)). interest_id i \<in> set (wm_startedTargets m)"
      using key [OF x(3)] table_ok_in(1) [OF t x(3)] by auto
  next
    assume "\<exists>i\<in>set (interestsForScope sid scope (wm_table m)). interest_id i \<in> set (wm_startedTargets m)"
    then obtain i where i: "i \<in> set (interestsForScope sid scope (wm_table m))" "interest_id i \<in> set (wm_startedTargets m)"
      by blast
    moreover from i(1) obtain d where d: "(d, i) \<in> set (it_current (wm_table m))"
      unfolding interestsForScope_set [OF ind] by auto
    ultimately show "{x \<in> set (wm_startedTargets m). id_key kindOf x = ?k} \<noteq> {}" using key [OF d] by auto
  qed
  finally show ?thesis by (simp add: list_ex_iff)
qed

section \<open>The redaction policy handed to the pipeline\<close>

lemma stops_table: "wm_table (fst (fold (stopInterest lib recStopped evict at) is st)) = wm_table (fst st)"
  by (induction "is" arbitrary: st) (auto simp: stopInterest_def case_prod_beta)

lemma starts_table: "wm_table (fst (fold (startInterest lib recStarted at) is st)) = wm_table (fst st)"
  by (induction "is" arbitrary: st) (auto simp: startInterest_def case_prod_beta)

lemma pass_table:
  "wm_table (fst (reconcilePool lib recStarted recStopped evict resolve fails at snapshot st)) =
     snd (replace (fst (translate lib resolve snapshot)) (wm_table (fst st)))"
proof -
  obtain m r p where st: "st = (m, r, p)" by (metis prod.exhaust)
  show ?thesis unfolding st reconcilePool_unfold Let_def case_prod_beta
    by (simp add: stops_table starts_table)
qed

definition compiled_policy :: "RedactionPolicy option \<Rightarrow> bool" where
  "compiled_policy p \<longleftrightarrow> (case p of None \<Rightarrow> True | Some pol \<Rightarrow> (\<exists>paths. CompileRedaction paths = Inr pol))"

lemma newScopeInterest_compiled: "newScopeInterest lib state scope = Inr i \<Longrightarrow> compiled_policy (si_redaction i)"
  using newScopeInterest_ok(7) [of lib state scope i] by (auto simp: compiled_policy_def split: if_splits)

lemma stamped_compiled: "i \<in> stamped (builtInterests lib resolve snapshot) \<Longrightarrow> compiled_policy (si_redaction i)"
  by (auto simp: stamped_def stampInformer_def builtInterests_in elim!: translateTarget_ok dest: newScopeInterest_compiled)

lemma parse_path_raw: "parseRedactionPath raw = Inr q \<Longrightarrow> path_raw q = raw"
  by (auto simp: parseRedactionPath_def split: if_splits sum.splits)

lemma compiled_path:
  assumes "compiled_policy (Some pol)" and "q \<in> set (policy_paths pol)"
  shows "parseRedactionPath (path_raw q) = Inr q"
proof -
  obtain paths where "CompileRedaction paths = Inr pol" using assms(1) by (auto simp: compiled_policy_def)
  from CompileRedaction_spec(1) [OF this] show ?thesis using assms(2) parse_path_raw by fastforce
qed

lemma MergeRedaction_keeps:
  assumes "\<forall>p\<in>set ps. compiled_policy p" and "Some pol \<in> set ps" and "q \<in> set (policy_paths pol)"
  shows "\<exists>m. MergeRedaction ps = Some m \<and> q \<in> set (policy_paths m)"
proof -
  define all where "all = concat (map (\<lambda>p. case p of None \<Rightarrow> [] | Some q \<Rightarrow> policy_paths q) ps)"
  have q: "q \<in> set all" using assms(2,3) by (force simp: all_def)
  have uniq: "x = q" if "x \<in> set all" "path_raw x = path_raw q" for x
  proof -
    from that(1) obtain pol' where pol': "Some pol' \<in> set ps" "x \<in> set (policy_paths pol')" by (auto simp: all_def split: option.splits)
    from compiled_path [OF bspec [OF assms(1) pol'(1)] pol'(2)] compiled_path [OF bspec [OF assms(1,2)] assms(3)]
    show ?thesis unfolding that(2) by simp
  qed
  note m = mergeLoop_spec [of "[]" "[]" all]
  have "path_raw q \<in> path_raw ` set (mergeLoop [] [] all)" using m q by auto
  then obtain x where x: "x \<in> set (mergeLoop [] [] all)" "path_raw x = path_raw q" by auto
  then have "x = q" using m uniq by auto
  then show ?thesis using x(1) unfolding MergeRedaction_def Let_def all_def [symmetric] by auto
qed

lemma RedactionFor_covers:
  assumes "indexed (wm_table m)" and "\<forall>i\<in>set (map snd (it_current (wm_table m))). compiled_policy (si_redaction i)"
    and "i \<in> set (map snd (it_current (wm_table m)))" and "answers_for i ref"
    and "si_redaction i = Some pol" and "q \<in> set (policy_paths pol)"
  shows "\<exists>pol'. RedactionFor ref m = Some (Some pol') \<and> q \<in> set (policy_paths pol')"
proof -
  have s: "set (lookupIdentity ref (wm_table m)) = {i \<in> set (map snd (it_current (wm_table m))). answers_for i ref}"
    by (rule lookupIdentity_set [OF assms(1)])
  then have i: "i \<in> set (lookupIdentity ref (wm_table m))" using assms(3,4) by simp
  have c: "\<forall>p\<in>set (map si_redaction (lookupIdentity ref (wm_table m))). compiled_policy p" using s assms(2) by auto
  have "Some pol \<in> set (map si_redaction (lookupIdentity ref (wm_table m)))" using i assms(5) by force
  from MergeRedaction_keeps [OF c this assms(6)] obtain pol' where
    "MergeRedaction (map si_redaction (lookupIdentity ref (wm_table m))) = Some pol'" "q \<in> set (policy_paths pol')" by blast
  then show ?thesis
    using i assms(5,6) by (cases "lookupIdentity ref (wm_table m)" rule: remdups_adj.cases) (auto simp: RedactionFor_def)
qed

text \<open>
  No rule's redaction is lost on the way to the pipeline. If a rule in the registry asks for a
  path to be scrubbed on a target, and a pass over the registry's snapshot serves that target, then
  for every object the target covers (same sink, group and kind; the target's namespace, or any
  namespace when it is cluster-wide) the policy the pipeline is given contains that path, whatever
  other rules, versions or scopes cover the object too.
\<close>

theorem redaction_reaches_pipeline:
  assumes "registered parse reg" and "gm_get (reg_rules reg) rule = Some targets" and "t \<in> set targets"
    and "path \<in> set (split_on (CHR 0x0A) (wtg_Redaction t))" and "path \<noteq> []"
    and "kinds_known kindOf resolve"
    and "\<exists>state served. gm_get (Snapshot reg) (WatchTarget_Key t) = Some state
      \<and> translateTarget lib resolve (WatchTarget_Key t, state) = Some served"
    and "key_sink ref = wtg_Sink t" and "key_group ref = gvk_Group (wtg_GVK t)" and "key_kind ref = gvk_Kind (wtg_GVK t)"
    and "wtg_Namespace t = key_namespace ref \<or> wtg_Namespace t = []"
  shows "\<exists>pol q. RedactionFor ref (fst (reconcilePool lib recStarted recStopped evict resolve fails at (Snapshot reg) st)) = Some (Some pol)
    \<and> parseRedactionPath path = Inr q \<and> q \<in> set (policy_paths pol)"
proof -
  let ?m = "fst (reconcilePool lib recStarted recStopped evict resolve fails at (Snapshot reg) st)"
  let ?built = "builtInterests lib resolve (Snapshot reg)"
  have rok: "registry_ok reg" using assms(1) by (rule registered_ok)
  have sok: "snapshot_ok (Snapshot reg)" using Snapshot_keys [OF rok] by (simp add: snapshot_ok_def)
  obtain state scope i where state: "gm_get (Snapshot reg) (WatchTarget_Key t) = Some state"
    and tr: "translateTarget lib resolve (WatchTarget_Key t, state) = Some (scope, i)" using assms(7) by (metis prod.exhaust)
  have "wtg_Redaction t \<noteq> []" using assms(4,5) by auto
  then have red: "wtg_Redaction t \<in> set (ts_Redactions state)" using Snapshot_contribution [OF rok assms(2,3)] state by auto
  obtain gvr n where sc: "resolve (WatchTarget_Key t) = Some (gvr, n)" "scope = \<lparr>is_GVR = gvr, is_Namespace = tk_Namespace (WatchTarget_Key t)\<rparr>"
    and new: "newScopeInterest lib state scope = Inr i" by (rule translateTarget_ok [OF tr])
  obtain pol q where q: "si_redaction i = Some pol" "parseRedactionPath path = Inr q" "q \<in> set (policy_paths pol)"
    using interest_redacts [OF new red assms(4,5)] by blast
  define x where "x = stampInformer (informerServing ?built scope) i"
  have "(scope, i) \<in> set ?built" using builtInterests_in gm_get_in_set [OF state] tr by blast
  then have x: "x \<in> stamped ?built" by (force simp: x_def stamped_def)
  have table: "it_current (wm_table ?m) = fst (translate lib resolve (Snapshot reg))" "indexed (wm_table ?m)"
    by (simp_all add: pass_table indexed_replace)
  note inst = translate_installs [OF sok assms(6), of lib]
  have cur: "y \<in> set (map snd (it_current (wm_table ?m))) \<longleftrightarrow> y \<in> stamped ?built" for y
    using inst(1) [of _ y] gm_get_iff_set [OF inst(2)] unfolding table(1) by (auto simp: image_iff) force
  have key: "ts_Key state = WatchTarget_Key t" using sok gm_get_in_set [OF state] by (auto simp: snapshot_ok_def)
  have "answers_for x ref"
    using newScopeInterest_ok(2,3) [OF new] key assms(8-11) sc(2)
    by (auto simp: answers_for_def x_def stampInformer_def informerServing_def WatchTarget_Key_def)
  moreover have "\<forall>y\<in>set (map snd (it_current (wm_table ?m))). compiled_policy (si_redaction y)" using cur stamped_compiled by blast
  moreover have "si_redaction x = Some pol" using q(1) by (simp add: x_def stampInformer_def)
  ultimately show ?thesis using RedactionFor_covers [OF table(2)] x cur q(2,3) by blast
qed

section \<open>Informers, narrowed and shared\<close>

lemma agreedFieldSelector_agrees:
  "i \<in> set is \<Longrightarrow> agreedFieldSelector is = [] \<or> agreedFieldSelector is = si_fieldSelector i"
  by (auto simp: agreedFieldSelector_def Let_def list_ex_iff split: list.splits if_splits)

lemma stamped_informer:
  assumes "x \<in> stamped built"
  shows "si_informer x = informerServing built (ik_scope (si_informer x))"
    and "ik_FieldSelector (si_informer x) = [] \<or> ik_FieldSelector (si_informer x) = si_fieldSelector x"
proof -
  obtain s i where i: "(s, i) \<in> set built" "x = stampInformer (informerServing built s) i" using assms by (auto simp: stamped_def)
  then show "si_informer x = informerServing built (ik_scope (si_informer x))"
    by (simp add: stampInformer_def informerServing_def)
  have "i \<in> set (interestsOn s built)" using i(1) by (force simp: interestsOn_def)
  from agreedFieldSelector_agrees [OF this]
  show "ik_FieldSelector (si_informer x) = [] \<or> ik_FieldSelector (si_informer x) = si_fieldSelector x"
    by (simp add: i(2) stampInformer_def informerServing_def)
qed

text \<open>One informer per resource and namespace: interests on one scope share one, whatever their sinks and filters.\<close>

lemma informers_shared:
  assumes "x \<in> stamped built" and "y \<in> stamped built" and "ik_scope (si_informer x) = ik_scope (si_informer y)"
  shows "si_informer x = si_informer y"
  using stamped_informer(1) [OF assms(1)] stamped_informer(1) [OF assms(2)] assms(3) by simp

definition canonical_filters :: "Registry \<Rightarrow> bool" where
  "canonical_filters reg \<longleftrightarrow> (\<forall>rule targets. gm_get (reg_rules reg) rule = Some targets \<longrightarrow>
     list_all (\<lambda>t. wtg_EventFilter t \<in> range CanonicalEventFilter) targets)"

lemma range_list: "set xs \<subseteq> range f \<Longrightarrow> \<exists>ys. xs = map f ys"
  by (induction xs) (auto, metis list.simps(9))

lemma Snapshot_filters:
  assumes "registry_ok reg" and "canonical_filters reg" and "gm_get (Snapshot reg) key = Some state"
  shows "\<exists>specs. ts_EventFilters state = map CanonicalEventFilter specs"
proof -
  have "set (ts_EventFilters state) \<subseteq> wtg_EventFilter ` snd ` set (wanted_at (reg_rules reg) key)"
    using assms(3) unfolding Snapshot_merged [OF assms(1)] merged_def Let_def
    by (auto simp: image_image intro: rev_image_eqI split: if_splits)
  also have "\<dots> \<subseteq> range CanonicalEventFilter"
  proof -
    have "gm_wf (reg_rules reg)" using assms(1) by (simp add: registry_ok_def)
    then show ?thesis using assms(2) gm_get_iff_set [of "reg_rules reg"]
      by (fastforce simp: wanted_at_def canonical_filters_def list_all_iff)
  qed
  finally show ?thesis by (rule range_list)
qed

text \<open>
  An informer narrowed at the API server hides no Event a rule asked for. For every interest a
  pass over the registry installs, an Event the interest records is one the server returns under the
  field selector the interest's shared informer runs with, whatever other interests share it. (The
  filters in the registry are canonical; the server answers a selector as the API documents it and
  reads the labels as the handler does.)
\<close>

theorem narrowed_informer_hides_nothing:
  assumes "registered parse reg" and "canonical_filters reg" and "kinds_known kindOf resolve"
    and "\<forall>obj. selects [] obj"
    and "\<forall>terms obj. terms \<noteq> [] \<longrightarrow> selects (wl_renderFields lib terms) obj = list_all (termHolds fieldOf obj) terms"
    and "(k, i) \<in> set (it_current (wm_table (fst (reconcilePool lib recStarted recStopped evict resolve fails at (Snapshot reg) st))))"
    and "labelsRead fieldOf (gvr_GroupResource (is_GVR (ik_scope (si_informer i)))) obj" and "matchesEvent i obj"
  shows "selects (ik_FieldSelector (si_informer i)) obj"
proof -
  let ?built = "builtInterests lib resolve (Snapshot reg)"
  have rok: "registry_ok reg" using assms(1) by (rule registered_ok)
  have sok: "snapshot_ok (Snapshot reg)" using Snapshot_keys [OF rok] by (simp add: snapshot_ok_def)
  note inst = translate_installs [OF sok assms(3), of lib]
  have "(k, i) \<in> set (fst (translate lib resolve (Snapshot reg)))" using assms(6) by (simp add: pass_table)
  then have "gm_get (fst (translate lib resolve (Snapshot reg))) k = Some i" using gm_get_iff_set [OF inst(2)] by blast
  then have i: "i \<in> stamped ?built" using inst(1) by blast
  then obtain s j where j: "(s, j) \<in> set ?built" "i = stampInformer (informerServing ?built s) j" by (auto simp: stamped_def)
  have s: "ik_scope (si_informer i) = s" by (simp add: j(2) stampInformer_def informerServing_def)
  obtain key state where ks: "(key, state) \<in> set (Snapshot reg)" "translateTarget lib resolve (key, state) = Some (s, j)"
    using builtInterests_in j(1) by blast
  obtain gvr n where new: "newScopeInterest lib state s = Inr j" by (rule translateTarget_ok [OF ks(2)])
  have "gm_get (Snapshot reg) key = Some state"
    using ks(1) gm_get_iff_set [OF Snapshot_keys(1) [OF rok]] by simp
  then obtain specs where "ts_EventFilters state = map CanonicalEventFilter specs" using Snapshot_filters [OF rok assms(2)] by blast
  then obtain m where m: "compileEventFilters (wl_renderFields lib) (gvr_GroupResource (is_GVR s)) (map CanonicalEventFilter specs) = Some m"
    and e: "si_events i = Some m" "si_fieldSelector i = em_fieldSelector m"
    using newScopeInterest_ok(6) [OF new] by (auto simp: j(2) stampInformer_def)
  have "selects (em_fieldSelector m) obj"
    using accepted_is_selected [OF m assms(4,5)] assms(7,8) s e(1) by (simp add: matchesEvent_def)
  then show ?thesis using stamped_informer(2) [OF i] e(2) assms(4) by auto
qed

section \<open>Fan-out\<close>

text \<open>
  An event reaches exactly the sinks whose interest on its informer covers it: by its labels now or
  before the update, or because a lost tombstone leaves nothing to judge by.
\<close>

lemma fanOut_exact:
  assumes "indexed t" and "eventTargetOf lib obj = Some target"
  shows "set (fanOut lib t entry obj previous) = (\<lambda>i. keyFor i (et_namespace target) (et_name target)) `
    {i \<in> set (map snd (it_current t)). si_informer i = ie_key entry
      \<and> (si_matchAll i \<or> et_obj target = None
          \<or> matchesEither (wl_labels lib) i (labelsOf lib target) (previousLabelsOf lib previous))
      \<and> (recordsEveryEvent i \<or> et_obj target = None \<or> (\<exists>u. et_obj target = Some u \<and> matchesEvent i u))}"
proof -
  have s: "set (interestsFor (ie_key entry) t) = {i \<in> set (map snd (it_current t)). si_informer i = ie_key entry}"
    using assms(1) by (auto simp: indexed_def)
  have p: "(if \<not> si_matchAll i \<and> labelsKnown target \<and> \<not> M then False
       else if \<not> recordsEveryEvent i \<and> (case et_obj target of None \<Rightarrow> False | Some u \<Rightarrow> \<not> matchesEvent i u) then False else True)
    \<longleftrightarrow> (si_matchAll i \<or> et_obj target = None \<or> M)
      \<and> (recordsEveryEvent i \<or> et_obj target = None \<or> (\<exists>u. et_obj target = Some u \<and> matchesEvent i u))" for i M
    by (cases "et_obj target") (simp_all add: labelsKnown_def)
  show ?thesis unfolding fanOut_def assms(2) option.case p set_map set_filter s by (rule image_cong) blast+
qed

section \<open>Witnesses\<close>

text \<open>A library whose resource texts are JSON arrays, a resolver that names the resource after the kind, and one rule.\<close>

definition sampleGVRString :: "GroupVersionResource \<Rightarrow> string" where
  "sampleGVRString g = the (json_marshal (JArr [JStr (gvr_Group g), JStr (gvr_Version g), JStr (gvr_Resource g)]))"

lemma sampleGVRString_inj: "inj sampleGVRString"
proof (rule injI)
  fix x y assume e: "sampleGVRString x = sampleGVRString y"
  have "json_unmarshal (sampleGVRString g) = Some (JArr [JStr (gvr_Group g), JStr (gvr_Version g), JStr (gvr_Resource g)])" for g
    unfolding sampleGVRString_def by (rule unmarshal_marshal) simp_all
  from this [of x] this [of y] e show "x = y" by simp
qed

definition sampleLib :: watch_lib where
  "sampleLib = \<lparr>wl_labels = \<lparr>ll_Parse = Some, ll_Matches = (\<lambda>_ _. True)\<rparr>, wl_renderFields = renderJson,
     wl_gvrString = sampleGVRString, wl_GetNamespace = (\<lambda>_. []), wl_GetName = (\<lambda>_. []), wl_GetLabels = (\<lambda>_. None),
     wl_SplitMetaNamespaceKey = (\<lambda>_. None)\<rparr>"

definition sampleKindOf :: "GroupVersionResource \<Rightarrow> GroupVersionKind" where
  "sampleKindOf g = \<lparr>gvk_Group = gvr_Group g, gvk_Version = gvr_Version g, gvk_Kind = gvr_Resource g\<rparr>"

definition sampleResolve :: resolver_answers where
  "sampleResolve key = Some (\<lparr>gvr_Group = gvk_Group (tk_GVK key), gvr_Version = gvk_Version (tk_GVK key),
     gvr_Resource = gvk_Kind (tk_GVK key)\<rparr>, True)"

lemma sample_kinds_known: "kinds_known sampleKindOf sampleResolve"
  by (simp add: kinds_known_def sampleKindOf_def sampleResolve_def)

definition redactingTarget :: WatchTarget where
  "redactingTarget = sample_target [] ''data.password''"

definition redactingRegistry :: Registry where
  "redactingRegistry = snd (Upsert Some ''r1'' [redactingTarget] Registry_New)"

lemma redactingRegistry_registered: "registered Some redactingRegistry"
  unfolding redactingRegistry_def by (intro registered.intros)

lemma redactingRegistry_rules: "reg_rules redactingRegistry = [(''r1'', [redactingTarget])]"
  by (simp add: redactingRegistry_def Upsert_def Registry_New_def canonicalizeSelectorString_def
      currentSet_def notifyLocked_def Let_def gm_get_def gm_set_def redactingTarget_def sample_target_def)

lemma redactingRegistry_state:
  "gm_get (Snapshot redactingRegistry) (WatchTarget_Key redactingTarget) =
     Some \<lparr>ts_Key = WatchTarget_Key redactingTarget, ts_RuleKeys = [''r1''], ts_Selectors = [[]],
           ts_Redactions = [''data.password''], ts_EventFilters = [[]]\<rparr>"
  unfolding Snapshot_merged [OF registered_ok [OF redactingRegistry_registered]] redactingRegistry_rules
  by (simp add: merged_def wanted_at_def sorted_set_def redactingTarget_def sample_target_def)

lemma redactingTarget_served:
  "\<exists>state served. gm_get (Snapshot redactingRegistry) (WatchTarget_Key redactingTarget) = Some state
     \<and> translateTarget sampleLib sampleResolve (WatchTarget_Key redactingTarget, state) = Some served"
proof -
  have "redactionPaths [''data.password''] = [''data.password'']" by (simp add: redactionPaths_def)
  moreover obtain pol where "CompileRedaction [''data.password''] = Inr pol" using sample_compiles by blast
  ultimately show ?thesis
    unfolding redactingRegistry_state
    by (simp add: translateTarget_def sampleResolve_def Let_def newScopeInterest_def sampleLib_def compileEventFilters_def)
qed

definition sampleRecorder :: ScopeEpochRecorder where
  "sampleRecorder = the (NewScopeEpochRecorder sample_options)"

definition samplePass :: "WatchManager \<times> ScopeEpochRecorder \<times> nat" where
  "samplePass = reconcilePool sampleLib epochStarted epochStopped (\<lambda>_ _ p. p) sampleResolve (\<lambda>_. False) 10
     (Snapshot redactingRegistry) (newWatchManager, sampleRecorder, 0)"

lemma samplePass_reachable: "watch_reachable sampleLib sampleKindOf (\<lambda>_ _ p. p) samplePass"
proof -
  have "NewScopeEpochRecorder sample_options = Some sampleRecorder"
    by (simp add: sampleRecorder_def NewScopeEpochRecorder_def sample_options_def)
  moreover have "snapshot_ok (Snapshot redactingRegistry)"
    using Snapshot_keys [OF registered_ok [OF redactingRegistry_registered]] by (simp add: snapshot_ok_def)
  ultimately show ?thesis
    unfolding samplePass_def by (intro watch_reachable.intros) (simp_all add: sample_kinds_known)
qed

theorem epochs_follow_interests_witness:
  "gm_get (ser_active (fst (snd samplePass))) \<lparr>sk_sink = SinkID ''S3Sink'' ''a'',
      sk_scope = \<lparr>scope_group = [], scope_kind = ''Pod'', scope_namespace = ''ns''\<rparr>\<rparr> \<noteq> None \<longleftrightarrow>
   list_ex (\<lambda>i. interest_id i \<in> set (wm_startedTargets (fst samplePass)))
     (interestsForScope (SinkID ''S3Sink'' ''a'') \<lparr>scope_group = [], scope_kind = ''Pod'', scope_namespace = ''ns''\<rparr>
        (wm_table (fst samplePass)))"
proof -
  have "watch_reachable sampleLib sampleKindOf (\<lambda>_ _ p. p) (fst samplePass, fst (snd samplePass), snd (snd samplePass))"
    using samplePass_reachable by simp
  moreover have "inj (wl_gvrString sampleLib)" by (simp add: sampleLib_def sampleGVRString_inj)
  ultimately show ?thesis by (rule epochs_follow_interests)
qed

theorem redaction_reaches_pipeline_witness:
  "\<exists>pol q. RedactionFor \<lparr>key_sink = SinkID ''S3Sink'' ''a'', key_group = [], key_kind = ''Pod'', key_namespace = ''ns'', key_name = ''web''\<rparr>
      (fst samplePass) = Some (Some pol)
    \<and> parseRedactionPath ''data.password'' = Inr q \<and> q \<in> set (policy_paths pol)"
  unfolding samplePass_def
proof (rule redaction_reaches_pipeline [OF redactingRegistry_registered _ _ _ _ sample_kinds_known redactingTarget_served])
  show "gm_get (reg_rules redactingRegistry) ''r1'' = Some [redactingTarget]" by (simp add: redactingRegistry_rules gm_get_def)
qed (simp_all add: redactingTarget_def sample_target_def)

lemma sample_canonical: "canonical_filters redactingRegistry"
proof -
  have "CanonicalEventFilter \<lparr>efs_Types = [], efs_Reasons = [], efs_ExcludeReasons = [], efs_SourceComponents = [],
      efs_SubjectKinds = [], efs_SubjectNames = []\<rparr> = []"
    by (simp add: CanonicalEventFilter_def canonicalSpec_def canonicalEventFilterList_def constrainsNothing_def sorted_set_def)
  then have "[] \<in> range CanonicalEventFilter" by (metis rangeI)
  then show ?thesis
    by (simp add: canonical_filters_def redactingRegistry_rules gm_get_def redactingTarget_def sample_target_def)
qed

theorem narrowed_informer_hides_nothing_witness:
  "\<exists>k i. (k, i) \<in> set (it_current (wm_table (fst samplePass))) \<and> selectsJson (ik_FieldSelector (si_informer i)) webEvent"
proof -
  define st where "st = the (gm_get (Snapshot redactingRegistry) (WatchTarget_Key redactingTarget))"
  have g: "gm_get (Snapshot redactingRegistry) (WatchTarget_Key redactingTarget) = Some st" by (simp add: st_def redactingRegistry_state)
  obtain s j where tr: "translateTarget sampleLib sampleResolve (WatchTarget_Key redactingTarget, st) = Some (s, j)"
    using redactingTarget_served g by (metis option.inject prod.exhaust)
  obtain gvr n where s: "sampleResolve (WatchTarget_Key redactingTarget) = Some (gvr, n)"
      "s = \<lparr>is_GVR = gvr, is_Namespace = tk_Namespace (WatchTarget_Key redactingTarget)\<rparr>"
    and new: "newScopeInterest sampleLib st s = Inr j" by (rule translateTarget_ok [OF tr])
  define built where "built = builtInterests sampleLib sampleResolve (Snapshot redactingRegistry)"
  have "(WatchTarget_Key redactingTarget, st) \<in> set (Snapshot redactingRegistry)" by (rule gm_get_in_set [OF g])
  then have "(s, j) \<in> set built" unfolding built_def builtInterests_in using tr by blast
  then obtain x where x: "x \<in> stamped built" "x = stampInformer (informerServing built s) j" by (force simp: stamped_def)
  have sok: "snapshot_ok (Snapshot redactingRegistry)"
    using Snapshot_keys [OF registered_ok [OF redactingRegistry_registered]] by (simp add: snapshot_ok_def)
  have k: "(interest_id x, x) \<in> set (it_current (wm_table (fst samplePass)))"
    using translate_installs(1) [OF sok sample_kinds_known, of sampleLib "interest_id x" x] x(1)
    by (simp add: samplePass_def pass_table gm_get_in_set built_def)
  have l: "labelsRead coreLabel (gvr_GroupResource (is_GVR (ik_scope (si_informer x)))) webEvent"
    using s by (auto simp: x(2) stampInformer_def informerServing_def sampleResolve_def gvr_GroupResource_def labelsRead_def
      eventSelectableFields_def WatchTarget_Key_def redactingTarget_def sample_target_def)
  have "ts_EventFilters st = [[]]" by (simp add: st_def redactingRegistry_state)
  then have e: "matchesEvent x webEvent"
    using newScopeInterest_ok(6) [OF new]
    by (auto simp: x(2) stampInformer_def matchesEvent_def matcherMatches_def matchesAll_def compileEventFilters_def)
  have "selectsJson (ik_FieldSelector (si_informer x)) webEvent"
  proof (rule narrowed_informer_hides_nothing [OF redactingRegistry_registered sample_canonical sample_kinds_known _ _ _ l e])
    show "(interest_id x, x) \<in> set (it_current (wm_table (fst (reconcilePool sampleLib epochStarted epochStopped (\<lambda>_ _ p. p) sampleResolve
        (\<lambda>_. False) 10 (Snapshot redactingRegistry) (newWatchManager, sampleRecorder, 0::nat)))))"
      using k by (simp add: samplePass_def)
  qed (simp_all add: selectsJson_law sampleLib_def, simp add: selectsJson_def)
  with k show ?thesis by blast
qed

end
