(* ===== verification/Resolver.thy ===== *)
theory Resolver
  imports Interest
begin

text \<open>
  The kind resolver (\<open>internal/watch/resolver.go\<close>): from a kind a rule names to the resource the
  data plane watches, with a retry gate that keeps a kind that is not installed from hammering
  discovery. The REST mapper is a parameter, one answer per call: an error with its text and whether
  it means "no match", or a resource and whether it is namespaced. \<open>Resolve\<close> also reports whether
  it reached the mapper. The clock is the argument \<open>now\<close>.
\<close>

datatype resolveError =
    ErrKindNotFound GroupVersionKind string
  | DiscoveryFailed GroupVersionKind string
  | ErrClusterScopedKind GroupVersionKind GroupVersionResource

datatype RuleScope = NamespacedRule | ClusterRule

type_synonym mapperAnswer = "(string \<times> bool) + (GroupVersionResource \<times> bool)"

definition baseRetryDelay :: go_duration where "baseRetryDelay = 10 ^ 9"
definition maxRetryDelay :: go_duration where "maxRetryDelay = 30 * 10 ^ 9"

record parkedKind =
  pk_err :: resolveError
  pk_delay :: go_duration
  pk_retryAt :: go_time

record Resolver =
  rs_parked :: "(GroupVersionKind, parkedKind) gomap"
  rs_baseDelay :: go_duration
  rs_maxDelay :: go_duration

definition NewResolver :: Resolver where
  "NewResolver = \<lparr>rs_parked = [], rs_baseDelay = baseRetryDelay, rs_maxDelay = maxRetryDelay\<rparr>"

definition classify :: "GroupVersionKind \<Rightarrow> string \<times> bool \<Rightarrow> resolveError" where
  "classify gvk err = (if snd err then ErrKindNotFound gvk (fst err) else DiscoveryFailed gvk (fst err))"

definition gatedError :: "go_time \<Rightarrow> GroupVersionKind \<Rightarrow> Resolver \<Rightarrow> resolveError option" where
  "gatedError now gvk r =
     (case gm_get (rs_parked r) gvk of
        None \<Rightarrow> None
      | Some parked \<Rightarrow> if \<not> now < pk_retryAt parked then None else Some (pk_err parked))"

definition park :: "go_time \<Rightarrow> GroupVersionKind \<Rightarrow> resolveError \<Rightarrow> Resolver \<Rightarrow> Resolver" where
  "park now gvk err r =
     (let delay = (case gm_get (rs_parked r) gvk of
                     None \<Rightarrow> rs_baseDelay r
                   | Some parked \<Rightarrow> min (pk_delay parked * 2) (rs_maxDelay r))
      in r\<lparr>rs_parked := gm_set gvk \<lparr>pk_err = err, pk_delay = delay, pk_retryAt = now + delay\<rparr> (rs_parked r)\<rparr>)"

definition unpark :: "GroupVersionKind \<Rightarrow> Resolver \<Rightarrow> Resolver" where
  "unpark gvk r = r\<lparr>rs_parked := gm_del gvk (rs_parked r)\<rparr>"

definition Resolve ::
    "mapperAnswer \<Rightarrow> go_time \<Rightarrow> GroupVersionKind \<Rightarrow> Resolver
     \<Rightarrow> (resolveError + (GroupVersionResource \<times> bool)) \<times> bool \<times> Resolver" where
  "Resolve answer now gvk r =
     (case gatedError now gvk r of
        Some err \<Rightarrow> (Inl err, False, r)
      | None \<Rightarrow>
          (case answer of
             Inl err \<Rightarrow> (let e = classify gvk err in (Inl e, True, park now gvk e r))
           | Inr mapping \<Rightarrow> (Inr mapping, True, unpark gvk r)))"

definition checkScope :: "GroupVersionKind \<Rightarrow> GroupVersionResource \<Rightarrow> bool \<Rightarrow> RuleScope \<Rightarrow> resolveError option" where
  "checkScope gvk gvr namespaced rule =
     (if rule = NamespacedRule \<and> \<not> namespaced then Some (ErrClusterScopedKind gvk gvr) else None)"

definition ResolveForScope ::
    "mapperAnswer \<Rightarrow> go_time \<Rightarrow> GroupVersionKind \<Rightarrow> RuleScope \<Rightarrow> Resolver
     \<Rightarrow> (resolveError + (GroupVersionResource \<times> bool)) \<times> bool \<times> Resolver" where
  "ResolveForScope answer now gvk rule r =
     (case Resolve answer now gvk r of
        (Inl err, asked, r) \<Rightarrow> (Inl err, asked, r)
      | (Inr (gvr, namespaced), asked, r) \<Rightarrow>
          (case checkScope gvk gvr namespaced rule of
             Some err \<Rightarrow> (Inl err, asked, r)
           | None \<Rightarrow> (Inr (gvr, namespaced), asked, r)))"

section \<open>A sequence of requests\<close>

text \<open>Requests for one kind: the instants asked, with the mapper's answers; the instants that reached the mapper.\<close>

fun asks :: "GroupVersionKind \<Rightarrow> (go_time \<times> mapperAnswer) list \<Rightarrow> Resolver \<Rightarrow> go_time list" where
  "asks gvk [] r = []"
| "asks gvk ((now, answer) # reqs) r =
     (case Resolve answer now gvk r of (_, asked, r) \<Rightarrow> (if asked then now # asks gvk reqs r else asks gvk reqs r))"

text \<open>The delays a run of failures waits: from the base, doubling, capped.\<close>

definition gate_ok :: "GroupVersionKind \<Rightarrow> Resolver \<Rightarrow> bool" where
  "gate_ok gvk r \<longleftrightarrow> 0 < rs_baseDelay r \<and> rs_baseDelay r \<le> rs_maxDelay r \<and>
     (\<forall>p. gm_get (rs_parked r) gvk = Some p \<longrightarrow> rs_baseDelay r \<le> pk_delay p \<and> pk_delay p \<le> rs_maxDelay r)"

lemma gate_ok_new: "gate_ok gvk NewResolver"
  by (simp add: gate_ok_def NewResolver_def baseRetryDelay_def maxRetryDelay_def)

lemma gate_ok_Resolve: "gate_ok gvk r \<Longrightarrow> gate_ok gvk (snd (snd (Resolve answer now gvk' r)))"
  by (auto simp: gate_ok_def Resolve_def park_def unpark_def Let_def split: option.splits sum.splits)

text \<open>After a failure at \<open>now\<close> nothing reaches the mapper before the gate reopens.\<close>

fun spaced :: "go_duration \<Rightarrow> go_duration \<Rightarrow> go_time list \<Rightarrow> bool" where
  "spaced d cap (a # b # ts) \<longleftrightarrow> a + d \<le> b \<and> spaced (min (d * 2) cap) cap (b # ts)"
| "spaced d cap ts \<longleftrightarrow> True"

lemma asks_failing:
  assumes "list_all (\<lambda>(_, answer). \<exists>e. answer = Inl e) reqs" and "gm_get (rs_parked r) gvk = Some p"
  shows "list_all (\<lambda>t. pk_retryAt p \<le> t) (take 1 (asks gvk reqs r))
    \<and> spaced (min (pk_delay p * 2) (rs_maxDelay r)) (rs_maxDelay r) (asks gvk reqs r)"
  using assms
proof (induction reqs arbitrary: r p)
  case (Cons req reqs)
  obtain now answer where q: "req = (now, answer)" by (cases req)
  obtain e where e: "answer = Inl e" using Cons.prems(1) q by auto
  show ?case
  proof (cases "now < pk_retryAt p")
    case True
    then have "Resolve answer now gvk r = (Inl (pk_err p), False, r)" by (simp add: Resolve_def gatedError_def Cons.prems(2))
    with Cons q show ?thesis by simp
  next
    case False
    let ?d = "min (pk_delay p * 2) (rs_maxDelay r)"
    define r' where "r' = park now gvk (classify gvk e) r"
    have res: "Resolve answer now gvk r = (Inl (classify gvk e), True, r')"
      using False by (simp add: Resolve_def gatedError_def Cons.prems(2) e r'_def Let_def)
    have p': "gm_get (rs_parked r') gvk = Some \<lparr>pk_err = classify gvk e, pk_delay = ?d, pk_retryAt = now + ?d\<rparr>"
      and m: "rs_maxDelay r' = rs_maxDelay r"
      by (simp_all add: r'_def park_def Let_def Cons.prems(2))
    have ih: "list_all (\<lambda>t. now + ?d \<le> t) (take 1 (asks gvk reqs r'))
      \<and> spaced (min (?d * 2) (rs_maxDelay r)) (rs_maxDelay r) (asks gvk reqs r')"
      using Cons.IH [OF _ p'] Cons.prems(1) m by simp
    then have "spaced ?d (rs_maxDelay r) (now # asks gvk reqs r')" by (cases "asks gvk reqs r'") auto
    with False res q show ?thesis by simp
  qed
qed simp

fun after :: "GroupVersionKind \<Rightarrow> (go_time \<times> mapperAnswer) list \<Rightarrow> Resolver \<Rightarrow> Resolver" where
  "after gvk [] r = r"
| "after gvk ((now, answer) # reqs) r = after gvk reqs (snd (snd (Resolve answer now gvk r)))"

text \<open>A parked kind's gate opens at most the maximal delay after the last attempt that reached the mapper.\<close>

lemma gate_after:
  assumes "gate_ok gvk r" and "gm_get (rs_parked (after gvk reqs r)) gvk = Some p"
    and "\<forall>p. gm_get (rs_parked r) gvk = Some p \<longrightarrow> pk_retryAt p \<le> t0 + rs_maxDelay r"
  shows "pk_retryAt p \<le> last (t0 # asks gvk reqs r) + rs_maxDelay r"
  using assms
proof (induction reqs arbitrary: r t0)
  case (Cons req reqs)
  obtain now answer where q: "req = (now, answer)" by (cases req)
  obtain res asked r' where r': "Resolve answer now gvk r = (res, asked, r')" by (metis prod.exhaust)
  have g: "gate_ok gvk r'" using gate_ok_Resolve [OF Cons.prems(1), of answer now gvk] by (simp add: r')
  have m: "rs_maxDelay r' = rs_maxDelay r"
    and p: "\<forall>p. gm_get (rs_parked r') gvk = Some p \<longrightarrow> pk_retryAt p \<le> (if asked then now else t0) + rs_maxDelay r'"
    using Cons.prems(1,3) r'
    by (auto simp: Resolve_def gate_ok_def park_def unpark_def Let_def split: option.splits sum.splits)
  from Cons.IH [OF g _ p] Cons.prems(2) show ?case by (auto simp: q r' m)
qed simp

text \<open>
  A kind that does not resolve is retried, never hammered. However often it is asked for while
  the mapper keeps failing, consecutive attempts that reach discovery are at least one second apart,
  the distance doubling up to thirty seconds; and a request thirty seconds after the last attempt
  that got through reaches the mapper again, so a kind installed in the meantime resolves then.
\<close>

theorem retry_gate_backs_off:
  assumes "list_all (\<lambda>(_, answer). \<exists>e. answer = Inl e) reqs" and "reqs \<noteq> []"
  shows "spaced baseRetryDelay maxRetryDelay (asks gvk reqs NewResolver)
    \<and> (last (asks gvk reqs NewResolver) + maxRetryDelay \<le> now
        \<longrightarrow> fst (Resolve (Inr mapping) now gvk (after gvk reqs NewResolver)) = Inr mapping)"
proof -
  obtain at answer reqs' where q: "reqs = (at, answer) # reqs'" using assms(2) by (metis list.exhaust prod.exhaust)
  obtain e where e: "answer = Inl e" using assms(1) q by auto
  define r' where "r' = park at gvk (classify gvk e) NewResolver"
  have res: "Resolve answer at gvk NewResolver = (Inl (classify gvk e), True, r')"
    by (simp add: Resolve_def gatedError_def NewResolver_def e r'_def Let_def)
  have p: "gm_get (rs_parked r') gvk = Some \<lparr>pk_err = classify gvk e, pk_delay = baseRetryDelay, pk_retryAt = at + baseRetryDelay\<rparr>"
    and m: "rs_maxDelay r' = maxRetryDelay"
    by (simp_all add: r'_def park_def NewResolver_def Let_def)
  have g: "gate_ok gvk r'" using gate_ok_Resolve [OF gate_ok_new, of gvk answer at gvk] by (simp add: res)
  have "list_all (\<lambda>(_, answer). \<exists>e. answer = Inl e) reqs'" using assms(1) q by simp
  from asks_failing [OF this p] have "spaced baseRetryDelay maxRetryDelay (at # asks gvk reqs' r')"
    by (cases "asks gvk reqs' r'") (auto simp: m)
  then have s: "spaced baseRetryDelay maxRetryDelay (asks gvk reqs NewResolver)" by (simp add: q res)
  have "\<forall>p. gm_get (rs_parked r') gvk = Some p \<longrightarrow> pk_retryAt p \<le> at + rs_maxDelay r'"
    by (simp add: p m baseRetryDelay_def maxRetryDelay_def)
  from gate_after [OF g _ this] have "pk_retryAt x \<le> last (asks gvk reqs NewResolver) + maxRetryDelay"
    if "gm_get (rs_parked (after gvk reqs NewResolver)) gvk = Some x" for x
    using that by (simp add: q res m)
  then have "fst (Resolve (Inr mapping) now gvk (after gvk reqs NewResolver)) = Inr mapping"
    if "last (asks gvk reqs NewResolver) + maxRetryDelay \<le> now"
    using that by (force simp: Resolve_def gatedError_def split: option.splits)
  with s show ?thesis by blast
qed

theorem retry_gate_backs_off_witness:
  "spaced baseRetryDelay maxRetryDelay (asks \<lparr>gvk_Group = ''x'', gvk_Version = ''v1'', gvk_Kind = ''Foo''\<rparr>
      [(0, Inl (''no match'', True)), (5, Inl (''no match'', True)), (2000000000, Inl (''no match'', True))] NewResolver)"
  by (rule retry_gate_backs_off [THEN conjunct1]) auto

end
