(* ===== verification/Civil.thy ===== *)
theory Civil
  imports JsonParse
begin

text \<open>
  Civil time: Go's \<open>time.Date\<close>, \<open>Time.Date\<close>, \<open>Time.AddDate\<close> and the two layouts of \<open>Time.Format\<close> the
  archive uses, with the UTC truncations \<open>hourStart\<close> and \<open>dayStart\<close> of
  \<open>internal/query/objectsource/layout.go\<close>.

  An instant is a number of nanoseconds since Go's zero instant, midnight UTC of the first of January
  of year 1. The calendar is the proleptic Gregorian one, computed as the standard library does.
\<close>

section \<open>Civil time\<close>

definition nsPerHour :: go_duration where
  "nsPerHour = 3600 * 10 ^ 9"

definition nsPerDay :: go_duration where
  "nsPerDay = 24 * nsPerHour"

definition daysBefore :: "int list" where
  "daysBefore = [0, 31, 59, 90, 120, 151, 181, 212, 243, 273, 304, 334, 365]"

definition isLeap :: "int \<Rightarrow> bool" where
  "isLeap year \<longleftrightarrow> year mod 4 = 0 \<and> (year mod 100 \<noteq> 0 \<or> year mod 400 = 0)"

text \<open>The year of a day counted from the zero instant, and the day within that year.\<close>

definition yearOf :: "int \<Rightarrow> int \<times> int" where
  "yearOf d =
     (let n400 = d div 146097; d = d mod 146097;
          n100 = d div 36524 - d div 36524 div 4; d = d - 36524 * n100;
          n4 = d div 1461; d = d - 1461 * n4;
          n1 = d div 365 - d div 365 div 4; d = d - 365 * n1
      in (400 * n400 + 100 * n100 + 4 * n4 + n1 + 1, d))"

text \<open>Month (from 1) and day of the month (from 1) of a day within a year without a leap day.\<close>

definition monthOf :: "int \<Rightarrow> int \<times> int" where
  "monthOf day =
     (let month = nat (day div 31); last_day = daysBefore ! (month + 1)
      in if day \<ge> last_day then (int month + 2, day - last_day + 1)
         else (int month + 1, day - daysBefore ! month + 1))"

definition civil :: "int \<Rightarrow> int \<times> int \<times> int" where
  "civil d =
     (let (year, yday) = yearOf d
      in if isLeap year \<and> yday = 59 then (year, 2, 29)
         else (year, monthOf (if isLeap year \<and> yday > 59 then yday - 1 else yday)))"

text \<open>\<open>time.Date\<close>: days before the year, before the month, and a day that may overflow its month.\<close>

definition daysBeforeYear :: "int \<Rightarrow> int" where
  "daysBeforeYear year = (let y = year - 1 in 365 * y + y div 4 - y div 100 + y div 400)"

definition dayNumber :: "int \<Rightarrow> int \<Rightarrow> int \<Rightarrow> int" where
  "dayNumber year month day =
     daysBeforeYear year + daysBefore ! nat (month - 1) + (if isLeap year \<and> month \<ge> 3 then 1 else 0) + day - 1"

definition time_Date :: "int \<Rightarrow> int \<Rightarrow> int \<Rightarrow> int \<Rightarrow> go_time" where
  "time_Date year month day hour = dayNumber year month day * nsPerDay + hour * nsPerHour"

definition time_hour :: "go_time \<Rightarrow> int" where
  "time_hour t = t mod nsPerDay div nsPerHour"

definition hourStart :: "go_time \<Rightarrow> go_time" where
  "hourStart t = (let (year, month, day) = civil (t div nsPerDay) in time_Date year month day (time_hour t))"

definition dayStart :: "go_time \<Rightarrow> go_time" where
  "dayStart t = (let (year, month, day) = civil (t div nsPerDay) in time_Date year month day 0)"

text \<open>\<open>Time.AddDate(0, 0, n)\<close>: the same clock, \<open>n\<close> days later.\<close>

definition addDays :: "int \<Rightarrow> go_time \<Rightarrow> go_time" where
  "addDays n t = (let (year, month, day) = civil (t div nsPerDay) in time_Date year month (day + n) 0 + t mod nsPerDay)"

text \<open>The layouts \<open>2006-01-02\<close> and \<open>15\<close> of \<open>Time.Format\<close>.\<close>

definition appendInt :: "nat \<Rightarrow> int \<Rightarrow> string" where
  "appendInt width x =
     (let ds = digits_nat (nat \<bar>x\<bar>) in (if x < 0 then ''-'' else []) @ replicate (width - length ds) (CHR ''0'') @ ds)"

definition formatDate :: "go_time \<Rightarrow> string" where
  "formatDate t =
     (let (year, month, day) = civil (t div nsPerDay)
      in appendInt 4 year @ ''-'' @ appendInt 2 month @ ''-'' @ appendInt 2 day)"

definition formatHour :: "go_time \<Rightarrow> string" where
  "formatHour t = appendInt 2 (time_hour t)"

section \<open>Lemmas on civil time\<close>

text \<open>Go's \<open>n -= n >> 2\<close> idiom: a quotient that is cut off at 3 for the last day of a leap cycle.\<close>

lemma capped_div:
  fixes d k :: int
  assumes "0 \<le> d" "d \<le> 4 * k" "0 < k" and n: "n = d div k - d div k div 4"
  shows "0 \<le> n" "n \<le> 3" "0 \<le> d - k * n" "d - k * n \<le> (if n = 3 then k else k - 1)"
    and "d < 4 * k \<Longrightarrow> d - k * n < k"
proof -
  define q m where "q = d div k" and "m = d mod k"
  have dm: "d = k * q + m" "0 \<le> m" "m < k"
    using assms(3) by (simp_all add: q_def m_def)
  have q: "0 \<le> q" "q \<le> 4"
    using assms zdiv_mono1 [OF assms(2,3)] by (simp_all add: q_def pos_imp_zdiv_nonneg_iff)
  consider "q = 4" "m = 0" | "0 \<le> q" "q \<le> 3"
  proof (cases "q = 4")
    case True
    then have "m = 0" using dm assms(2) by (simp add: mult.commute)
    with True that show ?thesis by blast
  next
    case False
    with q that show ?thesis by simp
  qed
  then have "0 \<le> n \<and> n \<le> 3 \<and> 0 \<le> d - k * n \<and> d - k * n \<le> (if n = 3 then k else k - 1) \<and> (d < 4 * k \<longrightarrow> d - k * n < k)"
  proof cases
    case 1
    then have "n = 3" by (simp add: n q_def [symmetric])
    with 1 dm assms(3) show ?thesis by simp
  next
    case 2
    then have "q div 4 = 0" by (simp add: div_pos_pos_trivial)
    then have "n = q" by (simp add: n q_def [symmetric])
    with 2 dm show ?thesis by simp
  qed
  then show "0 \<le> n" "n \<le> 3" "0 \<le> d - k * n" "d - k * n \<le> (if n = 3 then k else k - 1)"
    and "d < 4 * k \<Longrightarrow> d - k * n < k" by blast+
qed

text \<open>A year and a day within it, from its number of days before the year.\<close>

lemma yearOf_spec:
  assumes "yearOf d = (year, yday)"
  shows "d = daysBeforeYear year + yday" "0 \<le> yday" "yday \<le> (if isLeap year then 365 else 364)"
proof -
  define n400 d0 where "n400 = d div 146097" and "d0 = d mod 146097"
  define n100 where "n100 = d0 div 36524 - d0 div 36524 div 4"
  define d1 where "d1 = d0 - 36524 * n100"
  define n4 where "n4 = d1 div 1461"
  define d2 where "d2 = d1 - 1461 * n4"
  define n1 where "n1 = d2 div 365 - d2 div 365 div 4"
  have "yearOf d = (400 * n400 + 100 * n100 + 4 * n4 + n1 + 1, d2 - 365 * n1)"
    by (simp only: yearOf_def Let_def n400_def d0_def n100_def d1_def n4_def d2_def n1_def)
  then have y: "year = 400 * n400 + 100 * n100 + 4 * n4 + n1 + 1" "yday = d2 - 365 * n1" using assms by simp_all
  have d0: "d = 146097 * n400 + d0" "0 \<le> d0" "d0 \<le> 4 * 36524"
    using pos_mod_bound [of 146097 d] by (simp_all add: n400_def d0_def)
  note c = capped_div [OF d0(2,3) _ n100_def, folded d1_def, simplified]
  have n4: "0 \<le> n4" "n4 \<le> 24" "0 \<le> d2" "d2 \<le> 1460" "n4 = 24 \<Longrightarrow> n100 \<noteq> 3 \<Longrightarrow> d2 < 4 * 365"
    using c(3,4) by (auto simp: n4_def d2_def minus_mult_div_eq_mod split: if_splits)
  have "d2 \<le> 4 * 365" using n4(4) by simp
  note e = capped_div [OF n4(3) this _ n1_def, simplified]
  have divs: "(year - 1) div 400 = n400" "(year - 1) div 100 = 4 * n400 + n100" "(year - 1) div 4 = 100 * n400 + 25 * n100 + n4"
    using c(1,2) n4(1,2) e(1,2) by (simp_all add: y)
  show "d = daysBeforeYear year + yday"
    using d0(1) divs by (simp add: daysBeforeYear_def Let_def y d1_def d2_def)
  show "0 \<le> yday" using e(3) by (simp add: y)
  have leap: "isLeap year \<longleftrightarrow> n1 = 3 \<and> (n4 \<noteq> 24 \<or> n100 = 3)"
  proof (cases "n1 = 3")
    case True
    have "year = 4 * (100 * n400 + 25 * n100 + n4 + 1)" "year = 4 * (n4 + 1) + (4 * n400 + n100) * 100"
      and y400: "n4 = 24 \<Longrightarrow> year = 100 * (n100 + 1) + n400 * 400"
      using True by (simp_all add: y)
    then have m: "year mod 4 = 0" "year mod 100 = 4 * (n4 + 1) mod 100"
      by (metis mod_mult_self1_is_0, metis mod_mult_self1)
    have "n4 \<noteq> 24 \<Longrightarrow> 4 * (n4 + 1) mod 100 = 4 * (n4 + 1)" using n4(1,2) by (intro mod_pos_pos_trivial) simp_all
    then have m100: "year mod 100 = 0 \<longleftrightarrow> n4 = 24" using m(2) n4(1) by (cases "n4 = 24") simp_all
    have "year mod 400 = 0 \<longleftrightarrow> n100 = 3" if "n4 = 24"
    proof -
      have "year mod 400 = 100 * (n100 + 1) mod 400" using y400 [OF that] by (metis mod_mult_self1)
      moreover have "n100 \<noteq> 3 \<Longrightarrow> 100 * (n100 + 1) mod 400 = 100 * (n100 + 1)"
        using c(1,2) by (intro mod_pos_pos_trivial) simp_all
      ultimately show ?thesis using c(1) by (cases "n100 = 3") simp_all
    qed
    with m(1) m100 True show ?thesis by (auto simp: isLeap_def)
  next
    case False
    have "year = (n1 + 1) + (100 * n400 + 25 * n100 + n4) * 4" by (simp add: y)
    then have "year mod 4 = (n1 + 1) mod 4" by (metis mod_mult_self1)
    also have "\<dots> = n1 + 1" using e(1,2) False by (intro mod_pos_pos_trivial) simp_all
    finally show ?thesis using e(1) False by (simp add: isLeap_def)
  qed
  show "yday \<le> (if isLeap year then 365 else 364)"
    using e(4,5) n4(5) unfolding leap y(2) by (auto split: if_splits)
qed

lemma daysBefore_bounds:
  "\<forall>m \<in> set [0..<12]. daysBefore ! m \<le> 31 * int m \<and> 31 * int m \<le> daysBefore ! (m + 1) \<and> daysBefore ! (m + 1) \<le> daysBefore ! m + 31
     \<and> (if m = 0 then daysBefore ! (m + 1) = 31 else 59 \<le> daysBefore ! (m + 1)) \<and> (m = 1 \<longrightarrow> daysBefore ! (m + 1) = 59)
     \<and> (m = 11 \<longrightarrow> daysBefore ! (m + 1) = 365)"
  by code_simp

lemma monthOf_spec:
  assumes "0 \<le> day" "day < 365" "monthOf day = (month, mday)"
  shows "1 \<le> month" "month \<le> 12" "day = daysBefore ! nat (month - 1) + mday - 1" "1 \<le> mday" "mday \<le> 31"
    and "month \<ge> 3 \<longleftrightarrow> day \<ge> 59"
proof -
  define m where "m = nat (day div 31)"
  define a b where "a = daysBefore ! m" and "b = daysBefore ! (m + 1)"
  have q: "31 * int m \<le> day" "day < 31 * int m + 31" using assms(1) by (simp_all add: m_def pos_imp_zdiv_nonneg_iff)
  then have "m < 12" using assms(2) by linarith
  then have ab: "a \<le> 31 * int m" "31 * int m \<le> b" "b \<le> a + 31" "if m = 0 then b = 31 else 59 \<le> b" "m = 1 \<Longrightarrow> b = 59" "m = 11 \<Longrightarrow> b = 365"
    using bspec [OF daysBefore_bounds, of m] by (simp_all add: a_def b_def split: if_splits)
  have res: "(month, mday) = (if day \<ge> b then (int m + 2, day - b + 1) else (int m + 1, day - a + 1))"
    using assms(3) by (simp add: monthOf_def Let_def m_def [symmetric] a_def b_def split: if_splits)
  have "1 \<le> month \<and> month \<le> 12 \<and> day = daysBefore ! nat (month - 1) + mday - 1 \<and> 1 \<le> mday \<and> mday \<le> 31 \<and> (month \<ge> 3 \<longleftrightarrow> day \<ge> 59)"
  proof (cases "day \<ge> b")
    case True
    then have r: "month = int m + 2" "mday = day - b + 1" using res by simp_all
    then have "daysBefore ! nat (month - 1) = b" by (simp add: b_def nat_add_distrib)
    moreover have "m \<noteq> 0" "m \<noteq> 11" using True ab(4,6) q assms(2) by (auto split: if_splits)
    ultimately show ?thesis using r True ab q \<open>m < 12\<close> by auto
  next
    case False
    then have r: "month = int m + 1" "mday = day - a + 1" using res by simp_all
    then have "daysBefore ! nat (month - 1) = a" by (simp add: a_def)
    moreover have "m \<ge> 2 \<longleftrightarrow> day \<ge> 59" using False ab(4,5) q by (cases "m = 0"; cases "m = 1") (auto split: if_splits)
    ultimately show ?thesis using r False ab q \<open>m < 12\<close> by auto
  qed
  then show "1 \<le> month" "month \<le> 12" "day = daysBefore ! nat (month - 1) + mday - 1" "1 \<le> mday" "mday \<le> 31"
    and "month \<ge> 3 \<longleftrightarrow> day \<ge> 59" by blast+
qed

lemma civil_spec:
  assumes "civil d = (year, month, day)"
  shows "dayNumber year month day = d" "1 \<le> month" "month \<le> 12" "1 \<le> day" "day \<le> 31"
proof -
  obtain y yday where y: "yearOf d = (y, yday)" by fastforce
  note s = yearOf_spec [OF y]
  have "dayNumber year month day = d \<and> 1 \<le> month \<and> month \<le> 12 \<and> 1 \<le> day \<and> day \<le> 31"
  proof (cases "isLeap y \<and> yday = 59")
    case True
    with assms have "year = y" "month = 2" "day = 29" by (simp_all add: civil_def y)
    with True s(1) show ?thesis by (simp add: dayNumber_def daysBefore_def)
  next
    case False
    define k where "k = (if isLeap y \<and> yday > 59 then yday - 1 else yday)"
    have k: "0 \<le> k" "k < 365" using s(2,3) by (auto simp: k_def split: if_splits)
    have m: "year = y" "monthOf k = (month, day)" using assms False unfolding k_def by (auto simp: civil_def y)
    note t = monthOf_spec [OF k m(2)]
    have "d = daysBeforeYear y + k + (if isLeap y \<and> month \<ge> 3 then 1 else 0)"
      using s(1) t(6) False by (auto simp: k_def split: if_splits)
    with t m(1) show ?thesis by (auto simp: dayNumber_def)
  qed
  then show "dayNumber year month day = d" "1 \<le> month" "month \<le> 12" "1 \<le> day" "day \<le> 31" by blast+
qed

lemma nsPerHour_pos [simp]: "0 < nsPerHour"
  by (simp add: nsPerHour_def)

lemma nsPerHour_nonzero [simp]: "nsPerHour \<noteq> 0"
  by (simp add: nsPerHour_def)

lemma day_of_hours: "nsPerDay = 24 * nsPerHour"
  by (simp add: nsPerDay_def)

lemma time_Date_civil:
  "civil (t div nsPerDay) = (year, month, day) \<Longrightarrow> time_Date year month (day + n) h = (t div nsPerDay + n) * nsPerDay + h * nsPerHour"
  using civil_spec(1) [of "t div nsPerDay" year month day] by (simp add: time_Date_def dayNumber_def)

lemma dayStart_eq: "dayStart t = t div nsPerDay * nsPerDay"
  unfolding dayStart_def using time_Date_civil [of t _ _ _ 0 0] by (auto split: prod.splits)

lemma addDays_eq: "addDays n t = t + n * nsPerDay"
  unfolding addDays_def using time_Date_civil [of t _ _ _ n 0]
  by (auto simp: distrib_right split: prod.splits)

lemma hours_split: "t div nsPerHour = 24 * (t div nsPerDay) + time_hour t"
proof -
  have "t div nsPerHour = (t div nsPerDay * 24 * nsPerHour + t mod nsPerDay) div nsPerHour"
    by (metis day_of_hours div_mult_mod_eq mult.assoc)
  also have "\<dots> = t div nsPerDay * 24 + t mod nsPerDay div nsPerHour" by (rule div_mult_self3) simp
  finally show ?thesis by (simp add: time_hour_def)
qed

lemma hourStart_eq: "hourStart t = t div nsPerHour * nsPerHour"
  unfolding hourStart_def using time_Date_civil [of t _ _ _ 0 "time_hour t"]
  by (auto simp: hours_split distrib_right day_of_hours split: prod.splits)

lemma time_hour_bounds: "0 \<le> time_hour t" "time_hour t < 24"
proof -
  have "0 \<le> t mod nsPerDay" "t mod nsPerDay < 24 * nsPerHour" by (simp_all add: day_of_hours)
  moreover have "time_hour t * nsPerHour \<le> t mod nsPerDay"
    unfolding time_hour_def using div_mult_mod_eq [of "t mod nsPerDay" nsPerHour] pos_mod_sign [of nsPerHour "t mod nsPerDay"] nsPerHour_pos
    by linarith
  ultimately have "time_hour t * nsPerHour < 24 * nsPerHour" by linarith
  then show "time_hour t < 24" by (simp add: mult_less_cancel_right_pos)
  show "0 \<le> time_hour t" by (simp add: time_hour_def pos_imp_zdiv_nonneg_iff day_of_hours)
qed

lemmas truncations = hourStart_eq dayStart_eq addDays_eq

lemma hour_in_day: "dayStart t = dayStart u \<longleftrightarrow> dayStart u \<le> t \<and> t < addDays 1 (dayStart u)"
proof -
  have "0 < nsPerDay" by (simp add: day_of_hours)
  then have m: "0 \<le> t mod nsPerDay" "t mod nsPerDay < nsPerDay" "t div nsPerDay * nsPerDay + t mod nsPerDay = t" by simp_all
  have "t div nsPerDay = q \<longleftrightarrow> q * nsPerDay \<le> t \<and> t < q * nsPerDay + nsPerDay" for q
    using m int_div_pos_eq [of t nsPerDay q "t - q * nsPerDay"] by (metis add.commute add_diff_cancel_left' add_le_cancel_left
        add_less_cancel_left diff_add_cancel diff_ge_0_iff_ge mult.commute order.refl)
  then show ?thesis by (simp add: dayStart_eq addDays_eq day_of_hours)
qed

section \<open>Lemmas on the layouts\<close>

lemma nat_of_digits_zeros: "nat_of_digits (replicate k (CHR ''0'') @ ds) = nat_of_digits ds"
proof -
  have "foldl (\<lambda>n c. n * 10 + digit_val c) 0 (replicate k (CHR ''0'')) = 0"
    by (induction k) (simp_all add: digit_val_def)
  then show ?thesis by (simp add: nat_of_digits_def)
qed

lemma appendInt_chars: "c \<in> set (appendInt w x) \<Longrightarrow> c = CHR ''-'' \<or> is_digit c"
  using digits_nat_digits [of "nat \<bar>x\<bar>"] by (auto simp: appendInt_def Let_def list_all_iff is_digit_def split: if_splits)

lemma appendInt_inj: "appendInt w x = appendInt w y \<longleftrightarrow> x = y"
proof
  have signed: "hd (appendInt w x) = CHR ''-'' \<longleftrightarrow> x < 0" for x
  proof -
    define s where "s = replicate (w - length (digits_nat (nat \<bar>x\<bar>))) (CHR ''0'') @ digits_nat (nat \<bar>x\<bar>)"
    have "s \<noteq> []" "\<forall>c \<in> set s. is_digit c"
      using digits_nat_digits [of "nat \<bar>x\<bar>"] by (auto simp: s_def list_all_iff is_digit_def)
    then have "is_digit (hd s)" by simp
    then have "hd s \<noteq> CHR ''-''" by (auto simp: is_digit_def)
    then show ?thesis by (auto simp: appendInt_def Let_def s_def [symmetric])
  qed
  assume eq: "appendInt w x = appendInt w y"
  then have sign: "x < 0 \<longleftrightarrow> y < 0" using signed by metis
  with eq have "replicate (w - length (digits_nat (nat \<bar>x\<bar>))) (CHR ''0'') @ digits_nat (nat \<bar>x\<bar>) =
      replicate (w - length (digits_nat (nat \<bar>y\<bar>))) (CHR ''0'') @ digits_nat (nat \<bar>y\<bar>)"
    by (cases "x < 0") (simp_all only: appendInt_def Let_def if_True if_False append_Nil same_append_eq)
  from arg_cong [OF this, of nat_of_digits] have "nat_of_digits (digits_nat (nat \<bar>x\<bar>)) = nat_of_digits (digits_nat (nat \<bar>y\<bar>))"
    by (simp only: nat_of_digits_zeros)
  then show "x = y" using sign by (simp add: nat_of_digits_nat) linarith
qed simp

lemma appendInt_two: "0 \<le> x \<Longrightarrow> x < 100 \<Longrightarrow> length (appendInt 2 x) = 2"
proof -
  assume x: "0 \<le> x" "x < 100"
  then have "length (digits_nat (nat x)) = (if x < 10 then 1 else 2)"
    by (cases "nat x < 10") (auto simp: digits_nat_small digits_nat_big)
  with x show ?thesis by (simp add: appendInt_def Let_def)
qed

lemma formatDate_inj: "formatDate t = formatDate u \<longleftrightarrow> dayStart t = dayStart u"
proof
  obtain y m d where t: "civil (t div nsPerDay) = (y, m, d)" by (metis prod_cases3)
  obtain y' m' d' where u: "civil (u div nsPerDay) = (y', m', d')" by (metis prod_cases3)
  note ct = civil_spec [OF t] and cu = civil_spec [OF u]
  assume "formatDate t = formatDate u"
  then have eq: "appendInt 4 y @ ''-'' @ appendInt 2 m @ ''-'' @ appendInt 2 d = appendInt 4 y' @ ''-'' @ appendInt 2 m' @ ''-'' @ appendInt 2 d'"
    by (simp add: formatDate_def t u)
  have len: "length (appendInt 2 m) = 2" "length (appendInt 2 d) = 2" "length (appendInt 2 m') = 2" "length (appendInt 2 d') = 2"
    using ct cu by (simp_all add: appendInt_two)
  have "appendInt 4 y = appendInt 4 y' \<and> ''-'' @ appendInt 2 m @ ''-'' @ appendInt 2 d = ''-'' @ appendInt 2 m' @ ''-'' @ appendInt 2 d'"
    using eq len by (intro append_eq_append_conv [THEN iffD1]) simp_all
  then have "y = y'" "m = m'" "d = d'" using len by (auto simp: appendInt_inj)
  then show "dayStart t = dayStart u" using ct(1) cu(1) by (simp add: dayStart_eq)
next
  assume "dayStart t = dayStart u"
  then show "formatDate t = formatDate u" by (simp add: dayStart_eq formatDate_def day_of_hours)
qed

lemma formatHour_inj: "formatHour t = formatHour u \<longleftrightarrow> time_hour t = time_hour u"
  by (simp add: formatHour_def appendInt_inj)

lemma formats_no_slash: "CHR ''/'' \<notin> set (formatDate t)" "CHR ''/'' \<notin> set (formatHour t)"
  by (auto simp: formatDate_def formatHour_def is_digit_def dest: appendInt_chars split: prod.splits)

lemma same_hour_iff: "hourStart t = hourStart u \<longleftrightarrow> dayStart t = dayStart u \<and> time_hour t = time_hour u"
proof
  assume "hourStart t = hourStart u"
  then have h: "24 * (t div nsPerDay) + time_hour t = 24 * (u div nsPerDay) + time_hour u"
    by (simp add: hourStart_eq hours_split)
  have "t div nsPerDay = u div nsPerDay" using h time_hour_bounds [of t] time_hour_bounds [of u] by linarith
  with h show "dayStart t = dayStart u \<and> time_hour t = time_hour u" by (simp add: dayStart_eq)
next
  assume "dayStart t = dayStart u \<and> time_hour t = time_hour u"
  then show "hourStart t = hourStart u" by (simp add: hourStart_eq hours_split dayStart_eq day_of_hours)
qed

end
