(* ===== verification/Rfc3339.thy ===== *)
theory Rfc3339
  imports Civil "HOL-Library.Monad_Syntax"
begin

text \<open>
  RFC 3339 instants as \<open>encoding/json\<close> reads and writes a \<open>time.Time\<close>: the layout \<open>time.RFC3339Nano\<close> in UTC,
  the strict parser, and that the one inverts the other.
\<close>

section \<open>RFC 3339 texts\<close>

definition nsPerSecond :: go_duration where
  "nsPerSecond = 10 ^ 9"

definition time_minute :: "go_time \<Rightarrow> int" where
  "time_minute t = t mod nsPerHour div (60 * nsPerSecond)"

definition time_second :: "go_time \<Rightarrow> int" where
  "time_second t = t mod (60 * nsPerSecond) div nsPerSecond"

definition time_nano :: "go_time \<Rightarrow> int" where
  "time_nano t = t mod nsPerSecond"

text \<open>The layout \<open>.999999999\<close>: nine digits without the trailing zeros, nothing for zero.\<close>

definition formatNanos :: "int \<Rightarrow> string" where
  "formatNanos n = (if n = 0 then [] else ''.'' @ rev (dropWhile (\<lambda>c. c = CHR ''0'') (rev (appendInt 9 n))))"

definition formatRFC3339Nano :: "go_time \<Rightarrow> string" where
  "formatRFC3339Nano t =
     formatDate t @ ''T'' @ formatHour t @ '':'' @ appendInt 2 (time_minute t) @ '':'' @ appendInt 2 (time_second t) @
     formatNanos (time_nano t) @ ''Z''"

definition yearInRange :: "go_time \<Rightarrow> bool" where
  "yearInRange t = (let year = fst (civil (t div nsPerDay)) in 0 \<le> year \<and> year \<le> 9999)"

definition daysIn :: "int \<Rightarrow> int \<Rightarrow> int" where
  "daysIn month year =
     (if month = 2 \<and> isLeap year then 29 else daysBefore ! nat month - daysBefore ! nat (month - 1))"

definition parseUint :: "string \<Rightarrow> int \<Rightarrow> int \<Rightarrow> int option" where
  "parseUint s lo hi =
     (let x = int (nat_of_digits s) in if list_all is_digit s \<and> lo \<le> x \<and> x \<le> hi then Some x else None)"

definition timeField :: "nat \<Rightarrow> int \<Rightarrow> int \<Rightarrow> string \<Rightarrow> (int \<times> string) option" where
  "timeField width lo hi s =
     (if length s < width then None else map_option (\<lambda>x. (x, drop width s)) (parseUint (take width s) lo hi))"

definition expectChar :: "char \<Rightarrow> string \<Rightarrow> string option" where
  "expectChar c s = (case s of [] \<Rightarrow> None | d # r \<Rightarrow> if d = c then Some r else None)"

text \<open>At most nine digits of a fraction count.\<close>

definition timeFraction :: "string \<Rightarrow> int \<times> string" where
  "timeFraction s =
     (case s of
        c # r \<Rightarrow>
          (let ds = takeWhile is_digit r in
           if c = CHR ''.'' \<and> ds \<noteq> [] then (int (nat_of_digits (take 9 ds)) * 10 ^ (9 - length (take 9 ds)), dropWhile is_digit r)
           else (0, s))
      | [] \<Rightarrow> (0, s))"

definition zoneOffset :: "string \<Rightarrow> int option" where
  "zoneOffset s =
     (if s = ''Z'' then Some 0
      else case s of
             [] \<Rightarrow> None
           | sign # s \<Rightarrow>
               do { (hr, s) \<leftarrow> timeField 2 0 23 s; s \<leftarrow> expectChar (CHR '':'') s; (mn, s) \<leftarrow> timeField 2 0 59 s;
                    if s \<noteq> [] \<or> sign \<noteq> CHR ''+'' \<and> sign \<noteq> CHR ''-'' then None
                    else Some ((if sign = CHR ''-'' then - 1 else 1) * (hr * 60 + mn) * 60) })"

definition parseRFC3339 :: "string \<Rightarrow> go_time option" where
  "parseRFC3339 s =
     do { (year, s) \<leftarrow> timeField 4 0 9999 s; s \<leftarrow> expectChar (CHR ''-'') s;
          (month, s) \<leftarrow> timeField 2 1 12 s; s \<leftarrow> expectChar (CHR ''-'') s;
          (day, s) \<leftarrow> timeField 2 1 (daysIn month year) s; s \<leftarrow> expectChar (CHR ''T'') s;
          (hour, s) \<leftarrow> timeField 2 0 23 s; s \<leftarrow> expectChar (CHR '':'') s;
          (mn, s) \<leftarrow> timeField 2 0 59 s; s \<leftarrow> expectChar (CHR '':'') s;
          (sec, s) \<leftarrow> timeField 2 0 59 s;
          let (nsec, s) = timeFraction s;
          offset \<leftarrow> zoneOffset s;
          Some (time_Date year month day hour + mn * (60 * nsPerSecond) + sec * nsPerSecond + nsec - offset * nsPerSecond) }"

lemma length_digits_nat: "n < 10 ^ w \<Longrightarrow> 0 < w \<Longrightarrow> length (digits_nat n) \<le> w"
proof (induction w arbitrary: n)
  case (Suc w)
  show ?case
  proof (cases "n < 10")
    case False
    then have "w \<noteq> 0" using Suc.prems(1) by (cases w) simp_all
    moreover have "n div 10 < 10 ^ w" using Suc.prems(1) by (simp add: less_mult_imp_div_less mult.commute)
    ultimately show ?thesis using Suc.IH [of "n div 10"] False by (simp add: digits_nat_big)
  qed (simp add: digits_nat_small)
qed simp

lemma appendInt_field:
  assumes "0 \<le> x" "x < 10 ^ w" "0 < w"
  shows "length (appendInt w x) = w" "list_all is_digit (appendInt w x)" "nat_of_digits (appendInt w x) = nat x"
proof -
  have "nat x < 10 ^ w" using assms(1,2) by (metis nat_less_numeral_power_cancel_iff nat_0_le nat_int of_nat_less_numeral_power_cancel_iff zless_nat_conj)
  then have "length (digits_nat (nat x)) \<le> w" using assms(3) by (rule length_digits_nat)
  with assms(1) show "length (appendInt w x) = w" by (simp add: appendInt_def Let_def)
  show "list_all is_digit (appendInt w x)"
    using digits_nat_digits [of "nat x"] assms(1) by (auto simp: appendInt_def Let_def list_all_iff is_digit_def)
  show "nat_of_digits (appendInt w x) = nat x"
    using assms(1) by (simp add: appendInt_def Let_def nat_of_digits_zeros nat_of_digits_nat)
qed

lemma timeField_appendInt:
  "0 \<le> x \<Longrightarrow> x < 10 ^ w \<Longrightarrow> 0 < w \<Longrightarrow> lo \<le> x \<Longrightarrow> x \<le> hi \<Longrightarrow> timeField w lo hi (appendInt w x @ r) = Some (x, r)"
  by (simp add: timeField_def appendInt_field parseUint_def)

lemma expectChar_Cons [simp]: "expectChar c (c # r) = Some r"
  by (simp add: expectChar_def)

lemma nat_of_digits_shift: "nat_of_digits (xs @ replicate k (CHR ''0'')) = nat_of_digits xs * 10 ^ k"
proof (induction k)
  case (Suc k)
  have "nat_of_digits (xs @ replicate (Suc k) (CHR ''0'')) = nat_of_digits ((xs @ replicate k (CHR ''0'')) @ [CHR ''0''])"
    by (simp add: replicate_append_same)
  also have "\<dots> = nat_of_digits (xs @ replicate k (CHR ''0'')) * 10" by (simp add: nat_of_digits_def digit_val_def)
  finally show ?case using Suc.IH by simp
qed simp

lemma timeFraction_formatNanos:
  assumes "0 \<le> n" "n < nsPerSecond"
  shows "timeFraction (formatNanos n @ ''Z'') = (n, ''Z'')"
proof (cases "n = 0")
  case True
  then show ?thesis by (simp add: formatNanos_def timeFraction_def)
next
  case False
  define z where "z = appendInt 9 n"
  define ds where "ds = rev (dropWhile (\<lambda>c. c = CHR ''0'') (rev z))"
  define k where "k = length (takeWhile (\<lambda>c. c = CHR ''0'') (rev z))"
  have z: "length z = 9" "list_all is_digit z" "nat_of_digits z = nat n"
    using appendInt_field [of n 9] assms by (simp_all add: z_def nsPerSecond_def)
  have "rev z = replicate k (CHR ''0'') @ rev ds"
  proof -
    have "replicate k (CHR ''0'') = takeWhile (\<lambda>c. c = CHR ''0'') (rev z)"
      unfolding k_def by (rule replicate_length_same) (auto dest: set_takeWhileD)
    then show ?thesis by (simp add: ds_def)
  qed
  then have split: "z = ds @ replicate k (CHR ''0'')" by (metis rev_append rev_replicate rev_rev_ident)
  have len: "length ds + k = 9" using z(1) split by simp
  have digits: "list_all is_digit ds" using z(2) split by (simp add: list_all_append)
  have val: "nat n = nat_of_digits ds * 10 ^ k" using z(3) nat_of_digits_shift [of ds k] by (simp add: split)
  then have "ds \<noteq> []" using False assms(1) by (auto simp: nat_of_digits_def)
  have "takeWhile is_digit (ds @ ''Z'') = ds" "dropWhile is_digit (ds @ ''Z'') = ''Z''"
    using digits by (simp_all add: list_all_iff takeWhile_append2 dropWhile_append2 is_digit_def)
  moreover have "take 9 ds = ds" "9 - length ds = k" using len by simp_all
  moreover have "int (nat_of_digits ds) * 10 ^ k = n" using val assms(1) by (metis int_nat_eq of_nat_mult of_nat_numeral of_nat_power)
  ultimately show ?thesis
    using False \<open>ds \<noteq> []\<close> by (simp add: formatNanos_def timeFraction_def z_def [symmetric] ds_def [symmetric])
qed

lemma monthOf_day: "0 \<le> day \<Longrightarrow> day < 365 \<Longrightarrow> monthOf day = (month, mday) \<Longrightarrow> day < daysBefore ! nat month"
proof -
  assume a: "0 \<le> day" "day < 365" "monthOf day = (month, mday)"
  define m where "m = nat (day div 31)"
  have q: "31 * int m \<le> day" "day < 31 * int m + 31" using a(1) by (simp_all add: m_def pos_imp_zdiv_nonneg_iff)
  then have "m < 12" using a(2) by linarith
  have "\<forall>m \<in> set [0..<11]. 31 * int m + 31 \<le> daysBefore ! (m + 2)" by code_simp
  then have next_month: "m \<noteq> 11 \<Longrightarrow> 31 * int m + 31 \<le> daysBefore ! (m + 2)" using \<open>m < 12\<close> by simp
  show ?thesis
  proof (cases "day \<ge> daysBefore ! (m + 1)")
    case True
    then have "month = int m + 2" using a(3) by (simp add: monthOf_def Let_def m_def [symmetric])
    moreover have "m \<noteq> 11" using True a(2) by (auto simp: daysBefore_def eval_nat_numeral)
    ultimately show ?thesis using next_month q by (simp add: nat_add_distrib)
  next
    case False
    then have "month = int m + 1" using a(3) by (simp add: monthOf_def Let_def m_def [symmetric] split: if_splits)
    with False show ?thesis by (simp add: nat_add_distrib)
  qed
qed

lemma civil_daysIn:
  assumes "civil d = (year, month, day)"
  shows "day \<le> daysIn month year"
proof -
  obtain y yday where y: "yearOf d = (y, yday)" by fastforce
  note s = yearOf_spec [OF y]
  show ?thesis
  proof (cases "isLeap y \<and> yday = 59")
    case True
    with assms have "year = y" "month = 2" "day = 29" by (simp_all add: civil_def y)
    with True show ?thesis by (simp add: daysIn_def)
  next
    case False
    define k where "k = (if isLeap y \<and> yday > 59 then yday - 1 else yday)"
    have k: "0 \<le> k" "k < 365" using s(2,3) by (auto simp: k_def split: if_splits)
    have m: "year = y" "monthOf k = (month, day)" using assms False unfolding k_def by (auto simp: civil_def y)
    have "k < daysBefore ! nat month" "k = daysBefore ! nat (month - 1) + day - 1"
      using monthOf_day [OF k m(2)] monthOf_spec(3) [OF k m(2)] by simp_all
    then have "day \<le> daysBefore ! nat month - daysBefore ! nat (month - 1)" by simp
    moreover have "daysBefore ! nat 2 - daysBefore ! nat (2 - 1) = 28" by (simp add: daysBefore_def eval_nat_numeral)
    ultimately show ?thesis by (auto simp: daysIn_def)
  qed
qed

lemma clock_parts:
  "t = t div nsPerDay * nsPerDay + time_hour t * nsPerHour + time_minute t * (60 * nsPerSecond) + time_second t * nsPerSecond + time_nano t"
proof -
  have h: "nsPerHour = 60 * (60 * nsPerSecond)" by (simp add: nsPerHour_def nsPerSecond_def)
  have "t mod nsPerDay mod nsPerHour = t mod nsPerHour" by (simp add: day_of_hours mod_mult_right_eq mod_mod_cancel)
  then have a: "t mod nsPerDay = time_hour t * nsPerHour + t mod nsPerHour"
    unfolding time_hour_def by (metis div_mult_mod_eq)
  have "t mod nsPerHour mod (60 * nsPerSecond) = t mod (60 * nsPerSecond)" unfolding h by (rule mod_mod_cancel) simp
  then have b: "t mod nsPerHour = time_minute t * (60 * nsPerSecond) + t mod (60 * nsPerSecond)"
    unfolding time_minute_def by (metis div_mult_mod_eq)
  have "t mod (60 * nsPerSecond) mod nsPerSecond = t mod nsPerSecond" by (rule mod_mod_cancel) simp
  then have c: "t mod (60 * nsPerSecond) = time_second t * nsPerSecond + time_nano t"
    unfolding time_second_def time_nano_def by (metis div_mult_mod_eq)
  have "t = t div nsPerDay * nsPerDay + t mod nsPerDay" by simp
  then show ?thesis using a b c by linarith
qed

lemma clock_bounds: "0 \<le> time_minute t" "time_minute t \<le> 59" "0 \<le> time_second t" "time_second t \<le> 59"
  "0 \<le> time_nano t" "time_nano t < nsPerSecond"
proof -
  have ratio: "x mod (60 * m) div m \<le> 59" if "0 < m" for x m :: int
  proof -
    have "x mod (60 * m) div m * m \<le> x mod (60 * m)"
      using div_mult_mod_eq [of "x mod (60 * m)" m] pos_mod_sign [OF that, of "x mod (60 * m)"] by linarith
    moreover have "x mod (60 * m) < 60 * m" using that by simp
    ultimately have "x mod (60 * m) div m * m < 60 * m" by linarith
    then show ?thesis using that by (simp add: mult_less_cancel_right)
  qed
  have "nsPerHour = 60 * (60 * nsPerSecond)" "0 < nsPerSecond" by (simp_all add: nsPerHour_def nsPerSecond_def)
  then show "time_minute t \<le> 59" "time_second t \<le> 59" "0 \<le> time_minute t" "0 \<le> time_second t" "0 \<le> time_nano t" "time_nano t < nsPerSecond"
    using ratio [of "60 * nsPerSecond" t] ratio [of nsPerSecond t]
    by (simp_all add: time_minute_def time_second_def time_nano_def pos_imp_zdiv_nonneg_iff)
qed

lemma parse_format_time:
  assumes "yearInRange t" shows "parseRFC3339 (formatRFC3339Nano t) = Some t"
proof -
  obtain y m d where c: "civil (t div nsPerDay) = (y, m, d)" by (metis prod_cases3)
  note s = civil_spec [OF c] civil_daysIn [OF c] and b = clock_bounds [of t] and h = time_hour_bounds [of t]
  have y: "0 \<le> y" "y \<le> 9999" using assms by (simp_all add: yearInRange_def c)
  have f: "timeField 4 0 9999 (appendInt 4 y @ r) = Some (y, r)" "timeField 2 1 12 (appendInt 2 m @ r) = Some (m, r)"
    "timeField 2 1 (daysIn m y) (appendInt 2 d @ r) = Some (d, r)" "timeField 2 0 23 (appendInt 2 (time_hour t) @ r) = Some (time_hour t, r)"
    "timeField 2 0 59 (appendInt 2 (time_minute t) @ r) = Some (time_minute t, r)"
    "timeField 2 0 59 (appendInt 2 (time_second t) @ r) = Some (time_second t, r)" for r
    using y s b h by (auto intro!: timeField_appendInt)
  have "time_Date y m d (time_hour t) + time_minute t * (60 * nsPerSecond) + time_second t * nsPerSecond + time_nano t = t"
    using clock_parts [of t] s(1) by (simp add: time_Date_def)
  then show ?thesis
    by (simp add: parseRFC3339_def formatRFC3339Nano_def formatDate_def formatHour_def c f timeFraction_formatNanos [OF b(5,6)] zoneOffset_def)
qed

end
