(* ===== verification/RecordLine.thy ===== *)
theory RecordLine
  imports Warm Rfc3339
begin

text \<open>
  The line half of the archive format: a record as one JSON object per line, as the S3 sink writes it
  (\<open>internal/sink/s3/object.go\<close>, \<open>lineEncoder\<close> and \<open>marshalRecordLine\<close>, over the tags of
  \<open>internal/sink/record.go\<close>) and as the reader decodes it (\<open>internal/query/objectsource/line.go\<close>), with
  the scope log's own line (\<open>internal/sink/s3/scopewriter.go\<close>).

  Whether an empty map or slice of a record is nil is an argument: Go renders the one as \<open>null\<close> and the
  other as \<open>{}\<close> or \<open>[]\<close>, and a record of the development does not tell them apart.
\<close>

section \<open>Rendering\<close>

text \<open>\<open>SetEscapeHTML(false)\<close>: three characters fewer are escaped.\<close>

definition escape_char_line :: "char \<Rightarrow> string" where
  "escape_char_line c = (if c = CHR ''<'' \<or> c = CHR ''>'' \<or> c = CHR ''&'' then [c] else escape_char c)"

definition quoted :: "string \<Rightarrow> string" where
  "quoted s = CHR 0x22 # s @ [CHR 0x22]"

definition line_string :: "string \<Rightarrow> string" where
  "line_string s = quoted (escape_with escape_char_line s)"

definition line_time :: "go_time \<Rightarrow> string option" where
  "line_time t = (if yearInRange t then Some (quoted (formatRFC3339Nano t)) else None)"

definition line_strings :: "bool \<Rightarrow> string list \<Rightarrow> string" where
  "line_strings isnil xs = (if isnil \<and> xs = [] then ''null'' else ''['' @ join_with '','' (map line_string xs) @ '']'')"

definition line_member :: "string \<times> string \<Rightarrow> string" where
  "line_member kv = line_string (fst kv) @ '':'' @ line_string (snd kv)"

definition line_map :: "bool \<Rightarrow> (string, string) gomap \<Rightarrow> string" where
  "line_map isnil m =
     (if isnil \<and> m = [] then ''null'' else ''{'' @ join_with '','' (map line_member (sort_key fst m)) @ ''}'')"

definition line_field :: "string \<times> string \<Rightarrow> string" where
  "line_field kt = quoted (fst kt) @ '':'' @ snd kt"

definition line_struct :: "(string \<times> string) list \<Rightarrow> string" where
  "line_struct fs = ''{'' @ join_with '','' (map line_field fs) @ ''}''"

definition newline :: char where
  "newline = CHR 0x0A"

definition recordFields :: "bool \<Rightarrow> string \<Rightarrow> sink_record \<Rightarrow> (string \<times> string) list" where
  "recordFields isnil ts r =
     [(''timestamp'', ts), (''cluster_id'', line_string (rec_ClusterID r)), (''event_type'', line_string (rec_EventType r)),
      (''group'', line_string (rec_APIGroup r)), (''version'', line_string (rec_APIVersion r)), (''kind'', line_string (rec_Kind r)),
      (''namespace'', line_string (rec_Namespace r)), (''name'', line_string (rec_Name r)), (''uid'', line_string (rec_UID r)),
      (''resource_version'', line_string (rec_ResourceVersion r)), (''labels'', line_map isnil (rec_Labels r)),
      (''actors'', line_strings isnil (rec_Actors r)), (''data'', line_string (rec_Data r)), (''diff'', line_string (rec_Diff r)),
      (''sha256'', line_string (rec_SHA256 r))]"

definition marshalRecordLine :: "bool \<Rightarrow> sink_record \<Rightarrow> string option" where
  "marshalRecordLine isnil r =
     (case line_time (rec_Timestamp r) of
        None \<Rightarrow> None
      | Some ts \<Rightarrow> Some (line_struct (recordFields isnil ts r) @ [newline]))"

text \<open>The scope log's line.\<close>

definition scopeEventLine :: "ScopeEvent \<Rightarrow> string option" where
  "scopeEventLine e =
     (case line_time (se_TS e) of
        None \<Rightarrow> None
      | Some ts \<Rightarrow>
          Some (line_struct
            [(''ts'', ts), (''cluster_id'', line_string (sf_ClusterID (se_Scope e))), (''group'', line_string (sf_APIGroup (se_Scope e))),
             (''version'', line_string (se_APIVersion e)), (''kind'', line_string (sf_Kind (se_Scope e))),
             (''namespace'', line_string (sf_Namespace (se_Scope e))), (''action'', line_string (se_Action e)),
             (''rule_ref'', line_string (se_RuleRef e))] @ [newline]))"

section \<open>Reading\<close>

text \<open>A member that is absent or null leaves its field as it is; one of another type is an error.\<close>

definition field_string :: "(string, json) gomap \<Rightarrow> string \<Rightarrow> string option" where
  "field_string kvs k =
     (case gm_get kvs k of None \<Rightarrow> Some [] | Some JNull \<Rightarrow> Some [] | Some (JStr s) \<Rightarrow> Some s | Some _ \<Rightarrow> None)"

definition element_string :: "json \<Rightarrow> string option" where
  "element_string v = (case v of JStr s \<Rightarrow> Some s | JNull \<Rightarrow> Some [] | _ \<Rightarrow> None)"

definition field_strings :: "(string, json) gomap \<Rightarrow> string \<Rightarrow> string list option" where
  "field_strings kvs k =
     (case gm_get kvs k of
        None \<Rightarrow> Some [] | Some JNull \<Rightarrow> Some [] | Some (JArr xs) \<Rightarrow> all_some (map element_string xs) | Some _ \<Rightarrow> None)"

definition field_map :: "(string, json) gomap \<Rightarrow> string \<Rightarrow> (string, string) gomap option" where
  "field_map kvs k =
     (case gm_get kvs k of
        None \<Rightarrow> Some [] | Some JNull \<Rightarrow> Some []
      | Some (JObj m) \<Rightarrow> all_some (map (\<lambda>(a, v). map_option (\<lambda>s. (a, s)) (element_string v)) m)
      | Some _ \<Rightarrow> None)"

definition field_time :: "(string, json) gomap \<Rightarrow> string \<Rightarrow> go_time option" where
  "field_time kvs k =
     (case gm_get kvs k of None \<Rightarrow> Some 0 | Some JNull \<Rightarrow> Some 0 | Some (JStr s) \<Rightarrow> parseRFC3339 s | Some _ \<Rightarrow> None)"

definition struct_members :: "json \<Rightarrow> (string, json) gomap option" where
  "struct_members v = (case v of JObj kvs \<Rightarrow> Some kvs | JNull \<Rightarrow> Some [] | _ \<Rightarrow> None)"

definition decodeRecord :: "json \<Rightarrow> sink_record option" where
  "decodeRecord v =
     do { kvs \<leftarrow> struct_members v;
          ts \<leftarrow> field_time kvs ''timestamp''; cluster \<leftarrow> field_string kvs ''cluster_id'';
          event \<leftarrow> field_string kvs ''event_type''; grp \<leftarrow> field_string kvs ''group'';
          version \<leftarrow> field_string kvs ''version''; kind \<leftarrow> field_string kvs ''kind'';
          ns \<leftarrow> field_string kvs ''namespace''; name \<leftarrow> field_string kvs ''name''; uid \<leftarrow> field_string kvs ''uid'';
          rv \<leftarrow> field_string kvs ''resource_version''; labels \<leftarrow> field_map kvs ''labels'';
          actors \<leftarrow> field_strings kvs ''actors''; data \<leftarrow> field_string kvs ''data'';
          diff \<leftarrow> field_string kvs ''diff''; sha \<leftarrow> field_string kvs ''sha256'';
          Some \<lparr>rec_Timestamp = ts, rec_ClusterID = cluster, rec_EventType = event, rec_APIGroup = grp, rec_APIVersion = version,
                rec_Kind = kind, rec_Namespace = ns, rec_Name = name, rec_UID = uid, rec_ResourceVersion = rv, rec_Labels = labels,
                rec_Actors = actors, rec_Data = data, rec_Diff = diff, rec_SHA256 = sha\<rparr> }"

definition decodeScopeLine :: "json \<Rightarrow> ScopeEvent option" where
  "decodeScopeLine v =
     do { kvs \<leftarrow> struct_members v;
          ts \<leftarrow> field_time kvs ''ts''; cluster \<leftarrow> field_string kvs ''cluster_id''; grp \<leftarrow> field_string kvs ''group'';
          version \<leftarrow> field_string kvs ''version''; kind \<leftarrow> field_string kvs ''kind''; ns \<leftarrow> field_string kvs ''namespace'';
          action \<leftarrow> field_string kvs ''action''; rule \<leftarrow> field_string kvs ''rule_ref'';
          Some \<lparr>se_Action = action, se_Scope = \<lparr>sf_ClusterID = cluster, sf_APIGroup = grp, sf_Kind = kind, sf_Namespace = ns\<rparr>,
                se_APIVersion = version, se_RuleRef = rule, se_TS = ts\<rparr> }"

text \<open>
  \<open>json.Decoder\<close> over a stream of values: the end of the input between two values ends it, anything
  else that is not a value of the wanted shape is an error (\<^const>\<open>None\<close>). Every value takes at least one
  character, so the length of the text is fuel enough.
\<close>

fun decodeStream :: "(json \<Rightarrow> 'a option) \<Rightarrow> nat \<Rightarrow> string \<Rightarrow> 'a list option" where
  "decodeStream dec n s =
     (if skip_ws s = [] then Some []
      else case n of
             0 \<Rightarrow> None
           | Suc n \<Rightarrow>
               (case parse_value (length s) s of
                  None \<Rightarrow> None
                | Some (v, rest) \<Rightarrow>
                    (case dec v of None \<Rightarrow> None | Some x \<Rightarrow> map_option (\<lambda>xs. x # xs) (decodeStream dec n rest))))"

definition decodeLines :: "(json \<Rightarrow> 'a option) \<Rightarrow> string \<Rightarrow> 'a list option" where
  "decodeLines dec s = decodeStream dec (length s) s"

declare decodeStream.simps [simp del]

section \<open>Reading back what was written\<close>

lemma parse_str_escape_char_line: "parse_str (escape_char_line c @ cs) = consume [c] (parse_str cs)"
proof (cases "c = CHR ''<'' \<or> c = CHR ''>'' \<or> c = CHR ''&''")
  case True
  then have "escape_char_line c = [c]" "c \<noteq> CHR 0x22" "c \<noteq> CHR 0x5C" "\<not> (of_char c :: nat) < 32"
    by (auto simp: escape_char_line_def)
  then show ?thesis by (simp add: parse_str_plain)
next
  case False
  then have "escape_char_line c = escape_char c" unfolding escape_char_line_def by (simp only: if_False)
  then show ?thesis by (simp add: parse_str_escape_char)
qed

lemma reads_quoted: "(\<And>rest. parse_str (q @ CHR 0x22 # rest) = Some (s, rest)) \<Longrightarrow> reads (quoted q) (JStr s)"
  unfolding reads_def
proof (intro allI impI)
  fix rest n assume q: "\<And>rest. parse_str (q @ CHR 0x22 # rest) = Some (s, rest)" and len: "length (quoted q) \<le> n"
  obtain m where "n = Suc m" using len by (cases n) (auto simp: quoted_def)
  then show "parse_value n (quoted q @ rest) = Some (JStr s, rest)"
    using q by (simp add: quoted_def parse_value.simps skip_ws_nonspace)
qed

lemma reads_line_string: "reads (line_string s) (JStr s)"
  unfolding line_string_def by (rule reads_quoted) (rule parse_str_escape_with [OF parse_str_escape_char_line])

text \<open>Texts that need no escape: field names and instants.\<close>

definition plain_char :: "char \<Rightarrow> bool" where
  "plain_char c \<longleftrightarrow> c \<noteq> CHR 0x22 \<and> c \<noteq> CHR 0x5C \<and> \<not> (of_char c :: nat) < 32"

lemma parse_str_plain_text: "list_all plain_char s \<Longrightarrow> parse_str (s @ CHR 0x22 # rest) = Some (s, rest)"
  by (induction s) (auto simp: parse_str_quote parse_str_plain plain_char_def)

lemma plain_digit: "is_digit c \<Longrightarrow> plain_char c"
  by (auto simp: is_digit_def plain_char_def)

lemma plain_time: "list_all plain_char (formatRFC3339Nano t)"
proof -
  have n: "plain_char c" if "c \<in> set (appendInt w x)" for c w x
    using appendInt_chars [OF that] plain_digit by (auto simp: plain_char_def)
  have f: "plain_char c" if "c \<in> set (formatNanos x)" for c x
  proof (cases "x = 0 \<or> c = CHR ''.''")
    case False
    then have "c \<in> set (appendInt 9 x)" using that by (auto simp: formatNanos_def dest!: set_dropWhileD)
    then show ?thesis by (rule n)
  qed (use that in \<open>auto simp: formatNanos_def plain_char_def\<close>)
  have "list_all plain_char (appendInt w x)" "list_all plain_char (formatNanos x)" for w x
    using n f by (simp_all add: list_all_iff)
  moreover have "plain_char (CHR ''-'')" "plain_char (CHR '':'')" "plain_char (CHR ''T'')" "plain_char (CHR ''Z'')"
    by (simp_all add: plain_char_def)
  ultimately show ?thesis
    by (simp add: formatRFC3339Nano_def formatDate_def formatHour_def split: prod.splits)
qed

lemma reads_line_time: "line_time t = Some ts \<Longrightarrow> reads ts (JStr (formatRFC3339Nano t))"
  by (auto simp: line_time_def plain_time parse_str_plain_text intro!: reads_quoted split: if_splits)

lemma reads_null: "reads ''null'' JNull"
  using parses_back_literals(1) by (simp add: parses_back_def)

lemma reads_line_strings: "reads (line_strings isnil xs) (if isnil \<and> xs = [] then JNull else JArr (map JStr xs))"
proof -
  have "reads (''['' @ join_with '','' (map line_string xs) @ '']'') (JArr (map JStr xs))"
  proof (rule reads_array)
    show "list_all2 reads (map line_string xs) (map JStr xs)"
      by (simp add: list_all2_map1 list_all2_map2 list.rel_refl reads_line_string)
    show "list_all value_start (map line_string xs)"
      by (simp add: list_all_iff value_start_def line_string_def quoted_def)
  qed
  then show ?thesis by (auto simp: line_strings_def reads_null)
qed

lemma reads_line_map:
  assumes "gm_wf m"
  shows "reads (line_map isnil m) (if isnil \<and> m = [] then JNull else JObj (map (\<lambda>(k, v). (k, JStr v)) (sort_key fst m)))"
proof -
  define kvs where "kvs = map (\<lambda>(k, v). (k, JStr v)) (sort_key fst m)"
  have "reads_member (line_member kv) (fst kv, JStr (snd kv))" for kv
    unfolding reads_member_def line_member_def
    by (rule exI [of _ "escape_with escape_char_line (fst kv) @ [CHR 0x22]"], rule exI [of _ "line_string (snd kv)"])
      (simp add: line_string_def [of "fst kv"] quoted_def reads_line_string parse_str_escape_with [OF parse_str_escape_char_line])
  then have "list_all2 reads_member (map line_member (sort_key fst m)) kvs"
    by (auto simp: kvs_def list_all2_map1 list_all2_map2 case_prod_beta intro: list.rel_refl)
  note r = reads_object [OF this]
  have "distinct (map fst (sort_key fst m))" 
    using assms by (metis gm_wf_def distinct_map distinct_sort set_sort)
  then have "sorted_wrt (<) (map fst kvs)" by (simp add: kvs_def strict_sorted_iff comp_def case_prod_beta)
  from r [unfolded obj_of_sorted [OF this]] show ?thesis by (auto simp: line_map_def kvs_def reads_null)
qed

lemma reads_struct:
  assumes "list_all2 (\<lambda>kt kv. fst kt = fst kv \<and> reads (snd kt) (snd kv)) fs kvs" and "list_all (\<lambda>kt. list_all plain_char (fst kt)) fs"
    and "gm_wf kvs"
  shows "\<exists>m. reads (line_struct fs) (JObj m) \<and> (\<forall>k. gm_get m k = gm_get kvs k)"
proof -
  have "list_all2 reads_member (map line_field fs) kvs"
    using assms(1,2)
  proof (induction fs kvs rule: list_all2_induct)
    case (Cons kt fs kv kvs)
    have "reads_member (line_field kt) kv"
      unfolding reads_member_def line_field_def using Cons.hyps Cons.prems
      by (intro exI [of _ "fst kt @ [CHR 0x22]"] exI [of _ "snd kt"]) (simp add: quoted_def parse_str_plain_text)
    with Cons show ?case by simp
  qed simp
  from reads_object [OF this] have "reads (line_struct fs) (JObj (obj_of kvs))" by (simp add: line_struct_def)
  then show ?thesis using gm_get_obj_of [OF assms(3)] by blast
qed

text \<open>The same record with its labels listed in key order, which is how a decoded map is listed.\<close>

definition canonical_record :: "sink_record \<Rightarrow> sink_record" where
  "canonical_record r = r\<lparr>rec_Labels := sort_key fst (rec_Labels r)\<rparr>"

lemma all_some_map_Some: "all_some (map (\<lambda>x. Some (f x)) xs) = Some (map f xs)"
  by (induction xs) simp_all

lemma element_strings [simp]: "all_some (map element_string (map JStr xs)) = Some xs"
  using all_some_map_Some [of "\<lambda>x. x" xs] by (simp add: comp_def element_string_def)

lemma element_map [simp]:
  "all_some (map (\<lambda>(a, v). map_option (\<lambda>s. (a, s)) (element_string v)) (map (\<lambda>(k, v). (k, JStr v)) m)) = Some m"
  using all_some_map_Some [of "\<lambda>x. x" m] by (simp add: comp_def case_prod_beta element_string_def)

lemma decodeRecord_members:
  assumes "\<And>k. gm_get m k = gm_get [(''timestamp'', JStr (formatRFC3339Nano (rec_Timestamp r))), (''cluster_id'', JStr (rec_ClusterID r)),
      (''event_type'', JStr (rec_EventType r)), (''group'', JStr (rec_APIGroup r)), (''version'', JStr (rec_APIVersion r)),
      (''kind'', JStr (rec_Kind r)), (''namespace'', JStr (rec_Namespace r)), (''name'', JStr (rec_Name r)), (''uid'', JStr (rec_UID r)),
      (''resource_version'', JStr (rec_ResourceVersion r)), (''labels'', labels), (''actors'', actors), (''data'', JStr (rec_Data r)),
      (''diff'', JStr (rec_Diff r)), (''sha256'', JStr (rec_SHA256 r))] k"
    and "yearInRange (rec_Timestamp r)"
    and "labels = (if isnil \<and> rec_Labels r = [] then JNull else JObj (map (\<lambda>(k, v). (k, JStr v)) (sort_key fst (rec_Labels r))))"
    and "actors = (if isnil \<and> rec_Actors r = [] then JNull else JArr (map JStr (rec_Actors r)))"
  shows "decodeRecord (JObj m) = Some (canonical_record r)"
proof -
  have "field_map m ''labels'' = Some (sort_key fst (rec_Labels r))"
    unfolding field_map_def assms(1) assms(3) by (simp add: gm_get_Cons del: map_map)
  moreover have "field_strings m ''actors'' = Some (rec_Actors r)"
    unfolding field_strings_def assms(1) assms(4) by (simp add: gm_get_Cons del: map_map)
  ultimately show ?thesis
    by (simp add: decodeRecord_def struct_members_def field_string_def field_time_def assms(1) gm_get_Cons parse_format_time [OF assms(2)]
        canonical_record_def)
qed

lemma record_line_reads:
  assumes "marshalRecordLine isnil r = Some line" and "gm_wf (rec_Labels r)"
  shows "\<exists>t v. line = t @ [newline] \<and> reads t v \<and> decodeRecord v = Some (canonical_record r)"
proof -
  obtain ts where ts: "line_time (rec_Timestamp r) = Some ts" and line: "line = line_struct (recordFields isnil ts r) @ [newline]"
    using assms(1) by (auto simp: marshalRecordLine_def split: option.splits)
  define labels where "labels = (if isnil \<and> rec_Labels r = [] then JNull else JObj (map (\<lambda>(k, v). (k, JStr v)) (sort_key fst (rec_Labels r))))"
  define actors where "actors = (if isnil \<and> rec_Actors r = [] then JNull else JArr (map JStr (rec_Actors r)))"
  have reads: "reads ts (JStr (formatRFC3339Nano (rec_Timestamp r)))" "reads (line_map isnil (rec_Labels r)) labels"
    "reads (line_strings isnil (rec_Actors r)) actors"
    using reads_line_time [OF ts] reads_line_map [OF assms(2)] reads_line_strings by (simp_all add: labels_def actors_def)
  have "yearInRange (rec_Timestamp r)" using ts by (simp add: line_time_def split: if_splits)
  moreover obtain m where "reads (line_struct (recordFields isnil ts r)) (JObj m)"
    and "\<And>k. gm_get m k = gm_get [(''timestamp'', JStr (formatRFC3339Nano (rec_Timestamp r))), (''cluster_id'', JStr (rec_ClusterID r)),
      (''event_type'', JStr (rec_EventType r)), (''group'', JStr (rec_APIGroup r)), (''version'', JStr (rec_APIVersion r)),
      (''kind'', JStr (rec_Kind r)), (''namespace'', JStr (rec_Namespace r)), (''name'', JStr (rec_Name r)), (''uid'', JStr (rec_UID r)),
      (''resource_version'', JStr (rec_ResourceVersion r)), (''labels'', labels), (''actors'', actors), (''data'', JStr (rec_Data r)),
      (''diff'', JStr (rec_Diff r)), (''sha256'', JStr (rec_SHA256 r))] k"
    using reads_struct [of "recordFields isnil ts r" "[(''timestamp'', JStr (formatRFC3339Nano (rec_Timestamp r))), (''cluster_id'', JStr (rec_ClusterID r)),
      (''event_type'', JStr (rec_EventType r)), (''group'', JStr (rec_APIGroup r)), (''version'', JStr (rec_APIVersion r)),
      (''kind'', JStr (rec_Kind r)), (''namespace'', JStr (rec_Namespace r)), (''name'', JStr (rec_Name r)), (''uid'', JStr (rec_UID r)),
      (''resource_version'', JStr (rec_ResourceVersion r)), (''labels'', labels), (''actors'', actors), (''data'', JStr (rec_Data r)),
      (''diff'', JStr (rec_Diff r)), (''sha256'', JStr (rec_SHA256 r))]"] reads
    by (auto simp: recordFields_def reads_line_string plain_char_def gm_wf_def)
  ultimately show ?thesis
    using decodeRecord_members [OF _ _ labels_def actors_def] line by blast
qed

text \<open>White space before a value is skipped.\<close>

lemma skip_ws_spaces: "list_all is_space w \<Longrightarrow> skip_ws (w @ s) = skip_ws s"
  by (induction w) (simp_all add: skip_ws_def)

lemma parse_value_spaces: "list_all is_space w \<Longrightarrow> parse_value n (w @ s) = parse_value n s"
  by (cases n) (simp_all add: parse_value.simps skip_ws_spaces)

lemma decode_stream_lines:
  assumes "list_all2 (\<lambda>line x. \<exists>t v. line = t @ [newline] \<and> reads t v \<and> dec v = Some x) lines xs" and "length lines \<le> n"
    and "list_all is_space w"
  shows "decodeStream dec n (w @ concat lines) = Some xs"
  using assms
proof (induction lines xs arbitrary: n w rule: list_all2_induct)
  case Nil
  then show ?case using skip_ws_spaces [of w "[]"] by (simp add: decodeStream.simps skip_ws_def)
next
  case (Cons line lines x xs)
  then obtain t v where t: "line = t @ [newline]" "reads t v" "dec v = Some x" by blast
  obtain m where n: "n = Suc m" using Cons.prems(1) by (cases n) auto
  define s where "s = t @ newline # concat lines"
  have "num_end (newline # concat lines)" by (simp add: num_end_def newline_def is_digit_def)
  with t(2) have p: "parse_value k s = Some (v, newline # concat lines)" if "length t \<le> k" for k
    using that unfolding reads_def s_def by blast
  have "skip_ws s \<noteq> []"
  proof
    assume "skip_ws s = []"
    then have "parse_value (Suc (length t)) s = None" by (simp add: parse_value.simps)
    with p [of "Suc (length t)"] show False by simp
  qed
  moreover have "decodeStream dec m (newline # concat lines) = Some xs"
    using Cons.IH [of m "[newline]"] Cons.prems(1) by (simp add: n newline_def is_space_def)
  moreover have "parse_value (length (w @ s)) (w @ s) = Some (v, newline # concat lines)"
    using p Cons.prems(2) by (simp add: parse_value_spaces s_def)
  ultimately show ?case
    using Cons.prems(2) t by (simp add: n decodeStream.simps [of dec "Suc m"] skip_ws_spaces s_def)
qed

lemma decodeLines_back:
  assumes "list_all2 (\<lambda>line x. \<exists>t v. line = t @ [newline] \<and> reads t v \<and> dec v = Some x) lines xs"
  shows "decodeLines dec (concat lines) = Some xs"
proof -
  have "length lines \<le> length (concat lines)"
    using assms by (induction lines xs rule: list_all2_induct) auto
  from decode_stream_lines [OF assms this, of "[]"] show ?thesis by (simp add: decodeLines_def)
qed

lemma scope_line_reads:
  assumes "scopeEventLine e = Some line"
  shows "\<exists>t v. line = t @ [newline] \<and> reads t v \<and> decodeScopeLine v = Some e"
proof -
  obtain ts where ts: "line_time (se_TS e) = Some ts" using assms by (auto simp: scopeEventLine_def split: option.splits)
  define fs where "fs = [(''ts'', ts), (''cluster_id'', line_string (sf_ClusterID (se_Scope e))), (''group'', line_string (sf_APIGroup (se_Scope e))),
    (''version'', line_string (se_APIVersion e)), (''kind'', line_string (sf_Kind (se_Scope e))),
    (''namespace'', line_string (sf_Namespace (se_Scope e))), (''action'', line_string (se_Action e)), (''rule_ref'', line_string (se_RuleRef e))]"
  define kvs where "kvs = [(''ts'', JStr (formatRFC3339Nano (se_TS e))), (''cluster_id'', JStr (sf_ClusterID (se_Scope e))),
    (''group'', JStr (sf_APIGroup (se_Scope e))), (''version'', JStr (se_APIVersion e)), (''kind'', JStr (sf_Kind (se_Scope e))),
    (''namespace'', JStr (sf_Namespace (se_Scope e))), (''action'', JStr (se_Action e)), (''rule_ref'', JStr (se_RuleRef e))]"
  have line: "line = line_struct fs @ [newline]" using assms by (simp add: scopeEventLine_def ts fs_def)
  have "list_all2 (\<lambda>kt kv. fst kt = fst kv \<and> reads (snd kt) (snd kv)) fs kvs" "list_all (\<lambda>kt. list_all plain_char (fst kt)) fs" "gm_wf kvs"
    using reads_line_time [OF ts] by (simp_all add: fs_def kvs_def reads_line_string plain_char_def gm_wf_def)
  then obtain m where m: "reads (line_struct fs) (JObj m)" "\<And>k. gm_get m k = gm_get kvs k" using reads_struct by blast
  have "yearInRange (se_TS e)" using ts by (simp add: line_time_def split: if_splits)
  then have "decodeScopeLine (JObj m) = Some e"
    by (simp add: decodeScopeLine_def struct_members_def field_string_def field_time_def m(2) kvs_def gm_get_Cons parse_format_time)
  with line m(1) show ?thesis by blast
qed

end
