(* ===== verification/Layout.thy ===== *)
theory Layout
  imports Civil
begin

text \<open>
  The archive's key layout, as the S3 sink writes it (\<open>internal/sink/s3/encoder.go\<close>, \<open>objectKey\<close>) and as
  the reader prunes it (\<open>internal/query/objectsource/layout.go\<close>, \<open>clusters.go\<close>): the partitions a window
  resolves to list every object whose hour is in range once, and no other.
\<close>

section \<open>Keys\<close>

definition formatPartition :: string where
  "formatPartition = ''format=jsonl-v1''"

definition scopesPartition :: string where
  "scopesPartition = ''scopes''"

definition clusterSegment :: string where
  "clusterSegment = ''cluster_id=''"

definition dateSegment :: string where
  "dateSegment = ''date=''"

definition hourSegment :: string where
  "hourSegment = ''hour=''"

definition objectSuffix :: string where
  "objectSuffix = ''.jsonl.zst''"

definition hoursPerDay :: int where
  "hoursPerDay = 24"

text \<open>The writer's key.\<close>

definition objectKey :: "string \<Rightarrow> string \<Rightarrow> go_time \<Rightarrow> string \<Rightarrow> string" where
  "objectKey pfx clusterID ts contentHash =
     join_with ''/'' ((if pfx \<noteq> [] then [pfx] else []) @
       [formatPartition, ''cluster_id='' @ clusterID, ''date='' @ formatDate ts, ''hour='' @ formatHour ts,
        contentHash @ objectSuffix])"

text \<open>The reader's account of it; \<open>strings.Trim(s, "/")\<close> drops the separator at both ends.\<close>

definition trimSlashes :: "string \<Rightarrow> string" where
  "trimSlashes s = rev (dropWhile (\<lambda>c. c = CHR ''/'') (rev (dropWhile (\<lambda>c. c = CHR ''/'') s)))"

definition joinSegments :: "string list \<Rightarrow> string" where
  "joinSegments segments = join_with ''/'' (map trimSlashes (filter (\<lambda>s. s \<noteq> []) segments))"

definition recordsRoot :: "string \<Rightarrow> string \<Rightarrow> string" where
  "recordsRoot pfx clusterID = joinSegments [pfx, formatPartition, clusterSegment @ clusterID] @ ''/''"

definition scopesRoot :: "string \<Rightarrow> string" where
  "scopesRoot pfx = joinSegments [pfx, formatPartition, scopesPartition] @ ''/''"

definition isObjectKey :: "string \<Rightarrow> bool" where
  "isObjectKey key = suffix objectSuffix key"

record archive_partition =
  pt_prefix :: string
  pt_start :: go_time

definition dayPartition :: "string \<Rightarrow> go_time \<Rightarrow> archive_partition" where
  "dayPartition root day = \<lparr>pt_prefix = root @ dateSegment @ formatDate day @ ''/'', pt_start = day\<rparr>"

definition hourPartition :: "string \<Rightarrow> go_time \<Rightarrow> archive_partition" where
  "hourPartition root cur =
     \<lparr>pt_prefix = root @ dateSegment @ formatDate cur @ ''/'' @ hourSegment @ formatHour cur @ ''/'', pt_start = cur\<rparr>"


function spansFrom :: "string \<Rightarrow> go_time \<Rightarrow> go_time \<Rightarrow> archive_partition list" where
  "spansFrom root cur stop =
     (if cur > stop then []
      else let day = dayStart cur; lastHourOfDay = day + (hoursPerDay - 1) * nsPerHour
           in if cur = day \<and> \<not> lastHourOfDay > stop then dayPartition root day # spansFrom root (addDays 1 day) stop
              else hourPartition root cur # spansFrom root (cur + nsPerHour) stop)"
  by pat_completeness auto
termination
proof (relation "measure (\<lambda>(root, cur, stop). nat (stop + 1 - cur))")
  fix root :: string and cur stop day lastHourOfDay :: go_time
  assume le: "\<not> cur > stop" and "cur = day \<and> \<not> lastHourOfDay > stop"
  then have "addDays 1 day = cur + nsPerDay" by (simp add: addDays_eq)
  moreover have "0 < nsPerDay" by (simp add: day_of_hours)
  ultimately show "((root, addDays 1 day, stop), root, cur, stop) \<in> measure (\<lambda>(root, cur, stop). nat (stop + 1 - cur))"
    using le by simp
next
  fix root :: string and cur stop :: go_time
  assume "\<not> cur > stop"
  then show "((root, cur + nsPerHour, stop), root, cur, stop) \<in> measure (\<lambda>(root, cur, stop). nat (stop + 1 - cur))"
    by simp
qed simp

declare spansFrom.simps [simp del]

definition partitionSpans :: "string \<Rightarrow> go_time \<Rightarrow> go_time \<Rightarrow> go_duration \<Rightarrow> archive_partition list" where
  "partitionSpans root from_ts to_ts span = spansFrom root (hourStart (from_ts - span)) (hourStart to_ts)"

definition prefixesOf :: "archive_partition list \<Rightarrow> string list" where
  "prefixesOf spans = map pt_prefix spans"

definition partitionPrefixes :: "string \<Rightarrow> go_time \<Rightarrow> go_time \<Rightarrow> go_duration \<Rightarrow> string list" where
  "partitionPrefixes root from_ts to_ts span = prefixesOf (partitionSpans root from_ts to_ts span)"

text \<open>One day, clipped to the hours at or before an instant.\<close>

function hoursThrough :: "string \<Rightarrow> go_time \<Rightarrow> go_time \<Rightarrow> string list" where
  "hoursThrough root cur last_hour =
     (if cur > last_hour then [] else pt_prefix (hourPartition root cur) # hoursThrough root (cur + nsPerHour) last_hour)"
  by pat_completeness auto
termination
  by (relation "measure (\<lambda>(root, cur, stop). nat (stop + 1 - cur))") simp_all

declare hoursThrough.simps [simp del]

definition dayPrefixes :: "string \<Rightarrow> go_time \<Rightarrow> go_time \<Rightarrow> string list" where
  "dayPrefixes root day through =
     (let day = dayStart day; last_hour = hourStart through
      in if last_hour < day then []
         else if \<not> last_hour < day + (hoursPerDay - 1) * nsPerHour then [pt_prefix (dayPartition root day)]
         else hoursThrough root day last_hour)"

text \<open>The cluster a record key is filed under, below the root it was listed with.\<close>

definition cutPrefix :: "string \<Rightarrow> string \<Rightarrow> string option" where
  "cutPrefix s p = (if has_prefix s p then Some (drop (length p) s) else None)"

definition cutSlash :: "string \<Rightarrow> (string \<times> string) option" where
  "cutSlash s = (case cut_before (\<lambda>c. c = CHR ''/'') s of (a, []) \<Rightarrow> None | (a, _ # b) \<Rightarrow> Some (a, b))"

definition clusterIDOf :: "string \<Rightarrow> string \<Rightarrow> string option" where
  "clusterIDOf key root =
     (case cutPrefix key root of
        None \<Rightarrow> None
      | Some rest \<Rightarrow>
          (case cutSlash rest of
             None \<Rightarrow> None
           | Some (segment, _) \<Rightarrow>
               (case cutPrefix segment clusterSegment of
                  None \<Rightarrow> None
                | Some i \<Rightarrow> if i = [] then None else Some i)))"

section \<open>Lemmas on keys\<close>

text \<open>A segment the reader's trimming leaves alone: what the CRD's pattern promises of a prefix.\<close>

definition plain_segment :: "string \<Rightarrow> bool" where
  "plain_segment s \<longleftrightarrow> s \<noteq> [] \<longrightarrow> hd s \<noteq> CHR ''/'' \<and> last s \<noteq> CHR ''/''"

lemma trimSlashes_plain: "plain_segment s \<Longrightarrow> trimSlashes s = s"
proof (cases "s = []")
  case False
  assume "plain_segment s"
  with False have "dropWhile (\<lambda>c. c = CHR ''/'') s = s" "dropWhile (\<lambda>c. c = CHR ''/'') (rev s) = rev s"
    by (simp_all add: plain_segment_def dropWhile_eq_self_iff hd_rev)
  then show ?thesis by (simp add: trimSlashes_def)
qed (simp add: trimSlashes_def)

definition keyTail :: "go_time \<Rightarrow> string \<Rightarrow> string" where
  "keyTail ts contentHash =
     dateSegment @ formatDate ts @ ''/'' @ hourSegment @ formatHour ts @ ''/'' @ contentHash @ objectSuffix"

lemma objectKey_under_root:
  assumes "plain_segment pfx" "plain_segment clusterID"
  shows "objectKey pfx clusterID ts contentHash = recordsRoot pfx clusterID @ keyTail ts contentHash"
proof -
  have "plain_segment formatPartition" by (simp add: plain_segment_def formatPartition_def)
  moreover have "plain_segment (clusterSegment @ clusterID)"
    using assms(2) by (cases "clusterID = []") (simp_all add: plain_segment_def clusterSegment_def)
  ultimately show ?thesis
    using assms(1) by (simp add: objectKey_def recordsRoot_def joinSegments_def keyTail_def trimSlashes_plain clusterSegment_def
        dateSegment_def hourSegment_def formatPartition_def)
qed

lemma has_prefix_same [simp]: "has_prefix (a @ s) (a @ p) = has_prefix s p"
  by (simp add: has_prefix_def)

lemma has_prefix_Cons [simp]: "has_prefix (c # s) (d # p) \<longleftrightarrow> c = d \<and> has_prefix s p"
  by (auto simp: has_prefix_def)

lemma has_prefix_segment:
  assumes "c \<notin> set a" "c \<notin> set b"
  shows "has_prefix (a @ c # r) (b @ c # p) \<longleftrightarrow> a = b \<and> has_prefix r p"
proof
  assume "has_prefix (a @ c # r) (b @ c # p)"
  then obtain x where "a @ c # r = b @ c # (p @ x)" by (auto simp: has_prefix_iff)
  with append_sep_inj [OF this assms] show "a = b \<and> has_prefix r p" by simp
qed auto

lemma day_prefix_matches:
  "has_prefix (root @ keyTail ts h) (pt_prefix (dayPartition root day)) \<longleftrightarrow> dayStart ts = dayStart day"
  using has_prefix_segment [OF formats_no_slash(1) formats_no_slash(1), of ts _ day "[]"]
  by (simp add: dayPartition_def keyTail_def formatDate_inj)

lemma hour_prefix_matches:
  "has_prefix (root @ keyTail ts h) (pt_prefix (hourPartition root cur)) \<longleftrightarrow> hourStart ts = hourStart cur"
  using has_prefix_segment [OF formats_no_slash(1) formats_no_slash(1), of ts _ cur]
    has_prefix_segment [OF formats_no_slash(2) formats_no_slash(2), of ts _ cur "[]"]
  by (simp add: hourPartition_def keyTail_def formatDate_inj formatHour_inj same_hour_iff)

text \<open>Whole hours, as multiples.\<close>

lemma hourStart_multiple: "\<exists>k. hourStart t = k * nsPerHour"
  by (auto simp: hourStart_eq)

lemma hourStart_hours: "hourStart (k * nsPerHour) = k * nsPerHour"
  by (simp add: hourStart_eq)

lemma dayStart_of_hour: "dayStart (hourStart t) = dayStart t"
  by (metis hourStart_eq hourStart_hours same_hour_iff)

lemma dayStart_hours: "dayStart (k * nsPerHour) = k div 24 * 24 * nsPerHour"
  by (simp add: dayStart_eq day_of_hours)

lemma hour_cancel [simp]: "a * nsPerHour \<le> b * nsPerHour \<longleftrightarrow> a \<le> b" "a * nsPerHour < b * nsPerHour \<longleftrightarrow> a < b"
  using nsPerHour_pos by (simp_all only: mult_le_cancel_right_pos mult_less_cancel_right_pos)

lemma hour_numerals:
  "k * nsPerHour + nsPerHour = (k + 1) * nsPerHour" "addDays 1 (k * nsPerHour) = (k + 24) * nsPerHour"
  "k * nsPerHour + (hoursPerDay - 1) * nsPerHour = (k + 23) * nsPerHour"
  by (simp_all add: algebra_simps addDays_eq day_of_hours hoursPerDay_def)

lemmas whole_hours = hourStart_hours dayStart_hours hour_numerals

text \<open>The loop of the partitions, counted in hours from the zero instant.\<close>

lemma spansFrom_hours:
  "spansFrom root (c * nsPerHour) (e * nsPerHour) =
     (if c > e then []
      else if c mod 24 = 0 \<and> c + 23 \<le> e then dayPartition root (c * nsPerHour) # spansFrom root ((c + 24) * nsPerHour) (e * nsPerHour)
      else hourPartition root (c * nsPerHour) # spansFrom root ((c + 1) * nsPerHour) (e * nsPerHour))"
proof -
  have "c div 24 * 24 = c \<longleftrightarrow> c mod 24 = 0" by presburger
  then show ?thesis
    by (subst spansFrom.simps) (auto simp: whole_hours Let_def not_less mult_right_cancel simp flip: mult.assoc)
qed

lemma day_matches_hours:
  "c mod 24 = 0 \<Longrightarrow> has_prefix (root @ keyTail ts h) (pt_prefix (dayPartition root (c * nsPerHour))) \<longleftrightarrow>
     c \<le> ts div nsPerHour \<and> ts div nsPerHour < c + 24"
proof -
  assume "c mod 24 = 0"
  then have "k div 24 * 24 = c \<longleftrightarrow> c \<le> k \<and> k < c + 24" for k :: int by presburger
  moreover have "dayStart ts = ts div nsPerHour div 24 * 24 * nsPerHour" "dayStart (c * nsPerHour) = c * nsPerHour"
    using dayStart_of_hour [of ts] \<open>c mod 24 = 0\<close> by (simp_all add: hourStart_eq dayStart_hours) presburger
  ultimately show ?thesis by (simp add: day_prefix_matches)
qed

lemma hour_matches_hours:
  "has_prefix (root @ keyTail ts h) (pt_prefix (hourPartition root (c * nsPerHour))) \<longleftrightarrow> ts div nsPerHour = c"
  by (simp add: hour_prefix_matches hourStart_eq)

lemma spans_exact:
  "length (filter (\<lambda>p. has_prefix (root @ keyTail ts h) (pt_prefix p)) (spansFrom root (c * nsPerHour) (e * nsPerHour))) =
     (if c \<le> ts div nsPerHour \<and> ts div nsPerHour \<le> e then 1 else 0)"
proof (induction "nat (e + 1 - c)" arbitrary: c rule: less_induct)
  case less
  have "c \<le> e \<Longrightarrow> nat (e + 1 - (c + 24)) < nat (e + 1 - c)" "c \<le> e \<Longrightarrow> nat (e + 1 - (c + 1)) < nat (e + 1 - c)" by simp_all
  then show ?case
    using less.hyps [of "c + 24"] less.hyps [of "c + 1"] day_matches_hours [of c root ts h] hour_matches_hours [of root ts h c]
    by (subst spansFrom_hours) auto
qed

text \<open>The partitions are ordered: what one of them lists is older than the start of every later one.\<close>

lemma spans_start:
  "p \<in> set (spansFrom root (c * nsPerHour) (e * nsPerHour)) \<Longrightarrow> c * nsPerHour \<le> pt_start p"
proof (induction "nat (e + 1 - c)" arbitrary: c rule: less_induct)
  case less
  have le: "(c + 24) * nsPerHour \<le> pt_start p \<Longrightarrow> c * nsPerHour \<le> pt_start p" "(c + 1) * nsPerHour \<le> pt_start p \<Longrightarrow> c * nsPerHour \<le> pt_start p"
    using hour_cancel(1) [of c "c + 24"] hour_cancel(1) [of c "c + 1"] by linarith+
  show ?case
    using less.prems less.hyps [of "c + 24"] less.hyps [of "c + 1"] le
    by (subst (asm) spansFrom_hours) (auto simp: dayPartition_def hourPartition_def split: if_splits)
qed

lemma spans_ordered:
  "sorted_wrt (\<lambda>p q. \<forall>ts h. has_prefix (root @ keyTail ts h) (pt_prefix p) \<longrightarrow> ts < pt_start q)
     (spansFrom root (c * nsPerHour) (e * nsPerHour))"
proof (induction "nat (e + 1 - c)" arbitrary: c rule: less_induct)
  case less
  have before: "ts < pt_start q" if "ts div nsPerHour < k" "q \<in> set (spansFrom root (k * nsPerHour) (e * nsPerHour))" for ts q k
  proof -
    have "ts < (ts div nsPerHour + 1) * nsPerHour"
    proof -
      have "ts div nsPerHour * nsPerHour + ts mod nsPerHour = ts" "ts mod nsPerHour < nsPerHour" by simp_all
      then show ?thesis unfolding distrib_right by linarith
    qed
    also have "\<dots> \<le> k * nsPerHour" using that(1) by (simp only: hour_cancel)
    also have "\<dots> \<le> pt_start q" by (rule spans_start [OF that(2)])
    finally show ?thesis .
  qed
  show ?case
    using less.hyps [of "c + 24"] less.hyps [of "c + 1"] before [of _ "c + 24"] before [of _ "c + 1"]
    by (subst spansFrom_hours) (auto simp: day_matches_hours hour_matches_hours)
qed

section \<open>Properties\<close>

text \<open>
  The partitions a time window resolves to are pairwise disjoint and complete. The writer files an
  object under the hour of its first record; of the prefixes the reader lists for \<open>[from, to]\<close>, exactly one
  matches that object's key when the hour lies between the hour of \<open>from - span\<close> and the hour of \<open>to\<close>, and
  none does otherwise. Whole days listed as one prefix change nothing about the set.
\<close>

theorem partitions_list_once:
  assumes "plain_segment pfx" and "plain_segment clusterID"
  shows "length (filter (has_prefix (objectKey pfx clusterID ts contentHash))
           (partitionPrefixes (recordsRoot pfx clusterID) from_ts to_ts span)) =
         (if hourStart (from_ts - span) \<le> hourStart ts \<and> hourStart ts \<le> hourStart to_ts then 1 else 0)"
  using spans_exact [of "recordsRoot pfx clusterID" ts contentHash "(from_ts - span) div nsPerHour" "to_ts div nsPerHour"]
  by (simp add: partitionPrefixes_def prefixesOf_def partitionSpans_def objectKey_under_root [OF assms] hourStart_eq filter_map comp_def)

text \<open>One object of the second of March 2026, nine o'clock, and a window from the first to the third.\<close>

definition march :: "int \<Rightarrow> int \<Rightarrow> go_time" where
  "march day hour = time_Date 2026 3 day hour"

theorem partitions_list_once_witness:
  "length (filter (has_prefix (objectKey ''audit'' ''prod'' (march 2 9 + 7) ''cafe''))
     (partitionPrefixes (recordsRoot ''audit'' ''prod'') (march 1 5) (march 3 0) nsPerHour)) = 1"
proof -
  have "hourStart (march 1 5 - nsPerHour) \<le> hourStart (march 2 9 + 7)" "hourStart (march 2 9 + 7) \<le> hourStart (march 3 0)"
    by code_simp+
  then show ?thesis by (subst partitions_list_once) (simp_all add: plain_segment_def)
qed

lemma clusterIDOf_objectKey:
  assumes "plain_segment pfx" "CHR ''/'' \<notin> set clusterID" "clusterID \<noteq> []"
  shows "clusterIDOf (objectKey pfx clusterID ts h) (joinSegments [pfx, formatPartition] @ ''/'') = Some clusterID"
proof -
  have "hd clusterID \<noteq> CHR ''/''" "last clusterID \<noteq> CHR ''/''" using assms(2,3) hd_in_set last_in_set by metis+
  then have id: "plain_segment clusterID" "plain_segment (clusterSegment @ clusterID)" "plain_segment formatPartition"
    using assms(3) by (auto simp: plain_segment_def clusterSegment_def formatPartition_def)
  have "objectKey pfx clusterID ts h = (joinSegments [pfx, formatPartition] @ ''/'') @ (clusterSegment @ clusterID) @ ''/'' @ keyTail ts h"
    using assms(1) id by (simp add: objectKey_under_root recordsRoot_def joinSegments_def trimSlashes_plain formatPartition_def clusterSegment_def)
  moreover have "cut_before (\<lambda>c. c = CHR ''/'') ((clusterSegment @ clusterID) @ ''/'' @ keyTail ts h) = (clusterSegment @ clusterID, ''/'' @ keyTail ts h)"
    using assms(2) by (intro cut_before_stop) (auto simp: clusterSegment_def)
  ultimately show ?thesis
    using assms(3) by (simp add: clusterIDOf_def cutPrefix_def cutSlash_def)
qed

end
