(* ===== verification/SinkPool.thy ===== *)
theory SinkPool
  imports Prelude
begin

text \<open>
  What the record writers of the sinks share: a bounded queue in front of a pool of workers, where each
  worker takes jobs and settles them (\<open>internal/sink/s3/writer.go\<close>, \<open>internal/sink/clickhouse/writer.go\<close>). The
  locale \<open>sink_worker\<close> is the contract of one worker; what a pool of such workers promises follows from it.
\<close>

text \<open>How the wait for room in a queue ended: sent (there was room), the caller's context, or the timeout.\<close>

datatype select_answer = SelSent | SelContextDone | SelTimeout

datatype enqueue_error = RefusedClusterID | RefusedRecord | RefusedClosing | ContextDone | QueueStillFull

lemma pool_update:
  fixes f :: "'k \<Rightarrow> 'a multiset"
  shows "i < length ws \<Longrightarrow> f k = f (ws ! i) + m \<Longrightarrow> sum_list (map f (ws[i := k])) = sum_list (map f ws) + m"
proof (induction ws arbitrary: i)
  case (Cons w ws)
  then show ?case by (cases i) (simp_all add: ac_simps)
qed simp

lemma pool_member:
  fixes f :: "'k \<Rightarrow> 'a multiset"
  shows "k \<in> set ws \<Longrightarrow> f k \<subseteq># sum_list (map f ws)"
  by (auto simp: in_set_conv_decomp)

text \<open>
  A worker that is \<open>ok\<close> has settled some of what it took, each at most as often as it took it; an idle one
  holds nothing back.
\<close>

locale sink_worker =
  fixes taken settled :: "'k \<Rightarrow> 'c multiset" and idle ok :: "'k \<Rightarrow> bool"
  assumes settled_taken: "ok k \<Longrightarrow> settled k \<subseteq># taken k"
    and idle_settled: "ok k \<Longrightarrow> idle k \<Longrightarrow> settled k = taken k"
begin

lemma pool_settled:
  "\<forall>k \<in> set ws. ok k \<Longrightarrow> sum_list (map settled ws) \<subseteq># queued + sum_list (map taken ws)"
proof (induction ws)
  case (Cons k ws)
  then have "settled k \<subseteq># taken k" "sum_list (map settled ws) \<subseteq># queued + sum_list (map taken ws)" by (simp_all add: settled_taken)
  then have "settled k + sum_list (map settled ws) \<subseteq># taken k + (queued + sum_list (map taken ws))" by (rule subset_mset.add_mono)
  then show ?case by (simp add: ac_simps)
qed simp

lemma pool_drained:
  "\<forall>k \<in> set ws. ok k \<and> idle k \<Longrightarrow> sum_list (map settled ws) = sum_list (map taken ws)"
  by (induction ws) (simp_all add: idle_settled)

lemma pool_once:
  assumes "\<forall>k \<in> set ws. ok k" and "count (queued + sum_list (map taken ws)) c \<le> 1"
  shows "count (sum_list (map settled ws)) c \<le> 1"
  using mset_subset_eq_count [OF pool_settled [OF assms(1), of queued], of c] assms(2) by simp

end

end
