(* ===== verification/ArchiveWriter.thy ===== *)
theory ArchiveWriter
  imports RecordLine Layout SinkPool
begin

text \<open>
  The S3 sink (\<open>internal/sink/s3\<close>): the object format (\<open>encoder.go\<close>, \<open>object.go\<close>), the record writer with its
  rotation, retries and settlements (\<open>writer.go\<close>).

  \<^item> The one-shot zstd codec is \<open>zstd_env\<close>, the streaming encoder \<open>zstd_stream\<close>: what it has emitted is read off
    its state by \<open>zs_Buf\<close>. \<open>stream_ok\<close> is what the library documents of the two.
  \<^item> The object store answers every PUT attempt; an attempt that reports an error may still have landed. A
    retry loop consumes the answers of one flush and gives up when they end.
  \<^item> A worker's timer is the event \<open>AgeElapsed\<close>; the drain at shutdown is \<open>JobsClosed\<close>.
\<close>

section \<open>Objects\<close>

datatype s3_error =
    errEmptyBatch | errNoEncoder | errNoDecoder | errEmptyClusterID | errMixedClusters nat | errMarshal nat
  | errNotAFrame nat | errDecompress | errDecodeLine | errClusterMismatch | errWrite | errFlush | errClose

record archiveObject =
  obj_Key :: string
  obj_ContentHash :: string
  obj_Payload :: string

text \<open>A record on its way out, with whether its empty map and slice are nil.\<close>

type_synonym wire_record = "bool \<times> sink_record"

fun encodeRecords :: "string \<Rightarrow> nat \<Rightarrow> wire_record list \<Rightarrow> s3_error + string" where
  "encodeRecords clusterID i [] = Inr []"
| "encodeRecords clusterID i ((isnil, r) # rs) =
     (if rec_ClusterID r \<noteq> clusterID then Inl (errMixedClusters i)
      else case marshalRecordLine isnil r of
             None \<Rightarrow> Inl (errMarshal i)
           | Some line \<Rightarrow> (case encodeRecords clusterID (i + 1) rs of Inl e \<Rightarrow> Inl e | Inr jsonl \<Rightarrow> Inr (line @ jsonl)))"

definition Encode :: "zstd_env \<Rightarrow> string \<Rightarrow> wire_record list \<Rightarrow> s3_error + archiveObject" where
  "Encode z pfx records =
     (case records of
        [] \<Rightarrow> Inl errEmptyBatch
      | (_, r0) # _ \<Rightarrow>
          (case zstdEncoder z of
             None \<Rightarrow> Inl errNoEncoder
           | Some enc \<Rightarrow>
               (let clusterID = rec_ClusterID r0 in
                if clusterID = [] then Inl errEmptyClusterID
                else case encodeRecords clusterID 0 records of
                       Inl e \<Rightarrow> Inl e
                     | Inr jsonl \<Rightarrow>
                         (let contentHash = sha256_hex jsonl
                          in Inr \<lparr>obj_Key = objectKey pfx clusterID (rec_Timestamp r0) contentHash,
                                  obj_ContentHash = contentHash, obj_Payload = enc jsonl\<rparr>))))"

definition decompress :: "zstd_env \<Rightarrow> string \<Rightarrow> s3_error + string" where
  "decompress z payload =
     (if \<not> has_prefix payload zstdMagic then Inl (errNotAFrame (length payload))
      else case zstdDecoder z of
             None \<Rightarrow> Inl errNoDecoder
           | Some dec \<Rightarrow> (case dec payload of None \<Rightarrow> Inl errDecompress | Some jsonl \<Rightarrow> Inr jsonl))"

definition Decode :: "zstd_env \<Rightarrow> string \<Rightarrow> s3_error + sink_record list" where
  "Decode z payload =
     (case decompress z payload of
        Inl e \<Rightarrow> Inl e
      | Inr jsonl \<Rightarrow> (case decodeLines decodeRecord jsonl of None \<Rightarrow> Inl errDecodeLine | Some rs \<Rightarrow> Inr rs))"

section \<open>The object under construction\<close>

record 'z zstd_stream =
  zs_New :: "'z option"
  zs_Write :: "string \<Rightarrow> 'z \<Rightarrow> 'z option"
  zs_Flush :: "'z \<Rightarrow> 'z option"
  zs_Close :: "'z \<Rightarrow> 'z option"
  zs_Buf :: "'z \<Rightarrow> string"

text \<open>The running digest is the bytes it has been given; its sum is their SHA-256.\<close>

record 'z objectBuilder =
  ob_maxBytes :: int
  ob_enc :: 'z
  ob_digest :: string
  ob_records :: nat
  ob_emitted :: int
  ob_pending :: int
  ob_clusterID :: string
  ob_firstTS :: go_time

definition objectFlushSlack :: int where
  "objectFlushSlack = 256 * 1024"

definition newObjectBuilder :: "'z zstd_stream \<Rightarrow> int \<Rightarrow> 'z objectBuilder option" where
  "newObjectBuilder zs maxBytes =
     (case zs_New zs of
        None \<Rightarrow> None
      | Some enc \<Rightarrow>
          Some \<lparr>ob_maxBytes = maxBytes, ob_enc = enc, ob_digest = [], ob_records = 0, ob_emitted = 0, ob_pending = 0,
                ob_clusterID = [], ob_firstTS = 0\<rparr>)"

definition refreshDue :: "'z objectBuilder \<Rightarrow> bool" where
  "refreshDue b = (ob_pending b \<ge> objectFlushSlack \<or> (ob_maxBytes b > 0 \<and> ob_emitted b + ob_pending b \<ge> ob_maxBytes b))"

definition objectFull :: "'z objectBuilder \<Rightarrow> bool" where
  "objectFull b = (ob_maxBytes b > 0 \<and> ob_emitted b \<ge> ob_maxBytes b)"

text \<open>The first component is the error, if any; the builder is returned as it was left.\<close>

definition builder_append ::
    "'z zstd_stream \<Rightarrow> string \<Rightarrow> string \<Rightarrow> go_time \<Rightarrow> 'z objectBuilder \<Rightarrow> s3_error option \<times> 'z objectBuilder" where
  "builder_append zs line clusterID ts b =
     (if clusterID = [] then (Some errEmptyClusterID, b)
      else if ob_records b \<noteq> 0 \<and> clusterID \<noteq> ob_clusterID b then (Some errClusterMismatch, b)
      else let b = (if ob_records b = 0 then b\<lparr>ob_clusterID := clusterID, ob_firstTS := ts\<rparr> else b) in
           case zs_Write zs line (ob_enc b) of
             None \<Rightarrow> (Some errWrite, b)
           | Some enc \<Rightarrow>
               (let b = b\<lparr>ob_enc := enc, ob_digest := ob_digest b @ line, ob_records := ob_records b + 1,
                          ob_pending := ob_pending b + int (length line)\<rparr>
                in if refreshDue b
                   then (case zs_Flush zs (ob_enc b) of
                           None \<Rightarrow> (Some errFlush, b)
                         | Some enc \<Rightarrow> (None, b\<lparr>ob_enc := enc, ob_emitted := int (length (zs_Buf zs enc)), ob_pending := 0\<rparr>))
                   else (None, b)))"

definition build :: "'z zstd_stream \<Rightarrow> string \<Rightarrow> 'z objectBuilder \<Rightarrow> s3_error + archiveObject" where
  "build zs pfx b =
     (if ob_records b = 0 then Inl errEmptyBatch
      else case zs_Close zs (ob_enc b) of
             None \<Rightarrow> Inl errClose
           | Some enc \<Rightarrow>
               (let contentHash = sha256_hex (ob_digest b)
                in Inr \<lparr>obj_Key = objectKey pfx (ob_clusterID b) (ob_firstTS b) contentHash,
                        obj_ContentHash = contentHash, obj_Payload = zs_Buf zs enc\<rparr>))"

section \<open>The record writer\<close>

record ObjectLock =
  ol_Mode :: string
  ol_RetainDays :: int

record Retention =
  rt_Mode :: string
  rt_RetainUntil :: go_time

record PutObjectInput =
  pi_Bucket :: string
  pi_Key :: string
  pi_Body :: string
  pi_Retention :: "Retention option"

record s3_config =
  sc_Bucket :: string
  sc_Prefix :: string
  sc_MaxObjectBytes :: int
  sc_ObjectLock :: "ObjectLock option"

definition retention :: "s3_config \<Rightarrow> go_time \<Rightarrow> Retention option" where
  "retention cfg now =
     map_option (\<lambda>lock. \<lparr>rt_Mode = ol_Mode lock, rt_RetainUntil = now + ol_RetainDays lock * 24 * nsPerHour\<rparr>) (sc_ObjectLock cfg)"

record 'c writeJob =
  wj_line :: string
  wj_clusterID :: string
  wj_ts :: go_time
  wj_commit :: "'c option"

record ('z, 'c) openObject =
  oo_builder :: "'z objectBuilder"
  oo_commits :: "'c option list"

definition open_append :: "'z zstd_stream \<Rightarrow> 'c writeJob \<Rightarrow> ('z, 'c) openObject \<Rightarrow> s3_error option \<times> ('z, 'c) openObject" where
  "open_append zs job ob =
     (case builder_append zs (wj_line job) (wj_clusterID job) (wj_ts job) (oo_builder ob) of
        (Some e, b) \<Rightarrow> (Some e, ob\<lparr>oo_builder := b\<rparr>)
      | (None, b) \<Rightarrow> (None, ob\<lparr>oo_builder := b, oo_commits := oo_commits ob @ [wj_commit job]\<rparr>))"

text \<open>One PUT attempt: accepted, or an error that tells nothing about whether the object landed.\<close>

datatype put_answer = PutOK | PutError bool

fun putLoop :: "PutObjectInput \<Rightarrow> put_answer list \<Rightarrow> bool \<times> PutObjectInput list" where
  "putLoop inp [] = (False, [])"
| "putLoop inp (PutOK # _) = (True, [inp])"
| "putLoop inp (PutError landed # answers) =
     (let (ok, puts) = putLoop inp answers in (ok, (if landed then [inp] else []) @ puts))"

text \<open>
  A worker: the object it fills, whether the age timer is armed, the settlements it has made in order,
  and the PUTs that landed. The jobs it has taken from the queue are kept as history.
\<close>

record ('z, 'c) s3_worker =
  sw_open :: "('z, 'c) openObject option"
  sw_timer :: bool
  sw_settled :: "('c option \<times> bool) list"
  sw_puts :: "PutObjectInput list"
  sw_flushes :: nat
  sw_taken :: "'c writeJob list"

definition s3_worker_new :: "('z, 'c) s3_worker" where
  "s3_worker_new = \<lparr>sw_open = None, sw_timer = False, sw_settled = [], sw_puts = [], sw_flushes = 0, sw_taken = []\<rparr>"

text \<open>What the outside does at each flush: the clock and the store's answers.\<close>

record store_env =
  sv_now :: "nat \<Rightarrow> go_time"
  sv_answers :: "nat \<Rightarrow> put_answer list"

definition settle :: "'c option \<Rightarrow> bool \<Rightarrow> ('z, 'c) s3_worker \<Rightarrow> ('z, 'c) s3_worker" where
  "settle commit ok w = w\<lparr>sw_settled := sw_settled w @ [(commit, ok)]\<rparr>"

definition settleAll :: "'c option list \<Rightarrow> bool \<Rightarrow> ('z, 'c) s3_worker \<Rightarrow> ('z, 'c) s3_worker" where
  "settleAll commits ok w = fold (\<lambda>c. settle c ok) commits w"

definition put :: "s3_config \<Rightarrow> store_env \<Rightarrow> nat \<Rightarrow> archiveObject \<Rightarrow> bool \<times> PutObjectInput list" where
  "put cfg env n obj =
     putLoop \<lparr>pi_Bucket = sc_Bucket cfg, pi_Key = obj_Key obj, pi_Body = obj_Payload obj, pi_Retention = retention cfg (sv_now env n)\<rparr>
       (sv_answers env n)"

definition flush_open ::
    "'z zstd_stream \<Rightarrow> s3_config \<Rightarrow> store_env \<Rightarrow> ('z, 'c) openObject \<Rightarrow> ('z, 'c) s3_worker \<Rightarrow> ('z, 'c) s3_worker" where
  "flush_open zs cfg env ob w =
     (if oo_commits ob = [] then w
      else case build zs (sc_Prefix cfg) (oo_builder ob) of
             Inl _ \<Rightarrow> settleAll (oo_commits ob) False w
           | Inr obj \<Rightarrow>
               (let (ok, puts) = put cfg env (sw_flushes w) obj
                in settleAll (oo_commits ob) ok (w\<lparr>sw_puts := sw_puts w @ puts, sw_flushes := sw_flushes w + 1\<rparr>)))"

definition closeOpen ::
    "'z zstd_stream \<Rightarrow> s3_config \<Rightarrow> store_env \<Rightarrow> ('z, 'c) s3_worker \<Rightarrow> ('z, 'c) s3_worker" where
  "closeOpen zs cfg env w =
     (case sw_open w of
        None \<Rightarrow> w\<lparr>sw_timer := False\<rparr>
      | Some ob \<Rightarrow> (flush_open zs cfg env ob (w\<lparr>sw_open := None\<rparr>))\<lparr>sw_timer := False\<rparr>)"

definition abandon :: "('z, 'c) openObject \<Rightarrow> ('z, 'c) s3_worker \<Rightarrow> ('z, 'c) s3_worker" where
  "abandon ob w = settleAll (oo_commits ob) False w"

text \<open>The two attempts at one job: the second is against a freshly opened object.\<close>

fun attemptJob ::
    "nat \<Rightarrow> 'z zstd_stream \<Rightarrow> s3_config \<Rightarrow> store_env \<Rightarrow> 'c writeJob \<Rightarrow> ('z, 'c) s3_worker \<Rightarrow> ('z, 'c) s3_worker" where
  "attemptJob 0 zs cfg env job w = w"
| "attemptJob (Suc left) zs cfg env job w =
     (case (case sw_open w of
              Some ob \<Rightarrow> Some (ob, w)
            | None \<Rightarrow>
                (case newObjectBuilder zs (sc_MaxObjectBytes cfg) of
                   None \<Rightarrow> None
                 | Some b \<Rightarrow> Some (\<lparr>oo_builder = b, oo_commits = []\<rparr>, w\<lparr>sw_timer := True\<rparr>))) of
        None \<Rightarrow> settle (wj_commit job) False w
      | Some (ob, w) \<Rightarrow>
          (case open_append zs job ob of
             (None, ob) \<Rightarrow>
               (let w = w\<lparr>sw_open := Some ob\<rparr> in if objectFull (oo_builder ob) then closeOpen zs cfg env w else w)
           | (Some e, ob) \<Rightarrow>
               (if e = errClusterMismatch \<and> left = 1
                then attemptJob left zs cfg env job (closeOpen zs cfg env (w\<lparr>sw_open := Some ob\<rparr>))
                else (settle (wj_commit job) False (abandon ob w))\<lparr>sw_open := None, sw_timer := False\<rparr>)))"

declare attemptJob.simps(2) [simp del]

datatype 'c worker_event = ReceiveJob "'c writeJob" | AgeElapsed | JobsClosed

fun worker_step ::
    "'z zstd_stream \<Rightarrow> s3_config \<Rightarrow> store_env \<Rightarrow> 'c worker_event \<Rightarrow> ('z, 'c) s3_worker \<Rightarrow> ('z, 'c) s3_worker" where
  "worker_step zs cfg env (ReceiveJob job) w = attemptJob 2 zs cfg env job (w\<lparr>sw_taken := sw_taken w @ [job]\<rparr>)"
| "worker_step zs cfg env AgeElapsed w = (if sw_timer w then closeOpen zs cfg env w else w)"
| "worker_step zs cfg env JobsClosed w = closeOpen zs cfg env w"

text \<open>The writer: a bounded queue in front of a pool of workers.\<close>

record s3_settings =
  cf_Bucket :: string
  cf_Prefix :: string
  cf_MaxObjectBytes :: int
  cf_ObjectLock :: "ObjectLock option"
  cf_QueueSize :: int
  cf_Workers :: int
  cf_CoalesceWindow :: go_duration

record ('z, 'c) s3_writer =
  wr_jobs :: "'c writeJob list"
  wr_queueSize :: nat
  wr_closing :: bool
  wr_workers :: "('z, 'c) s3_worker list"
  wr_exited :: "bool list"
  wr_coalesceWindow :: go_duration
  wr_accepted :: "'c writeJob list"

definition defaultQueueSize :: int where "defaultQueueSize = 5000"

definition defaultWorkers :: int where "defaultWorkers = 4"

definition defaultMaxObjectBytes :: int where "defaultMaxObjectBytes = 64 * 2 ^ 20"

definition DefaultCoalesceWindow :: go_duration where "DefaultCoalesceWindow = 60 * nsPerSecond"

definition writer_config :: "s3_settings \<Rightarrow> s3_config" where
  "writer_config cf =
     \<lparr>sc_Bucket = cf_Bucket cf, sc_Prefix = cf_Prefix cf,
      sc_MaxObjectBytes = (if cf_MaxObjectBytes cf \<le> 0 then defaultMaxObjectBytes else cf_MaxObjectBytes cf), sc_ObjectLock = cf_ObjectLock cf\<rparr>"

definition NewWriter :: "s3_settings \<Rightarrow> ('z, 'c) s3_writer" where
  "NewWriter cf =
     (let queueSize = (if cf_QueueSize cf \<le> 0 then defaultQueueSize else cf_QueueSize cf);
          workers = nat (if cf_Workers cf \<le> 0 then defaultWorkers else cf_Workers cf)
      in \<lparr>wr_jobs = [], wr_queueSize = nat queueSize, wr_closing = False, wr_workers = replicate workers s3_worker_new,
          wr_exited = replicate workers False,
          wr_coalesceWindow = (if cf_CoalesceWindow cf < 0 then DefaultCoalesceWindow else cf_CoalesceWindow cf), wr_accepted = []\<rparr>)"

definition Enqueue ::
    "bool \<Rightarrow> sink_record \<Rightarrow> 'c option \<Rightarrow> select_answer \<Rightarrow> ('z, 'c) s3_writer \<Rightarrow> enqueue_error option \<times> ('z, 'c) s3_writer" where
  "Enqueue isnil r commit answer w =
     (if rec_ClusterID r = [] then (Some RefusedClusterID, w)
      else case marshalRecordLine isnil r of
             None \<Rightarrow> (Some RefusedRecord, w)
           | Some line \<Rightarrow>
               (let job = \<lparr>wj_line = line, wj_clusterID = rec_ClusterID r, wj_ts = rec_Timestamp r, wj_commit = commit\<rparr>
                in if wr_closing w then (Some RefusedClosing, w)
                   else if answer = SelContextDone then (Some ContextDone, w)
                   else if answer = SelTimeout \<or> length (wr_jobs w) \<ge> wr_queueSize w then (Some QueueStillFull, w)
                   else (None, w\<lparr>wr_jobs := wr_jobs w @ [job], wr_accepted := wr_accepted w @ [job]\<rparr>)))"

text \<open>Every interleaving of callers, workers, timers and the shutdown that \<open>Start\<close> sequences.\<close>

inductive s3_reachable :: "'z zstd_stream \<Rightarrow> s3_settings \<Rightarrow> ('z, 'c) s3_writer \<Rightarrow> bool" for zs cf where
  start: "s3_reachable zs cf (NewWriter cf)"
| enqueue: "s3_reachable zs cf w \<Longrightarrow> s3_reachable zs cf (snd (Enqueue isnil r commit answer w))"
| receive: "s3_reachable zs cf w \<Longrightarrow> wr_jobs w = job # rest \<Longrightarrow> i < length (wr_workers w) \<Longrightarrow> \<not> wr_exited w ! i \<Longrightarrow>
    s3_reachable zs cf (w\<lparr>wr_jobs := rest,
      wr_workers := (wr_workers w)[i := worker_step zs (writer_config cf) env (ReceiveJob job) (wr_workers w ! i)]\<rparr>)"
| age: "s3_reachable zs cf w \<Longrightarrow> i < length (wr_workers w) \<Longrightarrow> \<not> wr_exited w ! i \<Longrightarrow>
    s3_reachable zs cf (w\<lparr>wr_workers := (wr_workers w)[i := worker_step zs (writer_config cf) env AgeElapsed (wr_workers w ! i)]\<rparr>)"
| shutdown: "s3_reachable zs cf w \<Longrightarrow> s3_reachable zs cf (w\<lparr>wr_closing := True\<rparr>)"
| drained: "s3_reachable zs cf w \<Longrightarrow> wr_closing w \<Longrightarrow> wr_jobs w = [] \<Longrightarrow> i < length (wr_workers w) \<Longrightarrow> \<not> wr_exited w ! i \<Longrightarrow>
    s3_reachable zs cf (w\<lparr>wr_workers := (wr_workers w)[i := worker_step zs (writer_config cf) env JobsClosed (wr_workers w ! i)],
      wr_exited := (wr_exited w)[i := True]\<rparr>)"

section \<open>What the codecs promise\<close>

text \<open>
  The one-shot codec inverts itself and its frames open with the magic bytes; the streaming encoder's
  frame, once closed, decompresses to what was written (\<open>written\<close>), wherever it was flushed.
\<close>

definition codec_ok :: "zstd_env \<Rightarrow> bool" where
  "codec_ok z \<longleftrightarrow> (\<forall>enc s. zstdEncoder z = Some enc \<longrightarrow> decompress z (enc s) = Inr s)"

definition stream_ok :: "zstd_env \<Rightarrow> 'z zstd_stream \<Rightarrow> ('z \<Rightarrow> string) \<Rightarrow> bool" where
  "stream_ok z zs written \<longleftrightarrow>
     (\<forall>e. zs_New zs = Some e \<longrightarrow> written e = []) \<and>
     (\<forall>e l e'. zs_Write zs l e = Some e' \<longrightarrow> written e' = written e @ l) \<and>
     (\<forall>e e'. zs_Flush zs e = Some e' \<longrightarrow> written e' = written e) \<and>
     (\<forall>e e'. zs_Close zs e = Some e' \<longrightarrow> decompress z (zs_Buf zs e') = Inr (written e))"

lemma streamD:
  assumes "stream_ok z zs written"
  shows "zs_New zs = Some e \<Longrightarrow> written e = []" "zs_Write zs l e = Some e' \<Longrightarrow> written e' = written e @ l"
    "zs_Flush zs e = Some e' \<Longrightarrow> written e' = written e" "zs_Close zs e = Some e' \<Longrightarrow> decompress z (zs_Buf zs e') = Inr (written e)"
  using assms unfolding stream_ok_def by blast+

section \<open>Reading an object back\<close>

lemma encodeRecords_lines:
  assumes "encodeRecords cl i records = Inr jsonl"
  shows "\<exists>lines. jsonl = concat lines \<and> list_all2 (\<lambda>line (isnil, r). marshalRecordLine isnil r = Some line \<and> rec_ClusterID r = cl) lines records"
  using assms
proof (induction cl i records arbitrary: jsonl rule: encodeRecords.induct)
  case (2 cl i isnil r rs)
  then obtain line jsonl' where l: "rec_ClusterID r = cl" "marshalRecordLine isnil r = Some line" "encodeRecords cl (i + 1) rs = Inr jsonl'"
    "jsonl = line @ jsonl'"
    by (auto split: if_splits option.splits sum.splits)
  with 2 obtain lines where "jsonl' = concat lines"
    "list_all2 (\<lambda>line (isnil, r). marshalRecordLine isnil r = Some line \<and> rec_ClusterID r = cl) lines rs" by auto
  with l show ?case by (intro exI [of _ "line # lines"]) simp
qed simp

lemma decode_record_lines:
  assumes "list_all2 (\<lambda>line (isnil, r). marshalRecordLine isnil r = Some line \<and> rec_ClusterID r = cl) lines records"
    and "\<forall>(isnil, r) \<in> set records. gm_wf (rec_Labels r)"
  shows "decodeLines decodeRecord (concat lines) = Some (map (\<lambda>(isnil, r). canonical_record r) records)"
proof (rule decodeLines_back)
  show "list_all2 (\<lambda>line x. \<exists>t v. line = t @ [newline] \<and> reads t v \<and> decodeRecord v = Some x) lines
    (map (\<lambda>(isnil, r). canonical_record r) records)"
    using assms
  proof (induction lines records rule: list_all2_induct)
    case (Cons line lines wr records)
    obtain isnil r where wr: "wr = (isnil, r)" by (cases wr)
    have "\<exists>t v. line = t @ [newline] \<and> reads t v \<and> decodeRecord v = Some (canonical_record r)"
      using Cons.hyps(1) Cons.prems by (intro record_line_reads) (auto simp: wr)
    with Cons show ?case by (simp add: wr)
  qed simp
qed

lemma encoded_object:
  assumes "codec_ok z" and "Encode z pfx records = Inr obj" and "\<forall>(isnil, r) \<in> set records. gm_wf (rec_Labels r)"
  shows "\<exists>jsonl. decompress z (obj_Payload obj) = Inr jsonl
    \<and> decodeLines decodeRecord jsonl = Some (map (\<lambda>(isnil, r). canonical_record r) records) \<and> obj_ContentHash obj = sha256_hex jsonl
    \<and> obj_Key obj = objectKey pfx (rec_ClusterID (snd (hd records))) (rec_Timestamp (snd (hd records))) (sha256_hex jsonl)"
proof -
  obtain isnil r0 rs where rs: "records = (isnil, r0) # rs" using assms(2) by (cases records) (auto simp: Encode_def)
  obtain enc jsonl where enc: "zstdEncoder z = Some enc" and jsonl: "encodeRecords (rec_ClusterID r0) 0 records = Inr jsonl"
    and obj: "obj = \<lparr>obj_Key = objectKey pfx (rec_ClusterID r0) (rec_Timestamp r0) (sha256_hex jsonl), obj_ContentHash = sha256_hex jsonl,
                    obj_Payload = enc jsonl\<rparr>"
    using assms(2) by (auto simp: Encode_def rs Let_def split: option.splits if_splits sum.splits)
  have d: "decompress z (obj_Payload obj) = Inr jsonl" using assms(1) enc by (simp add: codec_ok_def obj)
  obtain lines where l: "jsonl = concat lines"
    "list_all2 (\<lambda>line (isnil, r). marshalRecordLine isnil r = Some line \<and> rec_ClusterID r = rec_ClusterID r0) lines records"
    using encodeRecords_lines [OF jsonl] by blast
  from decode_record_lines [OF l(2) assms(3)] d show ?thesis by (simp add: obj rs l(1))
qed


text \<open>A codec that frames a text by prepending the magic bytes, and one record of the second of March 2026.\<close>

definition framing :: zstd_env where
  "framing = \<lparr>zstdEncoder = Some (\<lambda>s. zstdMagic @ s), zstdDecoder = Some (\<lambda>p. Some (drop 4 p))\<rparr>"

lemma framing_ok: "codec_ok framing"
  by (simp add: codec_ok_def framing_def decompress_def zstdMagic_def has_prefix_def)

definition sampleRecord :: "go_time \<Rightarrow> string \<Rightarrow> sink_record" where
  "sampleRecord ts data =
     \<lparr>rec_Timestamp = ts, rec_ClusterID = ''prod'', rec_EventType = ''Added'', rec_APIGroup = [], rec_APIVersion = ''v1'',
      rec_Kind = ''ConfigMap'', rec_Namespace = ''web'', rec_Name = ''cfg'', rec_UID = ''u1'', rec_ResourceVersion = ''7'',
      rec_Labels = [(''app'', ''web'')], rec_Actors = [''kubectl''], rec_Data = data, rec_Diff = [], rec_SHA256 = []\<rparr>"

lemma sampleRecord_fields: "rec_ClusterID (sampleRecord ts data) = ''prod''" "rec_Timestamp (sampleRecord ts data) = ts"
  "rec_UID (sampleRecord ts data) = ''u1''" "rec_Data (sampleRecord ts data) = data"
  by (simp_all add: sampleRecord_def)

lemma sampleRecord_line: "\<exists>line. marshalRecordLine False (sampleRecord (march 2 9) data) = Some line"
proof -
  have "yearInRange (march 2 9)" by code_simp
  then show ?thesis by (simp add: marshalRecordLine_def line_time_def sampleRecord_def)
qed


section \<open>Settling\<close>

lemma settleAll_apply: "settleAll cs ok w = w\<lparr>sw_settled := sw_settled w @ map (\<lambda>c. (c, ok)) cs\<rparr>"
  unfolding settleAll_def by (induction cs arbitrary: w) (simp_all add: settle_def)

lemma putLoop_puts: "putLoop inp answers = (ok, puts) \<Longrightarrow> set puts \<subseteq> {inp} \<and> (ok \<longrightarrow> inp \<in> set puts)"
  by (induction inp answers arbitrary: ok puts rule: putLoop.induct) (auto split: prod.splits if_splits)

text \<open>A job is in the archive: an object that landed, filed under its content's hash, holds its line.\<close>

definition archived :: "zstd_env \<Rightarrow> s3_config \<Rightarrow> 'c writeJob \<Rightarrow> PutObjectInput list \<Rightarrow> bool" where
  "archived z cfg job puts \<longleftrightarrow>
     (\<exists>p \<in> set puts. \<exists>before after ts.
        decompress z (pi_Body p) = Inr (concat before @ wj_line job @ concat after)
        \<and> pi_Key p = objectKey (sc_Prefix cfg) (wj_clusterID job) ts (sha256_hex (concat before @ wj_line job @ concat after)))"

text \<open>What an object under construction holds: the lines of the jobs that are not settled yet.\<close>

definition builder_holds :: "('z \<Rightarrow> string) \<Rightarrow> 'c writeJob list \<Rightarrow> 'z objectBuilder \<Rightarrow> bool" where
  "builder_holds written jobs b \<longleftrightarrow>
     written (ob_enc b) = concat (map wj_line jobs) \<and> ob_digest b = concat (map wj_line jobs) \<and> ob_records b = length jobs
     \<and> (\<forall>j \<in> set jobs. wj_clusterID j = ob_clusterID b)"

definition open_holds :: "('z \<Rightarrow> string) \<Rightarrow> 'c writeJob list \<Rightarrow> ('z, 'c) openObject option \<Rightarrow> bool" where
  "open_holds written jobs ob \<longleftrightarrow>
     (case ob of
        None \<Rightarrow> jobs = []
      | Some ob \<Rightarrow> oo_commits ob = map wj_commit jobs \<and> builder_holds written jobs (oo_builder ob))"

definition accounts :: "zstd_env \<Rightarrow> s3_config \<Rightarrow> ('z \<Rightarrow> string) \<Rightarrow> 'c writeJob list \<Rightarrow> ('z, 'c) s3_worker \<Rightarrow> bool" where
  "accounts z cfg written jobs w \<longleftrightarrow>
     (\<exists>settled held. jobs = settled @ held \<and> open_holds written held (sw_open w)
        \<and> list_all2 (\<lambda>job (c, ok). c = wj_commit job \<and> (ok \<longrightarrow> archived z cfg job (sw_puts w))) settled (sw_settled w))"

lemma archived_mono: "archived z cfg job puts \<Longrightarrow> archived z cfg job (puts @ more_puts)"
  unfolding archived_def by auto

lemma builder_append_holds:
  assumes "stream_ok z zs written" and "builder_holds written jobs b"
    and "builder_append zs (wj_line job) (wj_clusterID job) (wj_ts job) b = (None, b')"
  shows "builder_holds written (jobs @ [job]) b'"
  using assms unfolding builder_append_def builder_holds_def
  by (auto simp: Let_def streamD split: if_splits option.splits)

lemma builder_append_mismatch:
  "builder_append zs line cl ts b = (Some errClusterMismatch, b') \<Longrightarrow> b' = b"
  unfolding builder_append_def by (auto simp: Let_def split: if_splits option.splits)

lemma build_archives:
  assumes "stream_ok z zs written" and "builder_holds written jobs b" and "build zs (sc_Prefix cfg) b = Inr obj" and "job \<in> set jobs"
    and "pi_Key p = obj_Key obj" and "pi_Body p = obj_Payload obj" and "p \<in> set puts"
  shows "archived z cfg job puts"
proof -
  obtain enc where enc: "zs_Close zs (ob_enc b) = Some enc"
    and obj: "obj = \<lparr>obj_Key = objectKey (sc_Prefix cfg) (ob_clusterID b) (ob_firstTS b) (sha256_hex (ob_digest b)),
      obj_ContentHash = sha256_hex (ob_digest b), obj_Payload = zs_Buf zs enc\<rparr>"
    using assms(3) by (auto simp: build_def Let_def split: if_splits option.splits)
  obtain us vs where jobs: "jobs = us @ job # vs" using assms(4) by (metis split_list)
  have "decompress z (pi_Body p) = Inr (concat (map wj_line jobs))"
    using streamD(4) [OF assms(1) enc] assms(2,6) by (simp add: builder_holds_def obj)
  moreover have "ob_clusterID b = wj_clusterID job" "ob_digest b = concat (map wj_line jobs)"
    using assms(2,4) by (auto simp: builder_holds_def)
  ultimately show ?thesis
    unfolding archived_def using assms(5,7)
    by (intro bexI [of _ p] exI [of _ "map wj_line us"] exI [of _ "map wj_line vs"] exI [of _ "ob_firstTS b"]) (simp_all add: jobs obj)
qed

lemma settled_mono:
  "list_all2 (\<lambda>job (c, ok). c = wj_commit job \<and> (ok \<longrightarrow> archived z cfg job puts)) settled cs \<Longrightarrow>
   list_all2 (\<lambda>job (c, ok). c = wj_commit job \<and> (ok \<longrightarrow> archived z cfg job (puts @ more_puts))) settled cs"
  by (erule list.rel_mono_strong) (auto intro: archived_mono)

lemma flush_accounts:
  assumes "stream_ok z zs written" and "accounts z cfg written jobs w" and "sw_open w = Some ob"
  shows "accounts z cfg written jobs (flush_open zs cfg env ob (w\<lparr>sw_open := None\<rparr>))"
proof -
  obtain settled held where j: "jobs = settled @ held" and h: "oo_commits ob = map wj_commit held" "builder_holds written held (oo_builder ob)"
    and s: "list_all2 (\<lambda>job (c, ok). c = wj_commit job \<and> (ok \<longrightarrow> archived z cfg job (sw_puts w))) settled (sw_settled w)"
    using assms(2,3) by (auto simp: accounts_def open_holds_def)
  have settles: "accounts z cfg written jobs (settleAll (oo_commits ob) ok (w\<lparr>sw_open := None, sw_puts := sw_puts w @ puts, sw_flushes := n\<rparr>))"
    if "ok \<Longrightarrow> \<forall>job \<in> set held. archived z cfg job (sw_puts w @ puts)" for ok puts n
  proof -
    have "list_all2 (\<lambda>job (c, ok). c = wj_commit job \<and> (ok \<longrightarrow> archived z cfg job (sw_puts w @ puts))) held (map (\<lambda>c. (c, ok)) (oo_commits ob))"
      using that by (auto simp: h(1) list_all2_map2 intro!: list.rel_refl_strong)
    with settled_mono [OF s] show ?thesis
      unfolding accounts_def by (intro exI [of _ jobs] exI [of _ "[]"]) (simp add: settleAll_apply open_holds_def j list_all2_appendI)
  qed
  have failed: "accounts z cfg written jobs (settleAll (oo_commits ob) False (w\<lparr>sw_open := None\<rparr>))"
    using settles [of False "[]" "sw_flushes w"] by simp
  show ?thesis
  proof (cases "build zs (sc_Prefix cfg) (oo_builder ob)")
    case (Inl e)
    with failed show ?thesis by (auto simp: flush_open_def settleAll_def)
  next
    case (Inr obj)
    obtain ok puts where p: "put cfg env (sw_flushes w) obj = (ok, puts)" by fastforce
    have "archived z cfg job (sw_puts w @ puts)" if "ok" "job \<in> set held" for job
      using putLoop_puts [OF p [unfolded put_def]] that
      by (intro build_archives [OF assms(1) h(2) Inr that(2)]) auto
    with settles [of ok puts "sw_flushes w + 1"] failed show ?thesis by (auto simp: flush_open_def Inr p settleAll_def)
  qed
qed

lemma flush_frame:
  "sw_open (flush_open zs cfg env ob w) = sw_open w" "sw_taken (flush_open zs cfg env ob w) = sw_taken w"
  by (auto simp: flush_open_def settleAll_apply split: sum.splits prod.splits)

lemma accounts_timer [simp]: "accounts z cfg written jobs (w\<lparr>sw_timer := b\<rparr>) = accounts z cfg written jobs w"
  "accounts z cfg written jobs (w\<lparr>sw_taken := js\<rparr>) = accounts z cfg written jobs w"
  by (simp_all add: accounts_def)

lemma closeOpen_accounts:
  assumes "stream_ok z zs written" and "accounts z cfg written jobs w"
  shows "accounts z cfg written jobs (closeOpen zs cfg env w)" "sw_open (closeOpen zs cfg env w) = None"
    "sw_taken (closeOpen zs cfg env w) = sw_taken w"
  using flush_accounts [OF assms] assms(2) by (auto simp: closeOpen_def flush_frame split: option.splits)

lemma job_failed_accounts:
  assumes "accounts z cfg written jobs w" and "case sw_open w of None \<Rightarrow> cs = [] | Some ob \<Rightarrow> cs = oo_commits ob"
  shows "accounts z cfg written (jobs @ [job]) ((settle (wj_commit job) False (settleAll cs False w))\<lparr>sw_open := None, sw_timer := b\<rparr>)"
proof -
  obtain settled held where j: "jobs = settled @ held" and h: "open_holds written held (sw_open w)"
    and s: "list_all2 (\<lambda>job (c, ok). c = wj_commit job \<and> (ok \<longrightarrow> archived z cfg job (sw_puts w))) settled (sw_settled w)"
    using assms(1) by (auto simp: accounts_def)
  have "cs = map wj_commit held" using h assms(2) by (auto simp: open_holds_def split: option.splits)
  then have "list_all2 (\<lambda>job (c, ok). c = wj_commit job \<and> (ok \<longrightarrow> archived z cfg job (sw_puts w))) (held @ [job])
      (map (\<lambda>c. (c, False)) cs @ [(wj_commit job, False)])"
    by (auto simp: list_all2_map2 intro!: list_all2_appendI list.rel_refl_strong)
  with s show ?thesis
    unfolding accounts_def by (intro exI [of _ "jobs @ [job]"] exI [of _ "[]"]) (simp add: settle_def settleAll_apply open_holds_def j list_all2_appendI)
qed

lemma new_builder_holds: "stream_ok z zs written \<Longrightarrow> newObjectBuilder zs n = Some b \<Longrightarrow> builder_holds written [] b"
  by (auto simp: newObjectBuilder_def builder_holds_def streamD(1) split: option.splits)

lemma append_accounts:
  assumes "stream_ok z zs written" and "accounts z cfg written jobs (w\<lparr>sw_open := Some ob\<rparr>)" and "open_append zs job ob = (None, ob')"
  shows "accounts z cfg written (jobs @ [job]) (w\<lparr>sw_open := Some ob'\<rparr>)"
proof -
  obtain settled held where j: "jobs = settled @ held" and h: "oo_commits ob = map wj_commit held" "builder_holds written held (oo_builder ob)"
    and s: "list_all2 (\<lambda>job (c, ok). c = wj_commit job \<and> (ok \<longrightarrow> archived z cfg job (sw_puts w))) settled (sw_settled w)"
    using assms(2) by (auto simp: accounts_def open_holds_def)
  obtain b where b: "builder_append zs (wj_line job) (wj_clusterID job) (wj_ts job) (oo_builder ob) = (None, b)"
    and ob': "ob' = ob\<lparr>oo_builder := b, oo_commits := oo_commits ob @ [wj_commit job]\<rparr>"
    using assms(3) by (auto simp: open_append_def split: prod.splits option.splits)
  from builder_append_holds [OF assms(1) h(2) b] s h(1) show ?thesis
    unfolding accounts_def by (intro exI [of _ settled] exI [of _ "held @ [job]"]) (simp add: j open_holds_def ob')
qed

lemma append_failed: "open_append zs job ob = (Some e, ob') \<Longrightarrow> oo_commits ob' = oo_commits ob"
  "open_append zs job ob = (Some errClusterMismatch, ob') \<Longrightarrow> ob' = ob"
  by (auto simp: open_append_def dest: builder_append_mismatch split: prod.splits option.splits)

lemma attempt_accounts:
  assumes "stream_ok z zs written" and "accounts z cfg written jobs w"
    and "left = 1 \<Longrightarrow> \<forall>w. accounts z cfg written jobs w \<longrightarrow> accounts z cfg written (jobs @ [job]) (attemptJob left zs cfg env job w)"
  shows "accounts z cfg written (jobs @ [job]) (attemptJob (Suc left) zs cfg env job w)"
proof -
  have opened: "accounts z cfg written (jobs @ [job])
      (case open_append zs job ob of
         (None, ob) \<Rightarrow> (let w = w\<lparr>sw_open := Some ob\<rparr> in if objectFull (oo_builder ob) then closeOpen zs cfg env w else w)
       | (Some e, ob) \<Rightarrow>
           (if e = errClusterMismatch \<and> left = 1 then attemptJob left zs cfg env job (closeOpen zs cfg env (w\<lparr>sw_open := Some ob\<rparr>))
            else (settle (wj_commit job) False (abandon ob w))\<lparr>sw_open := None, sw_timer := False\<rparr>))"
    if a: "accounts z cfg written jobs (w\<lparr>sw_open := Some ob\<rparr>)" for ob w
  proof (cases "open_append zs job ob")
    case (Pair e ob')
    show ?thesis
    proof (cases e)
      case None
      then have "accounts z cfg written (jobs @ [job]) (w\<lparr>sw_open := Some ob'\<rparr>)" using append_accounts [OF assms(1) a] Pair by simp
      with closeOpen_accounts(1) [OF assms(1) this] Pair None show ?thesis by (simp add: Let_def)
    next
      case (Some x)
      note p = Pair [unfolded Some]
      have "accounts z cfg written (jobs @ [job]) ((settle (wj_commit job) False (abandon ob' w))\<lparr>sw_open := None, sw_timer := False\<rparr>)"
        using job_failed_accounts [OF a, of "oo_commits ob'" job False] append_failed(1) [OF p] by (simp add: abandon_def settleAll_apply settle_def)
      moreover have "accounts z cfg written (jobs @ [job]) (attemptJob left zs cfg env job (closeOpen zs cfg env (w\<lparr>sw_open := Some ob'\<rparr>)))"
        if "x = errClusterMismatch" "left = 1"
        using assms(3) [OF that(2)] closeOpen_accounts(1) [OF assms(1) a] append_failed(2) p that(1) by metis
      ultimately show ?thesis by (simp add: p)
    qed
  qed
  show ?thesis
  proof (cases "sw_open w")
    case (Some ob)
    then have "w\<lparr>sw_open := Some ob\<rparr> = w" by simp
    with opened [where w = w and ob = ob] assms(2) Some show ?thesis by (simp add: attemptJob.simps)
  next
    case None
    then have same: "w\<lparr>sw_open := None\<rparr> = w" by simp
    show ?thesis
    proof (cases "newObjectBuilder zs (sc_MaxObjectBytes cfg)")
      case nob: None
      have "accounts z cfg written (jobs @ [job]) (settle (wj_commit job) False w)"
        using job_failed_accounts [OF assms(2), of "[]" job "sw_timer w"] None by (simp add: settleAll_def settle_def accounts_def)
      then show ?thesis by (simp add: None nob attemptJob.simps)
    next
      case nob: (Some b)
      have "accounts z cfg written jobs ((w\<lparr>sw_timer := True\<rparr>)\<lparr>sw_open := Some \<lparr>oo_builder = b, oo_commits = []\<rparr>\<rparr>)"
        using assms(2) new_builder_holds [OF assms(1) nob] by (auto simp: accounts_def open_holds_def None)
      from opened [OF this] show ?thesis by (simp add: None nob attemptJob.simps)
    qed
  qed
qed

lemma attemptJob_accounts:
  assumes "stream_ok z zs written" and "accounts z cfg written jobs w"
  shows "accounts z cfg written (jobs @ [job]) (attemptJob 2 zs cfg env job w)"
proof -
  have "\<forall>w. accounts z cfg written jobs w \<longrightarrow> accounts z cfg written (jobs @ [job]) (attemptJob (Suc 0) zs cfg env job w)"
    using attempt_accounts [OF assms(1), where left = 0] by auto
  then show ?thesis using attempt_accounts [OF assms, of 1] by (simp add: numeral_2_eq_2)
qed

lemma attempt_taken [simp]: "sw_taken (attemptJob n zs cfg env job w) = sw_taken w"
  by (induction n arbitrary: w)
    (auto simp: attemptJob.simps settle_def abandon_def settleAll_apply closeOpen_def flush_frame Let_def split: option.splits prod.splits)

lemma step_accounts:
  assumes "stream_ok z zs written" and "accounts z cfg written (sw_taken w) w"
  shows "accounts z cfg written (sw_taken (worker_step zs cfg env ev w)) (worker_step zs cfg env ev w)"
proof (cases ev)
  case (ReceiveJob job)
  then show ?thesis using attemptJob_accounts [OF assms(1), of cfg "sw_taken w"] assms(2) by (simp add: ReceiveJob)
qed (use assms closeOpen_accounts [OF assms] in simp_all)

section \<open>The pool\<close>

definition taken_mset :: "('z, 'c) s3_worker list \<Rightarrow> 'c writeJob multiset" where
  "taken_mset ws = sum_list (map (\<lambda>k. mset (sw_taken k)) ws)"

lemma taken_mset_update:
  "i < length ws \<Longrightarrow> sw_taken k = sw_taken (ws ! i) @ js \<Longrightarrow> taken_mset (ws[i := k]) = taken_mset ws + mset js"
  unfolding taken_mset_def by (rule pool_update) simp_all

lemma step_taken: "sw_taken (worker_step zs cfg env ev w) = sw_taken w @ (case ev of ReceiveJob job \<Rightarrow> [job] | _ \<Rightarrow> [])"
proof (cases ev)
  case (ReceiveJob job)
  then show ?thesis by simp
qed (auto simp: closeOpen_def flush_frame split: option.splits)

definition pool_ok :: "zstd_env \<Rightarrow> s3_config \<Rightarrow> ('z \<Rightarrow> string) \<Rightarrow> ('z, 'c) s3_writer \<Rightarrow> bool" where
  "pool_ok z cfg written w \<longleftrightarrow>
     mset (wr_accepted w) = mset (wr_jobs w) + taken_mset (wr_workers w)
     \<and> length (wr_exited w) = length (wr_workers w)
     \<and> (\<forall>k \<in> set (wr_workers w). accounts z cfg written (sw_taken k) k)
     \<and> (\<forall>i < length (wr_workers w). wr_exited w ! i \<longrightarrow> wr_closing w \<and> wr_jobs w = [] \<and> sw_open (wr_workers w ! i) = None)"

lemma reachable_pool_ok:
  assumes "stream_ok z zs written" and "s3_reachable zs cf w"
  shows "pool_ok z (writer_config cf) written w"
  using assms(2)
proof (induction rule: s3_reachable.induct)
  case start
  have "taken_mset (replicate n (s3_worker_new :: ('a, 'b) s3_worker)) = {#}" for n
    by (induction n) (simp_all add: taken_mset_def s3_worker_new_def)
  then show ?case by (auto simp: pool_ok_def NewWriter_def Let_def accounts_def s3_worker_new_def open_holds_def)
next
  case (enqueue w isnil r commit answer)
  then show ?case by (auto simp: pool_ok_def Enqueue_def Let_def split: option.splits)
next
  case (receive w job rest i env)
  define k where "k = worker_step zs (writer_config cf) env (ReceiveJob job) (wr_workers w ! i)"
  have "accounts z (writer_config cf) written (sw_taken k) k"
    unfolding k_def using receive by (intro step_accounts [OF assms(1)]) (simp add: pool_ok_def)
  moreover have "taken_mset ((wr_workers w)[i := k]) = taken_mset (wr_workers w) + {#job#}"
    using receive(3) by (subst taken_mset_update [of _ _ _ "[job]"]) (simp_all add: k_def)
  ultimately show ?case
    unfolding k_def [symmetric] using receive by (auto simp: pool_ok_def nth_list_update dest: set_update_subset_insert [THEN subsetD])
next
  case (age w i env)
  define k where "k = worker_step zs (writer_config cf) env AgeElapsed (wr_workers w ! i)"
  have "accounts z (writer_config cf) written (sw_taken k) k"
    unfolding k_def using age by (intro step_accounts [OF assms(1)]) (simp add: pool_ok_def)
  moreover have "taken_mset ((wr_workers w)[i := k]) = taken_mset (wr_workers w)"
    using age(2) taken_mset_update [of i "wr_workers w" k "[]"] step_taken [of zs "writer_config cf" env AgeElapsed "wr_workers w ! i"]
    by (simp add: k_def)
  ultimately show ?case
    unfolding k_def [symmetric] using age by (auto simp: pool_ok_def nth_list_update dest: set_update_subset_insert [THEN subsetD])
next
  case (shutdown w)
  then show ?case by (auto simp: pool_ok_def)
next
  case (drained w i env)
  define k where "k = worker_step zs (writer_config cf) env JobsClosed (wr_workers w ! i)"
  have acc: "accounts z (writer_config cf) written (sw_taken (wr_workers w ! i)) (wr_workers w ! i)" using drained by (simp add: pool_ok_def)
  have "accounts z (writer_config cf) written (sw_taken k) k" unfolding k_def by (rule step_accounts [OF assms(1) acc])
  moreover have "taken_mset ((wr_workers w)[i := k]) = taken_mset (wr_workers w)"
    using drained(4) taken_mset_update [of i "wr_workers w" k "[]"] step_taken [of zs "writer_config cf" env JobsClosed "wr_workers w ! i"]
    by (simp add: k_def)
  moreover have "sw_open k = None" unfolding k_def using closeOpen_accounts(2) [OF assms(1) acc] by simp
  ultimately show ?case
    unfolding k_def [symmetric] using drained by (auto simp: pool_ok_def nth_list_update dest: set_update_subset_insert [THEN subsetD])
qed

lemma accounts_settled:
  assumes "accounts z cfg written jobs k"
  shows "mset (map fst (sw_settled k)) \<subseteq># image_mset wj_commit (mset jobs)"
    "sw_open k = None \<Longrightarrow> mset (map fst (sw_settled k)) = image_mset wj_commit (mset jobs)"
    "(c, True) \<in> set (sw_settled k) \<Longrightarrow> \<exists>job \<in> set jobs. wj_commit job = c \<and> archived z cfg job (sw_puts k)"
proof -
  obtain settled held where j: "jobs = settled @ held" and h: "open_holds written held (sw_open k)"
    and s: "list_all2 (\<lambda>job (c, ok). c = wj_commit job \<and> (ok \<longrightarrow> archived z cfg job (sw_puts k))) settled (sw_settled k)"
    using assms by (auto simp: accounts_def)
  have m: "map fst (sw_settled k) = map wj_commit settled"
    using s by (auto simp: list_all2_conv_all_nth case_prod_beta intro!: nth_equalityI)
  show "mset (map fst (sw_settled k)) \<subseteq># image_mset wj_commit (mset jobs)" by (simp add: m j)
  show "mset (map fst (sw_settled k)) = image_mset wj_commit (mset jobs)" if "sw_open k = None"
    using h that by (simp add: m j open_holds_def)
  show "\<exists>job \<in> set jobs. wj_commit job = c \<and> archived z cfg job (sw_puts k)" if c: "(c, True) \<in> set (sw_settled k)"
  proof -
    obtain n where n: "n < length (sw_settled k)" "sw_settled k ! n = (c, True)" using c by (auto simp: in_set_conv_nth)
    then have "n < length settled" "c = wj_commit (settled ! n) \<and> archived z cfg (settled ! n) (sw_puts k)"
      using s by (auto simp: list_all2_conv_all_nth)
    then show ?thesis by (auto simp: j)
  qed
qed

definition settled_mset :: "('z, 'c) s3_writer \<Rightarrow> 'c option multiset" where
  "settled_mset w = sum_list (map (\<lambda>k. mset (map fst (sw_settled k))) (wr_workers w))"

lemma taken_commits: "image_mset wj_commit (taken_mset ws) = sum_list (map (\<lambda>k. image_mset wj_commit (mset (sw_taken k))) ws)"
  by (induction ws) (simp_all add: taken_mset_def)

text \<open>A worker of this pool honours the contract of \<open>sink_worker\<close>.\<close>

interpretation s3w: sink_worker "\<lambda>k. image_mset wj_commit (mset (sw_taken k))" "\<lambda>k. mset (map fst (sw_settled k))" "\<lambda>k. sw_open k = None"
  "\<lambda>k. accounts z cfg written (sw_taken k) k" for z cfg written
  by unfold_locales (blast intro: accounts_settled)+

text \<open>
  C24: The archive writer's settlement contract, over every interleaving of callers, workers, age timers,
  retried PUTs and the shutdown. No accepted record is ever settled twice; once the workers have drained
  and exited, every accepted record has been settled exactly once; and a record is settled as written
  only when an object that really landed, filed under its cluster and the hash of its uncompressed
  content, holds that record's line.
\<close>

theorem accepted_records_settle_once:
  assumes "stream_ok z zs written" and "s3_reachable zs cf w"
  shows "settled_mset w \<subseteq># image_mset wj_commit (mset (wr_accepted w))
    \<and> (wr_exited w \<noteq> [] \<and> list_all id (wr_exited w) \<longrightarrow> settled_mset w = image_mset wj_commit (mset (wr_accepted w)))
    \<and> (\<forall>k \<in> set (wr_workers w). \<forall>c. (c, True) \<in> set (sw_settled k) \<longrightarrow>
         (\<exists>job \<in> set (wr_accepted w). wj_commit job = c \<and> archived z (writer_config cf) job (sw_puts k)))"
proof -
  have ok: "pool_ok z (writer_config cf) written w" using assms by (rule reachable_pool_ok)
  then have acc: "\<forall>k \<in> set (wr_workers w). accounts z (writer_config cf) written (sw_taken k) k"
    and m: "mset (wr_accepted w) = mset (wr_jobs w) + taken_mset (wr_workers w)" by (simp_all add: pool_ok_def)
  have commits: "image_mset wj_commit (mset (wr_accepted w)) =
      image_mset wj_commit (mset (wr_jobs w)) + sum_list (map (\<lambda>k. image_mset wj_commit (mset (sw_taken k))) (wr_workers w))"
    by (simp only: m image_mset_union taken_commits)
  have once: "settled_mset w \<subseteq># image_mset wj_commit (mset (wr_accepted w))"
    unfolding commits settled_mset_def by (rule s3w.pool_settled [OF acc])
  have drained: "settled_mset w = image_mset wj_commit (mset (wr_accepted w))" if "wr_exited w \<noteq> []" "list_all id (wr_exited w)"
  proof -
    have "wr_exited w ! i" if "i < length (wr_workers w)" for i
      using ok that \<open>list_all id (wr_exited w)\<close> by (simp add: pool_ok_def list_all_length)
    moreover have "wr_workers w \<noteq> []" using ok \<open>wr_exited w \<noteq> []\<close> by (auto simp: pool_ok_def)
    ultimately have "wr_jobs w = []" "\<forall>k \<in> set (wr_workers w). sw_open k = None"
      using ok by (auto simp: pool_ok_def in_set_conv_nth)
    then show ?thesis using s3w.pool_drained [of "wr_workers w" z "writer_config cf" written] acc unfolding commits settled_mset_def by simp
  qed
  have "\<exists>job \<in> set (wr_accepted w). wj_commit job = c \<and> archived z (writer_config cf) job (sw_puts k)"
    if k: "k \<in> set (wr_workers w)" and c: "(c, True) \<in> set (sw_settled k)" for k c
  proof -
    obtain job where job: "job \<in> set (sw_taken k)" "wj_commit job = c" "archived z (writer_config cf) job (sw_puts k)"
      using accounts_settled(3) [OF _ c] acc k by blast
    have "mset (sw_taken k) \<subseteq># taken_mset (wr_workers w)" unfolding taken_mset_def by (rule pool_member [OF k])
    then have "mset (sw_taken k) \<subseteq># mset (wr_accepted w)" using m by (simp add: subset_mset.add_increasing)
    with job(1) have "job \<in> set (wr_accepted w)" by (metis mset_subset_eqD set_mset_mset)
    with job show ?thesis by blast
  qed
  with once drained show ?thesis by blast
qed

text \<open>One worker, one record, a PUT whose first attempt landed although it reported an error.\<close>

definition framing_stream :: "string zstd_stream" where
  "framing_stream = \<lparr>zs_New = Some [], zs_Write = (\<lambda>l z. Some (z @ l)), zs_Flush = Some, zs_Close = (\<lambda>z. Some (zstdMagic @ z)), zs_Buf = (\<lambda>z. z)\<rparr>"

lemma framing_stream_ok: "stream_ok framing framing_stream (\<lambda>z. z)"
  by (simp add: stream_ok_def framing_stream_def framing_def decompress_def zstdMagic_def has_prefix_def)

definition sampleSettings :: s3_settings where
  "sampleSettings = \<lparr>cf_Bucket = ''b'', cf_Prefix = ''audit'', cf_MaxObjectBytes = 0, cf_ObjectLock = None, cf_QueueSize = 0, cf_Workers = 1,
     cf_CoalesceWindow = 0\<rparr>"

definition sampleStore :: store_env where
  "sampleStore = \<lparr>sv_now = (\<lambda>_. 0), sv_answers = (\<lambda>_. [PutError True, PutOK])\<rparr>"

definition sampleRun :: "(string, nat) s3_writer" where
  "sampleRun =
     (let w0 = snd (Enqueue False (sampleRecord (march 2 9) ''{}'') (Some 1) SelSent (NewWriter sampleSettings));
          w1 = w0\<lparr>wr_jobs := [], wr_workers := [worker_step framing_stream (writer_config sampleSettings) sampleStore
                      (ReceiveJob (hd (wr_jobs w0))) (wr_workers w0 ! 0)]\<rparr>;
          w2 = w1\<lparr>wr_closing := True\<rparr>
      in w2\<lparr>wr_workers := [worker_step framing_stream (writer_config sampleSettings) sampleStore JobsClosed (wr_workers w2 ! 0)],
           wr_exited := [True]\<rparr>)"

lemma sampleRun_reachable:
  "s3_reachable framing_stream sampleSettings sampleRun" "list_all id (wr_exited sampleRun)" "wr_exited sampleRun \<noteq> []"
  "map wj_commit (wr_accepted sampleRun) = [Some 1]"
proof -
  obtain line where line: "marshalRecordLine False (sampleRecord (march 2 9) ''{}'') = Some line" using sampleRecord_line by blast
  define job :: "nat writeJob" where "job = \<lparr>wj_line = line, wj_clusterID = ''prod'', wj_ts = march 2 9, wj_commit = Some 1\<rparr>"
  define w0 :: "(string, nat) s3_writer" where "w0 = snd (Enqueue False (sampleRecord (march 2 9) ''{}'') (Some 1) SelSent (NewWriter sampleSettings))"
  have w0: "wr_jobs w0 = [job]" "wr_accepted w0 = [job]" "wr_workers w0 = [s3_worker_new]" "wr_exited w0 = [False]"
    using sampleRecord_fields by (simp_all add: w0_def Enqueue_def line NewWriter_def sampleSettings_def Let_def job_def defaultQueueSize_def)
  define w1 where "w1 = w0\<lparr>wr_jobs := [], wr_workers := [worker_step framing_stream (writer_config sampleSettings) sampleStore
    (ReceiveJob (hd (wr_jobs w0))) (wr_workers w0 ! 0)]\<rparr>"
  define w2 where "w2 = w1\<lparr>wr_closing := True\<rparr>"
  have r0: "s3_reachable framing_stream sampleSettings w0" unfolding w0_def by (intro s3_reachable.intros)
  have r1: "s3_reachable framing_stream sampleSettings w1"
    using s3_reachable.receive [OF r0, of job "[]" 0 sampleStore] by (simp add: w1_def w0)
  have r2: "s3_reachable framing_stream sampleSettings w2" unfolding w2_def by (rule s3_reachable.shutdown [OF r1])
  have run: "sampleRun = w2\<lparr>wr_workers := [worker_step framing_stream (writer_config sampleSettings) sampleStore JobsClosed (wr_workers w2 ! 0)],
      wr_exited := [True]\<rparr>"
    unfolding sampleRun_def Let_def w0_def [symmetric] w1_def [symmetric] w2_def [symmetric] ..
  have w2: "wr_closing w2" "wr_jobs w2 = []" "length (wr_workers w2) = 1" "wr_exited w2 = [False]" "wr_accepted w2 = [job]"
    "(wr_workers w2)[0 := k] = [k]" for k
    by (simp_all add: w2_def w1_def w0)
  show "s3_reachable framing_stream sampleSettings sampleRun"
    using s3_reachable.drained [OF r2 w2(1,2), of 0 sampleStore] by (simp add: run w2)
  show "list_all id (wr_exited sampleRun)" "wr_exited sampleRun \<noteq> []" "map wj_commit (wr_accepted sampleRun) = [Some 1]"
    by (simp_all add: run w2 job_def)
qed

theorem accepted_records_settle_once_witness: "settled_mset sampleRun = {#Some 1#}"
proof -
  have "image_mset wj_commit (mset (wr_accepted sampleRun)) = {#Some 1#}"
    using sampleRun_reachable(4) by (metis mset_map mset.simps)
  with accepted_records_settle_once [OF framing_stream_ok sampleRun_reachable(1)] sampleRun_reachable(2,3) show ?thesis by simp
qed

section \<open>The accumulating and the one-shot encoder\<close>

text \<open>The lines of a batch appended one after the other, as a worker does with a batch that fits one object.\<close>

fun appendRecords :: "'z zstd_stream \<Rightarrow> wire_record list \<Rightarrow> 'z objectBuilder \<Rightarrow> s3_error + 'z objectBuilder" where
  "appendRecords zs [] b = Inr b"
| "appendRecords zs ((isnil, r) # rs) b =
     (case marshalRecordLine isnil r of
        None \<Rightarrow> Inl (errMarshal 0)
      | Some line \<Rightarrow>
          (case builder_append zs line (rec_ClusterID r) (rec_Timestamp r) b of
             (Some e, _) \<Rightarrow> Inl e
           | (None, b) \<Rightarrow> appendRecords zs rs b))"

lemma builder_append_fields:
  assumes "builder_append zs line cl ts b = (None, b')"
  shows "ob_digest b' = ob_digest b @ line" "ob_records b' = ob_records b + 1"
    "ob_clusterID b' = (if ob_records b = 0 then cl else ob_clusterID b)" "ob_firstTS b' = (if ob_records b = 0 then ts else ob_firstTS b)"
  using assms unfolding builder_append_def by (auto simp: Let_def split: if_splits option.splits)

lemma appendRecords_fields:
  assumes "appendRecords zs records b = Inr b'" and "encodeRecords cl i records = Inr jsonl"
  shows "ob_digest b' = ob_digest b @ jsonl \<and> ob_records b' = ob_records b + length records
    \<and> (ob_records b \<noteq> 0 \<longrightarrow> ob_clusterID b' = ob_clusterID b \<and> ob_firstTS b' = ob_firstTS b)
    \<and> (ob_records b = 0 \<and> records \<noteq> [] \<longrightarrow> ob_clusterID b' = cl \<and> ob_firstTS b' = rec_Timestamp (snd (hd records)))"
  using assms
proof (induction zs records b arbitrary: i jsonl rule: appendRecords.induct)
  case (2 zs isnil r rs b)
  obtain line b1 where l: "marshalRecordLine isnil r = Some line"
    and b1: "builder_append zs line (rec_ClusterID r) (rec_Timestamp r) b = (None, b1)" and rest: "appendRecords zs rs b1 = Inr b'"
    using "2.prems"(1) by (auto split: option.splits prod.splits)
  obtain jsonl' where j: "encodeRecords cl (i + 1) rs = Inr jsonl'" "jsonl = line @ jsonl'" "rec_ClusterID r = cl"
    using "2.prems"(2) l by (auto split: if_splits sum.splits)
  note f = builder_append_fields [OF b1]
  from "2.IH" [OF l b1 [symmetric] refl rest j(1)] f j(2,3) show ?case by auto
qed simp

lemma builder_append_written:
  assumes "stream_ok z zs written" and "builder_append zs line cl ts b = (None, b')" and "written (ob_enc b) = ob_digest b"
  shows "written (ob_enc b') = ob_digest b'"
  using assms unfolding builder_append_def by (auto simp: Let_def streamD split: if_splits option.splits)

lemma appendRecords_written:
  assumes "stream_ok z zs written" and "appendRecords zs records b = Inr b'" and "written (ob_enc b) = ob_digest b"
  shows "written (ob_enc b') = ob_digest b'"
  using assms(2,3)
proof (induction records arbitrary: b)
  case (Cons rec records)
  obtain isnil r where r: "rec = (isnil, r)" by (cases rec)
  obtain line b1 where b1: "builder_append zs line (rec_ClusterID r) (rec_Timestamp r) b = (None, b1)"
    and rest: "appendRecords zs records b1 = Inr b'"
    using Cons.prems(1) by (auto simp: r split: option.splits prod.splits)
  from Cons.IH [OF rest builder_append_written [OF assms(1) b1 Cons.prems(2)]] show ?case .
qed simp

text \<open>
  The accumulating encoder of the write path and the one-shot reference encoder produce the same object:
  for the same batch they agree on the key and on the content hash, and the two payloads decompress to
  the same lines, although the compressed bytes may differ.
\<close>

theorem builder_agrees_with_Encode:
  assumes "codec_ok z" and "stream_ok z zs written" and "Encode z pfx records = Inr obj"
    and "newObjectBuilder zs maxBytes = Some b" and "appendRecords zs records b = Inr b'" and "build zs pfx b' = Inr obj'"
  shows "obj_Key obj' = obj_Key obj \<and> obj_ContentHash obj' = obj_ContentHash obj
    \<and> decompress z (obj_Payload obj') = decompress z (obj_Payload obj)"
proof -
  obtain isnil r0 rs where rs: "records = (isnil, r0) # rs" using assms(3) by (cases records) (auto simp: Encode_def)
  obtain enc jsonl where enc: "zstdEncoder z = Some enc" and jsonl: "encodeRecords (rec_ClusterID r0) 0 records = Inr jsonl"
    and obj: "obj = \<lparr>obj_Key = objectKey pfx (rec_ClusterID r0) (rec_Timestamp r0) (sha256_hex jsonl), obj_ContentHash = sha256_hex jsonl,
                    obj_Payload = enc jsonl\<rparr>"
    using assms(3) by (auto simp: Encode_def rs Let_def split: option.splits if_splits sum.splits)
  have b: "ob_records b = 0" "ob_digest b = []" "written (ob_enc b) = ob_digest b"
    using assms(4) streamD(1) [OF assms(2)] by (auto simp: newObjectBuilder_def split: option.splits)
  have b': "ob_digest b' = jsonl" "ob_clusterID b' = rec_ClusterID r0" "ob_firstTS b' = rec_Timestamp r0"
    using appendRecords_fields [OF assms(5) jsonl] b(1,2) by (simp_all add: rs)
  obtain enc' where enc': "zs_Close zs (ob_enc b') = Some enc'"
    and obj': "obj' = \<lparr>obj_Key = objectKey pfx (ob_clusterID b') (ob_firstTS b') (sha256_hex (ob_digest b')),
      obj_ContentHash = sha256_hex (ob_digest b'), obj_Payload = zs_Buf zs enc'\<rparr>"
    using assms(6) by (auto simp: build_def Let_def split: if_splits option.splits)
  have "decompress z (obj_Payload obj') = Inr jsonl"
    using streamD(4) [OF assms(2) enc'] appendRecords_written [OF assms(2,5) b(3)] by (simp add: obj' b')
  moreover have "decompress z (obj_Payload obj) = Inr jsonl" using assms(1) enc by (simp add: codec_ok_def obj)
  ultimately show ?thesis by (simp add: obj obj' b')
qed

theorem builder_agrees_with_Encode_witness:
  "\<exists>obj b b' obj'. Encode framing ''audit'' [(False, sampleRecord (march 2 9) ''{}'')] = Inr obj
     \<and> newObjectBuilder framing_stream 0 = Some b
     \<and> appendRecords framing_stream [(False, sampleRecord (march 2 9) ''{}'')] b = Inr b'
     \<and> build framing_stream ''audit'' b' = Inr obj' \<and> obj_Key obj' = obj_Key obj"
proof -
  let ?rs = "[(False, sampleRecord (march 2 9) ''{}'')]"
  obtain line where line: "marshalRecordLine False (sampleRecord (march 2 9) ''{}'') = Some line" using sampleRecord_line by blast
  obtain obj where obj: "Encode framing ''audit'' ?rs = Inr obj"
    using line by (simp add: Encode_def framing_def Let_def sampleRecord_fields)
  obtain b where b: "newObjectBuilder framing_stream 0 = Some b" "ob_records b = 0"
    by (simp add: newObjectBuilder_def framing_stream_def)
  obtain b' where ap: "builder_append framing_stream line ''prod'' (march 2 9) b = (None, b')"
    using b(2) by (cases "refreshDue (b\<lparr>ob_clusterID := ''prod'', ob_firstTS := march 2 9, ob_enc := ob_enc b @ line,
      ob_digest := ob_digest b @ line, ob_records := 1, ob_pending := ob_pending b + int (length line)\<rparr>)")
      (simp_all add: builder_append_def framing_stream_def Let_def)
  then have b': "appendRecords framing_stream ?rs b = Inr b'" by (simp add: line sampleRecord_fields)
  have recs: "ob_records b' \<noteq> 0" using builder_append_fields(2) [OF ap] by simp
  obtain obj' where obj': "build framing_stream ''audit'' b' = Inr obj'"
    using recs by (simp add: build_def framing_stream_def Let_def)
  from builder_agrees_with_Encode [OF framing_ok framing_stream_ok obj b(1) b' obj'] obj b(1) b' obj' show ?thesis by blast
qed

end
