(* ===== verification/Replay.thy ===== *)
theory Replay
  imports Pipeline JsonParse
begin

text \<open>
  Reading the history back (\<open>internal/query/replay.go\<close>, \<open>filter.go\<close>): the reconstruction of a recorded
  state from a full-state row and the patches after it, and the client-side predicates of a timeline.

  The JSON-patch library is a parameter (\<open>patch_lib\<close>): decoding a patch and applying it to a document.
  Row indexes are naturals; the absent base row (\<open>-1\<close>) is \<^const>\<open>None\<close>.
\<close>

section \<open>Replay\<close>

record ReplayRow =
  rr_TS :: go_time
  rr_EventType :: string
  rr_Data :: string
  rr_Diff :: string
  rr_SHA256 :: string

record Reconstruction =
  rc_Object :: "(string, json) gomap"
  rc_BaseTS :: go_time
  rc_BaseEvent :: string
  rc_PatchesApplied :: nat
  rc_SHA256 :: string

record 'p patch_lib =
  DecodePatch :: "string \<Rightarrow> 'p option"
  PatchApply :: "'p \<Rightarrow> string \<Rightarrow> string option"

datatype replayError =
    PatchUndecodable go_time
  | PatchInapplicable go_time
  | StateUndecodable go_time

fun baseFrom :: "nat \<Rightarrow> ReplayRow list \<Rightarrow> nat option" where
  "baseFrom 0 history = None"
| "baseFrom (Suc i) history = (if rr_Data (history ! i) \<noteq> [] then Some i else baseFrom i history)"

definition BaseRow :: "ReplayRow list \<Rightarrow> nat option" where
  "BaseRow history = baseFrom (length history) history"

fun replayLoop :: "'p patch_lib \<Rightarrow> ReplayRow list \<Rightarrow> string \<Rightarrow> nat \<Rightarrow> replayError + (string \<times> nat)" where
  "replayLoop lib [] state applied = Inr (state, applied)"
| "replayLoop lib (row # rows) state applied =
     (if rr_Data row \<noteq> [] then replayLoop lib rows (rr_Data row) applied
      else if rr_Diff row \<noteq> [] then
        (case DecodePatch lib (rr_Diff row) of
           None \<Rightarrow> Inl (PatchUndecodable (rr_TS row))
         | Some patch \<Rightarrow>
             (case PatchApply lib patch state of
                None \<Rightarrow> Inl (PatchInapplicable (rr_TS row))
              | Some nxt \<Rightarrow> replayLoop lib rows nxt (applied + 1)))
      else replayLoop lib rows state applied)"

text \<open>\<open>json.Unmarshal\<close> into a map: an object, or null, which leaves the map nil.\<close>

definition decodeObject :: "string \<Rightarrow> (string, json) gomap option" where
  "decodeObject s = (case json_unmarshal s of Some (JObj kvs) \<Rightarrow> Some kvs | Some JNull \<Rightarrow> Some [] | _ \<Rightarrow> None)"

definition Replay :: "'p patch_lib \<Rightarrow> ReplayRow list \<Rightarrow> nat \<Rightarrow> replayError + Reconstruction" where
  "Replay lib history base =
     (let last_row = last (drop base history) in
      case replayLoop lib (drop (Suc base) history) (rr_Data (history ! base)) 0 of
        Inl e \<Rightarrow> Inl e
      | Inr (state, applied) \<Rightarrow>
          (case decodeObject state of
             None \<Rightarrow> Inl (StateUndecodable (rr_TS last_row))
           | Some obj \<Rightarrow>
               Inr \<lparr>rc_Object = obj, rc_BaseTS = rr_TS (history ! base), rc_BaseEvent = rr_EventType (history ! base),
                    rc_PatchesApplied = applied, rc_SHA256 = rr_SHA256 last_row\<rparr>))"

section \<open>Timeline predicates\<close>

record Change =
  ch_TS :: go_time
  ch_EventType :: string
  ch_Actors :: "string list"
  ch_UID :: string
  ch_ResourceVersion :: string
  ch_APIVersion :: string
  ch_Data :: string
  ch_Diff :: string
  ch_SHA256 :: string
  ch_Labels :: "(string, string) gomap"

definition held :: "Change \<Rightarrow> string list \<Rightarrow> bool" where
  "held c names = list_ex (\<lambda>a. a \<in> set names) (ch_Actors c)"

definition MatchesActors :: "Change \<Rightarrow> string list \<Rightarrow> string list \<Rightarrow> bool" where
  "MatchesActors c include exclude = (if include \<noteq> [] \<and> \<not> held c include then False else \<not> held c exclude)"

text \<open>\<open>strings.ReplaceAll\<close> of a two-character text by one character, left to right.\<close>

fun replace2 :: "char \<Rightarrow> char \<Rightarrow> char \<Rightarrow> string \<Rightarrow> string" where
  "replace2 a b c (x # y # s) = (if x = a \<and> y = b then c # replace2 a b c s else x # replace2 a b c (y # s))"
| "replace2 a b c s = s"

definition dottedPath :: "string \<Rightarrow> string" where
  "dottedPath pointer =
     (let trimmed = (if has_prefix pointer ''/'' then tl pointer else pointer) in
      join_with ''.'' (map (\<lambda>segment. replace2 (CHR ''~'') (CHR ''0'') (CHR ''~'')
                              (replace2 (CHR ''~'') (CHR ''1'') (CHR ''/'') segment)) (split_on (CHR ''/'') trimmed)))"

definition MatchesFieldPath :: "string \<Rightarrow> string list \<Rightarrow> bool" where
  "MatchesFieldPath pointer paths =
     (if paths = [] then True
      else let dotted = dottedPath pointer in list_ex (\<lambda>want. dotted = want \<or> has_prefix dotted (want @ ''.'')) paths)"

text \<open>Decoding the operations keeps their \<open>path\<close> member; a null leaves it empty.\<close>

definition opPath :: "json \<Rightarrow> string option" where
  "opPath v =
     (case v of
        JObj kvs \<Rightarrow> (case gm_get kvs ''path'' of None \<Rightarrow> Some [] | Some JNull \<Rightarrow> Some [] | Some (JStr p) \<Rightarrow> Some p | Some _ \<Rightarrow> None)
      | JNull \<Rightarrow> Some []
      | _ \<Rightarrow> None)"

definition decodePatchOps :: "string \<Rightarrow> string list option" where
  "decodePatchOps diff =
     (case json_unmarshal diff of
        Some (JArr ops) \<Rightarrow> all_some (map opPath ops)
      | Some JNull \<Rightarrow> Some []
      | _ \<Rightarrow> None)"

definition MatchesFieldPaths :: "Change \<Rightarrow> string list \<Rightarrow> bool" where
  "MatchesFieldPaths c paths =
     (if paths = [] \<or> ch_Diff c = [] then True
      else case decodePatchOps (ch_Diff c) of
             None \<Rightarrow> True
           | Some ops \<Rightarrow> list_ex (\<lambda>p. MatchesFieldPath p paths) ops)"

section \<open>What the pipeline wrote\<close>

text \<open>
  The rows of one object whose states were written and confirmed one after the other: the first in
  full, each later one as the pipeline planned it against the entry it had confirmed.
\<close>

fun rows_after :: "pipeline_env \<Rightarrow> Key \<Rightarrow> writer \<Rightarrow> CacheEntry \<Rightarrow> (normalizedObject \<times> go_time) list \<Rightarrow> sink_record list" where
  "rows_after env key w e [] = []"
| "rows_after env key w e ((norm, at) # nts) =
     (let plan = fst (planModified env False w e norm) in
      upsertRecord env key norm plan at # rows_after env key w (confirmedEntry env False norm (up_modifiedRun plan)) nts)"

definition written_rows :: "pipeline_env \<Rightarrow> Key \<Rightarrow> writer \<Rightarrow> normalizedObject \<times> go_time \<Rightarrow> (normalizedObject \<times> go_time) list \<Rightarrow> sink_record list" where
  "written_rows env key w first nts =
     upsertRecord env key (fst first) plan_added (snd first) # rows_after env key w (confirmedEntry env False (fst first) 0) nts"

definition replayRow :: "sink_record \<Rightarrow> ReplayRow" where
  "replayRow r = \<lparr>rr_TS = rec_Timestamp r, rr_EventType = rec_EventType r, rr_Data = rec_Data r, rr_Diff = rec_Diff r, rr_SHA256 = rec_SHA256 r\<rparr>"

text \<open>What is relied on: the codec restores what it compressed, and a patch computed from one document to
  another, when decoded and applied to any text of the first, gives a text of the second.\<close>

definition codec_faithful :: "zstd_env \<Rightarrow> bool" where
  "codec_faithful z \<longleftrightarrow> (\<forall>enc dec x y. zstdEncoder z = Some enc \<longrightarrow> zstdDecoder z = Some dec \<longrightarrow> dec (enc x) = Some y \<longrightarrow> y = x)"

definition patches_faithful :: "diff_env \<Rightarrow> 'p patch_lib \<Rightarrow> bool" where
  "patches_faithful d lib \<longleftrightarrow> (\<forall>old new bs doc. ComputeDiff d old new = Inr bs \<longrightarrow> json_unmarshal doc = json_unmarshal old \<longrightarrow>
     bs \<noteq> [] \<and> (\<exists>p out. DecodePatch lib bs = Some p \<and> PatchApply lib p doc = Some out \<and> json_unmarshal out = json_unmarshal new))"

definition baseline_is :: "pipeline_env \<Rightarrow> CacheEntry \<Rightarrow> string \<Rightarrow> bool" where
  "baseline_is env e doc \<longleftrightarrow> (\<forall>b. decodeBaseline (env_zstd env) e = Inr b \<longrightarrow> b = Some doc)"

lemma baseline_confirmed:
  assumes "codec_faithful (env_zstd env)" and "no_JSON norm \<noteq> []"
  shows "baseline_is env (confirmedEntry env False norm n) (no_JSON norm)"
  using assms
  by (auto simp: baseline_is_def confirmedEntry_def compressBaseline_def decodeBaseline_def codec_faithful_def Let_def
      encodingRaw_def encodingZstd_def split: option.splits if_splits)

lemma planModified_row:
  assumes "patches_faithful (env_diff env) lib" and "baseline_is env e prev" and "json_unmarshal doc = json_unmarshal prev"
    and "\<not> up_carriesFullState (fst (planModified env False w e norm))"
  shows "up_diffString (fst (planModified env False w e norm)) \<noteq> [] \<and>
    (\<exists>p out. DecodePatch lib (up_diffString (fst (planModified env False w e norm))) = Some p \<and> PatchApply lib p doc = Some out
       \<and> json_unmarshal out = json_unmarshal (no_JSON norm))"
proof -
  obtain bs where "ComputeDiff (env_diff env) prev (no_JSON norm) = Inr bs" "up_diffString (fst (planModified env False w e norm)) = bs"
    using assms(2,4)
    by (auto simp: planModified_def plan_added_def baseline_is_def Let_def split: option.splits sum.splits diffError.splits if_splits)
  then show ?thesis using assms(1,3) by (auto simp: patches_faithful_def)
qed

lemma replayLoop_rows:
  assumes "patches_faithful (env_diff env) lib" and "codec_faithful (env_zstd env)"
    and "baseline_is env e prev" and "json_unmarshal doc = json_unmarshal prev" and "list_all (\<lambda>nt. no_JSON (fst nt) \<noteq> []) nts"
  shows "\<exists>out. replayLoop lib (map replayRow (rows_after env key w e nts)) doc n
      = Inr (out, n + length (filter (\<lambda>r. rec_Data r = []) (rows_after env key w e nts)))
    \<and> json_unmarshal out = json_unmarshal (last (prev # map (no_JSON \<circ> fst) nts))"
  using assms(3-5)
proof (induction nts arbitrary: e prev doc n)
  case (Cons nt nts)
  obtain norm at where nt: "nt = (norm, at)" by (cases nt)
  define plan where "plan = fst (planModified env False w e norm)"
  define e' where "e' = confirmedEntry env False norm (up_modifiedRun plan)"
  have ne: "no_JSON norm \<noteq> []" and rest: "list_all (\<lambda>nt. no_JSON (fst nt) \<noteq> []) nts" using Cons.prems(3) by (auto simp: nt)
  have b: "baseline_is env e' (no_JSON norm)" unfolding e'_def by (rule baseline_confirmed [OF assms(2) ne])
  show ?case
  proof (cases "up_carriesFullState plan")
    case True
    from Cons.IH [OF b refl rest, of n] show ?thesis
      using True ne by (auto simp: nt plan_def [symmetric] e'_def [symmetric] Let_def replayRow_def upsertRecord_def)
  next
    case False
    obtain p out where p: "up_diffString plan \<noteq> []" "DecodePatch lib (up_diffString plan) = Some p" "PatchApply lib p doc = Some out"
      "json_unmarshal out = json_unmarshal (no_JSON norm)"
      using planModified_row [OF assms(1) Cons.prems(1,2), of w norm] False unfolding plan_def by blast
    from Cons.IH [OF b p(4) rest, of "n + 1"] show ?thesis
      using False p(1-3) by (auto simp: nt plan_def [symmetric] e'_def [symmetric] Let_def replayRow_def upsertRecord_def)
  qed
qed simp

lemma length_rows_after [simp]: "length (rows_after env key w e nts) = length nts"
  by (induction nts arbitrary: e) (auto simp: Let_def)

lemma rows_after_nth:
  "i < length nts \<Longrightarrow> \<exists>run plan. drop (Suc i) (rows_after env key w e nts)
       = rows_after env key w (confirmedEntry env False (fst (nts ! i)) run) (drop (Suc i) nts)
     \<and> rows_after env key w e nts ! i = upsertRecord env key (fst (nts ! i)) plan (snd (nts ! i))"
proof (induction nts arbitrary: e i)
  case (Cons nt nts)
  obtain norm at where nt: "nt = (norm, at)" by (cases nt)
  show ?case
  proof (cases i)
    case 0
    then show ?thesis by (auto simp: nt Let_def)
  next
    case (Suc j)
    then show ?thesis using Cons by (simp add: nt Let_def)
  qed
qed simp

lemma written_rows_nth:
  assumes "i < length (written_rows env key w first nts)"
  shows "\<exists>run plan. drop (Suc i) (written_rows env key w first nts)
       = rows_after env key w (confirmedEntry env False (fst ((first # nts) ! i)) run) (drop i nts)
     \<and> written_rows env key w first nts ! i = upsertRecord env key (fst ((first # nts) ! i)) plan (snd ((first # nts) ! i))"
proof (cases i)
  case 0
  then show ?thesis by (auto simp: written_rows_def)
next
  case (Suc j)
  then show ?thesis using assms rows_after_nth [of j nts env key w "confirmedEntry env False (fst first) 0"]
    by (simp add: written_rows_def)
qed

lemma baseFrom_spec:
  "baseFrom n h = Some b \<Longrightarrow> b < n \<and> rr_Data (h ! b) \<noteq> [] \<and> (\<forall>j. b < j \<longrightarrow> j < n \<longrightarrow> rr_Data (h ! j) = [])"
  by (induction n) (auto split: if_splits simp: less_Suc_eq)

lemma baseFrom_exists: "i < n \<Longrightarrow> rr_Data (h ! i) \<noteq> [] \<Longrightarrow> \<exists>b. baseFrom n h = Some b"
  by (induction n) (auto simp: less_Suc_eq)

lemma filter_all_drop: "(\<And>j. b < j \<Longrightarrow> j < length xs \<Longrightarrow> P (xs ! j)) \<Longrightarrow> filter P (drop (Suc b) xs) = drop (Suc b) xs"
  by (rule filter_True) (auto simp: in_set_conv_nth)

text \<open>
  C6: What the pipeline wrote, the reader reconstructs. Take any sequence of states of one object,
  each written and confirmed before the next, with whatever mix of full rows, diffs, fallbacks and
  checkpoints the pipeline chose. The replay finds a base row, applies exactly the patches after it
  and yields the object of the last state, with the digest recorded for it. (The compression codec
  restores what it stored; the patch library's patch from one document to another, applied to any
  text of the first, gives a text of the second.)
\<close>

theorem replay_reconstructs_written_state:
  assumes "patches_faithful (env_diff env) lib" and "codec_faithful (env_zstd env)"
    and "list_all (\<lambda>nt. no_JSON (fst nt) \<noteq> []) (first # nts)"
    and "decodeObject (no_JSON (fst (last (first # nts)))) = Some obj"
  shows "\<exists>base rc. BaseRow (map replayRow (written_rows env key w first nts)) = Some base
    \<and> Replay lib (map replayRow (written_rows env key w first nts)) base = Inr rc
    \<and> rc_Object rc = obj \<and> rc_SHA256 rc = no_Hash (fst (last (first # nts)))
    \<and> rc_PatchesApplied rc = length nts - base"
proof -
  define rows where "rows = written_rows env key w first nts"
  define h where "h = map replayRow rows"
  have len: "length rows = Suc (length nts)" "length h = Suc (length nts)" by (simp_all add: rows_def h_def written_rows_def)
  have "rr_Data (h ! 0) \<noteq> []"
    using assms(3) by (simp add: h_def rows_def written_rows_def replayRow_def upsertRecord_def plan_added_def)
  then obtain b where b: "BaseRow h = Some b" using baseFrom_exists [of 0 "length h" h] len by (auto simp: BaseRow_def)
  then have bl: "b < length rows" "rr_Data (h ! b) \<noteq> []" and after: "\<And>j. b < j \<Longrightarrow> j < length h \<Longrightarrow> rr_Data (h ! j) = []"
    using baseFrom_spec [of "length h" h b] by (auto simp: BaseRow_def h_def)
  obtain run plan where d: "drop (Suc b) rows = rows_after env key w (confirmedEntry env False (fst ((first # nts) ! b)) run) (drop b nts)"
    and r: "rows ! b = upsertRecord env key (fst ((first # nts) ! b)) plan (snd ((first # nts) ! b))"
    using written_rows_nth [of b env key w first nts] bl(1) unfolding rows_def by blast
  have data: "rr_Data (h ! b) = no_JSON (fst ((first # nts) ! b))"
    using bl r by (auto simp: h_def replayRow_def upsertRecord_def split: if_splits)
  have ne: "no_JSON (fst ((first # nts) ! b)) \<noteq> []" using bl(2) data by simp
  have rest: "list_all (\<lambda>nt. no_JSON (fst nt) \<noteq> []) (drop b nts)" using assms(3) by (auto simp: list_all_iff dest: in_set_dropD)
  have "filter (\<lambda>r. rec_Data r = []) (drop (Suc b) rows) = drop (Suc b) rows"
    using after by (intro filter_all_drop) (simp add: h_def replayRow_def)
  moreover have hd: "drop (Suc b) h = map replayRow (drop (Suc b) rows)" by (simp add: h_def drop_map)
  ultimately obtain out where out: "replayLoop lib (drop (Suc b) h) (rr_Data (h ! b)) 0 = Inr (out, length nts - b)"
    "json_unmarshal out = json_unmarshal (last (no_JSON (fst ((first # nts) ! b)) # map (no_JSON \<circ> fst) (drop b nts)))"
    using replayLoop_rows [OF assms(1,2) baseline_confirmed [OF assms(2) ne] refl rest, of key w run 0] len(1)
    unfolding data hd d [symmetric] by auto
  have lst: "last (drop b (first # nts)) = last (first # nts)" using bl(1) len(1) by (simp add: last_drop del: last.simps drop.simps)
  have "drop b (first # nts) = (first # nts) ! b # drop b nts"
    using bl(1) len(1) Cons_nth_drop_Suc [of b "first # nts"] by simp
  then have "last (no_JSON (fst ((first # nts) ! b)) # map (no_JSON \<circ> fst) (drop b nts)) = no_JSON (fst (last (first # nts)))"
    using lst by (metis (no_types, lifting) comp_apply last_map list.discI list.simps(9))
  then have obj: "decodeObject out = Some obj" using out(2) assms(4) by (simp add: decodeObject_def)
  have "rr_SHA256 (last (drop b h)) = no_Hash (fst (last (first # nts)))"
  proof -
    have "last (drop b h) = h ! length nts" using bl(1) len by (simp add: last_drop last_conv_nth)
    moreover obtain pl where "rows ! length nts = upsertRecord env key (fst ((first # nts) ! length nts)) pl (snd ((first # nts) ! length nts))"
      using written_rows_nth [of "length nts" env key w first nts] len(1) unfolding rows_def by auto
    moreover have "(first # nts) ! length nts = last (first # nts)" by (simp add: last_conv_nth)
    ultimately show ?thesis using len(1) by (simp add: h_def replayRow_def upsertRecord_def del: last.simps)
  qed
  with b out(1) obj show ?thesis unfolding h_def rows_def by (auto simp: Replay_def Let_def)
qed

text \<open>A patch library to instantiate the hypotheses with: a patch is the new document itself.\<close>

definition wholeDiff :: diff_env where
  "wholeDiff = \<lparr>CompareJSON = (\<lambda>old new. if new = [] then None else Some [\<lparr>op_Type = ''replace'', op_Path = ''/x'', op_From = [], op_Value = JStr new\<rparr>]),
     MarshalPatch = (\<lambda>ops. case ops of [op] \<Rightarrow> (case op_Value op of JStr s \<Rightarrow> Some s | _ \<Rightarrow> None) | _ \<Rightarrow> None)\<rparr>"

definition wholePatches :: "string patch_lib" where
  "wholePatches = \<lparr>DecodePatch = Some, PatchApply = (\<lambda>p doc. Some p)\<rparr>"

lemma wholePatches_faithful: "patches_faithful wholeDiff wholePatches"
  by (auto simp: patches_faithful_def wholeDiff_def wholePatches_def ComputeDiff_def split: if_splits option.splits)

definition diffEnv :: pipeline_env where
  "diffEnv = (sample_env None)\<lparr>env_diff := wholeDiff\<rparr>"

definition state_norm :: "string \<Rightarrow> normalizedObject" where
  "state_norm doc = sample_norm\<lparr>no_JSON := doc, no_Hash := sha256_hex doc\<rparr>"

theorem replay_reconstructs_written_state_witness:
  "\<exists>base rc. BaseRow (map replayRow (written_rows diffEnv sample_key sample_writer (state_norm ''{}'', 0) [(state_norm ''null'', 1)])) = Some base
    \<and> Replay wholePatches (map replayRow (written_rows diffEnv sample_key sample_writer (state_norm ''{}'', 0) [(state_norm ''null'', 1)])) base = Inr rc
    \<and> rc_Object rc = [] \<and> rc_SHA256 rc = sha256_hex ''null'' \<and> rc_PatchesApplied rc = 1 - base"
proof -
  have "json_unmarshal ''null'' = Some JNull" by (rule unmarshal_marshal) simp_all
  then have d: "decodeObject (no_JSON (fst (last [(state_norm ''{}'', 0), (state_norm ''null'', 1)]))) = Some []"
    by (simp add: decodeObject_def state_norm_def)
  have p: "patches_faithful (env_diff diffEnv) wholePatches" by (simp add: diffEnv_def wholePatches_faithful)
  have c: "codec_faithful (env_zstd diffEnv)" by (simp add: codec_faithful_def diffEnv_def sample_env_def)
  have ne: "list_all (\<lambda>nt. no_JSON (fst nt) \<noteq> []) [(state_norm ''{}'', 0), (state_norm ''null'', 1)]" by (simp add: state_norm_def)
  from replay_reconstructs_written_state [OF p c ne d, of sample_key sample_writer] show ?thesis by (simp add: state_norm_def)
qed

section \<open>Field paths\<close>

definition escapeSegment :: "string \<Rightarrow> string" where
  "escapeSegment s = concat (map (\<lambda>c. if c = CHR ''~'' then ''~0'' else if c = CHR ''/'' then ''~1'' else [c]) s)"

definition pointerOf :: "string list \<Rightarrow> string" where
  "pointerOf segs = concat (map (\<lambda>s. CHR ''/'' # escapeSegment s) segs)"

lemma replace2_skip: "x \<noteq> a \<Longrightarrow> replace2 a b c (x # s) = x # replace2 a b c s"
  by (cases s) auto

lemma unescape_slashes:
  "replace2 (CHR ''~'') (CHR ''1'') (CHR ''/'') (escapeSegment s) = concat (map (\<lambda>c. if c = CHR ''~'' then ''~0'' else [c]) s)"
  by (induction s) (auto simp: escapeSegment_def replace2_skip)

lemma unescape_tildes:
  "replace2 (CHR ''~'') (CHR ''0'') (CHR ''~'') (concat (map (\<lambda>c. if c = CHR ''~'' then ''~0'' else [c]) s)) = s"
  by (induction s) (auto simp: replace2_skip)

lemma escapeSegment_no_slash: "CHR ''/'' \<notin> set (escapeSegment s)"
  by (auto simp: escapeSegment_def split: if_splits)

lemma split_segments:
  "split_on (CHR ''/'') (escapeSegment s @ pointerOf segs) = map escapeSegment (s # segs)"
proof (induction segs arbitrary: s)
  case Nil
  then show ?case by (simp add: pointerOf_def escapeSegment_no_slash)
next
  case (Cons u segs)
  have "pointerOf (u # segs) = CHR ''/'' # escapeSegment u @ pointerOf segs" by (simp add: pointerOf_def)
  then show ?case using Cons [of u] by (simp add: split_on_append escapeSegment_no_slash)
qed

lemma dottedPath_pointerOf: "segs \<noteq> [] \<Longrightarrow> dottedPath (pointerOf segs) = join_with ''.'' segs"
proof (cases segs)
  case (Cons s segs')
  have "pointerOf segs = CHR ''/'' # escapeSegment s @ pointerOf segs'" by (simp add: Cons pointerOf_def)
  then show ?thesis
    unfolding dottedPath_def Let_def
    by (simp add: has_prefix_def split_segments unescape_slashes unescape_tildes comp_def Cons)
qed simp

lemma join_with_append: "xs \<noteq> [] \<Longrightarrow> ys \<noteq> [] \<Longrightarrow> join_with sep (xs @ ys) = join_with sep xs @ sep @ join_with sep ys"
proof (induction xs)
  case (Cons x xs)
  then show ?case by (cases xs; cases ys) auto
qed simp

text \<open>
  A field filter misses nothing beneath the path it names. A pointer whose segments are escaped
  as RFC 6901 asks is read back as those segments joined by dots (slashes and tildes inside a name
  included), and a filter naming a path keeps every operation at that path or below it.
\<close>

theorem field_filter_covers_subtree:
  assumes "segs \<noteq> []"
  shows "dottedPath (pointerOf (segs @ below)) = join_with ''.'' (segs @ below)
    \<and> MatchesFieldPath (pointerOf (segs @ below)) (join_with ''.'' segs # others)"
proof -
  have d: "dottedPath (pointerOf (segs @ below)) = join_with ''.'' (segs @ below)" using assms by (simp add: dottedPath_pointerOf)
  have "join_with ''.'' (segs @ below) = join_with ''.'' segs \<or> has_prefix (join_with ''.'' (segs @ below)) (join_with ''.'' segs @ ''.'')"
    using assms by (cases "below = []") (simp_all add: join_with_append has_prefix_def)
  then show ?thesis by (simp add: d MatchesFieldPath_def Let_def) blast
qed

theorem field_filter_covers_subtree_witness:
  "MatchesFieldPath ''/metadata/annotations/a~1b/x~0y'' [''metadata.annotations.a/b'']"
  using field_filter_covers_subtree [of "[''metadata'', ''annotations'', ''a/b'']" "[''x~y'']" "[]"]
  by (simp add: pointerOf_def escapeSegment_def)

end
