(* ===== verification/ArchiveScan.thy ===== *)
theory ArchiveScan
  imports ArchiveWriter Replay
begin

text \<open>
  Reading the archive (\<open>internal/query/objectsource\<close>): the engine's options (\<open>engine.go\<close>), the streaming
  decode of one object (\<open>line.go\<close>) and the scan that turns prefixes into decoded lines (\<open>scan.go\<close>).

  \<^item> The object source is a parameter: what a listing yields and whether it failed, and what a fetch of a key
    gives. The zstd reader is a parameter too: the bytes it delivers, and whether it reached the end of the frame.
  \<^item> The order in which parallel fetches finish does not appear: every slot is written by its own unit and read
    when all have finished. What a cancelled context leaves is the set of slots whose unit did not run.
  \<^item> An error value is the list of the causes joined in it; the nil error is the empty list. The engine's progress
    counters are not modelled.
  \<^item> Member names of a JSON object are compared exactly; the lines of this format have no other spelling.
\<close>

section \<open>The engine\<close>

record Options =
  op_Prefix :: string
  op_Concurrency :: int
  op_ObjectSpan :: go_duration
  op_StateLookback :: go_duration

record Engine =
  en_prefix :: string
  en_concurrency :: nat
  en_objectSpan :: go_duration
  en_stateLookback :: go_duration
  en_closed :: bool

definition DefaultObjectSpan :: go_duration where "DefaultObjectSpan = nsPerHour"

definition NoObjectSpan :: go_duration where "NoObjectSpan = - 1"

definition DefaultConcurrency :: int where "DefaultConcurrency = 8"

definition DefaultStateLookback :: go_duration where "DefaultStateLookback = 30 * 24 * nsPerHour"

definition resolveObjectSpan :: "go_duration \<Rightarrow> go_duration option" where
  "resolveObjectSpan span =
     (if span = 0 then Some DefaultObjectSpan
      else if span = NoObjectSpan then Some 0
      else if span < 0 then None
      else Some span)"

definition NewEngine :: "Options \<Rightarrow> Engine option" where
  "NewEngine opts =
     (case resolveObjectSpan (op_ObjectSpan opts) of
        None \<Rightarrow> None
      | Some span \<Rightarrow>
          Some \<lparr>en_prefix = op_Prefix opts,
                en_concurrency = nat (if op_Concurrency opts \<le> 0 then DefaultConcurrency else op_Concurrency opts),
                en_objectSpan = span,
                en_stateLookback = (if op_StateLookback opts \<le> 0 then DefaultStateLookback else op_StateLookback opts),
                en_closed = False\<rparr>)"

definition Engine_Close :: "Engine \<Rightarrow> Engine" where
  "Engine_Close e = e\<lparr>en_closed := True\<rparr>"

datatype query_error =
    EngineClosed | TimeBoundRequired | ZeroInstant | ScanFailed "scan_error list" | ObjectNotFound | ReplayFailed replayError
and scan_error =
    ListFailed string | Abandoned | ObjectGone string | FetchFailed string | ReadFailed string | ReleaseFailed string

definition ensureOpen :: "Engine \<Rightarrow> query_error option" where
  "ensureOpen e = (if en_closed e then Some EngineClosed else None)"

definition requireWindow :: "go_time \<Rightarrow> go_time \<Rightarrow> query_error option" where
  "requireWindow from_ts to_ts = (if from_ts = 0 \<or> to_ts = 0 \<or> to_ts < from_ts then Some TimeBoundRequired else None)"

section \<open>The source\<close>

datatype open_answer = KeyNotFound | OpenFailed | Opened string bool

text \<open>
  A listing is the keys it yields and whether it failed; a fetch is the object's bytes and whether the body
  was released. For a group of prefixes: whether its listing was cancelled, and the slots a cancellation skipped.
\<close>

record scan_env =
  sn_List :: "string \<Rightarrow> string list \<times> bool"
  sn_Open :: "string \<Rightarrow> open_answer"
  sn_zstdReader :: "string \<Rightarrow> (string \<times> bool) option"
  sn_listCancelled :: "string list \<Rightarrow> bool"
  sn_fetchCancelled :: "string list \<Rightarrow> (nat \<Rightarrow> bool) option"

section \<open>One object\<close>

text \<open>The values decoded before the stream ended or failed, and whether it ended.\<close>

fun decodeVisits :: "(json \<Rightarrow> 'a option) \<Rightarrow> nat \<Rightarrow> string \<Rightarrow> 'a list \<times> bool" where
  "decodeVisits dec n s =
     (if skip_ws s = [] then ([], True)
      else case n of
             0 \<Rightarrow> ([], False)
           | Suc n \<Rightarrow>
               (case parse_value (length s) s of
                  None \<Rightarrow> ([], False)
                | Some (v, rest) \<Rightarrow>
                    (case dec v of None \<Rightarrow> ([], False) | Some x \<Rightarrow> (let (xs, ok) = decodeVisits dec n rest in (x # xs, ok)))))"

declare decodeVisits.simps [simp del]

definition streamFrame :: "scan_env \<Rightarrow> (json \<Rightarrow> 'a option) \<Rightarrow> string \<Rightarrow> 'a list \<times> bool" where
  "streamFrame env dec body =
     (if \<not> has_prefix body zstdMagic then ([], False)
      else case sn_zstdReader env body of
             None \<Rightarrow> ([], False)
           | Some (jsonl, whole) \<Rightarrow> (let (xs, ok) = decodeVisits dec (length jsonl) jsonl in (xs, ok \<and> whole)))"

definition decodeFrame :: "scan_env \<Rightarrow> (sink_record \<Rightarrow> 'acc \<Rightarrow> 'acc) \<Rightarrow> string \<Rightarrow> 'acc \<Rightarrow> 'acc \<times> bool" where
  "decodeFrame env visit body acc = (let (lines, ok) = streamFrame env decodeRecord body in (fold visit lines acc, ok))"

definition decodeScopeFrame :: "scan_env \<Rightarrow> (ScopeEvent \<Rightarrow> 'acc \<Rightarrow> 'acc) \<Rightarrow> string \<Rightarrow> 'acc \<Rightarrow> 'acc \<times> bool" where
  "decodeScopeFrame env visit body acc = (let (lines, ok) = streamFrame env decodeScopeLine body in (fold visit lines acc, ok))"

definition readObject :: "scan_env \<Rightarrow> (string \<Rightarrow> 'acc \<Rightarrow> 'acc \<times> bool) \<Rightarrow> string \<Rightarrow> 'acc \<Rightarrow> scan_error list \<times> 'acc" where
  "readObject env decode key acc =
     (case sn_Open env key of
        KeyNotFound \<Rightarrow> ([ObjectGone key], acc)
      | OpenFailed \<Rightarrow> ([FetchFailed key], acc)
      | Opened body released \<Rightarrow>
          (let (acc, ok) = decode body acc
           in ((if ok then [] else [ReadFailed key]) @ (if released then [] else [ReleaseFailed key]), acc)))"

section \<open>The scan\<close>

definition listOnePrefix :: "scan_env \<Rightarrow> string \<Rightarrow> scan_error list \<times> string list" where
  "listOnePrefix env pfx =
     (let (keys, failed) = sn_List env pfx in if failed then ([ListFailed pfx], []) else ([], filter isObjectKey keys))"

text \<open>Every unit writes its own slot; a skipped unit leaves its slot as it was.\<close>

definition waitAll :: "(nat \<Rightarrow> bool) option \<Rightarrow> (nat \<Rightarrow> 'a) \<Rightarrow> 'a list \<Rightarrow> 'a list" where
  "waitAll cancelled run slots =
     map (\<lambda>i. case cancelled of Some skipped \<Rightarrow> (if skipped i then slots ! i else run i) | None \<Rightarrow> run i) [0..<length slots]"

definition first_error :: "scan_error list list \<Rightarrow> scan_error list" where
  "first_error errs = (case filter (\<lambda>e. e \<noteq> []) errs of [] \<Rightarrow> [] | e # _ \<Rightarrow> e)"

definition listObjectKeys :: "scan_env \<Rightarrow> string list \<Rightarrow> scan_error list \<times> string list list" where
  "listObjectKeys env pfxs =
     (if sn_listCancelled env pfxs then ([Abandoned], [])
      else let perPrefix = waitAll None (\<lambda>i. listOnePrefix env (pfxs ! i)) (map (\<lambda>_. ([], [])) pfxs);
               failure = first_error (map fst perPrefix)
           in if failure \<noteq> [] then (failure, []) else ([], map snd perPrefix))"

definition fetchObjects ::
    "scan_env \<Rightarrow> (string \<Rightarrow> 'acc \<Rightarrow> 'acc \<times> bool) \<Rightarrow> 'acc \<Rightarrow> string list \<Rightarrow> string list list \<Rightarrow> (scan_error list \<times> 'acc) list \<times> bool" where
  "fetchObjects env decode zero pfxs parts =
     (let keys = concat parts; cancelled = sn_fetchCancelled env pfxs
      in (waitAll cancelled (\<lambda>i. readObject env decode (keys ! i) zero) (map (\<lambda>_. ([], zero)) keys), cancelled \<noteq> None))"

text \<open>The failure, whether the scan stops, and the accumulators handed to the caller's fold, in order.\<close>

definition scanOneGroup ::
    "scan_env \<Rightarrow> (string \<Rightarrow> 'acc \<Rightarrow> 'acc \<times> bool) \<Rightarrow> 'acc \<Rightarrow> string list \<Rightarrow> scan_error list \<times> bool \<times> 'acc list" where
  "scanOneGroup env decode zero pfxs =
     (case listObjectKeys env pfxs of
        (e # es, _) \<Rightarrow> (e # es, True, [])
      | ([], parts) \<Rightarrow>
          (let (results, cancelled) = fetchObjects env decode zero pfxs parts
           in if cancelled then ([Abandoned], True, map snd results)
              else (first_error (map fst results), False, map snd results)))"

text \<open>\<open>slices.Chunk\<close>; it panics on a size below one, which no engine has.\<close>

function chunk :: "nat \<Rightarrow> 'a list \<Rightarrow> 'a list list" where
  "chunk n xs = (if xs = [] \<or> n = 0 then [] else take n xs # chunk n (drop n xs))"
  by pat_completeness auto
termination by (relation "measure (\<lambda>(n, xs). length xs)") (auto simp: neq_Nil_conv)

declare chunk.simps [simp del]

fun scanGroups ::
    "scan_env \<Rightarrow> (string \<Rightarrow> 'acc \<Rightarrow> 'acc \<times> bool) \<Rightarrow> 'acc \<Rightarrow> scan_error list \<Rightarrow> string list list \<Rightarrow> scan_error list \<times> 'acc list" where
  "scanGroups env decode zero failure [] = (failure, [])"
| "scanGroups env decode zero failure (g # gs) =
     (let (err, abort, accs) = scanOneGroup env decode zero g
      in if abort then (failure @ err, accs)
         else let (err, rest) = scanGroups env decode zero (if failure = [] then err else failure) gs in (err, accs @ rest))"

definition scanPartitions ::
    "Engine \<Rightarrow> scan_env \<Rightarrow> (string \<Rightarrow> 'acc \<Rightarrow> 'acc \<times> bool) \<Rightarrow> 'acc \<Rightarrow> string list \<Rightarrow> scan_error list \<times> 'acc list" where
  "scanPartitions e env decode zero pfxs = scanGroups env decode zero [] (chunk (en_concurrency e) pfxs)"

section \<open>What a scan reads\<close>

lemma NewEngine_positive: "NewEngine opts = Some e \<Longrightarrow> 0 < en_concurrency e \<and> 0 \<le> en_objectSpan e \<and> 0 < en_stateLookback e"
  by (auto simp: NewEngine_def resolveObjectSpan_def DefaultObjectSpan_def DefaultStateLookback_def DefaultConcurrency_def nsPerHour_def
    split: option.splits if_splits)

lemma concat_chunk: "0 < n \<Longrightarrow> concat (chunk n xs) = xs"
  by (induction n xs rule: chunk.induct) (subst chunk.simps, simp)

lemma waitAll_None: "waitAll None run slots = map run [0..<length slots]"
  by (simp add: waitAll_def)

lemma map_nth_upt: "map (\<lambda>i. f (xs ! i)) [0..<length xs] = map f xs"
  by (rule nth_equalityI) simp_all

lemma first_error_Nil [simp]: "first_error errs = [] \<longleftrightarrow> (\<forall>e \<in> set errs. e = [])"
  by (induction errs) (auto simp: first_error_def)

lemma first_error_append: "first_error (xs @ ys) = (if first_error xs = [] then first_error ys else first_error xs)"
  by (induction xs) (auto simp: first_error_def)

text \<open>The objects a prefix holds, and what one pass over them reads.\<close>

definition objectsUnder :: "scan_env \<Rightarrow> string \<Rightarrow> string list" where
  "objectsUnder env pfx = filter isObjectKey (fst (sn_List env pfx))"

definition readAll :: "scan_env \<Rightarrow> (string \<Rightarrow> 'acc \<Rightarrow> 'acc \<times> bool) \<Rightarrow> 'acc \<Rightarrow> string list \<Rightarrow> (scan_error list \<times> 'acc) list" where
  "readAll env decode zero pfxs = map (\<lambda>key. readObject env decode key zero) (concat (map (objectsUnder env) pfxs))"

lemma readAll_append: "readAll env decode zero (ps @ qs) = readAll env decode zero ps @ readAll env decode zero qs"
  by (simp add: readAll_def)

lemma listOnePrefix_error: "fst (listOnePrefix env p) = [] \<longleftrightarrow> \<not> snd (sn_List env p)"
  by (auto simp: listOnePrefix_def split: prod.splits)

lemma listOnePrefix_keys: "\<not> snd (sn_List env p) \<Longrightarrow> snd (listOnePrefix env p) = objectsUnder env p"
  by (auto simp: listOnePrefix_def objectsUnder_def split: prod.splits)

lemma listing_error: "first_error (map fst (map (listOnePrefix env) pfxs)) = [] \<longleftrightarrow> (\<forall>p \<in> set pfxs. \<not> snd (sn_List env p))"
  by (simp add: listOnePrefix_error)

lemma listObjectKeys_cases:
  "listObjectKeys env pfxs =
     (if sn_listCancelled env pfxs then ([Abandoned], [])
      else if \<exists>p \<in> set pfxs. snd (sn_List env p) then (first_error (map fst (map (listOnePrefix env) pfxs)), [])
      else ([], map (objectsUnder env) pfxs))"
proof -
  have "waitAll None (\<lambda>i. listOnePrefix env (pfxs ! i)) (map (\<lambda>_. ([], [])) pfxs) = map (listOnePrefix env) pfxs"
    using map_nth_upt [of "listOnePrefix env" pfxs] by (simp add: waitAll_None)
  then have l: "listObjectKeys env pfxs =
      (if sn_listCancelled env pfxs then ([Abandoned], [])
       else if first_error (map fst (map (listOnePrefix env) pfxs)) \<noteq> [] then (first_error (map fst (map (listOnePrefix env) pfxs)), [])
       else ([], map snd (map (listOnePrefix env) pfxs)))"
    by (simp only: listObjectKeys_def Let_def)
  show ?thesis
  proof (cases "\<exists>p \<in> set pfxs. snd (sn_List env p)")
    case True
    with listing_error have "first_error (map fst (map (listOnePrefix env) pfxs)) \<noteq> []" by blast
    with True show ?thesis unfolding l by (simp only: if_True simp_thms)
  next
    case False
    then have "first_error (map fst (map (listOnePrefix env) pfxs)) = []" "map snd (map (listOnePrefix env) pfxs) = map (objectsUnder env) pfxs"
      using listing_error by (blast, simp add: listOnePrefix_keys)
    with False show ?thesis unfolding l by (simp only: if_False simp_thms)
  qed
qed

lemma fetchObjects_None:
  "sn_fetchCancelled env pfxs = None \<Longrightarrow>
     fetchObjects env decode zero pfxs parts = (map (\<lambda>key. readObject env decode key zero) (concat parts), False)"
  using map_nth_upt [of "\<lambda>key. readObject env decode key zero" "concat parts"] by (simp add: fetchObjects_def waitAll_None Let_def)

text \<open>A group that does not stop the scan was listed and read in full.\<close>

lemma scanOneGroup_cases:
  obtains (stopped) err accs where "scanOneGroup env decode zero g = (err, True, accs)" "err \<noteq> []"
  | (read) "scanOneGroup env decode zero g = (first_error (map fst (readAll env decode zero g)), False, map snd (readAll env decode zero g))"
      "\<not> sn_listCancelled env g" "\<forall>p \<in> set g. \<not> snd (sn_List env p)" "sn_fetchCancelled env g = None"
proof (cases "sn_listCancelled env g \<or> (\<exists>p \<in> set g. snd (sn_List env p))")
  case True
  then obtain e es where "listObjectKeys env g = (e # es, [])"
    using listing_error [of env g] unfolding listObjectKeys_cases by (metis neq_Nil_conv)
  then have "scanOneGroup env decode zero g = (e # es, True, [])" by (simp add: scanOneGroup_def)
  with stopped show ?thesis by blast
next
  case False
  then have l: "listObjectKeys env g = ([], map (objectsUnder env) g)" by (simp add: listObjectKeys_cases)
  show ?thesis
  proof (cases "sn_fetchCancelled env g")
    case None
    with l have "scanOneGroup env decode zero g = (first_error (map fst (readAll env decode zero g)), False, map snd (readAll env decode zero g))"
      by (simp add: scanOneGroup_def fetchObjects_None readAll_def)
    with read False None show ?thesis by blast
  next
    case (Some sk)
    with l have "\<exists>accs. scanOneGroup env decode zero g = ([Abandoned], True, accs)" by (simp add: scanOneGroup_def fetchObjects_def Let_def)
    with stopped show ?thesis by blast
  qed
qed

lemma scanGroups_complete:
  assumes "scanGroups env decode zero failure gs = ([], accs)"
  shows "failure = [] \<and> accs = map snd (readAll env decode zero (concat gs))
    \<and> (\<forall>r \<in> set (readAll env decode zero (concat gs)). fst r = []) \<and> (\<forall>p \<in> set (concat gs). \<not> snd (sn_List env p))"
  using assms
proof (induction gs arbitrary: failure accs)
  case Nil
  then show ?case by (simp add: readAll_def)
next
  case (Cons g gs)
  show ?case
  proof (cases rule: scanOneGroup_cases [of env decode zero g])
    case (stopped err accs')
    with Cons.prems show ?thesis by simp
  next
    case read
    obtain err rest where r: "scanGroups env decode zero (if failure = [] then first_error (map fst (readAll env decode zero g)) else failure) gs = (err, rest)"
      by (metis surj_pair)
    with Cons.prems read(1) have "err = []" "accs = map snd (readAll env decode zero g) @ rest" by simp_all
    with Cons.IH [of _ rest] r read(3) show ?thesis by (fastforce simp: readAll_append split: if_splits)
  qed
qed

lemma scanGroups_quiet:
  assumes "\<forall>g \<in> set gs. \<not> sn_listCancelled env g \<and> sn_fetchCancelled env g = None" and "\<forall>p \<in> set (concat gs). \<not> snd (sn_List env p)"
  shows "scanGroups env decode zero failure gs =
    (if failure = [] then first_error (map fst (readAll env decode zero (concat gs))) else failure, map snd (readAll env decode zero (concat gs)))"
  using assms
proof (induction gs arbitrary: failure)
  case Nil
  then show ?case by (simp add: readAll_def first_error_def)
next
  case (Cons g gs)
  have "scanOneGroup env decode zero g = (first_error (map fst (readAll env decode zero g)), False, map snd (readAll env decode zero g))"
  proof (cases rule: scanOneGroup_cases [of env decode zero g])
    case (stopped err accs)
    have "listObjectKeys env g = ([], map (objectsUnder env) g)" using Cons.prems by (simp add: listObjectKeys_cases)
    with stopped Cons.prems show ?thesis by (simp add: scanOneGroup_def fetchObjects_None)
  qed simp
  with Cons show ?case by (simp add: readAll_append first_error_append)
qed

text \<open>A scan that nothing interrupts is one pass over the objects under its prefixes, in listing order.\<close>

lemma scanPartitions_quiet:
  assumes "0 < en_concurrency e" and "\<And>g. \<not> sn_listCancelled env g" and "\<And>g. sn_fetchCancelled env g = None"
    and "\<forall>p \<in> set pfxs. \<not> snd (sn_List env p)"
  shows "scanPartitions e env decode zero pfxs =
    (first_error (map fst (readAll env decode zero pfxs)), map snd (readAll env decode zero pfxs))"
proof -
  have "concat (chunk (en_concurrency e) pfxs) = pfxs" using assms(1) by (rule concat_chunk)
  with assms(2-4) show ?thesis using scanGroups_quiet [of "chunk (en_concurrency e) pfxs" env decode zero "[]"]
    unfolding scanPartitions_def by simp
qed

text \<open>
  C31: A scan is complete or says so. Whatever the source answers and wherever the caller stops waiting, a scan
  that reports no error has listed every partition it was given, has read every object listed there to its
  end, and hands over exactly their contents in listing order: a partial answer never looks like a whole one.
\<close>

theorem scan_complete_or_reported:
  assumes "NewEngine opts = Some e" and "scanPartitions e env decode zero pfxs = ([], accs)"
  shows "accs = map snd (readAll env decode zero pfxs)
    \<and> (\<forall>r \<in> set (readAll env decode zero pfxs). fst r = []) \<and> (\<forall>p \<in> set pfxs. \<not> snd (sn_List env p))"
proof -
  have "concat (chunk (en_concurrency e) pfxs) = pfxs" using NewEngine_positive [OF assms(1)] concat_chunk by blast
  with scanGroups_complete [OF assms(2) [unfolded scanPartitions_def]] show ?thesis by simp
qed

section \<open>Reading what the sink wrote\<close>

lemma decodeVisits_whole: "decodeStream dec n s = Some xs \<Longrightarrow> decodeVisits dec n s = (xs, True)"
proof (induction dec n s arbitrary: xs rule: decodeStream.induct)
  case (1 dec n s)
  show ?case
  proof (cases "skip_ws s = []")
    case True
    with "1.prems" show ?thesis by (subst decodeVisits.simps) (simp add: decodeStream.simps [of dec n s])
  next
    case ne: False
    with "1.prems" obtain m where n: "n = Suc m" by (cases n) (simp_all add: decodeStream.simps [of dec 0 s])
    obtain v rest where p: "parse_value (length s) s = Some (v, rest)"
      using "1.prems" ne n by (auto simp: decodeStream.simps [of dec "Suc m" s] split: option.splits)
    obtain x ys where d: "dec v = Some x" "decodeStream dec m rest = Some ys" "xs = x # ys"
      using "1.prems" ne n p by (auto simp: decodeStream.simps [of dec "Suc m" s] split: option.splits)
    from "1.IH" [OF ne n p refl d(1,2)] have "decodeVisits dec m rest = (ys, True)" .
    then show ?thesis by (subst decodeVisits.simps) (simp add: ne n p d)
  qed
qed

text \<open>The streaming zstd reader delivers what the one-shot decoder does.\<close>

definition reader_agrees :: "zstd_env \<Rightarrow> scan_env \<Rightarrow> bool" where
  "reader_agrees z env \<longleftrightarrow> (\<forall>body jsonl. decompress z body = Inr jsonl \<longrightarrow> sn_zstdReader env body = Some (jsonl, True))"

lemma streamFrame_whole:
  assumes "reader_agrees z env" and "decompress z body = Inr jsonl" and "decodeLines dec jsonl = Some xs"
  shows "streamFrame env dec body = (xs, True)"
proof -
  have "has_prefix body zstdMagic" using assms(2) by (auto simp: decompress_def split: if_splits)
  with assms show ?thesis
    by (simp add: streamFrame_def reader_agrees_def decodeVisits_whole [OF assms(3) [unfolded decodeLines_def]])
qed

lemma decodeFrame_written:
  assumes "codec_ok z" and "reader_agrees z env" and "Encode z pfx records = Inr obj" and "\<forall>(isnil, r) \<in> set records. gm_wf (rec_Labels r)"
  shows "decodeFrame env visit (obj_Payload obj) acc = (fold visit (map (\<lambda>(isnil, r). canonical_record r) records) acc, True)"
proof -
  obtain jsonl where "decompress z (obj_Payload obj) = Inr jsonl" "decodeLines decodeRecord jsonl = Some (map (\<lambda>(isnil, r). canonical_record r) records)"
    using encoded_object [OF assms(1,3,4)] by blast
  from streamFrame_whole [OF assms(2) this] show ?thesis by (simp add: decodeFrame_def)
qed

text \<open>An archive held in memory, listed in key order and read without faults.\<close>

definition stored :: "(string \<times> string) list \<Rightarrow> scan_env" where
  "stored objs =
     \<lparr>sn_List = \<lambda>p. (filter (\<lambda>k. has_prefix k p) (sort (map fst objs)), False),
      sn_Open = \<lambda>k. case map_of objs k of None \<Rightarrow> KeyNotFound | Some body \<Rightarrow> Opened body True,
      sn_zstdReader = \<lambda>body. Some (drop 4 body, True),
      sn_listCancelled = \<lambda>_. False, sn_fetchCancelled = \<lambda>_. None\<rparr>"

lemma stored_quiet: "\<not> snd (sn_List (stored objs) p)" "\<not> sn_listCancelled (stored objs) g" "sn_fetchCancelled (stored objs) g = None"
  by (simp_all add: stored_def)

lemma stored_reader: "reader_agrees framing (stored objs)"
  by (auto simp: reader_agrees_def decompress_def framing_def stored_def split: if_splits)

definition sampleEngine :: Engine where
  "sampleEngine = \<lparr>en_prefix = ''audit'', en_concurrency = 8, en_objectSpan = nsPerHour, en_stateLookback = 30 * 24 * nsPerHour, en_closed = False\<rparr>"

lemma sampleEngine_new: "NewEngine \<lparr>op_Prefix = ''audit'', op_Concurrency = 0, op_ObjectSpan = 0, op_StateLookback = 0\<rparr> = Some sampleEngine"
  by (simp add: NewEngine_def sampleEngine_def resolveObjectSpan_def DefaultObjectSpan_def DefaultConcurrency_def DefaultStateLookback_def)

lemma isObjectKey_objectKey: "isObjectKey (objectKey pfx cluster ts h)"
  by (auto simp: isObjectKey_def objectKey_def intro!: suffix_appendI suffix_ConsI)

lemma sample_encodes_record:
  "\<exists>obj. Encode framing ''audit'' [(False, sampleRecord (march 2 9) data)] = Inr obj \<and> isObjectKey (obj_Key obj)"
  using sampleRecord_line [of data] by (auto simp: Encode_def framing_def Let_def sampleRecord_fields isObjectKey_objectKey)

theorem scan_complete_or_reported_witness:
  "\<exists>key body accs. scanPartitions sampleEngine (stored [(key, body)]) (decodeFrame (stored [(key, body)]) (\<lambda>r acc. acc @ [r])) [] [[]] = ([], accs)
     \<and> accs = [[sampleRecord (march 2 9) ''{}'']]"
proof -
  obtain obj where obj: "Encode framing ''audit'' [(False, sampleRecord (march 2 9) ''{}'')] = Inr obj" "isObjectKey (obj_Key obj)"
    using sample_encodes_record by blast
  let ?env = "stored [(obj_Key obj, obj_Payload obj)]"
  let ?decode = "decodeFrame ?env (\<lambda>r acc. acc @ [r])"
  have wf: "\<forall>(isnil, r) \<in> set [(False, sampleRecord (march 2 9) ''{}'')]. gm_wf (rec_Labels r)" by (simp add: sampleRecord_def gm_wf_def)
  have "?decode (obj_Payload obj) [] = ([sampleRecord (march 2 9) ''{}''], True)"
    using decodeFrame_written [OF framing_ok stored_reader obj(1) wf, where visit = "\<lambda>r acc. acc @ [r]" and acc = "[]"]
    by (simp add: canonical_record_def sampleRecord_def)
  then have r: "readAll ?env ?decode [] [[]] = [([], [sampleRecord (march 2 9) ''{}''])]"
    using obj(2) by (simp add: readAll_def objectsUnder_def readObject_def) (simp add: stored_def has_prefix_def)
  have s: "scanPartitions sampleEngine ?env ?decode [] [[]] = ([], [[sampleRecord (march 2 9) ''{}'']])"
    using scanPartitions_quiet [of sampleEngine ?env "[[]]" ?decode "[]"] stored_quiet
    by (simp add: r sampleEngine_def)
  from scan_complete_or_reported [OF sampleEngine_new s] s show ?thesis by (auto simp: r)
qed

end
