(* ===== verification/ArchiveTimeline.thy ===== *)
theory ArchiveTimeline
  imports ArchiveScan "HOL-Library.Multiset"
begin

text \<open>
  Timelines over the archive (\<open>internal/query/objectsource/timeline.go\<close> and the line predicates of \<open>line.go\<close>):
  what a scan keeps of a line, the incarnation a timeline is about, the merge of Kubernetes Events, the
  newest-first walk of a limited query, and the iterator that serves the answer.
\<close>

section \<open>Lines\<close>

record ObjectRef =
  or_ClusterID :: string
  or_APIGroup :: string
  or_Kind :: string
  or_Namespace :: string
  or_Name :: string

definition EventDeleted :: string where "EventDeleted = ''Deleted''"

definition EventKubernetes :: string where "EventKubernetes = ''Event''"

definition reader_eventKind :: string where "reader_eventKind = ''Event''"

definition reader_eventGroups :: "string list" where "reader_eventGroups = [[], ''events.k8s.io'']"

definition line_change :: "sink_record \<Rightarrow> Change" where
  "line_change l =
     \<lparr>ch_TS = rec_Timestamp l, ch_EventType = rec_EventType l, ch_Actors = rec_Actors l, ch_UID = rec_UID l,
      ch_ResourceVersion = rec_ResourceVersion l, ch_APIVersion = rec_APIVersion l, ch_Data = rec_Data l, ch_Diff = rec_Diff l,
      ch_SHA256 = rec_SHA256 l, ch_Labels = rec_Labels l\<rparr>"

definition namesObject :: "ObjectRef \<Rightarrow> sink_record \<Rightarrow> bool" where
  "namesObject ref l \<longleftrightarrow>
     rec_ClusterID l = or_ClusterID ref \<and> rec_APIGroup l = or_APIGroup ref \<and> rec_Kind l = or_Kind ref
     \<and> rec_Namespace l = or_Namespace ref \<and> rec_Name l = or_Name ref"

definition isEvent :: "sink_record \<Rightarrow> bool" where
  "isEvent l = (if rec_Kind l \<noteq> reader_eventKind then False else rec_APIGroup l = reader_eventGroups ! 0 \<or> rec_APIGroup l = reader_eventGroups ! 1)"

record eventSubject =
  es_Kind :: string
  es_Namespace :: string
  es_Name :: string
  es_UID :: string

definition zeroSubject :: eventSubject where
  "zeroSubject = \<lparr>es_Kind = [], es_Namespace = [], es_Name = [], es_UID = []\<rparr>"

definition decodeSubject :: "(string, json) gomap \<Rightarrow> string \<Rightarrow> eventSubject option" where
  "decodeSubject kvs k =
     do { m \<leftarrow> (case gm_get kvs k of None \<Rightarrow> Some [] | Some v \<Rightarrow> struct_members v);
          kind \<leftarrow> field_string m ''kind''; ns \<leftarrow> field_string m ''namespace''; name \<leftarrow> field_string m ''name''; uid \<leftarrow> field_string m ''uid'';
          Some \<lparr>es_Kind = kind, es_Namespace = ns, es_Name = name, es_UID = uid\<rparr> }"

definition coalesce :: "string \<Rightarrow> string \<Rightarrow> string" where
  "coalesce a b = (if a \<noteq> [] then a else b)"

definition line_subject :: "sink_record \<Rightarrow> eventSubject" where
  "line_subject l =
     (case do { v \<leftarrow> json_unmarshal (rec_Data l); kvs \<leftarrow> struct_members v;
                involved \<leftarrow> decodeSubject kvs ''involvedObject''; regarding \<leftarrow> decodeSubject kvs ''regarding''; Some (involved, regarding) } of
        None \<Rightarrow> zeroSubject
      | Some (a, b) \<Rightarrow>
          \<lparr>es_Kind = coalesce (es_Kind a) (es_Kind b), es_Namespace = coalesce (es_Namespace a) (es_Namespace b),
           es_Name = coalesce (es_Name a) (es_Name b), es_UID = coalesce (es_UID a) (es_UID b)\<rparr>)"

definition namesTarget :: "eventSubject \<Rightarrow> ObjectRef \<Rightarrow> bool" where
  "namesTarget s ref \<longleftrightarrow> es_Kind s = or_Kind ref \<and> es_Namespace s = or_Namespace ref \<and> es_Name s = or_Name ref"

section \<open>What a scan keeps\<close>

record incarnationMark =
  im_uid :: string
  im_ts :: go_time
  im_deleted :: bool

record correlatedEvent =
  ce_change :: Change
  ce_subjectUID :: string
  ce_root :: bool

record timelineAccumulator =
  ta_changes :: "Change list"
  ta_marks :: "incarnationMark list"
  ta_events :: "correlatedEvent list"

definition ta_zero :: timelineAccumulator where
  "ta_zero = \<lparr>ta_changes = [], ta_marks = [], ta_events = []\<rparr>"

definition ta_merge :: "timelineAccumulator \<Rightarrow> timelineAccumulator \<Rightarrow> timelineAccumulator" where
  "ta_merge a other =
     a\<lparr>ta_changes := ta_changes a @ ta_changes other, ta_marks := ta_marks a @ ta_marks other, ta_events := ta_events a @ ta_events other\<rparr>"

record recordScan =
  rs_ref :: ObjectRef
  rs_from :: go_time
  rs_to :: go_time
  rs_keep :: "(Change \<Rightarrow> bool) option"
  rs_retain :: bool
  rs_events :: bool
  rs_subjects :: "ObjectRef list"

definition inWindow :: "recordScan \<Rightarrow> go_time \<Rightarrow> bool" where
  "inWindow s ts = (if rs_from s \<noteq> 0 \<and> ts < rs_from s then False else rs_to s = 0 \<or> \<not> ts > rs_to s)"

definition namesSubject :: "recordScan \<Rightarrow> eventSubject \<Rightarrow> bool" where
  "namesSubject s subject = list_ex (namesTarget subject) (rs_subjects s)"

definition scan_visit :: "recordScan \<Rightarrow> sink_record \<Rightarrow> timelineAccumulator \<Rightarrow> timelineAccumulator" where
  "scan_visit s line acc =
     (if \<not> inWindow s (rec_Timestamp line) then acc
      else if namesObject (rs_ref s) line then
        (let acc = acc\<lparr>ta_marks := ta_marks acc @
                         [\<lparr>im_uid = rec_UID line, im_ts = rec_Timestamp line, im_deleted = (rec_EventType line = EventDeleted)\<rparr>]\<rparr>
         in if \<not> rs_retain s then acc
            else let change = line_change line
                 in case rs_keep s of
                      Some keep \<Rightarrow> (if keep change then acc\<lparr>ta_changes := ta_changes acc @ [change]\<rparr> else acc)
                    | None \<Rightarrow> acc\<lparr>ta_changes := ta_changes acc @ [change]\<rparr>)
      else if rs_events s \<and> rec_ClusterID line = or_ClusterID (rs_ref s) \<and> isEvent line then
        (let subject = line_subject line; root = namesTarget subject (rs_ref s)
         in if \<not> root \<and> \<not> namesSubject s subject then acc
            else acc\<lparr>ta_events := ta_events acc @
                       [\<lparr>ce_change = (line_change line)\<lparr>ch_EventType := EventKubernetes\<rparr>, ce_subjectUID = es_UID subject, ce_root = root\<rparr>]\<rparr>)
      else acc)"

definition scan_decode :: "scan_env \<Rightarrow> recordScan \<Rightarrow> string \<Rightarrow> timelineAccumulator \<Rightarrow> timelineAccumulator \<times> bool" where
  "scan_decode env s = decodeFrame env (scan_visit s)"

section \<open>The query\<close>

record TimelineQuery =
  tq_Ref :: ObjectRef
  tq_UID :: string
  tq_AllIncarnations :: bool
  tq_From :: go_time
  tq_To :: go_time
  tq_Actors :: "string list"
  tq_ExcludeActors :: "string list"
  tq_FieldPaths :: "string list"
  tq_Limit :: int
  tq_Reverse :: bool
  tq_IncludeEvents :: bool
  tq_Subjects :: "ObjectRef list"
  tq_EventsOnly :: bool

definition timelineScan :: "TimelineQuery \<Rightarrow> recordScan" where
  "timelineScan q =
     \<lparr>rs_ref = tq_Ref q, rs_from = tq_From q, rs_to = tq_To q,
      rs_keep = Some (\<lambda>c. MatchesActors c (tq_Actors q) (tq_ExcludeActors q) \<and> MatchesFieldPaths c (tq_FieldPaths q)),
      rs_retain = (\<not> tq_EventsOnly q), rs_events = tq_IncludeEvents q, rs_subjects = tq_Subjects q\<rparr>"

definition reverseLimited :: "TimelineQuery \<Rightarrow> bool" where
  "reverseLimited q \<longleftrightarrow> tq_Reverse q \<and> tq_Limit q > 0"

definition resolveIncarnation :: "TimelineQuery \<Rightarrow> incarnationMark list \<Rightarrow> string \<times> bool" where
  "resolveIncarnation q marks =
     (if tq_UID q \<noteq> [] then (tq_UID q, True)
      else if tq_AllIncarnations q then ([], True)
      else if marks = [] then ([], False)
      else (im_uid (last marks), True))"

fun interleave :: "Change list \<Rightarrow> Change list \<Rightarrow> Change list" where
  "interleave [] commentary = commentary"
| "interleave (change # changes) commentary =
     takeWhile (\<lambda>c. ch_TS c < ch_TS change) commentary @ change # interleave changes (dropWhile (\<lambda>c. ch_TS c < ch_TS change) commentary)"

definition mergeCommentary :: "Change list \<Rightarrow> correlatedEvent list \<Rightarrow> string \<Rightarrow> Change list" where
  "mergeCommentary changes events uid =
     (let commentary = map ce_change (filter (\<lambda>ev. \<not> (uid \<noteq> [] \<and> ce_root ev \<and> ce_subjectUID ev \<noteq> uid)) events)
      in if commentary = [] then changes else interleave changes (sort_key ch_TS commentary))"

definition recordPrefixes :: "Engine \<Rightarrow> string \<Rightarrow> go_time \<Rightarrow> go_time \<Rightarrow> string list" where
  "recordPrefixes e clusterID from_ts to_ts = partitionPrefixes (recordsRoot (en_prefix e) clusterID) from_ts to_ts (en_objectSpan e)"

definition recordPartitions :: "Engine \<Rightarrow> string \<Rightarrow> go_time \<Rightarrow> go_time \<Rightarrow> archive_partition list" where
  "recordPartitions e clusterID from_ts to_ts = partitionSpans (recordsRoot (en_prefix e) clusterID) from_ts to_ts (en_objectSpan e)"

section \<open>The newest-first walk\<close>

record timelineWalkStep =
  ws_acc :: timelineAccumulator
  ws_failure :: "scan_error list"

text \<open>Steps are listed newest first, as the walk appends them.\<close>

definition newestMark :: "timelineWalkStep list \<Rightarrow> incarnationMark option" where
  "newestMark steps =
     fold (\<lambda>mark latest. case latest of None \<Rightarrow> Some mark | Some n \<Rightarrow> (if \<not> im_ts mark < im_ts n then Some mark else Some n))
       (concat (map (\<lambda>s. ta_marks (ws_acc s)) (rev steps))) None"

definition settled_rows :: "TimelineQuery \<Rightarrow> string \<Rightarrow> go_time \<Rightarrow> timelineWalkStep \<Rightarrow> nat" where
  "settled_rows q uid ceiling s =
     length (filter (\<lambda>c. (uid = [] \<or> ch_UID c = uid) \<and> \<not> ch_TS c < ceiling) (ta_changes (ws_acc s)))
     + (if \<not> tq_IncludeEvents q then 0
        else length (filter (\<lambda>ev. (uid = [] \<or> \<not> ce_root ev \<or> ce_subjectUID ev = uid) \<and> \<not> ch_TS (ce_change ev) < ceiling) (ta_events (ws_acc s))))"

definition answerIsSettled :: "Engine \<Rightarrow> TimelineQuery \<Rightarrow> timelineWalkStep list \<Rightarrow> go_time \<Rightarrow> bool" where
  "answerIsSettled e q steps lo =
     (let ceiling = lo + en_objectSpan e
      in case (if tq_EventsOnly q then Some (tq_UID q)
               else if tq_UID q \<noteq> [] then Some (tq_UID q)
               else if tq_AllIncarnations q then Some []
               else case newestMark steps of
                      None \<Rightarrow> None
                    | Some latest \<Rightarrow> (if im_ts latest < ceiling then None else Some (im_uid latest))) of
           None \<Rightarrow> False
         | Some uid \<Rightarrow> int (sum_list (map (settled_rows q uid ceiling) steps)) \<ge> tq_Limit q)"

text \<open>A width of zero would never end; the first is one and the cap of an engine is positive.\<close>

function walkNewest ::
    "Engine \<Rightarrow> scan_env \<Rightarrow> TimelineQuery \<Rightarrow> recordScan \<Rightarrow> archive_partition list \<Rightarrow> nat \<Rightarrow> nat \<Rightarrow> timelineWalkStep list \<Rightarrow> timelineWalkStep list" where
  "walkNewest e env q s spans end_at width steps =
     (if end_at = 0 \<or> width = 0 then steps
      else let start = end_at - width;
               (failure, abort, accs) = scanOneGroup env (scan_decode env s) ta_zero (prefixesOf (drop start (take end_at spans)));
               steps = steps @ [\<lparr>ws_acc = fold (\<lambda>other a. ta_merge a other) accs ta_zero, ws_failure = failure\<rparr>]
           in if abort \<or> answerIsSettled e q steps (pt_start (spans ! start)) then steps
              else walkNewest e env q s spans start (min (width * 2) (en_concurrency e)) steps)"
  by pat_completeness auto
termination by (relation "measure (\<lambda>(e, env, q, s, spans, end_at, width, steps). end_at)") auto

declare walkNewest.simps [simp del]

definition scanNewestFirst :: "Engine \<Rightarrow> scan_env \<Rightarrow> TimelineQuery \<Rightarrow> recordScan \<Rightarrow> scan_error list \<times> timelineAccumulator" where
  "scanNewestFirst e env q s =
     (let spans = recordPartitions e (or_ClusterID (tq_Ref q)) (tq_From q) (tq_To q);
          steps = rev (walkNewest e env q s spans (length spans) 1 [])
      in (first_error (map ws_failure steps), fold (\<lambda>step a. ta_merge a (ws_acc step)) steps ta_zero))"

section \<open>Assembling the answer\<close>

definition assemble :: "TimelineQuery \<Rightarrow> timelineAccumulator \<Rightarrow> Change list" where
  "assemble q collected =
     (let changes = sort_key ch_TS (ta_changes collected);
          marks = sort_key im_ts (ta_marks collected);
          (uid, recorded) = (if tq_EventsOnly q then (tq_UID q, False) else resolveIncarnation q marks)
      in if \<not> recorded \<and> \<not> tq_IncludeEvents q then []
         else let changes = (if uid \<noteq> [] then filter (\<lambda>c. \<not> ch_UID c \<noteq> uid) changes else changes);
                  changes = (if tq_IncludeEvents q then mergeCommentary changes (ta_events collected) uid else changes);
                  changes = (if tq_Reverse q then rev changes else changes)
              in if tq_Limit q > 0 \<and> int (length changes) > tq_Limit q then take (nat (tq_Limit q)) changes else changes)"

definition scanTimeline :: "Engine \<Rightarrow> scan_env \<Rightarrow> TimelineQuery \<Rightarrow> Change list \<times> scan_error list" where
  "scanTimeline e env q =
     (let s = timelineScan q;
          (failure, collected) =
            (if reverseLimited q then scanNewestFirst e env q s
             else let (failure, accs) = scanPartitions e env (scan_decode env s) ta_zero
                                          (recordPrefixes e (or_ClusterID (tq_Ref q)) (tq_From q) (tq_To q))
                  in (failure, fold (\<lambda>other a. ta_merge a other) accs ta_zero))
      in (assemble q collected, failure))"

section \<open>The iterator\<close>

record changeIterator =
  it_scan :: "(Change list \<times> scan_error list) option"
  it_changes :: "Change list"
  it_next :: nat
  it_cur :: "Change option"
  it_err :: "scan_error list"
  it_closed :: bool

definition Timeline :: "Engine \<Rightarrow> scan_env \<Rightarrow> TimelineQuery \<Rightarrow> query_error + changeIterator" where
  "Timeline e env q =
     (case ensureOpen e of
        Some err \<Rightarrow> Inl err
      | None \<Rightarrow>
          (case requireWindow (tq_From q) (tq_To q) of
             Some err \<Rightarrow> Inl err
           | None \<Rightarrow>
               Inr \<lparr>it_scan = Some (scanTimeline e env q), it_changes = [], it_next = 0, it_cur = None, it_err = [], it_closed = False\<rparr>))"

definition it_Next :: "changeIterator \<Rightarrow> bool \<times> changeIterator" where
  "it_Next it =
     (if it_closed it then (False, it)
      else let it = (case it_scan it of None \<Rightarrow> it | Some (changes, err) \<Rightarrow> it\<lparr>it_changes := changes, it_err := err, it_scan := None\<rparr>)
           in if it_next it \<ge> length (it_changes it) then (False, it)
              else (True, it\<lparr>it_cur := Some (it_changes it ! it_next it), it_next := it_next it + 1\<rparr>))"

definition it_Close :: "changeIterator \<Rightarrow> changeIterator" where
  "it_Close it = it\<lparr>it_closed := True, it_scan := None, it_changes := []\<rparr>"

section \<open>Incarnations\<close>

record Incarnation =
  in_UID :: string
  in_FirstSeen :: go_time
  in_LastSeen :: go_time
  in_Deleted :: bool

text \<open>The index \<open>at\<close> of an incarnation is its position in the list: the code never removes an entry.\<close>

fun spansLoop :: "incarnationMark list \<Rightarrow> (string, nat) gomap \<Rightarrow> Incarnation list \<Rightarrow> Incarnation list" where
  "spansLoop [] at spans = spans"
| "spansLoop (mark # marks) at spans =
     (case gm_get at (im_uid mark) of
        Some i \<Rightarrow>
          spansLoop marks at (spans[i := (spans ! i)\<lparr>in_LastSeen := im_ts mark, in_Deleted := in_Deleted (spans ! i) \<or> im_deleted mark\<rparr>])
      | None \<Rightarrow>
          spansLoop marks (gm_set (im_uid mark) (length spans) at)
            (spans @ [\<lparr>in_UID = im_uid mark, in_FirstSeen = im_ts mark, in_LastSeen = im_ts mark, in_Deleted = im_deleted mark\<rparr>]))"

definition spansOf :: "incarnationMark list \<Rightarrow> Incarnation list" where
  "spansOf marks = spansLoop marks [] []"

definition Incarnations :: "Engine \<Rightarrow> scan_env \<Rightarrow> ObjectRef \<Rightarrow> go_time \<Rightarrow> go_time \<Rightarrow> query_error + Incarnation list" where
  "Incarnations e env ref from_ts to_ts =
     (case ensureOpen e of
        Some err \<Rightarrow> Inl err
      | None \<Rightarrow>
          (case requireWindow from_ts to_ts of
             Some err \<Rightarrow> Inl err
           | None \<Rightarrow>
               (let s = \<lparr>rs_ref = ref, rs_from = from_ts, rs_to = to_ts, rs_keep = None, rs_retain = False, rs_events = False, rs_subjects = []\<rparr>;
                    (err, accs) = scanPartitions e env (scan_decode env s) ta_zero (recordPrefixes e (or_ClusterID ref) from_ts to_ts)
                in if err \<noteq> [] then Inl (ScanFailed err) else Inr (spansOf (sort_key im_ts (concat (map ta_marks accs)))))))"

section \<open>Stable sorting\<close>

text \<open>A stably sorted list is its part below a bound followed by the rest, each sorted on its own.\<close>

lemma sort_key_split:
  fixes f :: "'a \<Rightarrow> 'b :: linorder"
  shows "sort_key f xs = sort_key f (filter (\<lambda>x. f x < c) xs) @ sort_key f (filter (\<lambda>x. \<not> f x < c) xs)"
proof -
  have split: "ys = filter (\<lambda>x. f x < c) ys @ filter (\<lambda>x. \<not> f x < c) ys" if "sorted (map f ys)" for ys
    using that
  proof (induction ys)
    case (Cons y ys)
    show ?case
    proof (cases "f y < c")
      case False
      then have "filter (\<lambda>x. f x < c) ys = []" "filter (\<lambda>x. \<not> f x < c) ys = ys"
        using Cons.prems by (auto simp: filter_empty_conv filter_id_conv)
      with False show ?thesis by simp
    qed (use Cons in simp)
  qed simp
  show ?thesis using split [of "sort_key f xs"] by (simp add: filter_sort)
qed

lemma sort_key_above:
  fixes f :: "'a \<Rightarrow> 'b :: linorder"
  assumes "\<forall>x \<in> set us. f x < c"
  shows "sort_key f (filter (\<lambda>x. \<not> f x < c) (us @ xs)) = sort_key f (filter (\<lambda>x. \<not> f x < c) xs)"
  using assms by (simp add: filter_False)

lemma sort_key_same:
  fixes f :: "'a \<Rightarrow> 'b :: linorder"
  shows "\<forall>x \<in> set xs. f x = c \<Longrightarrow> sort_key f xs = xs"
  by (intro sort_key_id_if_sorted) (induction xs, simp_all)

text \<open>The last element of a stable sort: a maximum, and among equals the one that came last.\<close>

lemma last_sort_key:
  fixes f :: "'a \<Rightarrow> 'b :: linorder"
  assumes "\<forall>y \<in> set ys. f y \<le> f m" and "\<forall>z \<in> set zs. f z < f m"
  shows "last (sort_key f (ys @ m # zs)) = m"
proof -
  have "filter (\<lambda>x. \<not> f x < f m) zs = []" using assms(2) by (simp add: filter_empty_conv)
  then have "filter (\<lambda>x. \<not> f x < f m) (ys @ m # zs) = filter (\<lambda>x. \<not> f x < f m) ys @ [m]" by simp
  moreover have "sort_key f (filter (\<lambda>x. \<not> f x < f m) ys @ [m]) = filter (\<lambda>x. \<not> f x < f m) ys @ [m]"
    using assms(1) by (intro sort_key_same [of _ f "f m"]) (auto simp: not_less intro: antisym)
  ultimately show ?thesis by (subst sort_key_split [of f _ "f m"]) simp
qed

lemma sort_key_Nil: "sort_key f xs = [] \<longleftrightarrow> xs = []"
  by (metis length_0_conv length_sort)

lemma last_sort_above:
  fixes f :: "'a \<Rightarrow> 'b :: linorder"
  assumes "filter (\<lambda>x. \<not> f x < c) xs = filter (\<lambda>x. \<not> f x < c) ys" and "filter (\<lambda>x. \<not> f x < c) ys \<noteq> []"
  shows "last (sort_key f xs) = last (sort_key f ys)"
proof -
  have "last (sort_key f zs) = last (sort_key f (filter (\<lambda>x. \<not> f x < c) zs))" if ne: "filter (\<lambda>x. \<not> f x < c) zs \<noteq> []" for zs
  proof -
    have "sort_key f (filter (\<lambda>x. \<not> f x < c) zs) \<noteq> []" using ne unfolding sort_key_Nil .
    then have "last (sort_key f (filter (\<lambda>x. f x < c) zs) @ sort_key f (filter (\<lambda>x. \<not> f x < c) zs)) = last (sort_key f (filter (\<lambda>x. \<not> f x < c) zs))"
      by (rule last_appendR)
    then show ?thesis unfolding sort_key_split [of f zs c, symmetric] .
  qed
  from this [of xs] this [of ys] assms show ?thesis by simp
qed

text \<open>Merging two sorted lists, the first winning ties, is the stable sort of both.\<close>

lemma interleave_set: "set (interleave cs es) = set cs \<union> set es"
proof (induction cs es rule: interleave.induct)
  case (2 c cs es)
  have "set es = set (takeWhile (\<lambda>x. ch_TS x < ch_TS c) es) \<union> set (dropWhile (\<lambda>x. ch_TS x < ch_TS c) es)"
    by (metis set_append takeWhile_dropWhile_id)
  with 2 show ?case by auto
qed simp

lemma interleave_mset: "mset (interleave cs es) = mset cs + mset es"
proof (induction cs es rule: interleave.induct)
  case (2 c cs es)
  have "mset es = mset (takeWhile (\<lambda>x. ch_TS x < ch_TS c) es) + mset (dropWhile (\<lambda>x. ch_TS x < ch_TS c) es)"
    by (metis mset_append takeWhile_dropWhile_id)
  with 2 show ?case by simp
qed simp

lemma interleave_props:
  assumes "sorted (map ch_TS cs)" and "sorted (map ch_TS es)"
  shows "sorted (map ch_TS (interleave cs es))
    \<and> filter (\<lambda>x. k = ch_TS x) (interleave cs es) = filter (\<lambda>x. k = ch_TS x) cs @ filter (\<lambda>x. k = ch_TS x) es"
  using assms
proof (induction cs es rule: interleave.induct)
  case (2 c cs es)
  let ?tw = "takeWhile (\<lambda>x. ch_TS x < ch_TS c) es" and ?dw = "dropWhile (\<lambda>x. ch_TS x < ch_TS c) es"
  have es: "es = ?tw @ ?dw" by simp
  have sdw: "sorted (map ch_TS ?dw)" "sorted (map ch_TS ?tw)" using 2(3) by (metis es map_append sorted_append)+
  have tw: "\<forall>x \<in> set ?tw. ch_TS x < ch_TS c" by (auto dest: set_takeWhileD)
  have dw: "\<forall>x \<in> set ?dw. ch_TS c \<le> ch_TS x"
  proof (cases ?dw)
    case (Cons d ds)
    then have "\<not> ch_TS d < ch_TS c" by (metis hd_dropWhile list.discI list.sel(1))
    with Cons sdw(1) show ?thesis by auto
  next
    case Nil
    then show ?thesis unfolding Nil by simp
  qed
  have cs: "\<forall>x \<in> set cs. ch_TS c \<le> ch_TS x" using 2(2) by simp
  have ih: "sorted (map ch_TS (interleave cs ?dw))"
    "filter (\<lambda>x. k = ch_TS x) (interleave cs ?dw) = filter (\<lambda>x. k = ch_TS x) cs @ filter (\<lambda>x. k = ch_TS x) ?dw"
    using 2 sdw by simp_all
  have "sorted (map ch_TS (interleave (c # cs) es))"
  proof -
    have "ch_TS x \<le> ch_TS y" if "x \<in> set ?tw" "y \<in> set cs \<union> set ?dw" for x y
    proof -
      have "ch_TS x < ch_TS c" "ch_TS c \<le> ch_TS y" using that tw dw cs by blast+
      then show ?thesis by simp
    qed
    with ih(1) sdw(2) tw dw cs show ?thesis by (auto simp: sorted_append interleave_set)
  qed
  moreover have "filter (\<lambda>x. k = ch_TS x) ?tw @ filter (\<lambda>x. k = ch_TS x) (c # cs) = filter (\<lambda>x. k = ch_TS x) (c # cs) @ filter (\<lambda>x. k = ch_TS x) ?tw"
  proof (cases "filter (\<lambda>x. k = ch_TS x) ?tw = []")
    case False
    then have "k < ch_TS c" using tw by (auto simp: filter_empty_conv)
    then have "filter (\<lambda>x. k = ch_TS x) (c # cs) = []" using cs by (auto simp: filter_empty_conv)
    then show ?thesis by simp
  qed simp
  moreover have "filter (\<lambda>x. k = ch_TS x) es = filter (\<lambda>x. k = ch_TS x) ?tw @ filter (\<lambda>x. k = ch_TS x) ?dw"
    by (metis es filter_append)
  moreover have "filter (\<lambda>x. k = ch_TS x) (interleave (c # cs) es) =
      (filter (\<lambda>x. k = ch_TS x) ?tw @ filter (\<lambda>x. k = ch_TS x) (c # cs)) @ filter (\<lambda>x. k = ch_TS x) ?dw"
    using ih(2) by auto
  ultimately show ?case by (simp only: append.assoc)
qed simp

lemma interleave_sort: "interleave (sort_key ch_TS cs) (sort_key ch_TS es) = sort_key ch_TS (cs @ es)"
proof (rule properties_for_sort_key [symmetric])
  show "mset (interleave (sort_key ch_TS cs) (sort_key ch_TS es)) = mset (cs @ es)" by (simp add: interleave_mset)
  show "sorted (map ch_TS (interleave (sort_key ch_TS cs) (sort_key ch_TS es)))" using interleave_props by simp
  fix k :: Change
  have "filter (\<lambda>x. ch_TS k = ch_TS x) (sort_key ch_TS xs) = filter (\<lambda>x. ch_TS k = ch_TS x) xs" for xs :: "Change list"
    unfolding filter_sort by (rule sort_key_same [of _ _ "ch_TS k"]) simp
  then show "filter (\<lambda>x. ch_TS k = ch_TS x) (interleave (sort_key ch_TS cs) (sort_key ch_TS es)) = filter (\<lambda>x. ch_TS k = ch_TS x) (cs @ es)"
    using interleave_props [of "sort_key ch_TS cs" "sort_key ch_TS es" "ch_TS k"] by simp
qed

section \<open>The rows of an answer\<close>

definition merged_acc :: "timelineAccumulator list \<Rightarrow> timelineAccumulator" where
  "merged_acc accs = fold (\<lambda>other a. ta_merge a other) accs ta_zero"

lemma fold_merge_fields:
  "ta_changes (fold (\<lambda>other a. ta_merge a other) accs a) = ta_changes a @ concat (map ta_changes accs)"
  "ta_marks (fold (\<lambda>other a. ta_merge a other) accs a) = ta_marks a @ concat (map ta_marks accs)"
  "ta_events (fold (\<lambda>other a. ta_merge a other) accs a) = ta_events a @ concat (map ta_events accs)"
  by (induction accs arbitrary: a) (simp_all add: ta_merge_def)

lemma merged_acc_fields [simp]:
  "ta_changes (merged_acc accs) = concat (map ta_changes accs)" "ta_marks (merged_acc accs) = concat (map ta_marks accs)"
  "ta_events (merged_acc accs) = concat (map ta_events accs)"
  by (simp_all add: merged_acc_def fold_merge_fields ta_zero_def)

definition chosen :: "TimelineQuery \<Rightarrow> timelineAccumulator \<Rightarrow> string \<times> bool" where
  "chosen q acc = (if tq_EventsOnly q then (tq_UID q, False) else resolveIncarnation q (sort_key im_ts (ta_marks acc)))"

definition raw_rows :: "TimelineQuery \<Rightarrow> string \<Rightarrow> timelineAccumulator \<Rightarrow> Change list" where
  "raw_rows q uid acc =
     filter (\<lambda>c. uid = [] \<or> ch_UID c = uid) (ta_changes acc) @
     (if tq_IncludeEvents q then map ce_change (filter (\<lambda>ev. uid = [] \<or> \<not> ce_root ev \<or> ce_subjectUID ev = uid) (ta_events acc)) else [])"

lemma mergeCommentary_sort:
  "mergeCommentary (sort_key ch_TS cs) events uid =
     sort_key ch_TS (cs @ map ce_change (filter (\<lambda>ev. uid = [] \<or> \<not> ce_root ev \<or> ce_subjectUID ev = uid) events))"
proof -
  have f: "(\<lambda>ev. \<not> (uid \<noteq> [] \<and> ce_root ev \<and> ce_subjectUID ev \<noteq> uid)) = (\<lambda>ev. uid = [] \<or> \<not> ce_root ev \<or> ce_subjectUID ev = uid)"
    by auto
  show ?thesis unfolding mergeCommentary_def f Let_def
    by (cases "map ce_change (filter (\<lambda>ev. uid = [] \<or> \<not> ce_root ev \<or> ce_subjectUID ev = uid) events) = []")
      (simp_all only: if_True if_False interleave_sort append_Nil2 if_cancel)
qed

text \<open>An answer is the stable sort of its rows, turned round and cut.\<close>

lemma assemble_rows:
  "assemble q acc =
     (let (uid, recorded) = chosen q acc; rows = sort_key ch_TS (raw_rows q uid acc)
      in if \<not> recorded \<and> \<not> tq_IncludeEvents q then []
         else let rows = (if tq_Reverse q then rev rows else rows) in if tq_Limit q > 0 then take (nat (tq_Limit q)) rows else rows)"
proof -
  obtain uid recorded where ch: "chosen q acc = (uid, recorded)" by (cases "chosen q acc")
  have c: "(if uid \<noteq> [] then filter (\<lambda>c. \<not> ch_UID c \<noteq> uid) (sort_key ch_TS (ta_changes acc)) else sort_key ch_TS (ta_changes acc)) =
      sort_key ch_TS (filter (\<lambda>c. uid = [] \<or> ch_UID c = uid) (ta_changes acc))"
    by (simp add: filter_sort)
  have m: "(if tq_IncludeEvents q then mergeCommentary (sort_key ch_TS (filter (\<lambda>c. uid = [] \<or> ch_UID c = uid) (ta_changes acc))) (ta_events acc) uid
      else sort_key ch_TS (filter (\<lambda>c. uid = [] \<or> ch_UID c = uid) (ta_changes acc))) = sort_key ch_TS (raw_rows q uid acc)"
    by (simp add: mergeCommentary_sort raw_rows_def)
  have l: "(if tq_Limit q > 0 \<and> int (length xs) > tq_Limit q then take (nat (tq_Limit q)) xs else xs) =
      (if tq_Limit q > 0 then take (nat (tq_Limit q)) xs else xs)" for xs :: "Change list"
    by auto
  show ?thesis
    unfolding assemble_def Let_def chosen_def [symmetric] ch prod.case c m l ..
qed

text \<open>Rows below a bound do not reach a newest-first answer that is full of rows at or above it.\<close>

lemma sort_take_newest:
  fixes f :: "'a \<Rightarrow> 'b :: linorder"
  assumes "filter (\<lambda>x. \<not> f x < c) xs = filter (\<lambda>x. \<not> f x < c) ys" and "n \<le> length (filter (\<lambda>x. \<not> f x < c) ys)"
  shows "take n (rev (sort_key f xs)) = take n (rev (sort_key f ys))"
proof -
  have "take n (rev (sort_key f zs)) = take n (rev (sort_key f (filter (\<lambda>x. \<not> f x < c) zs)))"
    if "n \<le> length (filter (\<lambda>x. \<not> f x < c) zs)" for zs
    using that by (subst sort_key_split [of f zs c]) simp
  from this [of xs] this [of ys] assms show ?thesis by simp
qed

definition below :: "go_time \<Rightarrow> timelineAccumulator \<Rightarrow> bool" where
  "below c acc \<longleftrightarrow> (\<forall>x \<in> set (ta_changes acc). ch_TS x < c) \<and> (\<forall>m \<in> set (ta_marks acc). im_ts m < c) \<and> (\<forall>ev \<in> set (ta_events acc). ch_TS (ce_change ev) < c)"

lemma raw_rows_above:
  "below c u \<Longrightarrow> filter (\<lambda>x. \<not> ch_TS x < c) (raw_rows q uid (ta_merge u a)) = filter (\<lambda>x. \<not> ch_TS x < c) (raw_rows q uid a)"
  by (auto simp: raw_rows_def ta_merge_def below_def filter_empty_conv)

definition later :: "incarnationMark \<Rightarrow> incarnationMark option \<Rightarrow> incarnationMark option" where
  "later mark latest = (case latest of None \<Rightarrow> Some mark | Some n \<Rightarrow> (if \<not> im_ts mark < im_ts n then Some mark else Some n))"

lemma fold_later:
  "xs \<noteq> [] \<Longrightarrow> \<exists>m ys zs. fold later xs None = Some m \<and> xs = ys @ m # zs \<and> (\<forall>y \<in> set ys. im_ts y \<le> im_ts m) \<and> (\<forall>z \<in> set zs. im_ts z < im_ts m)"
proof (induction xs rule: rev_induct)
  case (snoc x xs)
  show ?case
  proof (cases "xs = []")
    case True
    then show ?thesis by (intro exI [of _ x] exI [of _ "[]"]) (simp add: later_def)
  next
    case False
    with snoc.IH obtain n ys zs where n: "fold later xs None = Some n" "xs = ys @ n # zs" "\<forall>y \<in> set ys. im_ts y \<le> im_ts n"
      "\<forall>z \<in> set zs. im_ts z < im_ts n" by blast
    show ?thesis
    proof (cases "im_ts x < im_ts n")
      case True
      then have "fold later (xs @ [x]) None = Some n" using n(1) by (simp add: later_def)
      moreover have "xs @ [x] = ys @ n # (zs @ [x])" "\<forall>z \<in> set (zs @ [x]). im_ts z < im_ts n" using n True by simp_all
      ultimately show ?thesis using n(3) by blast
    next
      case less: False
      then have "\<forall>y \<in> set xs. im_ts y \<le> im_ts x" using n by fastforce
      moreover have "fold later (xs @ [x]) None = Some x" using less n(1) by (simp add: later_def)
      moreover have "xs @ [x] = xs @ x # []" "\<forall>z \<in> set ([] :: incarnationMark list). im_ts z < im_ts x" by simp_all
      ultimately show ?thesis by blast
    qed
  qed
qed simp

lemma newestMark_last:
  "newestMark steps = (let marks = ta_marks (merged_acc (map ws_acc (rev steps))) in if marks = [] then None else Some (last (sort_key im_ts marks)))"
proof -
  let ?marks = "ta_marks (merged_acc (map ws_acc (rev steps)))"
  have n: "newestMark steps = fold later ?marks None"
    unfolding newestMark_def later_def [abs_def] by (simp add: comp_def)
  show ?thesis
  proof (cases "?marks = []")
    case False
    with fold_later obtain m ys zs where m: "fold later ?marks None = Some m" "?marks = ys @ m # zs" "\<forall>y \<in> set ys. im_ts y \<le> im_ts m"
      "\<forall>z \<in> set zs. im_ts z < im_ts m" by blast
    have "last (sort_key im_ts ?marks) = m" unfolding m(2) by (rule last_sort_key [OF m(3,4)])
    with False m(1) show ?thesis by (simp only: n Let_def if_False)
  next
    case True
    then show ?thesis unfolding n Let_def True by simp
  qed
qed

section \<open>The walk reads a suffix of the window\<close>

lemma acc_eqI:
  fixes a b :: timelineAccumulator
  shows "ta_changes a = ta_changes b \<Longrightarrow> ta_marks a = ta_marks b \<Longrightarrow> ta_events a = ta_events b \<Longrightarrow> a = b"
  by (rule timelineAccumulator.equality) simp_all

lemma merged_acc_append: "merged_acc (xs @ ys) = ta_merge (merged_acc xs) (merged_acc ys)"
  by (rule acc_eqI) (simp_all add: ta_merge_def)

lemma merged_acc_Cons: "merged_acc (x # xs) = ta_merge x (merged_acc xs)"
  by (rule acc_eqI) (simp_all add: ta_merge_def)

definition quiet :: "scan_env \<Rightarrow> bool" where
  "quiet env \<longleftrightarrow> (\<forall>p. \<not> snd (sn_List env p)) \<and> (\<forall>g. \<not> sn_listCancelled env g) \<and> (\<forall>g. sn_fetchCancelled env g = None)"

definition collectedUnder :: "scan_env \<Rightarrow> recordScan \<Rightarrow> archive_partition list \<Rightarrow> timelineAccumulator" where
  "collectedUnder env s spans = merged_acc (map snd (readAll env (scan_decode env s) ta_zero (prefixesOf spans)))"

lemma collectedUnder_append: "collectedUnder env s (xs @ ys) = ta_merge (collectedUnder env s xs) (collectedUnder env s ys)"
  by (simp add: collectedUnder_def prefixesOf_def readAll_append merged_acc_append)

lemma quiet_group:
  assumes "quiet env"
  shows "scanOneGroup env decode zero g = (first_error (map fst (readAll env decode zero g)), False, map snd (readAll env decode zero g))"
proof (cases rule: scanOneGroup_cases [of env decode zero g])
  case (stopped err accs)
  have "listObjectKeys env g = ([], map (objectsUnder env) g)" using assms by (simp add: listObjectKeys_cases quiet_def)
  with stopped assms show ?thesis by (simp add: scanOneGroup_def fetchObjects_None quiet_def)
qed simp

lemma walkNewest_reads:
  assumes "quiet env" and "0 < en_concurrency e" and "end_at \<le> length spans" and "0 < width"
    and "merged_acc (map ws_acc (rev steps)) = collectedUnder env s (drop end_at spans)"
  shows "\<exists>i \<le> end_at. merged_acc (map ws_acc (rev (walkNewest e env q s spans end_at width steps))) = collectedUnder env s (drop i spans)
    \<and> (i = 0 \<or> i < length spans \<and> answerIsSettled e q (walkNewest e env q s spans end_at width steps) (pt_start (spans ! i)))"
  using assms(3-5)
proof (induction end_at arbitrary: width steps rule: less_induct)
  case (less end_at)
  show ?case
  proof (cases "end_at = 0")
    case True
    then have "walkNewest e env q s spans end_at width steps = steps" by (subst walkNewest.simps) simp
    with less.prems(3) True show ?thesis by auto
  next
    case ne: False
    define start where "start = end_at - width"
    define g where "g = prefixesOf (drop start (take end_at spans))"
    define step where "step = \<lparr>ws_acc = merged_acc (map snd (readAll env (scan_decode env s) ta_zero g)),
      ws_failure = first_error (map fst (readAll env (scan_decode env s) ta_zero g))\<rparr>"
    have lt: "start < end_at" "start < length spans" using ne less.prems(1,2) by (simp_all add: start_def)
    have walk: "walkNewest e env q s spans end_at width steps =
        (if answerIsSettled e q (steps @ [step]) (pt_start (spans ! start)) then steps @ [step]
         else walkNewest e env q s spans start (min (width * 2) (en_concurrency e)) (steps @ [step]))"
      using ne less.prems(2)
      by (subst walkNewest.simps) (simp add: quiet_group [OF assms(1)] Let_def start_def g_def step_def merged_acc_def)
    have "drop start spans = drop start (take end_at spans) @ drop end_at spans"
      using lt less.prems(1) by (metis drop_append append_take_drop_id drop_take diff_is_0_eq' drop_0 length_take less_imp_le min.absorb2)
    then have m: "merged_acc (map ws_acc (rev (steps @ [step]))) = collectedUnder env s (drop start spans)"
      using less.prems(3) by (simp add: merged_acc_Cons collectedUnder_append) (simp add: step_def g_def collectedUnder_def)
    show ?thesis
    proof (cases "answerIsSettled e q (steps @ [step]) (pt_start (spans ! start))")
      case True
      with m lt show ?thesis unfolding walk by (intro exI [of _ start]) simp
    next
      case False
      have "\<exists>i \<le> start. merged_acc (map ws_acc (rev (walkNewest e env q s spans start (min (width * 2) (en_concurrency e)) (steps @ [step])))) =
          collectedUnder env s (drop i spans)
        \<and> (i = 0 \<or> i < length spans \<and> answerIsSettled e q (walkNewest e env q s spans start (min (width * 2) (en_concurrency e)) (steps @ [step])) (pt_start (spans ! i)))"
        by (rule less.IH [OF lt(1)]) (use lt less.prems(2) assms(2) m in simp_all)
      with False lt show ?thesis unfolding walk by (auto intro: order_trans less_imp_le)
    qed
  qed
qed

section \<open>A settled answer is the whole answer\<close>

definition settled_in :: "TimelineQuery \<Rightarrow> go_time \<Rightarrow> timelineAccumulator \<Rightarrow> bool" where
  "settled_in q c a \<longleftrightarrow>
     (tq_EventsOnly q \<or> tq_UID q \<noteq> [] \<or> tq_AllIncarnations q \<or> (\<exists>m \<in> set (ta_marks a). \<not> im_ts m < c))
     \<and> nat (tq_Limit q) \<le> length (filter (\<lambda>x. \<not> ch_TS x < c) (raw_rows q (fst (chosen q a)) a))"

lemma length_filter_concat: "length (filter P (concat (map f xs))) = sum_list (map (\<lambda>x. length (filter P (f x))) xs)"
  by (induction xs) simp_all

lemma settled_rows_sum:
  "sum_list (map (settled_rows q uid c) steps) =
     length (filter (\<lambda>x. \<not> ch_TS x < c) (raw_rows q uid (merged_acc (map ws_acc (rev steps)))))"
proof -
  have "length (filter (\<lambda>x. \<not> ch_TS x < c) (raw_rows q uid (merged_acc (map ws_acc xs)))) = sum_list (map (settled_rows q uid c) xs)" for xs
    by (induction xs) (auto simp: raw_rows_def settled_rows_def merged_acc_Cons ta_merge_def comp_def filter_map)
  from this [of "rev steps"] show ?thesis by (simp add: rev_map [symmetric])
qed

lemma last_sort_in: "xs \<noteq> [] \<Longrightarrow> last (sort_key f xs) \<in> set xs"
  by (metis last_in_set length_0_conv length_sort set_sort)

lemma answerIsSettled_in:
  assumes "answerIsSettled e q steps lo"
  shows "settled_in q (lo + en_objectSpan e) (merged_acc (map ws_acc (rev steps)))"
proof -
  let ?a = "merged_acc (map ws_acc (rev steps))" and ?c = "lo + en_objectSpan e"
  define pick where "pick = (if tq_EventsOnly q then Some (tq_UID q) else if tq_UID q \<noteq> [] then Some (tq_UID q)
      else if tq_AllIncarnations q then Some []
      else case newestMark steps of None \<Rightarrow> None | Some latest \<Rightarrow> (if im_ts latest < ?c then None else Some (im_uid latest)))"
  have "case pick of None \<Rightarrow> False | Some uid \<Rightarrow> tq_Limit q \<le> int (sum_list (map (settled_rows q uid ?c) steps))"
    using assms unfolding answerIsSettled_def Let_def pick_def [symmetric] .
  then obtain uid where uid: "pick = Some uid" and n: "tq_Limit q \<le> int (sum_list (map (settled_rows q uid ?c) steps))"
    by (cases pick) simp_all
  have "fst (chosen q ?a) = uid \<and> (tq_EventsOnly q \<or> tq_UID q \<noteq> [] \<or> tq_AllIncarnations q \<or> (\<exists>m \<in> set (ta_marks ?a). \<not> im_ts m < ?c))"
  proof (cases "tq_EventsOnly q \<or> tq_UID q \<noteq> [] \<or> tq_AllIncarnations q")
    case True
    with uid show ?thesis by (auto simp: pick_def chosen_def resolveIncarnation_def split: if_splits)
  next
    case False
    with uid obtain latest where latest: "newestMark steps = Some latest" "\<not> im_ts latest < ?c" "uid = im_uid latest"
      by (auto simp: pick_def split: option.splits if_splits)
    then have ne: "ta_marks ?a \<noteq> []" and "latest = last (sort_key im_ts (ta_marks ?a))"
      unfolding newestMark_last Let_def by (metis option.distinct(1), metis option.distinct(1) option.inject)
    with latest have l: "\<not> im_ts (last (sort_key im_ts (ta_marks ?a))) < ?c" "uid = im_uid (last (sort_key im_ts (ta_marks ?a)))" by simp_all
    have "sort_key im_ts (ta_marks ?a) \<noteq> []" using ne by (simp add: sort_key_Nil)
    with False l(2) have "fst (chosen q ?a) = uid" unfolding chosen_def resolveIncarnation_def by simp
    with l(1) last_sort_in [OF ne] show ?thesis by blast
  qed
  with n show ?thesis unfolding settled_in_def settled_rows_sum by auto
qed

lemma chosen_settled:
  assumes "below c u" and "settled_in q c a"
  shows "chosen q (ta_merge u a) = chosen q a"
proof (cases "tq_EventsOnly q \<or> tq_UID q \<noteq> [] \<or> tq_AllIncarnations q")
  case True
  then show ?thesis by (auto simp: chosen_def resolveIncarnation_def)
next
  case False
  then obtain m where m: "m \<in> set (ta_marks a)" "\<not> im_ts m < c" using assms(2) by (auto simp: settled_in_def)
  have "filter (\<lambda>x. \<not> im_ts x < c) (ta_marks a) \<noteq> []" using m by (auto simp: filter_empty_conv)
  moreover have "filter (\<lambda>x. \<not> im_ts x < c) (ta_marks (ta_merge u a)) = filter (\<lambda>x. \<not> im_ts x < c) (ta_marks a)"
    using assms(1) by (simp add: ta_merge_def below_def filter_empty_conv)
  ultimately have "last (sort_key im_ts (ta_marks (ta_merge u a))) = last (sort_key im_ts (ta_marks a))"
    by (intro last_sort_above [of im_ts c]) simp_all
  moreover have "sort_key im_ts (ta_marks a) \<noteq> []" "sort_key im_ts (ta_marks (ta_merge u a)) \<noteq> []"
    using m(1) by (auto simp: sort_key_Nil ta_merge_def)
  ultimately show ?thesis using False by (simp add: chosen_def resolveIncarnation_def)
qed

lemma assemble_settled:
  assumes "below c u" and "settled_in q c a" and "reverseLimited q"
  shows "assemble q (ta_merge u a) = assemble q a"
proof -
  obtain uid recorded where ch: "chosen q a = (uid, recorded)" by (cases "chosen q a")
  have "take (nat (tq_Limit q)) (rev (sort_key ch_TS (raw_rows q uid (ta_merge u a)))) = take (nat (tq_Limit q)) (rev (sort_key ch_TS (raw_rows q uid a)))"
    using assms(2) ch by (intro sort_take_newest [of ch_TS c] raw_rows_above [OF assms(1)]) (simp add: settled_in_def)
  with assms(3) show ?thesis
    by (simp add: assemble_rows chosen_settled [OF assms(1,2)] ch reverseLimited_def Let_def)
qed

section \<open>Objects respect their span\<close>

definition objectLines :: "scan_env \<Rightarrow> string \<Rightarrow> sink_record list" where
  "objectLines env key = (case sn_Open env key of Opened body _ \<Rightarrow> fst (streamFrame env decodeRecord body) | _ \<Rightarrow> [])"

text \<open>
  What the format promises and the pruning relies on: a listing yields keys under its prefix, and an object of the
  cluster is filed under the hour of an instant no record of the object is more than the span after.
\<close>

definition spans_respected :: "Engine \<Rightarrow> scan_env \<Rightarrow> string \<Rightarrow> bool" where
  "spans_respected e env clusterID \<longleftrightarrow>
     (\<forall>p. \<forall>key \<in> set (fst (sn_List env p)). has_prefix key p
        \<and> (isObjectKey key \<and> has_prefix key (recordsRoot (en_prefix e) clusterID) \<longrightarrow>
             (\<exists>first h. key = recordsRoot (en_prefix e) clusterID @ keyTail first h
                \<and> (\<forall>r \<in> set (objectLines env key). rec_Timestamp r \<le> first + en_objectSpan e))))"

lemma readObject_lines: "snd (readObject env (scan_decode env s) key acc) = fold (scan_visit s) (objectLines env key) acc"
  by (auto simp: readObject_def objectLines_def scan_decode_def decodeFrame_def split: open_answer.splits prod.splits)

lemma scan_visit_below: "rec_Timestamp line < c \<Longrightarrow> below c acc \<Longrightarrow> below c (scan_visit s line acc)"
  by (auto simp: scan_visit_def below_def line_change_def Let_def split: option.splits)

lemma fold_visit_below: "\<forall>line \<in> set lines. rec_Timestamp line < c \<Longrightarrow> below c acc \<Longrightarrow> below c (fold (scan_visit s) lines acc)"
  by (induction lines arbitrary: acc) (simp_all add: scan_visit_below)

lemma merged_acc_below: "\<forall>a \<in> set accs. below c a \<Longrightarrow> below c (merged_acc accs)"
  unfolding below_def by auto

lemma spans_under_root: "p \<in> set (spansFrom root (c * nsPerHour) (e * nsPerHour)) \<Longrightarrow> has_prefix (pt_prefix p) root"
proof (induction "nat (e + 1 - c)" arbitrary: c rule: less_induct)
  case less
  have "has_prefix (pt_prefix (dayPartition root t)) root" "has_prefix (pt_prefix (hourPartition root t)) root" for t
    by (simp_all add: dayPartition_def hourPartition_def has_prefix_def)
  then show ?case
    using less.prems less.hyps [of "c + 24"] less.hyps [of "c + 1"] by (subst (asm) spansFrom_hours) (auto split: if_splits)
qed

lemma has_prefix_trans: "has_prefix a b \<Longrightarrow> has_prefix b c \<Longrightarrow> has_prefix a c"
  by (auto simp: has_prefix_iff)

lemma partitionSpans_hours:
  "partitionSpans root from_ts to_ts span = spansFrom root ((from_ts - span) div nsPerHour * nsPerHour) (to_ts div nsPerHour * nsPerHour)"
  by (simp add: partitionSpans_def hourStart_eq)

lemma unread_below:
  assumes "spans_respected e env cl" and "spans = recordPartitions e cl from_ts to_ts" and "i < length spans"
  shows "below (pt_start (spans ! i) + en_objectSpan e) (collectedUnder env s (take i spans))"
proof -
  let ?root = "recordsRoot (en_prefix e) cl"
  have "below (pt_start (spans ! i) + en_objectSpan e) (fold (scan_visit s) (objectLines env key) ta_zero)"
    if p: "p \<in> set (take i spans)" and key: "key \<in> set (objectsUnder env (pt_prefix p))" for p key
  proof -
    have "p \<in> set spans" using p by (rule in_set_takeD)
    then have root: "has_prefix (pt_prefix p) ?root" unfolding assms(2) recordPartitions_def partitionSpans_hours by (rule spans_under_root)
    have k: "key \<in> set (fst (sn_List env (pt_prefix p)))" "isObjectKey key" using key by (simp_all add: objectsUnder_def)
    with assms(1) have kp: "has_prefix key (pt_prefix p)" by (simp add: spans_respected_def)
    with assms(1) k has_prefix_trans [OF kp root] obtain first h where f: "key = ?root @ keyTail first h"
      "\<forall>r \<in> set (objectLines env key). rec_Timestamp r \<le> first + en_objectSpan e" unfolding spans_respected_def by blast
    obtain j where j: "j < i" "p = spans ! j" using p assms(3) by (auto simp: in_set_conv_nth)
    have "first < pt_start (spans ! i)"
      using spans_ordered [of ?root "(from_ts - en_objectSpan e) div nsPerHour" "to_ts div nsPerHour"] j assms(3) kp
      unfolding f(1) assms(2) recordPartitions_def partitionSpans_hours sorted_wrt_iff_nth_less by blast
    with f(2) have "\<forall>r \<in> set (objectLines env key). rec_Timestamp r < pt_start (spans ! i) + en_objectSpan e" by fastforce
    then show ?thesis by (rule fold_visit_below) (simp add: below_def ta_zero_def)
  qed
  then show ?thesis
    unfolding collectedUnder_def readAll_def prefixesOf_def by (intro merged_acc_below) (auto simp: readObject_lines)
qed

lemma fold_steps: "fold (\<lambda>step a. ta_merge a (ws_acc step)) xs acc = fold (\<lambda>other a. ta_merge a other) (map ws_acc xs) acc"
  for xs :: "timelineWalkStep list"
  by (induction xs arbitrary: acc) simp_all


text \<open>One object of the second of March, asked about newest first with a limit of one.\<close>

definition sampleRef :: ObjectRef where
  "sampleRef = \<lparr>or_ClusterID = ''prod'', or_APIGroup = [], or_Kind = ''ConfigMap'', or_Namespace = ''web'', or_Name = ''cfg''\<rparr>"

definition sampleTimeline :: TimelineQuery where
  "sampleTimeline =
     \<lparr>tq_Ref = sampleRef, tq_UID = [], tq_AllIncarnations = False, tq_From = march 1 0, tq_To = march 3 0, tq_Actors = [], tq_ExcludeActors = [],
      tq_FieldPaths = [], tq_Limit = 1, tq_Reverse = True, tq_IncludeEvents = True, tq_Subjects = [], tq_EventsOnly = False\<rparr>"

lemma stored_lines:
  assumes "Encode framing ''audit'' [(False, sampleRecord (march 2 9) data)] = Inr obj"
  shows "objectLines (stored [(obj_Key obj, obj_Payload obj)]) (obj_Key obj) = [sampleRecord (march 2 9) data]"
proof -
  have wf: "\<forall>(isnil, r) \<in> set [(False, sampleRecord (march 2 9) data)]. gm_wf (rec_Labels r)" by (simp add: sampleRecord_def gm_wf_def)
  obtain jsonl where j: "decompress framing (obj_Payload obj) = Inr jsonl"
    "decodeLines decodeRecord jsonl = Some (map (\<lambda>(isnil, r). canonical_record r) [(False, sampleRecord (march 2 9) data)])"
    using encoded_object [OF framing_ok assms wf] by blast
  have "canonical_record (sampleRecord (march 2 9) data) = sampleRecord (march 2 9) data" by (simp add: canonical_record_def sampleRecord_def)
  moreover have "sn_Open (stored [(obj_Key obj, obj_Payload obj)]) (obj_Key obj) = Opened (obj_Payload obj) True" by (simp add: stored_def)
  ultimately show ?thesis
    using streamFrame_whole [OF stored_reader j, of "[(obj_Key obj, obj_Payload obj)]"] by (simp add: objectLines_def)
qed

lemma sample_key:
  assumes "Encode framing ''audit'' [(False, sampleRecord (march 2 9) data)] = Inr obj"
  shows "\<exists>h. obj_Key obj = recordsRoot ''audit'' ''prod'' @ keyTail (march 2 9) h"
proof -
  have wf: "\<forall>(isnil, r) \<in> set [(False, sampleRecord (march 2 9) data)]. gm_wf (rec_Labels r)" by (simp add: sampleRecord_def gm_wf_def)
  have "plain_segment ''audit''" "plain_segment ''prod''" by (simp_all add: plain_segment_def)
  with encoded_object [OF framing_ok assms wf] objectKey_under_root show ?thesis by (auto simp: sampleRecord_fields)
qed

lemma stored_respected:
  assumes "Encode framing ''audit'' [(False, sampleRecord (march 2 9) data)] = Inr obj"
  shows "spans_respected sampleEngine (stored [(obj_Key obj, obj_Payload obj)]) ''prod''"
proof -
  have l: "rec_Timestamp r \<le> march 2 9 + en_objectSpan sampleEngine"
    if "r \<in> set (objectLines (stored [(obj_Key obj, obj_Payload obj)]) (obj_Key obj))" for r
    using that unfolding stored_lines [OF assms] by (simp add: sampleRecord_fields sampleEngine_def nsPerHour_def)
  obtain h where h: "obj_Key obj = recordsRoot ''audit'' ''prod'' @ keyTail (march 2 9) h" using sample_key [OF assms] by blast
  have keys: "key = obj_Key obj \<and> has_prefix key p" if "key \<in> set (fst (sn_List (stored [(obj_Key obj, obj_Payload obj)]) p))" for key p
    using that by (simp add: stored_def split: if_splits)
  have "en_prefix sampleEngine = ''audit''" by (simp add: sampleEngine_def)
  with keys l h show ?thesis unfolding spans_respected_def by metis
qed


section \<open>Incarnations of a name\<close>

text \<open>One incarnation as its marks describe it, and the uids in the order they first appear.\<close>

definition summary :: "incarnationMark list \<Rightarrow> string \<Rightarrow> Incarnation" where
  "summary marks uid =
     (let ms = filter (\<lambda>m. im_uid m = uid) marks
      in \<lparr>in_UID = uid, in_FirstSeen = im_ts (hd ms), in_LastSeen = im_ts (last ms), in_Deleted = list_ex im_deleted ms\<rparr>)"

fun firsts :: "string list \<Rightarrow> string list" where
  "firsts [] = []"
| "firsts (x # xs) = x # filter (\<lambda>y. y \<noteq> x) (firsts xs)"

lemma firsts_snoc: "firsts (xs @ [x]) = (if x \<in> set xs then firsts xs else firsts xs @ [x])"
  by (induction xs) (auto simp: filter_id_conv)

lemma firsts_set [simp]: "set (firsts xs) = set xs" "distinct (firsts xs)"
  by (induction xs) auto

lemma summary_seen:
  assumes "im_uid mark \<in> im_uid ` set past"
  shows "summary (past @ [mark]) (im_uid mark) =
    (summary past (im_uid mark))\<lparr>in_LastSeen := im_ts mark, in_Deleted := in_Deleted (summary past (im_uid mark)) \<or> im_deleted mark\<rparr>"
proof -
  have "filter (\<lambda>m. im_uid m = im_uid mark) past \<noteq> []" using assms by (auto simp: filter_empty_conv)
  then show ?thesis by (simp add: summary_def Let_def)
qed

lemma summary_other: "uid \<noteq> im_uid mark \<Longrightarrow> summary (past @ [mark]) uid = summary past uid"
  by (simp add: summary_def)

lemma summary_new:
  assumes "im_uid mark \<notin> im_uid ` set past"
  shows "summary (past @ [mark]) (im_uid mark) = \<lparr>in_UID = im_uid mark, in_FirstSeen = im_ts mark, in_LastSeen = im_ts mark, in_Deleted = im_deleted mark\<rparr>"
proof -
  have "filter (\<lambda>m. im_uid m = im_uid mark) past = []" using assms by (metis (mono_tags, lifting) filter_False imageI)
  then show ?thesis by (simp add: summary_def)
qed

lemma spansLoop_summary:
  assumes "spans = map (summary past) (firsts (map im_uid past))"
    and "\<forall>uid. gm_get at uid = None \<longleftrightarrow> uid \<notin> im_uid ` set past"
    and "\<forall>uid i. gm_get at uid = Some i \<longrightarrow> i < length spans \<and> firsts (map im_uid past) ! i = uid"
  shows "spansLoop marks at spans = map (summary (past @ marks)) (firsts (map im_uid (past @ marks)))"
  using assms
proof (induction marks arbitrary: past at spans)
  case (Cons mark marks)
  let ?us = "firsts (map im_uid past)"
  show ?case
  proof (cases "gm_get at (im_uid mark)")
    case None
    then have new: "im_uid mark \<notin> im_uid ` set past" using Cons.prems(2) by blast
    have us: "firsts (map im_uid (past @ [mark])) = ?us @ [im_uid mark]" using new by (simp add: firsts_snoc)
    have keep: "summary (past @ [mark]) u = summary past u" if "u \<in> set ?us" for u
      using that new by (intro summary_other) (metis firsts_set(1) list.set_map)
    have spans: "spans @ [\<lparr>in_UID = im_uid mark, in_FirstSeen = im_ts mark, in_LastSeen = im_ts mark, in_Deleted = im_deleted mark\<rparr>] =
        map (summary (past @ [mark])) (firsts (map im_uid (past @ [mark])))"
      unfolding us Cons.prems(1) using keep new by (simp add: summary_new)
    have "\<forall>uid i. gm_get (gm_set (im_uid mark) (length spans) at) uid = Some i \<longrightarrow>
        i < length (spans @ [\<lparr>in_UID = im_uid mark, in_FirstSeen = im_ts mark, in_LastSeen = im_ts mark, in_Deleted = im_deleted mark\<rparr>])
        \<and> firsts (map im_uid (past @ [mark])) ! i = uid"
      unfolding us using Cons.prems(1,3) by (auto simp: nth_append less_Suc_eq split: if_splits)
    moreover have "\<forall>uid. gm_get (gm_set (im_uid mark) (length spans) at) uid = None \<longleftrightarrow> uid \<notin> im_uid ` set (past @ [mark])"
      using Cons.prems(2) by auto
    ultimately show ?thesis using Cons.IH [OF spans] None by simp
  next
    case (Some i)
    then have i: "i < length spans" "?us ! i = im_uid mark" using Cons.prems(3) by blast+
    have seen: "im_uid mark \<in> im_uid ` set past" using Cons.prems(2) Some by (metis option.distinct(1))
    have us: "firsts (map im_uid (past @ [mark])) = ?us" using seen by (simp add: firsts_snoc)
    have spans: "spans[i := (spans ! i)\<lparr>in_LastSeen := im_ts mark, in_Deleted := in_Deleted (spans ! i) \<or> im_deleted mark\<rparr>] =
        map (summary (past @ [mark])) (firsts (map im_uid (past @ [mark])))"
    proof (rule nth_equalityI)
      fix j assume j: "j < length (spans[i := (spans ! i)\<lparr>in_LastSeen := im_ts mark, in_Deleted := in_Deleted (spans ! i) \<or> im_deleted mark\<rparr>])"
      then have lt: "j < length ?us" "i < length ?us" using Cons.prems(1) i(1) by simp_all
      have "?us ! j \<noteq> im_uid mark" if "j \<noteq> i" using that lt i(2) nth_eq_iff_index_eq [of ?us j i] by auto
      then show "spans[i := (spans ! i)\<lparr>in_LastSeen := im_ts mark, in_Deleted := in_Deleted (spans ! i) \<or> im_deleted mark\<rparr>] ! j =
          map (summary (past @ [mark])) (firsts (map im_uid (past @ [mark]))) ! j"
        unfolding us using lt i(2) Cons.prems(1) summary_seen [OF seen] by (cases "j = i") (simp_all add: summary_other)
    qed (simp only: length_list_update length_map us Cons.prems(1))
    have "\<forall>uid. gm_get at uid = None \<longleftrightarrow> uid \<notin> im_uid ` set (past @ [mark])" using Cons.prems(2) seen by auto
    with Cons.IH [OF spans] Cons.prems(3) Some show ?thesis unfolding us by simp
  qed
qed simp

text \<open>
  The incarnations a window lists are exactly the uids recorded for the name, each once and in the order first
  seen, with the first and the last instant recorded for it and whether any of its records is a deletion.
\<close>

theorem incarnations_summarise_marks:
  "spansOf marks = map (summary marks) (firsts (map im_uid marks)) \<and> distinct (map in_UID (spansOf marks))
    \<and> set (map in_UID (spansOf marks)) = im_uid ` set marks"
proof -
  have "spansOf marks = map (summary marks) (firsts (map im_uid marks))"
    using spansLoop_summary [of "[]" "[]" "[]" marks] by (simp add: spansOf_def)
  moreover have "in_UID \<circ> summary marks = id" by (auto simp: summary_def Let_def)
  ultimately show ?thesis by simp
qed

end
