(* ===== verification/ArchiveState.thy ===== *)
theory ArchiveState
  imports ArchiveTimeline
begin

text \<open>
  State reconstruction over the archive (\<open>internal/query/objectsource/state.go\<close>): the walk back over the days
  before an instant until a base row is settled, and the replay over what it collected. The days not
  read hold nothing that could change the answer.
\<close>

section \<open>The walk\<close>

definition replayRows :: "Change list \<Rightarrow> string \<Rightarrow> ReplayRow list" where
  "replayRows changes uid =
     map (\<lambda>c. \<lparr>rr_TS = ch_TS c, rr_EventType = ch_EventType c, rr_Data = ch_Data c, rr_Diff = ch_Diff c, rr_SHA256 = ch_SHA256 c\<rparr>)
       (filter (\<lambda>c. \<not> ch_UID c \<noteq> uid) changes)"

definition baseIsSettled :: "Engine \<Rightarrow> go_time \<Rightarrow> Change list \<Rightarrow> string \<Rightarrow> bool" where
  "baseIsSettled e day collected uid =
     (let history = replayRows collected uid
      in case BaseRow history of None \<Rightarrow> False | Some base \<Rightarrow> day < dayStart (rr_TS (history ! base) - en_objectSpan e))"

definition addDayChanges :: "string \<Rightarrow> Change list \<Rightarrow> Change list \<times> string \<Rightarrow> Change list \<times> string" where
  "addDayChanges uid changes cr =
     (case cr of (collected, resolved) \<Rightarrow>
        if changes \<noteq> [] then
          (let collected = sort_key ch_TS (collected @ changes) in (collected, if uid = [] then ch_UID (last collected) else resolved))
        else (collected, resolved))"

function walkDays ::
    "Engine \<Rightarrow> scan_env \<Rightarrow> recordScan \<Rightarrow> string \<Rightarrow> go_time \<Rightarrow> string \<Rightarrow> go_time \<Rightarrow> go_time \<Rightarrow> Change list \<times> string \<Rightarrow>
     query_error + (Change list \<times> string)" where
  "walkDays e env s root at uid earliest day cr =
     (if day < earliest then Inr cr
      else let (err, accs) = scanPartitions e env (scan_decode env s) ta_zero (dayPrefixes root day at)
           in if err \<noteq> [] then Inl (ScanFailed err)
              else let cr = addDayChanges uid (concat (map ta_changes accs)) cr
                   in if baseIsSettled e day (fst cr) (snd cr) then Inr cr
                      else walkDays e env s root at uid earliest (addDays (- 1) day) cr)"
  by pat_completeness auto
termination
proof (relation "measure (\<lambda>(e, env, s, root, at, uid, earliest, day, cr). nat (day + 1 - earliest))")
  fix earliest day :: go_time and e :: Engine and env :: scan_env and s :: recordScan and root uid :: string and at :: go_time
    and cr cr' :: "Change list \<times> string"
  assume "\<not> day < earliest"
  moreover have "addDays (- 1) day < day" by (simp add: addDays_eq day_of_hours)
  ultimately show "((e, env, s, root, at, uid, earliest, addDays (- 1) day, cr'), e, env, s, root, at, uid, earliest, day, cr)
      \<in> measure (\<lambda>(e, env, s, root, at, uid, earliest, day, cr). nat (day + 1 - earliest))" by simp
qed simp

declare walkDays.simps [simp del]

definition stateScan :: "ObjectRef \<Rightarrow> go_time \<Rightarrow> recordScan" where
  "stateScan ref at = \<lparr>rs_ref = ref, rs_from = 0, rs_to = at, rs_keep = None, rs_retain = True, rs_events = False, rs_subjects = []\<rparr>"

definition walkBack :: "Engine \<Rightarrow> scan_env \<Rightarrow> ObjectRef \<Rightarrow> go_time \<Rightarrow> string \<Rightarrow> query_error + (Change list \<times> string)" where
  "walkBack e env ref at uid =
     walkDays e env (stateScan ref at) (recordsRoot (en_prefix e) (or_ClusterID ref)) at uid (dayStart (at - en_stateLookback e)) (dayStart at) ([], uid)"

definition reconstruct :: "'p patch_lib \<Rightarrow> ReplayRow list \<Rightarrow> query_error + Reconstruction" where
  "reconstruct lib history =
     (if history = [] then Inl ObjectNotFound
      else if list_ex (\<lambda>row. rr_EventType row = EventDeleted) history then Inl ObjectNotFound
      else case BaseRow history of
             None \<Rightarrow> Inl ObjectNotFound
           | Some base \<Rightarrow> (case Replay lib history base of Inl err \<Rightarrow> Inl (ReplayFailed err) | Inr rc \<Rightarrow> Inr rc))"

definition StateAt :: "Engine \<Rightarrow> scan_env \<Rightarrow> 'p patch_lib \<Rightarrow> ObjectRef \<Rightarrow> go_time \<Rightarrow> string \<Rightarrow> query_error + Reconstruction" where
  "StateAt e env lib ref at uid =
     (case ensureOpen e of
        Some err \<Rightarrow> Inl err
      | None \<Rightarrow>
          if at = 0 then Inl ZeroInstant
          else case walkBack e env ref at uid of
                 Inl err \<Rightarrow> Inl err
               | Inr (collected, resolved) \<Rightarrow> reconstruct lib (replayRows collected resolved))"

section \<open>The walk without its stopping rule\<close>

text \<open>Every change of the object at or before the instant, day by day from the newest, down to a first day.\<close>

function dayChanges :: "Engine \<Rightarrow> scan_env \<Rightarrow> recordScan \<Rightarrow> string \<Rightarrow> go_time \<Rightarrow> go_time \<Rightarrow> go_time \<Rightarrow> Change list" where
  "dayChanges e env s root at earliest day =
     (if day < earliest then []
      else concat (map (\<lambda>r. ta_changes (snd r)) (readAll env (scan_decode env s) ta_zero (dayPrefixes root day at)))
           @ dayChanges e env s root at earliest (addDays (- 1) day))"
  by pat_completeness auto
termination
proof (relation "measure (\<lambda>(e, env, s, root, at, earliest, day). nat (day + 1 - earliest))")
  fix earliest day at :: go_time and e :: Engine and env :: scan_env and s :: recordScan and root :: string
  assume "\<not> day < earliest"
  moreover have "addDays (- 1) day < day" by (simp add: addDays_eq day_of_hours)
  ultimately show "((e, env, s, root, at, earliest, addDays (- 1) day), e, env, s, root, at, earliest, day)
      \<in> measure (\<lambda>(e, env, s, root, at, earliest, day). nat (day + 1 - earliest))" by simp
qed simp

declare dayChanges.simps [simp del]

text \<open>The history a reconstruction is entitled to: everything recorded within the lookback, of one incarnation.\<close>

definition fullHistory :: "Engine \<Rightarrow> scan_env \<Rightarrow> ObjectRef \<Rightarrow> go_time \<Rightarrow> string \<Rightarrow> ReplayRow list" where
  "fullHistory e env ref at uid =
     (let changes = sort_key ch_TS (dayChanges e env (stateScan ref at) (recordsRoot (en_prefix e) (or_ClusterID ref)) at
                      (dayStart (at - en_stateLookback e)) (dayStart at))
      in replayRows changes (if uid = [] \<and> changes \<noteq> [] then ch_UID (last changes) else uid))"

section \<open>Older rows do not change a replay\<close>

lemma filter_key_sort: "filter (\<lambda>x. k = f x) (sort_key f xs) = filter (\<lambda>x. k = f x) xs"
  for f :: "'a \<Rightarrow> 'b :: linorder"
  unfolding filter_sort by (rule sort_key_same [of _ _ k]) simp

lemma sort_key_append_sort: "sort_key f (sort_key f xs @ ys) = sort_key f (xs @ ys)" for f :: "'a \<Rightarrow> 'b :: linorder"
  by (rule properties_for_sort_key) (simp_all add: filter_key_sort)

lemma baseFrom_append: "baseFrom n hi = Some b \<Longrightarrow> baseFrom (length lo + n) (lo @ hi) = Some (length lo + b)"
  by (induction n) (auto simp: nth_append split: if_splits)

lemma BaseRow_append: "BaseRow hi = Some b \<Longrightarrow> BaseRow (lo @ hi) = Some (length lo + b)"
  by (simp add: BaseRow_def baseFrom_append)

lemma Replay_append: "b < length hi \<Longrightarrow> Replay lib (lo @ hi) (length lo + b) = Replay lib hi b"
  unfolding Replay_def nth_append_length_plus by simp

lemma reconstruct_append:
  assumes "BaseRow hi = Some b" and "\<forall>row \<in> set lo. rr_EventType row \<noteq> EventDeleted"
  shows "reconstruct lib (lo @ hi) = reconstruct lib hi"
proof -
  have b: "b < length hi" using assms(1) baseFrom_spec [of "length hi" hi b] by (simp add: BaseRow_def)
  then have "hi \<noteq> []" by auto
  with assms b show ?thesis by (auto simp: reconstruct_def BaseRow_append Replay_append list_ex_iff)
qed

lemma replayRows_append: "replayRows (xs @ ys) uid = replayRows xs uid @ replayRows ys uid"
  by (simp add: replayRows_def)

lemma BaseRow_high:
  assumes "BaseRow (replayRows changes uid) = Some b" and "c \<le> rr_TS (replayRows changes uid ! b)" and "sorted (map ch_TS changes)"
  shows "\<exists>b'. BaseRow (replayRows (filter (\<lambda>x. \<not> ch_TS x < c) changes) uid) = Some b'"
proof -
  let ?h = "replayRows changes uid" and ?hi = "replayRows (filter (\<lambda>x. \<not> ch_TS x < c) changes) uid"
  have b: "b < length ?h" "rr_Data (?h ! b) \<noteq> []" using assms(1) baseFrom_spec [of "length ?h" ?h b] by (simp_all add: BaseRow_def)
  then obtain x where x: "x \<in> set changes" "ch_UID x = uid" "?h ! b = \<lparr>rr_TS = ch_TS x, rr_EventType = ch_EventType x, rr_Data = ch_Data x,
      rr_Diff = ch_Diff x, rr_SHA256 = ch_SHA256 x\<rparr>"
    using nth_mem [OF b(1)] by (auto simp: replayRows_def)
  then have "?h ! b \<in> set ?hi" using assms(2) by (auto simp: replayRows_def not_less intro!: image_eqI [of _ _ x])
  then obtain i where "i < length ?hi" "?hi ! i = ?h ! b" by (auto simp: in_set_conv_nth)
  with b(2) baseFrom_exists [of i "length ?hi" ?hi] show ?thesis by (simp add: BaseRow_def)
qed

text \<open>The state of the walk after some changes have been read.\<close>

definition walk_state :: "string \<Rightarrow> Change list \<Rightarrow> Change list \<times> string" where
  "walk_state uid xs = (sort_key ch_TS xs, if uid = [] \<and> xs \<noteq> [] then ch_UID (last (sort_key ch_TS xs)) else uid)"

lemma addDayChanges_state: "addDayChanges uid changes (walk_state uid xs) = walk_state uid (xs @ changes)"
  by (auto simp: addDayChanges_def walk_state_def sort_key_append_sort Let_def)

lemma settled_reconstruct:
  assumes "baseIsSettled e day (fst (walk_state uid xs)) (snd (walk_state uid xs))" and "0 \<le> en_objectSpan e"
    and "\<forall>x \<in> set rest. ch_TS x < day + en_objectSpan e" and "\<forall>x \<in> set (xs @ rest). ch_EventType x \<noteq> EventDeleted"
  shows "reconstruct lib (replayRows (fst (walk_state uid (xs @ rest))) (snd (walk_state uid (xs @ rest)))) =
    reconstruct lib (replayRows (fst (walk_state uid xs)) (snd (walk_state uid xs)))"
proof -
  let ?c = "day + en_objectSpan e" and ?u = "snd (walk_state uid xs)"
  let ?hi = "filter (\<lambda>x. \<not> ch_TS x < ?c) xs"
  obtain b where b: "BaseRow (replayRows (sort_key ch_TS xs) ?u) = Some b" "day < dayStart (rr_TS (replayRows (sort_key ch_TS xs) ?u ! b) - en_objectSpan e)"
    using assms(1) by (auto simp: baseIsSettled_def walk_state_def Let_def split: option.splits)
  have "dayStart t \<le> t" for t unfolding dayStart_eq by (simp add: minus_mod_eq_div_mult [symmetric] day_of_hours)
  with b(2) have c: "?c \<le> rr_TS (replayRows (sort_key ch_TS xs) ?u ! b)" by (smt (verit))
  obtain b' where b': "BaseRow (replayRows (sort_key ch_TS ?hi) ?u) = Some b'"
    using BaseRow_high [OF b(1) c] by (auto simp: filter_sort)
  have hi: "filter (\<lambda>x. \<not> ch_TS x < ?c) (xs @ rest) = ?hi" using assms(3) by (simp add: filter_empty_conv)
  have ne: "?hi \<noteq> []" using b' by (auto simp: replayRows_def BaseRow_def)
  have "last (sort_key ch_TS (xs @ rest)) = last (sort_key ch_TS xs)" by (rule last_sort_above [OF hi ne])
  then have u: "snd (walk_state uid (xs @ rest)) = ?u" using ne by (auto simp: walk_state_def)
  have rec: "reconstruct lib (replayRows (sort_key ch_TS zs) ?u) = reconstruct lib (replayRows (sort_key ch_TS ?hi) ?u)"
    if "filter (\<lambda>x. \<not> ch_TS x < ?c) zs = ?hi" "\<forall>x \<in> set zs. ch_EventType x \<noteq> EventDeleted" for zs
  proof -
    have "reconstruct lib (replayRows (sort_key ch_TS (filter (\<lambda>x. ch_TS x < ?c) zs)) ?u @ replayRows (sort_key ch_TS ?hi) ?u) =
        reconstruct lib (replayRows (sort_key ch_TS ?hi) ?u)"
      using that(2) by (intro reconstruct_append [OF b']) (auto simp: replayRows_def)
    moreover have "sort_key ch_TS zs = sort_key ch_TS (filter (\<lambda>x. ch_TS x < ?c) zs) @ sort_key ch_TS ?hi"
      using sort_key_split [of ch_TS zs ?c] unfolding that(1) .
    ultimately show ?thesis by (simp only: replayRows_append)
  qed
  have "fst (walk_state uid zs) = sort_key ch_TS zs" for zs by (simp add: walk_state_def)
  with rec [OF hi] rec [of xs] assms(4) show ?thesis by (simp add: u)
qed

section \<open>What the unread days hold\<close>

lemma hoursThrough_hours:
  "p \<in> set (hoursThrough root cur last_hour) \<Longrightarrow> \<exists>t. cur \<le> t \<and> t \<le> last_hour \<and> p = pt_prefix (hourPartition root t)"
proof (induction root cur last_hour rule: hoursThrough.induct)
  case (1 root cur last_hour)
  show ?case
  proof (cases "cur > last_hour \<or> p = pt_prefix (hourPartition root cur)")
    case True
    then show ?thesis using "1.prems" by (subst (asm) hoursThrough.simps) (auto split: if_splits)
  next
    case False
    then have "p \<in> set (hoursThrough root (cur + nsPerHour) last_hour)"
      using "1.prems" by (subst (asm) hoursThrough.simps) (auto split: if_splits)
    with "1.IH" False obtain t where "cur + nsPerHour \<le> t" "t \<le> last_hour" "p = pt_prefix (hourPartition root t)" by auto
    moreover have "cur \<le> cur + nsPerHour" using nsPerHour_pos by (simp add: less_imp_le)
    ultimately show ?thesis by (blast intro: order_trans)
  qed
qed

lemma dayPrefixes_day:
  assumes "p \<in> set (dayPrefixes root day at)" and "has_prefix (root @ keyTail first h) p" and "dayStart day = day"
  shows "dayStart first = day" "has_prefix p root"
proof -
  have cases: "p = pt_prefix (dayPartition root day) \<or>
      (\<exists>t. day \<le> t \<and> t < day + (hoursPerDay - 1) * nsPerHour \<and> p = pt_prefix (hourPartition root t))"
    using assms(1) hoursThrough_hours [of p root day "hourStart at"]
    by (fastforce simp: dayPrefixes_def Let_def assms(3) split: if_splits)
  then show "dayStart first = day"
  proof
    assume "p = pt_prefix (dayPartition root day)"
    with assms(2,3) show ?thesis by (simp add: day_prefix_matches)
  next
    assume "\<exists>t. day \<le> t \<and> t < day + (hoursPerDay - 1) * nsPerHour \<and> p = pt_prefix (hourPartition root t)"
    then obtain t where t: "day \<le> t" "t < day + (hoursPerDay - 1) * nsPerHour" "p = pt_prefix (hourPartition root t)" by blast
    then have "t < addDays 1 day" by (simp add: addDays_eq day_of_hours hoursPerDay_def)
    with t(1) hour_in_day [of t day] have "dayStart t = day" by (simp add: assms(3))
    moreover have "dayStart first = dayStart t" using assms(2) t(3) hour_prefix_matches same_hour_iff by metis
    ultimately show ?thesis by simp
  qed
  show "has_prefix p root" using cases by (auto simp: dayPartition_def hourPartition_def has_prefix_def)
qed

lemma dayStart_previous: "dayStart day = day \<Longrightarrow> dayStart (addDays (- 1) day) = addDays (- 1) day"
proof -
  assume "dayStart day = day"
  then have "addDays (- 1) day = (day div nsPerDay - 1) * nsPerDay" by (simp add: dayStart_eq addDays_eq left_diff_distrib)
  then show ?thesis by (simp add: dayStart_eq day_of_hours)
qed

lemma day_before_next: "dayStart t = day \<Longrightarrow> t < addDays 1 day"
  using hour_in_day [of t t] by simp

lemma dayChanges_below:
  assumes "spans_respected e env cl" and "root = recordsRoot (en_prefix e) cl" and "dayStart day = day"
    and "x \<in> set (dayChanges e env s root at earliest day)"
  shows "ch_TS x < addDays 1 day + en_objectSpan e"
  using assms(3,4)
proof (induction "nat (day + 1 - earliest)" arbitrary: day rule: less_induct)
  case less
  have nl: "\<not> day < earliest" using less.prems(2) by (subst (asm) dayChanges.simps) (auto split: if_splits)
  have prev: "addDays (- 1) day < day" "addDays 1 (addDays (- 1) day) = day" by (simp_all add: addDays_eq day_of_hours)
  consider (here) r where "r \<in> set (readAll env (scan_decode env s) ta_zero (dayPrefixes root day at))" "x \<in> set (ta_changes (snd r))"
    | (older) "x \<in> set (dayChanges e env s root at earliest (addDays (- 1) day))"
    using less.prems(2) by (subst (asm) dayChanges.simps) (auto simp: nl)
  then show ?case
  proof cases
    case older
    have "ch_TS x < addDays 1 (addDays (- 1) day) + en_objectSpan e"
      using less.hyps [OF _ dayStart_previous [OF less.prems(1)] older] nl prev(1) by simp
    moreover have "day < addDays 1 day" using day_before_next [OF less.prems(1)] by simp
    ultimately show ?thesis by (simp add: prev(2))
  next
    case here
    then obtain p key where p: "p \<in> set (dayPrefixes root day at)" and key: "key \<in> set (fst (sn_List env p))" "isObjectKey key"
      and r: "snd r = fold (scan_visit s) (objectLines env key) ta_zero"
      by (auto simp: readAll_def objectsUnder_def readObject_lines)
    have kp: "has_prefix key p" using assms(1) key(1) unfolding spans_respected_def by blast
    have "has_prefix p root"
      using p hoursThrough_hours [of p root day "hourStart at"]
      by (auto simp: dayPrefixes_def Let_def less.prems(1) dayPartition_def hourPartition_def has_prefix_def split: if_splits)
    with kp assms(1) key obtain first h where f: "key = root @ keyTail first h" "\<forall>l \<in> set (objectLines env key). rec_Timestamp l \<le> first + en_objectSpan e"
      unfolding assms(2) spans_respected_def by (blast dest: has_prefix_trans)
    have "dayStart first = day" using dayPrefixes_day [OF p kp [unfolded f(1)] less.prems(1)] by blast
    then have "\<forall>l \<in> set (objectLines env key). rec_Timestamp l < addDays 1 day + en_objectSpan e"
      using f(2) day_before_next [of first day] by fastforce
    then have "below (addDays 1 day + en_objectSpan e) (snd r)"
      unfolding r by (rule fold_visit_below) (simp add: below_def ta_zero_def)
    with here(2) show ?thesis by (simp add: below_def)
  qed
qed

section \<open>The reconstruction of the whole lookback\<close>

text \<open>Every object listed opens and decodes.\<close>

definition all_readable :: "scan_env \<Rightarrow> recordScan \<Rightarrow> bool" where
  "all_readable env s \<longleftrightarrow> (\<forall>p. \<forall>key \<in> set (objectsUnder env p). fst (readObject env (scan_decode env s) key ta_zero) = [])"

lemma walkDays_stops:
  assumes "quiet env" and "all_readable env s" and "0 < en_concurrency e"
  shows "\<exists>xs rest. walkDays e env s root at uid earliest day (walk_state uid past) = Inr (walk_state uid (past @ xs))
    \<and> dayChanges e env s root at earliest day = xs @ rest
    \<and> (rest = [] \<or> (\<exists>d. (\<exists>n. d = addDays (- int n) day) \<and> rest = dayChanges e env s root at earliest (addDays (- 1) d)
        \<and> baseIsSettled e d (fst (walk_state uid (past @ xs))) (snd (walk_state uid (past @ xs)))))"
proof (induction "nat (day + 1 - earliest)" arbitrary: day past rule: less_induct)
  case less
  show ?case
  proof (cases "day < earliest")
    case True
    then show ?thesis by (subst walkDays.simps, subst dayChanges.simps) (auto intro!: exI [of _ "[]"])
  next
    case False
    let ?r = "readAll env (scan_decode env s) ta_zero (dayPrefixes root day at)"
    define ch where "ch = concat (map (\<lambda>r. ta_changes (snd r)) ?r)"
    have "first_error (map fst ?r) = []" using assms(2) by (auto simp: readAll_def all_readable_def)
    then have scan: "scanPartitions e env (scan_decode env s) ta_zero (dayPrefixes root day at) = ([], map snd ?r)"
      using scanPartitions_quiet [OF assms(3), of env "dayPrefixes root day at" "scan_decode env s" ta_zero] assms(1) by (simp add: quiet_def)
    have w: "walkDays e env s root at uid earliest day (walk_state uid past) =
        (if baseIsSettled e day (fst (walk_state uid (past @ ch))) (snd (walk_state uid (past @ ch))) then Inr (walk_state uid (past @ ch))
         else walkDays e env s root at uid earliest (addDays (- 1) day) (walk_state uid (past @ ch)))"
      using False by (subst walkDays.simps) (simp add: scan Let_def addDayChanges_state comp_def ch_def)
    have d: "dayChanges e env s root at earliest day = ch @ dayChanges e env s root at earliest (addDays (- 1) day)"
      using False by (subst dayChanges.simps) (simp add: ch_def)
    show ?thesis
    proof (cases "baseIsSettled e day (fst (walk_state uid (past @ ch))) (snd (walk_state uid (past @ ch)))")
      case True
      then have "walkDays e env s root at uid earliest day (walk_state uid past) = Inr (walk_state uid (past @ ch))" by (simp add: w)
      moreover have "day = addDays (- int 0) day" by (simp add: addDays_eq)
      ultimately show ?thesis using d True by blast
    next
      case unsettled: False
      have "nat (addDays (- 1) day + 1 - earliest) < nat (day + 1 - earliest)" using False by (simp add: addDays_eq day_of_hours)
      from less.hyps [OF this, of "past @ ch"] obtain xs rest where x:
        "walkDays e env s root at uid earliest (addDays (- 1) day) (walk_state uid (past @ ch)) = Inr (walk_state uid ((past @ ch) @ xs))"
        "dayChanges e env s root at earliest (addDays (- 1) day) = xs @ rest"
        "rest = [] \<or> (\<exists>d. (\<exists>n. d = addDays (- int n) (addDays (- 1) day)) \<and> rest = dayChanges e env s root at earliest (addDays (- 1) d)
          \<and> baseIsSettled e d (fst (walk_state uid ((past @ ch) @ xs))) (snd (walk_state uid ((past @ ch) @ xs))))" by blast
      have "addDays (- int n) (addDays (- 1) day) = addDays (- int (Suc n)) day" for n by (simp add: addDays_eq algebra_simps)
      with x(3) have "rest = [] \<or> (\<exists>d. (\<exists>n. d = addDays (- int n) day) \<and> rest = dayChanges e env s root at earliest (addDays (- 1) d)
          \<and> baseIsSettled e d (fst (walk_state uid (past @ ch @ xs))) (snd (walk_state uid (past @ ch @ xs))))"
        unfolding append.assoc by metis
      moreover have "walkDays e env s root at uid earliest day (walk_state uid past) = Inr (walk_state uid (past @ ch @ xs))"
        using w x(1) unsettled by simp
      moreover have "dayChanges e env s root at earliest day = (ch @ xs) @ rest" using d x(2) by simp
      ultimately show ?thesis by blast
    qed
  qed
qed

lemma dayStart_back: "dayStart (addDays (- int n) (dayStart t)) = addDays (- int n) (dayStart t)"
proof -
  have "addDays (- int n) (dayStart t) = (t div nsPerDay - int n) * nsPerDay" by (simp add: dayStart_eq addDays_eq left_diff_distrib)
  then show ?thesis by (simp add: dayStart_eq day_of_hours)
qed

lemma dayChanges_events:
  assumes "x \<in> set (dayChanges e env s root at earliest day)" and "\<forall>key. \<forall>l \<in> set (objectLines env key). rec_EventType l \<noteq> EventDeleted"
  shows "ch_EventType x \<noteq> EventDeleted"
proof -
  have visit: "\<forall>c \<in> set (ta_changes (fold (scan_visit s) ls acc)). ch_EventType c \<noteq> EventDeleted"
    if "\<forall>l \<in> set ls. rec_EventType l \<noteq> EventDeleted" "\<forall>c \<in> set (ta_changes acc). ch_EventType c \<noteq> EventDeleted" for ls acc
    using that
  proof (induction ls arbitrary: acc)
    case (Cons l ls)
    have "\<forall>c \<in> set (ta_changes (scan_visit s l acc)). ch_EventType c \<noteq> EventDeleted"
      using Cons.prems by (auto simp: scan_visit_def line_change_def Let_def split: option.splits)
    with Cons show ?case by simp
  qed simp
  have one: "\<forall>c \<in> set (ta_changes (fold (scan_visit s) (objectLines env key) ta_zero)). ch_EventType c \<noteq> EventDeleted" for key
    using visit [of "objectLines env key" ta_zero] assms(2) by (simp add: ta_zero_def)
  show ?thesis using assms(1)
  proof (induction "nat (day + 1 - earliest)" arbitrary: day rule: less_induct)
    case less
    have nl: "\<not> day < earliest" using less.prems by (subst (asm) dayChanges.simps) (auto split: if_splits)
    have "nat (addDays (- 1) day + 1 - earliest) < nat (day + 1 - earliest)" using nl by (simp add: addDays_eq day_of_hours)
    moreover have "\<forall>c \<in> set (ta_changes (snd r)). ch_EventType c \<noteq> EventDeleted" if "r \<in> set (readAll env (scan_decode env s) ta_zero ps)" for r ps
      using that one by (auto simp: readAll_def readObject_lines)
    ultimately show ?case using less.prems less.hyps [of "addDays (- 1) day"] by (subst (asm) dayChanges.simps) (auto simp: nl)
  qed
qed


text \<open>The object of the second of March, reconstructed at the third; no patch is needed.\<close>

definition noPatches :: "unit patch_lib" where
  "noPatches = \<lparr>DecodePatch = \<lambda>_. None, PatchApply = \<lambda>_ _. None\<rparr>"

lemma stored_reads:
  assumes "Encode framing ''audit'' [(False, sampleRecord (march 2 9) data)] = Inr obj"
  shows "all_readable (stored [(obj_Key obj, obj_Payload obj)]) s"
proof -
  let ?env = "stored [(obj_Key obj, obj_Payload obj)]"
  have wf: "\<forall>(isnil, r) \<in> set [(False, sampleRecord (march 2 9) data)]. gm_wf (rec_Labels r)" by (simp add: sampleRecord_def gm_wf_def)
  have "snd (scan_decode ?env s (obj_Payload obj) ta_zero)"
    using decodeFrame_written [OF framing_ok stored_reader assms wf, where visit = "scan_visit s" and acc = ta_zero] by (simp add: scan_decode_def)
  moreover have "sn_Open ?env (obj_Key obj) = Opened (obj_Payload obj) True" by (simp add: stored_def)
  ultimately have "fst (readObject ?env (scan_decode ?env s) (obj_Key obj) ta_zero) = []" by (simp add: readObject_def case_prod_beta)
  moreover have "set (objectsUnder ?env p) \<subseteq> {obj_Key obj}" for p by (auto simp: objectsUnder_def stored_def)
  ultimately show ?thesis unfolding all_readable_def by blast
qed


section \<open>A record filed under a later hour\<close>

lemma dayPrefixes_hour:
  assumes "p \<in> set (dayPrefixes root day at)" and "has_prefix (root @ keyTail first h) p" and "dayStart day = day"
  shows "hourStart first \<le> hourStart at"
proof (cases "\<not> hourStart at < day + (hoursPerDay - 1) * nsPerHour")
  case True
  have d: "dayStart first = day" by (rule dayPrefixes_day(1) [OF assms])
  define k where "k = first div nsPerDay"
  have day: "day = 24 * k * nsPerHour" using d by (simp add: dayStart_eq k_def day_of_hours)
  have "first div nsPerHour div 24 = k" by (simp add: k_def day_of_hours zdiv_zmult2_eq [symmetric] mult.commute)
  moreover have "x div 24 = k \<Longrightarrow> x \<le> 24 * k + 23" for x :: int by presburger
  ultimately have "first div nsPerHour \<le> 24 * k + 23" by blast
  moreover have "(24 * k + 23) * nsPerHour \<le> at div nsPerHour * nsPerHour"
    using True by (simp add: day hourStart_eq hoursPerDay_def distrib_right)
  ultimately have "first div nsPerHour \<le> at div nsPerHour" by (simp only: hour_cancel)
  then show ?thesis by (simp add: hourStart_eq)
next
  case False
  then have "p \<in> set (hoursThrough root day (hourStart at))"
    using assms(1,3) by (auto simp: dayPrefixes_def Let_def split: if_splits)
  then obtain t where t: "t \<le> hourStart at" "p = pt_prefix (hourPartition root t)" using hoursThrough_hours by blast
  have "hourStart first = hourStart t" using assms(2) t(2) hour_prefix_matches by metis
  moreover have "t div nsPerHour \<le> at div nsPerHour"
    using zdiv_mono1 [OF t(1) nsPerHour_pos] by (simp add: hourStart_eq)
  ultimately show ?thesis by (simp add: hourStart_eq)
qed

text \<open>
  The pruning misses a record that reached its object after one of a later hour. The encoder files an object under
  its first record and accepts earlier ones after it; the reader takes it that an object never holds a record from before
  its first. So of a batch whose first record is in a later hour than the instant, a record at or before the instant is
  in the archive and decodes, and no prefix the reconstruction lists for any day matches the object's key.
\<close>

theorem late_filed_record_is_missed:
  assumes "codec_ok z" and "Encode z pfx ((n, first) # rest) = Inr obj" and "\<forall>(isnil, r) \<in> set ((n, first) # rest). gm_wf (rec_Labels r)"
    and "plain_segment pfx" and "plain_segment (rec_ClusterID first)" and "(n', r) \<in> set rest"
    and "rec_Timestamp r \<le> at" and "hourStart at < hourStart (rec_Timestamp first)"
  shows "(\<exists>rs. Decode z (obj_Payload obj) = Inr rs \<and> canonical_record r \<in> set rs)
    \<and> (\<forall>day. dayStart day = day \<longrightarrow>
         list_all (\<lambda>p. \<not> has_prefix (obj_Key obj) p) (dayPrefixes (recordsRoot pfx (rec_ClusterID first)) day at))"
proof -
  obtain jsonl where j: "decompress z (obj_Payload obj) = Inr jsonl"
    "decodeLines decodeRecord jsonl = Some (map (\<lambda>(isnil, r). canonical_record r) ((n, first) # rest))"
    "obj_Key obj = objectKey pfx (rec_ClusterID first) (rec_Timestamp first) (sha256_hex jsonl)"
    using encoded_object [OF assms(1-3)] by (auto simp del: list.map)
  have "Decode z (obj_Payload obj) = Inr (map (\<lambda>(isnil, r). canonical_record r) ((n, first) # rest))" by (simp add: Decode_def j(1,2))
  moreover have "canonical_record r \<in> set (map (\<lambda>(isnil, r). canonical_record r) ((n, first) # rest))" using assms(6) by force
  moreover have "\<not> has_prefix (obj_Key obj) p" if "p \<in> set (dayPrefixes (recordsRoot pfx (rec_ClusterID first)) day at)" "dayStart day = day" for day p
    using dayPrefixes_hour [OF that(1) _ that(2)] assms(8) unfolding j(3) objectKey_under_root [OF assms(4,5)] by fastforce
  ultimately show ?thesis by (simp add: list_all_iff)
qed

theorem late_filed_record_is_missed_witness:
  "\<exists>(obj :: archiveObject) rs. Decode framing (obj_Payload obj) = Inr rs \<and> sampleRecord (march 2 9) ''{}'' \<in> set rs
     \<and> list_all (\<lambda>p. \<not> has_prefix (obj_Key obj) p) (dayPrefixes (recordsRoot ''audit'' ''prod'') (march 2 0) (march 2 9))"
proof -
  let ?a = "sampleRecord (march 2 10) ''{}''" and ?b = "sampleRecord (march 2 9) ''{}''"
  have "yearInRange (march 2 10)" "yearInRange (march 2 9)" by code_simp+
  then obtain la lb where "marshalRecordLine False ?a = Some la" "marshalRecordLine False ?b = Some lb"
    by (auto simp: marshalRecordLine_def line_time_def sampleRecord_fields)
  then obtain obj where obj: "Encode framing ''audit'' [(False, ?a), (False, ?b)] = Inr obj"
    by (simp add: Encode_def framing_def Let_def sampleRecord_fields)
  have wf: "\<forall>(isnil, r) \<in> set [(False, ?a), (False, ?b)]. gm_wf (rec_Labels r)" by (simp add: sampleRecord_def gm_wf_def)
  have t: "march 2 9 \<le> march 2 9" "hourStart (march 2 9) < hourStart (march 2 10)" "dayStart (march 2 0) = march 2 0" by code_simp+
  have "canonical_record ?b = ?b" by (simp add: canonical_record_def sampleRecord_def)
  then show ?thesis
    using late_filed_record_is_missed [OF framing_ok obj wf, of False ?b "march 2 9"] t
    by (simp add: sampleRecord_fields plain_segment_def) blast
qed

end
