(* ===== verification/ScopeBatch.thy ===== *)
theory ScopeBatch
  imports Warm SinkPool
begin

text \<open>
  What the scope-transition writers of the two sinks share (\<open>internal/sink/s3/scopewriter.go\<close> and its copy in
  \<open>internal/sink/clickhouse/scopewriter.go\<close>): the hand-off queue, the batch one worker fills, its two timers and
  the bounded retry queue. How a batch is written is the argument \<open>flush\<close> of the worker's loop; what a flush
  may do is the locale \<open>scope_flush\<close>, from which the accounts of every transition follow.
\<close>

section \<open>The worker\<close>

definition scopeBatchMaxRows :: nat where "scopeBatchMaxRows = 64"

definition scopeRetryQueueMaxLen :: nat where "scopeRetryQueueMaxLen = 4096"

definition scopeQueueSize :: nat where "scopeQueueSize = 2048"

text \<open>
  The single scope worker: its batch, the retry queue, whether the batch timer is armed, and what the
  backend took. The batches written, what was dropped and what was received are kept as history.
\<close>

record 'p scope_worker =
  sk_batch :: "ScopeEvent list"
  sk_retries :: "ScopeEvent list"
  sk_timer :: bool
  sk_puts :: "'p list"
  sk_flushes :: nat
  sk_written :: "ScopeEvent list list"
  sk_dropped :: "ScopeEvent list"
  sk_taken :: "ScopeEvent list"

definition scope_worker_new :: "'p scope_worker" where
  "scope_worker_new =
     \<lparr>sk_batch = [], sk_retries = [], sk_timer = False, sk_puts = [], sk_flushes = 0, sk_written = [], sk_dropped = [], sk_taken = []\<rparr>"

definition EnqueueScopeEvent ::
    "bool \<Rightarrow> select_answer \<Rightarrow> ScopeEvent \<Rightarrow> ScopeEvent list \<Rightarrow> enqueue_error option \<times> ScopeEvent list" where
  "EnqueueScopeEvent closing answer event queue =
     (if closing then (Some RefusedClosing, queue)
      else if answer = SelContextDone then (Some ContextDone, queue)
      else if answer = SelTimeout \<or> length queue \<ge> scopeQueueSize then (Some QueueStillFull, queue)
      else (None, queue @ [event]))"

definition queueScopeRetries :: "ScopeEvent list \<Rightarrow> 'p scope_worker \<Rightarrow> 'p scope_worker" where
  "queueScopeRetries batch w =
     (let retries = sk_retries w @ batch; overflow = length retries - scopeRetryQueueMaxLen
      in w\<lparr>sk_retries := drop overflow retries, sk_dropped := sk_dropped w @ take overflow retries\<rparr>)"

definition takeScopeRetries :: "'p scope_worker \<Rightarrow> ScopeEvent list \<times> 'p scope_worker" where
  "takeScopeRetries w = (sk_retries w, w\<lparr>sk_retries := []\<rparr>)"

datatype scope_worker_event = ScopeReceived ScopeEvent | ScopeBatchTimer | ScopeRetryTick | ScopeQueueClosed

fun scope_worker_loop ::
    "(ScopeEvent list \<Rightarrow> 'p scope_worker \<Rightarrow> 'p scope_worker) \<Rightarrow> scope_worker_event \<Rightarrow> 'p scope_worker \<Rightarrow> 'p scope_worker" where
  "scope_worker_loop flush (ScopeReceived event) w =
     (let w = w\<lparr>sk_batch := sk_batch w @ [event], sk_taken := sk_taken w @ [event]\<rparr>;
          w = (if length (sk_batch w) = 1 then w\<lparr>sk_timer := True\<rparr> else w)
      in if length (sk_batch w) \<ge> scopeBatchMaxRows
         then (flush (sk_batch w) w)\<lparr>sk_batch := [], sk_timer := False\<rparr> else w)"
| "scope_worker_loop flush ScopeBatchTimer w =
     (if sk_timer w then (flush (sk_batch w) w)\<lparr>sk_batch := [], sk_timer := False\<rparr> else w)"
| "scope_worker_loop flush ScopeRetryTick w =
     (let (pending, w) = takeScopeRetries w
      in if pending \<noteq> [] then (flush (pending @ sk_batch w) w)\<lparr>sk_batch := [], sk_timer := False\<rparr> else w)"
| "scope_worker_loop flush ScopeQueueClosed w =
     (let (pending, w) = takeScopeRetries w; batch = sk_batch w @ pending
      in (flush batch w)\<lparr>sk_batch := [], sk_timer := False\<rparr>)"

section \<open>Accounting for every transition\<close>

text \<open>A transition is dropped only when it cannot be written or more are outstanding than the retry queue holds.\<close>

definition drop_excused :: "(ScopeEvent \<Rightarrow> bool) \<Rightarrow> 'p scope_worker \<Rightarrow> bool" where
  "drop_excused writable w \<longleftrightarrow>
     (\<exists>e \<in> set (sk_taken w). \<not> writable e) \<or> length (sk_taken w) > scopeRetryQueueMaxLen"

text \<open>Every transition received is written, held in order, or dropped; nothing is held twice.\<close>

definition scope_accounts :: "('p \<Rightarrow> ScopeEvent list \<Rightarrow> bool) \<Rightarrow> (ScopeEvent \<Rightarrow> bool) \<Rightarrow> 'p scope_worker \<Rightarrow> bool" where
  "scope_accounts holds writable w \<longleftrightarrow>
     mset (sk_taken w) = mset (concat (sk_written w)) + mset (sk_retries w) + mset (sk_batch w) + mset (sk_dropped w)
     \<and> length (sk_retries w) \<le> scopeRetryQueueMaxLen
     \<and> subseq (sk_retries w @ sk_batch w) (sk_taken w)
     \<and> (\<forall>b \<in> set (sk_written w). subseq b (sk_taken w) \<and> (\<exists>p \<in> set (sk_puts w). holds p b))
     \<and> (sk_dropped w \<noteq> [] \<longrightarrow> drop_excused writable w)"

lemma queueScopeRetries_parts:
  "sk_dropped (queueScopeRetries b w) @ sk_retries (queueScopeRetries b w) = sk_dropped w @ sk_retries w @ b"
  "length (sk_retries (queueScopeRetries b w)) \<le> scopeRetryQueueMaxLen"
  "subseq (sk_retries (queueScopeRetries b w)) (sk_retries w @ b)"
  "sk_written (queueScopeRetries b w) = sk_written w" "sk_puts (queueScopeRetries b w) = sk_puts w"
  "sk_taken (queueScopeRetries b w) = sk_taken w" "sk_batch (queueScopeRetries b w) = sk_batch w"
  "sk_timer (queueScopeRetries b w) = sk_timer w"
  by (simp_all add: queueScopeRetries_def Let_def suffix_imp_subseq suffix_drop del: drop_append take_append)

lemma receive_accounts:
  assumes "scope_accounts holds writable w"
  shows "scope_accounts holds writable (w\<lparr>sk_batch := sk_batch w @ [e], sk_taken := sk_taken w @ [e], sk_timer := t\<rparr>)"
proof -
  note acc = assms [unfolded scope_accounts_def]
  have "subseq (sk_retries w @ sk_batch w @ [e]) (sk_taken w @ [e])" using acc subseq_append [of "sk_retries w @ sk_batch w" "[e]" "sk_taken w"] by simp
  moreover have "\<forall>b \<in> set (sk_written w). subseq b (sk_taken w @ [e])" using acc by (auto intro: subseq_order.order_trans)
  ultimately show ?thesis using acc by (auto simp: scope_accounts_def drop_excused_def)
qed

text \<open>The timer is armed exactly while a batch is being filled, and a full batch is never left unwritten.\<close>

definition scope_batch_armed :: "'p scope_worker \<Rightarrow> bool" where
  "scope_batch_armed w \<longleftrightarrow> sk_timer w = (sk_batch w \<noteq> []) \<and> length (sk_batch w) < scopeBatchMaxRows"

definition scope_inv :: "('p \<Rightarrow> ScopeEvent list \<Rightarrow> bool) \<Rightarrow> (ScopeEvent \<Rightarrow> bool) \<Rightarrow> 'p scope_worker \<Rightarrow> bool" where
  "scope_inv holds writable w \<longleftrightarrow> scope_accounts holds writable w \<and> scope_batch_armed w"

lemma scope_inv_new: "scope_inv holds writable scope_worker_new"
  by (simp add: scope_inv_def scope_accounts_def scope_batch_armed_def scope_worker_new_def scopeBatchMaxRows_def)

text \<open>The worker after a sequence of events, each with what the outside does during it.\<close>

definition scope_run :: "('e \<Rightarrow> ScopeEvent list \<Rightarrow> 'p scope_worker \<Rightarrow> 'p scope_worker) \<Rightarrow> ('e \<times> scope_worker_event) list \<Rightarrow> 'p scope_worker" where
  "scope_run flush evs = fold (\<lambda>(env, ev). scope_worker_loop (flush env) ev) evs scope_worker_new"

lemma scope_run_snoc: "scope_run flush (evs @ [(env, ev)]) = scope_worker_loop (flush env) ev (scope_run flush evs)"
  by (simp add: scope_run_def)


text \<open>
  The contract of a flush: an empty batch is left alone; a batch with an event that cannot be written may
  be dropped; otherwise the backend took the batch as a whole, or its events go to the retry queue.
\<close>

locale scope_flush =
  fixes flush :: "'e \<Rightarrow> ScopeEvent list \<Rightarrow> 'p scope_worker \<Rightarrow> 'p scope_worker"
    and holds :: "'p \<Rightarrow> ScopeEvent list \<Rightarrow> bool" and writable :: "ScopeEvent \<Rightarrow> bool"
  assumes flush_outcome:
    "b = [] \<and> flush env b w = w
     \<or> (\<exists>e \<in> set b. \<not> writable e) \<and> flush env b w = w\<lparr>sk_dropped := sk_dropped w @ b\<rparr>
     \<or> (\<exists>p puts. p \<in> set puts \<and> holds p b
          \<and> flush env b w = w\<lparr>sk_puts := sk_puts w @ puts, sk_flushes := sk_flushes w + 1, sk_written := sk_written w @ [b]\<rparr>)
     \<or> (\<exists>puts. flush env b w = queueScopeRetries b (w\<lparr>sk_puts := sk_puts w @ puts, sk_flushes := sk_flushes w + 1\<rparr>))"
begin

text \<open>A flush of the batch, or of the retries in front of the batch, keeps the accounts.\<close>

lemma scope_flush_accounts:
  assumes "scope_accounts holds writable w" and "b = sk_batch w \<and> w0 = w \<or> b = sk_retries w @ sk_batch w \<and> w0 = w\<lparr>sk_retries := []\<rparr>"
  shows "scope_accounts holds writable ((flush env b w0)\<lparr>sk_batch := [], sk_timer := False\<rparr>)"
proof -
  note acc = assms(1) [unfolded scope_accounts_def]
  have w0: "sk_taken w0 = sk_taken w" "sk_written w0 = sk_written w" "sk_puts w0 = sk_puts w" "sk_dropped w0 = sk_dropped w"
    "mset (sk_retries w0) + mset b = mset (sk_retries w) + mset (sk_batch w)" "length (sk_retries w0) \<le> scopeRetryQueueMaxLen"
    "sk_retries w0 @ b = sk_retries w @ sk_batch w"
    using assms(2) acc by auto
  have sub: "subseq (sk_retries w0 @ b) (sk_taken w)" using acc by (simp add: w0(7))
  then have sub0: "subseq (sk_retries w0) (sk_taken w)" "subseq b (sk_taken w)"
    by (auto intro: subseq_order.order_trans)
  have batch: "mset (concat (sk_written w)) + (mset (sk_retries w0) + mset b) + mset (sk_dropped w) = mset (sk_taken w)"
    using acc w0(5) by simp
  show ?thesis
  using flush_outcome [of b env w0]
  proof (elim disjE conjE exE)
    assume "b = []" "flush env b w0 = w0"
    then show ?thesis using acc sub0 batch w0 by (simp add: scope_accounts_def drop_excused_def)
  next
    assume e: "\<exists>e \<in> set b. \<not> writable e" and "flush env b w0 = w0\<lparr>sk_dropped := sk_dropped w0 @ b\<rparr>"
    moreover have "b = [] \<or> drop_excused writable w"
    proof -
      have "set b \<subseteq> set (sk_taken w)" using list_emb_set [OF sub0(2)] by (metis subsetI)
      with e show ?thesis unfolding drop_excused_def by blast
    qed
    ultimately show ?thesis using acc sub0 batch [symmetric] w0(1-4,6) by (auto simp: scope_accounts_def drop_excused_def)
  next
    fix p puts assume p: "p \<in> set puts" "holds p b"
      "flush env b w0 = w0\<lparr>sk_puts := sk_puts w0 @ puts, sk_flushes := sk_flushes w0 + 1, sk_written := sk_written w0 @ [b]\<rparr>"
    have "\<forall>b \<in> set (sk_written w). subseq b (sk_taken w) \<and> (\<exists>p \<in> set (sk_puts w @ puts). holds p b)"
      using acc by fastforce
    moreover have "sk_dropped w \<noteq> [] \<longrightarrow> drop_excused writable w" using acc by blast
    ultimately show ?thesis using p sub0 batch [symmetric] w0(1-4,6) by (auto simp: scope_accounts_def drop_excused_def)
  next
    fix puts
    define w1 where "w1 = w0\<lparr>sk_puts := sk_puts w0 @ puts, sk_flushes := sk_flushes w0 + 1\<rparr>"
    assume "flush env b w0 = queueScopeRetries b (w0\<lparr>sk_puts := sk_puts w0 @ puts, sk_flushes := sk_flushes w0 + 1\<rparr>)"
    then have eq: "flush env b w0 = queueScopeRetries b w1" by (simp add: w1_def)
    have "mset (sk_dropped (queueScopeRetries b w1)) + mset (sk_retries (queueScopeRetries b w1)) = mset (sk_dropped w) + (mset (sk_retries w0) + mset b)"
      using arg_cong [OF queueScopeRetries_parts(1) [of b w1], of mset] w0(4) by (simp add: w1_def)
    moreover have "subseq (sk_retries (queueScopeRetries b w1)) (sk_taken w)"
      using subseq_order.order_trans [OF queueScopeRetries_parts(3) [of b w1]] sub by (simp add: w1_def)
    moreover have "\<forall>b \<in> set (sk_written w). subseq b (sk_taken w) \<and> (\<exists>p \<in> set (sk_puts w @ puts). holds p b)"
      using acc by fastforce
    moreover have "drop_excused writable w" if "sk_dropped (queueScopeRetries b w1) \<noteq> []"
    proof (cases "sk_dropped w = []")
      case True
      with that have "length (sk_retries w0 @ b) > scopeRetryQueueMaxLen"
        by (auto simp: queueScopeRetries_def Let_def w1_def w0(4))
      with list_emb_length [OF sub] show ?thesis by (simp add: drop_excused_def)
    qed (use acc in simp)
    ultimately show ?thesis using batch [symmetric] w0(1-4) queueScopeRetries_parts(2)
      by (simp add: eq scope_accounts_def queueScopeRetries_parts(4-8) drop_excused_def) (simp add: w1_def w0 ac_simps)
  qed
qed

lemma flushed_armed: "scope_batch_armed ((flush env b w)\<lparr>sk_batch := [], sk_timer := False\<rparr>)"
  by (simp add: scope_batch_armed_def scopeBatchMaxRows_def)

lemma scope_inv_receive:
  assumes "scope_inv holds writable w"
  shows "scope_inv holds writable (scope_worker_loop (flush env) (ScopeReceived e) w)"
proof -
  define w1 where "w1 = w\<lparr>sk_batch := sk_batch w @ [e], sk_taken := sk_taken w @ [e], sk_timer := True\<rparr>"
  have acc: "scope_accounts holds writable w1" using assms receive_accounts unfolding scope_inv_def w1_def by blast
  have "(let w = w\<lparr>sk_batch := sk_batch w @ [e], sk_taken := sk_taken w @ [e]\<rparr>
         in if length (sk_batch w) = 1 then w\<lparr>sk_timer := True\<rparr> else w) = w1"
    using assms by (cases "sk_batch w") (simp_all add: w1_def scope_inv_def scope_batch_armed_def Let_def)
  then have step: "scope_worker_loop (flush env) (ScopeReceived e) w =
      (if length (sk_batch w1) \<ge> scopeBatchMaxRows
       then (flush env (sk_batch w1) w1)\<lparr>sk_batch := [], sk_timer := False\<rparr> else w1)"
    by (simp add: Let_def)
  show ?thesis
  proof (cases "length (sk_batch w1) \<ge> scopeBatchMaxRows")
    case True
    then show ?thesis using scope_flush_accounts [OF acc, of "sk_batch w1" w1] flushed_armed unfolding step scope_inv_def by simp
  next
    case False
    moreover have "sk_timer w1" "sk_batch w1 \<noteq> []" by (simp_all add: w1_def)
    ultimately show ?thesis using acc unfolding step scope_inv_def scope_batch_armed_def by simp
  qed
qed

lemma scope_inv_step:
  assumes "scope_inv holds writable w" and "ev \<noteq> ScopeQueueClosed"
  shows "scope_inv holds writable (scope_worker_loop (flush env) ev w)"
proof (cases ev)
  case (ScopeReceived e)
  with scope_inv_receive [OF assms(1)] show ?thesis by simp
next
  case ScopeBatchTimer
  with scope_flush_accounts [of w "sk_batch w" w] flushed_armed assms(1) show ?thesis by (simp add: scope_inv_def)
next
  case ScopeRetryTick
  show ?thesis
  proof (cases "sk_retries w = []")
    case True
    then have "scope_worker_loop (flush env) ev w = w" by (simp add: ScopeRetryTick takeScopeRetries_def)
    with assms(1) show ?thesis by simp
  next
    case False
    then show ?thesis
      using scope_flush_accounts [of w "sk_retries w @ sk_batch w" "w\<lparr>sk_retries := []\<rparr>"] flushed_armed assms(1)
      by (simp add: ScopeRetryTick takeScopeRetries_def scope_inv_def)
  qed
qed (use assms(2) in simp)

lemma scope_run_inv:
  assumes "ScopeQueueClosed \<notin> snd ` set evs"
  shows "scope_inv holds writable (scope_run flush evs)"
  using assms
proof (induction evs rule: rev_induct)
  case Nil
  then show ?case by (simp add: scope_run_def scope_inv_new)
next
  case (snoc ev evs)
  obtain env e where "ev = (env, e)" by (cases ev)
  with snoc have "scope_run flush (evs @ [ev]) = scope_worker_loop (flush env) e (scope_run flush evs)" "e \<noteq> ScopeQueueClosed"
    "scope_inv holds writable (scope_run flush evs)"
    by (auto simp: scope_run_def)
  with scope_inv_step show ?case by simp
qed

end

end
