(* ===== verification/ScopeLog.thy ===== *)
theory ScopeLog
  imports ArchiveWriter ScopeBatch
begin

text \<open>
  The scope log of the S3 sink (\<open>internal/sink/s3/scopewriter.go\<close>): the transitions that say when watching of
  a scope started and stopped, batched by one worker into objects of their own, with a bounded retry queue.
  The worker's timers and channel are the events of \<open>scope_worker_event\<close>; the store's answers come from
  \<open>store_env\<close> as they do for the record writer.
\<close>

section \<open>The scope-log writer\<close>

definition scopeObjectKey :: "string \<Rightarrow> go_time \<Rightarrow> string \<Rightarrow> string" where
  "scopeObjectKey pfx ts contentHash =
     join_with ''/'' ((if pfx \<noteq> [] then [pfx] else []) @
       [formatPartition, scopesPartition, ''date='' @ formatDate ts, contentHash @ objectSuffix])"

definition encodeScopeObject :: "zstd_env \<Rightarrow> string \<Rightarrow> ScopeEvent list \<Rightarrow> s3_error + archiveObject" where
  "encodeScopeObject z pfx events =
     (case events of
        [] \<Rightarrow> Inl errEmptyBatch
      | e0 # _ \<Rightarrow>
          (case zstdEncoder z of
             None \<Rightarrow> Inl errNoEncoder
           | Some enc \<Rightarrow>
               (case all_some (map scopeEventLine events) of
                  None \<Rightarrow> Inl (errMarshal (length (takeWhile (\<lambda>e. scopeEventLine e \<noteq> None) events)))
                | Some lines \<Rightarrow>
                    (let contentHash = sha256_hex (concat lines)
                     in Inr \<lparr>obj_Key = scopeObjectKey pfx (se_TS e0) contentHash, obj_ContentHash = contentHash,
                             obj_Payload = enc (concat lines)\<rparr>))))"

definition decodeScopeObject :: "zstd_env \<Rightarrow> string \<Rightarrow> s3_error + ScopeEvent list" where
  "decodeScopeObject z payload =
     (case decompress z payload of
        Inl e \<Rightarrow> Inl e
      | Inr jsonl \<Rightarrow> (case decodeLines decodeScopeLine jsonl of None \<Rightarrow> Inl errDecodeLine | Some es \<Rightarrow> Inr es))"

definition flushScopeBatch :: "zstd_env \<Rightarrow> s3_config \<Rightarrow> store_env \<Rightarrow> ScopeEvent list \<Rightarrow> PutObjectInput scope_worker \<Rightarrow> PutObjectInput scope_worker" where
  "flushScopeBatch z cfg env batch w =
     (if batch = [] then w
      else case encodeScopeObject z (sc_Prefix cfg) batch of
             Inl _ \<Rightarrow> w\<lparr>sk_dropped := sk_dropped w @ batch\<rparr>
           | Inr obj \<Rightarrow>
               (let (ok, puts) = put cfg env (sk_flushes w) obj;
                    w = w\<lparr>sk_puts := sk_puts w @ puts, sk_flushes := sk_flushes w + 1\<rparr>
                in if ok then w\<lparr>sk_written := sk_written w @ [batch]\<rparr> else queueScopeRetries batch w))"

section \<open>Objects read back\<close>

lemma all_some_Some: "all_some ys = Some xs \<Longrightarrow> ys = map Some xs"
  by (induction ys arbitrary: xs) (auto split: option.splits)

lemma decode_scope_object:
  assumes "codec_ok z" and "encodeScopeObject z pfx events = Inr obj"
  shows "decodeScopeObject z (obj_Payload obj) = Inr events"
proof -
  obtain e0 es where events: "events = e0 # es" using assms(2) by (cases events) (simp_all add: encodeScopeObject_def)
  obtain enc lines where enc: "zstdEncoder z = Some enc" and some: "all_some (map scopeEventLine events) = Some lines"
    and obj: "obj_Payload obj = enc (concat lines)"
    using assms(2) unfolding encodeScopeObject_def events list.case Let_def by (auto simp only: archiveObject.simps sum.simps split: option.splits)
  note lines = all_some_Some [OF some]
  have "list_all2 (\<lambda>line x. \<exists>t v. line = t @ [newline] \<and> reads t v \<and> decodeScopeLine v = Some x) lines events"
    unfolding list_all2_conv_all_nth
  proof (intro conjI allI impI)
    show "length lines = length events" using arg_cong [OF lines, of length] by simp
    fix i assume i: "i < length lines"
    then have "scopeEventLine (events ! i) = Some (lines ! i)" using arg_cong [OF lines, of "\<lambda>l. l ! i"] \<open>length lines = length events\<close> by simp
    then show "\<exists>t v. lines ! i = t @ [newline] \<and> reads t v \<and> decodeScopeLine v = Some (events ! i)" by (rule scope_line_reads)
  qed
  from decodeLines_back [OF this] show ?thesis
    using assms(1) enc by (simp add: decodeScopeObject_def codec_ok_def obj)
qed

section \<open>Accounting for every transition\<close>

lemma encodeScopeObject_fails:
  "encodeScopeObject z pfx b = Inl e \<Longrightarrow> b = [] \<or> zstdEncoder z = None \<or> (\<exists>e \<in> set b. scopeEventLine e = None)"
proof (rule ccontr)
  assume e: "encodeScopeObject z pfx b = Inl e" and "\<not> (b = [] \<or> zstdEncoder z = None \<or> (\<exists>e \<in> set b. scopeEventLine e = None))"
  then obtain lines enc where "all_some (map scopeEventLine b) = Some lines" "zstdEncoder z = Some enc" "b \<noteq> []"
    using all_some_exists [of b scopeEventLine] by auto
  with e show False by (cases b) (simp_all add: encodeScopeObject_def Let_def del: list.map all_some.simps)
qed

text \<open>A PUT holds a batch when its body is the object the batch encodes to.\<close>

definition put_holds :: "zstd_env \<Rightarrow> string \<Rightarrow> PutObjectInput \<Rightarrow> ScopeEvent list \<Rightarrow> bool" where
  "put_holds z pfx p b \<longleftrightarrow> (\<exists>obj. encodeScopeObject z pfx b = Inr obj \<and> pi_Body p = obj_Payload obj)"

lemma put_holds_decodes: "codec_ok z \<Longrightarrow> put_holds z pfx p b \<Longrightarrow> decodeScopeObject z (pi_Body p) = Inr b"
  by (auto simp: put_holds_def decode_scope_object)

interpretation s3s: scope_flush "flushScopeBatch z cfg" "put_holds z (sc_Prefix cfg)" "\<lambda>e. zstdEncoder z \<noteq> None \<and> scopeEventLine e \<noteq> None"
  for z cfg
proof (unfold_locales, goal_cases)
  case (1 b env w)
  show ?case
  proof (cases "b = []")
    case True
    then show ?thesis by (simp add: flushScopeBatch_def)
  next
    case ne: False
    show ?thesis
    proof (cases "encodeScopeObject z (sc_Prefix cfg) b")
      case (Inl e)
      moreover have "\<exists>e \<in> set b. \<not> (zstdEncoder z \<noteq> None \<and> scopeEventLine e \<noteq> None)"
        using encodeScopeObject_fails [OF Inl] ne by (cases b) auto
      ultimately show ?thesis using ne by (simp add: flushScopeBatch_def)
    next
      case (Inr obj)
      obtain ok puts where put: "put cfg env (sk_flushes w) obj = (ok, puts)" by (cases "put cfg env (sk_flushes w) obj")
      show ?thesis
      proof (cases ok)
        case True
        with put putLoop_puts obtain p where "p \<in> set puts" "pi_Body p = obj_Payload obj" unfolding put_def by fastforce
        then have "p \<in> set puts \<and> put_holds z (sc_Prefix cfg) p b" using Inr by (simp add: put_holds_def)
        moreover have "flushScopeBatch z cfg env b w = w\<lparr>sk_puts := sk_puts w @ puts, sk_flushes := sk_flushes w + 1, sk_written := sk_written w @ [b]\<rparr>"
          using ne Inr put True by (simp add: flushScopeBatch_def Let_def)
        ultimately show ?thesis by blast
      next
        case False
        then have "flushScopeBatch z cfg env b w = queueScopeRetries b (w\<lparr>sk_puts := sk_puts w @ puts, sk_flushes := sk_flushes w + 1\<rparr>)"
          using ne Inr put by (simp add: flushScopeBatch_def Let_def)
        then show ?thesis by blast
      qed
    qed
  qed
qed

text \<open>
  While the scope worker runs, no transition is lost or duplicated, whatever the store answers: every one
  received is in a written object, on the retry queue, in the batch being filled, or was dropped. What is
  held stays in the order it was received, each written object lists its transitions in that order and
  decodes to exactly them, the queue and the batch keep their bounds, and a transition is dropped only
  when it cannot be encoded or more than the queue's capacity have been received.
\<close>

theorem scope_transitions_accounted:
  assumes "codec_ok z" and "ScopeQueueClosed \<notin> snd ` set evs" and "w = scope_run (flushScopeBatch z cfg) evs"
  shows "mset (sk_taken w) = mset (concat (sk_written w)) + mset (sk_retries w) + mset (sk_batch w) + mset (sk_dropped w)
    \<and> subseq (sk_retries w @ sk_batch w) (sk_taken w)
    \<and> (\<forall>b \<in> set (sk_written w). subseq b (sk_taken w) \<and> (\<exists>p \<in> set (sk_puts w). decodeScopeObject z (pi_Body p) = Inr b))
    \<and> length (sk_retries w) \<le> scopeRetryQueueMaxLen \<and> length (sk_batch w) < scopeBatchMaxRows \<and> sk_timer w = (sk_batch w \<noteq> [])
    \<and> (sk_dropped w \<noteq> [] \<longrightarrow> zstdEncoder z = None \<or> (\<exists>e \<in> set (sk_taken w). scopeEventLine e = None)
          \<or> length (sk_taken w) > scopeRetryQueueMaxLen)"
proof -
  note inv = s3s.scope_run_inv [OF assms(2), of z cfg, folded assms(3), unfolded scope_inv_def scope_accounts_def scope_batch_armed_def drop_excused_def]
  have "\<forall>b \<in> set (sk_written w). subseq b (sk_taken w) \<and> (\<exists>p \<in> set (sk_puts w). decodeScopeObject z (pi_Body p) = Inr b)"
    using inv put_holds_decodes [OF assms(1)] by blast
  moreover have "sk_dropped w \<noteq> [] \<longrightarrow> zstdEncoder z = None \<or> (\<exists>e \<in> set (sk_taken w). scopeEventLine e = None)
      \<or> length (sk_taken w) > scopeRetryQueueMaxLen"
    using inv by metis
  ultimately show ?thesis using inv by (intro conjI) simp_all
qed

text \<open>A started epoch whose first PUT fails, and its end received before the retry tick.\<close>

definition sampleTransition :: "string \<Rightarrow> go_time \<Rightarrow> ScopeEvent" where
  "sampleTransition action ts =
     \<lparr>se_Action = action, se_Scope = \<lparr>sf_ClusterID = ''prod'', sf_APIGroup = [], sf_Kind = ''Pod'', sf_Namespace = []\<rparr>,
      se_APIVersion = ''v1'', se_RuleRef = ''r'', se_TS = ts\<rparr>"

definition refusing :: store_env where
  "refusing = \<lparr>sv_now = (\<lambda>_. 0), sv_answers = (\<lambda>_. [])\<rparr>"

definition sampleTransitions :: "(store_env \<times> scope_worker_event) list" where
  "sampleTransitions =
     [(refusing, ScopeReceived (sampleTransition ''Started'' (march 2 9))), (refusing, ScopeBatchTimer),
      (refusing, ScopeReceived (sampleTransition ''Stopped'' (march 2 10)))]"

lemma sampleTransition_line: "scopeEventLine (sampleTransition a (march 2 9)) \<noteq> None" "scopeEventLine (sampleTransition a (march 2 10)) \<noteq> None"
proof -
  have "yearInRange (march 2 9)" "yearInRange (march 2 10)" by code_simp+
  then show "scopeEventLine (sampleTransition a (march 2 9)) \<noteq> None" "scopeEventLine (sampleTransition a (march 2 10)) \<noteq> None"
    by (simp_all add: scopeEventLine_def line_time_def sampleTransition_def)
qed

lemma sample_encodes: "b \<noteq> [] \<Longrightarrow> \<forall>e \<in> set b. scopeEventLine e \<noteq> None \<Longrightarrow> \<exists>obj. encodeScopeObject framing pfx b = Inr obj"
  using encodeScopeObject_fails [of framing pfx b] by (cases "encodeScopeObject framing pfx b") (auto simp: framing_def)

lemma refused_flush:
  assumes "b \<noteq> []" and "\<forall>e \<in> set b. scopeEventLine e \<noteq> None"
  shows "flushScopeBatch framing cfg refusing b w = queueScopeRetries b (w\<lparr>sk_flushes := sk_flushes w + 1\<rparr>)"
proof -
  obtain obj where "encodeScopeObject framing (sc_Prefix cfg) b = Inr obj" using sample_encodes [OF assms] by blast
  then show ?thesis using assms(1) by (simp add: flushScopeBatch_def put_def refusing_def)
qed

lemma sampleTransitions_run:
  fixes cfg :: s3_config
  defines "w \<equiv> scope_run (flushScopeBatch framing cfg) sampleTransitions"
  shows "sk_retries w = [sampleTransition ''Started'' (march 2 9)]" "sk_batch w = [sampleTransition ''Stopped'' (march 2 10)]"
    "sk_taken w = [sampleTransition ''Started'' (march 2 9), sampleTransition ''Stopped'' (march 2 10)]"
    "sk_flushes w = 1"
  using sampleTransition_line
  by (simp_all add: w_def scope_run_def sampleTransitions_def scope_worker_new_def scopeBatchMaxRows_def refused_flush
    queueScopeRetries_def scopeRetryQueueMaxLen_def Let_def)

theorem scope_transitions_accounted_witness:
  "sk_dropped (scope_run (flushScopeBatch framing (writer_config sampleSettings)) sampleTransitions) = []
     \<and> sk_timer (scope_run (flushScopeBatch framing (writer_config sampleSettings)) sampleTransitions)"
proof -
  have "ScopeQueueClosed \<notin> snd ` set sampleTransitions" by (simp add: sampleTransitions_def)
  moreover have "zstdEncoder framing \<noteq> None" by (simp add: framing_def)
  ultimately show ?thesis
    using scope_transitions_accounted [OF framing_ok _ refl, of sampleTransitions "writer_config sampleSettings"] sampleTransition_line
    unfolding sampleTransitions_run by (simp add: scopeRetryQueueMaxLen_def)
qed

text \<open>
  The final drain inverts an epoch it still has to retry. When the queue is closed, the transitions on the
  retry queue, which were received first, are appended after the batch received later, so the last object
  lists the newer transitions before the older ones; the running worker prepends them.
\<close>

theorem scope_drain_reorders:
  assumes "ScopeQueueClosed \<notin> snd ` set evs" and "w = scope_run (flushScopeBatch z cfg) evs"
    and "sk_retries w \<noteq> []" and "encodeScopeObject z (sc_Prefix cfg) (sk_batch w @ sk_retries w) = Inr obj"
    and "sv_answers env (sk_flushes w) = PutOK # answers"
  shows "subseq (sk_retries w @ sk_batch w) (sk_taken w)
    \<and> sk_written (scope_run (flushScopeBatch z cfg) (evs @ [(env, ScopeQueueClosed)])) = sk_written w @ [sk_batch w @ sk_retries w]
    \<and> sk_retries (scope_run (flushScopeBatch z cfg) (evs @ [(env, ScopeQueueClosed)])) = []"
proof -
  have "subseq (sk_retries w @ sk_batch w) (sk_taken w)"
    using s3s.scope_run_inv [OF assms(1), of z cfg] unfolding assms(2) scope_inv_def scope_accounts_def by blast
  moreover have "scope_run (flushScopeBatch z cfg) (evs @ [(env, ScopeQueueClosed)]) = scope_worker_loop (flushScopeBatch z cfg env) ScopeQueueClosed w"
    by (simp add: scope_run_snoc assms(2))
  ultimately show ?thesis
    using assms(3-5) by (simp add: takeScopeRetries_def Let_def flushScopeBatch_def put_def)
qed

theorem scope_drain_reorders_witness:
  "sk_written (scope_run (flushScopeBatch framing (writer_config sampleSettings)) (sampleTransitions @ [(sampleStore\<lparr>sv_answers := \<lambda>_. [PutOK]\<rparr>, ScopeQueueClosed)])) =
     sk_written (scope_run (flushScopeBatch framing (writer_config sampleSettings)) sampleTransitions) @
       [[sampleTransition ''Stopped'' (march 2 10), sampleTransition ''Started'' (march 2 9)]]"
proof -
  let ?w = "scope_run (flushScopeBatch framing (writer_config sampleSettings)) sampleTransitions"
  have "\<forall>e \<in> set (sk_batch ?w @ sk_retries ?w). scopeEventLine e \<noteq> None" "sk_batch ?w @ sk_retries ?w \<noteq> []"
    using sampleTransition_line by (simp_all add: sampleTransitions_run)
  then obtain obj where "encodeScopeObject framing (sc_Prefix (writer_config sampleSettings)) (sk_batch ?w @ sk_retries ?w) = Inr obj"
    using sample_encodes by blast
  moreover have "ScopeQueueClosed \<notin> snd ` set sampleTransitions" by (simp add: sampleTransitions_def)
  ultimately show ?thesis
    using scope_drain_reorders [OF _ refl, of sampleTransitions framing "writer_config sampleSettings" _ "sampleStore\<lparr>sv_answers := \<lambda>_. [PutOK]\<rparr>" "[]"]
    by (simp add: sampleTransitions_run)
qed

end
