(* ===== verification/Coverage.thy ===== *)
theory Coverage
  imports ScopeLog ArchiveScan "HOL-Library.Product_Lexorder"
begin

text \<open>
  Coverage (\<open>internal/query/scope.go\<close>, \<open>internal/query/objectsource/coverage.go\<close>): the scope log turned into the
  intervals during which something was being watched. An instant is covered exactly when the latest
  transition of the scope at or before it opened it.
\<close>

section \<open>Pairing\<close>

definition query_Started :: string where "query_Started = ''Started''"

definition query_Stopped :: string where "query_Stopped = ''Stopped''"

record ScopeChange =
  sc_APIGroup :: string
  sc_Kind :: string
  sc_Namespace :: string
  sc_Action :: string
  sc_RuleRef :: string
  sc_TS :: go_time

record ScopeInterval =
  si_APIGroup :: string
  si_Kind :: string
  si_Namespace :: string
  si_RuleRef :: string
  si_From :: go_time
  si_To :: "go_time option"

definition sameScope :: "ScopeChange \<Rightarrow> ScopeChange \<Rightarrow> bool" where
  "sameScope a b \<longleftrightarrow> sc_APIGroup a = sc_APIGroup b \<and> sc_Kind a = sc_Kind b \<and> sc_Namespace a = sc_Namespace b"

definition pair_step :: "ScopeChange \<Rightarrow> ScopeInterval list \<times> nat option \<Rightarrow> ScopeInterval list \<times> nat option" where
  "pair_step t st =
     (case st of (intervals, opened) \<Rightarrow>
        if sc_Action t = query_Started then
          (case opened of
             Some _ \<Rightarrow> (intervals, opened)
           | None \<Rightarrow>
               (intervals @ [\<lparr>si_APIGroup = sc_APIGroup t, si_Kind = sc_Kind t, si_Namespace = sc_Namespace t, si_RuleRef = sc_RuleRef t,
                              si_From = sc_TS t, si_To = None\<rparr>], Some (length intervals)))
        else if sc_Action t = query_Stopped then
          (case opened of
             None \<Rightarrow> (intervals, opened)
           | Some i \<Rightarrow> (intervals[i := (intervals ! i)\<lparr>si_To := Some (sc_TS t)\<rparr>], None))
        else (intervals, opened))"

definition pairScope :: "ScopeChange list \<Rightarrow> ScopeInterval list" where
  "pairScope transitions = fst (fold pair_step transitions ([], None))"

definition overlapsWindow :: "ScopeInterval \<Rightarrow> go_time \<Rightarrow> go_time \<Rightarrow> bool" where
  "overlapsWindow interval from_ts to_ts =
     (if to_ts \<noteq> 0 \<and> si_From interval > to_ts then False
      else if from_ts \<noteq> 0 \<and> (case si_To interval of None \<Rightarrow> False | Some t \<Rightarrow> t < from_ts) then False
      else True)"

definition scope_key :: "ScopeChange \<Rightarrow> string \<times> string \<times> string \<times> go_time" where
  "scope_key c = (sc_APIGroup c, sc_Kind c, sc_Namespace c, sc_TS c)"

function scopeRuns :: "ScopeChange list \<Rightarrow> ScopeChange list list" where
  "scopeRuns [] = []"
| "scopeRuns (c # cs) = (c # takeWhile (\<lambda>d. sameScope d c) cs) # scopeRuns (dropWhile (\<lambda>d. sameScope d c) cs)"
  by pat_completeness auto
termination by (relation "measure length") (simp_all add: le_imp_less_Suc length_dropWhile_le)

definition CoverageOf :: "ScopeChange list \<Rightarrow> go_time \<Rightarrow> go_time \<Rightarrow> ScopeInterval list" where
  "CoverageOf changes from_ts to_ts =
     (let ordered = sort_key scope_key changes;
          intervals = concat (map (\<lambda>run. filter (\<lambda>iv. overlapsWindow iv from_ts to_ts) (pairScope run)) (scopeRuns ordered))
      in sort_key si_From intervals)"

section \<open>Reading the scope log\<close>

record ScopeQuery =
  sq_ClusterID :: string
  sq_APIGroup :: string
  sq_Kind :: string
  sq_Namespace :: string
  sq_From :: go_time
  sq_To :: go_time

definition scopeChange :: "ScopeEvent \<Rightarrow> ScopeChange" where
  "scopeChange l =
     \<lparr>sc_APIGroup = sf_APIGroup (se_Scope l), sc_Kind = sf_Kind (se_Scope l), sc_Namespace = sf_Namespace (se_Scope l),
      sc_Action = se_Action l, sc_RuleRef = se_RuleRef l, sc_TS = se_TS l\<rparr>"

definition scope_matches :: "ScopeQuery \<Rightarrow> ScopeEvent \<Rightarrow> bool" where
  "scope_matches q l =
     (if sf_ClusterID (se_Scope l) \<noteq> sq_ClusterID q then False
      else if sq_APIGroup q \<noteq> [] \<and> sf_APIGroup (se_Scope l) \<noteq> sq_APIGroup q then False
      else if sq_Kind q \<noteq> [] \<and> sf_Kind (se_Scope l) \<noteq> sq_Kind q then False
      else if sq_Namespace q \<noteq> [] \<and> sf_Namespace (se_Scope l) \<noteq> sq_Namespace q \<and> sf_Namespace (se_Scope l) \<noteq> [] then False
      else True)"

definition scope_decode :: "scan_env \<Rightarrow> ScopeQuery \<Rightarrow> string \<Rightarrow> ScopeChange list \<Rightarrow> ScopeChange list \<times> bool" where
  "scope_decode env q = decodeScopeFrame env (\<lambda>line acc. if scope_matches q line then acc @ [scopeChange line] else acc)"

definition Engine_Coverage :: "Engine \<Rightarrow> scan_env \<Rightarrow> ScopeQuery \<Rightarrow> query_error + ScopeInterval list" where
  "Engine_Coverage e env q =
     (case ensureOpen e of
        Some err \<Rightarrow> Inl err
      | None \<Rightarrow>
          (let (err, accs) = scanPartitions e env (scope_decode env q) [] [scopesRoot (en_prefix e)]
           in if err \<noteq> [] then Inl (ScanFailed err) else Inr (CoverageOf (concat accs) (sq_From q) (sq_To q))))"

section \<open>One scope\<close>

definition iv_covers :: "ScopeInterval \<Rightarrow> go_time \<Rightarrow> bool" where
  "iv_covers iv t \<longleftrightarrow> si_From iv \<le> t \<and> (case si_To iv of None \<Rightarrow> True | Some stop \<Rightarrow> t < stop)"

text \<open>The reference: the latest transition at or before the instant opened the scope.\<close>

definition watched_at :: "go_time \<Rightarrow> ScopeChange list \<Rightarrow> bool" where
  "watched_at t cs =
     (let upto = filter (\<lambda>c. sc_TS c \<le> t \<and> (sc_Action c = query_Started \<or> sc_Action c = query_Stopped)) cs
      in upto \<noteq> [] \<and> sc_Action (last upto) = query_Started)"

lemma watched_snoc:
  "watched_at t (cs @ [c]) =
     (if sc_TS c \<le> t \<and> sc_Action c = query_Started then True
      else if sc_TS c \<le> t \<and> sc_Action c = query_Stopped then False else watched_at t cs)"
  by (auto simp: watched_at_def Let_def query_Started_def query_Stopped_def)

text \<open>After a prefix of the transitions up to an instant: at most the last interval is open, and every end lies behind.\<close>

definition pairing_ok :: "go_time \<Rightarrow> ScopeInterval list \<times> nat option \<Rightarrow> bool" where
  "pairing_ok m st \<longleftrightarrow>
     (\<forall>iv \<in> set (fst st). si_From iv \<le> m)
     \<and> (case snd st of
          None \<Rightarrow> \<forall>iv \<in> set (fst st). \<exists>stop \<le> m. si_To iv = Some stop
        | Some i \<Rightarrow> fst st \<noteq> [] \<and> i = length (fst st) - 1 \<and> si_To (last (fst st)) = None
                    \<and> (\<forall>iv \<in> set (butlast (fst st)). \<exists>stop \<le> m. si_To iv = Some stop))"

lemma pair_step_open:
  assumes "pairing_ok m (ivs, Some i)"
  obtains bs l where "ivs = bs @ [l]" "i = length bs" "si_To l = None" "si_From l \<le> m" "\<forall>iv \<in> set bs. si_From iv \<le> m"
    "\<forall>iv \<in> set bs. \<exists>stop \<le> m. si_To iv = Some stop"
proof -
  have ne: "ivs \<noteq> []" "i = length ivs - 1" "si_To (last ivs) = None" "\<forall>iv \<in> set ivs. si_From iv \<le> m"
    "\<forall>iv \<in> set (butlast ivs). \<exists>stop \<le> m. si_To iv = Some stop"
    using assms by (simp_all add: pairing_ok_def)
  then show ?thesis by (intro that [of "butlast ivs" "last ivs"]) (auto dest: in_set_butlastD)
qed

lemma not_covered: "\<exists>stop \<le> m. si_To iv = Some stop \<Longrightarrow> m \<le> t \<Longrightarrow> \<not> iv_covers iv t"
  by (auto simp: iv_covers_def)

lemma pair_step_ok:
  assumes "pairing_ok m st" and "m \<le> sc_TS c"
  shows "pairing_ok (sc_TS c) (pair_step c st)
    \<and> ((\<exists>iv \<in> set (fst (pair_step c st)). iv_covers iv t) \<longleftrightarrow>
      (if sc_TS c \<le> t \<and> sc_Action c = query_Started then True
       else if sc_TS c \<le> t \<and> sc_Action c = query_Stopped then False else (\<exists>iv \<in> set (fst st). iv_covers iv t)))"
proof -
  obtain ivs op where st: "st = (ivs, op)" by (cases st)
  have ne: "query_Started \<noteq> query_Stopped" by (simp add: query_Started_def query_Stopped_def)
  show ?thesis
  proof (cases op)
    case None
    have f: "\<forall>iv \<in> set ivs. si_From iv \<le> sc_TS c" "\<forall>iv \<in> set ivs. \<exists>stop \<le> sc_TS c. si_To iv = Some stop"
      using assms unfolding st None pairing_ok_def by (fastforce intro: order_trans)+
    have out: "sc_TS c \<le> t \<Longrightarrow> \<not> (\<exists>iv \<in> set ivs. iv_covers iv t)" using f(2) not_covered by blast
    consider "sc_Action c = query_Started" | "sc_Action c = query_Stopped" | "sc_Action c \<noteq> query_Started" "sc_Action c \<noteq> query_Stopped" by blast
    then show ?thesis
    proof cases
      case 1
      with f show ?thesis by (auto simp: st None pair_step_def pairing_ok_def iv_covers_def)
    next
      case 2
      with f out ne show ?thesis by (auto simp: st None pair_step_def pairing_ok_def)
    next
      case 3
      with f show ?thesis by (auto simp: st None pair_step_def pairing_ok_def)
    qed
  next
    case (Some i)
    obtain bs l where l: "ivs = bs @ [l]" "i = length bs" "si_To l = None" "si_From l \<le> m" "\<forall>iv \<in> set bs. si_From iv \<le> m"
      "\<forall>iv \<in> set bs. \<exists>stop \<le> m. si_To iv = Some stop"
      using assms(1) unfolding st Some by (rule pair_step_open)
    then have f: "\<forall>iv \<in> set bs. si_From iv \<le> sc_TS c" "\<forall>iv \<in> set bs. \<exists>stop \<le> sc_TS c. si_To iv = Some stop" "si_From l \<le> sc_TS c"
      using assms(2) by (fastforce intro: order_trans)+
    have out: "sc_TS c \<le> t \<Longrightarrow> \<not> (\<exists>iv \<in> set bs. iv_covers iv t)" using f(2) not_covered by blast
    consider "sc_Action c = query_Started" | "sc_Action c = query_Stopped" | "sc_Action c \<noteq> query_Started" "sc_Action c \<noteq> query_Stopped" by blast
    then show ?thesis
    proof cases
      case 1
      with f l(1-3) show ?thesis by (auto simp: st Some pair_step_def pairing_ok_def iv_covers_def)
    next
      case 2
      with f l(1-3) out ne show ?thesis by (auto simp: st Some pair_step_def pairing_ok_def iv_covers_def)
    next
      case 3
      with f l(1-3) show ?thesis by (auto simp: st Some pair_step_def pairing_ok_def)
    qed
  qed
qed

lemma pairScope_covers:
  assumes "sorted (map sc_TS cs)"
  shows "(\<exists>iv \<in> set (pairScope cs). iv_covers iv t) \<longleftrightarrow> watched_at t cs"
proof -
  have "(cs = [] \<or> pairing_ok (sc_TS (last cs)) (fold pair_step cs ([], None))) \<and>
      ((\<exists>iv \<in> set (fst (fold pair_step cs ([], None))). iv_covers iv t) \<longleftrightarrow> watched_at t cs)"
    using assms
  proof (induction cs rule: rev_induct)
    case (snoc c cs)
    obtain m where m: "pairing_ok m (fold pair_step cs ([], None))" "m \<le> sc_TS c"
    proof (cases "cs = []")
      case True
      then show ?thesis by (intro that [of "sc_TS c"]) (simp_all add: pairing_ok_def)
    next
      case False
      with snoc show ?thesis by (intro that [of "sc_TS (last cs)"]) (simp_all add: sorted_append)
    qed
    from pair_step_ok [OF m, of t] snoc show ?case by (simp add: watched_snoc sorted_append)
  qed (simp add: watched_at_def)
  then show ?thesis by (simp add: pairScope_def)
qed

section \<open>Every scope\<close>

definition scope_of :: "ScopeChange \<Rightarrow> string \<times> string \<times> string" where
  "scope_of c = (sc_APIGroup c, sc_Kind c, sc_Namespace c)"

definition interval_scope :: "ScopeInterval \<Rightarrow> string \<times> string \<times> string" where
  "interval_scope iv = (si_APIGroup iv, si_Kind iv, si_Namespace iv)"

lemma sameScope_scope_of: "sameScope a b \<longleftrightarrow> scope_of a = scope_of b"
  by (simp add: sameScope_def scope_of_def)

text \<open>In a list sorted by a key, the elements equal to the first come first.\<close>

lemma sorted_run:
  fixes f :: "'a \<Rightarrow> 'b :: linorder"
  assumes "sorted (map f (c # cs))"
  shows "takeWhile (\<lambda>d. f d = f c) cs = filter (\<lambda>d. f d = f c) cs \<and> dropWhile (\<lambda>d. f d = f c) cs = filter (\<lambda>d. f d \<noteq> f c) cs"
  using assms
proof (induction cs)
  case (Cons d cs)
  show ?case
  proof (cases "f d = f c")
    case False
    then have "\<forall>x \<in> set (d # cs). f x \<noteq> f c" using Cons.prems by fastforce
    then show ?thesis by (simp add: filter_id_conv filter_empty_conv)
  qed (use Cons in simp)
qed simp

lemma scopeRuns_runs:
  assumes "sorted (map scope_of xs)"
  shows "set (scopeRuns xs) = (\<lambda>c. filter (\<lambda>d. scope_of d = scope_of c) xs) ` set xs"
  using assms
proof (induction xs rule: scopeRuns.induct)
  case (2 c cs)
  let ?rest = "filter (\<lambda>d. scope_of d \<noteq> scope_of c) cs"
  have r: "takeWhile (\<lambda>d. sameScope d c) cs = filter (\<lambda>d. scope_of d = scope_of c) cs" "dropWhile (\<lambda>d. sameScope d c) cs = ?rest"
    using sorted_run [OF "2.prems"] by (simp_all add: sameScope_scope_of)
  have "sorted (map scope_of ?rest)" using "2.prems" by (simp add: sorted_filter)
  then have ih: "set (scopeRuns ?rest) = (\<lambda>d. filter (\<lambda>x. scope_of x = scope_of d) ?rest) ` set ?rest" using "2.IH" unfolding r(2) by blast
  have same: "filter (\<lambda>x. scope_of x = scope_of d) ?rest = filter (\<lambda>x. scope_of x = scope_of d) (c # cs)" if "scope_of d \<noteq> scope_of c" for d
    using that by (auto simp: conj_commute intro!: filter_cong)
  have "(\<lambda>d. filter (\<lambda>x. scope_of x = scope_of d) (c # cs)) ` set (c # cs) =
      insert (filter (\<lambda>x. scope_of x = scope_of c) (c # cs)) ((\<lambda>d. filter (\<lambda>x. scope_of x = scope_of d) (c # cs)) ` set ?rest)"
    by (auto simp: image_iff)
  moreover have "(\<lambda>d. filter (\<lambda>x. scope_of x = scope_of d) (c # cs)) ` set ?rest = set (scopeRuns ?rest)"
    unfolding ih using same by (intro image_cong) auto
  ultimately show ?case by (simp add: r)
qed simp

lemma pairScope_scope:
  assumes "\<forall>c \<in> set cs. scope_of c = s"
  shows "\<forall>iv \<in> set (pairScope cs). interval_scope iv = s"
proof -
  have "\<forall>iv \<in> set (fst (fold pair_step cs st)). interval_scope iv = s"
    if "\<forall>iv \<in> set (fst st). interval_scope iv = s" "\<forall>i. snd st = Some i \<longrightarrow> i < length (fst st)" for st
    using assms that
  proof (induction cs arbitrary: st)
    case (Cons c cs)
    obtain ivs op where st: "st = (ivs, op)" by (cases st)
    have "\<forall>iv \<in> set (fst (pair_step c st)). interval_scope iv = s" "\<forall>i. snd (pair_step c st) = Some i \<longrightarrow> i < length (fst (pair_step c st))"
      using Cons.prems by (auto simp: st pair_step_def interval_scope_def scope_of_def split: option.splits if_splits dest!: set_update_subset_insert [THEN subsetD])
    with Cons show ?case by simp
  qed simp
  from this [of "([], None)"] show ?thesis by (simp add: pairScope_def)
qed

lemma insort_key_conv:
  fixes f :: "'a \<Rightarrow> 'b :: linorder" and g :: "'a \<Rightarrow> 'c :: linorder"
  shows "\<forall>y \<in> set ys. f x \<le> f y \<longleftrightarrow> g x \<le> g y \<Longrightarrow> insort_key f x ys = insort_key g x ys"
  by (induction ys) simp_all

lemma sort_key_conv:
  fixes f :: "'a \<Rightarrow> 'b :: linorder" and g :: "'a \<Rightarrow> 'c :: linorder"
  shows "\<forall>x \<in> set xs. \<forall>y \<in> set xs. f x \<le> f y \<longleftrightarrow> g x \<le> g y \<Longrightarrow> sort_key f xs = sort_key g xs"
  by (induction xs) (simp_all add: insort_key_conv)

lemma CoverageOf_covers:
  assumes "from_ts = 0 \<or> from_ts \<le> t" and "to_ts = 0 \<or> t \<le> to_ts"
  shows "(\<exists>iv \<in> set (CoverageOf changes from_ts to_ts). interval_scope iv = s \<and> iv_covers iv t) \<longleftrightarrow>
    watched_at t (sort_key sc_TS (filter (\<lambda>c. scope_of c = s) changes))"
proof -
  let ?xs = "sort_key scope_key changes"
  have run: "filter (\<lambda>c. scope_of c = s) ?xs = sort_key sc_TS (filter (\<lambda>c. scope_of c = s) changes)" for s
    unfolding filter_sort by (rule sort_key_conv) (auto simp: scope_key_def scope_of_def)
  have "sorted (map scope_key ?xs)" by simp
  then have "sorted (map scope_of ?xs)"
    unfolding sorted_map by (rule sorted_wrt_mono_rel [rotated]) (auto simp: scope_key_def scope_of_def less_eq_prod_def)
  note runs = scopeRuns_runs [OF this]
  have keep: "iv_covers iv t \<Longrightarrow> overlapsWindow iv from_ts to_ts" for iv
    using assms by (auto simp: iv_covers_def overlapsWindow_def split: option.splits)
  have "(\<exists>iv \<in> set (CoverageOf changes from_ts to_ts). interval_scope iv = s \<and> iv_covers iv t) \<longleftrightarrow>
      (\<exists>c \<in> set ?xs. \<exists>iv \<in> set (pairScope (filter (\<lambda>d. scope_of d = scope_of c) ?xs)). interval_scope iv = s \<and> iv_covers iv t)"
    unfolding CoverageOf_def Let_def using keep by (auto simp: runs)
  also have "\<dots> \<longleftrightarrow> (\<exists>iv \<in> set (pairScope (filter (\<lambda>d. scope_of d = s) ?xs)). iv_covers iv t)"
  proof
    assume "\<exists>c \<in> set ?xs. \<exists>iv \<in> set (pairScope (filter (\<lambda>d. scope_of d = scope_of c) ?xs)). interval_scope iv = s \<and> iv_covers iv t"
    then obtain c iv where "iv \<in> set (pairScope (filter (\<lambda>d. scope_of d = scope_of c) ?xs))" "interval_scope iv = s" "iv_covers iv t" by blast
    moreover from this have "s = scope_of c" using pairScope_scope [of "filter (\<lambda>d. scope_of d = scope_of c) ?xs" "scope_of c"] by auto
    ultimately show "\<exists>iv \<in> set (pairScope (filter (\<lambda>d. scope_of d = s) ?xs)). iv_covers iv t" by auto
  next
    assume "\<exists>iv \<in> set (pairScope (filter (\<lambda>d. scope_of d = s) ?xs)). iv_covers iv t"
    then obtain iv where iv: "iv \<in> set (pairScope (filter (\<lambda>d. scope_of d = s) ?xs))" "iv_covers iv t" by blast
    then have "filter (\<lambda>d. scope_of d = s) ?xs \<noteq> []" by (auto simp: pairScope_def)
    then obtain c where c: "c \<in> set ?xs" "scope_of c = s" by (auto simp: filter_empty_conv)
    moreover have "interval_scope iv = s" using pairScope_scope [of "filter (\<lambda>d. scope_of d = s) ?xs" s] iv(1) by auto
    ultimately show "\<exists>c \<in> set ?xs. \<exists>iv \<in> set (pairScope (filter (\<lambda>d. scope_of d = scope_of c) ?xs)). interval_scope iv = s \<and> iv_covers iv t"
      using iv by blast
  qed
  also have "\<dots> \<longleftrightarrow> watched_at t (filter (\<lambda>d. scope_of d = s) ?xs)" by (rule pairScope_covers) (simp add: run)
  finally show ?thesis by (simp only: run)
qed

section \<open>The engine's answer\<close>

definition scopeLines :: "scan_env \<Rightarrow> string \<Rightarrow> ScopeEvent list" where
  "scopeLines env key = (case sn_Open env key of Opened body _ \<Rightarrow> fst (streamFrame env decodeScopeLine body) | _ \<Rightarrow> [])"

definition logged :: "Engine \<Rightarrow> scan_env \<Rightarrow> ScopeQuery \<Rightarrow> ScopeChange list" where
  "logged e env q = map scopeChange (filter (scope_matches q) (concat (map (scopeLines env) (objectsUnder env (scopesRoot (en_prefix e))))))"

lemma scope_fold:
  "fold (\<lambda>line acc. if scope_matches q line then acc @ [scopeChange line] else acc) ls acc = acc @ map scopeChange (filter (scope_matches q) ls)"
  by (induction ls arbitrary: acc) simp_all

lemma readObject_scope:
  "snd (readObject env (scope_decode env q) key []) = map scopeChange (filter (scope_matches q) (scopeLines env key))"
  by (auto simp: readObject_def scopeLines_def scope_decode_def decodeScopeFrame_def scope_fold split: open_answer.splits prod.splits)

lemma logged_read: "concat (map snd (readAll env (scope_decode env q) [] [scopesRoot (en_prefix e)])) = logged e env q"
  by (simp add: readAll_def logged_def comp_def readObject_scope filter_concat map_concat)

text \<open>
  C33: A coverage answer says when the recorder was watching. When the scope log could be read, an instant of the query's
  window lies in a returned interval of a scope exactly when, among the logged transitions of that scope that the query
  selects, the latest at or before the instant opened it: repeated starts, stops without a start, unknown actions, open
  ends and logs in any order included. The intervals come in the order they began.
\<close>

theorem coverage_is_watching:
  assumes "NewEngine opts = Some e" and "Engine_Coverage e env q = Inr ivs"
    and "sq_From q = 0 \<or> sq_From q \<le> t" and "sq_To q = 0 \<or> t \<le> sq_To q"
  shows "((\<exists>iv \<in> set ivs. interval_scope iv = s \<and> iv_covers iv t) \<longleftrightarrow>
      watched_at t (sort_key sc_TS (filter (\<lambda>c. scope_of c = s) (logged e env q)))) \<and> sorted (map si_From ivs)"
proof -
  have "0 < en_concurrency e" using NewEngine_positive [OF assms(1)] by blast
  then have c: "concat (chunk (en_concurrency e) [scopesRoot (en_prefix e)]) = [scopesRoot (en_prefix e)]" by (rule concat_chunk)
  obtain err accs where scan: "scanPartitions e env (scope_decode env q) [] [scopesRoot (en_prefix e)] = (err, accs)" by (metis surj_pair)
  with assms(2) have "err = []" and ivs: "ivs = CoverageOf (concat accs) (sq_From q) (sq_To q)"
    by (simp_all add: Engine_Coverage_def split: option.splits if_splits)
  with scan scanGroups_complete [of env "scope_decode env q" "[]" "[]" "chunk (en_concurrency e) [scopesRoot (en_prefix e)]" accs]
  have "concat accs = logged e env q" by (simp add: scanPartitions_def c logged_read)
  with CoverageOf_covers [OF assms(3,4)] show ?thesis by (simp add: ivs CoverageOf_def Let_def)
qed

text \<open>A scope object written by the sink, whose one transition opened the scope at nine.\<close>

definition sampleScopeQuery :: ScopeQuery where
  "sampleScopeQuery = \<lparr>sq_ClusterID = ''prod'', sq_APIGroup = [], sq_Kind = ''Pod'', sq_Namespace = ''web'', sq_From = march 2 8, sq_To = march 2 12\<rparr>"

lemma scopes_key: "has_prefix (scopeObjectKey ''audit'' ts h) (scopesRoot ''audit'')" "isObjectKey (scopeObjectKey ''audit'' ts h)"
proof -
  have "plain_segment ''audit''" "plain_segment formatPartition" "plain_segment scopesPartition"
    by (simp_all add: plain_segment_def formatPartition_def scopesPartition_def)
  then show "has_prefix (scopeObjectKey ''audit'' ts h) (scopesRoot ''audit'')"
    by (simp add: scopeObjectKey_def scopesRoot_def joinSegments_def trimSlashes_plain formatPartition_def scopesPartition_def has_prefix_def)
  show "isObjectKey (scopeObjectKey ''audit'' ts h)"
    by (auto simp: isObjectKey_def scopeObjectKey_def intro!: suffix_appendI suffix_ConsI)
qed

lemma sample_scope_read:
  assumes "encodeScopeObject framing ''audit'' evs = Inr obj"
  shows "scopeLines (stored [(obj_Key obj, obj_Payload obj)]) (obj_Key obj) = evs"
    "fst (readObject (stored [(obj_Key obj, obj_Payload obj)]) (scope_decode (stored [(obj_Key obj, obj_Payload obj)]) q) (obj_Key obj) []) = []"
    "objectsUnder (stored [(obj_Key obj, obj_Payload obj)]) (scopesRoot ''audit'') = [obj_Key obj]"
proof -
  let ?env = "stored [(obj_Key obj, obj_Payload obj)]"
  have "decodeScopeObject framing (obj_Payload obj) = Inr evs" by (rule decode_scope_object [OF framing_ok assms])
  then obtain jsonl where "decompress framing (obj_Payload obj) = Inr jsonl" "decodeLines decodeScopeLine jsonl = Some evs"
    by (auto simp: decodeScopeObject_def split: sum.splits option.splits)
  then have f: "streamFrame ?env decodeScopeLine (obj_Payload obj) = (evs, True)" by (rule streamFrame_whole [OF stored_reader])
  have o: "sn_Open ?env (obj_Key obj) = Opened (obj_Payload obj) True" by (simp add: stored_def)
  show "scopeLines ?env (obj_Key obj) = evs" by (simp add: scopeLines_def o f)
  show "fst (readObject ?env (scope_decode ?env q) (obj_Key obj) []) = []"
    by (simp add: readObject_def o scope_decode_def decodeScopeFrame_def f)
  have "\<exists>ts h. obj_Key obj = scopeObjectKey ''audit'' ts h"
    using assms by (auto simp: encodeScopeObject_def Let_def split: list.splits option.splits) blast
  with scopes_key show "objectsUnder ?env (scopesRoot ''audit'') = [obj_Key obj]" by (auto simp: objectsUnder_def stored_def)
qed

theorem coverage_is_watching_witness:
  "\<exists>key body ivs. Engine_Coverage sampleEngine (stored [(key, body)]) sampleScopeQuery = Inr ivs
     \<and> (\<exists>iv \<in> set ivs. interval_scope iv = ([], ''Pod'', []) \<and> iv_covers iv (march 2 10))"
proof -
  let ?ev = "sampleTransition ''Started'' (march 2 9)"
  obtain obj where obj: "encodeScopeObject framing ''audit'' [?ev] = Inr obj"
    using sample_encodes [of "[?ev]" "''audit''"] sampleTransition_line(1) by auto
  let ?env = "stored [(obj_Key obj, obj_Payload obj)]"
  have e: "en_prefix sampleEngine = ''audit''" "0 < en_concurrency sampleEngine" "ensureOpen sampleEngine = None"
    by (simp_all add: sampleEngine_def ensureOpen_def)
  have m: "scope_matches sampleScopeQuery ?ev" by (simp add: scope_matches_def sampleScopeQuery_def sampleTransition_def)
  have log: "logged sampleEngine ?env sampleScopeQuery = [scopeChange ?ev]"
    by (simp add: logged_def e sample_scope_read [OF obj] m)
  have "first_error (map fst (readAll ?env (scope_decode ?env sampleScopeQuery) [] [scopesRoot ''audit''])) = []"
    by (simp add: readAll_def sample_scope_read [OF obj])
  then obtain ivs where ivs: "Engine_Coverage sampleEngine ?env sampleScopeQuery = Inr ivs"
    using scanPartitions_quiet [OF e(2), of ?env "[scopesRoot ''audit'']" "scope_decode ?env sampleScopeQuery" "[]"] stored_quiet
    by (simp add: Engine_Coverage_def e)
  have w: "sq_From sampleScopeQuery \<le> march 2 10" "march 2 10 \<le> sq_To sampleScopeQuery" by (simp_all only: sampleScopeQuery_def ScopeQuery.simps) code_simp+
  have "watched_at (march 2 10) (sort_key sc_TS (filter (\<lambda>c. scope_of c = ([], ''Pod'', [])) [scopeChange ?ev]))"
  proof -
    have "march 2 9 \<le> march 2 10" by code_simp
    then show ?thesis by (simp add: scopeChange_def sampleTransition_def scope_of_def watched_at_def query_Started_def)
  qed
  with coverage_is_watching [OF sampleEngine_new ivs, of "march 2 10"] w log ivs show ?thesis by metis
qed

end
