(* ===== verification/ClickHouse.thy ===== *)
theory ClickHouse
  imports ScopeBatch Civil
begin

text \<open>
  The ClickHouse sink's record path (\<open>internal/sink/clickhouse/writer.go\<close>): the arguments of an insert, the
  bounded queue, the batching workers, the retried batch and the isolation of its rows; and its
  scope-transition writer (\<open>scopewriter.go\<close>), the loop of \<open>ScopeBatch\<close> over an insert.

  \<^item> The driver is a parameter: whether \<open>Append\<close> takes a row, and how each insert attempt ends. An attempt
    that reports an error may have inserted any of its rows, since the acknowledgement may be what was lost.
  \<^item> A retry loop consumes the answers of one flush and gives up when they end; the isolation phase asks one
    answer per row. Deadlines, the drain window included, are what makes an answer an error.
  \<^item> The table keeps every inserted row in order; that the server collapses equal rows is not needed.
\<close>

section \<open>Rows\<close>

datatype ch_arg =
    ArgTime go_time
  | ArgString string
  | ArgMap "(string, string) gomap"
  | ArgStrings "string list"

type_synonym ch_row = "ch_arg list"

definition insertColumns :: "string list" where
  "insertColumns =
     [''ts'', ''cluster_id'', ''event_type'', ''api_group'', ''api_version'', ''kind'', ''namespace'', ''name'', ''uid'',
      ''resource_version'', ''labels'', ''actors'', ''data'', ''diff'', ''sha256'']"

definition insertArgs :: "sink_record \<Rightarrow> ch_row" where
  "insertArgs r =
     [ArgTime (rec_Timestamp r), ArgString (rec_ClusterID r), ArgString (rec_EventType r), ArgString (rec_APIGroup r),
      ArgString (rec_APIVersion r), ArgString (rec_Kind r), ArgString (rec_Namespace r), ArgString (rec_Name r), ArgString (rec_UID r),
      ArgString (rec_ResourceVersion r), ArgMap (rec_Labels r), ArgStrings (rec_Actors r), ArgString (rec_Data r), ArgString (rec_Diff r),
      ArgString (rec_SHA256 r)]"

section \<open>The writer\<close>

record 'c ch_job =
  cj_args :: ch_row
  cj_commit :: "'c option"

record ch_config =
  cc_WriteQueueSize :: int
  cc_WriteWorkers :: int
  cc_BatchMaxRows :: int
  cc_CheckpointEvery :: int
  cc_CoalesceWindow :: go_duration

definition DefaultWriteQueueSize :: int where "DefaultWriteQueueSize = 5000"

definition DefaultWriteWorkers :: int where "DefaultWriteWorkers = 4"

definition DefaultBatchMaxRows :: int where "DefaultBatchMaxRows = 1000"

definition DefaultCheckpointEvery :: int where "DefaultCheckpointEvery = 50"

definition ch_DefaultCoalesceWindow :: go_duration where "ch_DefaultCoalesceWindow = 60 * 10 ^ 9"

text \<open>
  A worker: the batch it fills, whether the batch timer is armed, the settlements it has made in order, and
  how many batches it has flushed. The jobs it has taken are kept as history.
\<close>

record 'c ch_worker =
  cw_batch :: "'c ch_job list"
  cw_timer :: bool
  cw_settled :: "('c option \<times> bool) list"
  cw_flushes :: nat
  cw_rows :: "ch_row list"
  cw_taken :: "'c ch_job list"

record 'c CHWriter =
  chw_jobs :: "'c ch_job list"
  chw_queueSize :: nat
  chw_batchMaxRows :: nat
  chw_closing :: bool
  chw_workers :: "'c ch_worker list"
  chw_exited :: "bool list"
  chw_checkpointEvery :: int
  chw_coalesceWindow :: go_duration
  chw_accepted :: "'c ch_job list"

definition ch_worker_new :: "'c ch_worker" where
  "ch_worker_new = \<lparr>cw_batch = [], cw_timer = False, cw_settled = [], cw_flushes = 0, cw_rows = [], cw_taken = []\<rparr>"

definition NewCHWriter :: "int \<Rightarrow> int \<Rightarrow> int \<Rightarrow> 'c CHWriter" where
  "NewCHWriter queueSize workers batchMaxRows =
     (let queueSize = (if queueSize \<le> 0 then DefaultWriteQueueSize else queueSize);
          workers = nat (if workers \<le> 0 then DefaultWriteWorkers else workers);
          batchMaxRows = (if batchMaxRows \<le> 0 then DefaultBatchMaxRows else batchMaxRows)
      in \<lparr>chw_jobs = [], chw_queueSize = nat queueSize, chw_batchMaxRows = nat batchMaxRows, chw_closing = False,
          chw_workers = replicate workers ch_worker_new, chw_exited = replicate workers False,
          chw_checkpointEvery = DefaultCheckpointEvery, chw_coalesceWindow = ch_DefaultCoalesceWindow, chw_accepted = []\<rparr>)"

definition ch_Open :: "ch_config \<Rightarrow> 'c CHWriter" where
  "ch_Open cfg =
     (let w = NewCHWriter (cc_WriteQueueSize cfg) (cc_WriteWorkers cfg) (cc_BatchMaxRows cfg);
          w = (if cc_CheckpointEvery cfg \<ge> 0 then w\<lparr>chw_checkpointEvery := cc_CheckpointEvery cfg\<rparr> else w)
      in if cc_CoalesceWindow cfg \<ge> 0 then w\<lparr>chw_coalesceWindow := cc_CoalesceWindow cfg\<rparr> else w)"

definition ch_Enqueue :: "sink_record \<Rightarrow> 'c option \<Rightarrow> select_answer \<Rightarrow> 'c CHWriter \<Rightarrow> enqueue_error option \<times> 'c CHWriter" where
  "ch_Enqueue r commit answer w =
     (let job = \<lparr>cj_args = insertArgs r, cj_commit = commit\<rparr>
      in if chw_closing w then (Some RefusedClosing, w)
         else if answer = SelContextDone then (Some ContextDone, w)
         else if answer = SelTimeout \<or> length (chw_jobs w) \<ge> chw_queueSize w then (Some QueueStillFull, w)
         else (None, w\<lparr>chw_jobs := chw_jobs w @ [job], chw_accepted := chw_accepted w @ [job]\<rparr>))"

section \<open>Inserting\<close>

text \<open>How an insert attempt ends, once its rows are appended: acknowledged, or an error that leaves the marked rows.\<close>

datatype send_answer = PrepareFailed | SendOK | SendFailed "bool list"

record ch_backend =
  cb_append :: "ch_row \<Rightarrow> bool"
  cb_batch :: "nat \<Rightarrow> send_answer list"
  cb_row :: "nat \<Rightarrow> nat \<Rightarrow> send_answer"

definition landed_rows :: "bool list \<Rightarrow> ch_row list \<Rightarrow> ch_row list" where
  "landed_rows marks rows = map fst (filter snd (zip rows marks))"

definition sendBatchOnce :: "ch_backend \<Rightarrow> send_answer \<Rightarrow> 'c ch_job list \<Rightarrow> bool \<times> ch_row list" where
  "sendBatchOnce b answer batch =
     (case answer of
        PrepareFailed \<Rightarrow> (False, [])
      | SendOK \<Rightarrow> (if list_all (\<lambda>j. cb_append b (cj_args j)) batch then (True, map cj_args batch) else (False, []))
      | SendFailed marks \<Rightarrow>
          (if list_all (\<lambda>j. cb_append b (cj_args j)) batch then (False, landed_rows marks (map cj_args batch)) else (False, [])))"

fun sendBatch :: "ch_backend \<Rightarrow> send_answer list \<Rightarrow> 'c ch_job list \<Rightarrow> bool \<times> ch_row list" where
  "sendBatch b [] batch = (False, [])"
| "sendBatch b (answer # answers) batch =
     (case sendBatchOnce b answer batch of
        (True, rows) \<Rightarrow> (True, rows)
      | (False, rows) \<Rightarrow> (let (ok, rows') = sendBatch b answers batch in (ok, rows @ rows')))"

definition ch_settle :: "'c option \<Rightarrow> bool \<Rightarrow> 'c ch_worker \<Rightarrow> 'c ch_worker" where
  "ch_settle commit ok w = w\<lparr>cw_settled := cw_settled w @ [(commit, ok)]\<rparr>"

fun isolateRows :: "ch_backend \<Rightarrow> nat \<Rightarrow> nat \<Rightarrow> 'c ch_job list \<Rightarrow> 'c ch_worker \<Rightarrow> 'c ch_worker" where
  "isolateRows b n i [] w = w"
| "isolateRows b n i (job # jobs) w =
     (let (ok, rows) = sendBatchOnce b (cb_row b n i) [job]
      in isolateRows b n (i + 1) jobs (ch_settle (cj_commit job) ok (w\<lparr>cw_rows := cw_rows w @ rows\<rparr>)))"

definition flushBatch :: "ch_backend \<Rightarrow> 'c ch_job list \<Rightarrow> 'c ch_worker \<Rightarrow> 'c ch_worker" where
  "flushBatch b batch w =
     (let n = cw_flushes w;
          (ok, rows) = sendBatch b (cb_batch b n) batch;
          w = w\<lparr>cw_rows := cw_rows w @ rows, cw_flushes := n + 1\<rparr>
      in if ok then fold (\<lambda>job. ch_settle (cj_commit job) True) batch w
         else isolateRows b n 0 batch w)"

datatype 'c ch_event = ChReceive "'c ch_job" | ChBatchWait | ChClosed

fun ch_worker_step :: "nat \<Rightarrow> ch_backend \<Rightarrow> 'c ch_event \<Rightarrow> 'c ch_worker \<Rightarrow> 'c ch_worker" where
  "ch_worker_step batchMaxRows b (ChReceive job) w =
     (let w = w\<lparr>cw_batch := cw_batch w @ [job], cw_taken := cw_taken w @ [job]\<rparr>;
          w = (if length (cw_batch w) = 1 then w\<lparr>cw_timer := True\<rparr> else w)
      in if length (cw_batch w) \<ge> batchMaxRows then (flushBatch b (cw_batch w) w)\<lparr>cw_batch := [], cw_timer := False\<rparr> else w)"
| "ch_worker_step batchMaxRows b ChBatchWait w =
     (if cw_timer w then (flushBatch b (cw_batch w) w)\<lparr>cw_batch := [], cw_timer := False\<rparr> else w)"
| "ch_worker_step batchMaxRows b ChClosed w =
     (let w = (if cw_batch w \<noteq> [] then flushBatch b (cw_batch w) w else w) in w\<lparr>cw_batch := [], cw_timer := False\<rparr>)"

text \<open>Every interleaving of callers, workers, timers and the shutdown that \<open>Start\<close> sequences.\<close>

inductive ch_reachable :: "ch_config \<Rightarrow> 'c CHWriter \<Rightarrow> bool" for cf where
  ch_start: "ch_reachable cf (ch_Open cf)"
| ch_enqueue: "ch_reachable cf w \<Longrightarrow> ch_reachable cf (snd (ch_Enqueue r commit answer w))"
| ch_receive: "ch_reachable cf w \<Longrightarrow> chw_jobs w = job # rest \<Longrightarrow> i < length (chw_workers w) \<Longrightarrow> \<not> chw_exited w ! i \<Longrightarrow>
    ch_reachable cf (w\<lparr>chw_jobs := rest,
      chw_workers := (chw_workers w)[i := ch_worker_step (chw_batchMaxRows w) b (ChReceive job) (chw_workers w ! i)]\<rparr>)"
| ch_wait: "ch_reachable cf w \<Longrightarrow> i < length (chw_workers w) \<Longrightarrow> \<not> chw_exited w ! i \<Longrightarrow>
    ch_reachable cf (w\<lparr>chw_workers := (chw_workers w)[i := ch_worker_step (chw_batchMaxRows w) b ChBatchWait (chw_workers w ! i)]\<rparr>)"
| ch_shutdown: "ch_reachable cf w \<Longrightarrow> ch_reachable cf (w\<lparr>chw_closing := True\<rparr>)"
| ch_drained: "ch_reachable cf w \<Longrightarrow> chw_closing w \<Longrightarrow> chw_jobs w = [] \<Longrightarrow> i < length (chw_workers w) \<Longrightarrow> \<not> chw_exited w ! i \<Longrightarrow>
    ch_reachable cf (w\<lparr>chw_workers := (chw_workers w)[i := ch_worker_step (chw_batchMaxRows w) b ChClosed (chw_workers w ! i)],
      chw_exited := (chw_exited w)[i := True]\<rparr>)"

section \<open>What a flush does\<close>

lemma settle_batch: "fold (\<lambda>job. ch_settle (cj_commit job) ok) batch w = w\<lparr>cw_settled := cw_settled w @ map (\<lambda>j. (cj_commit j, ok)) batch\<rparr>"
  by (induction batch arbitrary: w) (simp_all add: ch_settle_def)

lemma landed_rows_subset: "set (landed_rows marks rows) \<subseteq> set rows"
  by (auto simp: landed_rows_def dest: set_zip_leftD)

lemma sendBatchOnce_rows:
  assumes "sendBatchOnce b answer batch = (ok, rows)"
  shows "set rows \<subseteq> cj_args ` set batch" "rows \<noteq> [] \<or> ok \<Longrightarrow> list_all (\<lambda>j. cb_append b (cj_args j)) batch" "ok \<Longrightarrow> rows = map cj_args batch"
  using assms landed_rows_subset [of _ "map cj_args batch"] by (auto simp: sendBatchOnce_def split: send_answer.splits if_splits)

lemma sendBatch_rows:
  assumes "sendBatch b answers batch = (ok, rows)"
  shows "set rows \<subseteq> cj_args ` set batch \<and> (rows \<noteq> [] \<or> ok \<longrightarrow> list_all (\<lambda>j. cb_append b (cj_args j)) batch)
    \<and> (ok \<longrightarrow> cj_args ` set batch \<subseteq> set rows)"
  using assms
proof (induction b answers batch arbitrary: ok rows rule: sendBatch.induct)
  case (2 b answer answers batch)
  obtain ok1 rows1 where once: "sendBatchOnce b answer batch = (ok1, rows1)" by (cases "sendBatchOnce b answer batch")
  note r1 = sendBatchOnce_rows [OF once]
  show ?case
  proof (cases ok1)
    case True
    with 2 once r1 show ?thesis by auto
  next
    case False
    obtain ok2 rows2 where rest: "sendBatch b answers batch = (ok2, rows2)" by (cases "sendBatch b answers batch")
    with 2 once False have "ok = ok2" "rows = rows1 @ rows2" by simp_all
    with 2(1) [of False rows1] once False rest r1 show ?thesis by auto
  qed
qed simp

text \<open>The isolation phase settles every row once, in order, and as inserted only if it was.\<close>

lemma isolateRows_frame:
  "cw_batch (isolateRows b n i jobs w) = cw_batch w" "cw_taken (isolateRows b n i jobs w) = cw_taken w"
  by (induction b n i jobs w rule: isolateRows.induct) (simp_all add: ch_settle_def case_prod_beta Let_def)

definition settles :: "'c ch_job list \<Rightarrow> ch_row list \<Rightarrow> ('c option \<times> bool) list \<Rightarrow> bool" where
  "settles jobs rows outcomes \<longleftrightarrow> list_all2 (\<lambda>job (c, ok). c = cj_commit job \<and> (ok \<longrightarrow> cj_args job \<in> set rows)) jobs outcomes"

lemma settles_mono: "settles jobs rows outcomes \<Longrightarrow> set rows \<subseteq> set rows' \<Longrightarrow> settles jobs rows' outcomes"
  unfolding settles_def by (erule list_all2_mono) auto

lemma settles_append:
  "settles jobs rows outcomes \<Longrightarrow> settles jobs' rows outcomes' \<Longrightarrow> settles (jobs @ jobs') rows (outcomes @ outcomes')"
  unfolding settles_def by (rule list_all2_appendI)

lemma isolateRows_settles:
  "\<exists>rows outcomes. cw_rows (isolateRows b n i jobs w) = cw_rows w @ rows \<and> cw_settled (isolateRows b n i jobs w) = cw_settled w @ outcomes
     \<and> settles jobs rows outcomes \<and> set rows \<subseteq> cj_args ` set jobs"
proof (induction b n i jobs w rule: isolateRows.induct)
  case (1 b n i w)
  show ?case by (simp add: settles_def)
next
  case (2 b n i job jobs w)
  obtain ok r where once: "sendBatchOnce b (cb_row b n i) [job] = (ok, r)" by (cases "sendBatchOnce b (cb_row b n i) [job]")
  note r = sendBatchOnce_rows [OF once]
  from 2 [OF once [symmetric] refl] obtain rows outcomes where
    ih: "cw_rows (isolateRows b n i (job # jobs) w) = cw_rows w @ r @ rows"
      "cw_settled (isolateRows b n i (job # jobs) w) = cw_settled w @ (cj_commit job, ok) # outcomes"
      "settles jobs rows outcomes" "set rows \<subseteq> cj_args ` set jobs"
    by (auto simp: once ch_settle_def)
  have "settles [job] (r @ rows) [(cj_commit job, ok)]" using r(3) by (auto simp: settles_def)
  moreover have "settles jobs (r @ rows) outcomes" using ih(3) by (rule settles_mono) simp
  ultimately have "settles (job # jobs) (r @ rows) ((cj_commit job, ok) # outcomes)" using settles_append by fastforce
  with ih r(1) show ?case by (intro exI [of _ "r @ rows"] exI [of _ "(cj_commit job, ok) # outcomes"]) auto
qed

lemma flushBatch_frame: "cw_taken (flushBatch b batch w) = cw_taken w"
  by (simp add: flushBatch_def Let_def case_prod_beta settle_batch isolateRows_frame)

lemma flushBatch_settles:
  "\<exists>rows outcomes. cw_rows (flushBatch b batch w) = cw_rows w @ rows \<and> cw_settled (flushBatch b batch w) = cw_settled w @ outcomes
     \<and> settles batch rows outcomes \<and> set rows \<subseteq> cj_args ` set batch"
proof -
  obtain ok rows where send: "sendBatch b (cb_batch b (cw_flushes w)) batch = (ok, rows)"
    by (cases "sendBatch b (cb_batch b (cw_flushes w)) batch")
  note rows = sendBatch_rows [OF send]
  show ?thesis
  proof (cases ok)
    case True
    with rows have "settles batch rows (map (\<lambda>j. (cj_commit j, True)) batch)" by (auto simp: settles_def list_all2_conv_all_nth)
    with True rows send show ?thesis by (simp add: flushBatch_def settle_batch Let_def)
  next
    case False
    define w1 where "w1 = w\<lparr>cw_rows := cw_rows w @ rows, cw_flushes := cw_flushes w + 1\<rparr>"
    obtain rows' outcomes where iso: "cw_rows (isolateRows b (cw_flushes w) 0 batch w1) = cw_rows w1 @ rows'"
      "cw_settled (isolateRows b (cw_flushes w) 0 batch w1) = cw_settled w1 @ outcomes" "settles batch rows' outcomes" "set rows' \<subseteq> cj_args ` set batch"
      using isolateRows_settles by blast
    have "settles batch (rows @ rows') outcomes" by (rule settles_mono [OF iso(3)]) simp
    moreover have "flushBatch b batch w = isolateRows b (cw_flushes w) 0 batch w1" using False send by (simp add: flushBatch_def w1_def Let_def)
    ultimately show ?thesis using iso rows by (intro exI [of _ "rows @ rows'"] exI [of _ outcomes]) (auto simp: w1_def)
  qed
qed

section \<open>The settlement contract\<close>

definition ch_accounts :: "'c ch_worker \<Rightarrow> bool" where
  "ch_accounts k \<longleftrightarrow>
     (\<exists>settled. cw_taken k = settled @ cw_batch k \<and> settles settled (cw_rows k) (cw_settled k))
     \<and> set (cw_rows k) \<subseteq> cj_args ` set (cw_taken k) \<and> cw_timer k = (cw_batch k \<noteq> [])"

lemma flush_ch_accounts:
  assumes "ch_accounts k"
  shows "ch_accounts ((flushBatch b (cw_batch k) k)\<lparr>cw_batch := [], cw_timer := False\<rparr>)"
proof -
  obtain settled where k: "cw_taken k = settled @ cw_batch k" "settles settled (cw_rows k) (cw_settled k)"
    using assms by (auto simp: ch_accounts_def)
  obtain rows outcomes where f: "cw_rows (flushBatch b (cw_batch k) k) = cw_rows k @ rows"
    "cw_settled (flushBatch b (cw_batch k) k) = cw_settled k @ outcomes" "settles (cw_batch k) rows outcomes" "set rows \<subseteq> cj_args ` set (cw_batch k)"
    using flushBatch_settles by blast
  have "settles settled (cw_rows k @ rows) (cw_settled k)" "settles (cw_batch k) (cw_rows k @ rows) outcomes"
    using settles_mono [OF k(2)] settles_mono [OF f(3)] by simp_all
  then have "settles (settled @ cw_batch k) (cw_rows k @ rows) (cw_settled k @ outcomes)" by (rule settles_append)
  moreover have "set (cw_rows k @ rows) \<subseteq> cj_args ` set (cw_taken k)" using assms f(4) by (auto simp: ch_accounts_def k(1))
  ultimately show ?thesis unfolding ch_accounts_def using f k by (simp add: flushBatch_frame)
qed

lemma ch_step_accounts:
  assumes "ch_accounts k"
  shows "ch_accounts (ch_worker_step n b ev k)"
proof (cases ev)
  case (ChReceive job)
  define k1 where "k1 = k\<lparr>cw_batch := cw_batch k @ [job], cw_taken := cw_taken k @ [job], cw_timer := True\<rparr>"
  have "ch_accounts k1" using assms by (auto simp: ch_accounts_def k1_def)
  moreover have "(let w = k\<lparr>cw_batch := cw_batch k @ [job], cw_taken := cw_taken k @ [job]\<rparr>
      in if length (cw_batch w) = 1 then w\<lparr>cw_timer := True\<rparr> else w) = k1"
    using assms by (cases "cw_batch k") (simp_all add: k1_def ch_accounts_def Let_def)
  ultimately show ?thesis using flush_ch_accounts [of k1 b] by (simp add: ChReceive Let_def)
next
  case ChClosed
  have "ch_accounts (k\<lparr>cw_batch := [], cw_timer := False\<rparr>)" if "cw_batch k = []" using assms that by (simp add: ch_accounts_def)
  then show ?thesis using flush_ch_accounts [OF assms, of b] by (simp add: ChClosed Let_def)
qed (use assms flush_ch_accounts [OF assms, of b] in simp)

lemma ch_step_taken: "cw_taken (ch_worker_step n b ev k) = cw_taken k @ (case ev of ChReceive job \<Rightarrow> [job] | _ \<Rightarrow> [])"
  by (cases ev) (simp_all add: flushBatch_frame Let_def)

lemma ch_closed_idle: "cw_batch (ch_worker_step n b ChClosed k) = []"
  by (simp add: Let_def)

lemma settles_commits: "settles jobs rows outcomes \<Longrightarrow> map fst outcomes = map cj_commit jobs"
  unfolding settles_def by (auto simp: list_all2_conv_all_nth case_prod_beta intro!: nth_equalityI)

interpretation chw: sink_worker "\<lambda>k. mset (map cj_commit (cw_taken k))" "\<lambda>k. mset (map fst (cw_settled k))" "\<lambda>k. cw_batch k = []" ch_accounts
proof
  fix k :: "'c ch_worker"
  assume "ch_accounts k"
  then obtain settled where k: "cw_taken k = settled @ cw_batch k" "map fst (cw_settled k) = map cj_commit settled"
    by (auto simp: ch_accounts_def dest: settles_commits)
  then show "mset (map fst (cw_settled k)) \<subseteq># mset (map cj_commit (cw_taken k))" by (simp only: k map_append mset_append) simp
  assume "cw_batch k = []"
  with k show "mset (map fst (cw_settled k)) = mset (map cj_commit (cw_taken k))" by (simp only: k) simp
qed

definition ch_pool_ok :: "'c CHWriter \<Rightarrow> bool" where
  "ch_pool_ok w \<longleftrightarrow>
     mset (chw_accepted w) = mset (chw_jobs w) + sum_list (map (\<lambda>k. mset (cw_taken k)) (chw_workers w))
     \<and> length (chw_exited w) = length (chw_workers w)
     \<and> (\<forall>k \<in> set (chw_workers w). ch_accounts k)
     \<and> (\<forall>i < length (chw_workers w). chw_exited w ! i \<longrightarrow> chw_closing w \<and> chw_jobs w = [] \<and> cw_batch (chw_workers w ! i) = [])"

lemma ch_pool_update:
  assumes "ch_pool_ok w" and "i < length (chw_workers w)" and "k = ch_worker_step n b ev (chw_workers w ! i)"
  shows "sum_list (map (\<lambda>k. mset (cw_taken k)) ((chw_workers w)[i := k])) =
      sum_list (map (\<lambda>k. mset (cw_taken k)) (chw_workers w)) + mset (case ev of ChReceive job \<Rightarrow> [job] | _ \<Rightarrow> [])"
    "\<forall>k' \<in> set ((chw_workers w)[i := k]). ch_accounts k'"
proof -
  show "sum_list (map (\<lambda>k. mset (cw_taken k)) ((chw_workers w)[i := k])) =
      sum_list (map (\<lambda>k. mset (cw_taken k)) (chw_workers w)) + mset (case ev of ChReceive job \<Rightarrow> [job] | _ \<Rightarrow> [])"
    by (rule pool_update [OF assms(2)]) (simp add: assms(3) ch_step_taken)
  have "ch_accounts k" using assms by (simp add: ch_pool_ok_def ch_step_accounts)
  with assms(1) show "\<forall>k' \<in> set ((chw_workers w)[i := k]). ch_accounts k'"
    by (auto simp: ch_pool_ok_def dest: set_update_subset_insert [THEN subsetD])
qed

lemma ch_reachable_pool_ok: "ch_reachable cf w \<Longrightarrow> ch_pool_ok w"
proof (induction rule: ch_reachable.induct)
  case ch_start
  have "sum_list (map (\<lambda>k. mset (cw_taken k)) (replicate n (ch_worker_new :: 'a ch_worker))) = {#}" for n
    by (induction n) (simp_all add: ch_worker_new_def)
  moreover have "ch_accounts (ch_worker_new :: 'a ch_worker)" by (simp add: ch_accounts_def ch_worker_new_def settles_def)
  ultimately show ?case by (auto simp: ch_pool_ok_def ch_Open_def NewCHWriter_def Let_def)
next
  case (ch_enqueue w r commit answer)
  then show ?case by (auto simp: ch_pool_ok_def ch_Enqueue_def Let_def)
next
  case (ch_receive w job rest i b)
  define k where "k = ch_worker_step (chw_batchMaxRows w) b (ChReceive job) (chw_workers w ! i)"
  note upd = ch_pool_update [OF ch_receive(5) ch_receive(3) k_def]
  show ?case unfolding k_def [symmetric] using ch_receive upd by (auto simp: ch_pool_ok_def nth_list_update)
next
  case (ch_wait w i b)
  define k where "k = ch_worker_step (chw_batchMaxRows w) b ChBatchWait (chw_workers w ! i)"
  note upd = ch_pool_update [OF ch_wait(4) ch_wait(2) k_def]
  show ?case unfolding k_def [symmetric] using ch_wait upd by (auto simp: ch_pool_ok_def nth_list_update)
next
  case (ch_shutdown w)
  then show ?case by (auto simp: ch_pool_ok_def)
next
  case (ch_drained w i b)
  define k where "k = ch_worker_step (chw_batchMaxRows w) b ChClosed (chw_workers w ! i)"
  note upd = ch_pool_update [OF ch_drained(6) ch_drained(4) k_def]
  have "cw_batch k = []" unfolding k_def by (rule ch_closed_idle)
  with upd show ?case unfolding k_def [symmetric] using ch_drained by (auto simp: ch_pool_ok_def nth_list_update)
qed

definition ch_settled :: "'c CHWriter \<Rightarrow> 'c option multiset" where
  "ch_settled w = sum_list (map (\<lambda>k. mset (map fst (cw_settled k))) (chw_workers w))"

definition ch_table :: "'c CHWriter \<Rightarrow> ch_row set" where
  "ch_table w = (\<Union>k \<in> set (chw_workers w). set (cw_rows k))"

lemma ch_accounts_settled:
  assumes "ch_accounts k" and "(c, True) \<in> set (cw_settled k)"
  shows "\<exists>job \<in> set (cw_taken k). cj_commit job = c \<and> cj_args job \<in> set (cw_rows k)"
proof -
  obtain settled where s: "cw_taken k = settled @ cw_batch k" "settles settled (cw_rows k) (cw_settled k)"
    using assms(1) by (auto simp: ch_accounts_def)
  obtain n where n: "n < length (cw_settled k)" "cw_settled k ! n = (c, True)" using assms(2) by (auto simp: in_set_conv_nth)
  with s(2) have "n < length settled" "c = cj_commit (settled ! n) \<and> cj_args (settled ! n) \<in> set (cw_rows k)"
    by (auto simp: settles_def list_all2_conv_all_nth)
  then show ?thesis by (auto simp: s(1))
qed

lemma ch_taken_accepted:
  assumes "ch_pool_ok w" and "k \<in> set (chw_workers w)"
  shows "set (cw_taken k) \<subseteq> set (chw_accepted w)"
proof -
  have "mset (cw_taken k) \<subseteq># mset (chw_accepted w)"
    using assms(1) pool_member [OF assms(2), of "\<lambda>k. mset (cw_taken k)"] by (simp add: ch_pool_ok_def subset_mset.add_increasing)
  then show ?thesis by (metis set_mset_mset set_mset_mono)
qed

lemma ch_pool_commits:
  assumes "ch_pool_ok w"
  shows "mset (map cj_commit (chw_accepted w)) =
    mset (map cj_commit (chw_jobs w)) + sum_list (map (\<lambda>k. mset (map cj_commit (cw_taken k))) (chw_workers w))"
proof -
  have "image_mset cj_commit (sum_list (map (\<lambda>k. mset (cw_taken k)) ws)) = sum_list (map (\<lambda>k. mset (map cj_commit (cw_taken k))) ws)"
    for ws :: "'a ch_worker list"
    by (induction ws) simp_all
  with assms show ?thesis by (simp add: ch_pool_ok_def)
qed

text \<open>
  C25: The ClickHouse writer's settlement contract, over every interleaving of callers, workers, batch timers,
  retried and isolated inserts and the shutdown. No accepted record is settled twice; once the workers have
  drained and exited every accepted record has been settled exactly once; a record is settled as written
  only when its row is in the table; and the table holds no row that is not a record's, so that inserting a
  row again after a lost acknowledgement adds nothing but a copy.
\<close>

theorem ch_records_settle_once:
  assumes "ch_reachable cf w"
  shows "ch_settled w \<subseteq># mset (map cj_commit (chw_accepted w))
    \<and> (chw_exited w \<noteq> [] \<and> list_all id (chw_exited w) \<longrightarrow> ch_settled w = mset (map cj_commit (chw_accepted w)))
    \<and> (\<forall>k \<in> set (chw_workers w). \<forall>c. (c, True) \<in> set (cw_settled k) \<longrightarrow>
         (\<exists>job \<in> set (chw_accepted w). cj_commit job = c \<and> cj_args job \<in> ch_table w))
    \<and> ch_table w \<subseteq> cj_args ` set (chw_accepted w)"
proof -
  have ok: "ch_pool_ok w" using assms by (rule ch_reachable_pool_ok)
  then have acc: "\<forall>k \<in> set (chw_workers w). ch_accounts k" by (simp add: ch_pool_ok_def)
  have once: "ch_settled w \<subseteq># mset (map cj_commit (chw_accepted w))"
    unfolding ch_settled_def ch_pool_commits [OF ok] by (rule chw.pool_settled [OF acc])
  have drained: "ch_settled w = mset (map cj_commit (chw_accepted w))" if "chw_exited w \<noteq> []" "list_all id (chw_exited w)"
  proof -
    have "chw_exited w ! i" if "i < length (chw_workers w)" for i
      using ok that \<open>list_all id (chw_exited w)\<close> by (simp add: ch_pool_ok_def list_all_length)
    moreover have "chw_workers w \<noteq> []" using ok \<open>chw_exited w \<noteq> []\<close> by (auto simp: ch_pool_ok_def)
    ultimately have "chw_jobs w = []" "\<forall>k \<in> set (chw_workers w). ch_accounts k \<and> cw_batch k = []"
      using ok by (auto simp: ch_pool_ok_def in_set_conv_nth)
    then show ?thesis using chw.pool_drained [of "chw_workers w"] unfolding ch_settled_def ch_pool_commits [OF ok] by simp
  qed
  have "\<exists>job \<in> set (chw_accepted w). cj_commit job = c \<and> cj_args job \<in> ch_table w"
    if k: "k \<in> set (chw_workers w)" and c: "(c, True) \<in> set (cw_settled k)" for k c
    using ch_accounts_settled [OF acc [rule_format, OF k] c] ch_taken_accepted [OF ok k] k unfolding ch_table_def by blast
  moreover have "ch_table w \<subseteq> cj_args ` set (chw_accepted w)"
    using acc ch_taken_accepted [OF ok] unfolding ch_table_def ch_accounts_def by blast
  ultimately show ?thesis using once drained by blast
qed

text \<open>One worker with batches of two: the insert of both rows fails although one landed, and each row is tried again.\<close>

definition sampleRow :: "string \<Rightarrow> sink_record" where
  "sampleRow nm = \<lparr>rec_Timestamp = 0, rec_ClusterID = ''prod'', rec_EventType = ''Added'', rec_APIGroup = [], rec_APIVersion = ''v1'',
     rec_Kind = ''Pod'', rec_Namespace = ''ns'', rec_Name = nm, rec_UID = ''u'', rec_ResourceVersion = ''1'', rec_Labels = [], rec_Actors = [],
     rec_Data = ''{}'', rec_Diff = [], rec_SHA256 = ''00''\<rparr>"

definition sampleBackend :: ch_backend where
  "sampleBackend = \<lparr>cb_append = (\<lambda>_. True), cb_batch = (\<lambda>_. [SendFailed [True, False]]), cb_row = (\<lambda>_ _. SendOK)\<rparr>"

definition sampleCH :: ch_config where
  "sampleCH = \<lparr>cc_WriteQueueSize = 0, cc_WriteWorkers = 1, cc_BatchMaxRows = 2, cc_CheckpointEvery = 0, cc_CoalesceWindow = 0\<rparr>"

definition sampleFlushed :: "nat CHWriter" where
  "sampleFlushed =
     (let w0 = snd (ch_Enqueue (sampleRow ''b'') (Some 2) SelSent (snd (ch_Enqueue (sampleRow ''a'') (Some 1) SelSent (ch_Open sampleCH))));
          step = (\<lambda>job w. w\<lparr>chw_jobs := tl (chw_jobs w), chw_workers := (chw_workers w)[0 := ch_worker_step (chw_batchMaxRows w) sampleBackend
                    (ChReceive job) (chw_workers w ! 0)]\<rparr>)
      in step (hd (tl (chw_jobs w0))) (step (hd (chw_jobs w0)) w0))"

lemma sampleFlushed_reachable: "ch_reachable sampleCH sampleFlushed"
  unfolding sampleFlushed_def Let_def
  by (intro ch_reachable.intros(3) ch_reachable.intros(1,2))
    (simp_all add: ch_Enqueue_def ch_Open_def NewCHWriter_def sampleCH_def Let_def DefaultWriteQueueSize_def)

theorem ch_records_settle_once_witness:
  "ch_settled sampleFlushed \<subseteq># {#Some 1, Some 2#} \<and> ch_table sampleFlushed \<subseteq> {insertArgs (sampleRow ''a''), insertArgs (sampleRow ''b'')}
     \<and> count (ch_settled sampleFlushed) (Some 1) = 1"
proof -
  have "map cj_commit (chw_accepted sampleFlushed) = [Some 1, Some 2]" "map cj_args (chw_accepted sampleFlushed) = [insertArgs (sampleRow ''a''), insertArgs (sampleRow ''b'')]"
    by (simp_all add: sampleFlushed_def Let_def ch_Enqueue_def ch_Open_def NewCHWriter_def sampleCH_def DefaultWriteQueueSize_def)
  moreover have "count (ch_settled sampleFlushed) (Some 1) = 1" by code_simp
  ultimately show ?thesis using ch_records_settle_once [OF sampleFlushed_reachable] by (metis list.simps(8) list.simps(9) mset.simps set_map list.set)
qed

section \<open>Isolation\<close>

lemma isolateRows_blames:
  assumes "\<And>i. cb_row b n i = SendOK"
  shows "cw_settled (isolateRows b n i jobs w) = cw_settled w @ map (\<lambda>j. (cj_commit j, cb_append b (cj_args j))) jobs
    \<and> cw_rows (isolateRows b n i jobs w) = cw_rows w @ filter (cb_append b) (map cj_args jobs)"
proof (induction jobs arbitrary: i w)
  case (Cons job jobs)
  show ?case by (cases "cb_append b (cj_args job)") (simp_all add: Cons assms sendBatchOnce_def ch_settle_def)
qed simp

text \<open>
  A row the driver refuses is blamed alone. Whatever became of the attempts at the whole batch, when the
  server takes single rows each job of the batch is settled by its own row's merit: as written if the driver
  accepts the row, as failed otherwise; and the rows the flush leaves in the table are exactly the accepted ones.
\<close>

theorem poison_row_blamed_alone:
  assumes "\<And>i. cb_row b (cw_flushes w) i = SendOK"
  shows "cw_settled (flushBatch b batch w) = cw_settled w @ map (\<lambda>j. (cj_commit j, cb_append b (cj_args j))) batch
    \<and> set (cw_rows (flushBatch b batch w)) = set (cw_rows w) \<union> {r \<in> cj_args ` set batch. cb_append b r}"
proof -
  obtain ok rows where send: "sendBatch b (cb_batch b (cw_flushes w)) batch = (ok, rows)"
    by (cases "sendBatch b (cb_batch b (cw_flushes w)) batch")
  note rows = sendBatch_rows [OF send]
  show ?thesis
  proof (cases ok)
    case True
    with rows have all: "\<forall>j \<in> set batch. cb_append b (cj_args j)" "set rows = cj_args ` set batch" by (auto simp: list_all_iff)
    then have "map (\<lambda>j. (cj_commit j, cb_append b (cj_args j))) batch = map (\<lambda>j. (cj_commit j, True)) batch" by simp
    with True all send show ?thesis by (auto simp: flushBatch_def settle_batch Let_def)
  next
    case False
    define w1 where "w1 = w\<lparr>cw_rows := cw_rows w @ rows, cw_flushes := cw_flushes w + 1\<rparr>"
    have f: "flushBatch b batch w = isolateRows b (cw_flushes w) 0 batch w1" using False send by (simp add: flushBatch_def w1_def Let_def)
    have "set rows \<subseteq> {r \<in> cj_args ` set batch. cb_append b r}" using rows by (cases "rows = []") (auto simp: list_all_iff)
    then show ?thesis using isolateRows_blames [OF assms, where jobs = batch] unfolding f by (auto simp: w1_def)
  qed
qed

theorem poison_row_blamed_alone_witness:
  "cw_settled (flushBatch (sampleBackend\<lparr>cb_append := (\<lambda>r. r ! 7 \<noteq> ArgString ''a'')\<rparr>)
      [\<lparr>cj_args = insertArgs (sampleRow ''a''), cj_commit = Some (1 :: nat)\<rparr>, \<lparr>cj_args = insertArgs (sampleRow ''b''), cj_commit = Some 2\<rparr>]
      ch_worker_new) = [(Some 1, False), (Some 2, True)]"
  by (subst poison_row_blamed_alone [THEN conjunct1])
    (simp_all add: sampleBackend_def ch_worker_new_def insertArgs_def sampleRow_def)

text \<open>The positional arguments line up with the columns of the statement.\<close>

lemma insertArgs_columns:
  "length (insertArgs r) = length insertColumns"
  "map_of (zip insertColumns (insertArgs r)) ''ts'' = Some (ArgTime (rec_Timestamp r))"
  "map_of (zip insertColumns (insertArgs r)) ''uid'' = Some (ArgString (rec_UID r))"
  "map_of (zip insertColumns (insertArgs r)) ''labels'' = Some (ArgMap (rec_Labels r))"
  "map_of (zip insertColumns (insertArgs r)) ''data'' = Some (ArgString (rec_Data r))"
  "map_of (zip insertColumns (insertArgs r)) ''diff'' = Some (ArgString (rec_Diff r))"
  "map_of (zip insertColumns (insertArgs r)) ''sha256'' = Some (ArgString (rec_SHA256 r))"
  by (simp_all add: insertArgs_def insertColumns_def)

text \<open>No two records share a row: a copy in the table is a copy of the same record.\<close>

lemma insertArgs_inject: "insertArgs r = insertArgs r' \<longleftrightarrow> r = (r' :: sink_record)"
  by (auto simp: insertArgs_def intro: sink_record.equality)

section \<open>Scope transitions\<close>

definition scopeColumns :: "string list" where
  "scopeColumns = [''ts'', ''cluster_id'', ''api_group'', ''api_version'', ''kind'', ''namespace'', ''action'', ''rule_ref'']"

definition scopeInsertArgs :: "ScopeEvent \<Rightarrow> ch_row" where
  "scopeInsertArgs e =
     [ArgTime (se_TS e), ArgString (sf_ClusterID (se_Scope e)), ArgString (sf_APIGroup (se_Scope e)), ArgString (se_APIVersion e),
      ArgString (sf_Kind (se_Scope e)), ArgString (sf_Namespace (se_Scope e)), ArgString (se_Action e), ArgString (se_RuleRef e)]"

text \<open>The driver's side of the scope table: whether it takes a row, and how the attempts of each flush end.\<close>

record scope_backend =
  sb_append :: "ch_row \<Rightarrow> bool"
  sb_answers :: "nat \<Rightarrow> send_answer list"

definition sendScopeBatchOnce :: "scope_backend \<Rightarrow> send_answer \<Rightarrow> ScopeEvent list \<Rightarrow> bool \<times> ch_row list" where
  "sendScopeBatchOnce b answer batch =
     (case answer of
        PrepareFailed \<Rightarrow> (False, [])
      | SendOK \<Rightarrow> (if list_all (\<lambda>e. sb_append b (scopeInsertArgs e)) batch then (True, map scopeInsertArgs batch) else (False, []))
      | SendFailed marks \<Rightarrow>
          (if list_all (\<lambda>e. sb_append b (scopeInsertArgs e)) batch then (False, landed_rows marks (map scopeInsertArgs batch)) else (False, [])))"

fun retryScopeBatch :: "scope_backend \<Rightarrow> send_answer list \<Rightarrow> ScopeEvent list \<Rightarrow> bool \<times> ch_row list list" where
  "retryScopeBatch b [] batch = (False, [])"
| "retryScopeBatch b (answer # answers) batch =
     (case sendScopeBatchOnce b answer batch of
        (True, rows) \<Rightarrow> (True, [rows])
      | (False, rows) \<Rightarrow> (let (ok, more_rows) = retryScopeBatch b answers batch in (ok, rows # more_rows)))"

definition ch_flushScopeBatch :: "scope_backend \<Rightarrow> ScopeEvent list \<Rightarrow> ch_row list scope_worker \<Rightarrow> ch_row list scope_worker" where
  "ch_flushScopeBatch b batch w =
     (if batch = [] then w
      else let (ok, rows) = retryScopeBatch b (sb_answers b (sk_flushes w)) batch;
               w = w\<lparr>sk_puts := sk_puts w @ rows, sk_flushes := sk_flushes w + 1\<rparr>
           in if ok then w\<lparr>sk_written := sk_written w @ [batch]\<rparr> else queueScopeRetries batch w)"

text \<open>The worker is the shared loop over this flush, and the queue is the shared one.\<close>

definition ch_scopeWorker :: "scope_backend \<Rightarrow> scope_worker_event \<Rightarrow> ch_row list scope_worker \<Rightarrow> ch_row list scope_worker" where
  "ch_scopeWorker b = scope_worker_loop (ch_flushScopeBatch b)"

definition ch_EnqueueScopeEvent ::
    "select_answer \<Rightarrow> ScopeEvent \<Rightarrow> 'c CHWriter \<times> ScopeEvent list \<Rightarrow> enqueue_error option \<times> ScopeEvent list" where
  "ch_EnqueueScopeEvent answer event wq = EnqueueScopeEvent (chw_closing (fst wq)) answer event (snd wq)"

lemma retryScopeBatch_rows: "retryScopeBatch b answers batch = (True, rows) \<Longrightarrow> map scopeInsertArgs batch \<in> set rows"
proof (induction b answers batch arbitrary: rows rule: retryScopeBatch.induct)
  case (2 b answer answers batch)
  obtain ok1 rows1 where once: "sendScopeBatchOnce b answer batch = (ok1, rows1)" by (cases "sendScopeBatchOnce b answer batch")
  show ?case
  proof (cases ok1)
    case True
    with once have "rows1 = map scopeInsertArgs batch" by (auto simp: sendScopeBatchOnce_def split: send_answer.splits if_splits)
    with 2(2) once True show ?thesis by auto
  next
    case False
    obtain ok2 rows2 where rest: "retryScopeBatch b answers batch = (ok2, rows2)" by (cases "retryScopeBatch b answers batch")
    with 2 once False show ?thesis by auto
  qed
qed simp

interpretation chs: scope_flush ch_flushScopeBatch "\<lambda>rows b. rows = map scopeInsertArgs b" "\<lambda>_. True"
proof (unfold_locales, goal_cases)
  case (1 b env w)
  show ?case
  proof (cases "b = []")
    case True
    then show ?thesis by (simp add: ch_flushScopeBatch_def)
  next
    case ne: False
    obtain ok rows where retry: "retryScopeBatch env (sb_answers env (sk_flushes w)) b = (ok, rows)"
      by (cases "retryScopeBatch env (sb_answers env (sk_flushes w)) b")
    show ?thesis
    proof (cases ok)
      case True
      then have "map scopeInsertArgs b \<in> set rows" using retryScopeBatch_rows [of env] retry by simp
      moreover have "ch_flushScopeBatch env b w = w\<lparr>sk_puts := sk_puts w @ rows, sk_flushes := sk_flushes w + 1, sk_written := sk_written w @ [b]\<rparr>"
        using ne retry True by (simp add: ch_flushScopeBatch_def)
      ultimately show ?thesis by blast
    next
      case False
      with ne retry have "ch_flushScopeBatch env b w = queueScopeRetries b (w\<lparr>sk_puts := sk_puts w @ rows, sk_flushes := sk_flushes w + 1\<rparr>)"
        by (simp add: ch_flushScopeBatch_def)
      then show ?thesis by blast
    qed
  qed
qed

text \<open>
  The ClickHouse scope writer loses no transition while it runs: each one received is among the rows of a
  batch that was acknowledged, on the retry queue or in the batch being filled, in the order received, unless
  more were received than the retry queue holds; each acknowledged batch is in the table row by row.
\<close>

theorem ch_scope_transitions_kept:
  assumes "ScopeQueueClosed \<notin> snd ` set evs" and "w = scope_run ch_flushScopeBatch evs"
    and "length (sk_taken w) \<le> scopeRetryQueueMaxLen"
  shows "mset (sk_taken w) = mset (concat (sk_written w)) + mset (sk_retries w @ sk_batch w)
    \<and> subseq (sk_retries w @ sk_batch w) (sk_taken w)
    \<and> (\<forall>b \<in> set (sk_written w). subseq b (sk_taken w) \<and> map scopeInsertArgs b \<in> set (sk_puts w))"
proof -
  note inv = chs.scope_run_inv [OF assms(1), folded assms(2), unfolded scope_inv_def scope_accounts_def drop_excused_def]
  have "sk_dropped w = []" using inv assms(3) by auto
  moreover have "\<forall>b \<in> set (sk_written w). subseq b (sk_taken w) \<and> map scopeInsertArgs b \<in> set (sk_puts w)" using inv by metis
  ultimately show ?thesis using inv by simp
qed

text \<open>A started epoch whose insert fails once, and its end received before the retry tick.\<close>

definition sampleEdge :: "string \<Rightarrow> go_time \<Rightarrow> ScopeEvent" where
  "sampleEdge action ts =
     \<lparr>se_Action = action, se_Scope = \<lparr>sf_ClusterID = ''prod'', sf_APIGroup = [], sf_Kind = ''Pod'', sf_Namespace = []\<rparr>,
      se_APIVersion = ''v1'', se_RuleRef = ''r'', se_TS = ts\<rparr>"

definition sampleEdges :: "(scope_backend \<times> scope_worker_event) list" where
  "sampleEdges =
     (let down = \<lparr>sb_append = (\<lambda>_. True), sb_answers = (\<lambda>_. [PrepareFailed])\<rparr>
      in [(down, ScopeReceived (sampleEdge ''Started'' 1)), (down, ScopeBatchTimer), (down, ScopeReceived (sampleEdge ''Stopped'' 2))])"

lemma sampleEdges_run:
  "sk_taken (scope_run ch_flushScopeBatch sampleEdges) = [sampleEdge ''Started'' 1, sampleEdge ''Stopped'' 2]"
  "sk_retries (scope_run ch_flushScopeBatch sampleEdges) = [sampleEdge ''Started'' 1]"
  "sk_batch (scope_run ch_flushScopeBatch sampleEdges) = [sampleEdge ''Stopped'' 2]"
  "sk_written (scope_run ch_flushScopeBatch sampleEdges) = []" "sk_flushes (scope_run ch_flushScopeBatch sampleEdges) = 1"
  by (simp_all add: scope_run_def sampleEdges_def scope_worker_new_def scopeBatchMaxRows_def ch_flushScopeBatch_def sendScopeBatchOnce_def
    queueScopeRetries_def scopeRetryQueueMaxLen_def Let_def)

theorem ch_scope_transitions_kept_witness:
  "subseq [sampleEdge ''Started'' 1, sampleEdge ''Stopped'' 2] (sk_taken (scope_run ch_flushScopeBatch sampleEdges))"
proof -
  have "ScopeQueueClosed \<notin> snd ` set sampleEdges" by (simp add: sampleEdges_def Let_def)
  then show ?thesis using ch_scope_transitions_kept [OF _ refl, of sampleEdges] by (simp add: sampleEdges_run scopeRetryQueueMaxLen_def)
qed

text \<open>The final drain writes the parked transition after the newer one here too.\<close>

lemma ch_scope_drain_reorders:
  "sk_written (scope_run ch_flushScopeBatch (sampleEdges @ [(\<lparr>sb_append = (\<lambda>_. True), sb_answers = (\<lambda>_. [SendOK])\<rparr>, ScopeQueueClosed)])) =
     [[sampleEdge ''Stopped'' 2, sampleEdge ''Started'' 1]]"
  by (simp add: scope_run_snoc takeScopeRetries_def sampleEdges_run ch_flushScopeBatch_def sendScopeBatchOnce_def)

end
