(* ===== verification/SinkManager.thy ===== *)
theory SinkManager
  imports Identity
begin

text \<open>
  The sink runtime (\<open>internal/sink/manager.go\<close>): which instance serves a sink, how one is replaced, how a
  deleted sink is drained and forgotten, and the shutdown.

  \<^item> An instance is an address of the heap; the routing table maps a sink to one. The backend is a parameter:
    the factory builds a writer or fails, and says which optional halves of the contract the writer has.
  \<^item> \<open>mu\<close> serializes \<open>Ensure\<close>, \<open>Delete\<close>, the check of a delete's tail and the two critical sections of \<open>Start\<close>:
    each is one step. A goroutine the manager starts (the drain of a replaced instance, the tail of a delete)
    is an entry of the state, and its own steps interleave with everything else.
  \<^item> The calls the tail makes to the pipeline, the warm-up coordinator and the rules are kept as history.
\<close>

section \<open>State\<close>

record 'w built_writer =
  bw_writer :: 'w
  bw_StateReader :: bool
  bw_ScopeEventWriter :: bool
  bw_Prober :: bool

record 'w liveSink =
  ls_id :: sink_id
  ls_fingerprint :: string
  ls_writer :: 'w
  ls_reader :: "'w option"
  ls_events :: "'w option"
  ls_prober :: "'w option"
  ls_cancelled :: bool
  ls_done :: bool

definition newLiveSink :: "sink_id \<Rightarrow> string \<Rightarrow> 'w built_writer \<Rightarrow> 'w liveSink" where
  "newLiveSink i fingerprint b =
     \<lparr>ls_id = i, ls_fingerprint = fingerprint, ls_writer = bw_writer b,
      ls_reader = (if bw_StateReader b then Some (bw_writer b) else None),
      ls_events = (if bw_ScopeEventWriter b then Some (bw_writer b) else None),
      ls_prober = (if bw_Prober b then Some (bw_writer b) else None), ls_cancelled = False, ls_done = False\<rparr>"

definition capabilities :: "'w liveSink \<Rightarrow> bool" where
  "capabilities inst = (ls_reader inst \<noteq> None)"

text \<open>The tail of a delete: it drains the instance it took out of the table, checks, then evicts and parks.\<close>

datatype delete_tail =
    TailDraining sink_id "nat option"
  | TailDrained sink_id "nat option"
  | TailEvicting sink_id "nat option"

datatype manager_call = CallRemoveSink sink_id "nat option" | CallForgetSink sink_id | CallPark sink_id "string list"

record ('w, 'g) SinkManager =
  mg_heap :: "'w liveSink list"
  mg_live :: "(sink_id, nat) gomap"
  mg_started :: bool
  mg_ctxDone :: bool
  mg_pending :: "(sink_id, 'g) gomap"
  mg_stopped :: bool
  mg_drains :: "nat list"
  mg_tails :: "delete_tail list"
  mg_abandoned :: "nat list"
  mg_calls :: "manager_call list"

record manager_options =
  mo_hasWarm :: bool
  mo_dependents :: "(sink_id \<Rightarrow> string list) option"
  mo_hasPark :: bool

definition NewSinkManager :: "('w, 'g) SinkManager" where
  "NewSinkManager =
     \<lparr>mg_heap = [], mg_live = [], mg_started = False, mg_ctxDone = False, mg_pending = [], mg_stopped = False,
      mg_drains = [], mg_tails = [], mg_abandoned = [], mg_calls = []\<rparr>"

datatype manager_error = IncompleteID | NoConfiguration | ManagerStopped | BuildFailed

section \<open>Operations\<close>

definition swapLocked :: "sink_id \<Rightarrow> nat option \<Rightarrow> ('w, 'g) SinkManager \<Rightarrow> ('w, 'g) SinkManager" where
  "swapLocked i inst m =
     m\<lparr>mg_live := (case inst of None \<Rightarrow> gm_del i (mg_live m) | Some a \<Rightarrow> gm_set i a (mg_live m))\<rparr>"

definition manager_startLocked :: "'w liveSink \<Rightarrow> ('w, 'g) SinkManager \<Rightarrow> nat \<times> ('w, 'g) SinkManager" where
  "manager_startLocked inst m = (length (mg_heap m), m\<lparr>mg_heap := mg_heap m @ [inst]\<rparr>)"

definition ensureLocked ::
    "('g \<Rightarrow> string) \<Rightarrow> (sink_id \<Rightarrow> 'g \<Rightarrow> 'w built_writer option) \<Rightarrow> sink_id \<Rightarrow> 'g \<Rightarrow> ('w, 'g) SinkManager \<Rightarrow> manager_error option \<times> ('w, 'g) SinkManager" where
  "ensureLocked fp factory i cfg m =
     (let fingerprint = fp cfg; current = gm_get (mg_live m) i
      in if (case current of None \<Rightarrow> False | Some a \<Rightarrow> ls_fingerprint (mg_heap m ! a) = fingerprint) then (None, m)
         else case factory i cfg of
                None \<Rightarrow> (Some BuildFailed, m)
              | Some b \<Rightarrow>
                  (let (a, m) = manager_startLocked (newLiveSink i fingerprint b) m;
                       m = swapLocked i (Some a) m
                   in (None, case current of None \<Rightarrow> m | Some old \<Rightarrow> m\<lparr>mg_drains := mg_drains m @ [old]\<rparr>)))"

definition Ensure ::
    "('g \<Rightarrow> string) \<Rightarrow> (sink_id \<Rightarrow> 'g \<Rightarrow> 'w built_writer option) \<Rightarrow> sink_id \<Rightarrow> 'g option \<Rightarrow> ('w, 'g) SinkManager \<Rightarrow> manager_error option \<times> ('w, 'g) SinkManager" where
  "Ensure fp factory i cfg m =
     (if id_kind i = [] \<or> id_name i = [] then (Some IncompleteID, m)
      else case cfg of
             None \<Rightarrow> (Some NoConfiguration, m)
           | Some c \<Rightarrow>
               (if mg_stopped m then (Some ManagerStopped, m)
                else if \<not> mg_started m then (None, m\<lparr>mg_pending := gm_set i c (mg_pending m)\<rparr>)
                else ensureLocked fp factory i c m))"

definition manager_Start ::
    "('g \<Rightarrow> string) \<Rightarrow> (sink_id \<Rightarrow> 'g \<Rightarrow> 'w built_writer option) \<Rightarrow> ('w, 'g) SinkManager \<Rightarrow> ('w, 'g) SinkManager" where
  "manager_Start fp factory m =
     (let pending = mg_pending m
      in fold (\<lambda>i m. case gm_get pending i of None \<Rightarrow> m | Some c \<Rightarrow> snd (ensureLocked fp factory i c m))
           (sort (gm_keys pending)) (m\<lparr>mg_pending := [], mg_started := True\<rparr>))"

definition Delete :: "sink_id \<Rightarrow> ('w, 'g) SinkManager \<Rightarrow> ('w, 'g) SinkManager" where
  "Delete i m =
     (if mg_stopped m then m
      else let m = m\<lparr>mg_pending := gm_del i (mg_pending m)\<rparr>;
               current = gm_get (mg_live m) i;
               m = (if current \<noteq> None then swapLocked i None m else m)
           in m\<lparr>mg_tails := mg_tails m @ [TailDraining i current]\<rparr>)"

text \<open>The second critical section of \<open>Start\<close>, once its context is done; every instance is then drained.\<close>

definition manager_shutdown :: "('w, 'g) SinkManager \<Rightarrow> ('w, 'g) SinkManager" where
  "manager_shutdown m = m\<lparr>mg_stopped := True, mg_drains := mg_drains m @ map snd (mg_live m), mg_live := []\<rparr>"

text \<open>
  \<open>drain\<close> cancels, then waits for the writer to return or for the timeout; an instance whose wait timed out is
  noted as abandoned. Deleting a sink that was not live drains nothing.
\<close>

definition cancel_inst :: "nat \<Rightarrow> ('w, 'g) SinkManager \<Rightarrow> ('w, 'g) SinkManager" where
  "cancel_inst a m = m\<lparr>mg_heap := (mg_heap m)[a := (mg_heap m ! a)\<lparr>ls_cancelled := True\<rparr>]\<rparr>"

definition drain_wait :: "nat \<Rightarrow> ('w, 'g) SinkManager \<Rightarrow> ('w, 'g) SinkManager" where
  "drain_wait a m = (if ls_done (mg_heap m ! a) then m else m\<lparr>mg_abandoned := mg_abandoned m @ [a]\<rparr>)"

definition parkDependents :: "manager_options \<Rightarrow> sink_id \<Rightarrow> manager_call list" where
  "parkDependents opts i =
     (if \<not> mo_hasPark opts then []
      else [CallPark i (case mo_dependents opts of None \<Rightarrow> [] | Some f \<Rightarrow> f i)])"

definition evictCalls :: "manager_options \<Rightarrow> sink_id \<Rightarrow> nat option \<Rightarrow> manager_call list" where
  "evictCalls opts i inst =
     [CallRemoveSink i inst] @ (if mo_hasWarm opts then [CallForgetSink i] else []) @ parkDependents opts i"

text \<open>The steps of a delete's tail.\<close>

fun finishDelete :: "manager_options \<Rightarrow> delete_tail \<Rightarrow> ('w, 'g) SinkManager \<Rightarrow> delete_tail option \<times> ('w, 'g) SinkManager" where
  "finishDelete opts (TailDraining i inst) m = (Some (TailDrained i inst), case inst of None \<Rightarrow> m | Some a \<Rightarrow> drain_wait a m)"
| "finishDelete opts (TailDrained i inst) m = (if gm_get (mg_live m) i \<noteq> None then None else Some (TailEvicting i inst), m)"
| "finishDelete opts (TailEvicting i inst) m = (None, m\<lparr>mg_calls := mg_calls m @ evictCalls opts i inst\<rparr>)"

definition put_tail :: "nat \<Rightarrow> delete_tail option \<Rightarrow> ('w, 'g) SinkManager \<Rightarrow> ('w, 'g) SinkManager" where
  "put_tail n t m =
     m\<lparr>mg_tails := (case t of None \<Rightarrow> take n (mg_tails m) @ drop (Suc n) (mg_tails m) | Some t \<Rightarrow> (mg_tails m)[n := t])\<rparr>"

section \<open>Routing\<close>

definition WriterFor :: "('w, 'g) SinkManager \<Rightarrow> sink_id \<Rightarrow> 'w option" where
  "WriterFor m i = map_option (\<lambda>a. ls_writer (mg_heap m ! a)) (gm_get (mg_live m) i)"

definition StateReaderFor :: "('w, 'g) SinkManager \<Rightarrow> sink_id \<Rightarrow> 'w option" where
  "StateReaderFor m i = (case gm_get (mg_live m) i of None \<Rightarrow> None | Some a \<Rightarrow> ls_reader (mg_heap m ! a))"

definition ScopeEventWriterFor :: "('w, 'g) SinkManager \<Rightarrow> sink_id \<Rightarrow> 'w option" where
  "ScopeEventWriterFor m i = (case gm_get (mg_live m) i of None \<Rightarrow> None | Some a \<Rightarrow> ls_events (mg_heap m ! a))"

definition CapabilitiesFor :: "('w, 'g) SinkManager \<Rightarrow> sink_id \<Rightarrow> bool option" where
  "CapabilitiesFor m i = map_option (\<lambda>a. capabilities (mg_heap m ! a)) (gm_get (mg_live m) i)"

definition SinkIDs :: "('w, 'g) SinkManager \<Rightarrow> sink_id list" where
  "SinkIDs m = sort (gm_keys (mg_live m))"

section \<open>Probing\<close>

datatype probe_error = ErrSchemaInvalid | ErrCredentialsUnavailable | ErrOther

record ProbeResult =
  pr_Sink :: sink_id
  pr_At :: go_time
  pr_Err :: "probe_error option"
  pr_Reason :: string

definition probe :: "'w liveSink \<Rightarrow> go_time \<Rightarrow> probe_error option \<Rightarrow> ProbeResult" where
  "probe inst now err =
     \<lparr>pr_Sink = ls_id inst, pr_At = now, pr_Err = err,
      pr_Reason = (case err of
                     None \<Rightarrow> []
                   | Some ErrSchemaInvalid \<Rightarrow> ''SchemaInvalid''
                   | Some ErrCredentialsUnavailable \<Rightarrow> ''CredentialsInvalid''
                   | Some ErrOther \<Rightarrow> ''Unreachable'')\<rparr>"

text \<open>The back-off library is a parameter: a state, its reset, and the next delay.\<close>

record 'b backoff_lib =
  bo_Reset :: "'b \<Rightarrow> 'b"
  bo_Next :: "'b \<Rightarrow> go_duration \<times> 'b"

definition nextProbeDelay :: "'b backoff_lib \<Rightarrow> go_duration \<Rightarrow> go_duration \<Rightarrow> bool \<Rightarrow> 'b \<Rightarrow> go_duration \<times> 'b" where
  "nextProbeDelay lib probeInterval probeMaxBackoff failed eb =
     (if \<not> failed then (probeInterval, bo_Reset lib eb)
      else let (delay, eb) = bo_Next lib eb in if delay \<le> 0 then (probeMaxBackoff, eb) else (delay, eb))"

section \<open>Every interleaving\<close>

text \<open>What the goroutines of the manager and of its instances do on their own.\<close>

inductive bg_step :: "manager_options \<Rightarrow> ('w, 'g) SinkManager \<Rightarrow> ('w, 'g) SinkManager \<Rightarrow> bool" for opts where
  drain_cancels: "a \<in> set (mg_drains m) \<Longrightarrow> \<not> ls_cancelled (mg_heap m ! a) \<Longrightarrow> bg_step opts m (cancel_inst a m)"
| drain_ends: "mg_drains m = xs @ a # ys \<Longrightarrow> ls_cancelled (mg_heap m ! a) \<Longrightarrow> bg_step opts m ((drain_wait a m)\<lparr>mg_drains := xs @ ys\<rparr>)"
| tail_cancels: "n < length (mg_tails m) \<Longrightarrow> mg_tails m ! n = TailDraining i (Some a) \<Longrightarrow> \<not> ls_cancelled (mg_heap m ! a) \<Longrightarrow>
    bg_step opts m (cancel_inst a m)"
| tail_moves: "n < length (mg_tails m) \<Longrightarrow> (\<forall>i a. mg_tails m ! n = TailDraining i (Some a) \<longrightarrow> ls_cancelled (mg_heap m ! a)) \<Longrightarrow>
    finishDelete opts (mg_tails m ! n) m = (t, m') \<Longrightarrow> bg_step opts m (put_tail n t m')"

inductive mg_reachable :: "manager_options \<Rightarrow> ('g \<Rightarrow> string) \<Rightarrow> ('w, 'g) SinkManager \<Rightarrow> bool" for opts fp where
  mg_new: "mg_reachable opts fp NewSinkManager"
| mg_start: "mg_reachable opts fp m \<Longrightarrow> \<not> mg_started m \<Longrightarrow> mg_reachable opts fp (manager_Start fp factory m)"
| mg_ensure: "mg_reachable opts fp m \<Longrightarrow> mg_reachable opts fp (snd (Ensure fp factory i cfg m))"
| mg_delete: "mg_reachable opts fp m \<Longrightarrow> mg_reachable opts fp (Delete i m)"
| mg_cancel: "mg_reachable opts fp m \<Longrightarrow> mg_reachable opts fp (m\<lparr>mg_ctxDone := True\<rparr>)"
| mg_shutdown: "mg_reachable opts fp m \<Longrightarrow> mg_started m \<Longrightarrow> mg_ctxDone m \<Longrightarrow> \<not> mg_stopped m \<Longrightarrow> mg_reachable opts fp (manager_shutdown m)"
| mg_writer_returns: "mg_reachable opts fp m \<Longrightarrow> a < length (mg_heap m) \<Longrightarrow>
    mg_reachable opts fp (m\<lparr>mg_heap := (mg_heap m)[a := (mg_heap m ! a)\<lparr>ls_done := True\<rparr>]\<rparr>)"
| mg_background: "mg_reachable opts fp m \<Longrightarrow> bg_step opts m m' \<Longrightarrow> mg_reachable opts fp m'"

section \<open>The invariant\<close>

fun tail_inst :: "delete_tail \<Rightarrow> nat option" where
  "tail_inst (TailDraining i inst) = inst"
| "tail_inst (TailDrained i inst) = inst"
| "tail_inst (TailEvicting i inst) = inst"

fun tail_drained :: "delete_tail \<Rightarrow> bool" where
  "tail_drained (TailDraining i inst) = False"
| "tail_drained t = True"

text \<open>An instance is drained when its context was cancelled and its writer returned, or the wait was abandoned.\<close>

definition drained_inst :: "('w, 'g) SinkManager \<Rightarrow> nat \<Rightarrow> bool" where
  "drained_inst m a \<longleftrightarrow> ls_cancelled (mg_heap m ! a) \<and> (ls_done (mg_heap m ! a) \<or> a \<in> set (mg_abandoned m))"

definition routes_ok :: "('w, 'g) SinkManager \<Rightarrow> bool" where
  "routes_ok m \<longleftrightarrow>
     gm_wf (mg_live m)
     \<and> (\<forall>i a. gm_get (mg_live m) i = Some a \<longrightarrow>
          a < length (mg_heap m) \<and> ls_id (mg_heap m ! a) = i \<and> \<not> ls_cancelled (mg_heap m ! a)
          \<and> a \<notin> set (mg_drains m) \<and> Some a \<notin> tail_inst ` set (mg_tails m))"

definition owned_ok :: "('w, 'g) SinkManager \<Rightarrow> bool" where
  "owned_ok m \<longleftrightarrow>
     (\<forall>a < length (mg_heap m).
        (\<exists>i. gm_get (mg_live m) i = Some a) \<or> a \<in> set (mg_drains m) \<or> Some a \<in> tail_inst ` set (mg_tails m) \<or> ls_cancelled (mg_heap m ! a))
     \<and> (\<forall>a \<in> set (mg_drains m). a < length (mg_heap m))
     \<and> (\<forall>t \<in> set (mg_tails m). \<forall>a. tail_inst t = Some a \<longrightarrow> a < length (mg_heap m) \<and> (tail_drained t \<longrightarrow> drained_inst m a))"

definition calls_ok :: "('w, 'g) SinkManager \<Rightarrow> bool" where
  "calls_ok m \<longleftrightarrow> (\<forall>i a. CallRemoveSink i (Some a) \<in> set (mg_calls m) \<longrightarrow> a < length (mg_heap m) \<and> drained_inst m a)"

definition mg_inv :: "('w, 'g) SinkManager \<Rightarrow> bool" where
  "mg_inv m \<longleftrightarrow> routes_ok m \<and> owned_ok m \<and> calls_ok m \<and> (\<not> mg_started m \<or> mg_stopped m \<longrightarrow> mg_live m = [])"

lemmas mg_inv_defs = mg_inv_def routes_ok_def owned_ok_def calls_ok_def

lemma inst_bounds:
  "routes_ok m \<Longrightarrow> gm_get (mg_live m) i = Some a \<Longrightarrow> a < length (mg_heap m)"
  "owned_ok m \<Longrightarrow> a \<in> set (mg_drains m) \<Longrightarrow> a < length (mg_heap m)"
  "owned_ok m \<Longrightarrow> Some a \<in> tail_inst ` set (mg_tails m) \<Longrightarrow> a < length (mg_heap m)"
  unfolding routes_ok_def owned_ok_def by blast (blast, force)

lemma owned_cases:
  assumes "owned_ok m" and "a < length (mg_heap m)"
  obtains (routed) i where "gm_get (mg_live m) i = Some a" | (draining) "a \<in> set (mg_drains m)"
    | (tail) "Some a \<in> tail_inst ` set (mg_tails m)" | (cancelled) "ls_cancelled (mg_heap m ! a)"
  using assms unfolding owned_ok_def by blast

lemma routed_id: "routes_ok m \<Longrightarrow> gm_get (mg_live m) i = Some a \<Longrightarrow> gm_get (mg_live m) j = Some a \<Longrightarrow> i = j"
  unfolding routes_ok_def by metis

lemma ok_flags [simp]:
  "routes_ok (m\<lparr>mg_pending := p\<rparr>) = routes_ok m" "routes_ok (m\<lparr>mg_ctxDone := x\<rparr>) = routes_ok m" "routes_ok (m\<lparr>mg_started := y\<rparr>) = routes_ok m"
  "owned_ok (m\<lparr>mg_pending := p\<rparr>) = owned_ok m" "owned_ok (m\<lparr>mg_ctxDone := x\<rparr>) = owned_ok m" "owned_ok (m\<lparr>mg_started := y\<rparr>) = owned_ok m"
  "calls_ok (m\<lparr>mg_pending := p\<rparr>) = calls_ok m" "calls_ok (m\<lparr>mg_ctxDone := x\<rparr>) = calls_ok m" "calls_ok (m\<lparr>mg_started := y\<rparr>) = calls_ok m"
  by (simp_all add: routes_ok_def owned_ok_def calls_ok_def drained_inst_def)

lemma inv_new: "mg_inv NewSinkManager"
  by (simp add: mg_inv_defs NewSinkManager_def)

text \<open>Starting an instance under a name: the heap grows, the table routes to it, and the one it replaces is drained.\<close>

lemma ensureLocked_cases:
  obtains (kept) "snd (ensureLocked fp factory i c m) = m"
  | (first) b where "gm_get (mg_live m) i = None" "factory i c = Some b"
      "snd (ensureLocked fp factory i c m) =
        m\<lparr>mg_heap := mg_heap m @ [newLiveSink i (fp c) b], mg_live := gm_set i (length (mg_heap m)) (mg_live m)\<rparr>"
  | (recycled) old b where "gm_get (mg_live m) i = Some old" "factory i c = Some b"
      "snd (ensureLocked fp factory i c m) =
        m\<lparr>mg_heap := mg_heap m @ [newLiveSink i (fp c) b], mg_live := gm_set i (length (mg_heap m)) (mg_live m), mg_drains := mg_drains m @ [old]\<rparr>"
proof (cases "factory i c")
  case None
  then have "snd (ensureLocked fp factory i c m) = m" by (simp add: ensureLocked_def Let_def)
  then show ?thesis by (rule kept)
next
  case (Some b)
  show ?thesis
  proof (cases "gm_get (mg_live m) i")
    case None
    with first Some show ?thesis by (simp add: ensureLocked_def manager_startLocked_def swapLocked_def Let_def)
  next
    case (Some old)
    show ?thesis
    proof (cases "ls_fingerprint (mg_heap m ! old) = fp c")
      case True
      with Some have "snd (ensureLocked fp factory i c m) = m" by (simp add: ensureLocked_def Let_def)
      then show ?thesis by (rule kept)
    next
      case False
      with recycled Some \<open>factory i c = Some b\<close> show ?thesis by (simp add: ensureLocked_def manager_startLocked_def swapLocked_def Let_def)
    qed
  qed
qed

lemma heap_append:
  "a < length (mg_heap m) \<Longrightarrow> (mg_heap m @ [x]) ! a = mg_heap m ! a"
  by (simp add: nth_append)

lemma drained_append:
  "a < length (mg_heap m) \<Longrightarrow> drained_inst (m\<lparr>mg_heap := mg_heap m @ [x], mg_live := l, mg_drains := d\<rparr>) a = drained_inst m a"
  by (simp add: drained_inst_def heap_append)

lemma inv_grow:
  assumes "mg_inv m" and "mg_started m" "\<not> mg_stopped m" and d: "d = (case gm_get (mg_live m) i of None \<Rightarrow> mg_drains m | Some old \<Rightarrow> mg_drains m @ [old])"
    and x: "ls_id x = i" "\<not> ls_cancelled x"
  shows "mg_inv (m\<lparr>mg_heap := mg_heap m @ [x], mg_live := gm_set i (length (mg_heap m)) (mg_live m), mg_drains := d\<rparr>)" (is "mg_inv ?m")
proof -
  have inv: "routes_ok m" "owned_ok m" "calls_ok m" using assms(1) by (simp_all add: mg_inv_def)
  have dset: "set d = set (mg_drains m) \<union> set_option (gm_get (mg_live m) i)" by (auto simp: d split: option.splits)
  have fresh: "length (mg_heap m) \<notin> set d" "Some (length (mg_heap m)) \<notin> tail_inst ` set (mg_tails m)"
    using inst_bounds(1) [OF inv(1)] inst_bounds(2,3) [OF inv(2)] by (fastforce simp: dset)+
  have "routes_ok ?m"
    unfolding routes_ok_def
  proof (intro conjI allI impI)
    show "gm_wf (mg_live ?m)" using inv(1) by (simp add: routes_ok_def)
    fix j a assume "gm_get (mg_live ?m) j = Some a"
    then consider "j = i" "a = length (mg_heap m)" | "j \<noteq> i" "gm_get (mg_live m) j = Some a" by (auto split: if_splits)
    then have "a < length (mg_heap ?m) \<and> ls_id (mg_heap ?m ! a) = j \<and> \<not> ls_cancelled (mg_heap ?m ! a) \<and> a \<notin> set (mg_drains ?m)
      \<and> Some a \<notin> tail_inst ` set (mg_tails ?m)"
    proof cases
      case 1
      with x fresh show ?thesis by simp
    next
      case 2
      then have r: "a < length (mg_heap m)" "ls_id (mg_heap m ! a) = j" "\<not> ls_cancelled (mg_heap m ! a)" "a \<notin> set (mg_drains m)"
        "Some a \<notin> tail_inst ` set (mg_tails m)" using inv(1) by (auto simp: routes_ok_def)
      moreover have "gm_get (mg_live m) i \<noteq> Some a" using 2 routed_id [OF inv(1)] by blast
      ultimately show ?thesis by (auto simp: dset nth_append)
    qed
    then show "a < length (mg_heap ?m)" "ls_id (mg_heap ?m ! a) = j" "\<not> ls_cancelled (mg_heap ?m ! a)" "a \<notin> set (mg_drains ?m)"
      "Some a \<notin> tail_inst ` set (mg_tails ?m)" by blast+
  qed
  moreover have "owned_ok ?m"
    unfolding owned_ok_def
  proof (intro conjI allI impI ballI)
    fix a assume a: "a < length (mg_heap ?m)"
    show "(\<exists>i. gm_get (mg_live ?m) i = Some a) \<or> a \<in> set (mg_drains ?m) \<or> Some a \<in> tail_inst ` set (mg_tails ?m) \<or> ls_cancelled (mg_heap ?m ! a)"
    proof (cases "a = length (mg_heap m)")
      case True
      then have "gm_get (mg_live ?m) i = Some a" by simp
      then show ?thesis by blast
    next
      case False
      with a have lt: "a < length (mg_heap m)" by simp
      from inv(2) lt show ?thesis
      proof (cases rule: owned_cases)
        case (routed j)
        then show ?thesis by (cases "j = i") (auto simp: dset intro: exI [of _ j])
      qed (use lt in \<open>simp_all add: dset nth_append\<close>)
    qed
  next
    fix a assume "a \<in> set (mg_drains ?m)"
    then show "a < length (mg_heap ?m)" using inv(1,2) by (auto simp: dset routes_ok_def owned_ok_def intro: less_SucI)
  next
    fix t a assume "t \<in> set (mg_tails ?m)" "tail_inst t = Some a"
    then have "a < length (mg_heap m)" "tail_drained t \<Longrightarrow> drained_inst m a" using inv(2) by (auto simp: owned_ok_def)
    then show "a < length (mg_heap ?m)" "tail_drained t \<Longrightarrow> drained_inst ?m a" by (simp_all add: drained_append)
  qed
  moreover have "calls_ok ?m" using inv(3) by (auto simp: calls_ok_def drained_append intro: less_SucI)
  ultimately show ?thesis using assms(2,3) by (simp add: mg_inv_def)
qed

lemma ensureLocked_flags [simp]:
  "mg_started (snd (ensureLocked fp factory i c m)) = mg_started m" "mg_stopped (snd (ensureLocked fp factory i c m)) = mg_stopped m"
  by (rule ensureLocked_cases [of fp factory i c m]; simp)+

lemma inv_ensureLocked:
  assumes "mg_inv m" "mg_started m" "\<not> mg_stopped m"
  shows "mg_inv (snd (ensureLocked fp factory i c m))"
proof (rule ensureLocked_cases [of fp factory i c m])
  fix b assume "gm_get (mg_live m) i = None" "snd (ensureLocked fp factory i c m) =
    m\<lparr>mg_heap := mg_heap m @ [newLiveSink i (fp c) b], mg_live := gm_set i (length (mg_heap m)) (mg_live m)\<rparr>"
  then show ?thesis using inv_grow [OF assms, of "mg_drains m" i "newLiveSink i (fp c) b"] by (simp add: newLiveSink_def)
next
  fix old b assume "gm_get (mg_live m) i = Some old" "snd (ensureLocked fp factory i c m) =
    m\<lparr>mg_heap := mg_heap m @ [newLiveSink i (fp c) b], mg_live := gm_set i (length (mg_heap m)) (mg_live m), mg_drains := mg_drains m @ [old]\<rparr>"
  then show ?thesis using inv_grow [OF assms, of "mg_drains m @ [old]" i "newLiveSink i (fp c) b"] by (simp add: newLiveSink_def)
qed (use assms in simp)

lemma inv_flags:
  "mg_inv m \<Longrightarrow> mg_inv (m\<lparr>mg_pending := p\<rparr>)" "mg_inv m \<Longrightarrow> mg_inv (m\<lparr>mg_ctxDone := x\<rparr>)"
  "mg_inv m \<Longrightarrow> \<not> mg_started m \<Longrightarrow> mg_inv (m\<lparr>mg_pending := p, mg_started := True\<rparr>)"
  by (auto simp: mg_inv_def)

lemma inv_ensure: "mg_inv m \<Longrightarrow> mg_inv (snd (Ensure fp factory i cfg m))"
  by (auto simp: Ensure_def inv_flags inv_ensureLocked split: option.splits)

lemma inv_start:
  assumes "mg_inv m" "\<not> mg_started m" "\<not> mg_stopped m"
  shows "mg_inv (manager_Start fp factory m)"
proof -
  have "mg_inv (fold (\<lambda>i m. case gm_get p i of None \<Rightarrow> m | Some c \<Rightarrow> snd (ensureLocked fp factory i c m)) is m')"
    if "mg_inv m'" "mg_started m'" "\<not> mg_stopped m'" for "is" p m'
    using that by (induction "is" arbitrary: m') (auto simp: inv_ensureLocked split: option.splits)
  then show ?thesis using assms by (simp add: manager_Start_def Let_def inv_flags)
qed

lemma inv_delete:
  assumes "mg_inv m"
  shows "mg_inv (Delete i m)"
proof (cases "mg_stopped m \<or> gm_get (mg_live m) i = None")
  case True
  then show ?thesis using assms by (auto simp: Delete_def Let_def mg_inv_defs drained_inst_def)
next
  case False
  then obtain a where a: "gm_get (mg_live m) i = Some a" "\<not> mg_stopped m" by auto
  define m' where "m' = m\<lparr>mg_pending := gm_del i (mg_pending m), mg_live := gm_del i (mg_live m), mg_tails := mg_tails m @ [TailDraining i (Some a)]\<rparr>"
  have inv: "routes_ok m" "owned_ok m" "calls_ok m" using assms by (simp_all add: mg_inv_def)
  have other: "gm_get (mg_live m) j \<noteq> Some a" if "j \<noteq> i" for j using that routed_id [OF inv(1) a(1)] by blast
  have "routes_ok m'"
    using inv(1) other by (auto simp: routes_ok_def m'_def)
  moreover have "owned_ok m'"
    unfolding owned_ok_def
  proof (intro conjI allI impI ballI)
    fix x assume "x < length (mg_heap m')"
    then have "x < length (mg_heap m)" by (simp add: m'_def)
    from inv(2) this show "(\<exists>i. gm_get (mg_live m') i = Some x) \<or> x \<in> set (mg_drains m') \<or> Some x \<in> tail_inst ` set (mg_tails m') \<or> ls_cancelled (mg_heap m' ! x)"
    proof (cases rule: owned_cases)
      case (routed j)
      then show ?thesis using a(1) by (cases "j = i") (auto simp: m'_def intro: exI [of _ j])
    qed (simp_all add: m'_def)
  next
    fix x assume "x \<in> set (mg_drains m')"
    then show "x < length (mg_heap m')" using inst_bounds(2) [OF inv(2)] by (simp add: m'_def)
  next
    fix t x assume "t \<in> set (mg_tails m')" "tail_inst t = Some x"
    then show "x < length (mg_heap m')" "tail_drained t \<Longrightarrow> drained_inst m' x"
      using inv(2) inst_bounds(1) [OF inv(1) a(1)] by (auto simp: m'_def owned_ok_def drained_inst_def)
  qed
  moreover have "calls_ok m'" using inv(3) by (simp add: calls_ok_def m'_def drained_inst_def)
  moreover have "Delete i m = m'" using a by (simp add: Delete_def Let_def swapLocked_def m'_def)
  moreover have "\<not> mg_started m' \<or> mg_stopped m' \<Longrightarrow> mg_live m' = []" using assms a by (auto simp: mg_inv_def m'_def)
  ultimately show ?thesis by (simp add: mg_inv_def)
qed

lemma live_snd: "gm_wf l \<Longrightarrow> a \<in> snd ` set l \<longleftrightarrow> (\<exists>i. gm_get l i = Some a)"
  by (auto simp: gm_get_iff_set) (metis (mono_tags, lifting) image_eqI snd_conv)

lemma inv_shutdown:
  assumes "mg_inv m"
  shows "mg_inv (manager_shutdown m)"
proof -
  have inv: "routes_ok m" "owned_ok m" "calls_ok m" using assms by (simp_all add: mg_inv_def)
  then have live: "a \<in> snd ` set (mg_live m) \<longleftrightarrow> (\<exists>i. gm_get (mg_live m) i = Some a)" for a by (simp add: live_snd routes_ok_def)
  have "owned_ok (manager_shutdown m)"
    using inv(2) inst_bounds(1) [OF inv(1)] live unfolding owned_ok_def manager_shutdown_def drained_inst_def by fastforce
  then show ?thesis using inv(3) by (simp add: mg_inv_def routes_ok_def calls_ok_def manager_shutdown_def drained_inst_def)
qed

text \<open>A change of an instance's flags that keeps what drained means and never cancels a routed one.\<close>

lemma inv_flag_inst:
  assumes "mg_inv m" and "ls_id x = ls_id (mg_heap m ! a)" "ls_cancelled (mg_heap m ! a) \<longrightarrow> ls_cancelled x" "ls_done (mg_heap m ! a) \<longrightarrow> ls_done x"
    and "ls_cancelled x \<longrightarrow> ls_cancelled (mg_heap m ! a) \<or> (\<forall>i. gm_get (mg_live m) i \<noteq> Some a)"
  shows "mg_inv (m\<lparr>mg_heap := (mg_heap m)[a := x]\<rparr>)" (is "mg_inv ?m")
proof -
  have inv: "routes_ok m" "owned_ok m" "calls_ok m" using assms(1) by (simp_all add: mg_inv_def)
  have dr: "drained_inst m b \<Longrightarrow> drained_inst ?m b" for b
    using assms(3,4) by (cases "b = a"; cases "a < length (mg_heap m)") (auto simp: drained_inst_def list_update_beyond not_less)
  have same: "ls_id (mg_heap ?m ! b) = ls_id (mg_heap m ! b)" "ls_cancelled (mg_heap m ! b) \<Longrightarrow> ls_cancelled (mg_heap ?m ! b)" for b
    using assms(2,3) by (cases "b = a"; cases "a < length (mg_heap m)"; simp add: list_update_beyond not_less)+
  have live: "\<not> ls_cancelled (mg_heap ?m ! b)" if "gm_get (mg_live m) i = Some b" for i b
  proof (cases "b = a \<and> a < length (mg_heap m)")
    case True
    with that assms(5) inv(1) show ?thesis unfolding routes_ok_def by auto
  next
    case False
    then have "mg_heap ?m ! b = mg_heap m ! b" by (cases "b = a") (simp_all add: list_update_beyond not_less)
    with that inv(1) show ?thesis unfolding routes_ok_def by metis
  qed
  have "routes_ok ?m"
    using inv(1) live same(1) unfolding routes_ok_def by simp
  moreover have "owned_ok ?m"
    using inv(2) dr same(2) unfolding owned_ok_def by simp blast
  moreover have "calls_ok ?m" using inv(3) dr by (auto simp: calls_ok_def)
  ultimately show ?thesis using assms(1) by (simp add: mg_inv_def)
qed

lemma drained_wait: "drained_inst m b \<Longrightarrow> drained_inst (drain_wait a m) b" "ls_cancelled (mg_heap m ! a) \<Longrightarrow> drained_inst (drain_wait a m) a"
  by (auto simp: drained_inst_def drain_wait_def)

lemma drain_wait_fields [simp]:
  "mg_heap (drain_wait a m) = mg_heap m" "mg_live (drain_wait a m) = mg_live m" "mg_drains (drain_wait a m) = mg_drains m"
  "mg_tails (drain_wait a m) = mg_tails m" "mg_calls (drain_wait a m) = mg_calls m" "mg_started (drain_wait a m) = mg_started m"
  "mg_stopped (drain_wait a m) = mg_stopped m"
  by (simp_all add: drain_wait_def)

lemma inv_wait: "mg_inv m \<Longrightarrow> mg_inv (drain_wait a m)"
  using drained_wait(1) [of m _ a] by (auto simp: mg_inv_defs)

lemma inv_drain_ends:
  assumes "mg_inv m" and "mg_drains m = xs @ a # ys" and "ls_cancelled (mg_heap m ! a)"
  shows "mg_inv (m\<lparr>mg_drains := xs @ ys\<rparr>)"
  using assms by (auto simp: mg_inv_defs drained_inst_def)

text \<open>A change of the tails: a new one waits for nothing, and one that leaves had drained its instance.\<close>

lemma inv_tails:
  assumes "mg_inv m"
    and old: "\<And>u. u \<in> set ts \<Longrightarrow> u \<in> set (mg_tails m)
      \<or> tail_inst u \<in> tail_inst ` set (mg_tails m) \<and> (\<forall>a. tail_inst u = Some a \<longrightarrow> drained_inst m a)"
    and kept: "\<And>a. Some a \<in> tail_inst ` set (mg_tails m) \<Longrightarrow> Some a \<in> tail_inst ` set ts \<or> ls_cancelled (mg_heap m ! a)"
  shows "mg_inv (m\<lparr>mg_tails := ts\<rparr>)" (is "mg_inv ?m")
proof -
  have inv: "routes_ok m" "owned_ok m" "calls_ok m" using assms(1) by (simp_all add: mg_inv_def)
  have sub: "tail_inst ` set ts \<subseteq> tail_inst ` set (mg_tails m)" using old by blast
  have "routes_ok ?m" using inv(1) sub by (auto simp: routes_ok_def)
  moreover have "owned_ok ?m"
    unfolding owned_ok_def
  proof (intro conjI allI impI ballI)
    fix a assume "a < length (mg_heap ?m)"
    then have "a < length (mg_heap m)" by simp
    from inv(2) this show "(\<exists>i. gm_get (mg_live ?m) i = Some a) \<or> a \<in> set (mg_drains ?m) \<or> Some a \<in> tail_inst ` set (mg_tails ?m) \<or> ls_cancelled (mg_heap ?m ! a)"
    proof (cases rule: owned_cases)
      case tail
      from kept [OF this] show ?thesis by auto
    qed auto
  next
    fix a assume "a \<in> set (mg_drains ?m)" then show "a < length (mg_heap ?m)" using inst_bounds(2) [OF inv(2)] by simp
  next
    fix u a assume u: "u \<in> set (mg_tails ?m)" "tail_inst u = Some a"
    then have "Some a \<in> tail_inst ` set (mg_tails m)" using sub by force
    then show "a < length (mg_heap ?m)" using inst_bounds(3) [OF inv(2)] by simp
    show "drained_inst ?m a" if "tail_drained u"
      using old [of u] u that inv(2) by (auto simp: owned_ok_def drained_inst_def)
  qed
  moreover have "calls_ok ?m" using inv(3) by (simp add: calls_ok_def drained_inst_def)
  ultimately show ?thesis using assms(1) by (simp add: mg_inv_def)
qed

lemma inv_tail_leaves:
  assumes "mg_inv m" and n: "n < length (mg_tails m)" and "tail_drained (mg_tails m ! n)"
  shows "mg_inv (put_tail n None m)"
  unfolding put_tail_def option.case
proof (rule inv_tails [OF assms(1)])
  have split: "mg_tails m = take n (mg_tails m) @ mg_tails m ! n # drop (Suc n) (mg_tails m)" using n by (rule id_take_nth_drop)
  fix u assume "u \<in> set (take n (mg_tails m) @ drop (Suc n) (mg_tails m))"
  then show "u \<in> set (mg_tails m) \<or> tail_inst u \<in> tail_inst ` set (mg_tails m) \<and> (\<forall>a. tail_inst u = Some a \<longrightarrow> drained_inst m a)"
    by (auto dest: in_set_takeD in_set_dropD)
next
  have split: "set (mg_tails m) = insert (mg_tails m ! n) (set (take n (mg_tails m) @ drop (Suc n) (mg_tails m)))"
    using arg_cong [OF id_take_nth_drop [OF n], of set] by simp
  fix a assume "Some a \<in> tail_inst ` set (mg_tails m)"
  then have "Some a = tail_inst (mg_tails m ! n) \<or> Some a \<in> tail_inst ` set (take n (mg_tails m) @ drop (Suc n) (mg_tails m))" unfolding split by blast
  moreover have "ls_cancelled (mg_heap m ! a)" if "tail_inst (mg_tails m ! n) = Some a"
    using assms that nth_mem [OF n] by (auto simp: mg_inv_def owned_ok_def drained_inst_def)
  ultimately show "Some a \<in> tail_inst ` set (take n (mg_tails m) @ drop (Suc n) (mg_tails m)) \<or> ls_cancelled (mg_heap m ! a)" by auto
qed

lemma inv_tail_advances:
  assumes "mg_inv m" and n: "n < length (mg_tails m)" and "tail_inst t = tail_inst (mg_tails m ! n)"
    and "\<And>a. tail_inst t = Some a \<Longrightarrow> drained_inst m a"
  shows "mg_inv (put_tail n (Some t) m)"
  unfolding put_tail_def option.case
proof (rule inv_tails [OF assms(1)])
  fix u assume "u \<in> set ((mg_tails m)[n := t])"
  then have "u = t \<or> u \<in> set (mg_tails m)" using set_update_subset_insert [of "mg_tails m" n t] by blast
  moreover have "tail_inst t \<in> tail_inst ` set (mg_tails m)" using assms(3) n by simp
  ultimately show "u \<in> set (mg_tails m) \<or> tail_inst u \<in> tail_inst ` set (mg_tails m) \<and> (\<forall>a. tail_inst u = Some a \<longrightarrow> drained_inst m a)"
    using assms(4) by blast
next
  have "map tail_inst ((mg_tails m)[n := t]) = map tail_inst (mg_tails m)"
    using assms(3) n by (simp add: map_update list_update_same_conv)
  then have "tail_inst ` set ((mg_tails m)[n := t]) = tail_inst ` set (mg_tails m)" by (metis list.set_map)
  then show "\<And>a. Some a \<in> tail_inst ` set (mg_tails m) \<Longrightarrow> Some a \<in> tail_inst ` set ((mg_tails m)[n := t]) \<or> ls_cancelled (mg_heap m ! a)" by blast
qed

lemma inv_calls:
  assumes "mg_inv m" and "\<And>i a. CallRemoveSink i (Some a) \<in> set cs \<Longrightarrow> a < length (mg_heap m) \<and> drained_inst m a"
  shows "mg_inv (m\<lparr>mg_calls := mg_calls m @ cs\<rparr>)"
  using assms by (auto simp: mg_inv_defs drained_inst_def)

lemma tail_bound: "mg_inv m \<Longrightarrow> n < length (mg_tails m) \<Longrightarrow> tail_inst (mg_tails m ! n) = Some a \<Longrightarrow>
    a < length (mg_heap m) \<and> (tail_drained (mg_tails m ! n) \<longrightarrow> drained_inst m a)"
  using nth_mem [of n "mg_tails m"] unfolding mg_inv_def owned_ok_def by blast

lemma inv_tail_moves:
  assumes "mg_inv m" and n: "n < length (mg_tails m)"
    and cancelled: "\<forall>i a. mg_tails m ! n = TailDraining i (Some a) \<longrightarrow> ls_cancelled (mg_heap m ! a)"
    and "finishDelete opts (mg_tails m ! n) m = (t, m')"
  shows "mg_inv (put_tail n t m')"
proof (cases "mg_tails m ! n")
  case (TailDraining i inst)
  define m1 where "m1 = (case inst of None \<Rightarrow> m | Some a \<Rightarrow> drain_wait a m)"
  have m1: "mg_inv m1" "mg_tails m1 = mg_tails m" using inv_wait [OF assms(1)] assms(1) by (auto simp: m1_def split: option.splits)
  have dr: "drained_inst m1 a" if "inst = Some a" for a using cancelled TailDraining that drained_wait(2) by (auto simp: m1_def)
  have "t = Some (TailDrained i inst)" "m' = m1" using assms(4) TailDraining by (auto simp: m1_def)
  then show ?thesis using inv_tail_advances [OF m1(1), of n "TailDrained i inst"] n TailDraining dr by (simp add: m1(2))
next
  case (TailDrained i inst)
  then have d: "drained_inst m a" if "inst = Some a" for a using tail_bound [OF assms(1) n, of a] that by simp
  show ?thesis
  proof (cases "gm_get (mg_live m) i")
    case None
    then have "t = Some (TailEvicting i inst)" "m' = m" using assms(4) TailDrained by auto
    then show ?thesis using inv_tail_advances [OF assms(1) n, of "TailEvicting i inst"] TailDrained d by simp
  next
    case Some
    then have "t = None" "m' = m" using assms(4) TailDrained by auto
    then show ?thesis using inv_tail_leaves [OF assms(1) n] TailDrained by simp
  qed
next
  case (TailEvicting i inst)
  then have d: "a < length (mg_heap m) \<and> drained_inst m a" if "inst = Some a" for a using tail_bound [OF assms(1) n, of a] that by simp
  have eq: "t = None" "m' = m\<lparr>mg_calls := mg_calls m @ evictCalls opts i inst\<rparr>" using assms(4) TailEvicting by auto
  have "mg_inv m'" unfolding eq by (rule inv_calls [OF assms(1)]) (auto simp: evictCalls_def parkDependents_def d split: if_splits)
  moreover have "mg_tails m' = mg_tails m" by (simp add: eq)
  ultimately show ?thesis using inv_tail_leaves [of m' n] n TailEvicting by (simp add: eq)
qed

lemma inv_cancel:
  assumes "mg_inv m" and "a \<in> set (mg_drains m) \<or> Some a \<in> tail_inst ` set (mg_tails m)"
  shows "mg_inv (cancel_inst a m)"
  unfolding cancel_inst_def
proof (rule inv_flag_inst [OF assms(1)])
  show "ls_cancelled ((mg_heap m ! a)\<lparr>ls_cancelled := True\<rparr>) \<longrightarrow> ls_cancelled (mg_heap m ! a) \<or> (\<forall>i. gm_get (mg_live m) i \<noteq> Some a)"
    using assms unfolding mg_inv_def routes_ok_def by blast
qed simp_all

lemma inv_background:
  assumes "bg_step opts m m'" and "mg_inv m"
  shows "mg_inv m'"
  using assms
proof (induction rule: bg_step.induct)
  case (drain_cancels a m)
  then show ?case using inv_cancel by blast
next
  case (drain_ends m xs a ys)
  then show ?case using inv_drain_ends [OF inv_wait, of m a xs a ys] by simp
next
  case (tail_cancels n m i a)
  then have "Some a \<in> tail_inst ` set (mg_tails m)" by (metis imageI nth_mem tail_inst.simps(1))
  with tail_cancels show ?case using inv_cancel by blast
next
  case (tail_moves n m t m')
  then show ?case by (intro inv_tail_moves)
qed

lemma stopped_started: "mg_reachable opts fp m \<Longrightarrow> mg_stopped m \<longrightarrow> mg_started m"
proof (induction rule: mg_reachable.induct)
  case (mg_start m factory)
  have "mg_started (fold (\<lambda>i m. case gm_get p i of None \<Rightarrow> m | Some c \<Rightarrow> snd (ensureLocked fp factory i c m)) js m')" if "mg_started m'" for js p m'
    using that by (induction js arbitrary: m') (auto split: option.splits)
  then show ?case by (simp add: manager_Start_def Let_def)
next
  case (mg_ensure m factory i cfg)
  then show ?case by (auto simp: Ensure_def split: option.splits)
next
  case (mg_background m m')
  from mg_background(2,3) show ?case
  proof (induction rule: bg_step.induct)
    case (tail_moves n m t m')
    then show ?case by (cases "mg_tails m ! n") (auto simp: put_tail_def split: option.splits if_splits)
  qed (simp_all add: cancel_inst_def)
qed (auto simp: NewSinkManager_def Delete_def swapLocked_def Let_def manager_shutdown_def)

lemma mg_reachable_inv: "mg_reachable opts fp m \<Longrightarrow> mg_inv m"
proof (induction rule: mg_reachable.induct)
  case (mg_start m factory)
  then show ?case using inv_start stopped_started by blast
next
  case (mg_writer_returns m a)
  show ?case by (rule inv_flag_inst [OF mg_writer_returns.IH]) simp_all
qed (simp_all add: inv_new inv_ensure inv_delete inv_flags inv_shutdown inv_background)

section \<open>Properties\<close>


text \<open>A sink declared before the manager runs, started with it, then re-declared with another configuration.\<close>

definition sampleSink :: sink_id where "sampleSink = SinkID ''ClickHouseSink'' ''main''"

definition sampleFactory :: "sink_id \<Rightarrow> string \<Rightarrow> string built_writer option" where
  "sampleFactory i c = Some \<lparr>bw_writer = c, bw_StateReader = True, bw_ScopeEventWriter = True, bw_Prober = True\<rparr>"

definition sampleRotation :: "(string, string) SinkManager" where
  "sampleRotation =
     snd (Ensure (\<lambda>c. c) sampleFactory sampleSink (Some ''v2'')
       (manager_Start (\<lambda>c. c) sampleFactory (snd (Ensure (\<lambda>c. c) sampleFactory sampleSink (Some ''v1'') NewSinkManager))))"

lemma sampleRotation_reachable: "mg_reachable opts (\<lambda>c. c) sampleRotation"
  unfolding sampleRotation_def
  by (intro mg_reachable.intros(1-3)) (simp add: Ensure_def NewSinkManager_def sampleSink_def)


text \<open>
  \<open>Ensure\<close> on a running manager, on every branch. An unchanged fingerprint and a factory that fails leave
  the whole state as it was, the failure reported; otherwise a fresh instance with the new fingerprint is
  routed, every other sink keeps its instance, and exactly the instance it replaces is scheduled for a drain.
\<close>

theorem Ensure_swaps_atomically:
  assumes "mg_reachable opts fp m" and "mg_started m" "\<not> mg_stopped m" and "id_kind i \<noteq> []" "id_name i \<noteq> []"
    and "Ensure fp factory i (Some c) m = (err, m')"
  shows "(\<forall>a. gm_get (mg_live m) i = Some a \<longrightarrow> ls_fingerprint (mg_heap m ! a) \<noteq> fp c) \<and> factory i c \<noteq> None \<and> err = None
      \<and> (\<exists>a. gm_get (mg_live m') i = Some a \<and> a \<ge> length (mg_heap m) \<and> ls_fingerprint (mg_heap m' ! a) = fp c
            \<and> WriterFor m' i = map_option bw_writer (factory i c))
      \<and> (\<forall>j. j \<noteq> i \<longrightarrow> gm_get (mg_live m') j = gm_get (mg_live m) j \<and> WriterFor m' j = WriterFor m j)
      \<and> mg_drains m' = mg_drains m @ (case gm_get (mg_live m) i of None \<Rightarrow> [] | Some old \<Rightarrow> [old])
    \<or> m' = m \<and> ((\<exists>a. gm_get (mg_live m) i = Some a \<and> ls_fingerprint (mg_heap m ! a) = fp c) \<and> err = None
        \<or> factory i c = None \<and> err = Some BuildFailed)"
proof -
  have ens: "ensureLocked fp factory i c m = (err, m')" using assms by (simp add: Ensure_def)
  have "routes_ok m" using mg_reachable_inv [OF assms(1)] by (simp add: mg_inv_def)
  then have other: "ls_writer ((mg_heap m @ [x]) ! a) = ls_writer (mg_heap m ! a)" if "gm_get (mg_live m) j = Some a" for j a x
    using that inst_bounds(1) [of m j a] by (simp add: nth_append)
  show ?thesis
  proof (cases "\<exists>a. gm_get (mg_live m) i = Some a \<and> ls_fingerprint (mg_heap m ! a) = fp c")
    case True
    with ens show ?thesis by (auto simp: ensureLocked_def Let_def)
  next
    case fresh: False
    show ?thesis
    proof (cases "factory i c")
      case None
      with ens fresh show ?thesis by (auto simp: ensureLocked_def Let_def split: option.splits if_splits)
    next
      case (Some b)
      define m1 where "m1 = m\<lparr>mg_heap := mg_heap m @ [newLiveSink i (fp c) b], mg_live := gm_set i (length (mg_heap m)) (mg_live m),
        mg_drains := mg_drains m @ (case gm_get (mg_live m) i of None \<Rightarrow> [] | Some old \<Rightarrow> [old])\<rparr>"
      have "err = None \<and> m' = m1"
        using ens fresh Some by (cases "gm_get (mg_live m) i") (auto simp: ensureLocked_def manager_startLocked_def swapLocked_def Let_def m1_def)
      moreover have "WriterFor m1 j = WriterFor m j" if "j \<noteq> i" for j
        using that other [of j] by (cases "gm_get (mg_live m) j") (simp_all add: WriterFor_def m1_def)
      moreover have "WriterFor m1 i = Some (bw_writer b)" by (simp add: WriterFor_def m1_def newLiveSink_def)
      ultimately show ?thesis using fresh Some by (auto simp: m1_def newLiveSink_def)
    qed
  qed
qed

theorem Ensure_swaps_atomically_witness:
  "Ensure (\<lambda>c. c) (\<lambda>_ _. None) sampleSink (Some ''v3'') sampleRotation = (Some BuildFailed, sampleRotation)"
proof -
  have f: "mg_started sampleRotation" "\<not> mg_stopped sampleRotation" "id_kind sampleSink \<noteq> []" "id_name sampleSink \<noteq> []" by code_simp+
  have g: "gm_get (mg_live sampleRotation) sampleSink = Some 1" "ls_fingerprint (mg_heap sampleRotation ! 1) \<noteq> ''v3''" by code_simp+
  obtain err m' where e: "Ensure (\<lambda>c. c) (\<lambda>_ _. None) sampleSink (Some ''v3'') sampleRotation = (err, m')" by fastforce
  from Ensure_swaps_atomically [OF sampleRotation_reachable f e] g show ?thesis unfolding e by simp
qed


definition sampleOptions :: manager_options where
  "sampleOptions = \<lparr>mo_hasWarm = True, mo_dependents = Some (\<lambda>_. [''rule'']), mo_hasPark = True\<rparr>"

definition sampleDeleted :: "nat \<Rightarrow> (string, string) SinkManager" where
  "sampleDeleted n =
     (let m = Delete sampleSink sampleRotation;
          m = cancel_inst 1 m; m = m\<lparr>mg_heap := (mg_heap m)[1 := (mg_heap m ! 1)\<lparr>ls_done := True\<rparr>]\<rparr>
      in ((\<lambda>m. case finishDelete sampleOptions (mg_tails m ! 0) m of (t, m') \<Rightarrow> put_tail 0 t m') ^^ n) m)"

lemma sampleDeleted_0: "mg_reachable sampleOptions (\<lambda>c. c) (sampleDeleted 0)"
proof -
  have "mg_reachable sampleOptions (\<lambda>c. c) (Delete sampleSink sampleRotation)" by (intro mg_reachable.mg_delete sampleRotation_reachable)
  moreover have "bg_step sampleOptions (Delete sampleSink sampleRotation) (cancel_inst 1 (Delete sampleSink sampleRotation))"
    by (rule bg_step.tail_cancels [where n = 0 and i = sampleSink]) code_simp+
  ultimately have r: "mg_reachable sampleOptions (\<lambda>c. c) (cancel_inst 1 (Delete sampleSink sampleRotation))" by (rule mg_reachable.mg_background)
  have "1 < length (mg_heap (cancel_inst 1 (Delete sampleSink sampleRotation)))" by code_simp
  from mg_reachable.mg_writer_returns [OF r this] show ?thesis by (simp add: sampleDeleted_def Let_def)
qed

lemma sampleDeleted_Suc:
  assumes "mg_reachable sampleOptions (\<lambda>c. c) (sampleDeleted n)" and "0 < length (mg_tails (sampleDeleted n))"
    and "\<forall>i a. mg_tails (sampleDeleted n) ! 0 = TailDraining i (Some a) \<longrightarrow> ls_cancelled (mg_heap (sampleDeleted n) ! a)"
  shows "mg_reachable sampleOptions (\<lambda>c. c) (sampleDeleted (Suc n))"
proof -
  obtain t m' where f: "finishDelete sampleOptions (mg_tails (sampleDeleted n) ! 0) (sampleDeleted n) = (t, m')" by fastforce
  have "sampleDeleted (Suc n) = put_tail 0 t m'" using f by (simp add: sampleDeleted_def Let_def)
  with mg_reachable.mg_background [OF assms(1) bg_step.tail_moves [OF assms(2,3) f]] show ?thesis by simp
qed

lemma sampleDeleted_reachable:
  "mg_reachable sampleOptions (\<lambda>c. c) (sampleDeleted 2)" "mg_tails (sampleDeleted 2) = [TailEvicting sampleSink (Some 1)]"
  "mg_reachable sampleOptions (\<lambda>c. c) (sampleDeleted 3)"
proof -
  have t: "mg_tails (sampleDeleted 0) = [TailDraining sampleSink (Some 1)]" "ls_cancelled (mg_heap (sampleDeleted 0) ! 1)"
    "mg_tails (sampleDeleted 1) = [TailDrained sampleSink (Some 1)]"
    and t2: "mg_tails (sampleDeleted 2) = [TailEvicting sampleSink (Some 1)]" by code_simp+
  have "mg_reachable sampleOptions (\<lambda>c. c) (sampleDeleted 1)" using sampleDeleted_Suc [OF sampleDeleted_0] t by simp
  then show r2: "mg_reachable sampleOptions (\<lambda>c. c) (sampleDeleted 2)" using sampleDeleted_Suc [of 1] t by (simp add: numeral_2_eq_2)
  show "mg_reachable sampleOptions (\<lambda>c. c) (sampleDeleted 3)" using sampleDeleted_Suc [OF r2] t2 by (simp add: numeral_3_eq_3 numeral_2_eq_2)
  show "mg_tails (sampleDeleted 2) = [TailEvicting sampleSink (Some 1)]" by (rule t2)
qed




text \<open>What the background goroutines have left to do: instances to cancel, drains and tails to finish.\<close>

fun tail_steps :: "delete_tail \<Rightarrow> nat" where
  "tail_steps (TailDraining i inst) = 3"
| "tail_steps (TailDrained i inst) = 2"
| "tail_steps (TailEvicting i inst) = 1"

definition background_work :: "('w, 'g) SinkManager \<Rightarrow> nat" where
  "background_work m =
     length (filter (\<lambda>x. \<not> ls_cancelled x) (mg_heap m)) + length (mg_drains m) + sum_list (map tail_steps (mg_tails m))"

lemma cancel_work:
  "a < length h \<Longrightarrow> \<not> ls_cancelled (h ! a) \<Longrightarrow>
     length (filter (\<lambda>x. \<not> ls_cancelled x) (h[a := (h ! a)\<lparr>ls_cancelled := True\<rparr>])) < length (filter (\<lambda>x. \<not> ls_cancelled x) h)"
proof (induction h arbitrary: a)
  case (Cons x h)
  then show ?case by (cases a) auto
qed simp

lemma put_tail_work:
  assumes "n < length ts" and "case t of None \<Rightarrow> True | Some t \<Rightarrow> tail_steps t < tail_steps (ts ! n)"
  shows "sum_list (map tail_steps (case t of None \<Rightarrow> take n ts @ drop (Suc n) ts | Some t \<Rightarrow> ts[n := t])) < sum_list (map tail_steps ts)"
proof -
  have "sum_list (map tail_steps ts) = sum_list (map tail_steps (take n ts)) + tail_steps (ts ! n) + sum_list (map tail_steps (drop (Suc n) ts))"
    using arg_cong [OF id_take_nth_drop [OF assms(1)], of "\<lambda>l. sum_list (map tail_steps l)"] by simp
  moreover have "tail_steps (ts ! n) > 0" by (cases "ts ! n") simp_all
  ultimately show ?thesis using assms by (cases t) (simp_all add: upd_conv_take_nth_drop)
qed

lemma finishDelete_steps:
  assumes "finishDelete opts u m = (t, m')"
  shows "case t of None \<Rightarrow> True | Some t \<Rightarrow> tail_steps t < tail_steps u" "mg_heap m' = mg_heap m" "mg_drains m' = mg_drains m" "mg_tails m' = mg_tails m"
  using assms by (cases u; auto split: if_splits option.splits)+



text \<open>The routers agree: a sink whose history can be read is live, and \<open>SinkIDs\<close> lists exactly the live ones.\<close>

lemma routers_agree:
  "StateReaderFor m i \<noteq> None \<longleftrightarrow> CapabilitiesFor m i = Some True" "CapabilitiesFor m i = None \<longleftrightarrow> WriterFor m i = None"
  "ScopeEventWriterFor m i \<noteq> None \<Longrightarrow> WriterFor m i \<noteq> None"
  by (auto simp: StateReaderFor_def CapabilitiesFor_def ScopeEventWriterFor_def WriterFor_def capabilities_def split: option.splits)

lemma SinkIDs_live: "set (SinkIDs m) = {i. WriterFor m i \<noteq> None}" "sorted (SinkIDs m)"
  by (auto simp: SinkIDs_def set_gm_keys WriterFor_def)

text \<open>No delay of the probe loop is a spin: with the positive settings of the constructor it always waits.\<close>

lemma nextProbeDelay_positive:
  "probeInterval > 0 \<Longrightarrow> probeMaxBackoff > 0 \<Longrightarrow> fst (nextProbeDelay lib probeInterval probeMaxBackoff failed eb) > 0"
  by (simp add: nextProbeDelay_def case_prod_beta)

end
