(* ===== verification/Ownership.thy ===== *)
theory Ownership
  imports ArchiveTimeline "HOL-Library.Product_Lexorder"
begin

text \<open>
  Ownership (\<open>internal/query/ownership.go\<close>, \<open>internal/query/objectsource/ownership.go\<close>): the owner references
  read off recorded states, the reduction of a scan's marks to one entry per incarnation, and the bounded
  breadth-first walk below a set of roots. Go's sets of strings are lists of their members.
\<close>

section \<open>References and objects\<close>

definition MaxOwnershipDepth :: nat where "MaxOwnershipDepth = 4"

definition MaxOwnedObjects :: nat where "MaxOwnedObjects = 500"

record OwnerReference =
  ow_APIVersion :: string
  ow_Kind :: string
  ow_Name :: string
  ow_UID :: string

record OwnedObject =
  oo_Ref :: ObjectRef
  oo_UID :: string
  oo_StateRecorded :: bool
  oo_Owners :: "OwnerReference list"

record OwnershipQuery =
  oq_ClusterID :: string
  oq_Namespace :: string
  oq_From :: go_time
  oq_To :: go_time

definition keepIdentifiedOwners :: "OwnerReference list \<Rightarrow> OwnerReference list" where
  "keepIdentifiedOwners owners = filter (\<lambda>r. ow_UID r \<noteq> []) owners"

definition decodeOwner :: "json \<Rightarrow> OwnerReference option" where
  "decodeOwner v =
     do { m \<leftarrow> struct_members v; av \<leftarrow> field_string m ''apiVersion''; kind \<leftarrow> field_string m ''kind''; name \<leftarrow> field_string m ''name'';
          uid \<leftarrow> field_string m ''uid''; Some \<lparr>ow_APIVersion = av, ow_Kind = kind, ow_Name = name, ow_UID = uid\<rparr> }"

definition decodeOwners :: "json \<Rightarrow> OwnerReference list option" where
  "decodeOwners v = (case v of JNull \<Rightarrow> Some [] | JArr xs \<Rightarrow> all_some (map decodeOwner xs) | _ \<Rightarrow> None)"

definition OwnersOf :: "string \<Rightarrow> OwnerReference list" where
  "OwnersOf data =
     (if data = [] then []
      else case do { v \<leftarrow> json_unmarshal data; kvs \<leftarrow> struct_members v;
                     m \<leftarrow> (case gm_get kvs ''metadata'' of None \<Rightarrow> Some [] | Some w \<Rightarrow> struct_members w);
                     (case gm_get m ''ownerReferences'' of None \<Rightarrow> Some [] | Some w \<Rightarrow> decodeOwners w) } of
             None \<Rightarrow> []
           | Some owners \<Rightarrow> keepIdentifiedOwners owners)"

definition ParseOwnerReferences :: "string \<Rightarrow> OwnerReference list" where
  "ParseOwnerReferences raw =
     (if raw = [] then []
      else case do { v \<leftarrow> json_unmarshal raw; decodeOwners v } of None \<Rightarrow> [] | Some owners \<Rightarrow> keepIdentifiedOwners owners)"

definition UIDsOf :: "OwnedObject list \<Rightarrow> ObjectRef \<Rightarrow> string list" where
  "UIDsOf objects ref = map oo_UID (filter (\<lambda>x. oo_UID x \<noteq> [] \<and> oo_Ref x = ref) objects)"

section \<open>The walk\<close>

record OwnedNode =
  nd_Ref :: ObjectRef
  nd_UID :: string
  nd_Depth :: nat
  nd_OwnerUID :: string

record OwnershipTree =
  ot_Nodes :: "OwnedNode list"
  ot_DepthLimited :: bool
  ot_BreadthLimited :: bool
  ot_MissingOwnerKinds :: "string list"
  ot_MissingOwnerObjects :: nat
  ot_UnreadableKinds :: "string list"
  ot_UnreadableObjects :: nat

definition Complete :: "OwnershipTree \<Rightarrow> bool" where
  "Complete t \<longleftrightarrow> \<not> ot_DepthLimited t \<and> \<not> ot_BreadthLimited t \<and> ot_MissingOwnerObjects t = 0 \<and> ot_UnreadableObjects t = 0"

definition Refs :: "OwnershipTree \<Rightarrow> ObjectRef list" where
  "Refs t = map nd_Ref (ot_Nodes t)"

definition kids :: "(string, nat list) gomap \<Rightarrow> string \<Rightarrow> nat list" where
  "kids children owner = (case gm_get children owner of None \<Rightarrow> [] | Some is \<Rightarrow> is)"

definition addEdge :: "nat \<Rightarrow> OwnerReference \<Rightarrow> (string, nat list) gomap \<Rightarrow> (string, nat list) gomap" where
  "addEdge i owner children =
     (if ow_UID owner \<noteq> [] then gm_set (ow_UID owner) (kids children (ow_UID owner) @ [i]) children else children)"

fun indexOwners :: "nat \<Rightarrow> OwnedObject list \<Rightarrow> (string, nat list) gomap \<times> string list \<Rightarrow> (string, nat list) gomap \<times> string list" where
  "indexOwners i [] ix = ix"
| "indexOwners i (x # xs) (children, captured) =
     (if oo_UID x = [] then indexOwners (i + 1) xs (children, captured)
      else indexOwners (i + 1) xs (fold (addEdge i) (oo_Owners x) children, List.insert (oo_UID x) captured))"

definition addRoot :: "string \<Rightarrow> string list \<times> string list \<Rightarrow> string list \<times> string list" where
  "addRoot root vf =
     (case vf of (visited, frontier) \<Rightarrow>
        if root = [] \<or> root \<in> set visited then (visited, frontier) else (root # visited, frontier @ [root]))"

text \<open>The walk's state: the visited UIDs, the nodes collected, and the next frontier. The flag says that the breadth ran out.\<close>

type_synonym own_walk_state = "string list \<times> OwnedNode list \<times> string list"

fun visitChildren :: "OwnedObject list \<Rightarrow> nat \<Rightarrow> string \<Rightarrow> nat list \<Rightarrow> own_walk_state \<Rightarrow> own_walk_state \<times> bool" where
  "visitChildren objects depth owner [] st = (st, False)"
| "visitChildren objects depth owner (i # is) (visited, nodes, next) =
     (let child = objects ! i
      in if oo_UID child \<in> set visited then visitChildren objects depth owner is (visited, nodes, next)
         else if length nodes \<ge> MaxOwnedObjects then ((visited, nodes, []), True)
         else visitChildren objects depth owner is
                (oo_UID child # visited,
                 nodes @ [\<lparr>nd_Ref = oo_Ref child, nd_UID = oo_UID child, nd_Depth = depth, nd_OwnerUID = owner\<rparr>],
                 next @ [oo_UID child]))"

fun visitOwners :: "(string, nat list) gomap \<Rightarrow> OwnedObject list \<Rightarrow> nat \<Rightarrow> string list \<Rightarrow> own_walk_state \<Rightarrow> own_walk_state \<times> bool" where
  "visitOwners children objects depth [] st = (st, False)"
| "visitOwners children objects depth (owner # owners) st =
     (case visitChildren objects depth owner (kids children owner) st of
        (st, True) \<Rightarrow> (st, True)
      | (st, False) \<Rightarrow> visitOwners children objects depth owners st)"

fun walkLevels ::
    "nat \<Rightarrow> (string, nat list) gomap \<Rightarrow> OwnedObject list \<Rightarrow> nat \<Rightarrow> string list \<Rightarrow> string list \<Rightarrow> OwnedNode list \<Rightarrow> own_walk_state \<times> bool" where
  "walkLevels 0 children objects depth frontier visited nodes = ((visited, nodes, frontier), False)"
| "walkLevels (Suc left) children objects depth frontier visited nodes =
     (if frontier = [] then ((visited, nodes, frontier), False)
      else case visitOwners children objects depth frontier (visited, nodes, []) of
             ((visited, nodes, next), True) \<Rightarrow> ((visited, nodes, next), True)
           | ((visited, nodes, next), False) \<Rightarrow> walkLevels left children objects (depth + 1) next visited nodes)"

definition hasUnvisited :: "string list \<Rightarrow> (string, nat list) gomap \<Rightarrow> OwnedObject list \<Rightarrow> string list \<Rightarrow> bool" where
  "hasUnvisited frontier children objects visited =
     list_ex (\<lambda>owner. list_ex (\<lambda>i. oo_UID (objects ! i) \<notin> set visited) (kids children owner)) frontier"

definition missingOwner :: "string list \<Rightarrow> OwnedObject \<Rightarrow> OwnerReference option" where
  "missingOwner captured x = find (\<lambda>r. ow_UID r \<notin> set captured) (oo_Owners x)"

definition measureGaps :: "OwnedObject list \<Rightarrow> string list \<Rightarrow> string list \<Rightarrow> OwnershipTree \<Rightarrow> OwnershipTree" where
  "measureGaps objects visited captured t =
     (let unreached = filter (\<lambda>x. oo_UID x \<notin> set visited) objects;
          unreadable = filter (\<lambda>x. \<not> oo_StateRecorded x) unreached;
          missing = List.map_filter (missingOwner captured) (filter oo_StateRecorded unreached)
      in t\<lparr>ot_UnreadableObjects := ot_UnreadableObjects t + length unreadable,
           ot_MissingOwnerObjects := ot_MissingOwnerObjects t + length missing,
           ot_MissingOwnerKinds := sort (remdups (map ow_Kind missing)),
           ot_UnreadableKinds := sort (remdups (map (\<lambda>x. or_Kind (oo_Ref x)) unreadable))\<rparr>)"

definition Descendants :: "string list \<Rightarrow> OwnedObject list \<Rightarrow> OwnershipTree" where
  "Descendants roots objects =
     (let (children, captured) = indexOwners 0 objects ([], []);
          (visited, frontier) = fold addRoot roots ([], []);
          ((visited, nodes, frontier), limited) = walkLevels MaxOwnershipDepth children objects 1 frontier visited [];
          tree = \<lparr>ot_Nodes = nodes, ot_DepthLimited = hasUnvisited frontier children objects visited, ot_BreadthLimited = limited,
                  ot_MissingOwnerKinds = [], ot_MissingOwnerObjects = 0, ot_UnreadableKinds = [], ot_UnreadableObjects = 0\<rparr>
      in measureGaps objects visited captured tree)"

section \<open>Reading ownership\<close>

record ownershipMark =
  om_ref :: ObjectRef
  om_uid :: string
  om_ts :: go_time
  om_state :: bool
  om_owners :: "OwnerReference list"

definition own_inWindow :: "OwnershipQuery \<Rightarrow> go_time \<Rightarrow> bool" where
  "own_inWindow q ts = (if oq_From q \<noteq> 0 \<and> ts < oq_From q then False else oq_To q = 0 \<or> \<not> ts > oq_To q)"

definition own_visit :: "OwnershipQuery \<Rightarrow> sink_record \<Rightarrow> ownershipMark list \<Rightarrow> ownershipMark list" where
  "own_visit q line marks =
     (if rec_ClusterID line \<noteq> oq_ClusterID q then marks
      else if oq_Namespace q \<noteq> [] \<and> rec_Namespace line \<noteq> oq_Namespace q then marks
      else if rec_UID line = [] then marks
      else if isEvent line then marks
      else if \<not> own_inWindow q (rec_Timestamp line) then marks
      else marks @
        [\<lparr>om_ref = \<lparr>or_ClusterID = rec_ClusterID line, or_APIGroup = rec_APIGroup line, or_Kind = rec_Kind line,
                    or_Namespace = rec_Namespace line, or_Name = rec_Name line\<rparr>,
          om_uid = rec_UID line, om_ts = rec_Timestamp line, om_state = (rec_Data line \<noteq> []), om_owners = OwnersOf (rec_Data line)\<rparr>])"

definition own_decode :: "scan_env \<Rightarrow> OwnershipQuery \<Rightarrow> string \<Rightarrow> ownershipMark list \<Rightarrow> ownershipMark list \<times> bool" where
  "own_decode env q = decodeFrame env (own_visit q)"

text \<open>The reduction: the entries in the order met, the instant of the newest state and the entry of each UID.\<close>

type_synonym owned_state = "OwnedObject list \<times> (string, go_time) gomap \<times> (string, nat) gomap"

definition ownedStep :: "ownershipMark \<Rightarrow> owned_state \<Rightarrow> owned_state" where
  "ownedStep mark st =
     (case st of (objects, latest, pos) \<Rightarrow>
        let (i, objects, pos) =
              (case gm_get pos (om_uid mark) of
                 Some i \<Rightarrow> (i, objects, pos)
               | None \<Rightarrow> (length objects,
                   objects @ [\<lparr>oo_Ref = om_ref mark, oo_UID = om_uid mark, oo_StateRecorded = False, oo_Owners = []\<rparr>],
                   gm_set (om_uid mark) (length objects) pos));
            objects = objects[i := (objects ! i)\<lparr>oo_StateRecorded := oo_StateRecorded (objects ! i) \<or> om_state mark\<rparr>]
        in if \<not> om_state mark then (objects, latest, pos)
           else if (case gm_get latest (om_uid mark) of None \<Rightarrow> False | Some at \<Rightarrow> \<not> om_ts mark > at) then (objects, latest, pos)
           else (objects[i := (objects ! i)\<lparr>oo_Owners := om_owners mark\<rparr>], gm_set (om_uid mark) (om_ts mark) latest, pos))"

definition compareOwned :: "OwnedObject \<Rightarrow> string \<times> string \<times> string \<times> string \<times> string" where
  "compareOwned x = (or_APIGroup (oo_Ref x), or_Kind (oo_Ref x), or_Namespace (oo_Ref x), or_Name (oo_Ref x), oo_UID x)"

definition ownedObjects :: "ownershipMark list \<Rightarrow> OwnedObject list" where
  "ownedObjects marks = sort_key compareOwned (fst (fold ownedStep marks ([], [], [])))"

definition Engine_Ownership :: "Engine \<Rightarrow> scan_env \<Rightarrow> OwnershipQuery \<Rightarrow> query_error + OwnedObject list" where
  "Engine_Ownership e env q =
     (case ensureOpen e of
        Some err \<Rightarrow> Inl err
      | None \<Rightarrow>
          (case requireWindow (oq_From q) (oq_To q) of
             Some err \<Rightarrow> Inl err
           | None \<Rightarrow>
               (let (err, accs) = scanPartitions e env (own_decode env q) [] (recordPrefixes e (oq_ClusterID q) (oq_From q) (oq_To q))
                in if err \<noteq> [] then Inl (ScanFailed err) else Inr (ownedObjects (concat accs)))))"

section \<open>The walk reaches what is owned\<close>

text \<open>The reference: an owner and an object that names it, both by UID.\<close>

definition owns :: "OwnedObject list \<Rightarrow> (string \<times> string) set" where
  "owns objects = {(ou, u). ou \<noteq> [] \<and> u \<noteq> [] \<and> (\<exists>x \<in> set objects. oo_UID x = u \<and> ou \<in> ow_UID ` set (oo_Owners x))}"

lemma kids_addEdge: "kids (addEdge i r children) ou = kids children ou @ (if ow_UID r = ou \<and> ou \<noteq> [] then [i] else [])"
  by (auto simp: addEdge_def kids_def)

lemma kids_addEdges:
  "set (kids (fold (addEdge i) rs children) ou) = set (kids children ou) \<union> (if ou \<noteq> [] \<and> ou \<in> ow_UID ` set rs then {i} else {})"
  by (induction rs arbitrary: children) (auto simp: kids_addEdge)

lemma indexOwners_kids:
  "set (kids (fst (indexOwners i xs (children, captured))) ou) =
     set (kids children ou) \<union> {i + k | k. k < length xs \<and> oo_UID (xs ! k) \<noteq> [] \<and> ou \<noteq> [] \<and> ou \<in> ow_UID ` set (oo_Owners (xs ! k))}"
proof (induction xs arbitrary: i children captured)
  case (Cons x xs)
  have "{i + k | k. k < length (x # xs) \<and> oo_UID ((x # xs) ! k) \<noteq> [] \<and> ou \<noteq> [] \<and> ou \<in> ow_UID ` set (oo_Owners ((x # xs) ! k))} =
      (if oo_UID x \<noteq> [] \<and> ou \<noteq> [] \<and> ou \<in> ow_UID ` set (oo_Owners x) then {i} else {}) \<union>
      {i + 1 + k | k. k < length xs \<and> oo_UID (xs ! k) \<noteq> [] \<and> ou \<noteq> [] \<and> ou \<in> ow_UID ` set (oo_Owners (xs ! k))}" (is "?A = ?B \<union> ?C")
  proof (intro set_eqI iffI)
    fix n assume "n \<in> ?A"
    then obtain k where k: "n = i + k" "k < length (x # xs)" "oo_UID ((x # xs) ! k) \<noteq> []" "ou \<noteq> []" "ou \<in> ow_UID ` set (oo_Owners ((x # xs) ! k))" by blast
    then show "n \<in> ?B \<union> ?C" by (cases k) auto
  next
    fix n assume "n \<in> ?B \<union> ?C"
    then show "n \<in> ?A"
    proof
      assume "n \<in> ?B"
      then show ?thesis by (intro CollectI exI [of _ 0]) (auto split: if_splits)
    next
      assume "n \<in> ?C"
      then obtain k where "n = i + 1 + k" "k < length xs" "oo_UID (xs ! k) \<noteq> []" "ou \<noteq> []" "ou \<in> ow_UID ` set (oo_Owners (xs ! k))" by blast
      then show ?thesis by (intro CollectI exI [of _ "Suc k"]) auto
    qed
  qed
  then show ?case by (cases "oo_UID x = []") (simp_all add: Cons kids_addEdges Un_assoc)
qed simp

text \<open>The index lists, for every owner, the positions of exactly the objects it owns.\<close>

definition edges_indexed :: "(string, nat list) gomap \<Rightarrow> OwnedObject list \<Rightarrow> bool" where
  "edges_indexed children objects \<longleftrightarrow> (\<forall>ou. (\<lambda>i. oo_UID (objects ! i)) ` set (kids children ou) = owns objects `` {ou})"

lemma indexOwners_indexed: "edges_indexed (fst (indexOwners 0 objects ([], []))) objects"
  unfolding edges_indexed_def
proof
  fix ou
  have k: "set (kids (fst (indexOwners 0 objects ([], []))) ou) =
      {k. k < length objects \<and> oo_UID (objects ! k) \<noteq> [] \<and> ou \<noteq> [] \<and> ou \<in> ow_UID ` set (oo_Owners (objects ! k))}"
    by (simp add: indexOwners_kids) (simp add: kids_def)
  show "(\<lambda>i. oo_UID (objects ! i)) ` set (kids (fst (indexOwners 0 objects ([], []))) ou) = owns objects `` {ou}"
    unfolding k
  proof (intro set_eqI iffI)
    fix u assume "u \<in> (\<lambda>i. oo_UID (objects ! i)) ` {k. k < length objects \<and> oo_UID (objects ! k) \<noteq> [] \<and> ou \<noteq> [] \<and> ou \<in> ow_UID ` set (oo_Owners (objects ! k))}"
    then obtain k where k: "k < length objects" "u = oo_UID (objects ! k)" "u \<noteq> []" "ou \<noteq> []" "ou \<in> ow_UID ` set (oo_Owners (objects ! k))" by blast
    then have "objects ! k \<in> set objects" by simp
    with k show "u \<in> owns objects `` {ou}" by (auto simp: owns_def)
  next
    fix u assume "u \<in> owns objects `` {ou}"
    then obtain x where "x \<in> set objects" "oo_UID x = u" "u \<noteq> []" "ou \<noteq> []" "ou \<in> ow_UID ` set (oo_Owners x)" by (auto simp: owns_def)
    moreover then obtain k where "k < length objects" "objects ! k = x" by (auto simp: in_set_conv_nth)
    ultimately show "u \<in> (\<lambda>i. oo_UID (objects ! i)) ` {k. k < length objects \<and> oo_UID (objects ! k) \<noteq> [] \<and> ou \<noteq> [] \<and> ou \<in> ow_UID ` set (oo_Owners (objects ! k))}"
      by blast
  qed
qed

text \<open>
  What the walk keeps, below the roots \<open>R\<close>: the visited UIDs are the roots and the nodes, no node twice;
  every node hangs below a root by a chain of recorded references.
\<close>

definition node_ok :: "(string \<times> string) set \<Rightarrow> string set \<Rightarrow> OwnedNode list \<Rightarrow> OwnedNode \<Rightarrow> bool" where
  "node_ok E R nodes n \<longleftrightarrow>
     (nd_OwnerUID n, nd_UID n) \<in> E
     \<and> (nd_Depth n = 1 \<and> nd_OwnerUID n \<in> R
        \<or> (\<exists>p \<in> set nodes. nd_UID p = nd_OwnerUID n \<and> nd_Depth n = nd_Depth p + 1))"

definition walk_ok :: "(string \<times> string) set \<Rightarrow> string set \<Rightarrow> string list \<Rightarrow> OwnedNode list \<Rightarrow> bool" where
  "walk_ok E R visited nodes \<longleftrightarrow>
     set visited = R \<union> nd_UID ` set nodes \<and> distinct (map nd_UID nodes) \<and> R \<inter> nd_UID ` set nodes = {}
     \<and> (\<forall>n \<in> set nodes. node_ok E R nodes n) \<and> length nodes \<le> MaxOwnedObjects"

text \<open>A level's owners: the roots at depth one, the nodes of the level above below that.\<close>

definition level_owner :: "string set \<Rightarrow> OwnedNode list \<Rightarrow> nat \<Rightarrow> string \<Rightarrow> bool" where
  "level_owner R nodes depth ou \<longleftrightarrow> depth = 1 \<and> ou \<in> R \<or> (\<exists>p \<in> set nodes. nd_UID p = ou \<and> depth = nd_Depth p + 1)"

lemma node_ok_mono: "node_ok E R nodes n \<Longrightarrow> set nodes \<subseteq> set nodes' \<Longrightarrow> node_ok E R nodes' n"
  unfolding node_ok_def by blast

lemma level_owner_mono: "level_owner R nodes depth ou \<Longrightarrow> set nodes \<subseteq> set nodes' \<Longrightarrow> level_owner R nodes' depth ou"
  unfolding level_owner_def by blast

lemma walk_ok_visited: "walk_ok E R visited nodes \<Longrightarrow> set visited \<subseteq> E\<^sup>* `` R"
proof -
  assume ok: "walk_ok E R visited nodes"
  have "\<forall>n \<in> set nodes. nd_Depth n = d \<longrightarrow> nd_UID n \<in> E\<^sup>* `` R" for d
  proof (induction d rule: less_induct)
    case (less d)
    show ?case
    proof (intro ballI impI)
      fix n assume n: "n \<in> set nodes" "nd_Depth n = d"
      then have "node_ok E R nodes n" using ok by (simp add: walk_ok_def)
      then have e: "(nd_OwnerUID n, nd_UID n) \<in> E" and "nd_OwnerUID n \<in> R \<or> (\<exists>p \<in> set nodes. nd_UID p = nd_OwnerUID n \<and> nd_Depth p < d)"
        using n(2) by (auto simp: node_ok_def)
      then have "nd_OwnerUID n \<in> E\<^sup>* `` R" using less by fastforce
      with e show "nd_UID n \<in> E\<^sup>* `` R" by (auto intro: rtrancl_into_rtrancl)
    qed
  qed
  then show ?thesis using ok by (auto simp: walk_ok_def)
qed

text \<open>One owner's children. Unless the breadth ran out they are all visited afterwards, the new ones being the next frontier.\<close>

lemma visitChildren_ok:
  assumes "visitChildren objects depth owner is (visited, nodes, next) = ((visited', nodes', next'), limited)"
    and "walk_ok E R visited nodes" and "level_owner R nodes depth owner"
    and "\<forall>i \<in> set is. (owner, oo_UID (objects ! i)) \<in> E"
  shows "walk_ok E R visited' nodes' \<and> (\<exists>new. nodes' = nodes @ new \<and> (\<forall>n \<in> set new. nd_Depth n = depth)
      \<and> (\<not> limited \<longrightarrow> next' = next @ map nd_UID new \<and> (\<lambda>i. oo_UID (objects ! i)) ` set is \<subseteq> set visited'))
    \<and> (limited \<longrightarrow> next' = [] \<and> (\<exists>i \<in> set is. oo_UID (objects ! i) \<notin> set visited'))"
  using assms
proof (induction objects depth owner "is" "(visited, nodes, next)" arbitrary: visited nodes "next" rule: visitChildren.induct)
  case (1 objects depth owner visited nodes "next")
  then show ?case by auto
next
  case (2 objects depth owner i "is" visited nodes "next")
  let ?u = "oo_UID (objects ! i)"
  let ?n = "\<lparr>nd_Ref = oo_Ref (objects ! i), nd_UID = ?u, nd_Depth = depth, nd_OwnerUID = owner\<rparr>"
  consider (seen) "?u \<in> set visited" | (full) "?u \<notin> set visited" "length nodes \<ge> MaxOwnedObjects"
    | (new) "?u \<notin> set visited" "\<not> length nodes \<ge> MaxOwnedObjects" by linarith
  then show ?case
  proof cases
    case seen
    with 2(1) [OF refl seen] 2(3-6) have ih: "walk_ok E R visited' nodes' \<and> (\<exists>new. nodes' = nodes @ new \<and> (\<forall>n \<in> set new. nd_Depth n = depth)
      \<and> (\<not> limited \<longrightarrow> next' = next @ map nd_UID new \<and> (\<lambda>i. oo_UID (objects ! i)) ` set is \<subseteq> set visited'))
      \<and> (limited \<longrightarrow> next' = [] \<and> (\<exists>i \<in> set is. oo_UID (objects ! i) \<notin> set visited'))" by simp
    moreover have "?u \<in> set visited'" using seen ih 2(4) by (auto simp: walk_ok_def)
    ultimately show ?thesis by auto
  next
    case full
    with 2(3,4) show ?thesis by (auto simp: Let_def)
  next
    case new
    have ok: "walk_ok E R (?u # visited) (nodes @ [?n])"
      using new 2(4-6) by (auto simp: walk_ok_def node_ok_def level_owner_def)
    have lv: "level_owner R (nodes @ [?n]) depth owner" by (rule level_owner_mono [OF 2(5)]) auto
    from 2(2) [OF refl new _ ok lv] 2(3,6) new have ih: "walk_ok E R visited' nodes' \<and> (\<exists>more_nodes. nodes' = (nodes @ [?n]) @ more_nodes
        \<and> (\<forall>n \<in> set more_nodes. nd_Depth n = depth)
        \<and> (\<not> limited \<longrightarrow> next' = (next @ [?u]) @ map nd_UID more_nodes \<and> (\<lambda>i. oo_UID (objects ! i)) ` set is \<subseteq> set visited'))
      \<and> (limited \<longrightarrow> next' = [] \<and> (\<exists>i \<in> set is. oo_UID (objects ! i) \<notin> set visited'))" by (simp add: Let_def)
    then obtain more_nodes where m: "nodes' = nodes @ ?n # more_nodes" "\<forall>n \<in> set more_nodes. nd_Depth n = depth"
      "\<not> limited \<longrightarrow> next' = next @ map nd_UID (?n # more_nodes) \<and> (\<lambda>i. oo_UID (objects ! i)) ` set is \<subseteq> set visited'" by auto
    have "?u \<in> set visited'" using ih m(1) by (auto simp: walk_ok_def)
    with m have "\<exists>new. nodes' = nodes @ new \<and> (\<forall>n \<in> set new. nd_Depth n = depth)
      \<and> (\<not> limited \<longrightarrow> next' = next @ map nd_UID new \<and> (\<lambda>i. oo_UID (objects ! i)) ` set (i # is) \<subseteq> set visited')"
      by (intro exI [of _ "?n # more_nodes"]) auto
    with ih show ?thesis by auto
  qed
qed

text \<open>A whole frontier, then the levels.\<close>

lemma visitOwners_ok:
  assumes "visitOwners children objects depth owners (visited, nodes, next) = ((visited', nodes', next'), limited)"
    and "edges_indexed children objects" and "walk_ok (owns objects) R visited nodes" and "\<forall>ou \<in> set owners. level_owner R nodes depth ou"
  shows "walk_ok (owns objects) R visited' nodes' \<and> (\<exists>new. nodes' = nodes @ new \<and> (\<forall>n \<in> set new. nd_Depth n = depth)
      \<and> (\<not> limited \<longrightarrow> next' = next @ map nd_UID new \<and> owns objects `` set owners \<subseteq> set visited'))
    \<and> (limited \<longrightarrow> next' = [] \<and> (\<exists>ou \<in> set owners. \<exists>u. (ou, u) \<in> owns objects \<and> u \<notin> set visited'))"
  using assms
proof (induction owners arbitrary: visited nodes "next")
  case (Cons ou owners)
  obtain visited1 nodes1 next1 lim where c: "visitChildren objects depth ou (kids children ou) (visited, nodes, next) = ((visited1, nodes1, next1), lim)"
    by (metis prod_cases3 surj_pair)
  have img: "(\<lambda>i. oo_UID (objects ! i)) ` set (kids children ou) = owns objects `` {ou}" using Cons.prems(2) by (simp add: edges_indexed_def)
  then have edges: "\<forall>i \<in> set (kids children ou). (ou, oo_UID (objects ! i)) \<in> owns objects" by blast
  have lvl: "level_owner R nodes depth ou" using Cons.prems(4) by simp
  note one = visitChildren_ok [OF c Cons.prems(3) lvl edges]
  obtain new1 where new1: "nodes1 = nodes @ new1" "\<forall>n \<in> set new1. nd_Depth n = depth"
    "\<not> lim \<longrightarrow> next1 = next @ map nd_UID new1 \<and> owns objects `` {ou} \<subseteq> set visited1"
    using one unfolding img by blast
  show ?case
  proof (cases lim)
    case True
    with Cons.prems(1) c have e: "visited' = visited1" "nodes' = nodes1" "next' = next1" "limited" by simp_all
    have "\<exists>u. (ou, u) \<in> owns objects \<and> u \<notin> set visited1" using one True edges by blast
    with one True e new1 show ?thesis by auto
  next
    case False
    have lvl': "\<forall>ou \<in> set owners. level_owner R nodes1 depth ou"
      using Cons.prems(4) level_owner_mono [of R nodes depth _ nodes1] by (auto simp: new1(1))
    have rest: "visitOwners children objects depth owners (visited1, nodes1, next1) = ((visited', nodes', next'), limited)"
      using Cons.prems(1) c False by simp
    note ih = Cons.IH [OF rest Cons.prems(2) conjunct1 [OF one] lvl']
    obtain new2 where new2: "nodes' = nodes1 @ new2" "\<forall>n \<in> set new2. nd_Depth n = depth"
      "\<not> limited \<longrightarrow> next' = next1 @ map nd_UID new2 \<and> owns objects `` set owners \<subseteq> set visited'" using ih by blast
    have "set visited1 \<subseteq> set visited'" using one ih new2(1) by (auto simp: walk_ok_def)
    then have "\<not> limited \<longrightarrow> owns objects `` set (ou # owners) \<subseteq> set visited'" using new1(3) new2(3) False by auto
    then have "\<exists>new. nodes' = nodes @ new \<and> (\<forall>n \<in> set new. nd_Depth n = depth)
      \<and> (\<not> limited \<longrightarrow> next' = next @ map nd_UID new \<and> owns objects `` set (ou # owners) \<subseteq> set visited')"
      using new1 new2 False by (intro exI [of _ "new1 @ new2"]) auto
    with ih show ?thesis by auto
  qed
qed auto

text \<open>Every visited UID outside the frontier has its children visited.\<close>

definition closed_but :: "(string \<times> string) set \<Rightarrow> string list \<Rightarrow> string list \<Rightarrow> bool" where
  "closed_but E frontier visited \<longleftrightarrow> (\<forall>ou u. (ou, u) \<in> E \<longrightarrow> ou \<in> set visited \<longrightarrow> ou \<notin> set frontier \<longrightarrow> u \<in> set visited)"

lemma walkLevels_ok:
  assumes "walkLevels left children objects depth frontier visited nodes = ((visited', nodes', frontier'), limited)"
    and "edges_indexed children objects" and "walk_ok (owns objects) R visited nodes" and "\<forall>ou \<in> set frontier. level_owner R nodes depth ou"
    and "closed_but (owns objects) frontier visited" and "set frontier \<subseteq> set visited"
    and "\<forall>n \<in> set nodes. 1 \<le> nd_Depth n \<and> nd_Depth n < depth + left" and "1 \<le> depth"
  shows "walk_ok (owns objects) R visited' nodes' \<and> (\<forall>n \<in> set nodes'. 1 \<le> nd_Depth n \<and> nd_Depth n < depth + left)
    \<and> set frontier' \<subseteq> set visited'
    \<and> (\<not> limited \<longrightarrow> closed_but (owns objects) frontier' visited')
    \<and> (limited \<longrightarrow> frontier' = [] \<and> (\<exists>ou \<in> set visited'. \<exists>u. (ou, u) \<in> owns objects \<and> u \<notin> set visited'))"
  using assms
proof (induction left arbitrary: depth frontier visited nodes)
  case (Suc left)
  show ?case
  proof (cases "frontier = []")
    case True
    with Suc.prems show ?thesis by auto
  next
    case False
    obtain visited1 nodes1 next1 lim where v: "visitOwners children objects depth frontier (visited, nodes, []) = ((visited1, nodes1, next1), lim)"
      by (metis prod_cases3 surj_pair)
    note one = visitOwners_ok [OF v Suc.prems(2-4)]
    obtain new where new: "nodes1 = nodes @ new" "\<forall>n \<in> set new. nd_Depth n = depth"
      "\<not> lim \<longrightarrow> next1 = map nd_UID new \<and> owns objects `` set frontier \<subseteq> set visited1" using one by auto
    have sub: "set visited \<subseteq> set visited1" using one new(1) Suc.prems(3) by (auto simp: walk_ok_def)
    have depths: "\<forall>n \<in> set nodes1. 1 \<le> nd_Depth n \<and> nd_Depth n < depth + Suc left"
      using new(1,2) Suc.prems(7,8) by auto
    show ?thesis
    proof (cases lim)
      case True
      with Suc.prems(1) v False have e: "visited' = visited1" "nodes' = nodes1" "frontier' = next1" "limited" by simp_all
      then show ?thesis using one True depths sub Suc.prems(6) by auto
    next
      case F: False
      have rest: "walkLevels left children objects (depth + 1) next1 visited1 nodes1 = ((visited', nodes', frontier'), limited)"
        using Suc.prems(1) v False F by simp
      have "\<forall>ou \<in> set next1. level_owner R nodes1 (depth + 1) ou" using new F by (auto simp: level_owner_def)
      moreover have "closed_but (owns objects) next1 visited1"
        unfolding closed_but_def
      proof (intro allI impI)
        fix ou u assume e: "(ou, u) \<in> owns objects" "ou \<in> set visited1" "ou \<notin> set next1"
        then have "ou \<in> set visited" using one new F Suc.prems(3) by (auto simp: walk_ok_def)
        then show "u \<in> set visited1" using e Suc.prems(5) new(3) F sub unfolding closed_but_def by blast
      qed
      moreover have "set next1 \<subseteq> set visited1" using one new F by (auto simp: walk_ok_def)
      moreover have "\<forall>n \<in> set nodes1. 1 \<le> nd_Depth n \<and> nd_Depth n < depth + 1 + left" using depths by simp
      ultimately show ?thesis using Suc.IH [OF rest Suc.prems(2) conjunct1 [OF one]] by simp
    qed
  qed
qed auto

lemma addRoot_fold:
  "fold addRoot roots (visited, frontier) = (visited', frontier') \<Longrightarrow> set frontier = set visited \<Longrightarrow>
     set visited' = set visited \<union> {r \<in> set roots. r \<noteq> []} \<and> set frontier' = set visited'"
proof (induction roots arbitrary: visited frontier)
  case (Cons r roots)
  then show ?case by (cases "r = [] \<or> r \<in> set visited") (auto simp: addRoot_def)
qed auto

lemma measureGaps_fields [simp]:
  "ot_Nodes (measureGaps objects visited captured t) = ot_Nodes t" "ot_DepthLimited (measureGaps objects visited captured t) = ot_DepthLimited t"
  "ot_BreadthLimited (measureGaps objects visited captured t) = ot_BreadthLimited t"
  by (simp_all add: measureGaps_def Let_def)

lemma hasUnvisited_iff:
  "edges_indexed children objects \<Longrightarrow> hasUnvisited frontier children objects visited \<longleftrightarrow> (\<exists>ou \<in> set frontier. \<exists>u. (ou, u) \<in> owns objects \<and> u \<notin> set visited)"
proof -
  assume "edges_indexed children objects"
  then have "(\<exists>i \<in> set (kids children ou). oo_UID (objects ! i) \<notin> set visited) \<longleftrightarrow> (\<exists>u. (ou, u) \<in> owns objects \<and> u \<notin> set visited)" for ou
    unfolding edges_indexed_def by (metis (no_types, lifting) Image_singleton_iff image_iff)
  then show ?thesis by (simp add: hasUnvisited_def list_ex_iff)
qed

lemma closed_reaches: "R \<subseteq> V \<Longrightarrow> (\<forall>ou u. (ou, u) \<in> E \<longrightarrow> ou \<in> V \<longrightarrow> u \<in> V) \<Longrightarrow> E\<^sup>* `` R \<subseteq> V"
proof
  fix u assume "R \<subseteq> V" and closed: "\<forall>ou u. (ou, u) \<in> E \<longrightarrow> ou \<in> V \<longrightarrow> u \<in> V" and "u \<in> E\<^sup>* `` R"
  then obtain r where "r \<in> V" "(r, u) \<in> E\<^sup>*" by blast
  from this(2,1) show "u \<in> V" using closed by (induction rule: rtrancl_induct) blast+
qed

text \<open>
  C34: The walk over ownership, on any archive, cycles included. The roots are never among the nodes and no
  incarnation is listed twice; every node is at depth one to four and was reached by a reference its recorded
  state carries, from a root or from a node one level above; at most five hundred are collected. And the two
  limits are reported exactly when they cut something: neither is set if and only if the nodes are all the
  incarnations that recorded references put below the roots.
\<close>

theorem walk_reports_its_limits:
  fixes roots objects
  defines "t \<equiv> Descendants roots objects" and "R \<equiv> {r \<in> set roots. r \<noteq> []}"
  shows "distinct (map nd_UID (ot_Nodes t)) \<and> length (ot_Nodes t) \<le> MaxOwnedObjects
    \<and> (\<forall>n \<in> set (ot_Nodes t). 1 \<le> nd_Depth n \<and> nd_Depth n \<le> MaxOwnershipDepth \<and> node_ok (owns objects) R (ot_Nodes t) n)
    \<and> nd_UID ` set (ot_Nodes t) \<subseteq> (owns objects)\<^sup>* `` R - R
    \<and> (\<not> ot_DepthLimited t \<and> \<not> ot_BreadthLimited t \<longleftrightarrow> nd_UID ` set (ot_Nodes t) = (owns objects)\<^sup>* `` R - R)"
proof -
  obtain children captured where ix: "indexOwners 0 objects ([], []) = (children, captured)" by fastforce
  have idx: "edges_indexed children objects" using indexOwners_indexed [of objects] ix by simp
  obtain visited0 frontier0 where rt: "fold addRoot roots ([], []) = (visited0, frontier0)" by fastforce
  have roots: "set visited0 = R" "set frontier0 = R" using addRoot_fold [OF rt] by (simp_all add: R_def)
  obtain visited nodes frontier lim where w: "walkLevels MaxOwnershipDepth children objects 1 frontier0 visited0 [] = ((visited, nodes, frontier), lim)"
    by (metis prod_cases3 surj_pair)
  have "walk_ok (owns objects) R visited0 []" "\<forall>ou \<in> set frontier0. level_owner R [] 1 ou" "closed_but (owns objects) frontier0 visited0"
    "set frontier0 \<subseteq> set visited0"
    by (simp_all add: roots walk_ok_def level_owner_def closed_but_def)
  note walked = walkLevels_ok [OF w idx this]
  then have ok: "walk_ok (owns objects) R visited nodes" and depth: "\<forall>n \<in> set nodes. 1 \<le> nd_Depth n \<and> nd_Depth n \<le> MaxOwnershipDepth"
    and fr: "set frontier \<subseteq> set visited" and closed: "\<not> lim \<longrightarrow> closed_but (owns objects) frontier visited"
    and cut: "lim \<longrightarrow> (\<exists>ou \<in> set visited. \<exists>u. (ou, u) \<in> owns objects \<and> u \<notin> set visited)"
    by auto
  have t: "ot_Nodes t = nodes" "ot_BreadthLimited t = lim" "ot_DepthLimited t = hasUnvisited frontier children objects visited"
    by (simp_all add: t_def Descendants_def ix rt w [unfolded One_nat_def])
  have vis: "set visited = R \<union> nd_UID ` set nodes" "R \<inter> nd_UID ` set nodes = {}" using ok by (auto simp: walk_ok_def)
  have sub: "set visited \<subseteq> (owns objects)\<^sup>* `` R" by (rule walk_ok_visited [OF ok])
  have "\<not> ot_DepthLimited t \<and> \<not> ot_BreadthLimited t \<longleftrightarrow> (owns objects)\<^sup>* `` R \<subseteq> set visited"
  proof
    assume "\<not> ot_DepthLimited t \<and> \<not> ot_BreadthLimited t"
    then have "\<forall>ou u. (ou, u) \<in> owns objects \<longrightarrow> ou \<in> set visited \<longrightarrow> u \<in> set visited"
      using closed unfolding t hasUnvisited_iff [OF idx] closed_but_def by blast
    then show "(owns objects)\<^sup>* `` R \<subseteq> set visited" using vis(1) by (intro closed_reaches) auto
  next
    assume all: "(owns objects)\<^sup>* `` R \<subseteq> set visited"
    have "u \<in> set visited" if "ou \<in> set visited" "(ou, u) \<in> owns objects" for ou u
      using all sub that by (meson Image_iff rtrancl.rtrancl_into_rtrancl subsetD)
    then show "\<not> ot_DepthLimited t \<and> \<not> ot_BreadthLimited t" using cut fr unfolding t hasUnvisited_iff [OF idx] by blast
  qed
  moreover have "(owns objects)\<^sup>* `` R \<subseteq> set visited \<longleftrightarrow> nd_UID ` set nodes = (owns objects)\<^sup>* `` R - R" using sub vis by blast
  moreover have "nd_UID ` set nodes \<subseteq> (owns objects)\<^sup>* `` R - R" using sub vis by blast
  ultimately show ?thesis using ok depth unfolding t walk_ok_def by simp
qed

text \<open>A deployment, its replica set and a pod; the archive also claims that the pod owns the deployment.\<close>

definition sampleOwned :: "string \<Rightarrow> string \<Rightarrow> string \<Rightarrow> OwnedObject" where
  "sampleOwned kind uid owner =
     \<lparr>oo_Ref = \<lparr>or_ClusterID = ''c'', or_APIGroup = [], or_Kind = kind, or_Namespace = ''ns'', or_Name = uid\<rparr>, oo_UID = uid, oo_StateRecorded = True,
      oo_Owners = [\<lparr>ow_APIVersion = ''v1'', ow_Kind = kind, ow_Name = owner, ow_UID = owner\<rparr>]\<rparr>"

definition sampleOwnership :: "OwnedObject list" where
  "sampleOwnership = [sampleOwned ''Deployment'' ''d'' ''p'', sampleOwned ''ReplicaSet'' ''r'' ''d'', sampleOwned ''Pod'' ''p'' ''r'']"

theorem walk_reports_its_limits_witness:
  "map nd_UID (ot_Nodes (Descendants [''d''] sampleOwnership)) = [''r'', ''p'']
     \<and> (owns sampleOwnership)\<^sup>* `` {''d''} - {''d''} = {''r'', ''p''}"
proof -
  have "map nd_UID (ot_Nodes (Descendants [''d''] sampleOwnership)) = [''r'', ''p'']" "\<not> ot_DepthLimited (Descendants [''d''] sampleOwnership)"
    "\<not> ot_BreadthLimited (Descendants [''d''] sampleOwnership)" by code_simp+
  moreover have "{r \<in> set [''d'']. r \<noteq> []} = {''d''}" by auto
  moreover have "nd_UID ` set (ot_Nodes (Descendants [''d''] sampleOwnership)) = {''r'', ''p''}" using calculation(1) by (metis list.set(1,2) list.set_map)
  ultimately show ?thesis using walk_reports_its_limits [of "[''d'']" sampleOwnership] by simp
qed

section \<open>One entry per incarnation\<close>

text \<open>The marks of an incarnation that carry a state, and the first of the newest among them.\<close>

definition state_marks :: "string \<Rightarrow> ownershipMark list \<Rightarrow> ownershipMark list" where
  "state_marks u marks = filter (\<lambda>m. om_uid m = u \<and> om_state m) marks"

definition first_newest :: "ownershipMark list \<Rightarrow> ownershipMark option" where
  "first_newest ms = fold (\<lambda>m best. case best of None \<Rightarrow> Some m | Some b \<Rightarrow> if om_ts m > om_ts b then Some m else Some b) ms None"

lemma first_newest_snoc:
  "first_newest (ms @ [m]) = (case first_newest ms of None \<Rightarrow> Some m | Some b \<Rightarrow> if om_ts m > om_ts b then Some m else Some b)"
  by (simp add: first_newest_def)

lemma first_newest_None: "first_newest ms = None \<longleftrightarrow> ms = []"
proof (induction ms rule: rev_induct)
  case Nil
  then show ?case by (simp add: first_newest_def)
next
  case (snoc m ms)
  then show ?case by (auto simp: first_newest_snoc split: option.splits)
qed

lemma first_newest_Some:
  "first_newest ms = Some m \<Longrightarrow> \<exists>xs ys. ms = xs @ m # ys \<and> (\<forall>x \<in> set xs. om_ts x < om_ts m) \<and> (\<forall>y \<in> set ys. om_ts y \<le> om_ts m)"
proof (induction ms arbitrary: m rule: rev_induct)
  case Nil
  then show ?case by (simp add: first_newest_def)
next
  case (snoc a ms)
  show ?case
  proof (cases "first_newest ms")
    case None
    with snoc.prems have "ms @ [a] = [] @ m # []" by (simp add: first_newest_snoc first_newest_None)
    then show ?thesis by fastforce
  next
    case (Some b)
    from snoc.IH [OF this] obtain xs ys where b: "ms = xs @ b # ys" "\<forall>x \<in> set xs. om_ts x < om_ts b" "\<forall>y \<in> set ys. om_ts y \<le> om_ts b" by blast
    show ?thesis
    proof (cases "om_ts a > om_ts b")
      case True
      with Some snoc.prems have "m = a" by (simp add: first_newest_snoc)
      moreover have "\<forall>x \<in> set ms. om_ts x < om_ts a" using b True by auto
      ultimately show ?thesis by (intro exI [of _ ms] exI [of _ "[]"]) simp
    next
      case False
      with Some snoc.prems have "m = b" by (simp add: first_newest_snoc)
      then show ?thesis using b False by (intro exI [of _ xs] exI [of _ "ys @ [a]"]) auto
    qed
  qed
qed

text \<open>
  An entry of the reduction with the marks taken into account, and the invariant of the loop: the positions of
  the UIDs, the instant of the newest state of each, and every entry up to date.
\<close>

definition mark_entry :: "ownershipMark list \<Rightarrow> OwnedObject \<Rightarrow> OwnedObject" where
  "mark_entry ms x =
     x\<lparr>oo_StateRecorded := (state_marks (oo_UID x) ms \<noteq> []),
       oo_Owners := (case first_newest (state_marks (oo_UID x) ms) of None \<Rightarrow> [] | Some m \<Rightarrow> om_owners m)\<rparr>"

definition owned_core :: "ownershipMark list \<Rightarrow> owned_state \<Rightarrow> bool" where
  "owned_core ms st \<longleftrightarrow>
     (case st of (objects, latest, pos) \<Rightarrow>
        (\<forall>u i. gm_get pos u = Some i \<longleftrightarrow> i < length objects \<and> oo_UID (objects ! i) = u)
        \<and> (\<forall>u. gm_get latest u = map_option om_ts (first_newest (state_marks u ms)))
        \<and> (\<forall>x \<in> set objects. x = mark_entry ms x))"

definition owned_inv :: "ownershipMark list \<Rightarrow> owned_state \<Rightarrow> bool" where
  "owned_inv ms st \<longleftrightarrow> owned_core ms st \<and> oo_UID ` set (fst st) = om_uid ` set ms"

lemma owned_coreD:
  assumes "owned_core ms (objects, latest, pos)"
  shows "gm_get pos u = Some i \<longleftrightarrow> i < length objects \<and> oo_UID (objects ! i) = u"
    and "gm_get latest u = map_option om_ts (first_newest (state_marks u ms))"
    and "x \<in> set objects \<Longrightarrow> x = mark_entry ms x"
  using assms unfolding owned_core_def case_prod_conv by blast+

lemma state_marks_snoc: "state_marks u (ms @ [m]) = state_marks u ms @ (if om_uid m = u \<and> om_state m then [m] else [])"
  by (simp add: state_marks_def)

lemma mark_entry_fields:
  "oo_UID (mark_entry ms x) = oo_UID x"
  "oo_StateRecorded (mark_entry ms x) = (state_marks (oo_UID x) ms \<noteq> [])"
  "oo_Owners (mark_entry ms x) = (case first_newest (state_marks (oo_UID x) ms) of None \<Rightarrow> [] | Some m \<Rightarrow> om_owners m)"
  by (simp_all add: mark_entry_def)

lemma mark_entry_idem [simp]: "mark_entry ms (mark_entry ms x) = mark_entry ms x"
  by (simp add: mark_entry_def)

lemma mark_entry_other: "oo_UID x \<noteq> om_uid m \<Longrightarrow> mark_entry (ms @ [m]) x = mark_entry ms x"
  by (simp add: mark_entry_def state_marks_snoc)

lemma owned_entry:
  assumes "owned_inv ms (objects, latest, pos)" and "x \<in> set objects"
  shows "oo_StateRecorded x = (state_marks (oo_UID x) ms \<noteq> [])"
    and "oo_Owners x = (case first_newest (state_marks (oo_UID x) ms) of None \<Rightarrow> [] | Some m \<Rightarrow> om_owners m)"
proof -
  have "x = mark_entry ms x" using assms unfolding owned_inv_def by (blast intro: owned_coreD(3))
  then show "oo_StateRecorded x = (state_marks (oo_UID x) ms \<noteq> [])"
    "oo_Owners x = (case first_newest (state_marks (oo_UID x) ms) of None \<Rightarrow> [] | Some m \<Rightarrow> om_owners m)"
    using mark_entry_fields [of ms x] by metis+
qed

text \<open>The step makes room for an incarnation met for the first time, then updates its entry.\<close>

definition mark_place :: "ownershipMark \<Rightarrow> owned_state \<Rightarrow> nat \<times> OwnedObject list \<times> (string, nat) gomap" where
  "mark_place mark st =
     (case st of (objects, latest, pos) \<Rightarrow>
        case gm_get pos (om_uid mark) of
          Some i \<Rightarrow> (i, objects, pos)
        | None \<Rightarrow> (length objects,
            objects @ [\<lparr>oo_Ref = om_ref mark, oo_UID = om_uid mark, oo_StateRecorded = False, oo_Owners = []\<rparr>],
            gm_set (om_uid mark) (length objects) pos))"

lemma mark_place_inv:
  assumes "owned_inv ms (objects, latest, pos)" and "mark_place mark (objects, latest, pos) = (i, objs, pos')"
  shows "owned_core ms (objs, latest, pos')" and "gm_get pos' (om_uid mark) = Some i"
    and "oo_UID ` set objs = om_uid ` set (ms @ [mark])"
proof -
  let ?u = "om_uid mark"
  have core: "owned_core ms (objects, latest, pos)" and uids: "oo_UID ` set objects = om_uid ` set ms"
    using assms(1) by (simp_all add: owned_inv_def)
  note d = owned_coreD [OF core]
  have "owned_core ms (objs, latest, pos') \<and> gm_get pos' ?u = Some i \<and> oo_UID ` set objs = om_uid ` set (ms @ [mark])"
  proof (cases "gm_get pos ?u")
    case None
    define x where "x = \<lparr>oo_Ref = om_ref mark, oo_UID = ?u, oo_StateRecorded = False, oo_Owners = []\<rparr>"
    have e: "i = length objects" "objs = objects @ [x]" "pos' = gm_set ?u (length objects) pos"
      using assms(2) None by (auto simp: mark_place_def x_def)
    have new: "\<not> (k < length objects \<and> oo_UID (objects ! k) = ?u)" for k using d(1) [of ?u k] None by simp
    then have "?u \<notin> om_uid ` set ms" using uids by (metis (no_types, lifting) imageE in_set_conv_nth)
    then have "state_marks ?u ms = []" unfolding state_marks_def filter_empty_conv by (metis imageI)
    then have "x = mark_entry ms x" by (simp add: x_def mark_entry_def first_newest_def)
    moreover have "gm_get pos' u = Some j \<longleftrightarrow> j < length objs \<and> oo_UID (objs ! j) = u" for u j
      using new d(1) [of u j] by (auto simp: e x_def nth_append less_Suc_eq)
    moreover have "\<forall>y \<in> set objects. y = mark_entry ms y" using d(3) by blast
    ultimately have "owned_core ms (objs, latest, pos')"
      unfolding owned_core_def case_prod_conv using d(2) by (simp add: e(2))
    then show ?thesis using uids by (auto simp: e x_def)
  next
    case (Some k)
    then have e: "i = k" "objs = objects" "pos' = pos" using assms(2) by (simp_all add: mark_place_def)
    have "?u \<in> oo_UID ` set objects" using d(1) [of ?u k] Some nth_mem by force
    with uids core Some show ?thesis by (auto simp: e)
  qed
  then show "owned_core ms (objs, latest, pos')" "gm_get pos' ?u = Some i" "oo_UID ` set objs = om_uid ` set (ms @ [mark])"
    by blast+
qed

text \<open>The update: the entry takes the mark, and the newest instant moves when the mark carries a later state.\<close>

lemma mark_update_inv:
  assumes "owned_core ms (objs, latest, pos)" and i: "gm_get pos (om_uid mark) = Some i"
    and l: "\<And>u. gm_get latest' u = map_option om_ts (first_newest (state_marks u (ms @ [mark])))"
  shows "owned_core (ms @ [mark]) (objs[i := mark_entry (ms @ [mark]) (objs ! i)], latest', pos)"
    and "oo_UID ` set (objs[i := mark_entry (ms @ [mark]) (objs ! i)]) = oo_UID ` set objs"
proof -
  let ?objs = "objs[i := mark_entry (ms @ [mark]) (objs ! i)]"
  note d = owned_coreD [OF assms(1)]
  have u: "oo_UID (?objs ! j) = oo_UID (objs ! j)" if "j < length objs" for j
    using that by (cases "j = i") (simp_all add: mark_entry_fields)
  have "gm_get pos v = Some j \<longleftrightarrow> j < length ?objs \<and> oo_UID (?objs ! j) = v" for v j
    using d(1) [of v j] u [of j] by auto
  moreover have "x = mark_entry (ms @ [mark]) x" if mem: "x \<in> set ?objs" for x
  proof -
    obtain j where j: "j < length objs" "x = ?objs ! j" using mem by (auto simp: in_set_conv_nth)
    show ?thesis
    proof (cases "j = i")
      case False
      then have "oo_UID (objs ! j) \<noteq> om_uid mark" using d(1) [of "om_uid mark" j] i j(1) by auto
      then show ?thesis using False j d(3) [of x] by (simp add: mark_entry_other)
    qed (use j in simp)
  qed
  ultimately show "owned_core (ms @ [mark]) (?objs, latest', pos)"
    unfolding owned_core_def case_prod_conv using l by blast
  have "map oo_UID ?objs = map oo_UID objs" by (rule nth_equalityI) (simp_all add: u)
  then show "oo_UID ` set ?objs = oo_UID ` set objs" by (metis list.set_map)
qed

text \<open>The newest instant after a mark.\<close>

definition mark_latest :: "ownershipMark \<Rightarrow> (string, go_time) gomap \<Rightarrow> (string, go_time) gomap" where
  "mark_latest mark latest =
     (if om_state mark \<and> (case gm_get latest (om_uid mark) of None \<Rightarrow> True | Some at \<Rightarrow> om_ts mark > at)
      then gm_set (om_uid mark) (om_ts mark) latest else latest)"

lemma mark_latest_get:
  assumes "\<And>u. gm_get latest u = map_option om_ts (first_newest (state_marks u ms))"
  shows "gm_get (mark_latest mark latest) u = map_option om_ts (first_newest (state_marks u (ms @ [mark])))"
proof (cases "u = om_uid mark \<and> om_state mark")
  case True
  then show ?thesis using assms [of u]
    by (cases "first_newest (state_marks u ms)") (simp_all add: mark_latest_def state_marks_snoc first_newest_snoc)
next
  case False
  then show ?thesis using assms [of u] by (auto simp: mark_latest_def state_marks_snoc)
qed

lemma mark_entry_snoc:
  assumes x: "x = mark_entry ms x" and u: "oo_UID x = om_uid mark"
    and l: "gm_get latest (om_uid mark) = map_option om_ts (first_newest (state_marks (om_uid mark) ms))"
  defines "flagged \<equiv> x\<lparr>oo_StateRecorded := oo_StateRecorded x \<or> om_state mark\<rparr>"
  shows "(if \<not> om_state mark then (flagged, latest)
      else if (case gm_get latest (om_uid mark) of None \<Rightarrow> False | Some at \<Rightarrow> \<not> om_ts mark > at) then (flagged, latest)
      else (flagged\<lparr>oo_Owners := om_owners mark\<rparr>, gm_set (om_uid mark) (om_ts mark) latest))
    = (mark_entry (ms @ [mark]) x, mark_latest mark latest)"
proof -
  have f: "oo_StateRecorded x = (state_marks (om_uid mark) ms \<noteq> [])"
    "oo_Owners x = (case first_newest (state_marks (om_uid mark) ms) of None \<Rightarrow> [] | Some m \<Rightarrow> om_owners m)"
    using mark_entry_fields(2,3) [of ms x] x u by metis+
  show ?thesis
  proof (cases "om_state mark")
    case False
    then show ?thesis by (simp add: mark_entry_def state_marks_snoc flagged_def mark_latest_def u flip: f)
  next
    case True
    then show ?thesis
      by (cases "first_newest (state_marks (om_uid mark) ms)")
        (simp_all add: mark_entry_def state_marks_snoc first_newest_snoc flagged_def mark_latest_def u l f(2))
  qed
qed

lemma ownedStep_inv:
  assumes "owned_inv ms (objects, latest, pos)"
  shows "owned_inv (ms @ [mark]) (ownedStep mark (objects, latest, pos))"
proof -
  obtain i objs pos' where p: "mark_place mark (objects, latest, pos) = (i, objs, pos')" by (metis surj_pair)
  note m = mark_place_inv [OF assms p]
  have x: "i < length objs" "oo_UID (objs ! i) = om_uid mark" using owned_coreD(1) [OF m(1)] m(2) by blast+
  have e: "objs ! i = mark_entry ms (objs ! i)" using owned_coreD(3) [OF m(1)] x(1) by simp
  define flagged where "flagged = (objs ! i)\<lparr>oo_StateRecorded := oo_StateRecorded (objs ! i) \<or> om_state mark\<rparr>"
  have "ownedStep mark (objects, latest, pos) =
      (case if \<not> om_state mark then (flagged, latest)
            else if (case gm_get latest (om_uid mark) of None \<Rightarrow> False | Some at \<Rightarrow> \<not> om_ts mark > at) then (flagged, latest)
            else (flagged\<lparr>oo_Owners := om_owners mark\<rparr>, gm_set (om_uid mark) (om_ts mark) latest) of
         (y, latest') \<Rightarrow> (objs[i := y], latest', pos'))"
    using p x(1) by (cases "gm_get pos (om_uid mark)") (auto simp: ownedStep_def mark_place_def Let_def flagged_def)
  also have "\<dots> = (objs[i := mark_entry (ms @ [mark]) (objs ! i)], mark_latest mark latest, pos')"
    unfolding flagged_def mark_entry_snoc [OF e x(2) owned_coreD(2) [OF m(1)]] by simp
  finally show ?thesis
    using mark_update_inv [OF m(1,2) mark_latest_get [OF owned_coreD(2) [OF m(1)]]] m(3) by (simp add: owned_inv_def)
qed

lemma owned_fold_inv: "owned_inv ms (fold ownedStep ms ([], [], []))"
proof (induction ms rule: rev_induct)
  case Nil
  then show ?case by (simp add: owned_inv_def owned_core_def state_marks_def first_newest_def)
next
  case (snoc m ms)
  then show ?case using ownedStep_inv [of ms] by (cases "fold ownedStep ms ([], [], [])") simp
qed

text \<open>
  What a scan's marks say of ownership. There is exactly one entry per incarnation met, in the order of
  identity; it says whether any row of the window carried a state; and its owners are those of the newest row
  that did, the first of them when several share the instant, whatever came before or after it.
\<close>

theorem newest_state_names_owners:
  fixes marks
  defines "objs \<equiv> ownedObjects marks"
  shows "sorted (map compareOwned objs) \<and> distinct (map oo_UID objs) \<and> oo_UID ` set objs = om_uid ` set marks
    \<and> (\<forall>x \<in> set objs.
         (if oo_StateRecorded x
          then \<exists>xs m ys. state_marks (oo_UID x) marks = xs @ m # ys \<and> (\<forall>a \<in> set xs. om_ts a < om_ts m) \<and> (\<forall>a \<in> set ys. om_ts a \<le> om_ts m)
                 \<and> oo_Owners x = om_owners m
          else state_marks (oo_UID x) marks = [] \<and> oo_Owners x = []))"
proof -
  obtain objects latest pos where f: "fold ownedStep marks ([], [], []) = (objects, latest, pos)" by (cases "fold ownedStep marks ([], [], [])")
  have inv: "owned_inv marks (objects, latest, pos)" using owned_fold_inv [of marks] by (simp add: f)
  have objs: "objs = sort_key compareOwned objects" by (simp add: objs_def ownedObjects_def f)
  have "distinct (map oo_UID objects)"
    unfolding distinct_conv_nth
  proof (intro allI impI)
    fix i j assume "i < length (map oo_UID objects)" "j < length (map oo_UID objects)" "i \<noteq> j"
    then show "map oo_UID objects ! i \<noteq> map oo_UID objects ! j" using owned_coreD(1) [OF inv [unfolded owned_inv_def, THEN conjunct1]] by (metis length_map nth_map option.inject)
  qed
  then have d: "distinct (map oo_UID objs)" by (simp add: objs distinct_map)
  have "if oo_StateRecorded x
      then \<exists>xs m ys. state_marks (oo_UID x) marks = xs @ m # ys \<and> (\<forall>a \<in> set xs. om_ts a < om_ts m) \<and> (\<forall>a \<in> set ys. om_ts a \<le> om_ts m)
             \<and> oo_Owners x = om_owners m
      else state_marks (oo_UID x) marks = [] \<and> oo_Owners x = []" if "x \<in> set objs" for x
  proof -
    have x: "oo_StateRecorded x = (state_marks (oo_UID x) marks \<noteq> [])"
      "oo_Owners x = (case first_newest (state_marks (oo_UID x) marks) of None \<Rightarrow> [] | Some m \<Rightarrow> om_owners m)"
      using owned_entry [OF inv, of x] that by (simp_all add: objs)
    show ?thesis
    proof (cases "first_newest (state_marks (oo_UID x) marks)")
      case None
      then have "state_marks (oo_UID x) marks = []" "oo_Owners x = []" using x(2) None first_newest_None by auto
      with x(1) show ?thesis by simp
    next
      case (Some m)
      with first_newest_Some [OF Some] x show ?thesis by auto
    qed
  qed
  moreover have "oo_UID ` set objs = om_uid ` set marks" using inv by (simp add: objs owned_inv_def)
  ultimately show ?thesis using d by (simp add: objs)
qed

definition sampleMarks :: "ownershipMark list" where
  "sampleMarks =
     (let ref = \<lparr>or_ClusterID = ''c'', or_APIGroup = [], or_Kind = ''Pod'', or_Namespace = ''ns'', or_Name = ''p''\<rparr>;
          owner = (\<lambda>u. [\<lparr>ow_APIVersion = ''v1'', ow_Kind = ''ReplicaSet'', ow_Name = u, ow_UID = u\<rparr>])
      in [\<lparr>om_ref = ref, om_uid = ''u'', om_ts = 5, om_state = True, om_owners = owner ''new''\<rparr>,
          \<lparr>om_ref = ref, om_uid = ''u'', om_ts = 3, om_state = True, om_owners = owner ''old''\<rparr>,
          \<lparr>om_ref = ref, om_uid = ''u'', om_ts = 9, om_state = False, om_owners = []\<rparr>])"

theorem newest_state_names_owners_witness:
  "map (\<lambda>x. map ow_UID (oo_Owners x)) (ownedObjects sampleMarks) = [[''new'']] \<and> distinct (map oo_UID (ownedObjects sampleMarks))"
proof -
  have "map (\<lambda>x. map ow_UID (oo_Owners x)) (ownedObjects sampleMarks) = [[''new'']]" by code_simp
  with newest_state_names_owners [of sampleMarks] show ?thesis by blast
qed

end
