(* ===== verification/Pointers.thy ===== *)
theory Pointers
  imports Replay
begin

text \<open>
  JSON Pointers of the client's replay (\<open>internal/cli/replay/attribute.go\<close>, \<open>prior.go\<close>) and their display form
  (\<open>internal/cli/render/path.go\<close>): tokens and their escapes, the leaves of a document, resolving a pointer, the
  order of pointers. Every leaf has one pointer, and that pointer resolves to it.
\<close>

section \<open>Tokens\<close>

text \<open>\<open>strings.ReplaceAll\<close> of one character by a text, \<open>strings.LastIndex\<close> of a character, \<open>strings.Compare\<close> and
  \<open>strconv.Atoi\<close> on a 64-bit platform.\<close>

definition replace1 :: "char \<Rightarrow> string \<Rightarrow> string \<Rightarrow> string" where
  "replace1 c t s = concat (map (\<lambda>x. if x = c then t else [x]) s)"

definition last_index :: "char \<Rightarrow> string \<Rightarrow> nat option" where
  "last_index c s = (if c \<in> set s then Some (length s - Suc (length (takeWhile (\<lambda>x. x \<noteq> c) (rev s)))) else None)"

definition strings_compare :: "string \<Rightarrow> string \<Rightarrow> int" where
  "strings_compare a b = (if a = b then 0 else if a < b then - 1 else 1)"

definition atoi :: "string \<Rightarrow> int option" where
  "atoi s =
     (let (neg, ds) = (case s of [] \<Rightarrow> (False, [])
                       | c # cs \<Rightarrow> if c = CHR ''-'' then (True, cs) else if c = CHR ''+'' then (False, cs) else (False, s))
      in if ds = [] \<or> \<not> list_all is_digit ds then None
         else let v = (if neg then - int (nat_of_digits ds) else int (nat_of_digits ds))
              in if - (2 ^ 63) \<le> v \<and> v < 2 ^ 63 then Some v else None)"

definition escapeToken :: "string \<Rightarrow> string" where
  "escapeToken name = replace1 (CHR ''/'') ''~1'' (replace1 (CHR ''~'') ''~0'' name)"

definition unescapeToken :: "string \<Rightarrow> string" where
  "unescapeToken t = replace2 (CHR ''~'') (CHR ''0'') (CHR ''~'') (replace2 (CHR ''~'') (CHR ''1'') (CHR ''/'') t)"

definition pointerTokens :: "string \<Rightarrow> string list" where
  "pointerTokens pointer =
     (if pointer = [] then []
      else split_on (CHR ''/'') (if has_prefix pointer ''/'' then tl pointer else pointer))"

definition parentPointer :: "string \<Rightarrow> string" where
  "parentPointer pointer =
     (case last_index (CHR ''/'') pointer of None \<Rightarrow> [] | Some n \<Rightarrow> if n > 0 then take n pointer else [])"

definition collapseTo :: "string \<Rightarrow> int \<Rightarrow> string" where
  "collapseTo pointer depth =
     (if depth \<le> 0 then pointer
      else let tokens = pointerTokens pointer
           in if int (length tokens) \<le> depth then pointer
              else ''/'' @ join_with ''/'' (take (nat depth) tokens))"

fun compareTokens :: "string list \<Rightarrow> string list \<Rightarrow> int" where
  "compareTokens (l # ls) (r # rs) =
     (if l = r then compareTokens ls rs
      else case (atoi l, atoi r) of
             (Some i, Some j) \<Rightarrow> if i \<noteq> j then wrap64 (i - j) else strings_compare l r
           | _ \<Rightarrow> strings_compare l r)"
| "compareTokens ls rs = int (length ls) - int (length rs)"

definition comparePointers :: "string \<Rightarrow> string \<Rightarrow> int" where
  "comparePointers a b = compareTokens (pointerTokens a) (pointerTokens b)"

section \<open>Values\<close>

fun valueAtTokens :: "json \<Rightarrow> string list \<Rightarrow> json option" where
  "valueAtTokens current [] = Some current"
| "valueAtTokens (JObj kvs) (t # ts) =
     (case gm_get kvs (unescapeToken t) of None \<Rightarrow> None | Some v \<Rightarrow> valueAtTokens v ts)"
| "valueAtTokens (JArr xs) (t # ts) =
     (case atoi (unescapeToken t) of
        None \<Rightarrow> None
      | Some i \<Rightarrow> if i < 0 \<or> i \<ge> int (length xs) then None else valueAtTokens (xs ! nat i) ts)"
| "valueAtTokens _ (t # ts) = None"

definition valueAtPointer :: "json \<Rightarrow> string \<Rightarrow> json option" where
  "valueAtPointer document pointer =
     (if pointer = [] then Some document
      else valueAtTokens document (split_on (CHR ''/'') (if has_prefix pointer ''/'' then tl pointer else pointer)))"

definition mustValueAt :: "json \<Rightarrow> string \<Rightarrow> json" where
  "mustValueAt document pointer = (case valueAtPointer document pointer of None \<Rightarrow> JNull | Some v \<Rightarrow> v)"

text \<open>The walk of \<open>leafPointers\<close>; the decoded nil document is \<^const>\<open>JNull\<close>.\<close>

fun leafWalk :: "json \<Rightarrow> string \<Rightarrow> string list" and leafElements :: "nat \<Rightarrow> json list \<Rightarrow> string \<Rightarrow> string list" where
  "leafWalk (JObj kvs) pre =
     (if kvs = [] then [pre]
      else concat (map snd (sort_key fst (map (\<lambda>(k, v). (k, leafWalk v (pre @ ''/'' @ escapeToken k))) kvs))))"
| "leafWalk (JArr xs) pre = (if xs = [] then [pre] else leafElements 0 xs pre)"
| "leafWalk _ pre = [pre]"
| "leafElements i [] pre = []"
| "leafElements i (x # xs) pre = leafWalk x (pre @ ''/'' @ digits_nat i) @ leafElements (Suc i) xs pre"

definition leafPointers :: "json \<Rightarrow> string list" where
  "leafPointers document = (if document = JNull then [] else leafWalk document [])"

section \<open>Display\<close>

definition isIndex :: "string \<Rightarrow> bool" where
  "isIndex segment =
     (if segment = [] \<or> (length segment > 1 \<and> hd segment = CHR ''0'') then False else list_all is_digit segment)"

definition pointerSegments :: "string \<Rightarrow> string list" where
  "pointerSegments pointer =
     (let trimmed = (if has_prefix pointer ''/'' then tl pointer else pointer)
      in if pointer = [] \<or> (trimmed = [] \<and> pointer = ''/'') then []
         else map unescapeToken (split_on (CHR ''/'') trimmed))"

definition displaySegment :: "string \<Rightarrow> string" where
  "displaySegment segment = (if isIndex segment then ''['' @ segment @ '']'' else ''.'' @ segment)"

definition DisplayPath :: "string \<Rightarrow> string" where
  "DisplayPath pointer =
     (case pointerSegments pointer of
        [] \<Rightarrow> ''/''
      | s # segments \<Rightarrow> s @ concat (map displaySegment segments))"

definition NormalizeFieldPath :: "string \<Rightarrow> string" where
  "NormalizeFieldPath path =
     (if CHR ''['' \<notin> set path \<and> CHR '']'' \<notin> set path then path
      else concat (map (\<lambda>c. if c = CHR ''['' then ''.'' else if c = CHR '']'' then [] else [c]) path))"

section \<open>Escapes and indices\<close>

lemma escapeToken_segment: "escapeToken name = escapeSegment name"
  unfolding escapeToken_def escapeSegment_def replace1_def by (induction name) auto

lemma unescape_escape [simp]: "unescapeToken (escapeToken k) = k"
  by (simp add: escapeToken_segment unescapeToken_def unescape_slashes unescape_tildes)

lemma escapeToken_no_slash: "CHR ''/'' \<notin> set (escapeToken k)"
  by (simp add: escapeToken_segment escapeSegment_no_slash)

lemma digit_bounds: "is_digit c \<Longrightarrow> c \<noteq> CHR ''/'' \<and> c \<noteq> CHR ''~'' \<and> c \<noteq> CHR ''-'' \<and> c \<noteq> CHR ''+''"
  by (auto simp: is_digit_def)

lemma digits_plain: "c \<in> set (digits_nat n) \<Longrightarrow> c \<noteq> CHR ''/'' \<and> c \<noteq> CHR ''~'' \<and> c \<noteq> CHR ''-'' \<and> c \<noteq> CHR ''+''"
  using digits_nat_digits [of n] digit_bounds by (auto simp: list_all_iff)

lemma replace2_free: "a \<notin> set s \<Longrightarrow> replace2 a b c s = s"
  by (induction s) (auto simp: replace2_skip)

lemma unescape_digits [simp]: "unescapeToken (digits_nat n) = digits_nat n"
proof -
  have "CHR ''~'' \<notin> set (digits_nat n)" using digits_plain by blast
  then show ?thesis by (simp add: unescapeToken_def replace2_free)
qed

lemma atoi_digits: "n < 2 ^ 63 \<Longrightarrow> atoi (digits_nat n) = Some (int n)"
proof -
  assume n: "n < 2 ^ 63"
  obtain c cs where c: "digits_nat n = c # cs" using digits_nat_digits [of n] by (cases "digits_nat n") auto
  then have "c \<noteq> CHR ''-''" "c \<noteq> CHR ''+''" using digits_plain [of c n] by auto
  moreover have "int n < 2 ^ 63" using n by (metis of_nat_less_iff of_nat_numeral of_nat_power)
  moreover have "nat_of_digits (c # cs) = n" "list_all is_digit (c # cs)"
    using nat_of_digits_nat [of n] digits_nat_digits [of n] by (simp_all only: c)
  ultimately show ?thesis unfolding c by (simp add: atoi_def Let_def)
qed

section \<open>Pointers of paths\<close>

fun stepToken :: "jstep \<Rightarrow> string" where
  "stepToken (Member k) = escapeToken k"
| "stepToken (Element i) = digits_nat i"

definition pathPointer :: "jstep list \<Rightarrow> string" where
  "pathPointer path = concat (map (\<lambda>s. CHR ''/'' # stepToken s) path)"

lemma stepToken_no_slash: "CHR ''/'' \<notin> set (stepToken s)"
  using digits_plain by (cases s) (auto simp: escapeToken_no_slash)

lemma pathPointer_simps [simp]:
  "pathPointer [] = []" "pathPointer (s # path) = CHR ''/'' # stepToken s @ pathPointer path"
  "pathPointer (path @ path') = pathPointer path @ pathPointer path'"
  by (simp_all add: pathPointer_def)

lemma split_pathPointer: "split_on (CHR ''/'') (stepToken s @ pathPointer path) = stepToken s # map stepToken path"
proof (induction path arbitrary: s)
  case Nil
  then show ?case by (simp add: stepToken_no_slash)
next
  case (Cons u path)
  then show ?case using split_on_append [OF stepToken_no_slash, of s] by simp
qed

lemma pointerTokens_path [simp]: "pointerTokens (pathPointer path) = map stepToken path"
  by (cases path) (simp_all add: pointerTokens_def split_pathPointer has_prefix_def)

lemma valueAtPointer_tokens: "valueAtPointer d p = valueAtTokens d (pointerTokens p)"
  by (simp add: valueAtPointer_def pointerTokens_def)

text \<open>A document whose arrays have lengths a Go \<open>int\<close> can hold, as every decoded one does.\<close>

fun go_sized :: "json \<Rightarrow> bool" where
  "go_sized (JArr xs) \<longleftrightarrow> length xs < 2 ^ 63 \<and> list_all go_sized xs"
| "go_sized (JObj kvs) \<longleftrightarrow> list_all (\<lambda>kv. go_sized (snd kv)) kvs"
| "go_sized _ \<longleftrightarrow> True"

lemma go_sized_member: "go_sized (JObj kvs) \<Longrightarrow> gm_get kvs k = Some v \<Longrightarrow> go_sized v"
  using gm_get_in_set [of kvs k v] by (auto simp: list_all_iff)

lemma valueAtPointer_path:
  assumes "go_sized d" and "json_at d path = Some v"
  shows "valueAtTokens d (map stepToken path) = Some v"
  using assms
proof (induction d path rule: json_at.induct)
  case (2 kvs k ps)
  then obtain w where "gm_get kvs k = Some w" "json_at w ps = Some v" by (auto split: option.splits)
  with 2 go_sized_member show ?case by (simp del: go_sized.simps)
next
  case (3 xs i ps)
  then have i: "i < length xs" "json_at (xs ! i) ps = Some v" by (auto split: if_splits)
  moreover have "go_sized (xs ! i)" using 3(2) i(1) by (simp add: list_all_length)
  moreover have "atoi (digits_nat i) = Some (int i)" using 3(2) i(1) by (intro atoi_digits) simp
  ultimately show ?case using 3(1) by simp
qed auto

section \<open>Leaves\<close>

definition is_leaf :: "json \<Rightarrow> bool" where
  "is_leaf v = (case v of JObj kvs \<Rightarrow> kvs = [] | JArr xs \<Rightarrow> xs = [] | _ \<Rightarrow> True)"

fun leafPaths :: "json \<Rightarrow> jstep list list" and elementPaths :: "nat \<Rightarrow> json list \<Rightarrow> jstep list list" where
  "leafPaths (JObj kvs) = (if kvs = [] then [[]] else concat (map (\<lambda>(k, v). map ((#) (Member k)) (leafPaths v)) kvs))"
| "leafPaths (JArr xs) = (if xs = [] then [[]] else elementPaths 0 xs)"
| "leafPaths _ = [[]]"
| "elementPaths i [] = []"
| "elementPaths i (x # xs) = map ((#) (Element i)) (leafPaths x) @ elementPaths (Suc i) xs"

lemma sort_members: "sorted_wrt (<) (map fst kvs) \<Longrightarrow> sort_key fst (map (\<lambda>(k, v). (k, f k v)) kvs) = map (\<lambda>(k, v). (k, f k v)) kvs"
proof -
  assume "sorted_wrt (<) (map fst kvs)"
  then have "sorted (map fst (map (\<lambda>(k, v). (k, f k v)) kvs))" by (simp add: strict_sorted_iff comp_def case_prod_beta)
  then show ?thesis by (rule sort_key_id_if_sorted)
qed

lemma leafWalk_paths:
  "json_wf d \<Longrightarrow> leafWalk d pre = map (\<lambda>p. pre @ pathPointer p) (leafPaths d)"
  "list_all json_wf xs \<Longrightarrow> leafElements i xs pre = map (\<lambda>p. pre @ pathPointer p) (elementPaths i xs)"
proof (induction d pre and i xs pre rule: leafWalk_leafElements.induct)
  case (1 kvs pre)
  have ih: "leafWalk v (pre @ ''/'' @ escapeToken k) = map (\<lambda>p. (pre @ ''/'' @ escapeToken k) @ pathPointer p) (leafPaths v)"
    if "(k, v) \<in> set kvs" "kvs \<noteq> []" for k v
    using that 1 by (fastforce simp: list_all_iff)
  show ?case
  proof (cases "kvs = []")
    case False
    have "map (\<lambda>x. leafWalk (snd x) (pre @ ''/'' @ escapeToken (fst x))) kvs
      = map (\<lambda>x. map (\<lambda>p. pre @ pathPointer p) (map ((#) (Member (fst x))) (leafPaths (snd x)))) kvs"
      using ih False by (intro map_cong) (auto simp: comp_def)
    from arg_cong [OF this, of concat] show ?thesis
      using False 1(2) by (simp add: sort_members comp_def case_prod_beta map_concat)
  qed simp
qed auto

lemma json_at_scalar:
  "json_at JNull path = (if path = [] then Some JNull else None)"
  "json_at (JBool b) path = (if path = [] then Some (JBool b) else None)"
  "json_at (JInt i) path = (if path = [] then Some (JInt i) else None)"
  "json_at (JFloat f) path = (if path = [] then Some (JFloat f) else None)"
  "json_at (JStr t) path = (if path = [] then Some (JStr t) else None)"
  by (cases path; simp)+

lemma leafPaths_at:
  "json_wf d \<Longrightarrow> path \<in> set (leafPaths d) \<longleftrightarrow> (\<exists>v. json_at d path = Some v \<and> is_leaf v)"
  "list_all json_wf xs \<Longrightarrow> path \<in> set (elementPaths i xs) \<longleftrightarrow>
     (\<exists>j ps v. path = Element j # ps \<and> i \<le> j \<and> j < i + length xs \<and> json_at (xs ! (j - i)) ps = Some v \<and> is_leaf v)"
proof (induction d and i xs arbitrary: path and path rule: leafPaths_elementPaths.induct)
  case (1 kvs)
  show ?case
  proof (cases "kvs = []")
    case True
    then show ?thesis by (cases path; cases "hd path") (auto simp: is_leaf_def)
  next
    case False
    have ih: "p \<in> set (leafPaths v) \<longleftrightarrow> (\<exists>w. json_at v p = Some w \<and> is_leaf w)" if "(k, v) \<in> set kvs" for k v p
      using 1(1) [OF False that refl] 1(2) that by (auto simp: list_all_iff)
    have get: "gm_get kvs k = Some v \<longleftrightarrow> (k, v) \<in> set kvs" for k v
      using json_wf_obj_distinct [OF 1(2)] by (simp add: gm_get_iff_set)
    show ?thesis
    proof (cases path)
      case Nil
      with False show ?thesis by (auto simp: is_leaf_def)
    next
      case (Cons s ps)
      show ?thesis
      proof (cases s)
        case (Member k)
        have "path \<in> set (leafPaths (JObj kvs)) \<longleftrightarrow> (\<exists>v. (k, v) \<in> set kvs \<and> ps \<in> set (leafPaths v))"
          using False by (auto simp: Cons Member)
        also have "\<dots> \<longleftrightarrow> (\<exists>v. gm_get kvs k = Some v \<and> (\<exists>w. json_at v ps = Some w \<and> is_leaf w))" using ih get by blast
        also have "\<dots> \<longleftrightarrow> (\<exists>w. json_at (JObj kvs) path = Some w \<and> is_leaf w)" by (auto simp: Cons Member split: option.splits)
        finally show ?thesis .
      qed (use False Cons in auto)
    qed
  qed
next
  case (2 xs)
  show ?case
  proof (cases "xs = []")
    case True
    then show ?thesis by (cases path; cases "hd path") (auto simp: is_leaf_def)
  next
    case False
    then show ?thesis using 2(1) [OF False, of path] 2(2)
      by (cases path; cases "hd path") (auto simp: is_leaf_def split: if_splits)
  qed
next
  case (5 i x xs)
  have hd: "p \<in> set (leafPaths x) \<longleftrightarrow> (\<exists>v. json_at x p = Some v \<and> is_leaf v)" for p using 5(1,3) by simp
  have tl: "path \<in> set (elementPaths (Suc i) xs) \<longleftrightarrow>
     (\<exists>j ps v. path = Element j # ps \<and> Suc i \<le> j \<and> j < Suc i + length xs \<and> json_at (xs ! (j - Suc i)) ps = Some v \<and> is_leaf v)"
    using 5(2,3) by simp
  show ?case
  proof (cases "\<exists>ps. path = Element i # ps")
    case True
    then obtain ps where p: "path = Element i # ps" by blast
    have "path \<notin> set (elementPaths (Suc i) xs)" unfolding tl by (auto simp: p)
    then show ?thesis using hd by (auto simp: p)
  next
    case False
    then have "path \<in> set (elementPaths i (x # xs)) \<longleftrightarrow> path \<in> set (elementPaths (Suc i) xs)" by auto
    also have "\<dots> \<longleftrightarrow> (\<exists>j ps v. path = Element j # ps \<and> i \<le> j \<and> j < i + length (x # xs) \<and> json_at ((x # xs) ! (j - i)) ps = Some v \<and> is_leaf v)"
      unfolding tl
    proof (intro iffI; elim exE conjE)
      fix j ps v assume "path = Element j # ps" "Suc i \<le> j" "j < Suc i + length xs" "json_at (xs ! (j - Suc i)) ps = Some v" "is_leaf v"
      then show "\<exists>j ps v. path = Element j # ps \<and> i \<le> j \<and> j < i + length (x # xs) \<and> json_at ((x # xs) ! (j - i)) ps = Some v \<and> is_leaf v"
        by (intro exI [of _ j] exI [of _ ps] exI [of _ v]) (simp add: nth_Cons')
    next
      fix j ps v assume j: "path = Element j # ps" "i \<le> j" "j < i + length (x # xs)" "json_at ((x # xs) ! (j - i)) ps = Some v" "is_leaf v"
      with False have "i \<noteq> j" by auto
      with j show "\<exists>j ps v. path = Element j # ps \<and> Suc i \<le> j \<and> j < Suc i + length xs \<and> json_at (xs ! (j - Suc i)) ps = Some v \<and> is_leaf v"
        by (intro exI [of _ j] exI [of _ ps] exI [of _ v]) (simp add: nth_Cons')
    qed
    finally show ?thesis .
  qed
qed (simp_all add: is_leaf_def json_at_scalar)

lemma distinct_concat_members:
  assumes "distinct (map fst kvs)" and "\<And>k v. (k, v) \<in> set kvs \<Longrightarrow> distinct (leafPaths v)"
  shows "distinct (concat (map (\<lambda>(k, v). map ((#) (Member k)) (leafPaths v)) kvs))"
  using assms
proof (induction kvs)
  case (Cons kv kvs)
  obtain k v where kv: "kv = (k, v)" by (cases kv)
  have "k \<notin> fst ` set kvs" using Cons.prems(1) by (auto simp: kv)
  moreover have "distinct (leafPaths v)" using Cons.prems(2) [of k v] by (simp add: kv)
  moreover have "distinct (concat (map (\<lambda>(k, v). map ((#) (Member k)) (leafPaths v)) kvs))"
    using Cons.prems by (intro Cons.IH) auto
  ultimately show ?case by (force simp: kv distinct_map)
qed simp

lemma distinct_leafPaths:
  "json_wf d \<Longrightarrow> distinct (leafPaths d)"
  "list_all json_wf xs \<Longrightarrow> distinct (elementPaths i xs)"
proof (induction d and i xs rule: leafPaths_elementPaths.induct)
  case (1 kvs)
  have "distinct (map fst kvs)" using json_wf_obj_distinct [OF 1(2)] by (simp add: gm_wf_def)
  moreover have "distinct (leafPaths v)" if "(k, v) \<in> set kvs" for k v
    using 1(1) [OF _ that refl] 1(2) that by (cases "kvs = []") (auto simp: list_all_iff)
  ultimately show ?case using distinct_concat_members by simp
next
  case (5 i x xs)
  have "Element i # p \<notin> set (elementPaths (Suc i) xs)" for p using 5(3) leafPaths_at(2) [of xs _ "Suc i"] by auto
  then show ?case using 5 by (auto simp: distinct_map)
qed auto

text \<open>Two paths into one document with the same pointer are the same path.\<close>

lemma stepTokens_inj:
  assumes "go_sized d" and "json_at d p = Some v" and "json_at d q = Some w" and "map stepToken p = map stepToken q"
  shows "p = q"
  using assms
proof (induction d p arbitrary: q rule: json_at.induct)
  case (2 kvs k ps)
  then obtain j qs where q: "q = Member j # qs" by (cases q; cases "hd q") auto
  then have "escapeToken k = escapeToken j" using 2(5) by simp
  then have "k = j" by (metis unescape_escape)
  then show ?case using 2 go_sized_member by (auto simp: q split: option.splits simp del: go_sized.simps)
next
  case (3 xs i ps)
  then obtain j qs where q: "q = Element j # qs" by (cases q; cases "hd q") auto
  then have "digits_nat i = digits_nat j" using 3(5) by simp
  then have "i = j" by (metis nat_of_digits_nat)
  then show ?case using 3 by (auto simp: q list_all_length split: if_splits)
qed auto

lemma leafPointers_paths: "json_wf d \<Longrightarrow> d \<noteq> JNull \<Longrightarrow> leafPointers d = map pathPointer (leafPaths d)"
  using leafWalk_paths(1) [of d "[]"] by (simp add: leafPointers_def)

text \<open>
  Every leaf of a recorded document has exactly one pointer and that pointer reads it back. The pointers a
  walk lists are distinct; they are the pointers of the access paths that end in a scalar or an empty container,
  each of them once; and resolving one finds the value at its path, whatever slashes, tildes or digits its
  member names hold.
\<close>

theorem leaf_pointers_resolve:
  assumes "json_wf d" and "go_sized d" and "d \<noteq> JNull"
  shows "distinct (leafPointers d)
    \<and> set (leafPointers d) = {pathPointer path | path. \<exists>v. json_at d path = Some v \<and> is_leaf v}
    \<and> (\<forall>path v. json_at d path = Some v \<longrightarrow> valueAtPointer d (pathPointer path) = Some v)"
proof -
  have at: "valueAtPointer d (pathPointer path) = Some v" if "json_at d path = Some v" for path v
    using valueAtPointer_path [OF assms(2) that] by (simp add: valueAtPointer_tokens)
  have leaf: "path \<in> set (leafPaths d) \<longleftrightarrow> (\<exists>v. json_at d path = Some v \<and> is_leaf v)" for path using assms(1) by (rule leafPaths_at)
  have "inj_on pathPointer (set (leafPaths d))"
  proof (rule inj_onI)
    fix p q assume "p \<in> set (leafPaths d)" "q \<in> set (leafPaths d)" and "pathPointer p = pathPointer q"
    then have "map stepToken p = map stepToken q" using pointerTokens_path by metis
    then show "p = q" using \<open>p \<in> _\<close> \<open>q \<in> _\<close> stepTokens_inj [OF assms(2)] leaf by blast
  qed
  then have "distinct (leafPointers d)" using assms distinct_leafPaths(1) by (simp add: leafPointers_paths distinct_map)
  moreover have "set (leafPointers d) = {pathPointer path | path. \<exists>v. json_at d path = Some v \<and> is_leaf v}"
    using assms leaf by (auto simp: leafPointers_paths)
  ultimately show ?thesis using at by blast
qed

definition sampleDocument :: json where
  "sampleDocument =
     JObj [(''metadata'', JObj [(''annotations'', JObj [(''a/b'', JStr ''1''), (''x~1y'', JNull)])]),
           (''spec'', JObj [(''args'', JArr [JStr ''-v'', JObj []])])]"

theorem leaf_pointers_resolve_witness:
  "leafPointers sampleDocument =
     [''/metadata/annotations/a~1b'', ''/metadata/annotations/x~01y'', ''/spec/args/0'', ''/spec/args/1'']
   \<and> valueAtPointer sampleDocument ''/metadata/annotations/x~01y'' = Some JNull"
proof -
  have d: "digits_nat 0 = ''0''" "digits_nat (Suc 0) = ''1''" by code_simp+
  have l: "leafPointers sampleDocument =
     [''/metadata/annotations/a~1b'', ''/metadata/annotations/x~01y'', ''/spec/args/0'', ''/spec/args/1'']"
    by (simp add: sampleDocument_def leafPointers_def escapeToken_def replace1_def d)
  have "json_wf sampleDocument" "go_sized sampleDocument" "sampleDocument \<noteq> JNull"
    by (simp_all add: sampleDocument_def)
  then have "json_at sampleDocument [Member ''metadata'', Member ''annotations'', Member ''x~1y''] = Some JNull \<longrightarrow>
    valueAtPointer sampleDocument (pathPointer [Member ''metadata'', Member ''annotations'', Member ''x~1y'']) = Some JNull"
    using leaf_pointers_resolve [of sampleDocument] by blast
  then show ?thesis using l by (simp add: sampleDocument_def gm_get_Cons pathPointer_def escapeToken_def replace1_def)
qed

section \<open>Display and filter grammar\<close>

lemma normalize_display:
  assumes "CHR ''['' \<notin> set seg" "CHR '']'' \<notin> set seg"
  shows "concat (map (\<lambda>c. if c = CHR ''['' then ''.'' else if c = CHR '']'' then [] else [c]) seg) = seg"
  using assms by (induction seg) auto

lemma normalize_segments:
  assumes "\<And>x. x \<in> set segs \<Longrightarrow> CHR ''['' \<notin> set x \<and> CHR '']'' \<notin> set x"
  shows "concat (map (\<lambda>c. if c = CHR ''['' then ''.'' else if c = CHR '']'' then [] else [c]) (concat (map displaySegment segs)))
    = concat (map ((#) (CHR ''.'')) segs)"
  using assms by (induction segs) (simp_all add: displaySegment_def normalize_display)

lemma join_dots: "join_with ''.'' (x # xs) = x @ concat (map ((#) (CHR ''.'')) xs)"
  by (induction xs arbitrary: x) auto

text \<open>
  A path copied from the output selects the field it was printed for: normalized as the filter flag does, the
  display form of a pointer is the dotted form the filter compares, so the filter keeps that field. (A member
  name holding a bracket is excluded, and so is the pointer of the whole document.)
\<close>

theorem displayed_path_selects_field:
  assumes "p \<noteq> []" "p \<noteq> ''/''" and "\<And>x. x \<in> set (pointerSegments p) \<Longrightarrow> CHR ''['' \<notin> set x \<and> CHR '']'' \<notin> set x"
  shows "NormalizeFieldPath (DisplayPath p) = dottedPath p \<and> MatchesFieldPath p (NormalizeFieldPath (DisplayPath p) # others)"
proof -
  have segs: "pointerSegments p = map unescapeToken (split_on (CHR ''/'') (if has_prefix p ''/'' then tl p else p))"
    using assms(1,2) by (simp add: pointerSegments_def Let_def)
  then obtain x xs where x: "pointerSegments p = x # xs" by (cases "split_on (CHR ''/'') (if has_prefix p ''/'' then tl p else p)") auto
  have d: "dottedPath p = x @ concat (map ((#) (CHR ''.'')) xs)"
    using arg_cong [OF segs [unfolded x], of "join_with ''.''"] by (simp add: dottedPath_def unescapeToken_def [abs_def] Let_def join_dots comp_def)
  define nf where "nf = (\<lambda>c. if c = CHR ''['' then ''.'' else if c = CHR '']'' then [] else [c])"
  have n: "concat (map nf (DisplayPath p)) = dottedPath p"
    unfolding d nf_def using assms(3) by (simp add: DisplayPath_def x normalize_display normalize_segments)
  have "NormalizeFieldPath (DisplayPath p) = concat (map nf (DisplayPath p))"
  proof (cases "CHR ''['' \<notin> set (DisplayPath p) \<and> CHR '']'' \<notin> set (DisplayPath p)")
    case True
    then show ?thesis by (simp add: NormalizeFieldPath_def nf_def normalize_display)
  qed (auto simp: NormalizeFieldPath_def nf_def)
  with n show ?thesis by (simp add: MatchesFieldPath_def Let_def)
qed

theorem displayed_path_selects_field_witness:
  "DisplayPath ''/spec/containers/0/image'' = ''spec.containers[0].image''
   \<and> MatchesFieldPath ''/spec/containers/0/image'' [NormalizeFieldPath ''spec.containers[0].image'']"
proof -
  have s: "pointerSegments ''/spec/containers/0/image'' = [''spec'', ''containers'', ''0'', ''image'']"
    by (simp add: pointerSegments_def has_prefix_def unescapeToken_def)
  then have d: "DisplayPath ''/spec/containers/0/image'' = ''spec.containers[0].image''"
    by (simp add: DisplayPath_def displaySegment_def isIndex_def is_digit_def)
  have "CHR ''['' \<notin> set x \<and> CHR '']'' \<notin> set x" if "x \<in> set (pointerSegments ''/spec/containers/0/image'')" for x
    using that by (auto simp: s)
  then have "MatchesFieldPath ''/spec/containers/0/image'' [NormalizeFieldPath (DisplayPath ''/spec/containers/0/image'')]"
    by (intro conjunct2 [OF displayed_path_selects_field]) simp_all
  with d show ?thesis by simp
qed

section \<open>The order of pointers\<close>

text \<open>
  The comparison is not an order: it compares two numeric tokens as numbers and any other two as text, and
  2, 10, 1a go round in a circle.
\<close>

theorem comparePointers_cyclic:
  "comparePointers ''/data/2'' ''/data/10'' < 0 \<and> comparePointers ''/data/10'' ''/data/1a'' < 0 \<and> comparePointers ''/data/1a'' ''/data/2'' < 0"
  by (simp add: comparePointers_def pointerTokens_def has_prefix_def atoi_def is_digit_def nat_of_digits_def digit_val_def
      strings_compare_def wrap64_def less_char_def)

text \<open>An ancestor comes before what is beneath it.\<close>

lemma compareTokens_prefix: "compareTokens ts (ts @ us) = - int (length us)" "compareTokens (ts @ us) ts = int (length us)"
  by (induction ts; cases us; simp)+

end
