(* ===== verification/Prior.thy ===== *)
theory Prior
  imports Pointers ArchiveState
begin

text \<open>
  What a change replaced (\<open>internal/cli/replay/prior.go\<close>, \<open>rows.go\<close>; the row types of \<open>internal/cli/render\<close>): the rows of a
  timeline with their patches decoded, and the values their operations destroyed, read out of one replay per
  incarnation.

  \<^item> The JSON-patch library is the parameter of \<open>Replay\<close>; the engine's \<open>StateAt\<close> is a parameter.
  \<^item> \<open>[]byte\<close> states are optional texts, \<^const>\<open>None\<close> for nil. The text of a notice is left out; what it reports is kept.
  \<^item> A group of rows shares the operations of the caller's rows, so it is a list of positions in them.
\<close>

section \<open>Rows\<close>

record Op =
  op_Type :: string
  op_Path :: string
  op_From :: string
  op_Value :: "json option"
  op_Old :: json
  op_OldKnown :: bool

definition OpReplace :: string where "OpReplace = ''replace''"
definition OpRemove :: string where "OpRemove = ''remove''"

text \<open>\<open>strings.TrimSpace\<close> leaves nothing: the text is made of the UTF-8 encodings of Unicode's white space.\<close>

definition unicode_spaces :: "string list" where
  "unicode_spaces =
     [[CHR 0x09], [CHR 0x0A], [CHR 0x0B], [CHR 0x0C], [CHR 0x0D], [CHR 0x20], [CHR 0xC2, CHR 0x85], [CHR 0xC2, CHR 0xA0],
      [CHR 0xE1, CHR 0x9A, CHR 0x80], [CHR 0xE2, CHR 0x80, CHR 0xA8], [CHR 0xE2, CHR 0x80, CHR 0xA9], [CHR 0xE2, CHR 0x80, CHR 0xAF],
      [CHR 0xE2, CHR 0x81, CHR 0x9F], [CHR 0xE3, CHR 0x80, CHR 0x80]]
     @ map (\<lambda>c. [CHR 0xE2, CHR 0x80, c])
         [CHR 0x80, CHR 0x81, CHR 0x82, CHR 0x83, CHR 0x84, CHR 0x85, CHR 0x86, CHR 0x87, CHR 0x88, CHR 0x89, CHR 0x8A]"

function is_blank :: "string \<Rightarrow> bool" where
  "is_blank s =
     (if s = [] then True
      else case find (\<lambda>sp. sp \<noteq> [] \<and> has_prefix s sp) unicode_spaces of None \<Rightarrow> False | Some sp \<Rightarrow> is_blank (drop (length sp) s))"
  by pat_completeness auto
termination
  by (relation "measure length") (auto simp: find_Some_iff)

declare is_blank.simps [simp del]

definition decodeOp :: "json \<Rightarrow> Op option" where
  "decodeOp v =
     do { m \<leftarrow> struct_members v; ty \<leftarrow> field_string m ''op''; path \<leftarrow> field_string m ''path''; from \<leftarrow> field_string m ''from'';
          Some \<lparr>op_Type = ty, op_Path = path, op_From = from, op_Value = gm_get m ''value'', op_Old = JNull, op_OldKnown = False\<rparr> }"

definition PatchOps :: "string \<Rightarrow> Op list option" where
  "PatchOps diff =
     (if is_blank diff then Some []
      else case json_unmarshal diff of Some (JArr xs) \<Rightarrow> all_some (map decodeOp xs) | Some JNull \<Rightarrow> Some [] | _ \<Rightarrow> None)"

record TimelineRow =
  tr_Change :: Change
  tr_Ops :: "Op list"
  tr_PatchErr :: bool

definition DecodeRows :: "Change list \<Rightarrow> TimelineRow list" where
  "DecodeRows changes =
     map (\<lambda>c. case PatchOps (ch_Diff c) of
                None \<Rightarrow> \<lparr>tr_Change = c, tr_Ops = [], tr_PatchErr = True\<rparr>
              | Some ops \<Rightarrow> \<lparr>tr_Change = c, tr_Ops = ops, tr_PatchErr = False\<rparr>) changes"

section \<open>Prior values\<close>

definition needsPriorValue :: "Op \<Rightarrow> bool" where
  "needsPriorValue p = (op_Type p = OpReplace \<or> op_Type p = OpRemove)"

fun firstFrom :: "nat \<Rightarrow> TimelineRow list \<Rightarrow> nat option" where
  "firstFrom i [] = None"
| "firstFrom i (row # rows) = (if list_ex needsPriorValue (tr_Ops row) then Some i else firstFrom (Suc i) rows)"

definition firstNeedingPriorValue :: "TimelineRow list \<Rightarrow> nat option" where
  "firstNeedingPriorValue rows = firstFrom 0 rows"

definition groupRow :: "TimelineRow list \<Rightarrow> nat \<Rightarrow> string list \<times> (string, nat list) gomap \<Rightarrow> string list \<times> (string, nat list) gomap" where
  "groupRow rows i og =
     (case og of (order, groups) \<Rightarrow>
        if ch_EventType (tr_Change (rows ! i)) = EventKubernetes then (order, groups)
        else let uid = ch_UID (tr_Change (rows ! i))
             in (if gm_get groups uid = None then order @ [uid] else order,
                 gm_set uid ((case gm_get groups uid of None \<Rightarrow> [] | Some is \<Rightarrow> is) @ [i]) groups))"

definition byIncarnation :: "TimelineRow list \<Rightarrow> nat list list" where
  "byIncarnation rows =
     (let (order, groups) = fold (groupRow rows) [0..<length rows] ([], [])
      in map (\<lambda>uid. case gm_get groups uid of None \<Rightarrow> [] | Some is \<Rightarrow> is) order)"

datatype 'e prior_error =
    StateFailed 'e
  | StateUnencodable
  | PatchNotDecoded
  | PatchNotApplied

fun seedFrom :: "TimelineRow list \<Rightarrow> nat \<Rightarrow> (string \<times> nat) option" where
  "seedFrom rows 0 = None"
| "seedFrom rows (Suc i) = (if ch_Data (tr_Change (rows ! i)) \<noteq> [] then Some (ch_Data (tr_Change (rows ! i)), Suc i) else seedFrom rows i)"

definition seedState ::
    "(ObjectRef \<Rightarrow> go_time \<Rightarrow> string \<Rightarrow> 'e + Reconstruction) \<Rightarrow> ObjectRef \<Rightarrow> TimelineRow list \<Rightarrow> nat \<Rightarrow> 'e prior_error + (string \<times> nat)" where
  "seedState stateAt ref rows n =
     (case seedFrom rows n of
        Some seed \<Rightarrow> Inr seed
      | None \<Rightarrow>
          (case stateAt ref (ch_TS (tr_Change (rows ! 0)) - 1) (ch_UID (tr_Change (rows ! 0))) of
             Inl e \<Rightarrow> Inl (StateFailed e)
           | Inr rc \<Rightarrow> (case json_marshal (JObj (rc_Object rc)) of None \<Rightarrow> Inl StateUnencodable | Some s \<Rightarrow> Inr (s, 0))))"

definition advanceState :: "'p patch_lib \<Rightarrow> string option \<Rightarrow> Change \<Rightarrow> 'e prior_error + string option" where
  "advanceState lib state c =
     (if ch_Data c \<noteq> [] then Inr (Some (ch_Data c))
      else case state of
             None \<Rightarrow> Inr None
           | Some s \<Rightarrow>
               (if ch_Diff c = [] then Inr (Some s)
                else case DecodePatch lib (ch_Diff c) of
                       None \<Rightarrow> Inl PatchNotDecoded
                     | Some p \<Rightarrow> (case PatchApply lib p s of None \<Rightarrow> Inl PatchNotApplied | Some t \<Rightarrow> Inr (Some t))))"

definition fillOld :: "json \<Rightarrow> Op \<Rightarrow> Op" where
  "fillOld document p =
     (if \<not> needsPriorValue p then p
      else case valueAtPointer document (op_Path p) of None \<Rightarrow> p | Some v \<Rightarrow> p\<lparr>op_Old := v, op_OldKnown := True\<rparr>)"

definition fillOldValues :: "string \<Rightarrow> Op list \<Rightarrow> Op list" where
  "fillOldValues state ops =
     (if \<not> list_ex needsPriorValue ops then ops
      else case json_unmarshal state of None \<Rightarrow> ops | Some document \<Rightarrow> map (fillOld document) ops)"

datatype 'e prior_notice = NotShown "'e prior_error" | StopAt go_time "'e prior_error"

fun replayIndices ::
    "'p patch_lib \<Rightarrow> nat list \<Rightarrow> string option \<Rightarrow> TimelineRow list \<Rightarrow> TimelineRow list \<times> 'e prior_notice option" where
  "replayIndices lib [] state rows = (rows, None)"
| "replayIndices lib (i # is) state rows =
     (let rows = (case state of None \<Rightarrow> rows | Some s \<Rightarrow> rows[i := (rows ! i)\<lparr>tr_Ops := fillOldValues s (tr_Ops (rows ! i))\<rparr>])
      in case advanceState lib state (tr_Change (rows ! i)) of
           Inl e \<Rightarrow> (rows, Some (StopAt (ch_TS (tr_Change (rows ! i))) e))
         | Inr state \<Rightarrow> replayIndices lib is state rows)"

definition replayGroup ::
    "(ObjectRef \<Rightarrow> go_time \<Rightarrow> string \<Rightarrow> 'e + Reconstruction) \<Rightarrow> 'p patch_lib \<Rightarrow> ObjectRef \<Rightarrow> nat list \<Rightarrow> TimelineRow list \<Rightarrow>
     TimelineRow list \<times> 'e prior_notice option" where
  "replayGroup stateAt lib ref is rows =
     (case firstNeedingPriorValue (map (\<lambda>i. rows ! i) is) of
        None \<Rightarrow> (rows, None)
      | Some n \<Rightarrow>
          (case seedState stateAt ref (map (\<lambda>i. rows ! i) is) n of
             Inl e \<Rightarrow> (rows, Some (NotShown e))
           | Inr (state, start) \<Rightarrow> replayIndices lib (drop start is) (Some state) rows))"

definition PriorValues ::
    "(ObjectRef \<Rightarrow> go_time \<Rightarrow> string \<Rightarrow> 'e + Reconstruction) \<Rightarrow> 'p patch_lib \<Rightarrow> ObjectRef \<Rightarrow> TimelineRow list \<Rightarrow>
     TimelineRow list \<times> 'e prior_notice list" where
  "PriorValues stateAt lib ref rows =
     fold (\<lambda>is (rows, notices). case replayGroup stateAt lib ref is rows of
                                  (rows, None) \<Rightarrow> (rows, notices)
                                | (rows, Some n) \<Rightarrow> (rows, notices @ [n])) (byIncarnation rows) (rows, [])"

section \<open>Prior values are those of the replay\<close>

definition changeRow :: "Change \<Rightarrow> ReplayRow" where
  "changeRow c = \<lparr>rr_TS = ch_TS c, rr_EventType = ch_EventType c, rr_Data = ch_Data c, rr_Diff = ch_Diff c, rr_SHA256 = ch_SHA256 c\<rparr>"

lemma advanceState_replays:
  assumes "advanceState lib (Some s) c = Inr st"
  shows "\<exists>s' k. st = Some s' \<and> (\<forall>rows n. replayLoop lib (changeRow c # rows) s n = replayLoop lib rows s' (n + k))"
proof -
  consider (full) "ch_Data c \<noteq> []" "st = Some (ch_Data c)" | (idle) "ch_Data c = []" "ch_Diff c = []" "st = Some s"
    | (patched) p t where "ch_Data c = []" "ch_Diff c \<noteq> []" "DecodePatch lib (ch_Diff c) = Some p" "PatchApply lib p s = Some t" "st = Some t"
    using assms by (auto simp: advanceState_def split: if_splits option.splits dest!: sym [of "Some _"])
  then show ?thesis
  proof cases
    case full
    then show ?thesis by (intro exI [of _ "ch_Data c"] exI [of _ 0]) (simp add: changeRow_def)
  next
    case idle
    then show ?thesis by (intro exI [of _ s] exI [of _ 0]) (simp add: changeRow_def)
  next
    case patched
    then show ?thesis by (intro exI [of _ t] exI [of _ 1]) (simp add: changeRow_def)
  qed
qed

definition filled :: "'p patch_lib \<Rightarrow> string \<Rightarrow> nat list \<Rightarrow> TimelineRow list \<Rightarrow> TimelineRow list \<Rightarrow> nat \<Rightarrow> bool" where
  "filled lib s is rows rows' j \<longleftrightarrow>
     (\<forall>n. \<exists>s' k. replayLoop lib (map (\<lambda>i. changeRow (tr_Change (rows ! i))) (take j is)) s n = Inr (s', k)
        \<and> rows' ! (is ! j) = (rows ! (is ! j))\<lparr>tr_Ops := fillOldValues s' (tr_Ops (rows ! (is ! j)))\<rparr>)"

lemma replayIndices_exact:
  fixes notice :: "'e prior_notice option"
  assumes "distinct is" "\<forall>i \<in> set is. i < length rows" and "replayIndices lib is (Some s) rows = (rows', notice)"
  shows "\<exists>m \<le> length is. (\<forall>i. i \<notin> set (take m is) \<longrightarrow> rows' ! i = rows ! i) \<and> (\<forall>j < m. filled lib s is rows rows' j)
    \<and> (case notice of None \<Rightarrow> m = length is
        | Some n \<Rightarrow> 0 < m \<and> (\<exists>e. n = StopAt (ch_TS (tr_Change (rows ! (is ! (m - 1))))) e))"
  using assms
proof (induction "is" arbitrary: s rows)
  case Nil
  then show ?case by simp
next
  case (Cons i "is")
  let ?r = "(rows ! i)\<lparr>tr_Ops := fillOldValues s (tr_Ops (rows ! i))\<rparr>" and ?rows = "rows[i := (rows ! i)\<lparr>tr_Ops := fillOldValues s (tr_Ops (rows ! i))\<rparr>]"
  have i: "i < length rows" "i \<notin> set is" using Cons.prems(1,2) by auto
  have same: "?rows ! j = rows ! j" if "j \<noteq> i" for j using that by simp
  have tc: "tr_Change (?rows ! j) = tr_Change (rows ! j)" for j using i(1) by (cases "j = i") simp_all
  have here: "filled lib s (i # is) rows rows' 0" if "rows' ! i = ?r" using that by (simp add: filled_def)
  show ?case
  proof (cases "advanceState lib (Some s) (tr_Change (rows ! i)) :: 'e prior_error + string option")
    case (Inl e)
    then have "rows' = ?rows" "notice = Some (StopAt (ch_TS (tr_Change (rows ! i))) e)" using Cons.prems(3) i(1) by (auto simp: Let_def)
    then show ?thesis using here i(1) by (intro exI [of _ 1]) (auto simp: less_Suc_eq)
  next
    case (Inr st)
    from advanceState_replays [OF Inr] obtain s1 k where s1: "st = Some s1"
      and k: "\<And>rows' n. replayLoop lib (changeRow (tr_Change (rows ! i)) # rows') s n = replayLoop lib rows' s1 (n + k)" by blast
    have run: "replayIndices lib is (Some s1) ?rows = (rows', notice)" using Cons.prems(3) i(1) Inr s1 by (simp add: Let_def)
    obtain m where m: "m \<le> length is" "\<forall>j. j \<notin> set (take m is) \<longrightarrow> rows' ! j = ?rows ! j" "\<forall>j < m. filled lib s1 is ?rows rows' j"
      "case notice of None \<Rightarrow> m = length is | Some n \<Rightarrow> 0 < m \<and> (\<exists>e. n = StopAt (ch_TS (tr_Change (?rows ! (is ! (m - 1))))) e)"
      using Cons.IH [OF _ _ run] Cons.prems(1,2) by auto
    have apart: "\<And>j. j < length is \<Longrightarrow> is ! j \<noteq> i" using i(2) by auto
    have "filled lib s (i # is) rows rows' (Suc j)" if "j < m" for j
      unfolding filled_def
    proof
      fix n
      have eq: "map (\<lambda>i. changeRow (tr_Change (?rows ! i))) (take j is) = map (\<lambda>i. changeRow (tr_Change (rows ! i))) (take j is)"
        using i(2) by (intro map_cong refl) (metis in_set_takeD same)
      have "filled lib s1 is ?rows rows' j" using m(3) that by blast
      from spec [OF this [unfolded filled_def], of "n + k"] obtain s' k' where
        f: "replayLoop lib (map (\<lambda>i. changeRow (tr_Change (?rows ! i))) (take j is)) s1 (n + k) = Inr (s', k')"
        "rows' ! (is ! j) = (?rows ! (is ! j))\<lparr>tr_Ops := fillOldValues s' (tr_Ops (?rows ! (is ! j)))\<rparr>" by blast
      have "is ! j \<noteq> i" using apart that m(1) by simp
      from f(1) [unfolded eq] f(2) [unfolded same [OF this]]
      show "\<exists>s' k. replayLoop lib (map (\<lambda>i. changeRow (tr_Change (rows ! i))) (take (Suc j) (i # is))) s n = Inr (s', k)
        \<and> rows' ! ((i # is) ! Suc j) = (rows ! ((i # is) ! Suc j))\<lparr>tr_Ops := fillOldValues s' (tr_Ops (rows ! ((i # is) ! Suc j)))\<rparr>"
        unfolding take_Suc_Cons list.map k nth_Cons_Suc by blast
    qed
    moreover have "rows' ! i = ?r" using m(2) i by (metis in_set_takeD nth_list_update_eq)
    ultimately have "\<forall>j < Suc m. filled lib s (i # is) rows rows' j" using here by (auto simp: less_Suc_eq_0_disj)
    moreover have "\<forall>j. j \<notin> set (take (Suc m) (i # is)) \<longrightarrow> rows' ! j = rows ! j" using m(2) same by simp
    moreover have "case notice of None \<Rightarrow> Suc m = length (i # is)
        | Some n \<Rightarrow> 0 < Suc m \<and> (\<exists>e. n = StopAt (ch_TS (tr_Change (rows ! ((i # is) ! (Suc m - 1))))) e)"
      using m(4) unfolding tc by (cases notice) (auto simp: nth_Cons')
    ultimately show ?thesis using m(1) by (intro exI [of _ "Suc m"]) simp
  qed
qed

text \<open>The groups: the rows of each incarnation that are not Events, in order, by position.\<close>

definition rowsOf :: "TimelineRow list \<Rightarrow> nat \<Rightarrow> string \<Rightarrow> nat list" where
  "rowsOf rows n uid =
     filter (\<lambda>i. ch_EventType (tr_Change (rows ! i)) \<noteq> EventKubernetes \<and> ch_UID (tr_Change (rows ! i)) = uid) [0..<n]"

lemma groupRow_groups:
  fixes rows n
  defines "og \<equiv> fold (groupRow rows) [0..<n] ([], [])"
  shows "\<forall>uid. gm_get (snd og) uid = (if rowsOf rows n uid = [] then None else Some (rowsOf rows n uid))"
    and "distinct (fst og) \<and> (\<forall>uid. uid \<in> set (fst og) \<longleftrightarrow> rowsOf rows n uid \<noteq> [])"
proof -
  have "(\<forall>uid. gm_get (snd og) uid = (if rowsOf rows n uid = [] then None else Some (rowsOf rows n uid)))
    \<and> distinct (fst og) \<and> (\<forall>uid. uid \<in> set (fst og) \<longleftrightarrow> rowsOf rows n uid \<noteq> [])"
    unfolding og_def
  proof (induction n)
    case 0
    then show ?case by (simp add: rowsOf_def)
  next
    case (Suc n)
    obtain order groups where og: "fold (groupRow rows) [0..<n] ([], []) = (order, groups)" by (cases "fold (groupRow rows) [0..<n] ([], [])")
    let ?u = "ch_UID (tr_Change (rows ! n))"
    have get: "\<And>uid. gm_get groups uid = (if rowsOf rows n uid = [] then None else Some (rowsOf rows n uid))"
      and ord: "distinct order" "\<And>uid. uid \<in> set order \<longleftrightarrow> rowsOf rows n uid \<noteq> []" using Suc by (simp_all add: og)
    have snoc: "rowsOf rows (Suc n) uid = rowsOf rows n uid
        @ (if ch_EventType (tr_Change (rows ! n)) \<noteq> EventKubernetes \<and> ?u = uid then [n] else [])" for uid by (simp add: rowsOf_def)
    have step: "fold (groupRow rows) [0..<Suc n] ([], []) = groupRow rows n (order, groups)" by (simp add: og)
    show ?case
    proof (cases "ch_EventType (tr_Change (rows ! n)) = EventKubernetes")
      case True
      then have "groupRow rows n (order, groups) = (order, groups)" by (simp add: groupRow_def)
      with True show ?thesis unfolding step using get ord by (simp add: snoc)
    next
      case False
      then have "groupRow rows n (order, groups) = (if rowsOf rows n ?u = [] then order @ [?u] else order, gm_set ?u (rowsOf rows n ?u @ [n]) groups)"
        by (simp add: groupRow_def Let_def get)
      with False show ?thesis unfolding step using get ord by (auto simp: snoc)
    qed
  qed
  then show "\<forall>uid. gm_get (snd og) uid = (if rowsOf rows n uid = [] then None else Some (rowsOf rows n uid))"
    "distinct (fst og) \<and> (\<forall>uid. uid \<in> set (fst og) \<longleftrightarrow> rowsOf rows n uid \<noteq> [])" by blast+
qed

lemma byIncarnation_groups: "set (byIncarnation rows) = {rowsOf rows (length rows) uid | uid. rowsOf rows (length rows) uid \<noteq> []}"
proof -
  obtain order groups where og: "fold (groupRow rows) [0..<length rows] ([], []) = (order, groups)"
    by (cases "fold (groupRow rows) [0..<length rows] ([], [])")
  have get: "gm_get groups uid = (if rowsOf rows (length rows) uid = [] then None else Some (rowsOf rows (length rows) uid))"
    and ord: "uid \<in> set order \<longleftrightarrow> rowsOf rows (length rows) uid \<noteq> []" for uid
    using groupRow_groups [of rows "length rows"] by (simp_all add: og)
  then show ?thesis by (auto simp: byIncarnation_def og image_iff)
qed

lemma firstFrom_spec:
  "firstFrom i rows = Some n \<Longrightarrow> i \<le> n \<and> n - i < length rows \<and> (\<forall>j < n - i. \<not> list_ex needsPriorValue (tr_Ops (rows ! j)))"
proof (induction rows arbitrary: i)
  case (Cons row rows)
  show ?case
  proof (cases "list_ex needsPriorValue (tr_Ops row)")
    case False
    then have "firstFrom (Suc i) rows = Some n" using Cons.prems by simp
    from Cons.IH [OF this] False show ?thesis by (auto simp: nth_Cons' Suc_le_eq)
  qed (use Cons.prems in simp)
qed simp

lemma seedFrom_le: "seedFrom rows n = Some (s, start) \<Longrightarrow> start \<le> n"
  by (induction rows n rule: seedFrom.induct) (auto split: if_splits)

lemma seedState_start: "seedState stateAt ref rows n = Inr (s, start) \<Longrightarrow> start \<le> n"
  by (auto simp: seedState_def split: option.splits sum.splits dest: seedFrom_le)


definition sampleChange :: "go_time \<Rightarrow> string \<Rightarrow> string \<Rightarrow> string \<Rightarrow> Change" where
  "sampleChange ts event data diff =
     \<lparr>ch_TS = ts, ch_EventType = event, ch_Actors = [''kubectl''], ch_UID = ''u1'', ch_ResourceVersion = ''1'', ch_APIVersion = ''v1'',
      ch_Data = data, ch_Diff = diff, ch_SHA256 = [], ch_Labels = []\<rparr>"

definition sampleOp :: "string \<Rightarrow> string \<Rightarrow> Op" where
  "sampleOp ty path = \<lparr>op_Type = ty, op_Path = path, op_From = [], op_Value = None, op_Old = JNull, op_OldKnown = False\<rparr>"

definition blamedRow :: "go_time \<Rightarrow> string \<Rightarrow> string \<Rightarrow> string \<Rightarrow> Op list \<Rightarrow> TimelineRow" where
  "blamedRow ts event data diff ops = \<lparr>tr_Change = sampleChange ts event data diff, tr_Ops = ops, tr_PatchErr = False\<rparr>"

definition sampleText :: "int \<Rightarrow> string" where
  "sampleText n = the (json_marshal (JObj [(''a'', JInt 1), (''b'', JInt n)]))"

lemma sampleText_decodes: "json_unmarshal (sampleText n) = Some (JObj [(''a'', JInt 1), (''b'', JInt n)])" "sampleText n \<noteq> []"
proof -
  have "json_marshal (JObj [(''a'', JInt 1), (''b'', JInt n)]) = Some (sampleText n)" by (simp add: sampleText_def)
  then show "json_unmarshal (sampleText n) = Some (JObj [(''a'', JInt 1), (''b'', JInt n)])"
    by (rule unmarshal_marshal [rotated 2]) simp_all
  show "sampleText n \<noteq> []" by (simp add: sampleText_def)
qed

definition samplePatches :: "string patch_lib" where
  "samplePatches = \<lparr>DecodePatch = (\<lambda>d. Some d), PatchApply = (\<lambda>p s. Some (sampleText 3))\<rparr>"

definition blamedRun :: "TimelineRow list" where
  "blamedRun = [blamedRow 1 ''Modified'' (sampleText 2) [] [], blamedRow 2 ''Modified'' [] ''[]'' [sampleOp ''replace'' ''/b'']]"

definition sampleObject :: ObjectRef where
  "sampleObject = \<lparr>or_ClusterID = ''c'', or_APIGroup = [], or_Kind = ''ConfigMap'', or_Namespace = ''ns'', or_Name = ''cm''\<rparr>"


end
