(* ===== verification/Blame.thy ===== *)
theory Blame
  imports Prior
begin

text \<open>
  Who last wrote each field (\<open>internal/cli/replay/attribute.go\<close>): the replay of a run of rows that credits each JSON Pointer
  to its last write, the fields of the final state, and the rows of the blame table.

  A decoded number is a float64: \<open>fl\<close> gives the text that stands for the float64 a literal is read as, and
  \<open>reflect.DeepEqual\<close> compares documents after it. The map of writes is ranged over in list order; no statement
  depends on it.
\<close>

section \<open>Attribution\<close>

fun asDecoded :: "(json \<Rightarrow> string) \<Rightarrow> json \<Rightarrow> json" where
  "asDecoded fl (JInt i) = JFloat (Some (fl (JInt i)))"
| "asDecoded fl (JFloat t) = JFloat (Some (fl (JFloat t)))"
| "asDecoded fl (JArr xs) = JArr (map (asDecoded fl) xs)"
| "asDecoded fl (JObj kvs) = JObj (map (\<lambda>(k, v). (k, asDecoded fl v)) kvs)"
| "asDecoded fl v = v"

definition deepEqual :: "(json \<Rightarrow> string) \<Rightarrow> json \<Rightarrow> json \<Rightarrow> bool" where
  "deepEqual fl v w = (asDecoded fl v = asDecoded fl w)"

record fieldWrite =
  fw_ts :: go_time
  fw_actors :: "string list"
  fw_uid :: string
  fw_resourceVersion :: string
  fw_eventType :: string
  fw_removed :: bool

datatype attr_notice = DeletedAt go_time | PatchUnreadAt go_time | FieldsAsOf go_time

record Attribution =
  at_writes :: "(string, fieldWrite) gomap"
  at_state :: "string option"
  at_stale :: bool
  at_Notices :: "attr_notice list"

definition decodedState :: "string option \<Rightarrow> json" where
  "decodedState state =
     (case state of None \<Rightarrow> JNull
      | Some s \<Rightarrow> if s = [] then JNull else (case json_unmarshal s of None \<Rightarrow> JNull | Some v \<Rightarrow> v))"

definition markChanged :: "(json \<Rightarrow> string) \<Rightarrow> json \<Rightarrow> json \<Rightarrow> fieldWrite \<Rightarrow> string \<Rightarrow> (string, fieldWrite) gomap \<Rightarrow> (string, fieldWrite) gomap" where
  "markChanged fl previous nxt w pointer ws =
     (case valueAtPointer previous pointer of
        None \<Rightarrow> gm_set pointer w ws
      | Some before \<Rightarrow> if \<not> deepEqual fl before (mustValueAt nxt pointer) then gm_set pointer w ws else ws)"

definition markGone :: "json \<Rightarrow> fieldWrite \<Rightarrow> string \<Rightarrow> (string, fieldWrite) gomap \<Rightarrow> (string, fieldWrite) gomap" where
  "markGone nxt w pointer ws =
     (case valueAtPointer nxt pointer of None \<Rightarrow> gm_set pointer (w\<lparr>fw_removed := True\<rparr>) ws | Some _ \<Rightarrow> ws)"

definition recordFullState :: "(json \<Rightarrow> string) \<Rightarrow> string \<Rightarrow> fieldWrite \<Rightarrow> Attribution \<Rightarrow> Attribution" where
  "recordFullState fl data w a =
     (case json_unmarshal data of
        None \<Rightarrow> a
      | Some nxt \<Rightarrow>
          (let previous = decodedState (at_state a)
           in a\<lparr>at_writes := fold (markGone nxt w) (leafPointers previous)
                  (fold (markChanged fl previous nxt w) (leafPointers nxt) (at_writes a))\<rparr>))"

definition attr_advance :: "'p patch_lib \<Rightarrow> TimelineRow \<Rightarrow> Attribution \<Rightarrow> Attribution" where
  "attr_advance lib row a =
     (let c = tr_Change row
      in if ch_Data c \<noteq> [] then a\<lparr>at_state := Some (ch_Data c), at_stale := False\<rparr>
         else case at_state a of
                None \<Rightarrow> a
              | Some s \<Rightarrow>
                  (if at_stale a \<or> ch_Diff c = [] then a
                   else case (case DecodePatch lib (ch_Diff c) of None \<Rightarrow> None | Some p \<Rightarrow> PatchApply lib p s) of
                          Some nxt \<Rightarrow> a\<lparr>at_state := Some nxt\<rparr>
                        | None \<Rightarrow> a\<lparr>at_stale := True, at_Notices := at_Notices a @ [FieldsAsOf (ch_TS c)]\<rparr>))"

definition rowWrite :: "Change \<Rightarrow> fieldWrite" where
  "rowWrite c =
     \<lparr>fw_ts = ch_TS c, fw_actors = ch_Actors c, fw_uid = ch_UID c, fw_resourceVersion = ch_ResourceVersion c,
      fw_eventType = ch_EventType c, fw_removed = False\<rparr>"

definition attr_record :: "(json \<Rightarrow> string) \<Rightarrow> 'p patch_lib \<Rightarrow> TimelineRow \<Rightarrow> Attribution \<Rightarrow> Attribution" where
  "attr_record fl lib row a =
     (let c = tr_Change row; w = rowWrite c;
          a = (if tr_PatchErr row then a\<lparr>at_Notices := at_Notices a @ [PatchUnreadAt (ch_TS c)]\<rparr>
               else if tr_Ops row \<noteq> [] then
                 a\<lparr>at_writes := fold (\<lambda>p ws. gm_set (op_Path p) (w\<lparr>fw_removed := (op_Type p = OpRemove)\<rparr>) ws) (tr_Ops row) (at_writes a)\<rparr>
               else if ch_Data c \<noteq> [] then recordFullState fl (ch_Data c) w a
               else a)
      in attr_advance lib row a)"

fun attributeRows :: "(json \<Rightarrow> string) \<Rightarrow> 'p patch_lib \<Rightarrow> TimelineRow list \<Rightarrow> Attribution \<Rightarrow> Attribution" where
  "attributeRows fl lib [] a = a"
| "attributeRows fl lib (row # rows) a =
     (if ch_EventType (tr_Change row) = EventKubernetes then attributeRows fl lib rows a
      else if ch_EventType (tr_Change row) = EventDeleted
      then a\<lparr>at_Notices := at_Notices a @ [DeletedAt (ch_TS (tr_Change row))]\<rparr>
      else attributeRows fl lib rows (attr_record fl lib row a))"

definition AttributeRun :: "(json \<Rightarrow> string) \<Rightarrow> 'p patch_lib \<Rightarrow> string option \<Rightarrow> TimelineRow list \<Rightarrow> Attribution" where
  "AttributeRun fl lib seed rows = attributeRows fl lib rows \<lparr>at_writes = [], at_state = seed, at_stale = False, at_Notices = []\<rparr>"

text \<open>A pointer, its ancestors and the empty pointer, upwards.\<close>

lemma parentPointer_shorter: "p \<noteq> [] \<Longrightarrow> length (parentPointer p) < length p"
  by (auto simp: parentPointer_def last_index_def split: option.splits)

function pointerAncestors :: "string \<Rightarrow> string list" where
  "pointerAncestors p = (if p = [] then [[]] else p # pointerAncestors (parentPointer p))"
  by pat_completeness auto
termination
  by (relation "measure length") (simp_all add: parentPointer_shorter)

declare pointerAncestors.simps [simp del]

definition better :: "fieldWrite \<Rightarrow> string \<Rightarrow> (fieldWrite \<times> string) option \<Rightarrow> bool" where
  "better candidate candidateAt best =
     (case best of
        None \<Rightarrow> True
      | Some (w, at) \<Rightarrow>
          if fw_ts candidate > fw_ts w then True
          else if fw_ts candidate = fw_ts w then comparePointers candidateAt at < 0 else False)"

definition considerWrite :: "string \<Rightarrow> fieldWrite \<Rightarrow> (fieldWrite \<times> string) option \<Rightarrow> (fieldWrite \<times> string) option" where
  "considerWrite at w best = (if better w at best then Some (w, at) else best)"

definition considerAncestor :: "(string, fieldWrite) gomap \<Rightarrow> string \<Rightarrow> (fieldWrite \<times> string) option \<Rightarrow> (fieldWrite \<times> string) option" where
  "considerAncestor ws p best = (case gm_get ws p of None \<Rightarrow> best | Some w \<Rightarrow> considerWrite p w best)"

definition considerDescendant :: "string \<Rightarrow> string \<times> fieldWrite \<Rightarrow> (fieldWrite \<times> string) option \<Rightarrow> (fieldWrite \<times> string) option" where
  "considerDescendant pointer dw best =
     (if has_prefix (fst dw) (pointer @ ''/'') then considerWrite (fst dw) (snd dw) best else best)"

definition bestWrite :: "Attribution \<Rightarrow> string \<Rightarrow> (fieldWrite \<times> string) option" where
  "bestWrite a pointer =
     fold (considerDescendant pointer) (at_writes a) (fold (considerAncestor (at_writes a)) (pointerAncestors pointer) None)"

definition lastWrite :: "Attribution \<Rightarrow> string \<Rightarrow> fieldWrite option" where
  "lastWrite a pointer = map_option fst (bestWrite a pointer)"

definition removedAt :: "Attribution \<Rightarrow> string \<Rightarrow> bool" where
  "removedAt a p = (case gm_get (at_writes a) p of None \<Rightarrow> False | Some w \<Rightarrow> fw_removed w)"

function removedUpward :: "Attribution \<Rightarrow> string \<Rightarrow> bool" where
  "removedUpward a p = (if p = [] then removedAt a [] else removedAt a p \<or> removedUpward a (parentPointer p))"
  by pat_completeness auto
termination
  by (relation "measure (\<lambda>(a, p). length p)") (simp_all add: parentPointer_shorter)

declare removedUpward.simps [simp del]

definition removedAncestor :: "Attribution \<Rightarrow> string \<Rightarrow> bool" where
  "removedAncestor a pointer = removedUpward a (parentPointer pointer)"

record fieldEntry =
  fe_pointer :: string
  fe_removed :: bool

definition stateKnown :: "string option \<Rightarrow> bool" where
  "stateKnown state = (case state of None \<Rightarrow> False | Some s \<Rightarrow> s \<noteq> [] \<and> json_unmarshal s \<noteq> None)"

definition attr_entries :: "Attribution \<Rightarrow> fieldEntry list" where
  "attr_entries a =
     (let document = decodedState (at_state a);
          written = sort (filter (\<lambda>p. \<not> removedAncestor a p \<and> valueAtPointer document p = None) (gm_keys (at_writes a)))
      in map (\<lambda>p. \<lparr>fe_pointer = p, fe_removed = False\<rparr>) (leafPointers document)
         @ map (\<lambda>p. \<lparr>fe_pointer = p,
                      fe_removed = (stateKnown (at_state a) \<or> (case gm_get (at_writes a) p of None \<Rightarrow> False | Some w \<Rightarrow> fw_removed w))\<rparr>) written)"

record BlameRow =
  br_Path :: string
  br_Pointer :: string
  br_Attributed :: bool
  br_TS :: go_time
  br_Actors :: "string list"
  br_UID :: string
  br_ResourceVersion :: string
  br_EventType :: string
  br_Removed :: bool
  br_Fields :: nat

definition applyWrite :: "Attribution \<Rightarrow> string \<Rightarrow> BlameRow \<Rightarrow> BlameRow" where
  "applyWrite a pointer row =
     (case lastWrite a pointer of
        None \<Rightarrow> row
      | Some w \<Rightarrow>
          if br_Attributed row \<and> \<not> fw_ts w > br_TS row then row
          else row\<lparr>br_Attributed := True, br_TS := fw_ts w, br_Actors := fw_actors w, br_UID := fw_uid w,
                   br_ResourceVersion := fw_resourceVersion w, br_EventType := fw_eventType w\<rparr>)"

definition blameStep :: "Attribution \<Rightarrow> int \<Rightarrow> fieldEntry \<Rightarrow> BlameRow list \<times> (string, nat) gomap \<Rightarrow> BlameRow list \<times> (string, nat) gomap" where
  "blameStep a depth e ri =
     (case ri of (rows, index) \<Rightarrow>
        let key = collapseTo (fe_pointer e) depth;
            (i, rows, index) =
              (case gm_get index key of
                 None \<Rightarrow> (length rows,
                   rows @ [\<lparr>br_Path = DisplayPath key, br_Pointer = key, br_Attributed = False, br_TS = 0, br_Actors = [], br_UID = [],
                            br_ResourceVersion = [], br_EventType = [], br_Removed = fe_removed e, br_Fields = 1\<rparr>],
                   gm_set key (length rows) index)
               | Some i \<Rightarrow> (i, rows[i := (rows ! i)\<lparr>br_Fields := br_Fields (rows ! i) + 1,
                                                   br_Removed := br_Removed (rows ! i) \<and> fe_removed e\<rparr>], index))
        in (rows[i := applyWrite a (fe_pointer e) (rows ! i)], index))"

definition compareBlameRows :: "BlameRow \<Rightarrow> BlameRow \<Rightarrow> int" where
  "compareBlameRows a b =
     (if br_Attributed a \<and> br_Attributed b \<and> br_TS a \<noteq> br_TS b then (if br_TS b < br_TS a then - 1 else 1)
      else if br_Attributed a \<noteq> br_Attributed b then (if br_Attributed a then - 1 else 1)
      else comparePointers (br_Pointer a) (br_Pointer b))"

text \<open>\<open>slices.SortFunc\<close> as the insertion sort it is on short slices; any sorting gives the same list when the comparison is an order.\<close>

fun insertRev :: "('a \<Rightarrow> 'a \<Rightarrow> int) \<Rightarrow> 'a \<Rightarrow> 'a list \<Rightarrow> 'a list" where
  "insertRev c x [] = [x]"
| "insertRev c x (y # ys) = (if c x y < 0 then y # insertRev c x ys else x # y # ys)"

definition sortFunc :: "('a \<Rightarrow> 'a \<Rightarrow> int) \<Rightarrow> 'a list \<Rightarrow> 'a list" where
  "sortFunc c xs = rev (fold (insertRev c) xs [])"

definition BlameRows :: "Attribution \<Rightarrow> string list \<Rightarrow> int \<Rightarrow> BlameRow list" where
  "BlameRows a paths depth =
     sortFunc compareBlameRows
       (fst (fold (blameStep a depth) (filter (\<lambda>e. MatchesFieldPath (fe_pointer e) paths) (attr_entries a)) ([], [])))"

section \<open>The last write\<close>

text \<open>A write concerns a pointer when it is at it, at one of its ancestors (the document included) or beneath it.\<close>

definition ancestor :: "string \<Rightarrow> string \<Rightarrow> bool" where
  "ancestor q p \<longleftrightarrow> q = p \<or> q = [] \<or> has_prefix p (q @ ''/'')"

definition concerns :: "string \<Rightarrow> string \<Rightarrow> bool" where
  "concerns q p \<longleftrightarrow> ancestor q p \<or> has_prefix q (p @ ''/'')"

lemma last_index_split:
  assumes "last_index c s = Some n"
  shows "s = take n s @ c # drop (Suc n) s" and "c \<notin> set (drop (Suc n) s)"
proof -
  have "c \<in> set s" using assms by (auto simp: last_index_def split: if_splits)
  then obtain ys zs where s: "s = ys @ c # zs" "c \<notin> set zs" by (meson split_list_last)
  have "takeWhile (\<lambda>x. x \<noteq> c) (rev s) = rev zs" using s(2) by (auto simp: s(1) takeWhile_tail)
  then have "n = length ys" using assms by (simp add: last_index_def s)
  then show "s = take n s @ c # drop (Suc n) s" "c \<notin> set (drop (Suc n) s)" using s by simp_all
qed

lemma prefix_before_last:
  assumes "c \<notin> set zs"
  shows "has_prefix (ys @ c # zs) (q @ [c]) \<longleftrightarrow> q = ys \<or> has_prefix ys (q @ [c])"
proof -
  have "(\<exists>r. ys @ c # zs = q @ c # r) \<longleftrightarrow> q = ys \<or> (\<exists>r. ys = q @ c # r)"
  proof
    assume "\<exists>r. ys @ c # zs = q @ c # r"
    then obtain r where r: "ys @ c # zs = q @ c # r" by blast
    then consider us where "q = ys @ us" "us @ c # r = c # zs" | us where "ys = q @ us" "c # r = us @ c # zs"
      by (auto simp: append_eq_append_conv2)
    then show "q = ys \<or> (\<exists>r. ys = q @ c # r)" by cases (use assms in \<open>auto simp: append_eq_Cons_conv Cons_eq_append_conv\<close>)
  qed auto
  then show ?thesis by (simp add: has_prefix_iff)
qed

lemma parentPointer_cases:
  obtains (flat) "parentPointer p = []" "\<And>q. q \<noteq> [] \<Longrightarrow> \<not> has_prefix p (q @ ''/'')"
  | (deep) zs where "p = parentPointer p @ CHR ''/'' # zs" "parentPointer p \<noteq> []" "CHR ''/'' \<notin> set zs"
proof (cases "last_index (CHR ''/'') p")
  case None
  then have "CHR ''/'' \<notin> set p" by (auto simp: last_index_def split: if_splits)
  then have "\<not> has_prefix p (q @ ''/'')" for q by (auto simp: has_prefix_iff)
  with None show ?thesis by (intro flat) (auto simp: parentPointer_def)
next
  case (Some n)
  note s = last_index_split [OF Some]
  show ?thesis
  proof (cases "n = 0")
    case True
    then have "\<not> has_prefix p (q @ ''/'')" if "q \<noteq> []" for q
      using s prefix_before_last [OF s(2), of "take n p" q] that by (auto simp: has_prefix_iff)
    with Some True show ?thesis by (intro flat) (auto simp: parentPointer_def)
  next
    case False
    then have "parentPointer p = take n p" "take n p \<noteq> []" using Some s(1) by (auto simp: parentPointer_def)
    with s show ?thesis by (intro deep [of "drop (Suc n) p"]) simp_all
  qed
qed

lemma parentPointer_ancestor: "ancestor (parentPointer p) p"
proof (rule parentPointer_cases [of p])
  fix zs assume "p = parentPointer p @ CHR ''/'' # zs"
  then have "\<exists>r. p = (parentPointer p @ ''/'') @ r" by (intro exI [of _ zs]) simp
  then show ?thesis unfolding ancestor_def has_prefix_iff by blast
qed (simp add: ancestor_def)

lemma pointerAncestors_set: "q \<in> set (pointerAncestors p) \<longleftrightarrow> ancestor q p"
proof (induction p rule: pointerAncestors.induct)
  case (1 p)
  show ?case
  proof (cases "p = []")
    case True
    then show ?thesis by (simp add: pointerAncestors.simps ancestor_def has_prefix_iff)
  next
    case False
    then have "q \<in> set (pointerAncestors p) \<longleftrightarrow> q = p \<or> ancestor q (parentPointer p)" using 1 by (simp add: pointerAncestors.simps)
    also have "\<dots> \<longleftrightarrow> ancestor q p"
    proof (rule parentPointer_cases [of p])
      assume "parentPointer p = []" "\<And>q. q \<noteq> [] \<Longrightarrow> \<not> has_prefix p (q @ ''/'')"
      then show ?thesis by (auto simp: ancestor_def has_prefix_iff)
    next
      fix zs assume d: "p = parentPointer p @ CHR ''/'' # zs" "CHR ''/'' \<notin> set zs"
      show ?thesis using prefix_before_last [OF d(2), of "parentPointer p" q] d(1) by (auto simp: ancestor_def)
    qed
    finally show ?thesis .
  qed
qed

lemma split_on_append_all: "split_on c (a @ c # b) = split_on c a @ split_on c b"
  by (induction a) (auto split: list.splits)

lemma ancestor_tokens:
  assumes "ancestor q p" and "q \<noteq> p"
  shows "\<exists>us. us \<noteq> [] \<and> pointerTokens p = pointerTokens q @ us"
proof (cases "q = []")
  case True
  with assms show ?thesis by (simp add: pointerTokens_def)
next
  case False
  then obtain r where "p = q @ CHR ''/'' # r" using assms by (auto simp: ancestor_def has_prefix_iff)
  with False have "pointerTokens p = pointerTokens q @ split_on (CHR ''/'') r"
    using split_on_append_all [of "CHR ''/''" q r] split_on_append_all [of "CHR ''/''" "tl q" r]
    by (cases q) (auto simp: pointerTokens_def has_prefix_iff simp del: split_on.simps)
  then show ?thesis by auto
qed

lemma comparePointers_ancestor:
  assumes "ancestor q p" and "q \<noteq> p"
  shows "comparePointers q p < 0" "comparePointers p q > 0"
  using ancestor_tokens [OF assms] compareTokens_prefix by (auto simp: comparePointers_def)

lemma ancestor_trans: "ancestor q p \<Longrightarrow> ancestor p r \<Longrightarrow> ancestor q r"
proof (cases "q = [] \<or> q = p \<or> p = r")
  case True
  moreover assume "ancestor q p" "ancestor p r"
  ultimately show ?thesis by (auto simp: ancestor_def)
next
  case False
  assume "ancestor q p" "ancestor p r"
  with False show ?thesis by (cases "p = []") (auto simp: ancestor_def has_prefix_iff)
qed

text \<open>What the search holds after the candidates \<open>S\<close>: the newest, and the shallowest of the newest ancestors.\<close>

definition best_of :: "string \<Rightarrow> (string \<times> fieldWrite) set \<Rightarrow> (fieldWrite \<times> string) option \<Rightarrow> bool" where
  "best_of p S best \<longleftrightarrow>
     (case best of
        None \<Rightarrow> S = {}
      | Some (w, at) \<Rightarrow> (at, w) \<in> S \<and> (\<forall>(q, v) \<in> S. fw_ts v \<le> fw_ts w)
          \<and> (\<forall>(q, v) \<in> S. ancestor q p \<and> fw_ts v = fw_ts w \<longrightarrow> ancestor at q))"

lemma best_of_consider:
  assumes "best_of p S best"
    and "\<And>w at. best = Some (w, at) \<Longrightarrow> fw_ts v = fw_ts w \<Longrightarrow>
      (if comparePointers q at < 0 then \<forall>(q', v') \<in> S. ancestor q' p \<and> fw_ts v' = fw_ts w \<longrightarrow> ancestor q q'
       else ancestor q p \<longrightarrow> ancestor at q)"
  shows "best_of p (insert (q, v) S) (considerWrite q v best)"
proof (cases best)
  case None
  with assms(1) show ?thesis by (simp add: best_of_def considerWrite_def better_def ancestor_def)
next
  case (Some wa)
  obtain w at where wa: "wa = (w, at)" by (cases wa)
  have b: "(at, w) \<in> S" "\<forall>(q, v) \<in> S. fw_ts v \<le> fw_ts w" "\<forall>(q, v) \<in> S. ancestor q p \<and> fw_ts v = fw_ts w \<longrightarrow> ancestor at q"
    using assms(1) by (simp_all add: Some wa best_of_def)
  consider "fw_ts v > fw_ts w" | "fw_ts v = fw_ts w" | "fw_ts v < fw_ts w" by linarith
  then show ?thesis
  proof cases
    case 1
    with b(2) show ?thesis by (fastforce simp: Some wa best_of_def considerWrite_def better_def ancestor_def)
  next
    case 2
    with assms(2) [of w at] b show ?thesis
      by (cases "comparePointers q at < 0") (auto simp: Some wa best_of_def considerWrite_def better_def ancestor_def)
  next
    case 3
    with b show ?thesis by (auto simp: Some wa best_of_def considerWrite_def better_def)
  qed
qed

definition writesIn :: "(string, fieldWrite) gomap \<Rightarrow> string set \<Rightarrow> (string \<times> fieldWrite) set" where
  "writesIn ws Q = {(q, w). q \<in> Q \<and> gm_get ws q = Some w}"

text \<open>The ancestors are met from the pointer upwards, so each is an ancestor of those before it.\<close>

lemma best_of_ancestors:
  assumes "best_of p (writesIn ws Q) best" and "\<forall>q \<in> Q. ancestor r q \<and> q \<noteq> r" and "ancestor r p"
  shows "best_of p (writesIn ws (Q \<union> set (pointerAncestors r))) (fold (considerAncestor ws) (pointerAncestors r) best)"
  using assms
proof (induction r arbitrary: Q best rule: pointerAncestors.induct)
  case (1 r)
  let ?best = "considerAncestor ws r best"
  have step: "best_of p (writesIn ws (insert r Q)) ?best"
  proof (cases "gm_get ws r")
    case None
    then have "writesIn ws (insert r Q) = writesIn ws Q" by (auto simp: writesIn_def)
    with None 1(2) show ?thesis by (simp add: considerAncestor_def)
  next
    case (Some v)
    have "comparePointers r at < 0" if "best = Some (w, at)" for w at
    proof -
      have "at \<in> Q" using 1(2) that by (auto simp: best_of_def writesIn_def)
      with 1(3) show ?thesis by (metis comparePointers_ancestor(1))
    qed
    moreover have "\<forall>(q', v') \<in> writesIn ws Q. ancestor r q'" using 1(3) by (auto simp: writesIn_def)
    ultimately have "best_of p (insert (r, v) (writesIn ws Q)) (considerWrite r v best)"
      by (intro best_of_consider [OF 1(2)]) auto
    moreover have "insert (r, v) (writesIn ws Q) = writesIn ws (insert r Q)" using Some by (auto simp: writesIn_def)
    ultimately show ?thesis using Some by (simp add: considerAncestor_def)
  qed
  show ?case
  proof (cases "r = []")
    case True
    with step show ?thesis by (simp add: pointerAncestors.simps)
  next
    case False
    have up: "ancestor (parentPointer r) r" "parentPointer r \<noteq> r"
      using parentPointer_ancestor parentPointer_shorter [OF False] by auto
    have "\<forall>q \<in> insert r Q. ancestor (parentPointer r) q \<and> q \<noteq> parentPointer r"
    proof
      fix q assume "q \<in> insert r Q"
      then have q: "ancestor r q" using 1(3) by (auto simp: ancestor_def)
      then have "length r \<le> length q" by (auto simp: ancestor_def has_prefix_iff)
      then show "ancestor (parentPointer r) q \<and> q \<noteq> parentPointer r"
        using ancestor_trans [OF up(1) q] parentPointer_shorter [OF False] by auto
    qed
    from 1(1) [OF False step this] ancestor_trans [OF up(1) 1(4)] show ?thesis
      using False by (simp add: pointerAncestors.simps [of r])
  qed
qed

lemma best_of_descendants:
  assumes "best_of p S best" and "\<forall>(q, v) \<in> S. concerns q p"
  shows "best_of p (S \<union> {(q, v). (q, v) \<in> set ws \<and> has_prefix q (p @ ''/'')}) (fold (considerDescendant p) ws best)"
  using assms
proof (induction ws arbitrary: S best)
  case (Cons qv ws)
  obtain q v where qv: "qv = (q, v)" by (cases qv)
  show ?case
  proof (cases "has_prefix q (p @ ''/'')")
    case True
    then have below: "ancestor p q" "q \<noteq> p" "\<not> ancestor q p" by (auto simp: ancestor_def has_prefix_iff)
    have "best_of p (insert (q, v) S) (considerWrite q v best)"
    proof (rule best_of_consider [OF Cons.prems(1)])
      fix w at assume b: "best = Some (w, at)" "fw_ts v = fw_ts w"
      have "\<not> (ancestor q' p \<and> fw_ts v' = fw_ts w)" if "(q', v') \<in> S" "comparePointers q at < 0" for q' v'
      proof
        assume "ancestor q' p \<and> fw_ts v' = fw_ts w"
        with Cons.prems(1) that(1) b(1) have "ancestor at q'" "ancestor q' p" by (auto simp: best_of_def)
        then have "ancestor at p" by (rule ancestor_trans)
        then have "ancestor at q" "at \<noteq> q" using below ancestor_trans by auto
        with that(2) show False using comparePointers_ancestor(2) by fastforce
      qed
      with below(3) show "if comparePointers q at < 0 then \<forall>(q', v') \<in> S. ancestor q' p \<and> fw_ts v' = fw_ts w \<longrightarrow> ancestor q q'
        else ancestor q p \<longrightarrow> ancestor at q" by auto
    qed
    moreover have "\<forall>(q, v) \<in> insert (q, v) S. concerns q p" using Cons.prems(2) True by (auto simp: concerns_def)
    ultimately have "best_of p (insert (q, v) S \<union> {(q, v). (q, v) \<in> set ws \<and> has_prefix q (p @ ''/'')}) (fold (considerDescendant p) ws (considerWrite q v best))"
      by (rule Cons.IH)
    moreover have "S \<union> {(q, v). (q, v) \<in> set (qv # ws) \<and> has_prefix q (p @ ''/'')} = insert (q, v) S \<union> {(q, v). (q, v) \<in> set ws \<and> has_prefix q (p @ ''/'')}"
      using True by (auto simp: qv)
    moreover have "fold (considerDescendant p) (qv # ws) best = fold (considerDescendant p) ws (considerWrite q v best)"
      using True by (simp add: qv considerDescendant_def [of p "(q, v)"])
    ultimately show ?thesis by simp
  next
    case False
    then have "{(q, v). (q, v) \<in> set (qv # ws) \<and> has_prefix q (p @ ''/'')} = {(q, v). (q, v) \<in> set ws \<and> has_prefix q (p @ ''/'')}"
      by (auto simp: qv)
    moreover have "fold (considerDescendant p) (qv # ws) best = fold (considerDescendant p) ws best"
      using False by (simp add: qv considerDescendant_def [of p "(q, v)"])
    ultimately show ?thesis using Cons by simp
  qed
qed simp

lemma bestWrite_best:
  assumes "gm_wf (at_writes a)"
  shows "best_of p (writesIn (at_writes a) {q. concerns q p}) (bestWrite a p)"
proof -
  have "best_of p (writesIn (at_writes a) {}) None" by (simp add: best_of_def writesIn_def)
  then have "best_of p (writesIn (at_writes a) (set (pointerAncestors p))) (fold (considerAncestor (at_writes a)) (pointerAncestors p) None)"
    using best_of_ancestors [of p "at_writes a" "{}" None p] by (simp add: ancestor_def)
  from best_of_descendants [OF this, of "at_writes a"]
  have "best_of p (writesIn (at_writes a) (set (pointerAncestors p)) \<union> {(q, v). (q, v) \<in> set (at_writes a) \<and> has_prefix q (p @ ''/'')}) (bestWrite a p)"
    by (auto simp: bestWrite_def writesIn_def pointerAncestors_set concerns_def)
  moreover have "writesIn (at_writes a) (set (pointerAncestors p)) \<union> {(q, v). (q, v) \<in> set (at_writes a) \<and> has_prefix q (p @ ''/'')}
      = writesIn (at_writes a) {q. concerns q p}"
    using gm_get_iff_set [OF assms] by (auto simp: writesIn_def pointerAncestors_set concerns_def)
  ultimately show ?thesis by simp
qed

lemma gm_wf_fold: "(\<And>x m. gm_wf m \<Longrightarrow> gm_wf (f x m)) \<Longrightarrow> gm_wf m \<Longrightarrow> gm_wf (fold f xs m)"
  by (induction xs arbitrary: m) auto

lemma attr_advance_writes [simp]: "at_writes (attr_advance lib row a) = at_writes a"
  by (simp add: attr_advance_def Let_def split: option.splits)

lemma attr_record_wf: "gm_wf (at_writes a) \<Longrightarrow> gm_wf (at_writes (attr_record fl lib row a))"
  by (auto simp: attr_record_def recordFullState_def markChanged_def markGone_def Let_def intro!: gm_wf_fold split: option.splits)

lemma attributeRows_wf: "gm_wf (at_writes a) \<Longrightarrow> gm_wf (at_writes (attributeRows fl lib rows a))"
  by (induction fl lib rows a rule: attributeRows.induct) (auto simp: attr_record_wf)

lemma AttributeRun_wf: "gm_wf (at_writes (AttributeRun fl lib seed rows))"
  by (simp add: AttributeRun_def attributeRows_wf)

lemma lastWrite_None:
  assumes "gm_wf (at_writes a)"
  shows "lastWrite a p = None \<longleftrightarrow> (\<forall>q. gm_get (at_writes a) q \<noteq> None \<longrightarrow> \<not> concerns q p)"
proof -
  have "lastWrite a p = None \<longleftrightarrow> writesIn (at_writes a) {q. concerns q p} = {}"
    using bestWrite_best [OF assms, of p] by (cases "bestWrite a p") (auto simp: best_of_def lastWrite_def)
  then show ?thesis by (auto simp: writesIn_def)
qed

text \<open>
  C36: Whom a field is credited to. After any run, a field is credited to nobody exactly when no write of the run is
  at it, at one of its ancestors or beneath it. Otherwise it is credited to such a write with the newest
  instant; and of the writes at the field or above it that share that instant, to the shallowest, in whatever
  order the map of writes is ranged over.
\<close>

theorem last_write_is_newest:
  fixes fl lib seed rows p
  defines "a \<equiv> AttributeRun fl lib seed rows"
  shows "(case lastWrite a p of
      None \<Rightarrow> \<forall>q. gm_get (at_writes a) q \<noteq> None \<longrightarrow> \<not> concerns q p
    | Some w \<Rightarrow> \<exists>at. gm_get (at_writes a) at = Some w \<and> concerns at p
        \<and> (\<forall>q v. gm_get (at_writes a) q = Some v \<and> concerns q p \<longrightarrow>
             fw_ts v \<le> fw_ts w \<and> (ancestor q p \<and> fw_ts v = fw_ts w \<longrightarrow> ancestor at q)))"
proof -
  have wf: "gm_wf (at_writes a)" by (simp add: a_def AttributeRun_wf)
  show ?thesis
  proof (cases "bestWrite a p")
    case None
    then have n: "lastWrite a p = None" by (simp add: lastWrite_def)
    then have "\<forall>q. gm_get (at_writes a) q \<noteq> None \<longrightarrow> \<not> concerns q p" using lastWrite_None [OF wf] by blast
    then show ?thesis by (simp add: n)
  next
    case (Some wa)
    obtain w at where wa: "wa = (w, at)" by (cases wa)
    have "best_of p (writesIn (at_writes a) {q. concerns q p}) (Some (w, at))" using bestWrite_best [OF wf, of p] by (simp add: Some wa)
    then show ?thesis by (auto simp: Some wa lastWrite_def best_of_def writesIn_def concerns_def intro!: exI [of _ at])
  qed
qed

text \<open>Replacing a subtree is the last write of everything in it, and removing a member is one of its emptied parent.\<close>

theorem last_write_is_newest_witness:
  "\<exists>w. lastWrite (AttributeRun (\<lambda>_. []) \<lparr>DecodePatch = (\<lambda>d. Some d), PatchApply = (\<lambda>p s. Some p)\<rparr> None
        [blamedRow 1 ''Modified'' [] [] [sampleOp ''replace'' ''/spec/resources/limits''],
         blamedRow 2 ''Modified'' [] [] [sampleOp ''replace'' ''/spec'', sampleOp ''remove'' ''/spec/resources/limits/cpu'']])
      ''/spec/resources/limits'' = Some w \<and> fw_ts w = 2 \<and> \<not> fw_removed w"
proof -
  define a where "a = AttributeRun (\<lambda>_. []) \<lparr>DecodePatch = (\<lambda>d. Some d), PatchApply = (\<lambda>p s. Some p)\<rparr> None
        [blamedRow 1 ''Modified'' [] [] [sampleOp ''replace'' ''/spec/resources/limits''],
         blamedRow 2 ''Modified'' [] [] [sampleOp ''replace'' ''/spec'', sampleOp ''remove'' ''/spec/resources/limits/cpu'']]"
  have ws: "gm_get (at_writes a) q = (if q = ''/spec/resources/limits/cpu'' then Some (rowWrite (sampleChange 2 ''Modified'' [] []) \<lparr>fw_removed := True\<rparr>)
      else if q = ''/spec'' then Some (rowWrite (sampleChange 2 ''Modified'' [] []))
      else if q = ''/spec/resources/limits'' then Some (rowWrite (sampleChange 1 ''Modified'' [] [])) else None)" for q
    by (simp add: a_def AttributeRun_def blamedRow_def sampleOp_def attr_record_def attr_advance_def Let_def OpRemove_def
        sampleChange_def EventKubernetes_def EventDeleted_def rowWrite_def)
  have spec: "ancestor ''/spec'' ''/spec/resources/limits''" "concerns ''/spec'' ''/spec/resources/limits''"
    by (simp_all add: concerns_def ancestor_def has_prefix_def)
  have main: "case lastWrite a ''/spec/resources/limits'' of
      None \<Rightarrow> \<forall>q. gm_get (at_writes a) q \<noteq> None \<longrightarrow> \<not> concerns q ''/spec/resources/limits''
    | Some w \<Rightarrow> \<exists>at. gm_get (at_writes a) at = Some w \<and> concerns at ''/spec/resources/limits''
        \<and> (\<forall>q v. gm_get (at_writes a) q = Some v \<and> concerns q ''/spec/resources/limits'' \<longrightarrow>
             fw_ts v \<le> fw_ts w \<and> (ancestor q ''/spec/resources/limits'' \<and> fw_ts v = fw_ts w \<longrightarrow> ancestor at q))"
    unfolding a_def by (rule last_write_is_newest)
  show ?thesis
  proof (cases "lastWrite a ''/spec/resources/limits''")
    case None
    then show ?thesis using main spec(2) ws [of "''/spec''"] by auto
  next
    case (Some w)
    then obtain at where at: "gm_get (at_writes a) at = Some w"
      "fw_ts (rowWrite (sampleChange 2 ''Modified'' [] [])) \<le> fw_ts w"
      "fw_ts (rowWrite (sampleChange 2 ''Modified'' [] [])) = fw_ts w \<longrightarrow> ancestor at ''/spec''"
      using main spec ws [of "''/spec''"] by auto
    then have "at \<noteq> ''/spec/resources/limits/cpu''" using ws [of at] by (auto simp: ancestor_def has_prefix_def rowWrite_def sampleChange_def)
    then show ?thesis using at(1,2) ws [of at] Some
      by (auto simp: a_def [symmetric] rowWrite_def sampleChange_def split: if_splits)
  qed
qed

section \<open>Fields credited to nobody\<close>

text \<open>A name that is read as an array index only when it is written as one; a path of such names.\<close>

definition plain_name :: "string \<Rightarrow> bool" where
  "plain_name k = (case atoi k of None \<Rightarrow> True | Some i \<Rightarrow> i < 0 \<or> k = digits_nat (nat i))"

definition plain_path :: "jstep list \<Rightarrow> bool" where
  "plain_path path = list_all (\<lambda>s. case s of Member k \<Rightarrow> plain_name k | Element i \<Rightarrow> True) path"

lemma escape_digits [simp]: "escapeToken (digits_nat n) = digits_nat n"
proof -
  have "concat (map (\<lambda>c. if c = CHR ''~'' then ''~0'' else if c = CHR ''/'' then ''~1'' else [c]) s) = s"
    if "\<forall>c \<in> set s. c \<noteq> CHR ''~'' \<and> c \<noteq> CHR ''/''" for s
    using that by (induction s) auto
  then show ?thesis using digits_plain [of _ n] by (auto simp: escapeToken_segment escapeSegment_def)
qed

lemma atoi_digits_Some: "atoi (digits_nat n) = Some i \<Longrightarrow> i = int n"
proof -
  obtain c cs where c: "digits_nat n = c # cs" using digits_nat_digits [of n] by (cases "digits_nat n") auto
  then have "c \<noteq> CHR ''-''" "c \<noteq> CHR ''+''" using digits_plain [of c n] by auto
  moreover have "nat_of_digits (c # cs) = n" using nat_of_digits_nat [of n] by (simp only: c)
  moreover assume "atoi (digits_nat n) = Some i"
  ultimately show ?thesis unfolding c by (simp add: atoi_def Let_def split: if_splits)
qed

text \<open>A plain pointer that resolves is the pointer of a path into the document.\<close>

lemma resolved_path:
  assumes "plain_path path" and "valueAtTokens d (map stepToken path) = Some v"
  shows "\<exists>path'. json_at d path' = Some v \<and> map stepToken path' = map stepToken path"
  using assms
proof (induction path arbitrary: d)
  case (Cons s path)
  have rest: "plain_path path" using Cons.prems(1) by (simp add: plain_path_def)
  have ih: "\<exists>path'. json_at w path' = Some v \<and> map stepToken path' = map stepToken path"
    if "valueAtTokens w (map stepToken path) = Some v" for w
    using Cons.IH [OF rest that] .
  show ?case
  proof (cases d)
    case (JObj kvs)
    obtain k where k: "stepToken s = escapeToken k" "unescapeToken (stepToken s) = k"
      by (cases s) (auto intro: that [of "digits_nat _"])
    with Cons.prems(2) obtain w where w: "gm_get kvs k = Some w" "valueAtTokens w (map stepToken path) = Some v"
      by (auto simp: JObj split: option.splits)
    from ih [OF w(2)] obtain path' where "json_at w path' = Some v" "map stepToken path' = map stepToken path" by blast
    with w k show ?thesis by (intro exI [of _ "Member k # path'"]) (simp add: JObj)
  next
    case (JArr xs)
    obtain i where i: "atoi (unescapeToken (stepToken s)) = Some i" "0 \<le> i" "i < int (length xs)"
      "valueAtTokens (xs ! nat i) (map stepToken path) = Some v"
      using Cons.prems(2) by (auto simp: JArr split: option.splits if_splits)
    have "stepToken s = digits_nat (nat i)"
    proof (cases s)
      case (Member k)
      then show ?thesis using i(1,2) Cons.prems(1) by (auto simp: plain_path_def plain_name_def)
    next
      case (Element j)
      then show ?thesis using i(1) atoi_digits_Some [of j i] by simp
    qed
    moreover from ih [OF i(4)] obtain path' where "json_at (xs ! nat i) path' = Some v" "map stepToken path' = map stepToken path" by blast
    ultimately show ?thesis using i(2,3) by (intro exI [of _ "Element (nat i) # path'"]) (simp add: JArr nat_less_iff)
  qed (use Cons.prems(2) in simp_all)
qed (auto intro: exI [of _ "[]"])

lemma pathPointer_tokens: "map stepToken p = map stepToken q \<Longrightarrow> pathPointer p = pathPointer q"
proof -
  assume "map stepToken p = map stepToken q"
  then have "map ((#) (CHR ''/'')) (map stepToken p) = map ((#) (CHR ''/'')) (map stepToken q)" by (rule arg_cong)
  then show ?thesis unfolding pathPointer_def map_map by (simp add: comp_def)
qed

lemma resolved_leaf:
  assumes "json_wf d" "plain_path path" "path \<noteq> []" and "valueAtPointer d (pathPointer path) = Some v" "is_leaf v"
  shows "pathPointer path \<in> set (leafPointers d)"
proof -
  have "valueAtTokens d (map stepToken path) = Some v" using assms(4) by (simp add: valueAtPointer_tokens)
  with resolved_path [OF assms(2)] obtain path' where p: "json_at d path' = Some v" "map stepToken path' = map stepToken path" by blast
  then have "path' \<noteq> []" using assms(3) by auto
  then have "d \<noteq> JNull" using p(1) by (cases path') auto
  moreover have "path' \<in> set (leafPaths d)" using leafPaths_at(1) [OF assms(1)] p(1) assms(5) by blast
  ultimately show ?thesis using assms(1) by (auto simp: leafPointers_paths pathPointer_tokens [OF p(2), symmetric])
qed

text \<open>A leaf a document holds was the same in an earlier one.\<close>

definition stays :: "(json \<Rightarrow> string) \<Rightarrow> string option \<Rightarrow> string option \<Rightarrow> string \<Rightarrow> bool" where
  "stays fl s s' p \<longleftrightarrow> (\<forall>v. valueAtPointer (decodedState s') p = Some v \<and> is_leaf v \<longrightarrow>
     (\<exists>w. valueAtPointer (decodedState s) p = Some w \<and> deepEqual fl w v))"

text \<open>
  What is relied on: a patch, applied or recorded beside the state it led to, moves no field but those its operations
  name, contain or lie beneath. Operations on members and replacements are so; inserting or removing an element
  in the middle of an array, and appending one at its end, are not.
\<close>

definition row_local :: "(json \<Rightarrow> string) \<Rightarrow> 'p patch_lib \<Rightarrow> TimelineRow \<Rightarrow> Attribution \<Rightarrow> bool" where
  "row_local fl lib row a \<longleftrightarrow>
     (\<not> tr_PatchErr row \<and> (tr_Ops row \<noteq> [] \<or> ch_Data (tr_Change row) = []) \<longrightarrow>
      (\<forall>path. path \<noteq> [] \<and> (\<forall>p \<in> set (tr_Ops row). \<not> concerns (op_Path p) (pathPointer path)) \<longrightarrow>
         stays fl (at_state a) (at_state (attr_advance lib row a)) (pathPointer path)))"

fun run_local :: "(json \<Rightarrow> string) \<Rightarrow> 'p patch_lib \<Rightarrow> TimelineRow list \<Rightarrow> Attribution \<Rightarrow> bool" where
  "run_local fl lib [] a \<longleftrightarrow> True"
| "run_local fl lib (row # rows) a \<longleftrightarrow>
     (if ch_EventType (tr_Change row) = EventKubernetes then run_local fl lib rows a
      else if ch_EventType (tr_Change row) = EventDeleted then True
      else row_local fl lib row a \<and> run_local fl lib rows (attr_record fl lib row a))"

definition unread :: "Attribution \<Rightarrow> bool" where
  "unread a \<longleftrightarrow> (\<exists>ts. PatchUnreadAt ts \<in> set (at_Notices a))"

definition written_at :: "(string, fieldWrite) gomap \<Rightarrow> string \<Rightarrow> bool" where
  "written_at ws q \<longleftrightarrow> gm_get ws q \<noteq> None"

definition credited :: "Attribution \<Rightarrow> string \<Rightarrow> bool" where
  "credited a p \<longleftrightarrow> (\<exists>q. written_at (at_writes a) q \<and> concerns q p)"

lemma written_at_set [simp]: "written_at (gm_set p w ws) q \<longleftrightarrow> q = p \<or> written_at ws q"
  by (simp add: written_at_def)

lemma mark_written:
  "written_at ws q \<Longrightarrow> written_at (markChanged fl previous nxt w p ws) q"
  "written_at ws q \<Longrightarrow> written_at (markGone nxt w p ws) q"
  by (simp_all add: markChanged_def markGone_def split: option.splits)

lemma fold_written:
  assumes "\<And>x ws. written_at ws q \<Longrightarrow> written_at (f x ws) q" and "written_at ws q"
  shows "written_at (fold f xs ws) q"
  using assms(2) by (induction xs arbitrary: ws) (simp_all add: assms(1))

lemma fold_written_hit:
  assumes "\<And>x ws. written_at ws q \<Longrightarrow> written_at (f x ws) q" and "x \<in> set xs" and "\<And>ws. written_at (f x ws) q"
  shows "written_at (fold f xs ws) q"
proof -
  obtain ys zs where "xs = ys @ x # zs" using assms(2) by (meson split_list)
  then show ?thesis using fold_written [of q f, OF assms(1) assms(3)] by simp
qed

lemma recordFullState_written: "written_at (at_writes a) q \<Longrightarrow> written_at (at_writes (recordFullState fl data w a)) q"
  by (auto simp: recordFullState_def Let_def intro!: fold_written mark_written split: option.splits)

lemma attr_record_mono: "written_at (at_writes a) q \<Longrightarrow> written_at (at_writes (attr_record fl lib row a)) q"
  by (auto simp: attr_record_def Let_def recordFullState_written intro!: fold_written)

lemma attr_advance_notices: "unread a \<Longrightarrow> unread (attr_advance lib row a)"
  by (auto simp: unread_def attr_advance_def Let_def split: option.splits)

lemma recordFullState_fields [simp]: "at_state (recordFullState fl data w a) = at_state a" "at_Notices (recordFullState fl data w a) = at_Notices a"
  "at_stale (recordFullState fl data w a) = at_stale a"
  by (auto simp: recordFullState_def Let_def split: option.splits)

lemma attr_record_unread: "unread a \<or> tr_PatchErr row \<Longrightarrow> unread (attr_record fl lib row a)"
  unfolding attr_record_def Let_def by (rule attr_advance_notices) (auto simp: unread_def)

lemma attr_advance_state: "at_state a = at_state b \<Longrightarrow> at_stale a = at_stale b \<Longrightarrow> at_state (attr_advance lib row a) = at_state (attr_advance lib row b)"
  by (simp add: attr_advance_def Let_def split: option.splits)

lemma attr_record_state: "at_state (attr_record fl lib row a) = at_state (attr_advance lib row a)"
  unfolding attr_record_def Let_def by (rule attr_advance_state) auto


text \<open>A row either credits a plain field or leaves it as it was, unless its patch cannot be read.\<close>

lemma deepEqual_leaf:
  assumes "deepEqual fl w v" and "is_leaf v"
  shows "is_leaf w"
  using assms by (cases v; cases w) (auto simp: deepEqual_def is_leaf_def)

lemma deepEqual_trans: "deepEqual fl u v \<Longrightarrow> deepEqual fl v w \<Longrightarrow> deepEqual fl u w"
  by (simp add: deepEqual_def)

lemma stays_refl: "stays fl s s p"
  by (auto simp: stays_def deepEqual_def)

lemma stays_trans: "stays fl s s' p \<Longrightarrow> stays fl s' s'' p \<Longrightarrow> stays fl s s'' p"
  unfolding stays_def by (metis deepEqual_leaf deepEqual_trans)

lemma full_state_credits:
  assumes p: "plain_path path" "path \<noteq> []" and d: "data \<noteq> []"
  shows "written_at (at_writes (recordFullState fl data w a)) (pathPointer path) \<or> stays fl (at_state a) (Some data) (pathPointer path)"
proof (cases "json_unmarshal data")
  case None
  have "valueAtPointer JNull (pathPointer path) = None"
    unfolding valueAtPointer_tokens pointerTokens_path using p(2) by (cases path) simp_all
  then show ?thesis using None d by (simp add: stays_def decodedState_def)
next
  case (Some nxt)
  let ?p = "pathPointer path" and ?prev = "decodedState (at_state a)"
  have now: "decodedState (Some data) = nxt" using d Some by (simp add: decodedState_def)
  show ?thesis
  proof (cases "\<exists>v. valueAtPointer nxt ?p = Some v \<and> is_leaf v")
    case False
    then show ?thesis by (auto simp: stays_def now)
  next
    case True
    then obtain v where v: "valueAtPointer nxt ?p = Some v" "is_leaf v" by blast
    have leaf: "?p \<in> set (leafPointers nxt)" using resolved_leaf [OF json_unmarshal_wf [OF Some] p v] .
    show ?thesis
    proof (cases "\<exists>u. valueAtPointer ?prev ?p = Some u \<and> deepEqual fl u v")
      case True
      then show ?thesis using v by (auto simp: stays_def now)
    next
      case False
      then have h: "written_at (markChanged fl ?prev nxt w ?p ws) ?p" for ws
        using v by (auto simp: markChanged_def mustValueAt_def split: option.splits)
      have "written_at (fold (markChanged fl ?prev nxt w) (leafPointers nxt) (at_writes a)) ?p"
        by (rule fold_written_hit [where x = ?p]) (simp_all add: mark_written leaf h)
      then show ?thesis by (simp add: recordFullState_def Some Let_def fold_written mark_written)
    qed
  qed
qed

lemma attr_record_credits:
  assumes "row_local fl lib row a" and p: "plain_path path" "path \<noteq> []"
  shows "credited (attr_record fl lib row a) (pathPointer path) \<or> unread (attr_record fl lib row a)
    \<or> stays fl (at_state a) (at_state (attr_record fl lib row a)) (pathPointer path)"
proof (cases "tr_PatchErr row")
  case True
  then show ?thesis using attr_record_unread by blast
next
  case read: False
  show ?thesis
  proof (cases "tr_Ops row \<noteq> [] \<or> ch_Data (tr_Change row) = []")
    case True
    show ?thesis
    proof (cases "\<exists>x \<in> set (tr_Ops row). concerns (op_Path x) (pathPointer path)")
      case False
      then show ?thesis using assms(1) read True p(2) by (auto simp: row_local_def attr_record_state)
    next
      case t: True
      then obtain x where x: "x \<in> set (tr_Ops row)" "concerns (op_Path x) (pathPointer path)" by blast
      then have ne: "tr_Ops row \<noteq> []" by auto
      have "written_at (fold (\<lambda>p ws. gm_set (op_Path p) ((rowWrite (tr_Change row))\<lparr>fw_removed := (op_Type p = OpRemove)\<rparr>) ws) (tr_Ops row) (at_writes a)) (op_Path x)"
        by (rule fold_written_hit [OF _ x(1)]) simp_all
      then have "written_at (at_writes (attr_record fl lib row a)) (op_Path x)" using ne read by (simp add: attr_record_def Let_def)
      with x(2) show ?thesis by (auto simp: credited_def)
    qed
  next
    case False
    then have d: "tr_Ops row = []" "ch_Data (tr_Change row) \<noteq> []" by auto
    have "concerns (pathPointer path) (pathPointer path)" by (simp add: concerns_def ancestor_def)
    moreover have "at_writes (attr_record fl lib row a) = at_writes (recordFullState fl (ch_Data (tr_Change row)) (rowWrite (tr_Change row)) a)"
      "at_state (attr_record fl lib row a) = Some (ch_Data (tr_Change row))"
      using d read by (simp_all add: attr_record_def attr_advance_def Let_def)
    ultimately show ?thesis using full_state_credits [OF p d(2), of fl "rowWrite (tr_Change row)" a] by (auto simp: credited_def)
  qed
qed

lemma attributeRows_credits:
  assumes "run_local fl lib rows a" and p: "plain_path path" "path \<noteq> []"
    and "credited a (pathPointer path) \<or> unread a \<or> stays fl s (at_state a) (pathPointer path)"
  shows "credited (attributeRows fl lib rows a) (pathPointer path) \<or> unread (attributeRows fl lib rows a)
    \<or> stays fl s (at_state (attributeRows fl lib rows a)) (pathPointer path)"
  using assms(1,4)
proof (induction rows arbitrary: a)
  case (Cons row rows)
  show ?case
  proof (cases "ch_EventType (tr_Change row) = EventKubernetes \<or> ch_EventType (tr_Change row) = EventDeleted")
    case True
    then show ?thesis using Cons by (auto simp: credited_def unread_def)
  next
    case False
    let ?b = "attr_record fl lib row a"
    have l: "row_local fl lib row a" "run_local fl lib rows ?b" using Cons.prems(1) False by simp_all
    have "credited ?b (pathPointer path) \<or> unread ?b \<or> stays fl s (at_state ?b) (pathPointer path)"
      using Cons.prems(2) attr_record_credits [OF l(1) p] attr_record_mono attr_record_unread stays_trans
      unfolding credited_def by metis
    from Cons.IH [OF l(2) this] show ?thesis using False by simp
  qed
qed simp

text \<open>
  C35: A field said to be older than the window is one the window did not change. When the patches of a run move no
  field but those their operations concern, and every patch could be read (otherwise a notice says that one
  could not), then a leaf of the final state that is credited to no write held the same value in the state
  before the run, full-state rows and checkpoints included. The member names on its path that look like
  numbers are written as array indices are.
\<close>

theorem unattributed_field_unchanged:
  fixes fl lib seed rows
  defines "start \<equiv> \<lparr>at_writes = [], at_state = seed, at_stale = False, at_Notices = []\<rparr>"
    and "a \<equiv> AttributeRun fl lib seed rows"
  assumes "run_local fl lib rows start" and "plain_path path" "path \<noteq> []"
    and "valueAtPointer (decodedState (at_state a)) (pathPointer path) = Some v" "is_leaf v"
    and "lastWrite a (pathPointer path) = None"
  shows "(\<exists>ts. PatchUnreadAt ts \<in> set (at_Notices a))
    \<or> (\<exists>w. valueAtPointer (decodedState seed) (pathPointer path) = Some w \<and> deepEqual fl w v)"
proof -
  have "credited a (pathPointer path) \<or> unread a \<or> stays fl seed (at_state a) (pathPointer path)"
    unfolding a_def AttributeRun_def using attributeRows_credits [OF assms(3-5), of seed] by (simp add: start_def stays_refl)
  moreover have "\<not> credited a (pathPointer path)"
    using assms(8) lastWrite_None [of a "pathPointer path"] AttributeRun_wf [of fl lib seed rows] by (auto simp: a_def credited_def written_at_def)
  ultimately show ?thesis using assms(6,7) by (auto simp: unread_def stays_def)
qed

definition sampleFloat :: "json \<Rightarrow> string" where
  "sampleFloat v = (case v of JInt i \<Rightarrow> render_int i | JFloat (Some t) \<Rightarrow> t | _ \<Rightarrow> [])"

lemma sample_stays:
  assumes "path \<noteq> []" and "\<not> concerns ''/b'' (pathPointer path)"
  shows "stays fl (Some (sampleText m)) (Some (sampleText n)) (pathPointer path)"
proof -
  obtain s ps where path: "path = s # ps" using assms(1) by (cases path) auto
  have "unescapeToken (stepToken s) \<noteq> ''b''"
  proof
    assume b: "unescapeToken (stepToken s) = ''b''"
    have "stepToken s = ''b''"
    proof (cases s)
      case (Member k)
      then have "k = ''b''" using b by simp
      then show ?thesis by (simp add: Member escapeToken_def replace1_def)
    next
      case (Element j)
      then have "list_all is_digit ''b''" using b digits_nat_digits [of j] by simp
      then show ?thesis by (simp add: is_digit_def)
    qed
    then have "concerns ''/b'' (pathPointer path)" by (cases ps) (auto simp: path concerns_def ancestor_def has_prefix_iff)
    with assms(2) show False by simp
  qed
  then show ?thesis
    unfolding stays_def valueAtPointer_tokens pointerTokens_path
    by (auto simp: path decodedState_def sampleText_decodes gm_get_Cons deepEqual_def split: if_splits option.splits)
qed

theorem unattributed_field_unchanged_witness:
  "lastWrite (AttributeRun sampleFloat samplePatches (Some (sampleText 0)) blamedRun) ''/a'' = None
    \<and> (\<exists>w. valueAtPointer (decodedState (Some (sampleText 0))) ''/a'' = Some w \<and> deepEqual sampleFloat w (JInt 1))"
proof -
  let ?start = "\<lparr>at_writes = [], at_state = Some (sampleText 0), at_stale = False, at_Notices = []\<rparr>"
  let ?a = "AttributeRun sampleFloat samplePatches (Some (sampleText 0)) blamedRun"
  note ev = blamedRow_def sampleChange_def EventKubernetes_def EventDeleted_def sampleOp_def
  define b where "b = attr_record sampleFloat samplePatches (blamedRow 1 ''Modified'' (sampleText 2) [] []) ?start"
  have st: "at_state b = Some (sampleText 2)" "at_stale b = False" "at_Notices b = []"
    by (simp_all add: b_def attr_record_def attr_advance_def ev sampleText_decodes Let_def)
  have leaves: "leafPointers (JObj [(''a'', JInt 1), (''b'', JInt n)]) = [''/a'', ''/b'']" for n
    by (simp add: leafPointers_def escapeToken_def replace1_def)
  have va: "valueAtPointer (JObj [(''a'', JInt 1), (''b'', JInt n)]) ''/a'' = Some (JInt 1)" for n
    by (simp add: valueAtPointer_def has_prefix_def unescapeToken_def gm_get_Cons)
  have vb: "valueAtPointer (JObj [(''a'', JInt 1), (''b'', JInt n)]) ''/b'' = Some (JInt n)" for n
    by (simp add: valueAtPointer_def has_prefix_def unescapeToken_def gm_get_Cons)
  have wb: "at_writes b = [(''/b'', rowWrite (sampleChange 1 ''Modified'' (sampleText 2) []))]"
    by (simp add: b_def attr_record_def ev sampleText_decodes Let_def recordFullState_def leaves gm_set_def
        decodedState_def markChanged_def markGone_def va vb mustValueAt_def deepEqual_def sampleFloat_def
        render_int_def digits_nat_small)
  have "row_local sampleFloat samplePatches (blamedRow 2 ''Modified'' [] ''[]'' [sampleOp ''replace'' ''/b'']) b"
    using sample_stays by (simp add: row_local_def ev attr_advance_def st samplePatches_def Let_def)
  moreover have "row_local sampleFloat samplePatches (blamedRow 1 ''Modified'' (sampleText 2) [] []) ?start"
    by (simp add: row_local_def ev sampleText_decodes)
  ultimately have l: "run_local sampleFloat samplePatches blamedRun ?start"
    by (simp add: blamedRun_def b_def ev)
  have "?a = attr_record sampleFloat samplePatches (blamedRow 2 ''Modified'' [] ''[]'' [sampleOp ''replace'' ''/b'']) b"
    by (simp add: AttributeRun_def blamedRun_def b_def ev)
  then have fin: "at_state ?a = Some (sampleText 3)" "at_Notices ?a = []" "at_writes ?a = [(''/b'', rowWrite (sampleChange 2 ''Modified'' [] ''[]''))]"
    using st wb by (simp_all add: ev attr_record_def attr_advance_def samplePatches_def Let_def gm_set_def OpRemove_def rowWrite_def)
  have "\<not> concerns ''/b'' ''/a''" by (simp add: concerns_def ancestor_def has_prefix_def)
  then have none: "lastWrite ?a ''/a'' = None"
    unfolding lastWrite_None [OF AttributeRun_wf] fin by (auto simp: gm_get_Cons split: if_splits)
  have p: "pathPointer [Member ''a''] = ''/a''" by (simp add: escapeToken_def replace1_def)
  have "plain_path [Member ''a'']" by (simp add: plain_path_def plain_name_def atoi_def is_digit_def)
  moreover have "valueAtPointer (decodedState (at_state ?a)) (pathPointer [Member ''a'']) = Some (JInt 1)"
    unfolding p fin by (simp add: decodedState_def sampleText_decodes va)
  moreover have "is_leaf (JInt 1)" by (simp add: is_leaf_def)
  moreover have "lastWrite ?a (pathPointer [Member ''a'']) = None" unfolding p by (rule none)
  ultimately have "(\<exists>ts. PatchUnreadAt ts \<in> set (at_Notices ?a))
    \<or> (\<exists>w. valueAtPointer (decodedState (Some (sampleText 0))) (pathPointer [Member ''a'']) = Some w \<and> deepEqual sampleFloat w (JInt 1))"
    by (intro unattributed_field_unchanged [OF l]) simp_all
  then show ?thesis using none by (simp only: fin p) simp
qed

section \<open>An element appended to an array\<close>

lemma valueAtTokens_append:
  "valueAtTokens d (ts @ us) = (case valueAtTokens d ts of None \<Rightarrow> None | Some v \<Rightarrow> valueAtTokens v us)"
  by (induction d ts rule: valueAtTokens.induct) (auto split: option.splits)

lemma dash_unrelated: "\<not> concerns (pathPointer path @ ''/-'') (pathPointer path @ ''/'' @ digits_nat i)"
proof -
  have "CHR ''-'' \<notin> set (digits_nat i)" "CHR ''/'' \<notin> set (digits_nat i)" using digits_plain by blast+
  moreover from this(1) have "digits_nat i \<noteq> ''-''" by (metis list.set_intros(1))
  moreover have "digits_nat i \<noteq> []" using digits_nat_digits by blast
  ultimately show ?thesis
    by (auto simp: concerns_def ancestor_def has_prefix_iff append_eq_Cons_conv Cons_eq_append_conv dest: sym)
qed

lemma removedUpward_none: "(\<And>q. ancestor q p \<Longrightarrow> gm_get (at_writes a) q = None) \<Longrightarrow> \<not> removedUpward a p"
proof (induction a p rule: removedUpward.induct)
  case (1 a p)
  have here: "\<not> removedAt a p" using 1(2) [of p] by (simp add: removedAt_def ancestor_def)
  show ?case
  proof (cases "p = []")
    case True
    with here show ?thesis by (simp add: removedUpward.simps)
  next
    case False
    have "\<not> removedUpward a (parentPointer p)"
      using 1(2) ancestor_trans [OF _ parentPointer_ancestor [of p]] by (intro 1(1) [OF False]) blast
    with here show ?thesis by (subst removedUpward.simps) (simp add: False)
  qed
qed

text \<open>
  C37: An element appended to an array is credited to nobody, and a field that never existed is listed as removed. The
  pipeline records an appended element as an operation at the array's position past its end (a dash), and
  such a pointer never resolves. After a row that appends to the array at a path, no element of that array is
  credited to the row, the appended one included, and the table has an entry for the dash itself, marked as
  removed.
\<close>

theorem appended_element_misattributed:
  fixes fl lib seed row path
  defines "a \<equiv> AttributeRun fl lib (Some seed) [row]" and "c \<equiv> tr_Change row"
  assumes "tr_Ops row = [p]" "op_Path p = pathPointer path @ ''/-''" "\<not> tr_PatchErr row"
    and "ch_EventType c = ''Modified''" "ch_Data c = []" "ch_Diff c \<noteq> []"
    and "DecodePatch lib (ch_Diff c) = Some patch" "PatchApply lib patch seed = Some out"
    and "json_unmarshal out = Some d" "out \<noteq> []" "go_sized d" "json_at d path = Some (JArr xs)"
  shows "(\<forall>i < length xs. valueAtPointer (decodedState (at_state a)) (pathPointer (path @ [Element i])) = Some (xs ! i)
      \<and> lastWrite a (pathPointer (path @ [Element i])) = None)
    \<and> \<lparr>fe_pointer = pathPointer path @ ''/-'', fe_removed = True\<rparr> \<in> set (attr_entries a)"
proof -
  have a: "at_state a = Some out" "at_writes a = [(pathPointer path @ ''/-'', (rowWrite c)\<lparr>fw_removed := (op_Type p = OpRemove)\<rparr>)]"
    using assms by (simp_all add: a_def AttributeRun_def attr_record_def attr_advance_def Let_def gm_set_def
        EventKubernetes_def EventDeleted_def)
  have state: "decodedState (at_state a) = d" using assms(11,12) by (simp add: a decodedState_def)
  have none: "lastWrite a (pathPointer (path @ [Element i])) = None" for i
    unfolding lastWrite_None [OF AttributeRun_wf [of fl lib "Some seed" "[row]", folded a_def]] a
    using dash_unrelated [of path i] by (auto simp: gm_get_Cons split: if_splits)
  have at: "valueAtPointer d (pathPointer (path @ [Element i])) = Some (xs ! i)" if "i < length xs" for i
  proof -
    have go: "go_sized (JArr xs)" using assms(13,14)
    proof (induction d path rule: json_at.induct)
      case (2 kvs k ps)
      then show ?case using go_sized_member by (auto split: option.splits simp del: go_sized.simps)
    next
      case (3 ys i ps)
      then show ?case by (auto split: if_splits simp: list_all_length)
    qed auto
    then have "atoi (digits_nat i) = Some (int i)" using that by (intro atoi_digits) simp
    then show ?thesis using valueAtPointer_path [OF assms(13,14)] that
      unfolding valueAtPointer_tokens pointerTokens_path by (simp add: valueAtTokens_append)
  qed
  have dash: "pathPointer path @ ''/-'' = pathPointer (path @ [Member ''-''])" by (simp add: escapeToken_def replace1_def)
  have "valueAtPointer d (pathPointer path @ ''/-'') = None"
    unfolding dash valueAtPointer_tokens pointerTokens_path
    using valueAtPointer_path [OF assms(13,14)] by (simp add: valueAtTokens_append atoi_def)
  moreover have "\<not> removedAncestor a (pathPointer path @ ''/-'')"
  proof -
    have "q \<noteq> pathPointer path @ ''/-''" if "ancestor q (parentPointer (pathPointer path @ ''/-''))" for q
      using that parentPointer_shorter [of "pathPointer path @ ''/-''"] by (auto simp: ancestor_def has_prefix_iff)
    then show ?thesis unfolding removedAncestor_def by (intro removedUpward_none) (auto simp: a gm_get_Cons)
  qed
  moreover have "stateKnown (at_state a)" using assms(11,12) by (simp add: a stateKnown_def)
  ultimately have "\<lparr>fe_pointer = pathPointer path @ ''/-'', fe_removed = True\<rparr> \<in> set (attr_entries a)"
    using state by (simp add: attr_entries_def Let_def a gm_keys_def)
  with none at show ?thesis by (simp only: state) blast
qed

definition sampleArray :: "json list \<Rightarrow> string" where
  "sampleArray xs = the (json_marshal (JObj [(''args'', JArr xs)]))"

theorem appended_element_misattributed_witness:
  "lastWrite (AttributeRun sampleFloat \<lparr>DecodePatch = (\<lambda>d. Some d), PatchApply = (\<lambda>p s. Some (sampleArray [JStr ''-v'', JStr ''-x'']))\<rparr>
       (Some (sampleArray [JStr ''-v''])) [blamedRow 2 ''Modified'' [] ''[]'' [sampleOp ''add'' ''/args/-'']]) ''/args/1'' = None"
proof -
  let ?d = "JObj [(''args'', JArr [JStr ''-v'', JStr ''-x''])]"
  have m: "json_marshal ?d = Some (sampleArray [JStr ''-v'', JStr ''-x''])" by (simp add: sampleArray_def)
  have u: "json_unmarshal (sampleArray [JStr ''-v'', JStr ''-x'']) = Some ?d" by (rule unmarshal_marshal [OF _ _ m]) simp_all
  have ne: "sampleArray [JStr ''-v'', JStr ''-x''] \<noteq> []" by (simp add: sampleArray_def)
  have p: "''/args/-'' = pathPointer [Member ''args''] @ ''/-''" by (simp add: escapeToken_def replace1_def)
  let ?a = "AttributeRun sampleFloat \<lparr>DecodePatch = (\<lambda>d. Some d), PatchApply = (\<lambda>p s. Some (sampleArray [JStr ''-v'', JStr ''-x'']))\<rparr>
       (Some (sampleArray [JStr ''-v''])) [blamedRow 2 ''Modified'' [] ''[]'' [sampleOp ''add'' ''/args/-'']]"
  have "\<forall>i < length [JStr ''-v'', JStr ''-x'']. valueAtPointer (decodedState (at_state ?a)) (pathPointer ([Member ''args''] @ [Element i])) = Some ([JStr ''-v'', JStr ''-x''] ! i)
      \<and> lastWrite ?a (pathPointer ([Member ''args''] @ [Element i])) = None"
    by (rule conjunct1 [OF appended_element_misattributed [where p = "sampleOp ''add'' ''/args/-''" and d = ?d]])
      (simp_all add: blamedRow_def sampleChange_def sampleOp_def gm_get_Cons p, rule u, rule ne)
  then have "lastWrite ?a (pathPointer ([Member ''args''] @ [Element 1])) = None" by simp
  moreover have "pathPointer ([Member ''args''] @ [Element 1]) = ''/args/1''" by code_simp
  ultimately show ?thesis by simp
qed

section \<open>The root of the document\<close>

text \<open>The test for a removed ancestor answers for the empty pointer itself, which has no strict ancestor.\<close>

lemma removedAncestor_root: "removedAncestor a [] = removedAt a []"
  by (simp add: removedAncestor_def parentPointer_def last_index_def removedUpward.simps)

section \<open>One row per collapsed field\<close>

definition blankRow :: "string \<Rightarrow> BlameRow" where
  "blankRow key =
     \<lparr>br_Path = DisplayPath key, br_Pointer = key, br_Attributed = False, br_TS = 0, br_Actors = [], br_UID = [],
      br_ResourceVersion = [], br_EventType = [], br_Removed = True, br_Fields = 0\<rparr>"

definition addField :: "Attribution \<Rightarrow> fieldEntry \<Rightarrow> BlameRow \<Rightarrow> BlameRow" where
  "addField a e row = applyWrite a (fe_pointer e) (row\<lparr>br_Fields := br_Fields row + 1, br_Removed := br_Removed row \<and> fe_removed e\<rparr>)"

definition rowOf :: "Attribution \<Rightarrow> int \<Rightarrow> fieldEntry list \<Rightarrow> string \<Rightarrow> BlameRow" where
  "rowOf a depth es key = fold (addField a) (filter (\<lambda>e. collapseTo (fe_pointer e) depth = key) es) (blankRow key)"

lemma rowOf_snoc:
  "rowOf a depth (es @ [e]) key =
     (if collapseTo (fe_pointer e) depth = key then addField a e (rowOf a depth es key) else rowOf a depth es key)"
  by (simp add: rowOf_def)

lemma rowOf_fresh: "key \<notin> (\<lambda>e. collapseTo (fe_pointer e) depth) ` set es \<Longrightarrow> rowOf a depth es key = blankRow key"
  unfolding rowOf_def by (subst filter_False) auto

text \<open>The table under construction: the rows of the keys met so far in the order they were met, and their positions.\<close>

definition blame_table_ok :: "Attribution \<Rightarrow> int \<Rightarrow> fieldEntry list \<Rightarrow> BlameRow list \<times> (string, nat) gomap \<Rightarrow> bool" where
  "blame_table_ok a depth es ri \<longleftrightarrow>
     (let keys = firsts (map (\<lambda>e. collapseTo (fe_pointer e) depth) es)
      in fst ri = map (rowOf a depth es) keys \<and> (\<forall>k i. gm_get (snd ri) k = Some i \<longleftrightarrow> i < length keys \<and> keys ! i = k))"

lemma applyWrite_pointer [simp]: "br_Pointer (applyWrite a p row) = br_Pointer row"
  by (simp add: applyWrite_def split: option.splits)

lemma addField_blank:
  "addField a e (blankRow key) = applyWrite a (fe_pointer e)
     \<lparr>br_Path = DisplayPath key, br_Pointer = key, br_Attributed = False, br_TS = 0, br_Actors = [], br_UID = [],
      br_ResourceVersion = [], br_EventType = [], br_Removed = fe_removed e, br_Fields = 1\<rparr>"
  by (simp add: addField_def blankRow_def)

lemma blameStep_ok:
  assumes "blame_table_ok a depth es ri"
  shows "blame_table_ok a depth (es @ [e]) (blameStep a depth e ri)"
proof -
  obtain rows index where ri: "ri = (rows, index)" by (cases ri)
  define key where "key = collapseTo (fe_pointer e) depth"
  define keys where "keys = firsts (map (\<lambda>e. collapseTo (fe_pointer e) depth) es)"
  have rows: "rows = map (rowOf a depth es) keys" and pos: "\<And>k i. gm_get index k = Some i \<longleftrightarrow> i < length keys \<and> keys ! i = k"
    using assms by (simp_all add: blame_table_ok_def ri keys_def Let_def)
  have d: "distinct keys" "set keys = (\<lambda>e. collapseTo (fe_pointer e) depth) ` set es" by (simp_all add: keys_def)
  have other: "rowOf a depth (es @ [e]) k = rowOf a depth es k" if "k \<noteq> key" for k using that by (simp add: rowOf_snoc key_def)
  show ?thesis
  proof (cases "gm_get index key")
    case None
    have new: "key \<notin> set keys" using pos [of key] None by (auto simp: in_set_conv_nth)
    then have ks: "firsts (map (\<lambda>e. collapseTo (fe_pointer e) depth) (es @ [e])) = keys @ [key]"
      using d(2) by (simp add: firsts_snoc keys_def key_def)
    have "map (rowOf a depth (es @ [e])) keys = rows" unfolding rows using new by (intro map_cong refl other) auto
    moreover have "rowOf a depth (es @ [e]) key = addField a e (blankRow key)"
      using new d(2) rowOf_fresh [of key depth es a] by (simp add: rowOf_snoc key_def)
    moreover have "length rows = length keys" by (simp add: rows)
    ultimately have "fst (blameStep a depth e ri) = map (rowOf a depth (es @ [e])) (keys @ [key])"
      "snd (blameStep a depth e ri) = gm_set key (length keys) index"
      using None by (simp_all add: blameStep_def ri Let_def key_def [symmetric] addField_blank list_update_append nth_append)
    moreover have "gm_get (gm_set key (length keys) index) k = Some i \<longleftrightarrow> i < length (keys @ [key]) \<and> (keys @ [key]) ! i = k" for k i
      using pos [of k i] new by (auto simp: nth_append less_Suc_eq in_set_conv_nth)
    ultimately show ?thesis unfolding blame_table_ok_def ks by (simp add: Let_def)
  next
    case (Some i)
    then have i: "i < length keys" "keys ! i = key" using pos by auto
    then have seen: "key \<in> set keys" by auto
    then have ks: "firsts (map (\<lambda>e. collapseTo (fe_pointer e) depth) (es @ [e])) = keys"
      using d(2) by (simp add: firsts_snoc keys_def key_def)
    have "rowOf a depth (es @ [e]) (keys ! j) = (if j = i then addField a e (rows ! i) else rows ! j)" if "j < length keys" for j
      using that i d(1) by (auto simp: rows rowOf_snoc key_def [symmetric] nth_eq_iff_index_eq)
    then have "map (rowOf a depth (es @ [e])) keys = rows[i := addField a e (rows ! i)]"
      by (intro nth_equalityI) (auto simp: rows nth_list_update)
    moreover have "blameStep a depth e ri = (rows[i := addField a e (rows ! i)], index)"
      using Some i(1) by (simp add: blameStep_def ri Let_def key_def [symmetric] addField_def rows)
    ultimately show ?thesis using pos unfolding blame_table_ok_def ks by (simp add: Let_def)
  qed
qed

lemma blame_table: "blame_table_ok a depth es (fold (blameStep a depth) es ([], []))"
proof (induction es rule: rev_induct)
  case Nil
  then show ?case by (simp add: blame_table_ok_def)
next
  case (snoc e es)
  then show ?case using blameStep_ok by simp
qed

lemma set_insertRev: "set (insertRev c x ys) = insert x (set ys)" "mset (insertRev c x ys) = add_mset x (mset ys)"
  by (induction ys) auto

lemma mset_sortFunc: "mset (sortFunc c xs) = mset xs"
proof -
  have "mset (fold (insertRev c) xs ys) = mset xs + mset ys" for ys
    by (induction xs arbitrary: ys) (simp_all add: set_insertRev)
  then show ?thesis by (simp add: sortFunc_def)
qed

lemma set_sortFunc [simp]: "set (sortFunc c xs) = set xs"
  by (metis mset_sortFunc set_mset_mset)

text \<open>What a row says of the fields it stands for.\<close>

definition row_sums :: "Attribution \<Rightarrow> fieldEntry list \<Rightarrow> BlameRow \<Rightarrow> bool" where
  "row_sums a es row \<longleftrightarrow>
     br_Fields row = length es \<and> br_Removed row = list_all fe_removed es
     \<and> (br_Attributed row \<longleftrightarrow> (\<exists>e \<in> set es. lastWrite a (fe_pointer e) \<noteq> None))
     \<and> (br_Attributed row \<longrightarrow>
          (\<exists>e \<in> set es. \<exists>w. lastWrite a (fe_pointer e) = Some w \<and> br_TS row = fw_ts w \<and> br_Actors row = fw_actors w \<and> br_UID row = fw_uid w
             \<and> br_ResourceVersion row = fw_resourceVersion w \<and> br_EventType row = fw_eventType w)
          \<and> (\<forall>e \<in> set es. \<forall>w. lastWrite a (fe_pointer e) = Some w \<longrightarrow> fw_ts w \<le> br_TS row))"

lemma addField_sums:
  assumes "row_sums a es row"
  shows "row_sums a (es @ [e]) (addField a e row)"
proof (cases "lastWrite a (fe_pointer e)")
  case None
  with assms show ?thesis by (auto simp: row_sums_def addField_def applyWrite_def)
next
  case (Some w)
  show ?thesis
  proof (cases "br_Attributed row \<and> \<not> fw_ts w > br_TS row")
    case True
    with assms Some show ?thesis by (auto simp: row_sums_def addField_def applyWrite_def)
  next
    case False
    then have "\<forall>e \<in> set es. \<forall>v. lastWrite a (fe_pointer e) = Some v \<longrightarrow> fw_ts v \<le> fw_ts w"
      using assms unfolding row_sums_def by (metis dual_order.trans less_le_not_le linorder_le_less_linear option.distinct(1))
    with assms Some False show ?thesis by (auto simp: row_sums_def addField_def applyWrite_def)
  qed
qed

lemma rowOf_sums: "row_sums a (filter (\<lambda>e. collapseTo (fe_pointer e) depth = key) es) (rowOf a depth es key)"
proof -
  have "row_sums a xs (fold (addField a) xs (blankRow key))" for xs
  proof (induction xs rule: rev_induct)
    case Nil
    then show ?case by (simp add: row_sums_def blankRow_def)
  next
    case (snoc e xs)
    then show ?case using addField_sums by simp
  qed
  then show ?thesis by (simp add: rowOf_def)
qed

lemma rowOf_pointer: "br_Pointer (rowOf a depth es key) = key"
proof -
  have "br_Pointer (fold (addField a) xs r) = br_Pointer r" for xs r
    by (induction xs arbitrary: r) (simp_all add: addField_def)
  then show ?thesis by (simp add: rowOf_def blankRow_def)
qed

text \<open>
  The table accounts for every field asked for, once. Its rows have distinct pointers, those the selected fields
  collapse to. A row counts the fields that collapse to it, claims a removal only when all of them are gone, is
  credited when one of them is, and then to the newest of their last writes, whose actors, incarnation,
  version and kind of event it carries.
\<close>

theorem blame_rows_account:
  fixes a paths depth
  defines "es \<equiv> filter (\<lambda>e. MatchesFieldPath (fe_pointer e) paths) (attr_entries a)" and "rows \<equiv> BlameRows a paths depth"
  shows "distinct (map br_Pointer rows) \<and> br_Pointer ` set rows = (\<lambda>e. collapseTo (fe_pointer e) depth) ` set es
    \<and> (\<forall>row \<in> set rows. row_sums a (filter (\<lambda>e. collapseTo (fe_pointer e) depth = br_Pointer row) es) row)"
proof -
  define keys where "keys = firsts (map (\<lambda>e. collapseTo (fe_pointer e) depth) es)"
  have t: "fst (fold (blameStep a depth) es ([], [])) = map (rowOf a depth es) keys"
    using blame_table [of a depth es] by (simp add: blame_table_ok_def Let_def keys_def)
  have rows: "rows = sortFunc compareBlameRows (map (rowOf a depth es) keys)" by (simp add: rows_def BlameRows_def es_def [symmetric] t)
  have m: "mset (map br_Pointer rows) = mset keys"
    unfolding rows mset_map mset_sortFunc by (simp add: comp_def rowOf_pointer flip: mset_map)
  have "distinct (map br_Pointer rows)" "set (map br_Pointer rows) = set keys"
    using mset_eq_imp_distinct_iff [OF m] mset_eq_setD [OF m] by (simp_all add: keys_def)
  moreover have "\<forall>row \<in> set rows. row_sums a (filter (\<lambda>e. collapseTo (fe_pointer e) depth = br_Pointer row) es) row"
    by (auto simp: rows rowOf_pointer rowOf_sums)
  ultimately show ?thesis by (simp add: keys_def)
qed

theorem blame_rows_account_witness:
  "\<exists>row \<in> set (BlameRows (AttributeRun sampleFloat samplePatches (Some (sampleText 3))
       [blamedRow 1 ''Modified'' [] [] [sampleOp ''remove'' ''/b''], blamedRow 2 ''Modified'' [] [] [sampleOp ''replace'' ''/a'']]) [] 0).
     br_Pointer row = ''/a'' \<and> br_Fields row = 1 \<and> br_Attributed row \<and> br_TS row = 2"
proof -
  define a where "a = AttributeRun sampleFloat samplePatches (Some (sampleText 3))
       [blamedRow 1 ''Modified'' [] [] [sampleOp ''remove'' ''/b''], blamedRow 2 ''Modified'' [] [] [sampleOp ''replace'' ''/a'']]"
  have w: "at_state a = Some (sampleText 3)"
    "at_writes a = [(''/b'', (rowWrite (sampleChange 1 ''Modified'' [] []))\<lparr>fw_removed := True\<rparr>), (''/a'', rowWrite (sampleChange 2 ''Modified'' [] []))]"
    by (simp_all add: a_def AttributeRun_def blamedRow_def sampleChange_def sampleOp_def attr_record_def attr_advance_def Let_def gm_set_def
        EventKubernetes_def EventDeleted_def OpRemove_def rowWrite_def)
  have doc: "decodedState (Some (sampleText 3)) = JObj [(''a'', JInt 1), (''b'', JInt 3)]" by (simp add: decodedState_def sampleText_decodes)
  have v: "valueAtPointer (JObj [(''a'', JInt 1), (''b'', JInt 3)]) ''/a'' = Some (JInt 1)"
    "valueAtPointer (JObj [(''a'', JInt 1), (''b'', JInt 3)]) ''/b'' = Some (JInt 3)"
    by (simp_all add: valueAtPointer_def has_prefix_def unescapeToken_def gm_get_Cons)
  have es: "attr_entries a = [\<lparr>fe_pointer = ''/a'', fe_removed = False\<rparr>, \<lparr>fe_pointer = ''/b'', fe_removed = False\<rparr>]"
    unfolding attr_entries_def w doc Let_def by (simp add: v gm_keys_def leafPointers_def escapeToken_def replace1_def)
  have anc: "pointerAncestors ''/a'' = [''/a'', []]"
    by (subst pointerAncestors.simps, subst pointerAncestors.simps) (simp add: parentPointer_def last_index_def)
  have l: "lastWrite a ''/a'' = Some (rowWrite (sampleChange 2 ''Modified'' [] []))"
    unfolding lastWrite_def bestWrite_def w anc
    by (simp add: gm_get_Cons considerAncestor_def considerWrite_def better_def considerDescendant_def has_prefix_def)
  note main = blame_rows_account [where a = a and paths = "[]" and depth = 0]
  have "br_Pointer ` set (BlameRows a [] 0) = {''/a'', ''/b''}"
    using conjunct1 [OF conjunct2 [OF main]] unfolding es by (simp add: MatchesFieldPath_def collapseTo_def)
  then have "''/a'' \<in> br_Pointer ` set (BlameRows a [] 0)" by simp
  then obtain row where row: "row \<in> set (BlameRows a [] 0)" "br_Pointer row = ''/a''" by (metis imageE)
  have "row_sums a [\<lparr>fe_pointer = ''/a'', fe_removed = False\<rparr>] row"
    using bspec [OF conjunct2 [OF conjunct2 [OF main]] row(1)] unfolding es row(2) by (simp add: MatchesFieldPath_def collapseTo_def)
  then have "br_Fields row = 1 \<and> br_Attributed row \<and> br_TS row = 2" by (simp add: row_sums_def l rowWrite_def sampleChange_def)
  with row show ?thesis unfolding a_def by blast
qed

end
