(* ===== verification/Conditions.thy ===== *)
theory Conditions
  imports Redact
begin

text \<open>
  What the reconcilers share (\<open>internal/controller/conditions.go\<close>, \<open>readyFor\<close> of
  \<open>internal/controller/sink_controller.go\<close>, \<open>internal/controller/metrics.go\<close>): the registry keys of the rules, the
  conditions one pass decides and their roll-up, the events a change of verdict emits, and the gauge that
  counts the rules at each condition.

  The two helpers of \<open>apimeta\<close> that read and write a list of conditions are a library's and parameters,
  in \<open>conditions_api\<close>; \<open>conditions_api_ok\<close> is what their documentation promises. A condition's status is
  a string, as in the API. The gauge's float is an integer.
\<close>

section \<open>Rule keys\<close>

definition kindStreamRule :: string where "kindStreamRule = ''streamrule''"

definition kindClusterStreamRule :: string where "kindClusterStreamRule = ''clusterstreamrule''"

definition RuleKey :: "string \<Rightarrow> string \<Rightarrow> string \<Rightarrow> string" where
  "RuleKey kind namespace name = kind @ ''/'' @ namespace @ ''/'' @ name"

record NamespacedName =
  nn_Namespace :: string
  nn_Name :: string

definition parseRuleKey :: "string \<Rightarrow> (string \<times> NamespacedName) option" where
  "parseRuleKey key =
     (case split_on (CHR ''/'') key of
        [kind, namespace, name] \<Rightarrow>
          if kind = [] \<or> name = [] then None
          else if kind = kindStreamRule \<or> kind = kindClusterStreamRule
          then Some (kind, \<lparr>nn_Namespace = namespace, nn_Name = name\<rparr>) else None
      | _ \<Rightarrow> None)"

section \<open>Conditions\<close>

definition ConditionTrue :: string where "ConditionTrue = ''True''"
definition ConditionFalse :: string where "ConditionFalse = ''False''"
definition ConditionUnknown :: string where "ConditionUnknown = ''Unknown''"

definition ConditionReady :: string where "ConditionReady = ''Ready''"
definition ConditionCredentialsResolved :: string where "ConditionCredentialsResolved = ''CredentialsResolved''"
definition ConditionHistoryUnavailable :: string where "ConditionHistoryUnavailable = ''HistoryUnavailable''"
definition ConditionSchemaValid :: string where "ConditionSchemaValid = ''SchemaValid''"
definition ConditionBucketReachable :: string where "ConditionBucketReachable = ''BucketReachable''"
definition ConditionRBACGranted :: string where "ConditionRBACGranted = ''RBACGranted''"
definition ConditionPolicyAllowed :: string where "ConditionPolicyAllowed = ''PolicyAllowed''"
definition ConditionResourceResolved :: string where "ConditionResourceResolved = ''ResourceResolved''"

definition ProbeReasonUnreachable :: string where "ProbeReasonUnreachable = ''Unreachable''"
definition ProbeReasonSchemaInvalid :: string where "ProbeReasonSchemaInvalid = ''SchemaInvalid''"
definition ProbeReasonCredentialsInvalid :: string where "ProbeReasonCredentialsInvalid = ''CredentialsInvalid''"

lemmas condition_types =
  ConditionReady_def ConditionCredentialsResolved_def ConditionHistoryUnavailable_def ConditionSchemaValid_def
  ConditionBucketReachable_def ConditionRBACGranted_def ConditionPolicyAllowed_def ConditionResourceResolved_def

lemmas condition_statuses = ConditionTrue_def ConditionFalse_def ConditionUnknown_def

record Condition =
  cd_Type :: string
  cd_Status :: string
  cd_Reason :: string
  cd_Message :: string
  cd_ObservedGeneration :: int
  cd_LastTransitionTime :: go_time

definition condition :: "string \<Rightarrow> string \<Rightarrow> string \<Rightarrow> string \<Rightarrow> int \<Rightarrow> Condition" where
  "condition condType status reason message generation =
     \<lparr>cd_Type = condType, cd_Status = status, cd_Reason = reason, cd_Message = message,
      cd_ObservedGeneration = generation, cd_LastTransitionTime = 0\<rparr>"

record conditions_api =
  ca_find :: "Condition list \<Rightarrow> string \<Rightarrow> Condition option"
  ca_set :: "Condition list \<Rightarrow> Condition \<Rightarrow> Condition list"

definition findCondition :: "conditions_api \<Rightarrow> Condition list \<Rightarrow> string \<Rightarrow> Condition option" where
  "findCondition api conditions condType = ca_find api conditions condType"

record statusWriter =
  sw_conditions :: "Condition list"
  sw_generation :: int

definition sw_new :: "int \<Rightarrow> statusWriter" where
  "sw_new generation = \<lparr>sw_conditions = [], sw_generation = generation\<rparr>"

definition sw_set :: "conditions_api \<Rightarrow> string \<Rightarrow> string \<Rightarrow> string \<Rightarrow> string \<Rightarrow> statusWriter \<Rightarrow> statusWriter" where
  "sw_set api condType status reason message w =
     w\<lparr>sw_conditions := ca_set api (sw_conditions w) (condition condType status reason message (sw_generation w))\<rparr>"

definition sw_apply :: "conditions_api \<Rightarrow> statusWriter \<Rightarrow> Condition list \<Rightarrow> Condition list" where
  "sw_apply api w existing = foldl (ca_set api) existing (sw_conditions w)"

fun readyFor :: "conditions_api \<Rightarrow> statusWriter \<Rightarrow> string list \<Rightarrow> string \<Rightarrow> string \<Rightarrow> Condition" where
  "readyFor api w [] trueReason trueMessage =
     condition ConditionReady ConditionTrue trueReason trueMessage (sw_generation w)"
| "readyFor api w (condType # order) trueReason trueMessage =
     (case findCondition api (sw_conditions w) condType of
        None \<Rightarrow> readyFor api w order trueReason trueMessage
      | Some c \<Rightarrow>
          if cd_Status c = ConditionTrue then readyFor api w order trueReason trueMessage
          else condition ConditionReady
                 (if cd_Status c = ConditionUnknown \<and> cd_Reason c = ProbeReasonUnreachable then ConditionFalse
                  else cd_Status c)
                 (cd_Reason c) (cd_Message c) (sw_generation w))"

section \<open>Events\<close>

definition EventReasonDegraded :: string where "EventReasonDegraded = ''Degraded''"
definition EventReasonReady :: string where "EventReasonReady = ''Ready''"
definition EventReasonHistoryUnavailable :: string where "EventReasonHistoryUnavailable = ''HistoryUnavailable''"

record kubeEvent =
  ke_type :: string
  ke_reason :: string
  ke_message :: string

text \<open>Two verdicts agree when nothing an event would report has changed.\<close>

definition same_verdict :: "Condition option \<Rightarrow> Condition \<Rightarrow> bool" where
  "same_verdict previous current =
     (case previous of None \<Rightarrow> False | Some p \<Rightarrow> cd_Status p = cd_Status current \<and> cd_Reason p = cd_Reason current)"

definition emitReadyEvent :: "bool \<Rightarrow> Condition option \<Rightarrow> Condition \<Rightarrow> kubeEvent list" where
  "emitReadyEvent recorder previous ready =
     (if \<not> recorder then []
      else if same_verdict previous ready then []
      else if cd_Status ready = ConditionTrue
      then [\<lparr>ke_type = ''Normal'', ke_reason = EventReasonReady, ke_message = cd_Message ready\<rparr>]
      else if cd_Status ready = ConditionFalse
      then [\<lparr>ke_type = ''Warning'', ke_reason = EventReasonDegraded,
             ke_message = cd_Reason ready @ '': '' @ cd_Message ready\<rparr>]
      else [])"

definition emitCapabilityLimitEvent :: "bool \<Rightarrow> Condition option \<Rightarrow> Condition \<Rightarrow> kubeEvent list" where
  "emitCapabilityLimitEvent recorder previous current =
     (if \<not> recorder \<or> cd_Status current \<noteq> ConditionTrue then []
      else if same_verdict previous current then []
      else [\<lparr>ke_type = ''Warning'', ke_reason = EventReasonHistoryUnavailable,
             ke_message = cd_Reason current @ '': '' @ cd_Message current\<rparr>])"

section \<open>Writing a status\<close>

text \<open>An error of the API client: its text, and whether it says that the object does not exist.\<close>

record apiError =
  ae_NotFound :: bool
  ae_Text :: string

text \<open>
  \<open>updateStatus\<close> runs under the client's conflict retry. One attempt is what the API server answered to
  it: the read failed, or it returned a fresh status and the write was refused as a conflict, failed, or
  was stored. The list holds the attempts the retry allows; running out of them returns the last conflict.
  The result is the status stored.
\<close>

datatype 's statusAttempt =
    ReadFailed string
  | Conflicted 's string
  | WriteFailed 's string
  | Stored 's

fun updateStatus :: "('s \<Rightarrow> 's) \<Rightarrow> 's statusAttempt list \<Rightarrow> string \<Rightarrow> string + 's" where
  "updateStatus mutate [] lastErr = Inl lastErr"
| "updateStatus mutate (ReadFailed err # attempts) lastErr = Inl err"
| "updateStatus mutate (Conflicted fresh err # attempts) lastErr = updateStatus mutate attempts err"
| "updateStatus mutate (WriteFailed fresh err # attempts) lastErr = Inl err"
| "updateStatus mutate (Stored fresh # attempts) lastErr = Inr (mutate fresh)"

section \<open>The gauge over rules\<close>

definition conditionStatuses :: "string list" where
  "conditionStatuses = [''true'', ''false'', ''unknown'']"

definition ascii_lower :: "char \<Rightarrow> char" where
  "ascii_lower c = (let n = of_char c :: nat in if 65 \<le> n \<and> n \<le> 90 then char_of (n + 32) else c)"

definition statusLabel :: "string \<Rightarrow> string" where
  "statusLabel status =
     (let lowered = map ascii_lower status in
      if lowered \<in> set conditionStatuses then lowered else ''unknown'')"

type_synonym rule_conditions = "(string, string) gomap"

record RuleMetrics =
  rm_rules :: "(string \<times> string, int) gomap"
  rm_observed :: "(string, rule_conditions) gomap"
  rm_published :: "string list"

definition publishType :: "string \<Rightarrow> RuleMetrics \<Rightarrow> RuleMetrics" where
  "publishType condType m =
     (if condType \<in> set (rm_published m) then m
      else m\<lparr>rm_published := condType # rm_published m,
             rm_rules := fold (\<lambda>status. gm_set (condType, status) 0) conditionStatuses (rm_rules m)\<rparr>)"

definition NewRuleMetrics :: RuleMetrics where
  "NewRuleMetrics = publishType ConditionReady \<lparr>rm_rules = [], rm_observed = [], rm_published = []\<rparr>"

type_synonym status_counts = "(string, (string, int) gomap) gomap"

definition countCondition :: "string \<times> string \<Rightarrow> status_counts \<times> RuleMetrics \<Rightarrow> status_counts \<times> RuleMetrics" where
  "countCondition c acc =
     (case (c, acc) of ((condType, status), (counts, m)) \<Rightarrow>
        let (byStatus, m) = (case gm_get counts condType of
                               Some byStatus \<Rightarrow> (byStatus, m)
                             | None \<Rightarrow> ([], publishType condType m));
            label = statusLabel status;
            n = (case gm_get byStatus label of Some n \<Rightarrow> n | None \<Rightarrow> 0)
        in (gm_set condType (gm_set label (n + 1) byStatus) counts, m))"

definition setSeries :: "string \<times> (string, int) gomap \<Rightarrow> RuleMetrics \<Rightarrow> RuleMetrics" where
  "setSeries entry m =
     m\<lparr>rm_rules := fold (\<lambda>status. gm_set (fst entry, status)
          (case gm_get (snd entry) status of Some n \<Rightarrow> n | None \<Rightarrow> 0)) conditionStatuses (rm_rules m)\<rparr>"

definition recount :: "RuleMetrics \<Rightarrow> RuleMetrics" where
  "recount m =
     (let counts = map (\<lambda>condType. (condType, [])) (rm_published m);
          (counts, m) = fold countCondition (concat (map snd (rm_observed m))) (counts, m)
      in fold setSeries counts m)"

definition Metrics_Observe :: "string \<Rightarrow> Condition list \<Rightarrow> RuleMetrics \<Rightarrow> RuleMetrics" where
  "Metrics_Observe ruleKey conds m =
     (let current = fold (\<lambda>c. gm_set (cd_Type c) (cd_Status c)) conds [];
          m = m\<lparr>rm_observed := gm_set ruleKey current (rm_observed m)\<rparr>
      in recount (fold publishType (gm_keys current) m))"

definition Metrics_Forget :: "string \<Rightarrow> RuleMetrics \<Rightarrow> RuleMetrics" where
  "Metrics_Forget ruleKey m =
     (if gm_get (rm_observed m) ruleKey = None then m
      else recount (m\<lparr>rm_observed := gm_del ruleKey (rm_observed m)\<rparr>))"

section \<open>Keys round trip\<close>

lemma join_with_Cons_head: "join_with sep ((x # y) # ys) = x # join_with sep (y # ys)"
  by (cases ys) auto

lemma join_split: "join_with [c] (split_on c s) = s"
proof (induction s)
  case (Cons x xs)
  then show ?case by (cases "split_on c xs") (auto simp: join_with_Cons_head)
qed simp

lemma RuleKey_join: "RuleKey kind namespace name = join_with ''/'' [kind, namespace, name]"
  by (simp add: RuleKey_def)

lemma rule_kinds_free: "kind = kindStreamRule \<or> kind = kindClusterStreamRule \<Longrightarrow> CHR ''/'' \<notin> set kind"
  by (auto simp: kindStreamRule_def kindClusterStreamRule_def)

lemma parse_RuleKey:
  assumes "kind = kindStreamRule \<or> kind = kindClusterStreamRule" and "name \<noteq> []"
    and "CHR ''/'' \<notin> set namespace" and "CHR ''/'' \<notin> set name"
  shows "parseRuleKey (RuleKey kind namespace name) = Some (kind, \<lparr>nn_Namespace = namespace, nn_Name = name\<rparr>)"
proof -
  have "split_on (CHR ''/'') (RuleKey kind namespace name) = [kind, namespace, name]"
    using assms by (simp add: RuleKey_join split_join rule_kinds_free del: join_with.simps)
  then show ?thesis using assms by (auto simp: parseRuleKey_def kindStreamRule_def kindClusterStreamRule_def)
qed

text \<open>C16: A registry key parses to a rule kind and an object exactly when it is the key \<open>RuleKey\<close> builds for
  them, the kind is one of the two rule kinds, and namespace and name are as the API server admits them:
  free of slashes, the name not empty. So the callback that parks rules turns every key the reconcilers
  wrote back into the rule that wrote it, and takes nothing else for a rule.\<close>

theorem parseRuleKey_inverts_RuleKey:
  "parseRuleKey key = Some (kind, \<lparr>nn_Namespace = namespace, nn_Name = name\<rparr>) \<longleftrightarrow>
     key = RuleKey kind namespace name \<and> (kind = kindStreamRule \<or> kind = kindClusterStreamRule) \<and> name \<noteq> [] \<and>
     CHR ''/'' \<notin> set namespace \<and> CHR ''/'' \<notin> set name"
proof
  assume parsed: "parseRuleKey key = Some (kind, \<lparr>nn_Namespace = namespace, nn_Name = name\<rparr>)"
  then have parts: "split_on (CHR ''/'') key = [kind, namespace, name]"
    and known: "kind = kindStreamRule \<or> kind = kindClusterStreamRule" and named: "name \<noteq> []"
    by (auto simp: parseRuleKey_def split: list.splits if_splits)
  have "key = RuleKey kind namespace name"
    using join_split [of "CHR ''/''" key] parts by (simp add: RuleKey_join)
  moreover have "CHR ''/'' \<notin> set namespace" "CHR ''/'' \<notin> set name"
    using split_on_parts_free [of _ "CHR ''/''" key] parts by auto
  ultimately show "key = RuleKey kind namespace name \<and> (kind = kindStreamRule \<or> kind = kindClusterStreamRule) \<and> name \<noteq> [] \<and>
      CHR ''/'' \<notin> set namespace \<and> CHR ''/'' \<notin> set name"
    using known named by blast
next
  assume key: "key = RuleKey kind namespace name \<and> (kind = kindStreamRule \<or> kind = kindClusterStreamRule) \<and> name \<noteq> [] \<and>
      CHR ''/'' \<notin> set namespace \<and> CHR ''/'' \<notin> set name"
  then show "parseRuleKey key = Some (kind, \<lparr>nn_Namespace = namespace, nn_Name = name\<rparr>)"
    using parse_RuleKey by blast
qed

section \<open>The conditions of a pass\<close>

text \<open>
  What \<open>apimeta\<close> documents: a lookup returns the first condition of its type; setting a condition replaces
  the one of its type in place, or appends it, and changes no other, the time of the last transition apart.
\<close>

definition timeless :: "Condition \<Rightarrow> Condition" where
  "timeless c = c\<lparr>cd_LastTransitionTime := 0\<rparr>"

definition conditions_api_ok :: "conditions_api \<Rightarrow> bool" where
  "conditions_api_ok api \<longleftrightarrow>
     (\<forall>cs t. ca_find api cs t = find (\<lambda>c. cd_Type c = t) cs) \<and>
     (\<forall>cs c. map cd_Type (ca_set api cs c) =
        (if cd_Type c \<in> cd_Type ` set cs then map cd_Type cs else map cd_Type cs @ [cd_Type c])) \<and>
     (\<forall>cs c t. map_option timeless (ca_find api (ca_set api cs c) t) =
        (if t = cd_Type c then Some (timeless c) else map_option timeless (ca_find api cs t)))"

lemma api_find: "conditions_api_ok api \<Longrightarrow> ca_find api cs t = find (\<lambda>c. cd_Type c = t) cs"
  by (simp add: conditions_api_ok_def)

lemma api_types:
  "conditions_api_ok api \<Longrightarrow> map cd_Type (ca_set api cs c) =
     (if cd_Type c \<in> cd_Type ` set cs then map cd_Type cs else map cd_Type cs @ [cd_Type c])"
  by (simp add: conditions_api_ok_def)

lemma api_find_set:
  "conditions_api_ok api \<Longrightarrow> map_option timeless (ca_find api (ca_set api cs c) t) =
     (if t = cd_Type c then Some (timeless c) else map_option timeless (ca_find api cs t))"
  unfolding conditions_api_ok_def by blast

lemma api_find_Nil [simp]: "conditions_api_ok api \<Longrightarrow> ca_find api [] t = None"
  by (simp add: api_find)

text \<open>The verdict of a condition: what the roll-up and the events read of it.\<close>

type_synonym verdict = "string \<times> string \<times> string"

definition verdict_of :: "Condition \<Rightarrow> verdict" where
  "verdict_of c = (cd_Status c, cd_Reason c, cd_Message c)"

definition verdict_at :: "conditions_api \<Rightarrow> Condition list \<Rightarrow> string \<Rightarrow> verdict option" where
  "verdict_at api cs t = map_option verdict_of (findCondition api cs t)"

lemma timeless_verdict: "map_option timeless x = map_option timeless y \<Longrightarrow> map_option verdict_of x = map_option verdict_of y"
  by (cases x; cases y) (auto simp: timeless_def verdict_of_def dest!: arg_cong [where f = verdict_of])

lemma verdict_set:
  assumes "conditions_api_ok api"
  shows "verdict_at api (ca_set api cs c) t = (if t = cd_Type c then Some (verdict_of c) else verdict_at api cs t)"
  using timeless_verdict [of "ca_find api (ca_set api cs c) t" "if t = cd_Type c then Some c else ca_find api cs t"]
    api_find_set [OF assms, of cs c t]
  by (auto simp: verdict_at_def findCondition_def split: if_splits)

lemma verdict_Nil [simp]: "conditions_api_ok api \<Longrightarrow> verdict_at api [] t = None"
  by (simp add: verdict_at_def findCondition_def)

lemma verdict_sw_set:
  "conditions_api_ok api \<Longrightarrow> verdict_at api (sw_conditions (sw_set api t st r m w)) t' =
     (if t' = t then Some (st, r, m) else verdict_at api (sw_conditions w) t')"
  by (simp add: sw_set_def verdict_set condition_def verdict_of_def)

lemma sw_generation_set [simp]: "sw_generation (sw_set api t st r m w) = sw_generation w"
  by (simp add: sw_set_def)

lemma distinct_types_set:
  "conditions_api_ok api \<Longrightarrow> distinct (map cd_Type cs) \<Longrightarrow> distinct (map cd_Type (ca_set api cs c))"
  by (simp add: api_types)

lemma distinct_types_sw_set:
  "conditions_api_ok api \<Longrightarrow> distinct (map cd_Type (sw_conditions w)) \<Longrightarrow>
     distinct (map cd_Type (sw_conditions (sw_set api t st r m w)))"
  by (simp add: sw_set_def distinct_types_set)

lemma verdict_foldl:
  assumes ok: "conditions_api_ok api" and "distinct (map cd_Type cs)"
  shows "verdict_at api (foldl (ca_set api) existing cs) t =
    (case verdict_at api cs t of Some v \<Rightarrow> Some v | None \<Rightarrow> verdict_at api existing t)"
  using assms(2)
proof (induction cs arbitrary: existing)
  case (Cons c cs)
  have "verdict_at api (c # cs) t = (if t = cd_Type c then Some (verdict_of c) else verdict_at api cs t)"
    by (auto simp: verdict_at_def findCondition_def api_find [OF ok])
  moreover have "verdict_at api cs (cd_Type c) = None"
    using Cons.prems by (simp add: verdict_at_def findCondition_def api_find [OF ok] find_None_iff) (metis image_eqI)
  ultimately show ?case
    using Cons by (auto simp: verdict_set [OF ok] split: option.splits)
qed (simp add: ok)

lemma verdict_apply:
  "conditions_api_ok api \<Longrightarrow> distinct (map cd_Type (sw_conditions w)) \<Longrightarrow>
     verdict_at api (sw_apply api w existing) t =
       (case verdict_at api (sw_conditions w) t of Some v \<Rightarrow> Some v | None \<Rightarrow> verdict_at api existing t)"
  by (simp add: sw_apply_def verdict_foldl)

text \<open>The roll-up in terms of the verdicts decided.\<close>

fun rollup :: "(string \<Rightarrow> verdict option) \<Rightarrow> string list \<Rightarrow> verdict \<Rightarrow> verdict" where
  "rollup v [] dflt = dflt"
| "rollup v (t # ts) dflt =
     (case v t of
        None \<Rightarrow> rollup v ts dflt
      | Some (st, r, m) \<Rightarrow>
          if st = ConditionTrue then rollup v ts dflt
          else (if st = ConditionUnknown \<and> r = ProbeReasonUnreachable then ConditionFalse else st, r, m))"

lemma readyFor_rollup:
  "verdict_of (readyFor api w order tr tm) = rollup (verdict_at api (sw_conditions w)) order (ConditionTrue, tr, tm)"
  by (induction order) (auto simp: verdict_at_def verdict_of_def condition_def split: option.splits)

lemma readyFor_type [simp]: "cd_Type (readyFor api w order tr tm) = ConditionReady"
  by (induction order) (auto simp: condition_def split: option.splits)

lemma rollup_true_iff:
  "fst (rollup v order (ConditionTrue, tr, tm)) = ConditionTrue \<longleftrightarrow>
     (\<forall>t \<in> set order. \<forall>x. v t = Some x \<longrightarrow> fst x = ConditionTrue)"
  by (induction order) (auto simp: condition_statuses split: option.splits)


text \<open>A writer holds one condition of each type, and what it decided is what the stored status says.\<close>

definition writer_ok :: "statusWriter \<Rightarrow> bool" where
  "writer_ok status \<longleftrightarrow> distinct (map cd_Type (sw_conditions status))"

lemma writer_ok_new [simp]: "writer_ok (sw_new g)"
  by (simp add: writer_ok_def sw_new_def)

lemma writer_ok_set: "conditions_api_ok api \<Longrightarrow> writer_ok status \<Longrightarrow> writer_ok (sw_set api t st reason m status)"
  by (simp add: writer_ok_def distinct_types_sw_set)

lemma verdict_sw_new [simp]: "conditions_api_ok api \<Longrightarrow> verdict_at api (sw_conditions (sw_new g)) t = None"
  by (simp add: sw_new_def)

lemma updateStatus_stored: "updateStatus mutate attempts e = Inr stored \<Longrightarrow> \<exists>fresh. stored = mutate fresh"
  by (induction mutate attempts e rule: updateStatus.induct) auto

lemma applied_Ready:
  assumes "conditions_api_ok api" and "writer_ok status"
  shows "verdict_at api (sw_apply api (sw_set api ConditionReady (cd_Status rd) (cd_Reason rd) (cd_Message rd) status) existing) ConditionReady =
    Some (verdict_of rd)"
  using assms writer_ok_set [OF assms] by (simp add: verdict_apply writer_ok_def verdict_sw_set verdict_of_def)

text \<open>A stand-in for the conditions library, for concrete inputs.\<close>

definition setFirst :: "Condition list \<Rightarrow> Condition \<Rightarrow> Condition list" where
  "setFirst cs c = (if cd_Type c \<in> cd_Type ` set cs then map (\<lambda>d. if cd_Type d = cd_Type c then c else d) cs else cs @ [c])"

definition sampleApi :: conditions_api where
  "sampleApi = \<lparr>ca_find = (\<lambda>cs t. find (\<lambda>c. cd_Type c = t) cs), ca_set = setFirst\<rparr>"

lemma find_setFirst:
  "find (\<lambda>d. cd_Type d = t) (setFirst cs c) = (if t = cd_Type c then Some c else find (\<lambda>d. cd_Type d = t) cs)"
proof -
  have "find (\<lambda>d. cd_Type d = t) (map (\<lambda>d. if cd_Type d = cd_Type c then c else d) cs) =
      (if t = cd_Type c \<and> t \<in> cd_Type ` set cs then Some c else find (\<lambda>d. cd_Type d = t) cs)"
    by (induction cs) auto
  moreover have "find (\<lambda>d. cd_Type d = t) (cs @ [c]) =
      (if t = cd_Type c \<and> t \<notin> cd_Type ` set cs then Some c else find (\<lambda>d. cd_Type d = t) cs)"
    by (induction cs) auto
  ultimately show ?thesis by (auto simp: setFirst_def)
qed

lemma types_setFirst:
  "map cd_Type (setFirst cs c) = (if cd_Type c \<in> cd_Type ` set cs then map cd_Type cs else map cd_Type cs @ [cd_Type c])"
  by (auto simp: setFirst_def)

lemma sampleApi_ok: "conditions_api_ok sampleApi"
  by (simp add: conditions_api_ok_def sampleApi_def find_setFirst types_setFirst)

section \<open>The gauge counts the rules\<close>

text \<open>How many observed rules hold condition \<open>t\<close> at the label \<open>s\<close>: what every series must show.\<close>

definition holds_at :: "string \<Rightarrow> string \<Rightarrow> rule_conditions \<Rightarrow> bool" where
  "holds_at t s conds = (case gm_get conds t of None \<Rightarrow> False | Some st \<Rightarrow> statusLabel st = s)"

definition rules_at :: "string \<Rightarrow> string \<Rightarrow> RuleMetrics \<Rightarrow> nat" where
  "rules_at t s m = length (filter (\<lambda>(k, conds). holds_at t s conds) (rm_observed m))"

definition observed_types :: "RuleMetrics \<Rightarrow> string set" where
  "observed_types m = (\<Union>(k, conds) \<in> set (rm_observed m). fst ` set conds)"

definition gauge_ok :: "RuleMetrics \<Rightarrow> bool" where
  "gauge_ok m \<longleftrightarrow> gm_wf (rm_observed m) \<and> (\<forall>(k, conds) \<in> set (rm_observed m). gm_wf conds) \<and>
     distinct (rm_published m) \<and> observed_types m \<subseteq> set (rm_published m)"

definition gauge_exact :: "RuleMetrics \<Rightarrow> bool" where
  "gauge_exact m \<longleftrightarrow> (\<forall>t s. gm_get (rm_rules m) (t, s) =
     (if t \<in> set (rm_published m) \<and> s \<in> set conditionStatuses then Some (int (rules_at t s m)) else None))"

definition tally :: "status_counts \<Rightarrow> string \<Rightarrow> string \<Rightarrow> int" where
  "tally counts t s =
     (case gm_get counts t of None \<Rightarrow> 0 | Some byStatus \<Rightarrow> case gm_get byStatus s of None \<Rightarrow> 0 | Some n \<Rightarrow> n)"

lemma countCondition_known:
  assumes "gm_get counts t \<noteq> None"
  shows "\<exists>counts'. countCondition (t, st) (counts, m) = (counts', m) \<and>
    (\<forall>t'. (gm_get counts' t' = None) = (gm_get counts t' = None)) \<and> (gm_wf counts \<longrightarrow> gm_wf counts') \<and>
    (\<forall>t' s. tally counts' t' s = tally counts t' s + (if t' = t \<and> s = statusLabel st then 1 else 0))"
  using assms by (auto simp: countCondition_def Let_def tally_def split: option.splits)

lemma fold_countCondition:
  assumes "\<forall>(t, st) \<in> set xs. gm_get counts t \<noteq> None"
  shows "\<exists>counts'. fold countCondition xs (counts, m) = (counts', m) \<and>
    (\<forall>t'. (gm_get counts' t' = None) = (gm_get counts t' = None)) \<and> (gm_wf counts \<longrightarrow> gm_wf counts') \<and>
    (\<forall>t' s. tally counts' t' s = tally counts t' s + int (length (filter (\<lambda>(t, st). t = t' \<and> statusLabel st = s) xs)))"
  using assms
proof (induction xs arbitrary: counts)
  case (Cons x xs)
  obtain t st where x: "x = (t, st)" by (cases x)
  have known: "gm_get counts t \<noteq> None" using Cons.prems x by auto
  obtain c1 where c1: "countCondition (t, st) (counts, m) = (c1, m)"
    and dom1: "\<And>t'. (gm_get c1 t' = None) = (gm_get counts t' = None)" and wf1: "gm_wf counts \<Longrightarrow> gm_wf c1"
    and tally1: "\<And>t' s. tally c1 t' s = tally counts t' s + (if t' = t \<and> s = statusLabel st then 1 else 0)"
    using countCondition_known [OF known, of st m] by blast
  have "\<forall>(t, st) \<in> set xs. gm_get c1 t \<noteq> None" using Cons.prems dom1 by auto
  from Cons.IH [OF this] obtain c2 where c2: "fold countCondition xs (c1, m) = (c2, m)"
    and dom2: "\<And>t'. (gm_get c2 t' = None) = (gm_get c1 t' = None)" and wf2: "gm_wf c1 \<Longrightarrow> gm_wf c2"
    and tally2: "\<And>t' s. tally c2 t' s = tally c1 t' s + int (length (filter (\<lambda>(t, st). t = t' \<and> statusLabel st = s) xs))"
    by blast
  have "tally c2 t' s = tally counts t' s + int (length (filter (\<lambda>(t, st). t = t' \<and> statusLabel st = s) (x # xs)))" for t' s
    by (simp add: tally2 tally1 x)
  then show ?case using c1 c2 dom1 dom2 wf1 wf2 by (auto simp: x)
qed simp

lemma set_statuses_get:
  "gm_get (fold (\<lambda>status. gm_set (t, status) (f status)) ss m) (t', s) =
     (if t' = t \<and> s \<in> set ss then Some (f s) else gm_get m (t', s))"
  by (induction ss arbitrary: m) auto

lemma setSeries_get:
  "gm_get (rm_rules (setSeries (t, byStatus) m)) (t', s) =
     (if t' = t \<and> s \<in> set conditionStatuses then Some (case gm_get byStatus s of Some n \<Rightarrow> n | None \<Rightarrow> 0)
      else gm_get (rm_rules m) (t', s))"
  by (simp add: setSeries_def set_statuses_get)

lemma setSeries_keeps [simp]:
  "rm_observed (setSeries e m) = rm_observed m" "rm_published (setSeries e m) = rm_published m"
  by (simp_all add: setSeries_def)

lemma fold_setSeries_keeps [simp]:
  "rm_observed (fold setSeries es m) = rm_observed m" "rm_published (fold setSeries es m) = rm_published m"
  by (induction es arbitrary: m) auto

lemma fold_setSeries_get:
  "gm_wf counts \<Longrightarrow> gm_get (rm_rules (fold setSeries counts m)) (t, s) =
     (if gm_get counts t \<noteq> None \<and> s \<in> set conditionStatuses then Some (tally counts t s) else gm_get (rm_rules m) (t, s))"
proof (induction counts arbitrary: m)
  case (Cons e counts)
  obtain t0 by0 where e: "e = (t0, by0)" by (cases e)
  have "gm_get counts t0 = None" using Cons.prems by (auto simp: e gm_wf_def gm_get_def map_of_eq_None_iff)
  then show ?case
    using Cons by (auto simp: e gm_wf_def gm_get_Cons setSeries_get tally_def split: option.splits)
qed simp

lemma wf_holds_once:
  "gm_wf conds \<Longrightarrow> length (filter (\<lambda>(t', st). t' = t \<and> statusLabel st = s) conds) = (if holds_at t s conds then 1 else 0)"
proof (induction conds)
  case (Cons c conds)
  obtain t0 st0 where c: "c = (t0, st0)" by (cases c)
  have "gm_get conds t0 = None" using Cons.prems by (auto simp: c gm_wf_def gm_get_def map_of_eq_None_iff)
  then show ?case using Cons by (auto simp: c gm_wf_def gm_get_Cons holds_at_def)
qed (simp add: holds_at_def)

lemma length_holds:
  "\<forall>(k, conds) \<in> set obs. gm_wf conds \<Longrightarrow>
     length (filter (\<lambda>(t', st). t' = t \<and> statusLabel st = s) (concat (map snd obs))) =
     length (filter (\<lambda>(k, conds). holds_at t s conds) obs)"
proof (induction obs)
  case (Cons e obs)
  then have "gm_wf (snd e)" by (cases e) auto
  then show ?case using Cons by (cases e) (simp add: wf_holds_once)
qed simp

lemma gm_get_blank: "gm_get (map (\<lambda>t. (t, [])) ts) t = (if t \<in> set ts then Some [] else None)"
  by (rule gm_get_map)

lemma recount_exact:
  assumes ok: "gauge_ok m" and other: "\<And>t s. t \<notin> set (rm_published m) \<or> s \<notin> set conditionStatuses \<Longrightarrow> gm_get (rm_rules m) (t, s) = None"
  shows "gauge_ok (recount m)" "gauge_exact (recount m)" "rm_observed (recount m) = rm_observed m"
    "rm_published (recount m) = rm_published m"
proof -
  define counts0 :: status_counts where "counts0 = map (\<lambda>t. (t, [])) (rm_published m)"
  define xs where "xs = concat (map snd (rm_observed m))"
  have get0: "gm_get counts0 t = (if t \<in> set (rm_published m) then Some [] else None)" for t
    by (simp add: counts0_def gm_get_blank)
  have wf0: "gm_wf counts0" using ok by (simp add: counts0_def gm_wf_def gauge_ok_def comp_def)
  have "fst x \<in> observed_types m" if "x \<in> set xs" for x
  proof -
    obtain e where "e \<in> set (rm_observed m)" "x \<in> set (snd e)"
      using \<open>x \<in> set xs\<close> unfolding xs_def set_concat set_map by blast
    then have "fst x \<in> (case e of (k, conds) \<Rightarrow> fst ` set conds)" by (cases e) auto
    then show ?thesis unfolding observed_types_def using \<open>e \<in> set (rm_observed m)\<close> by blast
  qed
  then have "\<forall>(t, st) \<in> set xs. gm_get counts0 t \<noteq> None"
    using ok unfolding gauge_ok_def get0 by fastforce
  from fold_countCondition [OF this, of m] obtain counts where
    fold: "fold countCondition xs (counts0, m) = (counts, m)"
    and dom: "\<And>t'. (gm_get counts t' = None) = (gm_get counts0 t' = None)" and wf: "gm_wf counts"
    and tally: "\<And>t' s. tally counts t' s = tally counts0 t' s + int (length (filter (\<lambda>(t, st). t = t' \<and> statusLabel st = s) xs))"
    using wf0 by blast
  have eq: "recount m = fold setSeries counts m"
    using fold by (simp add: recount_def counts0_def xs_def)
  show keeps: "rm_observed (recount m) = rm_observed m" "rm_published (recount m) = rm_published m"
    by (simp_all add: eq)
  show "gauge_ok (recount m)" using ok by (simp add: gauge_ok_def observed_types_def keeps)
  have "tally counts t s = int (rules_at t s (recount m))" for t s
  proof -
    have "tally counts0 t s = 0" by (simp add: tally_def get0)
    then show ?thesis using ok by (simp add: tally rules_at_def keeps xs_def gauge_ok_def length_holds)
  qed
  then show "gauge_exact (recount m)"
    using other by (auto simp: gauge_exact_def keeps) (auto simp: eq fold_setSeries_get [OF wf] dom get0)
qed

lemma publishType_keeps [simp]: "rm_observed (publishType t m) = rm_observed m"
  by (simp add: publishType_def)

lemma publishType_published: "set (rm_published (publishType t m)) = insert t (set (rm_published m))"
  by (auto simp: publishType_def)

lemma publishType_distinct: "distinct (rm_published m) \<Longrightarrow> distinct (rm_published (publishType t m))"
  by (simp add: publishType_def)

text \<open>Every series present belongs to a published type and one of the three labels.\<close>

definition series_ok :: "RuleMetrics \<Rightarrow> bool" where
  "series_ok m \<longleftrightarrow> (\<forall>t s. t \<notin> set (rm_published m) \<or> s \<notin> set conditionStatuses \<longrightarrow> gm_get (rm_rules m) (t, s) = None)"

lemma publishType_series: "series_ok m \<Longrightarrow> series_ok (publishType t m)"
  by (auto simp: series_ok_def publishType_def set_statuses_get)

lemma fold_publishType:
  "rm_observed (fold publishType ts m) = rm_observed m"
  "set (rm_published (fold publishType ts m)) = set ts \<union> set (rm_published m)"
  "distinct (rm_published m) \<Longrightarrow> distinct (rm_published (fold publishType ts m))"
  "series_ok m \<Longrightarrow> series_ok (fold publishType ts m)"
  by (induction ts arbitrary: m) (auto simp: publishType_published publishType_distinct publishType_series)

definition metrics_ok :: "RuleMetrics \<Rightarrow> bool" where
  "metrics_ok m \<longleftrightarrow> gauge_ok m \<and> gauge_exact m"

lemma gauge_exact_series: "gauge_exact m \<Longrightarrow> series_ok m"
  by (auto simp: gauge_exact_def series_ok_def)

lemma recount_ok: "gauge_ok m \<Longrightarrow> series_ok m \<Longrightarrow> metrics_ok (recount m)"
  using recount_exact [of m] by (auto simp: metrics_ok_def series_ok_def)

lemma metrics_ok_New: "metrics_ok NewRuleMetrics"
  by (auto simp: metrics_ok_def gauge_ok_def gauge_exact_def NewRuleMetrics_def publishType_def observed_types_def
      rules_at_def set_statuses_get)

lemma current_wf: "gm_wf m \<Longrightarrow> gm_wf (fold (\<lambda>c. gm_set (cd_Type c) (cd_Status c)) conds m)"
  by (induction conds arbitrary: m) auto

lemma in_gm_set: "x \<in> set (gm_set k v m) \<Longrightarrow> x = (k, v) \<or> x \<in> set m"
  by (induction m) (auto simp: gm_set_def split: if_splits)

lemma in_gm_del: "x \<in> set (gm_del k m) \<Longrightarrow> x \<in> set m"
  by (auto simp: gm_del_def)

lemma current_types: "fst ` set (fold (\<lambda>c. gm_set (cd_Type c) (cd_Status c)) conds m) = fst ` set m \<union> cd_Type ` set conds"
  by (induction conds arbitrary: m) (auto simp: gm_set_def dom_update)

text \<open>The state \<open>Metrics_Observe\<close> and \<open>Metrics_Forget\<close> recount.\<close>

lemma Observe_recounts:
  assumes "metrics_ok m"
  obtains m2 where "Metrics_Observe ruleKey conds m = recount m2" "gauge_ok m2" "series_ok m2"
    "rm_observed m2 = gm_set ruleKey (fold (\<lambda>c. gm_set (cd_Type c) (cd_Status c)) conds []) (rm_observed m)"
    "set (rm_published m2) = cd_Type ` set conds \<union> set (rm_published m)"
proof -
  define current where "current = fold (\<lambda>c. gm_set (cd_Type c) (cd_Status c)) conds []"
  define m1 where "m1 = m\<lparr>rm_observed := gm_set ruleKey current (rm_observed m)\<rparr>"
  define m2 where "m2 = fold publishType (gm_keys current) m1"
  have g: "gauge_ok m" and x: "series_ok m" using assms by (auto simp: metrics_ok_def gauge_exact_series)
  have wf: "gm_wf current" by (simp add: current_def current_wf)
  have obs: "rm_observed m2 = gm_set ruleKey current (rm_observed m)" by (simp add: m2_def fold_publishType m1_def)
  have keys: "fst ` set current = cd_Type ` set conds" by (simp add: current_def current_types)
  have pub: "set (rm_published m2) = cd_Type ` set conds \<union> set (rm_published m)"
    by (simp add: m2_def fold_publishType m1_def gm_keys_def keys)
  have types: "observed_types m2 \<subseteq> cd_Type ` set conds \<union> observed_types m"
    unfolding observed_types_def obs using keys by (auto dest!: in_gm_set)
  have wfs: "\<forall>(k, conds) \<in> set (rm_observed m2). gm_wf conds"
    using g wf unfolding obs gauge_ok_def by (auto dest!: in_gm_set)
  have "distinct (rm_published m2)" using g by (simp add: gauge_ok_def m2_def m1_def fold_publishType)
  then have "gauge_ok m2"
    using g types wfs pub by (auto simp: gauge_ok_def obs)
  moreover have "series_ok m1" using x by (simp add: m1_def series_ok_def)
  then have "series_ok m2" by (simp add: m2_def fold_publishType)
  moreover have "Metrics_Observe ruleKey conds m = recount m2"
    by (simp add: Metrics_Observe_def Let_def current_def m1_def m2_def)
  ultimately show ?thesis using obs pub that unfolding current_def by blast
qed

lemma Forget_recounts:
  assumes "metrics_ok m"
  obtains "Metrics_Forget ruleKey m = m" "gm_get (rm_observed m) ruleKey = None"
  | m1 where "Metrics_Forget ruleKey m = recount m1" "gauge_ok m1" "series_ok m1"
    "rm_observed m1 = gm_del ruleKey (rm_observed m)" "rm_published m1 = rm_published m"
proof -
  define m1 where "m1 = m\<lparr>rm_observed := gm_del ruleKey (rm_observed m)\<rparr>"
  have g: "gauge_ok m" and x: "series_ok m" using assms by (auto simp: metrics_ok_def gauge_exact_series)
  have "observed_types m1 \<subseteq> observed_types m"
    unfolding observed_types_def m1_def by (auto dest!: in_gm_del)
  then have "gauge_ok m1" using g by (auto simp: gauge_ok_def m1_def dest!: in_gm_del)
  moreover have "series_ok m1" using x by (simp add: series_ok_def m1_def)
  moreover have "rm_observed m1 = gm_del ruleKey (rm_observed m)" "rm_published m1 = rm_published m"
    by (simp_all add: m1_def)
  ultimately show ?thesis using that by (cases "gm_get (rm_observed m) ruleKey") (auto simp: Metrics_Forget_def m1_def)
qed

lemma recount_keeps:
  "gauge_ok m \<Longrightarrow> series_ok m \<Longrightarrow> rm_observed (recount m) = rm_observed m \<and> rm_published (recount m) = rm_published m"
  using recount_exact [of m] by (auto simp: series_ok_def)

lemma metrics_ok_Observe: "metrics_ok m \<Longrightarrow> metrics_ok (Metrics_Observe ruleKey conds m)"
  by (metis Observe_recounts recount_ok)

lemma metrics_ok_Forget: "metrics_ok m \<Longrightarrow> metrics_ok (Metrics_Forget ruleKey m)"
  by (metis Forget_recounts recount_ok)

lemma Observe_keeps:
  assumes "metrics_ok m"
  shows "rm_observed (Metrics_Observe k conds m) = gm_set k (fold (\<lambda>c. gm_set (cd_Type c) (cd_Status c)) conds []) (rm_observed m)"
    and "set (rm_published (Metrics_Observe k conds m)) = cd_Type ` set conds \<union> set (rm_published m)"
  by (rule Observe_recounts [OF assms, of k conds]; simp add: recount_keeps)+

lemma Forget_keeps:
  assumes "metrics_ok m"
  shows "gm_get (rm_observed (Metrics_Forget k m)) k' = (if k' = k then None else gm_get (rm_observed m) k')"
    and "rm_published (Metrics_Forget k m) = rm_published m"
  by (rule Forget_recounts [OF assms, of k]; simp add: recount_keeps)+

text \<open>The gauge over any history of observations and withdrawals.\<close>

datatype gaugeCall = ObserveRule string "Condition list" | ForgetRule string

fun gaugeStep :: "gaugeCall \<Rightarrow> RuleMetrics \<Rightarrow> RuleMetrics" where
  "gaugeStep (ObserveRule k conds) m = Metrics_Observe k conds m"
| "gaugeStep (ForgetRule k) m = Metrics_Forget k m"

lemma metrics_ok_calls: "metrics_ok m \<Longrightarrow> metrics_ok (fold gaugeStep calls m)"
proof (induction calls arbitrary: m)
  case (Cons call calls)
  then show ?case by (cases call) (simp_all add: metrics_ok_Observe metrics_ok_Forget)
qed simp

text \<open>The conditions a history leaves each rule with: those of its last observation, unless it was withdrawn since.\<close>

fun lastObserved :: "string \<Rightarrow> gaugeCall list \<Rightarrow> rule_conditions option \<Rightarrow> rule_conditions option" where
  "lastObserved k [] acc = acc"
| "lastObserved k (ObserveRule k' conds # calls) acc =
     lastObserved k calls (if k' = k then Some (fold (\<lambda>c. gm_set (cd_Type c) (cd_Status c)) conds []) else acc)"
| "lastObserved k (ForgetRule k' # calls) acc = lastObserved k calls (if k' = k then None else acc)"

lemma observed_calls:
  "metrics_ok m \<Longrightarrow> gm_get (rm_observed (fold gaugeStep calls m)) k = lastObserved k calls (gm_get (rm_observed m) k)"
proof (induction calls arbitrary: m)
  case (Cons call calls)
  then show ?case by (cases call) (simp_all add: metrics_ok_Observe metrics_ok_Forget Observe_keeps Forget_keeps)
qed simp

definition reportedTypes :: "gaugeCall list \<Rightarrow> string set" where
  "reportedTypes calls = (\<Union>call \<in> set calls. case call of ObserveRule k conds \<Rightarrow> cd_Type ` set conds | ForgetRule k \<Rightarrow> {})"

lemma published_calls:
  "metrics_ok m \<Longrightarrow> set (rm_published (fold gaugeStep calls m)) = reportedTypes calls \<union> set (rm_published m)"
proof (induction calls arbitrary: m)
  case (Cons call calls)
  then show ?case
    by (cases call) (auto simp: metrics_ok_Observe metrics_ok_Forget Observe_keeps Forget_keeps reportedTypes_def)
qed (simp add: reportedTypes_def)

lemma rules_at_card:
  assumes "gauge_ok m"
  shows "rules_at t s m = card {k. \<exists>conds. gm_get (rm_observed m) k = Some conds \<and> holds_at t s conds}"
proof -
  have wf: "gm_wf (rm_observed m)" using assms by (simp add: gauge_ok_def)
  let ?xs = "filter (\<lambda>(k, conds). holds_at t s conds) (rm_observed m)"
  have "distinct (map fst ?xs)" using wf by (simp add: gm_wf_def distinct_map_filter)
  then have "card (fst ` set ?xs) = length ?xs" by (metis distinct_card length_map set_map)
  moreover have "fst ` set ?xs = {k. \<exists>conds. gm_get (rm_observed m) k = Some conds \<and> holds_at t s conds}"
    using wf by (force simp: gm_get_iff_set)
  ultimately show ?thesis by (simp add: rules_at_def)
qed

text \<open>C15: After any history of status writes and withdrawals, every series of the rules gauge shows exactly how many
  rules now hold that condition at that status, where a rule holds what its last status write left it
  and a withdrawn rule holds nothing. The series of Ready exist from the start, those of a condition from
  its first report on, and a series is at zero rather than missing when no rule is left at it.\<close>

theorem gauge_counts_rules:
  assumes "t = ConditionReady \<or> t \<in> reportedTypes calls" and "s \<in> set conditionStatuses"
  shows "gm_get (rm_rules (fold gaugeStep calls NewRuleMetrics)) (t, s) =
    Some (int (card {k. \<exists>conds. lastObserved k calls None = Some conds \<and> holds_at t s conds}))"
proof -
  let ?m = "fold gaugeStep calls NewRuleMetrics"
  have ok: "metrics_ok ?m" by (rule metrics_ok_calls [OF metrics_ok_New])
  have "gm_get (rm_observed ?m) k = lastObserved k calls None" for k
    using observed_calls [OF metrics_ok_New, of calls k] by (simp add: NewRuleMetrics_def)
  moreover have "t \<in> set (rm_published ?m)"
    using assms(1) by (auto simp: published_calls metrics_ok_New) (simp add: NewRuleMetrics_def publishType_def)
  ultimately show ?thesis
    using ok assms(2) rules_at_card [of ?m t s] by (simp add: metrics_ok_def gauge_exact_def)
qed

theorem gauge_counts_rules_witness:
  "gm_get (rm_rules (fold gaugeStep
      [ObserveRule ''a'' [condition ''Ready'' ''False'' ''SinkMissing'' ''m'' 1],
       ObserveRule ''b'' [condition ''Ready'' ''True'' ''Streaming'' ''m'' 1], ForgetRule ''a''] NewRuleMetrics)) (''Ready'', ''true'') =
    Some (int (card {k. \<exists>conds. lastObserved k
      [ObserveRule ''a'' [condition ''Ready'' ''False'' ''SinkMissing'' ''m'' 1],
       ObserveRule ''b'' [condition ''Ready'' ''True'' ''Streaming'' ''m'' 1], ForgetRule ''a''] None = Some conds \<and>
      holds_at ''Ready'' ''true'' conds}))"
  by (rule gauge_counts_rules) (simp_all add: ConditionReady_def conditionStatuses_def)

end
