(* ===== verification/RuleController.thy ===== *)
theory RuleController
  imports Conditions Resolver
begin

text \<open>
  The rule reconciler (\<open>internal/controller/streamrule_controller.go\<close>, with \<open>eventfilter.go\<close> and \<open>redaction.go\<close> of
  the same package): one pass reads a StreamRule or ClusterStreamRule, runs it through the gates (the
  sink, the sink's policy, the namespaces, the kinds, the access reviews), writes the watch targets that
  survive into the registry, and reports the verdict as conditions, a gauge and an event.

  The API server is a parameter, \<open>ruleWorld\<close>: its answers to the pass's reads, listings and access
  reviews, which do not change within a pass, the library's conversions of selectors, and how the
  library prints kinds and resources. An error is its text; a read also says whether the object was not found. The
  resolver's discovery answers and the clock are part of the world too. Logging is left out.
\<close>

section \<open>API types\<close>

record SinkReference =
  sr_Kind :: string
  sr_Name :: string

record LabelSelector =
  ls_MatchLabels :: "(string, string) gomap"
  ls_MatchExpressions :: "(string \<times> string \<times> string list) list"

record apiEventFilter =
  ef_Types :: "string list"
  ef_Reasons :: "string list"
  ef_ExcludeReasons :: "string list"
  ef_SourceComponents :: "string list"
  ef_SubjectKinds :: "string list"
  ef_SubjectNames :: "string list"

record WatchedResource =
  wr_Group :: string
  wr_Version :: string
  wr_Kind :: string
  wr_LabelSelector :: "LabelSelector option"
  wr_EventFilter :: "apiEventFilter option"

record RedactionRule =
  rr_FieldPath :: string
  rr_Annotation :: string

record GVKSelector =
  gs_Group :: string
  gs_Version :: string
  gs_Kinds :: "string list"

record SinkPolicy =
  sp_AllowedGVKs :: "GVKSelector list"
  sp_Redaction :: "RedactionRule list"

record StreamRuleSpec =
  srs_Sink :: SinkReference
  srs_Resources :: "WatchedResource list"
  srs_ExtraRedaction :: "RedactionRule list"

record StreamRuleStatus =
  st_Conditions :: "Condition list"
  st_ActiveWatches :: int
  st_ObservedGeneration :: int

record ruleObject =
  ro_Namespace :: string
  ro_Name :: string
  ro_Deleting :: bool
  ro_Generation :: int
  ro_Spec :: StreamRuleSpec
  ro_NamespaceSelector :: "LabelSelector option"
  ro_Status :: StreamRuleStatus

record ruleKind =
  rk_kind :: string
  rk_scope :: RuleScope

definition streamRuleKind :: ruleKind where
  "streamRuleKind = \<lparr>rk_kind = kindStreamRule, rk_scope = NamespacedRule\<rparr>"

definition clusterStreamRuleKind :: ruleKind where
  "clusterStreamRuleKind = \<lparr>rk_kind = kindClusterStreamRule, rk_scope = ClusterRule\<rparr>"

text \<open>A StreamRule has no namespace selector, whatever its object carries.\<close>

definition namespaceSelector :: "ruleKind \<Rightarrow> ruleObject \<Rightarrow> LabelSelector option" where
  "namespaceSelector k obj = (if rk_scope k = NamespacedRule then None else ro_NamespaceSelector obj)"

record resolvedSink =
  rsk_policy :: SinkPolicy
  rsk_conditions :: "Condition list"

record namespaceItem =
  ni_Name :: string
  ni_Deleting :: bool

record ruleWorld =
  rw_conditions :: conditions_api
  rw_getRule :: "apiError + ruleObject"
  rw_getSink :: "string \<Rightarrow> string \<Rightarrow> apiError + resolvedSink"
  rw_asSelector :: "LabelSelector \<Rightarrow> string + string"
  rw_listNamespaces :: "LabelSelector \<Rightarrow> string + namespaceItem list"
  rw_parse :: labels_env
  rw_parseError :: "string \<Rightarrow> string"
  rw_mapper :: "GroupVersionKind \<Rightarrow> mapperAnswer"
  rw_now :: go_time
  rw_review :: "GroupVersionResource \<Rightarrow> string \<Rightarrow> string \<Rightarrow> string + bool"
  rw_gvkText :: "GroupVersionKind \<Rightarrow> string"
  rw_gvrText :: "GroupVersionResource \<Rightarrow> string"
  rw_grText :: "GroupVersionResource \<Rightarrow> string"
  rw_attempts :: "StreamRuleStatus statusAttempt list"
  rw_recorder :: bool

section \<open>Reasons\<close>

definition ReasonSecretsDenied :: string where "ReasonSecretsDenied = ''SecretsDenied''"
definition ReasonNotInAllowList :: string where "ReasonNotInAllowList = ''NotInAllowList''"
definition ReasonAllResourcesPermitted :: string where "ReasonAllResourcesPermitted = ''AllResourcesPermitted''"
definition ReasonAllVerbsGranted :: string where "ReasonAllVerbsGranted = ''AllVerbsGranted''"
definition ReasonMissingPermissions :: string where "ReasonMissingPermissions = ''MissingPermissions''"
definition ReasonAccessReviewFailed :: string where "ReasonAccessReviewFailed = ''AccessReviewFailed''"
definition ReasonAllKindsResolved :: string where "ReasonAllKindsResolved = ''AllKindsResolved''"
definition ReasonInvalidSelector :: string where "ReasonInvalidSelector = ''InvalidSelector''"
definition ReasonNamespaceSelectorInvalid :: string where "ReasonNamespaceSelectorInvalid = ''NamespaceSelectorInvalid''"
definition ReasonNamespacesUnavailable :: string where "ReasonNamespacesUnavailable = ''NamespacesUnavailable''"
definition ReasonSinkMissing :: string where "ReasonSinkMissing = ''SinkMissing''"
definition ReasonSinkNotReady :: string where "ReasonSinkNotReady = ''SinkNotReady''"
definition ReasonLegacySinkRef :: string where "ReasonLegacySinkRef = ''LegacySinkRef''"
definition ReasonKindsUnresolved :: string where "ReasonKindsUnresolved = ''KindsUnresolved''"
definition ReasonNotEvaluated :: string where "ReasonNotEvaluated = ''NotEvaluated''"
definition ReasonStreaming :: string where "ReasonStreaming = ''Streaming''"
definition ReasonWriterOnlySink :: string where "ReasonWriterOnlySink = ''WriterOnlySink''"
definition ReasonHistoryReadable :: string where "ReasonHistoryReadable = ''HistoryReadable''"

definition legacySinkRefMessage :: string where
  "legacySinkRefMessage =
     ''This rule names no sink: spec.sink is empty, which is what a rule written '' @
     ''against v0.1.0's spec.sinkRef string field looks like once that field is pruned as unknown. '' @
     ''There is no conversion webhook and spec.sink is immutable, so it cannot be migrated in place: '' @
     ''delete this rule and recreate it with spec.sink: {kind: ClickHouseSink, name: <the old sinkRef>}.''"

text \<open>The dash and the ellipsis of the messages, as UTF-8 bytes.\<close>

definition em_dash :: string where "em_dash = [CHR 0xE2, CHR 0x80, CHR 0x94]"
definition ellipsis :: string where "ellipsis = [CHR 0xE2, CHR 0x80, CHR 0xA6]"

definition writerOnlySinkRuleMessage :: "string \<Rightarrow> string" where
  "writerOnlySinkRuleMessage sinkID =
     ''Sink '' @ sinkID @ '' cannot reconstruct history: an object this rule reports for the first time '' @
     ''is always a permanent Snapshot and never an Added, every object is re-snapshotted in full after '' @
     ''each operator restart, and a deletion that happens while the operator is down is never recorded. '' @
     ''This is a declared limit of that sink's backend (D12), not a fault of this rule '' @ em_dash @ '' see the sink's '' @
     ''own HistoryUnavailable condition.''"

definition historyReadableRuleMessage :: "string \<Rightarrow> string" where
  "historyReadableRuleMessage sinkID =
     ''Sink '' @ sinkID @ '' can reconstruct history, so this rule's records carry accurate event types '' @
     ''and a deletion that happens while the operator is down is recovered on the next boot.''"

section \<open>The sink gate\<close>

definition clickHouseSinkKind :: string where "clickHouseSinkKind = DefaultSinkKind"

definition s3SinkKind :: string where "s3SinkKind = ''S3Sink''"

definition sinkIDFrom :: "SinkReference \<Rightarrow> sink_id" where
  "sinkIDFrom ref = SinkID (if sr_Kind ref = [] then DefaultSinkKind else sr_Kind ref) (sr_Name ref)"

text \<open>The kinds this build serves; reading a sink of one of them is the world's.\<close>

definition sinkFetchers :: "string list" where
  "sinkFetchers = [clickHouseSinkKind, s3SinkKind]"

text \<open>A verdict's empty reason says that the sink is present and Ready.\<close>

record sinkVerdict =
  sv_reason :: string
  sv_message :: string

definition no_verdict :: sinkVerdict where
  "no_verdict = \<lparr>sv_reason = [], sv_message = []\<rparr>"

definition resolveSink :: "ruleWorld \<Rightarrow> sink_id \<Rightarrow> string + (resolvedSink option \<times> sinkVerdict)" where
  "resolveSink w i =
     (if id_kind i \<notin> set sinkFetchers
      then Inr (None, \<lparr>sv_reason = ReasonSinkMissing,
             sv_message = ''Sink '' @ ID_String i @ '' does not exist: this operator serves no sink of kind '' @ go_quote (id_kind i)\<rparr>)
      else case rw_getSink w (id_kind i) (id_name i) of
        Inl err \<Rightarrow>
          if ae_NotFound err
          then Inr (None, \<lparr>sv_reason = ReasonSinkMissing, sv_message = ''Sink '' @ ID_String i @ '' does not exist''\<rparr>)
          else Inl (''get '' @ ID_String i @ '': '' @ ae_Text err)
      | Inr resolved \<Rightarrow>
          (case findCondition (rw_conditions w) (rsk_conditions resolved) ConditionReady of
             None \<Rightarrow> Inr (Some resolved, \<lparr>sv_reason = ReasonSinkNotReady,
               sv_message = ''Sink '' @ ID_String i @ '' has not reported its health yet''\<rparr>)
           | Some ready \<Rightarrow>
               if cd_Status ready \<noteq> ConditionTrue
               then Inr (Some resolved, \<lparr>sv_reason = ReasonSinkNotReady,
                      sv_message = ''Sink '' @ ID_String i @ '' is not ready ('' @ cd_Reason ready @ '': '' @ cd_Message ready @ '')''\<rparr>)
               else Inr (Some resolved, no_verdict)))"

definition ruleReadyOrder :: "string list" where
  "ruleReadyOrder = [ConditionPolicyAllowed, ConditionResourceResolved, ConditionRBACGranted]"

definition setUnevaluated :: "conditions_api \<Rightarrow> string \<Rightarrow> statusWriter \<Rightarrow> statusWriter" where
  "setUnevaluated api message status =
     sw_set api ConditionHistoryUnavailable ConditionUnknown ReasonNotEvaluated message
       (fold (\<lambda>condType. sw_set api condType ConditionUnknown ReasonNotEvaluated message) ruleReadyOrder status)"

definition setRuleHistoryUnavailable :: "conditions_api \<Rightarrow> sink_id \<Rightarrow> resolvedSink \<Rightarrow> statusWriter \<Rightarrow> statusWriter" where
  "setRuleHistoryUnavailable api i boundSink status =
     (let readable = sw_set api ConditionHistoryUnavailable ConditionFalse ReasonHistoryReadable
                       (historyReadableRuleMessage (ID_String i)) status in
      case findCondition api (rsk_conditions boundSink) ConditionHistoryUnavailable of
        None \<Rightarrow> readable
      | Some reported \<Rightarrow>
          if cd_Status reported = ConditionTrue
          then sw_set api ConditionHistoryUnavailable ConditionTrue ReasonWriterOnlySink (writerOnlySinkRuleMessage (ID_String i)) status
          else if cd_Status reported = ConditionUnknown
          then sw_set api ConditionHistoryUnavailable ConditionUnknown (cd_Reason reported)
                 (''Sink '' @ ID_String i @ '' has not reported whether it can reconstruct history: '' @ cd_Message reported) status
          else readable)"

section \<open>The policy gate\<close>

definition deniedGroup :: string where "deniedGroup = ''''"
definition deniedKind :: string where "deniedKind = ''Secret''"

definition gvkString :: "string \<Rightarrow> string \<Rightarrow> string \<Rightarrow> string" where
  "gvkString grp version kind = (if grp = [] then version @ ''/'' @ kind else grp @ ''/'' @ version @ ''/'' @ kind)"

definition policyAdmits :: "GVKSelector list \<Rightarrow> WatchedResource \<Rightarrow> bool" where
  "policyAdmits allowed res = list_ex (\<lambda>sel.
     gs_Group sel = wr_Group res \<and> gs_Version sel = wr_Version res \<and>
     (''*'' \<in> set (gs_Kinds sel) \<or> wr_Kind res \<in> set (gs_Kinds sel))) allowed"

record policyDenial =
  pd_reason :: string
  pd_message :: string

definition is_denied :: "WatchedResource \<Rightarrow> bool" where
  "is_denied res \<longleftrightarrow> wr_Group res = deniedGroup \<and> wr_Kind res = deniedKind"

definition checkPolicy :: "WatchedResource list \<Rightarrow> SinkPolicy \<Rightarrow> policyDenial option" where
  "checkPolicy resources policy =
     (case find is_denied resources of
        Some res \<Rightarrow> Some \<lparr>pd_reason = ReasonSecretsDenied,
          pd_message = gvkString (wr_Group res) (wr_Version res) (wr_Kind res) @
            '' is never watchable in v1alpha1: Secrets are denied in code and no sink policy can admit them''\<rparr>
      | None \<Rightarrow>
          if sp_AllowedGVKs policy = [] then None
          else case find (\<lambda>res. \<not> policyAdmits (sp_AllowedGVKs policy) res) resources of
            Some res \<Rightarrow> Some \<lparr>pd_reason = ReasonNotInAllowList,
              pd_message = gvkString (wr_Group res) (wr_Version res) (wr_Kind res) @
                '' is not in the sink's spec.policy.allowedGVKs''\<rparr>
          | None \<Rightarrow> None)"

section \<open>Redaction and event filters\<close>

definition redactionRulePath :: "RedactionRule \<Rightarrow> string" where
  "redactionRulePath rule = (if rr_Annotation rule \<noteq> [] then AnnotationRedactionPath (rr_Annotation rule) else rr_FieldPath rule)"

definition canonicalRedaction :: "RedactionRule list \<Rightarrow> RedactionRule list \<Rightarrow> string" where
  "canonicalRedaction sinkFloor ruleExtra =
     join_with [CHR 0x0A] (sorted_set (filter (\<lambda>path. path \<noteq> []) (map redactionRulePath (sinkFloor @ ruleExtra))))"

definition canonicalEventFilter :: "apiEventFilter option \<Rightarrow> string" where
  "canonicalEventFilter flt =
     (case flt of
        None \<Rightarrow> []
      | Some f \<Rightarrow> CanonicalEventFilter
          \<lparr>efs_Types = ef_Types f, efs_Reasons = ef_Reasons f, efs_ExcludeReasons = ef_ExcludeReasons f,
           efs_SourceComponents = ef_SourceComponents f, efs_SubjectKinds = ef_SubjectKinds f, efs_SubjectNames = ef_SubjectNames f\<rparr>)"

section \<open>The resolution gate\<close>

record resolvedResource =
  rre_gvk :: GroupVersionKind
  rre_gvr :: GroupVersionResource
  rre_selector :: string
  rre_eventFilter :: string
  rre_namespaces :: "string list"

definition resolveErrorText :: "ruleWorld \<Rightarrow> resolveError \<Rightarrow> string" where
  "resolveErrorText w err =
     (case err of
        ErrKindNotFound gvk text \<Rightarrow> ''kind '' @ rw_gvkText w gvk @ '' is not installed in this cluster: '' @ text
      | DiscoveryFailed gvk text \<Rightarrow> ''resolve '' @ rw_gvkText w gvk @ '': '' @ text
      | ErrClusterScopedKind gvk gvr \<Rightarrow>
          ''kind '' @ rw_gvkText w gvk @ '' resolves to cluster-scoped resource '' @ go_quote (gvr_Resource gvr) @
          '': a namespaced StreamRule may only watch namespaced resources, use a ClusterStreamRule instead'')"

definition namespacesFor :: "bool \<Rightarrow> string list \<Rightarrow> string list" where
  "namespacesFor namespaced expanded = (if \<not> namespaced then [''''] else expanded)"

definition resourceGVK :: "WatchedResource \<Rightarrow> GroupVersionKind" where
  "resourceGVK res = \<lparr>gvk_Group = wr_Group res, gvk_Version = wr_Version res, gvk_Kind = wr_Kind res\<rparr>"

definition selectorText :: "ruleWorld \<Rightarrow> LabelSelector \<Rightarrow> string option" where
  "selectorText w ls = (case rw_asSelector w ls of Inl err \<Rightarrow> None | Inr text \<Rightarrow> Some text)"

definition selectorErrorText :: "ruleWorld \<Rightarrow> LabelSelector option \<Rightarrow> string" where
  "selectorErrorText w ls =
     ''canonicalize label selector: '' @
     (case ls of None \<Rightarrow> [] | Some l \<Rightarrow> (case rw_asSelector w l of Inl err \<Rightarrow> err | Inr text \<Rightarrow> []))"

text \<open>One resource: the failure's text, or what it resolved to; and the resolver, whose retry gate the attempt moves.\<close>

definition resolveResource ::
    "ruleWorld \<Rightarrow> RuleScope \<Rightarrow> string list \<Rightarrow> WatchedResource \<Rightarrow> Resolver \<Rightarrow> (string + resolvedResource) \<times> Resolver" where
  "resolveResource w scope namespaces res r =
     (let gvk = resourceGVK res in
      case ResolveForScope (rw_mapper w gvk) (rw_now w) gvk scope r of
        (Inl err, asked, r) \<Rightarrow> (Inl (rw_gvkText w gvk @ '': '' @ resolveErrorText w err), r)
      | (Inr (gvr, namespaced), asked, r) \<Rightarrow>
          (case CanonicalSelector (selectorText w) (wr_LabelSelector res) of
             None \<Rightarrow> (Inl (rw_gvkText w gvk @ '': '' @ selectorErrorText w (wr_LabelSelector res)), r)
           | Some selector \<Rightarrow>
               (Inr \<lparr>rre_gvk = gvk, rre_gvr = gvr, rre_selector = selector,
                     rre_eventFilter = canonicalEventFilter (wr_EventFilter res),
                     rre_namespaces = namespacesFor namespaced namespaces\<rparr>, r)))"

fun resolveResources ::
    "ruleWorld \<Rightarrow> RuleScope \<Rightarrow> string list \<Rightarrow> WatchedResource list \<Rightarrow> Resolver \<Rightarrow> resolvedResource list \<times> string list \<times> Resolver" where
  "resolveResources w scope namespaces [] r = ([], [], r)"
| "resolveResources w scope namespaces (res # resources) r =
     (case resolveResource w scope namespaces res r of
        (Inl failure, r) \<Rightarrow>
          (case resolveResources w scope namespaces resources r of (resolved, failures, r) \<Rightarrow> (resolved, failure # failures, r))
      | (Inr one, r) \<Rightarrow>
          (case resolveResources w scope namespaces resources r of (resolved, failures, r) \<Rightarrow> (one # resolved, failures, r)))"

text \<open>The two ways the namespaces of a rule are unknown: its selector is invalid, or the listing failed.\<close>

datatype namespacesError = InvalidNamespaceSelector string | NamespaceListFailed string

fun namespacesErrorText :: "namespacesError \<Rightarrow> string" where
  "namespacesErrorText (InvalidNamespaceSelector err) = ReasonNamespaceSelectorInvalid @ '': '' @ err"
| "namespacesErrorText (NamespaceListFailed err) = err"

definition targetNamespaces :: "ruleWorld \<Rightarrow> ruleKind \<Rightarrow> ruleObject \<Rightarrow> namespacesError + string list" where
  "targetNamespaces w k obj =
     (if rk_scope k = NamespacedRule then Inr [ro_Namespace obj]
      else case namespaceSelector k obj of
        None \<Rightarrow> Inr ['''']
      | Some selector \<Rightarrow>
          (case rw_asSelector w selector of
             Inl err \<Rightarrow> Inl (InvalidNamespaceSelector err)
           | Inr text \<Rightarrow>
               (case rw_listNamespaces w selector of
                  Inl err \<Rightarrow> Inl (NamespaceListFailed (''list namespaces matching '' @ go_quote text @ '': '' @ err))
                | Inr items \<Rightarrow> Inr (sort (map ni_Name (filter (\<lambda>item. \<not> ni_Deleting item) items))))))"

section \<open>The access gate\<close>

definition accessVerbs :: "string list" where
  "accessVerbs = [''get'', ''list'', ''watch'']"

definition review :: "ruleWorld \<Rightarrow> GroupVersionResource \<Rightarrow> string \<Rightarrow> string \<Rightarrow> string + bool" where
  "review w gvr namespace verb =
     (case rw_review w gvr namespace verb of
        Inl err \<Rightarrow> Inl (''review access to '' @ rw_grText w gvr @ '' (verb '' @ go_quote verb @ '', namespace '' @ go_quote namespace @ ''): '' @ err)
      | Inr allowed \<Rightarrow> Inr allowed)"

fun missingVerbs :: "ruleWorld \<Rightarrow> GroupVersionResource \<Rightarrow> string \<Rightarrow> string list \<Rightarrow> string + string list" where
  "missingVerbs w gvr namespace [] = Inr []"
| "missingVerbs w gvr namespace (verb # verbs) =
     (case review w gvr '''' verb of
        Inl err \<Rightarrow> Inl err
      | Inr allowed \<Rightarrow>
          (case (if \<not> allowed \<and> namespace \<noteq> [] then review w gvr namespace verb else Inr allowed) of
             Inl err \<Rightarrow> Inl err
           | Inr allowed \<Rightarrow>
               (case missingVerbs w gvr namespace verbs of
                  Inl err \<Rightarrow> Inl err
                | Inr missing \<Rightarrow> Inr (if allowed then missing else verb # missing))))"

definition reviewTarget :: "ruleWorld \<Rightarrow> GroupVersionResource \<Rightarrow> string \<Rightarrow> string + string" where
  "reviewTarget w gvr namespace =
     (case missingVerbs w gvr namespace accessVerbs of
        Inl err \<Rightarrow> Inl err
      | Inr missing \<Rightarrow>
          if missing = [] then Inr []
          else Inr (rw_grText w gvr @ '': missing '' @ join_with '','' missing @ '' '' @
                 (if namespace \<noteq> [] then ''in namespace '' @ go_quote namespace else ''at cluster scope'')))"

record reviewState =
  rv_targets :: "WatchTarget list"
  rv_denials :: "string list"
  rv_seen :: "(string, string) gomap"

definition review_start :: reviewState where
  "review_start = \<lparr>rv_targets = [], rv_denials = [], rv_seen = []\<rparr>"

definition reviewCacheKey :: "ruleWorld \<Rightarrow> GroupVersionResource \<Rightarrow> string \<Rightarrow> string" where
  "reviewCacheKey w gvr namespace = rw_gvrText w gvr @ ''|'' @ namespace"

definition targetFor :: "sink_id \<Rightarrow> string \<Rightarrow> resolvedResource \<Rightarrow> string \<Rightarrow> WatchTarget" where
  "targetFor sinkID redaction res namespace =
     \<lparr>wtg_Sink = sinkID, wtg_GVK = rre_gvk res, wtg_Namespace = namespace, wtg_Selector = rre_selector res,
      wtg_Redaction = redaction, wtg_EventFilter = rre_eventFilter res\<rparr>"

definition settleTarget :: "sink_id \<Rightarrow> string \<Rightarrow> resolvedResource \<Rightarrow> string \<Rightarrow> string \<Rightarrow> reviewState \<Rightarrow> reviewState" where
  "settleTarget sinkID redaction res namespace denial s =
     (if denial \<noteq> []
      then if denial \<in> set (rv_denials s) then s else s\<lparr>rv_denials := rv_denials s @ [denial]\<rparr>
      else s\<lparr>rv_targets := rv_targets s @ [targetFor sinkID redaction res namespace]\<rparr>)"

fun reviewNamespaces ::
    "ruleWorld \<Rightarrow> sink_id \<Rightarrow> string \<Rightarrow> resolvedResource \<Rightarrow> string list \<Rightarrow> reviewState \<Rightarrow> string + reviewState" where
  "reviewNamespaces w sinkID redaction res [] s = Inr s"
| "reviewNamespaces w sinkID redaction res (namespace # namespaces) s =
     (let cacheKey = reviewCacheKey w (rre_gvr res) namespace in
      case gm_get (rv_seen s) cacheKey of
        Some denial \<Rightarrow> reviewNamespaces w sinkID redaction res namespaces (settleTarget sinkID redaction res namespace denial s)
      | None \<Rightarrow>
          (case reviewTarget w (rre_gvr res) namespace of
             Inl err \<Rightarrow> Inl err
           | Inr denial \<Rightarrow>
               reviewNamespaces w sinkID redaction res namespaces
                 (settleTarget sinkID redaction res namespace denial (s\<lparr>rv_seen := gm_set cacheKey denial (rv_seen s)\<rparr>))))"

fun reviewLoop :: "ruleWorld \<Rightarrow> sink_id \<Rightarrow> string \<Rightarrow> resolvedResource list \<Rightarrow> reviewState \<Rightarrow> string + reviewState" where
  "reviewLoop w sinkID redaction [] s = Inr s"
| "reviewLoop w sinkID redaction (res # resolved) s =
     (case reviewNamespaces w sinkID redaction res (rre_namespaces res) s of
        Inl err \<Rightarrow> Inl err
      | Inr s \<Rightarrow> reviewLoop w sinkID redaction resolved s)"

definition reviewTargets ::
    "ruleWorld \<Rightarrow> sink_id \<Rightarrow> resolvedResource list \<Rightarrow> string \<Rightarrow> string + (WatchTarget list \<times> string list)" where
  "reviewTargets w sinkID resolved redaction =
     (case reviewLoop w sinkID redaction resolved review_start of
        Inl err \<Rightarrow> Inl err
      | Inr s \<Rightarrow> Inr (rv_targets s, rv_denials s))"

section \<open>Conditions of a gate\<close>

definition maxConditionMessage :: nat where "maxConditionMessage = 4096"

definition truncateMessage :: "string \<Rightarrow> string" where
  "truncateMessage message =
     (if length message \<le> maxConditionMessage then message
      else let suffix = '' ['' @ ellipsis @ ''truncated]'' in take (maxConditionMessage - length suffix) message @ suffix)"

definition setGateCondition ::
    "conditions_api \<Rightarrow> string \<Rightarrow> string list \<Rightarrow> string \<Rightarrow> string \<Rightarrow> string \<Rightarrow> statusWriter \<Rightarrow> statusWriter" where
  "setGateCondition api condType failures trueReason trueMessage falseReason status =
     (if failures = [] then sw_set api condType ConditionTrue trueReason trueMessage status
      else sw_set api condType ConditionFalse falseReason (truncateMessage (join_with ''; '' failures)) status)"

definition readyCondition :: "conditions_api \<Rightarrow> statusWriter \<Rightarrow> sinkVerdict \<Rightarrow> Condition" where
  "readyCondition api status verdict =
     (if sv_reason verdict \<noteq> []
      then condition ConditionReady ConditionFalse (sv_reason verdict) (sv_message verdict) (sw_generation status)
      else readyFor api status ruleReadyOrder ReasonStreaming
        ''Every resource this rule names is admitted, resolved, permitted and installed in the watch plan'')"

section \<open>The pass\<close>

record planOutcome =
  po_targets :: "WatchTarget list"
  po_verdict :: sinkVerdict
  po_install :: bool
  po_err :: "string option"

definition withdraw_all :: "sinkVerdict \<Rightarrow> planOutcome" where
  "withdraw_all verdict = \<lparr>po_targets = [], po_verdict = verdict, po_install = True, po_err = None\<rparr>"

definition keep_and_retry :: "sinkVerdict \<Rightarrow> string \<Rightarrow> planOutcome" where
  "keep_and_retry verdict err = \<lparr>po_targets = [], po_verdict = verdict, po_install = False, po_err = Some err\<rparr>"

text \<open>The gates after the policy: namespaces, kinds, access.\<close>

definition planTargets ::
    "ruleWorld \<Rightarrow> ruleKind \<Rightarrow> ruleObject \<Rightarrow> sink_id \<Rightarrow> resolvedSink \<Rightarrow> sinkVerdict \<Rightarrow> statusWriter \<Rightarrow> Resolver
     \<Rightarrow> planOutcome \<times> statusWriter \<times> Resolver" where
  "planTargets w k obj sinkID boundSink verdict status r =
     (let api = rw_conditions w; spec = ro_Spec obj in
      case targetNamespaces w k obj of
        Inl (InvalidNamespaceSelector err) \<Rightarrow>
          (withdraw_all verdict,
           sw_set api ConditionResourceResolved ConditionFalse ReasonNamespaceSelectorInvalid
             (namespacesErrorText (InvalidNamespaceSelector err)) status, r)
      | Inl (NamespaceListFailed err) \<Rightarrow>
          (keep_and_retry verdict err,
           sw_set api ConditionResourceResolved ConditionUnknown ReasonNamespacesUnavailable err status, r)
      | Inr namespaces \<Rightarrow>
          (let (resolved, failures, r) = resolveResources w (rk_scope k) namespaces (srs_Resources spec) r;
               status = setGateCondition api ConditionResourceResolved failures ReasonAllKindsResolved
                          ''Every kind this rule names resolved to a watchable resource'' ReasonKindsUnresolved status;
               redaction = canonicalRedaction (sp_Redaction (rsk_policy boundSink)) (srs_ExtraRedaction spec)
           in case reviewTargets w sinkID resolved redaction of
                Inl err \<Rightarrow>
                  (keep_and_retry verdict err,
                   sw_set api ConditionRBACGranted ConditionUnknown ReasonAccessReviewFailed err status, r)
              | Inr (targets, denials) \<Rightarrow>
                  (\<lparr>po_targets = targets, po_verdict = verdict, po_install = True, po_err = None\<rparr>,
                   setGateCondition api ConditionRBACGranted denials ReasonAllVerbsGranted
                     ''The operator may get, list and watch every resource this rule names'' ReasonMissingPermissions status, r)))"

definition plan :: "ruleWorld \<Rightarrow> ruleKind \<Rightarrow> ruleObject \<Rightarrow> statusWriter \<Rightarrow> Resolver \<Rightarrow> planOutcome \<times> statusWriter \<times> Resolver" where
  "plan w k obj status r =
     (let api = rw_conditions w; spec = ro_Spec obj in
      if srs_Sink spec = \<lparr>sr_Kind = [], sr_Name = []\<rparr>
      then (withdraw_all \<lparr>sv_reason = ReasonLegacySinkRef, sv_message = legacySinkRefMessage\<rparr>,
            setUnevaluated api legacySinkRefMessage status, r)
      else let sinkID = sinkIDFrom (srs_Sink spec) in
        case resolveSink w sinkID of
          Inl err \<Rightarrow> (keep_and_retry no_verdict err, status, r)
        | Inr (None, verdict) \<Rightarrow> (withdraw_all verdict, setUnevaluated api (sv_message verdict) status, r)
        | Inr (Some boundSink, verdict) \<Rightarrow>
            (let status = setRuleHistoryUnavailable api sinkID boundSink status in
             case checkPolicy (srs_Resources spec) (rsk_policy boundSink) of
               Some denied \<Rightarrow>
                 (withdraw_all verdict,
                  sw_set api ConditionRBACGranted ConditionUnknown ReasonNotEvaluated
                    ''Access is not reviewed while the sink's policy denies this rule''
                    (sw_set api ConditionResourceResolved ConditionUnknown ReasonNotEvaluated
                      ''Resources are not resolved while the sink's policy denies this rule''
                      (sw_set api ConditionPolicyAllowed ConditionFalse (pd_reason denied) (pd_message denied) status)), r)
             | None \<Rightarrow>
                 planTargets w k obj sinkID boundSink verdict
                   (sw_set api ConditionPolicyAllowed ConditionTrue ReasonAllResourcesPermitted
                     (''Every resource this rule names is admitted by sink '' @ ID_String sinkID) status) r))"

record ruleState =
  rst_Registry :: Registry
  rst_Resolver :: Resolver
  rst_Metrics :: RuleMetrics
  rst_Stored :: "(string, StreamRuleStatus) gomap"
  rst_Events :: "kubeEvent list"

datatype reconcileResult = Done | RequeueAfterResync | Retry string

definition to_int32 :: "int \<Rightarrow> int" where
  "to_int32 n = (n + 2 ^ 31) mod 2 ^ 32 - 2 ^ 31"

definition upsertErrorText :: "ruleWorld \<Rightarrow> string \<Rightarrow> WatchTarget list \<Rightarrow> string" where
  "upsertErrorText w ruleKey targets =
     (case find (\<lambda>t. canonicalizeSelectorString (rw_parse w) (wtg_Selector t) = None) targets of
        None \<Rightarrow> []
      | Some t \<Rightarrow> ''rule '' @ go_quote ruleKey @ '': target '' @ rw_gvkText w (wtg_GVK t) @ '' in namespace '' @ go_quote (wtg_Namespace t) @
          '': parse label selector '' @ go_quote (wtg_Selector t) @ '': '' @ rw_parseError w (wtg_Selector t))"

definition installTargets :: "ruleWorld \<Rightarrow> string \<Rightarrow> planOutcome \<Rightarrow> statusWriter \<Rightarrow> Registry \<Rightarrow> statusWriter \<times> Registry" where
  "installTargets w ruleKey outcome status reg =
     (if po_install outcome
      then case Upsert (rw_parse w) ruleKey (po_targets outcome) reg of
             (True, reg) \<Rightarrow> (status, reg)
           | (False, reg) \<Rightarrow>
               (sw_set (rw_conditions w) ConditionResourceResolved ConditionFalse ReasonInvalidSelector
                  (upsertErrorText w ruleKey (po_targets outcome)) status, reg)
      else (status, reg))"

definition withdraw :: "string \<Rightarrow> ruleState \<Rightarrow> ruleState" where
  "withdraw ruleKey s = s\<lparr>rst_Registry := Remove ruleKey (rst_Registry s), rst_Metrics := Metrics_Forget ruleKey (rst_Metrics s)\<rparr>"

definition writeStatus ::
    "ruleWorld \<Rightarrow> string \<Rightarrow> ruleObject \<Rightarrow> Condition \<Rightarrow> statusWriter \<Rightarrow> planOutcome \<Rightarrow> string \<Rightarrow> ruleState \<Rightarrow> reconcileResult \<times> ruleState" where
  "writeStatus w ruleKey obj ready status outcome errPrefix s =
     (let api = rw_conditions w;
          previousReady = findCondition api (st_Conditions (ro_Status obj)) ConditionReady;
          activeWatches = to_int32 (int (TargetCountForRule ruleKey (rst_Registry s)));
          mutate = (\<lambda>fresh. fresh\<lparr>st_Conditions := sw_apply api status (st_Conditions fresh),
                      st_ActiveWatches := activeWatches, st_ObservedGeneration := sw_generation status\<rparr>)
      in case updateStatus mutate (rw_attempts w) [] of
           Inl err \<Rightarrow> (Retry (errPrefix @ '' status: '' @ err), s)
         | Inr stored \<Rightarrow>
             (case po_err outcome of Some err \<Rightarrow> Retry err | None \<Rightarrow> RequeueAfterResync,
              s\<lparr>rst_Stored := gm_set ruleKey stored (rst_Stored s),
                rst_Metrics := Metrics_Observe ruleKey (st_Conditions stored) (rst_Metrics s),
                rst_Events := rst_Events s @ emitReadyEvent (rw_recorder w) previousReady ready\<rparr>))"

definition Reconcile :: "ruleWorld \<Rightarrow> ruleKind \<Rightarrow> NamespacedName \<Rightarrow> ruleState \<Rightarrow> reconcileResult \<times> ruleState" where
  "Reconcile w k req s =
     (let ruleKey = RuleKey (rk_kind k) (nn_Namespace req) (nn_Name req) in
      case rw_getRule w of
        Inl err \<Rightarrow>
          if ae_NotFound err then (Done, withdraw ruleKey s)
          else (Retry (''get '' @ rk_kind k @ '' '' @ nn_Namespace req @ ''/'' @ nn_Name req @ '': '' @ ae_Text err), s)
      | Inr obj \<Rightarrow>
          if ro_Deleting obj then (Done, withdraw ruleKey s)
          else
            (let (outcome, status, r) = plan w k obj (sw_new (ro_Generation obj)) (rst_Resolver s);
                 (status, reg) = installTargets w ruleKey outcome status (rst_Registry s);
                 ready = readyCondition (rw_conditions w) status (po_verdict outcome);
                 status = sw_set (rw_conditions w) ConditionReady (cd_Status ready) (cd_Reason ready) (cd_Message ready) status
             in writeStatus w ruleKey obj ready status outcome
                  (''update '' @ rk_kind k @ '' '' @ nn_Namespace req @ ''/'' @ nn_Name req)
                  (s\<lparr>rst_Resolver := r, rst_Registry := reg\<rparr>)))"

section \<open>What wakes a rule\<close>

text \<open>A listing that failed enqueues nothing. The first is a listing by the index on the sink's name.\<close>

definition requestsFor :: "ruleObject list \<Rightarrow> NamespacedName list" where
  "requestsFor objs = map (\<lambda>obj. \<lparr>nn_Namespace = ro_Namespace obj, nn_Name = ro_Name obj\<rparr>) objs"

definition rulesForSink :: "string + ruleObject list \<Rightarrow> NamespacedName list" where
  "rulesForSink listing = (case listing of Inl err \<Rightarrow> [] | Inr items \<Rightarrow> requestsFor items)"

definition rulesForNamespace :: "string + ruleObject list \<Rightarrow> NamespacedName list" where
  "rulesForNamespace listing =
     (case listing of Inl err \<Rightarrow> [] | Inr rules \<Rightarrow> requestsFor (filter (\<lambda>rule. ro_NamespaceSelector rule \<noteq> None) rules))"

definition parkChannelCapacity :: nat where "parkChannelCapacity = 128"

text \<open>The parker's channels by rule kind, each the wake-ups waiting in it.\<close>

type_synonym Parker = "(string, NamespacedName list) gomap"

definition sinkGoneKey :: "string \<Rightarrow> Parker \<Rightarrow> Parker" where
  "sinkGoneKey key p =
     (case parseRuleKey key of
        None \<Rightarrow> p
      | Some (kind, ref) \<Rightarrow>
          (case gm_get p kind of
             None \<Rightarrow> p
           | Some events \<Rightarrow> if length events < parkChannelCapacity then gm_set kind (events @ [ref]) p else p))"

definition SinkGone :: "string list \<Rightarrow> Parker \<Rightarrow> Parker" where
  "SinkGone ruleKeys p = fold sinkGoneKey ruleKeys p"

section \<open>Access reviews\<close>

text \<open>A verb is granted on a target cluster-wide, or in the target's own namespace.\<close>

definition granted :: "ruleWorld \<Rightarrow> GroupVersionResource \<Rightarrow> string \<Rightarrow> string \<Rightarrow> bool" where
  "granted w gvr namespace verb \<longleftrightarrow>
     rw_review w gvr '''' verb = Inr True \<or> (namespace \<noteq> [] \<and> rw_review w gvr namespace verb = Inr True)"

lemma missingVerbs_none: "missingVerbs w gvr namespace verbs = Inr [] \<Longrightarrow> \<forall>verb \<in> set verbs. granted w gvr namespace verb"
  by (induction verbs) (auto simp: review_def granted_def split: sum.splits if_splits)

lemma reviewTarget_granted:
  "reviewTarget w gvr namespace = Inr [] \<Longrightarrow> \<forall>verb \<in> set accessVerbs. granted w gvr namespace verb"
  by (rule missingVerbs_none) (auto simp: reviewTarget_def split: sum.splits if_splits)

text \<open>The reviews without the cache: every pair of a resource and a namespace is asked about in turn.\<close>

fun reviewEach ::
    "ruleWorld \<Rightarrow> sink_id \<Rightarrow> string \<Rightarrow> (resolvedResource \<times> string) list \<Rightarrow> WatchTarget list \<Rightarrow> string list
     \<Rightarrow> string + (WatchTarget list \<times> string list)" where
  "reviewEach w sinkID redaction [] targets denials = Inr (targets, denials)"
| "reviewEach w sinkID redaction ((res, namespace) # pairs) targets denials =
     (case reviewTarget w (rre_gvr res) namespace of
        Inl err \<Rightarrow> Inl err
      | Inr denial \<Rightarrow>
          if denial \<noteq> [] then reviewEach w sinkID redaction pairs targets (if denial \<in> set denials then denials else denials @ [denial])
          else reviewEach w sinkID redaction pairs (targets @ [targetFor sinkID redaction res namespace]) denials)"

definition expansions :: "resolvedResource list \<Rightarrow> (resolvedResource \<times> string) list" where
  "expansions resolved = concat (map (\<lambda>res. map (Pair res) (rre_namespaces res)) resolved)"

text \<open>The cache's keys tell the resources apart: distinct pairs have distinct keys.\<close>

definition keys_apart :: "ruleWorld \<Rightarrow> GroupVersionResource set \<Rightarrow> bool" where
  "keys_apart w G \<longleftrightarrow> (\<forall>g \<in> G. \<forall>g' \<in> G. \<forall>n n'. reviewCacheKey w g n = reviewCacheKey w g' n' \<longrightarrow> g = g' \<and> n = n')"

definition seen_ok :: "ruleWorld \<Rightarrow> GroupVersionResource set \<Rightarrow> (string, string) gomap \<Rightarrow> bool" where
  "seen_ok w G seen \<longleftrightarrow> (\<forall>key denial. gm_get seen key = Some denial \<longrightarrow>
     (\<exists>g \<in> G. \<exists>n. key = reviewCacheKey w g n \<and> reviewTarget w g n = Inr denial))"

lemma seen_ok_lookup:
  "keys_apart w G \<Longrightarrow> seen_ok w G seen \<Longrightarrow> g \<in> G \<Longrightarrow> gm_get seen (reviewCacheKey w g n) = Some denial \<Longrightarrow>
     reviewTarget w g n = Inr denial"
  unfolding seen_ok_def keys_apart_def by metis

lemma settle_seen [simp]: "rv_seen (settleTarget sinkID redaction res namespace denial s) = rv_seen s"
  by (simp add: settleTarget_def)

lemma seen_ok_set:
  "seen_ok w G seen \<Longrightarrow> g \<in> G \<Longrightarrow> reviewTarget w g n = Inr denial \<Longrightarrow> seen_ok w G (gm_set (reviewCacheKey w g n) denial seen)"
  by (auto simp: seen_ok_def split: if_splits)

definition review_result :: "string + reviewState \<Rightarrow> string + (WatchTarget list \<times> string list)" where
  "review_result x = (case x of Inl err \<Rightarrow> Inl err | Inr s \<Rightarrow> Inr (rv_targets s, rv_denials s))"

lemma reviewNamespaces_each:
  assumes "keys_apart w G" and "rre_gvr res \<in> G" and "seen_ok w G (rv_seen s)"
  shows "(case reviewNamespaces w sinkID redaction res namespaces s of
       Inl err \<Rightarrow> reviewEach w sinkID redaction (map (Pair res) namespaces @ rest) (rv_targets s) (rv_denials s) = Inl err
     | Inr s' \<Rightarrow> seen_ok w G (rv_seen s') \<and>
         reviewEach w sinkID redaction (map (Pair res) namespaces @ rest) (rv_targets s) (rv_denials s) =
         reviewEach w sinkID redaction rest (rv_targets s') (rv_denials s'))"
  using assms(3)
proof (induction namespaces arbitrary: s)
  case (Cons n ns)
  let ?key = "reviewCacheKey w (rre_gvr res) n"
  show ?case
  proof (cases "reviewTarget w (rre_gvr res) n")
    case (Inl err)
    then have "gm_get (rv_seen s) ?key = None"
      using seen_ok_lookup [OF assms(1) Cons.prems assms(2), of n] by (cases "gm_get (rv_seen s) ?key") auto
    then show ?thesis using Inl by (simp add: Let_def)
  next
    case (Inr denial)
    define s1 where "s1 = (if gm_get (rv_seen s) ?key = None then s\<lparr>rv_seen := gm_set ?key denial (rv_seen s)\<rparr> else s)"
    define s2 where "s2 = settleTarget sinkID redaction res n denial s1"
    have hit: "d = denial" if "gm_get (rv_seen s) ?key = Some d" for d
      using seen_ok_lookup [OF assms(1) Cons.prems assms(2) that] Inr by simp
    have step: "reviewNamespaces w sinkID redaction res (n # ns) s = reviewNamespaces w sinkID redaction res ns s2"
      using hit Inr by (cases "gm_get (rv_seen s) ?key") (auto simp: Let_def s1_def s2_def)
    have "seen_ok w G (rv_seen s2)"
      using Cons.prems seen_ok_set [OF Cons.prems assms(2) Inr] by (simp add: s2_def s1_def)
    from Cons.IH [OF this] show ?thesis
      unfolding step using Inr by (simp add: s2_def s1_def settleTarget_def split: if_splits sum.splits)
  qed
qed simp

lemma reviewLoop_each:
  assumes "keys_apart w G" and "rre_gvr ` set resolved \<subseteq> G" and "seen_ok w G (rv_seen s)"
  shows "review_result (reviewLoop w sinkID redaction resolved s) =
    reviewEach w sinkID redaction (expansions resolved) (rv_targets s) (rv_denials s)"
  using assms(2,3)
proof (induction resolved arbitrary: s)
  case (Cons res resolved)
  have g: "rre_gvr res \<in> G" and rest: "rre_gvr ` set resolved \<subseteq> G" using Cons.prems(1) by auto
  note each = reviewNamespaces_each [OF assms(1) g Cons.prems(2), of sinkID redaction "rre_namespaces res" "expansions resolved"]
  show ?case
  proof (cases "reviewNamespaces w sinkID redaction res (rre_namespaces res) s")
    case (Inl err)
    then show ?thesis using each by (simp add: expansions_def review_result_def)
  next
    case (Inr s')
    then show ?thesis using each Cons.IH [OF rest, of s'] by (simp add: expansions_def)
  qed
qed (simp add: expansions_def review_result_def)

lemma reviewTargets_each:
  assumes "keys_apart w (rre_gvr ` set resolved)"
  shows "reviewTargets w sinkID resolved redaction = reviewEach w sinkID redaction (expansions resolved) [] []"
  using reviewLoop_each [OF assms subset_refl, of review_start sinkID redaction]
  by (simp add: reviewTargets_def review_result_def review_start_def seen_ok_def)

definition verdict_on :: "ruleWorld \<Rightarrow> resolvedResource \<times> string \<Rightarrow> string + string" where
  "verdict_on w p = reviewTarget w (rre_gvr (fst p)) (snd p)"

lemma reviewEach_Cons:
  "reviewEach w sinkID redaction (p # pairs) targets denials =
     (case verdict_on w p of
        Inl err \<Rightarrow> Inl err
      | Inr denial \<Rightarrow>
          if denial \<noteq> [] then reviewEach w sinkID redaction pairs targets (if denial \<in> set denials then denials else denials @ [denial])
          else reviewEach w sinkID redaction pairs (targets @ [targetFor sinkID redaction (fst p) (snd p)]) denials)"
  by (cases p) (auto simp: verdict_on_def split: sum.split)

lemma reviewEach_targets:
  "reviewEach w sinkID redaction pairs targets denials = Inr (targets', denials') \<Longrightarrow>
     set targets' = set targets \<union> (\<lambda>p. targetFor sinkID redaction (fst p) (snd p)) ` {p \<in> set pairs. verdict_on w p = Inr []}"
proof (induction pairs arbitrary: targets denials)
  case (Cons p pairs)
  then obtain d where d: "verdict_on w p = Inr d" by (cases "verdict_on w p") (auto simp: reviewEach_Cons)
  have "{q \<in> set (p # pairs). verdict_on w q = Inr []} =
      (if d = [] then insert p {q \<in> set pairs. verdict_on w q = Inr []} else {q \<in> set pairs. verdict_on w q = Inr []})"
    using d by auto
  then show ?case
    using Cons.IH Cons.prems d by (simp add: reviewEach_Cons split: if_splits)
qed simp

lemma reviewEach_denials:
  "reviewEach w sinkID redaction pairs targets denials = Inr (targets', denials') \<Longrightarrow>
     (denials' = [] \<longleftrightarrow> denials = [] \<and> (\<forall>p \<in> set pairs. verdict_on w p = Inr []))"
proof (induction pairs arbitrary: targets denials)
  case (Cons p pairs)
  then obtain d where d: "verdict_on w p = Inr d" by (cases "verdict_on w p") (auto simp: reviewEach_Cons)
  then show ?case using Cons.IH Cons.prems d by (cases "d = []") (auto simp: reviewEach_Cons split: if_splits)
qed simp

lemma reviewEach_fails:
  "p \<in> set pairs \<Longrightarrow> verdict_on w p = Inl err \<Longrightarrow> \<exists>e. reviewEach w sinkID redaction pairs targets denials = Inl e"
proof (induction pairs arbitrary: targets denials)
  case (Cons q pairs)
  then show ?case by (cases "verdict_on w q") (auto simp: reviewEach_Cons)
qed simp

text \<open>Whatever the cache answers, a target is of the kind of a resolved resource.\<close>

definition targets_from :: "resolvedResource set \<Rightarrow> reviewState \<Rightarrow> bool" where
  "targets_from R s \<longleftrightarrow> (\<forall>t \<in> set (rv_targets s). \<exists>one \<in> R. wtg_GVK t = rre_gvk one)"

lemma settle_from: "targets_from R s \<Longrightarrow> res \<in> R \<Longrightarrow> targets_from R (settleTarget sinkID redaction res n denial s)"
  by (auto simp: targets_from_def settleTarget_def targetFor_def)

lemma reviewNamespaces_from:
  "reviewNamespaces w sinkID redaction res namespaces s = Inr s' \<Longrightarrow> targets_from R s \<Longrightarrow> res \<in> R \<Longrightarrow> targets_from R s'"
proof (induction namespaces arbitrary: s)
  case (Cons n ns)
  obtain s1 denial where "targets_from R s1" and "reviewNamespaces w sinkID redaction res ns (settleTarget sinkID redaction res n denial s1) = Inr s'"
  proof (cases "gm_get (rv_seen s) (reviewCacheKey w (rre_gvr res) n)")
    case None
    then obtain d where d: "reviewTarget w (rre_gvr res) n = Inr d"
      using Cons.prems(1) by (cases "reviewTarget w (rre_gvr res) n") (auto simp: Let_def)
    show ?thesis
      using None Cons.prems d by (intro that [of "s\<lparr>rv_seen := gm_set (reviewCacheKey w (rre_gvr res) n) d (rv_seen s)\<rparr>" d])
        (simp_all add: Let_def targets_from_def)
  next
    case (Some d)
    then show ?thesis using Cons.prems by (intro that [of s d]) (simp_all add: Let_def)
  qed
  then show ?case using Cons.IH settle_from Cons.prems(3) by blast
qed simp

lemma reviewLoop_from:
  "reviewLoop w sinkID redaction resolved s = Inr s' \<Longrightarrow> targets_from R s \<Longrightarrow> set resolved \<subseteq> R \<Longrightarrow> targets_from R s'"
proof (induction resolved arbitrary: s)
  case (Cons res resolved)
  then obtain s1 where s1: "reviewNamespaces w sinkID redaction res (rre_namespaces res) s = Inr s1"
    by (cases "reviewNamespaces w sinkID redaction res (rre_namespaces res) s") auto
  have "targets_from R s1" using reviewNamespaces_from [OF s1 Cons.prems(2)] Cons.prems(3) by simp
  then show ?case using Cons s1 by simp
qed simp

lemma reviewTargets_gvk:
  assumes "reviewTargets w sinkID resolved redaction = Inr (targets, denials)" and "t \<in> set targets"
  shows "\<exists>one \<in> set resolved. wtg_GVK t = rre_gvk one"
proof -
  obtain s where s: "reviewLoop w sinkID redaction resolved review_start = Inr s" "targets = rv_targets s"
    using assms(1) by (auto simp: reviewTargets_def split: sum.splits)
  have "targets_from (set resolved) s"
    using reviewLoop_from [OF s(1)] by (simp add: targets_from_def review_start_def)
  then show ?thesis using assms(2) s(2) by (auto simp: targets_from_def)
qed

section \<open>Resolution\<close>

definition resolvesTo :: "ruleWorld \<Rightarrow> RuleScope \<Rightarrow> string list \<Rightarrow> WatchedResource \<Rightarrow> resolvedResource \<Rightarrow> bool" where
  "resolvesTo w scope namespaces res one \<longleftrightarrow>
     (\<exists>gvr namespaced selector. rw_mapper w (resourceGVK res) = Inr (gvr, namespaced) \<and>
        (scope = NamespacedRule \<longrightarrow> namespaced) \<and> CanonicalSelector (selectorText w) (wr_LabelSelector res) = Some selector \<and>
        one = \<lparr>rre_gvk = resourceGVK res, rre_gvr = gvr, rre_selector = selector,
               rre_eventFilter = canonicalEventFilter (wr_EventFilter res), rre_namespaces = namespacesFor namespaced namespaces\<rparr>)"

lemma ResolveForScope_Inr:
  "ResolveForScope answer now gvk scope r = (Inr (gvr, namespaced), asked, r') \<Longrightarrow>
     answer = Inr (gvr, namespaced) \<and> (scope = NamespacedRule \<longrightarrow> namespaced)"
  by (auto simp: ResolveForScope_def Resolve_def checkScope_def Let_def split: option.splits sum.splits if_splits)

lemma resolveResource_Inr:
  assumes "resolveResource w scope namespaces res r = (Inr one, r')"
  shows "resolvesTo w scope namespaces res one"
proof -
  obtain answer asked r1 where res: "ResolveForScope (rw_mapper w (resourceGVK res)) (rw_now w) (resourceGVK res) scope r = (answer, asked, r1)"
    by (metis prod.exhaust)
  then obtain gvr namespaced where answer: "answer = Inr (gvr, namespaced)"
    using assms by (cases answer) (auto simp: resolveResource_def)
  note inr = ResolveForScope_Inr [OF res [unfolded answer]]
  obtain selector where sel: "CanonicalSelector (selectorText w) (wr_LabelSelector res) = Some selector"
    using assms by (cases "CanonicalSelector (selectorText w) (wr_LabelSelector res)") (auto simp: resolveResource_def res answer)
  have "one = \<lparr>rre_gvk = resourceGVK res, rre_gvr = gvr, rre_selector = selector,
      rre_eventFilter = canonicalEventFilter (wr_EventFilter res), rre_namespaces = namespacesFor namespaced namespaces\<rparr>"
    using assms by (simp add: resolveResource_def res answer sel Let_def)
  then show ?thesis unfolding resolvesTo_def using inr sel by blast
qed

lemma resolveResources_spec:
  "resolveResources w scope namespaces resources r = (resolved, failures, r') \<Longrightarrow>
     (\<forall>one \<in> set resolved. \<exists>res \<in> set resources. resolvesTo w scope namespaces res one) \<and>
     (failures = [] \<longrightarrow> list_all2 (resolvesTo w scope namespaces) resources resolved)"
proof (induction resources arbitrary: resolved failures r r')
  case (Cons res resources)
  obtain x r1 where one: "resolveResource w scope namespaces res r = (x, r1)" by (metis prod.exhaust)
  obtain rest fs r2 where rest: "resolveResources w scope namespaces resources r1 = (rest, fs, r2)" by (metis prod_cases3)
  show ?case
  proof (cases x)
    case (Inl failure)
    then show ?thesis using Cons.IH [OF rest] Cons.prems one rest by auto
  next
    case (Inr y)
    then show ?thesis
      using Cons.IH [OF rest] Cons.prems one rest resolveResource_Inr [OF one [unfolded Inr]] by auto
  qed
qed simp

section \<open>What survives the gates\<close>

lemma checkPolicy_None:
  "checkPolicy resources policy = None \<Longrightarrow> res \<in> set resources \<Longrightarrow>
     \<not> is_denied res \<and> (sp_AllowedGVKs policy = [] \<or> policyAdmits (sp_AllowedGVKs policy) res)"
  by (auto simp: checkPolicy_def find_None_iff split: option.splits if_splits)

lemma resolveSink_bound:
  "resolveSink w i = Inr (Some boundSink, verdict) \<Longrightarrow>
     id_kind i \<in> set sinkFetchers \<and> rw_getSink w (id_kind i) (id_name i) = Inr boundSink"
  by (auto simp: resolveSink_def split: if_splits sum.splits option.splits)

lemma resolveSink_healthy:
  "resolveSink w i = Inr (Some boundSink, verdict) \<Longrightarrow> sv_reason verdict = [] \<Longrightarrow>
     map_option fst (verdict_at (rw_conditions w) (rsk_conditions boundSink) ConditionReady) = Some ConditionTrue"
  by (auto simp: resolveSink_def verdict_at_def verdict_of_def ReasonSinkNotReady_def split: if_splits sum.splits option.splits)

text \<open>The pass that gets as far as the reviews, with everything it found on the way.\<close>

definition reviewed ::
    "ruleWorld \<Rightarrow> ruleKind \<Rightarrow> ruleObject \<Rightarrow> Resolver \<Rightarrow> resolvedSink \<Rightarrow> string list \<Rightarrow> resolvedResource list \<Rightarrow> string list
     \<Rightarrow> WatchTarget list \<Rightarrow> string list \<Rightarrow> bool" where
  "reviewed w k obj r boundSink namespaces resolved failures targets denials \<longleftrightarrow>
     srs_Sink (ro_Spec obj) \<noteq> \<lparr>sr_Kind = [], sr_Name = []\<rparr> \<and>
     (\<exists>verdict. resolveSink w (sinkIDFrom (srs_Sink (ro_Spec obj))) = Inr (Some boundSink, verdict)) \<and>
     checkPolicy (srs_Resources (ro_Spec obj)) (rsk_policy boundSink) = None \<and>
     targetNamespaces w k obj = Inr namespaces \<and>
     (\<exists>r'. resolveResources w (rk_scope k) namespaces (srs_Resources (ro_Spec obj)) r = (resolved, failures, r')) \<and>
     reviewTargets w (sinkIDFrom (srs_Sink (ro_Spec obj))) resolved
       (canonicalRedaction (sp_Redaction (rsk_policy boundSink)) (srs_ExtraRedaction (ro_Spec obj))) = Inr (targets, denials)"

lemma plan_nonempty:
  assumes "plan w k obj status r = (outcome, status', r')" and "po_targets outcome \<noteq> []"
  shows "\<exists>boundSink namespaces resolved failures denials.
    reviewed w k obj r boundSink namespaces resolved failures (po_targets outcome) denials"
proof -
  define i where "i = sinkIDFrom (srs_Sink (ro_Spec obj))"
  have sinkless: "srs_Sink (ro_Spec obj) \<noteq> \<lparr>sr_Kind = [], sr_Name = []\<rparr>"
    using assms by (auto simp: plan_def withdraw_all_def)
  obtain boundSink verdict where sink: "resolveSink w i = Inr (Some boundSink, verdict)"
    using assms sinkless unfolding i_def
    by (auto simp: plan_def withdraw_all_def keep_and_retry_def Let_def split: sum.splits option.splits)
  have policy: "checkPolicy (srs_Resources (ro_Spec obj)) (rsk_policy boundSink) = None"
    using assms sinkless sink unfolding i_def
    by (auto simp: plan_def withdraw_all_def Let_def split: option.splits)
  obtain status1 where targets: "planTargets w k obj i boundSink verdict status1 r = (outcome, status', r')"
    using assms(1) sinkless sink policy unfolding i_def by (auto simp: plan_def Let_def)
  obtain namespaces where namespaces: "targetNamespaces w k obj = Inr namespaces"
    using targets assms(2)
    by (auto simp: planTargets_def withdraw_all_def keep_and_retry_def Let_def split: sum.splits namespacesError.splits)
  obtain resolved failures r1 where resolved:
    "resolveResources w (rk_scope k) namespaces (srs_Resources (ro_Spec obj)) r = (resolved, failures, r1)" by (metis prod_cases3)
  obtain targets denials where review: "reviewTargets w i resolved
       (canonicalRedaction (sp_Redaction (rsk_policy boundSink)) (srs_ExtraRedaction (ro_Spec obj))) = Inr (targets, denials)"
    using targets assms(2) namespaces resolved
    by (auto simp: planTargets_def keep_and_retry_def Let_def split: sum.splits)
  have "po_targets outcome = targets"
    using targets namespaces resolved review by (auto simp: planTargets_def Let_def)
  then show ?thesis
    unfolding reviewed_def using sinkless sink policy namespaces resolved review unfolding i_def by blast
qed

text \<open>A target that cleared every gate.\<close>

definition cleared :: "ruleWorld \<Rightarrow> ruleKind \<Rightarrow> ruleObject \<Rightarrow> WatchTarget \<Rightarrow> bool" where
  "cleared w k obj t \<longleftrightarrow>
     (\<exists>boundSink res gvr namespaced.
        rw_getSink w (id_kind (wtg_Sink t)) (id_name (wtg_Sink t)) = Inr boundSink \<and>
        wtg_Sink t = sinkIDFrom (srs_Sink (ro_Spec obj)) \<and>
        res \<in> set (srs_Resources (ro_Spec obj)) \<and> wtg_GVK t = resourceGVK res \<and>
        \<not> is_denied res \<and>
        (sp_AllowedGVKs (rsk_policy boundSink) = [] \<or> policyAdmits (sp_AllowedGVKs (rsk_policy boundSink)) res) \<and>
        rw_mapper w (resourceGVK res) = Inr (gvr, namespaced) \<and>
        (rk_scope k = NamespacedRule \<longrightarrow> namespaced \<and> wtg_Namespace t = ro_Namespace obj) \<and>
        (\<forall>verb \<in> set accessVerbs. granted w gvr (wtg_Namespace t) verb) \<and>
        wtg_Redaction t = canonicalRedaction (sp_Redaction (rsk_policy boundSink)) (srs_ExtraRedaction (ro_Spec obj)))"

definition served :: "ruleWorld \<Rightarrow> GroupVersionResource set" where
  "served w = {gvr. \<exists>gvk namespaced. rw_mapper w gvk = Inr (gvr, namespaced)}"

lemma keys_apart_mono: "keys_apart w G \<Longrightarrow> G' \<subseteq> G \<Longrightarrow> keys_apart w G'"
  unfolding keys_apart_def by blast

lemma resolvesTo_served: "resolvesTo w scope namespaces res one \<Longrightarrow> rre_gvr one \<in> served w"
  unfolding resolvesTo_def served_def by force

lemma reviewed_cleared:
  assumes "keys_apart w (served w)" and "reviewed w k obj r boundSink namespaces resolved failures targets denials" and "t \<in> set targets"
  shows "cleared w k obj t"
proof -
  let ?i = "sinkIDFrom (srs_Sink (ro_Spec obj))"
  let ?red = "canonicalRedaction (sp_Redaction (rsk_policy boundSink)) (srs_ExtraRedaction (ro_Spec obj))"
  obtain verdict r' where sink: "resolveSink w ?i = Inr (Some boundSink, verdict)"
    and policy: "checkPolicy (srs_Resources (ro_Spec obj)) (rsk_policy boundSink) = None"
    and ns: "targetNamespaces w k obj = Inr namespaces"
    and res: "resolveResources w (rk_scope k) namespaces (srs_Resources (ro_Spec obj)) r = (resolved, failures, r')"
    and rev: "reviewTargets w ?i resolved ?red = Inr (targets, denials)"
    using assms(2) unfolding reviewed_def by blast
  note spec = resolveResources_spec [OF res]
  have "rre_gvr ` set resolved \<subseteq> served w" using spec resolvesTo_served by blast
  then have each: "reviewEach w ?i ?red (expansions resolved) [] [] = Inr (targets, denials)"
    using reviewTargets_each [OF keys_apart_mono [OF assms(1)]] rev by simp
  obtain one n where pair: "(one, n) \<in> set (expansions resolved)" and ok: "verdict_on w (one, n) = Inr []"
    and t: "t = targetFor ?i ?red one n"
    using reviewEach_targets [OF each] assms(3) by auto
  have one: "one \<in> set resolved" and n: "n \<in> set (rre_namespaces one)" using pair by (auto simp: expansions_def)
  obtain w' where w': "w' \<in> set (srs_Resources (ro_Spec obj))" and to: "resolvesTo w (rk_scope k) namespaces w' one" using spec one by blast
  obtain gvr namespaced where gvr: "rw_mapper w (resourceGVK w') = Inr (gvr, namespaced)" "rre_gvr one = gvr" "rre_gvk one = resourceGVK w'"
    and nsd: "rk_scope k = NamespacedRule \<longrightarrow> namespaced" and nss: "rre_namespaces one = namespacesFor namespaced namespaces"
    using to unfolding resolvesTo_def by auto
  have "\<forall>verb \<in> set accessVerbs. granted w gvr n verb"
    using ok gvr(2) by (intro reviewTarget_granted) (simp add: verdict_on_def)
  moreover have "rk_scope k = NamespacedRule \<longrightarrow> namespaced \<and> n = ro_Namespace obj"
    using nsd n [unfolded nss] ns by (auto simp: namespacesFor_def targetNamespaces_def)
  ultimately show ?thesis
    unfolding cleared_def using resolveSink_bound [OF sink] checkPolicy_None [OF policy w'] w' gvr t
    by (intro exI [of _ boundSink] exI [of _ w'] exI [of _ gvr] exI [of _ namespaced]) (simp add: targetFor_def)
qed

section \<open>What a pass does to the registry\<close>

lemma writeStatus_registry [simp]:
  "rst_Registry (snd (writeStatus w ruleKey obj ready status outcome errPrefix s)) = rst_Registry s"
  by (simp add: writeStatus_def Let_def split: sum.split)

lemma installTargets_registry:
  "snd (installTargets w ruleKey outcome status reg) =
     (if po_install outcome then snd (Upsert (rw_parse w) ruleKey (po_targets outcome) reg) else reg)"
  by (simp add: installTargets_def split: prod.split bool.split)

definition rule_key :: "ruleKind \<Rightarrow> NamespacedName \<Rightarrow> string" where
  "rule_key k req = RuleKey (rk_kind k) (nn_Namespace req) (nn_Name req)"

definition planned :: "ruleWorld \<Rightarrow> ruleKind \<Rightarrow> ruleObject \<Rightarrow> ruleState \<Rightarrow> planOutcome" where
  "planned w k obj s = fst (plan w k obj (sw_new (ro_Generation obj)) (rst_Resolver s))"

definition gone :: "ruleWorld \<Rightarrow> bool" where
  "gone w = (case rw_getRule w of Inl err \<Rightarrow> ae_NotFound err | Inr obj \<Rightarrow> ro_Deleting obj)"

lemma Reconcile_registry:
  "rst_Registry (snd (Reconcile w k req s)) =
     (if gone w then Remove (rule_key k req) (rst_Registry s)
      else case rw_getRule w of
        Inl err \<Rightarrow> rst_Registry s
      | Inr obj \<Rightarrow>
          if po_install (planned w k obj s)
          then snd (Upsert (rw_parse w) (rule_key k req) (po_targets (planned w k obj s)) (rst_Registry s))
          else rst_Registry s)"
proof (cases "rw_getRule w")
  case (Inl err)
  then show ?thesis by (simp add: Reconcile_def gone_def withdraw_def rule_key_def Let_def)
next
  case (Inr obj)
  show ?thesis
  proof (cases "ro_Deleting obj")
    case True
    then show ?thesis using Inr by (simp add: Reconcile_def gone_def withdraw_def rule_key_def Let_def)
  next
    case False
    obtain outcome status r where plan: "plan w k obj (sw_new (ro_Generation obj)) (rst_Resolver s) = (outcome, status, r)"
      by (metis prod_cases3)
    obtain status' reg where inst: "installTargets w (rule_key k req) outcome status (rst_Registry s) = (status', reg)"
      by (metis prod.exhaust)
    have "rst_Registry (snd (Reconcile w k req s)) = reg"
      using Inr False plan inst by (simp add: Reconcile_def rule_key_def Let_def)
    then show ?thesis
      using installTargets_registry [of w "rule_key k req" outcome status "rst_Registry s"] Inr False inst
      by (simp add: gone_def planned_def plan)
  qed
qed

text \<open>The registry as reconciles leave it, whatever the rules and the API server's answers; the data plane takes the wake-ups.\<close>

inductive reconciled :: "labels_env \<Rightarrow> Registry \<Rightarrow> bool" for parse where
  start: "reconciled parse Registry_New"
| pass: "reconciled parse (rst_Registry s) \<Longrightarrow> rw_parse w = parse \<Longrightarrow> reconciled parse (rst_Registry (snd (Reconcile w k req s)))"
| wake: "reconciled parse r \<Longrightarrow> reconciled parse (takeChange r)"

lemma reconciled_registered: "reconciled parse r \<Longrightarrow> registered parse r"
proof (induction rule: reconciled.induct)
  case start
  then show ?case by (rule registered.intros)
next
  case (pass s w k req)
  then show ?case
    unfolding Reconcile_registry by (auto intro: registered.intros split: sum.split)
next
  case (wake r)
  then show ?case by (auto intro: registered.take)
qed

lemma currentSet_Upsert:
  "currentSet rk (snd (Upsert parse ruleKey targets r)) =
     (if rk = ruleKey \<and> desiredSet parse targets \<noteq> None then the (desiredSet parse targets) else currentSet rk r)"
proof (cases "desiredSet parse targets")
  case None
  then show ?thesis by (simp add: Upsert_def)
next
  case (Some ds)
  then show ?thesis by (auto simp: currentSet_def Upsert_rules [OF Some])
qed

lemma currentSet_Remove: "currentSet rk (Remove ruleKey r) = (if rk = ruleKey then [] else currentSet rk r)"
  by (auto simp: currentSet_def Remove_def notifyLocked_def split: option.splits)

text \<open>A pass leaves the other rules alone, and its own rule with what it had, nothing, or what it planned.\<close>

lemma Reconcile_current_cases:
  obtains (kept) "currentSet rk (rst_Registry (snd (Reconcile w k req s))) = currentSet rk (rst_Registry s)"
  | (withdrawn) "rk = rule_key k req" "currentSet rk (rst_Registry (snd (Reconcile w k req s))) = []"
  | (installed) obj where "rk = rule_key k req" "rw_getRule w = Inr obj" "\<not> gone w" "po_install (planned w k obj s)"
      "set (currentSet rk (rst_Registry (snd (Reconcile w k req s)))) = canonicalTarget (rw_parse w) ` set (po_targets (planned w k obj s))"
proof (cases "gone w")
  case True
  then show ?thesis using withdrawn kept by (cases "rk = rule_key k req") (auto simp: Reconcile_registry currentSet_Remove)
next
  case False
  show ?thesis
  proof (cases "rw_getRule w")
    case (Inl err)
    then show ?thesis using False kept by (simp add: Reconcile_registry)
  next
    case (Inr obj)
    show ?thesis
    proof (cases "rk = rule_key k req \<and> po_install (planned w k obj s) \<and> desiredSet (rw_parse w) (po_targets (planned w k obj s)) \<noteq> None")
      case True
      then obtain ds where ds: "desiredSet (rw_parse w) (po_targets (planned w k obj s)) = Some ds" by auto
      show ?thesis
        using True False Inr ds by (intro installed [of obj]) (simp_all add: Reconcile_registry currentSet_Upsert desiredSet_set [OF ds])
    next
      case no: False
      then show ?thesis using False Inr by (intro kept) (auto simp: Reconcile_registry currentSet_Upsert)
    qed
  qed
qed

section \<open>Targets and gates\<close>

lemma installed_cleared:
  assumes "keys_apart w (served w)"
  shows "currentSet (rule_key k req) (rst_Registry (snd (Reconcile w k req s))) = currentSet (rule_key k req) (rst_Registry s) \<or>
    (\<forall>t \<in> set (currentSet (rule_key k req) (rst_Registry (snd (Reconcile w k req s)))).
       \<exists>obj t'. rw_getRule w = Inr obj \<and> cleared w k obj t' \<and> t = canonicalTarget (rw_parse w) t')"
proof (cases rule: Reconcile_current_cases [of "rule_key k req" w k req s])
  case (installed obj)
  obtain status r where plan: "plan w k obj (sw_new (ro_Generation obj)) (rst_Resolver s) = (planned w k obj s, status, r)"
    by (metis planned_def prod.collapse)
  have "cleared w k obj t'" if "t' \<in> set (po_targets (planned w k obj s))" for t'
    using plan_nonempty [OF plan] that reviewed_cleared [OF assms] by (metis empty_iff list.set(1))
  then show ?thesis using installed(2,5) by auto
qed simp_all

lemma planned_not_denied:
  assumes "t \<in> set (po_targets (planned w k obj s))"
  shows "\<not> (gvk_Group (wtg_GVK t) = deniedGroup \<and> gvk_Kind (wtg_GVK t) = deniedKind)"
proof -
  obtain status r where plan: "plan w k obj (sw_new (ro_Generation obj)) (rst_Resolver s) = (planned w k obj s, status, r)"
    by (metis planned_def prod.collapse)
  have "po_targets (planned w k obj s) \<noteq> []" using assms by auto
  from plan_nonempty [OF plan this] obtain boundSink namespaces resolved failures denials where
    "reviewed w k obj (rst_Resolver s) boundSink namespaces resolved failures (po_targets (planned w k obj s)) denials" by blast
  then obtain i red r' where res: "resolveResources w (rk_scope k) namespaces (srs_Resources (ro_Spec obj)) (rst_Resolver s) = (resolved, failures, r')"
    and rev: "reviewTargets w i resolved red = Inr (po_targets (planned w k obj s), denials)"
    and policy: "checkPolicy (srs_Resources (ro_Spec obj)) (rsk_policy boundSink) = None"
    unfolding reviewed_def by blast
  obtain one where one: "one \<in> set resolved" "wtg_GVK t = rre_gvk one"
    using reviewTargets_gvk [OF rev assms] by blast
  obtain res' where res': "res' \<in> set (srs_Resources (ro_Spec obj))" "resolvesTo w (rk_scope k) namespaces res' one"
    using resolveResources_spec [OF res] one(1) by blast
  then have "wtg_GVK t = resourceGVK res'" using one(2) unfolding resolvesTo_def by auto
  then show ?thesis using checkPolicy_None [OF policy res'(1)] by (simp add: is_denied_def resourceGVK_def)
qed

text \<open>C7: Secrets never reach the data plane. Whatever rules are written, whatever the sinks' policies admit
  and whatever the API server answers, no sequence of reconcile passes puts a target of kind Secret of the core
  group, in any version, into the registry, so the snapshot the watch manager works from never holds one.\<close>

theorem secrets_never_watched:
  assumes "reconciled parse r" and "gm_get (Snapshot r) key = Some state"
  shows "\<not> (gvk_Group (tk_GVK key) = '''' \<and> gvk_Kind (tk_GVK key) = ''Secret'')"
proof -
  have none: "\<not> (gvk_Group (wtg_GVK t) = deniedGroup \<and> gvk_Kind (wtg_GVK t) = deniedKind)" if "t \<in> set (currentSet rk r)" for rk t
    using assms(1) that
  proof (induction arbitrary: t rule: reconciled.induct)
    case start
    then show ?case by (simp add: Registry_New_def currentSet_def)
  next
    case (pass s w k req)
    show ?case
    proof (cases rule: Reconcile_current_cases [of rk w k req s])
      case (installed obj)
      then show ?thesis using pass.prems planned_not_denied [of _ w k obj s] by (auto simp: canonicalTarget_def)
    qed (use pass in simp_all)
  next
    case (wake r)
    then show ?case by (simp add: takeChange_def currentSet_def)
  qed
  have ok: "registry_ok r" by (rule registered_ok [OF reconciled_registered [OF assms(1)]])
  have "wanted_at (reg_rules r) key \<noteq> []"
    using assms(2) by (auto simp: Snapshot_merged [OF ok] merged_def Let_def split: if_splits)
  then obtain rk t where rt: "(rk, t) \<in> set (wanted_at (reg_rules r) key)" by (metis list.set_intros(1) neq_Nil_conv surj_pair)
  then obtain ts where "(rk, ts) \<in> set (reg_rules r)" "t \<in> set ts" and key: "WatchTarget_Key t = key"
    by (auto simp: wanted_at_def)
  moreover have "gm_wf (reg_rules r)" using ok by (simp add: registry_ok_def)
  ultimately have "t \<in> set (currentSet rk r)" by (simp add: currentSet_def gm_get_iff_set [symmetric])
  then show ?thesis using none key by (auto simp: WatchTarget_Key_def deniedGroup_def deniedKind_def)
qed

section \<open>Transient failures\<close>

text \<open>The pass could not be completed: a read of the sink, the listing of the namespaces or an access review failed.\<close>

definition unanswered :: "ruleWorld \<Rightarrow> ruleKind \<Rightarrow> ruleObject \<Rightarrow> Resolver \<Rightarrow> bool" where
  "unanswered w k obj r \<longleftrightarrow>
     srs_Sink (ro_Spec obj) \<noteq> \<lparr>sr_Kind = [], sr_Name = []\<rparr> \<and>
     (case resolveSink w (sinkIDFrom (srs_Sink (ro_Spec obj))) of
        Inl err \<Rightarrow> True
      | Inr (None, verdict) \<Rightarrow> False
      | Inr (Some boundSink, verdict) \<Rightarrow>
          checkPolicy (srs_Resources (ro_Spec obj)) (rsk_policy boundSink) = None \<and>
          (case targetNamespaces w k obj of
             Inl (InvalidNamespaceSelector err) \<Rightarrow> False
           | Inl (NamespaceListFailed err) \<Rightarrow> True
           | Inr namespaces \<Rightarrow>
               \<exists>p \<in> set (expansions (fst (resolveResources w (rk_scope k) namespaces (srs_Resources (ro_Spec obj)) r))).
                 \<exists>err. verdict_on w p = Inl err))"

lemma reviewTargets_fails:
  assumes "keys_apart w (served w)" and "resolveResources w scope namespaces resources r = (resolved, failures, r')"
  shows "(\<exists>e. reviewTargets w i resolved redaction = Inl e) \<longleftrightarrow> (\<exists>p \<in> set (expansions resolved). \<exists>err. verdict_on w p = Inl err)"
proof -
  have "rre_gvr ` set resolved \<subseteq> served w" using resolveResources_spec [OF assms(2)] resolvesTo_served by blast
  then have each: "reviewTargets w i resolved redaction = reviewEach w i redaction (expansions resolved) [] []"
    by (rule reviewTargets_each [OF keys_apart_mono [OF assms(1)]])
  have "\<exists>p \<in> set pairs. \<exists>err. verdict_on w p = Inl err" if "reviewEach w i redaction pairs ts ds = Inl e" for pairs ts ds e
    using that
  proof (induction pairs arbitrary: ts ds)
    case (Cons p pairs)
    then show ?case by (cases "verdict_on w p") (auto simp: reviewEach_Cons split: if_splits)
  qed simp
  then show ?thesis unfolding each using reviewEach_fails by blast
qed

lemma planTargets_err:
  assumes "keys_apart w (served w)" and "planTargets w k obj i boundSink verdict status r = (outcome, status', r')"
  shows "(po_err outcome \<noteq> None) = (case targetNamespaces w k obj of
             Inl (InvalidNamespaceSelector err) \<Rightarrow> False
           | Inl (NamespaceListFailed err) \<Rightarrow> True
           | Inr namespaces \<Rightarrow>
               \<exists>p \<in> set (expansions (fst (resolveResources w (rk_scope k) namespaces (srs_Resources (ro_Spec obj)) r))).
                 \<exists>err. verdict_on w p = Inl err)
     \<and> po_install outcome = (po_err outcome = None)"
proof (cases "targetNamespaces w k obj")
  case (Inl e)
  then show ?thesis using assms(2) by (cases e) (auto simp: planTargets_def withdraw_all_def keep_and_retry_def)
next
  case (Inr namespaces)
  obtain resolved failures r1 where res:
    "resolveResources w (rk_scope k) namespaces (srs_Resources (ro_Spec obj)) r = (resolved, failures, r1)" by (metis prod_cases3)
  let ?red = "canonicalRedaction (sp_Redaction (rsk_policy boundSink)) (srs_ExtraRedaction (ro_Spec obj))"
  have "(po_err outcome \<noteq> None) = (\<exists>e. reviewTargets w i resolved ?red = Inl e) \<and> po_install outcome = (po_err outcome = None)"
    using assms(2) Inr res
    by (cases "reviewTargets w i resolved ?red") (auto simp: planTargets_def keep_and_retry_def Let_def)
  then show ?thesis using reviewTargets_fails [OF assms(1) res, of i ?red] by (simp add: Inr res)
qed

lemma plan_err:
  assumes "keys_apart w (served w)"
  shows "(po_err (fst (plan w k obj status r)) \<noteq> None) = unanswered w k obj r"
    and "po_install (fst (plan w k obj status r)) = (po_err (fst (plan w k obj status r)) = None)"
proof -
  define i where "i = sinkIDFrom (srs_Sink (ro_Spec obj))"
  have both: "(po_err (fst (plan w k obj status r)) \<noteq> None) = unanswered w k obj r \<and>
      po_install (fst (plan w k obj status r)) = (po_err (fst (plan w k obj status r)) = None)"
  proof (cases "srs_Sink (ro_Spec obj) = \<lparr>sr_Kind = [], sr_Name = []\<rparr>")
    case True
    then show ?thesis by (simp add: plan_def unanswered_def withdraw_all_def)
  next
    case sinked: False
    show ?thesis
    proof (cases "resolveSink w i")
      case (Inl err)
      then show ?thesis using sinked by (simp add: plan_def unanswered_def keep_and_retry_def i_def Let_def)
    next
      case (Inr p)
      obtain bound verdict where p: "p = (bound, verdict)" by (cases p)
      show ?thesis
      proof (cases bound)
        case None
        then show ?thesis using sinked Inr p by (simp add: plan_def unanswered_def withdraw_all_def i_def Let_def)
      next
        case (Some boundSink)
        show ?thesis
        proof (cases "checkPolicy (srs_Resources (ro_Spec obj)) (rsk_policy boundSink)")
          case None
          obtain status1 outcome status' r' where targets: "planTargets w k obj i boundSink verdict status1 r = (outcome, status', r')"
            and plan: "plan w k obj status r = (outcome, status', r')"
            using sinked Inr p Some None unfolding i_def by (auto simp: plan_def Let_def) (metis prod_cases3)
          show ?thesis
            using planTargets_err [OF assms targets] sinked Inr p Some None
            by (simp add: plan unanswered_def i_def split: sum.splits namespacesError.splits)
        next
          case (Some denied)
          then show ?thesis
            using sinked Inr p \<open>bound = Some boundSink\<close> by (simp add: plan_def unanswered_def withdraw_all_def i_def Let_def)
        qed
      qed
    qed
  qed
  then show "(po_err (fst (plan w k obj status r)) \<noteq> None) = unanswered w k obj r"
    and "po_install (fst (plan w k obj status r)) = (po_err (fst (plan w k obj status r)) = None)" by simp_all
qed

text \<open>The pass over a rule that is there, in one equation.\<close>

lemma Reconcile_live:
  assumes "rw_getRule w = Inr obj" and "\<not> ro_Deleting obj"
    and "plan w k obj (sw_new (ro_Generation obj)) (rst_Resolver s) = (outcome, status, r)"
    and "installTargets w (rule_key k req) outcome status (rst_Registry s) = (status', reg)"
    and "ready = readyCondition (rw_conditions w) status' (po_verdict outcome)"
  shows "Reconcile w k req s = writeStatus w (rule_key k req) obj ready
    (sw_set (rw_conditions w) ConditionReady (cd_Status ready) (cd_Reason ready) (cd_Message ready) status') outcome
    (''update '' @ rk_kind k @ '' '' @ nn_Namespace req @ ''/'' @ nn_Name req) (s\<lparr>rst_Resolver := r, rst_Registry := reg\<rparr>)"
  using assms by (simp add: Reconcile_def rule_key_def Let_def)

lemma Reconcile_parts:
  obtains outcome status r status' reg where
    "plan w k obj (sw_new (ro_Generation obj)) (rst_Resolver s) = (outcome, status, r)"
    "installTargets w (rule_key k req) outcome status (rst_Registry s) = (status', reg)"
  by (metis prod.exhaust)

lemma writeStatus_retries:
  "po_err outcome = Some err \<Longrightarrow> \<exists>e. fst (writeStatus w ruleKey obj ready status outcome errPrefix s) = Retry e"
  by (simp add: writeStatus_def Let_def split: sum.split)

text \<open>C11: A pass that the API server did not let finish changes no watch. When the sink could not be read, the
  namespaces could not be listed, or an access review failed, as opposed to answering no, the registry is
  exactly what it was and the pass is retried on the rate limiter.\<close>

theorem unanswered_pass_keeps_watches:
  assumes "keys_apart w (served w)" and "rw_getRule w = Inr obj" and "\<not> ro_Deleting obj"
    and "unanswered w k obj (rst_Resolver s)"
  shows "rst_Registry (snd (Reconcile w k req s)) = rst_Registry s \<and> (\<exists>err. fst (Reconcile w k req s) = Retry err)"
proof -
  obtain outcome status r status' reg where
    plan: "plan w k obj (sw_new (ro_Generation obj)) (rst_Resolver s) = (outcome, status, r)"
    and inst: "installTargets w (rule_key k req) outcome status (rst_Registry s) = (status', reg)" by (rule Reconcile_parts)
  have err: "po_err outcome \<noteq> None" and no: "\<not> po_install outcome"
    using plan_err [OF assms(1), of k obj "sw_new (ro_Generation obj)" "rst_Resolver s"] assms(4) by (simp_all add: plan)
  then have "rst_Registry (snd (Reconcile w k req s)) = rst_Registry s"
    using assms(2,3) by (simp add: Reconcile_registry gone_def planned_def plan)
  moreover obtain e where "po_err outcome = Some e" using err by auto
  then have "\<exists>err. fst (Reconcile w k req s) = Retry err"
    unfolding Reconcile_live [OF assms(2,3) plan inst refl] by (rule writeStatus_retries)
  ultimately show ?thesis by simp
qed

section \<open>The Ready roll-up\<close>

abbreviation decided :: "ruleWorld \<Rightarrow> statusWriter \<Rightarrow> string \<Rightarrow> verdict option" where
  "decided w status t \<equiv> verdict_at (rw_conditions w) (sw_conditions status) t"

lemma writer_ok_gate:
  "conditions_api_ok api \<Longrightarrow> writer_ok status \<Longrightarrow> writer_ok (setGateCondition api t failures tr tm fr status)"
  by (simp add: setGateCondition_def writer_ok_set)

lemma writer_ok_unevaluated:
  "conditions_api_ok api \<Longrightarrow> writer_ok status \<Longrightarrow> writer_ok (setUnevaluated api m status)"
  by (simp add: setUnevaluated_def ruleReadyOrder_def writer_ok_set)

lemma writer_ok_history:
  "conditions_api_ok api \<Longrightarrow> writer_ok status \<Longrightarrow> writer_ok (setRuleHistoryUnavailable api i boundSink status)"
  by (simp add: setRuleHistoryUnavailable_def writer_ok_set Let_def split: option.split)

lemmas writer_ok_rules = writer_ok_set writer_ok_gate writer_ok_unevaluated writer_ok_history

text \<open>The ways a pass ends, each with the conditions it decided.\<close>

definition policy_passed :: "ruleWorld \<Rightarrow> sink_id \<Rightarrow> resolvedSink \<Rightarrow> statusWriter \<Rightarrow> statusWriter" where
  "policy_passed w i boundSink status =
     sw_set (rw_conditions w) ConditionPolicyAllowed ConditionTrue ReasonAllResourcesPermitted
       (''Every resource this rule names is admitted by sink '' @ ID_String i)
       (setRuleHistoryUnavailable (rw_conditions w) i boundSink status)"

definition policy_denied :: "ruleWorld \<Rightarrow> sink_id \<Rightarrow> resolvedSink \<Rightarrow> policyDenial \<Rightarrow> statusWriter \<Rightarrow> statusWriter" where
  "policy_denied w i boundSink denied status =
     (let api = rw_conditions w in
      sw_set api ConditionRBACGranted ConditionUnknown ReasonNotEvaluated
        ''Access is not reviewed while the sink's policy denies this rule''
        (sw_set api ConditionResourceResolved ConditionUnknown ReasonNotEvaluated
          ''Resources are not resolved while the sink's policy denies this rule''
          (sw_set api ConditionPolicyAllowed ConditionFalse (pd_reason denied) (pd_message denied)
            (setRuleHistoryUnavailable api i boundSink status))))"

lemma plan_cases:
  assumes "plan w k obj status r = (outcome, status', r')"
  obtains (legacy) "outcome = withdraw_all \<lparr>sv_reason = ReasonLegacySinkRef, sv_message = legacySinkRefMessage\<rparr>"
      "status' = setUnevaluated (rw_conditions w) legacySinkRefMessage status"
  | (unread) err where "resolveSink w (sinkIDFrom (srs_Sink (ro_Spec obj))) = Inl err" "outcome = keep_and_retry no_verdict err" "status' = status"
  | (missing) verdict where "resolveSink w (sinkIDFrom (srs_Sink (ro_Spec obj))) = Inr (None, verdict)" "outcome = withdraw_all verdict"
      "status' = setUnevaluated (rw_conditions w) (sv_message verdict) status"
  | (denied) boundSink verdict d where "outcome = withdraw_all verdict"
      "status' = policy_denied w (sinkIDFrom (srs_Sink (ro_Spec obj))) boundSink d status"
  | (gated) boundSink verdict where "srs_Sink (ro_Spec obj) \<noteq> \<lparr>sr_Kind = [], sr_Name = []\<rparr>"
      "resolveSink w (sinkIDFrom (srs_Sink (ro_Spec obj))) = Inr (Some boundSink, verdict)"
      "checkPolicy (srs_Resources (ro_Spec obj)) (rsk_policy boundSink) = None"
      "planTargets w k obj (sinkIDFrom (srs_Sink (ro_Spec obj))) boundSink verdict
         (policy_passed w (sinkIDFrom (srs_Sink (ro_Spec obj))) boundSink status) r = (outcome, status', r')"
proof (cases "srs_Sink (ro_Spec obj) = \<lparr>sr_Kind = [], sr_Name = []\<rparr>")
  case True
  then show ?thesis using assms by (intro legacy) (simp_all add: plan_def)
next
  case sinked: False
  define i where "i = sinkIDFrom (srs_Sink (ro_Spec obj))"
  show ?thesis
  proof (cases "resolveSink w i")
    case (Inl err)
    then show ?thesis using assms sinked unfolding i_def by (intro unread [of err]) (simp_all add: plan_def Let_def)
  next
    case (Inr p)
    obtain bound verdict where p: "p = (bound, verdict)" by (cases p)
    show ?thesis
    proof (cases bound)
      case None
      then show ?thesis using assms sinked Inr p unfolding i_def by (intro missing [of verdict]) (simp_all add: plan_def Let_def)
    next
      case bound: (Some boundSink)
      show ?thesis
      proof (cases "checkPolicy (srs_Resources (ro_Spec obj)) (rsk_policy boundSink)")
        case None
        then show ?thesis
          using assms sinked Inr p bound unfolding i_def
          by (intro gated [of boundSink verdict]) (simp_all add: plan_def policy_passed_def Let_def)
      next
        case (Some d)
        then show ?thesis
          using assms sinked Inr p bound unfolding i_def
          by (intro denied [of verdict boundSink d]) (simp_all add: plan_def policy_denied_def Let_def)
      qed
    qed
  qed
qed

definition gate_resolved :: "ruleWorld \<Rightarrow> string list \<Rightarrow> statusWriter \<Rightarrow> statusWriter" where
  "gate_resolved w failures status = setGateCondition (rw_conditions w) ConditionResourceResolved failures ReasonAllKindsResolved
     ''Every kind this rule names resolved to a watchable resource'' ReasonKindsUnresolved status"

definition gate_granted :: "ruleWorld \<Rightarrow> string list \<Rightarrow> statusWriter \<Rightarrow> statusWriter" where
  "gate_granted w denials status = setGateCondition (rw_conditions w) ConditionRBACGranted denials ReasonAllVerbsGranted
     ''The operator may get, list and watch every resource this rule names'' ReasonMissingPermissions status"

lemma planTargets_cases:
  assumes "planTargets w k obj i boundSink verdict status r = (outcome, status', r')"
  obtains (invalid) m where "outcome = withdraw_all verdict"
      "status' = sw_set (rw_conditions w) ConditionResourceResolved ConditionFalse ReasonNamespaceSelectorInvalid m status"
  | (unlisted) err where "outcome = keep_and_retry verdict err"
      "status' = sw_set (rw_conditions w) ConditionResourceResolved ConditionUnknown ReasonNamespacesUnavailable err status"
  | (unreviewed) failures err where "outcome = keep_and_retry verdict err"
      "status' = sw_set (rw_conditions w) ConditionRBACGranted ConditionUnknown ReasonAccessReviewFailed err (gate_resolved w failures status)"
  | (answered) namespaces resolved failures r1 targets denials where "targetNamespaces w k obj = Inr namespaces"
      "resolveResources w (rk_scope k) namespaces (srs_Resources (ro_Spec obj)) r = (resolved, failures, r1)"
      "reviewTargets w i resolved (canonicalRedaction (sp_Redaction (rsk_policy boundSink)) (srs_ExtraRedaction (ro_Spec obj))) = Inr (targets, denials)"
      "outcome = \<lparr>po_targets = targets, po_verdict = verdict, po_install = True, po_err = None\<rparr>"
      "status' = gate_granted w denials (gate_resolved w failures status)"
proof (cases "targetNamespaces w k obj")
  case (Inl e)
  show ?thesis
  proof (cases e)
    case (InvalidNamespaceSelector m)
    then show ?thesis using Inl assms by (intro invalid) (auto simp: planTargets_def)
  next
    case (NamespaceListFailed err)
    then show ?thesis using Inl assms by (intro unlisted [of err]) (auto simp: planTargets_def)
  qed
next
  case (Inr namespaces)
  obtain resolved failures r1 where res:
    "resolveResources w (rk_scope k) namespaces (srs_Resources (ro_Spec obj)) r = (resolved, failures, r1)" by (metis prod_cases3)
  let ?rev = "reviewTargets w i resolved (canonicalRedaction (sp_Redaction (rsk_policy boundSink)) (srs_ExtraRedaction (ro_Spec obj)))"
  show ?thesis
  proof (cases ?rev)
    case (Inl err)
    then show ?thesis
      using Inr res assms by (intro unreviewed [of err failures]) (simp_all add: planTargets_def gate_resolved_def Let_def)
  next
    case rev: (Inr p)
    then show ?thesis
      using Inr res assms
      by (intro answered [of namespaces resolved failures r1 "fst p" "snd p"])
        (auto simp: planTargets_def gate_resolved_def gate_granted_def Let_def split: prod.splits)
  qed
qed

lemma writer_ok_planTargets:
  assumes "conditions_api_ok (rw_conditions w)" and "writer_ok status"
    and "planTargets w k obj i boundSink verdict status r = (outcome, status', r')"
  shows "writer_ok status'"
  using assms(3)
proof (cases rule: planTargets_cases)
qed (simp_all add: assms writer_ok_rules gate_resolved_def gate_granted_def)

lemma writer_ok_plan:
  assumes "conditions_api_ok (rw_conditions w)" and "writer_ok status" and "plan w k obj status r = (outcome, status', r')"
  shows "writer_ok status'"
  using assms(3)
proof (cases rule: plan_cases)
  case (gated boundSink verdict)
  show ?thesis
    by (rule writer_ok_planTargets [OF assms(1) _ gated(4)]) (simp add: assms policy_passed_def writer_ok_rules)
qed (simp_all add: assms writer_ok_rules policy_denied_def Let_def)

lemma writer_ok_install:
  "conditions_api_ok (rw_conditions w) \<Longrightarrow> writer_ok status \<Longrightarrow>
     installTargets w ruleKey outcome status reg = (status', reg') \<Longrightarrow> writer_ok status'"
  by (auto simp: installTargets_def writer_ok_rules split: if_splits prod.splits bool.splits)

text \<open>What a stored status says of Ready.\<close>

lemma stored_Ready:
  fixes w :: ruleWorld
  assumes api: "conditions_api_ok (rw_conditions w)" and "writer_ok status'"
    and "updateStatus mutate attempts e = Inr stored"
    and "mutate = (\<lambda>fresh. fresh\<lparr>st_Conditions := sw_apply (rw_conditions w)
        (sw_set (rw_conditions w) ConditionReady (cd_Status ready) (cd_Reason ready) (cd_Message ready) status') (st_Conditions fresh),
        st_ActiveWatches := n, st_ObservedGeneration := g\<rparr>)"
  shows "verdict_at (rw_conditions w) (st_Conditions stored) ConditionReady = Some (verdict_of ready)"
  using updateStatus_stored [OF assms(3)] by (auto simp: assms(4) applied_Ready [OF api assms(2)])

lemma decided_gate:
  fixes w :: ruleWorld
  shows "conditions_api_ok (rw_conditions w) \<Longrightarrow>
     map_option fst (decided w (setGateCondition (rw_conditions w) t failures tr tm fr status) t') =
     (if t' = t then Some (if failures = [] then ConditionTrue else ConditionFalse) else map_option fst (decided w status t'))"
  by (simp add: setGateCondition_def verdict_sw_set)

text \<open>Nothing decided so far speaks against Ready.\<close>

definition unopposed :: "ruleWorld \<Rightarrow> statusWriter \<Rightarrow> bool" where
  "unopposed w status \<longleftrightarrow> (\<forall>t \<in> set ruleReadyOrder. \<forall>st. map_option fst (decided w status t) = Some st \<longrightarrow> st = ConditionTrue)"

lemma readyCondition_true:
  "cd_Status (readyCondition (rw_conditions w) status verdict) = ConditionTrue \<longleftrightarrow> sv_reason verdict = [] \<and> unopposed w status"
proof (cases "sv_reason verdict = []")
  case True
  have "cd_Status (readyCondition (rw_conditions w) status verdict) =
      fst (verdict_of (readyCondition (rw_conditions w) status verdict))" by (simp add: verdict_of_def)
  then show ?thesis using True
    by (simp add: readyCondition_def readyFor_rollup rollup_true_iff unopposed_def del: rollup.simps)
next
  case False
  then show ?thesis by (simp add: readyCondition_def condition_def condition_statuses)
qed


lemma resolveSink_missing: "resolveSink w i = Inr (None, verdict) \<Longrightarrow> sv_reason verdict = ReasonSinkMissing"
  by (auto simp: resolveSink_def split: if_splits sum.splits option.splits)

lemma opposed:
  "unopposed w status \<Longrightarrow> t \<in> set ruleReadyOrder \<Longrightarrow> map_option fst (decided w status t) = Some st \<Longrightarrow> st = ConditionTrue"
  by (simp add: unopposed_def)

lemma opposed_gates:
  assumes "conditions_api_ok (rw_conditions w)" and "unopposed w (gate_granted w denials (gate_resolved w failures status))"
  shows "failures = []" and "denials = []"
proof -
  have "map_option fst (decided w (gate_granted w denials (gate_resolved w failures status)) ConditionResourceResolved) =
      Some (if failures = [] then ConditionTrue else ConditionFalse)"
    by (simp add: gate_granted_def gate_resolved_def decided_gate assms(1) condition_types)
  from opposed [OF assms(2) _ this] show "failures = []"
    by (auto simp: ruleReadyOrder_def condition_statuses split: if_splits)
  have "map_option fst (decided w (gate_granted w denials (gate_resolved w failures status)) ConditionRBACGranted) =
      Some (if denials = [] then ConditionTrue else ConditionFalse)"
    by (simp add: gate_granted_def decided_gate assms(1))
  from opposed [OF assms(2) _ this] show "denials = []"
    by (auto simp: ruleReadyOrder_def condition_statuses split: if_splits)
qed

lemma opposed_set:
  assumes "conditions_api_ok (rw_conditions w)" and "t \<in> set ruleReadyOrder" and "st \<noteq> ConditionTrue"
  shows "\<not> unopposed w (sw_set (rw_conditions w) t st reason m status)"
  using opposed [of w "sw_set (rw_conditions w) t st reason m status" t st] assms by (auto simp: verdict_sw_set)

lemma unopposed_plan:
  assumes api: "conditions_api_ok (rw_conditions w)" and "plan w k obj status r = (outcome, status', r')"
    and "po_err outcome = None" and "sv_reason (po_verdict outcome) = []" and "unopposed w status'"
  shows "\<exists>boundSink namespaces resolved. reviewed w k obj r boundSink namespaces resolved [] (po_targets outcome) [] \<and>
    resolveSink w (sinkIDFrom (srs_Sink (ro_Spec obj))) = Inr (Some boundSink, po_verdict outcome)"
  using assms(2)
proof (cases rule: plan_cases)
  case legacy
  then show ?thesis using assms(4) by (simp add: withdraw_all_def ReasonLegacySinkRef_def)
next
  case (unread err)
  then show ?thesis using assms(3) by (simp add: keep_and_retry_def)
next
  case (missing verdict)
  then show ?thesis using assms(4) resolveSink_missing [OF missing(1)] by (simp add: withdraw_all_def ReasonSinkMissing_def)
next
  case (denied boundSink verdict d)
  then show ?thesis
    using assms(5) opposed_set [OF api] by (simp add: policy_denied_def Let_def ruleReadyOrder_def condition_statuses)
next
  case (gated boundSink verdict)
  from gated(4) show ?thesis
  proof (cases rule: planTargets_cases)
    case (invalid m)
    then show ?thesis using assms(5) opposed_set [OF api] by (simp add: ruleReadyOrder_def condition_statuses)
  next
    case (answered namespaces resolved failures r1 targets denials)
    have "failures = []" "denials = []" using opposed_gates [OF api] assms(5) answered(5) by blast+
    then show ?thesis unfolding reviewed_def using gated answered by auto
  qed (use assms(3) in \<open>simp_all add: keep_and_retry_def\<close>)
qed

lemma installed_unopposed:
  assumes "conditions_api_ok (rw_conditions w)" and "po_install outcome"
    and "installTargets w ruleKey outcome status reg = (status', reg')" and "unopposed w status'"
  shows "status' = status \<and> reg' = snd (Upsert (rw_parse w) ruleKey (po_targets outcome) reg) \<and>
    desiredSet (rw_parse w) (po_targets outcome) \<noteq> None"
proof -
  obtain ok reg1 where up: "Upsert (rw_parse w) ruleKey (po_targets outcome) reg = (ok, reg1)" by (metis prod.exhaust)
  show ?thesis
  proof (cases ok)
    case True
    then show ?thesis using assms up by (auto simp: installTargets_def Upsert_def split: option.splits)
  next
    case False
    then have "status' = sw_set (rw_conditions w) ConditionResourceResolved ConditionFalse ReasonInvalidSelector
        (upsertErrorText w ruleKey (po_targets outcome)) status" using assms up by (auto simp: installTargets_def)
    then show ?thesis using assms(4) opposed_set [OF assms(1)] by (simp add: ruleReadyOrder_def condition_statuses)
  qed
qed

text \<open>A pass that ends in a resync stored a status.\<close>

lemma writeStatus_resync:
  assumes "writeStatus w ruleKey obj ready status outcome errPrefix s = (RequeueAfterResync, s')"
  obtains mutate :: "StreamRuleStatus \<Rightarrow> StreamRuleStatus" and stored n g where "po_err outcome = None" "updateStatus mutate (rw_attempts w) [] = Inr stored"
    "mutate = (\<lambda>fresh. fresh\<lparr>st_Conditions := sw_apply (rw_conditions w) status (st_Conditions fresh), st_ActiveWatches := n, st_ObservedGeneration := g\<rparr>)"
    "gm_get (rst_Stored s') ruleKey = Some stored" "rst_Registry s' = rst_Registry s"
proof -
  define mutate :: "StreamRuleStatus \<Rightarrow> StreamRuleStatus" where "mutate = (\<lambda>fresh. fresh\<lparr>st_Conditions := sw_apply (rw_conditions w) status (st_Conditions fresh),
    st_ActiveWatches := to_int32 (int (TargetCountForRule ruleKey (rst_Registry s))), st_ObservedGeneration := sw_generation status\<rparr>)"
  obtain stored where st: "updateStatus mutate (rw_attempts w) [] = Inr stored"
    using assms by (cases "updateStatus mutate (rw_attempts w) []") (auto simp: writeStatus_def Let_def mutate_def)
  show ?thesis
  proof (rule that [OF _ st mutate_def])
    show "po_err outcome = None"
      using assms st by (auto simp: writeStatus_def Let_def mutate_def split: option.splits)
    show "gm_get (rst_Stored s') ruleKey = Some stored" "rst_Registry s' = rst_Registry s"
      using assms st by (auto simp: writeStatus_def Let_def mutate_def)
  qed
qed

lemma Reconcile_resync_live:
  assumes "Reconcile w k req s = (RequeueAfterResync, s')"
  shows "\<exists>obj. rw_getRule w = Inr obj \<and> \<not> ro_Deleting obj"
  using assms by (auto simp: Reconcile_def Let_def split: sum.splits if_splits)

lemma reviewed_streams:
  assumes keys: "keys_apart w (served w)" and rev: "reviewed w k obj r boundSink namespaces resolved [] targets []"
  shows "checkPolicy (srs_Resources (ro_Spec obj)) (rsk_policy boundSink) = None"
    and "targetNamespaces w k obj = Inr namespaces"
    and "list_all2 (resolvesTo w (rk_scope k) namespaces) (srs_Resources (ro_Spec obj)) resolved"
    and "\<forall>(one, n) \<in> set (expansions resolved). \<forall>verb \<in> set accessVerbs. granted w (rre_gvr one) n verb"
    and "set targets = (\<lambda>p. targetFor (sinkIDFrom (srs_Sink (ro_Spec obj)))
      (canonicalRedaction (sp_Redaction (rsk_policy boundSink)) (srs_ExtraRedaction (ro_Spec obj))) (fst p) (snd p)) ` set (expansions resolved)"
proof -
  let ?i = "sinkIDFrom (srs_Sink (ro_Spec obj))"
  let ?red = "canonicalRedaction (sp_Redaction (rsk_policy boundSink)) (srs_ExtraRedaction (ro_Spec obj))"
  obtain r' where res: "resolveResources w (rk_scope k) namespaces (srs_Resources (ro_Spec obj)) r = (resolved, [], r')"
    and revT: "reviewTargets w ?i resolved ?red = Inr (targets, [])"
    using rev unfolding reviewed_def by blast
  note spec = resolveResources_spec [OF res]
  have "rre_gvr ` set resolved \<subseteq> served w" using spec resolvesTo_served by blast
  then have each: "reviewEach w ?i ?red (expansions resolved) [] [] = Inr (targets, [])"
    using reviewTargets_each [OF keys_apart_mono [OF keys]] revT by simp
  have all: "\<forall>p \<in> set (expansions resolved). verdict_on w p = Inr []" using reviewEach_denials [OF each] by simp
  then have "{p \<in> set (expansions resolved). verdict_on w p = Inr []} = set (expansions resolved)" by blast
  then show "set targets = (\<lambda>p. targetFor ?i ?red (fst p) (snd p)) ` set (expansions resolved)"
    using reviewEach_targets [OF each] by simp
  show "\<forall>(one, n) \<in> set (expansions resolved). \<forall>verb \<in> set accessVerbs. granted w (rre_gvr one) n verb"
    using all reviewTarget_granted by (fastforce simp: verdict_on_def)
  show "list_all2 (resolvesTo w (rk_scope k) namespaces) (srs_Resources (ro_Spec obj)) resolved" using spec by simp
qed (use rev in \<open>simp_all add: reviewed_def\<close>)

text \<open>The pass behind a stored Ready.\<close>

lemma ready_pass:
  assumes api: "conditions_api_ok (rw_conditions w)" and keys: "keys_apart w (served w)"
    and pass: "Reconcile w k req s = (RequeueAfterResync, s')"
    and stored: "gm_get (rst_Stored s') (rule_key k req) = Some stored"
    and ready: "map_option fst (verdict_at (rw_conditions w) (st_Conditions stored) ConditionReady) = Some ConditionTrue"
  obtains obj and outcome :: planOutcome and boundSink namespaces resolved where "rw_getRule w = Inr obj"
    "reviewed w k obj (rst_Resolver s) boundSink namespaces resolved [] (po_targets outcome) []"
    "resolveSink w (sinkIDFrom (srs_Sink (ro_Spec obj))) = Inr (Some boundSink, po_verdict outcome)" "sv_reason (po_verdict outcome) = []"
    "set (currentSet (rule_key k req) (rst_Registry s')) = canonicalTarget (rw_parse w) ` set (po_targets outcome)"
proof -
  obtain obj where obj: "rw_getRule w = Inr obj" "\<not> ro_Deleting obj" using Reconcile_resync_live [OF pass] by blast
  obtain outcome status r status' reg where
    plan: "plan w k obj (sw_new (ro_Generation obj)) (rst_Resolver s) = (outcome, status, r)"
    and inst: "installTargets w (rule_key k req) outcome status (rst_Registry s) = (status', reg)" by (rule Reconcile_parts)
  define rd where "rd = readyCondition (rw_conditions w) status' (po_verdict outcome)"
  have wr: "writer_ok status'" by (rule writer_ok_install [OF api writer_ok_plan [OF api writer_ok_new plan] inst])
  from pass [unfolded Reconcile_live [OF obj plan inst rd_def]] obtain mutate st n g where
    none: "po_err outcome = None" and up: "updateStatus mutate (rw_attempts w) [] = Inr st"
    and mu: "mutate = (\<lambda>fresh. fresh\<lparr>st_Conditions := sw_apply (rw_conditions w)
        (sw_set (rw_conditions w) ConditionReady (cd_Status rd) (cd_Reason rd) (cd_Message rd) status') (st_Conditions fresh),
        st_ActiveWatches := n, st_ObservedGeneration := g\<rparr>)"
    and get: "gm_get (rst_Stored s') (rule_key k req) = Some st" and reg': "rst_Registry s' = reg"
    by (rule writeStatus_resync) simp
  have "cd_Status rd = ConditionTrue"
    using ready stored_Ready [OF api wr up mu] get stored by (simp add: verdict_of_def)
  then have healthy: "sv_reason (po_verdict outcome) = []" and un: "unopposed w status'"
    unfolding rd_def readyCondition_true by simp_all
  have install: "po_install outcome"
    using plan_err(2) [OF keys, of k obj "sw_new (ro_Generation obj)" "rst_Resolver s"] none by (simp add: plan)
  note i = installed_unopposed [OF api install inst un]
  obtain ds where ds: "desiredSet (rw_parse w) (po_targets outcome) = Some ds" using i by blast
  have cur: "set (currentSet (rule_key k req) (rst_Registry s')) = canonicalTarget (rw_parse w) ` set (po_targets outcome)"
    using i ds desiredSet_set [OF ds] by (simp add: reg' currentSet_Upsert)
  have "unopposed w status" using i un by simp
  from unopposed_plan [OF api plan none healthy this] show ?thesis using that obj(1) healthy cur by blast
qed

text \<open>C10: Ready means streaming. When a completed pass leaves a rule Ready, the sink it names exists and reports
  itself Ready, the policy admits every resource, every resource the rule names resolved, the operator may get,
  list and watch every one of them in every namespace the rule selects, and the registry holds exactly the
  targets of all of these.\<close>

theorem ready_means_streaming:
  assumes api: "conditions_api_ok (rw_conditions w)" and keys: "keys_apart w (served w)"
    and pass: "Reconcile w k req s = (RequeueAfterResync, s')"
    and stored: "gm_get (rst_Stored s') (rule_key k req) = Some stored"
    and ready: "map_option fst (verdict_at (rw_conditions w) (st_Conditions stored) ConditionReady) = Some ConditionTrue"
  shows "\<exists>obj boundSink namespaces resolved.
    rw_getRule w = Inr obj \<and>
    rw_getSink w (id_kind (sinkIDFrom (srs_Sink (ro_Spec obj)))) (id_name (sinkIDFrom (srs_Sink (ro_Spec obj)))) = Inr boundSink \<and>
    map_option fst (verdict_at (rw_conditions w) (rsk_conditions boundSink) ConditionReady) = Some ConditionTrue \<and>
    checkPolicy (srs_Resources (ro_Spec obj)) (rsk_policy boundSink) = None \<and>
    targetNamespaces w k obj = Inr namespaces \<and>
    list_all2 (resolvesTo w (rk_scope k) namespaces) (srs_Resources (ro_Spec obj)) resolved \<and>
    (\<forall>(one, n) \<in> set (expansions resolved). \<forall>verb \<in> set accessVerbs. granted w (rre_gvr one) n verb) \<and>
    set (currentSet (rule_key k req) (rst_Registry s')) =
      (\<lambda>(one, n). canonicalTarget (rw_parse w) (targetFor (sinkIDFrom (srs_Sink (ro_Spec obj)))
         (canonicalRedaction (sp_Redaction (rsk_policy boundSink)) (srs_ExtraRedaction (ro_Spec obj))) one n)) ` set (expansions resolved)"
proof -
  obtain obj and outcome :: planOutcome and boundSink namespaces resolved where obj: "rw_getRule w = Inr obj"
    and rev: "reviewed w k obj (rst_Resolver s) boundSink namespaces resolved [] (po_targets outcome) []"
    and sink: "resolveSink w (sinkIDFrom (srs_Sink (ro_Spec obj))) = Inr (Some boundSink, po_verdict outcome)"
    and healthy: "sv_reason (po_verdict outcome) = []"
    and cur: "set (currentSet (rule_key k req) (rst_Registry s')) = canonicalTarget (rw_parse w) ` set (po_targets outcome)"
    by (rule ready_pass [OF assms])
  note streams = reviewed_streams [OF keys rev]
  have "set (currentSet (rule_key k req) (rst_Registry s')) =
    (\<lambda>(one, n). canonicalTarget (rw_parse w) (targetFor (sinkIDFrom (srs_Sink (ro_Spec obj)))
       (canonicalRedaction (sp_Redaction (rsk_policy boundSink)) (srs_ExtraRedaction (ro_Spec obj))) one n)) ` set (expansions resolved)"
    by (simp add: cur streams(5) image_image case_prod_beta)
  then show ?thesis
    using obj resolveSink_bound [OF sink] resolveSink_healthy [OF sink healthy] streams(1-4) by blast
qed

text \<open>C12: A sink that cannot be read makes its rules report Ready. When the read of the bound sink fails for any
  reason but its absence, the pass decides no condition at all, and the roll-up, which takes an
  undecided condition for a passed one, is True with the reason Streaming: the status stored says that every resource is
  admitted, resolved, permitted and installed, although no gate was run and the registry, which may hold nothing of
  the rule, was left alone.\<close>

theorem unread_sink_reports_ready:
  assumes api: "conditions_api_ok (rw_conditions w)" and obj: "rw_getRule w = Inr obj" "\<not> ro_Deleting obj"
    and named: "srs_Sink (ro_Spec obj) \<noteq> \<lparr>sr_Kind = [], sr_Name = []\<rparr>"
    and served: "id_kind (sinkIDFrom (srs_Sink (ro_Spec obj))) \<in> set sinkFetchers"
    and failed: "rw_getSink w (id_kind (sinkIDFrom (srs_Sink (ro_Spec obj)))) (id_name (sinkIDFrom (srs_Sink (ro_Spec obj)))) = Inl err" "\<not> ae_NotFound err"
    and accepted: "rw_attempts w = Stored fresh # attempts"
  shows "\<exists>e s' stored. Reconcile w k req s = (Retry e, s') \<and> rst_Registry s' = rst_Registry s \<and>
    gm_get (rst_Stored s') (rule_key k req) = Some stored \<and>
    map_option (\<lambda>(st, reason, m). (st, reason)) (verdict_at (rw_conditions w) (st_Conditions stored) ConditionReady) =
      Some (ConditionTrue, ReasonStreaming)"
proof -
  let ?i = "sinkIDFrom (srs_Sink (ro_Spec obj))"
  let ?e = "''get '' @ ID_String ?i @ '': '' @ ae_Text err"
  let ?status = "sw_new (ro_Generation obj)"
  define rd where "rd = readyCondition (rw_conditions w) ?status no_verdict"
  have sink: "resolveSink w ?i = Inl ?e" using served failed by (simp add: resolveSink_def)
  have plan: "plan w k obj ?status (rst_Resolver s) = (keep_and_retry no_verdict ?e, ?status, rst_Resolver s)"
    using named by (simp add: plan_def sink Let_def del: append.simps)
  have inst: "installTargets w (rule_key k req) (keep_and_retry no_verdict ?e) ?status (rst_Registry s) = (?status, rst_Registry s)"
    by (simp add: installTargets_def keep_and_retry_def)
  have rd': "rd = readyCondition (rw_conditions w) ?status (po_verdict (keep_and_retry no_verdict ?e))"
    by (simp add: rd_def keep_and_retry_def)
  let ?status' = "sw_set (rw_conditions w) ConditionReady (cd_Status rd) (cd_Reason rd) (cd_Message rd) ?status"
  define mutate :: "StreamRuleStatus \<Rightarrow> StreamRuleStatus" where "mutate = (\<lambda>fresh. fresh\<lparr>st_Conditions := sw_apply (rw_conditions w) ?status' (st_Conditions fresh),
    st_ActiveWatches := to_int32 (int (TargetCountForRule (rule_key k req) (rst_Registry s))), st_ObservedGeneration := ro_Generation obj\<rparr>)"
  have up: "updateStatus mutate (rw_attempts w) [] = Inr (mutate fresh)" by (simp add: accepted)
  have "decided w ?status t = None" for t using api by (simp add: sw_new_def)
  then have "verdict_of rd = (ConditionTrue, ReasonStreaming,
      ''Every resource this rule names is admitted, resolved, permitted and installed in the watch plan'')"
    unfolding rd_def by (simp add: readyCondition_def no_verdict_def readyFor_rollup ruleReadyOrder_def del: readyFor.simps)
  then have "map_option (\<lambda>(st, reason, m). (st, reason)) (verdict_at (rw_conditions w) (st_Conditions (mutate fresh)) ConditionReady) =
      Some (ConditionTrue, ReasonStreaming)"
    using stored_Ready [OF api writer_ok_new up mutate_def] by simp
  moreover have "Reconcile w k req s = (Retry ?e, snd (Reconcile w k req s))"
    and "gm_get (rst_Stored (snd (Reconcile w k req s))) (rule_key k req) = Some (mutate fresh)"
    and "rst_Registry (snd (Reconcile w k req s)) = rst_Registry s"
    unfolding Reconcile_live [OF obj plan inst rd']
    by (simp_all add: writeStatus_def Let_def accepted mutate_def keep_and_retry_def sw_new_def)
  ultimately show ?thesis by blast
qed

section \<open>Waking the rules of a sink that is gone\<close>

text \<open>A channel only grows, and the rule of a key handed over is in it unless it was full.\<close>

definition awake :: "string \<Rightarrow> NamespacedName \<Rightarrow> Parker \<Rightarrow> bool" where
  "awake kind ref p = (case gm_get p kind of None \<Rightarrow> False | Some events \<Rightarrow> ref \<in> set events \<or> parkChannelCapacity \<le> length events)"

lemma sinkGoneKey_awake: "awake kind ref p \<Longrightarrow> awake kind ref (sinkGoneKey key p)"
  by (auto simp: awake_def sinkGoneKey_def split: option.splits prod.splits if_splits)

lemma sinkGoneKey_known: "gm_get p kind \<noteq> None \<Longrightarrow> gm_get (sinkGoneKey key p) kind \<noteq> None"
  by (auto simp: sinkGoneKey_def split: option.splits prod.splits if_splits)

lemma SinkGone_awake: "awake kind ref p \<Longrightarrow> awake kind ref (SinkGone keys p)"
  unfolding SinkGone_def by (induction keys arbitrary: p) (simp_all add: sinkGoneKey_awake)

lemma SinkGone_wakes:
  assumes "kind = kindStreamRule \<or> kind = kindClusterStreamRule" and "name \<noteq> []"
    and "CHR ''/'' \<notin> set namespace" and "CHR ''/'' \<notin> set name"
    and "RuleKey kind namespace name \<in> set keys" and "gm_get p kind \<noteq> None"
  shows "awake kind \<lparr>nn_Namespace = namespace, nn_Name = name\<rparr> (SinkGone keys p)"
  using assms(5,6)
proof (induction keys arbitrary: p)
  case (Cons key keys)
  show ?case
  proof (cases "key = RuleKey kind namespace name")
    case True
    obtain events where events: "gm_get p kind = Some events" using Cons.prems(2) by auto
    have "awake kind \<lparr>nn_Namespace = namespace, nn_Name = name\<rparr> (sinkGoneKey key p)"
      by (auto simp: awake_def sinkGoneKey_def True parse_RuleKey [OF assms(1-4)] events)
    then show ?thesis using SinkGone_awake by (simp add: SinkGone_def)
  next
    case False
    then show ?thesis using Cons sinkGoneKey_known by (auto simp: SinkGone_def)
  qed
qed simp

section \<open>The redaction floor\<close>

lemma hex_digit_line: "n < 16 \<Longrightarrow> hex_digit n \<noteq> CHR 0x0A"
  using of_char_hex_digit [of n] by (auto split: if_splits)

lemma quote_char_line: "CHR 0x0A \<notin> set (quote_char c)"
proof (cases c rule: quote_char_cases)
  case (esc e)
  then have "e \<noteq> CHR 0x0A" by (auto simp: simple_escape_def)
  then show ?thesis using esc by simp
next
  case hex
  have "(of_char c :: nat) < 256" by (rule of_char_less_256)
  then have "(of_char c :: nat) div 16 < 16" by (simp add: less_mult_imp_div_less)
  then have "hex_digit (of_char c div 16) \<noteq> CHR 0x0A" "hex_digit (of_char c mod 16) \<noteq> CHR 0x0A" by (simp_all add: hex_digit_line)
  then show ?thesis using hex by auto
next
  case plain
  then show ?thesis by simp
qed

lemma go_quote_line: "CHR 0x0A \<notin> set (go_quote s)"
  using quote_char_line by (auto simp: go_quote_def)

text \<open>Admission keeps line breaks out of field paths; an annotation's path quotes them.\<close>

definition one_line :: "RedactionRule list \<Rightarrow> bool" where
  "one_line rules \<longleftrightarrow> (\<forall>rule \<in> set rules. CHR 0x0A \<notin> set (rr_FieldPath rule))"

lemma rulePath_line: "CHR 0x0A \<notin> set (rr_FieldPath rule) \<Longrightarrow> CHR 0x0A \<notin> set (redactionRulePath rule)"
  using go_quote_line by (simp add: redactionRulePath_def AnnotationRedactionPath_def)

text \<open>The data plane reads back exactly the paths of the floor and of the rule.\<close>

lemma canonicalRedaction_paths:
  assumes "one_line (sinkFloor @ ruleExtra)"
  shows "path \<noteq> [] \<Longrightarrow> path \<in> set (split_on (CHR 0x0A) (canonicalRedaction sinkFloor ruleExtra)) \<longleftrightarrow>
    path \<in> redactionRulePath ` set (sinkFloor @ ruleExtra)"
proof -
  let ?paths = "sorted_set (filter (\<lambda>path. path \<noteq> []) (map redactionRulePath (sinkFloor @ ruleExtra)))"
  assume "path \<noteq> []"
  have free: "\<forall>x \<in> set ?paths. CHR 0x0A \<notin> set x"
  proof
    fix x assume "x \<in> set ?paths"
    then obtain rule where "rule \<in> set (sinkFloor @ ruleExtra)" "x = redactionRulePath rule" by auto
    then show "CHR 0x0A \<notin> set x" using assms rulePath_line unfolding one_line_def by blast
  qed
  show ?thesis
  proof (cases "?paths = []")
    case True
    then have "canonicalRedaction sinkFloor ruleExtra = []" by (simp add: canonicalRedaction_def)
    moreover have "path \<notin> redactionRulePath ` set (sinkFloor @ ruleExtra)"
    proof
      assume "path \<in> redactionRulePath ` set (sinkFloor @ ruleExtra)"
      then have "path \<in> set ?paths" using \<open>path \<noteq> []\<close> by auto
      then show False unfolding True by simp
    qed
    ultimately show ?thesis using \<open>path \<noteq> []\<close> by simp
  next
    case False
    then have "split_on (CHR 0x0A) (canonicalRedaction sinkFloor ruleExtra) = ?paths"
      unfolding canonicalRedaction_def using free by (rule split_join)
    then show ?thesis using \<open>path \<noteq> []\<close> by auto
  qed
qed

section \<open>A small cluster\<close>

text \<open>A cluster with one kind: what its sink answers is the argument.\<close>

definition sampleSecretRule :: RedactionRule where
  "sampleSecretRule = \<lparr>rr_FieldPath = ''data.password'', rr_Annotation = []\<rparr>"

definition sampleTargetSink :: resolvedSink where
  "sampleTargetSink = \<lparr>rsk_policy = \<lparr>sp_AllowedGVKs = [], sp_Redaction = [sampleSecretRule]\<rparr>,
     rsk_conditions = [condition ConditionReady ConditionTrue ''Connected'' ''up'' 1]\<rparr>"

definition sampleResource :: WatchedResource where
  "sampleResource = \<lparr>wr_Group = [], wr_Version = ''v1'', wr_Kind = ''ConfigMap'', wr_LabelSelector = None, wr_EventFilter = None\<rparr>"

definition sampleRule :: ruleObject where
  "sampleRule = \<lparr>ro_Namespace = ''prod'', ro_Name = ''r'', ro_Deleting = False, ro_Generation = 1,
     ro_Spec = \<lparr>srs_Sink = \<lparr>sr_Kind = [], sr_Name = ''main''\<rparr>, srs_Resources = [sampleResource], srs_ExtraRedaction = []\<rparr>,
     ro_NamespaceSelector = None, ro_Status = \<lparr>st_Conditions = [], st_ActiveWatches = 0, st_ObservedGeneration = 0\<rparr>\<rparr>"

definition sampleGVR :: GroupVersionResource where
  "sampleGVR = \<lparr>gvr_Group = [], gvr_Version = ''v1'', gvr_Resource = ''configmaps''\<rparr>"

definition sampleCluster :: "apiError + resolvedSink \<Rightarrow> ruleWorld" where
  "sampleCluster sink =
     \<lparr>rw_conditions = sampleApi, rw_getRule = Inr sampleRule, rw_getSink = (\<lambda>kind name. sink),
      rw_asSelector = (\<lambda>ls. Inr []), rw_listNamespaces = (\<lambda>ls. Inr []), rw_parse = Some, rw_parseError = (\<lambda>s. []),
      rw_mapper = (\<lambda>gvk. Inr (sampleGVR, True)), rw_now = 0, rw_review = (\<lambda>gvr namespace verb. Inr True),
      rw_gvkText = (\<lambda>gvk. gvk_Kind gvk), rw_gvrText = (\<lambda>gvr. gvr_Resource gvr), rw_grText = (\<lambda>gvr. gvr_Resource gvr),
      rw_attempts = [Stored \<lparr>st_Conditions = [], st_ActiveWatches = 0, st_ObservedGeneration = 0\<rparr>], rw_recorder = True\<rparr>"

definition sampleState :: ruleState where
  "sampleState = \<lparr>rst_Registry = Registry_New, rst_Resolver = NewResolver, rst_Metrics = NewRuleMetrics, rst_Stored = [], rst_Events = []\<rparr>"

definition sampleRequest :: NamespacedName where
  "sampleRequest = \<lparr>nn_Namespace = ''prod'', nn_Name = ''r''\<rparr>"

lemma sample_keys: "keys_apart (sampleCluster sink) (served (sampleCluster sink))"
  by (simp add: keys_apart_def served_def sampleCluster_def reviewCacheKey_def)

text \<open>C8: Every watch a pass installs has cleared every gate. After a pass over a rule, the rule's targets in the
  registry are the ones it already had, or every one of them names a resource of the rule's spec that is not
  a Secret and that the bound sink's policy admits, streams to the sink the rule names, which exists, lies in the rule's own
  namespace if the rule is a StreamRule, carries the sink's redaction floor joined with the rule's additions, and was granted
  get, list and watch by the access reviews of that pass (given that the review cache's keys tell the
  served resources apart).\<close>

theorem installed_targets_cleared:
  assumes "keys_apart w (served w)"
  shows "currentSet (rule_key k req) (rst_Registry (snd (Reconcile w k req s))) = currentSet (rule_key k req) (rst_Registry s) \<or>
    (\<forall>t \<in> set (currentSet (rule_key k req) (rst_Registry (snd (Reconcile w k req s)))).
       \<exists>obj t'. rw_getRule w = Inr obj \<and> cleared w k obj t' \<and> t = canonicalTarget (rw_parse w) t')"
  by (rule installed_cleared [OF assms])

lemma sample_installs:
  "currentSet (rule_key streamRuleKind sampleRequest) (rst_Registry (snd (Reconcile (sampleCluster (Inr sampleTargetSink)) streamRuleKind sampleRequest sampleState))) =
     [\<lparr>wtg_Sink = SinkID ''ClickHouseSink'' ''main'', wtg_GVK = \<lparr>gvk_Group = [], gvk_Version = ''v1'', gvk_Kind = ''ConfigMap''\<rparr>,
       wtg_Namespace = ''prod'', wtg_Selector = [], wtg_Redaction = ''data.password'', wtg_EventFilter = []\<rparr>]"
  by code_simp

theorem installed_targets_cleared_witness:
  "\<exists>obj t'. rw_getRule (sampleCluster (Inr sampleTargetSink)) = Inr obj \<and> cleared (sampleCluster (Inr sampleTargetSink)) streamRuleKind obj t' \<and>
     canonicalTarget Some t' =
       \<lparr>wtg_Sink = SinkID ''ClickHouseSink'' ''main'', wtg_GVK = \<lparr>gvk_Group = [], gvk_Version = ''v1'', gvk_Kind = ''ConfigMap''\<rparr>,
        wtg_Namespace = ''prod'', wtg_Selector = [], wtg_Redaction = ''data.password'', wtg_EventFilter = []\<rparr>"
proof -
  have "currentSet rk (rst_Registry sampleState) = []" for rk by (simp add: sampleState_def Registry_New_def currentSet_def)
  then show ?thesis
    using installed_targets_cleared [OF sample_keys [of "Inr sampleTargetSink"], of streamRuleKind sampleRequest sampleState]
    by (simp add: sample_installs) (auto simp: sampleCluster_def)
qed

definition sampleWatched :: TargetKey where
  "sampleWatched = \<lparr>tk_Sink = SinkID ''ClickHouseSink'' ''main'',
     tk_GVK = \<lparr>gvk_Group = [], gvk_Version = ''v1'', gvk_Kind = ''ConfigMap''\<rparr>, tk_Namespace = ''prod''\<rparr>"

theorem secrets_never_watched_witness:
  "\<exists>state. reconciled Some (rst_Registry (snd (Reconcile (sampleCluster (Inr sampleTargetSink)) streamRuleKind sampleRequest sampleState))) \<and>
    gm_get (Snapshot (rst_Registry (snd (Reconcile (sampleCluster (Inr sampleTargetSink)) streamRuleKind sampleRequest sampleState))))
      sampleWatched = Some state \<and>
    \<not> (gvk_Group (tk_GVK sampleWatched) = '''' \<and> gvk_Kind (tk_GVK sampleWatched) = ''Secret'')"
proof -
  let ?r = "rst_Registry (snd (Reconcile (sampleCluster (Inr sampleTargetSink)) streamRuleKind sampleRequest sampleState))"
  have rec: "reconciled Some ?r"
    by (rule reconciled.pass) (simp_all add: sampleState_def sampleCluster_def reconciled.start)
  obtain ts t where ts: "gm_get (reg_rules ?r) (rule_key streamRuleKind sampleRequest) = Some ts" "t \<in> set ts"
    and key: "WatchTarget_Key t = sampleWatched"
    using sample_installs
    by (cases "gm_get (reg_rules ?r) (rule_key streamRuleKind sampleRequest)")
      (auto simp: currentSet_def WatchTarget_Key_def sampleWatched_def)
  obtain state where state: "gm_get (Snapshot ?r) sampleWatched = Some state"
    using Snapshot_contribution [OF registered_ok [OF reconciled_registered [OF rec]] ts] key by auto
  show ?thesis using rec state secrets_never_watched [OF rec state] by blast
qed

theorem unanswered_pass_keeps_watches_witness:
  "unanswered (sampleCluster (Inl \<lparr>ae_NotFound = False, ae_Text = ''timeout''\<rparr>)) streamRuleKind sampleRule NewResolver \<and>
   rst_Registry (snd (Reconcile (sampleCluster (Inl \<lparr>ae_NotFound = False, ae_Text = ''timeout''\<rparr>)) streamRuleKind sampleRequest sampleState)) = Registry_New"
proof -
  let ?w = "sampleCluster (Inl \<lparr>ae_NotFound = False, ae_Text = ''timeout''\<rparr>)"
  have un: "unanswered ?w streamRuleKind sampleRule NewResolver"
    by (simp add: unanswered_def sampleRule_def sampleCluster_def resolveSink_def sinkIDFrom_def sinkFetchers_def clickHouseSinkKind_def)
  then show ?thesis
    using unanswered_pass_keeps_watches [OF sample_keys [of "Inl \<lparr>ae_NotFound = False, ae_Text = ''timeout''\<rparr>"], of sampleRule streamRuleKind sampleState sampleRequest]
    by (simp add: sampleState_def sampleCluster_def sampleRule_def)
qed

lemma sample_ready:
  "\<exists>s' stored. Reconcile (sampleCluster (Inr sampleTargetSink)) streamRuleKind sampleRequest sampleState = (RequeueAfterResync, s') \<and>
     gm_get (rst_Stored s') (rule_key streamRuleKind sampleRequest) = Some stored \<and>
     map_option fst (verdict_at sampleApi (st_Conditions stored) ConditionReady) = Some ConditionTrue"
proof -
  let ?x = "Reconcile (sampleCluster (Inr sampleTargetSink)) streamRuleKind sampleRequest sampleState"
  have "fst ?x = RequeueAfterResync" by code_simp
  moreover have "map_option (\<lambda>stored. map_option fst (verdict_at sampleApi (st_Conditions stored) ConditionReady))
      (gm_get (rst_Stored (snd ?x)) (rule_key streamRuleKind sampleRequest)) = Some (Some ConditionTrue)" by code_simp
  then obtain stored where "gm_get (rst_Stored (snd ?x)) (rule_key streamRuleKind sampleRequest) = Some stored"
    "map_option fst (verdict_at sampleApi (st_Conditions stored) ConditionReady) = Some ConditionTrue"
    unfolding map_option_eq_Some by blast
  ultimately show ?thesis by (intro exI [of _ "snd ?x"] exI [of _ stored] conjI) (simp_all add: prod_eq_iff)
qed

theorem ready_means_streaming_witness:
  "\<exists>obj boundSink namespaces resolved.
    rw_getRule (sampleCluster (Inr sampleTargetSink)) = Inr obj \<and> targetNamespaces (sampleCluster (Inr sampleTargetSink)) streamRuleKind obj = Inr namespaces \<and>
    rw_getSink (sampleCluster (Inr sampleTargetSink)) (id_kind (sinkIDFrom (srs_Sink (ro_Spec obj)))) (id_name (sinkIDFrom (srs_Sink (ro_Spec obj)))) = Inr boundSink \<and>
    checkPolicy (srs_Resources (ro_Spec obj)) (rsk_policy boundSink) = None \<and>
    list_all2 (resolvesTo (sampleCluster (Inr sampleTargetSink)) NamespacedRule namespaces) (srs_Resources (ro_Spec obj)) resolved \<and>
    set (currentSet (rule_key streamRuleKind sampleRequest)
        (rst_Registry (snd (Reconcile (sampleCluster (Inr sampleTargetSink)) streamRuleKind sampleRequest sampleState)))) =
      (\<lambda>(one, n). canonicalTarget Some (targetFor (sinkIDFrom (srs_Sink (ro_Spec obj)))
         (canonicalRedaction (sp_Redaction (rsk_policy boundSink)) (srs_ExtraRedaction (ro_Spec obj))) one n)) ` set (expansions resolved)"
proof -
  have fields: "rw_conditions (sampleCluster (Inr sampleTargetSink)) = sampleApi" "rw_parse (sampleCluster (Inr sampleTargetSink)) = Some"
    "rk_scope streamRuleKind = NamespacedRule"
    by (simp_all add: sampleCluster_def streamRuleKind_def)
  obtain s' stored where s': "Reconcile (sampleCluster (Inr sampleTargetSink)) streamRuleKind sampleRequest sampleState = (RequeueAfterResync, s')"
    "gm_get (rst_Stored s') (rule_key streamRuleKind sampleRequest) = Some stored"
    "map_option fst (verdict_at sampleApi (st_Conditions stored) ConditionReady) = Some ConditionTrue"
    using sample_ready by blast
  show ?thesis
    unfolding s'(1) snd_conv
    using ready_means_streaming [OF _ sample_keys s'(1,2), unfolded fields, OF sampleApi_ok s'(3)] by blast
qed

theorem unread_sink_reports_ready_witness:
  "\<exists>e s' stored. Reconcile (sampleCluster (Inl \<lparr>ae_NotFound = False, ae_Text = ''timeout''\<rparr>)) streamRuleKind sampleRequest sampleState = (Retry e, s') \<and>
    rst_Registry s' = Registry_New \<and> gm_get (rst_Stored s') (rule_key streamRuleKind sampleRequest) = Some stored \<and>
    map_option (\<lambda>(st, reason, m). (st, reason)) (verdict_at sampleApi (st_Conditions stored) ConditionReady) =
      Some (ConditionTrue, ReasonStreaming)"
proof -
  let ?w = "sampleCluster (Inl \<lparr>ae_NotFound = False, ae_Text = ''timeout''\<rparr>)"
  have fields: "rw_conditions ?w = sampleApi" "rst_Registry sampleState = Registry_New"
    by (simp_all add: sampleCluster_def sampleState_def)
  have "conditions_api_ok (rw_conditions ?w)" by (simp add: fields sampleApi_ok)
  from unread_sink_reports_ready [OF this, of sampleRule "\<lparr>ae_NotFound = False, ae_Text = ''timeout''\<rparr>"
      "\<lparr>st_Conditions = [], st_ActiveWatches = 0, st_ObservedGeneration = 0\<rparr>" "[]" streamRuleKind sampleRequest sampleState]
  show ?thesis unfolding fields
    by (simp add: sampleCluster_def sampleRule_def sinkIDFrom_def sinkFetchers_def clickHouseSinkKind_def)
qed

end
