(* ===== verification/SinkController.thy ===== *)
theory SinkController
  imports Conditions SinkManager
begin

text \<open>
  The sink reconcilers (\<open>internal/controller/sink_controller.go\<close>, \<open>internal/controller/s3sink_controller.go\<close>): one pass reads
  a ClickHouseSink or an S3Sink, resolves its credentials, declares it to the sink manager, and reports the manager's latest
  probe verdict as conditions; and the hub that stores the verdicts and wakes the reconciler they concern.

  The API server's answers, the backend's configuration builder and the manager's factory are parameters, in \<open>sinkWorld\<close>;
  an API error is its text and whether it means that the object was not found. A probe's error prints as \<open>sk_errText\<close>.
\<close>

section \<open>Probe verdicts\<close>

type_synonym probeStore = "(sink_id, ProbeResult) gomap"

definition ps_record :: "ProbeResult \<Rightarrow> probeStore \<Rightarrow> probeStore" where
  "ps_record result store = gm_set (pr_Sink result) result store"

definition ps_latest :: "sink_id \<Rightarrow> probeStore \<Rightarrow> ProbeResult option" where
  "ps_latest i store = gm_get store i"

definition ps_forget :: "sink_id \<Rightarrow> probeStore \<Rightarrow> probeStore" where
  "ps_forget i store = gm_del i store"

definition probeEventCapacity :: nat where "probeEventCapacity = 128"

text \<open>The hub: the verdicts, and the wake-ups waiting for the reconciler of each kind registered.\<close>

record SinkProbeHub =
  hub_store :: probeStore
  hub_targets :: "(string, string list) gomap"

definition NewSinkProbeHub :: SinkProbeHub where
  "NewSinkProbeHub = \<lparr>hub_store = [], hub_targets = []\<rparr>"

definition hub_register :: "string \<Rightarrow> SinkProbeHub \<Rightarrow> SinkProbeHub option" where
  "hub_register kind h =
     (if gm_get (hub_targets h) kind \<noteq> None then None else Some (h\<lparr>hub_targets := gm_set kind [] (hub_targets h)\<rparr>))"

text \<open>
  One turn of the hub's loop: the verdict is stored and its reconciler woken. The send blocks on a full
  channel: nothing is then the result, until the reconciler takes a wake-up.
\<close>

definition hub_deliver :: "ProbeResult \<Rightarrow> SinkProbeHub \<Rightarrow> SinkProbeHub option" where
  "hub_deliver result h =
     (let h = h\<lparr>hub_store := ps_record result (hub_store h)\<rparr> in
      case gm_get (hub_targets h) (id_kind (pr_Sink result)) of
        None \<Rightarrow> Some h
      | Some events \<Rightarrow>
          if length events < probeEventCapacity
          then Some (h\<lparr>hub_targets := gm_set (id_kind (pr_Sink result)) (events @ [id_name (pr_Sink result)]) (hub_targets h)\<rparr>)
          else None)"

section \<open>What both reconcilers share\<close>

record SecretReference =
  sref_Name :: string
  sref_Namespace :: string

record SinkStatus =
  ss_Conditions :: "Condition list"
  ss_ObservedGeneration :: int

type_synonym secretData = "(string, string) gomap"

record ('w, 'g) sinkWorld =
  sk_conditions :: conditions_api
  sk_getSecret :: "NamespacedName \<Rightarrow> apiError + secretData"
  sk_fingerprint :: "'g \<Rightarrow> string"
  sk_factory :: "sink_id \<Rightarrow> 'g \<Rightarrow> 'w built_writer option"
  sk_errText :: "probe_error option \<Rightarrow> string"
  sk_managerError :: "manager_error \<Rightarrow> string"
  sk_attempts :: "SinkStatus statusAttempt list"
  sk_recorder :: bool
  sk_OperatorNamespace :: string

record ('w, 'g) sinkCtlState =
  sks_Manager :: "('w, 'g) SinkManager"
  sks_Probes :: probeStore
  sks_Stored :: "(sink_id, SinkStatus) gomap"
  sks_Events :: "kubeEvent list"

datatype sinkResult = SinkDone | SinkResync | SinkRetry string

record credentialError =
  ce_reason :: string
  ce_message :: string

definition ReasonSecretResolved :: string where "ReasonSecretResolved = ''SecretResolved''"
definition ReasonSecretNotFound :: string where "ReasonSecretNotFound = ''SecretNotFound''"
definition ReasonSecretKeyMissing :: string where "ReasonSecretKeyMissing = ''SecretKeyMissing''"
definition ReasonSchemaMatches :: string where "ReasonSchemaMatches = ''SchemaMatches''"
definition ReasonProbePending :: string where "ReasonProbePending = ''ProbePending''"
definition ReasonConnected :: string where "ReasonConnected = ''Connected''"
definition ReasonCredentialsUnavailable :: string where "ReasonCredentialsUnavailable = ''CredentialsUnavailable''"
definition ReasonAmbientCredentials :: string where "ReasonAmbientCredentials = ''AmbientCredentials''"
definition ReasonBucketWritable :: string where "ReasonBucketWritable = ''BucketWritable''"
definition ReasonBucketIncompatible :: string where "ReasonBucketIncompatible = ''BucketIncompatible''"
definition ReasonBucketUnreachable :: string where "ReasonBucketUnreachable = ''BucketUnreachable''"
definition ReasonArchiving :: string where "ReasonArchiving = ''Archiving''"
definition ReasonCapabilitiesUnknown :: string where "ReasonCapabilitiesUnknown = ''CapabilitiesUnknown''"

definition ref_text :: "NamespacedName \<Rightarrow> string" where
  "ref_text ref = nn_Namespace ref @ ''/'' @ nn_Name ref"

definition namespacedRef :: "string \<Rightarrow> SecretReference \<Rightarrow> NamespacedName" where
  "namespacedRef operatorNamespace ref =
     \<lparr>nn_Namespace = (if sref_Namespace ref = [] then operatorNamespace else sref_Namespace ref), nn_Name = sref_Name ref\<rparr>"

definition secretUnread :: "NamespacedName \<Rightarrow> apiError \<Rightarrow> credentialError" where
  "secretUnread ref err =
     \<lparr>ce_reason = ReasonSecretNotFound,
      ce_message = (if ae_NotFound err then ''Secret '' @ ref_text ref @ '' does not exist''
                    else ''Secret '' @ ref_text ref @ '' could not be read: '' @ ae_Text err)\<rparr>"

text \<open>The configuration the builder answers, handed to the manager: an error's text, or nothing.\<close>

definition declare_config ::
    "('w, 'g) sinkWorld \<Rightarrow> sink_id \<Rightarrow> string + 'g option \<Rightarrow> ('w, 'g) SinkManager \<Rightarrow> string option \<times> ('w, 'g) SinkManager" where
  "declare_config w i built m =
     (case built of
        Inl err \<Rightarrow> (Some (''build configuration for sink '' @ go_quote (id_name i) @ '': '' @ err), m)
      | Inr None \<Rightarrow>
          (Some (''build configuration for sink '' @ go_quote (id_name i) @
             '': sink configuration is incomplete; not handing it to the sink runtime''), m)
      | Inr (Some cfg) \<Rightarrow>
          (case Ensure (sk_fingerprint w) (sk_factory w) i (Some cfg) m of
             (err, m) \<Rightarrow> (map_option (sk_managerError w) err, m)))"

definition writeSinkStatus ::
    "('w, 'g) sinkWorld \<Rightarrow> sink_id \<Rightarrow> string \<Rightarrow> statusWriter \<Rightarrow> kubeEvent list \<Rightarrow> ('w, 'g) sinkCtlState \<Rightarrow> sinkResult \<times> ('w, 'g) sinkCtlState" where
  "writeSinkStatus w i errPrefix status events s =
     (case updateStatus (\<lambda>fresh. fresh\<lparr>ss_Conditions := sw_apply (sk_conditions w) status (ss_Conditions fresh),
                                ss_ObservedGeneration := sw_generation status\<rparr>) (sk_attempts w) [] of
        Inl err \<Rightarrow> (SinkRetry (errPrefix @ '' status: '' @ err), s)
      | Inr stored \<Rightarrow> (SinkResync, s\<lparr>sks_Stored := gm_set i stored (sks_Stored s), sks_Events := sks_Events s @ events\<rparr>))"

definition withdrawSink :: "sink_id \<Rightarrow> ('w, 'g) sinkCtlState \<Rightarrow> ('w, 'g) sinkCtlState" where
  "withdrawSink i s = s\<lparr>sks_Probes := ps_forget i (sks_Probes s), sks_Manager := Delete i (sks_Manager s)\<rparr>"

section \<open>ClickHouse sinks\<close>

definition clickHouseSinkID :: "string \<Rightarrow> sink_id" where
  "clickHouseSinkID name = SinkID DefaultSinkKind name"

definition DefaultCredentialsSecretKey :: string where "DefaultCredentialsSecretKey = ''password''"

record ClickHouseSink =
  chs_Name :: string
  chs_Generation :: int
  chs_SecretRef :: SecretReference
  chs_Status :: SinkStatus

definition ch_secretRef :: "('w, 'g) sinkWorld \<Rightarrow> ClickHouseSink \<Rightarrow> NamespacedName" where
  "ch_secretRef w chSink = namespacedRef (sk_OperatorNamespace w) (chs_SecretRef chSink)"

definition resolveCredential :: "('w, 'g) sinkWorld \<Rightarrow> ClickHouseSink \<Rightarrow> credentialError + string" where
  "resolveCredential w chSink =
     (let ref = ch_secretRef w chSink in
      case sk_getSecret w ref of
        Inl err \<Rightarrow> Inl (secretUnread ref err)
      | Inr data \<Rightarrow>
          (case gm_get data DefaultCredentialsSecretKey of
             Some password \<Rightarrow>
               if password \<noteq> [] then Inr password
               else Inl \<lparr>ce_reason = ReasonSecretKeyMissing,
                 ce_message = ''Secret '' @ ref_text ref @ '' carries no non-empty '' @ go_quote DefaultCredentialsSecretKey @ '' key''\<rparr>
           | None \<Rightarrow> Inl \<lparr>ce_reason = ReasonSecretKeyMissing,
                 ce_message = ''Secret '' @ ref_text ref @ '' carries no non-empty '' @ go_quote DefaultCredentialsSecretKey @ '' key''\<rparr>))"

definition ch_setHealthConditions ::
    "('w, 'g) sinkWorld \<Rightarrow> probeStore \<Rightarrow> ClickHouseSink \<Rightarrow> credentialError option \<Rightarrow> statusWriter \<Rightarrow> statusWriter" where
  "ch_setHealthConditions w store chSink credErr status =
     (let api = sk_conditions w in
      if credErr \<noteq> None
      then sw_set api ConditionSchemaValid ConditionUnknown ReasonCredentialsUnavailable
             ''The schema cannot be checked until the sink's credentials resolve'' status
      else case ps_latest (clickHouseSinkID (chs_Name chSink)) store of
        None \<Rightarrow> sw_set api ConditionSchemaValid ConditionUnknown ReasonProbePending ''Waiting for the first health probe to settle'' status
      | Some result \<Rightarrow>
          if pr_Err result = None
          then sw_set api ConditionSchemaValid ConditionTrue ReasonSchemaMatches
                 ''The live ClickHouse schema matches the schema this operator writes'' status
          else if pr_Reason result = ProbeReasonSchemaInvalid
          then sw_set api ConditionSchemaValid ConditionFalse ProbeReasonSchemaInvalid
                 (''The live ClickHouse schema does not match the schema this operator writes: '' @ sk_errText w (pr_Err result)) status
          else sw_set api ConditionSchemaValid ConditionUnknown ProbeReasonUnreachable
                 (''ClickHouse did not answer, so its schema is unknown: '' @ sk_errText w (pr_Err result)) status)"

definition sinkReadyOrder :: "string list" where
  "sinkReadyOrder = [ConditionCredentialsResolved, ConditionSchemaValid]"

text \<open>The pass after the credential and the declaration: the conditions, the roll-up, the write.\<close>

definition ch_report ::
    "('w, 'g) sinkWorld \<Rightarrow> ClickHouseSink \<Rightarrow> credentialError option \<Rightarrow> statusWriter \<Rightarrow> ('w, 'g) sinkCtlState \<Rightarrow> sinkResult \<times> ('w, 'g) sinkCtlState" where
  "ch_report w chSink credErr status s =
     (let api = sk_conditions w;
          status = ch_setHealthConditions w (sks_Probes s) chSink credErr status;
          previousReady = findCondition api (ss_Conditions (chs_Status chSink)) ConditionReady;
          ready = readyFor api status sinkReadyOrder ReasonConnected ''ClickHouse is reachable, authenticated and carries the expected schema'';
          status = sw_set api ConditionReady (cd_Status ready) (cd_Reason ready) (cd_Message ready) status
      in writeSinkStatus w (clickHouseSinkID (chs_Name chSink)) (''update ClickHouseSink '' @ go_quote (chs_Name chSink)) status
           (emitReadyEvent (sk_recorder w) previousReady ready) s)"

definition ch_Reconcile ::
    "('w, 'g) sinkWorld \<Rightarrow> (string \<Rightarrow> string \<Rightarrow> string + 'g option) \<Rightarrow> string \<Rightarrow> apiError + ClickHouseSink \<Rightarrow> ('w, 'g) sinkCtlState
     \<Rightarrow> sinkResult \<times> ('w, 'g) sinkCtlState" where
  "ch_Reconcile w BuildConfig name answer s =
     (case answer of
        Inl err \<Rightarrow>
          if ae_NotFound err then (SinkDone, withdrawSink (clickHouseSinkID name) s)
          else (SinkRetry (''get ClickHouseSink '' @ go_quote name @ '': '' @ ae_Text err), s)
      | Inr chSink \<Rightarrow>
          (let api = sk_conditions w; status = sw_new (chs_Generation chSink) in
           case resolveCredential w chSink of
             Inl credErr \<Rightarrow>
               ch_report w chSink (Some credErr)
                 (sw_set api ConditionCredentialsResolved ConditionFalse (ce_reason credErr) (ce_message credErr) status) s
           | Inr password \<Rightarrow>
               (let status = sw_set api ConditionCredentialsResolved ConditionTrue ReasonSecretResolved
                               (''Read the password from Secret '' @ ref_text (ch_secretRef w chSink)) status
                in case declare_config w (clickHouseSinkID (chs_Name chSink)) (BuildConfig (chs_Name chSink) password) (sks_Manager s) of
                     (Some err, m) \<Rightarrow> (SinkRetry err, s\<lparr>sks_Manager := m\<rparr>)
                   | (None, m) \<Rightarrow> ch_report w chSink None status (s\<lparr>sks_Manager := m\<rparr>))))"

section \<open>S3 sinks\<close>

definition s3SinkID :: "string \<Rightarrow> sink_id" where
  "s3SinkID name = SinkID ''S3Sink'' name"

definition DefaultAccessKeyIDSecretKey :: string where "DefaultAccessKeyIDSecretKey = ''accessKeyId''"
definition DefaultSecretAccessKeySecretKey :: string where "DefaultSecretAccessKeySecretKey = ''secretAccessKey''"
definition DefaultSessionTokenSecretKey :: string where "DefaultSessionTokenSecretKey = ''sessionToken''"

text \<open>The credentials block is optional, and so is the Secret reference inside it.\<close>

record S3Sink =
  s3s_Name :: string
  s3s_Generation :: int
  s3s_Bucket :: string
  s3s_Credentials :: "SecretReference option option"
  s3s_Status :: SinkStatus

record S3Credentials =
  s3c_AccessKeyID :: string
  s3c_SecretAccessKey :: string
  s3c_SessionToken :: string

definition s3_no_credentials :: S3Credentials where
  "s3_no_credentials = \<lparr>s3c_AccessKeyID = [], s3c_SecretAccessKey = [], s3c_SessionToken = []\<rparr>"

definition IsAmbient :: "S3Credentials \<Rightarrow> bool" where
  "IsAmbient c \<longleftrightarrow> s3c_AccessKeyID c = [] \<and> s3c_SecretAccessKey c = [] \<and> s3c_SessionToken c = []"

definition s3_secretReference :: "S3Sink \<Rightarrow> SecretReference option" where
  "s3_secretReference s3Sink = (case s3s_Credentials s3Sink of None \<Rightarrow> None | Some ref \<Rightarrow> ref)"

definition hasSecretRef :: "S3Sink \<Rightarrow> bool" where
  "hasSecretRef s3Sink \<longleftrightarrow> s3_secretReference s3Sink \<noteq> None"

text \<open>Only asked of a sink that names a Secret; without one there is no reference to resolve.\<close>

definition s3_secretRef :: "('w, 'g) sinkWorld \<Rightarrow> S3Sink \<Rightarrow> NamespacedName" where
  "s3_secretRef w s3Sink =
     (case s3_secretReference s3Sink of
        Some ref \<Rightarrow> namespacedRef (sk_OperatorNamespace w) ref
      | None \<Rightarrow> \<lparr>nn_Namespace = [], nn_Name = []\<rparr>)"

definition presentKeys :: "secretData \<Rightarrow> string" where
  "presentKeys data = (if data = [] then ''no keys'' else join_with '', '' (sort (map go_quote (gm_keys data))))"

definition dataOr :: "secretData \<Rightarrow> string \<Rightarrow> string" where
  "dataOr data key = (case gm_get data key of None \<Rightarrow> [] | Some v \<Rightarrow> v)"

definition resolveCredentials :: "('w, 'g) sinkWorld \<Rightarrow> S3Sink \<Rightarrow> credentialError + S3Credentials" where
  "resolveCredentials w s3Sink =
     (if \<not> hasSecretRef s3Sink then Inr s3_no_credentials
      else let ref = s3_secretRef w s3Sink in
        case sk_getSecret w ref of
          Inl err \<Rightarrow> Inl (secretUnread ref err)
        | Inr data \<Rightarrow>
            (let creds = \<lparr>s3c_AccessKeyID = dataOr data DefaultAccessKeyIDSecretKey,
                          s3c_SecretAccessKey = dataOr data DefaultSecretAccessKeySecretKey,
                          s3c_SessionToken = dataOr data DefaultSessionTokenSecretKey\<rparr>
             in if s3c_AccessKeyID creds = [] \<or> s3c_SecretAccessKey creds = []
                then Inl \<lparr>ce_reason = ReasonSecretKeyMissing,
                       ce_message = ''Secret '' @ ref_text ref @ '' must carry non-empty '' @ go_quote DefaultAccessKeyIDSecretKey @
                         '' and '' @ go_quote DefaultSecretAccessKeySecretKey @ '' keys (it carries '' @ presentKeys data @ '')''\<rparr>
                else Inr creds))"

definition setCredentialsResolved :: "('w, 'g) sinkWorld \<Rightarrow> S3Sink \<Rightarrow> S3Credentials \<Rightarrow> statusWriter \<Rightarrow> statusWriter" where
  "setCredentialsResolved w s3Sink creds status =
     (if IsAmbient creds
      then sw_set (sk_conditions w) ConditionCredentialsResolved ConditionTrue ReasonAmbientCredentials
             (''This sink names no Secret and authenticates from the ambient credential chain '' @
              ''(IRSA, workload identity or an instance role)'') status
      else sw_set (sk_conditions w) ConditionCredentialsResolved ConditionTrue ReasonSecretResolved
             (''Read the access key from Secret '' @ ref_text (s3_secretRef w s3Sink)) status)"

definition bucketCondition :: "('w, 'g) sinkWorld \<Rightarrow> S3Sink \<Rightarrow> ProbeResult option \<Rightarrow> statusWriter \<Rightarrow> statusWriter" where
  "bucketCondition w s3Sink latest status =
     (let api = sk_conditions w in
      case latest of
        None \<Rightarrow> sw_set api ConditionBucketReachable ConditionUnknown ReasonProbePending ''Waiting for the first health probe to settle'' status
      | Some result \<Rightarrow>
          if pr_Err result = None
          then sw_set api ConditionBucketReachable ConditionTrue ReasonBucketWritable
                 (''Bucket '' @ s3s_Bucket s3Sink @ '' accepted a probe object'') status
          else if pr_Reason result = ProbeReasonSchemaInvalid
          then sw_set api ConditionBucketReachable ConditionFalse ReasonBucketIncompatible
                 (''Bucket '' @ s3s_Bucket s3Sink @ '' will not accept the objects this sink writes: '' @ sk_errText w (pr_Err result)) status
          else sw_set api ConditionBucketReachable ConditionFalse ReasonBucketUnreachable
                 (''Bucket '' @ s3s_Bucket s3Sink @ '' did not answer: '' @ sk_errText w (pr_Err result)) status)"

definition s3_setHealthConditions ::
    "('w, 'g) sinkWorld \<Rightarrow> probeStore \<Rightarrow> S3Sink \<Rightarrow> credentialError + S3Credentials \<Rightarrow> statusWriter \<Rightarrow> statusWriter" where
  "s3_setHealthConditions w store s3Sink resolved status =
     (let api = sk_conditions w;
          unchecked = sw_set api ConditionBucketReachable ConditionUnknown ReasonCredentialsUnavailable
                        ''The bucket cannot be checked until the sink's credentials resolve''
      in case resolved of
           Inl credErr \<Rightarrow>
             unchecked (sw_set api ConditionCredentialsResolved ConditionFalse (ce_reason credErr) (ce_message credErr) status)
         | Inr creds \<Rightarrow>
             (let latest = ps_latest (s3SinkID (s3s_Name s3Sink)) store in
              case latest of
                Some result \<Rightarrow>
                  if pr_Reason result = ProbeReasonCredentialsInvalid
                  then unchecked (sw_set api ConditionCredentialsResolved ConditionFalse ReasonCredentialsUnavailable
                         (''No credential could be obtained for this sink: '' @ sk_errText w (pr_Err result)) status)
                  else bucketCondition w s3Sink latest (setCredentialsResolved w s3Sink creds status)
              | None \<Rightarrow> bucketCondition w s3Sink latest (setCredentialsResolved w s3Sink creds status)))"

definition writerOnlySinkMessage :: string where
  "writerOnlySinkMessage =
     ''This sink cannot read its own history back, so three behaviours are disabled '' @
     ''for it: dedup cache warm-up, zombie garbage collection, and boot reconciliation of scope epochs. '' @
     ''An object first seen by this operator process is therefore always a permanent Snapshot and never an '' @
     ''Added, every object is re-snapshotted in full after each operator restart, and deletions that occur '' @
     ''while the operator is down are never recorded. '' @
     ''kuberecord_safe_mode stays at 1 for every scope on this sink, which is where the same fact is '' @
     ''observable in metrics. This is a declared capability limit of this backend (D12) and not a fault, so '' @
     ''Ready stays True; pair it with a ClickHouseSink over the same resources for a queryable timeline.''"

definition historyReadableMessage :: string where
  "historyReadableMessage =
     ''This sink can read its own history back, so dedup cache warm-up, zombie '' @
     ''garbage collection and boot reconciliation of scope epochs all run for it.''"

definition setHistoryUnavailable :: "('w, 'g) sinkWorld \<Rightarrow> ('w, 'g) SinkManager \<Rightarrow> S3Sink \<Rightarrow> statusWriter \<Rightarrow> statusWriter" where
  "setHistoryUnavailable w m s3Sink status =
     (let api = sk_conditions w in
      case CapabilitiesFor m (s3SinkID (s3s_Name s3Sink)) of
        None \<Rightarrow> sw_set api ConditionHistoryUnavailable ConditionUnknown ReasonCapabilitiesUnknown
                  ''This sink has no running instance yet, so what its backend can do has not been detected'' status
      | Some historyReadable \<Rightarrow>
          if historyReadable
          then sw_set api ConditionHistoryUnavailable ConditionFalse ''HistoryReadable'' historyReadableMessage status
          else sw_set api ConditionHistoryUnavailable ConditionTrue ''WriterOnlySink'' writerOnlySinkMessage status)"

definition s3SinkReadyOrder :: "string list" where
  "s3SinkReadyOrder = [ConditionCredentialsResolved, ConditionBucketReachable]"

definition s3_report ::
    "('w, 'g) sinkWorld \<Rightarrow> S3Sink \<Rightarrow> credentialError + S3Credentials \<Rightarrow> ('w, 'g) sinkCtlState \<Rightarrow> sinkResult \<times> ('w, 'g) sinkCtlState" where
  "s3_report w s3Sink resolved s =
     (let api = sk_conditions w;
          status = s3_setHealthConditions w (sks_Probes s) s3Sink resolved (sw_new (s3s_Generation s3Sink));
          status = setHistoryUnavailable w (sks_Manager s) s3Sink status;
          previousReady = findCondition api (ss_Conditions (s3s_Status s3Sink)) ConditionReady;
          previousHistory = findCondition api (ss_Conditions (s3s_Status s3Sink)) ConditionHistoryUnavailable;
          ready = readyFor api status s3SinkReadyOrder ReasonArchiving
                    (''Bucket '' @ s3s_Bucket s3Sink @ '' accepted a write from this sink's credentials'');
          status = sw_set api ConditionReady (cd_Status ready) (cd_Reason ready) (cd_Message ready) status;
          limit = (case findCondition api (sw_conditions status) ConditionHistoryUnavailable of
                     None \<Rightarrow> []
                   | Some history \<Rightarrow> emitCapabilityLimitEvent (sk_recorder w) previousHistory history)
      in writeSinkStatus w (s3SinkID (s3s_Name s3Sink)) (''update S3Sink '' @ go_quote (s3s_Name s3Sink)) status
           (emitReadyEvent (sk_recorder w) previousReady ready @ limit) s)"

definition s3_Reconcile ::
    "('w, 'g) sinkWorld \<Rightarrow> (string \<Rightarrow> S3Credentials \<Rightarrow> string + 'g option) \<Rightarrow> string \<Rightarrow> apiError + S3Sink \<Rightarrow> ('w, 'g) sinkCtlState
     \<Rightarrow> sinkResult \<times> ('w, 'g) sinkCtlState" where
  "s3_Reconcile w BuildConfig name answer s =
     (case answer of
        Inl err \<Rightarrow>
          if ae_NotFound err then (SinkDone, withdrawSink (s3SinkID name) s)
          else (SinkRetry (''get S3Sink '' @ go_quote name @ '': '' @ ae_Text err), s)
      | Inr s3Sink \<Rightarrow>
          (case resolveCredentials w s3Sink of
             Inl credErr \<Rightarrow> s3_report w s3Sink (Inl credErr) s
           | Inr creds \<Rightarrow>
               (case declare_config w (s3SinkID (s3s_Name s3Sink)) (BuildConfig (s3s_Name s3Sink) creds) (sks_Manager s) of
                  (Some err, m) \<Rightarrow> (SinkRetry err, s\<lparr>sks_Manager := m\<rparr>)
                | (None, m) \<Rightarrow> s3_report w s3Sink (Inr creds) (s\<lparr>sks_Manager := m\<rparr>))))"

section \<open>Health\<close>

lemma writeSinkStatus_stored:
  assumes "writeSinkStatus w i errPrefix status events s = (SinkResync, s')" and "gm_get (sks_Stored s') i = Some stored"
  shows "\<exists>existing. ss_Conditions stored = sw_apply (sk_conditions w) status existing" and "sks_Manager s' = sks_Manager s"
    and "sks_Probes s' = sks_Probes s"
  using assms by (auto simp: writeSinkStatus_def dest!: updateStatus_stored split: sum.splits) (rule exI, rule refl)

lemma declare_config_cases:
  "declare_config w i built m = (err, m') \<Longrightarrow>
     m' = m \<or> (\<exists>cfg. built = Inr (Some cfg) \<and> m' = snd (Ensure (sk_fingerprint w) (sk_factory w) i (Some cfg) m))"
  by (auto simp: declare_config_def split: sum.splits option.splits prod.splits)

lemma declare_config_ok:
  "declare_config w i built m = (None, m') \<Longrightarrow>
     \<exists>cfg. built = Inr (Some cfg) \<and> Ensure (sk_fingerprint w) (sk_factory w) i (Some cfg) m = (None, m')"
  by (auto simp: declare_config_def split: sum.splits option.splits prod.splits)

lemma resolveCredential_read:
  "resolveCredential w chSink = Inr password \<Longrightarrow>
     \<exists>data. sk_getSecret w (ch_secretRef w chSink) = Inr data \<and> gm_get data DefaultCredentialsSecretKey = Some password \<and> password \<noteq> []"
  by (auto simp: resolveCredential_def Let_def split: sum.splits option.splits if_splits)

lemma resolveCredentials_named:
  "resolveCredentials w s3Sink = Inr creds \<Longrightarrow> hasSecretRef s3Sink \<Longrightarrow>
     \<exists>data. sk_getSecret w (s3_secretRef w s3Sink) = Inr data \<and> s3c_AccessKeyID creds = dataOr data DefaultAccessKeyIDSecretKey \<and>
       s3c_SecretAccessKey creds = dataOr data DefaultSecretAccessKeySecretKey \<and> s3c_AccessKeyID creds \<noteq> [] \<and> s3c_SecretAccessKey creds \<noteq> []"
  by (auto simp: resolveCredentials_def Let_def split: sum.splits if_splits)

text \<open>The schema condition is True only on a successful probe.\<close>

lemma ch_health_true:
  assumes "conditions_api_ok (sk_conditions w)"
    and "map_option fst (verdict_at (sk_conditions w) (sw_conditions (ch_setHealthConditions w store chSink credErr status)) ConditionSchemaValid)
      = Some ConditionTrue"
  shows "credErr = None \<and> (\<exists>result. ps_latest (clickHouseSinkID (chs_Name chSink)) store = Some result \<and> pr_Err result = None)"
  using assms
  by (auto simp: ch_setHealthConditions_def Let_def verdict_sw_set condition_statuses split: if_splits option.splits)

lemma ch_health_decides:
  "conditions_api_ok (sk_conditions w) \<Longrightarrow>
     verdict_at (sk_conditions w) (sw_conditions (ch_setHealthConditions w store chSink credErr status)) ConditionSchemaValid \<noteq> None"
  by (simp add: ch_setHealthConditions_def Let_def verdict_sw_set split: option.split)

lemma ch_health_other:
  "conditions_api_ok (sk_conditions w) \<Longrightarrow> t \<noteq> ConditionSchemaValid \<Longrightarrow>
     verdict_at (sk_conditions w) (sw_conditions (ch_setHealthConditions w store chSink credErr status)) t = verdict_at (sk_conditions w) (sw_conditions status) t"
  by (simp add: ch_setHealthConditions_def Let_def verdict_sw_set split: option.split)

lemma ch_health_writer:
  "conditions_api_ok (sk_conditions w) \<Longrightarrow> writer_ok status \<Longrightarrow> writer_ok (ch_setHealthConditions w store chSink credErr status)"
  by (simp add: ch_setHealthConditions_def Let_def writer_ok_set split: option.split)

lemma ready_true_decided:
  assumes "cd_Status (readyFor api status order tr tm) = ConditionTrue" and "t \<in> set order" and "verdict_at api (sw_conditions status) t \<noteq> None"
  shows "map_option fst (verdict_at api (sw_conditions status) t) = Some ConditionTrue"
proof -
  have "fst (rollup (verdict_at api (sw_conditions status)) order (ConditionTrue, tr, tm)) = ConditionTrue"
    using assms(1) readyFor_rollup [of api status order tr tm] by (metis verdict_of_def fst_conv)
  then show ?thesis using assms(2,3) unfolding rollup_true_iff by (cases "verdict_at api (sw_conditions status) t") auto
qed

lemma ch_report_ready:
  assumes api: "conditions_api_ok (sk_conditions w)" and "writer_ok status"
    and "ch_report w chSink credErr status s = (SinkResync, s')"
    and "gm_get (sks_Stored s') (clickHouseSinkID (chs_Name chSink)) = Some stored"
    and "map_option fst (verdict_at (sk_conditions w) (ss_Conditions stored) ConditionReady) = Some ConditionTrue"
  shows "credErr = None \<and> (\<exists>result. ps_latest (clickHouseSinkID (chs_Name chSink)) (sks_Probes s) = Some result \<and> pr_Err result = None)
    \<and> sks_Manager s' = sks_Manager s"
proof -
  define h where "h = ch_setHealthConditions w (sks_Probes s) chSink credErr status"
  define rd where "rd = readyFor (sk_conditions w) h sinkReadyOrder ReasonConnected
    ''ClickHouse is reachable, authenticated and carries the expected schema''"
  have hw: "writer_ok h" unfolding h_def by (rule ch_health_writer [OF api assms(2)])
  note st = assms(3) [unfolded ch_report_def Let_def, folded h_def, folded rd_def]
  from writeSinkStatus_stored [OF st assms(4)] obtain existing where
    "ss_Conditions stored = sw_apply (sk_conditions w) (sw_set (sk_conditions w) ConditionReady (cd_Status rd) (cd_Reason rd) (cd_Message rd) h) existing"
    and m: "sks_Manager s' = sks_Manager s" by blast
  then have "cd_Status rd = ConditionTrue" using assms(5) by (simp add: applied_Ready [OF api hw] verdict_of_def)
  then have "map_option fst (verdict_at (sk_conditions w) (sw_conditions h) ConditionSchemaValid) = Some ConditionTrue"
    unfolding rd_def by (rule ready_true_decided) (simp_all add: sinkReadyOrder_def h_def ch_health_decides [OF api])
  then show ?thesis using ch_health_true [OF api] m unfolding h_def by blast
qed

text \<open>C13: A ClickHouse sink is reported Ready only on evidence. When a pass over the sink stores Ready, the password was read
  from the sink's Secret and is not empty, the manager accepted the configuration built from it, and the latest
  probe verdict stored for exactly this sink, kind included, is a success.\<close>

theorem ch_ready_means_probed:
  assumes api: "conditions_api_ok (sk_conditions w)"
    and pass: "ch_Reconcile w BuildConfig name (Inr chSink) s = (SinkResync, s')"
    and stored: "gm_get (sks_Stored s') (clickHouseSinkID (chs_Name chSink)) = Some stored"
    and ready: "map_option fst (verdict_at (sk_conditions w) (ss_Conditions stored) ConditionReady) = Some ConditionTrue"
  shows "\<exists>data password cfg result. sk_getSecret w (ch_secretRef w chSink) = Inr data \<and>
    gm_get data DefaultCredentialsSecretKey = Some password \<and> password \<noteq> [] \<and>
    BuildConfig (chs_Name chSink) password = Inr (Some cfg) \<and>
    Ensure (sk_fingerprint w) (sk_factory w) (clickHouseSinkID (chs_Name chSink)) (Some cfg) (sks_Manager s) = (None, sks_Manager s') \<and>
    gm_get (sks_Probes s) (clickHouseSinkID (chs_Name chSink)) = Some result \<and> pr_Err result = None"
proof (cases "resolveCredential w chSink")
  case (Inl credErr)
  from pass have "ch_report w chSink (Some credErr) (sw_set (sk_conditions w) ConditionCredentialsResolved ConditionFalse
      (ce_reason credErr) (ce_message credErr) (sw_new (chs_Generation chSink))) s = (SinkResync, s')"
    by (simp add: ch_Reconcile_def Inl Let_def)
  from ch_report_ready [OF api _ this stored ready] show ?thesis by (simp add: writer_ok_set api)
next
  case (Inr password)
  obtain err m where decl: "declare_config w (clickHouseSinkID (chs_Name chSink)) (BuildConfig (chs_Name chSink) password) (sks_Manager s) = (err, m)"
    by (metis prod.exhaust)
  have none: "err = None" using pass by (cases err) (simp_all add: ch_Reconcile_def Inr decl Let_def)
  obtain cfg where cfg: "BuildConfig (chs_Name chSink) password = Inr (Some cfg)"
    "Ensure (sk_fingerprint w) (sk_factory w) (clickHouseSinkID (chs_Name chSink)) (Some cfg) (sks_Manager s) = (None, m)"
    using declare_config_ok [OF decl [unfolded none]] by blast
  from pass have "ch_report w chSink None (sw_set (sk_conditions w) ConditionCredentialsResolved ConditionTrue ReasonSecretResolved
      (''Read the password from Secret '' @ ref_text (ch_secretRef w chSink)) (sw_new (chs_Generation chSink))) (s\<lparr>sks_Manager := m\<rparr>) = (SinkResync, s')"
    by (simp add: ch_Reconcile_def Inr decl none Let_def)
  from ch_report_ready [OF api _ this stored ready]
  have "\<exists>result. gm_get (sks_Probes s) (clickHouseSinkID (chs_Name chSink)) = Some result \<and> pr_Err result = None"
    and "sks_Manager s' = m" by (simp_all add: writer_ok_set api ps_latest_def)
  then show ?thesis using cfg resolveCredential_read [OF Inr] by blast
qed

definition sampleChSink :: ClickHouseSink where
  "sampleChSink = \<lparr>chs_Name = ''main'', chs_Generation = 3, chs_SecretRef = \<lparr>sref_Name = ''creds'', sref_Namespace = []\<rparr>,
     chs_Status = \<lparr>ss_Conditions = [], ss_ObservedGeneration = 0\<rparr>\<rparr>"

definition sampleSinkWorld :: "(string, string) sinkWorld" where
  "sampleSinkWorld = \<lparr>sk_conditions = sampleApi, sk_getSecret = (\<lambda>ref. Inr [(''password'', ''hunter2'')]), sk_fingerprint = (\<lambda>c. c),
     sk_factory = (\<lambda>i c. None), sk_errText = (\<lambda>e. []), sk_managerError = (\<lambda>e. []),
     sk_attempts = [Stored \<lparr>ss_Conditions = [], ss_ObservedGeneration = 0\<rparr>], sk_recorder = True, sk_OperatorNamespace = ''kuberecord''\<rparr>"

definition sampleSinkState :: "(string, string) sinkCtlState" where
  "sampleSinkState = \<lparr>sks_Manager = NewSinkManager,
     sks_Probes = ps_record \<lparr>pr_Sink = SinkID ''ClickHouseSink'' ''main'', pr_At = 0, pr_Err = None, pr_Reason = []\<rparr> [],
     sks_Stored = [], sks_Events = []\<rparr>"

lemma sample_sink_ready:
  "\<exists>s' stored. ch_Reconcile sampleSinkWorld (\<lambda>name password. Inr (Some password)) ''main'' (Inr sampleChSink) sampleSinkState = (SinkResync, s') \<and>
     gm_get (sks_Stored s') (clickHouseSinkID (chs_Name sampleChSink)) = Some stored \<and>
     map_option fst (verdict_at (sk_conditions sampleSinkWorld) (ss_Conditions stored) ConditionReady) = Some ConditionTrue"
proof -
  let ?x = "ch_Reconcile sampleSinkWorld (\<lambda>name password. Inr (Some password)) ''main'' (Inr sampleChSink) sampleSinkState"
  have "fst ?x = SinkResync" by code_simp
  moreover have "map_option (\<lambda>stored. map_option fst (verdict_at (sk_conditions sampleSinkWorld) (ss_Conditions stored) ConditionReady))
      (gm_get (sks_Stored (snd ?x)) (clickHouseSinkID (chs_Name sampleChSink))) = Some (Some ConditionTrue)" by code_simp
  then obtain stored where "gm_get (sks_Stored (snd ?x)) (clickHouseSinkID (chs_Name sampleChSink)) = Some stored"
    "map_option fst (verdict_at (sk_conditions sampleSinkWorld) (ss_Conditions stored) ConditionReady) = Some ConditionTrue"
    unfolding map_option_eq_Some by blast
  ultimately show ?thesis by (intro exI [of _ "snd ?x"] exI [of _ stored] conjI) (simp_all add: prod_eq_iff)
qed

theorem ch_ready_means_probed_witness:
  "\<exists>data password cfg result s'. sk_getSecret sampleSinkWorld (ch_secretRef sampleSinkWorld sampleChSink) = Inr data \<and>
    gm_get data DefaultCredentialsSecretKey = Some password \<and> password \<noteq> [] \<and> Inr (Some password) = (Inr (Some cfg) :: string + string option) \<and>
    Ensure (sk_fingerprint sampleSinkWorld) (sk_factory sampleSinkWorld) (clickHouseSinkID (chs_Name sampleChSink)) (Some cfg) (sks_Manager sampleSinkState) = (None, s') \<and>
    gm_get (sks_Probes sampleSinkState) (clickHouseSinkID (chs_Name sampleChSink)) = Some result \<and> pr_Err result = None"
proof -
  obtain s' stored where s': "ch_Reconcile sampleSinkWorld (\<lambda>name password. Inr (Some password)) ''main'' (Inr sampleChSink) sampleSinkState = (SinkResync, s')"
    "gm_get (sks_Stored s') (clickHouseSinkID (chs_Name sampleChSink)) = Some stored"
    "map_option fst (verdict_at (sk_conditions sampleSinkWorld) (ss_Conditions stored) ConditionReady) = Some ConditionTrue"
    using sample_sink_ready by blast
  have "conditions_api_ok (sk_conditions sampleSinkWorld)" by (simp add: sampleSinkWorld_def sampleApi_ok)
  from ch_ready_means_probed [OF this s'] show ?thesis by blast
qed

section \<open>S3 credentials\<close>

lemma writeSinkStatus_manager [simp]: "sks_Manager (snd (writeSinkStatus w i errPrefix status events s)) = sks_Manager s"
  by (simp add: writeSinkStatus_def split: sum.split)

lemma s3_report_manager [simp]: "sks_Manager (snd (s3_report w s3Sink resolved s)) = sks_Manager s"
  by (simp add: s3_report_def Let_def)

text \<open>C14: An S3 sink that names a key is never run with another identity. A pass over a sink leaves the manager alone or
  declares to it the configuration built from credentials that are, for a sink that names a Secret, the access key
  and the secret key read from that Secret, both of them present, and never the pod's own ambient identity; the ambient chain is
  used exactly by the sinks that name no Secret. A Secret that is missing, unreadable or carries half a
  key declares nothing.\<close>

theorem s3_named_key_never_ambient:
  "sks_Manager (snd (s3_Reconcile w BuildConfig name (Inr s3Sink) s)) = sks_Manager s \<or>
   (\<exists>creds cfg. BuildConfig (s3s_Name s3Sink) creds = Inr (Some cfg) \<and>
      sks_Manager (snd (s3_Reconcile w BuildConfig name (Inr s3Sink) s)) =
        snd (Ensure (sk_fingerprint w) (sk_factory w) (s3SinkID (s3s_Name s3Sink)) (Some cfg) (sks_Manager s)) \<and>
      IsAmbient creds = (\<not> hasSecretRef s3Sink) \<and>
      (if hasSecretRef s3Sink
       then \<exists>data. sk_getSecret w (s3_secretRef w s3Sink) = Inr data \<and> s3c_AccessKeyID creds = dataOr data DefaultAccessKeyIDSecretKey \<and>
         s3c_SecretAccessKey creds = dataOr data DefaultSecretAccessKeySecretKey \<and> s3c_AccessKeyID creds \<noteq> [] \<and> s3c_SecretAccessKey creds \<noteq> []
       else creds = s3_no_credentials))"
proof (cases "resolveCredentials w s3Sink")
  case (Inl credErr)
  then show ?thesis by (simp add: s3_Reconcile_def)
next
  case (Inr creds)
  obtain err m where decl: "declare_config w (s3SinkID (s3s_Name s3Sink)) (BuildConfig (s3s_Name s3Sink) creds) (sks_Manager s) = (err, m)"
    by (metis prod.exhaust)
  have m: "sks_Manager (snd (s3_Reconcile w BuildConfig name (Inr s3Sink) s)) = m"
    by (simp add: s3_Reconcile_def Inr decl split: option.split)
  consider "m = sks_Manager s" | cfg where "BuildConfig (s3s_Name s3Sink) creds = Inr (Some cfg)"
    "m = snd (Ensure (sk_fingerprint w) (sk_factory w) (s3SinkID (s3s_Name s3Sink)) (Some cfg) (sks_Manager s))"
    using declare_config_cases [OF decl] by blast
  then show ?thesis
  proof cases
    case 2
    show ?thesis
    proof (cases "hasSecretRef s3Sink")
      case True
      then show ?thesis using 2 m resolveCredentials_named [OF Inr True] by (auto simp: IsAmbient_def)
    next
      case False
      then have "creds = s3_no_credentials" using Inr by (simp add: resolveCredentials_def)
      then show ?thesis using 2 m False by (auto simp: IsAmbient_def s3_no_credentials_def)
    qed
  qed (simp add: m)
qed

end
