(* ===== verification/Spec2Isabelle.thy ===== *)
theory Spec2Isabelle
  imports WatchManager Resolver ArchiveState Coverage ClickHouse SinkManager Ownership Blame RuleController SinkController
begin

text \<open>
  KubeRecord is a Kubernetes operator that records every change of the objects its rules name in one
  or more sinks, and a client that reads the recorded history back. This development models the core
  of the operator (what is watched, what is recorded, how the record is kept exact over failures and
  restarts), the reconcilers that turn rules and sinks into watch targets and live sinks, the runtime that swaps live sinks, the ClickHouse and S3 sinks, the archive format, and the reader
  that answers timelines, states, coverage and ownership from that archive.

  \<^bold>\<open>How the parts fit together.\<close> The reconcilers (\<open>internal/controller\<close>) check a rule against its
  sink, the sink's policy, the kinds the cluster serves and the operator's access, and upsert the surviving targets in the
  registry (\<open>internal/plan\<close>). The watch manager (\<open>internal/watch\<close>) takes a snapshot of the registry, resolves the
  kinds, turns each target into an interest of a sink in an informer's stream, starts and stops
  informers, records the interval each scope was watched (the scope epochs) and tells the pipeline to
  forget a stopped scope. Informer events fan out to the interests that match them and become work
  items. The pipeline (\<open>internal/pipeline\<close>) processes a work item: it reads the live object, redacts it,
  normalizes it, compares its hash with the dedup cache, and hands the sink a row (Added, Modified,
  Checkpoint or Deleted); the sink's answer runs a commit callback that settles the reserved cache
  entry. After a restart the warm-up coordinator reads the last known states back from the sink, seeds
  the cache, closes the incarnations whose deletion was missed and collects zombies. A sink
  writes what it accepts and settles each record, and the sink manager (\<open>internal/sink\<close>) swaps and drains the live
  instances behind a sink's name: the S3 sink packs records into compressed objects
  filed under the hour of their first record. The client (\<open>internal/query\<close>) lists the partitions a question
  needs, decodes their objects, and replays rows into a timeline or the state of an object at an instant; its
  commands (\<open>internal/cli\<close>) replay a timeline once more to say what each change replaced and who last wrote each field.

  \<^bold>\<open>The theories, in the order of the imports, and what they model.\<close>

  \<^descr>[\<open>Prelude\<close>] Go's maps as association lists with distinct keys (\<open>gm_get\<close>, \<open>gm_set\<close>, \<open>gm_del\<close>,
    iterated in list order), byte strings, \<open>strings.Split\<close>, \<open>slices.Sorted\<close>, times and 64-bit
    durations with saturating subtraction.
  \<^descr>[\<open>Json\<close>, \<open>JsonParse\<close>] The values of \<open>encoding/json\<close>, its canonical rendering, and its decoder.
    The decoder inverts the encoder on well-formed values (\<open>unmarshal_marshal\<close>). Its fuel is the length
    of the text, which every recursive call shortens.
  \<^descr>[\<open>Identity\<close>] \<open>sink/id.go\<close>, \<open>pipeline/identity.go\<close>, \<open>special_kinds.go\<close>: sink identifiers and their order,
    object keys, scopes, cache keys and the prefix a scope owns.
  \<^descr>[\<open>Redact\<close>] \<open>pipeline/redact.go\<close>: the path grammar and its parser, \<open>CompileRedaction\<close>, \<open>MergeRedaction\<close>,
    the copy-on-write \<open>Apply\<close>. The recursive rewriting is proved equal to a reference that scrubs every
    addressed node, from which noninterference, scrubbing, the union law of merging and fail-closed
    compilation follow.
  \<^descr>[\<open>Sha256\<close>] The content digest, on 32-bit words.
  \<^descr>[\<open>HashCache\<close>] \<open>pipeline/hashcache.go\<close>: the versioned cache; \<open>versioned_store\<close> is the contract of its
    settlement operations, interpreted on the cache (\<open>hc\<close>).
  \<^descr>[\<open>Coalesce\<close>] \<open>pipeline/coalesce.go\<close>: the window that swallows count bumps of Events and its
    amortised sweep.
  \<^descr>[\<open>Normalize\<close>] \<open>pipeline/actors.go\<close>, the normalization half of \<open>process.go\<close>, the informer transform of
    \<open>watch/pool.go\<close>, the guard around the diff library and the checkpoint policy.
  \<^descr>[\<open>Pipeline\<close>] \<open>pipeline/pipeline.go\<close>, \<open>process.go\<close>: the heap of per-sink states, \<open>Process\<close> on every branch,
    the commit callbacks, close-outs, eviction and sink removal. \<open>reachable\<close> is the closure under work
    items, settlements in any order, and removals; its invariant carries the properties of rows.
  \<^descr>[\<open>Warm\<close>] \<open>pipeline/warm.go\<close>: seeding, the split of a history into incarnations, close-outs, zombie
    collection, recovery, the boot reconciliation of scope epochs and the registry of runs.
  \<^descr>[\<open>Plan\<close>] \<open>plan/registry.go\<close>: the reference-counted registry; \<open>refcounter\<close> is the contract of its
    counters (interpretation \<open>rc\<close>), and a snapshot refines the merge of the rules' own contributions.
  \<^descr>[\<open>EventFilter\<close>] \<open>watch/eventfilter.go\<close>: canonical form, compilation, evaluation, and the field selector
    derived from a filter.
  \<^descr>[\<open>Interest\<close>] \<open>watch/interest.go\<close>: an interest, the table of the installed ones and its two indexes.
  \<^descr>[\<open>ScopeRecorder\<close>] \<open>watch/scope_recorder.go\<close>: the edges, the bounded queue, the flush and its
    interleaving with new edges.
  \<^descr>[\<open>WatchManager\<close>] \<open>watch/manager.go\<close>, \<open>pool.go\<close>: a whole pass of the level-triggered loop, the pool, the
    fan-out of an informer event and the lookups the pipeline makes. What it needs of the recorder is
    the locale \<open>scope_recorder\<close> (interpretation \<open>er\<close>).
  \<^descr>[\<open>Resolver\<close>] \<open>watch/resolver.go\<close>: kind resolution behind the retry gate.
  \<^descr>[\<open>Replay\<close>] \<open>query/replay.go\<close>, \<open>query/filter.go\<close>: reconstruction from a base row and diffs, the actor and
    field-path predicates. The round trip with the pipeline's own rows is proved here.
  \<^descr>[\<open>Civil\<close>, \<open>Rfc3339\<close>] The parts of Go's \<open>time\<close> the archive relies on: the calendar, truncation to hours and
    days, the two partition layouts, and RFC 3339 texts, whose parser inverts the printer.
  \<^descr>[\<open>Layout\<close>] The keys of the archive as \<open>sink/s3/encoder.go\<close> writes them and as
    \<open>query/objectsource/layout.go\<close> and \<open>clusters.go\<close> prune them. A window lists each object it needs once.
  \<^descr>[\<open>RecordLine\<close>] A record as one line of JSON (\<open>sink/s3/object.go\<close>) and the reader's decoding of it
    (\<open>query/objectsource/line.go\<close>).
  \<^descr>[\<open>SinkPool\<close>] What the record writers of both sinks share: a bounded queue, workers and settlement callbacks. The
    locale \<open>sink_worker\<close> states the contract of a worker's steps and derives that every accepted record is settled
    once; the S3 and the ClickHouse writers are its interpretations.
  \<^descr>[\<open>ArchiveWriter\<close>] \<open>sink/s3\<close>: the one-shot encoder, the accumulating builder (equal on a batch), and the record
    writer: queue, workers, rotation by size and age, retries, settlement. \<open>s3_reachable\<close> is the closure
    under every event of the queue and the workers; every accepted record is settled once.
  \<^descr>[\<open>ScopeBatch\<close>] The loop both scope-transition writers run (batch, flush, bounded retry queue, final drain) over the
    locale \<open>scope_flush\<close>, whose law is what a flush does with its batch.
  \<^descr>[\<open>ScopeLog\<close>] \<open>sink/s3/scopewriter.go\<close>: the writer of scope transitions with its bounded retry queue; each
    transition is written, queued or counted as dropped. The final drain can write them out of order.
  \<^descr>[\<open>ArchiveScan\<close>] \<open>query/objectsource/engine.go\<close>, \<open>scan.go\<close>: the scan of partitions with partial failures. What
    was not read is reported.
  \<^descr>[\<open>ArchiveTimeline\<close>] \<open>query/objectsource/timeline.go\<close>: what a scan keeps, incarnations, the merge of Events, and
    the newest-first walk of a limited query, which refines the full scan.
  \<^descr>[\<open>ArchiveState\<close>] \<open>query/objectsource/state.go\<close>: the walk back to a settled base. It reads what the reading of every
    day would give, provided that each object is filed within the span before its records; an object filed
    later than one of its records breaks this.
  \<^descr>[\<open>Coverage\<close>] \<open>query/scope.go\<close>, \<open>query/objectsource/coverage.go\<close>: the scope log as intervals, which hold exactly the
    watched instants.
  \<^descr>[\<open>Ownership\<close>] \<open>query/ownership.go\<close>, \<open>query/objectsource/ownership.go\<close>: owner references of recorded states, one entry
    per incarnation, and the breadth-first walk with its two limits. The walk finds what is reachable, or says which
    limit cut it.
  \<^descr>[\<open>ClickHouse\<close>] \<open>sink/clickhouse/writer.go\<close>, \<open>scopewriter.go\<close>: the batching record writer and the scope writer over a driver
    whose answers are parameters. A batch the server rejects is isolated row by row, so that only the row at
    fault is refused.
  \<^descr>[\<open>SinkManager\<close>] \<open>sink/manager.go\<close>: which instance serves a sink, replacement, deletion and shutdown, with the drains and
    delete tails as goroutines of an interleaving (\<open>mg_reachable\<close>). A routed instance is never being drained, and
    the background work ends. A sink recreated between a tail's check and its calls loses its state.
  \<^descr>[\<open>Pointers\<close>] The JSON Pointers of \<open>cli/replay\<close> and the path grammars of \<open>cli/render/path.go\<close>: every leaf has one pointer,
    which resolves to it; a displayed path selects its field. The comparison of pointers is shown not to be an order.
  \<^descr>[\<open>Prior\<close>] \<open>cli/replay/rows.go\<close>, \<open>prior.go\<close>: decoded rows and the values their operations replaced, which are those of the
    state \<open>query.Replay\<close> reaches just before each row.
  \<^descr>[\<open>Blame\<close>] \<open>cli/replay/attribute.go\<close>: which change last wrote each field. The search for the last write meets its
    specification; a field credited to nobody was not changed by the run, when the patches move only what they
    name; appending to an array is a patch that does not, and is misattributed.
  \<^descr>[\<open>Conditions\<close>] \<open>controller/conditions.go\<close>, \<open>metrics.go\<close>: the registry keys of the rules and their round trip, the conditions a
    pass decides and their roll-up, the events of a change of verdict, and the gauge, which counts every rule once.
  \<^descr>[\<open>RuleController\<close>] \<open>controller/streamrule_controller.go\<close>, \<open>redaction.go\<close>, \<open>eventfilter.go\<close>: a whole pass over a rule through its
    gates (sink, policy, namespaces, kinds, access reviews) down to the registry, the status and the event. \<open>reconciled\<close> is
    the closure of the registry under passes of any rules. What is installed was cleared by every gate, core Secrets never are, a
    pass whose questions went unanswered withdraws nothing, and a rule that a completed pass reports
    as Ready streams; a pass that could not read the sink is not completed, and still stores Ready.
  \<^descr>[\<open>SinkController\<close>] \<open>controller/sink_controller.go\<close>, \<open>s3sink_controller.go\<close>: the passes over the two kinds of sinks, which declare them to
    the sink manager, and the store of probe verdicts. A Ready ClickHouse sink has a credential that was read, a configuration the
    manager accepted and a successful latest probe; an S3 sink that names its keys never falls back to ambient credentials.

  \<^bold>\<open>What this theory adds.\<close> The composition of the manager's pass with the pipeline: a cluster-wide
  rule removed beside a namespaced rule of the same sink forgets baselines that are still watched, and
  the next deletion there is never recorded. And the path of a sink's redaction floor: whatever rule a reconciler
  installed, the interest the watch manager translates it to scrubs at least what the sink's floor names.

  \<^bold>\<open>Bounds and conventions.\<close>
  \<^item> One \<open>Process\<close> call is one step, and so is one settlement: a callback never runs in the middle of a
    work item. Callbacks run in any order.
  \<^item> A retry loop consumes a list of answers of the outside (one per attempt) instead of waiting; the
    empty list is the cancelled context.
  \<^item> A Go map is ranged over in list order; no statement depends on which order that is.
  \<^item> Strings are bytes; a string that is not valid UTF-8 is kept as it is, where \<open>encoding/json\<close> would
    substitute. Numbers are integers and are not rounded to a float64.
  \<^item> The decoder of the canonical event filter reads members by their exact names; Go also accepts a
    case-insensitive match, which the encoder never writes.
  \<^item> The lines of the archive are read the same way, by exact member names.
  \<^item> A cancelled context is the set of parallel units that did not run. Loops whose step is a parameter
    (\<open>chunk\<close>, \<open>walkNewest\<close>) stop at a step of zero, which the constructors of the engine exclude.
  \<^item> \<open>reconcileScopeEpochs\<close> returns early on cancellation; this is a prefix of the same loop.

  \<^bold>\<open>Parameters.\<close> Code outside the repository is an argument of the definitions that use it, with what is
  relied on as a named hypothesis: the Kubernetes object accessors (\<open>accessors_ok\<close>), the diff and patch
  libraries, zstd (\<open>stream_ok\<close>), the object store's answers, label selectors, field selectors, the REST
  mapper, the helpers on conditions (\<open>conditions_api_ok\<close>), and the API server as the reconcilers see it (\<open>ruleWorld\<close>,
  \<open>sinkWorld\<close>; \<open>keys_apart\<close>: the printed resource and namespace under which an access review is remembered tell the served ones apart).

  \<^bold>\<open>Not modelled.\<close> The registration of the reconcilers with the controller manager (watches, field indexes), the ClickHouse
  state reader, schema probe and query engine (their SQL is evaluated by the server), timers and the network
  connections behind the sink manager, the AWS client and the bucket and directory sources, cost estimates and
  progress counters of the reader, the commands of the client and the rendering of its output, the entry points, the
  generated code, and the conformance suites, which are tests.
\<close>

section \<open>Stopping one of two overlapping watches\<close>

lemma stops_evict:
  "snd (snd (fold (stopInterest lib recStopped evict at) is (m, r, p))) = fold (\<lambda>i. evict (si_sink i) (si_scope i)) is p"
  by (induction "is" arbitrary: m r p) (auto simp: stopInterest_apply)

lemma starts_pipeline: "snd (snd (fold (startInterest lib recStarted at) is (m, r, p))) = p"
  by (induction "is" arbitrary: m r) (auto simp: startInterest_apply)

lemma pass_pipeline:
  "snd (snd (reconcilePool lib recStarted recStopped evict resolve fails at snapshot (m, r, p))) =
     fold (\<lambda>i. evict (si_sink i) (si_scope i)) (fst (replace (fst (translate lib resolve snapshot)) (wm_table m))) p"
  unfolding reconcilePool_unfold Let_def case_prod_beta
  using stops_evict [of lib recStopped evict at _ _ r p] by (simp add: starts_pipeline [unfolded split_paired_all, simplified] case_prod_beta)

text \<open>What an eviction does to one sink's state, seen at one object.\<close>

definition forgotten :: "addr \<Rightarrow> Key \<Rightarrow> pipeline \<Rightarrow> bool" where
  "forgotten a ref p \<longleftrightarrow> Load (cacheKey ref) (st_cache (st_of a p)) = None"

lemma EvictScope_frame:
  assumes "pipeline_ok p"
  shows "p_jobs (EvictScope i scope p) = p_jobs p" and "p_states (EvictScope i scope p) = p_states p"
    and "st_closeOuts (st_of a (EvictScope i scope p)) = st_closeOuts (st_of a p)"
    and "forgotten a ref p \<Longrightarrow> forgotten a ref (EvictScope i scope p)"
    and "registry_lookup i p = Some a \<Longrightarrow> has_prefix (cacheKey ref) (scopeKeyPrefix scope) \<Longrightarrow> forgotten a ref (EvictScope i scope p)"
proof -
  show "p_jobs (EvictScope i scope p) = p_jobs p" and "p_states (EvictScope i scope p) = p_states p"
    by (auto simp: EvictScope_def Let_def case_prod_beta recordCacheEntries_def upd_cache_def split: option.splits)
  have b: "b < length (p_heap p) \<and> gm_wf (st_cache (st_of b p))" if "registry_lookup i p = Some b" for b
    using that assms ok_st_of [OF assms, of b] by (auto simp: registry_lookup_def pipeline_ok_def st_ok_def)
  show "st_closeOuts (st_of a (EvictScope i scope p)) = st_closeOuts (st_of a p)"
    using b by (auto simp: EvictScope_def Let_def case_prod_beta recordCacheEntries_def upd_cache_def st_of_def upd_st_def emit_def
      nth_list_update split: option.splits)
  show "forgotten a ref p \<Longrightarrow> forgotten a ref (EvictScope i scope p)"
    using b by (auto simp: forgotten_def Load_def EvictScope_def Let_def case_prod_beta recordCacheEntries_def upd_cache_def
      st_of_def upd_st_def emit_def nth_list_update gm_get_DeletePrefix split: option.splits)
  show "registry_lookup i p = Some a \<Longrightarrow> has_prefix (cacheKey ref) (scopeKeyPrefix scope) \<Longrightarrow> forgotten a ref (EvictScope i scope p)"
    using b [of a] by (auto simp: forgotten_def Load_def EvictScope_def Let_def case_prod_beta recordCacheEntries_def upd_cache_def
      st_of_def upd_st_def emit_def gm_get_DeletePrefix)
qed

lemma evictions:
  assumes "pipeline_ok p" and "fold (\<lambda>i. EvictScope (si_sink i) (si_scope i)) is p = q"
  shows "pipeline_ok q \<and> p_jobs q = p_jobs p \<and> p_states q = p_states p \<and> st_closeOuts (st_of a q) = st_closeOuts (st_of a p)
    \<and> (forgotten a ref p \<longrightarrow> forgotten a ref q)
    \<and> ((\<exists>x\<in>set is. registry_lookup (si_sink x) p = Some a \<and> has_prefix (cacheKey ref) (scopeKeyPrefix (si_scope x))) \<longrightarrow> forgotten a ref q)"
  using assms
proof (induction "is" arbitrary: p)
  case (Cons x "is")
  let ?p = "EvictScope (si_sink x) (si_scope x) p"
  have ok: "pipeline_ok ?p" by (rule ok_EvictScope [OF Cons.prems(1)])
  note f = EvictScope_frame [OF Cons.prems(1), where i = "si_sink x" and scope = "si_scope x"]
  have look: "registry_lookup i ?p = registry_lookup i p" for i by (simp add: registry_lookup_def f(2))
  show ?case using Cons.IH [OF ok] Cons.prems(2) f(1) f(2) f(3) [of a] f(4) [of a ref] f(5) [of a ref] by (auto simp: look)
qed simp

lemma wide_prefix: "has_prefix (cacheKey ref) (scopeKeyPrefix \<lparr>scope_group = key_group ref, scope_kind = key_kind ref, scope_namespace = []\<rparr>)"
  by (simp add: has_prefix_def cacheKey_def scopeKeyPrefix_def)

lemma delete_of_forgotten:
  assumes "forgotten a ref p" and "registry_lookup (key_sink ref) p = Some a" and "a < length (p_heap p)"
    and "gm_get (st_closeOuts (st_of a p)) (cacheKey ref) = None"
    and "env_lister env ref = Inr (None, True)" and "env_router env (key_sink ref) = Some w" and "\<not> Key_ephemeral ref"
  shows "fst (Process env ref p) = None" and "p_jobs (snd (Process env ref p)) = p_jobs p"
proof -
  have g: "registry_get (key_sink ref) p = (a, p)" using assms(2) by (simp add: registry_get_def registry_lookup_def)
  define p1 where "p1 = retryPendingCloseOuts ref a w (cacheKey ref) p"
  have p1: "p1 = upd_st a (\<lambda>st. st\<lparr>st_closeOuts := gm_del (cacheKey ref) (st_closeOuts (st_of a p))\<rparr>) p"
    using assms(4) by (simp add: p1_def retryPendingCloseOuts_def closeOut_TakeAll_def)
  have c: "gm_get (st_cache (st_of a p1)) (cacheKey ref) = None"
    using assms(1,3) by (simp add: p1 forgotten_def Load_def st_of_def upd_st_def)
  have "Process env ref p = (let ((_, err), s) = emitDelete env ref a w [] p1 in (map_option EnqueueFailed err, s))"
    using assms(5-7) g by (simp add: Process_def p1_def Let_def)
  moreover have "emitDelete env ref a w [] p1 = ((deleteClaimAbsent, None), upd_st a (\<lambda>st. st\<lparr>st_cache := st_cache (st_of a p1)\<rparr>) p1)"
    using c by (simp add: emitDelete_def upd_cache_def ReserveDelete_def)
  ultimately show "fst (Process env ref p) = None" "p_jobs (snd (Process env ref p)) = p_jobs p"
    by (simp_all add: p1)
qed

text \<open>
  C19: Stopping a cluster-wide watch silences deletions of objects another rule still watches. When a
  pass removes a cluster-wide interest of a sink, the eviction drops the baselines of every namespace
  of that kind, those included that a namespaced interest of the same sink still answers for. The
  next deletion of such an object finds no entry to claim: processing it succeeds and writes nothing,
  so the object stays alive in the sink's history.
\<close>

theorem overlapping_stop_loses_deletion:
  assumes "pipeline_ok p" and "registry_lookup (key_sink ref) p = Some a"
    and "gm_get (st_closeOuts (st_of a p)) (cacheKey ref) = None"
    and "wide \<in> set (fst (replace (fst (translate lib resolve snapshot)) (wm_table m)))"
    and "si_sink wide = key_sink ref"
    and "si_scope wide = \<lparr>scope_group = key_group ref, scope_kind = key_kind ref, scope_namespace = []\<rparr>"
    and "reconcilePool lib recStarted recStopped EvictScope resolve fails at snapshot (m, r, p) = (m', r', p')"
    and "lookupIdentity ref (wm_table m') \<noteq> []"
    and "env_lister env ref = Inr (None, True)" and "env_router env (key_sink ref) = Some w" and "\<not> Key_ephemeral ref"
  shows "fst (Process env ref p') = None \<and> p_jobs (snd (Process env ref p')) = p_jobs p"
proof -
  let ?removed = "fst (replace (fst (translate lib resolve snapshot)) (wm_table m))"
  have p': "p' = fold (\<lambda>i. EvictScope (si_sink i) (si_scope i)) ?removed p"
    using pass_pipeline [of lib recStarted recStopped EvictScope resolve fails at snapshot m r p] assms(7) by simp
  have "\<exists>x\<in>set ?removed. registry_lookup (si_sink x) p = Some a \<and> has_prefix (cacheKey ref) (scopeKeyPrefix (si_scope x))"
    using assms(2,4,5,6) wide_prefix by force
  then have ok: "pipeline_ok p'" "p_jobs p' = p_jobs p" "p_states p' = p_states p"
    "st_closeOuts (st_of a p') = st_closeOuts (st_of a p)" "forgotten a ref p'"
    using evictions [OF assms(1) p' [symmetric], of a ref] by auto
  have a: "registry_lookup (key_sink ref) p' = Some a" "a < length (p_heap p')"
    using assms(2) ok(1,3) by (auto simp: registry_lookup_def pipeline_ok_def)
  have q: "gm_get (st_closeOuts (st_of a p')) (cacheKey ref) = None" using assms(3) ok(4) by simp
  show ?thesis using delete_of_forgotten [OF ok(5) a q assms(9-11)] ok(2) by simp
qed

definition nsTarget :: WatchTarget where "nsTarget = sample_target [] []"
definition wideTarget :: WatchTarget where "wideTarget = nsTarget\<lparr>wtg_Namespace := []\<rparr>"

definition overlapRegistry :: Registry where
  "overlapRegistry = snd (Upsert Some ''r2'' [nsTarget] (snd (Upsert Some ''r1'' [wideTarget] Registry_New)))"

definition narrowRegistry :: Registry where
  "narrowRegistry = Remove ''r1'' overlapRegistry"

lemma overlap_registered: "registered Some overlapRegistry" "registered Some narrowRegistry"
  unfolding narrowRegistry_def overlapRegistry_def by (intro registered.intros)+

lemma overlap_rules:
  "reg_rules overlapRegistry = [(''r1'', [wideTarget]), (''r2'', [nsTarget])]" "reg_rules narrowRegistry = [(''r2'', [nsTarget])]"
  by (simp_all add: narrowRegistry_def overlapRegistry_def Remove_def Upsert_def Registry_New_def canonicalizeSelectorString_def
      currentSet_def notifyLocked_def Let_def gm_get_def gm_set_def gm_del_def wideTarget_def nsTarget_def sample_target_def)

lemma plain_state:
  "registered Some reg \<Longrightarrow> wanted_at (reg_rules reg) (WatchTarget_Key t) = [(rk, t)] \<Longrightarrow> t = nsTarget \<or> t = wideTarget \<Longrightarrow>
   gm_get (Snapshot reg) (WatchTarget_Key t) = Some \<lparr>ts_Key = WatchTarget_Key t, ts_RuleKeys = [rk], ts_Selectors = [[]],
     ts_Redactions = [], ts_EventFilters = [[]]\<rparr>"
  unfolding Snapshot_merged [OF registered_ok]
  by (auto simp: merged_def Let_def sorted_set_def wideTarget_def nsTarget_def sample_target_def)

lemma plain_served:
  "\<exists>i. translateTarget sampleLib sampleResolve (WatchTarget_Key t, \<lparr>ts_Key = WatchTarget_Key t, ts_RuleKeys = [rk], ts_Selectors = [[]],
     ts_Redactions = [], ts_EventFilters = [[]]\<rparr>) =
     Some (\<lparr>is_GVR = fst (the (sampleResolve (WatchTarget_Key t))), is_Namespace = wtg_Namespace t\<rparr>, i)"
proof -
  have "redactionPaths [] = []" by (simp add: redactionPaths_def)
  then show ?thesis
    by (simp add: translateTarget_def sampleResolve_def Let_def newScopeInterest_def sampleLib_def compileEventFilters_def WatchTarget_Key_def)
qed

text \<open>An interest for each of the two targets is installed, and the pass without the wide rule removes the wide one.\<close>

lemma overlap_installed:
  assumes "registered Some reg" and "wanted_at (reg_rules reg) (WatchTarget_Key t) = [(rk, t)]" and "t = nsTarget \<or> t = wideTarget"
  obtains x where "gm_get (fst (translate sampleLib sampleResolve (Snapshot reg))) (interest_id x) = Some x"
    and "si_sink x = wtg_Sink t" and "si_gvk x = wtg_GVK t" and "is_Namespace (ik_scope (si_informer x)) = wtg_Namespace t"
    and "si_scope x = \<lparr>scope_group = gvk_Group (wtg_GVK t), scope_kind = gvk_Kind (wtg_GVK t), scope_namespace = wtg_Namespace t\<rparr>"
proof -
  let ?built = "builtInterests sampleLib sampleResolve (Snapshot reg)"
  let ?st = "\<lparr>ts_Key = WatchTarget_Key t, ts_RuleKeys = [rk], ts_Selectors = [[]], ts_Redactions = [], ts_EventFilters = [[]]\<rparr>"
  have sok: "snapshot_ok (Snapshot reg)" using Snapshot_keys [OF registered_ok [OF assms(1)]] by (simp add: snapshot_ok_def)
  obtain s i where t: "translateTarget sampleLib sampleResolve (WatchTarget_Key t, ?st) = Some (s, i)" using plain_served by blast
  obtain gvr n where s: "s = \<lparr>is_GVR = gvr, is_Namespace = tk_Namespace (WatchTarget_Key t)\<rparr>"
    and new: "newScopeInterest sampleLib ?st s = Inr i" by (rule translateTarget_ok [OF t])
  have "(WatchTarget_Key t, ?st) \<in> set (Snapshot reg)" using plain_state [OF assms] by (rule gm_get_in_set)
  then have "(s, i) \<in> set ?built" unfolding builtInterests_in using t by blast
  then have x: "stampInformer (informerServing ?built s) i \<in> stamped ?built" by (force simp: stamped_def)
  show ?thesis
    using that [of "stampInformer (informerServing ?built s) i"] x translate_installs(1) [OF sok sample_kinds_known] newScopeInterest_ok(2-4) [OF new] s
    by (simp add: stampInformer_def informerServing_def WatchTarget_Key_def)
qed

lemma narrow_has_no_wide: "gm_get (fst (translate sampleLib sampleResolve (Snapshot narrowRegistry))) k = Some y \<Longrightarrow>
    is_Namespace (ii_informer k) \<noteq> []"
proof -
  assume g: "gm_get (fst (translate sampleLib sampleResolve (Snapshot narrowRegistry))) k = Some y"
  let ?built = "builtInterests sampleLib sampleResolve (Snapshot narrowRegistry)"
  note ok = registered_ok [OF overlap_registered(2)]
  have sok: "snapshot_ok (Snapshot narrowRegistry)" using Snapshot_keys [OF ok] by (simp add: snapshot_ok_def)
  have y: "y \<in> stamped ?built" "interest_id y = k" using g translate_installs(1) [OF sok sample_kinds_known] by blast+
  then obtain s j where j: "(s, j) \<in> set ?built" "y = stampInformer (informerServing ?built s) j" by (auto simp: stamped_def)
  then obtain st where "(\<lparr>tk_Sink = si_sink j, tk_GVK = sampleKindOf (is_GVR s), tk_Namespace = is_Namespace s\<rparr>, st) \<in> set (Snapshot narrowRegistry)"
    using built_wf(2) [OF sok sample_kinds_known j(1)] by blast
  then have "gm_get (Snapshot narrowRegistry) \<lparr>tk_Sink = si_sink j, tk_GVK = sampleKindOf (is_GVR s), tk_Namespace = is_Namespace s\<rparr> = Some st"
    using gm_get_iff_set [OF Snapshot_keys(1) [OF ok]] by blast
  then have "is_Namespace s \<noteq> []"
    unfolding Snapshot_merged [OF ok] merged_def overlap_rules
    by (auto simp: wanted_at_def Let_def nsTarget_def sample_target_def WatchTarget_Key_def split: if_splits)
  then show ?thesis using y(2) j(2) by (auto simp: interest_id_def stampInformer_def informerServing_def)
qed

definition livePipeline :: pipeline where
  "livePipeline = (newPipeline (\<lambda>_. 0))\<lparr>p_heap := [sinkState_new\<lparr>st_cache := [(cacheKey sample_key, sample_entry)]\<rparr>],
     p_states := [(key_sink sample_key, 0)]\<rparr>"

lemma livePipeline_ok: "pipeline_ok livePipeline"
  by (simp add: livePipeline_def newPipeline_def pipeline_ok_def st_ok_def sinkState_new_def gm_wf_def gm_get_def co_wf_def coalescer_zero_def split: if_splits)

theorem overlapping_stop_loses_deletion_witness:
  "\<exists>m m' r' p'. reconcilePool sampleLib epochStarted epochStopped EvictScope sampleResolve (\<lambda>_. False) 20 (Snapshot narrowRegistry)
      (m, sampleRecorder, livePipeline) = (m', r', p')
    \<and> Load (cacheKey sample_key) (st_cache (st_of 0 livePipeline)) = Some sample_entry
    \<and> lookupIdentity sample_key (wm_table m') \<noteq> []
    \<and> fst (Process (sample_env None) sample_key p') = None
    \<and> p_jobs (snd (Process (sample_env None) sample_key p')) = p_jobs livePipeline"
proof -
  define m where "m = fst (reconcilePool sampleLib epochStarted epochStopped EvictScope sampleResolve (\<lambda>_. False) 10
    (Snapshot overlapRegistry) (newWatchManager, sampleRecorder, livePipeline))"
  obtain m' r' p' where pass: "reconcilePool sampleLib epochStarted epochStopped EvictScope sampleResolve (\<lambda>_. False) 20 (Snapshot narrowRegistry)
      (m, sampleRecorder, livePipeline) = (m', r', p')" by (metis prod.exhaust)
  have wt: "wanted_at (reg_rules overlapRegistry) (WatchTarget_Key wideTarget) = [(''r1'', wideTarget)]"
    "wanted_at (reg_rules narrowRegistry) (WatchTarget_Key nsTarget) = [(''r2'', nsTarget)]"
    by (simp_all add: wanted_at_def overlap_rules wideTarget_def nsTarget_def sample_target_def WatchTarget_Key_def)
  obtain wide where w: "gm_get (fst (translate sampleLib sampleResolve (Snapshot overlapRegistry))) (interest_id wide) = Some wide"
    "si_sink wide = wtg_Sink wideTarget" "is_Namespace (ik_scope (si_informer wide)) = wtg_Namespace wideTarget"
    "si_scope wide = \<lparr>scope_group = gvk_Group (wtg_GVK wideTarget), scope_kind = gvk_Kind (wtg_GVK wideTarget), scope_namespace = wtg_Namespace wideTarget\<rparr>"
    using overlap_installed [OF overlap_registered(1) wt(1)] by blast
  obtain ns where n: "gm_get (fst (translate sampleLib sampleResolve (Snapshot narrowRegistry))) (interest_id ns) = Some ns"
    "si_sink ns = wtg_Sink nsTarget" "si_gvk ns = wtg_GVK nsTarget" "is_Namespace (ik_scope (si_informer ns)) = wtg_Namespace nsTarget"
    using overlap_installed [OF overlap_registered(2) wt(2)] by blast
  have "gm_get (fst (translate sampleLib sampleResolve (Snapshot narrowRegistry))) (interest_id wide) = None"
    using narrow_has_no_wide [of "interest_id wide"] w(3) by (cases "gm_get (fst (translate sampleLib sampleResolve (Snapshot narrowRegistry))) (interest_id wide)")
      (auto simp: interest_id_def wideTarget_def)
  then have removed: "wide \<in> set (fst (replace (fst (translate sampleLib sampleResolve (Snapshot narrowRegistry))) (wm_table m)))"
    using gm_get_in_set [OF w(1)] by (force simp: set_replace_removed m_def pass_table)
  have tab: "wm_table m' = snd (replace (fst (translate sampleLib sampleResolve (Snapshot narrowRegistry))) (wm_table m))"
    using pass_table [of sampleLib epochStarted epochStopped EvictScope sampleResolve "\<lambda>_. False" 20 "Snapshot narrowRegistry" "(m, sampleRecorder, livePipeline)"] pass
    by simp
  have "ns \<in> set (lookupIdentity sample_key (wm_table m'))"
    unfolding tab lookupIdentity_set [OF indexed_replace]
    using gm_get_in_set [OF n(1)] n(2-4) by (force simp: answers_for_def sample_key_def nsTarget_def sample_target_def)
  then have l: "lookupIdentity sample_key (wm_table m') \<noteq> []" by auto
  have "fst (Process (sample_env None) sample_key p') = None \<and> p_jobs (snd (Process (sample_env None) sample_key p')) = p_jobs livePipeline"
    by (rule overlapping_stop_loses_deletion [OF livePipeline_ok _ _ removed _ _ pass l, where a = 0 and w = sample_writer])
      (use w(2,4) in \<open>simp_all add: livePipeline_def newPipeline_def registry_lookup_def gm_get_def st_of_def sinkState_new_def
        sample_env_def sample_key_def wideTarget_def nsTarget_def sample_target_def Key_ephemeral_def ephemeralKind_def eventKind_def\<close>)
  moreover have "Load (cacheKey sample_key) (st_cache (st_of 0 livePipeline)) = Some sample_entry"
    by (simp add: livePipeline_def st_of_def Load_def gm_get_def)
  ultimately show ?thesis using pass l by blast
qed

section \<open>From a sink's redaction floor to the pipeline\<close>

lemma installed_carries_floor:
  assumes "keys_apart w (served w)" and "rw_getRule w = Inr obj"
    and "rw_getSink w (id_kind (sinkIDFrom (srs_Sink (ro_Spec obj)))) (id_name (sinkIDFrom (srs_Sink (ro_Spec obj)))) = Inr boundSink"
    and "t \<in> set (currentSet (rule_key k req) (rst_Registry (snd (Reconcile w k req s))))"
    and "t \<notin> set (currentSet (rule_key k req) (rst_Registry s))"
    and "one_line (sp_Redaction (rsk_policy boundSink) @ srs_ExtraRedaction (ro_Spec obj))"
    and "rule \<in> set (sp_Redaction (rsk_policy boundSink))" and "redactionRulePath rule \<noteq> []"
  shows "redactionRulePath rule \<in> set (split_on (CHR 0x0A) (wtg_Redaction t))"
proof -
  obtain t' where cl: "cleared w k obj t'" and t: "t = canonicalTarget (rw_parse w) t'"
    using installed_cleared [OF assms(1), of k req s] assms(2,4,5) by (metis sum.inject(2))
  have "wtg_Redaction t = canonicalRedaction (sp_Redaction (rsk_policy boundSink)) (srs_ExtraRedaction (ro_Spec obj))"
    using cl assms(3) by (auto simp: cleared_def t canonicalTarget_def)
  then show ?thesis using canonicalRedaction_paths [OF assms(6,8)] assms(7) by auto
qed

text \<open>
  C9: The redaction floor of a sink reaches the pipeline, through every rule. Whatever passes the registry went
  through, when a pass over a rule installs a watch target, every path of the bound sink's floor is in the
  policy the pipeline is given for every object that target covers, once a pass of the watch manager serves it:
  neither the rule, nor the merge with other rules and scopes, nor the round through the registry's strings can lower the floor.
\<close>

theorem sink_floor_reaches_pipeline:
  assumes "reconciled (rw_parse w) (rst_Registry s)" and "keys_apart w (served w)" and "rw_getRule w = Inr obj"
    and "rw_getSink w (id_kind (sinkIDFrom (srs_Sink (ro_Spec obj)))) (id_name (sinkIDFrom (srs_Sink (ro_Spec obj)))) = Inr boundSink"
    and "one_line (sp_Redaction (rsk_policy boundSink) @ srs_ExtraRedaction (ro_Spec obj))"
    and "rule \<in> set (sp_Redaction (rsk_policy boundSink))" and "redactionRulePath rule \<noteq> []"
    and "reg = rst_Registry (snd (Reconcile w k req s))"
    and "t \<in> set (currentSet (rule_key k req) reg)" and "t \<notin> set (currentSet (rule_key k req) (rst_Registry s))"
    and "kinds_known kindOf resolve"
    and "\<exists>state served. gm_get (Snapshot reg) (WatchTarget_Key t) = Some state
      \<and> translateTarget lib resolve (WatchTarget_Key t, state) = Some served"
    and "key_sink ref = wtg_Sink t" and "key_group ref = gvk_Group (wtg_GVK t)" and "key_kind ref = gvk_Kind (wtg_GVK t)"
    and "wtg_Namespace t = key_namespace ref \<or> wtg_Namespace t = []"
  shows "\<exists>pol q. RedactionFor ref (fst (reconcilePool lib recStarted recStopped evict resolve fails at (Snapshot reg) st)) = Some (Some pol)
    \<and> parseRedactionPath (redactionRulePath rule) = Inr q \<and> q \<in> set (policy_paths pol)"
proof -
  have rd: "registered (rw_parse w) reg"
    unfolding assms(8) by (rule reconciled_registered) (rule reconciled.pass [OF assms(1) refl])
  obtain targets where targets: "gm_get (reg_rules reg) (rule_key k req) = Some targets" "t \<in> set targets"
    using assms(9) by (cases "gm_get (reg_rules reg) (rule_key k req)") (auto simp: currentSet_def)
  have "redactionRulePath rule \<in> set (split_on (CHR 0x0A) (wtg_Redaction t))"
    using installed_carries_floor [OF assms(2-4)] assms(5-10) by blast
  from redaction_reaches_pipeline [OF rd targets this assms(7,11,12,13,14,15,16)] show ?thesis .
qed

definition floorRegistry :: Registry where
  "floorRegistry = rst_Registry (snd (Reconcile (sampleCluster (Inr sampleTargetSink)) streamRuleKind sampleRequest sampleState))"

definition floorTarget :: WatchTarget where
  "floorTarget = \<lparr>wtg_Sink = SinkID ''ClickHouseSink'' ''main'', wtg_GVK = \<lparr>gvk_Group = [], gvk_Version = ''v1'', gvk_Kind = ''ConfigMap''\<rparr>,
     wtg_Namespace = ''prod'', wtg_Selector = [], wtg_Redaction = ''data.password'', wtg_EventFilter = []\<rparr>"

lemma floor_rules: "reg_rules floorRegistry = [(rule_key streamRuleKind sampleRequest, [floorTarget])]"
  by code_simp

lemma floor_reconciled: "reconciled Some (rst_Registry sampleState)" "reconciled Some floorRegistry"
proof -
  show start: "reconciled Some (rst_Registry sampleState)" by (simp add: sampleState_def reconciled.start)
  show "reconciled Some floorRegistry"
    unfolding floorRegistry_def by (rule reconciled.pass [OF start]) (simp add: sampleCluster_def)
qed

lemma floor_served:
  "\<exists>state served. gm_get (Snapshot floorRegistry) (WatchTarget_Key floorTarget) = Some state
     \<and> translateTarget sampleLib sampleResolve (WatchTarget_Key floorTarget, state) = Some served"
proof -
  have "gm_get (Snapshot floorRegistry) (WatchTarget_Key floorTarget) =
     Some \<lparr>ts_Key = WatchTarget_Key floorTarget, ts_RuleKeys = [rule_key streamRuleKind sampleRequest], ts_Selectors = [[]],
           ts_Redactions = [''data.password''], ts_EventFilters = [[]]\<rparr>"
    unfolding Snapshot_merged [OF registered_ok [OF reconciled_registered [OF floor_reconciled(2)]]] floor_rules
    by (simp add: merged_def wanted_at_def sorted_set_def floorTarget_def)
  moreover have "redactionPaths [''data.password''] = [''data.password'']" by (simp add: redactionPaths_def)
  moreover obtain pol where "CompileRedaction [''data.password''] = Inr pol" using sample_compiles by blast
  ultimately show ?thesis
    by (simp add: translateTarget_def sampleResolve_def Let_def newScopeInterest_def sampleLib_def compileEventFilters_def)
qed

theorem sink_floor_reaches_pipeline_witness:
  "\<exists>pol q. RedactionFor \<lparr>key_sink = SinkID ''ClickHouseSink'' ''main'', key_group = [], key_kind = ''ConfigMap'', key_namespace = ''prod'', key_name = ''web''\<rparr>
      (fst (reconcilePool sampleLib epochStarted epochStopped (\<lambda>_ _ p. p) sampleResolve (\<lambda>_. False) 10 (Snapshot floorRegistry)
        (newWatchManager, sampleRecorder, 0 :: nat))) = Some (Some pol)
    \<and> parseRedactionPath (redactionRulePath sampleSecretRule) = Inr q \<and> q \<in> set (policy_paths pol)"
proof (rule sink_floor_reaches_pipeline [where w = "sampleCluster (Inr sampleTargetSink)" and s = sampleState and obj = sampleRule
    and boundSink = sampleTargetSink and k = streamRuleKind and req = sampleRequest and t = floorTarget and kindOf = sampleKindOf])
  show "reconciled (rw_parse (sampleCluster (Inr sampleTargetSink))) (rst_Registry sampleState)"
    using floor_reconciled(1) by (simp add: sampleCluster_def)
  show "keys_apart (sampleCluster (Inr sampleTargetSink)) (served (sampleCluster (Inr sampleTargetSink)))" by (rule sample_keys)
  show "floorTarget \<in> set (currentSet (rule_key streamRuleKind sampleRequest) floorRegistry)"
    by (simp add: currentSet_def floor_rules gm_get_def)
  show "floorTarget \<notin> set (currentSet (rule_key streamRuleKind sampleRequest) (rst_Registry sampleState))"
    by (simp add: sampleState_def Registry_New_def currentSet_def)
  show "kinds_known sampleKindOf sampleResolve" by (rule sample_kinds_known)
  show "\<exists>state served. gm_get (Snapshot floorRegistry) (WatchTarget_Key floorTarget) = Some state
     \<and> translateTarget sampleLib sampleResolve (WatchTarget_Key floorTarget, state) = Some served" by (rule floor_served)
qed (simp_all add: floorRegistry_def floorTarget_def sampleCluster_def sampleTargetSink_def sampleRule_def one_line_def sampleSecretRule_def redactionRulePath_def)

end
